(* ===== verification/Prelude.thy ===== *)
theory Prelude
  imports Main "HOL-Library.Word" "HOL-Library.Product_Lexorder" "HOL-Library.List_Lexorder"
    "HOL-Library.Char_ord" "HOL-Library.Multiset"
begin

text \<open>
  What the components of the development share: the types the Rust sources use everywhere
  (byte strings, identifiers, machine words), the result type of fallible operations with its
  bind and its fold, and the generic lemmas on lists, multisets and words.

  Rust's \<open>String\<close>, \<open>&str\<close>, \<open>Vec<u8>\<close> and \<open>&[u8]\<close> are all lists of bytes (a
  \<open>String\<close> is one that is valid UTF-8); HOL's \<open>char\<close> is exactly a byte, so they are all
  \<open>string\<close> here and a literal is its UTF-8 encoding. Lengths are byte lengths and the order
  is the byte-wise one, as \<open>str::len\<close> and \<open>str::cmp\<close> have it.

  A \<open>Uuid\<close> is its 128 bits. Row, operation and label ids are \<open>i64\<close> counters that start at
  1 and move by one, so they are \<open>int\<close>; the values a user stores (\<open>Value::Int\<close>,
  \<open>Value::DateTime\<close>, \<open>Value::Float\<close>) and the versions keep their 64 bits.
\<close>

section \<open>Types\<close>

type_synonym bytes = string
type_synonym uuid = "128 word"
type_synonym i64 = "64 word"
type_synonym u64 = "64 word"
type_synonym f64 = "64 word"

section \<open>Collections of rules\<close>

named_theorems result_simps "how the result monad computes"
named_theorems frame_simps "what an operation leaves as it was"
named_theorems inv_intros "operations keep invariants"

section \<open>Results\<close>

text \<open>\<open>Result<T, E>\<close> is a sum, \<open>Err\<close> on the left. \<open>bindE\<close> is the question mark.\<close>

definition bindE :: "'e + 'a \<Rightarrow> ('a \<Rightarrow> 'e + 'b) \<Rightarrow> 'e + 'b" where
  "bindE m f = (case m of Inl e \<Rightarrow> Inl e | Inr x \<Rightarrow> f x)"

definition checkE :: "bool \<Rightarrow> 'e \<Rightarrow> 'e + unit" where
  "checkE b e = (if b then Inr () else Inl e)"

definition optE :: "'a option \<Rightarrow> 'e \<Rightarrow> 'e + 'a" where
  "optE m e = (case m of None \<Rightarrow> Inl e | Some x \<Rightarrow> Inr x)"

text \<open>A \<open>for\<close> loop that threads a state and may leave with an error.\<close>

fun foldE :: "('a \<Rightarrow> 's \<Rightarrow> 'e + 's) \<Rightarrow> 'a list \<Rightarrow> 's \<Rightarrow> 'e + 's" where
  "foldE f [] s = Inr s"
| "foldE f (x # xs) s = bindE (f x s) (foldE f xs)"

lemma bindE_simps [simp, result_simps]:
  "bindE (Inl e) f = Inl e"
  "bindE (Inr x) f = f x"
  by (simp_all add: bindE_def)

lemma bindE_eq_Inr: "bindE m f = Inr y \<longleftrightarrow> (\<exists>x. m = Inr x \<and> f x = Inr y)"
  by (cases m) simp_all

lemma bindE_eq_Inl: "bindE m f = Inl e \<longleftrightarrow> m = Inl e \<or> (\<exists>x. m = Inr x \<and> f x = Inl e)"
  by (cases m) simp_all

lemma bindE_cong [fundef_cong]:
  assumes "m = m'" and "\<And>x. m' = Inr x \<Longrightarrow> f x = g x"
  shows "bindE m f = bindE m' g"
  using assms by (cases m') (simp_all)

lemma bindE_assoc: "bindE (bindE m f) g = bindE m (\<lambda>x. bindE (f x) g)"
  by (cases m) simp_all

lemma checkE_eq [simp, result_simps]:
  "checkE b e = Inr u \<longleftrightarrow> b"
  "checkE b e = Inl e' \<longleftrightarrow> \<not> b \<and> e' = e"
  "checkE True e = Inr ()"
  "checkE False e = Inl e"
  by (auto simp: checkE_def)

lemma optE_eq [simp, result_simps]:
  "optE m e = Inr x \<longleftrightarrow> m = Some x"
  "optE (Some y) e = Inr y"
  "optE None e = Inl e"
  by (auto simp: optE_def split: option.splits)

lemma foldE_append: "foldE f (xs @ ys) s = bindE (foldE f xs s) (foldE f ys)"
proof (induction xs arbitrary: s)
  case Nil
  then show ?case by simp
next
  case (Cons x xs)
  show ?case by (cases "f x s") (simp_all add: Cons.IH)
qed

text \<open>An invariant of the body is an invariant of the loop.\<close>

lemma foldE_invariant:
  assumes "foldE f xs s = Inr t" and "P s"
    and "\<And>x a b. x \<in> set xs \<Longrightarrow> P a \<Longrightarrow> f x a = Inr b \<Longrightarrow> P b"
  shows "P t"
  using assms
proof (induction xs arbitrary: s)
  case Nil
  then show ?case by simp
next
  case (Cons x xs)
  then obtain a where a: "f x s = Inr a" and r: "foldE f xs a = Inr t" by (auto simp: bindE_eq_Inr)
  have "P a" using Cons.prems(2,3) a by (meson list.set_intros(1))
  then show ?case using Cons.IH [OF r] Cons.prems(3) by (meson list.set_intros(2))
qed

section \<open>Lists\<close>

lemma find_Some_in: "List.find P xs = Some x \<Longrightarrow> x \<in> set xs \<and> P x"
  by (induction xs) (auto split: if_splits)

lemma find_None_iff_all: "List.find P xs = None \<longleftrightarrow> (\<forall>x\<in>set xs. \<not> P x)"
  by (auto simp: find_None_iff)

lemma takeWhile_dropWhile_split:
  "xs = takeWhile P xs @ dropWhile P xs"
  by simp

text \<open>The first occurrence of each element under an equivalence test that need not be equality.\<close>

fun dedup_by :: "('a \<Rightarrow> 'a \<Rightarrow> bool) \<Rightarrow> 'a list \<Rightarrow> 'a list \<Rightarrow> 'a list" where
  "dedup_by eq kept [] = kept"
| "dedup_by eq kept (x # xs) =
     (if \<exists>k\<in>set kept. eq k x then dedup_by eq kept xs else dedup_by eq (kept @ [x]) xs)"

text \<open>No element is the twin of an earlier one.\<close>

fun twin_free :: "('a \<Rightarrow> 'a \<Rightarrow> bool) \<Rightarrow> 'a list \<Rightarrow> bool" where
  "twin_free eq [] \<longleftrightarrow> True"
| "twin_free eq (x # xs) \<longleftrightarrow> (\<forall>y\<in>set xs. \<not> eq x y) \<and> twin_free eq xs"

lemma twin_free_snoc:
  "twin_free eq (xs @ [y]) \<longleftrightarrow> twin_free eq xs \<and> (\<forall>x\<in>set xs. \<not> eq x y)"
  by (induction xs) auto

lemma twin_free_append_prefix: "twin_free eq (xs @ ys) \<Longrightarrow> twin_free eq xs"
  by (induction xs) auto

lemma dedup_by_twin_free: "twin_free eq kept \<Longrightarrow> twin_free eq (dedup_by eq kept xs)"
  by (induction eq kept xs rule: dedup_by.induct) (auto simp: twin_free_snoc)

lemma dedup_by_subset: "set (dedup_by eq kept xs) \<subseteq> set kept \<union> set xs"
  by (induction eq kept xs rule: dedup_by.induct) auto

lemma dedup_by_prefix: "\<exists>zs. dedup_by eq kept xs = kept @ zs"
proof (induction eq kept xs rule: dedup_by.induct)
  case (2 eq kept x xs)
  then show ?case by (cases "\<exists>k\<in>set kept. eq k x") auto
qed simp

lemma dedup_by_covers:
  "x \<in> set xs \<Longrightarrow> x \<in> set (dedup_by eq kept xs) \<or> (\<exists>k\<in>set (dedup_by eq kept xs). eq k x)"
proof (induction eq kept xs rule: dedup_by.induct)
  case (2 eq kept y ys)
  show ?case
  proof (cases "\<exists>k\<in>set kept. eq k y")
    case True
    then obtain k where k: "k \<in> set kept" "eq k y" by blast
    obtain zs where zs: "dedup_by eq kept ys = kept @ zs" using dedup_by_prefix by blast
    show ?thesis using 2 True k zs by (cases "x = y") auto
  next
    case False
    obtain zs where zs: "dedup_by eq (kept @ [y]) ys = (kept @ [y]) @ zs"
      using dedup_by_prefix by blast
    show ?thesis using 2 False zs by (cases "x = y") auto
  qed
qed simp

lemma no_pair_None [simp]: "(\<forall>a b. x \<noteq> Some (a, b)) \<longleftrightarrow> x = None"
  by (cases x) auto

section \<open>Words\<close>

lemma uint_take_bit: "uint (take_bit n (a::'a::len word)) = uint a mod 2 ^ n"
  by (metis take_bit_eq_mod unsigned_take_bit_eq)

end
