(* ===== verification/Table.thy ===== *)
theory Table
  imports Prelude
begin

text \<open>
  A table of the key-value store (\<open>crates/daemon/src/kvstore/table.rs\<close> over an LMDB database):
  an ordered map, read by key, by range and by prefix in key order. It is an association list
  here, in strictly increasing key order, so that iteration computes. The byte keys of the code
  are structured keys (tuples) compared component by component; \<open>Encoding\<close> proves that the
  byte keys the code builds compare in the same way.

  The locale \<open>table_ops\<close> is what the store relies on; \<open>tbl\<close> is its interpretation on the lists.
\<close>

type_synonym ('k, 'v) table = "('k \<times> 'v) list"

section \<open>Operations\<close>

definition tget :: "('k, 'v) table \<Rightarrow> 'k \<Rightarrow> 'v option" where
  "tget t k = map_of t k"

fun tput :: "'k::linorder \<Rightarrow> 'v \<Rightarrow> ('k, 'v) table \<Rightarrow> ('k, 'v) table" where
  "tput k v [] = [(k, v)]"
| "tput k v (e # t) =
     (if k = fst e then (k, v) # t
      else if k < fst e then (k, v) # e # t
      else e # tput k v t)"

definition tdel :: "'k \<Rightarrow> ('k, 'v) table \<Rightarrow> ('k, 'v) table" where
  "tdel k t = filter (\<lambda>e. fst e \<noteq> k) t"

text \<open>The entries whose key satisfies a test (a prefix, a range), in key order.\<close>

definition tscan :: "('k \<Rightarrow> bool) \<Rightarrow> ('k, 'v) table \<Rightarrow> ('k \<times> 'v) list" where
  "tscan p t = filter (\<lambda>e. p (fst e)) t"

definition tfirst :: "('k, 'v) table \<Rightarrow> 'k option" where
  "tfirst t = (case t of [] \<Rightarrow> None | e # _ \<Rightarrow> Some (fst e))"

definition ordered :: "('k::linorder, 'v) table \<Rightarrow> bool" where
  "ordered t \<longleftrightarrow> sorted_wrt (<) (map fst t)"

section \<open>Interface\<close>

locale table_ops =
  fixes lookup :: "'t \<Rightarrow> 'k::linorder \<Rightarrow> 'v option"
    and insert_at :: "'k \<Rightarrow> 'v \<Rightarrow> 't \<Rightarrow> 't"
    and remove_at :: "'k \<Rightarrow> 't \<Rightarrow> 't"
    and entries :: "('k \<Rightarrow> bool) \<Rightarrow> 't \<Rightarrow> ('k \<times> 'v) list"
    and wf :: "'t \<Rightarrow> bool"
  assumes lookup_insert: "lookup (insert_at k v t) = (lookup t)(k \<mapsto> v)"
    and lookup_remove: "lookup (remove_at k t) = (lookup t)(k := None)"
    and wf_insert: "wf t \<Longrightarrow> wf (insert_at k v t)"
    and wf_remove: "wf t \<Longrightarrow> wf (remove_at k t)"
    and entries_iff: "wf t \<Longrightarrow> (k, v) \<in> set (entries p t) \<longleftrightarrow> p k \<and> lookup t k = Some v"
    and entries_ordered: "wf t \<Longrightarrow> sorted_wrt (<) (map fst (entries p t))"
begin

lemma entries_empty_iff: "wf t \<Longrightarrow> entries p t = [] \<longleftrightarrow> (\<forall>k. p k \<longrightarrow> lookup t k = None)"
  by (metis entries_iff not_None_eq list.set_sel(1) empty_iff list.set(1) surj_pair)

lemma entries_distinct: "wf t \<Longrightarrow> distinct (map fst (entries p t))"
  using entries_ordered strict_sorted_iff by blast

text \<open>Removing a key and putting it back, or putting it twice, in any order.\<close>

lemma remove_insert_lookup: "lookup (remove_at k (insert_at k v t)) = (lookup t)(k := None)"
  by (simp add: lookup_insert lookup_remove)

end

section \<open>The lists provide it\<close>

lemma tget_put [simp]: "tget (tput k v t) = (tget t)(k \<mapsto> v)"
proof
  show "tget (tput k v t) j = ((tget t)(k \<mapsto> v)) j" for j
    by (induction k v t rule: tput.induct) (auto simp: tget_def)
qed

lemma tget_del [simp]: "tget (tdel k t) = (tget t)(k := None)"
proof
  show "tget (tdel k t) j = ((tget t)(k := None)) j" for j
    by (induction t) (auto simp: tget_def tdel_def)
qed

lemma tget_Nil [simp]: "tget [] k = None"
  by (simp add: tget_def)

lemma set_keys_tput: "set (map fst (tput k v t)) = insert k (set (map fst t))"
  by (induction k v t rule: tput.induct) auto

lemma ordered_Nil [simp]: "ordered []"
  by (simp add: ordered_def)

lemma ordered_put [simp, intro]: "ordered t \<Longrightarrow> ordered (tput k v t)"
proof (induction k v t rule: tput.induct)
  case (2 k v e t)
  then show ?case
    using set_keys_tput [of k v t] by (fastforce simp: ordered_def)
qed (simp add: ordered_def)

lemma sorted_wrt_map_filter: "sorted_wrt P (map f xs) \<Longrightarrow> sorted_wrt P (map f (filter Q xs))"
  by (induction xs) auto

lemma ordered_del [simp, intro]: "ordered t \<Longrightarrow> ordered (tdel k t)"
  by (simp add: ordered_def tdel_def sorted_wrt_map_filter)

lemma ordered_distinct: "ordered t \<Longrightarrow> distinct (map fst t)"
  using strict_sorted_iff by (auto simp: ordered_def)

lemma tget_Some_iff: "ordered t \<Longrightarrow> tget t k = Some v \<longleftrightarrow> (k, v) \<in> set t"
  by (simp add: tget_def ordered_distinct)

lemma tget_Some_in: "tget t k = Some v \<Longrightarrow> (k, v) \<in> set t"
  by (simp add: tget_def map_of_SomeD)

lemma in_tscan: "ordered t \<Longrightarrow> (k, v) \<in> set (tscan p t) \<longleftrightarrow> p k \<and> tget t k = Some v"
  by (auto simp: tscan_def tget_Some_iff)

lemma tscan_ordered: "ordered t \<Longrightarrow> ordered (tscan p t)"
  by (simp add: ordered_def tscan_def sorted_wrt_map_filter)

interpretation tbl: table_ops tget tput tdel tscan ordered
  by unfold_locales
    (auto simp: in_tscan dest: tscan_ordered simp: ordered_def [symmetric])

text \<open>The first key of a table is the least.\<close>

lemma tfirst_least: "ordered t \<Longrightarrow> tfirst t = Some k \<Longrightarrow> tget t j = Some v \<Longrightarrow> k \<le> j"
  by (cases t) (fastforce simp: tfirst_def ordered_def dest!: tget_Some_in)+

lemma tfirst_None: "tfirst t = None \<longleftrightarrow> t = []"
  by (simp add: tfirst_def split: list.splits)

text \<open>Ordered tables are determined by their lookups.\<close>

lemma table_ext:
  assumes "ordered s" and "ordered t" and "tget s = tget t"
  shows "s = t"
proof -
  have "set s = set t"
    using assms by (metis subrelI subset_antisym tget_Some_iff)
  moreover have "inj_on fst (set s \<union> set t)"
    using calculation ordered_distinct [OF assms(2)]
    by (auto simp: inj_on_def dest: eq_key_imp_eq_value)
  ultimately show ?thesis
    using assms(1,2) map_sorted_distinct_set_unique [of fst s t]
    by (simp add: ordered_def strict_sorted_iff)
qed

text \<open>What an insertion and a removal do to the multiset of the entries of a scan.\<close>

lemma mset_tput_new: "tget t k = None \<Longrightarrow> mset (tput k v t) = add_mset (k, v) (mset t)"
  by (induction k v t rule: tput.induct) (auto simp: tget_def)

lemma mset_tdel: "ordered t \<Longrightarrow> tget t k = Some v \<Longrightarrow> mset t = add_mset (k, v) (mset (tdel k t))"
proof (induction t)
  case (Cons e t)
  show ?case
  proof (cases "fst e = k")
    case True
    then have "k \<notin> set (map fst t)" using Cons.prems by (auto simp: ordered_def)
    then have "tdel k t = t" by (auto simp: tdel_def filter_id_conv)
    then show ?thesis using True Cons.prems by (auto simp: tdel_def tget_def)
  next
    case False
    then show ?thesis using Cons by (auto simp: tdel_def tget_def ordered_def)
  qed
qed simp

lemma mset_tscan: "mset (tscan p t) = filter_mset (\<lambda>e. p (fst e)) (mset t)"
  by (simp add: tscan_def)

lemma tget_tscan [simp]: "tget (tscan p t) k = (if p k then tget t k else None)"
  by (induction t) (auto simp: tget_def tscan_def)

lemma tscan_ConsD: "tscan p t = (k, v) # es \<Longrightarrow> p k"
  by (metis (mono_tags, lifting) fst_conv list.set_intros(1) mem_Collect_eq set_filter tscan_def)

text \<open>What is left of a table when its first entries go.\<close>

lemma tscan_not_prefix:
  assumes "ordered t"
  shows "tscan (\<lambda>k. k \<notin> fst ` set (take m t)) t = drop m t"
proof -
  have d: "distinct (map fst (take m t @ drop m t))" using ordered_distinct [OF assms] by simp
  have "filter (\<lambda>e. fst e \<notin> fst ` set (take m t)) (take m t @ drop m t) = drop m t"
    using d unfolding filter_append
    by (auto simp: filter_empty_conv filter_id_conv simp del: append_take_drop_id)
  then show ?thesis by (simp add: tscan_def)
qed

lemma ordered_drop_ge:
  assumes "ordered t" and "m < length t" and "e \<in> set (drop m t)"
  shows "fst (t ! m) \<le> fst e"
proof -
  have "drop m t = t ! m # drop (Suc m) t" using assms(2) by (simp add: Cons_nth_drop_Suc)
  moreover have "ordered (drop m t)" using assms(1) unfolding ordered_def by (simp flip: drop_map)
  ultimately show ?thesis using assms(3) by (auto simp: ordered_def)
qed

lemma ordered_take_drop_less:
  assumes "ordered t" and "a \<in> set (take m t)" and "b \<in> set (drop m t)"
  shows "fst a < fst b"
proof -
  have "sorted_wrt (<) (map fst (take m t) @ map fst (drop m t))"
    using assms(1) by (simp add: ordered_def flip: map_append)
  then show ?thesis using assms(2,3) by (auto simp: sorted_wrt_append)
qed

text \<open>Every key lies between the first and the last.\<close>

lemma ordered_between:
  assumes "ordered t" and "tget t j = Some v"
  shows "fst (hd t) \<le> j \<and> j \<le> fst (last t)"
proof -
  have j: "(j, v) \<in> set t" using tget_Some_iff [OF assms(1)] assms(2) by blast
  then obtain x xs y ys where t: "t = x # xs" "t = ys @ [y]" by (metis in_set_conv_nth length_pos_if_in_set list.exhaust list.size(3) not_less0 rev_exhaust)
  have "fst x \<le> j" using j assms(1) by (auto simp: t(1) ordered_def)
  moreover have "j \<le> fst y" using j assms(1) by (auto simp: t(2) ordered_def sorted_wrt_append)
  ultimately show ?thesis using t by (metis last_snoc list.sel(1))
qed

end
