(* ===== verification/Hex.thy ===== *)
theory Hex
  imports Prelude
begin

text \<open>
  \<open>crates/core/src/hex.rs\<close>: lowercase hexadecimal encoding of byte strings, and its inverse,
  which reads either case. A byte is a character here, its value \<open>of_char\<close>.
\<close>

section \<open>Model\<close>

definition byte_val :: "char \<Rightarrow> nat" where
  "byte_val c = of_char c"

definition HEX :: bytes where
  "HEX = ''0123456789abcdef''"

definition hex_byte :: "char \<Rightarrow> bytes" where
  "hex_byte b = [HEX ! (byte_val b div 16), HEX ! (byte_val b mod 16)]"

definition hex_encode :: "bytes \<Rightarrow> bytes" where
  "hex_encode bs = concat (map hex_byte bs)"

definition hex_digit :: "char \<Rightarrow> nat option" where
  "hex_digit c =
     (let n = byte_val c in
      if 48 \<le> n \<and> n \<le> 57 then Some (n - 48)
      else if 97 \<le> n \<and> n \<le> 102 then Some (n - 97 + 10)
      else if 65 \<le> n \<and> n \<le> 70 then Some (n - 65 + 10)
      else None)"

fun hex_pairs :: "bytes \<Rightarrow> bytes option" where
  "hex_pairs (a # b # rest) =
     (case hex_digit a of
        None \<Rightarrow> None
      | Some x \<Rightarrow>
        (case hex_digit b of
           None \<Rightarrow> None
         | Some y \<Rightarrow> map_option ((#) (char_of (x * 16 + y))) (hex_pairs rest)))"
| "hex_pairs _ = Some []"

definition hex_decode :: "bytes \<Rightarrow> bytes option" where
  "hex_decode t = (if length t mod 2 \<noteq> 0 then None else hex_pairs t)"

section \<open>Lemmas\<close>

lemma byte_val_less: "byte_val c < 256"
  by (simp add: byte_val_def)

lemma byte_val_eq [simp]: "char_of (byte_val c) = c"
  by (simp add: byte_val_def)

lemma length_HEX: "length HEX = 16"
  by (simp add: HEX_def)

lemma hex_digit_HEX: "n < 16 \<Longrightarrow> hex_digit (HEX ! n) = Some n"
proof -
  assume "n < 16"
  then have "n \<in> set [0..<16]" by simp
  moreover have "\<forall>n\<in>set [0..<16]. hex_digit (HEX ! n) = Some n" by code_simp
  ultimately show ?thesis by blast
qed

lemma hex_digit_less: "hex_digit c = Some x \<Longrightarrow> x < 16"
  by (auto simp: hex_digit_def Let_def split: if_splits)

lemma length_hex_encode: "length (hex_encode bs) = 2 * length bs"
  by (induction bs) (simp_all add: hex_encode_def hex_byte_def)

lemma hex_pairs_encode: "hex_pairs (hex_encode bs) = Some bs"
proof (induction bs)
  case Nil
  then show ?case by (simp add: hex_encode_def)
next
  case (Cons b bs)
  have "byte_val b div 16 < 16" and "byte_val b mod 16 < 16"
    using byte_val_less [of b] by auto
  then show ?case
    using Cons by (simp add: hex_encode_def hex_byte_def hex_digit_HEX)
qed

text \<open>The digits an encoding is made of: a second encoding of the decoded bytes is the first.\<close>

lemma hex_pairs_length: "hex_pairs t = Some bs \<Longrightarrow> even (length t) \<Longrightarrow> length t = 2 * length bs"
  by (induction t arbitrary: bs rule: hex_pairs.induct)
    (auto split: option.splits)

lemma hex_encode_inj: "hex_encode a = hex_encode b \<Longrightarrow> a = b"
  by (metis hex_pairs_encode option.inject)

end
