(* ===== verification/Metarecord.thy ===== *)
theory Metarecord
  imports Hex
begin

text \<open>
  \<open>crates/core/src/metarecord.rs\<close>: the values a field holds, the byte names of the nodes of a
  forest with their textual form, paths as joined names, and the metarecord itself.

  A \<open>TreeName\<close> and a \<open>TreePath\<close> are newtypes over their bytes. \<open>f64\<close> is its 64 bits; Rust's
  \<open>==\<close> on it (no NaN is equal to itself, the two zeros are equal) is \<open>f64_eq\<close>, and the derived
  \<open>PartialEq\<close> of \<open>Value\<close> is \<open>value_eq\<close>. The serde wire forms are the business of the serde
  crate and are left out, except that a name which is not text travels as the hex of its bytes
  (\<open>name_wire\<close>, \<open>name_unwire\<close>).
\<close>

section \<open>Values\<close>

datatype "value" =
    Nothing
  | VString string
  | VInt i64
  | VFloat f64
  | VBool bool
  | VDateTime i64
  | VRef uuid
  | VTreeRef "uuid option" bytes
  | VHierarchyRef "uuid option" bytes
  | VRefBase uuid
  | VExternalRef uuid uuid

datatype FieldType =
    FString | FInt | FFloat | FBool | FDateTime | FRef | FTreeRef | FHierarchyRef
  | FRefBase | FExternalRef

definition ZERO_UUID :: uuid where
  "ZERO_UUID = 0"

text \<open>IEEE 754 binary64, by its bits: sign, 11 bits of exponent, 52 of mantissa.\<close>

definition f64_mag :: "f64 \<Rightarrow> nat" where
  "f64_mag x = unat x mod 2 ^ 63"

definition f64_neg :: "f64 \<Rightarrow> bool" where
  "f64_neg x \<longleftrightarrow> 2 ^ 63 \<le> unat x"

definition f64_nan :: "f64 \<Rightarrow> bool" where
  "f64_nan x \<longleftrightarrow> 2047 * 2 ^ 52 < f64_mag x"

definition f64_eq :: "f64 \<Rightarrow> f64 \<Rightarrow> bool" where
  "f64_eq x y \<longleftrightarrow> \<not> f64_nan x \<and> \<not> f64_nan y \<and> (x = y \<or> f64_mag x = 0 \<and> f64_mag y = 0)"

fun value_eq :: "value \<Rightarrow> value \<Rightarrow> bool" where
  "value_eq (VFloat x) (VFloat y) \<longleftrightarrow> f64_eq x y"
| "value_eq v w \<longleftrightarrow> v = w"

definition is_position_type :: "string \<Rightarrow> bool" where
  "is_position_type t \<longleftrightarrow> t = ''tree_ref'' \<or> t = ''hierarchy_ref''"

fun ftype_as_str :: "FieldType \<Rightarrow> string" where
  "ftype_as_str FString = ''string''"
| "ftype_as_str FInt = ''int''"
| "ftype_as_str FFloat = ''float''"
| "ftype_as_str FBool = ''bool''"
| "ftype_as_str FDateTime = ''datetime''"
| "ftype_as_str FRef = ''ref''"
| "ftype_as_str FTreeRef = ''tree_ref''"
| "ftype_as_str FHierarchyRef = ''hierarchy_ref''"
| "ftype_as_str FRefBase = ''refbase''"
| "ftype_as_str FExternalRef = ''externalref''"

definition ftype_parse :: "string \<Rightarrow> FieldType option" where
  "ftype_parse s =
     (if s = ''string'' then Some FString
      else if s = ''int'' then Some FInt
      else if s = ''float'' then Some FFloat
      else if s = ''bool'' then Some FBool
      else if s = ''datetime'' then Some FDateTime
      else if s = ''ref'' then Some FRef
      else if s = ''tree_ref'' then Some FTreeRef
      else if s = ''hierarchy_ref'' then Some FHierarchyRef
      else if s = ''refbase'' then Some FRefBase
      else if s = ''externalref'' then Some FExternalRef
      else None)"

fun type_str :: "value \<Rightarrow> string" where
  "type_str Nothing = ''nothing''"
| "type_str (VString _) = ''string''"
| "type_str (VInt _) = ''int''"
| "type_str (VFloat _) = ''float''"
| "type_str (VBool _) = ''bool''"
| "type_str (VDateTime _) = ''datetime''"
| "type_str (VRef _) = ''ref''"
| "type_str (VTreeRef _ _) = ''tree_ref''"
| "type_str (VHierarchyRef _ _) = ''hierarchy_ref''"
| "type_str (VRefBase _) = ''refbase''"
| "type_str (VExternalRef _ _) = ''externalref''"

fun position :: "value \<Rightarrow> (uuid option \<times> bytes) option" where
  "position (VTreeRef p n) = Some (p, n)"
| "position (VHierarchyRef p n) = Some (p, n)"
| "position _ = None"

section \<open>Fields and metarecords\<close>

record Field =
  f_id :: "int option"
  f_name :: string
  f_value :: "value"

definition Field_new :: "string \<Rightarrow> value \<Rightarrow> Field" where
  "Field_new n v = \<lparr>f_id = None, f_name = n, f_value = v\<rparr>"

record MetaRecord =
  mr_uuid :: uuid
  mr_version :: u64
  mr_fields :: "Field list"

definition get_all :: "MetaRecord \<Rightarrow> string \<Rightarrow> value list" where
  "get_all r n = map f_value (filter (\<lambda>f. f_name f = n) (mr_fields r))"

definition get :: "MetaRecord \<Rightarrow> string \<Rightarrow> value option" where
  "get r n = map_option f_value (List.find (\<lambda>f. f_name f = n) (mr_fields r))"

section \<open>UTF-8\<close>

text \<open>
  What \<open>std::str::from_utf8\<close> says of the first character of a non-empty byte string: how many
  bytes it takes (\<open>Inr\<close>), or that the bytes go wrong (\<open>Inl\<close>), with the length of the faulty
  sequence, or nothing when the input ends in the middle of a character
  (\<open>Utf8Error::error_len\<close>).
\<close>

definition cont :: "char \<Rightarrow> bool" where
  "cont c \<longleftrightarrow> 128 \<le> byte_val c \<and> byte_val c \<le> 191"

definition in_range :: "nat \<Rightarrow> nat \<Rightarrow> char \<Rightarrow> bool" where
  "in_range lo hi c \<longleftrightarrow> lo \<le> byte_val c \<and> byte_val c \<le> hi"

text \<open>The bytes after the first, each in its range; \<open>k\<close> counts those read so far.\<close>

fun utf8_tail :: "nat \<Rightarrow> (char \<Rightarrow> bool) list \<Rightarrow> bytes \<Rightarrow> nat option + nat" where
  "utf8_tail k [] rest = Inr k"
| "utf8_tail k (p # ps) [] = Inl None"
| "utf8_tail k (p # ps) (c # rest) =
     (if p c then utf8_tail (Suc k) ps rest else Inl (Some k))"

definition utf8_ranges :: "char \<Rightarrow> (char \<Rightarrow> bool) list option" where
  "utf8_ranges c =
     (let n = byte_val c in
      if n < 128 then Some []
      else if 194 \<le> n \<and> n \<le> 223 then Some [cont]
      else if n = 224 then Some [in_range 160 191, cont]
      else if n = 237 then Some [in_range 128 159, cont]
      else if 225 \<le> n \<and> n \<le> 239 then Some [cont, cont]
      else if n = 240 then Some [in_range 144 191, cont, cont]
      else if 241 \<le> n \<and> n \<le> 243 then Some [cont, cont, cont]
      else if n = 244 then Some [in_range 128 143, cont, cont]
      else None)"

definition utf8_head :: "char \<Rightarrow> bytes \<Rightarrow> nat option + nat" where
  "utf8_head c rest =
     (case utf8_ranges c of None \<Rightarrow> Inl (Some 1) | Some ps \<Rightarrow> utf8_tail 1 ps rest)"

text \<open>\<open>from_utf8\<close>: \<open>None\<close> when valid, else \<open>valid_up_to\<close> and \<open>error_len\<close>.\<close>

lemma utf8_tail_Inr: "utf8_tail k ps rest = Inr w \<Longrightarrow> w = k + length ps \<and> length ps \<le> length rest"
  by (induction k ps rest rule: utf8_tail.induct) (auto split: if_splits)

lemma utf8_head_Inr: "utf8_head c rest = Inr w \<Longrightarrow> 1 \<le> w"
  by (auto simp: utf8_head_def dest!: utf8_tail_Inr split: option.splits)

function from_utf8_err :: "nat \<Rightarrow> bytes \<Rightarrow> (nat \<times> nat option) option" where
  "from_utf8_err k [] = None"
| "from_utf8_err k (c # rest) =
     (case utf8_head c rest of
        Inr w \<Rightarrow> from_utf8_err (k + w) (drop (w - 1) rest)
      | Inl e \<Rightarrow> Some (k, e))"
  by pat_completeness auto
termination
  by (relation "measure (\<lambda>(k, bs). length bs)") auto

abbreviation utf8_valid :: "bytes \<Rightarrow> bool" where
  "utf8_valid bs \<equiv> from_utf8_err 0 bs = None"

section \<open>Tree names\<close>

definition is_exact :: "bytes \<Rightarrow> bool" where
  "is_exact n \<longleftrightarrow> utf8_valid n"

definition is_component :: "bytes \<Rightarrow> bool \<Rightarrow> bool" where
  "is_component n is_root =
     (if n = [] then is_root
      else if n = ''.'' \<or> n = ''..'' then False
      else \<not> (\<exists>b\<in>set n. b = CHR ''/'' \<or> byte_val b = 0))"

definition UPPER_HEX :: bytes where
  "UPPER_HEX = ''0123456789ABCDEF''"

text \<open>The format \<open>%{byte:02X}\<close>.\<close>

definition percent :: "char \<Rightarrow> bytes" where
  "percent b = [CHR ''%'', UPPER_HEX ! (byte_val b div 16), UPPER_HEX ! (byte_val b mod 16)]"

lemma from_utf8_err_Some:
  "from_utf8_err k bs = Some (v, e) \<Longrightarrow> k \<le> v \<and> v < k + length bs \<and> (\<forall>n. e = Some n \<longrightarrow> 1 \<le> n)"
proof (induction k bs rule: from_utf8_err.induct)
  case (2 k c rest)
  have tail: "1 \<le> n" if "utf8_tail (Suc 0) ps r = Inl (Some n)" for ps r n
  proof -
    have "m \<le> n" if "utf8_tail m ps r = Inl (Some n)" for m
      using that by (induction m ps r rule: utf8_tail.induct) (auto split: if_splits)
    then show ?thesis using that by fastforce
  qed
  show ?case
  proof (cases "utf8_head c rest")
    case (Inl x)
    then show ?thesis using 2(2) tail
      by (auto simp: utf8_head_def split: option.splits)
  next
    case (Inr w)
    then have w: "1 \<le> w" "w \<le> Suc (length rest)"
      by (auto simp: utf8_head_def dest!: utf8_tail_Inr split: option.splits)
    from 2 Inr have "k + w \<le> v \<and> v < k + w + length (drop (w - 1) rest) \<and> (\<forall>n. e = Some n \<longrightarrow> 1 \<le> n)"
      by simp
    with w show ?thesis by auto
  qed
qed simp

function escape_bytes :: "bytes \<Rightarrow> string" where
  "escape_bytes rest =
     (case from_utf8_err 0 rest of
        None \<Rightarrow> rest
      | Some (valid_up_to, error_len) \<Rightarrow>
          let good = take valid_up_to rest; bad = drop valid_up_to rest;
              broken = (case error_len of Some n \<Rightarrow> n | None \<Rightarrow> length bad)
          in good @ concat (map percent (take broken bad)) @ escape_bytes (drop broken bad))"
  by pat_completeness auto
termination
proof (relation "measure length", goal_cases)
  case 1
  then show ?case by simp
next
  case (2 rest a v e good bad broken)
  have v: "v < length rest" and e: "\<And>n. e = Some n \<Longrightarrow> 1 \<le> n"
    using from_utf8_err_Some [of 0 rest v e] 2 by auto
  have "bad \<noteq> []" using 2 v by simp
  moreover have "1 \<le> broken" using 2 v e by (cases e) (auto simp: Suc_le_eq)
  ultimately show ?case using 2 by (simp add: Suc_le_eq)
qed

declare escape_bytes.simps [simp del]

definition display :: "bytes \<Rightarrow> string" where
  "display n = (if utf8_valid n then n else escape_bytes n)"

fun contains :: "bytes \<Rightarrow> bytes \<Rightarrow> bool" where
  "contains p [] \<longleftrightarrow> p = []"
| "contains p (c # cs) \<longleftrightarrow> take (length p) (c # cs) = p \<or> contains p cs"

text \<open>\<open>char::REPLACEMENT_CHARACTER\<close>, U+FFFD, in UTF-8.\<close>

definition REPLACEMENT_CHARACTER :: bytes where
  "REPLACEMENT_CHARACTER = [char_of (239::nat), char_of (191::nat), char_of (189::nat)]"

text \<open>\<open>u8::from_str_radix(h, 16)\<close> of two bytes: a leading plus sign is accepted.\<close>

definition radix16_2 :: "char \<Rightarrow> char \<Rightarrow> nat option" where
  "radix16_2 a b =
     (if a = CHR ''+'' then hex_digit b
      else (case hex_digit a of
              None \<Rightarrow> None
            | Some x \<Rightarrow> map_option (\<lambda>y. x * 16 + y) (hex_digit b)))"

text \<open>The loop of \<open>escaped_to_bytes\<close>: the bytes read so far and the number of escapes.\<close>

fun unescape :: "bytes \<Rightarrow> nat \<Rightarrow> bytes \<Rightarrow> (bytes \<times> nat) option" where
  "unescape out n [] = Some (out, n)"
| "unescape out n (c # rest) =
     (if c \<noteq> CHR ''%'' then unescape (out @ [c]) n rest
      else (case rest of
              a # b # rest' \<Rightarrow>
                (case radix16_2 a b of
                   None \<Rightarrow> None
                 | Some x \<Rightarrow> if x < 128 then None else unescape (out @ [char_of x]) (Suc n) rest')
            | _ \<Rightarrow> None))"

definition escaped_to_bytes :: "string \<Rightarrow> bytes option" where
  "escaped_to_bytes text =
     (if contains REPLACEMENT_CHARACTER text then None
      else (case unescape [] 0 text of
              None \<Rightarrow> None
            | Some (out, escapes) \<Rightarrow> if 0 < escapes then Some out else None))"

text \<open>The wire form: text as it is, anything else as text and the hex of the bytes.\<close>

datatype wire_name = WText string | WEncoded string string

definition name_wire :: "bytes \<Rightarrow> wire_name" where
  "name_wire n = (if utf8_valid n then WText n else WEncoded (display n) (hex_encode n))"

definition name_unwire :: "wire_name \<Rightarrow> bytes option" where
  "name_unwire w =
     (case w of WText t \<Rightarrow> Some t | WEncoded _ b \<Rightarrow> hex_decode b)"

section \<open>Tree paths\<close>

fun path_from_names :: "bytes list \<Rightarrow> bytes" where
  "path_from_names [] = []"
| "path_from_names [n] = n"
| "path_from_names (n # ns) = n @ CHR ''/'' # path_from_names ns"

text \<open>\<open>split(|b| b == '/')\<close>: one more piece than there are slashes.\<close>

fun split_on :: "char \<Rightarrow> bytes \<Rightarrow> bytes list" where
  "split_on s [] = [[]]"
| "split_on s (c # cs) =
     (if c = s then [] # split_on s cs
      else (case split_on s cs of [] \<Rightarrow> [[c]] | p # ps \<Rightarrow> (c # p) # ps))"

definition path_names :: "bytes \<Rightarrow> bytes list" where
  "path_names p = split_on (CHR ''/'') p"

text \<open>\<open>rposition\<close> of the slash cuts the path in two.\<close>

definition split_last :: "bytes \<Rightarrow> (bytes option \<times> bytes) option" where
  "split_last p =
     (if p = [] then None
      else if CHR ''/'' \<in> set p then
        Some (Some (rev (tl (dropWhile (\<lambda>c. c \<noteq> CHR ''/'') (rev p)))),
              rev (takeWhile (\<lambda>c. c \<noteq> CHR ''/'') (rev p)))
      else Some (None, p))"

section \<open>Lemmas: values\<close>

lemma value_eq_sym: "value_eq v w \<Longrightarrow> value_eq w v"
  by (cases v; cases w) (auto simp: f64_eq_def)

lemma value_eq_trans: "value_eq u v \<Longrightarrow> value_eq v w \<Longrightarrow> value_eq u w"
  by (cases u; cases v; cases w) (auto simp: f64_eq_def)

lemma value_eq_type: "value_eq v w \<Longrightarrow> type_str v = type_str w"
  by (cases v; cases w) auto

lemma value_eq_position: "value_eq v w \<Longrightarrow> position v = position w"
  by (cases v; cases w) auto

lemma value_eq_Nothing [simp]: "value_eq v Nothing \<longleftrightarrow> v = Nothing" "value_eq Nothing v \<longleftrightarrow> v = Nothing"
  by (cases v; simp)+

lemma position_type: "is_position_type (type_str v) \<longleftrightarrow> position v \<noteq> None"
  by (cases v) (auto simp: is_position_type_def)

lemma ftype_parse_as_str: "ftype_parse (ftype_as_str t) = Some t"
  by (cases t) (simp_all add: ftype_parse_def)

section \<open>Lemmas: names\<close>

lemma utf8_tail_bad_high:
  assumes "utf8_tail k ps rest = Inl e" and "\<forall>p\<in>set ps. \<forall>c. p c \<longrightarrow> 128 \<le> byte_val c"
  shows "\<forall>b\<in>set (take (case e of Some n \<Rightarrow> n - k | None \<Rightarrow> length rest) rest). 128 \<le> byte_val b"
  using assms
proof (induction k ps rest rule: utf8_tail.induct)
  case (3 k p ps c rest)
  show ?case
  proof (cases "p c")
    case True
    have "m \<le> n" if "utf8_tail m ps rest = Inl (Some n)" for m n
      using that by (induction m ps rest rule: utf8_tail.induct) (auto split: if_splits)
    then have "e = Some n \<Longrightarrow> Suc k \<le> n" for n using 3(2) True by simp
    then have "(case e of Some n \<Rightarrow> n - k | None \<Rightarrow> length (c # rest))
      = Suc (case e of Some n \<Rightarrow> n - Suc k | None \<Rightarrow> length rest)"
      by (fastforce split: option.splits)
    then show ?thesis using 3 True by simp
  next
    case False
    then show ?thesis using 3 by auto
  qed
qed simp_all

lemma utf8_ranges_high: "utf8_ranges c = Some ps \<Longrightarrow> \<forall>p\<in>set ps. \<forall>c. p c \<longrightarrow> 128 \<le> byte_val c"
  by (auto simp: utf8_ranges_def Let_def cont_def in_range_def split: if_splits)

lemma utf8_head_bad_high:
  assumes "utf8_head c rest = Inl e"
  shows "\<forall>b\<in>set (take (case e of Some n \<Rightarrow> n | None \<Rightarrow> Suc (length rest)) (c # rest)). 128 \<le> byte_val b"
proof (cases "utf8_ranges c")
  case None
  then have "128 \<le> byte_val c" by (auto simp: utf8_ranges_def Let_def split: if_splits)
  with None assms show ?thesis by (auto simp: utf8_head_def)
next
  case (Some ps)
  have t: "utf8_tail (Suc 0) ps rest = Inl e" using assms Some by (simp add: utf8_head_def)
  then have "ps \<noteq> []" by auto
  with Some have c: "128 \<le> byte_val c" by (auto simp: utf8_ranges_def Let_def split: if_splits)
  from utf8_tail_bad_high [OF t utf8_ranges_high [OF Some]]
  show ?thesis using c by (auto simp: take_Cons split: option.splits nat.splits)
qed

lemma from_utf8_err_bad_high:
  assumes "from_utf8_err k bs = Some (v, e)"
  shows "\<forall>b\<in>set (take (case e of Some n \<Rightarrow> n | None \<Rightarrow> length bs - (v - k)) (drop (v - k) bs)).
           128 \<le> byte_val b"
  using assms
proof (induction k bs rule: from_utf8_err.induct)
  case (2 k c rest)
  show ?case
  proof (cases "utf8_head c rest")
    case (Inl x)
    then have "v = k" "x = e" using 2(2) by auto
    then show ?thesis using utf8_head_bad_high [OF Inl] by (simp cong: option.case_cong)
  next
    case (Inr w)
    then have w: "1 \<le> w" by (rule utf8_head_Inr)
    have r: "from_utf8_err (k + w) (drop (w - 1) rest) = Some (v, e)" using 2(2) Inr by simp
    have v: "k + w \<le> v" using from_utf8_err_Some [OF r] by simp
    then have "drop (v - k) (c # rest) = drop (v - (k + w)) (drop (w - 1) rest)"
      using w by (cases "v - k") auto
    moreover have "length (c # rest) - (v - k) = length (drop (w - 1) rest) - (v - (k + w))"
      using v w by simp
    ultimately show ?thesis using 2(1) [OF Inr r] by (simp only:)
  qed
qed simp

lemma hex_digit_UPPER: "n < 16 \<Longrightarrow> hex_digit (UPPER_HEX ! n) = Some n \<and> UPPER_HEX ! n \<noteq> CHR ''+''"
proof -
  assume "n < 16"
  then have "n \<in> set [0..<16]" by simp
  moreover have "\<forall>n\<in>set [0..<16]. hex_digit (UPPER_HEX ! n) = Some n \<and> UPPER_HEX ! n \<noteq> CHR ''+''"
    by code_simp
  ultimately show ?thesis by blast
qed

lemma unescape_percent:
  assumes "128 \<le> byte_val b"
  shows "unescape out n (percent b @ rest) = unescape (out @ [b]) (Suc n) rest"
proof -
  have "byte_val b div 16 < 16" "byte_val b mod 16 < 16" using byte_val_less [of b] by auto
  then show ?thesis
    using assms by (simp add: percent_def radix16_2_def hex_digit_UPPER)
qed

lemma unescape_percents:
  assumes "\<forall>b\<in>set bs. 128 \<le> byte_val b"
  shows "unescape out n (concat (map percent bs) @ rest) = unescape (out @ bs) (n + length bs) rest"
  using assms by (induction bs arbitrary: out n) (simp_all add: unescape_percent)

lemma unescape_plain:
  assumes "CHR ''%'' \<notin> set xs"
  shows "unescape out n (xs @ rest) = unescape (out @ xs) n rest"
  using assms by (induction xs arbitrary: out) auto

lemma unescape_escape:
  assumes "CHR ''%'' \<notin> set bs"
  shows "\<exists>m. unescape out n (escape_bytes bs) = Some (out @ bs, n + m) \<and> (\<not> utf8_valid bs \<longrightarrow> 0 < m)"
  using assms
proof (induction bs arbitrary: out n rule: escape_bytes.induct)
  case (1 bs)
  show ?case
  proof (cases "from_utf8_err 0 bs")
    case None
    then have "escape_bytes bs = bs" by (subst escape_bytes.simps) simp
    then show ?thesis using None unescape_plain [OF 1(2), of out n "[]"] by simp
  next
    case (Some ve)
    obtain v e where ve: "ve = (v, e)" by fastforce
    define bad where "bad = drop v bs"
    define broken where "broken = (case e of Some n \<Rightarrow> n | None \<Rightarrow> length bad)"
    note err = Some [unfolded ve]
    have v: "v < length bs" "\<And>n. e = Some n \<Longrightarrow> 1 \<le> n"
      using from_utf8_err_Some [OF err] by auto
    then have pos: "0 < length (take broken bad)"
      by (auto simp: broken_def bad_def split: option.splits)
    have esc: "escape_bytes bs
        = take v bs @ concat (map percent (take broken bad)) @ escape_bytes (drop broken bad)"
      using err by (subst escape_bytes.simps) (simp add: bad_def broken_def Let_def cong: option.case_cong)
    have high: "\<forall>b\<in>set (take broken bad). 128 \<le> byte_val b"
      using from_utf8_err_bad_high [OF err] by (simp add: bad_def broken_def cong: option.case_cong)
    have sub: "set (take v bs) \<subseteq> set bs" "set (drop broken bad) \<subseteq> set bs"
      by (auto simp: bad_def dest: in_set_takeD in_set_dropD)
    obtain m where m: "unescape (out @ take v bs @ take broken bad) (n + length (take broken bad))
        (escape_bytes (drop broken bad))
        = Some ((out @ take v bs @ take broken bad) @ drop broken bad, n + length (take broken bad) + m)"
      using 1(1) [OF err refl refl bad_def broken_def] sub 1(2) by blast
    have whole: "take v bs @ take broken bad @ drop broken bad = bs"
      by (metis append_take_drop_id bad_def)
    have "unescape out n (escape_bytes bs)
        = unescape (out @ take v bs) n (concat (map percent (take broken bad)) @ escape_bytes (drop broken bad))"
      unfolding esc by (rule unescape_plain) (use sub 1(2) in blast)
    also have "\<dots> = unescape ((out @ take v bs) @ take broken bad) (n + length (take broken bad))
        (escape_bytes (drop broken bad))"
      by (rule unescape_percents [OF high])
    also have "\<dots> = Some (out @ bs, n + (length (take broken bad) + m))"
      using m whole by (simp add: add.assoc)
    finally show ?thesis using pos by (intro exI conjI) auto
  qed
qed

text \<open>The shown form is text: its valid runs are kept and escapes are ASCII.\<close>

lemma utf8_tail_append: "utf8_tail k ps r = Inr w \<Longrightarrow> utf8_tail k ps (r @ ys) = Inr w"
  by (induction k ps r rule: utf8_tail.induct) (auto split: if_splits)

lemma utf8_tail_take: "utf8_tail k ps r = Inr w \<Longrightarrow> length ps \<le> m \<Longrightarrow> utf8_tail k ps (take m r) = Inr w"
  by (induction k ps r arbitrary: m rule: utf8_tail.induct) (auto split: if_splits simp: take_Cons split: nat.splits)

lemma utf8_head_length:
  assumes "utf8_head c r = Inr w"
  shows "w \<le> Suc (length r)" and "utf8_head c (r @ ys) = Inr w"
    and "w \<le> Suc m \<Longrightarrow> utf8_head c (take m r) = Inr w"
proof -
  obtain ps where ps: "utf8_ranges c = Some ps" and t: "utf8_tail 1 ps r = Inr w"
    using assms by (auto simp: utf8_head_def split: option.splits)
  note len = utf8_tail_Inr [OF t]
  show "w \<le> Suc (length r)" using len by simp
  show "utf8_head c (r @ ys) = Inr w" using utf8_tail_append [OF t] ps by (simp add: utf8_head_def)
  show "w \<le> Suc m \<Longrightarrow> utf8_head c (take m r) = Inr w"
    using utf8_tail_take [OF t] ps len by (simp add: utf8_head_def)
qed

lemma from_utf8_err_append:
  "from_utf8_err k xs = None \<Longrightarrow> from_utf8_err k (xs @ ys) = from_utf8_err (k + length xs) ys"
proof (induction k xs rule: from_utf8_err.induct)
  case (2 k c r)
  then obtain w where w: "utf8_head c r = Inr w" by (auto split: sum.splits)
  have 1: "1 \<le> w" "w \<le> Suc (length r)"
    using utf8_head_Inr [OF w] utf8_head_length(1) [OF w] .
  then have "drop (w - 1) (r @ ys) = drop (w - 1) r @ ys" by simp
  moreover have "k + w + length (drop (w - 1) r) = k + length (c # r)" using 1 by simp
  ultimately show ?case
    using 2(1) [OF w] 2(2) w utf8_head_length(2) [OF w, of ys] by simp
qed simp

lemma from_utf8_err_prefix_valid:
  "from_utf8_err k bs = Some (v, e) \<Longrightarrow> from_utf8_err k (take (v - k) bs) = None"
proof (induction k bs rule: from_utf8_err.induct)
  case (2 k c r)
  show ?case
  proof (cases "utf8_head c r")
    case (Inl x)
    then show ?thesis using 2(2) by auto
  next
    case (Inr w)
    have r: "from_utf8_err (k + w) (drop (w - 1) r) = Some (v, e)" using 2(2) Inr by simp
    have w: "1 \<le> w" "w \<le> Suc (length r)"
      using utf8_head_Inr [OF Inr] utf8_head_length(1) [OF Inr] .
    have v: "k + w \<le> v" using from_utf8_err_Some [OF r] by simp
    then obtain m where m: "v - k = Suc m" "w \<le> Suc m" using w by (cases "v - k") auto
    have "drop (w - 1) (take m r) = take (v - (k + w)) (drop (w - 1) r)"
      using m w v by (simp add: drop_take) (metis Suc_diff_le diff_Suc_Suc diff_diff_left diff_Suc_1 le_add_diff_inverse2)
    then show ?thesis
      using 2(1) [OF Inr r] utf8_head_length(3) [OF Inr m(2)] m by simp
  qed
qed simp

lemma from_utf8_err_ascii:
  "\<forall>b\<in>set xs. byte_val b < 128 \<Longrightarrow> from_utf8_err k (xs @ ys) = from_utf8_err (k + length xs) ys"
  by (induction xs arbitrary: k) (auto simp: utf8_head_def utf8_ranges_def)

lemma percent_ascii: "\<forall>b\<in>set (percent c). byte_val b < 128"
proof -
  have "\<forall>n\<in>set [0..<16]. byte_val (UPPER_HEX ! n) < 128" by code_simp
  then have u: "n < 16 \<Longrightarrow> byte_val (UPPER_HEX ! n) < 128" for n by simp
  have "byte_val (UPPER_HEX ! (byte_val c div 16)) < 128"
    by (rule u) (use byte_val_less [of c] in auto)
  moreover have "byte_val (UPPER_HEX ! (byte_val c mod 16)) < 128" by (rule u) simp
  moreover have "byte_val CHR ''%'' < 128" by code_simp
  ultimately show ?thesis unfolding percent_def by (simp only: list.set ball_simps simp_thms)
qed

lemma from_utf8_err_shift: "from_utf8_err k bs = None \<longleftrightarrow> from_utf8_err j bs = None"
proof (induction k bs arbitrary: j rule: from_utf8_err.induct)
  case (2 k c r)
  show ?case
  proof (cases "utf8_head c r")
    case (Inr w)
    then show ?thesis using 2 [OF Inr, of "j + w"] by (simp only: from_utf8_err.simps sum.case)
  qed simp
qed simp

lemma escape_bytes_valid: "utf8_valid (escape_bytes bs)"
proof (induction bs rule: escape_bytes.induct)
  case (1 bs)
  show ?case
  proof (cases "from_utf8_err 0 bs")
    case None
    then show ?thesis by (subst escape_bytes.simps) simp
  next
    case (Some ve)
    obtain v e where ve: "ve = (v, e)" by fastforce
    define bad where "bad = drop v bs"
    define broken where "broken = (case e of Some n \<Rightarrow> n | None \<Rightarrow> length bad)"
    note err = Some [unfolded ve]
    have esc: "escape_bytes bs
        = take v bs @ concat (map percent (take broken bad)) @ escape_bytes (drop broken bad)"
      using err by (subst escape_bytes.simps) (simp add: bad_def broken_def Let_def cong: option.case_cong)
    have "from_utf8_err 0 (take v bs) = None" using from_utf8_err_prefix_valid [OF err] by simp
    moreover have "\<forall>b\<in>set (concat (map percent (take broken bad))). byte_val b < 128"
      using percent_ascii by auto
    moreover have "utf8_valid (escape_bytes (drop broken bad))"
      by (rule 1(1) [OF err refl refl bad_def broken_def])
    ultimately show ?thesis
      unfolding esc by (simp add: from_utf8_err_append from_utf8_err_ascii) (metis from_utf8_err_shift)
  qed
qed

lemma display_valid: "utf8_valid (display n)"
  by (auto simp: display_def escape_bytes_valid)

section \<open>Lemmas: paths\<close>

lemma split_on_nonempty: "split_on s p \<noteq> []"
  by (induction p) (auto split: list.splits)

lemma split_on_plain: "s \<notin> set n \<Longrightarrow> split_on s n = [n]"
  by (induction n) auto

lemma split_on_cons: "s \<notin> set n \<Longrightarrow> split_on s (n @ s # rest) = n # split_on s rest"
  by (induction n) auto

lemma split_on_pieces: "q \<in> set (split_on s p) \<Longrightarrow> s \<notin> set q"
  by (induction p arbitrary: q) (auto split: list.splits if_splits)

lemma path_from_names_snoc:
  "ns \<noteq> [] \<Longrightarrow> path_from_names (ns @ [n]) = path_from_names ns @ CHR ''/'' # n"
  by (induction ns rule: path_from_names.induct) auto

lemma split_on_from_names:
  assumes "ns \<noteq> []" and "\<forall>n\<in>set ns. CHR ''/'' \<notin> set n"
  shows "split_on (CHR ''/'') (path_from_names ns) = ns"
  using assms
  by (induction ns rule: path_from_names.induct) (auto simp: split_on_plain split_on_cons)

lemma from_names_split_on: "path_from_names (split_on (CHR ''/'') p) = p"
proof (induction p)
  case (Cons c p)
  obtain q qs where q: "split_on (CHR ''/'') p = q # qs"
    using split_on_nonempty by (meson neq_Nil_conv)
  show ?case using Cons q by (cases qs) auto
qed simp

lemma takeWhile_rev_snoc:
  "c \<notin> set n \<Longrightarrow> takeWhile (\<lambda>x. x \<noteq> c) (rev (p @ c # n)) = rev n \<and>
   tl (dropWhile (\<lambda>x. x \<noteq> c) (rev (p @ c # n))) = rev p"
  by (simp add: takeWhile_append dropWhile_append)

section \<open>Properties\<close>

text \<open>A name that is not text is shown with each faulty byte escaped, and reading the shown
form back gives the exact bytes - provided the name itself holds no percent sign, and the shown
form no replacement character (either makes the shown form ambiguous, and the search falls back
on the verbatim reading).\<close>

theorem display_escape_roundtrip:
  assumes "\<not> is_exact n" and "CHR ''%'' \<notin> set n"
    and "\<not> contains REPLACEMENT_CHARACTER (display n)"
  shows "escaped_to_bytes (display n) = Some n"
proof -
  have d: "display n = escape_bytes n" using assms(1) by (auto simp: display_def is_exact_def)
  obtain m where "unescape [] 0 (escape_bytes n) = Some (n, m)" and "0 < m"
    using unescape_escape [OF assms(2), of "[]" 0] assms(1) by (auto simp: is_exact_def)
  then show ?thesis using assms(3) d by (simp add: escaped_to_bytes_def)
qed

theorem display_escape_roundtrip_witness:
  "escaped_to_bytes (display (''caf'' @ [char_of (233::nat)] @ ''.mp4'')) = Some (''caf'' @ [char_of (233::nat)] @ ''.mp4'')"
proof (rule display_escape_roundtrip)
  show "\<not> is_exact (''caf'' @ [char_of (233::nat)] @ ''.mp4'')" by code_simp
  show "CHR ''%'' \<notin> set (''caf'' @ [char_of (233::nat)] @ ''.mp4'')" by code_simp
  show "\<not> contains REPLACEMENT_CHARACTER (display (''caf'' @ [char_of (233::nat)] @ ''.mp4''))" by code_simp
qed

text \<open>A tree name survives the wire whatever its bytes: text travels as itself, anything
else as the hex of its bytes, and reading either form gives the name back.\<close>

theorem name_wire_roundtrip: "name_unwire (name_wire n) = Some n"
  using length_hex_encode [of n]
  by (simp add: name_wire_def name_unwire_def hex_decode_def hex_pairs_encode)

text \<open>A path and the names it joins determine each other: a non-empty list of names none
of which holds a slash is what its path splits into, and its last name and the path of the
others are what the last split gives; and joining the names of any path gives the path.\<close>

theorem tree_path_roundtrip:
  assumes "\<forall>n\<in>set ns. CHR ''/'' \<notin> set n" and "ns \<noteq> []" and "CHR ''/'' \<notin> set n"
  shows "path_names (path_from_names ns) = ns \<and> path_from_names (path_names p) = p \<and>
    split_last (path_from_names (ns @ [n])) = Some (Some (path_from_names ns), n)"
proof -
  have "split_last (path_from_names ns @ CHR ''/'' # n) = Some (Some (path_from_names ns), n)"
    using takeWhile_rev_snoc [OF assms(3), of "path_from_names ns"] by (simp add: split_last_def)
  then show ?thesis
    using assms by (simp add: path_names_def split_on_from_names from_names_split_on path_from_names_snoc)
qed

theorem tree_path_roundtrip_witness:
  "path_names (path_from_names [[], ''music'']) = [[], ''music''] \<and>
   path_from_names (path_names ''/music/a'') = ''/music/a'' \<and>
   split_last (path_from_names ([[], ''music''] @ [''a.flac''])) = Some (Some (path_from_names [[], ''music'']), ''a.flac'')"
  by (rule tree_path_roundtrip) simp_all

end
