(* ===== verification/Rows.thy ===== *)
theory Rows
  imports Metarecord
begin

text \<open>
  \<open>crates/daemon/src/rows.rs\<close>: a row as the store hands it over, and the column form a value is
  stored in. \<open>encode_value\<close> fills the columns of the value's type; \<open>decode_value\<close> reads them
  back, with an error for a column that is missing, a uuid that is not 16 bytes and a type it
  does not know.
\<close>

section \<open>Bytes of a number\<close>

text \<open>\<open>to_be_bytes\<close> of an \<open>n\<close>-byte unsigned number, and its inverse.\<close>

fun be_bytes :: "nat \<Rightarrow> nat \<Rightarrow> bytes" where
  "be_bytes 0 v = []"
| "be_bytes (Suc n) v = be_bytes n (v div 256) @ [char_of (v mod 256)]"

definition be_val :: "bytes \<Rightarrow> nat" where
  "be_val bs = foldl (\<lambda>a b. a * 256 + byte_val b) 0 bs"

lemma byte_val_char_of [simp]: "byte_val (char_of v) = v mod 256"
  by (simp add: byte_val_def)

lemma length_be_bytes [simp]: "length (be_bytes n v) = n"
  by (induction n arbitrary: v) simp_all

lemma be_val_snoc: "be_val (bs @ [b]) = be_val bs * 256 + byte_val b"
  by (simp add: be_val_def)

lemma be_val_bytes: "v < 256 ^ n \<Longrightarrow> be_val (be_bytes n v) = v"
proof (induction n arbitrary: v)
  case 0
  then show ?case by (simp add: be_val_def)
next
  case (Suc n)
  then have "v div 256 < 256 ^ n" by (simp add: less_mult_imp_div_less mult.commute)
  then show ?case using Suc by (simp add: be_val_snoc)
qed

section \<open>Model\<close>

record FieldRow =
  row_id :: int
  row_name :: string
  row_value :: "value"

datatype decode_error =
    ValueMissing string
  | InvalidUuidBlob
  | UnknownValueType string
  | TruncatedRecord
  | NotUtf8

definition uuid_to_bytes :: "uuid \<Rightarrow> bytes" where
  "uuid_to_bytes u = be_bytes 16 (unat u)"

definition bytes_to_uuid :: "bytes \<Rightarrow> decode_error + uuid" where
  "bytes_to_uuid bs = (if length bs = 16 then Inr (of_nat (be_val bs)) else Inl InvalidUuidBlob)"

record EncodedValue =
  value_type :: string
  ev_text :: "string option"
  ev_int :: "i64 option"
  ev_real :: "f64 option"
  ev_uuid :: "bytes option"
  ev_ref_repo :: "bytes option"
  ev_name :: "string option"
  ev_name_bytes :: "bytes option"

definition EncodedValue_new :: "string \<Rightarrow> EncodedValue" where
  "EncodedValue_new t = \<lparr>value_type = t, ev_text = None, ev_int = None, ev_real = None,
     ev_uuid = None, ev_ref_repo = None, ev_name = None, ev_name_bytes = None\<rparr>"

definition encode_position :: "string \<Rightarrow> uuid option \<Rightarrow> bytes \<Rightarrow> EncodedValue" where
  "encode_position t parent name =
     (EncodedValue_new t)\<lparr>
       ev_uuid := Some (uuid_to_bytes (case parent of None \<Rightarrow> ZERO_UUID | Some p \<Rightarrow> p)),
       ev_name := Some (display name),
       ev_name_bytes := Some name\<rparr>"

fun encode_value :: "value \<Rightarrow> EncodedValue" where
  "encode_value Nothing = EncodedValue_new ''nothing''"
| "encode_value (VString s) = (EncodedValue_new ''string'')\<lparr>ev_text := Some s\<rparr>"
| "encode_value (VInt n) = (EncodedValue_new ''int'')\<lparr>ev_int := Some n\<rparr>"
| "encode_value (VFloat f) = (EncodedValue_new ''float'')\<lparr>ev_real := Some f\<rparr>"
| "encode_value (VBool b) = (EncodedValue_new ''bool'')\<lparr>ev_int := Some (if b then 1 else 0)\<rparr>"
| "encode_value (VDateTime ms) = (EncodedValue_new ''datetime'')\<lparr>ev_int := Some ms\<rparr>"
| "encode_value (VRef u) = (EncodedValue_new ''ref'')\<lparr>ev_uuid := Some (uuid_to_bytes u)\<rparr>"
| "encode_value (VTreeRef p n) = encode_position ''tree_ref'' p n"
| "encode_value (VHierarchyRef p n) = encode_position ''hierarchy_ref'' p n"
| "encode_value (VRefBase u) = (EncodedValue_new ''refbase'')\<lparr>ev_uuid := Some (uuid_to_bytes u)\<rparr>"
| "encode_value (VExternalRef repo m) = (EncodedValue_new ''externalref'')\<lparr>
       ev_uuid := Some (uuid_to_bytes m), ev_ref_repo := Some (uuid_to_bytes repo)\<rparr>"

definition need :: "'a option \<Rightarrow> string \<Rightarrow> decode_error + 'a" where
  "need m column = optE m (ValueMissing column)"

definition decode_position ::
    "(uuid option \<Rightarrow> bytes \<Rightarrow> value) \<Rightarrow> EncodedValue \<Rightarrow> decode_error + value" where
  "decode_position mk raw =
     bindE (bindE (need (ev_uuid raw) ''value_uuid'') bytes_to_uuid) (\<lambda>parent.
     bindE (case ev_name_bytes raw of
              Some bs \<Rightarrow> Inr bs
            | None \<Rightarrow> need (ev_name raw) ''value_name'') (\<lambda>name.
     Inr (mk (if parent = ZERO_UUID then None else Some parent) name)))"

definition decode_value :: "EncodedValue \<Rightarrow> decode_error + value" where
  "decode_value raw =
     (let t = value_type raw in
      if t = ''nothing'' then Inr Nothing
      else if t = ''string'' then bindE (need (ev_text raw) ''value_text'') (\<lambda>s. Inr (VString s))
      else if t = ''int'' then bindE (need (ev_int raw) ''value_int'') (\<lambda>n. Inr (VInt n))
      else if t = ''float'' then bindE (need (ev_real raw) ''value_real'') (\<lambda>f. Inr (VFloat f))
      else if t = ''bool'' then bindE (need (ev_int raw) ''value_int'') (\<lambda>n. Inr (VBool (n \<noteq> 0)))
      else if t = ''datetime'' then bindE (need (ev_int raw) ''value_int'') (\<lambda>n. Inr (VDateTime n))
      else if t = ''ref'' then
        bindE (bindE (need (ev_uuid raw) ''value_uuid'') bytes_to_uuid) (\<lambda>u. Inr (VRef u))
      else if t = ''tree_ref'' then decode_position VTreeRef raw
      else if t = ''hierarchy_ref'' then decode_position VHierarchyRef raw
      else if t = ''refbase'' then
        bindE (bindE (need (ev_uuid raw) ''value_uuid'') bytes_to_uuid) (\<lambda>u. Inr (VRefBase u))
      else if t = ''externalref'' then
        bindE (bindE (need (ev_ref_repo raw) ''value_ref_repo'') bytes_to_uuid) (\<lambda>repo.
        bindE (bindE (need (ev_uuid raw) ''value_uuid'') bytes_to_uuid) (\<lambda>m.
        Inr (VExternalRef repo m)))
      else Inl (UnknownValueType t))"

section \<open>Lemmas\<close>

lemma bytes_to_uuid_to_bytes [simp]: "bytes_to_uuid (uuid_to_bytes u) = Inr u"
proof -
  have "unat u < 256 ^ 16" using unsigned_less [of u] by simp
  then show ?thesis by (simp add: bytes_to_uuid_def uuid_to_bytes_def be_val_bytes)
qed

lemma length_uuid_to_bytes [simp]: "length (uuid_to_bytes u) = 16"
  by (simp add: uuid_to_bytes_def)

lemma uuid_to_bytes_inj: "uuid_to_bytes u = uuid_to_bytes v \<Longrightarrow> u = v"
  by (metis bytes_to_uuid_to_bytes sum.inject(2))

lemma value_type_encode [simp]: "value_type (encode_value v) = type_str v"
  by (cases v) (simp_all add: EncodedValue_new_def encode_position_def)

lemma need_simps [simp]: "need (Some x) c = Inr x" "need None c = Inl (ValueMissing c)"
  by (simp_all add: need_def)

text \<open>The zero uuid is the stored parent of a root, so it must not be the parent of a child.\<close>

definition storable :: "value \<Rightarrow> bool" where
  "storable v \<longleftrightarrow> (\<forall>p n. position v = Some (p, n) \<longrightarrow> p \<noteq> Some ZERO_UUID)"

lemma decode_encode: "storable v \<Longrightarrow> decode_value (encode_value v) = Inr v"
  by (cases v)
    (auto simp: decode_value_def EncodedValue_new_def encode_position_def decode_position_def
      storable_def Let_def split: option.splits)

end
