(* ===== verification/Encoding.thy ===== *)
theory Encoding
  imports Rows "HOL-Library.Sublist"
begin

text \<open>
  The bytes of the key-value store (\<open>crates/daemon/src/kvstore/mod.rs\<close>, "Encoding"): the
  composite keys of its tables, and the length-prefixed records they map to.

  Keys: a name inside a composite key is escaped and terminated (\<open>name_key\<close>), so that no key is
  the prefix of another by accident and byte order is the order of the components. Records:
  \<open>Out\<close> appends, \<open>In\<close> consumes from the front; each \<open>out_\<close>/\<open>in_\<close> pair is an instance of
  the locale \<open>codec\<close>, whose lemmas (a decoder reads back what was written and leaves the rest)
  compose up to whole rows.
\<close>

section \<open>Keys\<close>

text \<open>\<open>be\<close> and \<open>from_be\<close>: an \<open>i64\<close> as its 8 bytes.\<close>

definition be :: "int \<Rightarrow> bytes" where
  "be n = be_bytes 8 (unat (word_of_int n :: 64 word))"

definition from_be :: "bytes \<Rightarrow> int" where
  "from_be b = sint (of_nat (be_val (take 8 b)) :: 64 word)"

fun name_escape :: "bytes \<Rightarrow> bytes" where
  "name_escape [] = []"
| "name_escape (b # bs) =
     (if byte_val b = 0 then b # char_of (255::nat) # name_escape bs else b # name_escape bs)"

definition name_key :: "string \<Rightarrow> bytes" where
  "name_key name = name_escape name @ [char_of (0::nat), char_of (0::nat)]"

definition cell_prefix :: "bytes \<Rightarrow> string \<Rightarrow> bytes" where
  "cell_prefix uuid field = uuid @ name_key field"

definition cell_key :: "uuid \<Rightarrow> string \<Rightarrow> int \<Rightarrow> bytes" where
  "cell_key u field i = cell_prefix (uuid_to_bytes u) field @ be i"

definition NODE_MAX :: nat where
  "NODE_MAX = 300"

text \<open>A node's name in a forest key: whole, or its first bytes and a hash of the whole
  (\<open>xxh3_64\<close>, of the xxhash crate).\<close>

definition node_key :: "(bytes \<Rightarrow> u64) \<Rightarrow> bytes \<Rightarrow> bytes" where
  "node_key xxh name =
     (if length name \<le> NODE_MAX then name
      else take NODE_MAX name @ be_bytes 8 (unat (xxh name)))"

section \<open>Records\<close>

definition out_bytes :: "bytes \<Rightarrow> bytes" where
  "out_bytes b = be_bytes 4 (length b mod 2 ^ 32) @ b"

definition out_opt_bytes :: "bytes option \<Rightarrow> bytes" where
  "out_opt_bytes m =
     (case m of None \<Rightarrow> [char_of (0::nat)] | Some b \<Rightarrow> char_of (1::nat) # out_bytes b)"

definition out_word :: "64 word \<Rightarrow> bytes" where
  "out_word n = be_bytes 8 (unat n)"

definition out_opt_word :: "64 word option \<Rightarrow> bytes" where
  "out_opt_word m =
     (case m of None \<Rightarrow> [char_of (0::nat)] | Some n \<Rightarrow> char_of (1::nat) # out_word n)"

definition in_take :: "nat \<Rightarrow> bytes \<Rightarrow> decode_error + (bytes \<times> bytes)" where
  "in_take n s = (if length s < n then Inl TruncatedRecord else Inr (take n s, drop n s))"

definition in_bytes :: "bytes \<Rightarrow> decode_error + (bytes \<times> bytes)" where
  "in_bytes s = bindE (in_take 4 s) (\<lambda>(l, s). in_take (be_val l) s)"

definition from_utf8 :: "bytes \<Rightarrow> decode_error + string" where
  "from_utf8 b = (if utf8_valid b then Inr b else Inl NotUtf8)"

definition in_string :: "bytes \<Rightarrow> decode_error + (string \<times> bytes)" where
  "in_string s = bindE (in_bytes s) (\<lambda>(b, s). bindE (from_utf8 b) (\<lambda>t. Inr (t, s)))"

definition in_opt_bytes :: "bytes \<Rightarrow> decode_error + (bytes option \<times> bytes)" where
  "in_opt_bytes s = bindE (in_take 1 s) (\<lambda>(f, s).
     if byte_val (hd f) = 0 then Inr (None, s)
     else bindE (in_bytes s) (\<lambda>(b, s). Inr (Some b, s)))"

definition in_opt_string :: "bytes \<Rightarrow> decode_error + (string option \<times> bytes)" where
  "in_opt_string s = bindE (in_opt_bytes s) (\<lambda>(m, s).
     (case m of None \<Rightarrow> Inr (None, s) | Some b \<Rightarrow> bindE (from_utf8 b) (\<lambda>t. Inr (Some t, s))))"

definition in_word :: "bytes \<Rightarrow> decode_error + (64 word \<times> bytes)" where
  "in_word s = bindE (in_take 8 s) (\<lambda>(b, s). Inr (of_nat (be_val b), s))"

definition in_opt_word :: "bytes \<Rightarrow> decode_error + (64 word option \<times> bytes)" where
  "in_opt_word s = bindE (in_take 1 s) (\<lambda>(f, s).
     if byte_val (hd f) = 0 then Inr (None, s)
     else bindE (in_word s) (\<lambda>(n, s). Inr (Some n, s)))"

definition out_int :: "int \<Rightarrow> bytes" where
  "out_int n = out_word (word_of_int n)"

definition in_int :: "bytes \<Rightarrow> decode_error + (int \<times> bytes)" where
  "in_int s = bindE (in_word s) (\<lambda>(w, s). Inr (sint w, s))"

definition put_value :: "value \<Rightarrow> bytes" where
  "put_value v =
     (let e = encode_value v in
      out_bytes (value_type e) @ out_opt_bytes (ev_text e) @ out_opt_word (ev_int e) @
      out_opt_word (ev_real e) @ out_opt_bytes (ev_uuid e) @ out_opt_bytes (ev_ref_repo e) @
      out_opt_bytes (ev_name e) @ out_opt_bytes (ev_name_bytes e))"

definition get_value :: "bytes \<Rightarrow> decode_error + (value \<times> bytes)" where
  "get_value s =
     bindE (in_string s) (\<lambda>(ty, s).
     bindE (in_opt_string s) (\<lambda>(tx, s).
     bindE (in_opt_word s) (\<lambda>(n, s).
     bindE (in_opt_word s) (\<lambda>(r, s).
     bindE (in_opt_bytes s) (\<lambda>(u, s).
     bindE (in_opt_bytes s) (\<lambda>(rr, s).
     bindE (in_opt_string s) (\<lambda>(nm, s).
     bindE (in_opt_bytes s) (\<lambda>(nb, s).
     bindE (decode_value \<lparr>value_type = ty, ev_text = tx, ev_int = n, ev_real = r, ev_uuid = u,
              ev_ref_repo = rr, ev_name = nm, ev_name_bytes = nb\<rparr>) (\<lambda>v.
     Inr (v, s))))))))))"

definition enc_row :: "FieldRow \<Rightarrow> bytes" where
  "enc_row row = out_int (row_id row) @ out_bytes (row_name row) @ put_value (row_value row)"

definition dec_row :: "bytes \<Rightarrow> decode_error + FieldRow" where
  "dec_row b =
     bindE (in_int b) (\<lambda>(i, s).
     bindE (in_string s) (\<lambda>(n, s).
     bindE (get_value s) (\<lambda>(v, s).
     Inr \<lparr>row_id = i, row_name = n, row_value = v\<rparr>)))"

section \<open>Codecs\<close>

locale codec =
  fixes enc :: "'a \<Rightarrow> bytes"
    and dec :: "bytes \<Rightarrow> decode_error + ('a \<times> bytes)"
    and ok :: "'a \<Rightarrow> bool"
  assumes read_back: "ok a \<Longrightarrow> dec (enc a @ rest) = Inr (a, rest)"
begin

lemma read_back_end: "ok a \<Longrightarrow> dec (enc a) = Inr (a, [])"
  using read_back [of a "[]"] by simp

lemma prefix_free:
  assumes "ok a" and "ok b" and "enc a @ r = enc b @ s"
  shows "a = b \<and> r = s"
proof -
  have "Inr (a, r) = (Inr (b, s) :: decode_error + ('a \<times> bytes))"
    unfolding read_back [OF assms(1), of r, symmetric] read_back [OF assms(2), of s, symmetric]
    by (simp only: assms(3))
  then show ?thesis by simp
qed

end

definition short :: "bytes \<Rightarrow> bool" where
  "short b \<longleftrightarrow> length b < 2 ^ 32"

definition short_text :: "string \<Rightarrow> bool" where
  "short_text b \<longleftrightarrow> short b \<and> utf8_valid b"

definition is_i64 :: "int \<Rightarrow> bool" where
  "is_i64 n \<longleftrightarrow> - (2 ^ 63) \<le> n \<and> n < 2 ^ 63"

abbreviation opt_ok :: "('a \<Rightarrow> bool) \<Rightarrow> 'a option \<Rightarrow> bool" where
  "opt_ok p m \<equiv> (\<forall>x. m = Some x \<longrightarrow> p x)"

lemma in_take_append [simp]: "length a = n \<Longrightarrow> in_take n (a @ rest) = Inr (a, rest)"
  by (auto simp: in_take_def)

lemma of_nat_be_val_word: "of_nat (be_val (be_bytes 8 (unat w))) = (w :: 64 word)"
proof -
  have "unat w < 256 ^ 8" using unsigned_less [of w] by simp
  then show ?thesis by (simp add: be_val_bytes)
qed

interpretation word_codec: codec out_word in_word "\<lambda>_. True"
  by unfold_locales (simp add: out_word_def in_word_def of_nat_be_val_word)

interpretation bytes_codec: codec out_bytes in_bytes short
proof
  fix a rest assume "short a"
  then have "length a < 256 ^ 4" and "length a mod 2 ^ 32 = length a" by (simp_all add: short_def)
  then show "in_bytes (out_bytes a @ rest) = Inr (a, rest)"
    by (simp add: in_bytes_def out_bytes_def be_val_bytes)
qed

interpretation string_codec: codec out_bytes in_string short_text
  by unfold_locales
    (simp add: in_string_def short_text_def bytes_codec.read_back from_utf8_def)

interpretation int_codec: codec out_int in_int is_i64
proof
  fix n rest assume "is_i64 n"
  then have "sint (word_of_int n :: 64 word) = n"
    by (simp add: is_i64_def sint_sbintrunc' signed_take_bit_int_eq_self)
  then show "in_int (out_int n @ rest) = Inr (n, rest)"
    by (simp add: in_int_def out_int_def word_codec.read_back)
qed

lemma in_take_1 [simp]: "in_take (Suc 0) (c # s) = Inr ([c], s)"
  by (simp add: in_take_def)

interpretation opt_bytes_codec: codec out_opt_bytes in_opt_bytes "opt_ok short"
  by unfold_locales
    (auto simp: in_opt_bytes_def out_opt_bytes_def bytes_codec.read_back split: option.splits)

interpretation opt_string_codec: codec out_opt_bytes in_opt_string "opt_ok short_text"
  by unfold_locales
    (auto simp: in_opt_string_def opt_bytes_codec.read_back short_text_def from_utf8_def
      split: option.splits)

interpretation opt_word_codec: codec out_opt_word in_opt_word "\<lambda>_. True"
  by unfold_locales
    (auto simp: in_opt_word_def out_opt_word_def word_codec.read_back split: option.splits)

section \<open>Values and rows\<close>

text \<open>What a stored value satisfies: Rust's strings are UTF-8, and nothing is 4 GiB long.\<close>

definition value_ok :: "value \<Rightarrow> bool" where
  "value_ok v \<longleftrightarrow> storable v \<and>
     (\<forall>s. v = VString s \<longrightarrow> short_text s) \<and>
     (\<forall>p n. position v = Some (p, n) \<longrightarrow> short n \<and> short (display n))"

lemma short_text_type: "short_text (type_str v)"
  by (cases v) (simp_all add: short_text_def short_def, code_simp+)

lemma value_ok_columns:
  assumes "value_ok v"
  shows "opt_ok short_text (ev_text (encode_value v))"
    and "opt_ok short (ev_uuid (encode_value v))"
    and "opt_ok short (ev_ref_repo (encode_value v))"
    and "opt_ok short_text (ev_name (encode_value v))"
    and "opt_ok short (ev_name_bytes (encode_value v))"
  using assms
  by (cases v; auto simp: value_ok_def encode_position_def EncodedValue_new_def short_def
      short_text_def display_valid)+

interpretation value_codec: codec put_value get_value value_ok
proof
  fix v rest assume ok: "value_ok v"
  have e: "\<lparr>value_type = type_str v, ev_text = ev_text (encode_value v), ev_int = ev_int (encode_value v),
      ev_real = ev_real (encode_value v), ev_uuid = ev_uuid (encode_value v),
      ev_ref_repo = ev_ref_repo (encode_value v), ev_name = ev_name (encode_value v),
      ev_name_bytes = ev_name_bytes (encode_value v)\<rparr> = encode_value v"
    by (simp flip: value_type_encode)
  have d: "decode_value (encode_value v) = Inr v"
    using ok by (auto intro: decode_encode simp: value_ok_def)
  show "get_value (put_value v @ rest) = Inr (v, rest)"
    using value_ok_columns [OF ok]
    by (simp add: get_value_def put_value_def Let_def string_codec.read_back short_text_type
        opt_string_codec.read_back opt_word_codec.read_back opt_bytes_codec.read_back e d
        del: not_None_eq)
qed

definition row_ok :: "FieldRow \<Rightarrow> bool" where
  "row_ok row \<longleftrightarrow> is_i64 (row_id row) \<and> short_text (row_name row) \<and> value_ok (row_value row)"

section \<open>Order of the keys\<close>

lemma char_less_byte_val: "c < d \<longleftrightarrow> byte_val c < byte_val d"
  by (simp add: less_char_def byte_val_def)

lemma byte_val_inject [simp]: "byte_val c = byte_val d \<longleftrightarrow> c = d"
  by (simp add: byte_val_def)

lemma name_key_Cons:
  "name_key (b # bs) = (if byte_val b = 0 then b # char_of (255::nat) # name_key bs else b # name_key bs)"
  by (simp add: name_key_def)

lemma zero_char: "byte_val b = 0 \<longleftrightarrow> b = char_of (0::nat)"
  by (metis byte_val_char_of byte_val_inject mod_0)

lemma name_key_less:
  "name_key a @ x < name_key b @ y \<longleftrightarrow> a < b \<or> a = b \<and> x < y"
proof (induction a arbitrary: b)
  case Nil
  show ?case
  proof (cases b)
    case (Cons d b')
    then show ?thesis
      by (cases "byte_val d = 0") (auto simp: name_key_def char_less_byte_val dest: zero_char [THEN iffD1])
  qed (simp add: name_key_def)
next
  case (Cons c a)
  show ?case
  proof (cases b)
    case Nil
    then show ?thesis by (auto simp: name_key_def char_less_byte_val zero_char)
  next
    case (Cons d b')
    then show ?thesis
      using Cons.IH [of b'] by (auto simp: name_key_Cons char_less_byte_val zero_char)
  qed
qed

lemma name_key_eq: "name_key a @ x = name_key b @ y \<longleftrightarrow> a = b \<and> x = y"
  using name_key_less [of a x b y] name_key_less [of b y a x]
  by (metis linorder_neqE order_less_irrefl)

lemma digits_less:
  assumes "r < 256" and "s < (256::nat)"
  shows "q * 256 + r < p * 256 + s \<longleftrightarrow> q < p \<or> q = p \<and> r < s"
proof (cases q p rule: linorder_cases)
  case less
  then have "q * 256 + 256 \<le> p * 256" by simp
  then show ?thesis using assms less by linarith
next
  case greater
  then have "p * 256 + 256 \<le> q * 256" by simp
  then show ?thesis using assms greater by linarith
qed simp

lemma be_bytes_less:
  assumes "a < 256 ^ n" and "b < 256 ^ n"
  shows "be_bytes n a @ x < be_bytes n b @ y \<longleftrightarrow> a < b \<or> a = b \<and> x < y"
  using assms
proof (induction n arbitrary: a b x y)
  case (Suc n)
  have d: "a div 256 < 256 ^ n" "b div 256 < 256 ^ n"
    using Suc.prems by (simp_all add: less_mult_imp_div_less mult.commute)
  have ab: "a < b \<longleftrightarrow> a div 256 < b div 256 \<or> a div 256 = b div 256 \<and> a mod 256 < b mod 256"
    using digits_less [of "a mod 256" "b mod 256" "a div 256" "b div 256"] by simp
  have e: "a = b \<longleftrightarrow> a div 256 = b div 256 \<and> a mod 256 = b mod 256"
    by (metis div_mod_decomp)
  have c: "(char_of a = (char_of b :: char)) = (a mod 256 = b mod 256)"
    by (metis byte_val_char_of byte_val_inject)
  show ?case
    using Suc.IH [OF d, of "char_of (a mod 256) # x" "char_of (b mod 256) # y"]
    by (auto simp: char_less_byte_val c ab e)
qed simp

lemma uuid_bytes_less:
  "uuid_to_bytes u @ x < uuid_to_bytes v @ y \<longleftrightarrow> u < v \<or> u = v \<and> x < y"
proof -
  have "unat u < 256 ^ 16" "unat v < 256 ^ 16"
    using unsigned_less [of u] unsigned_less [of v] by simp_all
  then show ?thesis
    by (simp add: uuid_to_bytes_def be_bytes_less word_less_nat_alt word_unat_eq_iff)
qed

definition is_id :: "int \<Rightarrow> bool" where
  "is_id n \<longleftrightarrow> 0 \<le> n \<and> n < 2 ^ 63"

lemma be_less:
  assumes "is_id i" and "is_id j"
  shows "be i < be j \<longleftrightarrow> i < j"
proof -
  have u: "unat (word_of_int k :: 64 word) = nat k" if "is_id k" for k
    using that by (simp add: is_id_def unat_eq_nat_uint take_bit_int_eq_self uint_word_of_int_eq)
  have "nat i < 256 ^ 8" "nat j < 256 ^ 8"
    using assms by (auto simp: is_id_def nat_less_iff)
  then show ?thesis
    using assms be_bytes_less [of "nat i" 8 "nat j" "[]" "[]"]
    by (auto simp: be_def u is_id_def)
qed

lemma uuid_bytes_eq: "uuid_to_bytes u @ x = uuid_to_bytes v @ y \<longleftrightarrow> u = v \<and> x = y"
  by (auto dest: uuid_to_bytes_inj)

section \<open>Properties\<close>

text \<open>The byte keys of the cells of the store compare as the triples (metarecord, field
name, row id) do, whatever bytes the field name holds, and a cell's key starts with the prefix
of a metarecord's field exactly when it is a cell of that field of that metarecord - so a
prefix iteration returns the rows of one field, in row id order.\<close>

theorem cell_key_order:
  assumes "is_id i" and "is_id j"
  shows "(cell_key u f i < cell_key v g j \<longleftrightarrow> (u, f, i) < (v, g, j)) \<and>
    (prefix (cell_prefix (uuid_to_bytes u) f) (cell_key v g j) \<longleftrightarrow> u = v \<and> f = g)"
proof -
  have "prefix (cell_prefix (uuid_to_bytes u) f) (cell_key v g j) \<longleftrightarrow> u = v \<and> f = g"
    by (auto simp: prefix_def cell_key_def cell_prefix_def uuid_bytes_eq name_key_eq)
  then show ?thesis
    using be_less [OF assms]
    by (auto simp: cell_key_def cell_prefix_def uuid_bytes_less name_key_less less_prod_def'
        dest: order.strict_implies_order)
qed

theorem cell_key_order_witness:
  "(cell_key 1 ''a'' 7 < cell_key 1 [CHR ''a'', char_of (0::nat)] 3 \<longleftrightarrow>
     ((1::uuid), ''a'', (7::int)) < (1, [CHR ''a'', char_of (0::nat)], 3)) \<and>
   (prefix (cell_prefix (uuid_to_bytes 1) ''a'') (cell_key 1 [CHR ''a'', char_of (0::nat)] 3) \<longleftrightarrow>
     (1::uuid) = 1 \<and> ''a'' = [CHR ''a'', char_of (0::nat)])"
  by (rule cell_key_order) (simp_all add: is_id_def)

text \<open>C40: A row is read back from its stored bytes exactly - a name's undecodable bytes, a
float's bits and the empty parent of a root included.\<close>

theorem dec_enc_row:
  assumes "row_ok row"
  shows "dec_row (enc_row row) = Inr row"
  using assms
  by (simp add: dec_row_def enc_row_def row_ok_def int_codec.read_back string_codec.read_back
      value_codec.read_back_end)

theorem dec_enc_row_witness:
  "dec_row (enc_row \<lparr>row_id = 5, row_name = ''mfr_path'', row_value = VTreeRef None [char_of (233::nat)]\<rparr>)
   = Inr \<lparr>row_id = 5, row_name = ''mfr_path'', row_value = VTreeRef None [char_of (233::nat)]\<rparr>"
proof (rule dec_enc_row)
  have "utf8_valid ''mfr_path''" by code_simp
  then have "short_text ''mfr_path''" by (simp add: short_text_def short_def)
  moreover have "length (display [char_of (233::nat)]) = 3" by code_simp
  then have "short (display [char_of (233::nat)])" by (simp add: short_def)
  ultimately show "row_ok \<lparr>row_id = 5, row_name = ''mfr_path'', row_value = VTreeRef None [char_of (233::nat)]\<rparr>"
    by (simp add: row_ok_def value_ok_def storable_def is_i64_def short_def)
qed

end
