(* ===== verification/Version.thy ===== *)
theory Version
  imports Rows
begin

text \<open>
  \<open>crates/daemon/src/version.rs\<close>: the version of a metarecord, a sum modulo 2 to the 53 of one term
  for the metarecord and one term per row. The terms are hashes (\<open>Xxh3\<close>, of the xxhash crate)
  of length-prefixed chunks; the hasher is the parameter \<open>H\<close>, the digest of all the bytes fed
  to it, in order.
\<close>

unbundle bit_operations_syntax

section \<open>Model\<close>

definition BITS :: nat where
  "BITS = 53"

definition MASK :: u64 where
  "MASK = push_bit BITS 1 - 1"

text \<open>\<open>u64::to_le_bytes\<close>.\<close>

definition le_bytes8 :: "u64 \<Rightarrow> bytes" where
  "le_bytes8 w = rev (be_bytes 8 (unat w))"

definition feed :: "bytes \<Rightarrow> bytes" where
  "feed b = le_bytes8 (of_nat (length b)) @ b"

definition feed_opt :: "bytes option \<Rightarrow> bytes" where
  "feed_opt m = (case m of Some b \<Rightarrow> char_of (1::nat) # feed b | None \<Rightarrow> [char_of (0::nat)])"

definition version_base :: "(bytes \<Rightarrow> u64) \<Rightarrow> uuid \<Rightarrow> u64" where
  "version_base H u = H (feed ''metarecord'' @ feed (uuid_to_bytes u)) AND MASK"

definition version_row :: "(bytes \<Rightarrow> u64) \<Rightarrow> string \<Rightarrow> value \<Rightarrow> u64" where
  "version_row H name v =
     (let e = encode_value v in
      H (feed ''field'' @ feed name @ feed (value_type e) @
         feed_opt (ev_text e) @ feed_opt (map_option le_bytes8 (ev_int e)) @
         feed_opt (map_option le_bytes8 (ev_real e)) @ feed_opt (ev_uuid e) @
         feed_opt (ev_ref_repo e) @ feed_opt (ev_name e) @ feed_opt (ev_name_bytes e)) AND MASK)"

definition rows_sum :: "(bytes \<Rightarrow> u64) \<Rightarrow> FieldRow list \<Rightarrow> u64" where
  "rows_sum H rows = foldl (\<lambda>acc r. acc + version_row H (row_name r) (row_value r)) 0 rows AND MASK"

definition version_apply :: "u64 \<Rightarrow> u64 \<Rightarrow> u64 \<Rightarrow> u64" where
  "version_apply current add sub = (current + add - sub) AND MASK"

definition of_rows :: "(bytes \<Rightarrow> u64) \<Rightarrow> uuid \<Rightarrow> FieldRow list \<Rightarrow> u64" where
  "of_rows H u rows = version_apply (version_base H u) (rows_sum H rows) 0"

definition version_delta :: "(bytes \<Rightarrow> u64) \<Rightarrow> FieldRow list \<Rightarrow> FieldRow list \<Rightarrow> u64 \<times> u64" where
  "version_delta H before after = (rows_sum H after, rows_sum H before)"

section \<open>Lemmas\<close>

lemma and_MASK: "x AND MASK = take_bit 53 x"
proof -
  have "MASK = mask 53" by (simp add: MASK_def BITS_def mask_eq_exp_minus_1)
  then show ?thesis by (simp add: take_bit_eq_mask)
qed

lemma take53_eq: "take_bit 53 (x::u64) = take_bit 53 y \<longleftrightarrow> uint x mod 2 ^ 53 = uint y mod 2 ^ 53"
  by (metis uint_take_bit word_uint_eqI)

lemma take53_simps:
  "take_bit 53 (take_bit 53 a + b) = take_bit 53 (a + (b::u64))"
  "take_bit 53 (a + take_bit 53 b) = take_bit 53 (a + (b::u64))"
  "take_bit 53 (take_bit 53 a - b) = take_bit 53 (a - (b::u64))"
  "take_bit 53 (a - take_bit 53 b) = take_bit 53 (a - (b::u64))"
  by (simp_all add: take53_eq uint_take_bit uint_word_ariths mod_mod_cancel mod_simps)

lemma take53_delta:
  "take_bit 53 (take_bit 53 a + take_bit 53 b - take_bit 53 c) = take_bit 53 (a + b - (c::u64))"
proof -
  have "take_bit 53 (take_bit 53 a + take_bit 53 b - take_bit 53 c)
      = take_bit 53 (take_bit 53 (take_bit 53 a + take_bit 53 b) - c)"
    by (simp only: take53_simps(3,4))
  then show ?thesis by (simp only: take53_simps)
qed

lemma take53_bound: "unat (take_bit 53 (a::u64)) < 2 ^ 53"
proof -
  have "uint (take_bit 53 a) < 2 ^ 53" unfolding uint_take_bit by (rule pos_mod_bound) simp
  moreover have "int (unat (take_bit 53 a)) = uint (take_bit 53 a)" by simp
  ultimately have "int (unat (take_bit 53 a)) < int (2 ^ 53)" by simp
  then show ?thesis by (simp only: of_nat_less_iff)
qed

lemma take53_idem: "take_bit 53 (take_bit 53 (a::u64)) = take_bit 53 a"
  by simp

text \<open>The sum of the terms of a bag of rows, before it is masked.\<close>

definition terms :: "(bytes \<Rightarrow> u64) \<Rightarrow> (string \<times> value) multiset \<Rightarrow> u64" where
  "terms H b = sum_mset (image_mset (\<lambda>(n, v). version_row H n v) b)"

definition bag :: "FieldRow list \<Rightarrow> (string \<times> value) multiset" where
  "bag rows = image_mset (\<lambda>r. (row_name r, row_value r)) (mset rows)"

lemma bag_simps [simp]:
  "bag [] = {#}"
  "bag (r # rs) = add_mset (row_name r, row_value r) (bag rs)"
  "bag (xs @ ys) = bag xs + bag ys"
  by (simp_all add: bag_def)

lemma terms_plus [simp]: "terms H (a + b) = terms H a + terms H b"
  by (simp add: terms_def)

lemma foldl_terms:
  "foldl (\<lambda>acc r. acc + version_row H (row_name r) (row_value r)) s rows = s + terms H (bag rows)"
  by (induction rows arbitrary: s) (simp_all add: terms_def bag_def add.assoc)

lemma rows_sum_terms: "rows_sum H rows = take_bit 53 (terms H (bag rows))"
  by (simp add: rows_sum_def foldl_terms and_MASK)

lemma of_rows_terms: "of_rows H u rows = take_bit 53 (version_base H u + terms H (bag rows))"
  by (simp add: of_rows_def version_apply_def rows_sum_terms and_MASK take53_simps)

text \<open>The incremental update is exact: whatever the rows a write moves.\<close>

lemma version_apply_delta:
  assumes "bag rows + bag after = bag rows' + bag before"
  shows "version_apply (of_rows H u rows) (fst (version_delta H before after))
      (snd (version_delta H before after)) = of_rows H u rows'"
proof -
  have "terms H (bag rows) + terms H (bag after) = terms H (bag rows') + terms H (bag before)"
    by (metis assms terms_plus)
  then have "version_base H u + terms H (bag rows) + terms H (bag after) - terms H (bag before)
      = version_base H u + terms H (bag rows')"
    by (simp add: algebra_simps)
  then show ?thesis
    by (simp only: version_apply_def version_delta_def rows_sum_terms of_rows_terms and_MASK
        take53_delta fst_conv snd_conv)
qed

section \<open>Properties\<close>

text \<open>C38: A write that removes some rows and inserts others updates the version without reading
the rest of the metarecord, and what it assigns is exactly the version computed from the whole
new content; the version depends on the bag of (name, value) pairs only - not on the row ids nor
on their order - and fits in 53 bits, for every hash function.\<close>

theorem version_incremental:
  assumes "bag rows + bag after = bag rows' + bag before"
  shows "version_apply (of_rows H u rows) (fst (version_delta H before after))
      (snd (version_delta H before after)) = of_rows H u rows' \<and>
    (bag rows = bag rows' \<longrightarrow> of_rows H u rows = of_rows H u rows') \<and>
    unat (of_rows H u rows) < 2 ^ 53"
proof -
  have "unat (of_rows H u rows) < 2 ^ 53"
    unfolding of_rows_terms by (rule take53_bound)
  moreover have "of_rows H u rows = of_rows H u rows'" if "bag rows = bag rows'"
    using that by (simp add: of_rows_terms)
  ultimately show ?thesis
    using version_apply_delta [OF assms] by blast
qed

theorem version_incremental_witness:
  "version_apply (of_rows (\<lambda>b. of_nat (length b)) 1 [\<lparr>row_id = 1, row_name = ''a'', row_value = VBool True\<rparr>])
      (fst (version_delta (\<lambda>b. of_nat (length b)) [\<lparr>row_id = 1, row_name = ''a'', row_value = VBool True\<rparr>]
             [\<lparr>row_id = 2, row_name = ''a'', row_value = Nothing\<rparr>]))
      (snd (version_delta (\<lambda>b. of_nat (length b)) [\<lparr>row_id = 1, row_name = ''a'', row_value = VBool True\<rparr>]
             [\<lparr>row_id = 2, row_name = ''a'', row_value = Nothing\<rparr>]))
    = of_rows (\<lambda>b. of_nat (length b)) 1 [\<lparr>row_id = 2, row_name = ''a'', row_value = Nothing\<rparr>] \<and>
   unat (of_rows (\<lambda>b. of_nat (length b)) 1 [\<lparr>row_id = 1, row_name = ''a'', row_value = VBool True\<rparr>]) < 2 ^ 53"
  using version_incremental [of "[\<lparr>row_id = 1, row_name = ''a'', row_value = VBool True\<rparr>]"
      "[\<lparr>row_id = 2, row_name = ''a'', row_value = Nothing\<rparr>]" "[\<lparr>row_id = 2, row_name = ''a'', row_value = Nothing\<rparr>]"
      "[\<lparr>row_id = 1, row_name = ''a'', row_value = VBool True\<rparr>]" "\<lambda>b. of_nat (length b)" 1]
  by simp

end
