(* ===== verification/Rowstore.thy ===== *)
theory Rowstore
  imports Table Encoding Version
begin

text \<open>
  The primary data of the key-value store (\<open>crates/daemon/src/kvstore/mod.rs\<close>): the metarecords
  and their rows, with the tables derived from the rows that the write path itself reads - the
  owner of a row, the rows of a field, the value types of a field, the occupied positions of a
  forest. Each operation of \<open>WriteTxn\<close> on them is a function on the record \<open>rowstore\<close>, whose
  fields are the tables of the struct \<open>Tables\<close> (keys as tuples, see \<open>Table\<close>) and the counter
  \<open>next_row\<close> of \<open>meta\<close>.

  \<open>rows_inv\<close> says the four derived tables hold exactly what the cells derive; every operation
  keeps it. The abstract content of a metarecord is the bag of its (name, value) pairs
  (\<open>content\<close>), and the lemmas \<open>content_\<close> say what each operation does to it. LMDB itself (the
  heed crate), the query index derived from the same writes (\<open>derived.rs\<close>) and the counting of
  reads are left out.
\<close>

section \<open>Errors\<close>

text \<open>
  One constructor per error of the write path, with what its message names. \<open>error_status\<close> is
  the \<open>DomainError\<close> variant; \<open>Internal\<close> is an error that is none.
\<close>

datatype store_error =
    RecordNotFound uuid
  | FieldNotFound int uuid
  | OperationNotFound int
  | LabelHoldsNothing int
  | NoOpAtOrBefore int
  | MfrPathSingleValued
  | PositionOccupied string
  | InvalidName bytes string
  | TreeCycle string
  | InvalidParent uuid string
  | TreeTooDeep
  | SecondPosition uuid string
  | SecondName uuid string
  | ValueTypeConflict string string string
  | DuplicateValue string int uuid
  | CannotDeleteRoot
  | PositionHasChildren string uuid
  | MixedValueTypes string
  | LabelIsWatchers int
  | NoSuchLabel int
  | LabelTooDeep int
  | ExistsAgain uuid int
  | RecordExists uuid
  | RowWithoutRecord uuid
  | RowExists int
  | Dangling int
  | UnloggedWrite int
  | NoFieldName int
  | EmptyHistory

datatype status = NotFound | BadRequest | Conflict | Internal

fun error_status :: "store_error \<Rightarrow> status" where
  "error_status (RecordNotFound _) = NotFound"
| "error_status (FieldNotFound _ _) = NotFound"
| "error_status (OperationNotFound _) = NotFound"
| "error_status (LabelHoldsNothing _) = NotFound"
| "error_status (ExistsAgain _ _) = Conflict"
| "error_status (RecordExists _) = Internal"
| "error_status (RowWithoutRecord _) = Internal"
| "error_status (RowExists _) = Internal"
| "error_status (Dangling _) = Internal"
| "error_status (UnloggedWrite _) = Internal"
| "error_status (NoFieldName _) = Internal"
| "error_status (NoOpAtOrBefore _) = Internal"
| "error_status EmptyHistory = Internal"
| "error_status _ = BadRequest"

section \<open>State\<close>

record rowstore =
  next_row :: int
  metarecords :: "(uuid, u64) table"
  cells :: "(uuid \<times> string \<times> int, FieldRow) table"
  row_owner :: "(int, uuid \<times> string) table"
  by_field :: "(string \<times> int, uuid) table"
  field_types :: "(string \<times> string, int) table"
  forest :: "(string \<times> uuid \<times> bytes, uuid \<times> int) table"

definition empty_rows :: rowstore where
  "empty_rows = \<lparr>next_row = 1, metarecords = [], cells = [], row_owner = [], by_field = [],
     field_types = [], forest = []\<rparr>"

section \<open>Reading\<close>

definition kv_version :: "rowstore \<Rightarrow> uuid \<Rightarrow> u64 option" where
  "kv_version s u = tget (metarecords s) u"

definition kv_rows :: "rowstore \<Rightarrow> uuid \<Rightarrow> FieldRow list" where
  "kv_rows s u = sort_key row_id (map snd (tscan (\<lambda>(v, _, _). v = u) (cells s)))"

definition kv_rows_named :: "rowstore \<Rightarrow> uuid \<Rightarrow> string \<Rightarrow> FieldRow list" where
  "kv_rows_named s u n = map snd (tscan (\<lambda>(v, m, _). v = u \<and> m = n) (cells s))"

definition kv_row :: "rowstore \<Rightarrow> int \<Rightarrow> (uuid \<times> FieldRow) option" where
  "kv_row s i =
     (case tget (row_owner s) i of
        None \<Rightarrow> None
      | Some (u, n) \<Rightarrow> map_option (Pair u) (tget (cells s) (u, n, i)))"

definition kv_field_rows :: "rowstore \<Rightarrow> string \<Rightarrow> store_error + (uuid \<times> FieldRow) list" where
  "kv_field_rows s n =
     foldE (\<lambda>((_, i), u) out.
         bindE (optE (tget (cells s) (u, n, i)) (Dangling i)) (\<lambda>r. Inr (out @ [(u, r)])))
       (tscan (\<lambda>(m, _). m = n) (by_field s)) []"

definition kv_value_types :: "rowstore \<Rightarrow> string \<Rightarrow> string list" where
  "kv_value_types s n = map (\<lambda>((_, t), _). t) (tscan (\<lambda>(m, _). m = n) (field_types s))"

definition kv_holders :: "rowstore \<Rightarrow> string \<Rightarrow> uuid list" where
  "kv_holders s n = dedup_by (=) [] (map snd (tscan (\<lambda>(m, _). m = n) (by_field s)))"

definition kv_max_row_id :: "rowstore \<Rightarrow> int" where
  "kv_max_row_id s = (if row_owner s = [] then 0 else fst (last (row_owner s)))"

text \<open>A position's name: the end of its key, or read from its row when the key holds a hash.\<close>

definition node_name :: "rowstore \<Rightarrow> string \<Rightarrow> bytes \<Rightarrow> uuid \<times> int \<Rightarrow> store_error + bytes" where
  "node_name s field key_end v =
     (if length key_end \<le> NODE_MAX then Inr key_end
      else bindE (optE (tget (cells s) (fst v, field, snd v)) (Dangling (snd v))) (\<lambda>row.
           bindE (optE (position (row_value row)) (Dangling (snd v))) (\<lambda>(_, name). Inr name)))"

definition kv_children ::
    "rowstore \<Rightarrow> string \<Rightarrow> uuid \<Rightarrow> store_error + (uuid \<times> bytes \<times> int) list" where
  "kv_children s field parent =
     foldE (\<lambda>((_, _, k), v) out.
         bindE (node_name s field k v) (\<lambda>name. Inr (out @ [(fst v, name, snd v)])))
       (tscan (\<lambda>(f, p, _). f = field \<and> p = parent) (forest s)) []"

section \<open>Writing\<close>

definition count_type :: "string \<Rightarrow> value \<Rightarrow> int \<Rightarrow> rowstore \<Rightarrow> rowstore" where
  "count_type name v delta s =
     (if v = Nothing then s
      else let k = (name, value_type (encode_value v));
               n = (case tget (field_types s) k of None \<Rightarrow> 0 | Some c \<Rightarrow> c) + delta
           in if n \<le> 0 then s\<lparr>field_types := tdel k (field_types s)\<rparr>
              else s\<lparr>field_types := tput k n (field_types s)\<rparr>)"

definition forest_key :: "(bytes \<Rightarrow> u64) \<Rightarrow> string \<Rightarrow> value \<Rightarrow> (string \<times> uuid \<times> bytes) option" where
  "forest_key H name v =
     map_option (\<lambda>(parent, node). (name, (case parent of None \<Rightarrow> ZERO_UUID | Some p \<Rightarrow> p), node_key H node))
       (position v)"

definition create_metarecord_row :: "uuid \<Rightarrow> u64 \<Rightarrow> rowstore \<Rightarrow> store_error + rowstore" where
  "create_metarecord_row u version s =
     (if tget (metarecords s) u \<noteq> None then Inl (RecordExists u)
      else Inr (s\<lparr>metarecords := tput u version (metarecords s)\<rparr>))"

definition set_version :: "uuid \<Rightarrow> u64 \<Rightarrow> rowstore \<Rightarrow> rowstore" where
  "set_version u version s =
     (if tget (metarecords s) u \<noteq> None then s\<lparr>metarecords := tput u version (metarecords s)\<rparr> else s)"

text \<open>The id a row gets: the next of the counter, or a given one, which moves the counter past it.\<close>

definition take_row_id :: "int option \<Rightarrow> rowstore \<Rightarrow> store_error + int \<times> rowstore" where
  "take_row_id rid s =
     (case rid of
        Some i \<Rightarrow>
          if tget (row_owner s) i \<noteq> None then Inl (RowExists i)
          else Inr (i, if next_row s \<le> i then s\<lparr>next_row := i + 1\<rparr> else s)
      | None \<Rightarrow> Inr (next_row s, s\<lparr>next_row := next_row s + 1\<rparr>))"

definition put_row :: "(bytes \<Rightarrow> u64) \<Rightarrow> uuid \<Rightarrow> FieldRow \<Rightarrow> rowstore \<Rightarrow> rowstore" where
  "put_row H u row s =
     s\<lparr>cells := tput (u, row_name row, row_id row) row (cells s),
       row_owner := tput (row_id row) (u, row_name row) (row_owner s),
       by_field := tput (row_name row, row_id row) u (by_field s),
       forest := (case forest_key H (row_name row) (row_value row) of
                    None \<Rightarrow> forest s
                  | Some k \<Rightarrow> tput k (u, row_id row) (forest s))\<rparr>"

definition insert_row ::
    "(bytes \<Rightarrow> u64) \<Rightarrow> uuid \<Rightarrow> string \<Rightarrow> value \<Rightarrow> int option \<Rightarrow> rowstore \<Rightarrow> store_error + int \<times> rowstore"
where
  "insert_row H u name v rid s =
     (if kv_version s u = None then Inl (RowWithoutRecord u)
      else if name = ''mfr_path'' \<and> kv_rows_named s u name \<noteq> [] then Inl MfrPathSingleValued
      else if (case forest_key H name v of None \<Rightarrow> False | Some k \<Rightarrow> tget (forest s) k \<noteq> None)
      then Inl (PositionOccupied name)
      else bindE (take_row_id rid s) (\<lambda>(i, s).
        Inr (i, count_type name v 1
                  (put_row H u \<lparr>row_id = i, row_name = name, row_value = v\<rparr> s))))"

definition drop_row :: "(bytes \<Rightarrow> u64) \<Rightarrow> uuid \<Rightarrow> FieldRow \<Rightarrow> rowstore \<Rightarrow> rowstore" where
  "drop_row H u row s =
     s\<lparr>cells := tdel (u, row_name row, row_id row) (cells s),
       row_owner := tdel (row_id row) (row_owner s),
       by_field := tdel (row_name row, row_id row) (by_field s),
       forest := (case forest_key H (row_name row) (row_value row) of
                    None \<Rightarrow> forest s
                  | Some k \<Rightarrow> tdel k (forest s))\<rparr>"

definition delete_row :: "(bytes \<Rightarrow> u64) \<Rightarrow> int \<Rightarrow> rowstore \<Rightarrow> rowstore" where
  "delete_row H i s =
     (case kv_row s i of
        None \<Rightarrow> s
      | Some (u, row) \<Rightarrow> count_type (row_name row) (row_value row) (-1)
           (drop_row H u (row\<lparr>row_id := i\<rparr>) s))"

definition delete_rows :: "(bytes \<Rightarrow> u64) \<Rightarrow> uuid \<Rightarrow> string option \<Rightarrow> rowstore \<Rightarrow> rowstore" where
  "delete_rows H u name s =
     foldl (\<lambda>s row. if (case name of None \<Rightarrow> True | Some n \<Rightarrow> n = row_name row)
                    then delete_row H (row_id row) s else s)
       s (kv_rows s u)"

definition remove_metarecord :: "(bytes \<Rightarrow> u64) \<Rightarrow> uuid \<Rightarrow> rowstore \<Rightarrow> rowstore" where
  "remove_metarecord H u s =
     (let s = delete_rows H u None s in s\<lparr>metarecords := tdel u (metarecords s)\<rparr>)"

definition clear_metarecords :: "rowstore \<Rightarrow> rowstore" where
  "clear_metarecords s =
     s\<lparr>metarecords := [], cells := [], row_owner := [], by_field := [], field_types := [],
       forest := []\<rparr>"

section \<open>Invariant\<close>

text \<open>A cell is filed under its own name and id, on a metarecord that exists.\<close>

definition cells_inv :: "rowstore \<Rightarrow> bool" where
  "cells_inv s \<longleftrightarrow> (\<forall>u n i r. tget (cells s) (u, n, i) = Some r \<longrightarrow>
     row_id r = i \<and> row_name r = n \<and> 0 < i \<and> i < next_row s \<and> tget (metarecords s) u \<noteq> None)"

definition owner_inv :: "rowstore \<Rightarrow> bool" where
  "owner_inv s \<longleftrightarrow> (\<forall>i u n. tget (row_owner s) i = Some (u, n) \<longleftrightarrow> tget (cells s) (u, n, i) \<noteq> None)"

definition field_inv :: "rowstore \<Rightarrow> bool" where
  "field_inv s \<longleftrightarrow> (\<forall>n i u. tget (by_field s) (n, i) = Some u \<longleftrightarrow> tget (cells s) (u, n, i) \<noteq> None)"

definition forest_inv :: "(bytes \<Rightarrow> u64) \<Rightarrow> rowstore \<Rightarrow> bool" where
  "forest_inv H s \<longleftrightarrow> (\<forall>k u i. tget (forest s) k = Some (u, i) \<longleftrightarrow>
     (\<exists>n r. tget (cells s) (u, n, i) = Some r \<and> forest_key H n (row_value r) = Some k))"

definition typed :: "string \<Rightarrow> string \<Rightarrow> (uuid \<times> string \<times> int) \<times> FieldRow \<Rightarrow> bool" where
  "typed n t e \<longleftrightarrow> fst (snd (fst e)) = n \<and> row_value (snd e) \<noteq> Nothing \<and> type_str (row_value (snd e)) = t"

definition typed_count :: "rowstore \<Rightarrow> string \<Rightarrow> string \<Rightarrow> nat" where
  "typed_count s n t = size (filter_mset (typed n t) (mset (cells s)))"

definition types_inv :: "rowstore \<Rightarrow> bool" where
  "types_inv s \<longleftrightarrow> (\<forall>n t. tget (field_types s) (n, t) =
     (if typed_count s n t = 0 then None else Some (int (typed_count s n t))))"

definition path_inv :: "rowstore \<Rightarrow> bool" where
  "path_inv s \<longleftrightarrow> (\<forall>u i j. tget (cells s) (u, ''mfr_path'', i) \<noteq> None \<longrightarrow>
     tget (cells s) (u, ''mfr_path'', j) \<noteq> None \<longrightarrow> i = j)"

definition ordered_tables :: "rowstore \<Rightarrow> bool" where
  "ordered_tables s \<longleftrightarrow> ordered (metarecords s) \<and> ordered (cells s) \<and> ordered (row_owner s) \<and>
     ordered (by_field s) \<and> ordered (field_types s) \<and> ordered (forest s)"

definition rows_inv :: "(bytes \<Rightarrow> u64) \<Rightarrow> rowstore \<Rightarrow> bool" where
  "rows_inv H s \<longleftrightarrow> 0 < next_row s \<and> ordered_tables s \<and> cells_inv s \<and> owner_inv s \<and> field_inv s \<and>
     forest_inv H s \<and> types_inv s \<and> path_inv s"

text \<open>What a metarecord holds, row ids aside.\<close>

definition content :: "rowstore \<Rightarrow> uuid \<Rightarrow> (string \<times> value) multiset" where
  "content s u = bag (kv_rows s u)"

section \<open>Lemmas: the invariant\<close>

lemmas row_invs = cells_inv_def owner_inv_def field_inv_def path_inv_def ordered_tables_def

lemma rows_invD [dest]:
  assumes "rows_inv H s"
  shows "ordered_tables s" "cells_inv s" "owner_inv s" "field_inv s" "forest_inv H s" "types_inv s" "path_inv s"
  using assms by (simp_all add: rows_inv_def)

lemma rows_inv_empty [inv_intros]: "rows_inv H empty_rows"
  by (simp add: rows_inv_def empty_rows_def row_invs forest_inv_def types_inv_def typed_count_def)

lemma count_type_frame [simp, frame_simps]:
  "next_row (count_type n v d s) = next_row s"
  "metarecords (count_type n v d s) = metarecords s"
  "cells (count_type n v d s) = cells s"
  "row_owner (count_type n v d s) = row_owner s"
  "by_field (count_type n v d s) = by_field s"
  "forest (count_type n v d s) = forest s"
  by (simp_all add: count_type_def Let_def)

lemma put_row_frame [simp, frame_simps]:
  "next_row (put_row H u r s) = next_row s"
  "metarecords (put_row H u r s) = metarecords s"
  "field_types (put_row H u r s) = field_types s"
  "cells (put_row H u r s) = tput (u, row_name r, row_id r) r (cells s)"
  "row_owner (put_row H u r s) = tput (row_id r) (u, row_name r) (row_owner s)"
  "by_field (put_row H u r s) = tput (row_name r, row_id r) u (by_field s)"
  by (simp_all add: put_row_def)

lemma drop_row_frame [simp, frame_simps]:
  "next_row (drop_row H u r s) = next_row s"
  "metarecords (drop_row H u r s) = metarecords s"
  "field_types (drop_row H u r s) = field_types s"
  "cells (drop_row H u r s) = tdel (u, row_name r, row_id r) (cells s)"
  "row_owner (drop_row H u r s) = tdel (row_id r) (row_owner s)"
  "by_field (drop_row H u r s) = tdel (row_name r, row_id r) (by_field s)"
  by (simp_all add: drop_row_def)

lemma tget_forest_put:
  "tget (forest (put_row H u r s)) k =
     (if forest_key H (row_name r) (row_value r) = Some k then Some (u, row_id r) else tget (forest s) k)"
  by (auto simp: put_row_def split: option.splits)

lemma tget_forest_drop:
  "tget (forest (drop_row H u r s)) k =
     (if forest_key H (row_name r) (row_value r) = Some k then None else tget (forest s) k)"
  by (auto simp: drop_row_def split: option.splits)

lemma ordered_count_type: "ordered (field_types s) \<Longrightarrow> ordered (field_types (count_type n v d s))"
  by (simp add: count_type_def Let_def)

lemma ordered_forest:
  "ordered (forest s) \<Longrightarrow> ordered (forest (put_row H u r s))"
  "ordered (forest s) \<Longrightarrow> ordered (forest (drop_row H u r s))"
  by (auto simp: put_row_def drop_row_def split: option.splits)

text \<open>A fresh row id names no cell at all.\<close>

lemma fresh_id: "owner_inv s \<Longrightarrow> tget (row_owner s) i = None \<Longrightarrow> tget (cells s) (u, n, i) = None"
  unfolding owner_inv_def by (metis option.distinct(1))

lemma fresh_next: "cells_inv s \<Longrightarrow> owner_inv s \<Longrightarrow> next_row s \<le> i \<Longrightarrow> tget (row_owner s) i = None"
  unfolding owner_inv_def cells_inv_def
  by (metis linorder_not_le not_None_eq surj_pair)

lemma forest_key_name: "forest_key H n v = Some k \<Longrightarrow> fst k = n"
  by (auto simp: forest_key_def)

text \<open>The count of the values of one type, as one row comes and goes.\<close>

lemma types_put:
  assumes "types_inv s" and "tget (cells s) (u, row_name r, row_id r) = None"
  shows "types_inv (count_type (row_name r) (row_value r) 1 (put_row H u r s))"
proof -
  have c: "typed_count (count_type (row_name r) (row_value r) 1 (put_row H u r s)) n t =
      (if row_name r = n \<and> row_value r \<noteq> Nothing \<and> type_str (row_value r) = t then 1 else 0) + typed_count s n t" for n t
    using mset_tput_new [OF assms(2)] by (simp add: typed_count_def typed_def)
  show ?thesis
    unfolding types_inv_def c
    using assms(1) by (auto simp: types_inv_def count_type_def Let_def)
qed

lemma types_drop:
  assumes "types_inv s" and "ordered (cells s)" and "tget (cells s) (u, row_name r, row_id r) = Some r"
  shows "types_inv (count_type (row_name r) (row_value r) (-1) (drop_row H u r s))"
proof -
  let ?hit = "\<lambda>n t. row_name r = n \<and> row_value r \<noteq> Nothing \<and> type_str (row_value r) = t"
  have c: "typed_count s n t = (if ?hit n t then 1 else 0) +
      typed_count (count_type (row_name r) (row_value r) (-1) (drop_row H u r s)) n t" for n t
    using mset_tdel [OF assms(2,3)] by (simp add: typed_count_def typed_def)
  show ?thesis
    unfolding types_inv_def
  proof (intro allI)
    fix n t
    let ?s' = "count_type (row_name r) (row_value r) (-1) (drop_row H u r s)"
    have old: "tget (field_types s) (n, t) =
        (if typed_count s n t = 0 then None else Some (int (typed_count s n t)))"
      using assms(1) by (simp add: types_inv_def)
    show "tget (field_types ?s') (n, t) = (if typed_count ?s' n t = 0 then None else Some (int (typed_count ?s' n t)))"
    proof -
      obtain m where m: "typed_count ?s' n t = m" by simp
      show ?thesis
        using c [of n t] old unfolding m by (cases "?hit n t") (auto simp: count_type_def Let_def)
    qed
  qed
qed

lemma put_row_inv [inv_intros]:
  assumes inv: "rows_inv H s" and rec: "tget (metarecords s) u \<noteq> None"
    and fresh: "tget (row_owner s) (row_id r) = None" and i: "0 < row_id r" "row_id r < next_row s"
    and path: "row_name r = ''mfr_path'' \<Longrightarrow> (\<forall>j. tget (cells s) (u, ''mfr_path'', j) = None)"
    and free: "\<And>k. forest_key H (row_name r) (row_value r) = Some k \<Longrightarrow> tget (forest s) k = None"
  shows "rows_inv H (count_type (row_name r) (row_value r) 1 (put_row H u r s))"
proof -
  note I = rows_invD [OF inv]
  note none = fresh_id [OF I(3) fresh]
  have "forest_inv H (count_type (row_name r) (row_value r) 1 (put_row H u r s))"
    unfolding forest_inv_def
  proof (intro allI)
    fix k v j
    have old: "tget (forest s) k = Some (v, j) \<longleftrightarrow>
        (\<exists>n r. tget (cells s) (v, n, j) = Some r \<and> forest_key H n (row_value r) = Some k)"
      using I(5) unfolding forest_inv_def by blast
    show "tget (forest (count_type (row_name r) (row_value r) 1 (put_row H u r s))) k = Some (v, j) \<longleftrightarrow>
        (\<exists>n r'. tget (cells (count_type (row_name r) (row_value r) 1 (put_row H u r s))) (v, n, j) = Some r' \<and>
          forest_key H n (row_value r') = Some k)"
      using old free [of k] none by (auto simp: tget_forest_put split: if_splits)
  qed
  then show ?thesis
    using I inv rec fresh none i path types_put [OF I(6) none]
    by (auto simp: rows_inv_def row_invs ordered_count_type ordered_forest)
qed

lemma drop_row_inv [inv_intros]:
  assumes inv: "rows_inv H s" and r: "tget (cells s) (u, row_name r, row_id r) = Some r"
  shows "rows_inv H (count_type (row_name r) (row_value r) (-1) (drop_row H u r s))"
proof -
  note I = rows_invD [OF inv]
  have own: "tget (row_owner s) (row_id r) = Some (u, row_name r)"
    using I(3) r by (simp add: owner_inv_def)
  have only: "(v, n) = (u, row_name r)" if "tget (cells s) (v, n, row_id r) \<noteq> None" for v n
    using I(3) own that unfolding owner_inv_def by (metis option.inject)
  have left: "tget (cells (drop_row H u r s)) (v, n, i) \<noteq> None \<longleftrightarrow> tget (cells s) (v, n, i) \<noteq> None \<and> i \<noteq> row_id r" for v n i
  proof (cases "(v, n, i) = (u, row_name r, row_id r)")
    case False
    have "tget (cells (drop_row H u r s)) (v, n, i) = tget (cells s) (v, n, i)"
      unfolding drop_row_frame tget_del by (rule fun_upd_other [OF False])
    moreover have "tget (cells s) (v, n, i) = None" if "i = row_id r"
      using False only [of v n] that by blast
    ultimately show ?thesis by (cases "i = row_id r") (simp_all only: simp_thms)
  qed simp
  have "forest_inv H (count_type (row_name r) (row_value r) (-1) (drop_row H u r s))"
    unfolding forest_inv_def
  proof (intro allI)
    fix k v j
    have old: "tget (forest s) k = Some (v, j) \<longleftrightarrow>
        (\<exists>n r. tget (cells s) (v, n, j) = Some r \<and> forest_key H n (row_value r) = Some k)" for v j
      using I(5) unfolding forest_inv_def by blast
    show "tget (forest (count_type (row_name r) (row_value r) (-1) (drop_row H u r s))) k = Some (v, j) \<longleftrightarrow>
        (\<exists>n r'. tget (cells (count_type (row_name r) (row_value r) (-1) (drop_row H u r s))) (v, n, j) = Some r' \<and>
          forest_key H n (row_value r') = Some k)"
    proof (cases "forest_key H (row_name r) (row_value r) = Some k")
      case True
      then have "tget (forest s) k = Some (u, row_id r)" using old r by blast
      then show ?thesis
        using True old [of v j] forest_key_name [OF True] by (auto simp: tget_forest_drop dest: forest_key_name)
    next
      case False
      then have "tget (forest (drop_row H u r s)) k = tget (forest s) k" by (simp add: tget_forest_drop)
      moreover have "tget (cells (drop_row H u r s)) (v, n, j) = Some r' \<and> forest_key H n (row_value r') = Some k \<longleftrightarrow>
          tget (cells s) (v, n, j) = Some r' \<and> forest_key H n (row_value r') = Some k" for n r'
        using False r by auto
      ultimately show ?thesis using old [of v j] by (simp only: count_type_frame)
    qed
  qed
  moreover have "owner_inv (count_type (row_name r) (row_value r) (-1) (drop_row H u r s))"
    using I(3) unfolding owner_inv_def count_type_frame left by (simp add: drop_row_def)
  moreover have "field_inv (count_type (row_name r) (row_value r) (-1) (drop_row H u r s))"
    using I(4) only unfolding field_inv_def count_type_frame left by (simp add: drop_row_def) (metis prod.inject)
  ultimately show ?thesis
    using I inv types_drop [OF I(6) _ r]
    by (auto simp: rows_inv_def cells_inv_def path_inv_def ordered_tables_def ordered_count_type ordered_forest)
qed


section \<open>Lemmas: reading\<close>

text \<open>The rows of a metarecord as a multiset of cells, and its content.\<close>

definition cells_of :: "rowstore \<Rightarrow> uuid \<Rightarrow> ((uuid \<times> string \<times> int) \<times> FieldRow) multiset" where
  "cells_of s u = filter_mset (\<lambda>e. fst (fst e) = u) (mset (cells s))"

lemma mset_kv_rows: "mset (kv_rows s u) = image_mset snd (cells_of s u)"
  by (simp add: kv_rows_def cells_of_def tscan_def case_prod_beta)

lemma content_cells: "content s u = image_mset (\<lambda>e. (row_name (snd e), row_value (snd e))) (cells_of s u)"
  by (simp add: content_def bag_def mset_kv_rows multiset.map_comp comp_def)

lemma content_frame: "cells s = cells t \<Longrightarrow> content s u = content t u"
  by (simp add: content_cells cells_of_def)

lemma in_kv_rows:
  assumes "rows_inv H s"
  shows "r \<in> set (kv_rows s u) \<longleftrightarrow> tget (cells s) (u, row_name r, row_id r) = Some r"
proof -
  have o: "ordered (cells s)" and c: "cells_inv s"
    using assms by (auto simp: ordered_tables_def dest: rows_invD)
  have "r \<in> set (kv_rows s u) \<longleftrightarrow> (\<exists>n i. tget (cells s) (u, n, i) = Some r)"
    unfolding kv_rows_def set_sort set_map image_iff Bex_def split_paired_Ex in_tscan [OF o] by auto
  then show ?thesis using c unfolding cells_inv_def by blast
qed

lemma in_kv_rows_named:
  assumes "rows_inv H s"
  shows "r \<in> set (kv_rows_named s u n) \<longleftrightarrow> row_name r = n \<and> tget (cells s) (u, n, row_id r) = Some r"
proof -
  have o: "ordered (cells s)" and c: "cells_inv s"
    using assms by (auto simp: ordered_tables_def dest: rows_invD)
  have "r \<in> set (kv_rows_named s u n) \<longleftrightarrow> (\<exists>i. tget (cells s) (u, n, i) = Some r)"
    unfolding kv_rows_named_def set_map image_iff Bex_def split_paired_Ex in_tscan [OF o] by auto
  then show ?thesis using c unfolding cells_inv_def by blast
qed

lemma kv_rows_named_Nil: "rows_inv H s \<Longrightarrow> kv_rows_named s u n = [] \<longleftrightarrow> (\<forall>i. tget (cells s) (u, n, i) = None)"
  using tbl.entries_empty_iff [of "cells s" "\<lambda>(v, m, _). v = u \<and> m = n"]
  by (auto simp: kv_rows_named_def ordered_tables_def dest: rows_invD)

text \<open>A row is found by its id exactly when it is among the rows of its owner.\<close>

lemma kv_row_iff:
  assumes "rows_inv H s"
  shows "kv_row s i = Some (u, r) \<longleftrightarrow> row_id r = i \<and> tget (cells s) (u, row_name r, i) = Some r"
proof -
  have o: "owner_inv s" and c: "cells_inv s" using assms by (auto dest: rows_invD)
  show ?thesis
  proof
    assume "kv_row s i = Some (u, r)"
    then obtain n where "tget (cells s) (u, n, i) = Some r"
      by (auto simp: kv_row_def split: option.splits prod.splits)
    then show "row_id r = i \<and> tget (cells s) (u, row_name r, i) = Some r"
      using c unfolding cells_inv_def by blast
  next
    assume r: "row_id r = i \<and> tget (cells s) (u, row_name r, i) = Some r"
    then have "tget (row_owner s) i = Some (u, row_name r)" using o unfolding owner_inv_def by blast
    then show "kv_row s i = Some (u, r)" using r by (simp add: kv_row_def)
  qed
qed

lemma kv_row_of_rows:
  "rows_inv H s \<Longrightarrow> r \<in> set (kv_rows s u) \<Longrightarrow> kv_row s (row_id r) = Some (u, r)"
  by (simp add: kv_row_iff in_kv_rows)

section \<open>Lemmas: the effect of the operations\<close>

lemma content_put:
  assumes "tget (cells s) (u, row_name r, row_id r) = None"
  shows "content (count_type n v d (put_row H u r s)) w =
    (if w = u then add_mset (row_name r, row_value r) (content s w) else content s w)"
  using mset_tput_new [OF assms] by (simp add: content_cells cells_of_def)

lemma content_drop:
  assumes "ordered (cells s)" and "tget (cells s) (u, row_name r, row_id r) = Some r"
  shows "content s w =
    (if w = u then add_mset (row_name r, row_value r) (content (count_type n v d (drop_row H u r s)) w)
     else content (count_type n v d (drop_row H u r s)) w)"
  using mset_tdel [OF assms] by (simp add: content_cells cells_of_def)

lemma rows_inv_put_record:
  assumes "rows_inv H s"
  shows "rows_inv H (s\<lparr>metarecords := tput u v (metarecords s)\<rparr>)"
proof -
  have "cells_inv (s\<lparr>metarecords := tput u v (metarecords s)\<rparr>)"
    using rows_invD(2) [OF assms] unfolding cells_inv_def by auto
  then show ?thesis
    using assms unfolding rows_inv_def
    by (simp add: ordered_tables_def owner_inv_def field_inv_def path_inv_def forest_inv_def types_inv_def typed_count_def)
qed

lemma rows_inv_version:
  assumes "rows_inv H s"
  shows "rows_inv H (set_version u v s)"
proof (cases "tget (metarecords s) u = None")
  case False
  then show ?thesis using rows_inv_put_record [OF assms] by (simp add: set_version_def)
qed (simp add: set_version_def assms)

lemma set_version_frame [simp, frame_simps]:
  "next_row (set_version u v s) = next_row s"
  "cells (set_version u v s) = cells s"
  "row_owner (set_version u v s) = row_owner s"
  "by_field (set_version u v s) = by_field s"
  "field_types (set_version u v s) = field_types s"
  "forest (set_version u v s) = forest s"
  by (simp_all add: set_version_def)

lemma kv_version_set [simp]:
  "kv_version (set_version u v s) w = (if w = u \<and> kv_version s u \<noteq> None then Some v else kv_version s w)"
  by (simp add: kv_version_def set_version_def)

lemma create_metarecord_row_ok:
  assumes "create_metarecord_row u v s = Inr t" and "rows_inv H s"
  shows "rows_inv H t" "kv_version s u = None" "cells t = cells s" "next_row t = next_row s"
    "kv_version t w = (if w = u then Some v else kv_version s w)"
    "content t w = content s w"
proof -
  have t: "t = s\<lparr>metarecords := tput u v (metarecords s)\<rparr>" and n: "tget (metarecords s) u = None"
    using assms(1) by (auto simp: create_metarecord_row_def split: if_splits)
  show "rows_inv H t"
    unfolding t by (rule rows_inv_put_record [OF assms(2)])
  show "kv_version s u = None" "cells t = cells s" "next_row t = next_row s"
    "kv_version t w = (if w = u then Some v else kv_version s w)"
    by (simp_all add: kv_version_def t n)
  show "content t w = content s w" by (rule content_frame) (simp add: t)
qed

text \<open>No row without its metarecord.\<close>

lemma content_no_record:
  assumes "rows_inv H s" and "kv_version s u = None"
  shows "content s u = {#}" "kv_rows s u = []"
proof -
  have "r \<notin> set (kv_rows s u)" for r
    using assms unfolding in_kv_rows [OF assms(1)] kv_version_def
    by (metis cells_inv_def option.distinct(1) rows_invD(2))
  then show "kv_rows s u = []" by (metis list.set_intros(1) neq_Nil_conv)
  then show "content s u = {#}" by (simp add: content_def)
qed

text \<open>What \<open>insert_row\<close> does when it succeeds.\<close>

lemma take_row_id_ok:
  assumes "take_row_id rid s = Inr (i, t)" and "rows_inv H s" and "\<forall>j. rid = Some j \<longrightarrow> 0 < j"
  shows "rows_inv H t" "0 < i" "i < next_row t" "next_row s \<le> next_row t" "tget (row_owner s) i = None"
    "cells t = cells s" "row_owner t = row_owner s" "metarecords t = metarecords s" "forest t = forest s"
    "rid = None \<Longrightarrow> i = next_row s"
proof -
  have t: "t = s\<lparr>next_row := next_row t\<rparr>" and n: "next_row s \<le> next_row t" "i < next_row t" "0 < i"
    and o: "tget (row_owner s) i = None" and i: "rid = None \<longrightarrow> i = next_row s"
    using assms fresh_next [OF rows_invD(2,3) [OF assms(2)], of "next_row s"]
    by (auto simp: take_row_id_def rows_inv_def split: option.splits if_splits)
  have "cells_inv (s\<lparr>next_row := next_row t\<rparr>)"
    using rows_invD(2) [OF assms(2)] n(1) unfolding cells_inv_def by fastforce
  then have "rows_inv H (s\<lparr>next_row := next_row t\<rparr>)"
    using assms(2) n unfolding rows_inv_def
    by (simp add: ordered_tables_def owner_inv_def field_inv_def path_inv_def forest_inv_def types_inv_def typed_count_def)
  then show "rows_inv H t" using t by simp
  show "0 < i" "i < next_row t" "next_row s \<le> next_row t" "tget (row_owner s) i = None" by fact+
  show "cells t = cells s" "row_owner t = row_owner s" "metarecords t = metarecords s" "forest t = forest s"
    by (subst t, simp)+
  show "rid = None \<Longrightarrow> i = next_row s" using i by simp
qed

lemma insert_row_ok:
  assumes ins: "insert_row H u n v rid s = Inr (i, t)" and inv: "rows_inv H s"
    and rid: "\<forall>j. rid = Some j \<longrightarrow> 0 < j"
  shows "rows_inv H t" "metarecords t = metarecords s" "0 < i" "kv_version s u \<noteq> None"
    "tget (cells t) = (tget (cells s))((u, n, i) \<mapsto> \<lparr>row_id = i, row_name = n, row_value = v\<rparr>)"
    "content t w = (if w = u then add_mset (n, v) (content s w) else content s w)"
    "tget (row_owner s) i = None" "rid = None \<Longrightarrow> i = next_row s" "next_row s \<le> next_row t" "i < next_row t"
proof -
  let ?r = "\<lparr>row_id = i, row_name = n, row_value = v\<rparr>"
  obtain s' where t: "take_row_id rid s = Inr (i, s')" "t = count_type n v 1 (put_row H u ?r s')"
    and u: "kv_version s u \<noteq> None" and p: "n = ''mfr_path'' \<longrightarrow> kv_rows_named s u n = []"
    and f: "\<not> (case forest_key H n v of None \<Rightarrow> False | Some k \<Rightarrow> tget (forest s) k \<noteq> None)"
    using ins by (auto simp: insert_row_def bindE_eq_Inr split: if_splits)
  note k = take_row_id_ok [OF t(1) inv rid]
  have path: "\<forall>j. tget (cells s) (u, ''mfr_path'', j) = None" if "n = ''mfr_path''"
    using p that kv_rows_named_Nil [OF inv] by metis
  have "rows_inv H (count_type (row_name ?r) (row_value ?r) 1 (put_row H u ?r s'))"
  proof (rule put_row_inv)
    show "tget (metarecords s') u \<noteq> None" using u by (simp add: kv_version_def k)
    show "\<forall>j. tget (cells s') (u, ''mfr_path'', j) = None" if "row_name ?r = ''mfr_path''"
      using path that by (simp add: k)
    show "tget (forest s') x = None" if "forest_key H (row_name ?r) (row_value ?r) = Some x" for x
      using f that by (simp add: k)
  qed (use k in simp_all)
  then show "rows_inv H t" by (simp add: t)
  have none: "tget (cells s') (u, n, i) = None"
    using fresh_id [OF rows_invD(3) [OF inv] k(5)] by (simp add: k)
  show "metarecords t = metarecords s" "0 < i" "kv_version s u \<noteq> None" "tget (row_owner s) i = None"
    "rid = None \<Longrightarrow> i = next_row s" "next_row s \<le> next_row t" "i < next_row t"
    using u k by (simp_all add: t(2))
  show "tget (cells t) = (tget (cells s))((u, n, i) \<mapsto> ?r)" by (simp add: t(2) k)
  show "content t w = (if w = u then add_mset (n, v) (content s w) else content s w)"
    unfolding t(2) using content_put [of s' u ?r n v 1 H w] none content_frame [OF k(6)] by simp
qed

text \<open>Deleting a row takes its cell and nothing else.\<close>

lemma delete_row_None: "kv_row s i = None \<Longrightarrow> delete_row H i s = s"
  by (simp add: delete_row_def)

lemma delete_row_ok:
  assumes row: "kv_row s i = Some (u, r)" and inv: "rows_inv H s"
  shows "rows_inv H (delete_row H i s)" "metarecords (delete_row H i s) = metarecords s"
    "next_row (delete_row H i s) = next_row s"
    "cells (delete_row H i s) = tdel (u, row_name r, i) (cells s)"
    "content s w = (if w = u then add_mset (row_name r, row_value r) (content (delete_row H i s) w)
                    else content (delete_row H i s) w)"
proof -
  have r: "row_id r = i" "tget (cells s) (u, row_name r, row_id r) = Some r"
    using row kv_row_iff [OF inv] by auto
  have d: "delete_row H i s = count_type (row_name r) (row_value r) (-1) (drop_row H u r s)"
    using row r(1) by (cases r) (simp add: delete_row_def)
  have o: "ordered (cells s)" using rows_invD(1) [OF inv] by (simp add: ordered_tables_def)
  show "rows_inv H (delete_row H i s)" unfolding d by (rule drop_row_inv [OF inv r(2)])
  show "metarecords (delete_row H i s) = metarecords s" "next_row (delete_row H i s) = next_row s"
    "cells (delete_row H i s) = tdel (u, row_name r, i) (cells s)"
    using r(1) by (simp_all add: d)
  show "content s w = (if w = u then add_mset (row_name r, row_value r) (content (delete_row H i s) w)
      else content (delete_row H i s) w)"
    unfolding d by (rule content_drop [OF o r(2)])
qed

lemma delete_row_frame [simp, frame_simps]:
  "metarecords (delete_row H i s) = metarecords s" "next_row (delete_row H i s) = next_row s"
  by (simp_all add: delete_row_def split: option.split prod.split)

lemma delete_row_inv [inv_intros]: "rows_inv H s \<Longrightarrow> rows_inv H (delete_row H i s)"
  using delete_row_None delete_row_ok(1) by (metis option.exhaust surj_pair)

text \<open>The cells a deletion leaves: those of other ids.\<close>

lemma delete_row_cells:
  assumes "rows_inv H s"
  shows "tget (cells (delete_row H i s)) (w, m, j) = (if j = i then None else tget (cells s) (w, m, j))"
proof (cases "kv_row s i")
  case None
  have "tget (cells s) (w, m, i) = None"
  proof (rule ccontr)
    assume "tget (cells s) (w, m, i) \<noteq> None"
    then obtain r where r: "tget (cells s) (w, m, i) = Some r" by blast
    then have "row_id r = i" "row_name r = m" using rows_invD(2) [OF assms] unfolding cells_inv_def by blast+
    then show False using None kv_row_iff [OF assms, of i w r] r by auto
  qed
  then show ?thesis using None by (simp add: delete_row_None)
next
  case (Some e)
  obtain u r where e: "e = (u, r)" by (cases e)
  then have r: "tget (cells s) (u, row_name r, i) = Some r" using Some kv_row_iff [OF assms] by simp
  have "(w, m) = (u, row_name r)" if "tget (cells s) (w, m, i) \<noteq> None"
    using r that rows_invD(3) [OF assms] unfolding owner_inv_def by (metis option.inject option.distinct(1))
  then show ?thesis using delete_row_ok(4) [OF Some [unfolded e] assms]
    by (cases "tget (cells s) (w, m, i) = None") auto
qed

definition named :: "string option \<Rightarrow> string \<Rightarrow> bool" where
  "named name n \<longleftrightarrow> (case name of None \<Rightarrow> True | Some m \<Rightarrow> m = n)"

lemma delete_loop_cells:
  assumes "rows_inv H s"
  shows "rows_inv H (foldl (\<lambda>s r. if p r then delete_row H (row_id r) s else s) s rs) \<and>
    tget (cells (foldl (\<lambda>s r. if p r then delete_row H (row_id r) s else s) s rs)) (w, m, j) =
      (if \<exists>r\<in>set rs. p r \<and> row_id r = j then None else tget (cells s) (w, m, j)) \<and>
    metarecords (foldl (\<lambda>s r. if p r then delete_row H (row_id r) s else s) s rs) = metarecords s \<and>
    next_row (foldl (\<lambda>s r. if p r then delete_row H (row_id r) s else s) s rs) = next_row s"
  using assms
proof (induction rs arbitrary: s)
  case (Cons r rs)
  then show ?case
    using Cons.IH [of "delete_row H (row_id r) s"] delete_row_inv [OF Cons.prems] delete_row_cells [OF Cons.prems]
    by (cases "p r") auto
qed simp

lemma delete_rows_loop:
  "delete_rows H u name s = foldl (\<lambda>s r. if named name (row_name r) then delete_row H (row_id r) s else s) s (kv_rows s u)"
  by (simp add: delete_rows_def named_def)

lemma delete_rows_frame [simp, frame_simps]:
  assumes "rows_inv H s"
  shows "metarecords (delete_rows H u name s) = metarecords s" "next_row (delete_rows H u name s) = next_row s"
  using delete_loop_cells [OF assms, of "\<lambda>r. named name (row_name r)" "kv_rows s u"]
  by (simp_all add: delete_rows_loop)

lemma delete_rows_inv [inv_intros]: "rows_inv H s \<Longrightarrow> rows_inv H (delete_rows H u name s)"
  using delete_loop_cells [of H s "\<lambda>r. named name (row_name r)" "kv_rows s u"] by (simp add: delete_rows_loop)

lemma delete_rows_cells:
  assumes "rows_inv H s"
  shows "cells (delete_rows H u name s) = tscan (\<lambda>(w, m, _). \<not> (w = u \<and> named name m)) (cells s)"
proof (rule table_ext)
  show "ordered (cells (delete_rows H u name s))"
    using rows_invD(1) [OF delete_rows_inv [OF assms]] by (simp add: ordered_tables_def)
  show "ordered (tscan (\<lambda>(w, m, _). \<not> (w = u \<and> named name m)) (cells s))"
    using rows_invD(1) [OF assms] by (simp add: ordered_tables_def tscan_ordered)
  show "tget (cells (delete_rows H u name s)) = tget (tscan (\<lambda>(w, m, _). \<not> (w = u \<and> named name m)) (cells s))"
  proof
    fix k :: "uuid \<times> string \<times> int"
    obtain w m j where k: "k = (w, m, j)" by (cases k)
    have hit: "(\<exists>r\<in>set (kv_rows s u). named name (row_name r) \<and> row_id r = j) \<longleftrightarrow> w = u \<and> named name m"
      if x: "tget (cells s) (w, m, j) = Some x" for x
    proof -
      have x': "row_id x = j" "row_name x = m" using x rows_invD(2) [OF assms] unfolding cells_inv_def by blast+
      have "r = x \<and> w = u" if "r \<in> set (kv_rows s u)" "row_id r = j" for r
        using that x x' kv_row_iff [OF assms, of j u r] kv_row_iff [OF assms, of j w x] in_kv_rows [OF assms] by auto
      moreover have "x \<in> set (kv_rows s u)" if "w = u" using that x x' in_kv_rows [OF assms] by simp
      ultimately show ?thesis using x' by blast
    qed
    show "tget (cells (delete_rows H u name s)) k = tget (tscan (\<lambda>(w, m, _). \<not> (w = u \<and> named name m)) (cells s)) k"
      using delete_loop_cells [OF assms, of "\<lambda>r. named name (row_name r)" "kv_rows s u" w m j] hit
      by (cases "tget (cells s) (w, m, j)") (auto simp: k delete_rows_loop)
  qed
qed

lemma cells_names:
  assumes "rows_inv H s" and "e \<in># mset (cells s)"
  shows "row_name (snd e) = fst (snd (fst e))"
proof -
  obtain w m j r where e: "e = ((w, m, j), r)" by (metis surj_pair)
  then have "tget (cells s) (w, m, j) = Some r"
    using assms rows_invD(1) [OF assms(1)] by (simp add: ordered_tables_def tget_Some_iff)
  then show ?thesis using e rows_invD(2) [OF assms(1)] unfolding cells_inv_def by auto
qed

lemma content_delete_rows:
  assumes "rows_inv H s"
  shows "content (delete_rows H u name s) w =
    (if w = u then filter_mset (\<lambda>(n, _). \<not> named name n) (content s w) else content s w)"
proof -
  have "filter_mset (\<lambda>e. fst (fst e) = w) (filter_mset (\<lambda>e. \<not> (fst (fst e) = u \<and> named name (fst (snd (fst e))))) (mset (cells s)))
      = (if w = u then filter_mset (\<lambda>e. \<not> named name (row_name (snd e))) (cells_of s w) else cells_of s w)"
    using cells_names [OF assms] by (auto simp: cells_of_def filter_filter_mset intro!: filter_mset_cong)
  moreover have "cells_of (delete_rows H u name s) w =
      filter_mset (\<lambda>e. fst (fst e) = w) (filter_mset (\<lambda>e. \<not> (fst (fst e) = u \<and> named name (fst (snd (fst e))))) (mset (cells s)))"
    unfolding cells_of_def [of "delete_rows H u name s"] delete_rows_cells [OF assms]
    by (simp add: tscan_def case_prod_beta)
  ultimately show ?thesis
    by (simp add: content_cells filter_mset_image_mset)
qed

lemma bag_rows_named:
  assumes "rows_inv H s"
  shows "bag (kv_rows_named s u n) = filter_mset (\<lambda>(m, _). m = n) (content s u)"
proof -
  have "filter_mset (\<lambda>e. fst (fst e) = u \<and> fst (snd (fst e)) = n) (mset (cells s)) =
      filter_mset (\<lambda>e. row_name (snd e) = n) (cells_of s u)"
    using cells_names [OF assms] by (auto simp: cells_of_def filter_filter_mset intro!: filter_mset_cong)
  then show ?thesis
    by (simp add: bag_def kv_rows_named_def tscan_def case_prod_beta content_cells filter_mset_image_mset
        multiset.map_comp comp_def)
qed

text \<open>Removing a metarecord takes its rows with it.\<close>

lemma remove_metarecord_ok:
  assumes "rows_inv H s"
  shows "rows_inv H (remove_metarecord H u s)"
    "kv_version (remove_metarecord H u s) w = (if w = u then None else kv_version s w)"
    "content (remove_metarecord H u s) w = (if w = u then {#} else content s w)"
    "next_row (remove_metarecord H u s) = next_row s"
proof -
  let ?d = "delete_rows H u None s"
  have d: "remove_metarecord H u s = ?d\<lparr>metarecords := tdel u (metarecords ?d)\<rparr>"
    by (simp add: remove_metarecord_def Let_def)
  have inv: "rows_inv H ?d" by (rule delete_rows_inv [OF assms])
  have "tget (cells ?d) (u, n, i) = None" for n i
    by (simp add: delete_rows_cells [OF assms] named_def)
  then have "cells_inv (?d\<lparr>metarecords := tdel u (metarecords ?d)\<rparr>)"
    using rows_invD(2) [OF inv] unfolding cells_inv_def by auto
  then show "rows_inv H (remove_metarecord H u s)"
    using inv unfolding d rows_inv_def
    by (simp add: ordered_tables_def owner_inv_def field_inv_def path_inv_def forest_inv_def types_inv_def typed_count_def)
  show "kv_version (remove_metarecord H u s) w = (if w = u then None else kv_version s w)"
    by (simp add: d kv_version_def assms)
  have "content (remove_metarecord H u s) w = content ?d w"
    by (rule content_frame) (simp add: d)
  then show "content (remove_metarecord H u s) w = (if w = u then {#} else content s w)"
    using content_delete_rows [OF assms, of u None w] by (simp add: named_def case_prod_beta)
  show "next_row (remove_metarecord H u s) = next_row s" by (simp add: d assms)
qed

lemma clear_metarecords_inv: "rows_inv H s \<Longrightarrow> rows_inv H (clear_metarecords s)"
  by (simp add: rows_inv_def clear_metarecords_def row_invs forest_inv_def types_inv_def typed_count_def)

text \<open>The derived tables are a function of the cells.\<close>

lemma derived_determined:
  assumes "rows_inv H s" and "rows_inv H t" and "cells s = cells t"
  shows "row_owner s = row_owner t" "by_field s = by_field t" "field_types s = field_types t" "forest s = forest t"
proof -
  note S = rows_invD [OF assms(1)] and T = rows_invD [OF assms(2)]
  note o = S(1) [unfolded ordered_tables_def] T(1) [unfolded ordered_tables_def]
  have "tget (row_owner s) i = tget (row_owner t) i" for i
    using S(3) T(3) unfolding owner_inv_def assms(3) by (metis option.exhaust surj_pair)
  then show "row_owner s = row_owner t" using o by (intro table_ext) auto
  have "tget (by_field s) k = tget (by_field t) k" for k
    using S(4) T(4) unfolding field_inv_def assms(3) by (metis option.exhaust surj_pair)
  then show "by_field s = by_field t" using o by (intro table_ext) auto
  have "tget (field_types s) k = tget (field_types t) k" for k
    using S(6) T(6) by (cases k) (simp add: types_inv_def typed_count_def assms(3))
  then show "field_types s = field_types t" using o by (intro table_ext) auto
  have "tget (forest s) k = tget (forest t) k" for k
    using S(5) T(5) unfolding forest_inv_def assms(3) by (metis option.exhaust surj_pair)
  then show "forest s = forest t" using o by (intro table_ext) auto
qed

section \<open>Properties\<close>

text \<open>C1: Every operation of the write transaction on metarecords and rows keeps the store's
invariant: the owner of a row, the rows of a field, the counted value types of a field and the
occupied positions of a forest are exactly those of the cells, every row belongs to a metarecord
that exists, row ids are below the counter, a metarecord has one \<open>mfr_path\<close> at most. The empty
store has it.\<close>

theorem rows_inv_preserved:
  assumes "rows_inv H s"
  shows "rows_inv H empty_rows \<and>
    (create_metarecord_row u ver s = Inr s1 \<longrightarrow> rows_inv H s1) \<and>
    rows_inv H (set_version u ver s) \<and>
    (insert_row H u n v rid s = Inr (i, s2) \<and> (\<forall>j. rid = Some j \<longrightarrow> 0 < j) \<longrightarrow> rows_inv H s2) \<and>
    rows_inv H (delete_row H k s) \<and>
    rows_inv H (delete_rows H u name s) \<and>
    rows_inv H (remove_metarecord H u s) \<and>
    rows_inv H (clear_metarecords s)"
  using assms
  by (blast intro: create_metarecord_row_ok(1) insert_row_ok(1) rows_inv_empty rows_inv_version
      delete_row_inv delete_rows_inv remove_metarecord_ok(1) clear_metarecords_inv)

theorem rows_inv_preserved_witness:
  "\<exists>i s2. insert_row (\<lambda>_. 0) 7 ''tag'' (VString ''x'') None
      (case create_metarecord_row 7 0 empty_rows of Inr s \<Rightarrow> s | Inl _ \<Rightarrow> empty_rows) = Inr (i, s2) \<and>
    rows_inv (\<lambda>_. 0) s2"
proof -
  let ?s = "case create_metarecord_row 7 0 empty_rows of Inr s \<Rightarrow> s | Inl _ \<Rightarrow> empty_rows"
  have "rows_inv (\<lambda>_. 0) ?s"
    using rows_inv_preserved [OF rows_inv_empty, of "\<lambda>_. 0" 7 0 ?s]
    by (simp add: create_metarecord_row_def empty_rows_def)
  moreover obtain i s2 where "insert_row (\<lambda>_. 0) 7 ''tag'' (VString ''x'') None ?s = Inr (i, s2)"
    by (simp add: insert_row_def create_metarecord_row_def empty_rows_def kv_version_def tget_def
        forest_key_def take_row_id_def)
  ultimately show ?thesis using rows_inv_preserved by blast
qed

text \<open>C2: A row that is inserted and then deleted leaves no trace but a spent row id: every table,
the derived ones included, is the one from before, and the same id is never given out again.\<close>

theorem insert_delete_row:
  assumes "rows_inv H s" and "insert_row H u n v None s = Inr (i, t)"
  shows "delete_row H i t = s\<lparr>next_row := i + 1\<rparr> \<and>
    (insert_row H u' n' v' None (delete_row H i t) = Inr (j, t') \<longrightarrow> i < j)"
proof -
  note k = insert_row_ok [OF assms(2,1)]
  let ?r = "\<lparr>row_id = i, row_name = n, row_value = v\<rparr>"
  have t: "rows_inv H t" using k(1) by simp
  have row: "kv_row t i = Some (u, ?r)" using kv_row_iff [OF t, of i u ?r] k(5) by simp
  have inv: "rows_inv H (delete_row H i t)" by (rule delete_row_inv [OF t])
  have none: "tget (cells s) (w, m, i) = None" for w m
    using fresh_id [OF rows_invD(3) [OF assms(1)]] k(7) by simp
  have c: "cells (delete_row H i t) = cells s"
  proof (rule table_ext)
    show "tget (cells (delete_row H i t)) = tget (cells s)"
      using delete_row_ok(4) [OF row t] k(5) none by (simp add: fun_eq_iff)
  qed (use rows_invD(1) [OF inv] rows_invD(1) [OF assms(1)] in \<open>simp_all add: ordered_tables_def\<close>)
  have n: "next_row t = i + 1"
    using assms(2) by (auto simp: insert_row_def take_row_id_def split: if_splits)
  have "delete_row H i t = s\<lparr>next_row := i + 1\<rparr>"
    using derived_determined [OF inv assms(1) c] c n k(2)
    by (intro rowstore.equality) simp_all
  moreover have "j = next_row (delete_row H i t)" if "insert_row H u' n' v' None (delete_row H i t) = Inr (j, t')"
    using insert_row_ok(8) [OF that inv] by simp
  ultimately show ?thesis by auto
qed

theorem insert_delete_row_witness:
  "\<exists>t. insert_row (\<lambda>_. 0) 7 ''tag'' (VString ''x'') None (empty_rows\<lparr>metarecords := [(7, 0)]\<rparr>) = Inr (1, t) \<and>
    delete_row (\<lambda>_. 0) 1 t = empty_rows\<lparr>metarecords := [(7, 0)], next_row := 2\<rparr>"
proof -
  have "rows_inv (\<lambda>_. 0) (empty_rows\<lparr>metarecords := [(7, 0)]\<rparr>)"
    using rows_inv_put_record [OF rows_inv_empty, of "\<lambda>_. 0" 7 0] by (simp add: empty_rows_def)
  moreover obtain t where t: "insert_row (\<lambda>_. 0) 7 ''tag'' (VString ''x'') None (empty_rows\<lparr>metarecords := [(7, 0)]\<rparr>) = Inr (1, t)"
    by (simp add: insert_row_def empty_rows_def kv_version_def tget_def forest_key_def take_row_id_def)
  ultimately show ?thesis using insert_delete_row [OF _ t] by (auto simp: empty_rows_def)
qed

end
