(* ===== verification/Oplog.thy ===== *)
theory Oplog
  imports Rowstore
begin

text \<open>
  The event log of the key-value store (\<open>crates/daemon/src/kvstore/mod.rs\<close>, with the types of
  \<open>log.rs\<close> and \<open>store.rs\<close>): operations with their snapshots, the labels they go under, and the
  index tables over them. The record \<open>oplog\<close> has the log's tables of the struct \<open>Tables\<close> and its
  entries of \<open>meta\<close>; each operation of \<open>Log\<close> and \<open>WriteTxn\<close> on them is a function here.

  \<open>log_inv\<close> says that the index tables hold exactly what the operations and the labels derive,
  that an operation's label and a label's parent exist, and that ids are below their counters.
  The trim and the pruning delete operations and the labels they leave empty; the two searches
  (by time, by label) are loops whose termination and result are proved here. The counting of
  reads is left out.
\<close>

section \<open>Operation types\<close>

datatype OpType =
    CreateRecord | DeleteRecord | SetRecord | SetField | AppendField | DeleteField
  | FileDeleted | FileMoved | FileModified | Unknown

fun op_as_str :: "OpType \<Rightarrow> string" where
  "op_as_str CreateRecord = ''create_metarecord''"
| "op_as_str DeleteRecord = ''delete_metarecord''"
| "op_as_str SetRecord = ''set_metarecord''"
| "op_as_str SetField = ''set_field''"
| "op_as_str AppendField = ''append_field''"
| "op_as_str DeleteField = ''delete_field''"
| "op_as_str FileDeleted = ''file_deleted''"
| "op_as_str FileMoved = ''file_moved''"
| "op_as_str FileModified = ''file_modified''"
| "op_as_str Unknown = ''unknown''"

definition is_manual :: "OpType \<Rightarrow> bool" where
  "is_manual t \<longleftrightarrow> \<not> (t = FileDeleted \<or> t = FileMoved \<or> t = FileModified)"

definition op_parse :: "string \<Rightarrow> OpType option" where
  "op_parse s =
     (if s = ''create_metarecord'' then Some CreateRecord
      else if s = ''delete_metarecord'' then Some DeleteRecord
      else if s = ''set_metarecord'' then Some SetRecord
      else if s = ''set_field'' then Some SetField
      else if s = ''append_field'' then Some AppendField
      else if s = ''delete_field'' then Some DeleteField
      else if s = ''file_deleted'' then Some FileDeleted
      else if s = ''file_moved'' then Some FileMoved
      else if s = ''file_modified'' then Some FileModified
      else if s = ''unknown'' then Some Unknown
      else None)"

definition ORIGIN_WATCHER :: string where
  "ORIGIN_WATCHER = ''watcher''"

definition ORIGIN_TRASH :: string where
  "ORIGIN_TRASH = ''trash''"

section \<open>Data\<close>

record NewOp =
  no_type :: OpType
  no_entity :: uuid
  no_field :: "string option"
  no_version_before :: "u64 option"
  no_version_after :: "u64 option"
  no_before :: "FieldRow list"
  no_after :: "FieldRow list"
  no_reverts :: "int option"
  no_origin :: "string option"

record OpRow =
  op_id :: int
  label_id :: int
  timestamp :: int
  op_type :: string
  entity_uuid :: uuid
  entity_version_before :: "u64 option"
  entity_version_after :: "u64 option"
  field_name :: "string option"
  reverts_op_id :: "int option"
  origin :: "string option"

record LabelMeta =
  lm_name :: string
  lm_description :: "string option"
  lm_parent :: "int option"
  lm_created :: int

record Retention =
  keep_watcher :: nat
  keep_user :: nat

definition UNLIMITED :: Retention where
  "UNLIMITED = \<lparr>keep_watcher = 0, keep_user = 0\<rparr>"

definition slack :: "nat \<Rightarrow> nat" where
  "slack limit = max (limit div 10) 1"

definition retention_enabled :: "Retention \<Rightarrow> bool" where
  "retention_enabled r \<longleftrightarrow> 0 < keep_watcher r \<or> 0 < keep_user r"

section \<open>Stored forms\<close>

definition out_opt_int :: "int option \<Rightarrow> bytes" where
  "out_opt_int n = out_opt_word (map_option word_of_int n)"

definition in_opt_int :: "bytes \<Rightarrow> decode_error + (int option \<times> bytes)" where
  "in_opt_int b = bindE (in_opt_word b) (\<lambda>(w, rest). Inr (map_option sint w, rest))"

text \<open>The first 16 bytes; fewer are a panic in the code, an error here.\<close>

definition uuid_of :: "bytes \<Rightarrow> decode_error + uuid" where
  "uuid_of b = (if length b < 16 then Inl InvalidUuidBlob else bytes_to_uuid (take 16 b))"

definition enc_op :: "NewOp \<Rightarrow> int \<Rightarrow> int \<Rightarrow> bytes" where
  "enc_op op label ts =
     out_int label @ out_int ts @ out_opt_bytes (no_origin op) @ out_bytes (op_as_str (no_type op)) @
     out_bytes (uuid_to_bytes (no_entity op)) @ out_opt_word (no_version_before op) @
     out_opt_word (no_version_after op) @ out_opt_bytes (no_field op) @ out_opt_int (no_reverts op)"

definition dec_op :: "int \<Rightarrow> bytes \<Rightarrow> decode_error + OpRow" where
  "dec_op i b =
     bindE (in_int b) (\<lambda>(label, b).
     bindE (in_int b) (\<lambda>(ts, b).
     bindE (in_opt_string b) (\<lambda>(orig, b).
     bindE (in_string b) (\<lambda>(ty, b).
     bindE (in_bytes b) (\<lambda>(ent, b).
     bindE (uuid_of ent) (\<lambda>u.
     bindE (in_opt_word b) (\<lambda>(vb, b).
     bindE (in_opt_word b) (\<lambda>(va, b).
     bindE (in_opt_string b) (\<lambda>(field, b).
     bindE (in_opt_int b) (\<lambda>(rev, b).
       Inr \<lparr>op_id = i, label_id = label, timestamp = ts, op_type = ty, entity_uuid = u,
            entity_version_before = vb, entity_version_after = va, field_name = field,
            reverts_op_id = rev, origin = orig\<rparr>))))))))))"

definition op_timestamp :: "bytes \<Rightarrow> decode_error + int" where
  "op_timestamp b = bindE (in_int b) (\<lambda>(_, b). bindE (in_int b) (\<lambda>(t, _). Inr t))"

definition enc_label :: "LabelMeta \<Rightarrow> uuid option \<Rightarrow> bytes" where
  "enc_label m k =
     out_bytes (lm_name m) @ out_opt_bytes (lm_description m) @ out_opt_int (lm_parent m) @
     out_int (lm_created m) @ out_opt_bytes (map_option uuid_to_bytes k)"

definition dec_label :: "bytes \<Rightarrow> decode_error + LabelMeta" where
  "dec_label b =
     bindE (in_string b) (\<lambda>(name, b).
     bindE (in_opt_string b) (\<lambda>(desc, b).
     bindE (in_opt_int b) (\<lambda>(parent, b).
     bindE (in_int b) (\<lambda>(created, b).
       Inr \<lparr>lm_name = name, lm_description = desc, lm_parent = parent, lm_created = created\<rparr>))))"

definition dec_label_key :: "bytes \<Rightarrow> decode_error + uuid option" where
  "dec_label_key b =
     bindE (in_string b) (\<lambda>(_, b).
     bindE (in_opt_bytes b) (\<lambda>(_, b).
     bindE (in_opt_int b) (\<lambda>(_, b).
     bindE (in_int b) (\<lambda>(_, b).
     bindE (in_opt_bytes b) (\<lambda>(k, _).
       case k of None \<Rightarrow> Inr None
       | Some u \<Rightarrow> bindE (uuid_of u) (\<lambda>u. Inr (Some u)))))))"

section \<open>State\<close>

record oplog =
  next_op :: int
  next_label :: int
  head :: "int option"
  watcher_label :: "int option"
  ops :: "(int, OpRow) table"
  snaps :: "(int \<times> bool \<times> nat, FieldRow) table"
  ops_by_label :: "(int \<times> int, unit) table"
  ops_by_entity :: "(uuid \<times> int, unit) table"
  labels :: "(int, LabelMeta \<times> uuid option) table"
  label_kids :: "(int \<times> int, unit) table"
  label_keys :: "(uuid, int) table"
  reverted_by :: "(int \<times> int, unit) table"
  watcher_ops :: "(int, unit) table"
  user_ops :: "(int, unit) table"

definition empty_log :: oplog where
  "empty_log = \<lparr>next_op = 1, next_label = 1, head = None, watcher_label = None, ops = [], snaps = [],
     ops_by_label = [], ops_by_entity = [], labels = [], label_kids = [], label_keys = [],
     reverted_by = [], watcher_ops = [], user_ops = []\<rparr>"

text \<open>The ids in the second component of the keys whose first component is given.\<close>

definition ids_under :: "'a \<Rightarrow> ('a \<times> int, unit) table \<Rightarrow> int list" where
  "ids_under a t = map (\<lambda>e. snd (fst e)) (tscan (\<lambda>k. fst k = a) t)"

section \<open>Reading\<close>

definition log_op_at :: "oplog \<Rightarrow> int \<Rightarrow> OpRow option" where
  "log_op_at s i = tget (ops s) i"

definition ops_of :: "oplog \<Rightarrow> int list \<Rightarrow> store_error + OpRow list" where
  "ops_of s ids = foldE (\<lambda>i out. bindE (optE (tget (ops s) i) (Dangling i)) (\<lambda>r. Inr (out @ [r]))) ids []"

definition snapshots :: "oplog \<Rightarrow> int \<Rightarrow> bool \<Rightarrow> FieldRow list" where
  "snapshots s i after = map snd (tscan (\<lambda>(j, a, _). j = i \<and> a = after) (snaps s))"

definition first_op :: "oplog \<Rightarrow> int option" where
  "first_op s = tfirst (ops s)"

definition ops_back :: "oplog \<Rightarrow> int \<Rightarrow> nat option \<Rightarrow> OpRow list" where
  "ops_back s from limit =
     (let back = rev (map snd (tscan (\<lambda>i. i \<le> from) (ops s)))
      in case limit of None \<Rightarrow> back | Some m \<Rightarrow> take m back)"

definition all_op_ids :: "oplog \<Rightarrow> int list" where
  "all_op_ids s = map fst (ops s)"

definition all_ops :: "oplog \<Rightarrow> store_error + OpRow list" where
  "all_ops s = ops_of s (all_op_ids s)"

definition label_meta :: "oplog \<Rightarrow> int \<Rightarrow> LabelMeta option" where
  "label_meta s l = map_option fst (tget (labels s) l)"

definition log_counts :: "oplog \<Rightarrow> nat \<times> nat" where
  "log_counts s = (length (ops s), length (labels s))"

definition label_op_ids :: "oplog \<Rightarrow> int \<Rightarrow> int list" where
  "label_op_ids s l = ids_under l (ops_by_label s)"

definition label_ops :: "oplog \<Rightarrow> int \<Rightarrow> store_error + OpRow list" where
  "label_ops s l = ops_of s (label_op_ids s l)"

definition label_first_op :: "oplog \<Rightarrow> int \<Rightarrow> int option" where
  "label_first_op s l = (case label_op_ids s l of [] \<Rightarrow> None | i # _ \<Rightarrow> Some i)"

definition label_children :: "oplog \<Rightarrow> int \<Rightarrow> int list" where
  "label_children s l = ids_under l (label_kids s)"

definition reverters :: "oplog \<Rightarrow> int \<Rightarrow> int list" where
  "reverters s i = ids_under i (reverted_by s)"

definition label_of_command :: "oplog \<Rightarrow> uuid \<Rightarrow> int option" where
  "label_of_command s k = tget (label_keys s) k"

definition entity_ops_after :: "oplog \<Rightarrow> uuid \<Rightarrow> int \<Rightarrow> store_error + OpRow list" where
  "entity_ops_after s u after = ops_of s (filter (\<lambda>i. after < i) (ids_under u (ops_by_entity s)))"

definition version_before_label :: "oplog \<Rightarrow> int \<Rightarrow> uuid \<Rightarrow> store_error + u64 option" where
  "version_before_label s l u =
     bindE (label_ops s l) (\<lambda>os.
       Inr (Option.bind (List.find (\<lambda>r. entity_uuid r = u) os) entity_version_before))"

definition ops_after :: "oplog \<Rightarrow> int \<Rightarrow> store_error + OpRow list" where
  "ops_after s i = ops_of s (map fst (tscan (\<lambda>j. i + 1 \<le> j) (ops s)))"

definition ops_after_count :: "oplog \<Rightarrow> int \<Rightarrow> int \<Rightarrow> nat" where
  "ops_after_count s i cap = length (take (nat cap) (tscan (\<lambda>j. i + 1 \<le> j) (ops s)))"

text \<open>
  The binary search over the ids: \<open>lo\<close> is an operation at or before the time; nothing above \<open>hi\<close>
  is.
\<close>

function search_time :: "oplog \<Rightarrow> int \<Rightarrow> int \<Rightarrow> int \<Rightarrow> store_error + int" where
  "search_time s t lo hi =
     (if lo < hi then
        (let mid = lo + (hi - lo + 1) div 2
         in case tscan (\<lambda>j. mid \<le> j) (ops s) of
              [] \<Rightarrow> Inl (Dangling mid)
            | (i, r) # _ \<Rightarrow>
                if i \<le> hi \<and> timestamp r \<le> t then search_time s t i hi
                else search_time s t lo (mid - 1))
      else Inr lo)"
  by auto
termination
  by (relation "measure (\<lambda>(s, t, lo, hi). nat (hi - lo))") (auto dest!: sym [of "tscan _ _"] tscan_ConsD)

declare search_time.simps [simp del]

definition last_op_at_or_before :: "oplog \<Rightarrow> int \<Rightarrow> store_error + int option" where
  "last_op_at_or_before s t =
     (if ops s = [] then Inr None
      else if timestamp (snd (hd (ops s))) > t then Inr None
      else if timestamp (snd (last (ops s))) \<le> t then Inr (Some (fst (last (ops s))))
      else bindE (search_time s t (fst (hd (ops s))) (fst (last (ops s)))) (\<lambda>i. Inr (Some i)))"

section \<open>Writing\<close>

definition put_label :: "LabelMeta \<Rightarrow> uuid option \<Rightarrow> oplog \<Rightarrow> int \<times> oplog" where
  "put_label m command s =
     (let i = next_label s
      in (i, s\<lparr>next_label := i + 1,
               labels := tput i (m, command) (labels s),
               label_kids := (case lm_parent m of
                                None \<Rightarrow> label_kids s
                              | Some p \<Rightarrow> tput (p, i) () (label_kids s))\<rparr>))"

definition create_label :: "LabelMeta \<Rightarrow> oplog \<Rightarrow> int \<times> oplog" where
  "create_label m s = put_label m None s"

definition create_command_label :: "LabelMeta \<Rightarrow> uuid \<Rightarrow> oplog \<Rightarrow> int \<times> oplog" where
  "create_command_label m k s =
     (let (i, s) = put_label m (Some k) s in (i, s\<lparr>label_keys := tput k i (label_keys s)\<rparr>))"

definition drop_label :: "int \<Rightarrow> oplog \<Rightarrow> oplog" where
  "drop_label i s =
     (case tget (labels s) i of
        None \<Rightarrow> s
      | Some (m, command) \<Rightarrow>
          s\<lparr>labels := tdel i (labels s),
            label_kids := (case lm_parent m of
                             None \<Rightarrow> label_kids s
                           | Some p \<Rightarrow> tdel (p, i) (label_kids s)),
            label_keys := (case command of
                             None \<Rightarrow> label_keys s
                           | Some k \<Rightarrow> tdel k (label_keys s))\<rparr>)"

definition label_empty :: "oplog \<Rightarrow> int \<Rightarrow> bool" where
  "label_empty s l \<longleftrightarrow> label_first_op s l = None \<and> label_children s l = [] \<and> watcher_label s \<noteq> Some l"

lemma drop_label_shrinks:
  "tget (labels s) l = Some e \<Longrightarrow> length (labels (drop_label l s)) < length (labels s)"
proof -
  assume "tget (labels s) l = Some e"
  moreover from this have "(l, e) \<in> set (labels s)" by (rule tget_Some_in)
  then have "length (tdel l (labels s)) < length (labels s)"
    unfolding tdel_def by (metis (mono_tags, lifting) fst_conv length_filter_less)
  ultimately show ?thesis by (simp add: drop_label_def split: prod.split)
qed

function drop_if_empty :: "int \<Rightarrow> oplog \<Rightarrow> nat \<times> oplog" where
  "drop_if_empty l s =
     (case tget (labels s) l of
        None \<Rightarrow> (0, s)
      | Some (m, command) \<Rightarrow>
          if \<not> label_empty s l then (0, s)
          else (case lm_parent m of
                  None \<Rightarrow> (1, drop_label l s)
                | Some p \<Rightarrow> let (n, t) = drop_if_empty p (drop_label l s) in (n + 1, t)))"
  by auto
termination
  by (relation "measure (\<lambda>(l, s). length (labels s))") (simp_all add: drop_label_shrinks)

declare drop_if_empty.simps [simp del]

definition set_watcher_label :: "int \<Rightarrow> oplog \<Rightarrow> oplog" where
  "set_watcher_label i s = s\<lparr>watcher_label := Some i\<rparr>"

definition is_watchers :: "string option \<Rightarrow> bool" where
  "is_watchers orig \<longleftrightarrow> orig = Some ORIGIN_WATCHER"

definition remove_op :: "int \<Rightarrow> oplog \<Rightarrow> oplog" where
  "remove_op i s =
     (case tget (ops s) i of
        None \<Rightarrow> s
      | Some r \<Rightarrow>
          s\<lparr>ops := tdel i (ops s),
            snaps := tscan (\<lambda>(j, _, _). j \<noteq> i) (snaps s),
            ops_by_label := tdel (label_id r, i) (ops_by_label s),
            reverted_by := (case reverts_op_id r of
                              None \<Rightarrow> reverted_by s
                            | Some t \<Rightarrow> tdel (t, i) (reverted_by s)),
            ops_by_entity := tdel (entity_uuid r, i) (ops_by_entity s),
            watcher_ops := tdel i (watcher_ops s),
            user_ops := tdel i (user_ops s)\<rparr>)"

definition op_row :: "int \<Rightarrow> int \<Rightarrow> int \<Rightarrow> NewOp \<Rightarrow> OpRow" where
  "op_row i label ts op =
     \<lparr>op_id = i, label_id = label, timestamp = ts, op_type = op_as_str (no_type op),
      entity_uuid = no_entity op, entity_version_before = no_version_before op,
      entity_version_after = no_version_after op, field_name = no_field op,
      reverts_op_id = no_reverts op, origin = no_origin op\<rparr>"

fun put_snaps :: "int \<Rightarrow> bool \<Rightarrow> nat \<Rightarrow> FieldRow list
    \<Rightarrow> (int \<times> bool \<times> nat, FieldRow) table \<Rightarrow> (int \<times> bool \<times> nat, FieldRow) table" where
  "put_snaps i after n [] t = t"
| "put_snaps i after n (r # rs) t = put_snaps i after (n + 1) rs (tput (i, after, n) r t)"

definition append_op :: "int \<Rightarrow> int \<Rightarrow> int \<Rightarrow> NewOp \<Rightarrow> oplog \<Rightarrow> oplog" where
  "append_op label ts i op s =
     s\<lparr>ops := tput i (op_row i label ts op) (ops s),
       snaps := put_snaps i True 0 (no_after op) (put_snaps i False 0 (no_before op) (snaps s)),
       ops_by_label := tput (label, i) () (ops_by_label s),
       reverted_by := (case no_reverts op of
                         None \<Rightarrow> reverted_by s
                       | Some t \<Rightarrow> tput (t, i) () (reverted_by s)),
       ops_by_entity := tput (no_entity op, i) () (ops_by_entity s),
       watcher_ops := (if is_watchers (no_origin op) then tput i () (watcher_ops s) else watcher_ops s),
       user_ops := (if is_watchers (no_origin op) then user_ops s else tput i () (user_ops s))\<rparr>"

fun append_all :: "int \<Rightarrow> int \<Rightarrow> int \<Rightarrow> NewOp list \<Rightarrow> oplog \<Rightarrow> oplog" where
  "append_all label ts i [] s = s"
| "append_all label ts i (op # os) s = append_all label ts (i + 1) os (append_op label ts i op s)"

definition append_ops :: "int \<Rightarrow> int \<Rightarrow> NewOp list \<Rightarrow> oplog \<Rightarrow> int \<times> oplog" where
  "append_ops label ts os s =
     (let base = next_op s;
          s = append_all label ts base os s;
          last = base + int (length os) - 1
      in (last, s\<lparr>next_op := last + 1\<rparr>))"

definition set_head :: "int option \<Rightarrow> oplog \<Rightarrow> oplog" where
  "set_head op s = s\<lparr>head := op\<rparr>"

text \<open>
  The set of the labels hit is a hash set, whose order the code leaves open; here they come in
  the order they are first hit.
\<close>

definition remove_hit :: "int list \<times> oplog \<Rightarrow> int \<Rightarrow> int list \<times> oplog" where
  "remove_hit acc i =
     (case tget (ops (snd acc)) i of
        None \<Rightarrow> acc
      | Some r \<Rightarrow> (if label_id r \<in> set (fst acc) then fst acc else fst acc @ [label_id r], remove_op i (snd acc)))"

definition drop_hit :: "nat \<times> oplog \<Rightarrow> int \<Rightarrow> nat \<times> oplog" where
  "drop_hit acc l = (let (n, s) = drop_if_empty l (snd acc) in (fst acc + n, s))"

definition delete_ops :: "int list \<Rightarrow> oplog \<Rightarrow> nat \<times> oplog" where
  "delete_ops ids s = (let (hit, s) = foldl remove_hit ([], s) ids in foldl drop_hit (0, s) hit)"

definition trim_class :: "(int, unit) table \<Rightarrow> nat \<Rightarrow> int \<Rightarrow> int list" where
  "trim_class t limit keep_from =
     (if limit = 0 then []
      else if length t \<le> limit + slack limit then []
      else takeWhile (\<lambda>i. i < keep_from) (map fst (take (length t - limit) t)))"

definition trim :: "Retention \<Rightarrow> int \<Rightarrow> oplog \<Rightarrow> nat \<times> oplog" where
  "trim ret keep_from s =
     (if \<not> retention_enabled ret then (0, s)
      else let doomed = trim_class (watcher_ops s) (keep_watcher ret) keep_from @
                        trim_class (user_ops s) (keep_user ret) keep_from
           in if doomed = [] then (0, s)
              else (length doomed, snd (delete_ops doomed s)))"

section \<open>Invariant\<close>

definition op_label_ok :: "oplog \<Rightarrow> bool" where
  "op_label_ok s \<longleftrightarrow> (\<forall>i r. tget (ops s) i = Some r \<longrightarrow>
     op_id r = i \<and> 0 < i \<and> i < next_op s \<and> tget (labels s) (label_id r) \<noteq> None)"

text \<open>The index tables over the operations.\<close>

definition op_index_ok :: "oplog \<Rightarrow> bool" where
  "op_index_ok s \<longleftrightarrow>
     (\<forall>l i. tget (ops_by_label s) (l, i) \<noteq> None \<longleftrightarrow> (\<exists>r. tget (ops s) i = Some r \<and> label_id r = l)) \<and>
     (\<forall>u i. tget (ops_by_entity s) (u, i) \<noteq> None \<longleftrightarrow> (\<exists>r. tget (ops s) i = Some r \<and> entity_uuid r = u)) \<and>
     (\<forall>t i. tget (reverted_by s) (t, i) \<noteq> None \<longleftrightarrow> (\<exists>r. tget (ops s) i = Some r \<and> reverts_op_id r = Some t)) \<and>
     (\<forall>i. tget (watcher_ops s) i \<noteq> None \<longleftrightarrow> (\<exists>r. tget (ops s) i = Some r \<and> is_watchers (origin r))) \<and>
     (\<forall>i. tget (user_ops s) i \<noteq> None \<longleftrightarrow> (\<exists>r. tget (ops s) i = Some r \<and> \<not> is_watchers (origin r))) \<and>
     (\<forall>i a n. tget (snaps s) (i, a, n) \<noteq> None \<longrightarrow> tget (ops s) i \<noteq> None)"

definition label_ok :: "oplog \<Rightarrow> bool" where
  "label_ok s \<longleftrightarrow>
     (\<forall>l m k. tget (labels s) l = Some (m, k) \<longrightarrow> 0 < l \<and> l < next_label s \<and>
        (\<forall>p. lm_parent m = Some p \<longrightarrow> p < l \<and> tget (labels s) p \<noteq> None)) \<and>
     (\<forall>p l. tget (label_kids s) (p, l) \<noteq> None \<longleftrightarrow>
        (\<exists>m k. tget (labels s) l = Some (m, k) \<and> lm_parent m = Some p)) \<and>
     (\<forall>k l. tget (label_keys s) k = Some l \<longleftrightarrow> (\<exists>m. tget (labels s) l = Some (m, Some k)))"

definition log_ordered :: "oplog \<Rightarrow> bool" where
  "log_ordered s \<longleftrightarrow> ordered (ops s) \<and> ordered (snaps s) \<and> ordered (ops_by_label s) \<and>
     ordered (ops_by_entity s) \<and> ordered (labels s) \<and> ordered (label_kids s) \<and>
     ordered (label_keys s) \<and> ordered (reverted_by s) \<and> ordered (watcher_ops s) \<and> ordered (user_ops s)"

definition log_inv :: "oplog \<Rightarrow> bool" where
  "log_inv s \<longleftrightarrow> 0 < next_op s \<and> 0 < next_label s \<and> log_ordered s \<and> op_label_ok s \<and> op_index_ok s \<and> label_ok s"

section \<open>Lemmas: the invariant\<close>

lemma log_invD [dest]:
  assumes "log_inv s"
  shows "0 < next_op s" "0 < next_label s" "log_ordered s" "op_label_ok s" "op_index_ok s" "label_ok s"
  using assms by (simp_all add: log_inv_def)

lemma log_inv_empty [inv_intros]: "log_inv empty_log"
  by (simp add: log_inv_def empty_log_def log_ordered_def op_label_ok_def op_index_ok_def label_ok_def)

lemma set_head_inv [inv_intros]: "log_inv s \<Longrightarrow> log_inv (set_head i s)"
  by (simp add: log_inv_def set_head_def log_ordered_def op_label_ok_def op_index_ok_def label_ok_def)

lemma set_watcher_label_inv [inv_intros]: "log_inv s \<Longrightarrow> log_inv (set_watcher_label i s)"
  by (simp add: log_inv_def set_watcher_label_def log_ordered_def op_label_ok_def op_index_ok_def label_ok_def)

lemma label_bounds: "label_ok s \<Longrightarrow> tget (labels s) l = Some (m, k) \<Longrightarrow> 0 < l \<and> l < next_label s"
  by (simp add: label_ok_def)

lemma label_parent:
  "label_ok s \<Longrightarrow> tget (labels s) l = Some (m, k) \<Longrightarrow> lm_parent m = Some p \<Longrightarrow> p < l \<and> tget (labels s) p \<noteq> None"
  unfolding label_ok_def by blast

lemma label_key_iff: "label_ok s \<Longrightarrow> tget (label_keys s) k = Some l \<longleftrightarrow> (\<exists>m. tget (labels s) l = Some (m, Some k))"
  by (simp add: label_ok_def)

text \<open>The id a new label gets names no label.\<close>

lemma next_label_fresh: "label_ok s \<Longrightarrow> tget (labels s) (next_label s) = None"
  unfolding label_ok_def by (metis less_irrefl option.exhaust surj_pair)

lemma put_label_labels:
  "labels (snd (put_label m k s)) = tput (next_label s) (m, k) (labels s)"
  "next_label (snd (put_label m k s)) = next_label s + 1"
  "fst (put_label m k s) = next_label s"
  "label_keys (snd (put_label m k s)) = label_keys s"
  "ops (snd (put_label m k s)) = ops s" "snaps (snd (put_label m k s)) = snaps s"
  "next_op (snd (put_label m k s)) = next_op s" "head (snd (put_label m k s)) = head s"
  "watcher_label (snd (put_label m k s)) = watcher_label s"
  by (simp_all add: put_label_def Let_def)

text \<open>A label with its key entered is well placed when its parent exists and the key is new.\<close>

lemma new_label_inv:
  assumes inv: "log_inv s" and parent: "\<forall>p. lm_parent m = Some p \<longrightarrow> tget (labels s) p \<noteq> None"
    and key: "\<forall>k. command = Some k \<longrightarrow> tget (label_keys s) k = None"
  shows "log_inv ((snd (put_label m command s))\<lparr>label_keys := (case command of None \<Rightarrow> label_keys s
      | Some k \<Rightarrow> tput k (next_label s) (label_keys s))\<rparr>)" (is "log_inv ?t")
proof -
  note I = log_invD [OF inv]
  note fresh = next_label_fresh [OF I(6)]
  have p: "p < next_label s" if "lm_parent m = Some p" for p
    using parent that I(6) unfolding label_ok_def by (metis option.exhaust surj_pair)
  have kids: "tget (label_kids ?t) (q, l) \<noteq> None \<longleftrightarrow>
      (if l = next_label s then lm_parent m = Some q else tget (label_kids s) (q, l) \<noteq> None)" for q l
    using I(6) fresh by (auto simp: put_label_def Let_def label_ok_def split: option.splits)
  have keys: "tget (label_keys ?t) k = (if command = Some k then Some (next_label s) else tget (label_keys s) k)" for k
    by (auto simp: put_label_def Let_def split: option.splits)
  have labs: "tget (labels ?t) l = (if l = next_label s then Some (m, command) else tget (labels s) l)" for l
    by (simp add: put_label_labels)
  have "label_ok ?t"
    unfolding label_ok_def
  proof (intro conjI allI impI)
    fix l m' k assume l: "tget (labels ?t) l = Some (m', k)"
    show "0 < l" "l < next_label ?t"
      using l I(2) label_bounds [OF I(6), of l m' k] unfolding labs by (auto simp: put_label_labels split: if_splits)
    fix q assume q: "lm_parent m' = Some q"
    show "q < l" "tget (labels ?t) q \<noteq> None"
      using l q p parent label_parent [OF I(6), of l m' k q] unfolding labs by (auto split: if_splits)
  next
    fix q l show "tget (label_kids ?t) (q, l) \<noteq> None \<longleftrightarrow> (\<exists>m k. tget (labels ?t) l = Some (m, k) \<and> lm_parent m = Some q)"
      using I(6) unfolding kids labs label_ok_def by simp
  next
    fix k l show "tget (label_keys ?t) k = Some l \<longleftrightarrow> (\<exists>m. tget (labels ?t) l = Some (m, Some k))"
      using label_key_iff [OF I(6), of k l] label_key_iff [OF I(6), of k "next_label s"] key fresh
      unfolding keys labs by auto
  qed
  moreover have "log_ordered ?t"
    using I(3) by (auto simp: log_ordered_def put_label_def Let_def split: option.splits)
  moreover have "op_label_ok ?t"
    using I(4) by (auto simp: op_label_ok_def labs) (simp_all add: put_label_labels)
  ultimately show ?thesis
    using I by (simp add: log_inv_def op_index_ok_def put_label_labels put_label_def Let_def)
qed

lemma create_label_inv [inv_intros]:
  assumes "log_inv s" and "\<forall>p. lm_parent m = Some p \<longrightarrow> tget (labels s) p \<noteq> None"
  shows "log_inv (snd (create_label m s))"
  using new_label_inv [OF assms, of None] by (simp add: create_label_def put_label_def Let_def)

lemma create_command_label_inv [inv_intros]:
  assumes "log_inv s" and "\<forall>p. lm_parent m = Some p \<longrightarrow> tget (labels s) p \<noteq> None"
    and "label_of_command s k = None"
  shows "log_inv (snd (create_command_label m k s))"
  using new_label_inv [OF assms(1,2), of "Some k"] assms(3)
  by (simp add: create_command_label_def label_of_command_def put_label_def Let_def)

section \<open>Lemmas: the indexes\<close>

lemma in_ids_under: "ordered t \<Longrightarrow> i \<in> set (ids_under a t) \<longleftrightarrow> tget t (a, i) \<noteq> None"
  unfolding ids_under_def set_map image_iff Bex_def split_paired_Ex by (auto simp: in_tscan)

lemma sorted_second:
  "sorted_wrt (<) (map fst es) \<Longrightarrow> \<forall>e\<in>set es. fst (fst e) = a \<Longrightarrow>
   sorted_wrt (<) (map (\<lambda>e. snd (fst e)) (es :: (('a::linorder \<times> int) \<times> unit) list))"
  by (induction es) (fastforce simp: less_prod_def)+

lemma sorted_ids_under: "ordered t \<Longrightarrow> sorted_wrt (<) (ids_under a t)"
  unfolding ids_under_def using tscan_ordered [of t "\<lambda>k. fst k = a"]
  by (intro sorted_second [of _ a]) (auto simp: ordered_def tscan_def)

lemma in_label_op_ids: "log_inv s \<Longrightarrow> i \<in> set (label_op_ids s l) \<longleftrightarrow> (\<exists>r. tget (ops s) i = Some r \<and> label_id r = l)"
  using log_invD(3,5) [of s] unfolding label_op_ids_def log_ordered_def op_index_ok_def by (metis in_ids_under)

lemma in_label_children:
  "log_inv s \<Longrightarrow> i \<in> set (label_children s l) \<longleftrightarrow> (\<exists>m k. tget (labels s) i = Some (m, k) \<and> lm_parent m = Some l)"
  using log_invD(3,6) [of s] unfolding label_children_def log_ordered_def label_ok_def by (metis in_ids_under)

lemma in_reverters: "log_inv s \<Longrightarrow> i \<in> set (reverters s t) \<longleftrightarrow> (\<exists>r. tget (ops s) i = Some r \<and> reverts_op_id r = Some t)"
  using log_invD(3,5) [of s] unfolding reverters_def log_ordered_def op_index_ok_def by (metis in_ids_under)

lemma label_first_op_None:
  "log_inv s \<Longrightarrow> label_first_op s l = None \<longleftrightarrow> (\<forall>i r. tget (ops s) i = Some r \<longrightarrow> label_id r \<noteq> l)"
  using in_label_op_ids [of s _ l]
  by (cases "label_op_ids s l") (simp add: label_first_op_def, force simp: label_first_op_def)

lemma label_first_op_least:
  assumes "log_inv s" and "label_first_op s l = Some i"
  shows "i \<in> set (label_op_ids s l)" "j \<in> set (label_op_ids s l) \<Longrightarrow> i \<le> j"
proof -
  obtain js where js: "label_op_ids s l = i # js"
    using assms(2) by (auto simp: label_first_op_def split: list.splits)
  then show "i \<in> set (label_op_ids s l)" by simp
  have "sorted_wrt (<) (label_op_ids s l)"
    using log_invD(3) [OF assms(1)] by (simp add: label_op_ids_def log_ordered_def sorted_ids_under)
  then show "i \<le> j" if "j \<in> set (label_op_ids s l)" using that js by auto
qed

section \<open>Lemmas: dropping labels\<close>

lemma drop_label_frame [simp, frame_simps]:
  "ops (drop_label l s) = ops s" "snaps (drop_label l s) = snaps s" "next_op (drop_label l s) = next_op s"
  "next_label (drop_label l s) = next_label s" "head (drop_label l s) = head s"
  "watcher_label (drop_label l s) = watcher_label s" "ops_by_label (drop_label l s) = ops_by_label s"
  "ops_by_entity (drop_label l s) = ops_by_entity s" "reverted_by (drop_label l s) = reverted_by s"
  "watcher_ops (drop_label l s) = watcher_ops s" "user_ops (drop_label l s) = user_ops s"
  by (simp_all add: drop_label_def split: option.split prod.split)

lemma drop_label_labels: "tget (labels (drop_label l s)) = (tget (labels s))(l := None)"
  by (auto simp: drop_label_def fun_eq_iff split: option.split prod.split)

lemma drop_label_inv [inv_intros]:
  assumes inv: "log_inv s" and empty: "label_first_op s l = None" "label_children s l = []"
  shows "log_inv (drop_label l s)"
proof (cases "tget (labels s) l")
  case None
  then show ?thesis using inv by (simp add: drop_label_def)
next
  case (Some e)
  obtain m c where e: "tget (labels s) l = Some (m, c)" using Some by (cases e) simp
  note I = log_invD [OF inv]
  have nokid: "lm_parent m' \<noteq> Some l" if "tget (labels s) l' = Some (m', k')" for l' m' k'
    using in_label_children [OF inv, of l' l] empty(2) that by auto
  have kids: "tget (label_kids (drop_label l s)) (q, l') \<noteq> None \<longleftrightarrow> l' \<noteq> l \<and> tget (label_kids s) (q, l') \<noteq> None" for q l'
    using I(6) e unfolding label_ok_def by (auto simp: drop_label_def split: option.splits)
  have keys: "tget (label_keys (drop_label l s)) k = (if c = Some k then None else tget (label_keys s) k)" for k
    using e by (auto simp: drop_label_def split: option.splits)
  have "label_ok (drop_label l s)"
    unfolding label_ok_def
  proof (intro conjI allI impI)
    fix l' m' k assume "tget (labels (drop_label l s)) l' = Some (m', k)"
    then have l: "l' \<noteq> l" "tget (labels s) l' = Some (m', k)" by (auto simp: drop_label_labels split: if_splits)
    show "0 < l'" "l' < next_label (drop_label l s)" using label_bounds [OF I(6) l(2)] by simp_all
    fix q assume q: "lm_parent m' = Some q"
    show "q < l'" "tget (labels (drop_label l s)) q \<noteq> None"
      using label_parent [OF I(6) l(2) q] nokid [OF l(2)] q by (auto simp: drop_label_labels)
  next
    fix q l' show "tget (label_kids (drop_label l s)) (q, l') \<noteq> None \<longleftrightarrow>
        (\<exists>m k. tget (labels (drop_label l s)) l' = Some (m, k) \<and> lm_parent m = Some q)"
      using I(6) unfolding kids drop_label_labels label_ok_def by simp
  next
    fix k l' show "tget (label_keys (drop_label l s)) k = Some l' \<longleftrightarrow> (\<exists>m. tget (labels (drop_label l s)) l' = Some (m, Some k))"
      using label_key_iff [OF I(6), of k l'] label_key_iff [OF I(6), of k l] e unfolding keys drop_label_labels by auto
  qed
  moreover have "op_label_ok (drop_label l s)"
    using I(4) empty(1) label_first_op_None [OF inv, of l] unfolding op_label_ok_def by (auto simp: drop_label_labels)
  moreover have "log_ordered (drop_label l s)"
    using I(3) e by (auto simp: log_ordered_def drop_label_def split: option.splits)
  ultimately show ?thesis using I by (simp add: log_inv_def op_index_ok_def)
qed

text \<open>Dropping the empty labels up a branch keeps the operations, and every label that is not empty.\<close>

lemma drop_if_empty_ok:
  assumes "log_inv s"
  shows "log_inv (snd (drop_if_empty l s)) \<and> ops (snd (drop_if_empty l s)) = ops s \<and>
    snaps (snd (drop_if_empty l s)) = snaps s \<and> watcher_ops (snd (drop_if_empty l s)) = watcher_ops s \<and>
    user_ops (snd (drop_if_empty l s)) = user_ops s \<and> next_op (snd (drop_if_empty l s)) = next_op s \<and>
    head (snd (drop_if_empty l s)) = head s"
  using assms
proof (induction l s rule: drop_if_empty.induct)
  case (1 l s)
  show ?case
  proof (cases "tget (labels s) l")
    case None
    then show ?thesis using 1(2) by (simp add: drop_if_empty.simps [of l s])
  next
    case (Some e)
    obtain m c where e: "e = (m, c)" by (cases e)
    have inv: "log_inv (drop_label l s)" if "label_empty s l"
      using that 1(2) drop_label_inv by (simp add: label_empty_def)
    have eq: "snd (drop_if_empty l s) = (if label_empty s l then (case lm_parent m of None \<Rightarrow> drop_label l s
        | Some p \<Rightarrow> snd (drop_if_empty p (drop_label l s))) else s)"
      by (subst drop_if_empty.simps) (simp add: Some e case_prod_beta Let_def split: option.split)
    show ?thesis
    proof (cases "label_empty s l \<and> lm_parent m \<noteq> None")
      case True
      then obtain p where p: "lm_parent m = Some p" by blast
      have "snd (drop_if_empty l s) = snd (drop_if_empty p (drop_label l s))" using True p eq by simp
      then show ?thesis using 1(1) [OF Some e [symmetric] _ p] True inv by simp
    next
      case False
      then have "snd (drop_if_empty l s) = (if label_empty s l then drop_label l s else s)" using eq by auto
      then show ?thesis using inv 1(2) by simp
    qed
  qed
qed

section \<open>Lemmas: appending\<close>

lemma ordered_put_snaps: "ordered t \<Longrightarrow> ordered (put_snaps i a n rs t)"
  by (induction i a n rs t rule: put_snaps.induct) simp_all

lemma tget_put_snaps:
  "tget (put_snaps i a n rs t) (j, b, k) =
     (if j = i \<and> b = a \<and> n \<le> k \<and> k < n + length rs then Some (rs ! (k - n)) else tget t (j, b, k))"
  by (induction i a n rs t rule: put_snaps.induct) (auto simp: nth_Cons')

lemma append_op_inv:
  assumes inv: "log_inv (s\<lparr>next_op := i\<rparr>)" and label: "tget (labels s) label \<noteq> None"
  shows "log_inv ((append_op label ts i op s)\<lparr>next_op := i + 1\<rparr>)" (is "log_inv ?t")
proof -
  note I = log_invD [OF inv]
  have fresh: "tget (ops s) i = None"
    using I(4) unfolding op_label_ok_def by (auto intro: ccontr)
  have o: "tget (ops ?t) j = (if j = i then Some (op_row i label ts op) else tget (ops s) j)" for j
    by (simp add: append_op_def)
  have "op_label_ok ?t"
    using I(1,4) label unfolding op_label_ok_def o by (auto simp: append_op_def op_row_def) fastforce
  moreover have "op_index_ok ?t"
    unfolding op_index_ok_def o
  proof (intro conjI allI)
    note X = I(5) [unfolded op_index_ok_def]
    show "tget (ops_by_label ?t) (l, j) \<noteq> None \<longleftrightarrow>
        (\<exists>r. (if j = i then Some (op_row i label ts op) else tget (ops s) j) = Some r \<and> label_id r = l)" for l j
      using X fresh by (auto simp: append_op_def op_row_def)
    show "tget (ops_by_entity ?t) (l, j) \<noteq> None \<longleftrightarrow>
        (\<exists>r. (if j = i then Some (op_row i label ts op) else tget (ops s) j) = Some r \<and> entity_uuid r = l)" for l j
      using X fresh by (auto simp: append_op_def op_row_def)
    show "tget (reverted_by ?t) (l, j) \<noteq> None \<longleftrightarrow>
        (\<exists>r. (if j = i then Some (op_row i label ts op) else tget (ops s) j) = Some r \<and> reverts_op_id r = Some l)" for l j
      using X fresh by (auto simp: append_op_def op_row_def split: option.splits)
    show "tget (watcher_ops ?t) j \<noteq> None \<longleftrightarrow>
        (\<exists>r. (if j = i then Some (op_row i label ts op) else tget (ops s) j) = Some r \<and> is_watchers (origin r))" for j
      using X fresh by (auto simp: append_op_def op_row_def)
    show "tget (user_ops ?t) j \<noteq> None \<longleftrightarrow>
        (\<exists>r. (if j = i then Some (op_row i label ts op) else tget (ops s) j) = Some r \<and> \<not> is_watchers (origin r))" for j
      using X fresh by (auto simp: append_op_def op_row_def)
    show "tget (snaps ?t) (j, a, n) \<noteq> None \<longrightarrow>
        (if j = i then Some (op_row i label ts op) else tget (ops s) j) \<noteq> None" for j a n
      using X by (cases "j = i") (simp add: append_op_def tget_put_snaps, simp add: append_op_def tget_put_snaps, blast)
  qed
  moreover have "log_ordered ?t"
    using I(3) by (auto simp: log_ordered_def append_op_def ordered_put_snaps split: option.splits)
  ultimately show ?thesis
    using I by (simp add: log_inv_def append_op_def label_ok_def)
qed

lemma append_op_frame [simp, frame_simps]:
  "labels (append_op l ts i op s) = labels s" "next_op (append_op l ts i op s) = next_op s"
  "head (append_op l ts i op s) = head s" "watcher_label (append_op l ts i op s) = watcher_label s"
  "next_label (append_op l ts i op s) = next_label s" "label_keys (append_op l ts i op s) = label_keys s"
  "label_kids (append_op l ts i op s) = label_kids s"
  by (simp_all add: append_op_def)

lemma append_all_inv:
  assumes "log_inv (s\<lparr>next_op := i\<rparr>)" and "tget (labels s) label \<noteq> None"
  shows "log_inv ((append_all label ts i os s)\<lparr>next_op := i + int (length os)\<rparr>)"
  using assms
proof (induction label ts i os s rule: append_all.induct)
  case (2 label ts i op os s)
  then show ?case using append_op_inv [OF 2(2,3), of ts op] by (simp add: algebra_simps)
qed simp

lemma append_all_frame [simp, frame_simps]:
  "labels (append_all l ts i os s) = labels s" "head (append_all l ts i os s) = head s"
  "watcher_label (append_all l ts i os s) = watcher_label s" "next_label (append_all l ts i os s) = next_label s"
  by (induction l ts i os s rule: append_all.induct) simp_all

lemma append_ops_inv [inv_intros]:
  assumes "log_inv s" and "tget (labels s) label \<noteq> None"
  shows "log_inv (snd (append_ops label ts os s))"
  using append_all_inv [where s = s and i = "next_op s" and label = label and ts = ts and os = os] assms by (simp add: append_ops_def Let_def)

lemma append_ops_fst: "fst (append_ops label ts os s) = next_op s + int (length os) - 1"
  by (simp add: append_ops_def Let_def)

lemma append_ops_frame [simp, frame_simps]:
  "labels (snd (append_ops l ts os s)) = labels s" "head (snd (append_ops l ts os s)) = head s"
  "watcher_label (snd (append_ops l ts os s)) = watcher_label s"
  "next_op (snd (append_ops l ts os s)) = next_op s + int (length os)"
  by (simp_all add: append_ops_def Let_def)

lemma append_op_ops: "tget (ops (append_op label ts i op s)) = (tget (ops s))(i \<mapsto> op_row i label ts op)"
  by (simp add: append_op_def)

lemma append_all_ops:
  "tget (ops (append_all label ts i os s)) j =
     (if i \<le> j \<and> j < i + int (length os) then Some (op_row j label ts (os ! nat (j - i))) else tget (ops s) j)"
proof (induction label ts i os s rule: append_all.induct)
  case (2 label ts i op os s)
  have "nat (j - i) = Suc (nat (j - (i + 1)))" if "i + 1 \<le> j" using that by linarith
  then show ?case
    using 2 by (cases "i + 1 \<le> j"; cases "j = i") (auto simp: append_op_ops)
qed auto

text \<open>What is appended is what is read: the operations in order, and both sides of their snapshots.\<close>

lemma append_ops_ops:
  "tget (ops (snd (append_ops label ts os s))) j =
     (if next_op s \<le> j \<and> j < next_op s + int (length os)
      then Some (op_row j label ts (os ! nat (j - next_op s))) else tget (ops s) j)"
  by (simp add: append_ops_def Let_def append_all_ops)

section \<open>Lemmas: deleting operations\<close>

lemma remove_op_frame [simp, frame_simps]:
  "labels (remove_op i s) = labels s" "label_kids (remove_op i s) = label_kids s"
  "label_keys (remove_op i s) = label_keys s" "next_op (remove_op i s) = next_op s"
  "next_label (remove_op i s) = next_label s" "head (remove_op i s) = head s"
  "watcher_label (remove_op i s) = watcher_label s"
  by (simp_all add: remove_op_def split: option.split)

lemma remove_op_ops: "tget (ops (remove_op i s)) = (tget (ops s))(i := None)"
  by (auto simp: remove_op_def fun_eq_iff split: option.split)

lemma remove_op_inv [inv_intros]:
  assumes inv: "log_inv s"
  shows "log_inv (remove_op i s)"
proof (cases "tget (ops s) i")
  case None
  then show ?thesis using inv by (simp add: remove_op_def)
next
  case (Some r)
  note I = log_invD [OF inv]
  have "op_index_ok (remove_op i s)"
    unfolding op_index_ok_def remove_op_ops
  proof (intro conjI allI)
    note X = I(5) [unfolded op_index_ok_def]
    show "tget (ops_by_label (remove_op i s)) (l, j) \<noteq> None \<longleftrightarrow>
        (\<exists>r. ((tget (ops s))(i := None)) j = Some r \<and> label_id r = l)" for l j
      using X Some by (auto simp: remove_op_def)
    show "tget (ops_by_entity (remove_op i s)) (l, j) \<noteq> None \<longleftrightarrow>
        (\<exists>r. ((tget (ops s))(i := None)) j = Some r \<and> entity_uuid r = l)" for l j
      using X Some by (auto simp: remove_op_def)
    show "tget (reverted_by (remove_op i s)) (l, j) \<noteq> None \<longleftrightarrow>
        (\<exists>r. ((tget (ops s))(i := None)) j = Some r \<and> reverts_op_id r = Some l)" for l j
      using X Some by (auto simp: remove_op_def split: option.splits)
    show "tget (watcher_ops (remove_op i s)) j \<noteq> None \<longleftrightarrow>
        (\<exists>r. ((tget (ops s))(i := None)) j = Some r \<and> is_watchers (origin r))" for j
      using X Some by (auto simp: remove_op_def)
    show "tget (user_ops (remove_op i s)) j \<noteq> None \<longleftrightarrow>
        (\<exists>r. ((tget (ops s))(i := None)) j = Some r \<and> \<not> is_watchers (origin r))" for j
      using X Some by (auto simp: remove_op_def)
    show "tget (snaps (remove_op i s)) (j, a, n) \<noteq> None \<longrightarrow> ((tget (ops s))(i := None)) j \<noteq> None" for j a n
      using X Some by (cases "j = i") (simp add: remove_op_def, simp add: remove_op_def, blast)
  qed
  moreover have "op_label_ok (remove_op i s)"
    using I(4) unfolding op_label_ok_def remove_op_ops by simp
  moreover have "log_ordered (remove_op i s)"
    using I(3) Some by (auto simp: log_ordered_def remove_op_def tscan_ordered split: option.splits)
  ultimately show ?thesis using I by (simp add: log_inv_def label_ok_def)
qed

lemma remove_loop:
  assumes "log_inv s"
  shows "log_inv (snd (foldl remove_hit (h, s) ids)) \<and>
    (\<forall>i. tget (ops (snd (foldl remove_hit (h, s) ids))) i = (if i \<in> set ids then None else tget (ops s) i)) \<and>
    next_op (snd (foldl remove_hit (h, s) ids)) = next_op s \<and> head (snd (foldl remove_hit (h, s) ids)) = head s"
  using assms
proof (induction ids arbitrary: h s)
  case (Cons i ids)
  show ?case
    using Cons.IH [of "remove_op i s"] Cons.IH [OF Cons.prems] remove_op_inv [OF Cons.prems]
    by (cases "tget (ops s) i") (auto simp: remove_op_ops remove_hit_def)
qed simp

lemma drop_loop:
  assumes "log_inv s"
  shows "log_inv (snd (foldl drop_hit (d, s) ls)) \<and> ops (snd (foldl drop_hit (d, s) ls)) = ops s \<and>
    next_op (snd (foldl drop_hit (d, s) ls)) = next_op s \<and> head (snd (foldl drop_hit (d, s) ls)) = head s"
  using assms
proof (induction ls arbitrary: d s)
  case (Cons l ls)
  show ?case
    using Cons.IH [of "snd (drop_if_empty l s)"] drop_if_empty_ok [OF Cons.prems]
    by (simp add: Let_def case_prod_beta drop_hit_def)
qed simp

lemma delete_ops_ok:
  assumes "log_inv s"
  shows "log_inv (snd (delete_ops ids s))"
    "tget (ops (snd (delete_ops ids s))) i = (if i \<in> set ids then None else tget (ops s) i)"
    "next_op (snd (delete_ops ids s)) = next_op s" "head (snd (delete_ops ids s)) = head s"
proof -
  let ?m = "foldl remove_hit ([], s) ids"
  have d: "snd (delete_ops ids s) = snd (foldl drop_hit (0, snd ?m) (fst ?m))"
    by (simp add: delete_ops_def case_prod_beta Let_def)
  note r = remove_loop [OF assms, of "[]" ids]
  note l = drop_loop [of "snd ?m" 0 "fst ?m"]
  show "log_inv (snd (delete_ops ids s))"
    "tget (ops (snd (delete_ops ids s))) i = (if i \<in> set ids then None else tget (ops s) i)"
    "next_op (snd (delete_ops ids s)) = next_op s" "head (snd (delete_ops ids s)) = head s"
    unfolding d using r l by simp_all
qed

text \<open>The trim deletes the operations that are doomed, and keeps the invariant.\<close>

definition doomed :: "Retention \<Rightarrow> int \<Rightarrow> oplog \<Rightarrow> int list" where
  "doomed ret keep_from s = trim_class (watcher_ops s) (keep_watcher ret) keep_from @
                            trim_class (user_ops s) (keep_user ret) keep_from"

lemma trim_cases: "snd (trim ret k s) = s \<and> doomed ret k s = [] \<or> snd (trim ret k s) = snd (delete_ops (doomed ret k s) s)"
  by (auto simp: trim_def doomed_def Let_def retention_enabled_def trim_class_def)

lemma trim_ok:
  assumes "log_inv s"
  shows "log_inv (snd (trim ret k s))"
    "tget (ops (snd (trim ret k s))) i = (if i \<in> set (doomed ret k s) then None else tget (ops s) i)"
    "next_op (snd (trim ret k s)) = next_op s" "head (snd (trim ret k s)) = head s"
  using trim_cases [of ret k s] assms delete_ops_ok [OF assms] by auto

lemma in_doomed: "i \<in> set (doomed ret k s) \<Longrightarrow> i < k"
  by (auto simp: doomed_def trim_class_def split: if_splits dest!: set_takeWhileD)

text \<open>A retention class loses its first entries: down to its limit, or to the write being committed.\<close>

definition cut :: "(int, unit) table \<Rightarrow> nat \<Rightarrow> int \<Rightarrow> nat" where
  "cut t limit k = length (trim_class t limit k)"

lemma trim_class_take: "trim_class t limit k = map fst (take (cut t limit k) t)"
proof -
  have "takeWhile P (map fst (take c t)) = map fst (take (length (takeWhile P (map fst (take c t)))) t)" for P c
  proof -
    let ?n = "length (takeWhile P (map fst (take c t)))"
    have "?n \<le> c" using length_takeWhile_le [of P "map fst (take c t)"] by simp
    moreover have "takeWhile P (map fst (take c t)) = take ?n (map fst (take c t))" by (rule takeWhile_eq_take)
    ultimately show ?thesis by (simp add: take_map min_absorb1)
  qed
  then show ?thesis by (simp add: cut_def trim_class_def)
qed

lemma cut_bound:
  assumes "ordered t" and "0 < limit"
  shows "length (drop (cut t limit k) t) \<le> limit + slack limit \<or> (\<forall>e\<in>set (drop (cut t limit k) t). k \<le> fst e)"
proof (cases "length t \<le> limit + slack limit \<or> cut t limit k = length t - limit")
  case False
  let ?c = "length t - limit"
  have c: "cut t limit k = length (takeWhile (\<lambda>i. i < k) (map fst (take ?c t)))"
    using False assms(2) by (simp add: cut_def trim_class_def)
  have less: "cut t limit k < length (map fst (take ?c t))"
    using False length_takeWhile_le [of "\<lambda>i. i < k" "map fst (take ?c t)"] unfolding c by simp
  then have "\<not> (map fst (take ?c t)) ! (cut t limit k) < k"
    unfolding c by (rule nth_length_takeWhile)
  then have "k \<le> fst (t ! cut t limit k)" using less by simp
  then show ?thesis using ordered_drop_ge [OF assms(1), of "cut t limit k"] less by fastforce
qed auto

lemma class_after_trim:
  assumes "log_inv s"
  shows "user_ops (snd (trim ret k s)) = drop (cut (user_ops s) (keep_user ret) k) (user_ops s)"
    "watcher_ops (snd (trim ret k s)) = drop (cut (watcher_ops s) (keep_watcher ret) k) (watcher_ops s)"
proof -
  note I = log_invD [OF assms] and T = log_invD [OF trim_ok(1) [OF assms, of ret k]]
  note o = trim_ok(2) [OF assms, of ret k]
  let ?u = "fst ` set (take (cut (user_ops s) (keep_user ret) k) (user_ops s))"
  let ?w = "fst ` set (take (cut (watcher_ops s) (keep_watcher ret) k) (watcher_ops s))"
  have doom: "set (doomed ret k s) = ?w \<union> ?u" by (simp add: doomed_def trim_class_take)
  have "i \<notin> ?w" if "tget (user_ops s) i \<noteq> None" for i
    using that I(3,5) unfolding op_index_ok_def log_ordered_def by (force dest: in_set_takeD simp flip: tget_Some_iff)
  moreover have "i \<notin> ?u" if "tget (watcher_ops s) i \<noteq> None" for i
    using that I(3,5) unfolding op_index_ok_def log_ordered_def by (force dest: in_set_takeD simp flip: tget_Some_iff)
  moreover have u: "tget (user_ops (snd (trim ret k s))) i \<noteq> None \<longleftrightarrow> i \<notin> ?w \<union> ?u \<and> tget (user_ops s) i \<noteq> None" for i
    using I(5) T(5) unfolding op_index_ok_def o doom by simp
  moreover have w: "tget (watcher_ops (snd (trim ret k s))) i \<noteq> None \<longleftrightarrow> i \<notin> ?w \<union> ?u \<and> tget (watcher_ops s) i \<noteq> None" for i
    using I(5) T(5) unfolding op_index_ok_def o doom by simp
  ultimately have "tget (user_ops (snd (trim ret k s))) i = tget (tscan (\<lambda>k. k \<notin> ?u) (user_ops s)) i"
    "tget (watcher_ops (snd (trim ret k s))) i = tget (tscan (\<lambda>k. k \<notin> ?w) (watcher_ops s)) i" for i
    using u [of i] w [of i] by (simp_all, (metis UnCI UnE not_None_eq old.unit.exhaust)+)
  then have "user_ops (snd (trim ret k s)) = tscan (\<lambda>k. k \<notin> ?u) (user_ops s)"
    "watcher_ops (snd (trim ret k s)) = tscan (\<lambda>k. k \<notin> ?w) (watcher_ops s)"
    using I(3) T(3) unfolding log_ordered_def by (blast intro!: table_ext tscan_ordered)+
  then show "user_ops (snd (trim ret k s)) = drop (cut (user_ops s) (keep_user ret) k) (user_ops s)"
    "watcher_ops (snd (trim ret k s)) = drop (cut (watcher_ops s) (keep_watcher ret) k) (watcher_ops s)"
    using I(3) by (simp_all add: tscan_not_prefix log_ordered_def)
qed

section \<open>Lemmas: searching by time\<close>

definition time_ordered :: "oplog \<Rightarrow> bool" where
  "time_ordered s \<longleftrightarrow> (\<forall>i r j q. tget (ops s) i = Some r \<longrightarrow> tget (ops s) j = Some q \<longrightarrow> i \<le> j \<longrightarrow> timestamp r \<le> timestamp q)"

lemma tscan_first:
  assumes "ordered t" and "tscan p t = (k, v) # es"
  shows "tget t k = Some v" "p k" "p j \<Longrightarrow> tget t j = Some w \<Longrightarrow> k \<le> j"
proof -
  have "(k, v) \<in> set (tscan p t)" using assms(2) by simp
  then show "tget t k = Some v" "p k" using in_tscan [OF assms(1)] by blast+
  assume "p j" "tget t j = Some w"
  then have "(j, w) \<in> set (tscan p t)" using in_tscan [OF assms(1)] by blast
  then show "k \<le> j" using tscan_ordered [OF assms(1), of p] assms(2) by (auto simp: ordered_def)
qed

lemma search_time_correct:
  assumes "ordered (ops s)" and "time_ordered s"
    and "tget (ops s) lo = Some a" and "timestamp a \<le> t" and "lo \<le> hi"
    and "\<forall>j q. tget (ops s) j = Some q \<longrightarrow> hi < j \<longrightarrow> t < timestamp q"
    and "\<exists>j q. tget (ops s) j = Some q \<and> hi \<le> j"
  shows "\<exists>i r. search_time s t lo hi = Inr i \<and> tget (ops s) i = Some r \<and> timestamp r \<le> t \<and>
    (\<forall>j q. tget (ops s) j = Some q \<longrightarrow> timestamp q \<le> t \<longrightarrow> j \<le> i)"
  using assms
proof (induction s t lo hi arbitrary: a rule: search_time.induct)
  case (1 s t lo hi)
  note ord = 1(3) and mono = 1(4)
  show ?case
  proof (cases "lo < hi")
    case False
    then have "search_time s t lo hi = Inr lo" by (subst search_time.simps) simp
    moreover have "j \<le> lo" if "tget (ops s) j = Some q" "timestamp q \<le> t" for j q
      using False 1(7,8) that by (meson linorder_not_le order_trans)
    ultimately show ?thesis using 1(5,6) by blast
  next
    case True
    define mid where "mid = lo + (hi - lo + 1) div 2"
    have mid: "lo < mid" "mid \<le> hi" using True unfolding mid_def by auto
    obtain j q where j: "tget (ops s) j = Some q" "mid \<le> j" using 1(9) mid(2) by force
    then have "(j, q) \<in> set (tscan (\<lambda>j. mid \<le> j) (ops s))" using in_tscan [OF ord] by blast
    then obtain i r es where scan: "tscan (\<lambda>j. mid \<le> j) (ops s) = (i, r) # es"
      by (metis list.set_cases surj_pair)
    note first = tscan_first [OF ord scan]
    have eq: "search_time s t lo hi =
        (if i \<le> hi \<and> timestamp r \<le> t then search_time s t i hi else search_time s t lo (mid - 1))"
      using True by (subst search_time.simps) (simp add: scan Let_def flip: mid_def)
    show ?thesis
    proof (cases "i \<le> hi \<and> timestamp r \<le> t")
      case yes: True
      show ?thesis
        using 1(1) [OF True mid_def scan refl yes ord mono first(1) _ _ 1(8,9)] yes eq by simp
    next
      case no: False
      have late: "t < timestamp q" if "tget (ops s) j = Some q" "mid - 1 < j" for j q
      proof (cases "hi < j")
        case False
        have "i \<le> j" using first(3) that by simp
        then have "t < timestamp r" using no False by simp
        then show ?thesis using mono first(1) that(1) \<open>i \<le> j\<close> unfolding time_ordered_def by (meson less_le_trans)
      qed (use 1(8) that in blast)
      have "\<exists>j q. tget (ops s) j = Some q \<and> mid - 1 \<le> j" using j by force
      moreover have "search_time s t lo hi = search_time s t lo (mid - 1)" using eq no by (simp only: if_False)
      ultimately show ?thesis
        using 1(2) [OF True mid_def scan refl no ord mono 1(5,6)] late mid(1) by simp
    qed
  qed
qed

section \<open>Lemmas: stored forms\<close>

interpretation opt_int_codec: codec out_opt_int in_opt_int "opt_ok is_i64"
proof
  fix n :: "int option" and rest assume "opt_ok is_i64 n"
  then have "map_option sint (map_option (word_of_int :: int \<Rightarrow> 64 word) n) = n"
    by (cases n) (auto simp: is_i64_def sint_sbintrunc' signed_take_bit_int_eq_self)
  then show "in_opt_int (out_opt_int n @ rest) = Inr (n, rest)"
    by (simp add: in_opt_int_def out_opt_int_def opt_word_codec.read_back)
qed

lemma uuid_of_bytes [simp]: "uuid_of (uuid_to_bytes u) = Inr u"
  by (simp add: uuid_of_def)

lemma short_uuid: "short (uuid_to_bytes u)"
  by (simp add: short_def)

lemma short_op_type: "short_text (op_as_str t)"
  by (cases t) (simp_all add: short_text_def short_def, code_simp+)

definition new_op_ok :: "NewOp \<Rightarrow> bool" where
  "new_op_ok op \<longleftrightarrow> opt_ok short_text (no_origin op) \<and> opt_ok short_text (no_field op) \<and> opt_ok is_i64 (no_reverts op)"

definition label_meta_ok :: "LabelMeta \<Rightarrow> bool" where
  "label_meta_ok m \<longleftrightarrow> short_text (lm_name m) \<and> opt_ok short_text (lm_description m) \<and>
     opt_ok is_i64 (lm_parent m) \<and> is_i64 (lm_created m)"

lemmas log_codecs = int_codec.read_back string_codec.read_back opt_string_codec.read_back
  bytes_codec.read_back opt_word_codec.read_back opt_int_codec.read_back opt_bytes_codec.read_back

lemma dec_enc_op:
  assumes "new_op_ok op" and "is_i64 label" and "is_i64 ts"
  shows "dec_op i (enc_op op label ts) = Inr (op_row i label ts op)"
proof -
  have "enc_op op label ts = out_int label @ out_int ts @ out_opt_bytes (no_origin op) @
     out_bytes (op_as_str (no_type op)) @ out_bytes (uuid_to_bytes (no_entity op)) @
     out_opt_word (no_version_before op) @ out_opt_word (no_version_after op) @
     out_opt_bytes (no_field op) @ out_opt_int (no_reverts op) @ []"
    by (simp add: enc_op_def)
  then show ?thesis
    using assms unfolding new_op_ok_def
    by (simp add: dec_op_def op_row_def log_codecs short_op_type short_uuid del: append_Nil2)
qed

lemma dec_enc_label:
  assumes "label_meta_ok m"
  shows "dec_label (enc_label m k) = Inr m" "dec_label_key (enc_label m k) = Inr k"
proof -
  have e: "enc_label m k = out_bytes (lm_name m) @ out_opt_bytes (lm_description m) @ out_opt_int (lm_parent m) @
     out_int (lm_created m) @ out_opt_bytes (map_option uuid_to_bytes k) @ []"
    by (simp add: enc_label_def)
  show "dec_label (enc_label m k) = Inr m"
    using assms unfolding e label_meta_ok_def by (simp add: dec_label_def log_codecs del: append_Nil2)
  have "opt_ok short (lm_description m)" using assms by (simp add: label_meta_ok_def short_text_def)
  then show "dec_label_key (enc_label m k) = Inr k"
    using assms unfolding e label_meta_ok_def
    by (cases k) (simp_all add: dec_label_key_def log_codecs short_uuid del: append_Nil2)
qed

section \<open>Properties\<close>

text \<open>C36: Every operation of the write transaction on the log keeps its invariant: the indexes by
label, by entity, by reverted operation and by origin class hold exactly the operations they
should, an operation's label and a label's parent exist, a command's key leads to its label. The
conditions are those the writer checks before it calls them.\<close>

theorem log_inv_preserved:
  assumes "log_inv s"
  shows "log_inv empty_log \<and>
    ((\<forall>p. lm_parent m = Some p \<longrightarrow> label_meta s p \<noteq> None) \<longrightarrow>
       log_inv (snd (create_label m s)) \<and>
       (label_of_command s key = None \<longrightarrow> log_inv (snd (create_command_label m key s)))) \<and>
    (label_first_op s l = None \<and> label_children s l = [] \<longrightarrow> log_inv (drop_label l s)) \<and>
    log_inv (snd (drop_if_empty l s)) \<and>
    (label_meta s l \<noteq> None \<longrightarrow> log_inv (snd (append_ops l ts os s))) \<and>
    log_inv (snd (delete_ops ids s)) \<and>
    log_inv (snd (trim ret k s)) \<and>
    log_inv (set_head h s) \<and>
    log_inv (set_watcher_label l s)"
proof -
  have lab: "label_meta s p \<noteq> None \<Longrightarrow> tget (labels s) p \<noteq> None" for p by (simp add: label_meta_def)
  have "log_inv (snd (create_label m s)) \<and> (label_of_command s key = None \<longrightarrow> log_inv (snd (create_command_label m key s)))"
    if "\<forall>p. lm_parent m = Some p \<longrightarrow> label_meta s p \<noteq> None"
    using create_label_inv [OF assms] create_command_label_inv [OF assms] lab that by metis
  moreover have "label_meta s l \<noteq> None \<longrightarrow> log_inv (snd (append_ops l ts os s))"
    using append_ops_inv [OF assms] lab by metis
  moreover have "label_first_op s l = None \<and> label_children s l = [] \<longrightarrow> log_inv (drop_label l s)"
    using drop_label_inv [OF assms] by metis
  ultimately show ?thesis
    using log_inv_empty drop_if_empty_ok [OF assms] delete_ops_ok(1) [OF assms] trim_ok(1) [OF assms]
      set_head_inv [OF assms] set_watcher_label_inv [OF assms]
    by (intro conjI impI) (simp_all only: simp_thms)
qed

definition sample_label :: LabelMeta where
  "sample_label = \<lparr>lm_name = ''import'', lm_description = None, lm_parent = None, lm_created = 5\<rparr>"

definition sample_op :: NewOp where
  "sample_op = \<lparr>no_type = SetField, no_entity = 7, no_field = Some ''tag'', no_version_before = None,
     no_version_after = None, no_before = [], no_after = [], no_reverts = None, no_origin = None\<rparr>"

definition sample_log :: oplog where
  "sample_log = snd (append_ops 1 5 [sample_op, sample_op, sample_op] (snd (create_label sample_label empty_log)))"

lemma sample_log_inv: "log_inv sample_log"
  unfolding sample_log_def
  by (intro append_ops_inv create_label_inv log_inv_empty)
    (simp_all add: sample_label_def create_label_def put_label_def Let_def empty_log_def tget_def)

theorem log_inv_preserved_witness:
  "log_inv (snd (drop_if_empty 1 (snd (delete_ops [1, 2, 3] sample_log)))) \<and> log_inv (snd (delete_ops [2] sample_log))"
proof
  show "log_inv (snd (delete_ops [2] sample_log))" using log_inv_preserved [OF sample_log_inv] by blast
  show "log_inv (snd (drop_if_empty 1 (snd (delete_ops [1, 2, 3] sample_log))))"
    using log_inv_preserved [OF delete_ops_ok(1) [OF sample_log_inv]] by blast
qed



text \<open>C39: The search by time returns, and finds the newest operation written at or before the
time - none exactly when there is none - as long as timestamps grow with the ids.\<close>

theorem last_op_at_or_before_correct:
  assumes "log_inv s" and "time_ordered s"
  shows "\<exists>res. last_op_at_or_before s t = Inr res \<and>
    (case res of
       None \<Rightarrow> \<forall>j q. log_op_at s j = Some q \<longrightarrow> t < timestamp q
     | Some i \<Rightarrow> (\<exists>r. log_op_at s i = Some r \<and> timestamp r \<le> t) \<and>
         (\<forall>j q. log_op_at s j = Some q \<and> timestamp q \<le> t \<longrightarrow> j \<le> i))"
proof (cases "ops s = []")
  case True
  then show ?thesis by (simp add: last_op_at_or_before_def log_op_at_def)
next
  case False
  have ord: "ordered (ops s)" using assms(1) by (auto simp: log_ordered_def dest: log_invD)
  obtain f a where hd: "hd (ops s) = (f, a)" by (cases "hd (ops s)")
  obtain l b where last: "last (ops s) = (l, b)" by (cases "last (ops s)")
  have fa: "tget (ops s) f = Some a" and lb: "tget (ops s) l = Some b"
    using False hd last hd_in_set last_in_set unfolding tget_Some_iff [OF ord] by metis+
  have between: "f \<le> j \<and> j \<le> l" if "tget (ops s) j = Some q" for j q
    using ordered_between [OF ord that] hd last by simp
  show ?thesis
  proof (cases "timestamp a \<le> t \<and> t < timestamp b")
    case True
    have "\<exists>i r. search_time s t f l = Inr i \<and> tget (ops s) i = Some r \<and> timestamp r \<le> t \<and>
        (\<forall>j q. tget (ops s) j = Some q \<longrightarrow> timestamp q \<le> t \<longrightarrow> j \<le> i)"
      using True between fa lb by (intro search_time_correct [OF ord assms(2)]) force+
    then show ?thesis using True False hd last by (auto simp: last_op_at_or_before_def log_op_at_def)
  next
    case out: False
    have early: "timestamp a \<le> timestamp q" if "tget (ops s) j = Some q" for j q
      using assms(2) fa that between [OF that] unfolding time_ordered_def by blast
    show ?thesis
    proof (cases "timestamp a \<le> t")
      case True
      then have "last_op_at_or_before s t = Inr (Some l)"
        using out False hd last by (simp add: last_op_at_or_before_def)
      then show ?thesis using True out lb between by (auto simp: log_op_at_def)
    next
      case late: False
      then have "last_op_at_or_before s t = Inr None"
        using False hd by (simp add: last_op_at_or_before_def)
      then show ?thesis using late early by (force simp: log_op_at_def)
    qed
  qed
qed

theorem last_op_at_or_before_correct_witness:
  "\<exists>i r. last_op_at_or_before sample_log 6 = Inr (Some i) \<and> log_op_at sample_log i = Some r \<and> timestamp r \<le> 6"
proof -
  have "list_all (\<lambda>e. timestamp (snd e) = 5) (ops sample_log)" by code_simp
  then have "time_ordered sample_log"
    unfolding time_ordered_def list_all_iff by (metis order_refl snd_conv tget_Some_in)
  moreover have "last_op_at_or_before sample_log 6 \<noteq> Inr None" by code_simp
  ultimately show ?thesis
    using last_op_at_or_before_correct [OF sample_log_inv, of 6] by (force split: option.splits)
qed

text \<open>What the log stores for an operation and for a label is read back exactly: the
operation's row under its id, the label, and the key of the command that opened it.\<close>

theorem log_stored_forms:
  assumes "new_op_ok op" and "is_i64 label" and "is_i64 ts" and "label_meta_ok m"
  shows "dec_op i (enc_op op label ts) = Inr (op_row i label ts op) \<and>
    op_timestamp (enc_op op label ts) = Inr ts \<and>
    dec_label (enc_label m key) = Inr m \<and>
    dec_label_key (enc_label m key) = Inr key \<and>
    op_parse (op_type (op_row i label ts op)) = Some (no_type op)"
  using dec_enc_op [OF assms(1-3)] dec_enc_label [OF assms(4)] assms(2,3)
  by (cases "no_type op") (simp_all add: op_timestamp_def enc_op_def log_codecs op_row_def op_parse_def)

theorem log_stored_forms_witness:
  "dec_op 9 (enc_op sample_op 1 5) = Inr (op_row 9 1 5 sample_op) \<and>
    op_timestamp (enc_op sample_op 1 5) = Inr 5 \<and>
    dec_label (enc_label sample_label (Some 3)) = Inr sample_label \<and>
    dec_label_key (enc_label sample_label (Some 3)) = Inr (Some 3) \<and>
    op_parse (op_type (op_row 9 1 5 sample_op)) = Some (no_type sample_op)"
proof (rule log_stored_forms)
  have "utf8_valid ''tag''" "utf8_valid ''import''" by code_simp+
  then show "new_op_ok sample_op" "label_meta_ok sample_label"
    by (simp_all add: new_op_ok_def label_meta_ok_def sample_op_def sample_label_def short_text_def short_def is_i64_def)
qed (simp_all add: is_i64_def)

end
