(* ===== verification/Writer.thy ===== *)
theory Writer
  imports Oplog
begin

text \<open>
  The logged write flow (\<open>crates/daemon/src/log.rs\<close>). A \<open>Writer\<close> is one write transaction: it
  applies each change to the rows at once, buffers one operation per change with its before and
  after snapshots, derives the new version from the rows the change moved, and at commit checks
  the forest, flushes the operations, moves HEAD and trims the log.

  The record \<open>writer\<close> has the fields of the struct, the transaction being the row store and the
  log it writes. Every method is a function that returns the new writer or an error; a write that
  returned an error is abandoned whole, so an error carries no state. The clock and the new uuids
  are arguments, the hash function is the parameter \<open>H\<close>.

  Left out: \<open>retype_field\<close>, which rests on the conversion of values; the thread-local context.
\<close>

section \<open>Contexts and labels\<close>

record NewLabel =
  nl_name :: string
  nl_description :: "string option"
  nl_parent :: "int option"

datatype WriteContext =
    In int
  | New NewLabel
  | Command uuid NewLabel
  | Watcher

record CommandHeader =
  ch_key :: uuid
  ch_name :: string
  ch_description :: "string option"

definition context_new :: "string \<Rightarrow> WriteContext" where
  "context_new name = New \<lparr>nl_name = name, nl_description = None, nl_parent = None\<rparr>"

definition of_request :: "int option \<Rightarrow> CommandHeader option \<Rightarrow> string \<Rightarrow> WriteContext" where
  "of_request label command name =
     (case (command, label) of
        (Some c, parent) \<Rightarrow> Command (ch_key c)
           \<lparr>nl_name = ch_name c, nl_description = ch_description c, nl_parent = parent\<rparr>
      | (None, Some i) \<Rightarrow> In i
      | (None, None) \<Rightarrow> context_new name)"

fun context_named :: "WriteContext \<Rightarrow> string \<Rightarrow> WriteContext" where
  "context_named (New label) name = New (label\<lparr>nl_name := name\<rparr>)"
| "context_named other name = other"

definition MAX_TREE_DEPTH :: nat where
  "MAX_TREE_DEPTH = 1000"

text \<open>The walk up the parents of a label; \<open>depth\<close> counts the labels passed.\<close>

function client_label_walk :: "oplog \<Rightarrow> int \<Rightarrow> int option \<Rightarrow> nat \<Rightarrow> store_error + unit" where
  "client_label_walk s i next depth =
     (case next of
        None \<Rightarrow> Inr ()
      | Some label \<Rightarrow>
          if watcher_label s = Some label then Inl (LabelIsWatchers i)
          else (case label_meta s label of
                  None \<Rightarrow> Inl (NoSuchLabel label)
                | Some m \<Rightarrow>
                    if depth + 1 > MAX_TREE_DEPTH then Inl (LabelTooDeep i)
                    else client_label_walk s i (lm_parent m) (depth + 1)))"
  by auto
termination
  by (relation "measure (\<lambda>(s, i, next, depth). MAX_TREE_DEPTH - depth)") auto

declare client_label_walk.simps [simp del]

definition check_client_label :: "oplog \<Rightarrow> int \<Rightarrow> store_error + unit" where
  "check_client_label s i = client_label_walk s i (Some i) 0"

section \<open>Targets and pruning\<close>

datatype Target = Id int | Timestamp int | Label int

text \<open>
  The two walks down the labels pop a work list; a label is met once, since it has one parent, so
  as many steps as there are labels (and one for a label that does not exist) are enough
  (\<open>first_op_under_total\<close>, \<open>label_subtree_total\<close>). \<open>None\<close> is a walk that did not end.
\<close>

fun first_op_walk :: "nat \<Rightarrow> oplog \<Rightarrow> int option \<Rightarrow> int list \<Rightarrow> int option option" where
  "first_op_walk fuel s first [] = Some first"
| "first_op_walk 0 s first todo = None"
| "first_op_walk (Suc fuel) s first todo =
     (let label = last todo;
          first = (case label_first_op s label of
                     None \<Rightarrow> first
                   | Some op \<Rightarrow> Some (case first of None \<Rightarrow> op | Some f \<Rightarrow> min f op))
      in first_op_walk fuel s first (butlast todo @ label_children s label))"

definition first_op_under :: "oplog \<Rightarrow> int \<Rightarrow> int option option" where
  "first_op_under s label = first_op_walk (length (labels s) + 1) s None [label]"

fun subtree_walk :: "nat \<Rightarrow> oplog \<Rightarrow> int list \<Rightarrow> nat \<Rightarrow> int list option" where
  "subtree_walk fuel s out i =
     (if length out \<le> i then Some out
      else case fuel of
             0 \<Rightarrow> None
           | Suc fuel \<Rightarrow> subtree_walk fuel s (out @ label_children s (out ! i)) (i + 1))"

declare subtree_walk.simps [simp del]

definition label_subtree :: "oplog \<Rightarrow> int \<Rightarrow> int list option" where
  "label_subtree s label = subtree_walk (length (labels s) + 1) s [label] 0"

definition resolve_target :: "oplog \<Rightarrow> Target \<Rightarrow> store_error + int" where
  "resolve_target s target =
     (case target of
        Id i \<Rightarrow> bindE (optE (log_op_at s i) (OperationNotFound i)) (\<lambda>_. Inr i)
      | Timestamp t \<Rightarrow> bindE (last_op_at_or_before s t) (\<lambda>m. optE m (NoOpAtOrBefore t))
      | Label l \<Rightarrow> (case first_op_under s l of
                      Some (Some i) \<Rightarrow> Inr i
                    | _ \<Rightarrow> Inl (LabelHoldsNothing l)))"

definition prune :: "oplog \<Rightarrow> int \<Rightarrow> store_error + (nat \<times> nat) \<times> oplog" where
  "prune s target =
     bindE (optE (head s) EmptyHistory) (\<lambda>_.
       let doomed = map op_id (ops_back s (target - 1) None);
           (n, s) = delete_ops doomed s
       in Inr ((length doomed, n), s))"

section \<open>The writer\<close>

definition FLUSH_THRESHOLD :: nat where
  "FLUSH_THRESHOLD = 4096"

record MovedCell =
  mc_field :: string
  mc_uuid :: uuid

definition moved_cells_of :: "FieldRow list \<Rightarrow> FieldRow list \<Rightarrow> uuid \<Rightarrow> MovedCell list" where
  "moved_cells_of before after entity =
     foldl (\<lambda>out row.
         if position (row_value row) \<noteq> None \<and> \<not> (\<exists>c\<in>set out. mc_field c = row_name row)
         then out @ [\<lparr>mc_field = row_name row, mc_uuid = entity\<rparr>] else out)
       [] (before @ after)"

record WriteEffects =
  eff_tree :: "MovedCell list"
  eff_base_head :: "int option"
  eff_watch :: bool

definition DECIDES_WATCHES :: "string list" where
  "DECIDES_WATCHES = [''mf_watch'', ''mf_ignore'', ''mfr_watch_exceeded'']"

text \<open>
  \<open>w_lost\<close> is \<open>tree_lost\<close>; \<open>tree_lost_seen\<close> is the index of the same pairs and is not kept apart.
  \<open>w_types\<close> is the cache \<open>field_types\<close>.
\<close>

record writer =
  tx_rows :: rowstore
  tx_log :: oplog
  w_label :: int
  w_opened :: bool
  w_timestamp :: int
  w_chain_head :: "int option"
  w_flushed :: int
  w_first_op :: "int option"
  w_pending :: "NewOp list"
  w_types :: "(string, string) table"
  w_deferred_types :: "string list option"
  w_deferred_trees :: "(uuid \<times> string \<times> value) list option"
  w_retention :: Retention
  w_effects :: WriteEffects
  w_lost :: "(string \<times> uuid) list"
  w_reverting :: "int option"
  w_origin :: "string option"

definition new_label_meta :: "NewLabel \<Rightarrow> int \<Rightarrow> LabelMeta" where
  "new_label_meta l now =
     \<lparr>lm_name = nl_name l, lm_description = nl_description l, lm_parent = nl_parent l, lm_created = now\<rparr>"

definition check_parent :: "oplog \<Rightarrow> NewLabel \<Rightarrow> store_error + unit" where
  "check_parent s l = (case nl_parent l of None \<Rightarrow> Inr () | Some p \<Rightarrow> check_client_label s p)"

text \<open>The label of the watcher's flushes: the one recorded, if it is still there, or a new one.\<close>

definition watcher_root :: "oplog \<Rightarrow> int \<Rightarrow> int \<times> oplog" where
  "watcher_root s now =
     (case watcher_label s of
        Some root \<Rightarrow> if label_meta s root \<noteq> None then (root, s) else
          (let (root, s) = create_label \<lparr>lm_name = ''watcher'',
                 lm_description = Some ''What the daemon recorded for the filesystem'',
                 lm_parent = None, lm_created = now\<rparr> s
           in (root, set_watcher_label root s))
      | None \<Rightarrow>
          (let (root, s) = create_label \<lparr>lm_name = ''watcher'',
                 lm_description = Some ''What the daemon recorded for the filesystem'',
                 lm_parent = None, lm_created = now\<rparr> s
           in (root, set_watcher_label root s)))"

definition open_label :: "WriteContext \<Rightarrow> int \<Rightarrow> oplog \<Rightarrow> store_error + (int \<times> bool \<times> string option) \<times> oplog" where
  "open_label ctx now s =
     (case ctx of
        In i \<Rightarrow> bindE (check_client_label s i) (\<lambda>_. Inr ((i, False, None), s))
      | New l \<Rightarrow> bindE (check_parent s l) (\<lambda>_.
          let (i, s) = create_label (new_label_meta l now) s in Inr ((i, True, None), s))
      | Command key l \<Rightarrow>
          (case label_of_command s key of
             Some i \<Rightarrow> Inr ((i, False, None), s)
           | None \<Rightarrow> bindE (check_parent s l) (\<lambda>_.
               let (i, s) = create_command_label (new_label_meta l now) key s in Inr ((i, True, None), s)))
      | Watcher \<Rightarrow>
          (let (root, s) = watcher_root s now;
               (i, s) = create_label \<lparr>lm_name = ''watcher flush'', lm_description = None,
                          lm_parent = Some root, lm_created = now\<rparr> s
           in Inr ((i, True, Some ORIGIN_WATCHER), s)))"

definition begin_in :: "WriteContext \<Rightarrow> Retention \<Rightarrow> int \<Rightarrow> rowstore \<Rightarrow> oplog \<Rightarrow> store_error + writer" where
  "begin_in ctx ret now rs lg =
     bindE (open_label ctx now lg) (\<lambda>((label, opened, orig), lg').
       Inr \<lparr>tx_rows = rs, tx_log = lg', w_label = label, w_opened = opened, w_timestamp = now,
            w_chain_head = head lg, w_flushed = 0, w_first_op = None, w_pending = [], w_types = [],
            w_deferred_types = None, w_deferred_trees = None, w_retention = ret,
            w_effects = \<lparr>eff_tree = [], eff_base_head = head lg, eff_watch = False\<rparr>,
            w_lost = [], w_reverting = None, w_origin = orig\<rparr>)"

definition set_origin :: "string \<Rightarrow> writer \<Rightarrow> writer" where
  "set_origin orig w = w\<lparr>w_origin := Some orig\<rparr>"

definition op_count :: "writer \<Rightarrow> int" where
  "op_count w = w_flushed w + int (length (w_pending w))"

definition defer_type_checks :: "writer \<Rightarrow> writer" where
  "defer_type_checks w =
     w\<lparr>w_deferred_types := Some (case w_deferred_types w of None \<Rightarrow> [] | Some d \<Rightarrow> d),
       w_deferred_trees := Some (case w_deferred_trees w of None \<Rightarrow> [] | Some d \<Rightarrow> d),
       w_types := []\<rparr>"

definition reverting :: "int option \<Rightarrow> writer \<Rightarrow> writer" where
  "reverting i w = w\<lparr>w_reverting := i\<rparr>"

section \<open>Checks\<close>

definition current_version :: "writer \<Rightarrow> uuid \<Rightarrow> store_error + u64" where
  "current_version w u = optE (kv_version (tx_rows w) u) (RecordNotFound u)"

definition get_owned_row :: "writer \<Rightarrow> uuid \<Rightarrow> int \<Rightarrow> store_error + FieldRow" where
  "get_owned_row w u i =
     optE (List.find (\<lambda>r. row_id r = i) (kv_rows (tx_rows w) u)) (FieldNotFound i u)"

text \<open>\<open>seen\<close> holds the last position met under each name.\<close>

definition one_position_step ::
    "uuid \<Rightarrow> string \<times> value \<Rightarrow> (string, value) table \<Rightarrow> store_error + (string, value) table" where
  "one_position_step u e seen =
     (case snd e of
        VTreeRef p n \<Rightarrow>
          (case tget seen (fst e) of
             Some other \<Rightarrow> if value_eq other (snd e) then Inr (tput (fst e) (snd e) seen)
                           else Inl (SecondPosition u (fst e))
           | None \<Rightarrow> Inr (tput (fst e) (snd e) seen))
      | VHierarchyRef p n \<Rightarrow>
          (case Option.bind (tget seen (fst e)) position of
             Some (_, m) \<Rightarrow> if m = n then Inr (tput (fst e) (snd e) seen) else Inl (SecondName u (fst e))
           | None \<Rightarrow> Inr (tput (fst e) (snd e) seen))
      | _ \<Rightarrow> Inr seen)"

definition validate_one_position_each :: "uuid \<Rightarrow> (string \<times> value) list \<Rightarrow> store_error + unit" where
  "validate_one_position_each u rows = bindE (foldE (one_position_step u) rows []) (\<lambda>_. Inr ())"

definition validate_one_position ::
    "writer \<Rightarrow> uuid \<Rightarrow> string \<Rightarrow> value \<Rightarrow> int option \<Rightarrow> store_error + unit" where
  "validate_one_position w u name v replaced =
     (if position v = None then Inr ()
      else validate_one_position_each u
        (map (\<lambda>r. (name, row_value r))
           (filter (\<lambda>r. Some (row_id r) \<noteq> replaced \<and> type_str (row_value r) = type_str v)
              (kv_rows_named (tx_rows w) u name)) @ [(name, v)]))"

definition tree_parents :: "rowstore \<Rightarrow> string \<Rightarrow> uuid \<Rightarrow> uuid option list" where
  "tree_parents s field u =
     List.map_filter (\<lambda>r. map_option fst (position (row_value r))) (kv_rows_named s u field)"

definition some_parents :: "rowstore \<Rightarrow> string \<Rightarrow> uuid \<Rightarrow> uuid list" where
  "some_parents s field u = List.map_filter id (tree_parents s field u)"

text \<open>One level of the walk up: the nodes of the frontier, the parents that make the next one.\<close>

definition visit_node ::
    "rowstore \<Rightarrow> string \<Rightarrow> uuid \<Rightarrow> uuid \<Rightarrow> uuid list \<times> uuid list \<Rightarrow> store_error + uuid list \<times> uuid list" where
  "visit_node s field m node acc =
     (if node = m then Inl (TreeCycle field)
      else if node \<in> set (fst acc) then Inr acc
      else Inr (fst acc @ [node], snd acc @ some_parents s field node))"

function ancestor_walk ::
    "rowstore \<Rightarrow> string \<Rightarrow> uuid \<Rightarrow> nat \<Rightarrow> uuid list \<Rightarrow> uuid list \<Rightarrow> store_error + nat" where
  "ancestor_walk s field m chain visited frontier =
     bindE (foldE (visit_node s field m) frontier (visited, [])) (\<lambda>(visited, next).
       if next = [] then Inr chain
       else if chain + 1 \<ge> MAX_TREE_DEPTH then Inl TreeTooDeep
       else ancestor_walk s field m (chain + 1) visited next)"
  by auto
termination
  by (relation "measure (\<lambda>(s, field, m, chain, visited, frontier). MAX_TREE_DEPTH - chain)") auto

declare ancestor_walk.simps [simp del]

definition check_tree_ref :: "rowstore \<Rightarrow> uuid \<Rightarrow> string \<Rightarrow> value \<Rightarrow> store_error + unit" where
  "check_tree_ref s m field v =
     (case position v of
        Some (Some parent, _) \<Rightarrow>
          if parent = m then Inl (TreeCycle field)
          else if tree_parents s field parent = [] then Inl (InvalidParent parent field)
          else bindE (ancestor_walk s field m 1 [] [parent]) (\<lambda>chain.
                 if chain + 1 > MAX_TREE_DEPTH then Inl TreeTooDeep else Inr ())
      | _ \<Rightarrow> Inr ())"

definition validate_tree_ref :: "uuid \<Rightarrow> string \<Rightarrow> value \<Rightarrow> writer \<Rightarrow> store_error + writer" where
  "validate_tree_ref m field v w =
     (case position v of
        None \<Rightarrow> Inr w
      | Some (parent, name) \<Rightarrow>
          if \<not> is_component name (parent = None) then Inl (InvalidName name field)
          else (case w_deferred_trees w of
                  Some d \<Rightarrow> Inr (w\<lparr>w_deferred_trees := Some (d @ [(m, field, v)])\<rparr>)
                | None \<Rightarrow> bindE (check_tree_ref (tx_rows w) m field v) (\<lambda>_. Inr w)))"

definition validate_value_type :: "string \<Rightarrow> value \<Rightarrow> writer \<Rightarrow> store_error + writer" where
  "validate_value_type field v w =
     (if v = Nothing then Inr w
      else case w_deferred_types w of
        Some d \<Rightarrow> Inr (w\<lparr>w_deferred_types := Some (if field \<in> set d then d else d @ [field])\<rparr>)
      | None \<Rightarrow>
          (let new_type = value_type (encode_value v)
           in case tget (w_types w) field of
                Some established \<Rightarrow>
                  if established = new_type then Inr w else Inl (ValueTypeConflict field established new_type)
              | None \<Rightarrow>
                  (case kv_value_types (tx_rows w) field of
                     established # _ \<Rightarrow>
                       if established \<noteq> new_type then Inl (ValueTypeConflict field established new_type)
                       else Inr (w\<lparr>w_types := tput field new_type (w_types w)\<rparr>)
                   | [] \<Rightarrow> Inr (w\<lparr>w_types := tput field new_type (w_types w)\<rparr>))))"

definition twin_row :: "writer \<Rightarrow> uuid \<Rightarrow> int \<Rightarrow> string \<Rightarrow> value \<Rightarrow> int option" where
  "twin_row w u i name v =
     map_option row_id (List.find (\<lambda>r. row_id r \<noteq> i \<and> value_eq (row_value r) v) (kv_rows_named (tx_rows w) u name))"

definition reject_duplicate :: "writer \<Rightarrow> uuid \<Rightarrow> int \<Rightarrow> string \<Rightarrow> value \<Rightarrow> store_error + unit" where
  "reject_duplicate w u i name v =
     (case twin_row w u i name v of
        Some j \<Rightarrow> Inl (DuplicateValue name j u)
      | None \<Rightarrow> Inr ())"

text \<open>The values to write, and for each given value the index of the one that stands for it.\<close>

fun find_index :: "('a \<Rightarrow> bool) \<Rightarrow> 'a list \<Rightarrow> nat option" where
  "find_index p [] = None"
| "find_index p (x # xs) = (if p x then Some 0 else map_option Suc (find_index p xs))"

definition collapse_step :: "value list \<times> nat list \<Rightarrow> value \<Rightarrow> value list \<times> nat list" where
  "collapse_step acc v =
     (case find_index (\<lambda>k. value_eq k v) (fst acc) of
        Some i \<Rightarrow> (fst acc, snd acc @ [i])
      | None \<Rightarrow> (fst acc @ [v], snd acc @ [length (fst acc)]))"

definition collapse_duplicates :: "value list \<Rightarrow> value list \<times> nat list" where
  "collapse_duplicates vs = foldl collapse_step ([], []) vs"

definition same_field :: "Field \<Rightarrow> Field \<Rightarrow> bool" where
  "same_field k f \<longleftrightarrow> f_name k = f_name f \<and> value_eq (f_value k) (f_value f)"

definition collapse_duplicate_fields :: "Field list \<Rightarrow> Field list" where
  "collapse_duplicate_fields fs = dedup_by same_field [] fs"

section \<open>Recording\<close>

definition observe_lost :: "OpType \<Rightarrow> uuid \<Rightarrow> (string \<times> uuid) list \<Rightarrow> FieldRow \<Rightarrow> (string \<times> uuid) list" where
  "observe_lost ty entity lost row =
     (if is_manual ty \<and> position (row_value row) \<noteq> None \<and> (row_name row, entity) \<notin> set lost
      then lost @ [(row_name row, entity)] else lost)"

definition observe_effects :: "OpType \<Rightarrow> FieldRow list \<Rightarrow> FieldRow list \<Rightarrow> uuid \<Rightarrow> writer \<Rightarrow> writer" where
  "observe_effects ty before after entity w =
     w\<lparr>w_lost := foldl (observe_lost ty entity) (w_lost w) before,
       w_effects := (w_effects w)\<lparr>
         eff_watch := eff_watch (w_effects w) \<or> (\<exists>r\<in>set (before @ after). row_name r \<in> set DECIDES_WATCHES),
         eff_tree := eff_tree (w_effects w) @ moved_cells_of before after entity\<rparr>\<rparr>"

definition flush_pending :: "writer \<Rightarrow> writer" where
  "flush_pending w =
     (if w_pending w = [] then w
      else let pending = w_pending w;
               (last, lg) = append_ops (w_label w) (w_timestamp w) pending (tx_log w)
           in w\<lparr>tx_log := lg, w_pending := [],
                w_first_op := Some (case w_first_op w of
                                      Some f \<Rightarrow> f
                                    | None \<Rightarrow> last - int (length pending) + 1),
                w_flushed := w_flushed w + int (length pending),
                w_chain_head := Some last\<rparr>)"

definition assign_version :: "(bytes \<Rightarrow> u64) \<Rightarrow> uuid \<Rightarrow> FieldRow list \<Rightarrow> FieldRow list \<Rightarrow> rowstore \<Rightarrow> u64 option \<times> rowstore" where
  "assign_version H entity before after s =
     (case kv_version s entity of
        None \<Rightarrow> (None, s)
      | Some current \<Rightarrow>
          let (add, sub) = version_delta H before after;
              assigned = version_apply current add sub
          in (Some assigned, set_version entity assigned s))"

definition log_op ::
    "(bytes \<Rightarrow> u64) \<Rightarrow> OpType \<Rightarrow> uuid \<Rightarrow> string option \<Rightarrow> u64 option \<Rightarrow> FieldRow list \<Rightarrow> FieldRow list
     \<Rightarrow> writer \<Rightarrow> writer" where
  "log_op H ty entity field version_before before after w =
     (let (version_after, s) = assign_version H entity before after (tx_rows w);
          w = observe_effects ty before after entity (w\<lparr>tx_rows := s\<rparr>);
          w = w\<lparr>w_pending := w_pending w @
                 [\<lparr>no_type = ty, no_entity = entity, no_field = field, no_version_before = version_before,
                   no_version_after = version_after, no_before = before, no_after = after,
                   no_reverts = w_reverting w, no_origin = w_origin w\<rparr>]\<rparr>
      in if length (w_pending w) \<ge> FLUSH_THRESHOLD then flush_pending w else w)"

section \<open>Writes\<close>

definition put_tx :: "writer \<Rightarrow> rowstore \<Rightarrow> writer" where
  "put_tx w s = w\<lparr>tx_rows := s\<rparr>"

definition forget_type :: "string \<Rightarrow> writer \<Rightarrow> writer" where
  "forget_type name w = w\<lparr>w_types := tdel name (w_types w)\<rparr>"

definition tx_insert ::
    "(bytes \<Rightarrow> u64) \<Rightarrow> uuid \<Rightarrow> string \<Rightarrow> value \<Rightarrow> int option \<Rightarrow> writer \<Rightarrow> store_error + FieldRow \<times> writer" where
  "tx_insert H u name v rid w =
     bindE (insert_row H u name v rid (tx_rows w)) (\<lambda>(i, s).
       Inr (\<lparr>row_id = i, row_name = name, row_value = v\<rparr>, put_tx w s))"

definition clear_field_as :: "(bytes \<Rightarrow> u64) \<Rightarrow> OpType \<Rightarrow> uuid \<Rightarrow> string \<Rightarrow> writer \<Rightarrow> store_error + writer" where
  "clear_field_as H ty u name w =
     (let before = kv_rows_named (tx_rows w) u name
      in if before = [] then Inr w
         else bindE (current_version w u) (\<lambda>v.
           Inr (forget_type name
             (log_op H ty u (Some name) (Some v) before []
               (put_tx w (delete_rows H u (Some name) (tx_rows w)))))))"

definition out_field :: "FieldRow \<Rightarrow> Field" where
  "out_field r = \<lparr>f_id = Some (row_id r), f_name = row_name r, f_value = row_value r\<rparr>"

definition create_step :: "(bytes \<Rightarrow> u64) \<Rightarrow> uuid \<Rightarrow> Field \<Rightarrow> FieldRow list \<times> writer \<Rightarrow> store_error + FieldRow list \<times> writer" where
  "create_step H u f acc =
     bindE (validate_value_type (f_name f) (f_value f) (snd acc)) (\<lambda>w.
     bindE (tx_insert H u (f_name f) (f_value f) None w) (\<lambda>(row, w).
       Inr (fst acc @ [row], w)))"

definition create_metarecord_with_uuid ::
    "(bytes \<Rightarrow> u64) \<Rightarrow> uuid \<Rightarrow> Field list \<Rightarrow> writer \<Rightarrow> store_error + MetaRecord \<times> writer" where
  "create_metarecord_with_uuid H u fs w =
     (let fs = collapse_duplicate_fields fs
      in bindE (validate_one_position_each u (map (\<lambda>f. (f_name f, f_value f)) fs)) (\<lambda>_.
         bindE (foldE (\<lambda>f. validate_tree_ref u (f_name f) (f_value f)) fs w) (\<lambda>w.
         bindE (create_metarecord_row u (version_base H u) (tx_rows w)) (\<lambda>s.
         bindE (foldE (create_step H u) fs ([], put_tx w s)) (\<lambda>(after, w).
         let w = log_op H CreateRecord u None None [] after w
         in bindE (current_version w u) (\<lambda>v.
            Inr (\<lparr>mr_uuid = u, mr_version = v, mr_fields = map out_field after\<rparr>, w)))))))"

definition is_repository_root :: "FieldRow \<Rightarrow> bool" where
  "is_repository_root row \<longleftrightarrow> row_name row = ''mfr_path'' \<and> row_value row = VTreeRef None []"

definition delete_metarecord :: "(bytes \<Rightarrow> u64) \<Rightarrow> uuid \<Rightarrow> writer \<Rightarrow> store_error + writer" where
  "delete_metarecord H u w =
     bindE (optE (kv_version (tx_rows w) u) (RecordNotFound u)) (\<lambda>version.
       let before = kv_rows (tx_rows w) u
       in if \<exists>r\<in>set before. is_repository_root r then Inl CannotDeleteRoot
          else Inr (log_op H DeleteRecord u None (Some version) before []
                 (put_tx w (remove_metarecord H u (tx_rows w)))))"

definition set_step :: "(bytes \<Rightarrow> u64) \<Rightarrow> uuid \<Rightarrow> Field \<Rightarrow> FieldRow list \<times> writer \<Rightarrow> store_error + FieldRow list \<times> writer" where
  "set_step H u f acc =
     bindE (validate_tree_ref u (f_name f) (f_value f) (snd acc)) (\<lambda>w. create_step H u f (fst acc, w))"

definition set_record ::
    "(bytes \<Rightarrow> u64) \<Rightarrow> uuid \<Rightarrow> Field list \<Rightarrow> writer \<Rightarrow> store_error + MetaRecord \<times> writer" where
  "set_record H u fs w =
     (let fs = collapse_duplicate_fields fs
      in bindE (validate_one_position_each u (map (\<lambda>f. (f_name f, f_value f)) fs)) (\<lambda>_.
         bindE (current_version w u) (\<lambda>version_before.
         let before = kv_rows (tx_rows w) u;
             w = put_tx w (delete_rows H u None (tx_rows w));
             w = foldl (\<lambda>w row. forget_type (row_name row) w) w before
         in bindE (foldE (set_step H u) fs ([], w)) (\<lambda>(after, w).
            let w = log_op H SetRecord u None (Some version_before) before after w
            in bindE (current_version w u) (\<lambda>v.
               Inr (\<lparr>mr_uuid = u, mr_version = v, mr_fields = map out_field after\<rparr>, w))))))"

definition set_field_as ::
    "(bytes \<Rightarrow> u64) \<Rightarrow> OpType \<Rightarrow> uuid \<Rightarrow> string \<Rightarrow> value \<Rightarrow> writer \<Rightarrow> store_error + writer" where
  "set_field_as H ty u name v w =
     bindE (validate_tree_ref u name v w) (\<lambda>w.
     bindE (validate_value_type name v w) (\<lambda>w.
     bindE (current_version w u) (\<lambda>version_before.
       let before = kv_rows_named (tx_rows w) u name;
           w = put_tx w (delete_rows H u (Some name) (tx_rows w))
       in bindE (tx_insert H u name v None w) (\<lambda>(row, w).
          let w = log_op H ty u (Some name) (Some version_before) before [row] w
          in Inr (if v = Nothing then forget_type name w else w)))))"

definition set_field :: "(bytes \<Rightarrow> u64) \<Rightarrow> uuid \<Rightarrow> string \<Rightarrow> value \<Rightarrow> writer \<Rightarrow> store_error + writer" where
  "set_field H u name v w = set_field_as H SetField u name v w"

definition insert_step :: "(bytes \<Rightarrow> u64) \<Rightarrow> uuid \<Rightarrow> string \<Rightarrow> value \<Rightarrow> FieldRow list \<times> writer \<Rightarrow> store_error + FieldRow list \<times> writer" where
  "insert_step H u name v acc =
     bindE (tx_insert H u name v None (snd acc)) (\<lambda>(row, w). Inr (fst acc @ [row], w))"

definition set_field_multi_as ::
    "(bytes \<Rightarrow> u64) \<Rightarrow> OpType \<Rightarrow> uuid \<Rightarrow> string \<Rightarrow> value list \<Rightarrow> writer \<Rightarrow> store_error + int list \<times> writer" where
  "set_field_multi_as H ty u name vs w =
     bindE (validate_one_position_each u (map (Pair name) vs)) (\<lambda>_.
     bindE (foldE (\<lambda>v w. bindE (validate_tree_ref u name v w) (validate_value_type name v)) vs w) (\<lambda>w.
       let (kept, slot) = collapse_duplicates vs
       in bindE (current_version w u) (\<lambda>version_before.
          let before = kv_rows_named (tx_rows w) u name;
              w = put_tx w (delete_rows H u (Some name) (tx_rows w))
          in bindE (foldE (insert_step H u name) kept ([], w)) (\<lambda>(after, w).
             let ids = map (\<lambda>i. row_id (after ! i)) slot;
                 w = log_op H ty u (Some name) (Some version_before) before after w
             in Inr (ids, if list_all (\<lambda>v. v = Nothing) vs then forget_type name w else w)))))"

definition set_field_multi :: "(bytes \<Rightarrow> u64) \<Rightarrow> uuid \<Rightarrow> string \<Rightarrow> value list \<Rightarrow> writer \<Rightarrow> store_error + writer" where
  "set_field_multi H u name vs w = bindE (set_field_multi_as H SetField u name vs w) (\<lambda>(_, w). Inr w)"

datatype Appended = Created int | AlreadyPresent int

fun appended_id :: "Appended \<Rightarrow> int" where
  "appended_id (Created i) = i"
| "appended_id (AlreadyPresent i) = i"

fun appended_created :: "Appended \<Rightarrow> bool" where
  "appended_created (Created _) = True"
| "appended_created (AlreadyPresent _) = False"

definition append_field ::
    "(bytes \<Rightarrow> u64) \<Rightarrow> uuid \<Rightarrow> string \<Rightarrow> value \<Rightarrow> writer \<Rightarrow> store_error + Appended \<times> writer" where
  "append_field H u name v w =
     bindE (validate_one_position w u name v None) (\<lambda>_.
     bindE (validate_tree_ref u name v w) (\<lambda>w.
     bindE (validate_value_type name v w) (\<lambda>w.
       case List.find (\<lambda>r. value_eq (row_value r) v) (kv_rows_named (tx_rows w) u name) of
         Some r \<Rightarrow> Inr (AlreadyPresent (row_id r), w)
       | None \<Rightarrow>
           bindE (current_version w u) (\<lambda>version_before.
           bindE (tx_insert H u name v None w) (\<lambda>(row, w).
             Inr (Created (row_id row),
                  log_op H AppendField u (Some name) (Some version_before) [] [row] w))))))"

definition replace_owned_row ::
    "(bytes \<Rightarrow> u64) \<Rightarrow> uuid \<Rightarrow> FieldRow \<Rightarrow> string \<Rightarrow> value \<Rightarrow> writer \<Rightarrow> store_error + writer" where
  "replace_owned_row H u old new_name v w =
     bindE (current_version w u) (\<lambda>v1.
       let w = put_tx w (delete_row H (row_id old) (tx_rows w));
           w = log_op H DeleteField u (Some (row_name old)) (Some v1) [old] [] w
       in bindE (current_version w u) (\<lambda>v2.
          bindE (tx_insert H u new_name v (Some (row_id old)) w) (\<lambda>(row, w).
          let w = log_op H AppendField u (Some new_name) (Some v2) [] [row] w
          in Inr (if new_name \<noteq> row_name old then forget_type new_name (forget_type (row_name old) w) else w))))"

definition replace_field :: "(bytes \<Rightarrow> u64) \<Rightarrow> uuid \<Rightarrow> int \<Rightarrow> value \<Rightarrow> writer \<Rightarrow> store_error + writer" where
  "replace_field H u i v w =
     bindE (get_owned_row w u i) (\<lambda>old.
     bindE (validate_one_position w u (row_name old) v (Some i)) (\<lambda>_.
     bindE (validate_tree_ref u (row_name old) v w) (\<lambda>w.
     bindE (validate_value_type (row_name old) v w) (\<lambda>w.
     bindE (reject_duplicate w u i (row_name old) v) (\<lambda>_.
       replace_owned_row H u old (row_name old) v w)))))"

definition rename_field :: "(bytes \<Rightarrow> u64) \<Rightarrow> uuid \<Rightarrow> int \<Rightarrow> string \<Rightarrow> value \<Rightarrow> writer \<Rightarrow> store_error + writer" where
  "rename_field H u i new_name v w =
     bindE (get_owned_row w u i) (\<lambda>old.
     bindE (validate_one_position w u new_name v (Some i)) (\<lambda>_.
     bindE (validate_tree_ref u new_name v w) (\<lambda>w.
     bindE (validate_value_type new_name v w) (\<lambda>w.
     bindE (reject_duplicate w u i new_name v) (\<lambda>_.
       replace_owned_row H u old new_name v w)))))"

definition delete_field :: "(bytes \<Rightarrow> u64) \<Rightarrow> uuid \<Rightarrow> int \<Rightarrow> writer \<Rightarrow> store_error + writer" where
  "delete_field H u i w =
     bindE (get_owned_row w u i) (\<lambda>old.
     bindE (current_version w u) (\<lambda>version_before.
       let w = put_tx w (delete_row H i (tx_rows w));
           w = log_op H DeleteField u (Some (row_name old)) (Some version_before) [old] [] w
       in Inr (forget_type (row_name old) w)))"

definition delete_field_rows ::
    "(bytes \<Rightarrow> u64) \<Rightarrow> uuid \<Rightarrow> string \<Rightarrow> FieldRow list \<Rightarrow> writer \<Rightarrow> store_error + nat \<times> writer" where
  "delete_field_rows H u name rows w =
     (if rows = [] then Inr (0, w)
      else bindE (current_version w u) (\<lambda>version_before.
        let w = foldl (\<lambda>w row. put_tx w (delete_row H (row_id row) (tx_rows w))) w rows;
            w = log_op H DeleteField u (Some name) (Some version_before) rows [] w
        in Inr (length rows, forget_type name w)))"

definition delete_fields_valued ::
    "(bytes \<Rightarrow> u64) \<Rightarrow> uuid \<Rightarrow> string \<Rightarrow> value \<Rightarrow> writer \<Rightarrow> store_error + nat \<times> writer" where
  "delete_fields_valued H u name v w =
     delete_field_rows H u name
       (filter (\<lambda>r. value_eq (row_value r) v) (kv_rows_named (tx_rows w) u name)) w"

definition delete_fields_named ::
    "(bytes \<Rightarrow> u64) \<Rightarrow> uuid \<Rightarrow> string \<Rightarrow> writer \<Rightarrow> store_error + nat \<times> writer" where
  "delete_fields_named H u name w = delete_field_rows H u name (kv_rows_named (tx_rows w) u name) w"

section \<open>Commit\<close>

definition check_deferred_types :: "writer \<Rightarrow> store_error + unit" where
  "check_deferred_types w =
     (case w_deferred_types w of
        None \<Rightarrow> Inr ()
      | Some names \<Rightarrow> foldE (\<lambda>name _.
          if length (kv_value_types (tx_rows w) name) > 1 then Inl (MixedValueTypes name) else Inr ()) names ())"

definition check_deferred_trees :: "writer \<Rightarrow> store_error + unit" where
  "check_deferred_trees w =
     (case w_deferred_trees w of
        None \<Rightarrow> Inr ()
      | Some deferred \<Rightarrow> foldE (\<lambda>(u, name, v) _.
          if \<exists>r\<in>set (kv_rows_named (tx_rows w) u name). value_eq (row_value r) v
          then check_tree_ref (tx_rows w) u name v else Inr ()) deferred ())"

definition check_forest_integrity :: "writer \<Rightarrow> store_error + unit" where
  "check_forest_integrity w =
     foldE (\<lambda>(field, u) _.
         bindE (kv_children (tx_rows w) field u) (\<lambda>children.
           if children = [] then Inr ()
           else if \<exists>r\<in>set (kv_rows_named (tx_rows w) u field). position (row_value r) \<noteq> None then Inr ()
           else Inl (PositionHasChildren field u)))
       (w_lost w) ()"

definition commit :: "writer \<Rightarrow> store_error + rowstore \<times> oplog" where
  "commit w =
     bindE (check_forest_integrity w) (\<lambda>_.
     bindE (check_deferred_types w) (\<lambda>_.
     bindE (check_deferred_trees w) (\<lambda>_.
       if w_flushed w = 0 \<and> w_pending w = [] then
         Inr (tx_rows w, if w_opened w then drop_label (w_label w) (tx_log w) else tx_log w)
       else
         let w = flush_pending w;
             lg = set_head (w_chain_head w) (tx_log w)
         in Inr (tx_rows w, (case w_first_op w of
                               None \<Rightarrow> lg
                             | Some first \<Rightarrow> snd (trim (w_retention w) first lg))))))"

end
