(* ===== verification/Writer_Laws.thy ===== *)
theory Writer_Laws
  imports Writer
begin

text \<open>
  The laws of the writer. \<open>winv\<close> is what every method keeps: the row store's and the log's
  invariants, the version of each metarecord equal to the one recomputed from its rows, no two
  equal values under one name of a metarecord, one value type per field name (or the name listed
  for the check at commit), and the bookkeeping of the operations written so far. \<open>wstep\<close> relates
  a writer to a later one: which operations were recorded in between, and that their snapshots
  account exactly for what changed in the content of every metarecord.
\<close>

section \<open>Data invariants\<close>

text \<open>The version a content has.\<close>

definition vers :: "(bytes \<Rightarrow> u64) \<Rightarrow> uuid \<Rightarrow> (string \<times> value) multiset \<Rightarrow> u64" where
  "vers H u c = take_bit 53 (version_base H u + terms H c)"

definition versions_ok :: "(bytes \<Rightarrow> u64) \<Rightarrow> rowstore \<Rightarrow> bool" where
  "versions_ok H s \<longleftrightarrow> (\<forall>u v. kv_version s u = Some v \<longrightarrow> v = vers H u (content s u))"

definition no_twins :: "rowstore \<Rightarrow> bool" where
  "no_twins s \<longleftrightarrow> (\<forall>u n i j r q. tget (cells s) (u, n, i) = Some r \<longrightarrow> tget (cells s) (u, n, j) = Some q \<longrightarrow>
     i \<noteq> j \<longrightarrow> \<not> value_eq (row_value r) (row_value q))"

definition only_type :: "rowstore \<Rightarrow> string \<Rightarrow> string \<Rightarrow> bool" where
  "only_type s n t \<longleftrightarrow> (\<forall>u i r. tget (cells s) (u, n, i) = Some r \<longrightarrow> row_value r = Nothing \<or> type_str (row_value r) = t)"

definition types_ok :: "writer \<Rightarrow> bool" where
  "types_ok w \<longleftrightarrow> (case w_deferred_types w of
     None \<Rightarrow> (\<forall>n. (\<exists>t. only_type (tx_rows w) n t) \<and> (\<forall>t. tget (w_types w) n = Some t \<longrightarrow> only_type (tx_rows w) n t))
   | Some d \<Rightarrow> (\<forall>n. n \<in> set d \<or> (\<exists>t. only_type (tx_rows w) n t)))"

text \<open>Whether a value may join the rows of a name.\<close>

definition type_allowed :: "writer \<Rightarrow> string \<Rightarrow> value \<Rightarrow> bool" where
  "type_allowed w n v \<longleftrightarrow> v = Nothing \<or> (case w_deferred_types w of
     None \<Rightarrow> tget (w_types w) n = Some (type_str v)
   | Some d \<Rightarrow> n \<in> set d)"

definition twinless :: "rowstore \<Rightarrow> uuid \<Rightarrow> string \<Rightarrow> value \<Rightarrow> bool" where
  "twinless s u n v \<longleftrightarrow> (\<forall>i r. tget (cells s) (u, n, i) = Some r \<longrightarrow> \<not> value_eq (row_value r) v)"

text \<open>A store with part of the cells of another.\<close>

definition part_of :: "rowstore \<Rightarrow> rowstore \<Rightarrow> bool" where
  "part_of s t \<longleftrightarrow> (\<forall>k r. tget (cells s) k = Some r \<longrightarrow> tget (cells t) k = Some r)"

lemma vers_of_rows: "of_rows H u rows = vers H u (bag rows)"
  by (simp add: of_rows_terms vers_def)

lemma vers_empty: "vers H u {#} = version_base H u"
  by (simp add: vers_def terms_def version_base_def and_MASK)

lemma vers_delta:
  assumes "c + bag after = c' + bag before"
  shows "version_apply (vers H u c) (fst (version_delta H before after)) (snd (version_delta H before after)) = vers H u c'"
proof -
  have "terms H c + terms H (bag after) = terms H c' + terms H (bag before)" by (metis assms terms_plus)
  then have "version_base H u + terms H c + terms H (bag after) - terms H (bag before) = version_base H u + terms H c'"
    by (simp add: algebra_simps)
  then show ?thesis
    by (simp only: version_apply_def version_delta_def rows_sum_terms vers_def and_MASK take53_delta fst_conv snd_conv)
qed

lemma part_of_refl [simp]: "part_of s s"
  by (simp add: part_of_def)

lemma part_of_cells: "cells s = cells t \<Longrightarrow> part_of s t"
  by (simp add: part_of_def)

lemma part_of_trans: "part_of r s \<Longrightarrow> part_of s t \<Longrightarrow> part_of r t"
  unfolding part_of_def by blast

lemma part_of_no_twins: "part_of s t \<Longrightarrow> no_twins t \<Longrightarrow> no_twins s"
  unfolding part_of_def no_twins_def by metis

lemma part_of_only_type: "part_of s t \<Longrightarrow> only_type t n ty \<Longrightarrow> only_type s n ty"
  unfolding part_of_def only_type_def by blast

lemma part_of_twinless: "part_of s t \<Longrightarrow> twinless t u n v \<Longrightarrow> twinless s u n v"
  unfolding part_of_def twinless_def by blast

lemma delete_row_part: "rows_inv H s \<Longrightarrow> part_of (delete_row H i s) s"
  by (auto simp: part_of_def delete_row_cells split: if_splits)

lemma delete_rows_part: "rows_inv H s \<Longrightarrow> part_of (delete_rows H u name s) s"
  by (auto simp: part_of_def delete_rows_cells split: if_splits)

lemma remove_metarecord_part: "rows_inv H s \<Longrightarrow> part_of (remove_metarecord H u s) s"
  by (auto simp: part_of_def remove_metarecord_def Let_def delete_rows_cells split: if_splits)

lemma insert_no_twins:
  assumes "insert_row H u n v rid s = Inr (i, t)" and "rows_inv H s" and "\<forall>j. rid = Some j \<longrightarrow> 0 < j"
    and "no_twins s" and "twinless s u n v"
  shows "no_twins t"
  using assms(4,5) insert_row_ok(5) [OF assms(1-3)] unfolding no_twins_def twinless_def
  by (auto split: if_splits dest: value_eq_sym)

lemma insert_only_type:
  assumes "insert_row H u n v rid s = Inr (i, t)" and "rows_inv H s" and "\<forall>j. rid = Some j \<longrightarrow> 0 < j"
  shows "only_type t m ty \<longleftrightarrow> only_type s m ty \<and> (m = n \<longrightarrow> v = Nothing \<or> type_str v = ty)"
proof -
  have fresh: "tget (cells s) (u, n, i) = None"
    using fresh_id [OF rows_invD(3) [OF assms(2)] insert_row_ok(7) [OF assms]] .
  have c: "tget (cells t) (w, m, j) = Some r \<longleftrightarrow> tget (cells s) (w, m, j) = Some r \<or>
      (w, m, j) = (u, n, i) \<and> r = \<lparr>row_id = i, row_name = n, row_value = v\<rparr>" for w j r
    using fresh by (auto simp: insert_row_ok(5) [OF assms])
  show ?thesis unfolding only_type_def c by (cases "m = n") auto
qed

text \<open>The value types of a field, as the store counts them.\<close>

lemma in_kv_value_types:
  assumes "rows_inv H s"
  shows "t \<in> set (kv_value_types s n) \<longleftrightarrow>
    (\<exists>u i r. tget (cells s) (u, n, i) = Some r \<and> row_value r \<noteq> Nothing \<and> type_str (row_value r) = t)"
proof -
  note I = rows_invD [OF assms]
  have o: "ordered (field_types s)" and oc: "ordered (cells s)" using I(1) by (simp_all add: ordered_tables_def)
  have "t \<in> set (kv_value_types s n) \<longleftrightarrow> tget (field_types s) (n, t) \<noteq> None"
    unfolding kv_value_types_def set_map image_iff Bex_def split_paired_Ex in_tscan [OF o] by auto
  also have "\<dots> \<longleftrightarrow> (\<exists>e\<in>set (cells s). typed n t e)"
    using I(6) by (auto simp: types_inv_def typed_count_def)
  also have "\<dots> \<longleftrightarrow> (\<exists>u i r. tget (cells s) (u, n, i) = Some r \<and> row_value r \<noteq> Nothing \<and> type_str (row_value r) = t)"
    unfolding Bex_def split_paired_Ex typed_def tget_Some_iff [OF oc] by auto
  finally show ?thesis .
qed

lemma only_type_iff: "rows_inv H s \<Longrightarrow> only_type s n t \<longleftrightarrow> set (kv_value_types s n) \<subseteq> {t}"
  unfolding only_type_def subset_iff in_kv_value_types by blast

lemma distinct_kv_value_types:
  assumes "rows_inv H s"
  shows "distinct (kv_value_types s n)"
proof -
  have "distinct (map fst (tscan (\<lambda>(m, _). m = n) (field_types s)))"
    using rows_invD(1) [OF assms] by (intro ordered_distinct tscan_ordered) (simp add: ordered_tables_def)
  then have "inj_on (\<lambda>e. snd (fst e)) (set (tscan (\<lambda>(m, _). m = n) (field_types s)))"
    by (auto simp: inj_on_def tscan_def distinct_map)
  moreover have "(\<lambda>((_, t), _). t) = (\<lambda>e :: (string \<times> string) \<times> int. snd (fst e))" by auto
  ultimately show ?thesis
    using \<open>distinct (map fst _)\<close> by (simp only: kv_value_types_def distinct_map)
qed

lemma one_type_length:
  assumes "rows_inv H s"
  shows "(\<exists>t. only_type s n t) \<longleftrightarrow> length (kv_value_types s n) \<le> 1"
proof -
  have "(\<exists>t. set ts \<subseteq> {t}) \<longleftrightarrow> length ts \<le> 1" if "distinct ts" for ts :: "string list"
    using that by (cases ts rule: remdups_adj.cases) auto
  from this [OF distinct_kv_value_types [OF assms]]
  have "(\<exists>t. set (kv_value_types s n) \<subseteq> {t}) \<longleftrightarrow> length (kv_value_types s n) \<le> 1" .
  then show ?thesis by (simp add: only_type_iff [OF assms])
qed

section \<open>The invariant of a writer\<close>

text \<open>The bookkeeping of the operations written: where they start, how many, which is last.\<close>

definition flush_ok :: "writer \<Rightarrow> bool" where
  "flush_ok w \<longleftrightarrow> (case w_first_op w of
     None \<Rightarrow> w_flushed w = 0
   | Some f \<Rightarrow> 0 < f \<and> 0 < w_flushed w \<and> f + w_flushed w = next_op (tx_log w) \<and> w_chain_head w = Some (next_op (tx_log w) - 1))"

definition label_free :: "writer \<Rightarrow> bool" where
  "label_free w \<longleftrightarrow> (w_opened w \<and> w_flushed w = 0 \<longrightarrow>
     label_first_op (tx_log w) (w_label w) = None \<and> label_children (tx_log w) (w_label w) = [])"

definition book_ok :: "writer \<Rightarrow> bool" where
  "book_ok w \<longleftrightarrow> log_inv (tx_log w) \<and> tget (labels (tx_log w)) (w_label w) \<noteq> None \<and> flush_ok w \<and> label_free w"

definition winv :: "(bytes \<Rightarrow> u64) \<Rightarrow> writer \<Rightarrow> bool" where
  "winv H w \<longleftrightarrow> rows_inv H (tx_rows w) \<and> versions_ok H (tx_rows w) \<and> no_twins (tx_rows w) \<and> types_ok w \<and> book_ok w"

text \<open>Two writers that differ in neither log nor bookkeeping.\<close>

definition same_book :: "writer \<Rightarrow> writer \<Rightarrow> bool" where
  "same_book w w' \<longleftrightarrow> tx_log w' = tx_log w \<and> w_label w' = w_label w \<and> w_opened w' = w_opened w \<and>
     w_timestamp w' = w_timestamp w \<and> w_chain_head w' = w_chain_head w \<and> w_flushed w' = w_flushed w \<and>
     w_first_op w' = w_first_op w \<and> w_pending w' = w_pending w \<and> w_retention w' = w_retention w \<and>
     w_reverting w' = w_reverting w \<and> w_origin w' = w_origin w"

text \<open>The log as it will be once the buffered operations are flushed.\<close>

definition log_after :: "writer \<Rightarrow> oplog" where
  "log_after w = snd (append_ops (w_label w) (w_timestamp w) (w_pending w) (tx_log w))"

definition rows_removed :: "uuid \<Rightarrow> NewOp list \<Rightarrow> (string \<times> value) multiset" where
  "rows_removed u os = sum_list (map (\<lambda>op. if no_entity op = u then bag (no_before op) else {#}) os)"

definition rows_added :: "uuid \<Rightarrow> NewOp list \<Rightarrow> (string \<times> value) multiset" where
  "rows_added u os = sum_list (map (\<lambda>op. if no_entity op = u then bag (no_after op) else {#}) os)"

text \<open>The operations account for what changed: what they removed and added, metarecord by metarecord.\<close>

definition accounts :: "rowstore \<Rightarrow> NewOp list \<Rightarrow> rowstore \<Rightarrow> bool" where
  "accounts s os t \<longleftrightarrow> (\<forall>u. content t u + rows_removed u os = content s u + rows_added u os)"

definition wstep :: "(bytes \<Rightarrow> u64) \<Rightarrow> writer \<Rightarrow> NewOp list \<Rightarrow> writer \<Rightarrow> bool" where
  "wstep H w os w' \<longleftrightarrow> winv H w' \<and>
     log_after w' = snd (append_ops (w_label w) (w_timestamp w) os (log_after w)) \<and>
     w_label w' = w_label w \<and> w_timestamp w' = w_timestamp w \<and> w_opened w' = w_opened w \<and>
     w_retention w' = w_retention w \<and> w_reverting w' = w_reverting w \<and> w_origin w' = w_origin w \<and>
     op_count w' = op_count w + int (length os) \<and>
     accounts (tx_rows w) os (tx_rows w')"

text \<open>The rows of one metarecord moved, the operation not recorded yet.\<close>

definition halfstep :: "(bytes \<Rightarrow> u64) \<Rightarrow> writer \<Rightarrow> uuid \<Rightarrow> FieldRow list \<Rightarrow> FieldRow list \<Rightarrow> writer \<Rightarrow> bool" where
  "halfstep H w u before after w' \<longleftrightarrow>
     rows_inv H (tx_rows w') \<and> no_twins (tx_rows w') \<and> types_ok w' \<and> same_book w w' \<and>
     (\<forall>x. x \<noteq> u \<longrightarrow> content (tx_rows w') x = content (tx_rows w) x \<and> kv_version (tx_rows w') x = kv_version (tx_rows w) x) \<and>
     content (tx_rows w') u + bag before = content (tx_rows w) u + bag after \<and>
     (\<forall>v. kv_version (tx_rows w') u = Some v \<longrightarrow> v = vers H u (content (tx_rows w) u))"

lemma winvD [dest]:
  assumes "winv H w"
  shows "rows_inv H (tx_rows w)" "versions_ok H (tx_rows w)" "no_twins (tx_rows w)" "types_ok w" "book_ok w"
  using assms by (simp_all add: winv_def)

lemma same_book_refl [simp]: "same_book w w"
  by (simp add: same_book_def)

lemma same_book_trans: "same_book a b \<Longrightarrow> same_book b c \<Longrightarrow> same_book a c"
  by (simp add: same_book_def)

lemma same_book_ok: "same_book w w' \<Longrightarrow> book_ok w' = book_ok w"
  by (simp add: same_book_def book_ok_def flush_ok_def label_free_def split: option.split)

lemma same_book_log_after: "same_book w w' \<Longrightarrow> log_after w' = log_after w"
  by (simp add: same_book_def log_after_def)

lemma put_tx_simps [simp, frame_simps]:
  "tx_rows (put_tx w s) = s" "w_types (put_tx w s) = w_types w" "w_deferred_types (put_tx w s) = w_deferred_types w"
  "w_deferred_trees (put_tx w s) = w_deferred_trees w" "same_book w (put_tx w s)" "w_lost (put_tx w s) = w_lost w"
  by (simp_all add: put_tx_def same_book_def)

lemma forget_type_simps [simp, frame_simps]:
  "tx_rows (forget_type n w) = tx_rows w" "w_deferred_types (forget_type n w) = w_deferred_types w"
  "w_deferred_trees (forget_type n w) = w_deferred_trees w" "same_book w (forget_type n w)" "w_lost (forget_type n w) = w_lost w"
  "w_types (forget_type n w) = tdel n (w_types w)"
  by (simp_all add: forget_type_def same_book_def)

lemma forget_type_ok: "types_ok w \<Longrightarrow> types_ok (forget_type n w)"
  by (auto simp: types_ok_def split: option.splits if_splits)

lemma types_ok_part: "types_ok w \<Longrightarrow> part_of s (tx_rows w) \<Longrightarrow> types_ok (put_tx w s)"
  unfolding types_ok_def by (auto split: option.splits dest: part_of_only_type) (meson part_of_only_type)+

section \<open>Appending in batches\<close>

lemma append_all_append:
  "append_all l ts i (xs @ ys) s = append_all l ts (i + int (length xs)) ys (append_all l ts i xs s)"
  by (induction l ts i xs s rule: append_all.induct) (simp_all add: algebra_simps)

lemma append_op_next: "append_op l ts i op (s\<lparr>next_op := n\<rparr>) = (append_op l ts i op s)\<lparr>next_op := n\<rparr>"
  by (rule oplog.equality) (simp_all add: append_op_def split: option.split)

lemma append_all_next: "append_all l ts i os (s\<lparr>next_op := n\<rparr>) = (append_all l ts i os s)\<lparr>next_op := n\<rparr>"
  by (induction os arbitrary: i s) (simp_all add: append_op_next)

lemma append_ops_append:
  "snd (append_ops l ts (xs @ ys) s) = snd (append_ops l ts ys (snd (append_ops l ts xs s)))"
  by (simp add: append_ops_def Let_def append_all_append append_all_next algebra_simps)

lemma append_all_next_op: "next_op (append_all l ts i os s) = next_op s"
  by (induction os arbitrary: i s) simp_all

lemma append_ops_Nil [simp]: "snd (append_ops l ts [] s) = s"
  by (simp add: append_ops_def Let_def)

section \<open>Recording an operation\<close>

lemma flush_frame [simp, frame_simps]:
  "tx_rows (flush_pending w) = tx_rows w" "w_types (flush_pending w) = w_types w"
  "w_deferred_types (flush_pending w) = w_deferred_types w" "w_deferred_trees (flush_pending w) = w_deferred_trees w"
  "w_label (flush_pending w) = w_label w" "w_opened (flush_pending w) = w_opened w"
  "w_timestamp (flush_pending w) = w_timestamp w" "w_retention (flush_pending w) = w_retention w"
  "w_reverting (flush_pending w) = w_reverting w" "w_origin (flush_pending w) = w_origin w"
  "w_pending (flush_pending w) = []" "w_lost (flush_pending w) = w_lost w"
  by (simp_all add: flush_pending_def Let_def case_prod_beta)

lemma flush_log: "tx_log (flush_pending w) = log_after w"
  by (simp add: flush_pending_def log_after_def Let_def case_prod_beta)

lemma flush_log_after [simp]: "log_after (flush_pending w) = log_after w"
  by (simp add: flush_log log_after_def [of "flush_pending w"])

lemma flush_op_count [simp]: "op_count (flush_pending w) = op_count w"
  by (simp add: op_count_def flush_pending_def Let_def case_prod_beta)

lemma flush_book_ok:
  assumes "book_ok w"
  shows "book_ok (flush_pending w)"
proof (cases "w_pending w = []")
  case True
  then show ?thesis using assms by (simp add: flush_pending_def)
next
  case False
  have l: "0 < length (w_pending w)" using False by simp
  have n: "0 < next_op (tx_log w)" using assms by (auto simp: book_ok_def)
  have "flush_ok (flush_pending w)"
    using assms l n unfolding book_ok_def flush_ok_def
    by (auto simp: flush_pending_def Let_def case_prod_beta append_ops_fst split: option.splits)
  moreover have "log_inv (log_after w)" using assms by (auto simp: log_after_def book_ok_def intro: append_ops_inv)
  moreover have "0 < w_flushed (flush_pending w)"
    using assms l unfolding book_ok_def flush_ok_def
    by (auto simp: flush_pending_def Let_def case_prod_beta split: option.splits)
  ultimately show ?thesis
    using assms by (simp add: book_ok_def flush_log label_free_def) (simp add: log_after_def)
qed

text \<open>The operation \<open>log_op\<close> buffers.\<close>

definition logged :: "(bytes \<Rightarrow> u64) \<Rightarrow> OpType \<Rightarrow> uuid \<Rightarrow> string option \<Rightarrow> u64 option \<Rightarrow> FieldRow list \<Rightarrow> FieldRow list
    \<Rightarrow> writer \<Rightarrow> NewOp" where
  "logged H ty u field vb before after w =
     \<lparr>no_type = ty, no_entity = u, no_field = field, no_version_before = vb,
      no_version_after = fst (assign_version H u before after (tx_rows w)), no_before = before, no_after = after,
      no_reverts = w_reverting w, no_origin = w_origin w\<rparr>"

definition buffered :: "(bytes \<Rightarrow> u64) \<Rightarrow> OpType \<Rightarrow> uuid \<Rightarrow> string option \<Rightarrow> u64 option \<Rightarrow> FieldRow list \<Rightarrow> FieldRow list
    \<Rightarrow> writer \<Rightarrow> writer" where
  "buffered H ty u field vb before after w =
     (let w' = observe_effects ty before after u (w\<lparr>tx_rows := snd (assign_version H u before after (tx_rows w))\<rparr>)
      in w'\<lparr>w_pending := w_pending w @ [logged H ty u field vb before after w]\<rparr>)"

lemma log_op_cases:
  "log_op H ty u field vb before after w = buffered H ty u field vb before after w \<or>
   log_op H ty u field vb before after w = flush_pending (buffered H ty u field vb before after w)"
  by (simp add: log_op_def buffered_def logged_def Let_def case_prod_beta observe_effects_def)

lemma buffered_frame:
  "tx_rows (buffered H ty u field vb before after w) = snd (assign_version H u before after (tx_rows w))"
  "w_types (buffered H ty u field vb before after w) = w_types w"
  "w_deferred_types (buffered H ty u field vb before after w) = w_deferred_types w"
  "w_deferred_trees (buffered H ty u field vb before after w) = w_deferred_trees w"
  "w_label (buffered H ty u field vb before after w) = w_label w"
  "w_opened (buffered H ty u field vb before after w) = w_opened w"
  "w_timestamp (buffered H ty u field vb before after w) = w_timestamp w"
  "w_retention (buffered H ty u field vb before after w) = w_retention w"
  "w_reverting (buffered H ty u field vb before after w) = w_reverting w"
  "w_origin (buffered H ty u field vb before after w) = w_origin w"
  "tx_log (buffered H ty u field vb before after w) = tx_log w"
  "w_flushed (buffered H ty u field vb before after w) = w_flushed w"
  "w_first_op (buffered H ty u field vb before after w) = w_first_op w"
  "w_chain_head (buffered H ty u field vb before after w) = w_chain_head w"
  "w_pending (buffered H ty u field vb before after w) = w_pending w @ [logged H ty u field vb before after w]"
  "w_lost (buffered H ty u field vb before after w) = foldl (observe_lost ty u) (w_lost w) before"
  by (simp_all add: buffered_def observe_effects_def Let_def)

lemma log_op_frame [simp, frame_simps]:
  "tx_rows (log_op H ty u field vb before after w) = snd (assign_version H u before after (tx_rows w))"
  "w_types (log_op H ty u field vb before after w) = w_types w"
  "w_deferred_types (log_op H ty u field vb before after w) = w_deferred_types w"
  "w_deferred_trees (log_op H ty u field vb before after w) = w_deferred_trees w"
  "w_label (log_op H ty u field vb before after w) = w_label w"
  "w_opened (log_op H ty u field vb before after w) = w_opened w"
  "w_timestamp (log_op H ty u field vb before after w) = w_timestamp w"
  "w_retention (log_op H ty u field vb before after w) = w_retention w"
  "w_reverting (log_op H ty u field vb before after w) = w_reverting w"
  "w_origin (log_op H ty u field vb before after w) = w_origin w"
  "w_lost (log_op H ty u field vb before after w) = foldl (observe_lost ty u) (w_lost w) before"
  using log_op_cases [of H ty u field vb before after w] by (auto simp: buffered_frame)

lemma log_op_log_after:
  "log_after (log_op H ty u field vb before after w) =
     snd (append_ops (w_label w) (w_timestamp w) [logged H ty u field vb before after w] (log_after w))"
proof -
  have "log_after (buffered H ty u field vb before after w) =
      snd (append_ops (w_label w) (w_timestamp w) [logged H ty u field vb before after w] (log_after w))"
    by (simp add: log_after_def buffered_frame append_ops_append)
  then show ?thesis using log_op_cases [of H ty u field vb before after w] by auto
qed

lemma log_op_count: "op_count (log_op H ty u field vb before after w) = op_count w + 1"
proof -
  have "op_count (buffered H ty u field vb before after w) = op_count w + 1"
    by (simp add: op_count_def buffered_frame)
  then show ?thesis using log_op_cases [of H ty u field vb before after w] by auto
qed

lemma log_op_book_ok: "book_ok w \<Longrightarrow> book_ok (log_op H ty u field vb before after w)"
proof -
  assume "book_ok w"
  then have "book_ok (buffered H ty u field vb before after w)"
    by (simp add: book_ok_def flush_ok_def label_free_def buffered_frame split: option.splits)
  then show ?thesis using log_op_cases [of H ty u field vb before after w] flush_book_ok by auto
qed

lemma assign_version_frame [simp]:
  "cells (snd (assign_version H u before after s)) = cells s"
  "field_types (snd (assign_version H u before after s)) = field_types s"
  "next_row (snd (assign_version H u before after s)) = next_row s"
  by (simp_all add: assign_version_def Let_def case_prod_beta split: option.split)

lemma assign_version_inv: "rows_inv H s \<Longrightarrow> rows_inv H (snd (assign_version H u before after s))"
  by (simp add: assign_version_def Let_def case_prod_beta rows_inv_version split: option.split)

lemma kv_version_assign:
  "kv_version (snd (assign_version H u before after s)) x =
     (if x = u then fst (assign_version H u before after s) else kv_version s x)"
  by (auto simp: assign_version_def Let_def case_prod_beta split: option.split)

lemma content_assign [simp]: "content (snd (assign_version H u before after s)) x = content s x"
  by (rule content_frame) simp

lemma types_ok_frame:
  "types_ok w \<Longrightarrow> cells (tx_rows w') = cells (tx_rows w) \<Longrightarrow> w_types w' = w_types w \<Longrightarrow>
   w_deferred_types w' = w_deferred_types w \<Longrightarrow> types_ok w'"
proof -
  assume a: "types_ok w" "cells (tx_rows w') = cells (tx_rows w)" "w_types w' = w_types w" "w_deferred_types w' = w_deferred_types w"
  have "only_type (tx_rows w') = only_type (tx_rows w)" by (simp add: only_type_def a(2) fun_eq_iff)
  then show "types_ok w'" using a(1) by (simp only: types_ok_def a(3,4))
qed

text \<open>Recording what a half step moved makes it a step.\<close>

lemma log_op_wstep:
  assumes inv: "winv H w" and half: "halfstep H w u before after w1"
  shows "wstep H w [logged H ty u field vb before after w1] (log_op H ty u field vb before after w1)"
proof -
  note Hs = half [unfolded halfstep_def]
  let ?s = "tx_rows w1" and ?w = "log_op H ty u field vb before after w1"
  have sb: "same_book w w1" using Hs by blast
  have book: "book_ok w1" using sb inv same_book_ok by blast
  have "versions_ok H (snd (assign_version H u before after ?s))"
    unfolding versions_ok_def
  proof (intro allI impI)
    fix x v assume v: "kv_version (snd (assign_version H u before after ?s)) x = Some v"
    show "v = vers H x (content (snd (assign_version H u before after ?s)) x)"
    proof (cases "x = u")
      case False
      then have "kv_version (tx_rows w) x = Some v" using v Hs by (simp add: kv_version_assign)
      then have "v = vers H x (content (tx_rows w) x)" using winvD(2) [OF inv] unfolding versions_ok_def by blast
      then show ?thesis using Hs False by simp
    next
      case True
      then have "fst (assign_version H u before after ?s) = Some v" using v by (simp add: kv_version_assign)
      then obtain c where c: "kv_version ?s u = Some c"
        and a: "v = version_apply c (fst (version_delta H before after)) (snd (version_delta H before after))"
        by (auto simp: assign_version_def Let_def case_prod_beta split: option.splits)
      have "c = vers H u (content (tx_rows w) u)" using c Hs by blast
      then show ?thesis
        using a vers_delta [of "content (tx_rows w) u" after "content ?s u" before H u] Hs True by simp
    qed
  qed
  moreover have "no_twins (snd (assign_version H u before after ?s))"
    using Hs part_of_no_twins part_of_cells assign_version_frame(1) by blast
  moreover have "types_ok ?w" by (rule types_ok_frame [of w1]) (use Hs in simp_all)
  moreover have "rows_inv H (snd (assign_version H u before after ?s))" using Hs assign_version_inv by blast
  ultimately have "winv H ?w"
    using log_op_book_ok [OF book] unfolding winv_def log_op_frame by blast
  moreover have "log_after ?w = snd (append_ops (w_label w) (w_timestamp w) [logged H ty u field vb before after w1] (log_after w))"
    using sb same_book_log_after [OF sb] by (simp add: log_op_log_after same_book_def)
  moreover have "op_count ?w = op_count w + 1"
    unfolding log_op_count using sb by (simp add: op_count_def same_book_def)
  moreover have "content (tx_rows ?w) x + rows_removed x [logged H ty u field vb before after w1] =
      content (tx_rows w) x + rows_added x [logged H ty u field vb before after w1]" for x
    using Hs by (cases "x = u") (simp_all add: rows_removed_def rows_added_def logged_def)
  ultimately show ?thesis
    using sb by (simp add: wstep_def accounts_def same_book_def)
qed

lemma accounts_trans:
  assumes "accounts a os b" and "accounts b ps c"
  shows "accounts a (os @ ps) c"
  unfolding accounts_def
proof
  fix u
  have "content c u + rows_removed u (os @ ps) + content b u =
      (content b u + rows_removed u os) + (content c u + rows_removed u ps)"
    by (simp add: rows_removed_def)
  also have "\<dots> = (content a u + rows_added u os) + (content b u + rows_added u ps)"
    using assms by (simp add: accounts_def)
  also have "\<dots> = content a u + rows_added u (os @ ps) + content b u"
    by (simp add: rows_added_def)
  finally show "content c u + rows_removed u (os @ ps) = content a u + rows_added u (os @ ps)" by simp
qed

lemma accounts_Nil [simp]: "accounts s [] s"
  by (simp add: accounts_def rows_removed_def rows_added_def)

lemma wstep_trans: "wstep H a os b \<Longrightarrow> wstep H b ps c \<Longrightarrow> wstep H a (os @ ps) c"
  using accounts_trans by (simp add: wstep_def append_ops_append) blast

text \<open>Changes to the caches and the deferred checks are no step at all.\<close>

lemma wstep_still:
  assumes "winv H w" and "tx_rows w' = tx_rows w" and "same_book w w'" and "types_ok w'"
  shows "wstep H w [] w'"
proof -
  have "book_ok w'" using assms same_book_ok by blast
  then show ?thesis
    using assms same_book_log_after [OF assms(3)]
    by (simp add: wstep_def winv_def op_count_def same_book_def)
qed

lemma wstep_winv: "wstep H w os w' \<Longrightarrow> winv H w'"
  by (simp add: wstep_def)

lemma wstep_forget: "wstep H w os w' \<Longrightarrow> wstep H w os (forget_type n w')"
  using wstep_trans [of H w os w' "[]" "forget_type n w'"] wstep_still [of H w' "forget_type n w'"]
    forget_type_ok wstep_winv by fastforce

section \<open>Checks leave the data alone\<close>

lemma validate_tree_ref_ok:
  assumes "validate_tree_ref u n v w = Inr w'"
  shows "tx_rows w' = tx_rows w" "same_book w w'" "w_types w' = w_types w" "w_deferred_types w' = w_deferred_types w"
    "w_lost w' = w_lost w" "type_allowed w' m x = type_allowed w m x" "types_ok w' = types_ok w"
proof -
  show a: "tx_rows w' = tx_rows w" "same_book w w'" "w_types w' = w_types w" "w_deferred_types w' = w_deferred_types w"
    "w_lost w' = w_lost w"
    using assms by (auto simp: validate_tree_ref_def same_book_def bindE_eq_Inr split: option.splits if_splits)
  show "type_allowed w' m x = type_allowed w m x" "types_ok w' = types_ok w"
    by (simp_all only: type_allowed_def types_ok_def a)
qed

lemma value_type_encode_type: "value_type (encode_value v) = type_str v"
  by (rule value_type_encode)

lemma validate_value_type_ok:
  assumes "validate_value_type n v w = Inr w'"
  shows "tx_rows w' = tx_rows w" "same_book w w'" "w_deferred_trees w' = w_deferred_trees w" "w_lost w' = w_lost w"
    "type_allowed w' n v" "type_allowed w m x \<Longrightarrow> type_allowed w' m x"
  using assms
  by (auto simp: validate_value_type_def same_book_def type_allowed_def Let_def value_type_encode
      split: option.splits if_splits list.splits)

lemma validate_value_type_types:
  assumes "validate_value_type n v w = Inr w'" and "types_ok w" and "rows_inv H (tx_rows w)"
  shows "types_ok w'"
proof (cases "w_deferred_types w")
  case (Some d)
  then show ?thesis using assms by (auto simp: validate_value_type_def types_ok_def split: if_splits)
next
  case None
  have cons: "only_type (tx_rows w) n (type_str v)" if "kv_value_types (tx_rows w) n = type_str v # ts" for ts
  proof -
    obtain t where "only_type (tx_rows w) n t" using assms(2) None by (auto simp: types_ok_def)
    then show ?thesis using that only_type_iff [OF assms(3), of n] by simp
  qed
  have nil: "only_type (tx_rows w) n (type_str v)" if "kv_value_types (tx_rows w) n = []"
    using that only_type_iff [OF assms(3), of n] by simp
  have "w' = w \<or> w' = w\<lparr>w_types := tput n (type_str v) (w_types w)\<rparr> \<and>
      (kv_value_types (tx_rows w) n = [] \<or> (\<exists>ts. kv_value_types (tx_rows w) n = type_str v # ts))"
    using assms(1) None
    by (auto simp: validate_value_type_def Let_def value_type_encode split: if_splits option.splits list.splits)
  then consider "w' = w" | "w' = w\<lparr>w_types := tput n (type_str v) (w_types w)\<rparr>" "only_type (tx_rows w) n (type_str v)"
    using cons nil by blast
  then show ?thesis
    using assms(2) None by cases (simp_all add: types_ok_def)
qed

section \<open>Half steps\<close>

lemma winv_version: "winv H w \<Longrightarrow> kv_version (tx_rows w) u = Some v \<Longrightarrow> v = vers H u (content (tx_rows w) u)"
  using winvD(2) unfolding versions_ok_def by blast

lemma bag_filter_named:
  "filter_mset (\<lambda>(n, _). \<not> named (Some name) n) c + filter_mset (\<lambda>(m, _). m = name) c = (c :: (string \<times> value) multiset)"
proof -
  have "(\<lambda>(m, _). m = name) = (\<lambda>x :: string \<times> value. \<not> (case x of (n, _) \<Rightarrow> \<not> named (Some name) n))"
    by (auto simp: named_def fun_eq_iff)
  then show ?thesis by (metis multiset_partition)
qed

lemma halfstep_delete_named:
  assumes "winv H w"
  shows "halfstep H w u (kv_rows_named (tx_rows w) u name) [] (put_tx w (delete_rows H u (Some name) (tx_rows w)))"
proof -
  note I = winvD [OF assms]
  have "content (delete_rows H u (Some name) (tx_rows w)) u + bag (kv_rows_named (tx_rows w) u name) = content (tx_rows w) u"
    by (simp add: content_delete_rows [OF I(1)] bag_rows_named [OF I(1)] bag_filter_named)
  moreover have "kv_version (delete_rows H u (Some name) (tx_rows w)) x = kv_version (tx_rows w) x" for x
    by (simp add: kv_version_def I(1))
  ultimately show ?thesis
    using delete_rows_inv [OF I(1)] part_of_no_twins [OF delete_rows_part [OF I(1)] I(3)]
      types_ok_part [OF I(4) delete_rows_part [OF I(1)]] winv_version [OF assms]
    by (simp add: halfstep_def content_delete_rows [OF I(1)])
qed

lemma halfstep_delete_all:
  assumes "winv H w"
  shows "halfstep H w u (kv_rows (tx_rows w) u) [] (put_tx w (delete_rows H u None (tx_rows w)))"
proof -
  note I = winvD [OF assms]
  have "kv_version (delete_rows H u None (tx_rows w)) x = kv_version (tx_rows w) x" for x
    by (simp add: kv_version_def I(1))
  then show ?thesis
    using delete_rows_inv [OF I(1)] part_of_no_twins [OF delete_rows_part [OF I(1)] I(3)]
      types_ok_part [OF I(4) delete_rows_part [OF I(1)]] winv_version [OF assms]
    by (simp add: halfstep_def content_delete_rows [OF I(1)] named_def case_prod_beta flip: content_def)
qed

lemma halfstep_remove:
  assumes "winv H w"
  shows "halfstep H w u (kv_rows (tx_rows w) u) [] (put_tx w (remove_metarecord H u (tx_rows w)))"
proof -
  note I = winvD [OF assms]
  show ?thesis
    using remove_metarecord_ok [OF I(1)] part_of_no_twins [OF remove_metarecord_part [OF I(1)] I(3)]
      types_ok_part [OF I(4) remove_metarecord_part [OF I(1)]]
    by (simp add: halfstep_def flip: content_def)
qed

lemma halfstep_create:
  assumes "winv H w" and "create_metarecord_row u (version_base H u) (tx_rows w) = Inr s"
  shows "halfstep H w u [] [] (put_tx w s)"
proof -
  note I = winvD [OF assms(1)] and C = create_metarecord_row_ok [OF assms(2) winvD(1) [OF assms(1)]]
  have "content (tx_rows w) u = {#}" using content_no_record(1) [OF I(1)] C(2) by simp
  then show ?thesis
    using C part_of_no_twins [OF part_of_cells I(3)] types_ok_part [OF I(4) part_of_cells]
    by (simp add: halfstep_def vers_empty)
qed

lemma halfstep_delete_row:
  assumes "winv H w" and "r \<in> set (kv_rows (tx_rows w) u)"
  shows "halfstep H w u [r] [] (put_tx w (delete_row H (row_id r) (tx_rows w)))"
proof -
  note I = winvD [OF assms(1)]
  note D = delete_row_ok [OF kv_row_of_rows [OF I(1) assms(2)] I(1)]
  have "kv_version (delete_row H (row_id r) (tx_rows w)) x = kv_version (tx_rows w) x" for x by (simp add: kv_version_def)
  moreover have "content (delete_row H (row_id r) (tx_rows w)) u + bag [r] = content (tx_rows w) u"
    using D(5) [of u] by simp
  moreover have "x \<noteq> u \<Longrightarrow> content (delete_row H (row_id r) (tx_rows w)) x = content (tx_rows w) x" for x
    using D(5) [of x] by simp
  ultimately show ?thesis
    using D(1) part_of_no_twins [OF delete_row_part [OF I(1)] I(3)]
      types_ok_part [OF I(4) delete_row_part [OF I(1)]] winv_version [OF assms(1)]
    by (simp add: halfstep_def)
qed

text \<open>A half step goes on with a change of caches, or with one more row.\<close>

lemma halfstep_same:
  assumes "halfstep H w u before after w1" and "tx_rows w2 = tx_rows w1" and "same_book w1 w2" and "types_ok w2"
  shows "halfstep H w u before after w2"
  using assms same_book_trans unfolding halfstep_def by metis

lemma halfstep_insert:
  assumes half: "halfstep H w u before after w1" and ins: "tx_insert H u n v rid w1 = Inr (row, w2)"
    and rid: "\<forall>j. rid = Some j \<longrightarrow> 0 < j" and ty: "type_allowed w1 n v" and tw: "twinless (tx_rows w1) u n v"
  shows "halfstep H w u before (after @ [row]) w2" "row = \<lparr>row_id = row_id row, row_name = n, row_value = v\<rparr>"
proof -
  note Hs = half [unfolded halfstep_def]
  obtain i s where s: "insert_row H u n v rid (tx_rows w1) = Inr (i, s)"
    and row: "row = \<lparr>row_id = i, row_name = n, row_value = v\<rparr>" and w2: "w2 = put_tx w1 s"
    using ins by (auto simp: tx_insert_def bindE_eq_Inr)
  have inv: "rows_inv H (tx_rows w1)" and twins: "no_twins (tx_rows w1)" and types: "types_ok w1" using Hs by blast+
  note K = insert_row_ok [OF s inv rid]
  have "types_ok w2"
  proof (cases "w_deferred_types w1")
    case None
    have "only_type (tx_rows w1) n (type_str v)" if "v \<noteq> Nothing"
      using ty types None that by (auto simp: type_allowed_def types_ok_def)
    then show ?thesis
      using types ty None unfolding w2 types_ok_def put_tx_simps insert_only_type [OF s inv rid] type_allowed_def
      by (auto split: option.splits)
  next
    case (Some d)
    then show ?thesis
      using types ty unfolding w2 types_ok_def put_tx_simps insert_only_type [OF s inv rid] type_allowed_def
      by (auto split: option.splits)
  qed
  moreover have "no_twins s" by (rule insert_no_twins [OF s inv rid twins tw])
  moreover have "kv_version s x = kv_version (tx_rows w1) x" for x by (simp add: kv_version_def K(2))
  moreover have "same_book w w2" using Hs same_book_trans put_tx_simps(5) w2 by blast
  ultimately show "halfstep H w u before (after @ [row]) w2"
    using Hs K(1,6) by (simp add: halfstep_def w2 row)
  show "row = \<lparr>row_id = row_id row, row_name = n, row_value = v\<rparr>" by (simp add: row)
qed

section \<open>Loops of insertions\<close>

definition pair_of :: "FieldRow \<Rightarrow> string \<times> value" where
  "pair_of r = (row_name r, row_value r)"

definition twin :: "string \<times> value \<Rightarrow> string \<times> value \<Rightarrow> bool" where
  "twin a b \<longleftrightarrow> fst a = fst b \<and> value_eq (snd a) (snd b)"

lemma bag_pairs: "bag rows = mset (map pair_of rows)"
  by (simp add: bag_def pair_of_def [abs_def])

text \<open>The rows of \<open>u\<close> under the names being rewritten are those inserted so far.\<close>

definition loop_inv ::
    "(bytes \<Rightarrow> u64) \<Rightarrow> writer \<Rightarrow> uuid \<Rightarrow> FieldRow list \<Rightarrow> string set \<Rightarrow> FieldRow list \<times> writer \<Rightarrow> bool" where
  "loop_inv H w u before N acc \<longleftrightarrow> halfstep H w u before (fst acc) (snd acc) \<and>
     (\<forall>n i r. n \<in> N \<longrightarrow> tget (cells (tx_rows (snd acc))) (u, n, i) = Some r \<longrightarrow> r \<in> set (fst acc))"

lemma loop_inv_same:
  assumes "loop_inv H w u before N (after, w1)" and "tx_rows w2 = tx_rows w1" and "same_book w1 w2" and "types_ok w2"
  shows "loop_inv H w u before N (after, w2)"
  using assms halfstep_same [of H w u before after w1 w2] by (simp add: loop_inv_def)

lemma loop_inv_insert:
  assumes loop: "loop_inv H w u before N (after, w1)" and ins: "tx_insert H u n v None w1 = Inr (row, w2)"
    and n: "n \<in> N" and ty: "type_allowed w1 n v"
    and tw: "\<forall>r\<in>set after. row_name r = n \<longrightarrow> \<not> value_eq (row_value r) v"
  shows "loop_inv H w u before N (after @ [row], w2)" "pair_of row = (n, v)"
proof -
  have half: "halfstep H w u before after w1" using loop by (simp add: loop_inv_def)
  then have inv: "rows_inv H (tx_rows w1)" by (simp add: halfstep_def)
  have "twinless (tx_rows w1) u n v"
    unfolding twinless_def
  proof (intro allI impI)
    fix i r assume r: "tget (cells (tx_rows w1)) (u, n, i) = Some r"
    then have "row_name r = n" using rows_invD(2) [OF inv] unfolding cells_inv_def by blast
    moreover have "r \<in> set after" using loop n r unfolding loop_inv_def by auto
    ultimately show "\<not> value_eq (row_value r) v" using tw by blast
  qed
  note K = halfstep_insert [OF half ins _ ty this]
  obtain i s where s: "insert_row H u n v None (tx_rows w1) = Inr (i, s)"
    and row: "row = \<lparr>row_id = i, row_name = n, row_value = v\<rparr>" and w2: "w2 = put_tx w1 s"
    using ins by (auto simp: tx_insert_def bindE_eq_Inr)
  show "pair_of row = (n, v)" by (simp add: row pair_of_def)
  have "r \<in> set (after @ [row])" if "m \<in> N" "tget (cells (tx_rows w2)) (u, m, j) = Some r" for m j r
    using that loop insert_row_ok(5) [OF s inv] unfolding loop_inv_def w2 row by (auto split: if_splits)
  then show "loop_inv H w u before N (after @ [row], w2)" using K(1) by (simp add: loop_inv_def)
qed

lemma insert_loop:
  assumes "foldE step xs acc = Inr acc'" and "loop_inv H w u before N acc" and "Q (snd acc)"
    and "twin_free twin (map pair_of (fst acc) @ map pr xs)"
    and step: "\<And>x a b. x \<in> set xs \<Longrightarrow> loop_inv H w u before N a \<Longrightarrow> Q (snd a) \<Longrightarrow> step x a = Inr b \<Longrightarrow>
      \<forall>r\<in>set (fst a). row_name r = fst (pr x) \<longrightarrow> \<not> value_eq (row_value r) (snd (pr x)) \<Longrightarrow>
      loop_inv H w u before N b \<and> Q (snd b) \<and> (\<exists>row. fst b = fst a @ [row] \<and> pair_of row = pr x)"
  shows "loop_inv H w u before N acc' \<and> Q (snd acc') \<and> map pair_of (fst acc') = map pair_of (fst acc) @ map pr xs"
  using assms
proof (induction xs arbitrary: acc)
  case Nil
  then show ?case by simp
next
  case (Cons x xs)
  obtain b where b: "step x acc = Inr b" and rest: "foldE step xs b = Inr acc'"
    using Cons.prems(1) by (auto simp: bindE_eq_Inr)
  have "\<forall>r\<in>set (fst acc). row_name r = fst (pr x) \<longrightarrow> \<not> value_eq (row_value r) (snd (pr x))"
  proof -
    have "twin_free twin (map pair_of (fst acc) @ [pr x])"
      using Cons.prems(4) twin_free_append_prefix by (metis append.assoc append_Cons append_Nil list.simps(9))
    then show ?thesis by (auto simp: twin_free_snoc twin_def pair_of_def)
  qed
  then have b': "loop_inv H w u before N b" "Q (snd b)" "\<exists>row. fst b = fst acc @ [row] \<and> pair_of row = pr x"
    using Cons.prems(5) [OF list.set_intros(1) Cons.prems(2,3) b] by blast+
  then have pairs: "map pair_of (fst b) = map pair_of (fst acc) @ [pr x]" by auto
  have "twin_free twin (map pair_of (fst b) @ map pr xs)" using Cons.prems(4) by (simp add: pairs)
  then have "loop_inv H w u before N acc' \<and> Q (snd acc') \<and> map pair_of (fst acc') = map pair_of (fst b) @ map pr xs"
    by (rule Cons.IH [OF rest b'(1,2)]) (rule Cons.prems(5), simp_all only: list.set_intros)
  then show ?case by (simp add: pairs)
qed

section \<open>The methods\<close>

lemma current_version_iff [simp]: "current_version w u = Inr v \<longleftrightarrow> kv_version (tx_rows w) u = Some v"
  by (simp add: current_version_def)

lemma twinless_deleted: "rows_inv H s \<Longrightarrow> twinless (delete_rows H u (Some n) s) u n v"
  by (simp add: twinless_def delete_rows_cells named_def)

lemma type_allowed_put_tx [simp]: "type_allowed (put_tx w s) n v = type_allowed w n v"
  by (simp only: type_allowed_def put_tx_simps)

lemma clear_field_as_step:
  assumes "winv H w" and "clear_field_as H ty u name w = Inr w'"
  shows "(w' = w \<and> kv_rows_named (tx_rows w) u name = []) \<or>
    (\<exists>op. wstep H w [op] w' \<and> no_type op = ty \<and> no_entity op = u \<and> no_field op = Some name \<and>
       no_before op = kv_rows_named (tx_rows w) u name \<and> no_after op = [] \<and> no_reverts op = w_reverting w)"
proof (cases "kv_rows_named (tx_rows w) u name = []")
  case True
  then show ?thesis using assms(2) by (simp add: clear_field_as_def)
next
  case False
  let ?w1 = "put_tx w (delete_rows H u (Some name) (tx_rows w))"
  obtain v where w': "w' = forget_type name (log_op H ty u (Some name) (Some v) (kv_rows_named (tx_rows w) u name) [] ?w1)"
    using assms(2) False by (auto simp: clear_field_as_def Let_def bindE_eq_Inr)
  have "wstep H w [logged H ty u (Some name) (Some v) (kv_rows_named (tx_rows w) u name) [] ?w1] w'"
    unfolding w' by (intro wstep_forget log_op_wstep [OF assms(1)] halfstep_delete_named [OF assms(1)])
  then show ?thesis by (auto simp: logged_def put_tx_def)
qed

lemma delete_metarecord_step:
  assumes "winv H w" and "delete_metarecord H u w = Inr w'"
  shows "\<exists>op. wstep H w [op] w' \<and> no_type op = DeleteRecord \<and> no_entity op = u \<and> no_field op = None \<and>
       no_before op = kv_rows (tx_rows w) u \<and> no_after op = [] \<and> no_reverts op = w_reverting w"
    "kv_version (tx_rows w') u = None" "kv_version (tx_rows w) u \<noteq> None"
proof -
  let ?w1 = "put_tx w (remove_metarecord H u (tx_rows w))"
  obtain v where w': "w' = log_op H DeleteRecord u None (Some v) (kv_rows (tx_rows w) u) [] ?w1"
    and v: "kv_version (tx_rows w) u = Some v"
    using assms(2) by (auto simp: delete_metarecord_def Let_def bindE_eq_Inr split: if_splits)
  have "wstep H w [logged H DeleteRecord u None (Some v) (kv_rows (tx_rows w) u) [] ?w1] w'"
    unfolding w' by (intro log_op_wstep [OF assms(1)] halfstep_remove [OF assms(1)])
  then show "\<exists>op. wstep H w [op] w' \<and> no_type op = DeleteRecord \<and> no_entity op = u \<and> no_field op = None \<and>
       no_before op = kv_rows (tx_rows w) u \<and> no_after op = [] \<and> no_reverts op = w_reverting w"
    by (auto simp: logged_def put_tx_def)
  show "kv_version (tx_rows w') u = None"
    using remove_metarecord_ok(2) [OF winvD(1) [OF assms(1)], of u u]
    by (simp add: w' kv_version_assign assign_version_def)
  show "kv_version (tx_rows w) u \<noteq> None" using v by simp
qed

lemma tx_insert_ok:
  assumes "tx_insert H u n v rid w = Inr (row, w')"
  shows "pair_of row = (n, v)" "same_book w w'" "w_types w' = w_types w" "w_deferred_types w' = w_deferred_types w"
    "w_deferred_trees w' = w_deferred_trees w" "w_lost w' = w_lost w" "type_allowed w' m x = type_allowed w m x"
proof -
  obtain i s where w': "w' = put_tx w s" and row: "row = \<lparr>row_id = i, row_name = n, row_value = v\<rparr>"
    using assms by (auto simp: tx_insert_def bindE_eq_Inr)
  show "pair_of row = (n, v)" by (simp add: row pair_of_def)
  show "same_book w w'" "w_types w' = w_types w" "w_deferred_types w' = w_deferred_types w"
    "w_deferred_trees w' = w_deferred_trees w" "w_lost w' = w_lost w" "type_allowed w' m x = type_allowed w m x"
    by (simp_all add: w')
qed

text \<open>The two checks before a value is written.\<close>

lemma checked:
  assumes "winv H w" and a: "validate_tree_ref u name v w = Inr wa" and b: "validate_value_type name v wa = Inr wb"
  shows "wstep H w [] wb" "winv H wb" "tx_rows wb = tx_rows w" "same_book w wb" "type_allowed wb name v"
    "type_allowed w m x \<Longrightarrow> type_allowed wb m x" "w_lost wb = w_lost w"
proof -
  note A = validate_tree_ref_ok [OF a] and B = validate_value_type_ok [OF b]
  show still: "wstep H w [] wb"
    using assms(1) A B validate_value_type_types [OF b] same_book_trans [OF A(2) B(2)] wstep_still winvD by metis
  then show "winv H wb" by (rule wstep_winv)
  show "tx_rows wb = tx_rows w" "same_book w wb" "type_allowed wb name v" "w_lost wb = w_lost w"
    using A B same_book_trans by auto
  show "type_allowed w m x \<Longrightarrow> type_allowed wb m x" using A(6) B(6) by blast
qed

lemma set_field_as_step:
  assumes "winv H w" and "set_field_as H ty u name v w = Inr w'"
  shows "\<exists>op row. wstep H w [op] w' \<and> no_type op = ty \<and> no_entity op = u \<and> no_field op = Some name \<and>
       no_before op = kv_rows_named (tx_rows w) u name \<and> no_after op = [row] \<and> pair_of row = (name, v) \<and>
       no_reverts op = w_reverting w"
proof -
  obtain wa wb vb row wd where a: "validate_tree_ref u name v w = Inr wa" and b: "validate_value_type name v wa = Inr wb"
    and vb: "kv_version (tx_rows wb) u = Some vb"
    and d: "tx_insert H u name v None (put_tx wb (delete_rows H u (Some name) (tx_rows wb))) = Inr (row, wd)"
    and w': "w' = (if v = Nothing then forget_type name else id)
        (log_op H ty u (Some name) (Some vb) (kv_rows_named (tx_rows wb) u name) [row] wd)"
    using assms(2) by (auto simp: set_field_as_def Let_def bindE_eq_Inr split: if_splits)
  note C = checked [OF assms(1) a b]
  note still = C(1) and inv = C(2) and tx = C(3)
  have "halfstep H wb u (kv_rows_named (tx_rows wb) u name) ([] @ [row]) wd"
    by (rule halfstep_insert [OF halfstep_delete_named [OF inv] d])
      (simp_all add: C(5) twinless_deleted winvD(1) [OF inv])
  then have "wstep H wb [logged H ty u (Some name) (Some vb) (kv_rows_named (tx_rows wb) u name) [row] wd] w'"
    unfolding w' using log_op_wstep [OF inv] wstep_forget by (cases "v = Nothing") simp_all
  moreover have "pair_of row = (name, v)" "w_reverting wd = w_reverting w"
    using tx_insert_ok(1,2) [OF d] C(4) by (simp_all add: same_book_def put_tx_def)
  ultimately show ?thesis
    using wstep_trans [OF still] tx
    by (intro exI [of _ "logged H ty u (Some name) (Some vb) (kv_rows_named (tx_rows wb) u name) [row] wd"] exI [of _ row])
      (simp_all add: logged_def)
qed

lemma append_field_step:
  assumes "winv H w" and "append_field H u name v w = Inr (res, w')"
  shows "(\<exists>i r. res = AlreadyPresent i \<and> wstep H w [] w' \<and> r \<in> set (kv_rows_named (tx_rows w) u name) \<and>
       row_id r = i \<and> value_eq (row_value r) v) \<or>
    (\<exists>op row. res = Created (row_id row) \<and> wstep H w [op] w' \<and> no_type op = AppendField \<and> no_entity op = u \<and>
       no_field op = Some name \<and> no_before op = [] \<and> no_after op = [row] \<and> pair_of row = (name, v) \<and>
       no_reverts op = w_reverting w \<and> twinless (tx_rows w) u name v)"
proof -
  obtain wa wb where a: "validate_tree_ref u name v w = Inr wa" and b: "validate_value_type name v wa = Inr wb"
    and rest: "(case List.find (\<lambda>r. value_eq (row_value r) v) (kv_rows_named (tx_rows wb) u name) of
         Some r \<Rightarrow> Inr (AlreadyPresent (row_id r), wb)
       | None \<Rightarrow>
           bindE (current_version wb u) (\<lambda>version_before.
           bindE (tx_insert H u name v None wb) (\<lambda>(row, w).
             Inr (Created (row_id row),
                  log_op H AppendField u (Some name) (Some version_before) [] [row] w)))) = Inr (res, w')"
    using assms(2) by (auto simp: append_field_def bindE_eq_Inr)
  note C = checked [OF assms(1) a b]
  note still = C(1) and inv = C(2) and tx = C(3)
  show ?thesis
  proof (cases "List.find (\<lambda>r. value_eq (row_value r) v) (kv_rows_named (tx_rows wb) u name)")
    case (Some r)
    then show ?thesis using rest still find_Some_in [OF Some] tx by auto
  next
    case None
    then obtain vb row wd where vb: "kv_version (tx_rows wb) u = Some vb" and d: "tx_insert H u name v None wb = Inr (row, wd)"
      and res: "res = Created (row_id row)" and w': "w' = log_op H AppendField u (Some name) (Some vb) [] [row] wd"
      using rest by (auto simp: bindE_eq_Inr)
    have tw: "twinless (tx_rows wb) u name v"
      using None in_kv_rows_named [OF winvD(1) [OF inv], of _ u name] rows_invD(2) [OF winvD(1) [OF inv]]
      unfolding find_None_iff_all twinless_def cells_inv_def by metis
    have "halfstep H wb u [] ([] @ [row]) wd"
      by (rule halfstep_insert [OF _ d _ C(5) tw])
        (use inv winv_version [OF inv] in \<open>auto simp: halfstep_def\<close>)
    then have "wstep H wb [logged H AppendField u (Some name) (Some vb) [] [row] wd] w'"
      unfolding w' using log_op_wstep [OF inv] by simp
    moreover have "pair_of row = (name, v)" "w_reverting wd = w_reverting w"
      using tx_insert_ok(1,2) [OF d] C(4) by (simp_all add: same_book_def put_tx_def)
    ultimately show ?thesis
      using wstep_trans [OF still] tx tw res
      by (intro disjI2 exI [of _ "logged H AppendField u (Some name) (Some vb) [] [row] wd"] exI [of _ row])
        (simp_all add: logged_def)
  qed
qed

text \<open>Collapsing keeps the first of each group of equal values, and points every value at it.\<close>

lemma find_index_None: "find_index p xs = None \<longleftrightarrow> (\<forall>x\<in>set xs. \<not> p x)"
  by (induction xs) auto

lemma find_index_Some: "find_index p xs = Some i \<Longrightarrow> i < length xs \<and> p (xs ! i)"
  by (induction xs arbitrary: i) (auto split: if_splits)

definition covers :: "value list \<times> nat list \<Rightarrow> value list \<Rightarrow> bool" where
  "covers acc vs \<longleftrightarrow> length (snd acc) = length vs \<and> (\<forall>k<length vs. snd acc ! k < length (fst acc) \<and>
     (fst acc ! (snd acc ! k) = vs ! k \<or> value_eq (fst acc ! (snd acc ! k)) (vs ! k)))"

lemma collapse_step_ok:
  assumes "covers acc vs"
  shows "covers (collapse_step acc v) (vs @ [v])" "fst (collapse_step acc v) = dedup_by value_eq (fst acc) [v]"
proof -
  have "covers (collapse_step acc v) (vs @ [v]) \<and> fst (collapse_step acc v) = dedup_by value_eq (fst acc) [v]"
  proof (cases "find_index (\<lambda>k. value_eq k v) (fst acc)")
    case None
    then have "\<not> (\<exists>k\<in>set (fst acc). value_eq k v)" by (simp add: find_index_None)
    then show ?thesis using assms None by (auto simp: covers_def collapse_step_def nth_append less_Suc_eq)
  next
    case (Some i)
    have i: "i < length (fst acc)" "value_eq (fst acc ! i) v" using find_index_Some [OF Some] by simp_all
    then have "\<exists>k\<in>set (fst acc). value_eq k v" by (meson nth_mem)
    then show ?thesis using assms Some i by (auto simp: covers_def collapse_step_def nth_append less_Suc_eq)
  qed
  then show "covers (collapse_step acc v) (vs @ [v])" "fst (collapse_step acc v) = dedup_by value_eq (fst acc) [v]" by blast+
qed

lemma dedup_by_step: "dedup_by eq kept (v # vs) = dedup_by eq (dedup_by eq kept [v]) vs"
  by simp

lemma collapse_loop:
  "covers acc us \<Longrightarrow> covers (foldl collapse_step acc vs) (us @ vs) \<and>
     fst (foldl collapse_step acc vs) = dedup_by value_eq (fst acc) vs"
proof (induction vs arbitrary: acc us)
  case (Cons v vs)
  note S = collapse_step_ok [OF Cons.prems, of v]
  show ?case using Cons.IH [OF S(1)] unfolding foldl_Cons dedup_by_step [of _ _ v vs] S(2) by simp
qed simp

lemma collapse_ok:
  "fst (collapse_duplicates vs) = dedup_by value_eq [] vs"
  "length (snd (collapse_duplicates vs)) = length vs"
  "k < length vs \<Longrightarrow> snd (collapse_duplicates vs) ! k < length (fst (collapse_duplicates vs))"
  "k < length vs \<Longrightarrow> fst (collapse_duplicates vs) ! (snd (collapse_duplicates vs) ! k) = vs ! k \<or>
     value_eq (fst (collapse_duplicates vs) ! (snd (collapse_duplicates vs) ! k)) (vs ! k)"
proof -
  have "covers ([], []) []" by (simp add: covers_def)
  from collapse_loop [OF this, of vs] have c: "covers (collapse_duplicates vs) vs"
    and k: "fst (collapse_duplicates vs) = dedup_by value_eq [] vs"
    by (simp_all add: collapse_duplicates_def)
  show "fst (collapse_duplicates vs) = dedup_by value_eq [] vs" "length (snd (collapse_duplicates vs)) = length vs"
    "k < length vs \<Longrightarrow> snd (collapse_duplicates vs) ! k < length (fst (collapse_duplicates vs))"
    "k < length vs \<Longrightarrow> fst (collapse_duplicates vs) ! (snd (collapse_duplicates vs) ! k) = vs ! k \<or>
       value_eq (fst (collapse_duplicates vs) ! (snd (collapse_duplicates vs) ! k)) (vs ! k)"
    using c k unfolding covers_def by blast+
qed

lemma twin_free_named: "twin_free value_eq vs \<Longrightarrow> twin_free twin (map (Pair name) vs)"
  by (induction vs) (auto simp: twin_def)

lemma checked_all:
  assumes "winv H w" and "foldE (\<lambda>v w. bindE (validate_tree_ref u name v w) (validate_value_type name v)) vs w = Inr wb"
  shows "wstep H w [] wb \<and> tx_rows wb = tx_rows w \<and> same_book w wb \<and> w_lost wb = w_lost w \<and>
    (\<forall>v\<in>set vs. type_allowed wb name v) \<and> (\<forall>m x. type_allowed w m x \<longrightarrow> type_allowed wb m x)"
  using assms
proof (induction vs arbitrary: w)
  case Nil
  then show ?case using wstep_still [of H w w] by auto
next
  case (Cons v vs)
  obtain wa wc where a: "validate_tree_ref u name v w = Inr wa" "validate_value_type name v wa = Inr wc"
    and rest: "foldE (\<lambda>v w. bindE (validate_tree_ref u name v w) (validate_value_type name v)) vs wc = Inr wb"
    using Cons.prems(2) by (auto simp: bindE_eq_Inr)
  note C = checked [OF Cons.prems(1) a] and IH = Cons.IH [OF checked(2) [OF Cons.prems(1) a] rest]
  show ?case
    using IH C wstep_trans [OF C(1), of "[]" wb] same_book_trans [OF C(4)] by auto
qed

lemma loop_inv_deleted:
  assumes "winv H w"
  shows "loop_inv H w u (kv_rows_named (tx_rows w) u name) {name} ([], put_tx w (delete_rows H u (Some name) (tx_rows w)))"
  using halfstep_delete_named [OF assms]
  by (simp add: loop_inv_def delete_rows_cells [OF winvD(1) [OF assms]] named_def)

lemma set_field_multi_as_step:
  assumes "winv H w" and "set_field_multi_as H ty u name vs w = Inr (ids, w')"
  shows "\<exists>op. wstep H w [op] w' \<and> no_type op = ty \<and> no_entity op = u \<and> no_field op = Some name \<and>
       no_before op = kv_rows_named (tx_rows w) u name \<and>
       map pair_of (no_after op) = map (Pair name) (dedup_by value_eq [] vs) \<and>
       no_reverts op = w_reverting w \<and>
       ids = map (\<lambda>i. row_id (no_after op ! i)) (snd (collapse_duplicates vs))"
proof -
  let ?kept = "fst (collapse_duplicates vs)" and ?slot = "snd (collapse_duplicates vs)"
  obtain wb vb after wd where v: "foldE (\<lambda>v w. bindE (validate_tree_ref u name v w) (validate_value_type name v)) vs w = Inr wb"
    and vb: "kv_version (tx_rows wb) u = Some vb"
    and d: "foldE (insert_step H u name) ?kept ([], put_tx wb (delete_rows H u (Some name) (tx_rows wb))) = Inr (after, wd)"
    and ids: "ids = map (\<lambda>i. row_id (after ! i)) ?slot"
    and w': "w' = (if list_all (\<lambda>v. v = Nothing) vs then forget_type name else id)
        (log_op H ty u (Some name) (Some vb) (kv_rows_named (tx_rows wb) u name) after wd)"
    using assms(2) by (auto simp: set_field_multi_as_def Let_def bindE_eq_Inr case_prod_beta)
  note C = checked_all [OF assms(1) v]
  then have inv: "winv H wb" using wstep_winv by blast
  let ?w1 = "put_tx wb (delete_rows H u (Some name) (tx_rows wb))"
  let ?Q = "\<lambda>w. same_book wb w \<and> (\<forall>v\<in>set vs. type_allowed w name v)"
  have sub: "set ?kept \<subseteq> set vs" using dedup_by_subset [of value_eq "[]" vs] by (simp add: collapse_ok(1))
  have "loop_inv H wb u (kv_rows_named (tx_rows wb) u name) {name} (after, wd) \<and> ?Q (snd (after, wd)) \<and>
      map pair_of (fst (after, wd)) = map pair_of (fst ([] :: FieldRow list, ?w1)) @ map (Pair name) ?kept"
  proof (rule insert_loop [OF d loop_inv_deleted [OF inv]])
    show "?Q (snd ([] :: FieldRow list, ?w1))" using C by simp
    show "twin_free twin (map pair_of (fst ([] :: FieldRow list, ?w1)) @ map (Pair name) ?kept)"
      by (simp add: twin_free_named collapse_ok(1) dedup_by_twin_free)
  next
    fix x a b
    assume x: "x \<in> set ?kept" and li: "loop_inv H wb u (kv_rows_named (tx_rows wb) u name) {name} a" and q: "?Q (snd a)"
      and st: "insert_step H u name x a = Inr b"
      and tw: "\<forall>r\<in>set (fst a). row_name r = fst (name, x) \<longrightarrow> \<not> value_eq (row_value r) (snd (name, x))"
    obtain row w2 where ins: "tx_insert H u name x None (snd a) = Inr (row, w2)" and b: "b = (fst a @ [row], w2)"
      using st by (auto simp: insert_step_def bindE_eq_Inr)
    have ta: "type_allowed (snd a) name x" using q sub x by blast
    have "loop_inv H wb u (kv_rows_named (tx_rows wb) u name) {name} (fst a, snd a)" using li by simp
    from loop_inv_insert [OF this ins _ ta] tw
    show "loop_inv H wb u (kv_rows_named (tx_rows wb) u name) {name} b \<and> ?Q (snd b) \<and>
        (\<exists>row. fst b = fst a @ [row] \<and> pair_of row = (name, x))"
      using tx_insert_ok [OF ins] q same_book_trans [of wb "snd a" w2] by (simp add: b)
  qed
  then have half: "halfstep H wb u (kv_rows_named (tx_rows wb) u name) after wd" and sb: "same_book wb wd"
    and pairs: "map pair_of after = map (Pair name) ?kept"
    by (simp_all add: loop_inv_def)
  have "wstep H wb [logged H ty u (Some name) (Some vb) (kv_rows_named (tx_rows wb) u name) after wd] w'"
    unfolding w' using log_op_wstep [OF inv half] wstep_forget by simp
  then show ?thesis
    using C sb pairs ids wstep_trans [of H w "[]" wb]
    by (intro exI [of _ "logged H ty u (Some name) (Some vb) (kv_rows_named (tx_rows wb) u name) after wd"])
      (simp add: logged_def same_book_def collapse_ok(1))
qed

definition field_pair :: "Field \<Rightarrow> string \<times> value" where
  "field_pair f = (f_name f, f_value f)"

lemma twin_free_fields: "twin_free same_field fs \<Longrightarrow> twin_free twin (map field_pair fs)"
  by (induction fs) (auto simp: twin_def same_field_def field_pair_def)

lemma create_step_loop:
  assumes loop: "loop_inv H w u before UNIV a" and st: "create_step H u f a = Inr b"
    and tw: "\<forall>r\<in>set (fst a). row_name r = fst (field_pair f) \<longrightarrow> \<not> value_eq (row_value r) (snd (field_pair f))"
  shows "loop_inv H w u before UNIV b \<and> (\<exists>row. fst b = fst a @ [row] \<and> pair_of row = field_pair f)"
proof -
  obtain wv row w2 where v: "validate_value_type (f_name f) (f_value f) (snd a) = Inr wv"
    and ins: "tx_insert H u (f_name f) (f_value f) None wv = Inr (row, w2)" and b: "b = (fst a @ [row], w2)"
    using st by (auto simp: create_step_def bindE_eq_Inr)
  note V = validate_value_type_ok [OF v]
  have "halfstep H w u before (fst a) (snd a)" using loop by (simp add: loop_inv_def)
  then have "types_ok wv" using validate_value_type_types [OF v, of H] by (simp add: halfstep_def)
  then have "loop_inv H w u before UNIV (fst a, wv)"
    using loop_inv_same [of H w u before UNIV "fst a" "snd a" wv] loop V(1,2) by simp
  from loop_inv_insert [OF this ins _ V(5)] tw
  show ?thesis by (simp add: b field_pair_def)
qed

lemma create_loop:
  assumes "foldE (create_step H u) fs ([], w1) = Inr (after, wd)" and "loop_inv H w u before UNIV ([], w1)"
    and "twin_free same_field fs"
  shows "halfstep H w u before after wd" "map pair_of after = map field_pair fs"
proof -
  have "loop_inv H w u before UNIV (after, wd) \<and> True \<and> map pair_of (fst (after, wd)) = map pair_of (fst ([] :: FieldRow list, w1)) @ map field_pair fs"
    by (rule insert_loop [OF assms(1,2)]) (use twin_free_fields [OF assms(3)] create_step_loop in auto)
  then show "halfstep H w u before after wd" "map pair_of after = map field_pair fs" by (simp_all add: loop_inv_def)
qed

lemma set_step_loop:
  assumes loop: "loop_inv H w u before UNIV a" and st: "set_step H u f a = Inr b"
    and tw: "\<forall>r\<in>set (fst a). row_name r = fst (field_pair f) \<longrightarrow> \<not> value_eq (row_value r) (snd (field_pair f))"
  shows "loop_inv H w u before UNIV b \<and> (\<exists>row. fst b = fst a @ [row] \<and> pair_of row = field_pair f)"
proof -
  obtain wv where v: "validate_tree_ref u (f_name f) (f_value f) (snd a) = Inr wv" and st': "create_step H u f (fst a, wv) = Inr b"
    using st by (auto simp: set_step_def bindE_eq_Inr)
  note V = validate_tree_ref_ok [OF v]
  have "halfstep H w u before (fst a) (snd a)" using loop by (simp add: loop_inv_def)
  then have "types_ok wv" using V by (simp add: halfstep_def)
  then have "loop_inv H w u before UNIV (fst a, wv)"
    using loop_inv_same [of H w u before UNIV "fst a" "snd a" wv] loop V(1,2) by simp
  from create_step_loop [OF this st'] tw show ?thesis by simp
qed

lemma set_loop:
  assumes "foldE (set_step H u) fs ([], w1) = Inr (after, wd)" and "loop_inv H w u before UNIV ([], w1)"
    and "twin_free same_field fs"
  shows "halfstep H w u before after wd" "map pair_of after = map field_pair fs"
proof -
  have "loop_inv H w u before UNIV (after, wd) \<and> True \<and> map pair_of (fst (after, wd)) = map pair_of (fst ([] :: FieldRow list, w1)) @ map field_pair fs"
    by (rule insert_loop [OF assms(1,2)]) (use twin_free_fields [OF assms(3)] set_step_loop in auto)
  then show "halfstep H w u before after wd" "map pair_of after = map field_pair fs" by (simp_all add: loop_inv_def)
qed

lemma tree_refs_checked:
  assumes "winv H w" and "foldE (\<lambda>f. validate_tree_ref u (f_name f) (f_value f)) fs w = Inr wb"
  shows "wstep H w [] wb \<and> tx_rows wb = tx_rows w \<and> same_book w wb \<and> w_lost wb = w_lost w \<and> w_types wb = w_types w \<and>
    w_deferred_types wb = w_deferred_types w"
  using assms
proof (induction fs arbitrary: w)
  case Nil
  then show ?case using wstep_still [of H w w] by auto
next
  case (Cons f fs)
  obtain wc where a: "validate_tree_ref u (f_name f) (f_value f) w = Inr wc"
    and rest: "foldE (\<lambda>f. validate_tree_ref u (f_name f) (f_value f)) fs wc = Inr wb"
    using Cons.prems(2) by (auto simp: bindE_eq_Inr)
  note A = validate_tree_ref_ok [OF a]
  have s: "wstep H w [] wc" using wstep_still [OF Cons.prems(1) A(1,2)] A(7) winvD(4) [OF Cons.prems(1)] by simp
  show ?case
    using Cons.IH [OF wstep_winv [OF s] rest] wstep_trans [OF s, of "[]" wb] same_book_trans [OF A(2)] A by auto
qed

lemma no_cells_without_record:
  assumes "rows_inv H s" and "kv_version s u = None"
  shows "tget (cells s) (u, n, i) = None"
  using assms rows_invD(2) [OF assms(1)] unfolding cells_inv_def kv_version_def by (metis not_None_eq)

lemma create_metarecord_step:
  assumes "winv H w" and "create_metarecord_with_uuid H u fs w = Inr (rec, w')"
  shows "\<exists>op. wstep H w [op] w' \<and> no_type op = CreateRecord \<and> no_entity op = u \<and> no_field op = None \<and> no_before op = [] \<and>
       map pair_of (no_after op) = map field_pair (collapse_duplicate_fields fs) \<and> no_reverts op = w_reverting w \<and>
       mr_uuid rec = u \<and> mr_fields rec = map out_field (no_after op) \<and> kv_version (tx_rows w') u = Some (mr_version rec)"
    "kv_version (tx_rows w) u = None"
proof -
  let ?fs = "collapse_duplicate_fields fs"
  obtain wb s after wd v where t: "foldE (\<lambda>f. validate_tree_ref u (f_name f) (f_value f)) ?fs w = Inr wb"
    and c: "create_metarecord_row u (version_base H u) (tx_rows wb) = Inr s"
    and l: "foldE (create_step H u) ?fs ([], put_tx wb s) = Inr (after, wd)"
    and w': "w' = log_op H CreateRecord u None None [] after wd" and v: "kv_version (tx_rows w') u = Some v"
    and r: "rec = \<lparr>mr_uuid = u, mr_version = v, mr_fields = map out_field after\<rparr>"
    using assms(2) by (auto simp: create_metarecord_with_uuid_def Let_def bindE_eq_Inr)
  note C = tree_refs_checked [OF assms(1) t]
  then have inv: "winv H wb" using wstep_winv by blast
  note K = create_metarecord_row_ok [OF c winvD(1) [OF inv]]
  have "loop_inv H wb u [] UNIV ([], put_tx wb s)"
    using halfstep_create [OF inv c] no_cells_without_record [OF winvD(1) [OF inv] K(2)] K(3) by (simp add: loop_inv_def)
  from create_loop [OF l this]
  have half: "halfstep H wb u [] after wd" and p: "map pair_of after = map field_pair ?fs"
    by (simp_all add: collapse_duplicate_fields_def dedup_by_twin_free)
  have "wstep H w [logged H CreateRecord u None None [] after wd] w'"
    using log_op_wstep [OF inv half] C wstep_trans [of H w "[]" wb] by (simp add: w')
  moreover have "w_reverting wd = w_reverting w" using half C by (auto simp: halfstep_def same_book_def)
  ultimately show "\<exists>op. wstep H w [op] w' \<and> no_type op = CreateRecord \<and> no_entity op = u \<and> no_field op = None \<and> no_before op = [] \<and>
       map pair_of (no_after op) = map field_pair (collapse_duplicate_fields fs) \<and> no_reverts op = w_reverting w \<and>
       mr_uuid rec = u \<and> mr_fields rec = map out_field (no_after op) \<and> kv_version (tx_rows w') u = Some (mr_version rec)"
    using p v r by (intro exI [of _ "logged H CreateRecord u None None [] after wd"]) (simp add: logged_def)
  show "kv_version (tx_rows w) u = None" using K(2) C by simp
qed

lemma forget_types:
  "tx_rows (foldl (\<lambda>w r. forget_type (row_name r) w) w rs) = tx_rows w \<and>
   same_book w (foldl (\<lambda>w r. forget_type (row_name r) w) w rs) \<and>
   w_lost (foldl (\<lambda>w r. forget_type (row_name r) w) w rs) = w_lost w \<and>
   (types_ok w \<longrightarrow> types_ok (foldl (\<lambda>w r. forget_type (row_name r) w) w rs))"
proof (induction rs arbitrary: w)
  case (Cons r rs)
  show ?case
    using Cons [of "forget_type (row_name r) w"] forget_type_ok [of w "row_name r"]
      same_book_trans [OF forget_type_simps(4) [of w "row_name r"]] by simp
qed simp

lemma set_record_step:
  assumes "winv H w" and "set_record H u fs w = Inr (rec, w')"
  shows "\<exists>op. wstep H w [op] w' \<and> no_type op = SetRecord \<and> no_entity op = u \<and> no_field op = None \<and>
       no_before op = kv_rows (tx_rows w) u \<and>
       map pair_of (no_after op) = map field_pair (collapse_duplicate_fields fs) \<and> no_reverts op = w_reverting w \<and>
       mr_uuid rec = u \<and> mr_fields rec = map out_field (no_after op) \<and> kv_version (tx_rows w') u = Some (mr_version rec)"
proof -
  let ?fs = "collapse_duplicate_fields fs" and ?before = "kv_rows (tx_rows w) u"
  let ?w1 = "put_tx w (delete_rows H u None (tx_rows w))"
  let ?w2 = "foldl (\<lambda>w r. forget_type (row_name r) w) ?w1 ?before"
  obtain vb after wd v where
    l: "foldE (set_step H u) ?fs ([], ?w2) = Inr (after, wd)"
    and w': "w' = log_op H SetRecord u None (Some vb) ?before after wd" and v: "kv_version (tx_rows w') u = Some v"
    and r: "rec = \<lparr>mr_uuid = u, mr_version = v, mr_fields = map out_field after\<rparr>"
    using assms(2) by (auto simp: set_record_def Let_def bindE_eq_Inr)
  note F = forget_types [of ?w1 ?before] and half1 = halfstep_delete_all [OF assms(1)]
  have "types_ok ?w1" using half1 by (simp add: halfstep_def)
  then have "halfstep H w u ?before [] ?w2" using halfstep_same [OF half1, of ?w2] F by blast
  then have "loop_inv H w u ?before UNIV ([], ?w2)"
    using F by (simp add: loop_inv_def delete_rows_cells [OF winvD(1) [OF assms(1)]] named_def)
  from set_loop [OF l this]
  have half: "halfstep H w u ?before after wd" and p: "map pair_of after = map field_pair ?fs"
    by (simp_all add: collapse_duplicate_fields_def dedup_by_twin_free)
  have "wstep H w [logged H SetRecord u None (Some vb) ?before after wd] w'"
    unfolding w' by (rule log_op_wstep [OF assms(1) half])
  moreover have "w_reverting wd = w_reverting w" using half by (auto simp: halfstep_def same_book_def)
  ultimately show ?thesis
    using p v r by (intro exI [of _ "logged H SetRecord u None (Some vb) ?before after wd"]) (simp add: logged_def)
qed

lemma get_owned_row_ok:
  "get_owned_row w u i = Inr r \<Longrightarrow> r \<in> set (kv_rows (tx_rows w) u) \<and> row_id r = i"
  by (auto simp: get_owned_row_def dest: find_Some_in)

lemma delete_field_step:
  assumes "winv H w" and "delete_field H u i w = Inr w'"
  shows "\<exists>op r. wstep H w [op] w' \<and> no_type op = DeleteField \<and> no_entity op = u \<and> no_field op = Some (row_name r) \<and>
       no_before op = [r] \<and> no_after op = [] \<and> no_reverts op = w_reverting w \<and> r \<in> set (kv_rows (tx_rows w) u) \<and> row_id r = i"
proof -
  obtain r vb where r: "get_owned_row w u i = Inr r"
    and w': "w' = forget_type (row_name r) (log_op H DeleteField u (Some (row_name r)) (Some vb) [r] []
        (put_tx w (delete_row H i (tx_rows w))))"
    using assms(2) by (auto simp: delete_field_def Let_def bindE_eq_Inr)
  note R = get_owned_row_ok [OF r]
  have "wstep H w [logged H DeleteField u (Some (row_name r)) (Some vb) [r] [] (put_tx w (delete_row H i (tx_rows w)))] w'"
    unfolding w' using halfstep_delete_row [OF assms(1), of r u] R by (intro wstep_forget log_op_wstep [OF assms(1)]) simp
  then show ?thesis using R by (auto simp: logged_def put_tx_def)
qed

text \<open>Several rows of one metarecord deleted at once.\<close>

lemma delete_rows_loop_half:
  assumes "winv H w" and "set rows \<subseteq> set (kv_rows (tx_rows w) u)" and "distinct (map row_id rows)"
  shows "halfstep H w u rows [] (foldl (\<lambda>w r. put_tx w (delete_row H (row_id r) (tx_rows w))) w rows)"
  using assms(2,3)
proof (induction rows rule: rev_induct)
  case Nil
  then show ?case using assms(1) winv_version [OF assms(1)] by (auto simp: halfstep_def)
next
  case (snoc r rows)
  let ?w = "foldl (\<lambda>w r. put_tx w (delete_row H (row_id r) (tx_rows w))) w rows"
  have half: "halfstep H w u rows [] ?w" using snoc by simp
  then have inv: "rows_inv H (tx_rows ?w)" by (simp add: halfstep_def)
  have cells: "tget (cells (tx_rows (foldl (\<lambda>w r. put_tx w (delete_row H (row_id r) (tx_rows w))) w rs))) k =
      (if snd (snd k) \<in> row_id ` set rs then None else tget (cells (tx_rows w)) k) \<and>
      rows_inv H (tx_rows (foldl (\<lambda>w r. put_tx w (delete_row H (row_id r) (tx_rows w))) w rs))" for rs k
  proof (induction rs rule: rev_induct)
    case Nil
    then show ?case using winvD(1) [OF assms(1)] by simp
  next
    case (snoc q qs)
    then show ?case by (cases k) (auto simp: delete_row_cells delete_row_inv)
  qed
  have "tget (cells (tx_rows w)) (u, row_name r, row_id r) = Some r"
    using snoc.prems(1) in_kv_rows [OF winvD(1) [OF assms(1)]] by simp
  moreover have "row_id r \<notin> row_id ` set rows" using snoc.prems(2) by auto
  ultimately have "r \<in> set (kv_rows (tx_rows ?w) u)" using in_kv_rows [OF inv] cells [of rows] by simp
  note D = delete_row_ok [OF kv_row_of_rows [OF inv this] inv]
  let ?s = "delete_row H (row_id r) (tx_rows ?w)"
  note Hs = half [unfolded halfstep_def]
  have others: "\<forall>x. x \<noteq> u \<longrightarrow> content ?s x = content (tx_rows w) x \<and> kv_version ?s x = kv_version (tx_rows w) x"
    using D(5) Hs by (simp add: kv_version_def)
  have "content (tx_rows ?w) u = add_mset (pair_of r) (content ?s u)" using D(5) [of u] by (simp add: pair_of_def)
  moreover have "content (tx_rows ?w) u + bag rows = content (tx_rows w) u" using Hs by simp
  ultimately have own: "content ?s u + bag (rows @ [r]) = content (tx_rows w) u + bag []" by (simp add: pair_of_def)
  have ver: "\<forall>v. kv_version ?s u = Some v \<longrightarrow> v = vers H u (content (tx_rows w) u)" using Hs by (simp add: kv_version_def)
  have twins: "no_twins ?s" using part_of_no_twins [OF delete_row_part [OF inv]] Hs by blast
  have types: "types_ok (put_tx ?w ?s)" using types_ok_part [OF _ delete_row_part [OF inv]] Hs by blast
  have book: "same_book w (put_tx ?w ?s)" using same_book_trans [OF _ put_tx_simps(5)] Hs by blast
  have "halfstep H w u (rows @ [r]) [] (put_tx ?w ?s)"
    unfolding halfstep_def put_tx_simps using others own ver twins types book D(1) by blast
  then show ?case by simp
qed

lemma distinct_rows_named:
  assumes "rows_inv H s"
  shows "distinct (map row_id (kv_rows_named s u n))"
proof -
  let ?es = "tscan (\<lambda>(v, m, _). v = u \<and> m = n) (cells s)"
  have o: "ordered (cells s)" using rows_invD(1) [OF assms] by (simp add: ordered_tables_def)
  have "distinct (map fst ?es)" using ordered_distinct [OF tscan_ordered [OF o]] .
  moreover have "map row_id (kv_rows_named s u n) = map (\<lambda>e. snd (snd (fst e))) ?es"
  proof -
    have "row_id (snd e) = snd (snd (fst e))" if "e \<in> set ?es" for e
    proof -
      obtain w m j r where e: "e = ((w, m, j), r)" by (metis surj_pair)
      then have "tget (cells s) (w, m, j) = Some r" using that in_tscan [OF o] by blast
      then show ?thesis using e rows_invD(2) [OF assms] unfolding cells_inv_def by auto
    qed
    then show ?thesis by (simp add: kv_rows_named_def)
  qed
  moreover have "inj_on (\<lambda>e. snd (snd (fst e))) (set ?es)"
    using calculation(1) by (auto simp: inj_on_def tscan_def distinct_map)
  ultimately show ?thesis by (simp add: distinct_map)
qed

lemma rows_named_subset:
  assumes "rows_inv H s"
  shows "set (kv_rows_named s u n) \<subseteq> set (kv_rows s u)"
  using in_kv_rows_named [OF assms, of _ u n] in_kv_rows [OF assms, of _ u] by auto

lemma delete_field_rows_step:
  assumes "winv H w" and "delete_field_rows H u name rows w = Inr (k, w')"
    and "set rows \<subseteq> set (kv_rows (tx_rows w) u)" and "distinct (map row_id rows)"
  shows "k = length rows \<and> (rows = [] \<and> w' = w \<or>
    (\<exists>op. wstep H w [op] w' \<and> no_type op = DeleteField \<and> no_entity op = u \<and> no_field op = Some name \<and>
       no_before op = rows \<and> no_after op = [] \<and> no_reverts op = w_reverting w))"
proof (cases "rows = []")
  case True
  then show ?thesis using assms(2) by (simp add: delete_field_rows_def)
next
  case False
  let ?w1 = "foldl (\<lambda>w r. put_tx w (delete_row H (row_id r) (tx_rows w))) w rows"
  obtain vb where k: "k = length rows"
    and w': "w' = forget_type name (log_op H DeleteField u (Some name) (Some vb) rows [] ?w1)"
    using assms(2) False by (auto simp: delete_field_rows_def Let_def bindE_eq_Inr)
  note half = delete_rows_loop_half [OF assms(1,3,4)]
  have "wstep H w [logged H DeleteField u (Some name) (Some vb) rows [] ?w1] w'"
    unfolding w' by (intro wstep_forget log_op_wstep [OF assms(1) half])
  moreover have "w_reverting ?w1 = w_reverting w" using half by (simp add: halfstep_def same_book_def)
  ultimately have "\<exists>op. wstep H w [op] w' \<and> no_type op = DeleteField \<and> no_entity op = u \<and> no_field op = Some name \<and>
       no_before op = rows \<and> no_after op = [] \<and> no_reverts op = w_reverting w"
    by (intro exI [of _ "logged H DeleteField u (Some name) (Some vb) rows [] ?w1"]) (simp add: logged_def)
  then show ?thesis using k by blast
qed

lemma delete_fields_valued_step:
  assumes "winv H w" and "delete_fields_valued H u name v w = Inr (k, w')"
  defines "rows \<equiv> filter (\<lambda>r. value_eq (row_value r) v) (kv_rows_named (tx_rows w) u name)"
  shows "k = length rows \<and> (rows = [] \<and> w' = w \<or>
    (\<exists>op. wstep H w [op] w' \<and> no_type op = DeleteField \<and> no_entity op = u \<and> no_field op = Some name \<and>
       no_before op = rows \<and> no_after op = [] \<and> no_reverts op = w_reverting w))"
proof (rule delete_field_rows_step [OF assms(1)])
  note inv = winvD(1) [OF assms(1)]
  show "delete_field_rows H u name rows w = Inr (k, w')" using assms(2) by (simp add: delete_fields_valued_def rows_def)
  show "set rows \<subseteq> set (kv_rows (tx_rows w) u)" using rows_named_subset [OF inv] by (auto simp: rows_def)
  show "distinct (map row_id rows)" using distinct_rows_named [OF inv] by (simp add: rows_def distinct_map_filter)
qed

lemma delete_fields_named_step:
  assumes "winv H w" and "delete_fields_named H u name w = Inr (k, w')"
  shows "k = length (kv_rows_named (tx_rows w) u name) \<and> (kv_rows_named (tx_rows w) u name = [] \<and> w' = w \<or>
    (\<exists>op. wstep H w [op] w' \<and> no_type op = DeleteField \<and> no_entity op = u \<and> no_field op = Some name \<and>
       no_before op = kv_rows_named (tx_rows w) u name \<and> no_after op = [] \<and> no_reverts op = w_reverting w))"
  using delete_field_rows_step [OF assms(1)] assms(2) rows_named_subset distinct_rows_named winvD(1) [OF assms(1)]
  by (simp add: delete_fields_named_def)

text \<open>A row replaced in place: a deletion and an append under the same row id.\<close>

lemma replace_owned_row_step:
  assumes "winv H w" and "replace_owned_row H u old n v w = Inr w'"
    and r: "old \<in> set (kv_rows (tx_rows w) u)" and ty: "type_allowed w n v"
    and tw: "\<forall>q i. tget (cells (tx_rows w)) (u, n, i) = Some q \<longrightarrow> i \<noteq> row_id old \<longrightarrow> \<not> value_eq (row_value q) v"
  shows "\<exists>op1 op2 row. wstep H w [op1, op2] w' \<and>
       no_type op1 = DeleteField \<and> no_entity op1 = u \<and> no_before op1 = [old] \<and> no_after op1 = [] \<and>
       no_type op2 = AppendField \<and> no_entity op2 = u \<and> no_before op2 = [] \<and> no_after op2 = [row] \<and>
       row = \<lparr>row_id = row_id old, row_name = n, row_value = v\<rparr>"
proof -
  let ?w1 = "put_tx w (delete_row H (row_id old) (tx_rows w))"
  obtain v1 v2 row wd where
    d: "tx_insert H u n v (Some (row_id old)) (log_op H DeleteField u (Some (row_name old)) (Some v1) [old] [] ?w1) = Inr (row, wd)"
    and w': "w' = (if n \<noteq> row_name old
        then forget_type n (forget_type (row_name old) (log_op H AppendField u (Some n) (Some v2) [] [row] wd))
        else log_op H AppendField u (Some n) (Some v2) [] [row] wd)"
    using assms(2) by (auto simp: replace_owned_row_def Let_def bindE_eq_Inr)
  let ?w2 = "log_op H DeleteField u (Some (row_name old)) (Some v1) [old] [] ?w1"
  have s1: "wstep H w [logged H DeleteField u (Some (row_name old)) (Some v1) [old] [] ?w1] ?w2"
    by (intro log_op_wstep [OF assms(1)] halfstep_delete_row [OF assms(1) r])
  then have inv: "winv H ?w2" by (rule wstep_winv)
  note I = winvD(1) [OF assms(1)]
  have pos: "0 < row_id old"
    using in_kv_rows [OF I] r rows_invD(2) [OF I] unfolding cells_inv_def by blast
  have t: "twinless (tx_rows ?w2) u n v"
    using tw by (auto simp: twinless_def delete_row_cells [OF I] split: if_splits)
  have a: "type_allowed ?w2 n v" using ty by (simp only: type_allowed_def log_op_frame put_tx_simps)
  have h: "halfstep H ?w2 u [] [] ?w2" using inv winv_version [OF inv] by (auto simp: halfstep_def)
  have "halfstep H ?w2 u [] ([] @ [row]) wd" by (rule halfstep_insert(1) [OF h d _ a t]) (use pos in simp)
  then have "wstep H ?w2 [logged H AppendField u (Some n) (Some v2) [] [row] wd] w'"
    unfolding w' using log_op_wstep [OF inv] wstep_forget by simp
  note step = wstep_trans [OF s1 this]
  have row: "row = \<lparr>row_id = row_id old, row_name = n, row_value = v\<rparr>"
    using d by (auto simp: tx_insert_def bindE_eq_Inr insert_row_def take_row_id_def split: if_splits)
  show ?thesis
    using step row
    by (intro exI [of _ "logged H DeleteField u (Some (row_name old)) (Some v1) [old] [] ?w1"]
        exI [of _ "logged H AppendField u (Some n) (Some v2) [] [row] wd"] exI [of _ row]) (simp add: logged_def)
qed

lemma edit_row_step:
  assumes "winv H w" and old: "get_owned_row w u i = Inr old" and a: "validate_tree_ref u n v w = Inr wa"
    and b: "validate_value_type n v wa = Inr wb" and dup: "reject_duplicate wb u i n v = Inr ()"
    and rep: "replace_owned_row H u old n v wb = Inr w'"
  shows "\<exists>op1 op2 row. wstep H w [op1, op2] w' \<and>
       no_type op1 = DeleteField \<and> no_entity op1 = u \<and> no_before op1 = [old] \<and> no_after op1 = [] \<and>
       no_type op2 = AppendField \<and> no_entity op2 = u \<and> no_before op2 = [] \<and> no_after op2 = [row] \<and>
       row = \<lparr>row_id = i, row_name = n, row_value = v\<rparr>"
proof -
  note C = checked [OF assms(1) a b] and R = get_owned_row_ok [OF old]
  note I = winvD(1) [OF C(2)]
  have "\<not> value_eq (row_value q) v" if "tget (cells (tx_rows wb)) (u, n, j) = Some q" "j \<noteq> row_id old" for q j
  proof -
    have q: "row_id q = j" "row_name q = n" using that rows_invD(2) [OF I] unfolding cells_inv_def by blast+
    then have "q \<in> set (kv_rows_named (tx_rows wb) u n)" using that in_kv_rows_named [OF I] by simp
    then show ?thesis
      using dup R q that(2)
      by (auto simp: reject_duplicate_def twin_row_def find_None_iff_all split: option.splits)
  qed
  then show ?thesis
    using replace_owned_row_step [OF C(2) rep] R C(3,5) wstep_trans [OF C(1)] by fastforce
qed

lemma replace_field_step:
  assumes "winv H w" and "replace_field H u i v w = Inr w'"
  shows "\<exists>os. wstep H w os w'"
  using assms(2) edit_row_step [OF assms(1)] by (auto simp: replace_field_def bindE_eq_Inr) blast

lemma rename_field_step:
  assumes "winv H w" and "rename_field H u i n v w = Inr w'"
  shows "\<exists>os. wstep H w os w'"
  using assms(2) edit_row_step [OF assms(1)] by (auto simp: rename_field_def bindE_eq_Inr) blast

end
