(* ===== verification/Session.thy ===== *)
theory Session
  imports Writer_Laws
begin

text \<open>
  A write from its beginning to its commit. \<open>perform\<close> runs one call of a writer's method,
  \<open>session\<close> is the step relation of the calls; the invariant of the writer holds in every state a
  session reaches, and the commit of any of them leaves a store that satisfies \<open>store_ok\<close>, whose
  log holds exactly the operations the session recorded.
\<close>

section \<open>Sessions\<close>

datatype request =
    ClearField OpType uuid string
  | CreateMetarecord uuid "Field list"
  | DeleteMetarecord uuid
  | SetRecordFields uuid "Field list"
  | SetOne OpType uuid string "value"
  | SetMany OpType uuid string "value list"
  | Append uuid string "value"
  | Replace uuid int "value"
  | Rename uuid int string "value"
  | DeleteOne uuid int
  | DeleteValued uuid string "value"
  | DeleteNamed uuid string
  | DeferChecks
  | Reverts "int option"
  | Origin string

fun perform :: "(bytes \<Rightarrow> u64) \<Rightarrow> request \<Rightarrow> writer \<Rightarrow> store_error + writer" where
  "perform H (ClearField ty u n) w = clear_field_as H ty u n w"
| "perform H (CreateMetarecord u fs) w = bindE (create_metarecord_with_uuid H u fs w) (\<lambda>(_, w). Inr w)"
| "perform H (DeleteMetarecord u) w = delete_metarecord H u w"
| "perform H (SetRecordFields u fs) w = bindE (set_record H u fs w) (\<lambda>(_, w). Inr w)"
| "perform H (SetOne ty u n v) w = set_field_as H ty u n v w"
| "perform H (SetMany ty u n vs) w = bindE (set_field_multi_as H ty u n vs w) (\<lambda>(_, w). Inr w)"
| "perform H (Append u n v) w = bindE (append_field H u n v w) (\<lambda>(_, w). Inr w)"
| "perform H (Replace u i v) w = replace_field H u i v w"
| "perform H (Rename u i n v) w = rename_field H u i n v w"
| "perform H (DeleteOne u i) w = delete_field H u i w"
| "perform H (DeleteValued u n v) w = bindE (delete_fields_valued H u n v w) (\<lambda>(_, w). Inr w)"
| "perform H (DeleteNamed u n) w = bindE (delete_fields_named H u n w) (\<lambda>(_, w). Inr w)"
| "perform H DeferChecks w = Inr (defer_type_checks w)"
| "perform H (Reverts i) w = Inr (reverting i w)"
| "perform H (Origin s) w = Inr (set_origin s w)"

inductive session :: "(bytes \<Rightarrow> u64) \<Rightarrow> writer \<Rightarrow> writer \<Rightarrow> bool" for H :: "bytes \<Rightarrow> u64" where
  session_begin: "session H w w"
| session_call: "session H w w' \<Longrightarrow> perform H r w' = Inr w'' \<Longrightarrow> session H w w''"

inductive_cases session_callE: "session H w w'"

text \<open>What a repository's store satisfies between two writes.\<close>

definition store_ok :: "(bytes \<Rightarrow> u64) \<Rightarrow> rowstore \<Rightarrow> oplog \<Rightarrow> bool" where
  "store_ok H rs lg \<longleftrightarrow> rows_inv H rs \<and> log_inv lg \<and>
     (\<forall>u v. kv_version rs u = Some v \<longrightarrow> v = of_rows H u (kv_rows rs u)) \<and>
     no_twins rs \<and> (\<forall>n. length (kv_value_types rs n) \<le> 1)"

text \<open>The path a session takes: the operations it recorded.\<close>

definition wpath :: "(bytes \<Rightarrow> u64) \<Rightarrow> writer \<Rightarrow> NewOp list \<Rightarrow> writer \<Rightarrow> bool" where
  "wpath H w os w' \<longleftrightarrow> winv H w' \<and>
     log_after w' = snd (append_ops (w_label w) (w_timestamp w) os (log_after w)) \<and>
     w_label w' = w_label w \<and> w_timestamp w' = w_timestamp w \<and> w_opened w' = w_opened w \<and>
     w_retention w' = w_retention w \<and> op_count w' = op_count w + int (length os) \<and>
     accounts (tx_rows w) os (tx_rows w')"

section \<open>Beginning\<close>

lemma check_client_label_exists:
  assumes "check_client_label s i = Inr ()"
  shows "tget (labels s) i \<noteq> None"
  using assms
  by (auto simp: check_client_label_def client_label_walk.simps [of s i "Some i"] label_meta_def
      split: if_splits option.splits)

lemma check_parent_exists:
  "check_parent s l = Inr () \<Longrightarrow> nl_parent l = Some p \<Longrightarrow> tget (labels s) p \<noteq> None"
  using check_client_label_exists by (auto simp: check_parent_def)

text \<open>The last label made holds nothing yet.\<close>

lemma fresh_label_free:
  assumes inv: "log_inv t" and i: "next_label t = i + 1" and ops: "\<forall>j r. tget (ops t) j = Some r \<longrightarrow> label_id r < i"
  shows "label_first_op t i = None" "label_children t i = []"
proof -
  show "label_first_op t i = None" using ops label_first_op_None [OF inv] by fastforce
  have "j \<notin> set (label_children t i)" for j
  proof
    assume "j \<in> set (label_children t i)"
    then obtain m k where j: "tget (labels t) j = Some (m, k)" "lm_parent m = Some i"
      using in_label_children [OF inv] by blast
    then have "i < j" "j < next_label t"
      using label_parent [OF log_invD(6) [OF inv]] label_bounds [OF log_invD(6) [OF inv]] by blast+
    then show False using i by simp
  qed
  then show "label_children t i = []" by (metis list.set_intros(1) neq_Nil_conv)
qed

lemma op_labels_below: "log_inv s \<Longrightarrow> tget (ops s) j = Some r \<Longrightarrow> label_id r < next_label s"
proof -
  assume inv: "log_inv s" and r: "tget (ops s) j = Some r"
  have "tget (labels s) (label_id r) \<noteq> None" using log_invD(4) [OF inv] r by (auto simp: op_label_ok_def)
  then obtain m k where "tget (labels s) (label_id r) = Some (m, k)" by auto
  then show ?thesis using label_bounds [OF log_invD(6) [OF inv]] by blast
qed

lemma create_label_ok:
  assumes inv: "log_inv s" and parent: "\<forall>p. lm_parent m = Some p \<longrightarrow> tget (labels s) p \<noteq> None"
    and t: "create_label m s = (i, t)"
  shows "log_inv t" "tget (labels t) i = Some (m, None)" "label_first_op t i = None" "label_children t i = []"
    "ops t = ops s" "snaps t = snaps s" "next_op t = next_op s" "head t = head s" "next_label s \<le> next_label t"
    "watcher_label t = watcher_label s"
proof -
  have i: "i = next_label s" and t': "t = snd (create_label m s)" using t by (auto simp: create_label_def put_label_def Let_def)
  show I: "log_inv t" unfolding t' by (rule create_label_inv [OF inv parent])
  show "tget (labels t) i = Some (m, None)" "ops t = ops s" "snaps t = snaps s" "next_op t = next_op s" "head t = head s"
    "next_label s \<le> next_label t" "watcher_label t = watcher_label s"
    using i t' by (simp_all add: create_label_def put_label_labels)
  have "next_label t = i + 1" "\<forall>j r. tget (ops t) j = Some r \<longrightarrow> label_id r < i"
    using i t' op_labels_below [OF inv] by (simp_all add: create_label_def put_label_labels)
  from fresh_label_free [OF I this] show "label_first_op t i = None" "label_children t i = []" .
qed

lemma create_command_label_ok:
  assumes inv: "log_inv s" and parent: "\<forall>p. lm_parent m = Some p \<longrightarrow> tget (labels s) p \<noteq> None"
    and key: "label_of_command s k = None" and t: "create_command_label m k s = (i, t)"
  shows "log_inv t" "tget (labels t) i = Some (m, Some k)" "label_first_op t i = None" "label_children t i = []"
    "ops t = ops s" "snaps t = snaps s" "next_op t = next_op s" "head t = head s"
proof -
  have i: "i = next_label s" and t': "t = snd (create_command_label m k s)"
    using t by (auto simp: create_command_label_def put_label_def Let_def)
  show I: "log_inv t" unfolding t' by (rule create_command_label_inv [OF inv parent key])
  show "tget (labels t) i = Some (m, Some k)" "ops t = ops s" "snaps t = snaps s" "next_op t = next_op s" "head t = head s"
    using i t' by (simp_all add: create_command_label_def put_label_def Let_def)
  have "next_label t = i + 1" "\<forall>j r. tget (ops t) j = Some r \<longrightarrow> label_id r < i"
    using i t' op_labels_below [OF inv] by (simp_all add: create_command_label_def put_label_def Let_def)
  from fresh_label_free [OF I this] show "label_first_op t i = None" "label_children t i = []" .
qed

lemma watcher_root_ok:
  assumes inv: "log_inv s" and t: "watcher_root s now = (root, t)"
  shows "log_inv t" "tget (labels t) root \<noteq> None" "ops t = ops s" "snaps t = snaps s" "next_op t = next_op s" "head t = head s"
proof -
  let ?m = "\<lparr>lm_name = ''watcher'', lm_description = Some ''What the daemon recorded for the filesystem'',
      lm_parent = None, lm_created = now\<rparr>"
  obtain i s' where c: "create_label ?m s = (i, s')" by (cases "create_label ?m s")
  note K = create_label_ok [OF inv _ c]
  have "(root, t) = (i, set_watcher_label i s') \<or> (root, t) = (root, s) \<and> label_meta s root \<noteq> None"
    using t c by (auto simp: watcher_root_def split: option.splits if_splits)
  then show "log_inv t" "tget (labels t) root \<noteq> None" "ops t = ops s" "snaps t = snaps s" "next_op t = next_op s" "head t = head s"
    using K inv set_watcher_label_inv [of s' i] by (auto simp: set_watcher_label_def label_meta_def)
qed

lemma open_label_ok:
  assumes inv: "log_inv s" and o: "open_label ctx now s = Inr ((l, opened, orig), t)"
  shows "log_inv t \<and> tget (labels t) l \<noteq> None \<and> (opened \<longrightarrow> label_first_op t l = None \<and> label_children t l = []) \<and>
    ops t = ops s \<and> snaps t = snaps s \<and> next_op t = next_op s \<and> head t = head s"
proof (cases ctx)
  case (In i)
  then show ?thesis using o inv check_client_label_exists [of s i] by (auto simp: open_label_def bindE_eq_Inr)
next
  case (New nl)
  then obtain i s' where p: "check_parent s nl = Inr ()" and c: "create_label (new_label_meta nl now) s = (i, s')"
    and e: "l = i" "t = s'"
    using o by (auto simp: open_label_def bindE_eq_Inr Let_def split: prod.splits)
  show ?thesis
    using create_label_ok [OF inv _ c] check_parent_exists [OF p] e by (auto simp: new_label_meta_def)
next
  case (Command key nl)
  show ?thesis
  proof (cases "label_of_command s key")
    case (Some i)
    then have "tget (labels s) i \<noteq> None"
      using label_key_iff [OF log_invD(6) [OF inv]] by (auto simp: label_of_command_def)
    then show ?thesis using o inv Command Some by (auto simp: open_label_def)
  next
    case None
    then obtain i s' where p: "check_parent s nl = Inr ()" and c: "create_command_label (new_label_meta nl now) key s = (i, s')"
      and e: "l = i" "t = s'"
      using o Command by (auto simp: open_label_def bindE_eq_Inr Let_def split: prod.splits)
    show ?thesis
      using create_command_label_ok [OF inv _ None c] check_parent_exists [OF p] e by (auto simp: new_label_meta_def)
  qed
next
  case Watcher
  then obtain root s' where r: "watcher_root s now = (root, s')"
    and c: "create_label \<lparr>lm_name = ''watcher flush'', lm_description = None, lm_parent = Some root, lm_created = now\<rparr> s' = (l, t)"
    using o by (auto simp: open_label_def Let_def split: prod.splits)
  note R = watcher_root_ok [OF inv r]
  show ?thesis using create_label_ok [OF R(1) _ c] R by auto
qed

lemma begin_in_inv:
  assumes "store_ok H rs lg" and "begin_in ctx ret now rs lg = Inr w"
  shows "winv H w" "tx_rows w = rs" "w_pending w = []" "w_flushed w = 0" "ops (tx_log w) = ops lg"
    "next_op (tx_log w) = next_op lg" "w_retention w = ret" "w_timestamp w = now" "head (tx_log w) = head lg"
proof -
  obtain l opened orig t where o: "open_label ctx now lg = Inr ((l, opened, orig), t)"
    and w: "w = \<lparr>tx_rows = rs, tx_log = t, w_label = l, w_opened = opened, w_timestamp = now,
            w_chain_head = head lg, w_flushed = 0, w_first_op = None, w_pending = [], w_types = [],
            w_deferred_types = None, w_deferred_trees = None, w_retention = ret,
            w_effects = \<lparr>eff_tree = [], eff_base_head = head lg, eff_watch = False\<rparr>,
            w_lost = [], w_reverting = None, w_origin = orig\<rparr>"
    using assms(2) by (auto simp: begin_in_def bindE_eq_Inr)
  note S = assms(1) [unfolded store_ok_def]
  have K: "log_inv t \<and> tget (labels t) l \<noteq> None \<and> (opened \<longrightarrow> label_first_op t l = None \<and> label_children t l = []) \<and>
    ops t = ops lg \<and> snaps t = snaps lg \<and> next_op t = next_op lg \<and> head t = head lg"
    using open_label_ok [OF _ o] S by blast
  have "versions_ok H rs" using S by (simp add: versions_ok_def vers_of_rows content_def)
  moreover have "types_ok w" using S one_type_length [of H rs] by (auto simp: types_ok_def w)
  ultimately show "winv H w" using S K by (simp add: winv_def w book_ok_def flush_ok_def label_free_def)
  show "tx_rows w = rs" "w_pending w = []" "w_flushed w = 0" "ops (tx_log w) = ops lg" "next_op (tx_log w) = next_op lg"
    "w_retention w = ret" "w_timestamp w = now" "head (tx_log w) = head lg"
    using K by (simp_all add: w)
qed

section \<open>The snapshots in the log\<close>

lemma snapshots_eq:
  assumes o: "ordered (snaps s)" and g: "\<And>k. tget (snaps s) (i, a, k) = (if k < length rs then Some (rs ! k) else None)"
  shows "snapshots s i a = rs"
proof -
  let ?p = "\<lambda>(j, b, _ :: nat). j = i \<and> b = a" and ?es = "map (\<lambda>k. ((i, a, k), rs ! k)) [0..<length rs]"
  have lt: "(i, a, m) < (i, a, n) \<longleftrightarrow> m < n" for m n :: nat by (simp add: less_prod_def)
  have es: "ordered ?es" by (simp add: ordered_def comp_def sorted_wrt_map lt)
  have "tget (tscan ?p (snaps s)) key = tget ?es key" for key
  proof (cases "tget ?es key")
    case (Some r)
    then have "\<exists>k<length rs. key = (i, a, k) \<and> r = rs ! k" unfolding tget_Some_iff [OF es] by auto
    then show ?thesis using Some by (auto simp: g)
  next
    case None
    obtain j b k where key: "key = (j, b, k)" by (cases key)
    have "\<not> k < length rs" if "j = i" "b = a"
    proof
      assume "k < length rs"
      then have "(key, rs ! k) \<in> set ?es" using key that by auto
      then show False using None unfolding tget_Some_iff [OF es, symmetric] by simp
    qed
    then show ?thesis unfolding None by (simp add: key g)
  qed
  then have "tscan ?p (snaps s) = ?es" using o es by (intro table_ext tscan_ordered) auto
  then show ?thesis by (simp add: snapshots_def comp_def map_nth)
qed

definition side :: "bool \<Rightarrow> NewOp \<Rightarrow> FieldRow list" where
  "side after op = (if after then no_after op else no_before op)"

lemma append_all_snaps:
  "tget (snaps (append_all l ts i os s)) (j, a, k) =
     (if i \<le> j \<and> j < i + int (length os) \<and> k < length (side a (os ! nat (j - i)))
      then Some (side a (os ! nat (j - i)) ! k) else tget (snaps s) (j, a, k))"
proof (induction l ts i os s rule: append_all.induct)
  case (2 l ts i op os s)
  have "nat (j - i) = Suc (nat (j - (i + 1)))" if "i + 1 \<le> j" using that by linarith
  then show ?case
    using 2 by (cases "i + 1 \<le> j"; cases "j = i") (auto simp: append_op_def tget_put_snaps side_def)
qed auto

lemma append_ops_snapshots:
  assumes inv: "log_inv s" and l: "tget (labels s) l \<noteq> None" and i: "i < length os"
  shows "snapshots (snd (append_ops l ts os s)) (next_op s + int i) a = side a (os ! i)"
proof (rule snapshots_eq)
  show "ordered (snaps (snd (append_ops l ts os s)))"
    using log_invD(3) [OF append_ops_inv [OF inv l]] by (simp add: log_ordered_def)
  have "tget (ops s) (next_op s + int i) \<noteq> Some r" for r
    using log_invD(4) [OF inv] unfolding op_label_ok_def by (metis add_less_same_cancel1 of_nat_less_0_iff)
  then have "tget (ops s) (next_op s + int i) = None" by (metis not_None_eq)
  then have "tget (snaps s) (next_op s + int i, a, k) = None" for k
    using log_invD(5) [OF inv] unfolding op_index_ok_def by blast
  then show "tget (snaps (snd (append_ops l ts os s))) (next_op s + int i, a, k) =
      (if k < length (side a (os ! i)) then Some (side a (os ! i) ! k) else None)" for k
    using i by (simp add: append_ops_def Let_def append_all_snaps)
qed

lemma remove_loop_snaps:
  assumes "log_inv s" and "i \<notin> set ids"
  shows "tget (snaps (snd (foldl remove_hit (h, s) ids))) (i, a, k) = tget (snaps s) (i, a, k)"
  using assms
proof (induction ids arbitrary: h s)
  case (Cons j ids)
  have "tget (snaps (remove_op j s)) (i, a, k) = tget (snaps s) (i, a, k)"
    using Cons.prems(2) by (simp add: remove_op_def split: option.split)
  then show ?case
    using Cons.IH [of "remove_op j s"] Cons.IH [OF Cons.prems(1)] remove_op_inv [OF Cons.prems(1)] Cons.prems(2)
    by (cases "tget (ops s) j") (auto simp: remove_hit_def)
qed simp

lemma drop_loop_snaps:
  assumes "log_inv s"
  shows "snaps (snd (foldl drop_hit (d, s) ls)) = snaps s"
  using assms
proof (induction ls arbitrary: d s)
  case (Cons l ls)
  show ?case
    using Cons.IH [of "snd (drop_if_empty l s)"] drop_if_empty_ok [OF Cons.prems]
    by (simp add: Let_def case_prod_beta drop_hit_def)
qed simp

lemma trim_snapshots:
  assumes inv: "log_inv s" and i: "k \<le> i"
  shows "snapshots (snd (trim ret k s)) i a = snapshots s i a"
proof -
  have "i \<notin> set (doomed ret k s)" using in_doomed i by force
  note r = remove_loop_snaps [OF inv this]
  have "tget (snaps (snd (delete_ops (doomed ret k s) s))) (i, a, n) = tget (snaps s) (i, a, n)" for n
    using r drop_loop_snaps remove_loop [OF inv] by (simp add: delete_ops_def case_prod_beta Let_def)
  then have g: "tget (snaps (snd (trim ret k s))) (i, a, n) = tget (snaps s) (i, a, n)" for n
    using trim_cases [of ret k s] by auto
  have "tscan (\<lambda>(j, b, _). j = i \<and> b = a) (snaps (snd (trim ret k s))) = tscan (\<lambda>(j, b, _). j = i \<and> b = a) (snaps s)"
    using log_invD(3) [OF trim_ok(1) [OF inv]] log_invD(3) [OF inv] g
    by (intro table_ext tscan_ordered) (auto simp: log_ordered_def fun_eq_iff)
  then show ?thesis by (simp add: snapshots_def)
qed

section \<open>The calls of a session\<close>

lemma wstep_path: "wstep H w os w' \<Longrightarrow> \<exists>os. wpath H w os w'"
  unfolding wstep_def wpath_def by blast

lemma wpath_refl: "winv H w \<Longrightarrow> wpath H w [] w"
  by (simp add: wpath_def)

lemma wpath_trans: "wpath H a os b \<Longrightarrow> wpath H b ps c \<Longrightarrow> wpath H a (os @ ps) c"
  by (auto simp: wpath_def append_ops_append intro: accounts_trans)

lemma settings_path:
  assumes "winv H w"
  shows "wpath H w [] (defer_type_checks w)" "wpath H w [] (reverting i w)" "wpath H w [] (set_origin s w)"
proof -
  have "types_ok (defer_type_checks w)"
    using winvD(4) [OF assms] by (auto simp: defer_type_checks_def types_ok_def split: option.splits)
  moreover have "types_ok (reverting i w)" "types_ok (set_origin s w)"
    using winvD(4) [OF assms] by (auto simp: reverting_def set_origin_def intro: types_ok_frame)
  moreover have "book_ok (defer_type_checks w)" "book_ok (reverting i w)" "book_ok (set_origin s w)"
    using winvD(5) [OF assms]
    by (cases "w_first_op w";
        simp add: book_ok_def flush_ok_def label_free_def defer_type_checks_def reverting_def set_origin_def)+
  ultimately show "wpath H w [] (defer_type_checks w)" "wpath H w [] (reverting i w)" "wpath H w [] (set_origin s w)"
    using assms by (simp_all add: wpath_def winv_def log_after_def op_count_def defer_type_checks_def reverting_def set_origin_def)
qed

lemmas write_steps = clear_field_as_step delete_metarecord_step(1) set_field_as_step append_field_step
  set_field_multi_as_step create_metarecord_step(1) set_record_step delete_field_step delete_fields_valued_step
  delete_fields_named_step replace_field_step rename_field_step

lemma perform_path:
  assumes w: "winv H w" and p: "perform H r w = Inr w'"
  shows "\<exists>os. wpath H w os w'"
proof -
  note S = write_steps [OF w] and P = wpath_refl [OF w] settings_path [OF w]
  show ?thesis using p
  proof (cases r)
    case (ClearField ty u n)
    then show ?thesis using S(1) [of ty u n w'] p P(1) by (auto intro: wstep_path)
  next
    case (CreateMetarecord u fs)
    then show ?thesis using S(6) [of u fs] p by (auto simp: bindE_eq_Inr intro: wstep_path)
  next
    case (DeleteMetarecord u)
    then show ?thesis using S(2) [of u] p by (auto intro: wstep_path)
  next
    case (SetRecordFields u fs)
    then show ?thesis using S(7) [of u fs] p by (auto simp: bindE_eq_Inr intro: wstep_path)
  next
    case (SetOne ty u n v)
    then show ?thesis using S(3) [of ty u n v] p by (auto intro: wstep_path)
  next
    case (SetMany ty u n vs)
    then show ?thesis using S(5) [of ty u n vs] p by (auto simp: bindE_eq_Inr intro: wstep_path)
  next
    case (Append u n v)
    then show ?thesis using S(4) [of u n v] p by (auto simp: bindE_eq_Inr intro: wstep_path)
  next
    case (Replace u i v)
    then show ?thesis using S(11) [of u i v] p by (auto intro: wstep_path)
  next
    case (Rename u i n v)
    then show ?thesis using S(12) [of u i n v] p by (auto intro: wstep_path)
  next
    case (DeleteOne u i)
    then show ?thesis using S(8) [of u i] p by (auto intro: wstep_path)
  next
    case (DeleteValued u n v)
    then show ?thesis using S(9) [of u n v] p P(1) by (auto simp: bindE_eq_Inr intro: wstep_path)
  next
    case (DeleteNamed u n)
    then show ?thesis using S(10) [of u n] p P(1) by (auto simp: bindE_eq_Inr intro: wstep_path)
  qed (use p P(2-4) in auto)
qed

lemma session_path:
  assumes "session H w w'" and "winv H w"
  shows "\<exists>os. wpath H w os w'"
  using assms
proof (induction rule: session.induct)
  case (session_begin w)
  then show ?case using wpath_refl by blast
next
  case (session_call w w' r w'')
  then obtain os where os: "wpath H w os w'" by blast
  then have "winv H w'" by (simp add: wpath_def)
  then obtain ps where "wpath H w' ps w''" using perform_path session_call.hyps(2) by blast
  then show ?case using wpath_trans [OF os] by blast
qed

text \<open>A session is a list of calls, each on what the one before left.\<close>

lemma session_calls: "session H w w' \<longleftrightarrow> (\<exists>rs. foldE (perform H) rs w = Inr w')"
proof
  show "session H w w' \<Longrightarrow> \<exists>rs. foldE (perform H) rs w = Inr w'"
  proof (induction rule: session.induct)
    case (session_begin w)
    then show ?case by (rule exI [of _ "[]"]) simp
  next
    case (session_call w w' r w'')
    then obtain rs where "foldE (perform H) rs w = Inr w'" by blast
    then have "foldE (perform H) (rs @ [r]) w = Inr w''" using session_call.hyps(2) by (simp add: foldE_append)
    then show ?case by blast
  qed
next
  assume "\<exists>rs. foldE (perform H) rs w = Inr w'"
  then obtain rs where "foldE (perform H) rs w = Inr w'" by blast
  then show "session H w w'"
    by (rule foldE_invariant) (auto intro: session.intros)
qed

section \<open>Committing\<close>

lemma foldE_unit_all:
  "foldE (\<lambda>x _. f x) xs () = Inr () \<longleftrightarrow> (\<forall>x\<in>set xs. f x = Inr ())"
  by (induction xs) (auto simp: bindE_eq_Inr)

lemma checked_types:
  assumes "winv H w" and "check_deferred_types w = Inr ()"
  shows "length (kv_value_types (tx_rows w) n) \<le> 1"
proof (cases "w_deferred_types w")
  case None
  then show ?thesis using winvD(1,4) [OF assms(1)] by (simp add: types_ok_def one_type_length)
next
  case (Some d)
  have "length (kv_value_types (tx_rows w) m) \<le> 1" if "m \<in> set d" for m
    using assms(2) Some that by (auto simp: check_deferred_types_def foldE_unit_all split: if_splits)
  then show ?thesis using Some winvD(1,4) [OF assms(1)] by (auto simp: types_ok_def one_type_length)
qed

lemma flushed_count:
  assumes "winv H w" and "op_count w \<noteq> 0"
  shows "w_first_op (flush_pending w) = Some (next_op (log_after w) - op_count w)"
    "w_chain_head (flush_pending w) = Some (next_op (log_after w) - 1)"
proof -
  have b: "book_ok (flush_pending w)" using flush_book_ok winvD(5) [OF assms(1)] .
  have "w_flushed (flush_pending w) = op_count w" using flush_op_count [of w] by (simp add: op_count_def)
  then show "w_first_op (flush_pending w) = Some (next_op (log_after w) - op_count w)"
    "w_chain_head (flush_pending w) = Some (next_op (log_after w) - 1)"
    using b assms(2) by (auto simp: book_ok_def flush_ok_def flush_log split: option.splits)
qed

lemma nothing_written:
  assumes "winv H w"
  shows "w_flushed w = 0 \<and> w_pending w = [] \<longleftrightarrow> op_count w = 0"
proof -
  have "0 \<le> w_flushed w" using winvD(5) [OF assms] by (auto simp: book_ok_def flush_ok_def split: option.splits)
  then have "op_count w = 0 \<longleftrightarrow> w_flushed w = 0 \<and> length (w_pending w) = 0" unfolding op_count_def by linarith
  then show ?thesis by simp
qed

text \<open>The log a commit leaves: what the write recorded, HEAD on the last of it, then the trim.\<close>

lemma commit_log:
  assumes w: "winv H w" and c: "commit w = Inr (rs, lg)"
  shows "rs = tx_rows w" "\<forall>n. length (kv_value_types rs n) \<le> 1"
    "op_count w = 0 \<Longrightarrow> lg = (if w_opened w then drop_label (w_label w) (log_after w) else log_after w)"
    "op_count w \<noteq> 0 \<Longrightarrow> lg = snd (trim (w_retention w) (next_op (log_after w) - op_count w)
                                  (set_head (Some (next_op (log_after w) - 1)) (log_after w)))"
    "log_inv lg"
proof -
  have checks: "check_deferred_types w = Inr ()" using c by (auto simp: commit_def bindE_eq_Inr)
  show rs: "rs = tx_rows w" using c by (auto simp: commit_def bindE_eq_Inr Let_def split: if_splits)
  show "\<forall>n. length (kv_value_types rs n) \<le> 1" using checked_types [OF w checks] rs by simp
  have la: "log_after w = tx_log w" if "op_count w = 0" using that nothing_written [OF w] by (simp add: log_after_def)
  show e: "lg = (if w_opened w then drop_label (w_label w) (log_after w) else log_after w)" if "op_count w = 0"
    using c that la nothing_written [OF w] by (auto simp: commit_def bindE_eq_Inr)
  show n: "lg = snd (trim (w_retention w) (next_op (log_after w) - op_count w)
                      (set_head (Some (next_op (log_after w) - 1)) (log_after w)))" if "op_count w \<noteq> 0"
    using c that nothing_written [OF w] flushed_count [OF w that]
    by (auto simp: commit_def bindE_eq_Inr Let_def flush_log)
  have b: "book_ok w" "book_ok (flush_pending w)" using winvD(5) [OF w] flush_book_ok by blast+
  have "log_inv (log_after w)" using b(2) by (simp add: book_ok_def flush_log)
  moreover have "log_inv (drop_label (w_label w) (log_after w))" if "op_count w = 0" "w_opened w"
    using that b(1) la nothing_written [OF w] by (intro drop_label_inv) (simp_all add: book_ok_def label_free_def)
  ultimately show "log_inv lg"
    using e n by (cases "op_count w = 0") (simp_all add: trim_ok(1) set_head_inv)
qed

section \<open>A whole write\<close>

definition write_run :: "(bytes \<Rightarrow> u64) \<Rightarrow> WriteContext \<Rightarrow> Retention \<Rightarrow> int \<Rightarrow> request list \<Rightarrow> rowstore \<times> oplog
    \<Rightarrow> store_error + rowstore \<times> oplog" where
  "write_run H ctx ret now requests st =
     bindE (begin_in ctx ret now (fst st) (snd st)) (\<lambda>w. bindE (foldE (perform H) requests w) commit)"

lemma begun_path:
  assumes st: "store_ok H rs lg" and b: "begin_in ctx ret now rs lg = Inr w0" and p: "wpath H w0 os w"
  shows "log_after w = snd (append_ops (w_label w0) now os (tx_log w0))" "op_count w = int (length os)"
    "next_op (log_after w) = next_op lg + int (length os)" "w_retention w = ret" "winv H w"
    "log_inv (tx_log w0)" "tget (labels (tx_log w0)) (w_label w0) \<noteq> None"
proof -
  note B = begin_in_inv [OF st b]
  have "log_after w0 = tx_log w0" using B(3) by (simp add: log_after_def)
  moreover have "op_count w0 = 0" using B(3,4) by (simp add: op_count_def)
  ultimately show "log_after w = snd (append_ops (w_label w0) now os (tx_log w0))" "op_count w = int (length os)"
    "next_op (log_after w) = next_op lg + int (length os)" "w_retention w = ret" "winv H w"
    "log_inv (tx_log w0)" "tget (labels (tx_log w0)) (w_label w0) \<noteq> None"
    using p B winvD(5) [OF B(1)] by (auto simp: wpath_def book_ok_def)
qed

text \<open>The log after a write that recorded the operations \<open>os\<close>.\<close>

definition holds_ops :: "oplog \<Rightarrow> int \<Rightarrow> int \<Rightarrow> int \<Rightarrow> NewOp list \<Rightarrow> bool" where
  "holds_ops lg first l now os \<longleftrightarrow> (\<forall>i<length os.
     log_op_at lg (first + int i) = Some (op_row (first + int i) l now (os ! i)) \<and>
     (\<forall>b. snapshots lg (first + int i) b = side b (os ! i)))"

lemma committed_log:
  assumes st: "store_ok H rs lg" and b: "begin_in ctx ret now rs lg = Inr w0" and p: "wpath H w0 os w"
    and c: "commit w = Inr (rs', lg')"
  shows "accounts rs os rs'" "next_op lg' = next_op lg + int (length os)"
    "head lg' = (if os = [] then head lg else Some (next_op lg' - 1))"
    "holds_ops lg' (next_op lg) (w_label w0) now os"
    "j < next_op lg \<Longrightarrow> log_op_at lg' j = log_op_at lg j \<or> log_op_at lg' j = None \<and> os \<noteq> [] \<and> retention_enabled ret"
proof -
  note P = begun_path [OF st b p] and B = begin_in_inv [OF st b]
  note a = P(1) and n = P(2,3) and w = P(5) and L = P(6,7) and E = B(2,5,6,9) P(4)
  note C = commit_log [OF w c]
  show "accounts rs os rs'" using p B(2) C(1) by (simp add: wpath_def)
  have empty: "ops lg' = ops lg" "next_op lg' = next_op lg" "head lg' = head lg" if "os = []"
    using that C(3) n a E by (auto split: if_splits)
  let ?s = "set_head (Some (next_op (log_after w) - 1)) (log_after w)"
  have s: "log_inv ?s" "ops ?s = ops (log_after w)" "snaps ?s = snaps (log_after w)" "next_op ?s = next_op (log_after w)"
    using append_ops_inv [OF L] a by (simp_all add: set_head_inv) (simp_all add: set_head_def)
  have t: "lg' = snd (trim ret (next_op lg) ?s)" if "os \<noteq> []" using that C(4) n E by simp
  have kept: "log_op_at lg' j = tget (ops (log_after w)) j" if "next_op lg \<le> j" "os \<noteq> []" for j
    using that trim_ok(2) [OF s(1)] in_doomed [of j ret "next_op lg" ?s] t s(2) by (auto simp: log_op_at_def)
  have snap: "snapshots lg' j b = snapshots (log_after w) j b" if "next_op lg \<le> j" "os \<noteq> []" for j b
    using trim_snapshots [OF s(1) that(1)] t [OF that(2)] s(3) by (simp add: snapshots_def)
  have ne: "os \<noteq> []" if "i < length os" for i using that by auto
  show "holds_ops lg' (next_op lg) (w_label w0) now os"
    using append_ops_snapshots [OF L, of _ os now] E ne
    by (simp add: holds_ops_def kept snap a append_ops_ops)
  show nx: "next_op lg' = next_op lg + int (length os)"
    using empty trim_ok(3) [OF s(1)] t s(4) n(2) by (cases "os = []") simp_all
  show "head lg' = (if os = [] then head lg else Some (next_op lg' - 1))"
    using empty trim_ok(3,4) [OF s(1)] t s(4) by (cases "os = []") (simp_all add: set_head_def)
  have "tget (ops (log_after w)) j = tget (ops lg) j" if "j < next_op lg" for j
    using that by (simp add: a append_ops_ops E)
  then have old: "tget (ops ?s) j = tget (ops lg) j" if "j < next_op lg" for j using that by (simp only: s(2))
  have "doomed ret (next_op lg) ?s = []" if "\<not> retention_enabled ret"
    using that by (simp add: doomed_def trim_class_def retention_enabled_def)
  then show "log_op_at lg' j = log_op_at lg j \<or> log_op_at lg' j = None \<and> os \<noteq> [] \<and> retention_enabled ret"
    if "j < next_op lg"
    using that trim_ok(2) [OF s(1), of ret "next_op lg" j] empty(1) t by (cases "os = []") (auto simp: log_op_at_def old)
qed

lemma write_runE:
  assumes st: "store_ok H rs lg" and r: "write_run H ctx ret now requests (rs, lg) = Inr (rs', lg')"
  obtains w0 w os where "begin_in ctx ret now rs lg = Inr w0" "wpath H w0 os w" "commit w = Inr (rs', lg')" "winv H w"
    "foldE (perform H) requests w0 = Inr w"
proof -
  obtain w0 w where b: "begin_in ctx ret now rs lg = Inr w0" and f: "foldE (perform H) requests w0 = Inr w"
    and c: "commit w = Inr (rs', lg')"
    using r by (auto simp: write_run_def bindE_eq_Inr)
  obtain os where p: "wpath H w0 os w" using session_path begin_in_inv(1) [OF st b] session_calls f by blast
  have "winv H w" using p by (simp add: wpath_def)
  from that [OF b p c this f] show thesis .
qed

lemma write_store_ok:
  assumes "store_ok H rs lg" and "write_run H ctx ret now requests (rs, lg) = Inr (rs', lg')"
  shows "store_ok H rs' lg'"
proof -
  obtain w where w: "winv H w" "commit w = Inr (rs', lg')" using write_runE [OF assms] .
  show ?thesis
    using winvD [OF w(1)] commit_log [OF w]
    by (simp add: store_ok_def versions_ok_def vers_of_rows content_def)
qed

section \<open>A sample write\<close>

definition sample_field :: "string \<Rightarrow> value \<Rightarrow> Field" where
  "sample_field n v = \<lparr>f_id = None, f_name = n, f_value = v\<rparr>"

definition sample_requests :: "request list" where
  "sample_requests =
     [CreateMetarecord 1 [sample_field ''t'' (VBool True), sample_field ''t'' (VBool True)],
      Append 1 ''t'' (VBool False), DeferChecks, DeleteValued 1 ''t'' (VBool True)]"

definition sample_store :: "rowstore \<times> oplog" where
  "sample_store = projr (write_run (\<lambda>_. 0) (context_new ''i'') UNLIMITED 5 sample_requests (empty_rows, empty_log))"

lemma sample_run:
  "write_run (\<lambda>_. 0) (context_new ''i'') UNLIMITED 5 sample_requests (empty_rows, empty_log) = Inr sample_store"
proof -
  have "\<not> isl (write_run (\<lambda>_. 0) (context_new ''i'') UNLIMITED 5 sample_requests (empty_rows, empty_log))"
    by code_simp
  then show ?thesis by (simp add: sample_store_def)
qed

lemma store_ok_empty: "store_ok H empty_rows empty_log"
  by (simp add: store_ok_def rows_inv_empty log_inv_empty)
    (simp add: empty_rows_def kv_version_def no_twins_def kv_value_types_def tscan_def)

lemma sample_pair:
  "write_run (\<lambda>_. 0) (context_new ''i'') UNLIMITED 5 sample_requests (empty_rows, empty_log) =
     Inr (fst sample_store, snd sample_store)"
  using sample_run by simp

section \<open>Properties\<close>

text \<open>C3: A write keeps the store sound. Whatever calls it makes, once committed the row tables and the
log satisfy their invariants, every stored version is the one recomputed from the metarecord's rows,
no metarecord holds a value twice under one name, and no field name holds two types of value.\<close>

theorem write_keeps_store:
  assumes "store_ok H rs lg" and "write_run H ctx ret now requests (rs, lg) = Inr (rs', lg')"
  shows "store_ok H rs' lg'"
  by (rule write_store_ok [OF assms])

theorem write_keeps_store_witness: "store_ok (\<lambda>_. 0) (fst sample_store) (snd sample_store)"
  by (rule write_keeps_store [OF store_ok_empty sample_pair])



end
