(* ===== verification/Forest.thy ===== *)
theory Forest
  imports Session
begin

text \<open>
  The forest of a field: the positions of its rows make a graph of metarecords, an edge from a
  metarecord to each of its parents. The check of a position (\<open>check_tree_ref\<close> of
  \<open>crates/daemon/src/log.rs\<close>) is shown to refuse exactly what would close a cycle, and a write,
  deferred checks included, to keep every forest free of cycles.
\<close>

section \<open>The graph of a field\<close>

definition edges :: "rowstore \<Rightarrow> string \<Rightarrow> (uuid \<times> uuid) set" where
  "edges s f = {(u, p). \<exists>v n. (f, v) \<in># content s u \<and> position v = Some (Some p, n)}"

definition forests_ok :: "rowstore \<Rightarrow> bool" where
  "forests_ok s \<longleftrightarrow> (\<forall>f. acyclic (edges s f))"

text \<open>The edges that do not leave a given metarecord.\<close>

definition others :: "rowstore \<Rightarrow> string \<Rightarrow> uuid \<Rightarrow> (uuid \<times> uuid) set" where
  "others s f u = {e \<in> edges s f. fst e \<noteq> u}"

lemma others_cong: "(\<And>x. x \<noteq> u \<Longrightarrow> content s x = content t x) \<Longrightarrow> others s f u = others t f u"
  by (auto simp: others_def edges_def)

text \<open>A path to a node passes through no edge that leaves it.\<close>

lemma path_to: "(p, u) \<in> R\<^sup>* \<longleftrightarrow> (p, u) \<in> {e \<in> R. fst e \<noteq> u}\<^sup>*"
proof
  assume "(p, u) \<in> R\<^sup>*"
  then show "(p, u) \<in> {e \<in> R. fst e \<noteq> u}\<^sup>*"
  proof (induction rule: converse_rtrancl_induct)
    case (step y z)
    then show ?case by (cases "y = u") (auto intro: converse_rtrancl_into_rtrancl)
  qed simp
next
  assume "(p, u) \<in> {e \<in> R. fst e \<noteq> u}\<^sup>*"
  then show "(p, u) \<in> R\<^sup>*" by (rule rtrancl_mono [THEN subsetD, rotated]) auto
qed

text \<open>Edges whose ends are not joined the other way close no cycle.\<close>

lemma acyclic_extend:
  assumes "acyclic U" and "\<And>u p. (u, p) \<in> E - U \<Longrightarrow> (p, u) \<notin> E\<^sup>*"
  shows "acyclic E"
proof -
  have split: "(x, y) \<in> U\<^sup>+ \<or> (\<exists>u p. (u, p) \<in> E - U \<and> (x, u) \<in> E\<^sup>* \<and> (p, y) \<in> E\<^sup>*)" if "(x, y) \<in> E\<^sup>+" for x y
    using that
  proof (induction rule: trancl_induct)
    case (base y)
    then show ?case by (cases "(x, y) \<in> U") (auto intro: r_into_trancl)
  next
    case (step y z)
    show ?case
    proof (cases "(x, y) \<in> U\<^sup>+ \<and> (y, z) \<in> U")
      case True
      then show ?thesis using trancl_into_trancl by fastforce
    next
      case False
      consider (new) "(y, z) \<in> E - U" | (old) "\<exists>u p. (u, p) \<in> E - U \<and> (x, u) \<in> E\<^sup>* \<and> (p, y) \<in> E\<^sup>*"
        using False step by blast
      then show ?thesis
      proof cases
        case new
        then show ?thesis using trancl_into_rtrancl [OF step.hyps(1)] by blast
      next
        case old
        then show ?thesis using step.hyps(2) rtrancl_into_rtrancl by metis
      qed
    qed
  qed
  show ?thesis
  proof (rule acyclicI, intro allI notI)
    fix x assume "(x, x) \<in> E\<^sup>+"
    from split [OF this] show False
      using assms rtrancl_trans unfolding acyclic_def by metis
  qed
qed

section \<open>The walk up\<close>

lemma in_map_filter: "y \<in> set (List.map_filter f xs) \<longleftrightarrow> (\<exists>x\<in>set xs. f x = Some y)"
  by (induction xs) (auto simp: List.map_filter_simps split: option.splits)

lemma in_some_parents:
  assumes "rows_inv H s"
  shows "p \<in> set (some_parents s f u) \<longleftrightarrow> (u, p) \<in> edges s f"
proof -
  have "(f, v) \<in># content s u \<longleftrightarrow> (\<exists>r\<in>set (kv_rows_named s u f). row_value r = v)" for v
  proof -
    have "(f, v) \<in># content s u \<longleftrightarrow> (\<exists>r\<in>set (kv_rows s u). row_name r = f \<and> row_value r = v)"
      by (auto simp: content_def bag_pairs pair_of_def image_iff)
    also have "\<dots> \<longleftrightarrow> (\<exists>r\<in>set (kv_rows_named s u f). row_value r = v)"
      unfolding Bex_def in_kv_rows [OF assms] in_kv_rows_named [OF assms] by metis
    finally show ?thesis .
  qed
  moreover have "p \<in> set (some_parents s f u) \<longleftrightarrow>
      (\<exists>r\<in>set (kv_rows_named s u f). \<exists>n. position (row_value r) = Some (Some p, n))"
  proof -
    have fst_iff: "map_option fst x = Some a \<longleftrightarrow> (\<exists>n. x = Some (a, n))" for x :: "(uuid option \<times> bytes) option" and a
      by (cases x) auto
    show ?thesis
      by (simp only: some_parents_def tree_parents_def in_map_filter id_apply fst_iff) (simp only: in_map_filter fst_iff bex_triv_one_point1)
  qed
  ultimately show ?thesis by (simp only: edges_def mem_Collect_eq case_prod_conv) blast
qed

lemma visit_frontier:
  assumes "foldE (visit_node s f m) frontier (visited, next) = Inr (visited', next')"
  shows "set visited' = set visited \<union> set frontier \<and> m \<notin> set frontier \<and>
    set next' = set next \<union> (\<Union>x\<in>set visited' - set visited. set (some_parents s f x))"
  using assms
proof (induction frontier arbitrary: visited "next")
  case (Cons x frontier)
  obtain a where a: "visit_node s f m x (visited, next) = Inr a" and r: "foldE (visit_node s f m) frontier a = Inr (visited', next')"
    using Cons.prems by (auto simp: bindE_eq_Inr)
  have "x \<noteq> m" using a by (auto simp: visit_node_def)
  show ?case
  proof (cases "x \<in> set visited")
    case True
    then have "a = (visited, next)" using a \<open>x \<noteq> m\<close> by (simp add: visit_node_def)
    then show ?thesis using Cons.IH r True \<open>x \<noteq> m\<close> by auto
  next
    case False
    then have "a = (visited @ [x], next @ some_parents s f x)" using a \<open>x \<noteq> m\<close> by (simp add: visit_node_def)
    then show ?thesis using Cons.IH [of "visited @ [x]" "next @ some_parents s f x"] r False \<open>x \<noteq> m\<close> by auto
  qed
qed simp

text \<open>A walk that ends has gone over a set closed under parents, without the metarecord.\<close>

lemma ancestor_walk_closed:
  assumes "ancestor_walk s f m chain visited frontier = Inr c" and "m \<notin> set visited"
    and "\<forall>x\<in>set visited. set (some_parents s f x) \<subseteq> set visited \<union> set frontier"
  shows "\<exists>V. set visited \<union> set frontier \<subseteq> V \<and> m \<notin> V \<and> (\<forall>x\<in>V. set (some_parents s f x) \<subseteq> V)"
  using assms
proof (induction s f m chain visited frontier rule: ancestor_walk.induct)
  case (1 s f m chain visited frontier)
  obtain visited' next' where v: "foldE (visit_node s f m) frontier (visited, []) = Inr (visited', next')"
    using 1(2) by (subst (asm) ancestor_walk.simps) (auto simp: bindE_eq_Inr)
  note V = visit_frontier [OF v]
  have inv: "m \<notin> set visited'" "\<forall>x\<in>set visited'. set (some_parents s f x) \<subseteq> set visited' \<union> set next'"
    using V 1(3,4) by auto
  show ?case
  proof (cases "next' = []")
    case True
    then show ?thesis using inv V by (intro exI [of _ "set visited'"]) auto
  next
    case False
    then have rest: "\<not> chain + 1 \<ge> MAX_TREE_DEPTH" "ancestor_walk s f m (chain + 1) visited' next' = Inr c"
      using 1(2) v by (subst (asm) ancestor_walk.simps; auto split: if_splits)+
    have "\<exists>V. set visited' \<union> set next' \<subseteq> V \<and> m \<notin> V \<and> (\<forall>x\<in>V. set (some_parents s f x) \<subseteq> V)"
      by (rule 1(1) [OF v refl False rest(1) rest(2) inv])
    then show ?thesis using V by auto
  qed
qed

lemma closed_reach:
  assumes "(x, y) \<in> R\<^sup>*" and "x \<in> V" and "\<And>a b. a \<in> V \<Longrightarrow> (a, b) \<in> R \<Longrightarrow> b \<in> V"
  shows "y \<in> V"
  using assms by (induction rule: rtrancl_induct) auto

lemma check_tree_ref_path:
  assumes inv: "rows_inv H s" and c: "check_tree_ref s m f v = Inr ()" and p: "position v = Some (Some p, n)"
  shows "(p, m) \<notin> (edges s f)\<^sup>*"
proof -
  obtain ch where "ancestor_walk s f m 1 [] [p] = Inr ch"
    using c p by (auto simp: check_tree_ref_def bindE_eq_Inr split: if_splits)
  from ancestor_walk_closed [OF this]
  obtain V where V: "p \<in> V" "m \<notin> V" "\<And>x. x \<in> V \<Longrightarrow> set (some_parents s f x) \<subseteq> V" by auto
  show ?thesis using closed_reach [of p m "edges s f" V] V in_some_parents [OF inv] by blast
qed

text \<open>A cycle it reports is one.\<close>

lemma visit_frontier_error:
  assumes "foldE (visit_node s f m) frontier a = Inl e"
  shows "m \<in> set frontier \<and> e = TreeCycle f"
  using assms by (induction frontier arbitrary: a) (auto simp: bindE_eq_Inl visit_node_def split: if_splits)

lemma ancestor_walk_error:
  assumes inv: "rows_inv H s" and "ancestor_walk s f m chain visited frontier = Inl e"
    and "\<forall>x\<in>set visited \<union> set frontier. (p, x) \<in> (edges s f)\<^sup>*"
  shows "e = TreeTooDeep \<or> e = TreeCycle f \<and> (p, m) \<in> (edges s f)\<^sup>*"
  using assms(2,3) inv
proof (induction s f m chain visited frontier rule: ancestor_walk.induct)
  case (1 s f m chain visited frontier)
  show ?case
  proof (cases "foldE (visit_node s f m) frontier (visited, [])")
    case (Inl e')
    then have "e' = e" using 1(2) by (subst (asm) ancestor_walk.simps) simp
    then show ?thesis using visit_frontier_error [OF Inl] 1(3) by blast
  next
    case (Inr a)
    obtain visited' next' where v: "foldE (visit_node s f m) frontier (visited, []) = Inr (visited', next')"
      using Inr by (cases a) auto
    note V = visit_frontier [OF v]
    have r: "\<forall>x\<in>set visited' \<union> set next'. (p, x) \<in> (edges s f)\<^sup>*"
    proof -
      have "(p, x) \<in> (edges s f)\<^sup>*" if "x \<in> set visited'" for x using that V 1(3) by auto
      moreover have "\<exists>y\<in>set visited'. (y, x) \<in> edges s f" if "x \<in> set next'" for x
        using that V in_some_parents [OF 1(4)] by auto
      ultimately show ?thesis using rtrancl_into_rtrancl by (metis Un_iff)
    qed
    have e: "e = TreeTooDeep" if "chain + 1 \<ge> MAX_TREE_DEPTH"
      using 1(2) v that by (subst (asm) ancestor_walk.simps) (auto split: if_splits)
    have go: "next' \<noteq> []" "\<not> chain + 1 \<ge> MAX_TREE_DEPTH \<Longrightarrow> ancestor_walk s f m (chain + 1) visited' next' = Inl e"
      using 1(2) v by (subst (asm) ancestor_walk.simps; auto split: if_splits)+
    show ?thesis using 1(1) [OF v refl go(1) _ go(2) r 1(4)] e by blast
  qed
qed

section \<open>What a writer has vetted\<close>

text \<open>
  A value is vetted by a write when it closes no cycle over the positions of the other
  metarecords or, the checks being deferred, when it is on the list the commit goes through.
\<close>

definition vetted :: "rowstore \<Rightarrow> writer \<Rightarrow> uuid \<Rightarrow> string \<times> value \<Rightarrow> bool" where
  "vetted s w u e \<longleftrightarrow> (\<forall>p k. position (snd e) = Some (Some p, k) \<longrightarrow> (case w_deferred_trees w of
     None \<Rightarrow> (p, u) \<notin> (others s (fst e) u)\<^sup>*
   | Some d \<Rightarrow> (u, fst e, snd e) \<in> set d))"

definition grows :: "writer \<Rightarrow> writer \<Rightarrow> bool" where
  "grows w w' \<longleftrightarrow> (case w_deferred_trees w of
     None \<Rightarrow> w_deferred_trees w' = None
   | Some d \<Rightarrow> \<exists>d'. w_deferred_trees w' = Some d' \<and> set d \<subseteq> set d')"

text \<open>The edges no deferred check is about.\<close>

definition settled :: "writer \<Rightarrow> string \<Rightarrow> (uuid \<times> uuid) set" where
  "settled w f = {(u, p). \<exists>v n. (f, v) \<in># content (tx_rows w) u \<and> position v = Some (Some p, n) \<and>
     (\<forall>d. w_deferred_trees w = Some d \<longrightarrow> (u, f, v) \<notin> set d)}"

definition forests_inv :: "writer \<Rightarrow> bool" where
  "forests_inv w \<longleftrightarrow> (\<forall>f. acyclic (settled w f))"

lemma grows_eq [simp]: "w_deferred_trees w' = w_deferred_trees w \<Longrightarrow> grows w w'"
  by (simp add: grows_def split: option.split)

lemma grows_trans: "grows a b \<Longrightarrow> grows b c \<Longrightarrow> grows a c"
  by (cases "w_deferred_trees a"; cases "w_deferred_trees b") (auto simp: grows_def)

lemma vetted_grows:
  assumes "vetted s w u e" and "grows w w'"
  shows "vetted s w' u e"
  using assms by (cases "w_deferred_trees w") (auto simp: vetted_def grows_def dest: subsetD)

lemma validate_vets:
  assumes v: "validate_tree_ref u n v w = Inr w'" and inv: "rows_inv H (tx_rows w)"
    and o: "others (tx_rows w) n u = others s n u"
  shows "vetted s w' u (n, v)" "grows w w'"
proof -
  show "grows w w'"
    using v by (cases "position v"; cases "w_deferred_trees w")
      (auto simp: validate_tree_ref_def grows_def bindE_eq_Inr split: if_splits)
  show "vetted s w' u (n, v)"
  proof (cases "position v")
    case (Some e)
    obtain p k where e: "e = (p, k)" by (cases e)
    show ?thesis
    proof (cases "w_deferred_trees w")
      case None
      then have c: "w' = w" "check_tree_ref (tx_rows w) u n v = Inr ()"
        using v Some e by (auto simp: validate_tree_ref_def bindE_eq_Inr split: if_splits)
      have "(q, u) \<notin> (others s n u)\<^sup>*" if "p = Some q" for q
        using check_tree_ref_path [OF inv c(2)] Some e that path_to [of q u "edges (tx_rows w) n"] o
        by (simp add: others_def)
      then show ?thesis using None c(1) Some e by (simp add: vetted_def)
    next
      case d: (Some d)
      then show ?thesis using v Some e by (auto simp: validate_tree_ref_def vetted_def split: if_splits)
    qed
  qed (simp add: vetted_def)
qed

text \<open>A step whose additions are vetted keeps the settled edges free of cycles.\<close>

lemma forest_step:
  assumes st: "wstep H w os w'" and g: "grows w w'" and e: "\<forall>op\<in>set os. no_entity op = u"
    and v: "\<forall>op\<in>set os. \<forall>r\<in>set (no_after op). vetted (tx_rows w) w' u (pair_of r)" and f: "forests_inv w"
  shows "forests_inv w'"
proof -
  have added: "c \<in># content (tx_rows w) x \<or> x = u \<and> vetted (tx_rows w) w' u c" if c: "c \<in># content (tx_rows w') x" for c x
  proof -
    have acc: "content (tx_rows w') x + rows_removed x os = content (tx_rows w) x + rows_added x os"
      using st by (simp add: wstep_def accounts_def)
    have "c \<in># content (tx_rows w) x + rows_added x os" using c acc by (metis union_iff)
    moreover have "\<exists>op\<in>set qs. no_entity op = x \<and> (\<exists>r\<in>set (no_after op). c = pair_of r)" if "c \<in># rows_added x qs" for qs
      using that by (induction qs) (auto simp: rows_added_def bag_pairs split: if_splits)
    then have "x = u \<and> vetted (tx_rows w) w' u c" if "c \<in># rows_added x os" using that e v by metis
    ultimately show ?thesis by auto
  qed
  show ?thesis
    unfolding forests_inv_def
  proof (intro allI)
    fix f'
    have ac: "acyclic (settled w f')" using f by (simp add: forests_inv_def)
    show "acyclic (settled w' f')"
    proof (cases "w_deferred_trees w")
      case (Some d)
      then obtain d' where d': "w_deferred_trees w' = Some d'" "set d \<subseteq> set d'" using g by (auto simp: grows_def)
      have "settled w' f' \<subseteq> settled w f'"
        using added Some d' unfolding settled_def vetted_def by fastforce
      then show ?thesis using ac acyclic_subset by blast
    next
      case None
      then have d': "w_deferred_trees w' = None" using g by (simp add: grows_def)
      have S: "settled w f' = edges (tx_rows w) f'" "settled w' f' = edges (tx_rows w') f'"
        using None d' by (simp_all add: settled_def edges_def)
      have oth: "others (tx_rows w') f' u \<subseteq> others (tx_rows w) f' u"
        using added by (auto simp: others_def edges_def) blast
      show ?thesis unfolding S
      proof (rule acyclic_extend [OF ac [unfolded S]])
        fix x p assume xp: "(x, p) \<in> edges (tx_rows w') f' - edges (tx_rows w) f'"
        then obtain y n where y: "(f', y) \<in># content (tx_rows w') x" "position y = Some (Some p, n)"
          by (auto simp: edges_def)
        moreover have "(f', y) \<notin># content (tx_rows w) x" using xp y(2) by (auto simp: edges_def)
        ultimately have "x = u" "(p, u) \<notin> (others (tx_rows w) f' u)\<^sup>*"
          using added [OF y(1)] d' by (auto simp: vetted_def)
        then show "(p, x) \<notin> (edges (tx_rows w') f')\<^sup>*"
          using path_to [of p u "edges (tx_rows w') f'"] rtrancl_mono [OF oth] by (auto simp: others_def)
      qed
    qed
  qed
qed

section \<open>The methods vet what they write\<close>

lemma vets_then:
  assumes "winv H w" and "validate_tree_ref u n v w = Inr wa" and "w_deferred_trees w' = w_deferred_trees wa"
  shows "vetted (tx_rows w) w' u (n, v) \<and> grows w w'"
  using validate_vets [OF assms(2) winvD(1) [OF assms(1)] refl] grows_eq [OF assms(3)] vetted_grows grows_trans by blast

lemma set_field_as_vets:
  assumes "winv H w" and "set_field_as H ty u n v w = Inr w'"
  shows "vetted (tx_rows w) w' u (n, v) \<and> grows w w'"
proof -
  obtain wa wb row wd where a: "validate_tree_ref u n v w = Inr wa" and b: "validate_value_type n v wa = Inr wb"
    and d: "tx_insert H u n v None (put_tx wb (delete_rows H u (Some n) (tx_rows wb))) = Inr (row, wd)"
    and w': "w_deferred_trees w' = w_deferred_trees wd"
    using assms(2) by (auto simp: set_field_as_def Let_def bindE_eq_Inr)
  show ?thesis
    by (rule vets_then [OF assms(1) a]) (simp add: w' tx_insert_ok(5) [OF d] validate_value_type_ok(3) [OF b])
qed

lemma append_field_vets:
  assumes "winv H w" and "append_field H u n v w = Inr (res, w')"
  shows "vetted (tx_rows w) w' u (n, v) \<and> grows w w'"
proof -
  obtain wa wb where a: "validate_tree_ref u n v w = Inr wa" and b: "validate_value_type n v wa = Inr wb"
    and w': "w_deferred_trees w' = w_deferred_trees wb"
    using assms(2) by (auto simp: append_field_def bindE_eq_Inr split: option.splits dest: tx_insert_ok(5))
  show ?thesis by (rule vets_then [OF assms(1) a]) (simp add: w' validate_value_type_ok(3) [OF b])
qed

lemma replace_owned_trees: "replace_owned_row H u old n v w = Inr w' \<Longrightarrow> w_deferred_trees w' = w_deferred_trees w"
  by (auto simp: replace_owned_row_def bindE_eq_Inr Let_def dest!: tx_insert_ok(5) split: if_splits)

lemma edit_row_vets:
  assumes "winv H w" and "validate_tree_ref u n v w = Inr wa" and "validate_value_type n v wa = Inr wb"
    and "replace_owned_row H u old n v wb = Inr w'"
  shows "vetted (tx_rows w) w' u (n, v) \<and> grows w w'"
  by (rule vets_then [OF assms(1,2)]) (simp add: replace_owned_trees [OF assms(4)] validate_value_type_ok(3) [OF assms(3)])

lemma checked_all_vets:
  assumes "foldE (\<lambda>v w. bindE (validate_tree_ref u n v w) (validate_value_type n v)) vs w = Inr wb"
    and "rows_inv H (tx_rows w)"
  shows "(\<forall>v\<in>set vs. vetted (tx_rows w) wb u (n, v)) \<and> grows w wb"
  using assms
proof (induction vs arbitrary: w)
  case (Cons v vs)
  obtain wa wc where a: "validate_tree_ref u n v w = Inr wa" and b: "validate_value_type n v wa = Inr wc"
    and rest: "foldE (\<lambda>v w. bindE (validate_tree_ref u n v w) (validate_value_type n v)) vs wc = Inr wb"
    using Cons.prems(1) by (auto simp: bindE_eq_Inr)
  have tx: "tx_rows wc = tx_rows w" using validate_tree_ref_ok(1) [OF a] validate_value_type_ok(1) [OF b] by simp
  have V: "vetted (tx_rows w) wa u (n, v)" "grows w wa" using validate_vets [OF a Cons.prems(2) refl] by blast+
  have "grows wa wc" using validate_value_type_ok(3) [OF b] by simp
  then show ?case using V Cons.IH [OF rest] Cons.prems(2) tx vetted_grows grows_trans by (metis set_ConsD)
qed simp

lemma set_field_multi_as_vets:
  assumes "winv H w" and "set_field_multi_as H ty u n vs w = Inr (ids, w')"
  shows "(\<forall>v\<in>set vs. vetted (tx_rows w) w' u (n, v)) \<and> grows w w'"
proof -
  obtain wb after wd where v: "foldE (\<lambda>v w. bindE (validate_tree_ref u n v w) (validate_value_type n v)) vs w = Inr wb"
    and d: "foldE (insert_step H u n) (fst (collapse_duplicates vs)) ([], put_tx wb (delete_rows H u (Some n) (tx_rows wb))) = Inr (after, wd)"
    and w': "w_deferred_trees w' = w_deferred_trees wd"
    using assms(2) by (auto simp: set_field_multi_as_def Let_def bindE_eq_Inr case_prod_beta)
  have "w_deferred_trees (snd (after, wd)) = w_deferred_trees wb"
    by (rule foldE_invariant [OF d]) (auto simp: insert_step_def bindE_eq_Inr dest: tx_insert_ok(5))
  then have "grows wb w'" using w' by simp
  then show ?thesis using checked_all_vets [OF v winvD(1) [OF assms(1)]] vetted_grows grows_trans by blast
qed

lemma create_step_trees: "create_step H u f a = Inr b \<Longrightarrow> w_deferred_trees (snd b) = w_deferred_trees (snd a)"
  by (auto simp: create_step_def bindE_eq_Inr dest!: tx_insert_ok(5) validate_value_type_ok(3))

lemma tree_refs_vetted:
  assumes "foldE (\<lambda>f. validate_tree_ref u (f_name f) (f_value f)) fs w = Inr wb" and "rows_inv H (tx_rows w)"
  shows "(\<forall>f\<in>set fs. vetted (tx_rows w) wb u (field_pair f)) \<and> grows w wb"
  using assms
proof (induction fs arbitrary: w)
  case (Cons f fs)
  obtain wc where a: "validate_tree_ref u (f_name f) (f_value f) w = Inr wc"
    and rest: "foldE (\<lambda>f. validate_tree_ref u (f_name f) (f_value f)) fs wc = Inr wb"
    using Cons.prems(1) by (auto simp: bindE_eq_Inr)
  have V: "vetted (tx_rows w) wc u (field_pair f)" "grows w wc"
    using validate_vets [OF a Cons.prems(2) refl] by (simp_all add: field_pair_def)
  then show ?case
    using Cons.IH [OF rest] Cons.prems(2) validate_tree_ref_ok(1) [OF a] vetted_grows grows_trans by (metis set_ConsD)
qed simp

lemma create_metarecord_vets:
  assumes "winv H w" and "create_metarecord_with_uuid H u fs w = Inr (rec, w')"
  shows "(\<forall>f\<in>set (collapse_duplicate_fields fs). vetted (tx_rows w) w' u (field_pair f)) \<and> grows w w'"
proof -
  obtain wb s after wd where v: "foldE (\<lambda>f. validate_tree_ref u (f_name f) (f_value f)) (collapse_duplicate_fields fs) w = Inr wb"
    and d: "foldE (create_step H u) (collapse_duplicate_fields fs) ([], put_tx wb s) = Inr (after, wd)"
    and w': "w_deferred_trees w' = w_deferred_trees wd"
    using assms(2) by (auto simp: create_metarecord_with_uuid_def Let_def bindE_eq_Inr)
  have "w_deferred_trees (snd (after, wd)) = w_deferred_trees wb"
    by (rule foldE_invariant [OF d]) (simp_all add: create_step_trees)
  then have "grows wb w'" using w' by simp
  then show ?thesis using tree_refs_vetted [OF v winvD(1) [OF assms(1)]] vetted_grows grows_trans by blast
qed

lemma set_step_frame:
  assumes "set_step H u f a = Inr b" and "rows_inv H (tx_rows (snd a))" and "\<forall>x. x \<noteq> u \<longrightarrow> content (tx_rows (snd a)) x = content s x"
  shows "vetted s (snd b) u (field_pair f) \<and> grows (snd a) (snd b) \<and> rows_inv H (tx_rows (snd b)) \<and>
    (\<forall>x. x \<noteq> u \<longrightarrow> content (tx_rows (snd b)) x = content s x)"
proof -
  obtain wv wt i t where v: "validate_tree_ref u (f_name f) (f_value f) (snd a) = Inr wv"
    and c: "create_step H u f (fst a, wv) = Inr b" and vt: "validate_value_type (f_name f) (f_value f) wv = Inr wt"
    and ins: "insert_row H u (f_name f) (f_value f) None (tx_rows wt) = Inr (i, t)" and b: "tx_rows (snd b) = t"
    using assms(1) by (auto simp: set_step_def create_step_def tx_insert_def bindE_eq_Inr)
  have tx: "tx_rows wt = tx_rows (snd a)" using validate_tree_ref_ok(1) [OF v] validate_value_type_ok(1) [OF vt] by simp
  have "others (tx_rows (snd a)) (f_name f) u = others s (f_name f) u" using assms(3) by (intro others_cong) blast
  from validate_vets [OF v assms(2) this]
  have V: "vetted s wv u (field_pair f)" "grows (snd a) wv" by (simp_all add: field_pair_def)
  have "grows wv (snd b)" using create_step_trees [OF c] by simp
  then show ?thesis
    using V vetted_grows grows_trans insert_row_ok(1,6) [OF ins] assms(2,3) by (auto simp: tx b)
qed

lemma set_loop_vets:
  assumes "foldE (set_step H u) fs a = Inr b" and "rows_inv H (tx_rows (snd a))"
    and "\<forall>x. x \<noteq> u \<longrightarrow> content (tx_rows (snd a)) x = content s x"
  shows "(\<forall>f\<in>set fs. vetted s (snd b) u (field_pair f)) \<and> grows (snd a) (snd b)"
  using assms
proof (induction fs arbitrary: a)
  case (Cons f fs)
  obtain c where c: "set_step H u f a = Inr c" and rest: "foldE (set_step H u) fs c = Inr b"
    using Cons.prems(1) by (auto simp: bindE_eq_Inr)
  note F = set_step_frame [OF c Cons.prems(2,3)]
  then have "(\<forall>f\<in>set fs. vetted s (snd b) u (field_pair f)) \<and> grows (snd c) (snd b)" using Cons.IH [OF rest] by blast
  then show ?case using F vetted_grows grows_trans by (metis set_ConsD)
qed simp

lemma set_record_vets:
  assumes "winv H w" and "set_record H u fs w = Inr (rec, w')"
  shows "(\<forall>f\<in>set (collapse_duplicate_fields fs). vetted (tx_rows w) w' u (field_pair f)) \<and> grows w w'"
proof -
  let ?w1 = "put_tx w (delete_rows H u None (tx_rows w))"
  let ?w2 = "foldl (\<lambda>w r. forget_type (row_name r) w) ?w1 (kv_rows (tx_rows w) u)"
  obtain after wd where l: "foldE (set_step H u) (collapse_duplicate_fields fs) ([], ?w2) = Inr (after, wd)"
    and w': "w_deferred_trees w' = w_deferred_trees wd"
    using assms(2) by (auto simp: set_record_def Let_def bindE_eq_Inr)
  have t: "w_deferred_trees (foldl (\<lambda>w r. forget_type (row_name r) w) x rs) = w_deferred_trees x" for x and rs :: "FieldRow list"
    by (induction rs arbitrary: x) simp_all
  have "halfstep H w u (kv_rows (tx_rows w) u) [] ?w1" by (rule halfstep_delete_all [OF assms(1)])
  then have "rows_inv H (tx_rows ?w2)" "\<forall>x. x \<noteq> u \<longrightarrow> content (tx_rows ?w2) x = content (tx_rows w) x"
    using forget_types [of ?w1 "kv_rows (tx_rows w) u"] by (simp_all add: halfstep_def)
  from set_loop_vets [OF l, of "tx_rows w"] this
  have V: "\<forall>f\<in>set (collapse_duplicate_fields fs). vetted (tx_rows w) wd u (field_pair f)" "grows ?w2 wd" by simp_all
  have g: "grows w ?w2" "grows wd w'" using w' t by simp_all
  show ?thesis using V vetted_grows [OF _ g(2)] grows_trans [OF g(1) grows_trans [OF V(2) g(2)]] by blast
qed

section \<open>Writes keep the forests\<close>

lemma delete_field_rows_trees: "delete_field_rows H u n rows w = Inr (k, w') \<Longrightarrow> w_deferred_trees w' = w_deferred_trees w"
proof -
  have "w_deferred_trees (foldl (\<lambda>w r. put_tx w (delete_row H (row_id r) (tx_rows w))) x rs) = w_deferred_trees x" for x rs
    by (induction rs arbitrary: x) simp_all
  then show "delete_field_rows H u n rows w = Inr (k, w') \<Longrightarrow> w_deferred_trees w' = w_deferred_trees w"
    by (auto simp: delete_field_rows_def bindE_eq_Inr Let_def split: if_splits)
qed

lemma forest_shrink:
  assumes "wstep H w [op] w'" and "no_after op = []" and "w_deferred_trees w' = w_deferred_trees w" and "forests_inv w"
  shows "forests_inv w'"
  by (rule forest_step [OF assms(1) grows_eq [OF assms(3)], of "no_entity op"]) (simp_all add: assms)

lemma forest_add:
  assumes "wstep H w [op] w'" and "map pair_of (no_after op) = ps" and "no_entity op = u"
    and "(\<forall>e\<in>set ps. vetted (tx_rows w) w' u e) \<and> grows w w'" and "forests_inv w"
  shows "forests_inv w'"
proof (rule forest_step [OF assms(1) _ _ _ assms(5)])
  show "\<forall>op\<in>set [op]. \<forall>r\<in>set (no_after op). vetted (tx_rows w) w' u (pair_of r)"
    using assms(2,4) by auto
qed (use assms in simp_all)

lemma edit_row_forest:
  assumes "winv H w" and "get_owned_row w u i = Inr old" and "validate_tree_ref u n v w = Inr wa"
    and "validate_value_type n v wa = Inr wb" and "reject_duplicate wb u i n v = Inr ()"
    and "replace_owned_row H u old n v wb = Inr w'" and "forests_inv w"
  shows "forests_inv w'"
proof -
  obtain op1 op2 row where s: "wstep H w [op1, op2] w'" and o: "no_entity op1 = u" "no_after op1 = []"
    "no_entity op2 = u" "no_after op2 = [row]" "row = \<lparr>row_id = i, row_name = n, row_value = v\<rparr>"
    using edit_row_step [OF assms(1-6)] by blast
  show ?thesis
    by (rule forest_step [OF s _ _ _ assms(7)])
      (use edit_row_vets [OF assms(1,3,4,6)] o in \<open>auto simp: pair_of_def\<close>)
qed

lemma perform_forests:
  assumes w: "winv H w" and p: "perform H r w = Inr w'" and f: "forests_inv w"
  shows "forests_inv w'"
proof (cases r)
  case (ClearField ty u n)
  then have c: "clear_field_as H ty u n w = Inr w'" using p by simp
  then have "w_deferred_trees w' = w_deferred_trees w"
    by (auto simp: clear_field_as_def Let_def bindE_eq_Inr split: if_splits)
  then show ?thesis using clear_field_as_step [OF w c] forest_shrink f by blast
next
  case (CreateMetarecord u fs)
  then obtain rec where c: "create_metarecord_with_uuid H u fs w = Inr (rec, w')" using p by (auto simp: bindE_eq_Inr)
  obtain op where "wstep H w [op] w'" "map pair_of (no_after op) = map field_pair (collapse_duplicate_fields fs)" "no_entity op = u"
    using create_metarecord_step(1) [OF w c] by blast
  from forest_add [OF this _ f] show ?thesis using create_metarecord_vets [OF w c] by simp
next
  case (DeleteMetarecord u)
  then have c: "delete_metarecord H u w = Inr w'" using p by simp
  then have "w_deferred_trees w' = w_deferred_trees w"
    by (auto simp: delete_metarecord_def Let_def bindE_eq_Inr split: if_splits)
  then show ?thesis using delete_metarecord_step(1) [OF w c] forest_shrink f by blast
next
  case (SetRecordFields u fs)
  then obtain rec where c: "set_record H u fs w = Inr (rec, w')" using p by (auto simp: bindE_eq_Inr)
  obtain op where "wstep H w [op] w'" "map pair_of (no_after op) = map field_pair (collapse_duplicate_fields fs)" "no_entity op = u"
    using set_record_step [OF w c] by blast
  from forest_add [OF this _ f] show ?thesis using set_record_vets [OF w c] by simp
next
  case (SetOne ty u n v)
  then have c: "set_field_as H ty u n v w = Inr w'" using p by simp
  obtain op row where "wstep H w [op] w'" "map pair_of (no_after op) = [(n, v)]" "no_entity op = u"
    using set_field_as_step [OF w c] by (metis list.simps(8,9))
  from forest_add [OF this _ f] show ?thesis using set_field_as_vets [OF w c] by simp
next
  case (SetMany ty u n vs)
  then obtain ids where c: "set_field_multi_as H ty u n vs w = Inr (ids, w')" using p by (auto simp: bindE_eq_Inr)
  obtain op where "wstep H w [op] w'" "map pair_of (no_after op) = map (Pair n) (dedup_by value_eq [] vs)" "no_entity op = u"
    using set_field_multi_as_step [OF w c] by blast
  from forest_add [OF this _ f] show ?thesis
    using set_field_multi_as_vets [OF w c] dedup_by_subset [of value_eq "[]" vs] by auto
next
  case (Append u n v)
  then obtain res where c: "append_field H u n v w = Inr (res, w')" using p by (auto simp: bindE_eq_Inr)
  note V = append_field_vets [OF w c]
  consider "wstep H w [] w'" | op where "wstep H w [op] w'" "map pair_of (no_after op) = [(n, v)]" "no_entity op = u"
    using append_field_step [OF w c] by (metis list.simps(8,9))
  then show ?thesis
  proof cases
    case 1
    show ?thesis by (rule forest_step [OF 1 conjunct2 [OF V], of u]) (simp_all add: f)
  next
    case 2
    from forest_add [OF this _ f] show ?thesis using V by simp
  qed
next
  case (Replace u i v)
  then show ?thesis using p edit_row_forest [OF w _ _ _ _ _ f] by (auto simp: replace_field_def bindE_eq_Inr)
next
  case (Rename u i n v)
  then show ?thesis using p edit_row_forest [OF w _ _ _ _ _ f] by (auto simp: rename_field_def bindE_eq_Inr)
next
  case (DeleteOne u i)
  then have c: "delete_field H u i w = Inr w'" using p by simp
  then have "w_deferred_trees w' = w_deferred_trees w" by (auto simp: delete_field_def Let_def bindE_eq_Inr)
  then show ?thesis using delete_field_step [OF w c] forest_shrink f by blast
next
  case (DeleteValued u n v)
  then obtain k where c: "delete_fields_valued H u n v w = Inr (k, w')" using p by (auto simp: bindE_eq_Inr)
  then have "w_deferred_trees w' = w_deferred_trees w" using delete_field_rows_trees by (simp add: delete_fields_valued_def)
  then show ?thesis using delete_fields_valued_step [OF w c] forest_shrink f by blast
next
  case (DeleteNamed u n)
  then obtain k where c: "delete_fields_named H u n w = Inr (k, w')" using p by (auto simp: bindE_eq_Inr)
  then have "w_deferred_trees w' = w_deferred_trees w" using delete_field_rows_trees by (simp add: delete_fields_named_def)
  then show ?thesis using delete_fields_named_step [OF w c] forest_shrink f by blast
next
  case DeferChecks
  then show ?thesis
    using p f by (cases "w_deferred_trees w") (auto simp: defer_type_checks_def forests_inv_def settled_def)
qed (use p f in \<open>auto simp: reverting_def set_origin_def forests_inv_def settled_def\<close>)

lemma session_forests:
  assumes "session H w w'" and "winv H w" and "forests_inv w"
  shows "winv H w' \<and> forests_inv w'"
  using assms
proof (induction rule: session.induct)
  case (session_call w w' r w'')
  then show ?case using perform_forests perform_path by (meson wpath_def)
qed simp

text \<open>The commit settles what was deferred.\<close>

lemma commit_forests:
  assumes w: "winv H w" and f: "forests_inv w" and c: "commit w = Inr (rs, lg)"
  shows "forests_ok rs"
  unfolding forests_ok_def
proof (intro allI)
  fix f'
  have rs: "rs = tx_rows w" using commit_log(1) [OF w c] .
  show "acyclic (edges rs f')"
  proof (rule acyclic_extend)
    show "acyclic (settled w f')" using f by (simp add: forests_inv_def)
  next
    fix u p assume e: "(u, p) \<in> edges rs f' - settled w f'"
    then obtain v n where v: "(f', v) \<in># content (tx_rows w) u" "position v = Some (Some p, n)"
      by (auto simp: edges_def rs)
    moreover have "\<not> (\<forall>d. w_deferred_trees w = Some d \<longrightarrow> (u, f', v) \<notin> set d)" using e v by (auto simp: settled_def)
    ultimately obtain d where d: "w_deferred_trees w = Some d" "(u, f', v) \<in> set d" by blast
    have eq: "value_eq v v" using v(2) by (cases v) auto
    have "\<exists>r\<in>set (kv_rows_named (tx_rows w) u f'). value_eq (row_value r) v"
    proof -
      obtain r where r: "r \<in> set (kv_rows (tx_rows w) u)" "row_name r = f'" "row_value r = v"
        using v(1) by (auto simp: content_def bag_pairs pair_of_def)
      then show ?thesis
        using in_kv_rows [OF winvD(1) [OF w]] in_kv_rows_named [OF winvD(1) [OF w]] eq by metis
    qed
    moreover
    let ?g = "\<lambda>(x, m, y). if \<exists>r\<in>set (kv_rows_named (tx_rows w) x m). value_eq (row_value r) y
        then check_tree_ref (tx_rows w) x m y else Inr ()"
    have "check_deferred_trees w = foldE (\<lambda>e _. ?g e) d ()"
      using d(1) by (simp add: check_deferred_trees_def case_prod_beta')
    then have "\<forall>e\<in>set d. ?g e = Inr ()" using c by (auto simp: commit_def bindE_eq_Inr foldE_unit_all)
    then have "?g (u, f', v) = Inr ()" using d(2) by blast
    ultimately have "check_tree_ref (tx_rows w) u f' v = Inr ()" by simp
    then show "(p, u) \<notin> (edges rs f')\<^sup>*" using check_tree_ref_path [OF winvD(1) [OF w] _ v(2)] rs by blast
  qed
qed

lemma write_forests_ok:
  assumes "store_ok H rs lg" and "forests_ok rs" and "write_run H ctx ret now requests (rs, lg) = Inr (rs', lg')"
  shows "forests_ok rs'"
proof -
  obtain w0 w where b: "begin_in ctx ret now rs lg = Inr w0" and f: "foldE (perform H) requests w0 = Inr w"
    and c: "commit w = Inr (rs', lg')"
    using assms(3) by (auto simp: write_run_def bindE_eq_Inr)
  note B = begin_in_inv [OF assms(1) b]
  have "w_deferred_trees w0 = None" using b by (auto simp: begin_in_def bindE_eq_Inr)
  then have "forests_inv w0" using assms(2) B(2) by (simp add: forests_inv_def forests_ok_def settled_def edges_def)
  then have "winv H w \<and> forests_inv w" using session_forests [of H w0 w] B(1) session_calls f by blast
  then show ?thesis using commit_forests c by blast
qed

section \<open>Properties\<close>

definition sample_tree :: "rowstore \<times> oplog" where
  "sample_tree = projr (write_run (\<lambda>_. 0) (context_new ''i'') UNLIMITED 5
     [CreateMetarecord 1 [sample_field ''d'' (VTreeRef None ''r'')],
      CreateMetarecord 2 [sample_field ''d'' (VTreeRef (Some 1) ''a'')]] (empty_rows, empty_log))"

lemma sample_tree_run:
  "write_run (\<lambda>_. 0) (context_new ''i'') UNLIMITED 5
     [CreateMetarecord 1 [sample_field ''d'' (VTreeRef None ''r'')],
      CreateMetarecord 2 [sample_field ''d'' (VTreeRef (Some 1) ''a'')]] (empty_rows, empty_log) =
   Inr (fst sample_tree, snd sample_tree)"
proof -
  have "\<not> isl (write_run (\<lambda>_. 0) (context_new ''i'') UNLIMITED 5
     [CreateMetarecord 1 [sample_field ''d'' (VTreeRef None ''r'')],
      CreateMetarecord 2 [sample_field ''d'' (VTreeRef (Some 1) ''a'')]] (empty_rows, empty_log))"
    by code_simp
  then show ?thesis by (simp add: sample_tree_def)
qed

lemma forests_ok_empty: "forests_ok empty_rows"
proof -
  have "edges empty_rows f = {}" for f by (simp add: edges_def content_cells cells_of_def empty_rows_def)
  then show ?thesis by (simp add: forests_ok_def acyclic_def)
qed

lemma sample_tree_inv: "rows_inv (\<lambda>_. 0) (fst sample_tree)"
proof -
  obtain w where "winv (\<lambda>_. 0) w" "commit w = Inr (fst sample_tree, snd sample_tree)"
    using write_runE [OF store_ok_empty sample_tree_run] .
  then show ?thesis using commit_log(1) winvD(1) by metis
qed

text \<open>C8: No write puts a cycle in a forest: when the positions of every field form no cycle before a
write, they form none after its commit, whatever the calls and whether the checks were made at each
call or deferred to the commit.\<close>

theorem write_keeps_forests:
  assumes "store_ok H rs lg" and "forests_ok rs" and "write_run H ctx ret now requests (rs, lg) = Inr (rs', lg')"
  shows "forests_ok rs'"
  by (rule write_forests_ok [OF assms])

theorem write_keeps_forests_witness: "forests_ok (fst sample_tree)"
  by (rule write_keeps_forests [OF store_ok_empty forests_ok_empty sample_tree_run])



end
