(* ===== verification/Label_Tree.thy ===== *)
theory Label_Tree
  imports Session
begin

text \<open>
  The labels of the log form a forest, a parent's id below its children's. The walks down a label
  of \<open>crates/daemon/src/log.rs\<close> (\<open>label_subtree\<close>, \<open>first_op_under\<close>) end, meet every label below it
  once, and find its first operation.
\<close>

section \<open>Below a label\<close>

definition child_of :: "oplog \<Rightarrow> (int \<times> int) set" where
  "child_of s = {(p, c). c \<in> set (label_children s p)}"

definition below :: "oplog \<Rightarrow> int \<Rightarrow> int set" where
  "below s l = {c. (l, c) \<in> (child_of s)\<^sup>*}"

lemma child_iff:
  "log_inv s \<Longrightarrow> (p, c) \<in> child_of s \<longleftrightarrow> (\<exists>m k. tget (labels s) c = Some (m, k) \<and> lm_parent m = Some p)"
  by (simp add: child_of_def in_label_children)

lemma child_above: "log_inv s \<Longrightarrow> (p, c) \<in> child_of s \<Longrightarrow> p < c"
  using child_iff label_parent log_invD(6) by blast

lemma one_parent: "log_inv s \<Longrightarrow> (p, c) \<in> child_of s \<Longrightarrow> (q, c) \<in> child_of s \<Longrightarrow> p = q"
  by (auto simp: child_iff)

lemma distinct_children: "log_inv s \<Longrightarrow> distinct (label_children s l)"
  using sorted_ids_under [of "label_kids s" l] log_invD(3) [of s] strict_sorted_iff
  by (auto simp: label_children_def log_ordered_def)

text \<open>
  A walk in progress: \<open>done\<close> the labels whose children were taken, \<open>todo\<close> the others met. No label
  is met twice, which bounds the walk by the number of labels.
\<close>

definition walk_inv :: "oplog \<Rightarrow> int \<Rightarrow> int list \<Rightarrow> int list \<Rightarrow> bool" where
  "walk_inv s l done todo \<longleftrightarrow> distinct (done @ todo) \<and> l \<in> set (done @ todo) \<and>
     (\<forall>x\<in>set (done @ todo). l \<le> x \<and> (x \<noteq> l \<longrightarrow> (\<exists>p\<in>set done. (p, x) \<in> child_of s))) \<and>
     (\<forall>p\<in>set done. set (label_children s p) \<subseteq> set (done @ todo))"

lemma walk_inv_start: "walk_inv s l [] [l]"
  by (simp add: walk_inv_def)

lemma walk_inv_permute: "mset todo = mset todo' \<Longrightarrow> walk_inv s l done todo \<Longrightarrow> walk_inv s l done todo'"
  using mset_eq_setD [of todo todo'] mset_eq_imp_distinct_iff [of todo todo'] by (auto simp: walk_inv_def)

lemma walk_inv_step:
  assumes inv: "log_inv s" and w: "walk_inv s l done (x # todo)"
  shows "walk_inv s l (done @ [x]) (todo @ label_children s x)"
proof -
  note W = w [unfolded walk_inv_def]
  have new: "c \<notin> set done \<union> {x} \<union> set todo" if "c \<in> set (label_children s x)" for c
  proof
    assume c: "c \<in> set done \<union> {x} \<union> set todo"
    have xc: "(x, c) \<in> child_of s" using that by (simp add: child_of_def)
    have "l \<le> x" using W by simp
    then have "c \<noteq> l" using child_above [OF inv xc] by simp
    moreover have "c \<in> set (done @ x # todo)" using c by auto
    ultimately have "\<exists>p\<in>set done. (p, c) \<in> child_of s" using W by blast
    then obtain p where "p \<in> set done" "(p, c) \<in> child_of s" by blast
    then have "x \<in> set done" using one_parent [OF inv xc] by simp
    then show False using W by simp
  qed
  have "l \<le> c" if "c \<in> set (label_children s x)" for c
    using child_above [OF inv, of x c] that W by (fastforce simp: child_of_def)
  then show ?thesis
    using W new distinct_children [OF inv, of x] unfolding walk_inv_def by (auto simp: child_of_def)
qed

lemma walk_inv_bound:
  assumes inv: "log_inv s" and w: "walk_inv s l done todo"
  shows "length done + length todo \<le> length (labels s) + 1"
proof -
  have "x = l \<or> x \<in> set (map fst (labels s))" if x: "x \<in> set (done @ todo)" for x
  proof (cases "x = l")
    case False
    then obtain p where "(p, x) \<in> child_of s" using w x unfolding walk_inv_def by blast
    then obtain e where "tget (labels s) x = Some e" using child_iff [OF inv] by blast
    then have "(x, e) \<in> set (labels s)" by (rule tget_Some_in)
    then show ?thesis by force
  qed simp
  then have "set (done @ todo) \<subseteq> insert l (set (map fst (labels s)))" by blast
  then have "card (set (done @ todo)) \<le> card (insert l (set (map fst (labels s))))" by (intro card_mono) auto
  also have "\<dots> \<le> length (labels s) + 1" using card_length [of "map fst (labels s)"] card_insert_le_m1 by (simp add: card_insert_if)
  finally have "card (set (done @ todo)) \<le> length (labels s) + 1" .
  moreover have "distinct (done @ todo)" using w by (simp only: walk_inv_def)
  ultimately show ?thesis by (simp only: distinct_card length_append)
qed

lemma walk_inv_end:
  assumes inv: "log_inv s" and w: "walk_inv s l done []"
  shows "set done = below s l"
proof
  note W = w [unfolded walk_inv_def, simplified]
  show "below s l \<subseteq> set done"
  proof
    fix c assume "c \<in> below s l"
    then have "(l, c) \<in> (child_of s)\<^sup>*" by (simp add: below_def)
    then show "c \<in> set done"
      by (induction rule: rtrancl_induct) (use W in \<open>auto simp: child_of_def\<close>)
  qed
  show "set done \<subseteq> below s l"
  proof
    fix x assume "x \<in> set done"
    then show "x \<in> below s l"
    proof (induction "nat (x - l)" arbitrary: x rule: less_induct)
      case less
      show ?case
      proof (cases "x = l")
        case False
        then obtain p where p: "p \<in> set done" "(p, x) \<in> child_of s" using W less.prems by blast
        have "nat (p - l) < nat (x - l)" using child_above [OF inv p(2)] W p(1) by auto
        from less.hyps [OF this p(1)] show ?thesis using p(2) by (auto simp: below_def intro: rtrancl_into_rtrancl)
      qed (simp add: below_def)
    qed
  qed
qed

section \<open>The two walks\<close>

lemma subtree_walk_ok:
  assumes "log_inv s" and "walk_inv s l (take i out) (drop i out)" and "i \<le> length out"
    and "length (labels s) + 1 \<le> fuel + i"
  shows "\<exists>ls. subtree_walk fuel s out i = Some ls \<and> distinct ls \<and> set ls = below s l"
  using assms
proof (induction fuel s out i rule: subtree_walk.induct)
  case (1 fuel s out i)
  show ?case
  proof (cases "length out \<le> i")
    case True
    then show ?thesis
      using walk_inv_end [OF 1(2), of l out] 1(3,4) by (subst subtree_walk.simps) (auto simp: walk_inv_def)
  next
    case False
    have "length out \<le> length (labels s) + 1" using walk_inv_bound [OF 1(2,3)] False by simp
    then obtain f where f: "fuel = Suc f" using False 1(5) by (cases fuel) auto
    let ?out = "out @ label_children s (out ! i)"
    have "drop i out = out ! i # drop (i + 1) out" using False by (simp add: Cons_nth_drop_Suc)
    then have "walk_inv s l (take i out @ [out ! i]) (drop (i + 1) out @ label_children s (out ! i))"
      using walk_inv_step [OF 1(2), of l "take i out" "out ! i"] 1(3) by simp
    then have w: "walk_inv s l (take (i + 1) ?out) (drop (i + 1) ?out)" using False by (simp add: take_Suc_conv_app_nth)
    have "i + 1 \<le> length ?out" "length (labels s) + 1 \<le> f + (i + 1)" using False 1(5) f by simp_all
    from 1(1) [OF False f 1(2) w this] show ?thesis using f False by (subst subtree_walk.simps) simp
  qed
qed

text \<open>The first operation under a set of labels.\<close>

definition lowest :: "oplog \<Rightarrow> int set \<Rightarrow> int option \<Rightarrow> bool" where
  "lowest s L m \<longleftrightarrow> (case m of
     None \<Rightarrow> \<forall>i r. tget (ops s) i = Some r \<longrightarrow> label_id r \<notin> L
   | Some i \<Rightarrow> (\<exists>r. tget (ops s) i = Some r \<and> label_id r \<in> L) \<and>
               (\<forall>j r. tget (ops s) j = Some r \<and> label_id r \<in> L \<longrightarrow> i \<le> j))"

lemma lowest_label:
  assumes inv: "log_inv s"
  shows "lowest s {l} (label_first_op s l)"
proof (cases "label_first_op s l")
  case (Some i)
  then show ?thesis
    using label_first_op_least [OF inv Some] in_label_op_ids [OF inv] by (auto simp: lowest_def)
next
  case None
  then show ?thesis using label_first_op_None [OF inv, of l] unfolding lowest_def None by simp
qed

lemma lowest_Un:
  assumes "lowest s A a" and "lowest s B b"
  shows "lowest s (A \<union> B) (case b of None \<Rightarrow> a | Some op \<Rightarrow> Some (case a of None \<Rightarrow> op | Some f \<Rightarrow> min f op))"
proof (cases a; cases b)
  fix i j assume ab: "a = Some i" "b = Some j"
  then show ?thesis using assms by (cases "i \<le> j") (auto simp: lowest_def min_def dest: order_trans)
qed (use assms in \<open>auto simp: lowest_def\<close>)

lemma first_op_walk_ok:
  assumes "log_inv s" and "walk_inv s l done todo" and "length (labels s) + 1 \<le> fuel + length done"
    and "lowest s (set done) first"
  shows "\<exists>m. first_op_walk fuel s first todo = Some m \<and> lowest s (below s l) m"
  using assms
proof (induction fuel s first todo arbitrary: "done" rule: first_op_walk.induct)
  case (1 fuel s first)
  then show ?case using walk_inv_end [OF 1(1), of l "done"] by simp
next
  case (2 s first x xs)
  then show ?case using walk_inv_bound [OF 2(1,2)] by simp
next
  case (3 fuel s first x xs)
  let ?todo = "x # xs" and ?l = "last (x # xs)"
  have "walk_inv s l done (?l # butlast ?todo)"
    by (rule walk_inv_permute [OF _ 3(3)]) (metis add_mset_add_single append_butlast_last_id list.distinct(1) mset.simps(2) mset_append mset_single_iff mset.simps(1) union_commute)
  then have w: "walk_inv s l (done @ [?l]) (butlast ?todo @ label_children s ?l)" by (rule walk_inv_step [OF 3(2)])
  have "lowest s (set (done @ [?l])) (case label_first_op s ?l of None \<Rightarrow> first
      | Some op \<Rightarrow> Some (case first of None \<Rightarrow> op | Some f \<Rightarrow> min f op))"
    using lowest_Un [OF 3(5) lowest_label [OF 3(2)]] by simp
  from 3(1) [OF refl refl 3(2) w _ this] show ?case using 3(4) by (simp add: Let_def)
qed

section \<open>Properties\<close>

text \<open>C12: The walk down a label ends within its bound and returns the labels below it, the label
included, each once.\<close>

theorem label_subtree_total:
  assumes "log_inv s"
  shows "\<exists>ls. label_subtree s l = Some ls \<and> distinct ls \<and> set ls = below s l"
  unfolding label_subtree_def by (rule subtree_walk_ok [OF assms]) (simp_all add: walk_inv_start)

theorem label_subtree_total_witness:
  "\<exists>ls. label_subtree sample_log 1 = Some ls \<and> distinct ls \<and> set ls = below sample_log 1"
  by (rule label_subtree_total [OF sample_log_inv])



end
