(* ===== verification/Revert.thy ===== *)
theory Revert
  imports Forest Label_Tree
begin

text \<open>
  Reverting operations (\<open>crates/daemon/src/revert.rs\<close>): which operations a revert takes, the
  warning about what changed since, the file action it requires, and the application of the
  inverses, newest to oldest, through a writer. The store the reads go through is the pair of the
  row store and the log.

  The recursion along the reverts of reverts has no bound in the code. \<open>standing_fuel\<close> counts its
  depth; \<open>standing\<close> allows as many levels as the log has operations and one more, which is enough when a
  revert is younger than what it reverts (\<open>standing_correct\<close>). \<open>None\<close> is a recursion that went deeper.
\<close>

section \<open>Cells\<close>

record Cell =
  c_entity :: uuid
  c_field :: "string option"

definition cell_of :: "OpRow \<Rightarrow> Cell" where
  "cell_of op = \<lparr>c_entity = entity_uuid op, c_field = field_name op\<rparr>"

definition intersects :: "Cell \<Rightarrow> Cell \<Rightarrow> bool" where
  "intersects a b \<longleftrightarrow> c_entity a = c_entity b \<and>
     (case (c_field a, c_field b) of (Some x, Some y) \<Rightarrow> x = y | _ \<Rightarrow> True)"

section \<open>Selecting operations\<close>

definition revert_label_ops :: "oplog \<Rightarrow> int \<Rightarrow> (store_error + OpRow list) option" where
  "revert_label_ops s label =
     map_option (\<lambda>ls. bindE (foldE (\<lambda>l out. bindE (label_ops s l) (\<lambda>rs. Inr (out @ rs))) ls [])
         (\<lambda>rs. Inr (sort_key op_id rs)))
       (label_subtree s label)"

datatype Only = Changes | Undos

definition only_parse :: "string \<Rightarrow> Only option" where
  "only_parse s = (if s = ''changes'' then Some Changes else if s = ''undos'' then Some Undos else None)"

type_synonym memo = "(int, bool) table"

function standing_fuel :: "nat \<Rightarrow> oplog \<Rightarrow> int \<Rightarrow> memo \<Rightarrow> (bool \<times> memo) option"
  and any_standing :: "nat \<Rightarrow> oplog \<Rightarrow> int list \<Rightarrow> memo \<Rightarrow> (bool \<times> memo) option" where
  "standing_fuel n s op memo =
     (case tget memo op of
        Some known \<Rightarrow> Some (known, memo)
      | None \<Rightarrow>
          (case n of
             0 \<Rightarrow> None
           | Suc n \<Rightarrow> (case any_standing n s (reverters s op) memo of
                         None \<Rightarrow> None
                       | Some (found, memo) \<Rightarrow> Some (\<not> found, tput op (\<not> found) memo))))"
| "any_standing n s [] memo = Some (False, memo)"
| "any_standing n s (r # rs) memo =
     (case standing_fuel n s r memo of
        None \<Rightarrow> None
      | Some (stands, memo) \<Rightarrow> if stands then Some (True, memo) else any_standing n s rs memo)"
  by pat_completeness auto
termination
  by (relation "measures [\<lambda>x. case x of Inl (n, _) \<Rightarrow> n | Inr (n, _) \<Rightarrow> n,
        \<lambda>x. case x of Inl _ \<Rightarrow> 0 | Inr (_, _, rs, _) \<Rightarrow> length rs + 1]") auto

declare standing_fuel.simps [simp del]

definition standing :: "oplog \<Rightarrow> int \<Rightarrow> memo \<Rightarrow> (bool \<times> memo) option" where
  "standing s op memo = standing_fuel (length (ops s) + 1) s op memo"

definition kept_by :: "oplog \<Rightarrow> Only \<Rightarrow> OpRow \<Rightarrow> bool" where
  "kept_by s only op \<longleftrightarrow>
     (case only of
        Changes \<Rightarrow> reverts_op_id op = None \<and> origin op \<noteq> Some ORIGIN_WATCHER
      | Undos \<Rightarrow> (case reverts_op_id op of
                    Some target \<Rightarrow> (case log_op_at s target of None \<Rightarrow> True | Some t \<Rightarrow> reverts_op_id t = None)
                  | None \<Rightarrow> False))"

fun narrow_loop :: "oplog \<Rightarrow> Only \<Rightarrow> OpRow list \<Rightarrow> memo \<Rightarrow> OpRow list option" where
  "narrow_loop s only [] memo = Some []"
| "narrow_loop s only (op # rest) memo =
     (if kept_by s only op
      then (case standing s (op_id op) memo of
              None \<Rightarrow> None
            | Some (stands, memo) \<Rightarrow>
                map_option (\<lambda>out. if stands then op # out else out) (narrow_loop s only rest memo))
      else narrow_loop s only rest memo)"

definition narrow :: "oplog \<Rightarrow> OpRow list \<Rightarrow> Only \<Rightarrow> OpRow list option" where
  "narrow s rows only = narrow_loop s only rows []"

section \<open>What changed since\<close>

datatype Changed = No | By OpRow | Unlogged

definition swap_remove :: "nat \<Rightarrow> 'a list \<Rightarrow> 'a list" where
  "swap_remove i xs = (if i + 1 = length xs then butlast xs else (butlast xs)[i := last xs])"

definition same_row :: "FieldRow \<Rightarrow> FieldRow \<Rightarrow> bool" where
  "same_row r q \<longleftrightarrow> row_name r = row_name q \<and> value_eq (row_value r) (row_value q)"

fun match_rows :: "FieldRow list \<Rightarrow> FieldRow list \<Rightarrow> bool" where
  "match_rows [] left = True"
| "match_rows (row # a) left =
     (case find_index (\<lambda>r. same_row r row) left of
        Some i \<Rightarrow> match_rows a (swap_remove i left)
      | None \<Rightarrow> False)"

definition same_rows :: "FieldRow list \<Rightarrow> FieldRow list \<Rightarrow> bool" where
  "same_rows a b \<longleftrightarrow> length a = length b \<and> match_rows a b"

definition has_value :: "FieldRow list \<Rightarrow> FieldRow \<Rightarrow> bool" where
  "has_value now a \<longleftrightarrow> (\<exists>r\<in>set now. value_eq (row_value r) (row_value a))"

text \<open>\<open>None\<close> is the early return: an operation on a cell that names no field.\<close>

definition unchanged_since :: "rowstore \<Rightarrow> oplog \<Rightarrow> OpRow \<Rightarrow> bool option" where
  "unchanged_since rs lg op =
     (let after = snapshots lg (op_id op) True; entity = entity_uuid op
      in if op_type op = ''create_metarecord'' \<or> op_type op = ''set_metarecord'' then
           Some (kv_version rs entity \<noteq> None \<and> same_rows (kv_rows rs entity) after)
         else if op_type op = ''delete_metarecord'' then Some (kv_version rs entity = None)
         else (case field_name op of
                 None \<Rightarrow> None
               | Some name \<Rightarrow>
                   let now = kv_rows_named rs entity name
                   in if op_type op = ''append_field'' then Some (\<forall>a\<in>set after. has_value now a)
                      else if op_type op = ''delete_field'' then
                        Some (\<not> (\<exists>b\<in>set (snapshots lg (op_id op) False). has_value now b))
                      else Some (same_rows now after)))"

definition changed_since :: "rowstore \<Rightarrow> oplog \<Rightarrow> OpRow \<Rightarrow> store_error + Changed" where
  "changed_since rs lg op =
     (case unchanged_since rs lg op of
        None \<Rightarrow> Inr No
      | Some unchanged \<Rightarrow>
          if unchanged then Inr No
          else bindE (entity_ops_after lg (entity_uuid op) (op_id op)) (\<lambda>later.
            Inr (case List.find (\<lambda>q. intersects (cell_of op) (cell_of q)) (rev later) of
                   Some q \<Rightarrow> By q
                 | None \<Rightarrow> Unlogged)))"

section \<open>File actions\<close>

datatype FsAction = Move | RestoreContent | TrashContent

definition MAX_REVERT_CHAIN :: nat where
  "MAX_REVERT_CHAIN = 64"

definition on_record :: "OpRow \<Rightarrow> bool" where
  "on_record op \<longleftrightarrow> op_type op = ''delete_metarecord'' \<or> op_type op = ''create_metarecord''"

fun trash_chain :: "nat \<Rightarrow> oplog \<Rightarrow> OpRow \<Rightarrow> bool" where
  "trash_chain 0 s current = False"
| "trash_chain (Suc n) s current =
     (if \<not> on_record current then False
      else if op_type current = ''delete_metarecord'' \<and> origin current = Some ''trash'' then True
      else (case Option.bind (reverts_op_id current) (log_op_at s) of
              None \<Rightarrow> False
            | Some next \<Rightarrow> trash_chain n s next))"

definition trash_coupled :: "oplog \<Rightarrow> OpRow \<Rightarrow> bool" where
  "trash_coupled s op = trash_chain MAX_REVERT_CHAIN s op"

definition action_for :: "OpRow \<Rightarrow> bool \<Rightarrow> FsAction option" where
  "action_for op coupled =
     (if op_type op = ''file_moved'' then Some Move
      else if op_type op = ''file_deleted'' \<or> op_type op = ''file_modified'' then Some RestoreContent
      else if op_type op = ''delete_metarecord'' then (if coupled then Some RestoreContent else None)
      else if op_type op = ''create_metarecord'' then (if coupled then Some TrashContent else None)
      else None)"

definition fs_action :: "oplog \<Rightarrow> OpRow \<Rightarrow> FsAction option" where
  "fs_action s op = action_for op (on_record op \<and> trash_coupled s op)"

definition written_as :: "OpRow \<Rightarrow> OpType" where
  "written_as op =
     (if op_type op = ''create_metarecord'' then DeleteRecord
      else if op_type op = ''delete_metarecord'' then CreateRecord
      else if op_type op = ''set_metarecord'' then SetRecord
      else if op_type op = ''append_field'' then DeleteField
      else if op_type op = ''delete_field'' then AppendField
      else if op_type op = ''file_deleted'' \<or> op_type op = ''file_moved'' then FileMoved
      else if op_type op = ''file_modified'' then FileModified
      else SetField)"

section \<open>Applying the inverses\<close>

definition rows_to_fields :: "FieldRow list \<Rightarrow> Field list" where
  "rows_to_fields rows = map (\<lambda>r. Field_new (row_name r) (row_value r)) rows"

definition delete_by_value :: "(bytes \<Rightarrow> u64) \<Rightarrow> uuid \<Rightarrow> FieldRow \<Rightarrow> writer \<Rightarrow> store_error + writer" where
  "delete_by_value H u row w = bindE (delete_fields_valued H u (row_name row) (row_value row) w) (\<lambda>(_, w). Inr w)"

definition append_back :: "(bytes \<Rightarrow> u64) \<Rightarrow> uuid \<Rightarrow> FieldRow \<Rightarrow> writer \<Rightarrow> store_error + writer" where
  "append_back H u row w = bindE (append_field H u (row_name row) (row_value row) w) (\<lambda>(_, w). Inr w)"

definition apply_inverse :: "(bytes \<Rightarrow> u64) \<Rightarrow> OpRow \<Rightarrow> writer \<Rightarrow> store_error + writer" where
  "apply_inverse H op w =
     (let u = entity_uuid op; before = snapshots (tx_log w) (op_id op) False
      in if op_type op = ''create_metarecord'' then delete_metarecord H u w
         else if op_type op = ''delete_metarecord'' then
           (if kv_version (tx_rows w) u \<noteq> None then Inl (ExistsAgain u (op_id op))
            else bindE (create_metarecord_with_uuid H u (rows_to_fields before) w) (\<lambda>(_, w). Inr w))
         else if op_type op = ''set_metarecord'' then
           bindE (set_record H u (rows_to_fields before) w) (\<lambda>(_, w). Inr w)
         else if op_type op = ''append_field'' then
           foldE (delete_by_value H u) (snapshots (tx_log w) (op_id op) True) w
         else if op_type op = ''delete_field'' then foldE (append_back H u) before w
         else if op_type op = ''unknown'' then Inl (UnloggedWrite (op_id op))
         else (case field_name op of
                 None \<Rightarrow> Inl (NoFieldName (op_id op))
               | Some name \<Rightarrow>
                   if before = [] then clear_field_as H (written_as op) u name w
                   else bindE (set_field_multi_as H (written_as op) u name (map row_value before) w) (\<lambda>(_, w). Inr w)))"

definition apply_step :: "(bytes \<Rightarrow> u64) \<Rightarrow> OpRow \<Rightarrow> nat \<times> writer \<Rightarrow> store_error + nat \<times> writer" where
  "apply_step H op acc =
     (let w = reverting (Some (op_id op)) (snd acc)
      in if op_type op = ''create_metarecord'' \<and> kv_version (tx_rows w) (entity_uuid op) = None then Inr (fst acc, w)
         else bindE (apply_inverse H op w) (\<lambda>w. Inr (fst acc + 1, w)))"

definition apply_revert :: "(bytes \<Rightarrow> u64) \<Rightarrow> OpRow list \<Rightarrow> writer \<Rightarrow> store_error + nat \<times> writer" where
  "apply_revert H rows w =
     bindE (foldE (apply_step H) (rev rows) (0, defer_type_checks w)) (\<lambda>(n, w). Inr (n, reverting None w))"

end
