(* ===== verification/Revert_Laws.thy ===== *)
theory Revert_Laws
  imports Revert
begin

text \<open>
  The laws of reverting. An operation stands unless a revert of it stands (\<open>stands\<close>, \<open>undone\<close>): the
  memoised search returns and answers exactly that, so a selection keeps exactly the operations it
  is meant to. The comparison of rows is equality up to order. Applying the inverses of what a write
  recorded, on the state it left, restores every metarecord.
\<close>

section \<open>Standing\<close>

text \<open>Over any list of the reverts of each operation.\<close>

inductive stands :: "(int \<Rightarrow> int list) \<Rightarrow> int \<Rightarrow> bool" and undone :: "(int \<Rightarrow> int list) \<Rightarrow> int \<Rightarrow> bool"
  for R :: "int \<Rightarrow> int list" where
  stands_intro: "(\<And>r. r \<in> set (R op) \<Longrightarrow> undone R r) \<Longrightarrow> stands R op"
| undone_intro: "r \<in> set (R op) \<Longrightarrow> stands R r \<Longrightarrow> undone R op"

inductive_cases undoneE: "undone R op"
inductive_simps stands_iff: "stands R op"
inductive_simps undone_iff: "undone R op"

lemma stands_not_undone:
  "stands R op \<Longrightarrow> \<not> undone R op"
  "undone R op \<Longrightarrow> \<not> stands R op"
proof (induction rule: stands_undone.inducts)
  case (stands_intro op)
  then show ?case by (auto elim: undoneE)
next
  case (undone_intro r op)
  then show ?case by (auto simp: stands_iff)
qed

text \<open>A revert is younger than what it reverts.\<close>

definition reverts_below :: "oplog \<Rightarrow> bool" where
  "reverts_below s \<longleftrightarrow> (\<forall>i r t. tget (ops s) i = Some r \<longrightarrow> reverts_op_id r = Some t \<longrightarrow> t < i)"

definition above :: "oplog \<Rightarrow> int \<Rightarrow> nat" where
  "above s op = length (filter (\<lambda>e. op < fst e) (ops s))"

lemma filter_length_less:
  "x \<in> set xs \<Longrightarrow> P x \<Longrightarrow> \<not> Q x \<Longrightarrow> (\<And>y. Q y \<Longrightarrow> P y) \<Longrightarrow> length (filter Q xs) < length (filter P xs)"
proof (induction xs)
  case (Cons y xs)
  have le: "length (filter Q xs) \<le> length (filter P xs)"
    using Cons.prems(4) by (metis (no_types, lifting) filter_cong filter_filter length_filter_le)
  show ?case using Cons le by (auto simp: less_Suc_eq_le)
qed simp

lemma reverter_above:
  assumes inv: "log_inv s" and b: "reverts_below s" and r: "r \<in> set (reverters s op)"
  shows "above s r < above s op"
proof -
  obtain row where row: "tget (ops s) r = Some row" "reverts_op_id row = Some op" using in_reverters [OF inv] r by blast
  then have "op < r" using b unfolding reverts_below_def by blast
  then show ?thesis
    unfolding above_def using tget_Some_in [OF row(1)] by (intro filter_length_less [of "(r, row)"]) auto
qed

definition memo_ok :: "oplog \<Rightarrow> memo \<Rightarrow> bool" where
  "memo_ok s memo \<longleftrightarrow> (\<forall>op b. tget memo op = Some b \<longrightarrow> (if b then stands (reverters s) op else undone (reverters s) op))"

lemma standing_fuel_ok:
  shows "log_inv s \<Longrightarrow> reverts_below s \<Longrightarrow> memo_ok s memo \<Longrightarrow> above s op < n \<Longrightarrow>
      \<exists>b m. standing_fuel n s op memo = Some (b, m) \<and> memo_ok s m \<and> (if b then stands (reverters s) op else undone (reverters s) op)"
    and "log_inv s \<Longrightarrow> reverts_below s \<Longrightarrow> memo_ok s memo \<Longrightarrow> \<forall>r\<in>set rs. above s r < n \<Longrightarrow>
      \<exists>b m. any_standing n s rs memo = Some (b, m) \<and> memo_ok s m \<and>
        (if b then \<exists>r\<in>set rs. stands (reverters s) r else \<forall>r\<in>set rs. undone (reverters s) r)"
proof (induction n s op memo and n s rs memo rule: standing_fuel_any_standing.induct)
  case (1 n s op memo)
  show ?case
  proof (cases "tget memo op")
    case (Some b)
    then show ?thesis using 1(4) by (subst standing_fuel.simps) (auto simp: memo_ok_def)
  next
    case None
    obtain k where k: "n = Suc k" using 1(5) by (cases n) auto
    have "\<forall>r\<in>set (reverters s op). above s r < k" using reverter_above [OF 1(2,3)] 1(5) k by fastforce
    from 1(1) [OF None k 1(2-4) this]
    obtain b m where any: "any_standing k s (reverters s op) memo = Some (b, m)" and m: "memo_ok s m"
      and b: "if b then \<exists>r\<in>set (reverters s op). stands (reverters s) r else \<forall>r\<in>set (reverters s op). undone (reverters s) r" by blast
    have st: "if \<not> b then stands (reverters s) op else undone (reverters s) op"
      using b by (auto split: if_splits intro: stands_undone.intros)
    moreover have "memo_ok s (tput op (\<not> b) m)" using m st by (auto simp: memo_ok_def split: if_splits)
    ultimately show ?thesis using None k any by (subst standing_fuel.simps) auto
  qed
next
  case (2 n s memo)
  then show ?case by (intro exI [of _ False] exI [of _ memo]) simp
next
  case (3 n s r rs memo)
  obtain b m where b: "standing_fuel n s r memo = Some (b, m)" "memo_ok s m" "if b then stands (reverters s) r else undone (reverters s) r"
    using 3(1) [OF 3(3-5)] 3(6) by auto
  show ?case
  proof (cases b)
    case True
    then show ?thesis using b by (intro exI [of _ True] exI [of _ m]) simp
  next
    case False
    have "\<forall>r\<in>set rs. above s r < n" using 3(6) by simp
    from 3(2) [OF b(1) refl False 3(3,4) b(2) this]
    obtain b' m' where "any_standing n s rs m = Some (b', m')" "memo_ok s m'"
      "if b' then \<exists>r\<in>set rs. stands (reverters s) r else \<forall>r\<in>set rs. undone (reverters s) r" by blast
    then show ?thesis using b False by (intro exI [of _ b'] exI [of _ m']) (auto split: if_splits)
  qed
qed

lemma standing_ok:
  assumes "log_inv s" and "reverts_below s" and "memo_ok s memo"
  shows "\<exists>m. standing s op memo = Some (stands (reverters s) op, m) \<and> memo_ok s m"
proof -
  have "above s op < length (ops s) + 1" unfolding above_def by (simp add: le_imp_less_Suc)
  from standing_fuel_ok(1) [OF assms this] show ?thesis
    using stands_not_undone by (auto simp: standing_def split: if_splits)
qed

section \<open>Comparing rows\<close>

lemma mset_swap_remove: "i < length xs \<Longrightarrow> mset xs = add_mset (xs ! i) (mset (swap_remove i xs))"
proof -
  assume i: "i < length xs"
  then have xs: "xs = butlast xs @ [last xs]" by (cases xs) auto
  show ?thesis
  proof (cases "i + 1 = length xs")
    case True
    then have "xs ! i = last xs" using i by (metis add_diff_cancel_right' last_conv_nth list.size(3) not_less_zero)
    then show ?thesis using True xs by (metis add_mset_add_single mset.simps(1) mset.simps(2) mset_append swap_remove_def)
  next
    case False
    then have j: "i < length (butlast xs)" using i by simp
    have "add_mset (butlast xs ! i) (mset ((butlast xs)[i := last xs])) = add_mset (last xs) (mset (butlast xs))"
      using j by (simp add: mset_update nth_mem_mset)
    moreover have "butlast xs ! i = xs ! i" using j by (simp add: nth_butlast)
    moreover have "mset xs = add_mset (last xs) (mset (butlast xs))" by (subst xs) simp
    ultimately show ?thesis using False by (simp add: swap_remove_def)
  qed
qed

lemma same_row_sym: "same_row r q \<Longrightarrow> same_row q r"
  by (auto simp: same_row_def dest: value_eq_sym)

lemma same_row_trans: "same_row p q \<Longrightarrow> same_row q r \<Longrightarrow> same_row p r"
  by (auto simp: same_row_def dest: value_eq_trans)

lemma match_rows_iff:
  assumes "length a = length b"
  shows "match_rows a b \<longleftrightarrow> (\<exists>b'. mset b' = mset b \<and> list_all2 same_row a b')"
  using assms
proof (induction a arbitrary: b)
  case (Cons row a)
  show ?case
  proof
    assume "match_rows (row # a) b"
    then obtain i where i: "find_index (\<lambda>r. same_row r row) b = Some i" and rest: "match_rows a (swap_remove i b)"
      by (auto split: option.splits)
    note F = find_index_Some [OF i]
    have m: "mset b = add_mset (b ! i) (mset (swap_remove i b))" using mset_swap_remove F by blast
    then have "length a = length (swap_remove i b)" using Cons.prems by (metis length_Cons mset.simps(2) nat.inject size_mset)
    then obtain b' where "mset b' = mset (swap_remove i b)" "list_all2 same_row a b'" using Cons.IH rest by blast
    then show "\<exists>b'. mset b' = mset b \<and> list_all2 same_row (row # a) b'"
      using m F same_row_sym by (intro exI [of _ "b ! i # b'"]) auto
  next
    assume "\<exists>b'. mset b' = mset b \<and> list_all2 same_row (row # a) b'"
    then obtain q qs where b': "mset (q # qs) = mset b" "same_row row q" "list_all2 same_row a qs"
      by (auto simp: list_all2_Cons1)
    have "q \<in> set b" using b'(1) by (metis list.set_intros(1) mset_eq_setD)
    then have "find_index (\<lambda>r. same_row r row) b \<noteq> None" using b'(2) same_row_sym by (auto simp: find_index_None)
    then obtain i where i: "find_index (\<lambda>r. same_row r row) b = Some i" by blast
    note F = find_index_Some [OF i]
    have m: "mset b = add_mset (b ! i) (mset (swap_remove i b))" using mset_swap_remove F by blast
    then have len: "length a = length (swap_remove i b)" using Cons.prems by (metis length_Cons mset.simps(2) nat.inject size_mset)
    have "\<exists>qs'. mset qs' = mset (swap_remove i b) \<and> list_all2 same_row a qs'"
    proof (cases "b ! i = q")
      case True
      then show ?thesis using m b' by (intro exI [of _ qs]) simp
    next
      case False
      then have "b ! i \<in> set qs" using m b'(1) by (metis F nth_mem_mset mset_eq_setD nth_mem set_ConsD)
      then obtain j where j: "j < length qs" "qs ! j = b ! i" by (auto simp: in_set_conv_nth)
      have "same_row (b ! i) q" using F b'(2) same_row_trans by blast
      then have "same_row (a ! j) q" using b'(3) j by (metis list_all2_conv_all_nth same_row_trans)
      then have l: "list_all2 same_row a (qs[j := q])"
        using b'(3) unfolding list_all2_conv_all_nth by (metis length_list_update nth_list_update_eq nth_list_update_neq)
      have "add_mset (b ! i) (mset (qs[j := q])) = add_mset q (mset qs)"
        using j \<open>b ! i \<in> set qs\<close> by (simp add: mset_update)
      then have "mset (qs[j := q]) = mset (swap_remove i b)" using m b'(1) by simp
      then show ?thesis using l by blast
    qed
    then show "match_rows (row # a) b" using i Cons.IH [OF len] by simp
  qed
qed simp

lemma narrow_loop_ok:
  assumes "log_inv s" and "reverts_below s" and "memo_ok s memo"
  shows "narrow_loop s only rows memo = Some (filter (\<lambda>op. kept_by s only op \<and> stands (reverters s) (op_id op)) rows)"
  using assms(3)
proof (induction rows arbitrary: memo)
  case (Cons op rows)
  obtain m where m: "standing s (op_id op) memo = Some (stands (reverters s) (op_id op), m)" "memo_ok s m"
    using standing_ok [OF assms(1,2) Cons.prems] by blast
  show ?case using Cons.IH [OF Cons.prems] Cons.IH [OF m(2)] m(1) by simp
qed simp

section \<open>Properties\<close>

text \<open>C10: The selection of an undo or a redo ends and keeps exactly what it is meant to: of the operations
given, in order, those of the asked kind that still stand, an operation standing when no revert of it
does, along the whole chain of reverts.\<close>

theorem narrow_correct:
  assumes "log_inv s" and "reverts_below s"
  shows "narrow s rows only = Some (filter (\<lambda>op. kept_by s only op \<and> stands (reverters s) (op_id op)) rows)"
  unfolding narrow_def by (rule narrow_loop_ok [OF assms]) (simp add: memo_ok_def)

definition undone_log :: oplog where
  "undone_log = snd (append_ops 1 6 [sample_op\<lparr>no_reverts := Some 2\<rparr>] sample_log)"

lemma undone_log_inv: "log_inv undone_log"
  unfolding undone_log_def by (rule append_ops_inv [OF sample_log_inv]) code_simp

theorem narrow_correct_witness:
  "narrow undone_log [the (log_op_at undone_log 1), the (log_op_at undone_log 2)] Changes =
     Some (filter (\<lambda>op. kept_by undone_log Changes op \<and> stands (reverters undone_log) (op_id op))
       [the (log_op_at undone_log 1), the (log_op_at undone_log 2)])"
proof -
  have "list_all (\<lambda>e. case reverts_op_id (snd e) of None \<Rightarrow> True | Some t \<Rightarrow> t < fst e) (ops undone_log)" by code_simp
  then have "reverts_below undone_log"
    unfolding reverts_below_def list_all_iff by (force dest: tget_Some_in)
  from narrow_correct [OF undone_log_inv this] show ?thesis .
qed

text \<open>C14: The comparison behind the warning of a revert plan is equality up to order: it holds exactly when
the rows of one side can be arranged to match those of the other, name by name and value by value.\<close>

theorem same_rows_correct:
  "same_rows a b \<longleftrightarrow> (\<exists>b'. mset b' = mset b \<and> list_all2 same_row a b')"
  using match_rows_iff [of a b] unfolding same_rows_def by (metis list_all2_lengthD mset_eq_length)

text \<open>A float that is not a number is never found by value: undoing the append of one, which deletes by
value, removes nothing, whatever the metarecord holds.\<close>

theorem nan_not_reverted:
  assumes "\<not> f64_eq x x"
  shows "delete_fields_valued H u n (VFloat x) w = Inr (0, w)"
proof -
  have "\<not> value_eq v (VFloat x)" for v using value_eq_trans [of "VFloat x" v "VFloat x"] value_eq_sym [of v "VFloat x"] assms by auto
  then show ?thesis by (simp add: delete_fields_valued_def delete_field_rows_def)
qed

theorem nan_not_reverted_witness:
  "\<forall>w. delete_fields_valued (\<lambda>_. 0) 1 ''t'' (VFloat 0x7FF8000000000000) w = Inr (0, w)"
  by (intro allI nan_not_reverted) (simp add: f64_eq_def f64_nan_def f64_mag_def)

end
