(* ===== verification/Inverse.thy ===== *)
theory Inverse
  imports Revert_Laws
begin

text \<open>
  A revert is the inverse of a write. The state of a store is, for each metarecord, the multiset of
  its fields (\<open>state_of\<close>); \<open>recorded\<close> is what an operation of the log says of the states around it.
  Every method records its change in this sense (\<open>chain\<close>), and the inverse \<open>revert.rs\<close> applies
  for a recorded operation leads back to the state before it.
\<close>

section \<open>States\<close>

type_synonym cstate = "uuid \<Rightarrow> (string \<times> value) multiset option"

definition state_of :: "rowstore \<Rightarrow> cstate" where
  "state_of s u = (if kv_version s u = None then None else Some (content s u))"

definition untwinned :: "(string \<times> value) multiset \<Rightarrow> bool" where
  "untwinned m \<longleftrightarrow> (\<forall>a b. {#a, b#} \<subseteq># m \<longrightarrow> \<not> twin a b)"

definition tame :: "cstate \<Rightarrow> bool" where
  "tame c \<longleftrightarrow> (\<forall>u m. c u = Some m \<longrightarrow> untwinned m)"

lemma untwinned_subset: "untwinned m \<Longrightarrow> n \<subseteq># m \<Longrightarrow> untwinned n"
  by (auto simp: untwinned_def dest: subset_mset.order_trans)

lemma twin_sym: "twin a b \<Longrightarrow> twin b a"
  by (auto simp: twin_def dest: value_eq_sym)

lemma untwinned_list: "untwinned (mset xs) \<longleftrightarrow> twin_free twin xs"
proof (induction xs)
  case Nil
  then show ?case by (simp add: untwinned_def)
next
  case (Cons x xs)
  have "untwinned (add_mset x (mset xs)) \<longleftrightarrow> (\<forall>y\<in>set xs. \<not> twin x y) \<and> untwinned (mset xs)"
  proof
    assume u: "untwinned (add_mset x (mset xs))"
    have "\<not> twin x y" if "y \<in> set xs" for y
    proof -
      have "{#x, y#} \<subseteq># add_mset x (mset xs)" using that by simp
      then show ?thesis using u unfolding untwinned_def by blast
    qed
    moreover have "untwinned (mset xs)" by (rule untwinned_subset [OF u]) simp
    ultimately show "(\<forall>y\<in>set xs. \<not> twin x y) \<and> untwinned (mset xs)" by blast
  next
    assume r: "(\<forall>y\<in>set xs. \<not> twin x y) \<and> untwinned (mset xs)"
    show "untwinned (add_mset x (mset xs))"
      unfolding untwinned_def
    proof (intro allI impI)
      fix a b assume ab: "{#a, b#} \<subseteq># add_mset x (mset xs)"
      consider "a = x" "b \<in> set xs" | "b = x" "a \<in> set xs" | "{#a, b#} \<subseteq># mset xs"
      proof -
        consider "a = x" | "b = x" | "a \<noteq> x" "b \<noteq> x" by blast
        then show thesis
        proof cases
          case 1
          have "{#x, b#} \<subseteq># add_mset x (mset xs)" using ab unfolding 1 .
          then have "b \<in># mset xs" by simp
          then show thesis using 1 that(1) by simp
        next
          case 2
          then have "{#x, a#} \<subseteq># add_mset x (mset xs)" using ab by (simp add: add_mset_commute)
          then have "a \<in># mset xs" by simp
          then show thesis using 2 that(2) by simp
        next
          case 3
          have "count {#a, b#} y \<le> count (mset xs) y" for y
            using ab [unfolded subseteq_mset_def, rule_format, of y] 3 by (cases "y = x") auto
          then have "{#a, b#} \<subseteq># mset xs" by (simp add: subseteq_mset_def)
          then show thesis by (rule that(3))
        qed
      qed
      then show "\<not> twin a b" using r twin_sym unfolding untwinned_def by cases blast+
    qed
  qed
  then show ?case using Cons by simp
qed

lemma dedup_by_all: "twin_free eq (kept @ xs) \<Longrightarrow> dedup_by eq kept xs = kept @ xs"
proof (induction eq kept xs rule: dedup_by.induct)
  case (2 eq kept x xs)
  have "twin_free eq (kept @ [x])" using 2(3) twin_free_append_prefix [of eq "kept @ [x]" xs] by simp
  then have "\<not> (\<exists>k\<in>set kept. eq k x)" by (auto simp: twin_free_snoc)
  then show ?case using 2(2,3) by simp
qed simp

lemma twin_free_map: "twin_free eq (map f xs) \<longleftrightarrow> twin_free (\<lambda>a b. eq (f a) (f b)) xs"
  by (induction xs) auto

lemma twin_free_mono: "twin_free eq xs \<Longrightarrow> (\<And>a b. a \<in> set xs \<Longrightarrow> b \<in> set xs \<Longrightarrow> eq' a b \<Longrightarrow> eq a b) \<Longrightarrow> twin_free eq' xs"
  by (induction xs) auto

text \<open>The rows of a store hold no twins.\<close>

lemma twin_free_by_index:
  "(\<And>i j. i < j \<Longrightarrow> j < length xs \<Longrightarrow> \<not> eq (xs ! i) (xs ! j)) \<Longrightarrow> twin_free eq xs"
proof (induction xs)
  case (Cons x xs)
  have "\<not> eq x y" if "y \<in> set xs" for y
    using Cons.prems [of 0 "Suc i" for i] that by (auto simp: in_set_conv_nth)
  moreover have "twin_free eq xs" using Cons.IH Cons.prems [of "Suc i" "Suc j" for i j] by auto
  ultimately show ?case by simp
qed simp

lemma distinct_rows:
  assumes "rows_inv H s"
  shows "distinct (kv_rows s u)"
proof -
  have o: "ordered (cells s)" using rows_invD(1) [OF assms] by (simp add: ordered_tables_def)
  let ?es = "tscan (\<lambda>(v, _, _). v = u) (cells s)"
  have d: "distinct (map fst ?es)" by (rule ordered_distinct [OF tscan_ordered [OF o]])
  have "inj_on snd (set ?es)"
  proof (rule inj_onI)
    fix a b assume ab: "a \<in> set ?es" "b \<in> set ?es" "snd a = snd b"
    obtain v n i r w m j q where e: "a = ((v, n, i), r)" "b = ((w, m, j), q)" by (metis surj_pair)
    then have "tget (cells s) (v, n, i) = Some r" "tget (cells s) (w, m, j) = Some q" "v = u" "w = u"
      using ab in_tscan [OF o] by auto
    moreover from this have "row_name r = n" "row_id r = i" "row_name q = m" "row_id q = j"
      using rows_invD(2) [OF assms] unfolding cells_inv_def by blast+
    ultimately show "a = b" using ab(3) e by auto
  qed
  then have "distinct (map snd ?es)" using d by (simp add: distinct_map)
  then show ?thesis by (simp add: kv_rows_def)
qed

lemma content_untwinned:
  assumes inv: "rows_inv H s" and "no_twins s"
  shows "untwinned (content s u)"
proof -
  have "twin_free twin (map pair_of (kv_rows s u))"
    unfolding twin_free_map
  proof (rule twin_free_by_index)
    fix i j assume ij: "i < j" "j < length (kv_rows s u)"
    let ?r = "kv_rows s u ! i" and ?q = "kv_rows s u ! j"
    have ne: "?r \<noteq> ?q" using ij distinct_rows [OF inv] by (simp add: nth_eq_iff_index_eq)
    have "?r \<in> set (kv_rows s u)" "?q \<in> set (kv_rows s u)" using ij by simp_all
    then have c: "tget (cells s) (u, row_name ?r, row_id ?r) = Some ?r" "tget (cells s) (u, row_name ?q, row_id ?q) = Some ?q"
      using in_kv_rows [OF inv] by blast+
    show "\<not> twin (pair_of ?r) (pair_of ?q)"
    proof
      assume t: "twin (pair_of ?r) (pair_of ?q)"
      then have n: "row_name ?r = row_name ?q" "value_eq (row_value ?r) (row_value ?q)" by (simp_all add: twin_def pair_of_def)
      then have "row_id ?r \<noteq> row_id ?q" using c ne by auto
      then show False using assms(2) c n unfolding no_twins_def by metis
    qed
  qed
  then show ?thesis by (simp add: content_def bag_pairs flip: untwinned_list)
qed

lemma tame_state: "winv H w \<Longrightarrow> tame (state_of (tx_rows w))"
  using content_untwinned [OF winvD(1,3)] by (auto simp: tame_def state_of_def split: if_splits)

section \<open>What an operation records\<close>

definition recorded :: "NewOp \<Rightarrow> cstate \<Rightarrow> cstate \<Rightarrow> bool" where
  "recorded op c d \<longleftrightarrow> tame c \<and> (\<forall>x. x \<noteq> no_entity op \<longrightarrow> d x = c x) \<and>
     (let u = no_entity op; before = no_before op; after = no_after op
      in case no_type op of
        CreateRecord \<Rightarrow> c u = None \<and> d u = Some (bag after)
      | DeleteRecord \<Rightarrow> c u = Some (bag before) \<and> d u = None
      | SetRecord \<Rightarrow> c u = Some (bag before) \<and> d u = Some (bag after)
      | AppendField \<Rightarrow> \<exists>m r. c u = Some m \<and> after = [r] \<and> value_eq (row_value r) (row_value r) \<and>
          d u = Some (add_mset (pair_of r) m)
      | DeleteField \<Rightarrow> \<exists>m. c u = Some (m + bag before) \<and> d u = Some m
      | Unknown \<Rightarrow> False
      | _ \<Rightarrow> \<exists>m n. no_field op = Some n \<and> c u = Some (m + bag before) \<and> d u = Some (m + bag after) \<and>
          (\<forall>r\<in>set (before @ after). row_name r = n) \<and> (\<forall>e\<in>#m. fst e \<noteq> n))"

fun chain :: "NewOp list \<Rightarrow> cstate \<Rightarrow> cstate \<Rightarrow> bool" where
  "chain [] c d \<longleftrightarrow> c = d"
| "chain (op # os) c d \<longleftrightarrow> (\<exists>e. recorded op c e \<and> chain os e d)"

definition cell_scoped :: "OpType \<Rightarrow> bool" where
  "cell_scoped ty \<longleftrightarrow> ty \<in> {SetField, FileDeleted, FileMoved, FileModified}"

lemma chain_append: "chain (os @ ps) c d \<longleftrightarrow> (\<exists>e. chain os c e \<and> chain ps e d)"
  by (induction os arbitrary: c) auto

lemma wstep_one:
  assumes "wstep H w [op] w'"
  shows "content (tx_rows w') (no_entity op) + bag (no_before op) = content (tx_rows w) (no_entity op) + bag (no_after op)"
    "x \<noteq> no_entity op \<Longrightarrow> content (tx_rows w') x = content (tx_rows w) x"
proof -
  have a: "content (tx_rows w') x + rows_removed x [op] = content (tx_rows w) x + rows_added x [op]" for x
    using assms by (simp add: wstep_def accounts_def)
  show "content (tx_rows w') (no_entity op) + bag (no_before op) = content (tx_rows w) (no_entity op) + bag (no_after op)"
    using a [of "no_entity op"] by (simp add: rows_removed_def rows_added_def)
  show "x \<noteq> no_entity op \<Longrightarrow> content (tx_rows w') x = content (tx_rows w) x"
    using a [of x] by (simp add: rows_removed_def rows_added_def)
qed

text \<open>The metarecords of a writer.\<close>

definition live :: "writer \<Rightarrow> uuid set" where
  "live w = {x. kv_version (tx_rows w) x \<noteq> None}"

lemma in_live: "x \<in> live w \<longleftrightarrow> kv_version (tx_rows w) x \<noteq> None"
  by (simp add: live_def)

lemma live_records: "metarecords (tx_rows w') = metarecords (tx_rows w) \<Longrightarrow> live w' = live w"
  by (simp add: live_def kv_version_def)

lemma live_log_op [simp]: "live (log_op H ty u f vb before after w) = live w"
proof -
  have "fst (assign_version H u before after s) = None \<longleftrightarrow> kv_version s u = None" for s
    by (simp add: assign_version_def Let_def case_prod_beta split: option.split)
  then show ?thesis unfolding live_def set_eq_iff mem_Collect_eq log_op_frame kv_version_assign by metis
qed

lemma delete_rows_records: "metarecords (delete_rows H u name s) = metarecords s"
proof -
  have "metarecords (foldl (\<lambda>s r. if P r then delete_row H (row_id r) s else s) t rs) = metarecords t"
    for P t and rs :: "FieldRow list"
    by (induction rs arbitrary: t) simp_all
  then show ?thesis by (simp add: delete_rows_def)
qed

lemma live_put_tx [simp]:
  "live (put_tx w (delete_rows H u name (tx_rows w))) = live w"
  "live (put_tx w (delete_row H i (tx_rows w))) = live w"
  "live (forget_type n w) = live w"
  by (rule live_records, simp add: delete_rows_records)+

lemma live_insert: "tx_insert H u n v rid w = Inr (row, w') \<Longrightarrow> live w' = live w"
  by (auto simp: tx_insert_def insert_row_def take_row_id_def bindE_eq_Inr intro!: live_records split: if_splits option.splits)

lemma live_checks:
  "validate_tree_ref u n v w = Inr w' \<Longrightarrow> live w' = live w"
  "validate_value_type n v w = Inr w' \<Longrightarrow> live w' = live w"
  using validate_tree_ref_ok(1) validate_value_type_ok(1) by (auto simp: live_def)

lemma foldE_live:
  assumes "foldE f xs a = Inr b" and "\<And>x a b. f x a = Inr b \<Longrightarrow> live (g b) = live (g a)"
  shows "live (g b) = live (g a)"
  by (rule foldE_invariant [OF assms(1)]) (auto dest: assms(2))

lemma foldl_live:
  "live (foldl (\<lambda>w r. forget_type (row_name r) w) w rs) = live w"
  "live (foldl (\<lambda>w r. put_tx w (delete_row H (row_id r) (tx_rows w))) w rs) = live w"
  by (induction rs arbitrary: w) simp_all

text \<open>The four shapes of a record.\<close>

lemma state_eq:
  "live w' = live w \<Longrightarrow> (\<And>x. x \<noteq> u \<Longrightarrow> content (tx_rows w') x = content (tx_rows w) x) \<Longrightarrow>
   x \<noteq> u \<Longrightarrow> state_of (tx_rows w') x = state_of (tx_rows w) x"
  using in_live [of x w'] in_live [of x w] by (simp add: state_of_def)

lemma cell_content:
  assumes w: "winv H w" and st: "wstep H w [op] w'" and op: "no_entity op = u" "no_before op = kv_rows_named (tx_rows w) u n"
  shows "content (tx_rows w) u = filter_mset (\<lambda>e. fst e \<noteq> n) (content (tx_rows w) u) + bag (no_before op)"
    "content (tx_rows w') u = filter_mset (\<lambda>e. fst e \<noteq> n) (content (tx_rows w) u) + bag (no_after op)"
proof -
  have "bag (no_before op) = filter_mset (\<lambda>e. fst e = n) (content (tx_rows w) u)"
    using bag_rows_named [OF winvD(1) [OF w]] op(2) by (simp add: case_prod_beta')
  then show c: "content (tx_rows w) u = filter_mset (\<lambda>e. fst e \<noteq> n) (content (tx_rows w) u) + bag (no_before op)"
    by (metis multiset_partition union_commute)
  have "content (tx_rows w') u + bag (no_before op) = content (tx_rows w) u + bag (no_after op)"
    using wstep_one(1) [OF st] op(1) by simp
  also have "\<dots> = filter_mset (\<lambda>e. fst e \<noteq> n) (content (tx_rows w) u) + bag (no_after op) + bag (no_before op)"
    by (subst c) (simp only: union_ac)
  finally show "content (tx_rows w') u = filter_mset (\<lambda>e. fst e \<noteq> n) (content (tx_rows w) u) + bag (no_after op)" by simp
qed

lemma cell_recorded:
  assumes w: "winv H w" and st: "wstep H w [op] w'" and live: "live w' = live w" and u: "u \<in> live w"
    and op: "no_entity op = u" "no_field op = Some n" "no_before op = kv_rows_named (tx_rows w) u n"
      "\<forall>r\<in>set (no_after op). row_name r = n" "cell_scoped (no_type op)"
  shows "recorded op (state_of (tx_rows w)) (state_of (tx_rows w'))"
proof -
  define m where "m = filter_mset (\<lambda>e. fst e \<noteq> n) (content (tx_rows w) u)"
  have c: "content (tx_rows w) u = m + bag (no_before op)" and d: "content (tx_rows w') u = m + bag (no_after op)"
    using cell_content [OF w st op(1,3)] by (simp_all add: m_def)
  have "\<forall>r\<in>set (no_before op). row_name r = n" by (simp add: op(3) in_kv_rows_named [OF winvD(1) [OF w]])
  then have names: "\<forall>r\<in>set (no_before op @ no_after op). row_name r = n" using op(4) by auto
  have "kv_version (tx_rows w') u \<noteq> None" using u live by (auto simp: live_def)
  then have sd: "state_of (tx_rows w') u = Some (m + bag (no_after op))" using d by (simp add: state_of_def)
  have sc: "state_of (tx_rows w) u = Some (m + bag (no_before op))" using u c by (simp add: state_of_def live_def)
  have m: "\<forall>e\<in>#m. fst e \<noteq> n" by (simp add: m_def)
  have K: "\<exists>m k. no_field op = Some k \<and> state_of (tx_rows w) u = Some (m + bag (no_before op)) \<and>
      state_of (tx_rows w') u = Some (m + bag (no_after op)) \<and>
      (\<forall>r\<in>set (no_before op @ no_after op). row_name r = k) \<and> (\<forall>e\<in>#m. fst e \<noteq> k)"
    using op(2) sc sd names m by blast
  have "\<forall>x. x \<noteq> u \<longrightarrow> state_of (tx_rows w') x = state_of (tx_rows w) x"
    using state_eq [OF live, of u] wstep_one(2) [OF st] op(1) by blast
  then show ?thesis
    using tame_state [OF w] op(1,5) K unfolding recorded_def cell_scoped_def Let_def
    by (cases "no_type op") (simp_all only: simp_thms OpType.case OpType.distinct insert_iff empty_iff)
qed

lemma append_recorded:
  assumes w: "winv H w" and st: "wstep H w [op] w'" and live: "live w' = live w" and u: "u \<in> live w"
    and op: "no_type op = AppendField" "no_entity op = u" "no_before op = []" "no_after op = [r]"
      "value_eq (row_value r) (row_value r)"
  shows "recorded op (state_of (tx_rows w)) (state_of (tx_rows w'))"
proof -
  have "content (tx_rows w') u = add_mset (pair_of r) (content (tx_rows w) u)"
    using wstep_one(1) [OF st] op by (simp add: bag_pairs)
  moreover have "kv_version (tx_rows w') u \<noteq> None" using u live by (auto simp: live_def)
  moreover have "\<forall>x. x \<noteq> u \<longrightarrow> state_of (tx_rows w') x = state_of (tx_rows w) x"
    using state_eq [OF live, of u] wstep_one(2) [OF st] op(2) by blast
  ultimately show ?thesis
    using tame_state [OF w] u op unfolding recorded_def Let_def live_def
    by (simp only: OpType.case simp_thms) (simp add: state_of_def)
qed

lemma delete_recorded:
  assumes w: "winv H w" and st: "wstep H w [op] w'" and live: "live w' = live w" and u: "u \<in> live w"
    and op: "no_type op = DeleteField" "no_entity op = u" "no_after op = []"
  shows "recorded op (state_of (tx_rows w)) (state_of (tx_rows w'))"
proof -
  have "content (tx_rows w) u = content (tx_rows w') u + bag (no_before op)"
    using wstep_one(1) [OF st] op by (simp add: bag_pairs)
  moreover have "kv_version (tx_rows w') u \<noteq> None" using u live by (auto simp: live_def)
  moreover have "\<forall>x. x \<noteq> u \<longrightarrow> state_of (tx_rows w') x = state_of (tx_rows w) x"
    using state_eq [OF live, of u] wstep_one(2) [OF st] op(2) by blast
  ultimately show ?thesis
    using tame_state [OF w] u op unfolding recorded_def Let_def live_def
    by (simp only: OpType.case simp_thms) (simp add: state_of_def)
qed

section \<open>The metarecords a method leaves\<close>

lemma live_clear: "clear_field_as H ty u n w = Inr w' \<Longrightarrow> live w' = live w"
  by (auto simp: clear_field_as_def Let_def bindE_eq_Inr split: if_splits)

lemma live_set_field: "set_field_as H ty u n v w = Inr w' \<Longrightarrow> live w' = live w \<and> u \<in> live w"
proof -
  assume "set_field_as H ty u n v w = Inr w'"
  then obtain wa wb row wd where "validate_tree_ref u n v w = Inr wa" "validate_value_type n v wa = Inr wb"
    and u: "kv_version (tx_rows wb) u \<noteq> None"
    and "tx_insert H u n v None (put_tx wb (delete_rows H u (Some n) (tx_rows wb))) = Inr (row, wd)"
    and "live w' = live wd"
    by (auto simp: set_field_as_def Let_def bindE_eq_Inr)
  then have "live w' = live w" "live wb = live w" using live_insert live_checks by fastforce+
  then show ?thesis using u by (auto simp: live_def)
qed

lemma live_set_multi: "set_field_multi_as H ty u n vs w = Inr (ids, w') \<Longrightarrow> live w' = live w \<and> u \<in> live w"
proof -
  assume "set_field_multi_as H ty u n vs w = Inr (ids, w')"
  then obtain wb after wd where v: "foldE (\<lambda>v w. bindE (validate_tree_ref u n v w) (validate_value_type n v)) vs w = Inr wb"
    and u: "kv_version (tx_rows wb) u \<noteq> None"
    and d: "foldE (insert_step H u n) (fst (collapse_duplicates vs)) ([], put_tx wb (delete_rows H u (Some n) (tx_rows wb))) = Inr (after, wd)"
    and w': "live w' = live wd"
    by (auto simp: set_field_multi_as_def Let_def bindE_eq_Inr case_prod_beta)
  have "live (id wb) = live (id w)" by (rule foldE_live [OF v]) (auto simp: bindE_eq_Inr dest!: live_checks)
  then have b: "live wb = live w" by simp
  moreover have "live (snd (after, wd)) = live (snd ([] :: FieldRow list, put_tx wb (delete_rows H u (Some n) (tx_rows wb))))"
    by (rule foldE_live [OF d]) (auto simp: insert_step_def bindE_eq_Inr dest: live_insert)
  ultimately show ?thesis using u w' in_live [of u wb] by simp
qed

lemma live_append:
  assumes "append_field H u n v w = Inr (res, w')"
  shows "live w' = live w" "res = Created i \<Longrightarrow> u \<in> live w"
proof -
  obtain wa wb where a: "validate_tree_ref u n v w = Inr wa" and b: "validate_value_type n v wa = Inr wb"
    and r: "res \<noteq> Created i \<and> w' = wb \<or>
      (\<exists>vb row wd. kv_version (tx_rows wb) u = Some vb \<and> tx_insert H u n v None wb = Inr (row, wd) \<and> live w' = live wd)"
    using assms by (auto simp: append_field_def bindE_eq_Inr split: option.splits)
  have w: "live wb = live w" using live_checks(1) [OF a] live_checks(2) [OF b] by simp
  show "live w' = live w" using r w live_insert by metis
  show "res = Created i \<Longrightarrow> u \<in> live w" using r w in_live [of u wb] by auto
qed

lemma live_replace: "replace_owned_row H u old n v w = Inr w' \<Longrightarrow> live w' = live w \<and> u \<in> live w"
  by (auto simp: replace_owned_row_def bindE_eq_Inr Let_def live_def [of w] dest!: live_insert split: if_splits)

lemma live_edit:
  assumes "validate_tree_ref u n v w = Inr wa" and "validate_value_type n v wa = Inr wb"
    and "replace_owned_row H u old n v wb = Inr w'"
  shows "live w' = live w \<and> u \<in> live w"
  using live_replace [OF assms(3)] live_checks(1) [OF assms(1)] live_checks(2) [OF assms(2)] by simp

lemma live_delete_one: "delete_field H u i w = Inr w' \<Longrightarrow> live w' = live w \<and> u \<in> live w"
  by (auto simp: delete_field_def Let_def bindE_eq_Inr live_def [of w])

lemma live_delete_rows: "delete_field_rows H u n rows w = Inr (k, w') \<Longrightarrow> live w' = live w \<and> (rows \<noteq> [] \<longrightarrow> u \<in> live w)"
  by (auto simp: delete_field_rows_def Let_def bindE_eq_Inr foldl_live split: if_splits) (auto simp: in_live)

lemma live_set_record: "set_record H u fs w = Inr (rec, w') \<Longrightarrow> live w' = live w \<and> u \<in> live w"
proof -
  assume "set_record H u fs w = Inr (rec, w')"
  then obtain after wd where u: "u \<in> live w" and d: "foldE (set_step H u) (collapse_duplicate_fields fs) ([],
      foldl (\<lambda>w r. forget_type (row_name r) w) (put_tx w (delete_rows H u None (tx_rows w))) (kv_rows (tx_rows w) u)) = Inr (after, wd)"
    and w': "live w' = live wd"
    by (auto simp: set_record_def Let_def bindE_eq_Inr live_def [of w])
  have "live (snd b) = live (snd a)" if "set_step H u f a = Inr b" for f a b
    using that by (auto simp: set_step_def create_step_def bindE_eq_Inr dest!: live_insert live_checks)
  from foldE_live [OF d, of snd, OF this] show ?thesis using u w' by (simp add: foldl_live)
qed

section \<open>Every method records its change\<close>

definition tracked :: "(bytes \<Rightarrow> u64) \<Rightarrow> writer \<Rightarrow> writer \<Rightarrow> bool" where
  "tracked H w w' \<longleftrightarrow> (\<exists>os. wpath H w os w' \<and> chain os (state_of (tx_rows w)) (state_of (tx_rows w')))"

lemma tracked_refl: "winv H w \<Longrightarrow> tracked H w w"
  unfolding tracked_def using wpath_refl by (intro exI [of _ "[]"]) simp

lemma tracked_trans: "tracked H a b \<Longrightarrow> tracked H b c \<Longrightarrow> tracked H a c"
  unfolding tracked_def using wpath_trans chain_append by blast

lemma tracked_winv: "tracked H w w' \<Longrightarrow> winv H w'"
  by (auto simp: tracked_def wpath_def)

lemma wstep_wpath: "wstep H w os w' \<Longrightarrow> wpath H w os w'"
  by (simp add: wstep_def wpath_def)

lemma tracked_one: "wstep H w [op] w' \<Longrightarrow> recorded op (state_of (tx_rows w)) (state_of (tx_rows w')) \<Longrightarrow> tracked H w w'"
  unfolding tracked_def using wstep_wpath by (intro exI [of _ "[op]"]) auto

lemma still_tracked:
  assumes "wstep H w [] w'" and "live w' = live w"
  shows "tracked H w w'"
proof -
  have "content (tx_rows w') x = content (tx_rows w) x" for x
    using assms(1) by (simp add: wstep_def accounts_def rows_removed_def rows_added_def)
  then have "state_of (tx_rows w') = state_of (tx_rows w)"
    using in_live [of _ w] in_live [of _ w'] assms(2) by (auto simp: state_of_def fun_eq_iff)
  then show ?thesis unfolding tracked_def using wstep_wpath [OF assms(1)] by (intro exI [of _ "[]"]) simp
qed

lemma state_live: "state_of (tx_rows w) x = (if x \<in> live w then Some (content (tx_rows w) x) else None)"
  by (simp add: state_of_def in_live)

lemma state_update:
  assumes "live w' = live w" and "\<And>x. x \<noteq> u \<Longrightarrow> content (tx_rows w') x = content (tx_rows w) x" and "u \<in> live w"
  shows "state_of (tx_rows w') = (state_of (tx_rows w))(u := Some (content (tx_rows w') u))"
  using assms by (auto simp: state_live fun_eq_iff)

lemma clear_field_as_tracked:
  assumes w: "winv H w" and c: "clear_field_as H ty u n w = Inr w'" and ty: "cell_scoped ty"
  shows "tracked H w w'"
    "state_of (tx_rows w) u = Some m \<Longrightarrow>
       state_of (tx_rows w') = (state_of (tx_rows w))(u := Some (filter_mset (\<lambda>e. fst e \<noteq> n) m))"
proof -
  note L = live_clear [OF c]
  consider (none) "w' = w" "kv_rows_named (tx_rows w) u n = []"
    | (some) op where "wstep H w [op] w'" "no_type op = ty" "no_entity op = u" "no_field op = Some n"
        "no_before op = kv_rows_named (tx_rows w) u n" "no_after op = []" "kv_rows_named (tx_rows w) u n \<noteq> []"
  proof (cases "kv_rows_named (tx_rows w) u n = []")
    case True
    then show thesis using c none by (simp add: clear_field_as_def Let_def)
  next
    case False
    then show thesis using clear_field_as_step [OF w c] some by blast
  qed
  note cases = this
  have in_content: "u \<in> live w" if ne: "kv_rows_named (tx_rows w) u n \<noteq> []"
  proof -
    have "kv_rows_named (tx_rows w) u n = []" if "kv_version (tx_rows w) u = None"
      using no_cells_without_record [OF winvD(1) [OF w] that] kv_rows_named_Nil [OF winvD(1) [OF w], of u n] by simp
    then show ?thesis using ne by (auto simp: in_live)
  qed
  show "tracked H w w'" using cases
  proof cases
    case none
    then show ?thesis using tracked_refl [OF w] by simp
  next
    case some
    then show ?thesis
      using tracked_one [OF some(1) cell_recorded [OF w some(1) L in_content [OF some(7)] some(3-5)]] ty by simp
  qed
  show "state_of (tx_rows w') = (state_of (tx_rows w))(u := Some (filter_mset (\<lambda>e. fst e \<noteq> n) m))"
    if m: "state_of (tx_rows w) u = Some m"
    using cases
  proof cases
    case none
    have "filter_mset (\<lambda>e. fst e = n) m = {#}"
      using bag_rows_named [OF winvD(1) [OF w], of u n] none(2) m
      by (auto simp: state_of_def bag_def case_prod_beta' split: if_splits)
    then have "filter_mset (\<lambda>e. fst e \<noteq> n) m = m"
      by (metis add.right_neutral multiset_partition union_commute)
    then show ?thesis using none m by (simp add: fun_upd_idem)
  next
    case some
    have "content (tx_rows w) u = m" using m by (auto simp: state_of_def split: if_splits)
    then show ?thesis
      using state_update [OF L _ in_content [OF some(7)]] wstep_one(2) [OF some(1)] some(3)
        cell_content(2) [OF w some(1,3,5)] some(6) by (simp add: bag_def)
  qed
qed

lemma set_field_as_tracked:
  assumes w: "winv H w" and c: "set_field_as H ty u n v w = Inr w'" and ty: "cell_scoped ty"
  shows "tracked H w w'"
proof -
  obtain op row where op: "wstep H w [op] w'" "no_type op = ty" "no_entity op = u" "no_field op = Some n"
    "no_before op = kv_rows_named (tx_rows w) u n" "no_after op = [row]" "pair_of row = (n, v)"
    using set_field_as_step [OF w c] by blast
  show ?thesis
    using tracked_one [OF op(1) cell_recorded [OF w op(1) _ _ op(3-5)]] live_set_field [OF c] op ty
    by (simp add: pair_of_def)
qed

lemma set_field_multi_as_tracked:
  assumes w: "winv H w" and c: "set_field_multi_as H ty u n vs w = Inr (ids, w')" and ty: "cell_scoped ty"
  shows "tracked H w w'"
    "state_of (tx_rows w) u = Some m \<Longrightarrow> state_of (tx_rows w') =
       (state_of (tx_rows w))(u := Some (filter_mset (\<lambda>e. fst e \<noteq> n) m + mset (map (Pair n) (dedup_by value_eq [] vs))))"
proof -
  obtain op where op: "wstep H w [op] w'" "no_type op = ty" "no_entity op = u" "no_field op = Some n"
    "no_before op = kv_rows_named (tx_rows w) u n" "map pair_of (no_after op) = map (Pair n) (dedup_by value_eq [] vs)"
    using set_field_multi_as_step [OF w c] by blast
  note L = conjunct1 [OF live_set_multi [OF c]] conjunct2 [OF live_set_multi [OF c]]
  have "row_name r = n" if "r \<in> set (no_after op)" for r
  proof -
    have "pair_of r \<in> set (map (Pair n) (dedup_by value_eq [] vs))" using that op(6) by (metis image_eqI set_map)
    then show ?thesis by (auto simp: pair_of_def)
  qed
  then show "tracked H w w'"
    using tracked_one [OF op(1) cell_recorded [OF w op(1) L op(3-5)]] op(2) ty by simp
  assume m: "state_of (tx_rows w) u = Some m"
  have "content (tx_rows w) u = m" using m by (auto simp: state_of_def split: if_splits)
  then show "state_of (tx_rows w') =
       (state_of (tx_rows w))(u := Some (filter_mset (\<lambda>e. fst e \<noteq> n) m + mset (map (Pair n) (dedup_by value_eq [] vs))))"
    using state_update [OF L(1) _ L(2)] wstep_one(2) [OF op(1)] op(3) cell_content(2) [OF w op(1,3,5)] op(6)
    by (simp add: bag_pairs)
qed

lemma append_field_tracked:
  assumes w: "winv H w" and c: "append_field H u n v w = Inr (res, w')" and v: "value_eq v v"
  shows "tracked H w w'"
proof -
  consider "wstep H w [] w'" | op row where "wstep H w [op] w'" "no_type op = AppendField" "no_entity op = u"
      "no_before op = []" "no_after op = [row]" "pair_of row = (n, v)" "res = Created (row_id row)"
    using append_field_step [OF w c] by blast
  then show ?thesis
  proof cases
    case 1
    then show ?thesis using still_tracked live_append(1) [OF c] by blast
  next
    case 2
    have "value_eq (row_value row) (row_value row)" using 2(6) v by (simp add: pair_of_def)
    then show ?thesis
      using tracked_one [OF 2(1) append_recorded [OF w 2(1) live_append(1) [OF c] live_append(2) [OF c 2(7)] 2(2-5)]] by simp
  qed
qed

text \<open>An append of a value that has no twin.\<close>

lemma append_field_new:
  assumes w: "winv H w" and c: "append_field H u n v w = Inr (res, w')" and u: "state_of (tx_rows w) u = Some m"
    and new: "\<forall>e\<in>#m. \<not> twin e (n, v)"
  shows "winv H w'" "state_of (tx_rows w') = (state_of (tx_rows w))(u := Some (add_mset (n, v) m))"
proof -
  have m: "content (tx_rows w) u = m" "u \<in> live w" using u by (auto simp: state_live split: if_splits)
  have "\<not> value_eq (row_value r) v" if "r \<in> set (kv_rows_named (tx_rows w) u n)" for r
  proof -
    have r: "r \<in> set (kv_rows (tx_rows w) u)" "row_name r = n"
      using subsetD [OF rows_named_subset [OF winvD(1) [OF w]] that] that in_kv_rows_named [OF winvD(1) [OF w], of r u n] by simp_all
    then have "pair_of r \<in># m" unfolding m(1) [symmetric] content_def bag_pairs by simp
    then show ?thesis using new r(2) by (auto simp: twin_def pair_of_def)
  qed
  then obtain op row where op: "wstep H w [op] w'" "no_entity op = u" "no_before op = []" "no_after op = [row]" "pair_of row = (n, v)"
    using append_field_step [OF w c] by blast
  show "winv H w'" using wstep_winv [OF op(1)] .
  have "content (tx_rows w') u = add_mset (n, v) m" using wstep_one(1) [OF op(1)] op m by (simp add: bag_pairs)
  then show "state_of (tx_rows w') = (state_of (tx_rows w))(u := Some (add_mset (n, v) m))"
    using state_update [OF live_append(1) [OF c] _ m(2)] wstep_one(2) [OF op(1)] op(2) by simp
qed

lemma edit_row_tracked:
  assumes w: "winv H w" and "get_owned_row w u i = Inr old" and "validate_tree_ref u n v w = Inr wa"
    and "validate_value_type n v wa = Inr wb" and "reject_duplicate wb u i n v = Inr ()"
    and "replace_owned_row H u old n v wb = Inr w'" and v: "value_eq v v"
  shows "tracked H w w'"
proof -
  obtain op1 op2 row where s: "wstep H w [op1, op2] w'"
    and o1: "no_type op1 = DeleteField" "no_entity op1 = u" "no_before op1 = [old]" "no_after op1 = []"
    and o2: "no_type op2 = AppendField" "no_entity op2 = u" "no_before op2 = []" "no_after op2 = [row]"
    and row: "row = \<lparr>row_id = i, row_name = n, row_value = v\<rparr>"
    using edit_row_step [OF assms(1-6)] by blast
  note L = live_edit [OF assms(3,4,6)]
  have acc: "content (tx_rows w') x + rows_removed x [op1, op2] = content (tx_rows w) x + rows_added x [op1, op2]" for x
    using s by (simp add: wstep_def accounts_def)
  have other: "content (tx_rows w') x = content (tx_rows w) x" if "x \<noteq> u" for x
    using acc [of x] that o1(2) o2(2) by (simp add: rows_removed_def rows_added_def)
  define m where "m = content (tx_rows w) u - {#pair_of old#}"
  have "pair_of old \<in># content (tx_rows w) u"
    using get_owned_row_ok [OF assms(2)] unfolding content_def bag_pairs by auto
  then have c: "content (tx_rows w) u = add_mset (pair_of old) m" by (simp add: m_def)
  have d: "content (tx_rows w') u = add_mset (pair_of row) m"
    using acc [of u] o1 o2 c by (simp add: rows_removed_def rows_added_def bag_pairs)
  let ?c = "state_of (tx_rows w)" and ?e = "(state_of (tx_rows w))(u := Some m)"
  have cu: "?c u = Some (add_mset (pair_of old) m)" using L c by (simp add: state_live)
  have tc: "tame ?c" by (rule tame_state [OF w])
  have "untwinned m" using tc cu untwinned_subset unfolding tame_def by (metis mset_subset_eq_add_right add_mset_add_single mset_subset_eq_add_left)
  then have te: "tame ?e" using tc by (auto simp: tame_def)
  have "recorded op1 ?c ?e" using tc cu o1 by (simp add: recorded_def Let_def bag_pairs)
  moreover have "state_of (tx_rows w') = ?e(u := Some (add_mset (pair_of row) m))"
    using state_update [OF conjunct1 [OF L] other conjunct2 [OF L]] d by simp
  then have "recorded op2 ?e (state_of (tx_rows w'))" using te o2 row v by (simp add: recorded_def Let_def)
  ultimately show ?thesis unfolding tracked_def using wstep_wpath [OF s] by (intro exI [of _ "[op1, op2]"]) auto
qed

lemma delete_rows_tracked:
  assumes w: "winv H w" and st: "wstep H w [op] w'" and op: "no_type op = DeleteField" "no_entity op = u" "no_after op = []"
    and L: "live w' = live w" "u \<in> live w"
  shows "tracked H w w'"
    "state_of (tx_rows w') = (state_of (tx_rows w))(u := Some (content (tx_rows w) u - bag (no_before op)))"
proof -
  show "tracked H w w'" by (rule tracked_one [OF st delete_recorded [OF w st L op]])
  have "content (tx_rows w) u = content (tx_rows w') u + bag (no_before op)"
    using wstep_one(1) [OF st] op by (simp add: bag_pairs)
  then show "state_of (tx_rows w') = (state_of (tx_rows w))(u := Some (content (tx_rows w) u - bag (no_before op)))"
    using state_update [OF L(1) _ L(2)] wstep_one(2) [OF st] op(2) by simp
qed

lemma delete_field_tracked:
  assumes w: "winv H w" and c: "delete_field H u i w = Inr w'"
  shows "tracked H w w'"
proof -
  obtain op where "wstep H w [op] w'" "no_type op = DeleteField" "no_entity op = u" "no_after op = []"
    using delete_field_step [OF w c] by blast
  then show ?thesis using delete_rows_tracked(1) [OF w] live_delete_one [OF c] by blast
qed

lemma delete_fields_valued_tracked:
  assumes w: "winv H w" and c: "delete_fields_valued H u n v w = Inr (k, w')"
  shows "tracked H w w'"
    "state_of (tx_rows w) u = Some m \<Longrightarrow> state_of (tx_rows w') = (state_of (tx_rows w))(u :=
       Some (m - bag (filter (\<lambda>r. value_eq (row_value r) v) (kv_rows_named (tx_rows w) u n))))"
proof -
  let ?rows = "filter (\<lambda>r. value_eq (row_value r) v) (kv_rows_named (tx_rows w) u n)"
  have L: "live w' = live w" "?rows \<noteq> [] \<Longrightarrow> u \<in> live w"
    using live_delete_rows [of H u n ?rows w k w'] c by (auto simp: delete_fields_valued_def)
  have "tracked H w w' \<and> (state_of (tx_rows w) u = Some m \<longrightarrow>
      state_of (tx_rows w') = (state_of (tx_rows w))(u := Some (m - bag ?rows)))" for m
  proof (cases "?rows = []")
    case True
    then have "w' = w" using c by (simp add: delete_fields_valued_def delete_field_rows_def)
    then show ?thesis using True tracked_refl [OF w] by (simp add: bag_def fun_upd_idem)
  next
    case False
    then obtain op where op: "wstep H w [op] w'" "no_type op = DeleteField" "no_entity op = u" "no_before op = ?rows" "no_after op = []"
      using delete_fields_valued_step [OF w c] by blast
    show ?thesis
      using delete_rows_tracked [OF w op(1-3,5) L(1) L(2) [OF False]] op(4) by (simp add: state_live)
  qed
  then show "tracked H w w'" "state_of (tx_rows w) u = Some m \<Longrightarrow> state_of (tx_rows w') = (state_of (tx_rows w))(u := Some (m - bag ?rows))"
    by blast+
qed

lemma delete_fields_named_tracked:
  assumes w: "winv H w" and c: "delete_fields_named H u n w = Inr (k, w')"
  shows "tracked H w w'"
proof (cases "kv_rows_named (tx_rows w) u n = []")
  case True
  then show ?thesis using c tracked_refl [OF w] by (simp add: delete_fields_named_def delete_field_rows_def)
next
  case False
  have L: "live w' = live w" "u \<in> live w"
    using live_delete_rows [of H u n "kv_rows_named (tx_rows w) u n" w k w'] c False by (auto simp: delete_fields_named_def)
  obtain op where "wstep H w [op] w'" "no_type op = DeleteField" "no_entity op = u" "no_after op = []"
    using delete_fields_named_step [OF w c] False by blast
  then show ?thesis using delete_rows_tracked(1) [OF w] L by blast
qed

lemma set_record_tracked:
  assumes w: "winv H w" and c: "set_record H u fs w = Inr (rec, w')"
  shows "tracked H w w'"
    "state_of (tx_rows w') = (state_of (tx_rows w))(u := Some (mset (map field_pair (collapse_duplicate_fields fs))))"
proof -
  obtain op where op: "wstep H w [op] w'" "no_type op = SetRecord" "no_entity op = u" "no_before op = kv_rows (tx_rows w) u"
    "map pair_of (no_after op) = map field_pair (collapse_duplicate_fields fs)"
    using set_record_step [OF w c] by blast
  note L = live_set_record [OF c]
  have "content (tx_rows w') u = bag (no_after op)" using wstep_one(1) [OF op(1)] op(3,4) by (simp add: content_def)
  then have st: "state_of (tx_rows w') = (state_of (tx_rows w))(u := Some (bag (no_after op)))"
    using state_update [OF conjunct1 [OF L] _ conjunct2 [OF L]] wstep_one(2) [OF op(1)] op(3) by simp
  have "recorded op (state_of (tx_rows w)) (state_of (tx_rows w'))"
    using op(2-4) tame_state [OF w] L st by (simp add: recorded_def Let_def state_live content_def)
  then show "tracked H w w'" by (rule tracked_one [OF op(1)])
  show "state_of (tx_rows w') = (state_of (tx_rows w))(u := Some (mset (map field_pair (collapse_duplicate_fields fs))))"
    using st op(5) by (simp add: bag_pairs)
qed

lemma delete_metarecord_tracked:
  assumes w: "winv H w" and c: "delete_metarecord H u w = Inr w'"
  shows "tracked H w w'" "state_of (tx_rows w') = (state_of (tx_rows w))(u := None)"
proof -
  obtain op where op: "wstep H w [op] w'" "no_type op = DeleteRecord" "no_entity op = u" "no_before op = kv_rows (tx_rows w) u"
    using delete_metarecord_step(1) [OF w c] by blast
  have "live (put_tx w (remove_metarecord H u (tx_rows w))) = live w - {u}"
    by (auto simp: live_def remove_metarecord_def kv_version_def delete_rows_records)
  then have "live w' = live w - {u}"
    using c by (auto simp: delete_metarecord_def Let_def bindE_eq_Inr split: if_splits)
  then show st: "state_of (tx_rows w') = (state_of (tx_rows w))(u := None)"
    using wstep_one(2) [OF op(1)] op(3) by (auto simp: state_live fun_eq_iff)
  have "recorded op (state_of (tx_rows w)) (state_of (tx_rows w'))"
    using op(2-4) tame_state [OF w] delete_metarecord_step(3) [OF w c] st
    by (simp add: recorded_def Let_def) (simp add: state_of_def content_def)
  then show "tracked H w w'" by (rule tracked_one [OF op(1)])
qed

lemma live_create: "create_metarecord_with_uuid H u fs w = Inr (rec, w') \<Longrightarrow> live w' = insert u (live w)"
proof -
  assume "create_metarecord_with_uuid H u fs w = Inr (rec, w')"
  then obtain wb s after wd where v: "foldE (\<lambda>f. validate_tree_ref u (f_name f) (f_value f)) (collapse_duplicate_fields fs) w = Inr wb"
    and s: "create_metarecord_row u (version_base H u) (tx_rows wb) = Inr s"
    and d: "foldE (create_step H u) (collapse_duplicate_fields fs) ([], put_tx wb s) = Inr (after, wd)"
    and w': "live w' = live wd"
    by (auto simp: create_metarecord_with_uuid_def Let_def bindE_eq_Inr)
  have "live (id wb) = live (id w)" by (rule foldE_live [OF v]) (auto dest: live_checks(1))
  moreover have "live (put_tx wb s) = insert u (live wb)"
    using s by (auto simp: live_def create_metarecord_row_def kv_version_def split: if_splits)
  moreover have "live (snd (after, wd)) = live (snd ([] :: FieldRow list, put_tx wb s))"
    by (rule foldE_live [OF d]) (auto simp: create_step_def bindE_eq_Inr dest!: live_insert live_checks)
  ultimately show ?thesis using w' by simp
qed

lemma create_metarecord_tracked:
  assumes w: "winv H w" and c: "create_metarecord_with_uuid H u fs w = Inr (rec, w')"
  shows "tracked H w w'"
    "state_of (tx_rows w') = (state_of (tx_rows w))(u := Some (mset (map field_pair (collapse_duplicate_fields fs))))"
proof -
  obtain op where op: "wstep H w [op] w'" "no_type op = CreateRecord" "no_entity op = u" "no_before op = []"
    "map pair_of (no_after op) = map field_pair (collapse_duplicate_fields fs)"
    using create_metarecord_step(1) [OF w c] by blast
  have u: "kv_version (tx_rows w) u = None" by (rule create_metarecord_step(2) [OF w c])
  have "content (tx_rows w) u = {#}" using content_no_record(1) [OF winvD(1) [OF w] u] .
  then have "content (tx_rows w') u = bag (no_after op)" using wstep_one(1) [OF op(1)] op(3,4) by (simp add: bag_def)
  then have st: "state_of (tx_rows w') = (state_of (tx_rows w))(u := Some (bag (no_after op)))"
    using live_create [OF c] wstep_one(2) [OF op(1)] op(3) by (auto simp: state_live fun_eq_iff)
  then have "recorded op (state_of (tx_rows w)) (state_of (tx_rows w'))"
    using op(2-4) tame_state [OF w] u by (simp add: recorded_def Let_def) (simp add: state_of_def)
  then show "tracked H w w'" by (rule tracked_one [OF op(1)])
  show "state_of (tx_rows w') = (state_of (tx_rows w))(u := Some (mset (map field_pair (collapse_duplicate_fields fs))))"
    using st op(5) by (simp add: bag_pairs)
qed

text \<open>
  The requests the theorem is about: a cell-scoped write records a cell-scoped type, and no value
  appended differs from itself (a float that is not a number does).
\<close>

fun request_ok :: "request \<Rightarrow> bool" where
  "request_ok (ClearField ty u n) = cell_scoped ty"
| "request_ok (SetOne ty u n v) = cell_scoped ty"
| "request_ok (SetMany ty u n vs) = cell_scoped ty"
| "request_ok (Append u n v) = value_eq v v"
| "request_ok (Replace u i v) = value_eq v v"
| "request_ok (Rename u i n v) = value_eq v v"
| "request_ok _ = True"

lemma settings_tracked:
  assumes "winv H w"
  shows "tracked H w (defer_type_checks w)" "tracked H w (reverting i w)" "tracked H w (set_origin s w)"
proof -
  have "tx_rows (defer_type_checks w) = tx_rows w" "tx_rows (reverting i w) = tx_rows w" "tx_rows (set_origin s w) = tx_rows w"
    by (simp_all add: defer_type_checks_def reverting_def set_origin_def)
  then show "tracked H w (defer_type_checks w)" "tracked H w (reverting i w)" "tracked H w (set_origin s w)"
    unfolding tracked_def using settings_path [OF assms] by (metis chain.simps(1))+
qed

lemma perform_tracked:
  assumes w: "winv H w" and p: "perform H r w = Inr w'" and ok: "request_ok r"
  shows "tracked H w w'"
proof (cases r)
  case (ClearField ty u n)
  then show ?thesis using p ok clear_field_as_tracked(1) [OF w] by simp
next
  case (CreateMetarecord u fs)
  then show ?thesis using p create_metarecord_tracked(1) [OF w] by (auto simp: bindE_eq_Inr)
next
  case (DeleteMetarecord u)
  then show ?thesis using p delete_metarecord_tracked(1) [OF w] by simp
next
  case (SetRecordFields u fs)
  then show ?thesis using p set_record_tracked(1) [OF w] by (auto simp: bindE_eq_Inr)
next
  case (SetOne ty u n v)
  then show ?thesis using p ok set_field_as_tracked [OF w] by simp
next
  case (SetMany ty u n vs)
  then show ?thesis using p ok set_field_multi_as_tracked(1) [OF w] by (auto simp: bindE_eq_Inr)
next
  case (Append u n v)
  then show ?thesis using p ok append_field_tracked [OF w] by (auto simp: bindE_eq_Inr)
next
  case (Replace u i v)
  then show ?thesis using p ok edit_row_tracked [OF w] by (auto simp: replace_field_def bindE_eq_Inr)
next
  case (Rename u i n v)
  then show ?thesis using p ok edit_row_tracked [OF w] by (auto simp: rename_field_def bindE_eq_Inr)
next
  case (DeleteOne u i)
  then show ?thesis using p delete_field_tracked [OF w] by simp
next
  case (DeleteValued u n v)
  then show ?thesis using p delete_fields_valued_tracked(1) [OF w] by (auto simp: bindE_eq_Inr)
next
  case (DeleteNamed u n)
  then show ?thesis using p delete_fields_named_tracked [OF w] by (auto simp: bindE_eq_Inr)
qed (use p settings_tracked [OF w] in auto)

lemma requests_tracked:
  assumes "foldE (perform H) rs w = Inr w'" and "winv H w" and "list_all request_ok rs"
  shows "tracked H w w'"
proof (rule foldE_invariant [OF assms(1)])
  show "tracked H w w" by (rule tracked_refl [OF assms(2)])
  show "tracked H w b" if "r \<in> set rs" "tracked H w a" "perform H r a = Inr b" for r a b
    using perform_tracked [OF tracked_winv [OF that(2)] that(3)] that assms(3) tracked_trans
    by (metis list_all_iff)
qed

section \<open>The inverse of a record\<close>

lemma rows_fields: "map field_pair (rows_to_fields rows) = map pair_of rows"
  by (simp add: rows_to_fields_def field_pair_def pair_of_def Field_new_def)

lemma untwinned_bag: "untwinned (bag rows) \<longleftrightarrow> twin_free twin (map pair_of rows)"
  by (simp only: bag_pairs untwinned_list)

lemma collapse_rows:
  assumes "untwinned (bag rows)"
  shows "collapse_duplicate_fields (rows_to_fields rows) = rows_to_fields rows"
proof -
  have "twin_free twin (map field_pair (rows_to_fields rows))"
    using assms by (simp only: rows_fields untwinned_bag)
  then have "twin_free same_field (rows_to_fields rows)"
    unfolding twin_free_map by (rule twin_free_mono) (auto simp: same_field_def twin_def field_pair_def)
  then show ?thesis using dedup_by_all [of same_field "[]"] by (simp add: collapse_duplicate_fields_def)
qed

lemma collapse_values:
  assumes "untwinned (bag rows)" and "\<forall>r\<in>set rows. row_name r = n"
  shows "mset (map (Pair n) (dedup_by value_eq [] (map row_value rows))) = bag rows"
proof -
  have "twin_free twin (map pair_of rows)" using assms(1) by (simp only: untwinned_bag)
  then have "twin_free value_eq (map row_value rows)"
    unfolding twin_free_map by (rule twin_free_mono) (use assms(2) in \<open>auto simp: twin_def pair_of_def\<close>)
  then have "dedup_by value_eq [] (map row_value rows) = map row_value rows" using dedup_by_all [of value_eq "[]"] by simp
  moreover have "map (Pair n) (map row_value rows) = map pair_of rows" using assms(2) by (simp add: pair_of_def)
  ultimately show ?thesis by (simp add: bag_pairs del: map_map)
qed

lemma append_back_loop:
  assumes "foldE (append_back H u) rows w = Inr w'" and "winv H w" and "state_of (tx_rows w) u = Some m"
    and "untwinned (m + bag rows)"
  shows "winv H w' \<and> state_of (tx_rows w') = (state_of (tx_rows w))(u := Some (m + bag rows))"
  using assms
proof (induction rows arbitrary: w m)
  case Nil
  then show ?case by (simp add: bag_def fun_upd_idem)
next
  case (Cons r rows)
  obtain res wa where a: "append_field H u (row_name r) (row_value r) w = Inr (res, wa)" and rest: "foldE (append_back H u) rows wa = Inr w'"
    using Cons.prems(1) unfolding foldE.simps(2) bindE_eq_Inr append_back_def [of H u r w] by auto
  have "\<not> twin e (row_name r, row_value r)" if "e \<in># m" for e
  proof -
    have "{#e#} \<subseteq># m" using that by simp
    then have "{#e#} + {#pair_of r#} \<subseteq># m + bag (r # rows)"
      by (intro subset_mset.add_mono) (simp_all add: bag_pairs)
    then have "{#pair_of r, e#} \<subseteq># m + bag (r # rows)" by (simp add: add_mset_commute)
    then have "\<not> twin (pair_of r) e" using Cons.prems(4) unfolding untwinned_def by blast
    then show ?thesis using twin_sym [of e "pair_of r"] by (auto simp: pair_of_def)
  qed
  note N = append_field_new [OF Cons.prems(2) a Cons.prems(3)] and this
  then have wa: "winv H wa" "state_of (tx_rows wa) = (state_of (tx_rows w))(u := Some (add_mset (pair_of r) m))"
    by (simp_all add: pair_of_def)
  have "untwinned (add_mset (pair_of r) m + bag rows)" using Cons.prems(4) by (simp add: bag_pairs)
  then show ?case using Cons.IH [OF rest wa(1), of "add_mset (pair_of r) m"] wa(2) by (simp add: bag_pairs fun_eq_iff)
qed

lemma delete_back:
  assumes w: "winv H w" and c: "delete_by_value H u r w = Inr w'" and v: "value_eq (row_value r) (row_value r)"
    and st: "state_of (tx_rows w) u = Some (add_mset (pair_of r) m)"
  shows "winv H w' \<and> state_of (tx_rows w') = (state_of (tx_rows w))(u := Some m)"
proof -
  obtain k where d: "delete_fields_valued H u (row_name r) (row_value r) w = Inr (k, w')"
    using c by (auto simp: delete_by_value_def bindE_eq_Inr)
  let ?rows = "filter (\<lambda>q. value_eq (row_value q) (row_value r)) (kv_rows_named (tx_rows w) u (row_name r))"
  have content: "content (tx_rows w) u = add_mset (pair_of r) m" using st by (auto simp: state_of_def split: if_splits)
  have unt: "untwinned (add_mset (pair_of r) m)" using tame_state [OF w] st unfolding tame_def by blast
  have "bag ?rows = filter_mset (\<lambda>e. value_eq (snd e) (row_value r)) (bag (kv_rows_named (tx_rows w) u (row_name r)))"
    by (simp add: bag_pairs pair_of_def filter_mset_image_mset)
  also have "\<dots> = filter_mset (\<lambda>e. twin e (pair_of r)) (add_mset (pair_of r) m)"
    unfolding bag_rows_named [OF winvD(1) [OF w]] content
    by (simp add: filter_filter_mset twin_def pair_of_def case_prod_beta' conj_commute)
  also have "\<dots> = add_mset (pair_of r) (filter_mset (\<lambda>e. twin e (pair_of r)) m)"
    using v by (simp add: twin_def pair_of_def)
  also have "filter_mset (\<lambda>e. twin e (pair_of r)) m = {#}"
  proof -
    have "\<not> twin e (pair_of r)" if "e \<in># m" for e
    proof -
      have "{#pair_of r, e#} \<subseteq># add_mset (pair_of r) m" using that by simp
      then show ?thesis using unt twin_sym unfolding untwinned_def by blast
    qed
    then have "filter_mset (\<lambda>e. twin e (pair_of r)) m = filter_mset (\<lambda>_. False) m" by (intro filter_mset_cong) auto
    then show ?thesis by simp
  qed
  finally have "bag ?rows = {#pair_of r#}" .
  then show ?thesis
    using delete_fields_valued_tracked(2) [OF w d st] tracked_winv [OF delete_fields_valued_tracked(1) [OF w d]] by simp
qed

lemma recorded_back: "recorded op c d \<Longrightarrow> d(no_entity op := c (no_entity op)) = c"
  by (auto simp: recorded_def fun_eq_iff)

lemma op_type_names [simp]: "op_type (op_row i l ts op) = op_as_str (no_type op)" "op_id (op_row i l ts op) = i"
  "entity_uuid (op_row i l ts op) = no_entity op" "field_name (op_row i l ts op) = no_field op"
  by (simp_all add: op_row_def)

lemma cell_written_as: "cell_scoped (no_type op) \<Longrightarrow> cell_scoped (written_as (op_row i l ts op))"
  by (auto simp: cell_scoped_def written_as_def)

lemma apply_inverse_cell:
  assumes w: "winv H w" and rec: "recorded op c (state_of (tx_rows w))" and ty: "cell_scoped (no_type op)"
    and snap: "\<And>b. snapshots (tx_log w) i b = side b op"
    and app: "apply_inverse H (op_row i l ts op) w = Inr w'"
  shows "winv H w' \<and> state_of (tx_rows w') = c"
proof -
  let ?u = "no_entity op"
  obtain m n where n: "no_field op = Some n" and c: "c ?u = Some (m + bag (no_before op))"
    and d: "state_of (tx_rows w) ?u = Some (m + bag (no_after op))"
    and names: "\<forall>r\<in>set (no_before op @ no_after op). row_name r = n" and m: "\<forall>e\<in>#m. fst e \<noteq> n"
    using rec ty by (cases "no_type op") (auto simp: recorded_def cell_scoped_def Let_def)
  have unt: "untwinned (bag (no_before op))"
    using rec c untwinned_subset [of "m + bag (no_before op)"] unfolding recorded_def tame_def by auto
  have "filter_mset (\<lambda>e. fst e \<noteq> n) m = filter_mset (\<lambda>_. True) m"
    using m by (intro filter_mset_cong) auto
  moreover have "filter_mset (\<lambda>e. fst e \<noteq> n) (bag (no_after op)) = filter_mset (\<lambda>_. False) (bag (no_after op))"
    using names by (intro filter_mset_cong) (auto simp: bag_pairs pair_of_def)
  ultimately have f: "filter_mset (\<lambda>e. fst e \<noteq> n) (m + bag (no_after op)) = m" by simp
  let ?ty = "written_as (op_row i l ts op)"
  have tys: "cell_scoped ?ty" by (rule cell_written_as [OF ty])
  have ap: "apply_inverse H (op_row i l ts op) w = (if no_before op = [] then clear_field_as H ?ty ?u n w
      else bindE (set_field_multi_as H ?ty ?u n (map row_value (no_before op)) w) (\<lambda>(_, w). Inr w))"
    using ty n by (auto simp: apply_inverse_def Let_def snap side_def cell_scoped_def)
  have "winv H w' \<and> state_of (tx_rows w') = (state_of (tx_rows w))(?u := Some (m + bag (no_before op)))"
  proof (cases "no_before op = []")
    case True
    then have "clear_field_as H ?ty ?u n w = Inr w'" using app ap by simp
    from clear_field_as_tracked [OF w this tys] show ?thesis
      using tracked_winv d f True by (auto simp: bag_def)
  next
    case False
    then obtain ids where "set_field_multi_as H ?ty ?u n (map row_value (no_before op)) w = Inr (ids, w')"
      using app ap by (auto simp: bindE_eq_Inr)
    from set_field_multi_as_tracked [OF w this tys] show ?thesis
      using tracked_winv d f collapse_values [OF unt] names by auto
  qed
  then show ?thesis using recorded_back [OF rec] c by simp
qed

lemma apply_inverse_undoes:
  assumes w: "winv H w" and rec: "recorded op c (state_of (tx_rows w))"
    and snap: "\<And>b. snapshots (tx_log w) i b = side b op"
    and app: "apply_inverse H (op_row i l ts op) w = Inr w'"
  shows "winv H w' \<and> state_of (tx_rows w') = c"
proof -
  let ?u = "no_entity op"
  note B = recorded_back [OF rec]
  have tame: "untwinned m" if "c x = Some m" for x m using rec that unfolding recorded_def tame_def by blast
  consider "no_type op = CreateRecord" | "no_type op = DeleteRecord" | "no_type op = SetRecord"
    | "no_type op = AppendField" | "no_type op = DeleteField" | "cell_scoped (no_type op)" | "no_type op = Unknown"
    by (cases "no_type op") (auto simp: cell_scoped_def)
  then show ?thesis
  proof cases
    case 1
    then have "delete_metarecord H ?u w = Inr w'" "c ?u = None"
      using app rec by (simp_all add: apply_inverse_def Let_def recorded_def)
    then show ?thesis using delete_metarecord_tracked [OF w] tracked_winv B by metis
  next
    case 2
    then obtain rec where c: "create_metarecord_with_uuid H ?u (rows_to_fields (no_before op)) w = Inr (rec, w')"
      using app by (auto simp: apply_inverse_def Let_def snap side_def bindE_eq_Inr split: if_splits)
    have cu: "c ?u = Some (bag (no_before op))" using 2 \<open>recorded op c _\<close> by (simp add: recorded_def Let_def)
    then show ?thesis
      using create_metarecord_tracked [OF w c] tracked_winv B collapse_rows [OF tame [OF cu]]
      by (auto simp: rows_fields bag_pairs simp del: map_map)
  next
    case 3
    then obtain rec where c: "set_record H ?u (rows_to_fields (no_before op)) w = Inr (rec, w')"
      using app by (auto simp: apply_inverse_def Let_def snap side_def bindE_eq_Inr split: if_splits)
    have cu: "c ?u = Some (bag (no_before op))" using 3 \<open>recorded op c _\<close> by (simp add: recorded_def Let_def)
    then show ?thesis
      using set_record_tracked [OF w c] tracked_winv B collapse_rows [OF tame [OF cu]]
      by (auto simp: rows_fields bag_pairs simp del: map_map)
  next
    case 4
    then obtain m r where c: "c ?u = Some m" and r: "no_after op = [r]" "value_eq (row_value r) (row_value r)"
      and d: "state_of (tx_rows w) ?u = Some (add_mset (pair_of r) m)"
      using rec by (auto simp: recorded_def Let_def)
    have "delete_by_value H ?u r w = Inr w'"
      using app 4 r by (auto simp: apply_inverse_def Let_def snap side_def bindE_eq_Inr)
    from delete_back [OF w this r(2) d] show ?thesis using B c by simp
  next
    case 5
    then obtain m where c: "c ?u = Some (m + bag (no_before op))" and d: "state_of (tx_rows w) ?u = Some m"
      using rec by (auto simp: recorded_def Let_def)
    have "foldE (append_back H ?u) (no_before op) w = Inr w'"
      using app 5 by (simp add: apply_inverse_def Let_def snap side_def)
    from append_back_loop [OF this w d tame [OF c]] show ?thesis using B c by simp
  next
    case 6
    show ?thesis by (rule apply_inverse_cell [OF w rec 6 snap app])
  next
    case 7
    then show ?thesis using rec by (simp add: recorded_def Let_def)
  qed
qed

section \<open>A revert is a write\<close>

definition revert_run :: "(bytes \<Rightarrow> u64) \<Rightarrow> WriteContext \<Rightarrow> Retention \<Rightarrow> int \<Rightarrow> OpRow list \<Rightarrow> rowstore \<times> oplog
    \<Rightarrow> store_error + rowstore \<times> oplog" where
  "revert_run H ctx ret now rows st =
     bindE (begin_in ctx ret now (fst st) (snd st)) (\<lambda>w.
     bindE (apply_revert H rows w) (\<lambda>(_, w). commit w))"

lemma session_one: "perform H r w = Inr w' \<Longrightarrow> session H w w'"
  by (rule session_call [OF session_begin])

lemma session_trans:
  assumes "session H a b" and "session H b c"
  shows "session H a c"
  using assms(2,1) by (induction rule: session.induct) (auto intro: session_call)

lemma apply_inverse_session:
  assumes "apply_inverse H op w = Inr w'"
  shows "session H w w'"
proof -
  have loop: "session H w w'" if "foldE f rows w = Inr w'" "\<And>r a b. f r a = Inr b \<Longrightarrow> session H a b" for f and rows :: "FieldRow list"
    by (rule foldE_invariant [OF that(1)]) (auto intro: session_begin session_trans dest: that(2))
  have del: "session H a b" if "delete_by_value H u r a = Inr b" for u r a b
    by (rule session_one [of H "DeleteValued u (row_name r) (row_value r)"]) (use that in \<open>simp add: delete_by_value_def\<close>)
  have app: "session H a b" if "append_back H u r a = Inr b" for u r a b
    by (rule session_one [of H "Append u (row_name r) (row_value r)"]) (use that in \<open>simp add: append_back_def\<close>)
  show ?thesis
    using assms session_one [of H "DeleteMetarecord (entity_uuid op)" w w']
      session_one [of H "CreateMetarecord (entity_uuid op) fs" w w' for fs]
      session_one [of H "SetRecordFields (entity_uuid op) fs" w w' for fs]
      session_one [of H "ClearField ty (entity_uuid op) n" w w' for ty n]
      session_one [of H "SetMany ty (entity_uuid op) n vs" w w' for ty n vs]
      loop [OF _ del] loop [OF _ app]
    by (auto simp: apply_inverse_def Let_def split: if_splits option.splits)
qed

lemma apply_step_session:
  assumes "apply_step H op a = Inr b"
  shows "session H (snd a) (snd b)"
proof -
  have r: "session H (snd a) (reverting (Some (op_id op)) (snd a))"
    by (rule session_one [of H "Reverts (Some (op_id op))"]) simp
  then show ?thesis
    using assms session_trans [OF r] apply_inverse_session by (auto simp: apply_step_def Let_def bindE_eq_Inr split: if_splits)
qed

lemma apply_revert_session:
  assumes "apply_revert H rows w = Inr (k, w')"
  shows "session H w w'"
proof -
  obtain n wb where l: "foldE (apply_step H) (rev rows) (0, defer_type_checks w) = Inr (n, wb)" and w': "w' = reverting None wb"
    using assms by (auto simp: apply_revert_def bindE_eq_Inr)
  have "session H w (snd (n, wb))"
  proof (rule foldE_invariant [OF l])
    show "session H w (snd (0 :: nat, defer_type_checks w))" by (rule session_one [of H DeferChecks]) simp
  qed (blast intro: session_trans apply_step_session)
  then show ?thesis using session_trans [OF _ session_one [of H "Reverts None" wb w']] w' by simp
qed

lemma revert_is_write:
  assumes "revert_run H ctx ret now rows st = Inr st'"
  shows "\<exists>requests. write_run H ctx ret now requests st = Inr st'"
proof -
  obtain w k w' where b: "begin_in ctx ret now (fst st) (snd st) = Inr w" and a: "apply_revert H rows w = Inr (k, w')"
    and c: "commit w' = Inr st'"
    using assms by (auto simp: revert_run_def bindE_eq_Inr)
  obtain requests where "foldE (perform H) requests w = Inr w'"
    using apply_revert_session [OF a] session_calls by blast
  then show ?thesis using b c by (intro exI [of _ requests]) (simp add: write_run_def)
qed

section \<open>The inverse of a write\<close>

lemma append_old_snapshots:
  assumes inv: "log_inv s" and l: "tget (labels s) l \<noteq> None" and i: "i < next_op s"
  shows "snapshots (snd (append_ops l ts os s)) i b = snapshots s i b"
proof -
  have "tscan (\<lambda>(j, a, _). j = i \<and> a = b) (snaps (snd (append_ops l ts os s))) = tscan (\<lambda>(j, a, _). j = i \<and> a = b) (snaps s)"
    using log_invD(3) [OF append_ops_inv [OF inv l, of ts os]] log_invD(3) [OF inv] i
    by (intro table_ext tscan_ordered) (auto simp: log_ordered_def fun_eq_iff append_ops_def Let_def append_all_snaps)
  then show ?thesis by (simp add: snapshots_def)
qed

text \<open>The snapshots a write started with stay readable during it.\<close>

lemma snapshots_stable:
  assumes w0: "winv H w0" "op_count w0 = 0" and p: "wpath H w0 os w" and i: "i < next_op (tx_log w0)"
  shows "snapshots (tx_log w) i b = snapshots (tx_log w0) i b"
proof -
  have w: "winv H w" using p by (simp add: wpath_def)
  have l0: "log_after w0 = tx_log w0" using nothing_written [OF w0(1)] w0(2) by (simp add: log_after_def)
  have la: "log_after w = snd (append_ops (w_label w0) (w_timestamp w0) os (tx_log w0))" "op_count w = int (length os)"
    using p l0 w0(2) by (simp_all add: wpath_def)
  have book: "log_inv (tx_log w0)" "tget (labels (tx_log w0)) (w_label w0) \<noteq> None"
    "log_inv (tx_log w)" "tget (labels (tx_log w)) (w_label w) \<noteq> None"
    using winvD(5) [OF w0(1)] winvD(5) [OF w] by (simp_all add: book_ok_def)
  have "next_op (log_after w) = next_op (tx_log w) + int (length (w_pending w))" by (simp add: log_after_def)
  moreover have "next_op (log_after w) = next_op (tx_log w0) + int (length os)" by (simp add: la)
  moreover have "0 \<le> w_flushed w" using winvD(5) [OF w] by (auto simp: book_ok_def flush_ok_def split: option.splits)
  ultimately have "i < next_op (tx_log w)" using la(2) i by (simp add: op_count_def)
  then have "snapshots (tx_log w) i b = snapshots (log_after w) i b"
    using append_old_snapshots [OF book(3,4)] by (simp add: log_after_def)
  then show ?thesis using append_old_snapshots [OF book(1,2) i] la(1) by simp
qed

text \<open>The rows of recorded operations, as a log holds them.\<close>

definition rows_hold :: "oplog \<Rightarrow> OpRow \<Rightarrow> NewOp \<Rightarrow> bool" where
  "rows_hold lg row op \<longleftrightarrow> (\<exists>i l ts. row = op_row i l ts op \<and> i < next_op lg \<and> (\<forall>b. snapshots lg i b = side b op))"

lemma apply_step_undoes:
  assumes w: "winv H w" and rec: "recorded op c (state_of (tx_rows w))" and r: "row = op_row i l ts op"
    and snap: "\<And>b. snapshots (tx_log w) i b = side b op" and app: "apply_step H row (k, w) = Inr (k', w')"
  shows "winv H w' \<and> state_of (tx_rows w') = c"
proof -
  let ?w = "reverting (Some i) w"
  have w1: "winv H ?w" "tx_rows ?w = tx_rows w" "tx_log ?w = tx_log w"
    using settings_path(2) [OF w] by (simp_all add: wpath_def) (simp_all add: reverting_def)
  have "kv_version (tx_rows w) (no_entity op) \<noteq> None" if "no_type op = CreateRecord"
    using rec that by (auto simp: recorded_def Let_def state_of_def split: if_splits)
  moreover have "op_as_str t = ''create_metarecord'' \<Longrightarrow> t = CreateRecord" for t by (cases t) auto
  ultimately have "apply_inverse H row ?w = Inr w'"
    using app w1(2) r by (auto simp: apply_step_def Let_def bindE_eq_Inr split: if_splits)
  then show ?thesis using apply_inverse_undoes [OF w1(1), of op c i l ts w'] rec snap w1(2,3) r by simp
qed

lemma apply_loop_undoes:
  assumes "foldE (apply_step H) (rev rows) (k, w) = Inr (k', w')" and "list_all2 (rows_hold (tx_log w0)) rows os"
    and w0: "winv H w0" "op_count w0 = 0" and "\<exists>ps. wpath H w0 ps w" and "chain os c (state_of (tx_rows w))"
  shows "state_of (tx_rows w') = c"
  using assms(1,2,5,6)
proof (induction rows arbitrary: os k w rule: rev_induct)
  case Nil
  then show ?case by simp
next
  case (snoc row rows)
  obtain op os' where os: "os = os' @ [op]" and hold: "list_all2 (rows_hold (tx_log w0)) rows os'" "rows_hold (tx_log w0) row op"
    using snoc.prems(2) by (auto simp: list_all2_append1 list_all2_Cons1)
  obtain i l ts where row: "row = op_row i l ts op" and i: "i < next_op (tx_log w0)"
    and s: "\<And>b. snapshots (tx_log w0) i b = side b op"
    using hold(2) by (auto simp: rows_hold_def)
  obtain ps where p: "wpath H w0 ps w" using snoc.prems(3) by blast
  obtain e where e: "chain os' c e" "recorded op e (state_of (tx_rows w))"
    using snoc.prems(4) by (auto simp: os chain_append)
  obtain k1 w1 where st: "apply_step H row (k, w) = Inr (k1, w1)" and rest: "foldE (apply_step H) (rev rows) (k1, w1) = Inr (k', w')"
    using snoc.prems(1) by (auto simp: bindE_eq_Inr)
  have wi: "winv H w" using p by (simp add: wpath_def)
  have snap: "\<And>b. snapshots (tx_log w) i b = side b op" using snapshots_stable [OF w0 p i] s by simp
  have w1: "winv H w1" "state_of (tx_rows w1) = e" using apply_step_undoes [OF wi e(2) row snap st] by blast+
  obtain qs where "wpath H w qs w1" using session_path [of H w w1] apply_step_session [OF st] wi by auto
  then have "\<exists>ps. wpath H w0 ps w1" using wpath_trans [OF p] by blast
  then show ?case using snoc.IH [OF rest hold(1)] e(1) w1(2) by simp
qed

lemma begin_in_snaps: "store_ok H rs lg \<Longrightarrow> begin_in ctx ret now rs lg = Inr w \<Longrightarrow> snaps (tx_log w) = snaps lg"
  using open_label_ok by (fastforce simp: begin_in_def bindE_eq_Inr store_ok_def)

text \<open>The operations a write appended, oldest first.\<close>

definition ops_between :: "oplog \<Rightarrow> oplog \<Rightarrow> OpRow list" where
  "ops_between lg lg' = map (\<lambda>i. the (log_op_at lg' i)) [next_op lg..next_op lg' - 1]"

lemma holds_ops_rows:
  assumes "holds_ops lg first l now os" and "first + int (length os) \<le> next_op s" and "snaps s = snaps lg"
  shows "list_all2 (rows_hold s) (map (\<lambda>i. the (log_op_at lg i)) [first..first + int (length os) - 1]) os"
proof -
  have "rows_hold s (the (log_op_at lg (first + int i))) (os ! i)" if "i < length os" for i
  proof -
    have "log_op_at lg (first + int i) = Some (op_row (first + int i) l now (os ! i))"
      "\<forall>b. snapshots lg (first + int i) b = side b (os ! i)" using assms(1) that by (auto simp: holds_ops_def)
    moreover have "first + int i < next_op s" using assms(2) that by simp
    ultimately show ?thesis unfolding rows_hold_def using assms(3) by (auto simp: snapshots_def)
  qed
  then show ?thesis by (simp add: list_all2_conv_all_nth nth_upto)
qed

lemma state_determines:
  assumes "store_ok H rs lg" and "store_ok H rs' lg'" and "state_of rs' = state_of rs"
  shows "kv_version rs' u = kv_version rs u" "kv_version rs u \<noteq> None \<Longrightarrow> content rs' u = content rs u"
proof -
  have e: "state_of rs' u = state_of rs u" using assms(3) by simp
  have v: "\<And>v. kv_version rs u = Some v \<Longrightarrow> v = vers H u (content rs u)"
    "\<And>v. kv_version rs' u = Some v \<Longrightarrow> v = vers H u (content rs' u)"
    using assms(1,2) by (simp_all add: store_ok_def vers_of_rows content_def)
  show "kv_version rs u \<noteq> None \<Longrightarrow> content rs' u = content rs u" using e by (auto simp: state_of_def split: if_splits)
  show "kv_version rs' u = kv_version rs u"
    using e v by (cases "kv_version rs u"; cases "kv_version rs' u") (auto simp: state_of_def)
qed

section \<open>Properties\<close>

text \<open>C5: Undoing a write restores the repository: reverting, newest first, the operations a committed
write appended, on the store it left, brings back the metarecords there were, each with the fields
and values it had and with the same version, and no other.\<close>

theorem revert_restores:
  assumes st: "store_ok H rs lg" and w: "write_run H ctx ret now requests (rs, lg) = Inr (rs1, lg1)"
    and ok: "list_all request_ok requests"
    and r: "revert_run H ctx' ret' now' (ops_between lg lg1) (rs1, lg1) = Inr (rs2, lg2)"
  shows "kv_version rs2 u = kv_version rs u \<and> (kv_version rs u \<noteq> None \<longrightarrow> content rs2 u = content rs u)"
proof -
  obtain w0 w where b: "begin_in ctx ret now rs lg = Inr w0" and f: "foldE (perform H) requests w0 = Inr w"
    and c: "commit w = Inr (rs1, lg1)" using write_runE [OF st w] .
  note B = begin_in_inv [OF st b]
  obtain os where p: "wpath H w0 os w" and ch: "chain os (state_of rs) (state_of (tx_rows w))"
    using requests_tracked [OF f B(1) ok] B(2) by (auto simp: tracked_def)
  note C = committed_log [OF st b p c]
  have wi: "winv H w" using p by (simp add: wpath_def)
  have rs1: "rs1 = tx_rows w" using commit_log(1) [OF wi c] .
  have st1: "store_ok H rs1 lg1" by (rule write_store_ok [OF st w])
  obtain v0 k v where b': "begin_in ctx' ret' now' rs1 lg1 = Inr v0"
    and a: "apply_revert H (ops_between lg lg1) v0 = Inr (k, v)" and c': "commit v = Inr (rs2, lg2)"
    using r by (auto simp: revert_run_def bindE_eq_Inr)
  note B' = begin_in_inv [OF st1 b']
  have v0: "winv H v0" "op_count v0 = 0" using B'(1,3,4) by (simp_all add: op_count_def)
  obtain n vb where loop: "foldE (apply_step H) (rev (ops_between lg lg1)) (0, defer_type_checks v0) = Inr (n, vb)"
    and v: "v = reverting None vb"
    using a by (auto simp: apply_revert_def bindE_eq_Inr)
  have hold: "list_all2 (rows_hold (tx_log v0)) (ops_between lg lg1) os"
    using holds_ops_rows [OF C(4)] C(2) B'(6) begin_in_snaps [OF st1 b'] by (simp add: ops_between_def)
  have "state_of (tx_rows vb) = state_of rs"
  proof (rule apply_loop_undoes [OF loop hold v0])
    show "\<exists>ps. wpath H v0 ps (defer_type_checks v0)" using settings_path(1) [OF v0(1)] by blast
    show "chain os (state_of rs) (state_of (tx_rows (defer_type_checks v0)))"
      using ch B'(2) rs1 by (simp add: defer_type_checks_def)
  qed
  moreover have "winv H v"
  proof -
    obtain ps where "wpath H v0 ps v" using session_path [OF apply_revert_session [OF a] v0(1)] by blast
    then show ?thesis by (simp add: wpath_def)
  qed
  then have "rs2 = tx_rows v" by (rule commit_log(1) [OF _ c'])
  moreover obtain rq where "write_run H ctx' ret' now' rq (rs1, lg1) = Inr (rs2, lg2)" using revert_is_write [OF r] by blast
  then have "store_ok H rs2 lg2" by (rule write_store_ok [OF st1])
  ultimately show ?thesis using state_determines [OF st, of rs2 lg2 u] v by (simp add: reverting_def)
qed

definition reverted_store :: "rowstore \<times> oplog" where
  "reverted_store = projr (revert_run (\<lambda>_. 0) (context_new ''u'') UNLIMITED 6
     (ops_between empty_log (snd sample_store)) (fst sample_store, snd sample_store))"

lemma sample_reverted:
  "revert_run (\<lambda>_. 0) (context_new ''u'') UNLIMITED 6 (ops_between empty_log (snd sample_store))
     (fst sample_store, snd sample_store) = Inr (fst reverted_store, snd reverted_store)"
proof -
  have "\<not> isl (revert_run (\<lambda>_. 0) (context_new ''u'') UNLIMITED 6
     (ops_between empty_log (snd sample_store)) (fst sample_store, snd sample_store))"
    by code_simp
  then show ?thesis by (simp add: reverted_store_def)
qed

theorem revert_restores_witness: "kv_version (fst reverted_store) 1 = None"
proof -
  have "list_all request_ok sample_requests" "kv_version empty_rows 1 = None" by code_simp+
  then show ?thesis using revert_restores [OF store_ok_empty sample_pair _ sample_reverted, of 1] by simp
qed



end
