(* ===== verification/Undo.thy ===== *)
theory Undo
  imports Revert_Laws
begin

text \<open>
  What an undo or a redo takes back (\<open>crates/core/src/undo.rs\<close>): the newest operation the user wrote
  that still stands, or the newest undo that does, with the labels it was written in.

  The functions that read the JSON body of the log are left out; the model starts from what they
  build, a list of operations and a table of labels. The hash sets and maps are lists and
  functions; the set of the undone operations is a list read by membership.
\<close>

section \<open>Operations\<close>

definition WATCHER_OP_TYPES :: "string list" where
  "WATCHER_OP_TYPES = [''file_deleted'', ''file_moved'', ''file_modified'']"

definition is_watcher_op :: "string \<Rightarrow> bool" where
  "is_watcher_op ty \<longleftrightarrow> ty \<in> set WATCHER_OP_TYPES"

record LogOp =
  lo_id :: int
  lo_label :: int
  lo_type :: string
  lo_reverts :: "int option"
  lo_origin :: "string option"

definition is_daemons :: "LogOp \<Rightarrow> bool" where
  "is_daemons op \<longleftrightarrow> lo_origin op = Some ORIGIN_WATCHER \<or>
     (lo_reverts op = None \<and> is_watcher_op (lo_type op)) \<or> lo_type op = ''unknown''"

record Candidate =
  ca_label :: int
  ca_name :: string

record Selection =
  se_op :: int
  se_candidates :: "Candidate list"

type_synonym Labels = "(int, string \<times> int option) table"

section \<open>Labels\<close>

text \<open>The loop of \<open>chain\<close>; every turn but the last takes a label of the table not taken yet.\<close>

definition label_info :: "Labels \<Rightarrow> int \<Rightarrow> string \<times> int option" where
  "label_info lbls i = (case tget lbls i of None \<Rightarrow> ([], None) | Some e \<Rightarrow> e)"

definition untaken :: "Labels \<Rightarrow> Candidate list \<Rightarrow> int set" where
  "untaken lbls out = set (map fst lbls) - set (map ca_label out)"

function label_chain :: "Labels \<Rightarrow> Candidate list \<Rightarrow> int option \<Rightarrow> Candidate list" where
  "label_chain lbls out next =
     (case next of
        None \<Rightarrow> out
      | Some i \<Rightarrow>
          if i \<in> set (map ca_label out) then out
          else (let (name, parent) = label_info lbls i
                in label_chain lbls (out @ [\<lparr>ca_label = i, ca_name = name\<rparr>]) parent))"
  by auto
termination
proof (relation "measure (\<lambda>(lbls, out, next). case next of None \<Rightarrow> 0 | Some i \<Rightarrow>
    1 + 2 * card (untaken lbls out) + (if i \<in> set (map fst lbls) then 0 else 1))", goal_cases)
  case (2 lbls out nxt i info name parent)
  let ?out = "out @ [\<lparr>ca_label = i, ca_name = name\<rparr>]"
  show ?case
  proof (cases "i \<in> set (map fst lbls)")
    case True
    then have "i \<in> untaken lbls out" using 2(2) by (simp add: untaken_def)
    moreover have "untaken lbls ?out = untaken lbls out - {i}" by (auto simp: untaken_def)
    moreover have "finite (untaken lbls out)" by (simp add: untaken_def)
    ultimately have "card (untaken lbls ?out) < card (untaken lbls out)" by (metis card_Diff1_less)
    then show ?thesis using 2 True by (cases parent) auto
  next
    case False
    then have "tget lbls i = None" by (auto simp: tget_def map_of_eq_None_iff)
    then have "parent = None" using 2(3,4) by (simp add: label_info_def)
    then show ?thesis using 2(1) by simp
  qed
qed simp

declare label_chain.simps [simp del]

definition candidates :: "int \<Rightarrow> Labels \<Rightarrow> Candidate list" where
  "candidates label lbls = label_chain lbls [] (Some label)"

section \<open>Undo and redo\<close>

definition reverters_in :: "LogOp list \<Rightarrow> int \<Rightarrow> int list" where
  "reverters_in os target = map lo_id (filter (\<lambda>op. lo_reverts op = Some target) os)"

definition newest_first :: "LogOp list \<Rightarrow> LogOp list" where
  "newest_first os = rev (sort_key lo_id os)"

fun undone_pass :: "(int \<Rightarrow> int list) \<Rightarrow> int list \<Rightarrow> LogOp list \<Rightarrow> int list" where
  "undone_pass R und [] = und"
| "undone_pass R und (op # rest) =
     undone_pass R (if \<exists>r\<in>set (R (lo_id op)). r \<notin> set und then lo_id op # und else und) rest"

definition window :: "LogOp list \<Rightarrow> LogOp list \<times> int list" where
  "window os = (let newest = newest_first os in (newest, undone_pass (reverters_in newest) [] newest))"

definition window_exhausted :: "LogOp list \<Rightarrow> nat \<Rightarrow> bool" where
  "window_exhausted os limit \<longleftrightarrow> limit \<le> length os"

fun undo_search :: "Labels \<Rightarrow> int option \<Rightarrow> int list \<Rightarrow> LogOp list \<Rightarrow> Selection option" where
  "undo_search lbls first und [] = None"
| "undo_search lbls first und (op # rest) =
     (if Some (lo_id op) = first then None
      else if is_daemons op \<or> lo_reverts op \<noteq> None \<or> lo_id op \<in> set und then undo_search lbls first und rest
      else Some \<lparr>se_op = lo_id op, se_candidates = candidates (lo_label op) lbls\<rparr>)"

definition undo :: "LogOp list \<Rightarrow> Labels \<Rightarrow> int option \<Rightarrow> Selection option" where
  "undo os lbls first = (let (newest, und) = window os in undo_search lbls first und newest)"

fun redo_search :: "Labels \<Rightarrow> int list \<Rightarrow> int list \<Rightarrow> LogOp list \<Rightarrow> Selection option" where
  "redo_search lbls reverts und [] = None"
| "redo_search lbls reverts und (op # rest) =
     (if is_daemons op then redo_search lbls reverts und rest
      else (case lo_reverts op of
              Some target \<Rightarrow>
                if target \<in> set reverts then redo_search lbls reverts und rest
                else if lo_id op \<in> set und then redo_search lbls reverts und rest
                else Some \<lparr>se_op = lo_id op, se_candidates = candidates (lo_label op) lbls\<rparr>
            | None \<Rightarrow>
                if lo_id op \<in> set und then redo_search lbls reverts und rest else None))"

definition redo :: "LogOp list \<Rightarrow> Labels \<Rightarrow> Selection option" where
  "redo os lbls =
     (let (newest, und) = window os
      in redo_search lbls (map lo_id (filter (\<lambda>op. lo_reverts op \<noteq> None) newest)) und newest)"

section \<open>The pass over the window\<close>

text \<open>A log as the daemon writes it: distinct ids, and a revert younger than what it reverts.\<close>

definition log_like :: "LogOp list \<Rightarrow> bool" where
  "log_like os \<longleftrightarrow> distinct (map lo_id os) \<and> (\<forall>op\<in>set os. \<forall>t. lo_reverts op = Some t \<longrightarrow> t < lo_id op)"

lemma newest_first_set [simp]: "set (newest_first os) = set os"
  by (simp add: newest_first_def)

lemma newest_first_sorted:
  assumes "distinct (map lo_id os)"
  shows "sorted_wrt (\<lambda>a b. lo_id b < lo_id a) (newest_first os)"
proof -
  have "sorted (map lo_id (sort_key lo_id os))" by simp
  moreover have "distinct (map lo_id (sort_key lo_id os))"
    using assms by (metis distinct_map distinct_sort set_sort)
  ultimately have "sorted_wrt (<) (map lo_id (sort_key lo_id os))" by (simp add: strict_sorted_iff)
  then show ?thesis by (simp add: newest_first_def sorted_wrt_rev sorted_wrt_map)
qed

lemma in_reverters_in: "r \<in> set (reverters_in os t) \<longleftrightarrow> (\<exists>op\<in>set os. lo_id op = r \<and> lo_reverts op = Some t)"
  by (auto simp: reverters_in_def)

lemma undone_pass_mono: "set und \<subseteq> set (undone_pass R und os)"
  by (induction R und os rule: undone_pass.induct) (auto split: if_splits)

lemma undone_pass_ids: "set (undone_pass R und os) \<subseteq> set und \<union> lo_id ` set os"
  by (induction R und os rule: undone_pass.induct) (auto split: if_splits)

lemma undone_pass_ok:
  assumes "sorted_wrt (\<lambda>a b. lo_id b < lo_id a) (prev @ rest)"
    and young: "\<And>x r. r \<in> set (R x) \<Longrightarrow> x < r \<and> r \<in> lo_id ` set (prev @ rest)"
    and und: "\<And>x. x \<in> lo_id ` set prev \<Longrightarrow> if x \<in> set und then undone R x else stands R x"
    and sub: "set und \<subseteq> lo_id ` set prev"
    and x: "x \<in> lo_id ` set (prev @ rest)"
  shows "if x \<in> set (undone_pass R und rest) then undone R x else stands R x"
  using assms
proof (induction rest arbitrary: prev und)
  case Nil
  then show ?case by simp
next
  case (Cons op rest)
  let ?b = "\<exists>r\<in>set (R (lo_id op)). r \<notin> set und"
  let ?und = "if ?b then lo_id op # und else und"
  have prev: "r \<in> lo_id ` set prev" if "r \<in> set (R (lo_id op))" for r
  proof -
    have "lo_id op < r" "r \<in> lo_id ` set (prev @ op # rest)" using Cons.prems(2) [OF that] by blast+
    then show ?thesis using Cons.prems(1) by (auto simp: sorted_wrt_append)
  qed
  have new: "if ?b then undone R (lo_id op) else stands R (lo_id op)"
  proof (cases ?b)
    case True
    then obtain r where r: "r \<in> set (R (lo_id op))" "r \<notin> set und" by blast
    then have "stands R r" using Cons.prems(3) [OF prev [OF r(1)]] by simp
    then show ?thesis using r True undone_intro by auto
  next
    case False
    then have "undone R r" if "r \<in> set (R (lo_id op))" for r using Cons.prems(3) [OF prev [OF that]] that by auto
    then have "stands R (lo_id op)" by (rule stands_intro)
    then show ?thesis using False by simp
  qed
  have fresh: "lo_id op \<notin> lo_id ` set prev" using Cons.prems(1) by (auto simp: sorted_wrt_append)
  have "if x \<in> set (undone_pass R ?und rest) then undone R x else stands R x"
  proof (rule Cons.IH [of "prev @ [op]"])
    show "sorted_wrt (\<lambda>a b. lo_id b < lo_id a) ((prev @ [op]) @ rest)" using Cons.prems(1) by simp
    show "y < r \<and> r \<in> lo_id ` set ((prev @ [op]) @ rest)" if "r \<in> set (R y)" for y r using Cons.prems(2) [OF that] by simp
    show "if y \<in> set ?und then undone R y else stands R y" if y: "y \<in> lo_id ` set (prev @ [op])" for y
    proof (cases "y = lo_id op")
      case True
      then show ?thesis using new fresh Cons.prems(4) by auto
    next
      case False
      then have "y \<in> lo_id ` set prev" using y by auto
      from Cons.prems(3) [OF this] show ?thesis using False by auto
    qed
    show "set ?und \<subseteq> lo_id ` set (prev @ [op])" using Cons.prems(4) by auto
    show "x \<in> lo_id ` set ((prev @ [op]) @ rest)" using Cons.prems(5) by simp
  qed
  then show ?case by simp
qed

lemma reverters_newest: "set (reverters_in (newest_first os) t) = set (reverters_in os t)"
  by (auto simp: in_reverters_in)

lemma stands_cong:
  assumes "\<And>x. set (R x) = set (R' x)"
  shows "stands R x \<longleftrightarrow> stands R' x" "undone R x \<longleftrightarrow> undone R' x"
proof -
  have a: "stands R x \<Longrightarrow> stands R' x" "undone R x \<Longrightarrow> undone R' x" if "\<And>x. set (R x) = set (R' x)" for R R' x
    by (induction rule: stands_undone.inducts) (use that in \<open>auto intro: stands_undone.intros\<close>)
  show "stands R x \<longleftrightarrow> stands R' x" "undone R x \<longleftrightarrow> undone R' x" using a [of R R'] a [of R' R] assms by blast+
qed

lemma window_ok:
  assumes "log_like os" and "op \<in> set os"
  shows "lo_id op \<in> set (snd (window os)) \<longleftrightarrow> undone (reverters_in os) (lo_id op)"
    "lo_id op \<notin> set (snd (window os)) \<longleftrightarrow> stands (reverters_in os) (lo_id op)"
proof -
  let ?n = "newest_first os" and ?R = "reverters_in (newest_first os)"
  have "if lo_id op \<in> set (undone_pass ?R [] ?n) then undone ?R (lo_id op) else stands ?R (lo_id op)"
  proof (rule undone_pass_ok [where prev = "[]"])
    show "sorted_wrt (\<lambda>a b. lo_id b < lo_id a) ([] @ ?n)" using assms(1) newest_first_sorted by (simp add: log_like_def)
    show "x < r \<and> r \<in> lo_id ` set ([] @ ?n)" if "r \<in> set (?R x)" for x r
      using that assms(1) by (auto simp: in_reverters_in log_like_def)
  qed (use assms(2) in auto)
  then show "lo_id op \<in> set (snd (window os)) \<longleftrightarrow> undone (reverters_in os) (lo_id op)"
    "lo_id op \<notin> set (snd (window os)) \<longleftrightarrow> stands (reverters_in os) (lo_id op)"
    using stands_not_undone [of ?R] stands_cong [of ?R "reverters_in os", OF reverters_newest]
    by (auto simp: window_def Let_def split: if_splits)
qed

section \<open>The selections\<close>

definition undoable :: "LogOp list \<Rightarrow> LogOp \<Rightarrow> bool" where
  "undoable os op \<longleftrightarrow> \<not> is_daemons op \<and> lo_reverts op = None \<and> stands (reverters_in os) (lo_id op)"

lemma undo_search_Some:
  "undo_search lbls first und os = Some sel \<Longrightarrow> \<exists>pre op post. os = pre @ op # post \<and> se_op sel = lo_id op \<and>
     se_candidates sel = candidates (lo_label op) lbls \<and> \<not> is_daemons op \<and> lo_reverts op = None \<and> lo_id op \<notin> set und \<and>
     Some (lo_id op) \<noteq> first \<and>
     (\<forall>q\<in>set pre. Some (lo_id q) \<noteq> first \<and> (is_daemons q \<or> lo_reverts q \<noteq> None \<or> lo_id q \<in> set und))"
proof (induction os)
  case (Cons op rest)
  show ?case
  proof (cases "is_daemons op \<or> lo_reverts op \<noteq> None \<or> lo_id op \<in> set und")
    case True
    then have "Some (lo_id op) \<noteq> first" "undo_search lbls first und rest = Some sel" using Cons.prems by (auto split: if_splits)
    with Cons.IH obtain pre p post where "rest = pre @ p # post \<and> se_op sel = lo_id p \<and>
        se_candidates sel = candidates (lo_label p) lbls \<and> \<not> is_daemons p \<and> lo_reverts p = None \<and> lo_id p \<notin> set und \<and>
        Some (lo_id p) \<noteq> first \<and>
        (\<forall>q\<in>set pre. Some (lo_id q) \<noteq> first \<and> (is_daemons q \<or> lo_reverts q \<noteq> None \<or> lo_id q \<in> set und))" by blast
    then show ?thesis using True \<open>Some (lo_id op) \<noteq> first\<close>
      by (intro exI [of _ "op # pre"] exI [of _ p] exI [of _ post]) auto
  next
    case False
    then show ?thesis
      using Cons.prems by (intro exI [of _ "[]"] exI [of _ op] exI [of _ rest]) (auto split: if_splits)
  qed
qed simp

lemma undo_search_None:
  "undo_search lbls first und os = None \<Longrightarrow> os = pre @ op # post \<Longrightarrow>
     is_daemons op \<or> lo_reverts op \<noteq> None \<or> lo_id op \<in> set und \<or> (\<exists>q\<in>set (pre @ [op]). first = Some (lo_id q))"
proof (induction os arbitrary: pre)
  case (Cons q rest)
  show ?case using Cons by (cases pre) (auto split: if_splits)
qed simp

lemma undo_search_cong:
  "(\<And>op. op \<in> set os \<Longrightarrow> lo_id op \<in> set und \<longleftrightarrow> lo_id op \<in> set und') \<Longrightarrow>
   undo_search lbls first und os = undo_search lbls first und' os"
  by (induction os) auto

lemma insort_last: "f x \<le> f r \<Longrightarrow> \<forall>y\<in>set ys. f y < f r \<Longrightarrow> f x < f r \<Longrightarrow> insort_key f x (ys @ [r]) = insort_key f x ys @ [r]"
  by (induction ys) auto

lemma newest_first_snoc:
  assumes "\<forall>op\<in>set os. lo_id op < lo_id r"
  shows "newest_first (os @ [r]) = r # newest_first os"
proof -
  have "sort_key lo_id (os @ [r]) = sort_key lo_id os @ [r]"
    using assms by (induction os) (simp_all add: insort_last)
  then show ?thesis by (simp add: newest_first_def)
qed

lemma reverters_in_snoc:
  "reverters_in (os @ [r]) t = reverters_in os t @ (if lo_reverts r = Some t then [lo_id r] else [])"
  by (simp add: reverters_in_def)

lemma stands_off:
  assumes "\<And>x. x \<noteq> t \<Longrightarrow> set (R x) = set (R' x)" and "\<And>x. t \<notin> set (R x)"
  shows "stands R x \<Longrightarrow> x \<noteq> t \<Longrightarrow> stands R' x" "undone R x \<Longrightarrow> x \<noteq> t \<Longrightarrow> undone R' x"
proof (induction rule: stands_undone.inducts)
  case (stands_intro op)
  show ?case
  proof (rule stands_undone.stands_intro)
    fix r assume "r \<in> set (R' op)"
    then have "r \<in> set (R op)" using assms(1) [OF stands_intro.prems] by simp
    then show "undone R' r" using stands_intro.IH assms(2) by blast
  qed
next
  case (undone_intro r op)
  then have "stands R' r" "r \<in> set (R' op)" using assms(1) [OF undone_intro.prems] assms(2) by blast+
  then show ?case by (intro stands_undone.undone_intro)
qed

text \<open>Appending a revert of an operation that reverts nothing undoes it, and changes no other.\<close>

definition reverts_it :: "LogOp list \<Rightarrow> LogOp \<Rightarrow> int \<Rightarrow> bool" where
  "reverts_it os r t \<longleftrightarrow> (\<forall>op\<in>set os. lo_id op < lo_id r) \<and> lo_reverts r = Some t \<and> \<not> is_daemons r"

lemma log_like_snoc: "log_like os \<Longrightarrow> reverts_it os r t \<Longrightarrow> t \<in> lo_id ` set os \<Longrightarrow> log_like (os @ [r])"
  by (auto simp: log_like_def reverts_it_def)

lemma none_reverts_newest:
  assumes "log_like os" and "reverts_it os r t"
  shows "reverters_in os (lo_id r) = []"
proof -
  have "lo_reverts op \<noteq> Some (lo_id r)" if "op \<in> set os" for op
    using assms that unfolding log_like_def reverts_it_def by (metis less_asym)
  then show ?thesis by (simp add: reverters_in_def)
qed

lemma revert_undoes:
  assumes ll: "log_like os" and r: "reverts_it os r t" and op: "op \<in> set os" "lo_id op = t" "lo_reverts op = None"
  shows "undone (reverters_in (os @ [r])) t" "stands (reverters_in (os @ [r])) (lo_id r)"
    "x \<noteq> t \<Longrightarrow> stands (reverters_in (os @ [r])) x \<longleftrightarrow> stands (reverters_in os) x"
proof -
  let ?R = "reverters_in os" and ?R' = "reverters_in (os @ [r])"
  have t: "t < lo_id r" "lo_reverts r = Some t" using r op by (auto simp: reverts_it_def)
  show st: "stands ?R' (lo_id r)"
    using none_reverts_newest [OF ll r] t by (intro stands_intro) (simp add: reverters_in_snoc)
  show "undone ?R' t" using st t by (intro undone_intro [of "lo_id r"]) (simp add: reverters_in_snoc)
  have same: "set (?R x) = set (?R' x)" if "x \<noteq> t" for x using that t by (simp add: reverters_in_snoc)
  have "t \<notin> set (?R x)" for x using ll op by (auto simp: in_reverters_in log_like_def distinct_map inj_on_def)
  moreover from this have "t \<notin> set (?R' x)" for x using t by (simp add: reverters_in_snoc)
  ultimately show "x \<noteq> t \<Longrightarrow> stands ?R' x \<longleftrightarrow> stands ?R x"
    using stands_off(1) [of t ?R ?R'] stands_off(1) [of t ?R' ?R] same by blast
qed

text \<open>A revert of that revert makes it stand again.\<close>

lemma revert_of_revert:
  assumes ll: "log_like os" and r: "reverts_it os r t" and op: "op \<in> set os" "lo_id op = t" "lo_reverts op = None"
    and q: "reverts_it (os @ [r]) q (lo_id r)"
  shows "undone (reverters_in (os @ [r, q])) (lo_id r)"
    "x \<noteq> lo_id r \<Longrightarrow> (stands (reverters_in os) x \<longrightarrow> stands (reverters_in (os @ [r, q])) x) \<and>
       (undone (reverters_in os) x \<longrightarrow> undone (reverters_in (os @ [r, q])) x)"
proof -
  let ?R = "reverters_in os" and ?R' = "reverters_in (os @ [r, q])"
  have R': "?R' x = ?R x @ (if x = t then [lo_id r] else []) @ (if x = lo_id r then [lo_id q] else [])" for x
    using r q by (auto simp: reverters_in_def reverts_it_def)
  have ll1: "log_like (os @ [r])" using log_like_snoc [OF ll r] op by auto
  have "?R' (lo_id q) = []"
    using none_reverts_newest [OF ll1 q] R' [of "lo_id q"] r q op(1,2) by (auto simp: reverters_in_snoc reverts_it_def split: if_splits)
  then have "stands ?R' (lo_id q)" by (intro stands_intro) simp
  then show und: "undone ?R' (lo_id r)" by (intro undone_intro [of "lo_id q"]) (simp_all add: R')
  have no_r: "lo_id r \<notin> set (?R x)" for x using r by (auto simp: in_reverters_in reverts_it_def)
  have "stands ?R x \<Longrightarrow> x \<noteq> lo_id r \<Longrightarrow> stands ?R' x" "undone ?R x \<Longrightarrow> x \<noteq> lo_id r \<Longrightarrow> undone ?R' x" for x
  proof (induction rule: stands_undone.inducts)
    case (stands_intro op)
    show ?case
    proof (rule stands_undone.stands_intro)
      fix y assume "y \<in> set (?R' op)"
      then consider "y = lo_id r" | "y \<in> set (?R op)" using stands_intro.prems by (auto simp: R' split: if_splits)
      then show "undone ?R' y" using und stands_intro.IH no_r by cases blast+
    qed
  next
    case (undone_intro y op)
    then have "stands ?R' y" using no_r by blast
    moreover have "y \<in> set (?R' op)" using undone_intro(1) unfolding R' by simp
    ultimately show ?case by (intro stands_undone.undone_intro)
  qed
  then show "x \<noteq> lo_id r \<Longrightarrow> (stands ?R x \<longrightarrow> stands ?R' x) \<and> (undone ?R x \<longrightarrow> undone ?R' x)" by blast
qed

lemma undo_Some:
  assumes ll: "log_like os" and s: "undo os lbls first = Some sel"
  shows "\<exists>op\<in>set os. se_op sel = lo_id op \<and> se_candidates sel = candidates (lo_label op) lbls \<and> undoable os op \<and>
    Some (lo_id op) \<noteq> first \<and> (\<forall>q\<in>set os. lo_id op < lo_id q \<longrightarrow> Some (lo_id q) \<noteq> first \<and> \<not> undoable os q)"
proof -
  have w: "fst (window os) = newest_first os" by (simp add: window_def Let_def)
  obtain pre op post where d: "newest_first os = pre @ op # post" and op: "se_op sel = lo_id op"
      "se_candidates sel = candidates (lo_label op) lbls" "\<not> is_daemons op" "lo_reverts op = None"
      "lo_id op \<notin> set (snd (window os))" "Some (lo_id op) \<noteq> first"
    and pre: "\<forall>q\<in>set pre. Some (lo_id q) \<noteq> first \<and> (is_daemons q \<or> lo_reverts q \<noteq> None \<or> lo_id q \<in> set (snd (window os)))"
    using undo_search_Some [of lbls first "snd (window os)" "fst (window os)" sel] s w
    by (auto simp: undo_def case_prod_beta)
  have mem: "set os = set pre \<union> {op} \<union> set post" using arg_cong [OF d, of set] by auto
  have "sorted_wrt (\<lambda>a b. lo_id b < lo_id a) (pre @ op # post)"
    using newest_first_sorted [of os] ll d by (simp add: log_like_def)
  then have "q \<in> set pre" if "q \<in> set os" "lo_id op < lo_id q" for q
    using that mem by (auto simp: sorted_wrt_append)
  moreover have "\<not> undoable os q" if "q \<in> set pre" for q
    using pre that window_ok [OF ll, of q] stands_not_undone mem by (auto simp: undoable_def)
  moreover have "undoable os op" using op window_ok(2) [OF ll, of op] mem by (simp add: undoable_def)
  ultimately show ?thesis using op pre mem by (intro bexI [of _ op]) auto
qed

section \<open>Properties\<close>

text \<open>C15: An undo takes the newest operation the user wrote, not a revert, that still stands, and no
operation at or before the first of the log: what it selects is one, nothing newer is, and it offers
nothing only when no such operation lies above the first.\<close>

theorem undo_correct:
  assumes "log_like os"
  shows "case undo os lbls first of
      Some sel \<Rightarrow> \<exists>op\<in>set os. se_op sel = lo_id op \<and> se_candidates sel = candidates (lo_label op) lbls \<and> undoable os op \<and>
        Some (lo_id op) \<noteq> first \<and> (\<forall>q\<in>set os. lo_id op < lo_id q \<longrightarrow> Some (lo_id q) \<noteq> first \<and> \<not> undoable os q)
    | None \<Rightarrow> \<forall>op\<in>set os. undoable os op \<longrightarrow> (\<exists>q\<in>set os. lo_id op \<le> lo_id q \<and> first = Some (lo_id q))"
proof (cases "undo os lbls first")
  case (Some sel)
  then show ?thesis using undo_Some [OF assms Some] by simp
next
  case None
  have w: "fst (window os) = newest_first os" by (simp add: window_def Let_def)
  have "\<exists>q\<in>set os. lo_id op \<le> lo_id q \<and> first = Some (lo_id q)" if op: "op \<in> set os" "undoable os op" for op
  proof -
    obtain pre post where d: "newest_first os = pre @ op # post" using op(1) newest_first_set [of os] by (metis split_list)
    have "sorted_wrt (\<lambda>a b. lo_id b < lo_id a) (pre @ op # post)"
      using newest_first_sorted [of os] assms d by (simp add: log_like_def)
    then have pre: "\<forall>q\<in>set (pre @ [op]). lo_id op \<le> lo_id q" by (auto simp: sorted_wrt_append less_imp_le)
    have "lo_id op \<notin> set (snd (window os))" using op window_ok(2) [OF assms op(1)] by (simp add: undoable_def)
    moreover have "undo_search lbls first (snd (window os)) (newest_first os) = None"
      using None w by (simp add: undo_def case_prod_beta)
    from undo_search_None [OF this d]
    have "\<exists>q\<in>set (pre @ [op]). first = Some (lo_id q)" using calculation op(2) by (simp add: undoable_def)
    then obtain q where "q \<in> set (pre @ [op])" "first = Some (lo_id q)" by blast
    moreover have "set (pre @ [op]) \<subseteq> set os" using arg_cong [OF d, of set] by auto
    ultimately show ?thesis using pre by blast
  qed
  then show ?thesis using None by simp
qed

definition sample_ops :: "LogOp list" where
  "sample_ops = [\<lparr>lo_id = 1, lo_label = 1, lo_type = ''create_metarecord'', lo_reverts = None, lo_origin = None\<rparr>,
     \<lparr>lo_id = 2, lo_label = 2, lo_type = ''set_field'', lo_reverts = None, lo_origin = None\<rparr>,
     \<lparr>lo_id = 3, lo_label = 3, lo_type = ''file_moved'', lo_reverts = None, lo_origin = Some ''watcher''\<rparr>]"

lemma sample_ops_log: "log_like sample_ops"
  by (simp add: log_like_def sample_ops_def)

lemma sample_undo: "undo sample_ops [] (Some 1) = Some \<lparr>se_op = 2, se_candidates = candidates 2 []\<rparr>"
  by (simp add: undo_def window_def newest_first_def sample_ops_def Let_def is_daemons_def
      is_watcher_op_def WATCHER_OP_TYPES_def ORIGIN_WATCHER_def reverters_in_def)

theorem undo_correct_witness: "\<exists>op\<in>set sample_ops. lo_id op = 2 \<and> undoable sample_ops op"
  using undo_correct [OF sample_ops_log, where lbls = "[]" and first = "Some 1"] by (auto simp: sample_undo)

text \<open>C16: Undo and redo do not oscillate. Once the operation an undo selected has been reverted, a redo
selects that revert and a further undo an older operation; once the revert has been reverted too, the
undo selects what it did at first.\<close>

theorem undo_redo_stable:
  assumes ll: "log_like os" and s: "undo os lbls first = Some sel" and r: "reverts_it os r (se_op sel)"
    and q: "reverts_it (os @ [r]) q (lo_id r)" and f: "\<forall>i. first = Some i \<longrightarrow> i < lo_id r"
  shows "redo (os @ [r]) lbls = Some \<lparr>se_op = lo_id r, se_candidates = candidates (lo_label r) lbls\<rparr> \<and>
    (\<forall>sel'. undo (os @ [r]) lbls first = Some sel' \<longrightarrow> se_op sel' < se_op sel) \<and>
    undo (os @ [r, q]) lbls first = Some sel"
proof -
  obtain op where op: "op \<in> set os" "se_op sel = lo_id op" "undoable os op"
    and newer: "\<forall>x\<in>set os. lo_id op < lo_id x \<longrightarrow> \<not> undoable os x"
    using undo_Some [OF ll s] by blast
  let ?t = "lo_id op"
  have rt: "reverts_it os r ?t" using r op(2) by simp
  have o: "lo_reverts op = None" using op(3) by (simp add: undoable_def)
  note U = revert_undoes [OF ll rt op(1) refl o] and Q = revert_of_revert [OF ll rt op(1) refl o q]
  have ids: "\<forall>x\<in>set os. lo_id x < lo_id r" "\<forall>x\<in>set (os @ [r]). lo_id x < lo_id q" "lo_reverts r = Some ?t" "lo_reverts q \<noteq> None"
    "\<not> is_daemons r"
    using rt q by (auto simp: reverts_it_def)
  have ll1: "log_like (os @ [r])" using log_like_snoc [OF ll rt] op(1) by simp
  have ll2: "log_like (os @ [r, q])" using log_like_snoc [OF ll1 q] by simp
  have nf: "newest_first (os @ [r]) = r # newest_first os" "newest_first (os @ [r, q]) = q # r # newest_first os"
    using newest_first_snoc [OF ids(1)] newest_first_snoc [OF ids(2)] by simp_all
  have w: "fst (window x) = newest_first x" for x by (simp add: window_def Let_def)
  have "?t \<notin> set (map lo_id (filter (\<lambda>op. lo_reverts op \<noteq> None) (r # newest_first os)))"
  proof
    assume "?t \<in> set (map lo_id (filter (\<lambda>op. lo_reverts op \<noteq> None) (r # newest_first os)))"
    then have "\<exists>x. (x = r \<or> x \<in> set os) \<and> lo_id x = ?t \<and> lo_reverts x \<noteq> None"
      unfolding set_map set_filter image_iff by (metis (mono_tags, lifting) mem_Collect_eq newest_first_set set_ConsD)
    then obtain x where x: "x = r \<or> x \<in> set os" "lo_id x = ?t" "lo_reverts x \<noteq> None" by blast
    then have "x \<in> set os" using ids(1) op(1) by auto
    then have "x = op" using x(2) op(1) ll by (auto simp: log_like_def distinct_map inj_on_def)
    then show False using x(3) o by simp
  qed
  moreover have "lo_id r \<notin> set (snd (window (os @ [r])))" using window_ok(2) [OF ll1, of r] U(2) by simp
  ultimately have "redo (os @ [r]) lbls = Some \<lparr>se_op = lo_id r, se_candidates = candidates (lo_label r) lbls\<rparr>"
    using ids(3,5) w [of "os @ [r]"] unfolding redo_def Let_def case_prod_beta nf(1)
    by (simp only: redo_search.simps if_False option.case nf(1))
  moreover have "se_op sel' < se_op sel" if u: "undo (os @ [r]) lbls first = Some sel'" for sel'
  proof -
    obtain x where x: "x \<in> set (os @ [r])" "se_op sel' = lo_id x" "undoable (os @ [r]) x"
      using undo_Some [OF ll1 u] by blast
    then have xs: "x \<in> set os" "lo_id x \<noteq> ?t" using ids(3) U(1) stands_not_undone by (auto simp: undoable_def)
    then have "undoable os x" using x(3) U(3) by (simp add: undoable_def)
    then show ?thesis using newer xs x(2) op(2) by force
  qed
  moreover have "undo (os @ [r, q]) lbls first = Some sel"
  proof -
    have "lo_id x \<in> set (snd (window (os @ [r, q]))) \<longleftrightarrow> lo_id x \<in> set (snd (window os))" if "x \<in> set os" for x
    proof -
      have "lo_id x \<noteq> lo_id r" using ids(1) that by auto
      moreover have "x \<in> set (os @ [r, q])" using that by simp
      ultimately show ?thesis
        using Q(2) [of "lo_id x"] window_ok [OF ll that] window_ok [OF ll2, of x] stands_not_undone by blast
    qed
    then have "undo_search lbls first (snd (window (os @ [r, q]))) (newest_first os) =
        undo_search lbls first (snd (window os)) (newest_first os)"
      by (intro undo_search_cong) simp
    moreover have "Some (lo_id q) \<noteq> first" "Some (lo_id r) \<noteq> first" using f ids(2) by auto
    ultimately have "undo (os @ [r, q]) lbls first = undo os lbls first"
      using ids(3,4) w [of "os @ [r, q]"] w [of os] nf(2) by (simp add: undo_def case_prod_beta)
    then show ?thesis using s by simp
  qed
  ultimately show ?thesis by blast
qed

definition sample_revert :: "int \<Rightarrow> int \<Rightarrow> LogOp" where
  "sample_revert i t = \<lparr>lo_id = i, lo_label = 4, lo_type = ''set_field'', lo_reverts = Some t, lo_origin = None\<rparr>"

theorem undo_redo_stable_witness:
  "redo (sample_ops @ [sample_revert 4 2]) [] = Some \<lparr>se_op = 4, se_candidates = candidates 4 []\<rparr> \<and>
   undo (sample_ops @ [sample_revert 4 2, sample_revert 5 4]) [] (Some 1) = undo sample_ops [] (Some 1)"
proof -
  have "reverts_it sample_ops (sample_revert 4 2) 2" "reverts_it (sample_ops @ [sample_revert 4 2]) (sample_revert 5 4) 4"
    by (simp_all add: reverts_it_def sample_ops_def sample_revert_def is_daemons_def)
  then show ?thesis
    using undo_redo_stable [OF sample_ops_log sample_undo, of "sample_revert 4 2" "sample_revert 5 4"]
    by (simp add: sample_undo) (simp add: sample_revert_def)
qed

end
