(* ===== verification/Text.thy ===== *)
theory Text
  imports Metarecord
begin

text \<open>
  The string functions of Rust's standard library the sources call: \<open>trim\<close>, \<open>strip_suffix\<close>,
  \<open>split_once\<close>, \<open>parse::<i64>\<close> and the formatting of integers. A string is its UTF-8 bytes, so
  the white space \<open>trim\<close> removes is the list of the encodings of the characters Unicode calls
  \<open>White_Space\<close>.
\<close>

section \<open>Trimming\<close>

definition WHITE_SPACE :: "string list" where
  "WHITE_SPACE = map (\<lambda>n. [char_of (n :: nat)]) [9, 10, 11, 12, 13, 32] @
     map (map char_of) ([[0xC2, 0x85], [0xC2, 0xA0], [0xE1, 0x9A, 0x80]] @
       map (\<lambda>n. [0xE2, 0x80, n]) ([0x80..<0x8B] @ [0xA8, 0xA9, 0xAF]) @ [[0xE2, 0x81, 0x9F], [0xE3, 0x80, 0x80 :: nat]])"

definition strip_prefix :: "string \<Rightarrow> string \<Rightarrow> string option" where
  "strip_prefix p s = (if take (length p) s = p then Some (drop (length p) s) else None)"

definition strip_suffix :: "string \<Rightarrow> string \<Rightarrow> string option" where
  "strip_suffix p s = map_option rev (strip_prefix (rev p) (rev s))"

fun strip_any :: "string list \<Rightarrow> string \<Rightarrow> string option" where
  "strip_any [] s = None"
| "strip_any (p # ps) s = (case strip_prefix p s of Some t \<Rightarrow> Some t | None \<Rightarrow> strip_any ps s)"

fun strip_many :: "nat \<Rightarrow> string list \<Rightarrow> string \<Rightarrow> string" where
  "strip_many 0 ps s = s"
| "strip_many (Suc n) ps s = (case strip_any ps s of Some t \<Rightarrow> strip_many n ps t | None \<Rightarrow> s)"

text \<open>Every step takes a byte at least, so as many steps as there are bytes are enough.\<close>

definition trim_start :: "string \<Rightarrow> string" where
  "trim_start s = strip_many (length s) WHITE_SPACE s"

definition trim_end :: "string \<Rightarrow> string" where
  "trim_end s = rev (strip_many (length s) (map rev WHITE_SPACE) (rev s))"

definition trim_str :: "string \<Rightarrow> string" where
  "trim_str s = trim_end (trim_start s)"

section \<open>Splitting\<close>

fun split_once :: "(char \<Rightarrow> bool) \<Rightarrow> string \<Rightarrow> (string \<times> string) option" where
  "split_once p [] = None"
| "split_once p (c # cs) = (if p c then Some ([], cs) else map_option (\<lambda>(a, b). (c # a, b)) (split_once p cs))"

section \<open>Integers\<close>

definition i64_range :: "int \<Rightarrow> bool" where
  "i64_range n \<longleftrightarrow> - (2 ^ 63) \<le> n \<and> n < 2 ^ 63"

definition digit_value :: "char \<Rightarrow> int option" where
  "digit_value c = (if 48 \<le> (of_char c :: nat) \<and> of_char c \<le> (57 :: nat) then Some (int (of_char c) - 48) else None)"

fun digits_value :: "int \<Rightarrow> string \<Rightarrow> int option" where
  "digits_value acc [] = Some acc"
| "digits_value acc (c # cs) = Option.bind (digit_value c) (\<lambda>d. digits_value (acc * 10 + d) cs)"

definition parse_nat :: "string \<Rightarrow> int option" where
  "parse_nat s = (if s = [] then None else digits_value 0 s)"

definition parse_i64 :: "string \<Rightarrow> int option" where
  "parse_i64 s =
     Option.bind
       (case s of
          [] \<Rightarrow> None
        | c # cs \<Rightarrow> if c = CHR ''-'' then map_option uminus (parse_nat cs)
                    else if c = CHR ''+'' then parse_nat cs
                    else parse_nat s)
       (\<lambda>n. if i64_range n then Some n else None)"

definition digit_char :: "int \<Rightarrow> char" where
  "digit_char d = char_of (48 + nat d)"

function decimal :: "int \<Rightarrow> string" where
  "decimal n = (if n < 10 then [digit_char n] else decimal (n div 10) @ [digit_char (n mod 10)])"
  by auto
termination by (relation "measure nat") auto

declare decimal.simps [simp del]

text \<open>\<open>{n:0w}\<close> for a number that is not negative.\<close>

definition padded :: "nat \<Rightarrow> int \<Rightarrow> string" where
  "padded w n = replicate (w - length (decimal n)) CHR ''0'' @ decimal n"

section \<open>Lemmas\<close>

lemma digit_value_char [simp]: "0 \<le> d \<Longrightarrow> d < 10 \<Longrightarrow> digit_value (digit_char d) = Some d"
proof -
  assume d: "0 \<le> d" "d < 10"
  then have "d = 0 \<or> d = 1 \<or> d = 2 \<or> d = 3 \<or> d = 4 \<or> d = 5 \<or> d = 6 \<or> d = 7 \<or> d = 8 \<or> d = 9" by presburger
  then show ?thesis by (auto simp: digit_value_def digit_char_def)
qed

lemma digit_value_zero [simp]: "digit_value CHR ''0'' = Some 0"
  by (simp add: digit_value_def)

lemma digits_value_append:
  "digits_value acc (xs @ ys) = Option.bind (digits_value acc xs) (\<lambda>n. digits_value n ys)"
  by (induction xs arbitrary: acc) (auto simp: bind_assoc)

lemma digits_value_decimal: "0 \<le> n \<Longrightarrow> digits_value 0 (decimal n) = Some n"
proof (induction n rule: decimal.induct)
  case (1 n)
  show ?case
  proof (cases "n < 10")
    case True
    then show ?thesis using 1(2) by (subst decimal.simps) simp
  next
    case False
    then have "digits_value 0 (decimal (n div 10)) = Some (n div 10)" using 1 by simp
    then show ?thesis using False by (subst decimal.simps) (simp add: digits_value_append)
  qed
qed

lemma digits_value_zeros: "digits_value 0 (replicate k CHR ''0'' @ s) = digits_value 0 s"
  by (induction k) simp_all

lemma decimal_nonempty [simp]: "decimal n \<noteq> []"
  by (subst decimal.simps) simp

definition all_digits :: "string \<Rightarrow> bool" where
  "all_digits s \<longleftrightarrow> (\<forall>c\<in>set s. digit_value c \<noteq> None)"

lemma decimal_digits: "0 \<le> n \<Longrightarrow> all_digits (decimal n)"
proof (induction n rule: decimal.induct)
  case (1 n)
  show ?case
  proof (cases "n < 10")
    case True
    then show ?thesis using 1(2) by (subst decimal.simps) (simp add: all_digits_def)
  next
    case False
    then show ?thesis using 1 by (subst decimal.simps) (auto simp: all_digits_def)
  qed
qed

lemma padded_digits: "0 \<le> n \<Longrightarrow> all_digits (padded w n)"
  using decimal_digits [of n] by (auto simp: padded_def all_digits_def)

lemma parse_padded:
  assumes "0 \<le> n" and "n < 2 ^ 63"
  shows "parse_i64 (padded w n) = Some n"
proof -
  have d: "digits_value 0 (padded w n) = Some n" using assms(1) by (simp add: padded_def digits_value_zeros digits_value_decimal)
  obtain c cs where c: "padded w n = c # cs" by (cases "padded w n") (auto simp: padded_def)
  then have "digit_value c \<noteq> None" using padded_digits [OF assms(1), of w] by (simp add: all_digits_def)
  then have "c \<noteq> CHR ''-''" "c \<noteq> CHR ''+''" by (auto simp: digit_value_def)
  then show ?thesis using d c assms by (simp add: parse_i64_def parse_nat_def i64_range_def)
qed

lemma split_on_none: "c \<notin> set s \<Longrightarrow> split_on c s = [s]"
  by (induction s) auto

lemma split_on_append: "c \<notin> set s \<Longrightarrow> split_on c (s @ c # t) = s # split_on c t"
  by (induction s) auto

lemma split_once_first: "\<forall>c\<in>set s. \<not> p c \<Longrightarrow> p d \<Longrightarrow> split_once p (s @ d # t) = Some (s, t)"
  by (induction s) auto

lemma not_digit: "all_digits s \<Longrightarrow> digit_value c = None \<Longrightarrow> c \<notin> set s"
  by (auto simp: all_digits_def)

text \<open>A string that neither starts nor ends with white space is left alone.\<close>

lemma trim_str_id:
  assumes "strip_any WHITE_SPACE s = None" and "strip_any (map rev WHITE_SPACE) (rev s) = None"
  shows "trim_str s = s"
  using assms by (cases "length s") (simp_all add: trim_str_def trim_start_def trim_end_def)

end
