(* ===== verification/Date.thy ===== *)
theory Date
  imports Text "HOL-Library.Signed_Division"
begin

text \<open>
  The UTC calendar helpers of \<open>core/date.rs\<close>. Numbers are integers: the values the callers pass
  (days of an \<open>i64\<close> of milliseconds, years up to 999999) stay far from the ends of \<open>i64\<close>, except
  in \<open>iso_to_ms\<close>, whose truncating cast and checked operations are written out. The conversions
  are compared with a calendar that counts day by day.
\<close>

section \<open>The conversions\<close>

definition SECS_PER_DAY :: int where
  "SECS_PER_DAY = 86400"

definition civil_from_days :: "int \<Rightarrow> int \<times> int \<times> int" where
  "civil_from_days z0 =
     (let z = z0 + 719468;
          era = (if z \<ge> 0 then z else z - 146096) sdiv 146097;
          doe = z - era * 146097;
          yoe = (doe - doe div 1460 + doe div 36524 - doe div 146096) div 365;
          y = yoe + era * 400;
          doy = doe - (365 * yoe + yoe div 4 - yoe div 100);
          mp = (5 * doy + 2) div 153;
          d = doy - (153 * mp + 2) div 5 + 1;
          m = (if mp < 10 then mp + 3 else mp - 9)
      in (if m \<le> 2 then y + 1 else y, m, d))"

definition days_from_civil :: "int \<Rightarrow> int \<Rightarrow> int \<Rightarrow> int" where
  "days_from_civil y0 m d =
     (let y = (if m \<le> 2 then y0 - 1 else y0);
          era = (if y \<ge> 0 then y else y - 399) sdiv 400;
          yoe = y - era * 400;
          doy = (153 * (if m > 2 then m - 3 else m + 9) + 2) div 5 + d - 1;
          doe = yoe * 365 + yoe div 4 - yoe div 100 + doy
      in era * 146097 + doe - 719468)"

text \<open>\<open>div_euclid\<close> by a positive number is HOL's \<open>div\<close>.\<close>

definition ms_to_civil :: "int \<Rightarrow> int \<times> int \<times> int \<times> int \<times> int \<times> int" where
  "ms_to_civil ms =
     (let secs = max (ms div 1000) 0;
          days = secs div SECS_PER_DAY;
          rem = secs mod SECS_PER_DAY;
          (y, mo, d) = civil_from_days days
      in (y, mo, d, rem div 3600, (rem mod 3600) div 60, rem mod 60))"

definition iso8601_from_ms :: "int \<Rightarrow> string" where
  "iso8601_from_ms ms =
     (let (y, mo, d, h, mi, s) = ms_to_civil ms
      in padded 4 y @ ''-'' @ padded 2 mo @ ''-'' @ padded 2 d @ ''T'' @ padded 2 h @ '':'' @
         padded 2 mi @ '':'' @ padded 2 s @ ''Z'')"

definition is_leap_year :: "int \<Rightarrow> bool" where
  "is_leap_year year \<longleftrightarrow> (year mod 4 = 0 \<and> year mod 100 \<noteq> 0) \<or> year mod 400 = 0"

definition days_in_month :: "int \<Rightarrow> int \<Rightarrow> int" where
  "days_in_month year month =
     (if month \<in> {1, 3, 5, 7, 8, 10, 12} then 31
      else if month \<in> {4, 6, 9, 11} then 30
      else if month = 2 then (if is_leap_year year then 29 else 28)
      else 0)"

definition checked_i64 :: "int \<Rightarrow> int option" where
  "checked_i64 n = (if i64_range n then Some n else None)"

definition part :: "'a list \<Rightarrow> nat \<Rightarrow> 'a option" where
  "part xs i = (if i < length xs then Some (xs ! i) else None)"

definition date_ms :: "int \<Rightarrow> int \<Rightarrow> int \<Rightarrow> int \<Rightarrow> int \<Rightarrow> int \<Rightarrow> int option" where
  "date_ms year month day hour mn sec =
     (if \<not> (0 \<le> hour \<and> hour \<le> 23) \<or> \<not> (0 \<le> mn \<and> mn \<le> 59) \<or> \<not> (0 \<le> sec \<and> sec \<le> 60) then None
      else Option.bind (checked_i64 (days_from_civil year (month mod 2 ^ 32) (day mod 2 ^ 32) * SECS_PER_DAY))
        (\<lambda>n. Option.bind (checked_i64 (n + (hour * 3600 + mn * 60 + sec))) (\<lambda>n. checked_i64 (n * 1000))))"

definition iso_to_ms :: "string \<Rightarrow> int option" where
  "iso_to_ms text =
     (let s = trim_str text;
          s = (case strip_suffix ''Z'' s of Some t \<Rightarrow> t | None \<Rightarrow> s);
          (date, time) = (case split_once (\<lambda>c. c = CHR ''T'' \<or> c = CHR '' '') s of Some p \<Rightarrow> p | None \<Rightarrow> (s, ''00:00:00''));
          d = split_on CHR ''-'' date;
          t = split_on CHR '':'' time
      in Option.bind (Option.bind (part d 0) parse_i64) (\<lambda>year.
         Option.bind (case part d 1 of None \<Rightarrow> Some 1 | Some p \<Rightarrow> parse_i64 p) (\<lambda>month.
         Option.bind (case part d 2 of None \<Rightarrow> Some 1 | Some p \<Rightarrow> parse_i64 p) (\<lambda>day.
         if part d 3 \<noteq> None then None
         else if \<not> (0 \<le> year \<and> year \<le> 999999) \<or> \<not> (1 \<le> month \<and> month \<le> 12) then None
         else if \<not> (1 \<le> day mod 2 ^ 32 \<and> day mod 2 ^ 32 \<le> days_in_month year (month mod 2 ^ 32)) then None
         else Option.bind (Option.bind (part t 0) parse_i64) (\<lambda>hour.
              Option.bind (parse_i64 (case part t 1 of None \<Rightarrow> ''0'' | Some p \<Rightarrow> p)) (\<lambda>mn.
              Option.bind (parse_i64 (case part t 2 of None \<Rightarrow> ''0'' | Some p \<Rightarrow> p)) (\<lambda>sec.
              if part t 3 \<noteq> None then None else date_ms year month day hour mn sec)))))))"

section \<open>A calendar that counts\<close>

text \<open>What the conversions stand for: the dates of the Gregorian calendar, one after the other.\<close>

definition valid_date :: "int \<times> int \<times> int \<Rightarrow> bool" where
  "valid_date = (\<lambda>(y, m, d). 1 \<le> m \<and> m \<le> 12 \<and> 1 \<le> d \<and> d \<le> days_in_month y m)"

definition next_date :: "int \<times> int \<times> int \<Rightarrow> int \<times> int \<times> int" where
  "next_date = (\<lambda>(y, m, d).
     if d < days_in_month y m then (y, m, d + 1)
     else if m < 12 then (y, m + 1, 1)
     else (y + 1, 1, 1))"

definition days_of :: "int \<times> int \<times> int \<Rightarrow> int" where
  "days_of = (\<lambda>(y, m, d). days_from_civil y m d)"

section \<open>Eras\<close>

lemma sdiv_floor: "0 < k \<Longrightarrow> (if z \<ge> 0 then z else z - (k - 1)) sdiv k = z div k" for z k :: int
proof (cases "z \<ge> 0")
  case False
  moreover assume k: "0 < k"
  ultimately have "(z - (k - 1)) sdiv k = - ((- z + (k - 1)) div k)"
    by (simp add: signed_divide_int_def sgn_if abs_if algebra_simps)
  also have "(- z + (k - 1)) div k = - (z div k)"
  proof -
    have "z = k * (z div k) + z mod k" by simp
    then have "- z + (k - 1) = (k - 1 - z mod k) + (- (z div k)) * k" by (simp add: algebra_simps)
    then have "(- z + (k - 1)) div k = - (z div k) + (k - 1 - z mod k) div k" using k by (metis add.commute div_mult_self1 less_irrefl)
    moreover have "(k - 1 - z mod k) div k = 0" using k pos_mod_bound [OF k, of z] pos_mod_sign [OF k, of z] by (intro div_pos_pos_trivial) auto
    ultimately show ?thesis by simp
  qed
  finally show ?thesis using False by simp
qed (simp add: signed_divide_int_def sgn_if abs_if)

definition year_start :: "int \<Rightarrow> int" where
  "year_start y = 365 * y + y div 4 - y div 100"

definition year_guess :: "int \<Rightarrow> int" where
  "year_guess doe = doe - doe div 1460 + doe div 36524 - doe div 146096"

lemma civil_era:
  "civil_from_days z0 =
     (let z = z0 + 719468; era = z div 146097; doe = z mod 146097; yoe = year_guess doe div 365;
          y = yoe + era * 400; doy = doe - year_start yoe; mp = (5 * doy + 2) div 153;
          d = doy - (153 * mp + 2) div 5 + 1; m = (if mp < 10 then mp + 3 else mp - 9)
      in (if m \<le> 2 then y + 1 else y, m, d))"
proof -
  have "(if z \<ge> 0 then z else z - 146096) sdiv 146097 = z div 146097" for z :: int
    using sdiv_floor [of 146097 z] by (cases "z \<ge> 0") simp_all
  then show ?thesis
    unfolding civil_from_days_def Let_def year_guess_def year_start_def by (simp only: minus_div_mult_eq_mod)
qed

lemma days_era:
  "days_from_civil y0 m d =
     (let y = (if m \<le> 2 then y0 - 1 else y0); doy = (153 * (if m > 2 then m - 3 else m + 9) + 2) div 5 + d - 1
      in y div 400 * 146097 + year_start (y mod 400) + doy - 719468)"
proof -
  have "(if y \<ge> 0 then y else y - 399) sdiv 400 = y div 400" for y :: int
    using sdiv_floor [of 400 y] by (cases "y \<ge> 0") simp_all
  then show ?thesis
    unfolding days_from_civil_def Let_def year_start_def by (simp only: minus_div_mult_eq_mod mult.commute [of _ 365] add.assoc)
qed

text \<open>The guess is monotone within an era, so its value on the first and the last day of a year gives
  it on every day between.\<close>

lemma year_guess_step: "0 \<le> d \<Longrightarrow> d < 146096 \<Longrightarrow> year_guess d \<le> year_guess (d + 1)"
proof (cases "d = 146095")
  case False
  moreover assume "0 \<le> d" "d < 146096"
  moreover have "(d + 1) div 1460 \<le> d div 1460 + 1" "d div 36524 \<le> (d + 1) div 36524" by linarith+
  ultimately show ?thesis by (simp add: year_guess_def)
qed (simp add: year_guess_def)

lemma year_guess_mono: "0 \<le> a \<Longrightarrow> a \<le> b \<Longrightarrow> b \<le> 146096 \<Longrightarrow> year_guess a \<le> year_guess b"
proof (induction "nat (b - a)" arbitrary: b)
  case (Suc n)
  then have "year_guess a \<le> year_guess (b - 1)" "year_guess (b - 1) \<le> year_guess b" using year_guess_step [of "b - 1"] by auto
  then show ?case by linarith
qed simp

lemma year_guess_ends:
  "\<forall>y\<in>set [0..399]. year_guess (year_start y) div 365 = y \<and>
     year_guess (if y = 399 then 146096 else year_start (y + 1) - 1) div 365 = y"
  by code_simp

definition year_end :: "int \<Rightarrow> int" where
  "year_end y = (if y = 399 then 146096 else year_start (y + 1) - 1)"

lemma year_guess_at:
  assumes "0 \<le> y" and "y \<le> 399"
  shows "year_guess (year_start y) div 365 = y" and "year_guess (year_end y) div 365 = y"
  using year_guess_ends assms unfolding year_end_def by auto

lemma year_start_mono: "a \<le> b \<Longrightarrow> year_start a \<le> year_start b"
proof -
  assume "a \<le> b"
  moreover from this have "a div 4 \<le> b div 4" "b div 100 - a div 100 \<le> b - a" by linarith+
  ultimately show ?thesis by (simp add: year_start_def)
qed

lemma year_span: "0 \<le> y \<Longrightarrow> y \<le> 399 \<Longrightarrow> 0 \<le> year_start y \<and> year_start y \<le> year_end y \<and> year_end y \<le> 146096"
  using year_start_mono [of 0 y] year_start_mono [of "y + 1" 399]
  by (auto simp: year_end_def year_start_def)

lemma year_guess_year:
  assumes "0 \<le> y" and "y \<le> 399" and "year_start y \<le> doe" and "doe \<le> year_end y"
  shows "year_guess doe div 365 = y"
proof -
  have "year_guess (year_start y) \<le> year_guess doe" "year_guess doe \<le> year_guess (year_end y)"
    using year_span [OF assms(1,2)] assms by (auto intro: year_guess_mono)
  then have "year_guess (year_start y) div 365 \<le> year_guess doe div 365"
    "year_guess doe div 365 \<le> year_guess (year_end y) div 365" by (simp_all add: zdiv_mono1)
  then show ?thesis using year_guess_at [OF assms(1,2)] by simp
qed

lemma year_guess_bounds:
  assumes "0 \<le> doe" and "doe \<le> 146096" and y: "y = year_guess doe div 365"
  shows "0 \<le> y" and "y \<le> 399" and "year_start y \<le> doe" and "doe \<le> year_end y"
proof -
  have lo: "year_guess 0 div 365 \<le> y" and hi: "y \<le> year_guess 146096 div 365"
    unfolding y using assms by (auto intro!: zdiv_mono1 year_guess_mono)
  then show b: "0 \<le> y" "y \<le> 399" by (simp_all add: year_guess_def)
  show "year_start y \<le> doe"
  proof (rule ccontr)
    assume n: "\<not> year_start y \<le> doe"
    then have "y \<noteq> 0" using assms(1) by (auto simp: year_start_def)
    then have y1: "0 \<le> y - 1" "y - 1 \<le> 399" using b by simp_all
    have "doe \<le> year_end (y - 1)" using n b by (simp add: year_end_def)
    then have "year_guess doe \<le> year_guess (year_end (y - 1))"
      using assms(1) year_span [OF y1] by (intro year_guess_mono) auto
    then have "y \<le> year_guess (year_end (y - 1)) div 365" unfolding y by (intro zdiv_mono1) auto
    then show False using year_guess_at(2) [OF y1] by simp
  qed
  show "doe \<le> year_end y"
  proof (rule ccontr)
    assume n: "\<not> doe \<le> year_end y"
    then have "y \<noteq> 399" using assms(2) by (auto simp: year_end_def)
    then have y1: "0 \<le> y + 1" "y + 1 \<le> 399" using b by simp_all
    have "year_start (y + 1) \<le> doe" using n \<open>y \<noteq> 399\<close> by (simp add: year_end_def)
    then have "year_guess (year_start (y + 1)) \<le> year_guess doe"
      using assms(2) year_span [OF y1] by (intro year_guess_mono) auto
    then have "year_guess (year_start (y + 1)) div 365 \<le> y" unfolding y by (intro zdiv_mono1) auto
    then show False using year_guess_at(1) [OF y1] by simp
  qed
qed

section \<open>Months\<close>

text \<open>Years are counted from the first of March, so that the day a leap year has more is the last one.\<close>

definition month_index :: "int \<Rightarrow> int" where
  "month_index m = (if m > 2 then m - 3 else m + 9)"

definition month_of_index :: "int \<Rightarrow> int" where
  "month_of_index mp = (if mp < 10 then mp + 3 else mp - 9)"

definition month_start :: "int \<Rightarrow> int" where
  "month_start mp = (153 * mp + 2) div 5"

definition month_at :: "int \<Rightarrow> int" where
  "month_at doy = (5 * doy + 2) div 153"

lemma month_start_bounds: "5 * doy + 2 < 153 * mp \<longleftrightarrow> doy < month_start mp" for mp doy :: int
  unfolding month_start_def by linarith

lemma month_at_start:
  "month_at doy = mp \<longleftrightarrow> month_start mp \<le> doy \<and> doy < month_start (mp + 1)"
proof -
  have "month_at doy = mp \<longleftrightarrow> 153 * mp \<le> 5 * doy + 2 \<and> 5 * doy + 2 < 153 * (mp + 1)"
    unfolding month_at_def using div_pos_geq by (auto intro!: int_div_pos_eq [where r = "5 * doy + 2 - 153 * mp"])
  then show ?thesis using month_start_bounds [of doy mp] month_start_bounds [of doy "mp + 1"] by linarith
qed

lemma month_at_bounds:
  assumes "0 \<le> doy" and "doy \<le> 365"
  shows "0 \<le> month_at doy" and "month_at doy \<le> 11"
  using assms unfolding month_at_def by linarith+

lemma month_index_range: "1 \<le> m \<Longrightarrow> m \<le> 12 \<Longrightarrow> 0 \<le> month_index m \<and> month_index m \<le> 11 \<and> month_of_index (month_index m) = m"
  by (auto simp: month_index_def month_of_index_def)

lemma month_of_index_range:
  "0 \<le> mp \<Longrightarrow> mp \<le> 11 \<Longrightarrow> 1 \<le> month_of_index mp \<and> month_of_index mp \<le> 12 \<and> month_index (month_of_index mp) = mp"
  by (auto simp: month_index_def month_of_index_def)

text \<open>The year a date falls in when years start in March, and the length of that year's last month.\<close>

definition march_year :: "int \<Rightarrow> int \<Rightarrow> int" where
  "march_year y m = (if m \<le> 2 then y - 1 else y)"

lemma days_in_month_start:
  assumes "1 \<le> m" and "m \<le> 12"
  shows "days_in_month y m =
    (if m = 2 then (if is_leap_year y then 29 else 28) else month_start (month_index m + 1) - month_start (month_index m))"
proof -
  have "m = 1 \<or> m = 2 \<or> m = 3 \<or> m = 4 \<or> m = 5 \<or> m = 6 \<or> m = 7 \<or> m = 8 \<or> m = 9 \<or> m = 10 \<or> m = 11 \<or> m = 12"
    using assms by presburger
  then show ?thesis by (elim disjE) (simp_all add: days_in_month_def month_start_def month_index_def)
qed

lemma year_lengths:
  "\<forall>yoe\<in>set [0..399]. year_end yoe - year_start yoe = (if is_leap_year (yoe + 1) then 365 else 364)"
  by code_simp

lemma year_length:
  "0 \<le> yoe \<Longrightarrow> yoe \<le> 399 \<Longrightarrow> year_end yoe - year_start yoe = (if is_leap_year (yoe + 1) then 365 else 364)"
  using year_lengths by simp

lemma is_leap_year_era: "is_leap_year (y + e * 400) = is_leap_year y"
proof -
  have "(y + e * 400) mod 4 = y mod 4" "(y + e * 400) mod 100 = y mod 100"
    using mod_mult_self1 [of y "e * 100" 4] mod_mult_self1 [of y "e * 4" 100] by (simp_all add: mult.commute)
  then show ?thesis by (simp add: is_leap_year_def)
qed

lemma days_from_civil_alt:
  "days_from_civil y m d =
     (let my = march_year y m in my div 400 * 146097 + year_start (my mod 400) + (month_start (month_index m) + d - 1) - 719468)"
  unfolding days_era march_year_def month_start_def month_index_def Let_def by simp

lemma civil_from_days_alt:
  assumes "z + 719468 = era * 146097 + (year_start yoe + doy)" and "0 \<le> yoe" and "yoe \<le> 399"
    and "0 \<le> doy" and "year_start yoe + doy \<le> year_end yoe" and mp: "mp = month_at doy"
  shows "civil_from_days z =
    ((if month_of_index mp \<le> 2 then yoe + era * 400 + 1 else yoe + era * 400), month_of_index mp, doy - month_start mp + 1)"
proof -
  define doe where "doe = year_start yoe + doy"
  have r: "0 \<le> doe" "doe < 146097" using assms year_span [OF assms(2,3)] by (auto simp: doe_def)
  have z: "z + 719468 = doe + era * 146097" using assms(1) by (simp add: doe_def)
  have "(z + 719468) div 146097 = era" "(z + 719468) mod 146097 = doe"
    unfolding z using r by simp_all
  moreover have "year_guess doe div 365 = yoe"
    by (rule year_guess_year) (use assms in \<open>simp_all add: doe_def\<close>)
  moreover have "doe - year_start yoe = doy" by (simp add: doe_def)
  ultimately show ?thesis
    by (simp only: civil_era Let_def mp month_at_def month_start_def month_of_index_def)
qed

lemma days_split:
  obtains era yoe doy where "z + 719468 = era * 146097 + (year_start yoe + doy)" and "0 \<le> yoe" and "yoe \<le> 399"
    and "0 \<le> doy" and "year_start yoe + doy \<le> year_end yoe"
proof -
  define doe where "doe = (z + 719468) mod 146097"
  have "0 \<le> doe" "doe \<le> 146096" using pos_mod_bound [of 146097 "z + 719468"] by (simp_all add: doe_def)
  note b = year_guess_bounds [OF this refl]
  show thesis
    by (rule that [of "(z + 719468) div 146097" "year_guess doe div 365" "doe - year_start (year_guess doe div 365)"])
      (use b in \<open>simp_all add: doe_def\<close>)
qed

section \<open>The conversions count days\<close>

lemma leap_march: "0 \<le> yoe \<Longrightarrow> yoe \<le> 399 \<Longrightarrow> doy \<le> year_end yoe - year_start yoe \<Longrightarrow>
    doy \<le> (if is_leap_year (yoe + era * 400 + 1) then 365 else 364)"
  using year_length [of yoe] is_leap_year_era [of "yoe + 1" era] by (simp add: algebra_simps)

lemma february: "month_start 11 = 337" "month_start 12 = 367"
  by (simp_all add: month_start_def)

lemma civil_valid: "valid_date (civil_from_days z)" and days_civil: "days_of (civil_from_days z) = z"
proof -
  obtain era yoe doy where h: "z + 719468 = era * 146097 + (year_start yoe + doy)" "0 \<le> yoe" "yoe \<le> 399"
    "0 \<le> doy" "year_start yoe + doy \<le> year_end yoe" by (rule days_split)
  define mp where "mp = month_at doy"
  define m where "m = month_of_index mp"
  have leap: "doy \<le> (if is_leap_year (yoe + era * 400 + 1) then 365 else 364)"
    by (rule leap_march) (use h in auto)
  then have "doy \<le> 365" by (simp split: if_splits)
  note mb = month_at_bounds [OF h(4) this, folded mp_def]
  have ms: "month_start mp \<le> doy" "doy < month_start (mp + 1)" using month_at_start [of doy mp] by (simp_all add: mp_def)
  have mr: "1 \<le> m" "m \<le> 12" "month_index m = mp" using month_of_index_range [OF mb] by (simp_all add: m_def)
  have c: "civil_from_days z = (if m \<le> 2 then yoe + era * 400 + 1 else yoe + era * 400, m, doy - month_start mp + 1)"
    unfolding m_def by (rule civil_from_days_alt [OF h mp_def])
  have "doy - month_start mp + 1 \<le> days_in_month (if m \<le> 2 then yoe + era * 400 + 1 else yoe + era * 400) m"
  proof (cases "m = 2")
    case True
    then have "mp = 11" using mr(3) by (simp add: month_index_def)
    then show ?thesis using True leap by (simp add: days_in_month_def february split: if_splits)
  next
    case False
    then show ?thesis using ms by (simp add: days_in_month_start [OF mr(1,2)] mr(3))
  qed
  then show "valid_date (civil_from_days z)" using mr ms by (simp add: c valid_date_def)
  have my: "march_year (if m \<le> 2 then yoe + era * 400 + 1 else yoe + era * 400) m = yoe + era * 400" by (simp add: march_year_def)
  have "(yoe + era * 400) div 400 = era" "(yoe + era * 400) mod 400 = yoe" using h by simp_all
  then show "days_of (civil_from_days z) = z"
    using h(1) by (simp only: c days_of_def split_conv days_from_civil_alt Let_def my mr(3))
qed

lemma civil_days:
  assumes v: "valid_date t"
  shows "civil_from_days (days_of t) = t"
proof -
  obtain y m d where t: "t = (y, m, d)" by (cases t)
  define my where "my = march_year y m"
  define doy where "doy = month_start (month_index m) + d - 1"
  have mr: "1 \<le> m" "m \<le> 12" and d: "1 \<le> d" "d \<le> days_in_month y m" using v by (simp_all add: t valid_date_def)
  note mi = month_index_range [OF mr]
  have r: "0 \<le> my mod 400" "my mod 400 \<le> 399" using pos_mod_bound [of 400 my] by simp_all
  have my_eq: "my mod 400 + my div 400 * 400 = my" by (simp add: mult.commute)
  have z: "days_of t + 719468 = my div 400 * 146097 + (year_start (my mod 400) + doy)"
    by (simp add: t days_of_def days_from_civil_alt Let_def my_def doy_def)
  have ms: "month_start (month_index m) \<le> doy" "doy < month_start (month_index m + 1)"
  proof -
    show "month_start (month_index m) \<le> doy" using d by (simp add: doy_def)
    have "month_index 2 = 11" by (simp add: month_index_def)
    then show "doy < month_start (month_index m + 1)" using d days_in_month_start [OF mr, of y]
      by (auto simp: doy_def february split: if_splits)
  qed
  have "0 \<le> month_start (month_index m)" using mi unfolding month_start_def by linarith
  then have "0 \<le> doy" using ms by linarith
  have mono: "month_start a \<le> month_start b" if "a \<le> b" for a b
    unfolding month_start_def using that by (intro zdiv_mono1) auto
  have "doy \<le> (if is_leap_year (my + 1) then 365 else 364)"
  proof (cases "m = 2")
    case True
    then show ?thesis using d by (simp add: doy_def my_def march_year_def month_index_def february days_in_month_def split: if_splits)
  next
    case False
    then have "month_index m + 1 \<le> 11" using mr by (auto simp: month_index_def)
    from mono [OF this] show ?thesis using ms february by (simp split: if_splits)
  qed
  then have e: "year_start (my mod 400) + doy \<le> year_end (my mod 400)"
    using year_length [OF r] is_leap_year_era [of "my mod 400 + 1" "my div 400"] my_eq by (simp add: algebra_simps split: if_splits)
  have "month_at doy = month_index m" using ms by (simp add: month_at_start)
  then show ?thesis
    using civil_from_days_alt [OF z r \<open>0 \<le> doy\<close> e refl] mi
    by (simp add: t my_eq doy_def) (simp add: my_def march_year_def)
qed

definition march_days :: "int \<Rightarrow> int" where
  "march_days my = my div 400 * 146097 + year_start (my mod 400)"

lemma march_days_step: "march_days (my + 1) = march_days my + (if is_leap_year (my + 1) then 366 else 365)"
proof -
  define e r where "e = my div 400" and "r = my mod 400"
  have my: "my = r + e * 400" by (simp add: e_def r_def mult.commute)
  have r: "0 \<le> r" "r \<le> 399" using pos_mod_bound [of 400 my] by (simp_all add: r_def)
  have l: "is_leap_year (my + 1) = is_leap_year (r + 1)" using is_leap_year_era [of "r + 1" e] by (simp add: my algebra_simps)
  show ?thesis
  proof (cases "r = 399")
    case True
    then have "my + 1 = (e + 1) * 400" by (simp add: my algebra_simps)
    then have "(my + 1) div 400 = e + 1" "(my + 1) mod 400 = 0" by simp_all
    moreover have "is_leap_year (my + 1)" unfolding l True by (simp add: is_leap_year_def)
    ultimately show ?thesis using True by (simp add: march_days_def e_def [symmetric] r_def [symmetric] year_start_def)
  next
    case False
    then have my1: "my + 1 = (r + 1) + e * 400" and "r + 1 < 400" using r by (simp_all add: my)
    then have "(my + 1) div 400 = e" "(my + 1) mod 400 = r + 1" unfolding my1 using r by simp_all
    then show ?thesis using year_length [OF r] False
      by (simp add: march_days_def e_def [symmetric] r_def [symmetric] l year_end_def split: if_splits)
  qed
qed

lemma days_march: "days_of (y, m, d) = march_days (march_year y m) + month_start (month_index m) + d - 1 - 719468"
  by (simp add: days_of_def days_from_civil_alt march_days_def Let_def)

lemma days_next:
  assumes v: "valid_date t"
  shows "days_of (next_date t) = days_of t + 1"
proof -
  obtain y m d where t: "t = (y, m, d)" by (cases t)
  have mr: "1 \<le> m" "m \<le> 12" and d: "1 \<le> d" "d \<le> days_in_month y m" using v by (simp_all add: t valid_date_def)
  consider "d < days_in_month y m" | "d = days_in_month y m" "m = 2" | "d = days_in_month y m" "m = 12"
    | "d = days_in_month y m" "m < 12" "m \<noteq> 2" using d mr by linarith
  then show ?thesis
  proof cases
    case 1
    then show ?thesis by (simp add: t next_date_def days_march)
  next
    case 2
    have "month_start 0 = 0" by (simp add: month_start_def)
    then show ?thesis using 2 march_days_step [of "y - 1"]
      by (simp add: t next_date_def days_march march_year_def month_index_def february days_in_month_def)
  next
    case 3
    then show ?thesis
      by (simp add: t next_date_def days_march march_year_def month_index_def days_in_month_def month_start_def)
  next
    case 4
    have "month_index (m + 1) = month_index m + 1" "march_year y (m + 1) = march_year y m"
      using 4 mr by (auto simp: month_index_def march_year_def)
    then show ?thesis using 4 by (simp add: t next_date_def days_march days_in_month_start [OF mr])
  qed
qed

lemma next_valid:
  assumes "valid_date t"
  shows "valid_date (next_date t)"
proof -
  have "1 \<le> days_in_month y m" if "1 \<le> m" "m \<le> 12" for y m
    using that days_in_month_start [OF that, of y] by (auto simp: month_start_def)
  then show ?thesis using assms by (auto simp: next_date_def valid_date_def split: if_splits prod.splits)
qed

lemma civil_next: "civil_from_days (z + 1) = next_date (civil_from_days z)"
  using civil_days [OF next_valid [OF civil_valid [of z]]] by (simp add: days_next [OF civil_valid] days_civil)

text \<open>C34: The calendar conversions are exact for every day, before and after the epoch:
  \<open>civil_from_days\<close> gives 1970-01-01 for day 0, a date of the Gregorian calendar for every day, and
  for the next day the next date (counted month by month with the leap-year rule); and
  \<open>days_from_civil\<close> is its inverse in both directions.\<close>

theorem calendar_correct:
  "civil_from_days 0 = (1970, 1, 1) \<and> valid_date (civil_from_days z) \<and>
   civil_from_days (z + 1) = next_date (civil_from_days z) \<and>
   days_of (civil_from_days z) = z \<and>
   (valid_date t \<longrightarrow> civil_from_days (days_of t) = t)"
proof -
  have "civil_from_days 0 = (1970, 1, 1)" by code_simp
  then show ?thesis using civil_valid civil_next days_civil civil_days by blast
qed

theorem calendar_correct_witness:
  "valid_date (2024, 2, 29) \<and> civil_from_days (days_of (2024, 2, 29)) = (2024, 2, 29)"
  using calendar_correct [of 0 "(2024, 2, 29)"] by (simp add: valid_date_def days_in_month_def is_leap_year_def)

section \<open>Text\<close>

lemma no_digit [simp]:
  "digit_value CHR ''-'' = None" "digit_value CHR '':'' = None" "digit_value CHR ''T'' = None"
  "digit_value CHR '' '' = None" "digit_value CHR ''Z'' = None"
  by (simp_all add: digit_value_def)

lemma digits_apart:
  assumes "0 \<le> n"
  shows "CHR ''-'' \<notin> set (padded w n)" "CHR '':'' \<notin> set (padded w n)" "CHR ''T'' \<notin> set (padded w n)"
    "CHR '' '' \<notin> set (padded w n)" "CHR ''Z'' \<notin> set (padded w n)"
  using not_digit [OF padded_digits [OF assms, of w]] by simp_all

lemma strip_any_head: "\<forall>p\<in>set ps. p \<noteq> [] \<and> hd p \<noteq> c \<Longrightarrow> strip_any ps (c # s) = None"
proof (induction ps)
  case (Cons p ps)
  then show ?case by (cases p) (auto simp: strip_prefix_def)
qed simp

lemma white_heads: "\<forall>p\<in>set WHITE_SPACE. p \<noteq> [] \<and> digit_value (hd p) = None" "\<forall>p\<in>set (map rev WHITE_SPACE). p \<noteq> [] \<and> hd p \<noteq> CHR ''Z''"
  by code_simp+

lemma trim_digit_Z:
  assumes "s \<noteq> []" and "all_digits [hd s]"
  shows "trim_str (s @ ''Z'') = s @ ''Z''"
proof (rule trim_str_id)
  obtain c cs where s: "s = c # cs" using assms(1) by (cases s) auto
  then have "digit_value c \<noteq> None" using assms(2) by (simp add: all_digits_def)
  then show "strip_any WHITE_SPACE (s @ ''Z'') = None"
    using white_heads(1) s by (auto intro!: strip_any_head)
  show "strip_any (map rev WHITE_SPACE) (rev (s @ ''Z'')) = None"
    using strip_any_head [OF white_heads(2)] by simp
qed

lemma strip_suffix_append [simp]: "strip_suffix p (s @ p) = Some s"
  by (simp add: strip_suffix_def strip_prefix_def)

lemma padded_nonempty [simp]: "padded w n \<noteq> []"
  by (simp add: padded_def)

lemma split_on_parts: "c \<notin> set p \<Longrightarrow> c \<notin> set q \<Longrightarrow> c \<notin> set r \<Longrightarrow> split_on c (p @ c # q @ c # r) = [p, q, r]"
  by (simp add: split_on_append split_on_none)

text \<open>The text of a date and a time reads back as the milliseconds of its parts.\<close>

lemma iso_to_ms_padded:
  assumes y: "0 \<le> y" "y \<le> 999999" and v: "valid_date (y, mo, d mod 2 ^ 32)" and dr: "0 \<le> d" "d < 2 ^ 63"
    and t: "0 \<le> h" "h \<le> 23" "0 \<le> mi" "mi \<le> 59" "0 \<le> s" "s \<le> 60"
  shows "iso_to_ms (padded 4 y @ ''-'' @ padded 2 mo @ ''-'' @ padded 2 d @ ''T'' @ padded 2 h @ '':'' @
     padded 2 mi @ '':'' @ padded 2 s @ ''Z'') = date_ms y mo d h mi s"
proof -
  define date where "date = padded 4 y @ CHR ''-'' # padded 2 mo @ CHR ''-'' # padded 2 d"
  define time where "time = padded 2 h @ CHR '':'' # padded 2 mi @ CHR '':'' # padded 2 s"
  have mo: "1 \<le> mo" "mo \<le> 12" and d: "1 \<le> d mod 4294967296" "d mod 4294967296 \<le> days_in_month y mo"
    using v by (simp_all add: valid_date_def)
  have nn: "0 \<le> mo" using mo by simp
  note apart = digits_apart [OF y(1)] digits_apart [OF nn] digits_apart [OF dr(1)] digits_apart [OF t(1)]
    digits_apart [OF t(3)] digits_apart [OF t(5)]
  have "hd (date @ ''T'' @ time) \<in> set (padded 4 y)" by (simp add: date_def hd_append)
  then have "all_digits [hd (date @ ''T'' @ time)]" using padded_digits [OF y(1), of 4] by (simp add: all_digits_def)
  then have tr: "trim_str ((date @ ''T'' @ time) @ ''Z'') = (date @ ''T'' @ time) @ ''Z''"
    by (intro trim_digit_Z) (simp_all add: date_def)
  have so: "split_once (\<lambda>c. c = CHR ''T'' \<or> c = CHR '' '') (date @ CHR ''T'' # time) = Some (date, time)"
    by (intro split_once_first) (use apart in \<open>auto simp: date_def\<close>)
  have sd: "split_on CHR ''-'' date = [padded 4 y, padded 2 mo, padded 2 d]"
    and st: "split_on CHR '':'' time = [padded 2 h, padded 2 mi, padded 2 s]"
    unfolding date_def time_def using apart by (intro split_on_parts; simp)+
  have p: "parse_i64 (padded 4 y) = Some y" "parse_i64 (padded 2 mo) = Some mo" "parse_i64 (padded 2 d) = Some d"
    "parse_i64 (padded 2 h) = Some h" "parse_i64 (padded 2 mi) = Some mi" "parse_i64 (padded 2 s) = Some s"
    using y mo dr t by (auto intro!: parse_padded)
  have m: "mo mod 4294967296 = mo" using mo by simp
  have "iso_to_ms ((date @ ''T'' @ time) @ ''Z'') = date_ms y mo d h mi s"
    unfolding iso_to_ms_def Let_def tr strip_suffix_append using y mo d
    by (simp add: so sd st p m part_def)
  then show ?thesis by (simp add: date_def time_def)
qed

lemma date_ms_value:
  assumes "0 \<le> y" "y \<le> 999999" and v: "valid_date (y, mo, d mod 2 ^ 32)"
    and t: "0 \<le> h" "h \<le> 23" "0 \<le> mi" "mi \<le> 59" "0 \<le> s" "s \<le> 60"
  shows "date_ms y mo d h mi s = Some ((days_of (y, mo, d mod 2 ^ 32) * 86400 + (h * 3600 + mi * 60 + s)) * 1000)"
proof -
  have mo: "1 \<le> mo" "mo \<le> 12" and d: "1 \<le> d mod 2 ^ 32" "d mod 2 ^ 32 \<le> days_in_month y mo"
    using v by (simp_all add: valid_date_def)
  have d31: "d mod 2 ^ 32 \<le> 31" using d by (simp add: days_in_month_def split: if_splits)
  define n where "n = days_of (y, mo, d mod 2 ^ 32)"
  have "march_year y mo div 400 \<le> 2500" "- 1 \<le> march_year y mo div 400" using assms(1,2) by (auto simp: march_year_def)
  moreover have "0 \<le> march_year y mo mod 400" "march_year y mo mod 400 \<le> 399" using pos_mod_bound [of 400 "march_year y mo"] by simp_all
  note year_span [OF this]
  moreover have "0 \<le> month_start (month_index mo)" "month_start (month_index mo) \<le> 337"
    using month_index_range [OF mo] zdiv_mono1 [of "153 * month_index mo + 2" "153 * 11 + 2" 5] by (auto simp: month_start_def)
  ultimately have n: "- 900000 \<le> n" "n \<le> 365500000"
    using d31 d(1) by (auto simp: n_def days_march march_days_def)
  have "days_from_civil y (mo mod 2 ^ 32) (d mod 2 ^ 32) = n" using mo by (simp add: n_def days_of_def)
  then show ?thesis using n t by (simp add: date_ms_def checked_i64_def i64_range_def SECS_PER_DAY_def n_def)
qed

lemma days_mono: "a \<le> b \<Longrightarrow> march_days a \<le> march_days b"
proof (induction "nat (b - a)" arbitrary: b)
  case (Suc n)
  then have "march_days a \<le> march_days (b - 1)" by auto
  also have "\<dots> \<le> march_days b" using march_days_step [of "b - 1"] by (simp split: if_splits)
  finally show ?case .
qed simp

lemma civil_year_range:
  assumes "0 \<le> z" and "z < march_days 999999 - 719468" and "civil_from_days z = (y, m, d)"
  shows "0 \<le> y" and "y \<le> 999999"
proof -
  have v: "valid_date (y, m, d)" and z: "days_of (y, m, d) = z" using civil_valid [of z] days_civil [of z] assms(3) by simp_all
  then have mr: "1 \<le> m" "m \<le> 12" "1 \<le> d" "d \<le> 31" by (auto simp: valid_date_def days_in_month_def split: if_splits)
  have ms: "0 \<le> month_start (month_index m)" "month_start (month_index m) \<le> 337"
    using month_index_range [OF mr(1,2)] zdiv_mono1 [of "153 * month_index m + 2" "153 * 11 + 2" 5] by (auto simp: month_start_def)
  have e: "z = march_days (march_year y m) + month_start (month_index m) + d - 1 - 719468" using z by (simp add: days_march)
  have "march_year y m < 999999"
  proof (rule ccontr)
    assume "\<not> march_year y m < 999999"
    then have "march_days 999999 \<le> march_days (march_year y m)" by (intro days_mono) simp
    then show False using e assms(2) ms mr by simp
  qed
  then show "y \<le> 999999" by (simp add: march_year_def split: if_splits)
  show "0 \<le> y"
  proof (rule ccontr)
    assume "\<not> 0 \<le> y"
    then have "march_days (march_year y m) \<le> march_days (- 1)" by (intro days_mono) (simp add: march_year_def)
    then show False using e assms(1) ms mr by (simp add: march_days_def year_start_def)
  qed
qed

lemma march_days_last: "march_days 999999 = 365242134"
  by code_simp

text \<open>C35: A time that \<open>iso8601_from_ms\<close> prints reads back through \<open>iso_to_ms\<close> as the same time, cut to
  the second: for every millisecond from the epoch up to March of the year 999999. (An earlier time
  is printed as the epoch.)\<close>

theorem iso_roundtrip:
  assumes "0 \<le> ms" and "ms < 31494758342400000"
  shows "iso_to_ms (iso8601_from_ms ms) = Some (ms - ms mod 1000)"
proof -
  define secs days where "secs = ms div 1000" and "days = secs div 86400"
  define rem where "rem = secs mod 86400"
  obtain y mo d where c: "civil_from_days days = (y, mo, d)" by (cases "civil_from_days days")
  have b: "0 \<le> secs" "0 \<le> days" "0 \<le> rem" "rem < 86400" using assms(1) by (simp_all add: secs_def days_def rem_def)
  have "days < march_days 999999 - 719468"
    using assms(2) unfolding march_days_last days_def secs_def by (simp add: zdiv_zmult2_eq [symmetric])
  note y = civil_year_range [OF b(2) this c]
  have v: "valid_date (y, mo, d)" and z: "days_of (y, mo, d) = days" using civil_valid [of days] days_civil [of days] c by simp_all
  have d: "1 \<le> d" "d \<le> 31" using v by (auto simp: valid_date_def days_in_month_def split: if_splits)
  then have m: "d mod 2 ^ 32 = d" and dr: "0 \<le> d" "d < 2 ^ 63" by simp_all
  have v': "valid_date (y, mo, d mod 2 ^ 32)" using v m by simp
  have t: "0 \<le> rem div 3600" "rem div 3600 \<le> 23" "0 \<le> rem mod 3600 div 60" "rem mod 3600 div 60 \<le> 59"
    "0 \<le> rem mod 60" "rem mod 60 \<le> 60" using b(3,4) by auto
  have ms: "ms_to_civil ms = (y, mo, d, rem div 3600, rem mod 3600 div 60, rem mod 60)"
    using b(1) by (simp add: ms_to_civil_def Let_def SECS_PER_DAY_def secs_def [symmetric] days_def [symmetric] rem_def [symmetric] c)
  have "rem mod 3600 div 60 * 60 + rem mod 60 = rem mod 3600" using div_mult_mod_eq [of "rem mod 3600" 60] mod_mod_cancel [of 60 3600 rem] by simp
  then have "rem div 3600 * 3600 + rem mod 3600 div 60 * 60 + rem mod 60 = rem" using div_mult_mod_eq [of rem 3600] by linarith
  moreover have "days * 86400 + rem = secs" by (simp add: days_def rem_def)
  moreover have "secs * 1000 = ms - ms mod 1000" by (simp add: secs_def minus_mod_eq_mult_div mult.commute)
  ultimately show ?thesis
    by (simp only: iso8601_from_ms_def ms Let_def split_conv iso_to_ms_padded [OF y v' dr t] date_ms_value [OF y v' t] m z)
qed

theorem iso_roundtrip_witness: "iso_to_ms (iso8601_from_ms 1709210096123) = Some 1709210096000"
  using iso_roundtrip [of 1709210096123] by simp

text \<open>\<open>iso_to_ms\<close> reads the day as an \<open>i64\<close> and casts it to \<open>u32\<close> before it compares it with the
  length of the month, so a day out of range is read as its remainder modulo \<open>2 ^ 32\<close>: with a date
  \<open>y-mo-d\<close> of the calendar, the text whose day is \<open>d + k * 2 ^ 32\<close> gives the very same time.\<close>

theorem iso_day_wraps:
  assumes "0 \<le> y" "y \<le> 999999" and "valid_date (y, mo, d)" and "0 \<le> k" and "d + k * 2 ^ 32 < 2 ^ 63"
  shows "iso_to_ms (padded 4 y @ ''-'' @ padded 2 mo @ ''-'' @ padded 2 (d + k * 2 ^ 32) @ ''T00:00:00Z'') =
    Some (days_of (y, mo, d) * 86400000)"
proof -
  have d: "1 \<le> d" "d \<le> 31" using assms(3) by (auto simp: valid_date_def days_in_month_def split: if_splits)
  have m: "(d + k * 2 ^ 32) mod 2 ^ 32 = d" using d by simp
  have p: "padded 2 0 = ''00''" by code_simp
  have v: "valid_date (y, mo, (d + k * 2 ^ 32) mod 2 ^ 32)" and dr: "0 \<le> d + k * 2 ^ 32" using assms d m by simp_all
  show ?thesis
    using iso_to_ms_padded [OF assms(1,2) v dr assms(5), of 0 0 0] date_ms_value [OF assms(1,2) v, of 0 0 0] m
    by (simp add: p)
qed

theorem iso_day_wraps_witness: "iso_to_ms ''2024-01-4294967297T00:00:00Z'' = Some 1704067200000"
proof -
  have "valid_date (2024, 1, 1)" "days_of (2024, 1, 1) * 86400000 = 1704067200000"
    "padded 4 2024 = ''2024''" "padded 2 1 = ''01''" "padded 2 4294967297 = ''4294967297''" by code_simp+
  then show ?thesis using iso_day_wraps [of 2024 1 1 1] by simp
qed

end
