(* ===== verification/Sync_Model.thy ===== *)
theory Sync_Model
  imports Table Metarecord "HOL-Library.Char_ord"
begin

text \<open>
  The pure half of sync (\<open>core/sync/model.rs\<close>): a link's snapshot and its wire form, the
  translation of values from one repository to the other, and the three-way decisions.

  Two things are not the program's own. \<open>key\<close> is the JSON text of a value (the serde_json crate),
  an argument of the definitions that sort by it; nothing is assumed of it. \<open>tr\<close> is the
  \<open>Translate\<close> the caller supplies: the counterpart of a record of one side, a failure, or none. In
  the wire form a JSON object is seen through the accessors the code uses, and a value and a uuid go
  through serde and the uuid crate, also as arguments.
\<close>

section \<open>Sides and fields\<close>

datatype Side = SideA | SideB

fun other :: "Side \<Rightarrow> Side" where
  "other SideA = SideB"
| "other SideB = SideA"

fun side_name :: "Side \<Rightarrow> string" where
  "side_name SideA = ''a''"
| "side_name SideB = ''b''"

definition side_parse :: "string \<Rightarrow> Side option" where
  "side_parse s = (if s = ''a'' then Some SideA else if s = ''b'' then Some SideB else None)"

definition is_synced_field :: "string \<Rightarrow> bool" where
  "is_synced_field n \<longleftrightarrow> take 4 n \<noteq> ''mfr_'' \<or> n = ''mfr_path''"

definition CONTENT_STAMP :: "string list" where
  "CONTENT_STAMP = [''mfr_type'', ''mfr_size'', ''mfr_mtime'', ''mfr_symlink_target'']"

definition MODE_STAMP :: "string list" where
  "MODE_STAMP = [''mfr_permissions'']"

text \<open>\<open>Vec::dedup_by\<close> on the keys: of a run of equal keys the first element stays.\<close>

fun dedup_key :: "('a \<Rightarrow> 'k) \<Rightarrow> 'a list \<Rightarrow> 'a list" where
  "dedup_key k (x # y # zs) = (if k x = k y then dedup_key k (x # zs) else x # dedup_key k (y # zs))"
| "dedup_key k xs = xs"

definition canon :: "(value \<Rightarrow> string) \<Rightarrow> value list \<Rightarrow> value list" where
  "canon key values = dedup_key key (sort_key key values)"

definition values_of :: "(value \<Rightarrow> string) \<Rightarrow> MetaRecord \<Rightarrow> string \<Rightarrow> value list" where
  "values_of key rec n = canon key (get_all rec n)"

text \<open>A \<open>BTreeSet\<close> of names is the sorted list of them.\<close>

definition name_set :: "string list \<Rightarrow> string list" where
  "name_set ns = remdups_adj (sort ns)"

definition synced_names :: "MetaRecord \<Rightarrow> string list" where
  "synced_names rec = name_set (filter is_synced_field (map f_name (mr_fields rec)))"

definition has_real_path :: "MetaRecord \<Rightarrow> bool" where
  "has_real_path rec \<longleftrightarrow> (case get rec ''mfr_path'' of Some (VTreeRef _ _) \<Rightarrow> True | _ \<Rightarrow> False)"

section \<open>The snapshot\<close>

record Snapshot =
  common :: "(string, (value \<times> value) list) table"
  side_a :: "(string, value) table"
  side_b :: "(string, value) table"

definition empty_snapshot :: Snapshot where
  "empty_snapshot = \<lparr>common = [], side_a = [], side_b = []\<rparr>"

definition snap_side :: "Snapshot \<Rightarrow> Side \<Rightarrow> (string, value) table" where
  "snap_side s sd = (case sd of SideA \<Rightarrow> side_a s | SideB \<Rightarrow> side_b s)"

definition set_side :: "Side \<Rightarrow> (string, value) table \<Rightarrow> Snapshot \<Rightarrow> Snapshot" where
  "set_side sd t s = (case sd of SideA \<Rightarrow> s\<lparr>side_a := t\<rparr> | SideB \<Rightarrow> s\<lparr>side_b := t\<rparr>)"

text \<open>A wire entry, as \<open>as_str\<close> and the index operator of JSON show it.\<close>

record 'j WireEntry =
  w_name :: "string option"
  w_value :: 'j
  w_value_b :: "string option"
  w_side :: "string option"

fun b_perspective :: "value \<Rightarrow> uuid option \<Rightarrow> value option" where
  "b_perspective (VRef _) vb = map_option VRef vb"
| "b_perspective (VTreeRef _ n) vb = Some (VTreeRef vb n)"
| "b_perspective (VHierarchyRef _ n) vb = Some (VHierarchyRef vb n)"
| "b_perspective v vb = Some v"

definition is_path_form :: "value \<Rightarrow> bool" where
  "is_path_form v \<longleftrightarrow> (case v of VTreeRef _ _ \<Rightarrow> True | Nothing \<Rightarrow> True | _ \<Rightarrow> False)"

definition push_common :: "string \<Rightarrow> value \<times> value \<Rightarrow> Snapshot \<Rightarrow> Snapshot" where
  "push_common n p s =
     s\<lparr>common := tput n ((case tget (common s) n of Some ps \<Rightarrow> ps | None \<Rightarrow> []) @ [p]) (common s)\<rparr>"

definition wire_step :: "('j \<Rightarrow> value option) \<Rightarrow> (string \<Rightarrow> uuid option) \<Rightarrow> 'j WireEntry \<Rightarrow> Snapshot \<Rightarrow> Snapshot" where
  "wire_step from_value parse_uuid e snap =
     (case w_name e of
        None \<Rightarrow> snap
      | Some n \<Rightarrow>
        (case from_value (w_value e) of
           None \<Rightarrow> snap
         | Some v \<Rightarrow>
           (case Option.bind (w_side e) side_parse of
              Some sd \<Rightarrow> set_side sd (tput n v (snap_side snap sd)) snap
            | None \<Rightarrow>
                if n = ''mfr_path'' \<and> \<not> is_path_form v then snap
                else (case b_perspective v (Option.bind (w_value_b e) parse_uuid) of
                        None \<Rightarrow> snap
                      | Some b \<Rightarrow> push_common n (v, b) snap))))"

definition from_wire :: "('j \<Rightarrow> value option) \<Rightarrow> (string \<Rightarrow> uuid option) \<Rightarrow> 'j WireEntry list \<Rightarrow> Snapshot" where
  "from_wire from_value parse_uuid entries = fold (wire_step from_value parse_uuid) entries empty_snapshot"

fun wire_b :: "value \<Rightarrow> uuid option" where
  "wire_b (VRef u) = Some u"
| "wire_b (VTreeRef p _) = p"
| "wire_b (VHierarchyRef p _) = p"
| "wire_b _ = None"

definition wire_common :: "(value \<Rightarrow> 'j) \<Rightarrow> (uuid \<Rightarrow> string) \<Rightarrow> string \<Rightarrow> value \<times> value \<Rightarrow> 'j WireEntry" where
  "wire_common to_value simple n p =
     \<lparr>w_name = Some n, w_value = to_value (fst p), w_value_b = map_option simple (wire_b (snd p)), w_side = None\<rparr>"

definition wire_side :: "(value \<Rightarrow> 'j) \<Rightarrow> Side \<Rightarrow> string \<times> value \<Rightarrow> 'j WireEntry" where
  "wire_side to_value sd e =
     \<lparr>w_name = Some (fst e), w_value = to_value (snd e), w_value_b = None, w_side = Some (side_name sd)\<rparr>"

definition to_wire :: "(value \<Rightarrow> 'j) \<Rightarrow> (uuid \<Rightarrow> string) \<Rightarrow> Snapshot \<Rightarrow> 'j WireEntry list" where
  "to_wire to_value simple s =
     concat (map (\<lambda>(n, ps). map (wire_common to_value simple n) ps) (common s)) @
     concat (map (\<lambda>sd. map (wire_side to_value sd) (snap_side s sd)) [SideA, SideB])"

definition perspective :: "(value \<Rightarrow> string) \<Rightarrow> Snapshot \<Rightarrow> string \<Rightarrow> Side \<Rightarrow> value list" where
  "perspective key s n sd =
     canon key (map (case sd of SideA \<Rightarrow> fst | SideB \<Rightarrow> snd) (case tget (common s) n of Some ps \<Rightarrow> ps | None \<Rightarrow> []))"

section \<open>Translation\<close>

datatype Lookup = LRef | LParent string bool

type_synonym 'e translator = "Side \<Rightarrow> uuid \<Rightarrow> Lookup \<Rightarrow> 'e + uuid option"

definition translate :: "'e translator \<Rightarrow> Side \<Rightarrow> string \<Rightarrow> value \<Rightarrow> 'e + value option" where
  "translate tr from field v =
     (case v of
        VRef u \<Rightarrow> bindE (tr from u LRef) (\<lambda>q. Inr (map_option VRef q))
      | VTreeRef (Some p) n \<Rightarrow> bindE (tr from p (LParent field False)) (\<lambda>q. Inr (map_option (\<lambda>q. VTreeRef (Some q) n) q))
      | VHierarchyRef (Some p) n \<Rightarrow> bindE (tr from p (LParent field True)) (\<lambda>q. Inr (map_option (\<lambda>q. VHierarchyRef (Some q) n) q))
      | _ \<Rightarrow> Inr (Some v))"

fun translate_all :: "'e translator \<Rightarrow> Side \<Rightarrow> string \<Rightarrow> value list \<Rightarrow> 'e + value list option" where
  "translate_all tr from field [] = Inr (Some [])"
| "translate_all tr from field (v # vs) =
     bindE (translate tr from field v) (\<lambda>t.
       case t of None \<Rightarrow> Inr None
       | Some t \<Rightarrow> bindE (translate_all tr from field vs) (\<lambda>ts. Inr (map_option ((#) t) ts)))"

text \<open>\<open>==\<close> on two vectors of values.\<close>

definition values_eq :: "value list \<Rightarrow> value list \<Rightarrow> bool" where
  "values_eq = list_all2 value_eq"

definition agree :: "(value \<Rightarrow> string) \<Rightarrow> 'e translator \<Rightarrow> string \<Rightarrow> value list \<Rightarrow> value list \<Rightarrow> 'e + (value \<times> value) list option" where
  "agree key tr n a b =
     bindE (translate_all tr SideA n a) (\<lambda>ta.
       case ta of
         None \<Rightarrow> Inr None
       | Some ta \<Rightarrow> if \<not> values_eq (canon key ta) (canon key b) then Inr None else Inr (Some (zip a ta)))"

section \<open>Decisions\<close>

datatype Decision = InSync | Untouched | Propagate Side | Conflict

definition decide_field :: "(value \<Rightarrow> string) \<Rightarrow> 'e translator \<Rightarrow> string \<Rightarrow> value list \<Rightarrow> value list \<Rightarrow> Snapshot \<Rightarrow> 'e + Decision" where
  "decide_field key tr n a b snap =
     bindE (agree key tr n a b) (\<lambda>ag.
       if ag \<noteq> None then Inr InSync
       else let a_changed = \<not> values_eq (canon key a) (perspective key snap n SideA);
                b_changed = \<not> values_eq (canon key b) (perspective key snap n SideB)
            in Inr (case (a_changed, b_changed) of
                      (False, False) \<Rightarrow> Untouched
                    | (True, False) \<Rightarrow> Propagate SideA
                    | (False, True) \<Rightarrow> Propagate SideB
                    | (True, True) \<Rightarrow> Conflict))"

definition stamp :: "MetaRecord \<Rightarrow> string list \<Rightarrow> (string, value) table" where
  "stamp rec names = fold (\<lambda>n t. case get rec n of Some v \<Rightarrow> tput n v t | None \<Rightarrow> t) names []"

definition option_value_eq :: "value option \<Rightarrow> value option \<Rightarrow> bool" where
  "option_value_eq x y = (case (x, y) of (None, None) \<Rightarrow> True | (Some v, Some w) \<Rightarrow> value_eq v w | _ \<Rightarrow> False)"

definition stamp_changed :: "MetaRecord \<Rightarrow> Snapshot \<Rightarrow> Side \<Rightarrow> string list \<Rightarrow> bool" where
  "stamp_changed rec snap sd names \<longleftrightarrow>
     (let held = snap_side snap sd
      in if \<not> (\<exists>n\<in>set names. tget held n \<noteq> None) then True
         else \<exists>n\<in>set names. \<not> option_value_eq (get rec n) (tget held n))"

definition decide_aspect :: "bool \<Rightarrow> bool \<Rightarrow> (unit \<Rightarrow> 'e + bool) \<Rightarrow> 'e + Decision" where
  "decide_aspect a_changed b_changed equal =
     (if \<not> a_changed \<and> \<not> b_changed then Inr Untouched
      else bindE (equal ()) (\<lambda>eq.
        if eq then Inr InSync
        else Inr (if a_changed \<and> \<not> b_changed then Propagate SideA
                  else if \<not> a_changed \<and> b_changed then Propagate SideB
                  else Conflict)))"

definition snapshot_step :: "(value \<Rightarrow> string) \<Rightarrow> 'e translator \<Rightarrow> MetaRecord \<Rightarrow> MetaRecord \<Rightarrow> Snapshot \<Rightarrow> string \<Rightarrow> Snapshot \<Rightarrow> 'e + Snapshot" where
  "snapshot_step key tr a b old n next =
     bindE (agree key tr n (values_of key a n) (values_of key b n)) (\<lambda>ag.
       case ag of
         Some pairs \<Rightarrow> if pairs = [] then Inr next else Inr (next\<lparr>common := tput n pairs (common next)\<rparr>)
       | None \<Rightarrow>
           (case tget (common old) n of
              Some pairs \<Rightarrow> Inr (next\<lparr>common := tput n pairs (common next)\<rparr>)
            | None \<Rightarrow> Inr next))"

definition tunion :: "('k::linorder, 'v) table \<Rightarrow> ('k, 'v) table \<Rightarrow> ('k, 'v) table" where
  "tunion t u = fold (\<lambda>(k, v). tput k v) u t"

definition stamps_of :: "MetaRecord \<Rightarrow> (string, value) table" where
  "stamps_of rec = tunion (stamp rec CONTENT_STAMP) (stamp rec MODE_STAMP)"

definition next_snapshot :: "(value \<Rightarrow> string) \<Rightarrow> 'e translator \<Rightarrow> MetaRecord \<Rightarrow> MetaRecord \<Rightarrow> Snapshot \<Rightarrow> 'e + Snapshot" where
  "next_snapshot key tr a b old =
     (let names = name_set (synced_names a @ synced_names b @ map fst (common old))
      in bindE (foldE (snapshot_step key tr a b old) names empty_snapshot) (\<lambda>next.
           Inr (set_side SideB (stamps_of b) (set_side SideA (stamps_of a) next))))"

section \<open>Canonical values\<close>

lemma values_eq_sym: "values_eq xs ys \<Longrightarrow> values_eq ys xs"
  unfolding values_eq_def by (induction rule: list_all2_induct) (auto intro: value_eq_sym)

lemma values_eq_trans: "values_eq xs ys \<Longrightarrow> values_eq ys zs \<Longrightarrow> values_eq xs zs"
  unfolding values_eq_def by (rule list_all2_trans [OF value_eq_trans])

lemma values_eq_right: "values_eq ys zs \<Longrightarrow> values_eq xs ys \<longleftrightarrow> values_eq xs zs"
  using values_eq_sym values_eq_trans by blast

lemma values_eq_Nil [simp]: "values_eq [] ys \<longleftrightarrow> ys = []" "values_eq xs [] \<longleftrightarrow> xs = []"
  by (auto simp: values_eq_def)

lemma dedup_key_set: "k ` set (dedup_key k xs) = k ` set xs"
  by (induction k xs rule: dedup_key.induct) auto

lemma dedup_key_strict: "sorted (map k xs) \<Longrightarrow> sorted_wrt (\<lambda>x y. k x < k y) (dedup_key k xs)" for k :: "'a \<Rightarrow> 'k::linorder"
proof (induction k xs rule: dedup_key.induct)
  case (1 k x y zs)
  show ?case
  proof (cases "k x = k y")
    case True
    then show ?thesis using 1 by simp
  next
    case False
    have "k x < k v" if "v \<in> set (dedup_key k (y # zs))" for v
    proof -
      have "k v \<in> k ` set (y # zs)" using imageI [OF that, of k] unfolding dedup_key_set .
      then obtain w where "w \<in> set (y # zs)" "k v = k w" by blast
      then show ?thesis using 1(3) False by auto
    qed
    then show ?thesis using False 1 by simp
  qed
qed simp_all

lemma dedup_key_id: "sorted_wrt (\<lambda>x y. k x < k y) xs \<Longrightarrow> dedup_key k xs = xs" for k :: "'a \<Rightarrow> 'k::linorder"
  by (induction k xs rule: dedup_key.induct) auto

lemma canon_strict: "sorted_wrt (\<lambda>x y. key x < key y) (canon key vs)"
  unfolding canon_def by (intro dedup_key_strict) simp

lemma canon_id:
  assumes "sorted_wrt (\<lambda>x y. key x < key y) vs"
  shows "canon key vs = vs"
proof -
  have "sorted (map key vs)" using assms by (auto simp: sorted_wrt_map intro: sorted_wrt_mono_rel [rotated])
  then show ?thesis using assms by (simp add: canon_def sort_key_id_if_sorted dedup_key_id)
qed

lemma canon_idem [simp]: "canon key (canon key vs) = canon key vs"
  by (rule canon_id [OF canon_strict])

lemma canon_Nil_iff [simp]: "canon key vs = [] \<longleftrightarrow> vs = []"
proof -
  have "key ` set (canon key vs) = key ` set vs" by (simp add: canon_def dedup_key_set)
  then show ?thesis by (metis image_is_empty set_empty)
qed

lemma canon_values_of [simp]: "canon key (values_of key rec n) = values_of key rec n"
  by (simp add: values_of_def)

lemma translate_all_length: "translate_all tr sd n vs = Inr (Some ts) \<Longrightarrow> length ts = length vs"
  by (induction vs arbitrary: ts) (auto simp: bindE_eq_Inr split: option.splits)

section \<open>What a snapshot records\<close>

definition recorded_pairs :: "(value \<Rightarrow> string) \<Rightarrow> 'e translator \<Rightarrow> MetaRecord \<Rightarrow> MetaRecord \<Rightarrow> Snapshot \<Rightarrow> string \<Rightarrow> (value \<times> value) list option" where
  "recorded_pairs key tr a b old n =
     (case agree key tr n (values_of key a n) (values_of key b n) of
        Inr (Some pairs) \<Rightarrow> if pairs = [] then None else Some pairs
      | Inr None \<Rightarrow> tget (common old) n
      | Inl _ \<Rightarrow> None)"

lemma snapshot_step_common:
  assumes "snapshot_step key tr a b old n s = Inr s'"
  shows "tget (common s') = (case recorded_pairs key tr a b old n of None \<Rightarrow> tget (common s) | Some ps \<Rightarrow> (tget (common s))(n \<mapsto> ps))"
proof (cases "agree key tr n (values_of key a n) (values_of key b n)")
  case (Inr ag)
  then show ?thesis using assms
    by (cases ag; cases "tget (common old) n"; cases "ag = Some []") (auto simp: snapshot_step_def recorded_pairs_def split: if_splits)
qed (use assms in \<open>simp add: snapshot_step_def\<close>)

lemma snapshot_fold_common:
  "foldE (snapshot_step key tr a b old) names s = Inr s' \<Longrightarrow>
   tget (common s') n = (if n \<in> set names \<and> recorded_pairs key tr a b old n \<noteq> None then recorded_pairs key tr a b old n else tget (common s) n)"
proof (induction names arbitrary: s)
  case (Cons m names)
  then obtain t where t: "snapshot_step key tr a b old m s = Inr t" and f: "foldE (snapshot_step key tr a b old) names t = Inr s'"
    by (auto simp: bindE_eq_Inr)
  show ?case using Cons.IH [OF f] snapshot_step_common [OF t] by (auto split: option.splits)
qed simp

lemma set_name_set [simp]: "set (name_set ns) = set ns"
  by (simp add: name_set_def)

lemma common_set_side [simp]: "common (set_side sd t s) = common s"
  by (cases sd) (simp_all add: set_side_def)

lemma next_snapshot_names:
  "n \<in> set (name_set (synced_names a @ synced_names b @ map fst (common old))) \<longleftrightarrow>
   is_synced_field n \<and> (get_all a n \<noteq> [] \<or> get_all b n \<noteq> []) \<or> tget (common old) n \<noteq> None"
  by (auto simp: synced_names_def get_all_def filter_empty_conv tget_def map_of_eq_None_iff image_iff)

lemma next_snapshot_common:
  assumes "next_snapshot key tr a b old = Inr s"
    and "is_synced_field n \<or> tget (common old) n \<noteq> None"
  shows "tget (common s) n = recorded_pairs key tr a b old n"
proof -
  obtain t where f: "foldE (snapshot_step key tr a b old) (name_set (synced_names a @ synced_names b @ map fst (common old))) empty_snapshot = Inr t"
    and c: "common s = common t"
    using assms(1) by (auto simp: next_snapshot_def Let_def bindE_eq_Inr)
  have "recorded_pairs key tr a b old n = None" if "get_all a n = []" "get_all b n = []" "tget (common old) n = None"
    using that by (simp add: recorded_pairs_def values_of_def canon_def agree_def split: option.splits)
  then show ?thesis using assms(2) snapshot_fold_common [OF f, of n] next_snapshot_names [of n a b old]
    by (auto simp: c empty_snapshot_def)
qed

lemma agree_Some:
  assumes "agree key tr n a b = Inr (Some pairs)"
  obtains ta where "translate_all tr SideA n a = Inr (Some ta)" and "pairs = zip a ta" and "length ta = length a"
    and "values_eq (canon key ta) (canon key b)"
  using assms translate_all_length by (fastforce simp: agree_def bindE_eq_Inr split: option.splits if_splits)

text \<open>What each side held, when the two agreed.\<close>

lemma next_snapshot_perspective:
  assumes ns: "next_snapshot key tr a b old = Inr s" and n: "is_synced_field n"
    and ag: "agree key tr n (values_of key a n) (values_of key b n) = Inr (Some pairs)"
  shows "perspective key s n SideA = values_of key a n"
    and "values_eq (perspective key s n SideB) (values_of key b n)"
proof -
  obtain ta where ta: "pairs = zip (values_of key a n) ta" "length ta = length (values_of key a n)"
    "values_eq (canon key ta) (values_of key b n)" by (rule agree_Some [OF ag]) simp
  have "(case tget (common s) n of Some ps \<Rightarrow> ps | None \<Rightarrow> []) = pairs"
    using next_snapshot_common [OF ns] n ag by (simp add: recorded_pairs_def)
  then show "perspective key s n SideA = values_of key a n" "values_eq (perspective key s n SideB) (values_of key b n)"
    using ta by (simp_all add: perspective_def)
qed

section \<open>The three-way decision\<close>

text \<open>C17: After a sync that left the two sides agreeing on a field, the next decision compares each side
  with what it held then: when the two sides disagree now, the field is propagated from the side that
  changed, is a conflict when both changed, and is left alone when neither did; when they agree it is
  in sync, whatever changed. A failing lookup is the only failure.\<close>

theorem sync_detects_changes:
  assumes ns: "next_snapshot key tr a b old = Inr s" and n: "is_synced_field n"
    and ag: "agree key tr n (values_of key a n) (values_of key b n) = Inr (Some pairs)"
  shows "decide_field key tr n (values_of key a2 n) (values_of key b2 n) s =
    (case agree key tr n (values_of key a2 n) (values_of key b2 n) of
       Inl e \<Rightarrow> Inl e
     | Inr (Some _) \<Rightarrow> Inr InSync
     | Inr None \<Rightarrow> Inr (if values_eq (values_of key a2 n) (values_of key a n)
                       then if values_eq (values_of key b2 n) (values_of key b n) then Untouched else Propagate SideB
                       else if values_eq (values_of key b2 n) (values_of key b n) then Propagate SideA else Conflict))"
  using next_snapshot_perspective(1) [OF ns n ag] values_eq_right [OF next_snapshot_perspective(2) [OF ns n ag]]
  by (auto simp: decide_field_def Let_def split: sum.splits option.splits)

text \<open>C18: A field the two sides still disagree on after a sync is decided as it was before: the snapshot
  keeps what was recorded, so a skipped conflict comes back as a conflict and a value with no
  counterpart as the same decision.\<close>

theorem sync_keeps_disagreement:
  assumes "next_snapshot key tr a b old = Inr s" and "is_synced_field n"
    and "agree key tr n (values_of key a n) (values_of key b n) = Inr None"
  shows "decide_field key tr n x y s = decide_field key tr n x y old"
proof -
  have "tget (common s) n = tget (common old) n"
    using next_snapshot_common [OF assms(1)] assms(2,3) by (simp add: recorded_pairs_def)
  then have "perspective key s n sd = perspective key old n sd" for sd by (simp add: perspective_def)
  then show ?thesis by (simp add: decide_field_def cong: if_cong)
qed

section \<open>Propagation\<close>

definition no_nan :: "value list \<Rightarrow> bool" where
  "no_nan vs \<longleftrightarrow> (\<forall>v\<in>set vs. value_eq v v)"

lemma dedup_key_subset: "set (dedup_key k xs) \<subseteq> set xs"
  by (induction k xs rule: dedup_key.induct) auto

lemma values_eq_refl: "no_nan vs \<Longrightarrow> values_eq (canon key vs) (canon key vs)"
  using dedup_key_subset [of key "sort_key key vs"]
  by (auto simp: no_nan_def values_eq_def canon_def list_all2_same)

text \<open>A lookup that leads back from B to A, as the lookup of linked records does.\<close>

definition leads_back :: "'e translator \<Rightarrow> bool" where
  "leads_back tr \<longleftrightarrow> (\<forall>u w how. tr SideB u how = Inr (Some w) \<longrightarrow> tr SideA w how = Inr (Some u))"

lemma translate_back:
  assumes inv: "leads_back tr"
    and "translate tr SideB n v = Inr (Some t)"
  shows "translate tr SideA n t = Inr (Some v)"
  using assms(2) inv unfolding leads_back_def by (auto simp: translate_def bindE_eq_Inr split: "value.splits" option.splits)

lemma translate_all_back:
  assumes inv: "leads_back tr"
  shows "translate_all tr SideB n vs = Inr (Some ts) \<Longrightarrow> translate_all tr SideA n ts = Inr (Some vs)"
proof (induction vs arbitrary: ts)
  case (Cons v vs)
  then obtain t us where "translate tr SideB n v = Inr (Some t)" "translate_all tr SideB n vs = Inr (Some us)" "ts = t # us"
    by (auto simp: bindE_eq_Inr split: option.splits)
  then show ?case using translate_back [OF inv] Cons.IH by simp
qed simp


section \<open>Stamps\<close>

lemma stamp_fold: "tget (fold (\<lambda>n t. case get rec n of Some v \<Rightarrow> tput n v t | None \<Rightarrow> t) names t) n =
    (if n \<in> set names \<and> get rec n \<noteq> None then get rec n else tget t n)"
  by (induction names arbitrary: t) (auto split: option.splits)

lemma tget_stamp: "tget (stamp rec names) n = (if n \<in> set names then get rec n else None)"
  by (auto simp: stamp_def stamp_fold)

lemma stamp_ordered_fold: "ordered t \<Longrightarrow> ordered (fold (\<lambda>n t. case get rec n of Some v \<Rightarrow> tput n v t | None \<Rightarrow> t) names t)"
  by (induction names arbitrary: t) (auto split: option.splits)

lemma tget_tunion: "ordered u \<Longrightarrow> tget (tunion t u) n = (case tget u n of Some v \<Rightarrow> Some v | None \<Rightarrow> tget t n)"
proof (induction u arbitrary: t)
  case (Cons e u)
  obtain k v where e: "e = (k, v)" by (cases e)
  have "ordered u" and "k \<notin> fst ` set u" using Cons(2) by (auto simp: ordered_def e)
  then have "tget u k = None" by (simp add: tget_def map_of_eq_None_iff)
  then show ?case using Cons.IH [OF \<open>ordered u\<close>, of "tput k v t"]
    by (auto simp: tunion_def e tget_def [of "(k, v) # u"] tget_def [of u, symmetric] split: option.splits)
qed (simp add: tunion_def)

lemma tget_stamps: "tget (stamps_of rec) n = (if n \<in> set (CONTENT_STAMP @ MODE_STAMP) then get rec n else None)"
proof -
  have "ordered (stamp rec MODE_STAMP)" unfolding stamp_def by (rule stamp_ordered_fold) simp
  then show ?thesis by (auto simp: stamps_of_def tget_tunion tget_stamp split: option.splits)
qed

text \<open>The stamps a sync records tell the change of a file: a later record of a side differs from the
  stamp, over the content or over the mode, exactly when one of the fields changed since, or when
  there was nothing to compare with.\<close>

theorem stamps_detect_changes:
  assumes "next_snapshot key tr a b old = Inr s" and "names = CONTENT_STAMP \<or> names = MODE_STAMP"
  shows "stamp_changed rec s sd names \<longleftrightarrow>
    (let held = get (case sd of SideA \<Rightarrow> a | SideB \<Rightarrow> b)
     in (\<forall>n\<in>set names. held n = None) \<or> (\<exists>n\<in>set names. \<not> option_value_eq (get rec n) (held n)))"
proof -
  have "snap_side s sd = stamps_of (case sd of SideA \<Rightarrow> a | SideB \<Rightarrow> b)"
    using assms(1) by (cases sd) (auto simp: next_snapshot_def Let_def bindE_eq_Inr snap_side_def set_side_def)
  moreover have "set names \<subseteq> set (CONTENT_STAMP @ MODE_STAMP)" using assms(2) by auto
  ultimately show ?thesis by (auto simp: stamp_changed_def Let_def tget_stamps subset_iff)
qed

section \<open>The wire form\<close>

definition pair_ok :: "string \<Rightarrow> value \<times> value \<Rightarrow> bool" where
  "pair_ok n p \<longleftrightarrow> b_perspective (fst p) (wire_b (snd p)) = Some (snd p) \<and> (n = ''mfr_path'' \<longrightarrow> is_path_form (fst p))"

definition snapshot_ok :: "Snapshot \<Rightarrow> bool" where
  "snapshot_ok s \<longleftrightarrow> ordered (common s) \<and> ordered (side_a s) \<and> ordered (side_b s) \<and>
     (\<forall>(n, ps)\<in>set (common s). ps \<noteq> [] \<and> (\<forall>p\<in>set ps. pair_ok n p))"

definition snapshot_values :: "Snapshot \<Rightarrow> value set" where
  "snapshot_values s = (\<Union>(n, ps)\<in>set (common s). fst ` set ps) \<union> snd ` set (side_a s) \<union> snd ` set (side_b s)"

lemma side_parse_name [simp]: "side_parse (side_name sd) = Some sd"
  by (cases sd) (simp_all add: side_parse_def)

lemma wire_step_common:
  assumes "from_value (to_value (fst p)) = Some (fst p)" and "\<And>u. parse_uuid (simple u) = Some u" and "pair_ok n p"
  shows "wire_step from_value parse_uuid (wire_common to_value simple n p) s = push_common n p s"
proof -
  have "Option.bind (map_option simple u) parse_uuid = u" for u using assms(2) by (cases u) simp_all
  then show ?thesis using assms by (auto simp: wire_step_def wire_common_def pair_ok_def)
qed

lemma wire_step_side:
  assumes "from_value (to_value (snd e)) = Some (snd e)"
  shows "wire_step from_value parse_uuid (wire_side to_value sd e) s = set_side sd (tput (fst e) (snd e) (snap_side s sd)) s"
  using assms by (simp add: wire_step_def wire_side_def)

lemma push_all:
  assumes "ordered (common s)"
  shows "tget (common (fold (push_common n) ps s)) =
      (if ps = [] then tget (common s) else (tget (common s))(n \<mapsto> (case tget (common s) n of Some qs \<Rightarrow> qs | None \<Rightarrow> []) @ ps))"
    and "ordered (common (fold (push_common n) ps s))"
    and "side_a (fold (push_common n) ps s) = side_a s" and "side_b (fold (push_common n) ps s) = side_b s"
  using assms
proof (induction ps arbitrary: s)
  case (Cons p ps)
  {
    case 1
    show ?case using Cons(1) [of "push_common n p s"] 1 by (auto simp: push_common_def fun_eq_iff)
  next
    case 2
    show ?case using Cons(2) [of "push_common n p s"] 2 by (simp add: push_common_def)
  next
    case 3
    show ?case using Cons(3) [of "push_common n p s"] 3 by (simp add: push_common_def)
  next
    case 4
    show ?case using Cons(4) [of "push_common n p s"] 4 by (simp add: push_common_def)
  }
qed simp_all

definition push_table :: "(string, (value \<times> value) list) table \<Rightarrow> Snapshot \<Rightarrow> Snapshot" where
  "push_table t s = fold (\<lambda>(n, ps). fold (push_common n) ps) t s"

lemma push_table_common:
  assumes "ordered (common s)" and "distinct (map fst t)" and "\<forall>(n, ps)\<in>set t. ps \<noteq> [] \<and> tget (common s) n = None"
  shows "tget (common (push_table t s)) n = (case tget t n of Some ps \<Rightarrow> Some ps | None \<Rightarrow> tget (common s) n) \<and>
    ordered (common (push_table t s)) \<and> side_a (push_table t s) = side_a s \<and> side_b (push_table t s) = side_b s"
  using assms
proof (induction t arbitrary: s)
  case (Cons e t)
  obtain m ps where e: "e = (m, ps)" by (cases e)
  define u where "u = fold (push_common m) ps s"
  note u = push_all [OF Cons(2), of m ps, folded u_def]
  have m: "tget (common s) m = None" "ps \<noteq> []" "m \<notin> fst ` set t" using Cons(3,4) by (auto simp: e)
  then have g: "tget (common u) = (tget (common s))(m \<mapsto> ps)" by (simp add: u)
  have "\<forall>(n, qs)\<in>set t. qs \<noteq> [] \<and> tget (common u) n = None" using Cons(4) m(3) by (force simp: g)
  moreover have "distinct (map fst t)" using Cons(3) by simp
  ultimately have IH: "tget (common (push_table t u)) n = (case tget t n of Some ps \<Rightarrow> Some ps | None \<Rightarrow> tget (common u) n) \<and>
    ordered (common (push_table t u)) \<and> side_a (push_table t u) = side_a u \<and> side_b (push_table t u) = side_b u"
    using Cons.IH u(2) by blast
  have "push_table (e # t) s = push_table t u" by (simp add: push_table_def u_def e)
  moreover have "tget t m = None" using m(3) by (simp add: tget_def map_of_eq_None_iff)
  then have "(case tget t n of Some ps \<Rightarrow> Some ps | None \<Rightarrow> tget (common u) n) = (case tget (e # t) n of Some ps \<Rightarrow> Some ps | None \<Rightarrow> tget (common s) n)"
    by (cases "n = m") (auto simp: g e tget_def [of "(m, ps) # t"] tget_def [of t] split: option.splits)
  ultimately show ?case using IH u by simp
qed (simp add: push_table_def)

lemma push_table_empty:
  assumes "ordered t" and "\<forall>(n, ps)\<in>set t. ps \<noteq> []"
  shows "push_table t empty_snapshot = empty_snapshot\<lparr>common := t\<rparr>"
proof -
  have *: "tget (common (push_table t empty_snapshot)) n = tget t n \<and> ordered (common (push_table t empty_snapshot)) \<and>
     side_a (push_table t empty_snapshot) = [] \<and> side_b (push_table t empty_snapshot) = []" for n
    using push_table_common [of empty_snapshot t n] assms ordered_distinct [OF assms(1)]
    by (force simp: empty_snapshot_def split: option.splits)
  then have "common (push_table t empty_snapshot) = t" using assms(1) by (intro table_ext) auto
  then show ?thesis using * by (simp add: empty_snapshot_def)
qed

lemma tunion_empty: 
  assumes "ordered t"
  shows "tunion [] t = t"
proof (rule table_ext)
  have "ordered (fold (\<lambda>(k, v). tput k v) es u)" if "ordered u" for es u
    using that by (induction es arbitrary: u) auto
  from this [OF ordered_Nil] show "ordered (tunion [] t)" unfolding tunion_def .
  show "tget (tunion [] t) = tget t" using assms by (auto simp: fun_eq_iff tget_tunion split: option.splits)
qed (rule assms)

lemma fold_sides:
  "fold (\<lambda>e s. set_side sd (tput (fst e) (snd e) (snap_side s sd)) s) es s = set_side sd (tunion (snap_side s sd) es) s"
proof (induction es arbitrary: s)
  case Nil
  show ?case by (cases sd) (simp_all add: tunion_def set_side_def snap_side_def)
next
  case (Cons e es)
  then show ?case by (cases sd; cases e) (simp_all add: tunion_def set_side_def snap_side_def)
qed

lemma fold_concat_map: "fold f (concat (map (\<lambda>x. map (g x) (h x)) xs)) s = fold (\<lambda>x. fold f (map (g x) (h x))) xs s"
  by (induction xs arbitrary: s) simp_all

lemma from_wire_common:
  assumes "\<And>n ps p. (n, ps) \<in> set t \<Longrightarrow> p \<in> set ps \<Longrightarrow> from_value (to_value (fst p)) = Some (fst p) \<and> pair_ok n p"
    and "\<And>u. parse_uuid (simple u) = Some u"
  shows "fold (wire_step from_value parse_uuid) (concat (map (\<lambda>(n, ps). map (wire_common to_value simple n) ps) t)) s = push_table t s"
proof -
  have "fold (wire_step from_value parse_uuid) (map (wire_common to_value simple n) ps) s = fold (push_common n) ps s"
    if "(n, ps) \<in> set t" for n ps s
    unfolding fold_map comp_def by (rule fold_cong [OF refl refl]) (use assms that in \<open>auto simp: fun_eq_iff wire_step_common\<close>)
  then have "\<forall>(n, ps)\<in>set t. \<forall>s. fold (wire_step from_value parse_uuid) (map (wire_common to_value simple n) ps) s = fold (push_common n) ps s"
    by blast
  then show ?thesis
    unfolding push_table_def by (induction t arbitrary: s) auto
qed

lemma from_wire_side:
  assumes "\<forall>e\<in>set es. from_value (to_value (snd e)) = Some (snd e)"
  shows "fold (wire_step from_value parse_uuid) (map (wire_side to_value sd) es) s = set_side sd (tunion (snap_side s sd) es) s"
proof -
  have "fold (wire_step from_value parse_uuid) (map (wire_side to_value sd) es) s =
      fold (\<lambda>e s. set_side sd (tput (fst e) (snd e) (snap_side s sd)) s) es s"
    unfolding fold_map comp_def by (rule fold_cong [OF refl refl]) (use assms in \<open>auto simp: fun_eq_iff wire_step_side\<close>)
  then show ?thesis by (simp add: fold_sides)
qed


section \<open>Samples\<close>

definition sample_key :: "value \<Rightarrow> string" where
  "sample_key v = (case v of VString s \<Rightarrow> s | _ \<Rightarrow> [])"

text \<open>Record 1 of A is linked with record 2 of B.\<close>

definition sample_links :: "string translator" where
  "sample_links sd u how = Inr (case sd of SideA \<Rightarrow> if u = 1 then Some 2 else None | SideB \<Rightarrow> if u = 2 then Some 1 else None)"

definition sample_record :: "(string \<times> value) list \<Rightarrow> MetaRecord" where
  "sample_record fs = \<lparr>mr_uuid = 1, mr_version = 0, mr_fields = map (\<lambda>(n, v). Field_new n v) fs\<rparr>"

definition sample_a :: MetaRecord where
  "sample_a = sample_record [(''tag'', VString ''x''), (''author'', VRef 1), (''mfr_size'', VInt 3)]"

definition sample_b :: MetaRecord where
  "sample_b = sample_record [(''tag'', VString ''y''), (''author'', VRef 2), (''mfr_size'', VInt 4)]"

definition sample_snapshot :: Snapshot where
  "sample_snapshot =
     \<lparr>common = [(''author'', [(VRef 1, VRef 2)])], side_a = [(''mfr_size'', VInt 3)], side_b = [(''mfr_size'', VInt 4)]\<rparr>"

lemma sample_next: "next_snapshot sample_key sample_links sample_a sample_b empty_snapshot = Inr sample_snapshot"
  by code_simp

theorem sync_detects_changes_witness:
  "decide_field sample_key sample_links ''author'' (values_of sample_key (sample_record [(''author'', VRef 3)]) ''author'')
     (values_of sample_key sample_b ''author'') sample_snapshot = Inr (Propagate SideA)"
proof -
  have "is_synced_field ''author''"
    and "agree sample_key sample_links ''author'' (values_of sample_key sample_a ''author'') (values_of sample_key sample_b ''author'') = Inr (Some [(VRef 1, VRef 2)])"
    and "agree sample_key sample_links ''author'' (values_of sample_key (sample_record [(''author'', VRef 3)]) ''author'') (values_of sample_key sample_b ''author'') = Inr None"
    and "\<not> values_eq (values_of sample_key (sample_record [(''author'', VRef 3)]) ''author'') (values_of sample_key sample_a ''author'')"
    and "values_eq (values_of sample_key sample_b ''author'') (values_of sample_key sample_b ''author'')"
    by code_simp+
  then show ?thesis using sync_detects_changes [OF sample_next, of "''author''" _ "sample_record [(''author'', VRef 3)]" sample_b] by simp
qed

theorem sync_keeps_disagreement_witness:
  "decide_field sample_key sample_links ''tag'' [VString ''x''] [VString ''y''] sample_snapshot =
   decide_field sample_key sample_links ''tag'' [VString ''x''] [VString ''y''] empty_snapshot"
proof (rule sync_keeps_disagreement [OF sample_next])
  show "is_synced_field ''tag''" by code_simp
  show "agree sample_key sample_links ''tag'' (values_of sample_key sample_a ''tag'') (values_of sample_key sample_b ''tag'') = Inr None"
    by code_simp
qed


theorem stamps_detect_changes_witness:
  "\<not> stamp_changed sample_a sample_snapshot SideA CONTENT_STAMP \<and> stamp_changed sample_b sample_snapshot SideA CONTENT_STAMP"
  using stamps_detect_changes [OF sample_next, of CONTENT_STAMP sample_a SideA]
    stamps_detect_changes [OF sample_next, of CONTENT_STAMP sample_b SideA]
  by (simp add: CONTENT_STAMP_def sample_a_def sample_b_def sample_record_def get_def Field_new_def Let_def option_value_eq_def)


end
