(* ===== verification/Query.thy ===== *)
theory Query
  imports Text "HOL-Library.Char_ord"
begin

text \<open>
  The query language (\<open>core/query.rs\<close>): its nodes, and ordered substring matching, with the greedy
  scan that a tree of paths resumes from a parent's progress. Lower-casing is Unicode's and stays
  an argument (\<open>lower\<close>).
\<close>

section \<open>Nodes\<close>

datatype Aspect = Raw | AValue | AParent | APath

datatype OsmMode = Direct | PathMode

datatype Query =
    QAnd "Query list"
  | QOr "Query list"
  | QNot Query
  | QIsPresent string Aspect
  | QIsAbsent string Aspect
  | QIsUnknown string
  | QEq string "value" Aspect
  | QNeq string "value" Aspect
  | QLt string "value" Aspect
  | QLte string "value" Aspect
  | QGt string "value" Aspect
  | QGte string "value" Aspect
  | QIn string "value list" Aspect
  | QFollows string FollowTarget
  | QFollowsTransitive string FollowTarget bool
  | QMatches string string Aspect
  | QOsm string "string list" OsmMode
  | QSameAs string Query
  | QUuidIn "uuid list"
and FollowTarget =
    FPath string
  | FCondition Query

fun in_operands :: "Query \<Rightarrow> Query list option" where
  "in_operands (QIn field values aspect) = Some (map (\<lambda>v. QEq field v aspect) values)"
| "in_operands _ = None"

section \<open>Ordered substring matching\<close>

text \<open>\<open>str::find\<close>: the first byte offset.\<close>

fun find_sub :: "string \<Rightarrow> string \<Rightarrow> nat option" where
  "find_sub needle [] = (if needle = [] then Some 0 else None)"
| "find_sub needle (c # cs) =
     (if take (length needle) (c # cs) = needle then Some 0 else map_option Suc (find_sub needle cs))"

record OsmProgress =
  matched :: nat
  osm_from :: nat

definition osm_start :: OsmProgress where
  "osm_start = \<lparr>matched = 0, osm_from = 0\<rparr>"

function osm_advance :: "string \<Rightarrow> string list \<Rightarrow> OsmProgress \<Rightarrow> OsmProgress" where
  "osm_advance haystack terms at =
     (if matched at < length terms
      then (let needle = terms ! matched at
            in case find_sub needle (drop (osm_from at) haystack) of
                 Some offset \<Rightarrow> osm_advance haystack terms \<lparr>matched = matched at + 1, osm_from = osm_from at + (offset + length needle)\<rparr>
               | None \<Rightarrow> at)
      else at)"
  by auto
termination by (relation "measure (\<lambda>(_, terms, at). length terms - matched at)") auto

declare osm_advance.simps [simp del]

definition osm_ordered_match :: "(string \<Rightarrow> string) \<Rightarrow> string \<Rightarrow> string list \<Rightarrow> bool" where
  "osm_ordered_match lower haystack terms \<longleftrightarrow>
     (let lowered = map lower terms in matched (osm_advance haystack lowered osm_start) = length lowered)"

text \<open>\<open>split_whitespace\<close>: the runs between white space, the empty ones dropped.\<close>

lemma strip_any_shorter: "strip_any ps s = Some t \<Longrightarrow> \<forall>p\<in>set ps. p \<noteq> [] \<Longrightarrow> length t < length s"
proof (induction ps)
  case (Cons p ps)
  show ?case
  proof (cases "strip_prefix p s")
    case (Some u)
    then have "take (length p) s = p" "t = drop (length p) s" using Cons(2) by (auto simp: strip_prefix_def split: if_splits)
    moreover have "p \<noteq> []" using Cons(3) by simp
    ultimately have "0 < length p" "0 < length s" by (auto dest: arg_cong [where f = length])
    then show ?thesis using \<open>t = _\<close> by simp
  qed (use Cons in auto)
qed simp

lemma white_nonempty: "\<forall>p\<in>set WHITE_SPACE. p \<noteq> []"
  by code_simp

function split_whitespace :: "string \<Rightarrow> string \<Rightarrow> string list" where
  "split_whitespace word s =
     (case strip_any WHITE_SPACE s of
        Some t \<Rightarrow> (if word = [] then [] else [word]) @ split_whitespace [] t
      | None \<Rightarrow> (case s of
                   [] \<Rightarrow> if word = [] then [] else [word]
                 | c # cs \<Rightarrow> split_whitespace (word @ [c]) cs))"
  by pat_completeness auto
termination
  by (relation "measure (\<lambda>(_, s). length s)") (auto dest: strip_any_shorter [OF _ white_nonempty])

declare split_whitespace.simps [simp del]

definition split_terms :: "string \<Rightarrow> string list" where
  "split_terms input = split_whitespace [] input"

section \<open>The greedy scan is right\<close>

text \<open>What matching means: the terms embed in the text in order, without overlap.\<close>

fun embeds :: "string list \<Rightarrow> string \<Rightarrow> bool" where
  "embeds [] h \<longleftrightarrow> True"
| "embeds (t # ts) h \<longleftrightarrow> (\<exists>a b. h = a @ t @ b \<and> embeds ts b)"

lemma find_sub_Some: "find_sub t h = Some i \<Longrightarrow> \<exists>a b. h = a @ t @ b \<and> length a = i"
proof (induction t h arbitrary: i rule: find_sub.induct)
  case (2 t c cs)
  show ?case
  proof (cases "take (length t) (c # cs) = t")
    case True
    then have "c # cs = [] @ t @ drop (length t) (c # cs)" by (metis append_Nil append_take_drop_id)
    then show ?thesis using 2(2) True by (metis find_sub.simps(2) list.size(3) option.inject)
  next
    case False
    then obtain j where j: "find_sub t cs = Some j" "i = Suc j" using 2(2) by (auto simp: map_option_case split: option.splits)
    then obtain a b where "cs = a @ t @ b" "length a = j" using 2(1) False by blast
    then show ?thesis using j(2) by (metis append_Cons length_Cons)
  qed
qed (auto split: if_splits)

lemma find_sub_least: "h = a @ t @ b \<Longrightarrow> \<exists>i. find_sub t h = Some i \<and> i \<le> length a"
proof (induction a arbitrary: h)
  case Nil
  then have "take (length t) h = t" "h = [] \<Longrightarrow> t = []" by simp_all
  then show ?case by (cases h) simp_all
next
  case (Cons c a)
  then obtain i where "find_sub t (a @ t @ b) = Some i" "i \<le> length a" by blast
  then show ?case using Cons(2) by auto
qed

lemma embeds_longer: "embeds ts b \<Longrightarrow> embeds ts (a @ b)"
  by (cases ts) (auto, metis append.assoc)

lemma embeds_greedy:
  "embeds (t # ts) h \<longleftrightarrow> (case find_sub t h of None \<Rightarrow> False | Some i \<Rightarrow> embeds ts (drop (i + length t) h))"
proof
  assume "embeds (t # ts) h"
  then obtain a b where h: "h = a @ t @ b" "embeds ts b" by auto
  obtain i where i: "find_sub t h = Some i" "i \<le> length a" using find_sub_least [OF h(1)] by blast
  have "drop (i + length t) h = drop (i + length t) (a @ t) @ b" using i(2) by (simp add: h(1) add.commute)
  then have "embeds ts (drop (i + length t) h)" using embeds_longer [OF h(2)] by (simp only:)
  then show "case find_sub t h of None \<Rightarrow> False | Some i \<Rightarrow> embeds ts (drop (i + length t) h)"
    using i by simp
next
  assume "case find_sub t h of None \<Rightarrow> False | Some i \<Rightarrow> embeds ts (drop (i + length t) h)"
  then obtain i where i: "find_sub t h = Some i" "embeds ts (drop (i + length t) h)" by (auto split: option.splits)
  obtain a b where "h = a @ t @ b" "length a = i" using find_sub_Some [OF i(1)] by blast
  then show "embeds (t # ts) h" using i(2) by auto
qed

lemma osm_advance_matched: "matched (osm_advance h ts at) = length ts \<longleftrightarrow> embeds (drop (matched at) ts) (drop (osm_from at) h)"
  if "matched at \<le> length ts"
  using that
proof (induction h ts at rule: osm_advance.induct)
  case (1 h ts at)
  show ?case
  proof (cases "matched at < length ts")
    case True
    then have d: "drop (matched at) ts = (ts ! matched at) # drop (Suc (matched at)) ts" by (simp add: Cons_nth_drop_Suc)
    show ?thesis
    proof (cases "find_sub (ts ! matched at) (drop (osm_from at) h)")
      case None
      then show ?thesis using True unfolding d embeds_greedy osm_advance.simps [of h ts at] by (simp add: Let_def)
    next
      case (Some i)
      then have "osm_advance h ts at = osm_advance h ts \<lparr>matched = matched at + 1, osm_from = osm_from at + (i + length (ts ! matched at))\<rparr>"
        using True by (simp add: osm_advance.simps [of h ts at])
      then show ?thesis using 1(1) [OF True refl Some] Some True unfolding d embeds_greedy by (simp add: add.commute add.left_commute)
    qed
  next
    case False
    then show ?thesis using 1(2) by (simp add: osm_advance.simps)
  qed
qed

text \<open>C21: The greedy scan decides ordered substring matching: a text matches when and only when the
  lower-cased terms embed in it in order and without overlap. Taking each term as early as possible
  never loses a match.\<close>

theorem osm_match_correct: "osm_ordered_match lower h terms \<longleftrightarrow> embeds (map lower terms) h"
  using osm_advance_matched [of osm_start "map lower terms" h] by (simp add: osm_ordered_match_def Let_def osm_start_def)

lemma find_sub_extend:
  "find_sub t h = Some i \<Longrightarrow> find_sub t (h @ x) = Some i"
proof (induction t h arbitrary: i rule: find_sub.induct)
  case (1 t)
  then show ?case by (cases x) (auto split: if_splits)
next
  case (2 t c cs)
  obtain a b where h: "c # cs = a @ t @ b" using find_sub_Some [OF 2(2)] by blast
  show ?case
  proof (cases "take (length t) (c # cs) = t")
    case True
    have "length t \<le> length (c # cs)" using arg_cong [OF h, of length] by simp
    then have "take (length t) ((c # cs) @ x) = t" using True unfolding take_append by simp
    then show ?thesis using True 2(2) by simp
  next
    case False
    then obtain j where j: "find_sub t cs = Some j" "i = Suc j" using 2(2) by (auto simp: map_option_case split: option.splits)
    obtain a' b' where cs: "cs = a' @ t @ b'" using find_sub_Some [OF j(1)] by blast
    then have "length t \<le> length (c # cs)" by simp
    then have "take (length t) ((c # cs) @ x) \<noteq> t" using False unfolding take_append by simp
    then show ?thesis using 2(1) [OF False j(1)] j(2) by simp
  qed
qed

lemma osm_advance_from: "osm_from at \<le> length h \<Longrightarrow> osm_from (osm_advance h ts at) \<le> length h"
proof (induction h ts at rule: osm_advance.induct)
  case (1 h ts at)
  show ?case
  proof (cases "matched at < length ts \<and> find_sub (ts ! matched at) (drop (osm_from at) h) \<noteq> None")
    case True
    then obtain i where i: "find_sub (ts ! matched at) (drop (osm_from at) h) = Some i" by auto
    obtain a b where h: "drop (osm_from at) h = a @ (ts ! matched at) @ b" "length a = i" using find_sub_Some [OF i] by blast
    have "osm_from at + (i + length (ts ! matched at)) \<le> length h" using arg_cong [OF h(1), of length] h(2) 1(2) by simp
    then show ?thesis using 1(1) [OF _ refl i] True i by (simp add: osm_advance.simps [of h ts at])
  next
    case False
    then show ?thesis using 1(2) by (subst osm_advance.simps) (auto simp: Let_def)
  qed
qed

text \<open>A scan resumes: what a prefix of a text consumed need not be scanned again, so the progress
  of a parent's path serves each path below it. Advancing over the longer text from the progress of
  the prefix gives what advancing over it from the start gives.\<close>

theorem osm_advance_resumes:
  assumes "osm_from at \<le> length h"
  shows "osm_advance (h @ x) ts (osm_advance h ts at) = osm_advance (h @ x) ts at"
  using assms
proof (induction h ts at rule: osm_advance.induct)
  case (1 h ts at)
  show ?case
  proof (cases "matched at < length ts \<and> find_sub (ts ! matched at) (drop (osm_from at) h) \<noteq> None")
    case True
    then obtain i where i: "find_sub (ts ! matched at) (drop (osm_from at) h) = Some i" by auto
    define at' where "at' = \<lparr>matched = matched at + 1, osm_from = osm_from at + (i + length (ts ! matched at))\<rparr>"
    obtain a b where h: "drop (osm_from at) h = a @ (ts ! matched at) @ b" "length a = i" using find_sub_Some [OF i] by blast
    have f: "osm_from at' \<le> length h" using arg_cong [OF h(1), of length] h(2) 1(2) by (simp add: at'_def)
    have "find_sub (ts ! matched at) (drop (osm_from at) (h @ x)) = Some i" using find_sub_extend [OF i, of x] 1(2) by simp
    then have "osm_advance (h @ x) ts at = osm_advance (h @ x) ts at'" using True
      by (simp add: osm_advance.simps [of "h @ x" ts at] at'_def)
    moreover have "osm_advance h ts at = osm_advance h ts at'" using True i by (simp add: osm_advance.simps [of h ts at] at'_def)
    ultimately show ?thesis using 1(1) [OF _ refl i] True f by (simp add: at'_def)
  next
    case False
    then have "osm_advance h ts at = at" by (subst osm_advance.simps) (auto simp: Let_def)
    then show ?thesis by simp
  qed
qed

theorem osm_advance_resumes_witness:
  "osm_advance (''a/b'' @ ''/c'') [''a'', ''c''] (osm_advance ''a/b'' [''a'', ''c''] osm_start) =
   osm_advance (''a/b'' @ ''/c'') [''a'', ''c''] osm_start"
  by (rule osm_advance_resumes) (simp add: osm_start_def)

end
