(* ===== verification/Query_Validate.thy ===== *)
theory Query_Validate
  imports Query
begin

text \<open>
  The rejections of a query before anything evaluates it (\<open>daemon/query_validate.rs\<close>): its size, the
  comparisons with no meaning, and the shapes that depend on what a field holds. An error message is
  a constructor of \<open>query_error\<close> with the values the message shows. The regex crate's compiler is an
  argument: the predicate a pattern compiles to, or nothing when it is refused.
\<close>

section \<open>Errors\<close>

datatype ReadKind = Equality | Ordered | Regex

datatype query_error =
    TooManyNodes nat
  | TooWide nat
  | EmptyCombinator
  | NothingCompared
  | NotOrdered string
  | BadPattern string
  | AspectNeedsTree Aspect string string
  | ParentRead ReadKind string
  | RawTreeRead ReadKind string
  | PathOperand string
  | OsmPathNeedsTree string string
  | InvalidCursor
  | ForeignCursor
  | CursorNeedsLimit

text \<open>\<open>try_for_each\<close>: the first failure of a list, in order.\<close>

fun checkAllE :: "('a \<Rightarrow> 'e + unit) \<Rightarrow> 'a list \<Rightarrow> 'e + unit" where
  "checkAllE f [] = Inr ()"
| "checkAllE f (x # xs) = bindE (f x) (\<lambda>_. checkAllE f xs)"

lemma checkAllE_cong [fundef_cong]:
  "xs = ys \<Longrightarrow> (\<And>x. x \<in> set ys \<Longrightarrow> f x = g x) \<Longrightarrow> checkAllE f xs = checkAllE g ys"
  by (induction ys arbitrary: xs) auto

lemma checkAllE_ok: "checkAllE f xs = Inr u \<longleftrightarrow> (\<forall>x\<in>set xs. f x = Inr ())"
  by (induction xs) (auto simp: bindE_eq_Inr)

section \<open>Size\<close>

definition MAX_QUERY_NODES :: nat where
  "MAX_QUERY_NODES = 2000"

definition MAX_COMBINATOR_OPERANDS :: nat where
  "MAX_COMBINATOR_OPERANDS = 200"

fun node_count :: "Query \<Rightarrow> nat" where
  "node_count (QAnd qs) = 1 + sum_list (map node_count qs)"
| "node_count (QOr qs) = 1 + sum_list (map node_count qs)"
| "node_count (QNot q) = 1 + node_count q"
| "node_count (QFollows _ (FCondition c)) = 1 + node_count c"
| "node_count (QFollowsTransitive _ (FCondition c) _) = 1 + node_count c"
| "node_count (QSameAs _ q) = 1 + node_count q"
| "node_count _ = 1"

fun widest_combinator :: "Query \<Rightarrow> nat" where
  "widest_combinator (QAnd qs) = fold max (map widest_combinator qs) (length qs)"
| "widest_combinator (QOr qs) = fold max (map widest_combinator qs) (length qs)"
| "widest_combinator (QNot q) = max 0 (widest_combinator q)"
| "widest_combinator (QFollows _ (FCondition c)) = max 0 (widest_combinator c)"
| "widest_combinator (QFollowsTransitive _ (FCondition c) _) = max 0 (widest_combinator c)"
| "widest_combinator (QSameAs _ q) = max 0 (widest_combinator q)"
| "widest_combinator _ = 0"

definition check_query_size :: "Query \<Rightarrow> query_error + unit" where
  "check_query_size q =
     (if node_count q > MAX_QUERY_NODES then Inl (TooManyNodes (node_count q))
      else if widest_combinator q > MAX_COMBINATOR_OPERANDS then Inl (TooWide (widest_combinator q))
      else Inr ())"

section \<open>Comparisons\<close>

fun unordered_value :: "value \<Rightarrow> bool" where
  "unordered_value (VBool _) = True"
| "unordered_value (VRef _) = True"
| "unordered_value (VRefBase _) = True"
| "unordered_value (VTreeRef _ _) = True"
| "unordered_value (VHierarchyRef _ _) = True"
| "unordered_value (VExternalRef _ _) = True"
| "unordered_value _ = False"

definition validate_comparison :: "value \<Rightarrow> bool \<Rightarrow> query_error + unit" where
  "validate_comparison v is_ordered =
     (if v = Nothing then Inl NothingCompared
      else if is_ordered \<and> unordered_value v then Inl (NotOrdered (type_str v))
      else Inr ())"

fun validate_query :: "(string \<Rightarrow> (string \<Rightarrow> bool) option) \<Rightarrow> Query \<Rightarrow> query_error + unit" where
  "validate_query compile (QEq _ v _) = validate_comparison v False"
| "validate_query compile (QNeq _ v _) = validate_comparison v False"
| "validate_query compile (QIn _ vs _) = checkAllE (\<lambda>v. validate_comparison v False) vs"
| "validate_query compile (QLt _ v _) = validate_comparison v True"
| "validate_query compile (QLte _ v _) = validate_comparison v True"
| "validate_query compile (QGt _ v _) = validate_comparison v True"
| "validate_query compile (QGte _ v _) = validate_comparison v True"
| "validate_query compile (QAnd qs) =
     (if qs = [] then Inl EmptyCombinator else checkAllE (validate_query compile) qs)"
| "validate_query compile (QOr qs) =
     (if qs = [] then Inl EmptyCombinator else checkAllE (validate_query compile) qs)"
| "validate_query compile (QNot q) = validate_query compile q"
| "validate_query compile (QFollows _ (FCondition c)) = validate_query compile c"
| "validate_query compile (QFollowsTransitive _ (FCondition c) _) = validate_query compile c"
| "validate_query compile (QSameAs _ q) = validate_query compile q"
| "validate_query compile (QMatches _ pattern _) =
     (case compile pattern of Some _ \<Rightarrow> Inr () | None \<Rightarrow> Inl (BadPattern pattern))"
| "validate_query compile _ = Inr ()"

section \<open>What a field holds\<close>

definition other_type :: "string \<Rightarrow> (string \<Rightarrow> string option) \<Rightarrow> string option" where
  "other_type field type_of =
     (case type_of field of Some t \<Rightarrow> if \<not> is_position_type t then Some t else None | None \<Rightarrow> None)"

definition check_aspect :: "string \<Rightarrow> Aspect \<Rightarrow> ReadKind \<Rightarrow> (string \<Rightarrow> string option) \<Rightarrow> query_error + unit" where
  "check_aspect field aspect kind type_of =
     (let is_tree = (case type_of field of Some t \<Rightarrow> is_position_type t | None \<Rightarrow> False)
      in if (aspect = AParent \<or> aspect = APath) \<and> \<not> is_tree
         then (case other_type field type_of of
                 Some t \<Rightarrow> Inl (AspectNeedsTree aspect field t)
               | None \<Rightarrow> Inr ())
         else if aspect = AParent \<and> kind \<noteq> Equality then Inl (ParentRead kind field)
         else if aspect = Raw \<and> is_tree \<and> kind \<noteq> Equality then Inl (RawTreeRead kind field)
         else Inr ())"

definition check_operand :: "Aspect \<Rightarrow> value \<Rightarrow> query_error + unit" where
  "check_operand aspect v =
     (if aspect = APath \<and> (case v of VString _ \<Rightarrow> False | _ \<Rightarrow> True) then Inl (PathOperand (type_str v)) else Inr ())"

fun validate_query_types :: "(string \<Rightarrow> string option) \<Rightarrow> Query \<Rightarrow> query_error + unit" where
  "validate_query_types type_of (QIsPresent field aspect) = check_aspect field aspect Equality type_of"
| "validate_query_types type_of (QIsAbsent field aspect) = check_aspect field aspect Equality type_of"
| "validate_query_types type_of (QEq field v aspect) =
     bindE (check_aspect field aspect Equality type_of) (\<lambda>_. check_operand aspect v)"
| "validate_query_types type_of (QNeq field v aspect) =
     bindE (check_aspect field aspect Equality type_of) (\<lambda>_. check_operand aspect v)"
| "validate_query_types type_of (QIn field vs aspect) =
     bindE (check_aspect field aspect Equality type_of) (\<lambda>_. checkAllE (check_operand aspect) vs)"
| "validate_query_types type_of (QLt field v aspect) =
     bindE (check_aspect field aspect Ordered type_of) (\<lambda>_. check_operand aspect v)"
| "validate_query_types type_of (QLte field v aspect) =
     bindE (check_aspect field aspect Ordered type_of) (\<lambda>_. check_operand aspect v)"
| "validate_query_types type_of (QGt field v aspect) =
     bindE (check_aspect field aspect Ordered type_of) (\<lambda>_. check_operand aspect v)"
| "validate_query_types type_of (QGte field v aspect) =
     bindE (check_aspect field aspect Ordered type_of) (\<lambda>_. check_operand aspect v)"
| "validate_query_types type_of (QMatches field _ aspect) = check_aspect field aspect Regex type_of"
| "validate_query_types type_of (QOsm field _ PathMode) =
     (case other_type field type_of of Some t \<Rightarrow> Inl (OsmPathNeedsTree field t) | None \<Rightarrow> Inr ())"
| "validate_query_types type_of (QOsm _ _ Direct) = Inr ()"
| "validate_query_types type_of (QIsUnknown _) = Inr ()"
| "validate_query_types type_of (QUuidIn _) = Inr ()"
| "validate_query_types type_of (QAnd qs) = checkAllE (validate_query_types type_of) qs"
| "validate_query_types type_of (QOr qs) = checkAllE (validate_query_types type_of) qs"
| "validate_query_types type_of (QNot q) = validate_query_types type_of q"
| "validate_query_types type_of (QSameAs _ q) = validate_query_types type_of q"
| "validate_query_types type_of (QFollows _ (FCondition c)) = validate_query_types type_of c"
| "validate_query_types type_of (QFollows _ (FPath _)) = Inr ()"
| "validate_query_types type_of (QFollowsTransitive _ (FCondition c) _) = validate_query_types type_of c"
| "validate_query_types type_of (QFollowsTransitive _ (FPath _) _) = Inr ()"

section \<open>Lemmas\<close>

lemma fold_max_ge: "b \<le> fold max xs b \<and> (\<forall>x\<in>set xs. x \<le> fold max xs (b::nat))"
proof (induction xs arbitrary: b)
  case (Cons x xs)
  have "max x b \<le> fold max xs (max x b)" "\<forall>y\<in>set xs. y \<le> fold max xs (max x b)" using Cons [of "max x b"] by auto
  then show ?case by simp
qed simp

text \<open>A query narrow enough is narrow in every operand.\<close>

lemma widest_operands:
  "widest_combinator (QAnd qs) \<le> n \<Longrightarrow> length qs \<le> n \<and> (\<forall>q\<in>set qs. widest_combinator q \<le> n)"
  "widest_combinator (QOr qs) \<le> n \<Longrightarrow> length qs \<le> n \<and> (\<forall>q\<in>set qs. widest_combinator q \<le> n)"
  using fold_max_ge [of "length qs" "map widest_combinator qs"] by auto

end
