(* ===== verification/Float.thy ===== *)
theory Float
  imports Metarecord
begin

text \<open>
  The arithmetic of \<open>f64\<close> the queries use: the order of two floats by their bits, and the conversion
  of an \<open>i64\<close>, which rounds to the nearest float and to the even one of two.
\<close>

datatype Ordering = Less | Equal | Greater

definition cmp :: "'a::linorder \<Rightarrow> 'a \<Rightarrow> Ordering" where
  "cmp x y = (if x < y then Less else if x = y then Equal else Greater)"

fun reverse :: "Ordering \<Rightarrow> Ordering" where
  "reverse Less = Greater"
| "reverse Equal = Equal"
| "reverse Greater = Less"

text \<open>The place of a float in the order: its magnitude bits, negated under a sign bit.\<close>

definition f64_rank :: "f64 \<Rightarrow> int" where
  "f64_rank x = (if f64_neg x then - int (f64_mag x) else int (f64_mag x))"

definition f64_partial_cmp :: "f64 \<Rightarrow> f64 \<Rightarrow> Ordering option" where
  "f64_partial_cmp x y = (if f64_nan x \<or> f64_nan y then None else Some (cmp (f64_rank x) (f64_rank y)))"

text \<open>How many bits a natural number takes.\<close>

function bit_count :: "int \<Rightarrow> nat" where
  "bit_count n = (if n \<le> 0 then 0 else Suc (bit_count (n div 2)))"
  by auto
termination by (relation "measure nat") auto

declare bit_count.simps [simp del]

definition round_even :: "int \<Rightarrow> nat \<Rightarrow> int" where
  "round_even m k =
     (let q = m div 2 ^ k; r = m mod 2 ^ k
      in if 2 * r > 2 ^ k \<or> (2 * r = 2 ^ k \<and> odd q) then q + 1 else q)"

text \<open>The bits of the float nearest to a natural number: a carry of the rounding goes into the exponent.\<close>

definition f64_of_int :: "int \<Rightarrow> int" where
  "f64_of_int m =
     (if m = 0 then 0
      else (let b = bit_count m
            in (int b + 1021) * 2 ^ 52 + (if b \<le> 53 then m * 2 ^ (53 - b) else round_even m (b - 53))))"

definition i64_as_f64 :: "i64 \<Rightarrow> f64" where
  "i64_as_f64 n =
     (if sint n < 0 then of_int (2 ^ 63 + f64_of_int (- sint n)) else of_int (f64_of_int (sint n)))"

lemma cmp_Equal [simp]: "cmp x y = Equal \<longleftrightarrow> x = y"
  by (auto simp: cmp_def)

lemma cmp_Less [simp]: "cmp x y = Less \<longleftrightarrow> x < y"
  by (auto simp: cmp_def)

lemma cmp_Greater [simp]: "cmp x y = Greater \<longleftrightarrow> y < x"
  by (auto simp: cmp_def)

end
