(* ===== verification/Oracle.thy ===== *)
theory Oracle
  imports Query_Validate Float Writer
begin

text \<open>
  The query oracle (\<open>query-oracle/src/lib.rs\<close>), the reference semantics of the query language: a
  query is answered by reading every row. A \<open>BTreeSet\<close> of uuids is a set; the hash maps of a forest
  are the functions that filter its positions. A pattern is compiled by the regex crate (\<open>compile\<close>,
  \<open>escape\<close>) and text lower-cased by Unicode's rules (\<open>lower\<close>); the three are a record of arguments.
\<close>

record text_lib =
  compile :: "string \<Rightarrow> (string \<Rightarrow> bool) option"
  escape :: "string \<Rightarrow> string"
  lower :: "string \<Rightarrow> string"

section \<open>Data\<close>

record Data =
  d_universe :: "uuid set"
  d_rows :: "string \<Rightarrow> (uuid \<times> FieldRow) list"

definition read_data :: "uuid list \<Rightarrow> (uuid \<times> FieldRow) list \<Rightarrow> Data" where
  "read_data us rows =
     \<lparr>d_universe = set us,
      d_rows = (\<lambda>f. sort_key (\<lambda>(_, r). row_id r) (filter (\<lambda>(_, r). row_name r = f) rows))\<rparr>"

definition holders :: "Data \<Rightarrow> string \<Rightarrow> (uuid \<Rightarrow> value \<Rightarrow> bool) \<Rightarrow> uuid set" where
  "holders d field pred = set (map fst (filter (\<lambda>(u, r). pred u (row_value r)) (d_rows d field)))"

fun stored_type_of :: "string option \<Rightarrow> (uuid \<times> FieldRow) list \<Rightarrow> string option" where
  "stored_type_of other [] = other"
| "stored_type_of other ((_, row) # rows) =
     (if position (row_value row) \<noteq> None then Some (type_str (row_value row))
      else if row_value row = Nothing then stored_type_of other rows
      else stored_type_of (Some (type_str (row_value row))) rows)"

definition data_type :: "Data \<Rightarrow> string \<Rightarrow> string option" where
  "data_type d field = stored_type_of None (d_rows d field)"

section \<open>Forests\<close>

type_synonym positions = "(uuid \<times> uuid option \<times> bytes) list"

fun positions_of :: "(uuid \<times> FieldRow) list \<Rightarrow> positions" where
  "positions_of [] = []"
| "positions_of ((u, row) # rows) =
     (case position (row_value row) of
        Some (parent, name) \<Rightarrow> (u, parent, name) # positions_of rows
      | None \<Rightarrow> positions_of rows)"

definition forest :: "Data \<Rightarrow> string \<Rightarrow> positions" where
  "forest d field = positions_of (d_rows d field)"

definition forest_nodes :: "positions \<Rightarrow> uuid set" where
  "forest_nodes ps = set (map fst ps)"

definition first_position :: "positions \<Rightarrow> uuid \<Rightarrow> (uuid option \<times> bytes) option" where
  "first_position ps u = map_of ps u"

definition positions_at :: "positions \<Rightarrow> uuid \<Rightarrow> (uuid option \<times> bytes) list" where
  "positions_at ps u = map snd (filter (\<lambda>p. fst p = u) ps)"

definition children :: "positions \<Rightarrow> uuid option \<Rightarrow> (uuid \<times> bytes) list" where
  "children ps parent = map (\<lambda>(u, _, n). (u, n)) (filter (\<lambda>(_, p, _). p = parent) ps)"

definition readings :: "string \<Rightarrow> bytes list" where
  "readings c = c # (case escaped_to_bytes c of Some b \<Rightarrow> [b] | None \<Rightarrow> [])"

fun resolve_from :: "positions \<Rightarrow> uuid option \<Rightarrow> string list \<Rightarrow> uuid option" where
  "resolve_from ps cur [] = cur"
| "resolve_from ps cur (c # cs) =
     (case remdups (map fst (filter (\<lambda>(_, n). n \<in> set (readings c)) (children ps cur))) of
        [u] \<Rightarrow> resolve_from ps (Some u) cs
      | _ \<Rightarrow> None)"

definition resolve :: "positions \<Rightarrow> string \<Rightarrow> uuid option" where
  "resolve ps path =
     (let split = split_on CHR ''/'' path
      in resolve_from ps None (hd split # filter (\<lambda>c. c \<noteq> []) (tl split)))"

text \<open>\<open>fuel\<close> is what the depth leaves of \<open>MAX_TREE_DEPTH\<close>.\<close>

fun paths_within :: "nat \<Rightarrow> positions \<Rightarrow> uuid \<Rightarrow> string list" where
  "paths_within 0 ps node = []"
| "paths_within (Suc fuel) ps node =
     concat (map (\<lambda>(parent, name).
       case parent of
         None \<Rightarrow> [display name]
       | Some p \<Rightarrow> map (\<lambda>pp. pp @ ''/'' @ display name) (paths_within fuel ps p)) (positions_at ps node))"

definition paths_of :: "positions \<Rightarrow> uuid \<Rightarrow> string list" where
  "paths_of ps node = paths_within MAX_TREE_DEPTH ps node"

definition nodes_whose_path :: "positions \<Rightarrow> (string \<Rightarrow> bool) \<Rightarrow> uuid set" where
  "nodes_whose_path ps pred = set (filter (\<lambda>n. list_ex pred (paths_of ps n)) (map fst ps))"

text \<open>The loop of \<open>descendants\<close>: the set found and the stack, its top first.\<close>

fun push_new :: "uuid list \<Rightarrow> uuid set \<times> uuid list \<Rightarrow> uuid set \<times> uuid list" where
  "push_new [] st = st"
| "push_new (c # cs) (out, frontier) =
     (if c \<in> out then push_new cs (out, frontier) else push_new cs (insert c out, c # frontier))"

lemma push_new_out: "fst (push_new cs (out, fr)) = out \<union> set cs"
  by (induction cs arbitrary: out fr) auto

lemma push_new_frontier: "set (snd (push_new cs (out, fr))) = set fr \<union> (set cs - out)"
  by (induction cs arbitrary: out fr) auto

lemma push_new_same: "set cs \<subseteq> out \<Longrightarrow> push_new cs (out, fr) = (out, fr)"
  by (induction cs) auto

lemma children_nodes: "set (map fst (children ps p)) \<subseteq> forest_nodes ps"
  by (force simp: children_def forest_nodes_def)

function descend :: "positions \<Rightarrow> uuid set \<Rightarrow> uuid list \<Rightarrow> uuid set" where
  "descend ps out [] = out"
| "descend ps out (node # frontier) =
     (let st = push_new (map fst (children ps (Some node))) (out, frontier)
      in descend ps (fst st) (snd st))"
  by pat_completeness auto
termination
proof (relation "inv_image (less_than <*lex*> less_than) (\<lambda>(ps, out, fr). (card (forest_nodes ps - out), length fr))", goal_cases)
  case 1
  then show ?case by auto
next
  case (2 ps out node fr st)
  let ?cs = "map fst (children ps (Some node))"
  show ?case
  proof (cases "set ?cs \<subseteq> out")
    case True
    then show ?thesis using 2 by (simp add: push_new_same del: set_map)
  next
    case False
    then have "forest_nodes ps - (out \<union> set ?cs) \<subset> forest_nodes ps - out" using children_nodes [of ps "Some node"] by blast
    then have "card (forest_nodes ps - (out \<union> set ?cs)) < card (forest_nodes ps - out)"
      by (rule psubset_card_mono [rotated]) (simp add: forest_nodes_def)
    then show ?thesis unfolding 2 by (simp add: push_new_out del: set_map)
  qed
qed

definition descendants :: "positions \<Rightarrow> uuid \<Rightarrow> uuid set" where
  "descendants ps root = descend ps {} [root]"

definition PATH_KEY_SEP :: char where
  "PATH_KEY_SEP = CHR 0x01"

fun key_chain :: "nat \<Rightarrow> positions \<Rightarrow> uuid option \<Rightarrow> string list" where
  "key_chain 0 ps cur = []"
| "key_chain (Suc fuel) ps cur =
     (case cur of
        None \<Rightarrow> []
      | Some p \<Rightarrow> (case first_position ps p of
                     None \<Rightarrow> []
                   | Some (pp, pname) \<Rightarrow> display pname # key_chain fuel ps pp))"

definition join_with :: "string \<Rightarrow> string list \<Rightarrow> string" where
  "join_with sep xs = (case xs of [] \<Rightarrow> [] | x # rest \<Rightarrow> x @ concat (map (\<lambda>y. sep @ y) rest))"

definition forest_sort_key :: "positions \<Rightarrow> uuid option \<Rightarrow> bytes \<Rightarrow> string" where
  "forest_sort_key ps parent name =
     join_with [PATH_KEY_SEP] (rev (display name # key_chain MAX_TREE_DEPTH ps parent))"

section \<open>Comparisons\<close>

datatype CmpOp = CEq | CLt | CLte | CGt | CGte

definition cmp_holds :: "CmpOp \<Rightarrow> Ordering option \<Rightarrow> bool" where
  "cmp_holds op ord =
     (case ord of
        None \<Rightarrow> False
      | Some ord \<Rightarrow>
          (case op of
             CEq \<Rightarrow> ord = Equal
           | CLt \<Rightarrow> ord = Less
           | CLte \<Rightarrow> ord \<noteq> Greater
           | CGt \<Rightarrow> ord = Greater
           | CGte \<Rightarrow> ord \<noteq> Less))"

definition is_ordered :: "CmpOp \<Rightarrow> bool" where
  "is_ordered op \<longleftrightarrow> op \<noteq> CEq"

definition presence :: "Data \<Rightarrow> string \<Rightarrow> Aspect \<Rightarrow> bool \<Rightarrow> uuid set" where
  "presence d field aspect present =
     (if aspect = AParent
      then holders d field (\<lambda>_ v. case position v of Some (parent, _) \<Rightarrow> (parent \<noteq> None) = present | None \<Rightarrow> False)
      else holders d field (\<lambda>_ v. (v = Nothing) \<noteq> present))"

definition path_operand :: "value \<Rightarrow> query_error + string" where
  "path_operand v = (case v of VString s \<Rightarrow> Inr s | _ \<Rightarrow> Inl (PathOperand (type_str v)))"

definition text_of :: "value \<Rightarrow> string option" where
  "text_of v = (case v of VString s \<Rightarrow> Some s | _ \<Rightarrow> map_option (\<lambda>(_, name). display name) (position v))"

definition number_of :: "value \<Rightarrow> f64 option" where
  "number_of v = (case v of VInt n \<Rightarrow> Some (i64_as_f64 n) | VFloat f \<Rightarrow> Some f | _ \<Rightarrow> None)"

definition number_pred :: "CmpOp \<Rightarrow> f64 \<Rightarrow> value \<Rightarrow> bool" where
  "number_pred op x v = (case number_of v of Some y \<Rightarrow> cmp_holds op (f64_partial_cmp y x) | None \<Rightarrow> False)"

definition string_pred :: "Data \<Rightarrow> string \<Rightarrow> string \<Rightarrow> CmpOp \<Rightarrow> Aspect \<Rightarrow> uuid \<Rightarrow> value \<Rightarrow> bool" where
  "string_pred d field text op aspect =
     (if aspect = AParent
      then (let node = resolve (forest d field) text
            in (\<lambda>_ v. case (position v, node) of (Some (Some p, _), Some n) \<Rightarrow> p = n | _ \<Rightarrow> False))
      else if aspect = Raw \<and> op = CEq
      then (let node = resolve (forest d field) text
            in (\<lambda>owner v. case v of VString s \<Rightarrow> s = text | _ \<Rightarrow> position v \<noteq> None \<and> Some owner = node))
      else (\<lambda>_ v. case text_of v of Some t \<Rightarrow> cmp_holds op (Some (cmp t text)) | None \<Rightarrow> False))"

definition position_pred :: "value \<Rightarrow> uuid option \<Rightarrow> bytes \<Rightarrow> value \<Rightarrow> bool" where
  "position_pred value parent name v =
     (case position v of
        Some (p, n) \<Rightarrow> type_str v = type_str value \<and> p = parent \<and> display n = display name
      | None \<Rightarrow> False)"

definition equality_only :: "value \<Rightarrow> CmpOp \<Rightarrow> (uuid \<Rightarrow> value \<Rightarrow> bool) \<Rightarrow> query_error + (uuid \<Rightarrow> value \<Rightarrow> bool)" where
  "equality_only value op pred = (if is_ordered op then Inl (NotOrdered (type_str value)) else Inr pred)"

definition row_predicate :: "Data \<Rightarrow> string \<Rightarrow> value \<Rightarrow> CmpOp \<Rightarrow> Aspect \<Rightarrow> query_error + (uuid \<Rightarrow> value \<Rightarrow> bool)" where
  "row_predicate d field value op aspect =
     (case value of
        Nothing \<Rightarrow> Inl NothingCompared
      | VInt n \<Rightarrow> Inr (\<lambda>_. number_pred op (i64_as_f64 n))
      | VFloat f \<Rightarrow> Inr (\<lambda>_. number_pred op f)
      | VString text \<Rightarrow> Inr (string_pred d field text op aspect)
      | VDateTime ms \<Rightarrow> Inr (\<lambda>_ v. case v of VDateTime x \<Rightarrow> cmp_holds op (Some (cmp (sint x) (sint ms))) | _ \<Rightarrow> False)
      | VBool b \<Rightarrow> equality_only value op (\<lambda>_ v. v = VBool b)
      | VRef u \<Rightarrow> equality_only value op (\<lambda>_ v. v = VRef u)
      | VRefBase u \<Rightarrow> equality_only value op (\<lambda>_ v. v = VRefBase u)
      | VTreeRef parent name \<Rightarrow> equality_only value op (\<lambda>_. position_pred value parent name)
      | VHierarchyRef parent name \<Rightarrow> equality_only value op (\<lambda>_. position_pred value parent name)
      | VExternalRef repo m \<Rightarrow> equality_only value op (\<lambda>_ v. v = VExternalRef repo m))"

definition comparison :: "Data \<Rightarrow> string \<Rightarrow> value \<Rightarrow> CmpOp \<Rightarrow> Aspect \<Rightarrow> query_error + uuid set" where
  "comparison d field value op aspect =
     (if aspect = APath
      then bindE (path_operand value) (\<lambda>operand. Inr (nodes_whose_path (forest d field) (\<lambda>p. cmp_holds op (Some (cmp p operand)))))
      else bindE (row_predicate d field value op aspect) (\<lambda>pred. Inr (holders d field pred)))"

definition differs :: "Data \<Rightarrow> string \<Rightarrow> value \<Rightarrow> Aspect \<Rightarrow> query_error + uuid set" where
  "differs d field value aspect =
     (if aspect = APath
      then bindE (path_operand value) (\<lambda>operand. Inr (nodes_whose_path (forest d field) (\<lambda>p. p \<noteq> operand)))
      else bindE (row_predicate d field value CEq aspect) (\<lambda>pred. Inr (holders d field (\<lambda>u v. v \<noteq> Nothing \<and> \<not> pred u v))))"

definition same_value :: "value \<Rightarrow> value \<Rightarrow> bool" where
  "same_value a b = value_eq a b"

definition osm_regex :: "text_lib \<Rightarrow> string list \<Rightarrow> string" where
  "osm_regex lib ts = ''(?i)'' @ join_with ''.*'' (map (escape lib) ts)"

definition osm_path :: "text_lib \<Rightarrow> Data \<Rightarrow> string \<Rightarrow> string list \<Rightarrow> uuid set" where
  "osm_path lib d field ts =
     (if ts = [] then forest_nodes (forest d field)
      else nodes_whose_path (forest d field) (\<lambda>p. osm_ordered_match (lower lib) (lower lib p) ts))"

definition regex_of :: "text_lib \<Rightarrow> string \<Rightarrow> query_error + (string \<Rightarrow> bool)" where
  "regex_of lib pattern = optE (compile lib pattern) (BadPattern pattern)"

definition text_matches :: "(string \<Rightarrow> bool) \<Rightarrow> value \<Rightarrow> bool" where
  "text_matches re v = (case text_of v of Some t \<Rightarrow> re t | None \<Rightarrow> False)"

section \<open>Evaluation\<close>

fun mapE :: "('a \<Rightarrow> 'e + 'b) \<Rightarrow> 'a list \<Rightarrow> 'e + 'b list" where
  "mapE f [] = Inr []"
| "mapE f (x # xs) = bindE (f x) (\<lambda>y. bindE (mapE f xs) (\<lambda>ys. Inr (y # ys)))"

lemma mapE_cong [fundef_cong]:
  "xs = ys \<Longrightarrow> (\<And>x. x \<in> set ys \<Longrightarrow> f x = g x) \<Longrightarrow> mapE f xs = mapE g ys"
  by (induction ys arbitrary: xs) auto

definition combine :: "(uuid set \<Rightarrow> uuid set \<Rightarrow> uuid set) \<Rightarrow> uuid set list \<Rightarrow> uuid set" where
  "combine f sets = fold (\<lambda>s acc. f acc s) (tl sets) (hd sets)"

definition ref_target :: "value \<Rightarrow> uuid option" where
  "ref_target v = (case v of VRef t \<Rightarrow> Some t | _ \<Rightarrow> Option.bind (position v) fst)"

definition below :: "Data \<Rightarrow> string \<Rightarrow> bool \<Rightarrow> uuid set \<Rightarrow> uuid set" where
  "below d field inclusive roots =
     (let ps = forest d field
      in (if inclusive \<and> ps \<noteq> [] then roots else {}) \<union> (\<Union>root\<in>roots. descendants ps root))"

fun eval :: "text_lib \<Rightarrow> Data \<Rightarrow> Query \<Rightarrow> query_error + uuid set" where
  "eval lib d (QIsPresent field aspect) = Inr (presence d field aspect True)"
| "eval lib d (QIsAbsent field aspect) = Inr (presence d field aspect False)"
| "eval lib d (QIsUnknown field) = Inr (d_universe d - holders d field (\<lambda>_ _. True))"
| "eval lib d (QEq field v aspect) = comparison d field v CEq aspect"
| "eval lib d (QLt field v aspect) = comparison d field v CLt aspect"
| "eval lib d (QLte field v aspect) = comparison d field v CLte aspect"
| "eval lib d (QGt field v aspect) = comparison d field v CGt aspect"
| "eval lib d (QGte field v aspect) = comparison d field v CGte aspect"
| "eval lib d (QNeq field v aspect) = differs d field v aspect"
| "eval lib d (QAnd qs) =
     (if qs = [] then Inl EmptyCombinator
      else if length qs > MAX_COMBINATOR_OPERANDS then Inl (TooWide (length qs))
      else bindE (mapE (eval lib d) qs) (\<lambda>sets. Inr (combine (\<inter>) sets)))"
| "eval lib d (QOr qs) =
     (if qs = [] then Inl EmptyCombinator
      else if length qs > MAX_COMBINATOR_OPERANDS then Inl (TooWide (length qs))
      else bindE (mapE (eval lib d) qs) (\<lambda>sets. Inr (combine (\<union>) sets)))"
| "eval lib d (QNot q) = bindE (eval lib d q) (\<lambda>sub. Inr (d_universe d - sub))"
| "eval lib d (QMatches field pattern aspect) =
     bindE (regex_of lib pattern) (\<lambda>re.
       Inr (if aspect = APath then nodes_whose_path (forest d field) re else holders d field (\<lambda>_. text_matches re)))"
| "eval lib d (QOsm field ts Direct) =
     bindE (regex_of lib (osm_regex lib ts)) (\<lambda>re. Inr (holders d field (\<lambda>_. text_matches re)))"
| "eval lib d (QOsm field ts PathMode) = Inr (osm_path lib d field ts)"
| "eval lib d (QSameAs field q) =
     bindE (eval lib d q) (\<lambda>targets.
       let wanted = map (\<lambda>(_, r). row_value r) (filter (\<lambda>(u, r). u \<in> targets \<and> row_value r \<noteq> Nothing) (d_rows d field))
       in Inr (holders d field (\<lambda>_ v. v \<noteq> Nothing \<and> list_ex (same_value v) wanted)))"
| "eval lib d (QFollows field (FCondition c)) =
     bindE (eval lib d c) (\<lambda>targets.
       Inr (holders d field (\<lambda>_ v. case ref_target v of Some t \<Rightarrow> t \<in> targets | None \<Rightarrow> False)))"
| "eval lib d (QFollows field (FPath path)) =
     Inr (case resolve (forest d field) path of
            None \<Rightarrow> {}
          | Some node \<Rightarrow> holders d field (\<lambda>_ v. case position v of Some (Some p, _) \<Rightarrow> p = node | _ \<Rightarrow> False))"
| "eval lib d (QFollowsTransitive field (FPath path) inclusive) =
     Inr (below d field inclusive (case resolve (forest d field) path of Some u \<Rightarrow> {u} | None \<Rightarrow> {}))"
| "eval lib d (QFollowsTransitive field (FCondition c) inclusive) =
     bindE (eval lib d c) (\<lambda>roots. Inr (below d field inclusive roots))"
| "eval lib d (QUuidIn us) = Inr (set (filter (\<lambda>u. u \<in> d_universe d) us))"
| "eval lib d (QIn field vs aspect) =
     foldE (\<lambda>v out. bindE (comparison d field v CEq aspect) (\<lambda>s. Inr (out \<union> s))) vs {}"

definition validate :: "text_lib \<Rightarrow> Data \<Rightarrow> Query \<Rightarrow> query_error + unit" where
  "validate lib d q =
     bindE (check_query_size q) (\<lambda>_. bindE (validate_query (compile lib) q) (\<lambda>_. validate_query_types (data_type d) q))"

definition query_count :: "text_lib \<Rightarrow> Data \<Rightarrow> Query \<Rightarrow> query_error + nat" where
  "query_count lib d q = bindE (validate lib d q) (\<lambda>_. bindE (eval lib d q) (\<lambda>s. Inr (card s)))"

definition osm_path_matches :: "text_lib \<Rightarrow> Data \<Rightarrow> string \<Rightarrow> string list \<Rightarrow> uuid list" where
  "osm_path_matches lib d field ts = sorted_list_of_set (osm_path lib d field ts)"

end
