(* ===== verification/Oracle_Laws.thy ===== *)
theory Oracle_Laws
  imports Oracle
begin

text \<open>
  What the oracle's answers satisfy: a validated query is answered, with existing metarecords only;
  the walk down a forest is reachability; and an \<open>In\<close> is the \<open>Or\<close> of its equalities.
\<close>

section \<open>Every rejection is made before\<close>

lemma comparison_total:
  assumes "validate_comparison v (is_ordered op) = Inr ()" and "check_operand aspect v = Inr ()"
  shows "\<exists>s. comparison d field v op aspect = Inr s"
  using assms
  by (cases v; cases "aspect = APath")
    (auto simp: comparison_def path_operand_def check_operand_def row_predicate_def equality_only_def validate_comparison_def split: if_splits)

lemma differs_total:
  assumes "validate_comparison v False = Inr ()" and "check_operand aspect v = Inr ()"
  shows "\<exists>s. differs d field v aspect = Inr s"
  using assms
  by (cases v; cases "aspect = APath")
    (auto simp: differs_def path_operand_def check_operand_def row_predicate_def equality_only_def is_ordered_def validate_comparison_def split: if_splits)

text \<open>The one failure left to evaluation: the pattern of an \<open>osm\<close> in direct mode, which only the regex
  crate's size limit refuses.\<close>

definition osm_failure :: "text_lib \<Rightarrow> query_error \<Rightarrow> bool" where
  "osm_failure lib e \<longleftrightarrow> (\<exists>ts. e = BadPattern (osm_regex lib ts) \<and> compile lib (osm_regex lib ts) = None)"

definition fails_late :: "text_lib \<Rightarrow> query_error + 'a \<Rightarrow> bool" where
  "fails_late lib r \<longleftrightarrow> (\<forall>e. r = Inl e \<longrightarrow> osm_failure lib e)"

lemma fails_late_Inr [simp]: "fails_late lib (Inr x)"
  by (simp add: fails_late_def)

lemma fails_late_bind: "fails_late lib r \<Longrightarrow> (\<And>x. r = Inr x \<Longrightarrow> fails_late lib (f x)) \<Longrightarrow> fails_late lib (bindE r f)"
  by (cases r) (auto simp: fails_late_def)

lemma fails_late_total: "\<exists>s. r = Inr s \<Longrightarrow> fails_late lib r"
  by auto

lemma fails_late_mapE: "(\<And>x. x \<in> set xs \<Longrightarrow> fails_late lib (f x)) \<Longrightarrow> fails_late lib (mapE f xs)"
  by (induction xs) (auto intro!: fails_late_bind)

lemma comparison_late:
  "validate_comparison v (op \<noteq> CEq) = Inr () \<Longrightarrow> check_operand aspect v = Inr () \<Longrightarrow> fails_late lib (comparison d field v op aspect)"
  by (intro fails_late_total comparison_total) (simp_all add: is_ordered_def)

lemma in_total:
  assumes "\<forall>v\<in>set vs. \<exists>s. comparison d field v CEq aspect = Inr s"
  shows "\<exists>s. foldE (\<lambda>v out. bindE (comparison d field v CEq aspect) (\<lambda>s. Inr (out \<union> s))) vs out = Inr s"
  using assms by (induction vs arbitrary: out) auto

lemma validated_late:
  assumes "widest_combinator q \<le> MAX_COMBINATOR_OPERANDS" and "validate_query (compile lib) q = Inr ()"
    and "validate_query_types type_of q = Inr ()"
  shows "fails_late lib (eval lib d q)"
  using assms
proof (induction lib d q rule: eval.induct)
  case (10 lib d qs)
  have "qs \<noteq> []" "length qs \<le> MAX_COMBINATOR_OPERANDS" "\<forall>q\<in>set qs. widest_combinator q \<le> MAX_COMBINATOR_OPERANDS"
    "\<forall>q\<in>set qs. validate_query (compile lib) q = Inr ()" "\<forall>q\<in>set qs. validate_query_types type_of q = Inr ()"
    using 10(3,4) widest_operands(1) [OF 10(2)] by (auto simp: checkAllE_ok split: if_splits)
  then show ?case using 10(1) by (auto intro!: fails_late_bind fails_late_mapE)
next
  case (11 lib d qs)
  have "qs \<noteq> []" "length qs \<le> MAX_COMBINATOR_OPERANDS" "\<forall>q\<in>set qs. widest_combinator q \<le> MAX_COMBINATOR_OPERANDS"
    "\<forall>q\<in>set qs. validate_query (compile lib) q = Inr ()" "\<forall>q\<in>set qs. validate_query_types type_of q = Inr ()"
    using 11(3,4) widest_operands(2) [OF 11(2)] by (auto simp: checkAllE_ok split: if_splits)
  then show ?case using 11(1) by (auto intro!: fails_late_bind fails_late_mapE)
next
  case (14 lib d field ts)
  show ?case
    by (cases "compile lib (osm_regex lib ts)") (auto simp: regex_of_def fails_late_def osm_failure_def)
next
  case (22 lib d field vs aspect)
  have "\<forall>v\<in>set vs. \<exists>s. comparison d field v CEq aspect = Inr s"
    using 22(2,3) comparison_total [of _ CEq] by (auto simp: checkAllE_ok bindE_eq_Inr is_ordered_def)
  from in_total [OF this] show ?case by (auto intro: fails_late_total)
next
  case (13 lib d field pattern aspect)
  then show ?case by (auto simp: regex_of_def split: option.splits)
qed (auto simp: bindE_eq_Inr Let_def intro!: fails_late_bind comparison_late intro: fails_late_total differs_total)

section \<open>Only existing metarecords\<close>

definition data_ok :: "Data \<Rightarrow> bool" where
  "data_ok d \<longleftrightarrow> (\<forall>field. fst ` set (d_rows d field) \<subseteq> d_universe d)"

lemma holders_within: "data_ok d \<Longrightarrow> holders d field pred \<subseteq> d_universe d"
  by (fastforce simp: holders_def data_ok_def)

lemma positions_owners: "fst ` set (positions_of rows) \<subseteq> fst ` set rows"
proof (induction rows)
  case (Cons e rows)
  then show ?case by (cases e; cases "position (row_value (snd e))") auto
qed simp

lemma nodes_within: "data_ok d \<Longrightarrow> forest_nodes (forest d field) \<subseteq> d_universe d"
  using subset_trans [OF positions_owners [of "d_rows d field"]] by (simp add: forest_nodes_def forest_def data_ok_def)

lemma nodes_whose_path_within: "nodes_whose_path ps pred \<subseteq> forest_nodes ps"
  by (auto simp: nodes_whose_path_def forest_nodes_def)

lemma resolve_from_node: "resolve_from ps cur cs = Some u \<Longrightarrow> cs \<noteq> [] \<or> (\<exists>c. cur = Some c \<and> c \<in> forest_nodes ps) \<Longrightarrow> u \<in> forest_nodes ps"
proof (induction ps cur cs rule: resolve_from.induct)
  case (2 ps cur c cs)
  then obtain v where v: "remdups (map fst (filter (\<lambda>(_, n). n \<in> set (readings c)) (children ps cur))) = [v]"
    and r: "resolve_from ps (Some v) cs = Some u" by (auto split: list.splits)
  have "v \<in> set (map fst (children ps cur))" using arg_cong [OF v, of set] by force
  then have "v \<in> forest_nodes ps" using children_nodes by blast
  then show ?case using 2(1) [OF v refl] r by auto
qed auto

lemma resolve_node: "resolve ps path = Some u \<Longrightarrow> u \<in> forest_nodes ps"
  unfolding resolve_def Let_def by (rule resolve_from_node) auto

section \<open>The walk down a forest\<close>

definition child_of :: "positions \<Rightarrow> (uuid \<times> uuid) set" where
  "child_of ps = {(p, c). c \<in> fst ` set (children ps (Some p))}"

lemma child_of_node: "(p, c) \<in> child_of ps \<Longrightarrow> c \<in> forest_nodes ps"
  using children_nodes [of ps "Some p"] by (auto simp: child_of_def)

text \<open>Between turns every node found is on the stack or has its children found.\<close>

lemma descend_closed:
  assumes "\<forall>p c. p \<in> out - set fr \<longrightarrow> (p, c) \<in> child_of ps \<longrightarrow> c \<in> out"
  shows "out \<subseteq> descend ps out fr \<and>
    (\<forall>p c. p \<in> descend ps out fr \<union> set fr \<longrightarrow> (p, c) \<in> child_of ps \<longrightarrow> c \<in> descend ps out fr)"
  using assms
proof (induction ps out fr rule: descend.induct)
  case (2 ps out node fr)
  define st where "st = push_new (map fst (children ps (Some node))) (out, fr)"
  have f: "fst st = out \<union> fst ` set (children ps (Some node))" "set (snd st) = set fr \<union> (fst ` set (children ps (Some node)) - out)"
    unfolding st_def by (simp_all add: push_new_out push_new_frontier)
  have "\<forall>p c. p \<in> fst st - set (snd st) \<longrightarrow> (p, c) \<in> child_of ps \<longrightarrow> c \<in> fst st"
    using 2(2) unfolding f by (auto simp: child_of_def)
  note IH = 2(1) [OF st_def this]
  define D where "D = descend ps (fst st) (snd st)"
  have d: "descend ps out (node # fr) = D" by (simp add: st_def D_def Let_def)
  have "fst st \<subseteq> D" unfolding D_def by (rule conjunct1 [OF IH])
  then have sub: "out \<subseteq> D" "fst ` set (children ps (Some node)) \<subseteq> D" unfolding f(1) by simp_all
  have cl: "p \<in> D \<union> set (snd st) \<Longrightarrow> (p, c) \<in> child_of ps \<Longrightarrow> c \<in> D" for p c
    unfolding D_def using conjunct2 [OF IH] by (rule allE) (erule allE, erule (1) impE, erule (1) impE, assumption)
  have "c \<in> D" if "p \<in> D \<union> set (node # fr)" "(p, c) \<in> child_of ps" for p c
  proof (cases "p = node")
    case True
    then show ?thesis using that(2) sub(2) by (auto simp: child_of_def)
  next
    case False
    then show ?thesis using that cl [of p c] unfolding f by auto
  qed
  then show ?case unfolding d using sub by blast
qed auto

lemma descend_sound:
  assumes "out \<subseteq> (child_of ps)\<^sup>+ `` {root}" and "set fr \<subseteq> insert root ((child_of ps)\<^sup>+ `` {root})"
  shows "descend ps out fr \<subseteq> (child_of ps)\<^sup>+ `` {root}"
  using assms
proof (induction ps out fr rule: descend.induct)
  case (2 ps out node fr)
  define st where "st = push_new (map fst (children ps (Some node))) (out, fr)"
  have f: "fst st = out \<union> fst ` set (children ps (Some node))" "set (snd st) = set fr \<union> (fst ` set (children ps (Some node)) - out)"
    unfolding st_def by (simp_all add: push_new_out push_new_frontier)
  define R where "R = (child_of ps)\<^sup>+ `` {root}"
  have node: "node = root \<or> (root, node) \<in> (child_of ps)\<^sup>+" using 2(3) by simp
  have "c \<in> R" if "c \<in> fst ` set (children ps (Some node))" for c
  proof -
    have "(node, c) \<in> child_of ps" using that by (simp add: child_of_def)
    with node show ?thesis unfolding R_def by (elim disjE) (simp_all add: r_into_trancl trancl_into_trancl)
  qed
  then have cs: "fst ` set (children ps (Some node)) \<subseteq> R" by blast
  have "fst st \<subseteq> R" using 2(2) cs unfolding f(1) R_def by (rule Un_least)
  moreover have "set (snd st) \<subseteq> insert root R" using 2(3) cs unfolding f(2) R_def [symmetric] by (auto simp del: image_subset_iff)
  ultimately have "descend ps (fst st) (snd st) \<subseteq> R" using 2(1) [OF st_def] unfolding R_def by simp
  then show ?case by (simp add: st_def Let_def R_def)
qed simp

lemma descendants_reach: "descendants ps root = (child_of ps)\<^sup>+ `` {root}"
proof
  show "descendants ps root \<subseteq> (child_of ps)\<^sup>+ `` {root}"
    unfolding descendants_def by (rule descend_sound) auto
  have c: "\<forall>p c. p \<in> descendants ps root \<union> {root} \<longrightarrow> (p, c) \<in> child_of ps \<longrightarrow> c \<in> descendants ps root"
    unfolding descendants_def using descend_closed [of "{}" "[root]" ps] by simp
  have "u \<in> descendants ps root" if "(root, u) \<in> (child_of ps)\<^sup>+" for u
    using that by (induction rule: trancl_induct) (use c in blast)+
  then show "(child_of ps)\<^sup>+ `` {root} \<subseteq> descendants ps root" by blast
qed

lemma descendants_within: "descendants ps root \<subseteq> forest_nodes ps"
proof -
  have "u \<in> forest_nodes ps" if "(root, u) \<in> (child_of ps)\<^sup>+" for u
    using that by (cases rule: tranclE) (auto dest: child_of_node)
  then show ?thesis unfolding descendants_reach by auto
qed

text \<open>C24: The walk below a node ends, whatever the forest (cycles and several parents included), and finds
  exactly the nodes a chain of parents leads from.\<close>

theorem descendants_correct: "u \<in> descendants ps root \<longleftrightarrow> (root, u) \<in> (child_of ps)\<^sup>+"
  by (simp add: descendants_reach)

lemma below_within: "data_ok d \<Longrightarrow> roots \<subseteq> d_universe d \<Longrightarrow> below d field inclusive roots \<subseteq> d_universe d"
  using subset_trans [OF descendants_within nodes_within, of d field] by (auto simp: below_def Let_def split: if_splits)

lemma mapE_Inr_all: "mapE f xs = Inr ys \<Longrightarrow> \<forall>x\<in>set xs. \<forall>y. f x = Inr y \<longrightarrow> P y \<Longrightarrow> \<forall>y\<in>set ys. P y"
  by (induction xs arbitrary: ys) (auto simp: bindE_eq_Inr)

lemma mapE_length: "mapE f xs = Inr ys \<Longrightarrow> length ys = length xs"
  by (induction xs arbitrary: ys) (auto simp: bindE_eq_Inr)

lemma combine_within:
  assumes "sets \<noteq> []" and "\<forall>s\<in>set sets. s \<subseteq> U" and "\<And>a b. a \<subseteq> U \<Longrightarrow> b \<subseteq> U \<Longrightarrow> f a b \<subseteq> U"
  shows "combine f sets \<subseteq> U"
proof -
  have "fold (\<lambda>s acc. f acc s) ss a \<subseteq> U" if "a \<subseteq> U" "\<forall>s\<in>set ss. s \<subseteq> U" for ss a
    using that by (induction ss arbitrary: a) (use assms(3) in auto)
  then show ?thesis using assms(1,2) by (cases sets) (auto simp: combine_def)
qed

lemma comparison_within: "data_ok d \<Longrightarrow> comparison d field v op aspect = Inr s \<Longrightarrow> s \<subseteq> d_universe d"
  using nodes_whose_path_within nodes_within holders_within
  by (fastforce simp: comparison_def bindE_eq_Inr split: if_splits)

lemma differs_within: "data_ok d \<Longrightarrow> differs d field v aspect = Inr s \<Longrightarrow> s \<subseteq> d_universe d"
  using nodes_whose_path_within nodes_within holders_within
  by (fastforce simp: differs_def bindE_eq_Inr split: if_splits)

lemma eval_within:
  assumes "data_ok d" and "eval lib d q = Inr s"
  shows "s \<subseteq> d_universe d"
  using assms
proof (induction lib d q arbitrary: s rule: eval.induct)
  case (10 lib d qs)
  then obtain ss where ss: "mapE (eval lib d) qs = Inr ss" "s = combine (\<inter>) ss" "qs \<noteq> []" "length qs \<le> MAX_COMBINATOR_OPERANDS"
    by (auto simp: bindE_eq_Inr split: if_splits)
  then have "\<forall>s\<in>set ss. s \<subseteq> d_universe d" using 10(1,2) by (intro mapE_Inr_all [OF ss(1)]) simp
  then show ?case unfolding ss(2) using ss(3) mapE_length [OF ss(1)] by (intro combine_within) auto
next
  case (11 lib d qs)
  then obtain ss where ss: "mapE (eval lib d) qs = Inr ss" "s = combine (\<union>) ss" "qs \<noteq> []" "length qs \<le> MAX_COMBINATOR_OPERANDS"
    by (auto simp: bindE_eq_Inr split: if_splits)
  then have "\<forall>s\<in>set ss. s \<subseteq> d_universe d" using 11(1,2) by (intro mapE_Inr_all [OF ss(1)]) simp
  then show ?case unfolding ss(2) using ss(3) mapE_length [OF ss(1)] by (intro combine_within) auto
next
  case (13 lib d field pattern aspect)
  then show ?case using nodes_whose_path_within nodes_within holders_within
    by (fastforce simp: bindE_eq_Inr split: if_splits)
next
  case (15 lib d field ts)
  then show ?case using nodes_whose_path_within nodes_within by (fastforce simp: osm_path_def split: if_splits)
next
  case (18 lib d field path)
  then show ?case using holders_within by (auto split: option.splits)
next
  case (19 lib d field path inclusive)
  have "(case resolve (forest d field) path of Some u \<Rightarrow> {u} | None \<Rightarrow> {}) \<subseteq> d_universe d"
    using resolve_node nodes_within [OF 19(1)] by (fastforce split: option.splits)
  from below_within [OF 19(1) this, of field inclusive] show ?case using 19(2) by simp
next
  case (20 lib d field c inclusive)
  then obtain roots where r: "eval lib d c = Inr roots" "s = below d field inclusive roots" by (auto simp: bindE_eq_Inr)
  show ?case unfolding r(2) by (rule below_within [OF 20(2) 20(1) [OF 20(2) r(1)]])
next
  case (22 lib d field vs aspect)
  have "out \<subseteq> d_universe d \<Longrightarrow> foldE (\<lambda>v out. bindE (comparison d field v CEq aspect) (\<lambda>s. Inr (out \<union> s))) vs out = Inr s \<Longrightarrow> s \<subseteq> d_universe d" for out
  proof (induction vs arbitrary: out)
    case (Cons v vs)
    then obtain t where t: "comparison d field v CEq aspect = Inr t"
      "foldE (\<lambda>v out. bindE (comparison d field v CEq aspect) (\<lambda>s. Inr (out \<union> s))) vs (out \<union> t) = Inr s"
      by (auto simp: bindE_eq_Inr)
    have "out \<union> t \<subseteq> d_universe d" using Cons(2) comparison_within [OF 22(1) t(1)] by simp
    then show ?case using Cons.IH t(2) by blast
  qed simp
  from this [OF empty_subsetI] show ?case using 22(2) by simp
qed (auto simp: presence_def bindE_eq_Inr Let_def dest: comparison_within differs_within subsetD [OF holders_within] split: if_splits)

text \<open>C22: A query that passes the checks made before evaluation is answered: evaluation then fails on no
  query whatever, except that the pattern made of the terms of an \<open>osm\<close> in direct mode may be one
  the regex crate refuses. So the rejections of the evaluator itself are never reached.\<close>

theorem validated_query_answered:
  assumes "validate lib d q = Inr ()"
  shows "case eval lib d q of
      Inr s \<Rightarrow> True
    | Inl e \<Rightarrow> \<exists>ts. e = BadPattern (osm_regex lib ts) \<and> compile lib (osm_regex lib ts) = None"
proof -
  have "widest_combinator q \<le> MAX_COMBINATOR_OPERANDS" "validate_query (compile lib) q = Inr ()" "validate_query_types (data_type d) q = Inr ()"
    using assms by (auto simp: validate_def bindE_eq_Inr check_query_size_def split: if_splits)
  then show ?thesis using validated_late [of q lib "data_type d" d] by (auto simp: fails_late_def osm_failure_def split: sum.splits)
qed

text \<open>C23: An answer holds existing metarecords only, for every query, as long as every row belongs to
  one.\<close>

theorem answers_exist:
  assumes "data_ok d" and "eval lib d q = Inr s"
  shows "s \<subseteq> d_universe d"
  by (rule eval_within [OF assms])

text \<open>An \<open>in\<close> means the \<open>or\<close> of one \<open>eq\<close> per value (\<open>in_operands\<close>): same answer and same failure,
  whenever an \<open>or\<close> may hold that many; and no value matches nothing.\<close>

theorem in_is_or_of_eq:
  assumes "in_operands q = Some qs" and "length qs \<le> MAX_COMBINATOR_OPERANDS"
  shows "eval lib d q = (if qs = [] then Inr {} else eval lib d (QOr qs))"
proof -
  obtain field vs aspect where q: "q = QIn field vs aspect" "qs = map (\<lambda>v. QEq field v aspect) vs"
    using assms(1) by (cases q) auto
  have f: "foldE (\<lambda>v out. bindE (comparison d field v CEq aspect) (\<lambda>s. Inr (out \<union> s))) vs out =
      bindE (mapE (eval lib d) (map (\<lambda>v. QEq field v aspect) vs)) (\<lambda>ss. Inr (out \<union> \<Union> (set ss)))" for out
  proof (induction vs arbitrary: out)
    case (Cons v vs)
    then show ?case by (cases "comparison d field v CEq aspect") (simp_all add: bindE_assoc Un_assoc)
  qed simp
  have c: "combine (\<union>) ss = \<Union> (set ss)" if "ss \<noteq> []" for ss
  proof -
    have "fold (\<lambda>s acc. acc \<union> s) rest a = a \<union> \<Union> (set rest)" for rest and a :: "uuid set"
      by (induction rest arbitrary: a) auto
    then show ?thesis using that by (cases ss) (simp_all add: combine_def)
  qed
  show ?thesis
  proof (cases "qs = []")
    case False
    have "bindE (mapE (eval lib d) qs) (\<lambda>ss. Inr ({} \<union> \<Union> (set ss))) = bindE (mapE (eval lib d) qs) (\<lambda>ss. Inr (combine (\<union>) ss))"
    proof (cases "mapE (eval lib d) qs")
      case (Inr ss)
      then have "ss \<noteq> []" using mapE_length [OF Inr] False by auto
      then show ?thesis using c Inr by simp
    qed simp
    then show ?thesis using False assms(2) f [of "{}"] by (simp add: q)
  qed (simp add: q)
qed

section \<open>Samples\<close>

definition sample_lib :: text_lib where
  "sample_lib = \<lparr>compile = (\<lambda>p. Some (\<lambda>s. s = p)), escape = id, lower = id\<rparr>"

definition sample_rows :: "(uuid \<times> FieldRow) list" where
  "sample_rows =
     [(1, \<lparr>row_id = 1, row_name = ''path'', row_value = VTreeRef None ''music''\<rparr>),
      (2, \<lparr>row_id = 2, row_name = ''path'', row_value = VTreeRef (Some 1) ''jazz''\<rparr>),
      (2, \<lparr>row_id = 3, row_name = ''rating'', row_value = VInt 4\<rparr>)]"

definition sample_data :: Data where
  "sample_data = read_data [1, 2, 3] sample_rows"

definition sample_query :: Query where
  "sample_query = QAnd [QGte ''rating'' (VFloat 0x400C000000000000) Raw, QFollowsTransitive ''path'' (FPath ''music'') False]"

theorem validated_query_answered_witness: "\<exists>s. eval sample_lib sample_data sample_query = Inr s"
proof -
  have "validate sample_lib sample_data sample_query = Inr ()" by code_simp
  from validated_query_answered [OF this] show ?thesis by (auto simp: sample_lib_def split: sum.splits)
qed

lemma sample_data_ok: "data_ok sample_data"
  by (auto simp: data_ok_def sample_data_def read_data_def sample_rows_def)

theorem answers_exist_witness: "eval sample_lib sample_data (QIsUnknown ''path'') = Inr {3} \<and> {3} \<subseteq> d_universe sample_data"
proof -
  have "eval sample_lib sample_data (QIsUnknown ''path'') = Inr {3}" by code_simp
  from answers_exist [OF sample_data_ok this] this show ?thesis by simp
qed

theorem in_is_or_of_eq_witness:
  "eval sample_lib sample_data (QIn ''rating'' [VInt 4, VInt 5] Raw) = eval sample_lib sample_data (QOr [QEq ''rating'' (VInt 4) Raw, QEq ''rating'' (VInt 5) Raw])"
  using in_is_or_of_eq [of "QIn ''rating'' [VInt 4, VInt 5] Raw" _ sample_lib sample_data] by (simp add: MAX_COMBINATOR_OPERANDS_def)

end
