(* ===== verification/Comparators.thy ===== *)
theory Comparators
  imports Float
begin

text \<open>
  Comparison functions as Rust's slices take them (\<open>sort_by\<close>, \<open>min_by\<close>, \<open>max_by\<close>), and the contract
  they rest on: a total preorder on the values that are compared.
\<close>

section \<open>The contract\<close>

locale total_order =
  fixes S :: "'a set" and c :: "'a \<Rightarrow> 'a \<Rightarrow> Ordering"
  assumes self: "x \<in> S \<Longrightarrow> c x x = Equal"
    and swap: "x \<in> S \<Longrightarrow> y \<in> S \<Longrightarrow> c y x = reverse (c x y)"
    and less_trans: "x \<in> S \<Longrightarrow> y \<in> S \<Longrightarrow> z \<in> S \<Longrightarrow> c x y = Less \<Longrightarrow> c y z = Less \<Longrightarrow> c x z = Less"
    and equal_left: "x \<in> S \<Longrightarrow> y \<in> S \<Longrightarrow> z \<in> S \<Longrightarrow> c x y = Equal \<Longrightarrow> c x z = c y z"

lemma reverse_reverse [simp]: "reverse (reverse x) = x"
  by (cases x) simp_all

lemma reverse_eq [simp]: "reverse x = Equal \<longleftrightarrow> x = Equal" "reverse x = Less \<longleftrightarrow> x = Greater" "reverse x = Greater \<longleftrightarrow> x = Less"
  by (cases x; simp)+

section \<open>Sorting\<close>

fun insert_by :: "('a \<Rightarrow> 'a \<Rightarrow> Ordering) \<Rightarrow> 'a \<Rightarrow> 'a list \<Rightarrow> 'a list" where
  "insert_by c x [] = [x]"
| "insert_by c x (y # ys) = (if c x y = Greater then y # insert_by c x ys else x # y # ys)"

definition sort_by :: "('a \<Rightarrow> 'a \<Rightarrow> Ordering) \<Rightarrow> 'a list \<Rightarrow> 'a list" where
  "sort_by c xs = foldr (insert_by c) xs []"

fun min_by :: "('a \<Rightarrow> 'a \<Rightarrow> Ordering) \<Rightarrow> 'a list \<Rightarrow> 'a option" where
  "min_by c [] = None"
| "min_by c (x # xs) = Some (foldl (\<lambda>m y. if c m y = Greater then y else m) x xs)"

fun max_by :: "('a \<Rightarrow> 'a \<Rightarrow> Ordering) \<Rightarrow> 'a list \<Rightarrow> 'a option" where
  "max_by c [] = None"
| "max_by c (x # xs) = Some (foldl (\<lambda>m y. if c m y = Greater then m else y) x xs)"

lemma mset_insert_by [simp]: "mset (insert_by c x ys) = add_mset x (mset ys)"
  by (induction ys) auto

lemma mset_sort_by [simp]: "mset (sort_by c xs) = mset xs"
  by (induction xs) (simp_all add: sort_by_def)

lemma set_sort_by [simp]: "set (sort_by c xs) = set xs"
  by (rule mset_eq_setD) simp

lemma set_insert_by [simp]: "set (insert_by c x ys) = insert x (set ys)"
  by (induction ys) auto

lemma distinct_sort_by [simp]: "distinct (map f (sort_by c xs)) = distinct (map f xs)"
proof -
  have "mset (map f (sort_by c xs)) = mset (map f xs)" by simp
  then show ?thesis by (rule mset_eq_imp_distinct_iff)
qed

lemma min_by_in: "min_by c xs = Some m \<Longrightarrow> m \<in> set xs"
proof (cases xs)
  case (Cons x rest)
  have "foldl (\<lambda>m y. if c m y = Greater then y else m) x rest \<in> insert x (set rest)" for x
    by (induction rest arbitrary: x) (auto split: if_splits)
  then show "min_by c xs = Some m \<Longrightarrow> m \<in> set xs" using Cons by auto
qed simp

lemma max_by_in: "max_by c xs = Some m \<Longrightarrow> m \<in> set xs"
proof (cases xs)
  case (Cons x rest)
  have "foldl (\<lambda>m y. if c m y = Greater then m else y) x rest \<in> insert x (set rest)" for x
    by (induction rest arbitrary: x) (auto split: if_splits)
  then show "max_by c xs = Some m \<Longrightarrow> m \<in> set xs" using Cons by auto
qed simp

context total_order
begin

lemma equal_right: "x \<in> S \<Longrightarrow> y \<in> S \<Longrightarrow> z \<in> S \<Longrightarrow> c y z = Equal \<Longrightarrow> c x y = c x z"
  using swap [of x y] swap [of x z] equal_left [of y z x] by (metis reverse_reverse)

lemma upto_trans:
  assumes "x \<in> S" "y \<in> S" "z \<in> S" "c x y \<noteq> Greater" "c y z \<noteq> Greater"
  shows "c x z \<noteq> Greater"
proof (cases "c x y")
  case Less
  then show ?thesis
    using less_trans [OF assms(1,2,3)] equal_right [of x y z] assms by (cases "c y z") auto
next
  case Equal
  then show ?thesis using equal_left [OF assms(1,2,3)] assms(5) by simp
qed (use assms in simp)

lemma insert_by_sorted:
  "x \<in> S \<Longrightarrow> set ys \<subseteq> S \<Longrightarrow> sorted_wrt (\<lambda>x y. c x y \<noteq> Greater) ys \<Longrightarrow> sorted_wrt (\<lambda>x y. c x y \<noteq> Greater) (insert_by c x ys)"
proof (induction ys)
  case (Cons y ys)
  show ?case
  proof (cases "c x y = Greater")
    case True
    then have "c y x \<noteq> Greater" using swap [of x y] Cons(2,3) by simp
    then show ?thesis using True Cons by simp
  next
    case False
    then have "c x z \<noteq> Greater" if "z \<in> set ys" for z
      using upto_trans [of x y z] Cons(2,3,4) that by auto
    then show ?thesis using False Cons by simp
  qed
qed simp

lemma sort_by_sorted: "set xs \<subseteq> S \<Longrightarrow> sorted_wrt (\<lambda>x y. c x y \<noteq> Greater) (sort_by c xs)"
proof (induction xs)
  case (Cons x xs)
  then show ?case using insert_by_sorted [of x "sort_by c xs"] by (simp add: sort_by_def [of c "x # xs"] sort_by_def [of c xs, symmetric])
qed (simp add: sort_by_def)

text \<open>What a page leaves out: the elements after the last one of a sorted list without ties.\<close>

lemma after_last:
  assumes "set (xs @ l # ys) \<subseteq> S" and "sorted_wrt (\<lambda>x y. c x y = Less) (xs @ l # ys)"
  shows "filter (\<lambda>r. c r l = Greater) (xs @ l # ys) = ys"
proof -
  have "c x l \<noteq> Greater" if "x \<in> set xs" for x using assms(2) that by (simp add: sorted_wrt_append)
  moreover have "c y l = Greater" if "y \<in> set ys" for y
    using assms(2) swap [of l y] assms(1) that by (auto simp: sorted_wrt_append)
  moreover have "c l l \<noteq> Greater" using self assms(1) by simp
  ultimately show ?thesis by (simp add: filter_empty_conv filter_id_conv)
qed

lemma sort_by_strict:
  assumes "set xs \<subseteq> S" and "distinct xs" and "\<And>x y. x \<in> set xs \<Longrightarrow> y \<in> set xs \<Longrightarrow> c x y = Equal \<Longrightarrow> x = y"
  shows "sorted_wrt (\<lambda>x y. c x y = Less) (sort_by c xs)"
proof -
  have "sorted_wrt (\<lambda>x y. c x y \<noteq> Greater \<and> x \<noteq> y) (sort_by c xs)"
    using sort_by_sorted [OF assms(1)] distinct_sort_by [of "\<lambda>x. x" c xs] assms(2)
    by (auto simp: sorted_wrt_iff_nth_less distinct_conv_nth)
  then show ?thesis
  proof (rule sorted_wrt_mono_rel [rotated])
    fix x y assume "x \<in> set (sort_by c xs)" "y \<in> set (sort_by c xs)" "c x y \<noteq> Greater \<and> x \<noteq> y"
    then show "c x y = Less" using assms(3) [of x y] by (cases "c x y") auto
  qed
qed

end

section \<open>Orders built from others\<close>

interpretation lin: total_order UNIV "cmp :: 'a::linorder \<Rightarrow> 'a \<Rightarrow> Ordering"
  by unfold_locales (auto simp: cmp_def split: if_splits)

lemma total_order_image:
  assumes "total_order S c" and f: "\<And>x. x \<in> T \<Longrightarrow> f x \<in> S"
  shows "total_order T (\<lambda>x y. c (f x) (f y))"
proof
  note t = assms(1)
  fix x y z
  show "x \<in> T \<Longrightarrow> c (f x) (f x) = Equal" by (intro total_order.self [OF t] f)
  show "x \<in> T \<Longrightarrow> y \<in> T \<Longrightarrow> c (f y) (f x) = reverse (c (f x) (f y))" by (intro total_order.swap [OF t] f)
  show "x \<in> T \<Longrightarrow> y \<in> T \<Longrightarrow> z \<in> T \<Longrightarrow> c (f x) (f y) = Less \<Longrightarrow> c (f y) (f z) = Less \<Longrightarrow> c (f x) (f z) = Less"
    by (rule total_order.less_trans [OF t]) (auto intro: f)
  show "x \<in> T \<Longrightarrow> y \<in> T \<Longrightarrow> z \<in> T \<Longrightarrow> c (f x) (f y) = Equal \<Longrightarrow> c (f x) (f z) = c (f y) (f z)"
    by (rule total_order.equal_left [OF t]) (auto intro: f)
qed

lemma total_order_cong:
  assumes t: "total_order S c" and e: "\<And>x y. x \<in> S \<Longrightarrow> y \<in> S \<Longrightarrow> c' x y = c x y"
  shows "total_order S c'"
proof
  fix x y z
  show "x \<in> S \<Longrightarrow> c' x x = Equal" using total_order.self [OF t] by (simp add: e)
  show "x \<in> S \<Longrightarrow> y \<in> S \<Longrightarrow> c' y x = reverse (c' x y)" using total_order.swap [OF t, of x y] by (simp add: e)
  assume s: "x \<in> S" "y \<in> S" "z \<in> S"
  show "c' x y = Less \<Longrightarrow> c' y z = Less \<Longrightarrow> c' x z = Less" using total_order.less_trans [OF t s] s by (simp add: e)
  show "c' x y = Equal \<Longrightarrow> c' x z = c' y z" using total_order.equal_left [OF t s] s by (simp add: e)
qed

lemma total_order_subset: "total_order S c \<Longrightarrow> T \<subseteq> S \<Longrightarrow> total_order T c"
  using total_order_image [of S c T "\<lambda>x. x"] by auto

lemma total_order_reverse:
  assumes t: "total_order S c"
  shows "total_order S (\<lambda>x y. reverse (c x y))"
proof
  fix x y z
  show "x \<in> S \<Longrightarrow> reverse (c x x) = Equal" by (simp add: total_order.self [OF t])
  show "x \<in> S \<Longrightarrow> y \<in> S \<Longrightarrow> reverse (c y x) = reverse (reverse (c x y))"
    by (simp only: total_order.swap [OF t, of x y])
  show "x \<in> S \<Longrightarrow> y \<in> S \<Longrightarrow> z \<in> S \<Longrightarrow> reverse (c x y) = Less \<Longrightarrow> reverse (c y z) = Less \<Longrightarrow> reverse (c x z) = Less"
    using total_order.less_trans [OF t, of z y x]
    by (simp only: total_order.swap [OF t, of x y] total_order.swap [OF t, of y z] total_order.swap [OF t, of x z])
  show "x \<in> S \<Longrightarrow> y \<in> S \<Longrightarrow> z \<in> S \<Longrightarrow> reverse (c x y) = Equal \<Longrightarrow> reverse (c x z) = reverse (c y z)"
    using total_order.equal_left [OF t, of x y z] by simp
qed

definition then_with :: "Ordering \<Rightarrow> Ordering \<Rightarrow> Ordering" where
  "then_with a b = (if a = Equal then b else a)"

lemma total_order_then:
  assumes c: "total_order S c" and d: "total_order S d"
  shows "total_order S (\<lambda>x y. then_with (c x y) (d x y))"
proof
  fix x y z
  show "x \<in> S \<Longrightarrow> then_with (c x x) (d x x) = Equal"
    by (simp add: then_with_def total_order.self [OF c] total_order.self [OF d])
  show "x \<in> S \<Longrightarrow> y \<in> S \<Longrightarrow> then_with (c y x) (d y x) = reverse (then_with (c x y) (d x y))"
    using total_order.swap [OF c, of x y] total_order.swap [OF d, of x y] by (simp add: then_with_def)
  assume s: "x \<in> S" "y \<in> S" "z \<in> S"
  show "then_with (c x y) (d x y) = Less \<Longrightarrow> then_with (c y z) (d y z) = Less \<Longrightarrow> then_with (c x z) (d x z) = Less"
    using total_order.less_trans [OF c s] total_order.less_trans [OF d s] total_order.equal_left [OF c s] total_order.equal_right [OF c s]
    by (auto simp: then_with_def split: if_splits)
  show "then_with (c x y) (d x y) = Equal \<Longrightarrow> then_with (c x z) (d x z) = then_with (c y z) (d y z)"
    using total_order.equal_left [OF c s] total_order.equal_left [OF d s] by (auto simp: then_with_def split: if_splits)
qed

end
