(* ===== verification/Float_Laws.thy ===== *)
theory Float_Laws
  imports Float
begin

text \<open>
  The conversion of an \<open>i64\<close> to an \<open>f64\<close> keeps the order, and the numbers themselves up to \<open>2 ^ 53\<close>.
\<close>

text \<open>The bits of a float as an integer, which the evaluation of samples reads instead of a natural number.\<close>

lemma f64_mag_int: "int (f64_mag x) = uint x mod 2 ^ 63"
  unfolding f64_mag_def uint_nat zmod_int by (simp only: of_nat_power of_nat_numeral)

lemma f64_rank_code [code]: "f64_rank x = (if 2 ^ 63 \<le> uint x then - (uint x mod 2 ^ 63) else uint x mod 2 ^ 63)"
proof -
  have "int (2 ^ 63) \<le> int (unat x) \<longleftrightarrow> 2 ^ 63 \<le> unat x" by (rule of_nat_le_iff)
  then have "f64_neg x \<longleftrightarrow> 2 ^ 63 \<le> uint x" unfolding f64_neg_def uint_nat by (simp only: of_nat_power of_nat_numeral)
  then show ?thesis unfolding f64_rank_def f64_mag_int by (simp only:)
qed

lemma f64_nan_code [code]: "f64_nan x \<longleftrightarrow> 2047 * 2 ^ 52 < uint x mod 2 ^ 63"
proof -
  have "int (2047 * 2 ^ 52) < int (f64_mag x) \<longleftrightarrow> 2047 * 2 ^ 52 < f64_mag x" by (rule of_nat_less_iff)
  then show ?thesis unfolding f64_nan_def f64_mag_int by (simp only: of_nat_mult of_nat_power of_nat_numeral)
qed

lemma bit_count_bounds: "0 < n \<Longrightarrow> 1 \<le> bit_count n \<and> 2 ^ (bit_count n - 1) \<le> n \<and> n < 2 ^ bit_count n"
proof (induction n rule: bit_count.induct)
  case (1 n)
  show ?case
  proof (cases "n = 1")
    case True
    then show ?thesis by (simp add: bit_count.simps)
  next
    case False
    then have h: "0 < n div 2" using 1(2) by presburger
    define b where "b = bit_count (n div 2)"
    have b: "1 \<le> b" "2 ^ (b - 1) \<le> n div 2" "n div 2 < 2 ^ b" using 1(1) [OF _ h] 1(2) by (simp_all add: b_def)
    have p: "(2::int) ^ b = 2 * 2 ^ (b - 1)" using b(1) by (metis Suc_diff_1 Suc_le_eq power_Suc One_nat_def)
    have "bit_count n = Suc b" using 1(2) by (subst bit_count.simps) (simp add: b_def)
    moreover have "2 ^ b \<le> n" "n < 2 * 2 ^ b" using b p by linarith+
    ultimately show ?thesis by simp
  qed
qed

lemma bit_count_mono: "0 < m \<Longrightarrow> m \<le> n \<Longrightarrow> bit_count m \<le> bit_count n"
proof -
  assume "0 < m" "m \<le> n"
  then have "(2::int) ^ (bit_count m - 1) < 2 ^ bit_count n" using bit_count_bounds [of m] bit_count_bounds [of n] by linarith
  then have "bit_count m - 1 < bit_count n" by simp
  then show ?thesis by linarith
qed

lemma round_even_mono: "m \<le> n \<Longrightarrow> round_even m k \<le> round_even n k"
proof -
  assume mn: "m \<le> n"
  define q r where "q x = x div 2 ^ k" and "r x = x mod 2 ^ k" for x :: int
  have e: "x = q x * 2 ^ k + r x" for x unfolding q_def r_def by (rule div_mult_mod_eq [symmetric])
  have le: "q m \<le> q n" unfolding q_def by (rule zdiv_mono1 [OF mn]) simp
  have "round_even x k = (if 2 * r x > 2 ^ k \<or> (2 * r x = 2 ^ k \<and> odd (q x)) then q x + 1 else q x)" for x
    by (simp add: round_even_def q_def r_def Let_def)
  moreover have "q m = q n \<Longrightarrow> r m \<le> r n" using mn e [of m] e [of n] by simp
  ultimately show ?thesis using le by (cases "q m = q n") (auto split: if_splits)
qed

lemma round_even_exact: "round_even (q * 2 ^ k) k = q"
  by (simp add: round_even_def)

definition mantissa :: "int \<Rightarrow> int" where
  "mantissa m = (let b = bit_count m in if b \<le> 53 then m * 2 ^ (53 - b) else round_even m (b - 53))"

lemma f64_of_int_mantissa: "m \<noteq> 0 \<Longrightarrow> f64_of_int m = (int (bit_count m) + 1021) * 2 ^ 52 + mantissa m"
  by (simp add: f64_of_int_def mantissa_def Let_def)

lemma mantissa_bounds:
  assumes "0 < m"
  shows "2 ^ 52 \<le> mantissa m" and "mantissa m \<le> 2 ^ 53" and "bit_count m \<le> 53 \<Longrightarrow> mantissa m < 2 ^ 53"
proof -
  define b where "b = bit_count m"
  note bb = bit_count_bounds [OF assms, folded b_def]
  show small: "mantissa m < 2 ^ 53" if "bit_count m \<le> 53"
  proof -
    have "m * 2 ^ (53 - b) < 2 ^ b * 2 ^ (53 - b)" using bb by simp
    also have "\<dots> = 2 ^ 53" using that by (simp add: power_add [symmetric] b_def)
    finally show ?thesis using that by (simp add: mantissa_def b_def Let_def)
  qed
  have "2 ^ 52 \<le> mantissa m \<and> mantissa m \<le> 2 ^ 53"
  proof (cases "b \<le> 53")
    case True
    have "(2::int) ^ 52 = 2 ^ (b - 1) * 2 ^ (53 - b)" using True bb by (simp add: power_add [symmetric])
    also have "\<dots> \<le> m * 2 ^ (53 - b)" using bb by (intro mult_right_mono) simp_all
    finally show ?thesis using True small by (simp add: mantissa_def b_def Let_def)
  next
    case False
    define k where "k = b - 53"
    have "(2::int) ^ (b - 1) = 2 ^ 52 * 2 ^ k" "(2::int) ^ b = 2 ^ 53 * 2 ^ k"
      using False unfolding power_add [symmetric] k_def by simp_all
    then have "round_even (2 ^ 52 * 2 ^ k) k \<le> round_even m k" "round_even m k \<le> round_even (2 ^ 53 * 2 ^ k) k"
      using bb by (auto intro!: round_even_mono)
    then show ?thesis using False unfolding round_even_exact by (simp add: mantissa_def b_def k_def Let_def)
  qed
  then show "2 ^ 52 \<le> mantissa m" "mantissa m \<le> 2 ^ 53" by simp_all
qed

lemma mantissa_mono:
  assumes "0 < m" "m \<le> n" "bit_count m = bit_count n"
  shows "mantissa m \<le> mantissa n" and "m < n \<Longrightarrow> bit_count n \<le> 53 \<Longrightarrow> mantissa m < mantissa n"
  using assms by (auto simp: mantissa_def Let_def round_even_mono)

lemma f64_of_int_bounds:
  assumes "0 \<le> m" and "m \<le> 2 ^ 63"
  shows "0 \<le> f64_of_int m" and "f64_of_int m < 2047 * 2 ^ 52"
proof -
  have "0 \<le> f64_of_int m \<and> f64_of_int m < 2047 * 2 ^ 52"
  proof (cases "m = 0")
    case False
    have "bit_count (2 ^ 63) = 64" by code_simp
    then have "bit_count m \<le> 64" using bit_count_mono [of m "2 ^ 63"] assms False by simp
    moreover have "0 < m" using assms(1) False by simp
    note mantissa_bounds(1,2) [OF this]
    ultimately show ?thesis using False by (simp add: f64_of_int_mantissa)
  qed (simp add: f64_of_int_def)
  then show "0 \<le> f64_of_int m" "f64_of_int m < 2047 * 2 ^ 52" by simp_all
qed

lemma f64_of_int_mono:
  assumes "0 \<le> m" and "m \<le> n" and "n \<le> 2 ^ 63"
  shows "f64_of_int m \<le> f64_of_int n" and "m < n \<Longrightarrow> n \<le> 2 ^ 53 \<Longrightarrow> f64_of_int m < f64_of_int n"
proof -
  have "f64_of_int m \<le> f64_of_int n \<and> (m < n \<longrightarrow> n \<le> 2 ^ 53 \<longrightarrow> f64_of_int m < f64_of_int n)"
  proof (cases "m = 0")
    case True
    show ?thesis
    proof (cases "n = 0")
      case False
      then have "0 < n" using assms by simp
      from mantissa_bounds(1) [OF this] show ?thesis using True False by (simp add: f64_of_int_mantissa) (simp add: f64_of_int_def)
    qed (use True in simp)
  next
    case False
    then have pos: "0 < m" "0 < n" using assms by simp_all
    note m = mantissa_bounds [OF pos(1)] and n = mantissa_bounds [OF pos(2)]
    have f: "f64_of_int m = (int (bit_count m) + 1021) * 2 ^ 52 + mantissa m" "f64_of_int n = (int (bit_count n) + 1021) * 2 ^ 52 + mantissa n"
      using pos by (simp_all add: f64_of_int_mantissa)
    show ?thesis
    proof (cases "bit_count m = bit_count n")
      case True
      have "bit_count n \<le> 53" if "m < n" "n \<le> 2 ^ 53"
      proof -
        have "m \<le> 2 ^ 53 - 1" using that by simp
        moreover have "bit_count (2 ^ 53 - 1) = 53" by code_simp
        ultimately show ?thesis using bit_count_mono [of m "2 ^ 53 - 1"] pos(1) True by simp
      qed
      then show ?thesis using mantissa_mono [OF pos(1) assms(2) True] True unfolding f by auto
    next
      case False
      then have lt: "bit_count m < bit_count n" using bit_count_mono [OF pos(1) assms(2)] by simp
      have "bit_count m \<le> 53" if "n \<le> 2 ^ 53"
      proof -
        have "bit_count (2 ^ 53) = 54" by code_simp
        then show ?thesis using bit_count_mono [of n "2 ^ 53"] pos that lt by simp
      qed
      then show ?thesis using lt m n unfolding f by auto
    qed
  qed
  then show "f64_of_int m \<le> f64_of_int n" "m < n \<Longrightarrow> n \<le> 2 ^ 53 \<Longrightarrow> f64_of_int m < f64_of_int n" by simp_all
qed

definition signed_rank :: "int \<Rightarrow> int" where
  "signed_rank n = (if n < 0 then - f64_of_int (- n) else f64_of_int n)"

lemma sint_range: "- (2 ^ 63) \<le> sint n" "sint n < 2 ^ 63" for n :: i64
  using sint_ge [of n] sint_lt [of n] by simp_all

lemma i64_as_f64_bits:
  fixes n :: i64
  defines "m \<equiv> f64_of_int \<bar>sint n\<bar>"
  shows "unat (i64_as_f64 n) = nat (if sint n < 0 then 2 ^ 63 + m else m)" and "0 \<le> m" and "m < 2047 * 2 ^ 52"
proof -
  have "\<bar>sint n\<bar> \<le> 2 ^ 63" using sint_range [of n] by simp
  then show b: "0 \<le> m" "m < 2047 * 2 ^ 52" unfolding m_def by (rule f64_of_int_bounds [rotated], simp)+
  define k where "k = (if sint n < 0 then 2 ^ 63 + m else m)"
  have i: "i64_as_f64 n = word_of_int k" by (simp add: i64_as_f64_def m_def k_def)
  have "0 \<le> k" "k < 2 ^ 64" using b by (simp_all add: k_def)
  then have "uint (i64_as_f64 n) = k" unfolding i uint_word_of_int by (simp add: take_bit_int_eq_self)
  then show "unat (i64_as_f64 n) = nat (if sint n < 0 then 2 ^ 63 + m else m)" unfolding k_def unat_eq_nat_uint by (simp only:)
qed

lemma i64_as_f64_rank:
  fixes n :: i64
  shows "\<not> f64_nan (i64_as_f64 n)" and "f64_rank (i64_as_f64 n) = signed_rank (sint n)"
proof -
  define m where "m = f64_of_int \<bar>sint n\<bar>"
  note b = i64_as_f64_bits [of n, folded m_def]
  have u: "unat (i64_as_f64 n) = (if sint n < 0 then 2 ^ 63 + nat m else nat m)"
    using b(1,2) by (simp add: nat_add_distrib)
  have l: "nat m < 2 ^ 63" using b(2,3) by simp
  have mag: "f64_mag (i64_as_f64 n) = nat m" using l by (auto simp: f64_mag_def u)
  then show "\<not> f64_nan (i64_as_f64 n)" using b(2,3) by (simp add: f64_nan_def)
  show "f64_rank (i64_as_f64 n) = signed_rank (sint n)"
    using l b(2) mag by (auto simp: f64_rank_def f64_neg_def u signed_rank_def m_def)
qed

lemma signed_rank_mono:
  assumes "m \<le> n" and "- (2 ^ 63) \<le> m" and "n \<le> 2 ^ 63"
  shows "signed_rank m \<le> signed_rank n" and "m < n \<Longrightarrow> - (2 ^ 53) \<le> m \<Longrightarrow> n \<le> 2 ^ 53 \<Longrightarrow> signed_rank m < signed_rank n"
proof -
  have p: "0 < f64_of_int k" if "0 < k" for k using mantissa_bounds(1) [OF that] that by (simp add: f64_of_int_mantissa)
  have z: "f64_of_int 0 = 0" by (simp add: f64_of_int_def)
  consider "0 \<le> m" | "m < 0" "0 \<le> n" | "n < 0" using assms(1) by linarith
  then have "signed_rank m \<le> signed_rank n \<and> (m < n \<longrightarrow> - (2 ^ 53) \<le> m \<longrightarrow> n \<le> 2 ^ 53 \<longrightarrow> signed_rank m < signed_rank n)"
  proof cases
    case 1
    then show ?thesis using f64_of_int_mono [of m n] assms by (simp add: signed_rank_def)
  next
    case 2
    then have "0 < f64_of_int (- m)" "0 \<le> f64_of_int n" using p [of "- m"] p [of n] z by (auto simp: le_less)
    then show ?thesis using 2 by (simp add: signed_rank_def)
  next
    case 3
    then show ?thesis using f64_of_int_mono [of "- n" "- m"] assms by (simp add: signed_rank_def)
  qed
  then show "signed_rank m \<le> signed_rank n" "m < n \<Longrightarrow> - (2 ^ 53) \<le> m \<Longrightarrow> n \<le> 2 ^ 53 \<Longrightarrow> signed_rank m < signed_rank n" by simp_all
qed

end
