(* ===== verification/Oracle_Sort.thy ===== *)
theory Oracle_Sort
  imports Oracle_Laws Comparators Float_Laws
begin

text \<open>
  The order of a query's answer and its pages (\<open>query-oracle/src/lib.rs\<close>, \<open>daemon/pagination.rs\<close>). A
  cursor travels as a token through base64 and JSON, a uuid as text, and the request it belongs to
  is a hash of its JSON; these are the arguments \<open>encode_token\<close>, \<open>decode_token\<close>, \<open>uuid_text\<close>,
  \<open>parse_text\<close> and \<open>request_hash\<close>. A JSON number or string of a cursor is \<open>JInt\<close> or \<open>JStr\<close>.
\<close>

section \<open>Components\<close>

datatype Component = CInt int | CNum f64 | CText string | CBytes bytes

definition component_cmp :: "Component \<Rightarrow> Component \<Rightarrow> Ordering" where
  "component_cmp x y =
     (case (x, y) of
        (CInt a, CInt b) \<Rightarrow> cmp a b
      | (CNum a, CNum b) \<Rightarrow> (case f64_partial_cmp a b of Some ord \<Rightarrow> ord | None \<Rightarrow> Equal)
      | (CText a, CText b) \<Rightarrow> cmp a b
      | (CBytes a, CBytes b) \<Rightarrow> cmp a b
      | _ \<Rightarrow> Equal)"

datatype cursor_key = JInt int | JStr string

definition f64_bytes :: "f64 \<Rightarrow> bytes" where
  "f64_bytes f = be_bytes 8 (unat f)"

fun to_cursor :: "Component \<Rightarrow> cursor_key" where
  "to_cursor (CInt n) = JInt n"
| "to_cursor (CNum f) = JStr (hex_encode (f64_bytes f))"
| "to_cursor (CText s) = JStr s"
| "to_cursor (CBytes b) = JStr (hex_encode b)"

definition NUM_SENTINEL :: f64 where
  "NUM_SENTINEL = 0xD4B075823B6C498A"

datatype SortOrder = Asc | Desc

record SortKey =
  sk_field :: string
  sk_order :: SortOrder

type_synonym SortValue = "int \<times> f64 option \<times> string option \<times> bytes option"

definition sort_value :: "positions \<Rightarrow> value \<Rightarrow> SortValue option" where
  "sort_value ps v =
     (case v of
        Nothing \<Rightarrow> None
      | VBool b \<Rightarrow> Some (0, Some (i64_as_f64 (if b then 1 else 0)), None, None)
      | VInt n \<Rightarrow> Some (1, Some (i64_as_f64 n), None, None)
      | VFloat f \<Rightarrow> Some (1, Some f, None, None)
      | VString s \<Rightarrow> Some (2, None, Some s, None)
      | VDateTime ms \<Rightarrow> Some (3, Some (i64_as_f64 ms), None, None)
      | VRef u \<Rightarrow> Some (4, None, None, Some (uuid_to_bytes u))
      | VRefBase u \<Rightarrow> Some (4, None, None, Some (uuid_to_bytes u))
      | VExternalRef _ m \<Rightarrow> Some (4, None, None, Some (uuid_to_bytes m))
      | VTreeRef parent name \<Rightarrow> Some (5, None, Some (forest_sort_key ps parent name), None)
      | VHierarchyRef parent name \<Rightarrow> Some (5, None, Some (forest_sort_key ps parent name), None))"

definition cmp_opt :: "('a \<Rightarrow> 'a \<Rightarrow> Ordering) \<Rightarrow> 'a option \<Rightarrow> 'a option \<Rightarrow> Ordering" where
  "cmp_opt f a b =
     (case (a, b) of
        (None, None) \<Rightarrow> Equal
      | (None, Some _) \<Rightarrow> Less
      | (Some _, None) \<Rightarrow> Greater
      | (Some x, Some y) \<Rightarrow> f x y)"

definition cmp_f64 :: "f64 \<Rightarrow> f64 \<Rightarrow> Ordering" where
  "cmp_f64 x y = (case f64_partial_cmp x y of Some ord \<Rightarrow> ord | None \<Rightarrow> Equal)"

definition cmp_sort_values :: "SortValue \<Rightarrow> SortValue \<Rightarrow> Ordering" where
  "cmp_sort_values = (\<lambda>(g, n, t, b) (g', n', t', b').
     then_with (then_with (then_with (cmp g g') (cmp_opt cmp_f64 n n')) (cmp_opt cmp t t')) (cmp_opt cmp b b'))"

definition sort_components :: "positions \<Rightarrow> SortKey \<Rightarrow> value list \<Rightarrow> Component list" where
  "sort_components ps key held =
     (let vals = List.map_filter (sort_value ps) held;
          rep = (case sk_order key of Asc \<Rightarrow> min_by cmp_sort_values vals | Desc \<Rightarrow> max_by cmp_sort_values vals)
      in case rep of
           None \<Rightarrow> [CInt 1, CInt 6, CNum NUM_SENTINEL, CText [], CBytes []]
         | Some (ty, num, text, bs) \<Rightarrow>
             [CInt 0, CInt ty, CNum (case num of Some n \<Rightarrow> n | None \<Rightarrow> NUM_SENTINEL),
              CText (case text of Some t \<Rightarrow> t | None \<Rightarrow> []), CBytes (case bs of Some b \<Rightarrow> b | None \<Rightarrow> [])])"

fun compare_keys :: "bool list \<Rightarrow> Component list \<Rightarrow> Component list \<Rightarrow> Ordering" where
  "compare_keys (asc # ds) (x # xs) (y # ys) =
     (let ord = component_cmp x y
      in if ord \<noteq> Equal then (if asc then ord else reverse ord) else compare_keys ds xs ys)"
| "compare_keys _ _ _ = Equal"

definition compare_rows :: "bool list \<Rightarrow> Component list \<times> uuid \<Rightarrow> Component list \<times> uuid \<Rightarrow> Ordering" where
  "compare_rows ds a b =
     (let ord = compare_keys ds (fst a) (fst b)
      in if ord \<noteq> Equal then ord else cmp (snd a) (snd b))"

section \<open>Cursors\<close>

record Cursor =
  cu_keys :: "cursor_key list"
  cu_uuid :: string
  cu_h :: u64

fun hex_decode_pairs :: "string \<Rightarrow> query_error + bytes" where
  "hex_decode_pairs (a # b # rest) =
     bindE (optE (radix16_2 a b) InvalidCursor) (\<lambda>n. bindE (hex_decode_pairs rest) (\<lambda>bs. Inr (char_of n # bs)))"
| "hex_decode_pairs _ = Inr []"

definition cursor_hex :: "string \<Rightarrow> query_error + bytes" where
  "cursor_hex s =
     (if length s mod 2 \<noteq> 0 \<or> (\<exists>c\<in>set s. byte_val c \<ge> 128) then Inl InvalidCursor else hex_decode_pairs s)"

definition key_int :: "cursor_key \<Rightarrow> query_error + int" where
  "key_int k = (case k of JInt n \<Rightarrow> Inr n | JStr _ \<Rightarrow> Inl InvalidCursor)"

definition key_str :: "cursor_key \<Rightarrow> query_error + string" where
  "key_str k = (case k of JStr s \<Rightarrow> Inr s | JInt _ \<Rightarrow> Inl InvalidCursor)"

definition cursor_component :: "nat \<times> cursor_key \<Rightarrow> query_error + Component" where
  "cursor_component = (\<lambda>(i, key).
     if i mod 5 = 0 \<or> i mod 5 = 1 then bindE (key_int key) (\<lambda>n. Inr (CInt n))
     else if i mod 5 = 2 then
       bindE (key_str key) (\<lambda>s. bindE (cursor_hex s) (\<lambda>bs.
         if length bs = 8 then Inr (CNum (of_nat (be_val bs))) else Inl InvalidCursor))
     else if i mod 5 = 3 then bindE (key_str key) (\<lambda>s. Inr (CText s))
     else bindE (key_str key) (\<lambda>s. bindE (cursor_hex s) (\<lambda>bs. Inr (CBytes bs))))"

definition cursor_components :: "Cursor \<Rightarrow> nat \<Rightarrow> query_error + Component list" where
  "cursor_components cursor n_sort =
     (if length (cu_keys cursor) \<noteq> 5 * n_sort then Inl InvalidCursor
      else mapE cursor_component (enumerate 0 (cu_keys cursor)))"

record 'tok paging =
  encode_token :: "Cursor \<Rightarrow> 'tok"
  decode_token :: "'tok \<Rightarrow> Cursor option"
  uuid_text :: "uuid \<Rightarrow> string"
  parse_text :: "string \<Rightarrow> uuid option"
  request_hash :: "Query \<Rightarrow> SortKey list \<Rightarrow> u64"

definition token_decode :: "'tok paging \<Rightarrow> 'tok \<Rightarrow> u64 \<Rightarrow> query_error + Cursor" where
  "token_decode pg token expected_hash =
     bindE (optE (decode_token pg token) InvalidCursor) (\<lambda>cursor.
       if cu_h cursor \<noteq> expected_hash then Inl ForeignCursor else Inr cursor)"

section \<open>Pages\<close>

definition held_values :: "Data \<Rightarrow> string \<Rightarrow> uuid \<Rightarrow> value list" where
  "held_values d field u = map (\<lambda>(_, r). row_value r) (filter (\<lambda>(o1, _). o1 = u) (d_rows d field))"

definition row_keys :: "Data \<Rightarrow> SortKey list \<Rightarrow> uuid \<Rightarrow> Component list" where
  "row_keys d srt u =
     concat (map (\<lambda>key. sort_components (forest d (sk_field key)) key (held_values d (sk_field key) u)) srt)"

definition directions :: "SortKey list \<Rightarrow> bool list" where
  "directions srt = concat (map (\<lambda>k. let asc = (sk_order k = Asc) in [True, asc, asc, asc, asc]) srt)"

definition sorted_rows :: "Data \<Rightarrow> SortKey list \<Rightarrow> uuid set \<Rightarrow> (Component list \<times> uuid) list" where
  "sorted_rows d srt hits =
     sort_by (compare_rows (directions srt)) (map (\<lambda>u. (row_keys d srt u, u)) (sorted_list_of_set hits))"

definition after_cursor ::
    "'tok paging \<Rightarrow> SortKey list \<Rightarrow> u64 \<Rightarrow> (Component list \<times> uuid) list \<Rightarrow> 'tok option \<Rightarrow> query_error + (Component list \<times> uuid) list" where
  "after_cursor pg srt h rows cursor =
     (case cursor of
        None \<Rightarrow> Inr rows
      | Some token \<Rightarrow>
          bindE (token_decode pg token h) (\<lambda>parsed.
          bindE (cursor_components parsed (length srt)) (\<lambda>keys.
          bindE (optE (parse_text pg (cu_uuid parsed)) InvalidCursor) (\<lambda>u.
            Inr (filter (\<lambda>r. compare_rows (directions srt) r (keys, u) = Greater) rows)))))"

definition next_cursor :: "'tok paging \<Rightarrow> u64 \<Rightarrow> bool \<Rightarrow> (Component list \<times> uuid) list \<Rightarrow> 'tok option" where
  "next_cursor pg h has_more rows =
     (if has_more \<and> rows \<noteq> []
      then Some (encode_token pg \<lparr>cu_keys = map to_cursor (fst (last rows)), cu_uuid = uuid_text pg (snd (last rows)), cu_h = h\<rparr>)
      else None)"

definition execute ::
    "text_lib \<Rightarrow> 'tok paging \<Rightarrow> Data \<Rightarrow> Query \<Rightarrow> SortKey list \<Rightarrow> nat option \<Rightarrow> 'tok option \<Rightarrow> query_error + uuid list \<times> 'tok option" where
  "execute lib pg d q srt limit cursor =
     (if cursor \<noteq> None \<and> limit = None then Inl CursorNeedsLimit
      else bindE (validate lib d q) (\<lambda>_.
           bindE (eval lib d q) (\<lambda>hits.
           bindE (after_cursor pg srt (request_hash pg q srt) (sorted_rows d srt hits) cursor) (\<lambda>rows.
             case limit of
               None \<Rightarrow> Inr (map snd rows, None)
             | Some n \<Rightarrow>
                 Inr (map snd (take n rows),
                      next_cursor pg (request_hash pg q srt) (length rows > n) (take n rows))))))"

section \<open>The order is total\<close>

text \<open>What a component looks like at each place: flag, type group, number (never a NaN), text, bytes.\<close>

datatype kind = KInt | KNum | KText | KBytes

fun fits :: "kind \<Rightarrow> Component \<Rightarrow> bool" where
  "fits KInt (CInt _) \<longleftrightarrow> True"
| "fits KNum (CNum f) \<longleftrightarrow> \<not> f64_nan f"
| "fits KText (CText _) \<longleftrightarrow> True"
| "fits KBytes (CBytes _) \<longleftrightarrow> True"
| "fits _ _ \<longleftrightarrow> False"

fun_cases fits_intE: "fits KInt c" and fits_numE: "fits KNum c" and fits_textE: "fits KText c" and fits_bytesE: "fits KBytes c"

lemmas fitsE = fits_intE fits_numE fits_textE fits_bytesE

fun comp_int :: "Component \<Rightarrow> int" where
  "comp_int (CInt n) = n" | "comp_int (CNum f) = f64_rank f" | "comp_int _ = 0"

fun comp_text :: "Component \<Rightarrow> string" where
  "comp_text (CText s) = s" | "comp_text (CBytes s) = s" | "comp_text _ = []"

lemma component_order: "total_order (Collect (fits k)) component_cmp"
proof -
  define f where "f c = then_with (cmp (comp_int (fst c)) (comp_int (snd c))) (cmp (comp_text (fst c)) (comp_text (snd c)))" for c :: "Component \<times> Component"
  have t: "total_order (Collect (fits k)) (\<lambda>x y. f (x, y))"
    unfolding f_def fst_conv snd_conv
    by (intro total_order_then total_order_image [OF lin.total_order_axioms]) simp_all
  have e: "component_cmp x y = f (x, y)" if "fits k x" "fits k y" for x y
    using that by (cases k) (auto simp: f_def component_cmp_def f64_partial_cmp_def then_with_def cmp_def elim!: fitsE)
  show ?thesis by (rule total_order_cong [OF t]) (simp add: e)
qed

definition directed :: "bool \<Rightarrow> Component \<Rightarrow> Component \<Rightarrow> Ordering" where
  "directed asc x y = (if asc then component_cmp x y else reverse (component_cmp x y))"

lemma directed_order: "total_order (Collect (fits k)) (directed asc)"
  using component_order [of k] total_order_reverse [OF component_order [of k]] by (cases asc) (simp_all add: directed_def [abs_def])

lemma compare_keys_Cons:
  "compare_keys (asc # ds) (x # xs) (y # ys) = then_with (directed asc x y) (compare_keys ds xs ys)"
  by (simp add: Let_def then_with_def directed_def)

lemma keys_order: "length ds = length ks \<Longrightarrow> total_order {xs. list_all2 fits ks xs} (compare_keys ds)"
proof (induction ks arbitrary: ds)
  case Nil
  show ?case by unfold_locales simp_all
next
  case (Cons k ks)
  then obtain asc ds' where ds: "ds = asc # ds'" "length ds' = length ks" by (cases ds) auto
  have t: "total_order {xs. list_all2 fits (k # ks) xs} (\<lambda>x y. then_with (directed asc (hd x) (hd y)) (compare_keys ds' (tl x) (tl y)))"
    by (intro total_order_then total_order_image [OF directed_order [of k asc]] total_order_image [OF Cons.IH [OF ds(2)]])
      (auto simp: list_all2_Cons1)
  have e: "compare_keys ds x y = then_with (directed asc (hd x) (hd y)) (compare_keys ds' (tl x) (tl y))"
    if "list_all2 fits (k # ks) x" "list_all2 fits (k # ks) y" for x y
    using that unfolding ds(1) by (auto simp: list_all2_Cons1 compare_keys_Cons simp del: compare_keys.simps)
  show ?case by (rule total_order_cong [OF t]) (simp add: e)
qed

lemma rows_order: "length ds = length ks \<Longrightarrow> total_order {r. list_all2 fits ks (fst r)} (compare_rows ds)"
proof -
  assume "length ds = length ks"
  then have "total_order {r. list_all2 fits ks (fst r)} (\<lambda>a b. then_with (compare_keys ds (fst a) (fst b)) (cmp (snd a) (snd b)))"
    by (intro total_order_then total_order_image [OF keys_order] total_order_image [OF lin.total_order_axioms]) auto
  moreover have "compare_rows ds = (\<lambda>a b. then_with (compare_keys ds (fst a) (fst b)) (cmp (snd a) (snd b)))"
    by (auto simp: fun_eq_iff compare_rows_def then_with_def Let_def)
  ultimately show ?thesis by simp
qed

section \<open>Rows fit\<close>

definition key_kinds :: "kind list" where
  "key_kinds = [KInt, KInt, KNum, KText, KBytes]"

lemma length_key_kinds [simp]: "length key_kinds = 5"
  by (simp add: key_kinds_def)

definition row_kinds :: "SortKey list \<Rightarrow> kind list" where
  "row_kinds srt = concat (map (\<lambda>_. key_kinds) srt)"

definition no_nan_rows :: "Data \<Rightarrow> SortKey list \<Rightarrow> bool" where
  "no_nan_rows d srt \<longleftrightarrow>
     (\<forall>k\<in>set srt. \<forall>(u, r)\<in>set (d_rows d (sk_field k)). \<forall>f. row_value r = VFloat f \<longrightarrow> \<not> f64_nan f)"

lemma sentinel_number: "\<not> f64_nan NUM_SENTINEL"
  by (simp add: f64_nan_def f64_mag_def NUM_SENTINEL_def)

lemma sort_value_number:
  "sort_value ps v = Some (g, Some n, t, b) \<Longrightarrow> (\<And>f. v = VFloat f \<Longrightarrow> \<not> f64_nan f) \<Longrightarrow> \<not> f64_nan n"
  by (auto simp: sort_value_def i64_as_f64_rank(1) split: "value.splits" if_splits)

lemma map_filter_in: "y \<in> set (List.map_filter f xs) \<longleftrightarrow> (\<exists>x\<in>set xs. f x = Some y)"
  by (induction xs) (auto simp: List.map_filter_def split: option.splits)

lemma sort_components_fit:
  assumes "\<And>v f. v \<in> set held \<Longrightarrow> v = VFloat f \<Longrightarrow> \<not> f64_nan f"
  shows "list_all2 fits key_kinds (sort_components ps key held)"
proof -
  define vals where "vals = List.map_filter (sort_value ps) held"
  define rep where "rep = (case sk_order key of Asc \<Rightarrow> min_by cmp_sort_values vals | Desc \<Rightarrow> max_by cmp_sort_values vals)"
  have "\<not> f64_nan n" if r: "rep = Some (g, Some n, t, b)" for g n t b
  proof -
    have "(g, Some n, t, b) \<in> set vals" using r min_by_in max_by_in unfolding rep_def by (fastforce split: SortOrder.splits)
    then obtain v where "v \<in> set held" "sort_value ps v = Some (g, Some n, t, b)" by (auto simp: vals_def map_filter_in)
    then show ?thesis using sort_value_number [of ps v g n t b] assms [of v] by blast
  qed
  then show ?thesis
    unfolding sort_components_def Let_def vals_def [symmetric] rep_def [symmetric]
    by (auto simp: key_kinds_def sentinel_number split: option.splits)
qed

lemma row_keys_fit:
  assumes "no_nan_rows d srt"
  shows "list_all2 fits (row_kinds srt) (row_keys d srt u)"
proof -
  have "list_all2 fits key_kinds (sort_components (forest d (sk_field k)) k (held_values d (sk_field k) u))" if "k \<in> set srt" for k
  proof (rule sort_components_fit)
    fix v f assume "v \<in> set (held_values d (sk_field k) u)" "v = VFloat f"
    then obtain r where "(u, r) \<in> set (d_rows d (sk_field k))" "row_value r = VFloat f" by (auto simp: held_values_def)
    then show "\<not> f64_nan f" using assms that unfolding no_nan_rows_def by blast
  qed
  then show ?thesis unfolding row_kinds_def row_keys_def by (induction srt) (auto intro: list_all2_appendI)
qed

lemma row_kinds_length: "length (directions srt) = length (row_kinds srt)" "length (row_kinds srt) = 5 * length srt"
  by (induction srt) (auto simp: directions_def row_kinds_def key_kinds_def Let_def)

text \<open>A page's rows are in strictly increasing order: the uuid decides between equal keys.\<close>

lemma sorted_rows_strict:
  assumes "no_nan_rows d srt" and "finite hits"
  shows "sorted_wrt (\<lambda>x y. compare_rows (directions srt) x y = Less) (sorted_rows d srt hits)"
    and "set (sorted_rows d srt hits) \<subseteq> {r. list_all2 fits (row_kinds srt) (fst r)}"
    and "set (sorted_rows d srt hits) = (\<lambda>u. (row_keys d srt u, u)) ` hits"
proof -
  define xs where "xs = map (\<lambda>u. (row_keys d srt u, u)) (sorted_list_of_set hits)"
  have xs: "set xs = (\<lambda>u. (row_keys d srt u, u)) ` hits" using assms(2) by (simp add: xs_def)
  show "set (sorted_rows d srt hits) = (\<lambda>u. (row_keys d srt u, u)) ` hits"
    using xs by (simp add: sorted_rows_def xs_def [symmetric])
  have sub: "set xs \<subseteq> {r. list_all2 fits (row_kinds srt) (fst r)}" using row_keys_fit [OF assms(1)] by (auto simp: xs)
  then show "set (sorted_rows d srt hits) \<subseteq> {r. list_all2 fits (row_kinds srt) (fst r)}"
    by (simp add: sorted_rows_def xs_def [symmetric])
  have "distinct xs" by (simp add: xs_def distinct_map inj_on_def)
  moreover have "x = y" if "x \<in> set xs" "y \<in> set xs" "compare_rows (directions srt) x y = Equal" for x y
  proof -
    have "snd x = snd y" using that(3) by (auto simp: compare_rows_def Let_def split: if_splits)
    then show ?thesis using that(1,2) by (auto simp: xs)
  qed
  ultimately show "sorted_wrt (\<lambda>x y. compare_rows (directions srt) x y = Less) (sorted_rows d srt hits)"
    unfolding sorted_rows_def xs_def [symmetric]
    by (intro total_order.sort_by_strict [OF rows_order [OF row_kinds_length(1)] sub])
qed

section \<open>A cursor brings its row back\<close>

lemma hex_low: "n < 16 \<Longrightarrow> byte_val (HEX ! n) < 128 \<and> HEX ! n \<noteq> CHR ''+''"
proof -
  assume "n < 16"
  then have "n \<in> set [0..<16]" by simp
  moreover have "\<forall>n\<in>set [0..<16]. byte_val (HEX ! n) < 128 \<and> HEX ! n \<noteq> CHR ''+''" by code_simp
  ultimately show ?thesis by blast
qed

lemma radix_hex_byte: "radix16_2 (HEX ! (byte_val b div 16)) (HEX ! (byte_val b mod 16)) = Some (byte_val b)"
proof -
  have "byte_val b div 16 < 16" "byte_val b mod 16 < 16" using byte_val_less [of b] by auto
  then show ?thesis using hex_low hex_digit_HEX by (simp add: radix16_2_def)
qed

lemma hex_decode_pairs_encode: "hex_decode_pairs (hex_encode bs) = Inr bs"
  by (induction bs) (simp_all add: hex_encode_def hex_byte_def radix_hex_byte)

lemma cursor_hex_encode [simp]: "cursor_hex (hex_encode bs) = Inr bs"
proof -
  have "byte_val c < 128" if c: "c \<in> set (hex_encode bs)" for c
  proof -
    obtain b where "c = HEX ! (byte_val b div 16) \<or> c = HEX ! (byte_val b mod 16)"
      using c by (auto simp: hex_encode_def hex_byte_def)
    moreover have "byte_val b div 16 < 16" "byte_val b mod 16 < 16" using byte_val_less [of b] by auto
    ultimately show ?thesis using hex_low by auto
  qed
  then show ?thesis by (auto simp: cursor_hex_def length_hex_encode hex_decode_pairs_encode not_le)
qed

lemma f64_bytes_back: "of_nat (be_val (f64_bytes f)) = f" "length (f64_bytes f) = 8"
proof -
  have "unat f < 256 ^ 8" using unsigned_less [of f] by simp
  then show "of_nat (be_val (f64_bytes f)) = f" "length (f64_bytes f) = 8"
    by (simp_all add: f64_bytes_def be_val_bytes)
qed

definition kind_at :: "nat \<Rightarrow> kind" where
  "kind_at i = key_kinds ! (i mod 5)"

lemma kind_at_cases: "i mod 5 = 0 \<or> i mod 5 = 1 \<or> i mod 5 = 2 \<or> i mod 5 = 3 \<or> i mod 5 = 4" for i :: nat
  by presburger

lemma cursor_component_back: "fits (kind_at i) c \<Longrightarrow> cursor_component (i, to_cursor c) = Inr c"
  using kind_at_cases [of i]
  by (auto simp: kind_at_def key_kinds_def cursor_component_def key_int_def key_str_def f64_bytes_back elim!: fitsE)

lemma mapE_back:
  "(\<And>j. j < length cs \<Longrightarrow> fits (kind_at (i + j)) (cs ! j)) \<Longrightarrow> mapE cursor_component (enumerate i (map to_cursor cs)) = Inr cs"
proof (induction cs arbitrary: i)
  case (Cons c cs)
  have "fits (kind_at i) c" using Cons(2) [of 0] by simp
  moreover have "mapE cursor_component (enumerate (Suc i) (map to_cursor cs)) = Inr cs"
    by (rule Cons.IH) (use Cons(2) [of "Suc j" for j] in simp)
  ultimately show ?case by (simp add: cursor_component_back)
qed simp

lemma row_kinds_nth: "j < 5 * length srt \<Longrightarrow> row_kinds srt ! j = kind_at j"
proof (induction srt arbitrary: j)
  case (Cons k srt)
  show ?case
  proof (cases "j < 5")
    case True
    then show ?thesis by (simp add: row_kinds_def kind_at_def nth_append)
  next
    case False
    have "row_kinds (k # srt) ! j = row_kinds srt ! (j - 5)"
      using False by (simp add: row_kinds_def nth_append)
    also have "\<dots> = kind_at j" using Cons False by (simp add: kind_at_def mod_if)
    finally show ?thesis .
  qed
qed simp

lemma cursor_components_back:
  assumes "list_all2 fits (row_kinds srt) cs"
  shows "cursor_components \<lparr>cu_keys = map to_cursor cs, cu_uuid = t, cu_h = h\<rparr> (length srt) = Inr cs"
proof -
  have l: "length cs = 5 * length srt" using list_all2_lengthD [OF assms] row_kinds_length by simp
  have "fits (kind_at j) (cs ! j)" if "j < length cs" for j
    using list_all2_nthD2 [OF assms that] row_kinds_nth [of j srt] that l by simp
  then show ?thesis using mapE_back [of cs 0] l by (simp add: cursor_components_def)
qed

section \<open>The pages of an answer\<close>

text \<open>What the paging takes of the token and of the text of a uuid: they read back.\<close>

definition reads_back :: "'tok paging \<Rightarrow> bool" where
  "reads_back pg \<longleftrightarrow> (\<forall>c. decode_token pg (encode_token pg c) = Some c) \<and> (\<forall>u. parse_text pg (uuid_text pg u) = Some u)"

text \<open>A client that follows the cursors: the pages it gets, none when one fails or \<open>n\<close> are not enough.\<close>

fun follow ::
    "nat \<Rightarrow> text_lib \<Rightarrow> 'tok paging \<Rightarrow> Data \<Rightarrow> Query \<Rightarrow> SortKey list \<Rightarrow> nat \<Rightarrow> 'tok option \<Rightarrow> uuid list list option" where
  "follow 0 lib pg d q srt limit cursor = None"
| "follow (Suc n) lib pg d q srt limit cursor =
     (case execute lib pg d q srt (Some limit) cursor of
        Inl e \<Rightarrow> None
      | Inr (us, None) \<Rightarrow> Some [us]
      | Inr (us, Some tok) \<Rightarrow> map_option ((#) us) (follow n lib pg d q srt limit (Some tok)))"

definition row_token :: "'tok paging \<Rightarrow> u64 \<Rightarrow> Component list \<times> uuid \<Rightarrow> 'tok" where
  "row_token pg h r = encode_token pg \<lparr>cu_keys = map to_cursor (fst r), cu_uuid = uuid_text pg (snd r), cu_h = h\<rparr>"

lemma after_row:
  assumes rb: "reads_back pg" and sub: "set (xs @ r # ys) \<subseteq> {r. list_all2 fits (row_kinds srt) (fst r)}"
    and strict: "sorted_wrt (\<lambda>x y. compare_rows (directions srt) x y = Less) (xs @ r # ys)"
  shows "after_cursor pg srt h (xs @ r # ys) (Some (row_token pg h r)) = Inr ys"
proof -
  have "cursor_components \<lparr>cu_keys = map to_cursor (fst r), cu_uuid = uuid_text pg (snd r), cu_h = h\<rparr> (length srt) = Inr (fst r)"
    using sub by (intro cursor_components_back) auto
  moreover have "filter (\<lambda>x. compare_rows (directions srt) x (fst r, snd r) = Greater) (xs @ r # ys) = ys"
    using total_order.after_last [OF rows_order [OF row_kinds_length(1)] sub strict] by simp
  ultimately show ?thesis using rb
    by (simp add: after_cursor_def row_token_def token_decode_def reads_back_def del: filter.simps filter_append)
qed

lemma follow_rest:
  assumes rb: "reads_back pg" and limit: "0 < limit"
    and ev: "validate lib d q = Inr ()" "eval lib d q = Inr hits"
    and rows: "sorted_rows d srt hits = past @ rest"
    and sub: "set (past @ rest) \<subseteq> {r. list_all2 fits (row_kinds srt) (fst r)}"
    and strict: "sorted_wrt (\<lambda>x y. compare_rows (directions srt) x y = Less) (past @ rest)"
    and after: "after_cursor pg srt (request_hash pg q srt) (past @ rest) cursor = Inr rest"
    and n: "length rest < n"
  shows "\<exists>ps. follow n lib pg d q srt limit cursor = Some ps \<and> concat ps = map snd rest \<and> (\<forall>p\<in>set ps. length p \<le> limit)"
  using rows sub strict after n
proof (induction n arbitrary: past rest cursor)
  case (Suc n)
  have ex: "execute lib pg d q srt (Some limit) cursor =
      Inr (map snd (take limit rest), next_cursor pg (request_hash pg q srt) (length rest > limit) (take limit rest))"
    using ev Suc.prems(1,4) by (simp add: execute_def)
  show ?case
  proof (cases "length rest > limit")
    case False
    then show ?thesis unfolding follow.simps ex by (simp add: next_cursor_def)
  next
    case True
    define page r where "page = butlast (take limit rest)" and "r = last (take limit rest)"
    have "take limit rest \<noteq> []" using True limit by auto
    from append_butlast_last_id [OF this] have t: "take limit rest = page @ [r]" by (simp add: page_def r_def)
    then have split: "rest = page @ [r] @ drop limit rest" by (metis append.assoc append_take_drop_id)
    have nc: "next_cursor pg (request_hash pg q srt) (length rest > limit) (take limit rest) = Some (row_token pg (request_hash pg q srt) r)"
      using True t by (simp add: next_cursor_def row_token_def)
    have all: "past @ rest = (past @ page) @ r # drop limit rest" using split by simp
    have "after_cursor pg srt (request_hash pg q srt) (past @ rest) (Some (row_token pg (request_hash pg q srt) r)) = Inr (drop limit rest)"
      using after_row [OF rb, of "past @ page" r "drop limit rest" srt "request_hash pg q srt"] Suc.prems(2,3) unfolding all by simp
    moreover have "length (drop limit rest) < n" using Suc.prems(5) True limit by simp
    moreover have "(past @ page @ [r]) @ drop limit rest = past @ rest" using all by simp
    ultimately obtain ps where ps: "follow n lib pg d q srt limit (Some (row_token pg (request_hash pg q srt) r)) = Some ps"
      "concat ps = map snd (drop limit rest)" "\<forall>p\<in>set ps. length p \<le> limit"
      using Suc.IH [of "past @ page @ [r]" "drop limit rest" "Some (row_token pg (request_hash pg q srt) r)"] Suc.prems(1-3)
      by metis
    have "map snd (take limit rest) @ map snd (drop limit rest) = map snd rest" by (metis append_take_drop_id map_append)
    then show ?thesis unfolding follow.simps ex nc using ps by simp
  qed
qed simp

text \<open>C25: The pages of an answer are the answer: a client that asks for pages of any positive size and
  follows the cursors gets, page after page, every metarecord of the unpaged answer once, in its
  order, and then no cursor. This holds for every query, any sort keys and directions, fields held
  several times or not at all; it needs that the tokens read back and that no sorted field holds a
  NaN, which compares equal to every number and so is no place in an order.\<close>

theorem pages_complete:
  assumes "execute lib pg d q srt None None = Inr (answer, tok)" and "0 < limit"
    and "reads_back pg" and "no_nan_rows d srt" and "data_ok d" and "finite (d_universe d)"
  shows "\<exists>ps. follow (Suc (length answer)) lib pg d q srt limit None = Some ps \<and> concat ps = answer \<and>
    (\<forall>p\<in>set ps. length p \<le> limit) \<and> distinct answer"
proof -
  obtain hits where ev: "validate lib d q = Inr ()" "eval lib d q = Inr hits" and a: "answer = map snd (sorted_rows d srt hits)"
    using assms(1) by (auto simp: execute_def bindE_eq_Inr after_cursor_def)
  have fin: "finite hits" using eval_within [OF assms(5) ev(2)] assms(6) by (rule finite_subset)
  note rows = sorted_rows_strict [OF assms(4) fin]
  have "\<exists>ps. follow (Suc (length answer)) lib pg d q srt limit None = Some ps \<and> concat ps = map snd (sorted_rows d srt hits) \<and> (\<forall>p\<in>set ps. length p \<le> limit)"
    by (rule follow_rest [where past = "[]", OF assms(3,2) ev]) (use rows in \<open>simp_all add: after_cursor_def a\<close>)
  moreover have "distinct answer"
    by (simp add: a sorted_rows_def comp_def)
  ultimately show ?thesis using a by simp
qed

definition sample_paging :: "Cursor paging" where
  "sample_paging = \<lparr>encode_token = id, decode_token = Some, uuid_text = (\<lambda>u. hex_encode (uuid_to_bytes u)),
     parse_text = (\<lambda>s. Option.bind (hex_decode s) (\<lambda>bs. case bytes_to_uuid bs of Inr u \<Rightarrow> Some u | Inl _ \<Rightarrow> None)),
     request_hash = (\<lambda>_ _. 7)\<rparr>"

lemma sample_reads_back: "reads_back sample_paging"
  by (simp add: reads_back_def sample_paging_def hex_decode_def length_hex_encode hex_pairs_encode)

definition sample_sort :: "SortKey list" where
  "sample_sort = [\<lparr>sk_field = ''rating'', sk_order = Desc\<rparr>]"

theorem pages_complete_witness:
  "\<exists>ps. follow 3 sample_lib sample_paging sample_data (QUuidIn [1, 2]) sample_sort 1 None = Some ps \<and> concat ps = [2, 1]"
proof -
  have "validate sample_lib sample_data (QUuidIn [1, 2]) = Inr ()" "eval sample_lib sample_data (QUuidIn [1, 2]) = Inr {1, 2}"
    "map snd (sorted_rows sample_data sample_sort {1, 2}) = [2, 1]" by code_simp+
  then have e: "execute sample_lib sample_paging sample_data (QUuidIn [1, 2]) sample_sort None None = Inr ([2, 1], None)"
    by (simp add: execute_def after_cursor_def del: eval.simps)
  have n: "no_nan_rows sample_data sample_sort"
    by (simp add: no_nan_rows_def sample_data_def read_data_def sample_rows_def sample_sort_def)
  have f: "finite (d_universe sample_data)" by (simp add: sample_data_def read_data_def)
  have l: "Suc (length [2, 1 :: uuid]) = 3" by simp
  show ?thesis
    using pages_complete [OF e zero_less_one sample_reads_back n sample_data_ok f] unfolding l by blast
qed



end
