(* ===== verification/Index_Keys.thy ===== *)
theory Index_Keys
  imports Oracle_Sort
begin

text \<open>
  How the query index compares and sorts values (\<open>daemon/index/keys.rs\<close>): the sort representative of
  a value and the unsigned keys numbers and dates are stored under, compared with the order of the
  oracle.
\<close>

unbundle bit_operations_syntax

section \<open>Model\<close>

datatype IndexOp = IEq | INeq | ILt | ILte | IGt | IGte

definition matches_ordering :: "IndexOp \<Rightarrow> Ordering \<Rightarrow> bool" where
  "matches_ordering op ord =
     (case op of
        ILt \<Rightarrow> ord = Less
      | ILte \<Rightarrow> ord \<noteq> Greater
      | IGt \<Rightarrow> ord = Greater
      | IGte \<Rightarrow> ord \<noteq> Less
      | IEq \<Rightarrow> ord = Equal
      | INeq \<Rightarrow> ord \<noteq> Equal)"

datatype SortRep = RBool bool | RNum f64 | RStr string | RDateTime i64 | RRef bytes | RTree string

fun rep_group :: "SortRep \<Rightarrow> nat" where
  "rep_group (RBool _) = 0"
| "rep_group (RNum _) = 1"
| "rep_group (RStr _) = 2"
| "rep_group (RDateTime _) = 3"
| "rep_group (RRef _) = 4"
| "rep_group (RTree _) = 5"

text \<open>\<open>f64::total_cmp\<close>: the bits as a signed number, the magnitude reversed under a sign bit.\<close>

definition total_rank :: "f64 \<Rightarrow> int" where
  "total_rank x = (if f64_neg x then - int (f64_mag x) - 1 else int (f64_mag x))"

fun rep_cmp :: "SortRep \<Rightarrow> SortRep \<Rightarrow> Ordering" where
  "rep_cmp (RBool a) (RBool b) = cmp a b"
| "rep_cmp (RNum a) (RNum b) = cmp (total_rank a) (total_rank b)"
| "rep_cmp (RStr a) (RStr b) = cmp a b"
| "rep_cmp (RDateTime a) (RDateTime b) = cmp (sint a) (sint b)"
| "rep_cmp (RRef a) (RRef b) = cmp a b"
| "rep_cmp (RTree a) (RTree b) = cmp a b"
| "rep_cmp a b = cmp (rep_group a) (rep_group b)"

definition norm_zero :: "f64 \<Rightarrow> f64" where
  "norm_zero f = (if f64_eq f 0 then 0 else f)"

fun sort_rep :: "value \<Rightarrow> SortRep option" where
  "sort_rep (VBool b) = Some (RBool b)"
| "sort_rep (VInt n) = Some (RNum (norm_zero (i64_as_f64 n)))"
| "sort_rep (VFloat f) = Some (RNum (norm_zero f))"
| "sort_rep (VString s) = Some (RStr s)"
| "sort_rep (VDateTime ms) = Some (RDateTime ms)"
| "sort_rep (VRef u) = Some (RRef (uuid_to_bytes u))"
| "sort_rep (VRefBase u) = Some (RRef (uuid_to_bytes u))"
| "sort_rep (VExternalRef _ m) = Some (RRef (uuid_to_bytes m))"
| "sort_rep (VTreeRef _ n) = Some (RTree (display n))"
| "sort_rep (VHierarchyRef _ n) = Some (RTree (display n))"
| "sort_rep Nothing = None"

definition SIGN :: "64 word" where
  "SIGN = 0x8000000000000000"

definition num_key :: "f64 \<Rightarrow> u64" where
  "num_key x0 =
     (let x = norm_zero x0
      in if x AND SIGN = 0 then x XOR SIGN else NOT x)"

definition dt_key :: "i64 \<Rightarrow> u64" where
  "dt_key ms = ms XOR SIGN"

section \<open>The keys keep the order\<close>

lemma SIGN_power: "SIGN = 2 ^ 63" "uint SIGN = 2 ^ 63"
  by (simp_all add: SIGN_def)

lemma sign_bit: "x AND SIGN = 0 \<longleftrightarrow> \<not> bit x 63"
  unfolding SIGN_power by (rule and_exp_eq_0_iff_not_bit)

lemma uint_of_sint: "uint x = (if sint x < 0 then sint x + 2 ^ 64 else sint x)" for x :: "64 word"
proof -
  have "uint x = sint x mod 2 ^ 64" using uint_sint [of x] by (simp add: take_bit_eq_mod)
  moreover have "(sint x + 2 ^ 64) mod 2 ^ 64 = sint x mod 2 ^ 64" by simp
  ultimately show ?thesis using sint_range [of x] by (cases "sint x < 0") (simp_all add: mod_pos_pos_trivial del: mod_add_self2)
qed

lemma bit_63: "bit x 63 \<longleftrightarrow> sint x < 0" for x :: "64 word"
  using bit_last_iff [of x] by simp

lemma bit_63_uint: "bit x 63 \<longleftrightarrow> 2 ^ 63 \<le> uint x" for x :: "64 word"
  unfolding bit_63 using uint_of_sint [of x] sint_range [of x] by (auto split: if_splits)

lemma xor_SIGN_low:
  assumes "\<not> bit x 63"
  shows "uint (x XOR SIGN) = uint x + 2 ^ 63"
proof -
  have "x XOR SIGN = x + SIGN" using assms sign_bit by (simp add: disjunctive_add_eq_xor)
  moreover have "uint x < 2 ^ 63" using assms bit_63_uint by simp
  ultimately show ?thesis by (simp add: uint_plus_if' SIGN_power)
qed

lemma xor_SIGN_high:
  assumes "bit x 63"
  shows "uint (x XOR SIGN) = uint x - 2 ^ 63"
proof -
  have "\<not> bit (x XOR SIGN) 63" using assms unfolding SIGN_power by (simp add: bit_simps)
  from xor_SIGN_low [OF this] show ?thesis by (simp add: xor.assoc)
qed

lemma uint_not: "uint (NOT x) = 2 ^ 64 - 1 - uint x" for x :: "64 word"
proof -
  have "NOT x = - 1 - x" by (simp add: not_eq_complement)
  moreover have "uint (- 1 :: 64 word) = 2 ^ 64 - 1" by (simp add: unsigned_minus_1_eq_mask mask_eq_exp_minus_1)
  moreover have "uint x \<le> 2 ^ 64 - 1" using uint_lt2p [of x] by simp
  ultimately show ?thesis by (simp add: uint_sub_if')
qed

lemma f64_neg_bit: "f64_neg x \<longleftrightarrow> bit x 63"
proof -
  have "int (2 ^ 63) \<le> int (unat x) \<longleftrightarrow> 2 ^ 63 \<le> unat x" by (rule of_nat_le_iff)
  then show ?thesis unfolding bit_63_uint f64_neg_def uint_nat by (simp only: of_nat_power of_nat_numeral)
qed

lemma f64_mag_bits: "int (f64_mag x) = (if bit x 63 then uint x - 2 ^ 63 else uint x)"
proof -
  have b: "0 \<le> uint x" "uint x < 2 ^ 64" using uint_lt2p [of x] by simp_all
  show ?thesis
  proof (cases "2 ^ 63 \<le> uint x")
    case True
    have "uint x mod 2 ^ 63 = (uint x - 2 ^ 63) mod 2 ^ 63" by (rule minus_mod_self2 [symmetric])
    also have "\<dots> = uint x - 2 ^ 63" using True b by (intro mod_pos_pos_trivial) simp_all
    finally show ?thesis using True unfolding f64_mag_int bit_63_uint by simp
  next
    case False
    then show ?thesis using b unfolding f64_mag_int bit_63_uint by simp
  qed
qed

lemma num_key_rank: "uint (num_key x) = 2 ^ 63 + total_rank (norm_zero x)"
proof -
  define y where "y = norm_zero x"
  show ?thesis
  proof (cases "bit y 63")
    case True
    then show ?thesis
      by (simp add: num_key_def Let_def y_def [symmetric] sign_bit total_rank_def f64_neg_bit f64_mag_bits uint_not)
  next
    case False
    then show ?thesis
      by (simp add: num_key_def Let_def y_def [symmetric] sign_bit total_rank_def f64_neg_bit f64_mag_bits xor_SIGN_low)
  qed
qed

lemma norm_rank:
  assumes "\<not> f64_nan x"
  shows "total_rank (norm_zero x) = (if 0 \<le> f64_rank x then f64_rank x else f64_rank x - 1)"
proof -
  have z: "f64_mag 0 = 0" "\<not> f64_nan 0" "\<not> f64_neg 0" by (simp_all add: f64_mag_def f64_nan_def f64_neg_def)
  have "f64_eq x 0 \<longleftrightarrow> f64_mag x = 0" using assms z by (auto simp: f64_eq_def)
  then show ?thesis using z by (auto simp: norm_zero_def total_rank_def f64_rank_def)
qed

lemma cmp_strict:
  fixes f :: "'a::linorder \<Rightarrow> 'b::linorder"
  assumes "\<And>a b. a < b \<Longrightarrow> f a < f b"
  shows "cmp (f a) (f b) = cmp a b"
proof (cases a b rule: linorder_cases)
  case less then show ?thesis using assms [OF less] by (simp add: cmp_def)
next
  case equal then show ?thesis by (simp add: cmp_def)
next
  case greater then show ?thesis using assms [OF greater] by (auto simp: cmp_def)
qed

lemma cmp_uint: "cmp x y = cmp (uint x) (uint y)" for x y :: "64 word"
  unfolding cmp_def word_less_def word_uint_eq_iff ..

lemma norm_rank_cmp:
  assumes "\<not> f64_nan x" "\<not> f64_nan y"
  shows "cmp (total_rank (norm_zero x)) (total_rank (norm_zero y)) = cmp (f64_rank x) (f64_rank y)"
  unfolding norm_rank [OF assms(1)] norm_rank [OF assms(2)]
  by (rule cmp_strict [where f = "\<lambda>r. if 0 \<le> r then r else r - 1"]) simp

lemma num_key_cmp:
  assumes "\<not> f64_nan x" "\<not> f64_nan y"
  shows "cmp (num_key x) (num_key y) = cmp (f64_rank x) (f64_rank y)"
  unfolding cmp_uint num_key_rank norm_rank_cmp [OF assms, symmetric]
  by (rule cmp_strict) simp

lemma dt_key_sint: "uint (dt_key ms) = sint ms + 2 ^ 63"
proof (cases "sint ms < 0")
  case True
  then have "uint (dt_key ms) = uint ms - 2 ^ 63" using xor_SIGN_high [of ms] by (simp add: dt_key_def bit_63)
  moreover have "uint ms = sint ms + 2 ^ 64" using uint_of_sint [of ms] True by simp
  ultimately show ?thesis by simp
next
  case False
  then have "uint (dt_key ms) = uint ms + 2 ^ 63" using xor_SIGN_low [of ms] by (simp add: dt_key_def bit_63)
  moreover have "uint ms = sint ms" using uint_of_sint [of ms] False by simp
  ultimately show ?thesis by simp
qed

text \<open>C27: The keys numbers and dates are stored under keep the order: two numbers compare as their keys
  do, the two zeros having one key, and two dates as theirs. So a range of keys is a range of
  values.\<close>

theorem key_order:
  assumes "\<not> f64_nan x" "\<not> f64_nan y"
  shows "Some (cmp (num_key x) (num_key y)) = f64_partial_cmp x y \<and> cmp (dt_key a) (dt_key b) = cmp (sint a) (sint b)"
proof
  show "Some (cmp (num_key x) (num_key y)) = f64_partial_cmp x y"
    using assms by (simp add: num_key_cmp f64_partial_cmp_def)
  show "cmp (dt_key a) (dt_key b) = cmp (sint a) (sint b)"
    unfolding cmp_uint dt_key_sint by (rule cmp_strict) simp
qed

theorem key_order_witness:
  "cmp (num_key 0x8000000000000000) (num_key 0) = Equal \<and> cmp (dt_key (- 5)) (dt_key 3) = Less"
proof -
  have "\<not> f64_nan 0x8000000000000000" "\<not> f64_nan 0" "f64_partial_cmp 0x8000000000000000 0 = Some Equal" by code_simp+
  with key_order [of "0x8000000000000000" 0 "- 5" 3] show ?thesis by simp
qed

section \<open>The representatives are the oracle's sort values\<close>

text \<open>Values a field can hold together and whose place does not hang on a path.\<close>

fun comparable_rep :: "value \<Rightarrow> bool" where
  "comparable_rep (VFloat f) \<longleftrightarrow> \<not> f64_nan f"
| "comparable_rep (VDateTime ms) \<longleftrightarrow> \<bar>sint ms\<bar> \<le> 2 ^ 53"
| "comparable_rep (VTreeRef _ _) \<longleftrightarrow> False"
| "comparable_rep (VHierarchyRef _ _) \<longleftrightarrow> False"
| "comparable_rep _ \<longleftrightarrow> True"

fun rep_of_sort_value :: "SortRep \<Rightarrow> SortValue \<Rightarrow> bool" where
  "rep_of_sort_value (RBool b) sv \<longleftrightarrow> sv = (0, Some (i64_as_f64 (if b then 1 else 0)), None, None)"
| "rep_of_sort_value (RNum x) sv \<longleftrightarrow> (\<exists>f. x = norm_zero f \<and> \<not> f64_nan f \<and> sv = (1, Some f, None, None))"
| "rep_of_sort_value (RStr s) sv \<longleftrightarrow> sv = (2, None, Some s, None)"
| "rep_of_sort_value (RDateTime ms) sv \<longleftrightarrow> \<bar>sint ms\<bar> \<le> 2 ^ 53 \<and> sv = (3, Some (i64_as_f64 ms), None, None)"
| "rep_of_sort_value (RRef b) sv \<longleftrightarrow> sv = (4, None, None, Some b)"
| "rep_of_sort_value (RTree _) sv \<longleftrightarrow> False"

lemma sort_rep_value:
  assumes "comparable_rep v" "sort_rep v = Some r" "sort_value ps v = Some sv"
  shows "rep_of_sort_value r sv"
  using assms by (cases v) (auto simp: sort_value_def i64_as_f64_rank(1))

lemma i64_as_f64_cmp:
  assumes "\<bar>sint m\<bar> \<le> 2 ^ 53" "\<bar>sint n\<bar> \<le> 2 ^ 53"
  shows "cmp_f64 (i64_as_f64 m) (i64_as_f64 n) = cmp (sint m) (sint n)"
proof -
  have b: "- (2 ^ 53) \<le> sint m" "sint m \<le> 2 ^ 53" "- (2 ^ 53) \<le> sint n" "sint n \<le> 2 ^ 53" using assms by linarith+
  have r: "- (2 ^ 63) \<le> sint m" "sint m \<le> 2 ^ 63" "- (2 ^ 63) \<le> sint n" "sint n \<le> 2 ^ 63"
    using sint_range [of m] sint_range [of n] by linarith+
  have "cmp (signed_rank (sint m)) (signed_rank (sint n)) = cmp (sint m) (sint n)"
    using signed_rank_mono(2) [of "sint m" "sint n", OF _ r(1) r(4) _ b(1) b(4)] signed_rank_mono(2) [of "sint n" "sint m", OF _ r(3) r(2) _ b(3) b(2)]
    by (cases "sint m" "sint n" rule: linorder_cases) (auto simp: cmp_def)
  then show ?thesis by (simp add: cmp_f64_def f64_partial_cmp_def i64_as_f64_rank)
qed

lemma i64_as_f64_bool: "cmp_f64 (i64_as_f64 (if a then 1 else 0)) (i64_as_f64 (if b then 1 else 0)) = cmp a b"
  by (subst i64_as_f64_cmp) (simp_all add: cmp_def)

lemma cmp_f64_norm:
  assumes "\<not> f64_nan x" "\<not> f64_nan y"
  shows "cmp_f64 x y = cmp (total_rank (norm_zero x)) (total_rank (norm_zero y))"
  using assms by (simp add: cmp_f64_def f64_partial_cmp_def norm_rank_cmp)

lemma rep_cmp_sort_values:
  assumes "rep_of_sort_value r sv" "rep_of_sort_value r' sv'"
  shows "rep_cmp r r' = cmp_sort_values sv sv'"
  using assms
  by (cases r; cases r')
    (auto simp: cmp_sort_values_def then_with_def cmp_opt_def cmp_f64_norm i64_as_f64_cmp i64_as_f64_bool cmp_def)

text \<open>The order in which the index sorts values is the order the oracle sorts them in, for every pair
  of values whose place does not depend on the forest, dates being within the numbers a float holds
  exactly.\<close>

theorem sort_rep_order:
  assumes "comparable_rep v" "comparable_rep v'" "sort_rep v = Some r" "sort_rep v' = Some r'"
  assumes "sort_value ps v = Some sv" "sort_value ps v' = Some sv'"
  shows "rep_cmp r r' = cmp_sort_values sv sv'"
  using assms sort_rep_value rep_cmp_sort_values by blast

theorem sort_rep_order_witness:
  "rep_cmp (RNum (norm_zero (i64_as_f64 3))) (RStr ''a'') = cmp_sort_values (1, Some (i64_as_f64 3), None, None) (2, None, Some ''a'', None)"
  by (rule sort_rep_order [of "VInt 3" "VString ''a''" _ _ "[]"]) (simp_all add: sort_value_def)

end
