(* ===== verification/Index_Eval.thy ===== *)
theory Index_Eval
  imports Index_Keys
begin

text \<open>
  The query evaluator of the daemon (\<open>daemon/index/mod.rs\<close>, \<open>daemon/index/plan.rs\<close>): a query answered as a
  set of dense ids over a source of such sets (\<open>daemon/index/source.rs\<close>). The source is a record of
  its operations; what it promises of the data it serves is the locale \<open>data_source\<close>. A bitmap is
  the set of its ids.
\<close>

section \<open>The source\<close>

type_synonym ids = "nat set"

datatype Follow = FollowNone | FollowDirect | FollowTree

datatype index_error =
    AspectParent
  | AspectPath
  | EmptyOperands
  | ComparedNothing
  | OrderedTree
  | UnresolvedNode
  | UnresolvedParent
  | PathTargets
  | MatchesTree
  | OrderedBool
  | OrderedReference
  | BadIndexPattern string
  | OsmNotTree
  | OsmTerms
  | IdsExhausted

record source =
  s_universe :: ids
  s_present :: "string \<Rightarrow> ids"
  s_absent :: "string \<Rightarrow> ids"
  s_value_type :: "string \<Rightarrow> string option"
  s_id :: "uuid \<Rightarrow> nat option"
  s_uuid :: "nat \<Rightarrow> uuid option"
  s_compare :: "string \<Rightarrow> IndexOp \<Rightarrow> value \<Rightarrow> ids option \<Rightarrow> index_error + ids"
  s_same_as :: "string \<Rightarrow> ids \<Rightarrow> ids"
  s_scan_text :: "string \<Rightarrow> (string \<Rightarrow> bool) \<Rightarrow> string list \<Rightarrow> ids option \<Rightarrow> ids"
  s_scan_names :: "string \<Rightarrow> (string \<Rightarrow> bool) \<Rightarrow> string list \<Rightarrow> ids option \<Rightarrow> ids"
  s_follow :: "string \<Rightarrow> Follow option"
  s_referrers :: "string \<Rightarrow> uuid \<Rightarrow> ids option"
  s_tree_roots :: "string \<Rightarrow> ids"
  s_tree_parents_except :: "string \<Rightarrow> uuid option \<Rightarrow> ids"
  s_parents :: "string \<Rightarrow> ids"
  s_descendants :: "string \<Rightarrow> ids \<Rightarrow> ids option"

text \<open>The seeds the caller resolved through the forest.\<close>

record QueryRoots =
  r_path :: "string \<times> string \<Rightarrow> uuid option"
  r_node :: "string \<times> string \<Rightarrow> uuid option option"

text \<open>What the evaluator asks of \<open>daemon/regexp.rs\<close> besides the patterns of \<open>text_lib\<close>.\<close>

record index_lib = text_lib +
  required_literals :: "string \<Rightarrow> string list"

section \<open>The planner\<close>

definition PROBE_COST :: nat where
  "PROBE_COST = 4"

text \<open>\<open>saturating_mul\<close> on \<open>u64\<close>.\<close>

definition probes :: "nat \<Rightarrow> nat \<Rightarrow> bool" where
  "probes candidates holder_count \<longleftrightarrow> min (candidates * PROBE_COST) (2 ^ 64 - 1) < holder_count"

definition is_scan :: "Query \<Rightarrow> bool" where
  "is_scan q =
     (case q of
        QMatches _ _ _ \<Rightarrow> True
      | QOsm _ _ mode \<Rightarrow> mode = Direct
      | QNeq _ _ _ \<Rightarrow> True
      | QLt _ _ _ \<Rightarrow> True
      | QLte _ _ _ \<Rightarrow> True
      | QGt _ _ _ \<Rightarrow> True
      | QGte _ _ _ \<Rightarrow> True
      | _ \<Rightarrow> False)"

definition and_order :: "Query list \<Rightarrow> Query list" where
  "and_order qs = filter (\<lambda>q. \<not> is_scan q) qs @ filter is_scan qs"

lemma set_and_order [simp]: "set (and_order qs) = set qs"
  by (auto simp: and_order_def)

lemma and_order_Nil [simp]: "and_order qs = [] \<longleftrightarrow> qs = []"
  by (metis set_and_order set_empty)

section \<open>Collecting what the caller resolves\<close>

fun collect_path_targets :: "Query \<Rightarrow> (string \<times> string) list"
  and collect_follow_targets :: "string \<Rightarrow> FollowTarget \<Rightarrow> (string \<times> string) list" where
  "collect_path_targets (QFollows field g) = collect_follow_targets field g"
| "collect_path_targets (QFollowsTransitive field g _) = collect_follow_targets field g"
| "collect_path_targets (QAnd qs) = concat (map collect_path_targets qs)"
| "collect_path_targets (QOr qs) = concat (map collect_path_targets qs)"
| "collect_path_targets (QNot q) = collect_path_targets q"
| "collect_path_targets (QSameAs _ q) = collect_path_targets q"
| "collect_path_targets _ = []"
| "collect_follow_targets field (FPath p) = [(field, p)]"
| "collect_follow_targets field (FCondition c) = collect_path_targets c"

definition node_path :: "string \<Rightarrow> value \<Rightarrow> Aspect \<Rightarrow> (string \<times> string) list" where
  "node_path field v aspect =
     (case v of VString s \<Rightarrow> if aspect = Raw \<or> aspect = AParent then [(field, s)] else [] | _ \<Rightarrow> [])"

fun collect_node_paths :: "Query \<Rightarrow> (string \<times> string) list"
  and collect_node_target :: "FollowTarget \<Rightarrow> (string \<times> string) list" where
  "collect_node_paths (QEq field v aspect) = node_path field v aspect"
| "collect_node_paths (QNeq field v aspect) = node_path field v aspect"
| "collect_node_paths (QAnd qs) = concat (map collect_node_paths qs)"
| "collect_node_paths (QOr qs) = concat (map collect_node_paths qs)"
| "collect_node_paths (QIn field vs aspect) = concat (map (\<lambda>v. node_path field v aspect) vs)"
| "collect_node_paths (QNot q) = collect_node_paths q"
| "collect_node_paths (QFollows _ g) = collect_node_target g"
| "collect_node_paths (QFollowsTransitive _ g _) = collect_node_target g"
| "collect_node_paths (QSameAs _ q) = collect_node_paths q"
| "collect_node_paths _ = []"
| "collect_node_target (FPath _) = []"
| "collect_node_target (FCondition c) = collect_node_paths c"

section \<open>Leaves\<close>

definition restricted :: "ids option \<Rightarrow> ids \<Rightarrow> ids" where
  "restricted r s = (case r of None \<Rightarrow> s | Some c \<Rightarrow> s \<inter> c)"

definition tree_type :: "string option \<Rightarrow> bool" where
  "tree_type t \<longleftrightarrow> (case t of Some t \<Rightarrow> is_position_type t | None \<Rightarrow> False)"

definition index_servable_aspect :: "Aspect \<Rightarrow> index_error + unit" where
  "index_servable_aspect aspect =
     (case aspect of Raw \<Rightarrow> Inr () | AValue \<Rightarrow> Inr () | AParent \<Rightarrow> Inl AspectParent | APath \<Rightarrow> Inl AspectPath)"

definition parent_presence :: "source \<Rightarrow> string \<Rightarrow> bool \<Rightarrow> index_error + ids" where
  "parent_presence S field present =
     (case s_follow S field of
        None \<Rightarrow> Inr {}
      | Some FollowTree \<Rightarrow> Inr (if present then s_tree_parents_except S field (Some ZERO_UUID) else s_tree_roots S field)
      | Some _ \<Rightarrow> Inl AspectParent)"

definition path_presence :: "source \<Rightarrow> string \<Rightarrow> bool \<Rightarrow> index_error + ids" where
  "path_presence S field present =
     (if s_value_type S field \<noteq> None \<and> \<not> tree_type (s_value_type S field) then Inl AspectPath
      else Inr (if present then s_present S field else s_absent S field))"

definition presence_at :: "source \<Rightarrow> string \<Rightarrow> Aspect \<Rightarrow> bool \<Rightarrow> index_error + ids" where
  "presence_at S field aspect present =
     (case aspect of
        AParent \<Rightarrow> parent_presence S field present
      | APath \<Rightarrow> path_presence S field present
      | _ \<Rightarrow> bindE (index_servable_aspect aspect) (\<lambda>_. Inr (if present then s_present S field else s_absent S field)))"

definition parent_compare :: "source \<Rightarrow> QueryRoots option \<Rightarrow> string \<Rightarrow> IndexOp \<Rightarrow> value \<Rightarrow> index_error + ids" where
  "parent_compare S roots field op v =
     (if op \<noteq> IEq \<and> op \<noteq> INeq then Inl AspectParent
      else case v of
        VString path \<Rightarrow>
          (case s_follow S field of
             None \<Rightarrow> Inr {}
           | Some FollowTree \<Rightarrow>
               (case Option.bind roots (\<lambda>r. r_node r (field, path)) of
                  None \<Rightarrow> Inl UnresolvedParent
                | Some resolved \<Rightarrow>
                    Inr (if op = IEq
                         then (case resolved of
                                 None \<Rightarrow> {}
                               | Some node \<Rightarrow> (case s_referrers S field node of Some b \<Rightarrow> b | None \<Rightarrow> {}))
                         else s_tree_parents_except S field resolved))
           | Some _ \<Rightarrow> Inl AspectParent)
      | _ \<Rightarrow> Inl AspectParent)"

definition exact_node :: "source \<Rightarrow> string \<Rightarrow> uuid option \<Rightarrow> ids" where
  "exact_node S field node =
     (case node of
        None \<Rightarrow> {}
      | Some u \<Rightarrow> (case s_id S u of Some i \<Rightarrow> {i} \<inter> s_present S field | None \<Rightarrow> {}))"

definition index_compare ::
    "source \<Rightarrow> QueryRoots option \<Rightarrow> string \<Rightarrow> IndexOp \<Rightarrow> value \<Rightarrow> Aspect \<Rightarrow> ids option \<Rightarrow> index_error + ids" where
  "index_compare S roots field op v aspect r =
     (if v = Nothing then Inl ComparedNothing
      else if aspect = AParent then parent_compare S roots field op v
      else bindE (index_servable_aspect aspect) (\<lambda>_.
        if aspect = Raw \<and> op \<noteq> IEq \<and> op \<noteq> INeq \<and> tree_type (s_value_type S field) then Inl OrderedTree
        else (case v of
          VString s \<Rightarrow>
            if (op = IEq \<or> op = INeq) \<and> aspect = Raw \<and> tree_type (s_value_type S field)
            then (case Option.bind roots (\<lambda>q. r_node q (field, s)) of
                    None \<Rightarrow> Inl UnresolvedNode
                  | Some node \<Rightarrow>
                      (let eq = exact_node S field node
                       in Inr (if op = IEq then eq else s_present S field - eq)))
            else s_compare S field op v r
        | _ \<Rightarrow> s_compare S field op v r)))"

definition text_scan :: "source \<Rightarrow> index_lib \<Rightarrow> string \<Rightarrow> string \<Rightarrow> ids option \<Rightarrow> index_error + ids" where
  "text_scan S lib field pattern r =
     (if s_follow S field = None then Inr {}
      else bindE (optE (compile lib pattern) (BadIndexPattern pattern)) (\<lambda>re.
             Inr (s_scan_text S field re (required_literals lib pattern) r)))"

section \<open>Traversals\<close>

definition resolved_root :: "QueryRoots option \<Rightarrow> string \<Rightarrow> string \<Rightarrow> index_error + uuid option" where
  "resolved_root roots field path =
     (case roots of None \<Rightarrow> Inl PathTargets | Some r \<Rightarrow> Inr (r_path r (field, path)))"

definition referrers_of :: "source \<Rightarrow> string \<Rightarrow> uuid set \<Rightarrow> ids" where
  "referrers_of S field us = (\<Union>u\<in>us. case s_referrers S field u of Some b \<Rightarrow> b | None \<Rightarrow> {})"

definition uuids_at :: "source \<Rightarrow> ids \<Rightarrow> uuid set" where
  "uuids_at S is = (\<Union>i\<in>is. case s_uuid S i of Some u \<Rightarrow> {u} | None \<Rightarrow> {})"

definition follow_from :: "source \<Rightarrow> string \<Rightarrow> uuid set \<Rightarrow> ids" where
  "follow_from S field targets =
     (if s_follow S field = Some FollowDirect \<or> s_follow S field = Some FollowTree
      then referrers_of S field targets else {})"

text \<open>
  The levels of a subtree: each turn but the last finds ids not met before, so a turn per id of the
  universe and one more are enough.
\<close>

fun grow :: "nat \<Rightarrow> source \<Rightarrow> string \<Rightarrow> ids \<Rightarrow> ids \<Rightarrow> ids" where
  "grow 0 S field result frontier = result"
| "grow (Suc fuel) S field result frontier =
     (if frontier = {} then result
      else (let next = referrers_of S field (uuids_at S (frontier \<inter> s_parents S field)) - result
            in grow fuel S field (result \<union> next) next))"

definition expand_subtrees :: "source \<Rightarrow> string \<Rightarrow> ids \<Rightarrow> bool \<Rightarrow> ids" where
  "expand_subtrees S field frontier inclusive =
     (let result = (if inclusive then frontier \<inter> s_universe S else {})
      in case s_descendants S field frontier of
           Some deeper \<Rightarrow> result \<union> deeper
         | None \<Rightarrow> grow (Suc (Suc (card (s_universe S)))) S field result frontier)"

definition transitive_from :: "source \<Rightarrow> string \<Rightarrow> bool \<Rightarrow> ids \<Rightarrow> ids" where
  "transitive_from S field inclusive frontier =
     (if s_follow S field \<noteq> Some FollowTree then {} else expand_subtrees S field frontier inclusive)"

definition osm_path_indexable :: "string list \<Rightarrow> string option" where
  "osm_path_indexable ts = (case ts of [only] \<Rightarrow> if CHR ''/'' \<in> set only then None else Some only | _ \<Rightarrow> None)"

definition index_osm_path :: "source \<Rightarrow> index_lib \<Rightarrow> string \<Rightarrow> string list \<Rightarrow> index_error + ids" where
  "index_osm_path S lib field ts =
     (if s_value_type S field \<noteq> None \<and> \<not> tree_type (s_value_type S field) then Inl OsmNotTree
      else if ts = [] then Inr (s_present S field)
      else bindE (optE (osm_path_indexable ts) OsmTerms) (\<lambda>term.
        if s_follow S field \<noteq> Some FollowTree then Inr {}
        else bindE (optE (compile lib (''(?i)'' @ escape lib term)) (BadIndexPattern term)) (\<lambda>re.
               Inr (expand_subtrees S field (s_scan_names S field re [lower lib term] None) True))))"

section \<open>Evaluation\<close>

text \<open>The running intersection of an \<open>and\<close>: each operand is evaluated within what is left.\<close>

fun and_loop :: "(Query \<Rightarrow> ids option \<Rightarrow> index_error + ids) \<Rightarrow> Query list \<Rightarrow> ids option \<Rightarrow> index_error + ids option" where
  "and_loop f [] acc = Inr acc"
| "and_loop f (q # qs) acc =
     (if acc = Some {} then Inr acc
      else bindE (f q acc) (\<lambda>bm. and_loop f qs (Some (restricted acc bm))))"

lemma and_loop_cong [fundef_cong]:
  "qs = qs' \<Longrightarrow> acc = acc' \<Longrightarrow> (\<And>q r. q \<in> set qs' \<Longrightarrow> f q r = g q r) \<Longrightarrow> and_loop f qs acc = and_loop g qs' acc'"
  by (induction qs' arbitrary: qs acc acc') (auto intro!: bindE_cong)

lemma foldE_cong [fundef_cong]:
  "xs = ys \<Longrightarrow> s = t \<Longrightarrow> (\<And>x s. x \<in> set ys \<Longrightarrow> f x s = g x s) \<Longrightarrow> foldE f xs s = foldE g ys t"
  by (induction ys arbitrary: xs s t) (auto intro!: bindE_cong)

definition narrowed :: "ids option \<Rightarrow> index_error + ids \<Rightarrow> index_error + ids" where
  "narrowed r m = bindE m (\<lambda>bm. Inr (restricted r bm))"

lemma narrowed_cong [fundef_cong]: "r = r' \<Longrightarrow> m = m' \<Longrightarrow> narrowed r m = narrowed r' m'"
  by simp

lemma size_in_operands [termination_simp]: "q \<in> set qs \<Longrightarrow> size q < Suc (size_list size qs)"
  by (induction qs) auto

fun index_eval :: "source \<Rightarrow> index_lib \<Rightarrow> QueryRoots option \<Rightarrow> Query \<Rightarrow> ids option \<Rightarrow> index_error + ids" where
  "index_eval S lib roots (QIsPresent field aspect) r = narrowed r (presence_at S field aspect True)"
| "index_eval S lib roots (QIsAbsent field aspect) r = narrowed r (presence_at S field aspect False)"
| "index_eval S lib roots (QIsUnknown field) r = narrowed r (Inr (s_universe S - s_present S field - s_absent S field))"
| "index_eval S lib roots (QEq field v aspect) r = narrowed r (index_compare S roots field IEq v aspect r)"
| "index_eval S lib roots (QNeq field v aspect) r = narrowed r (index_compare S roots field INeq v aspect r)"
| "index_eval S lib roots (QLt field v aspect) r = narrowed r (index_compare S roots field ILt v aspect r)"
| "index_eval S lib roots (QLte field v aspect) r = narrowed r (index_compare S roots field ILte v aspect r)"
| "index_eval S lib roots (QGt field v aspect) r = narrowed r (index_compare S roots field IGt v aspect r)"
| "index_eval S lib roots (QGte field v aspect) r = narrowed r (index_compare S roots field IGte v aspect r)"
| "index_eval S lib roots (QIn field vs aspect) r =
     narrowed r (foldE (\<lambda>v acc. bindE (narrowed r (index_compare S roots field IEq v aspect r)) (\<lambda>b. Inr (acc \<union> b))) vs {})"
| "index_eval S lib roots (QAnd qs) r =
     narrowed r (if qs = [] then Inl EmptyOperands
                 else bindE (and_loop (\<lambda>q r. index_eval S lib roots q r) (and_order qs) r) (\<lambda>acc. Inr (the acc)))"
| "index_eval S lib roots (QOr qs) r =
     narrowed r (bindE (foldE (\<lambda>q acc. bindE (index_eval S lib roots q r) (\<lambda>b. Inr (acc \<union> b))) qs {}) (\<lambda>acc.
       if qs = [] then Inl EmptyOperands else Inr acc))"
| "index_eval S lib roots (QNot q) r =
     narrowed r (bindE (index_eval S lib roots q None) (\<lambda>b. Inr (restricted r (s_universe S - b))))"
| "index_eval S lib roots (QFollows field (FPath p)) r =
     narrowed r (bindE (resolved_root roots field p) (\<lambda>root.
       Inr (case root of None \<Rightarrow> {} | Some u \<Rightarrow> follow_from S field {u})))"
| "index_eval S lib roots (QFollows field (FCondition c)) r =
     narrowed r (bindE (index_eval S lib roots c None) (\<lambda>b. Inr (follow_from S field (uuids_at S b))))"
| "index_eval S lib roots (QSameAs field q) r =
     narrowed r (bindE (index_eval S lib roots q None) (\<lambda>seed. Inr (if seed = {} then {} else s_same_as S field seed)))"
| "index_eval S lib roots (QFollowsTransitive field (FPath p) inclusive) r =
     narrowed r (bindE (resolved_root roots field p) (\<lambda>root.
       Inr (case Option.bind root (s_id S) of None \<Rightarrow> {} | Some i \<Rightarrow> transitive_from S field inclusive {i})))"
| "index_eval S lib roots (QFollowsTransitive field (FCondition c) inclusive) r =
     narrowed r (bindE (index_eval S lib roots c None) (\<lambda>b. Inr (transitive_from S field inclusive b)))"
| "index_eval S lib roots (QOsm field ts PathMode) r = narrowed r (index_osm_path S lib field ts)"
| "index_eval S lib roots (QUuidIn us) r =
     narrowed r (Inr (set (List.map_filter (s_id S) us) \<inter> s_universe S))"
| "index_eval S lib roots (QMatches field pattern aspect) r =
     narrowed r (bindE (index_servable_aspect aspect) (\<lambda>_.
       if aspect = Raw \<and> tree_type (s_value_type S field) then Inl MatchesTree
       else text_scan S lib field pattern r))"
| "index_eval S lib roots (QOsm field ts Direct) r =
     narrowed r (text_scan S lib field (osm_regex (text_lib.truncate lib) ts) r)"

end
