(* ===== verification/Index_Laws.thy ===== *)
theory Index_Laws
  imports Index_Eval
begin

text \<open>
  The daemon's evaluator answers as the oracle does: over any source that keeps its promises, the ids
  it returns are those of the metarecords the oracle returns.
\<close>

section \<open>What a source promises\<close>

definition ids_of :: "source \<Rightarrow> uuid set \<Rightarrow> ids" where
  "ids_of S us = {i. \<exists>u\<in>us. s_id S u = Some i}"

text \<open>The uuid a value points at, a root at the zero uuid.\<close>

definition target_of :: "value \<Rightarrow> uuid option" where
  "target_of v =
     (case v of
        VRef u \<Rightarrow> Some u
      | _ \<Rightarrow> (case position v of Some (parent, _) \<Rightarrow> Some (case parent of None \<Rightarrow> ZERO_UUID | Some p \<Rightarrow> p) | None \<Rightarrow> None))"

definition follow_of :: "string \<Rightarrow> Follow" where
  "follow_of t = (if is_position_type t then FollowTree else if t = ''ref'' then FollowDirect else FollowNone)"

fun oracle_op :: "IndexOp \<Rightarrow> CmpOp" where
  "oracle_op IEq = CEq"
| "oracle_op INeq = CEq"
| "oracle_op ILt = CLt"
| "oracle_op ILte = CLte"
| "oracle_op IGt = CGt"
| "oracle_op IGte = CGte"

definition row_test :: "IndexOp \<Rightarrow> (uuid \<Rightarrow> value \<Rightarrow> bool) \<Rightarrow> uuid \<Rightarrow> value \<Rightarrow> bool" where
  "row_test op pred u v \<longleftrightarrow> (if op = INeq then v \<noteq> Nothing \<and> \<not> pred u v else pred u v)"

definition shares :: "Data \<Rightarrow> string \<Rightarrow> uuid set \<Rightarrow> uuid set" where
  "shares d field targets =
     (let wanted = map (\<lambda>(_, r). row_value r) (filter (\<lambda>(u, r). u \<in> targets \<and> row_value r \<noteq> Nothing) (d_rows d field))
      in holders d field (\<lambda>_ v. v \<noteq> Nothing \<and> list_ex (same_value v) wanted))"

definition contains_all :: "string list \<Rightarrow> string \<Rightarrow> bool" where
  "contains_all ls t \<longleftrightarrow> (\<forall>l\<in>set ls. find_sub l t \<noteq> None)"

text \<open>
  Rows of existing metarecords, one value type per field, no metarecord of the zero uuid and no
  position under it: what the writes of the daemon keep.
\<close>

definition data_wf :: "Data \<Rightarrow> bool" where
  "data_wf d \<longleftrightarrow> data_ok d \<and> finite (d_universe d) \<and> ZERO_UUID \<notin> d_universe d \<and>
     (\<forall>field. \<forall>(u, r)\<in>set (d_rows d field).
        (\<forall>(u', r')\<in>set (d_rows d field). row_value r \<noteq> Nothing \<longrightarrow> row_value r' \<noteq> Nothing \<longrightarrow>
           type_str (row_value r) = type_str (row_value r')) \<and>
        (\<forall>p n. position (row_value r) = Some (p, n) \<longrightarrow> p \<noteq> Some ZERO_UUID))"

text \<open>
  \<open>fit\<close> are the operands the source compares as the rows do. \<open>literals_required\<close> is what \<open>regexp.rs\<close>
  documents of the literals it extracts: every text the pattern accepts holds them, ignoring case.
\<close>

locale data_source =
  fixes src :: "'st \<Rightarrow> source" and data :: "'st \<Rightarrow> Data" and lib :: "'st \<Rightarrow> index_lib"
    and fit :: "'st \<Rightarrow> string \<Rightarrow> value \<Rightarrow> bool" and good :: "'st \<Rightarrow> bool"
  assumes wf: "good x \<Longrightarrow> data_wf (data x)"
    and id_uuid: "good x \<Longrightarrow> s_id (src x) u = Some i \<longleftrightarrow> s_uuid (src x) i = Some u"
    and id_universe: "good x \<Longrightarrow> s_id (src x) u \<noteq> None \<longleftrightarrow> u \<in> d_universe (data x)"
    and universe: "good x \<Longrightarrow> s_universe (src x) = ids_of (src x) (d_universe (data x))"
    and present: "good x \<Longrightarrow> s_present (src x) field = ids_of (src x) (holders (data x) field (\<lambda>_ v. v \<noteq> Nothing))"
    and absent: "good x \<Longrightarrow> s_absent (src x) field = ids_of (src x) (holders (data x) field (\<lambda>_ v. v = Nothing))"
    and value_type: "good x \<Longrightarrow> s_value_type (src x) field = data_type (data x) field"
    and follow: "good x \<Longrightarrow> s_follow (src x) field = map_option follow_of (data_type (data x) field)"
    and compares: "good x \<Longrightarrow> fit x field v \<Longrightarrow> s_compare (src x) field op v r = Inr b \<Longrightarrow>
      row_predicate (data x) field v (oracle_op op) AValue = Inr pred \<Longrightarrow>
      restricted r b = restricted r (ids_of (src x) (holders (data x) field (row_test op pred)))"
    and same_as: "good x \<Longrightarrow> us \<subseteq> d_universe (data x) \<Longrightarrow>
      s_same_as (src x) field (ids_of (src x) us) = ids_of (src x) (shares (data x) field us)"
    and scan_text: "good x \<Longrightarrow> (\<And>t. keep t \<Longrightarrow> contains_all ls (lower (lib x) t)) \<Longrightarrow>
      restricted r (s_scan_text (src x) field keep ls r) =
        restricted r (ids_of (src x) (holders (data x) field (\<lambda>_. text_matches keep)))"
    and referrers: "good x \<Longrightarrow> (case s_referrers (src x) field target of Some b \<Rightarrow> b | None \<Rightarrow> {}) =
      ids_of (src x) (holders (data x) field (\<lambda>_ v. target_of v = Some target))"
    and tree_roots: "good x \<Longrightarrow> s_tree_roots (src x) field = ids_of (src x) (holders (data x) field (\<lambda>_ v. target_of v = Some ZERO_UUID))"
    and tree_parents_except: "good x \<Longrightarrow> s_tree_parents_except (src x) field but =
      ids_of (src x) (holders (data x) field (\<lambda>_ v. target_of v \<noteq> None \<and> target_of v \<noteq> but))"
    and parents: "good x \<Longrightarrow> s_parents (src x) field =
      ids_of (src x) {p \<in> d_universe (data x). \<exists>c. (p, c) \<in> child_of (forest (data x) field)}"
    and descendants: "good x \<Longrightarrow> us \<subseteq> d_universe (data x) \<Longrightarrow>
      s_descendants (src x) field (ids_of (src x) us) = None \<or>
      s_descendants (src x) field (ids_of (src x) us) = Some (ids_of (src x) ((child_of (forest (data x) field))\<^sup>+ `` us))"
    and literals_required: "good x \<Longrightarrow> compile (lib x) pattern = Some re \<Longrightarrow> re t \<Longrightarrow>
      contains_all (required_literals (lib x) pattern) (lower (lib x) t)"

section \<open>Types and positions of the data\<close>

lemma stored_type_in: "stored_type_of t rows = Some ty \<Longrightarrow> t = Some ty \<or> (\<exists>(u, r)\<in>set rows. row_value r \<noteq> Nothing \<and> type_str (row_value r) = ty)"
proof (induction t rows rule: stored_type_of.induct)
  case (2 other u row rows)
  then show ?case by (cases "row_value row") (auto split: if_splits)
qed simp

lemma stored_type_none: "stored_type_of t rows = None \<Longrightarrow> t = None \<and> (\<forall>(u, r)\<in>set rows. row_value r = Nothing)"
proof (induction t rows rule: stored_type_of.induct)
  case (2 other u row rows)
  then show ?case by (cases "row_value row = Nothing") (auto split: if_splits)
qed simp

lemma data_type_none: "data_type d field = None \<Longrightarrow> (u, r) \<in> set (d_rows d field) \<Longrightarrow> row_value r = Nothing"
  using stored_type_none [of None "d_rows d field"] by (auto simp: data_type_def)

lemma data_type_rows:
  assumes "data_wf d" "data_type d field = Some t" "(u, r) \<in> set (d_rows d field)" "row_value r \<noteq> Nothing"
  shows "type_str (row_value r) = t"
proof -
  obtain u' r' where r': "(u', r') \<in> set (d_rows d field)" "row_value r' \<noteq> Nothing" "type_str (row_value r') = t"
    using stored_type_in [of None "d_rows d field" t] assms(2) by (auto simp: data_type_def)
  have "\<forall>(u, r)\<in>set (d_rows d field). \<forall>(u', r')\<in>set (d_rows d field). row_value r \<noteq> Nothing \<longrightarrow> row_value r' \<noteq> Nothing \<longrightarrow>
      type_str (row_value r) = type_str (row_value r')"
    using assms(1) unfolding data_wf_def by fast
  then show ?thesis using assms(3,4) r' by blast
qed

lemma tree_rows:
  assumes "data_wf d" "data_type d field = Some t" "(u, r) \<in> set (d_rows d field)" "row_value r \<noteq> Nothing"
  shows "position (row_value r) \<noteq> None \<longleftrightarrow> is_position_type t"
  using data_type_rows [OF assms] position_type [of "row_value r"] by simp

lemma positions_of_some: "positions_of rows \<noteq> [] \<Longrightarrow> \<exists>u r. (u, r) \<in> set rows \<and> position (row_value r) \<noteq> None"
  by (induction rows rule: positions_of.induct) (auto split: option.splits)

lemma forest_typed:
  assumes "data_wf d" "forest d field \<noteq> []"
  shows "\<exists>t. data_type d field = Some t \<and> is_position_type t"
proof -
  obtain u r where r: "(u, r) \<in> set (d_rows d field)" "position (row_value r) \<noteq> None"
    using positions_of_some assms(2) unfolding forest_def by blast
  then have n: "row_value r \<noteq> Nothing" by auto
  then obtain t where t: "data_type d field = Some t" using data_type_none [OF _ r(1)] by (cases "data_type d field") auto
  then show ?thesis using tree_rows [OF assms(1) t r(1) n] r(2) by simp
qed

lemma holders_cong:
  "(\<And>u r. (u, r) \<in> set (d_rows d field) \<Longrightarrow> p u (row_value r) = q u (row_value r)) \<Longrightarrow> holders d field p = holders d field q"
  unfolding holders_def by (rule arg_cong [of _ _ set], rule arg_cong [of _ _ "map fst"], rule filter_cong) auto

lemma holders_iff: "u \<in> holders d field p \<longleftrightarrow> (\<exists>r. (u, r) \<in> set (d_rows d field) \<and> p u (row_value r))"
  by (force simp: holders_def)

lemma positions_of_in: "(u, p, n) \<in> set (positions_of rows) \<longleftrightarrow> (\<exists>r. (u, r) \<in> set rows \<and> position (row_value r) = Some (p, n))"
  by (induction rows rule: positions_of.induct) (auto split: option.splits)

lemma child_of_iff: "(p, c) \<in> child_of (forest d field) \<longleftrightarrow> (\<exists>r n. (c, r) \<in> set (d_rows d field) \<and> position (row_value r) = Some (Some p, n))"
proof -
  have "(p, c) \<in> child_of ps \<longleftrightarrow> (\<exists>n. (c, Some p, n) \<in> set ps)" for ps by (force simp: child_of_def children_def)
  then show ?thesis by (auto simp: forest_def positions_of_in)
qed

lemma tree_forest:
  assumes "data_wf d" "data_type d field = Some t"
  shows "is_position_type t \<longleftrightarrow> forest d field \<noteq> []"
proof
  assume "is_position_type t"
  moreover obtain u r where "(u, r) \<in> set (d_rows d field)" "row_value r \<noteq> Nothing"
    using stored_type_in [of None "d_rows d field" t] assms(2) by (auto simp: data_type_def)
  ultimately obtain p n where "position (row_value r) = Some (p, n)" using tree_rows [OF assms] by fastforce
  then show "forest d field \<noteq> []"
    using \<open>(u, r) \<in> _\<close> positions_of_in [of u p n "d_rows d field"] by (auto simp: forest_def)
next
  assume "forest d field \<noteq> []"
  then show "is_position_type t" using forest_typed [OF assms(1)] assms(2) by fastforce
qed

section \<open>Over a source that keeps its promises\<close>

context data_source
begin

lemma ids_iff: "good x \<Longrightarrow> i \<in> ids_of (src x) us \<longleftrightarrow> (\<exists>u. s_uuid (src x) i = Some u \<and> u \<in> us)"
  by (auto simp: ids_of_def id_uuid)

lemma ids_Un: "ids_of (src x) (a \<union> b) = ids_of (src x) a \<union> ids_of (src x) b"
  by (auto simp: ids_of_def)

lemma ids_Int: "good x \<Longrightarrow> ids_of (src x) (a \<inter> b) = ids_of (src x) a \<inter> ids_of (src x) b"
  by (auto simp: ids_iff)

lemma ids_Diff: "good x \<Longrightarrow> ids_of (src x) (a - b) = ids_of (src x) a - ids_of (src x) b"
  by (auto simp: ids_iff)

lemma ids_empty [simp]: "ids_of (src x) {} = {}"
  by (simp add: ids_of_def)

lemma ids_nonempty: "good x \<Longrightarrow> us \<subseteq> d_universe (data x) \<Longrightarrow> ids_of (src x) us = {} \<longleftrightarrow> us = {}"
  using id_universe by (fastforce simp: ids_of_def)

lemma uuids_at_ids: "good x \<Longrightarrow> us \<subseteq> d_universe (data x) \<Longrightarrow> uuids_at (src x) (ids_of (src x) us) = us"
  using id_universe id_uuid by (fastforce simp: uuids_at_def ids_of_def split: option.splits)

lemma ids_one: "good x \<Longrightarrow> u \<in> d_universe (data x) \<Longrightarrow> \<exists>i. s_id (src x) u = Some i \<and> ids_of (src x) {u} = {i}"
  using id_universe [of x u] by (auto simp: ids_of_def)

lemma ids_sub: "a \<subseteq> b \<Longrightarrow> ids_of (src x) a \<subseteq> ids_of (src x) b"
  by (auto simp: ids_of_def)

lemma wfD: "good x \<Longrightarrow> data_ok (data x)" "good x \<Longrightarrow> finite (d_universe (data x))" "good x \<Longrightarrow> ZERO_UUID \<notin> d_universe (data x)"
  using wf by (auto simp: data_wf_def)

lemma card_universe: "good x \<Longrightarrow> card (s_universe (src x)) = card (d_universe (data x))"
proof -
  assume g: "good x"
  have "bij_betw (\<lambda>u. the (s_id (src x) u)) (d_universe (data x)) (s_universe (src x))"
    unfolding bij_betw_def inj_on_def universe [OF g]
  proof (intro conjI ballI impI)
    fix u v assume "u \<in> d_universe (data x)" "v \<in> d_universe (data x)" "the (s_id (src x) u) = the (s_id (src x) v)"
    then obtain i where "s_id (src x) u = Some i" "s_id (src x) v = Some i" using id_universe [OF g] by (metis option.collapse)
    then show "u = v" using id_uuid [OF g] by (metis option.inject)
  qed (use id_universe [OF g] in \<open>force simp: ids_of_def\<close>)
  then show ?thesis by (simp add: bij_betw_same_card)
qed

lemma targets:
  assumes g: "good x" and r: "(u, r) \<in> set (d_rows (data x) field)" and t: "data_type (data x) field = Some t" "is_position_type t"
  shows "target_of (row_value r) = map_option (\<lambda>(p, _). case p of None \<Rightarrow> ZERO_UUID | Some p \<Rightarrow> p) (position (row_value r))"
    and "row_value r = Nothing \<or> position (row_value r) \<noteq> None"
    and "position (row_value r) = Some (p, n) \<Longrightarrow> p \<noteq> Some ZERO_UUID"
proof -
  have n: "row_value r \<noteq> Nothing \<Longrightarrow> position (row_value r) \<noteq> None" using tree_rows [OF wf [OF g] t(1) r] t(2) by simp
  then show "row_value r = Nothing \<or> position (row_value r) \<noteq> None" by blast
  show "target_of (row_value r) = map_option (\<lambda>(p, _). case p of None \<Rightarrow> ZERO_UUID | Some p \<Rightarrow> p) (position (row_value r))"
    using n by (cases "row_value r") (auto simp: target_of_def split: option.splits)
  show "position (row_value r) = Some (p, n) \<Longrightarrow> p \<noteq> Some ZERO_UUID" using wf [OF g] r unfolding data_wf_def by fast
qed

lemma referrers_ids:
  assumes g: "good x" and "us \<subseteq> d_universe (data x)" "tree_type (data_type (data x) field)"
  shows "referrers_of (src x) field us = ids_of (src x) (child_of (forest (data x) field) `` us)"
proof -
  have z: "ZERO_UUID \<notin> us" using assms(2) wfD(3) [OF g] by auto
  obtain t where t: "data_type (data x) field = Some t" "is_position_type t" using assms(3) by (auto simp: tree_type_def split: option.splits)
  have "target_of (row_value r) = Some p \<longleftrightarrow> (\<exists>n. position (row_value r) = Some (Some p, n))"
    if "(u, r) \<in> set (d_rows (data x) field)" "p \<in> us" for u r p
    using targets(1) [OF g that(1) t] z that(2) by (cases "position (row_value r)") (auto split: option.splits)
  then have h: "u \<in> holders (data x) field (\<lambda>_ v. target_of v = Some p) \<longleftrightarrow> (p, u) \<in> child_of (forest (data x) field)" if "p \<in> us" for u p
    using that by (auto simp: holders_iff child_of_iff)
  have "ids_of (src x) (child_of (forest (data x) field) `` us) = (\<Union>p\<in>us. ids_of (src x) (child_of (forest (data x) field) `` {p}))"
    by (auto simp: ids_of_def)
  moreover have "child_of (forest (data x) field) `` {p} = holders (data x) field (\<lambda>_ v. target_of v = Some p)" if "p \<in> us" for p
    using h [OF that] by auto
  ultimately show ?thesis unfolding referrers_of_def referrers [OF g] by simp
qed

lemma level:
  assumes g: "good x" and "us \<subseteq> d_universe (data x)" "tree_type (data_type (data x) field)"
  shows "referrers_of (src x) field (uuids_at (src x) (ids_of (src x) us \<inter> s_parents (src x) field)) =
    ids_of (src x) (child_of (forest (data x) field) `` us)"
proof -
  define ps where "ps = us \<inter> {p \<in> d_universe (data x). \<exists>c. (p, c) \<in> child_of (forest (data x) field)}"
  have "ids_of (src x) us \<inter> s_parents (src x) field = ids_of (src x) ps"
    unfolding parents [OF g] ps_def by (simp add: ids_Int [OF g])
  moreover have "ps \<subseteq> d_universe (data x)" using assms(2) by (auto simp: ps_def)
  ultimately have "referrers_of (src x) field (uuids_at (src x) (ids_of (src x) us \<inter> s_parents (src x) field)) =
      ids_of (src x) (child_of (forest (data x) field) `` ps)"
    using referrers_ids [OF g _ assms(3), of ps] by (simp add: uuids_at_ids [OF g])
  also have "child_of (forest (data x) field) `` ps = child_of (forest (data x) field) `` us" using assms(2) by (auto simp: ps_def)
  finally show ?thesis .
qed

lemma children_within: "good x \<Longrightarrow> child_of (forest (data x) field) `` us \<subseteq> d_universe (data x)"
  using child_of_node nodes_within wfD(1) by fastforce

lemma grow_reach:
  assumes g: "good x" and t: "tree_type (data_type (data x) field)"
  defines "E \<equiv> child_of (forest (data x) field)"
  shows "us \<subseteq> d_universe (data x) \<Longrightarrow> R \<subseteq> d_universe (data x) \<Longrightarrow> E `` (R - us) \<subseteq> R \<Longrightarrow> card (d_universe (data x) - R) + 2 \<le> fuel \<Longrightarrow>
    grow fuel (src x) field (ids_of (src x) R) (ids_of (src x) us) = ids_of (src x) (R \<union> E\<^sup>+ `` us)"
proof (induction fuel arbitrary: R us)
  case (Suc fuel)
  define N where "N = E `` us - R"
  show ?case
  proof (cases "us = {}")
    case False
    have ne: "ids_of (src x) us \<noteq> {}" using False Suc(2) ids_nonempty [OF g] by blast
    have next': "referrers_of (src x) field (uuids_at (src x) (ids_of (src x) us \<inter> s_parents (src x) field)) - ids_of (src x) R = ids_of (src x) N"
      using level [OF g Suc(2) t] by (simp add: N_def E_def ids_Diff [OF g])
    have N: "N \<subseteq> d_universe (data x)" using children_within [OF g, of field us] by (auto simp: N_def E_def)
    have step: "grow (Suc fuel) (src x) field (ids_of (src x) R) (ids_of (src x) us) = grow fuel (src x) field (ids_of (src x) (R \<union> N)) (ids_of (src x) N)"
      using ne by (simp add: Let_def next' ids_Un)
    have reach: "R \<union> N \<union> E\<^sup>+ `` N = R \<union> E\<^sup>+ `` us"
    proof
      show "R \<union> N \<union> E\<^sup>+ `` N \<subseteq> R \<union> E\<^sup>+ `` us" unfolding N_def by (auto intro: trancl_into_trancl2)
      have "y \<in> R \<union> N \<union> E\<^sup>+ `` N" if "(f, y) \<in> E\<^sup>+" "f \<in> us" for f y
        using that
      proof (induction rule: trancl_induct)
        case (base y) then show ?case by (auto simp: N_def)
      next
        case (step y z)
        then consider "y \<in> N" | "\<exists>m\<in>N. (m, y) \<in> E\<^sup>+" | "y \<in> R - us" | "y \<in> us" by blast
        then show ?case
        proof cases
          case 3 then show ?thesis using Suc(4) step(2) by blast
        next
          case 4 then show ?thesis using step(2) by (auto simp: N_def)
        qed (use step(2) in \<open>auto intro: trancl_into_trancl\<close>)
      qed
      then show "R \<union> E\<^sup>+ `` us \<subseteq> R \<union> N \<union> E\<^sup>+ `` N" by blast
    qed
    show ?thesis
    proof (cases "N = {}")
      case True
      then have "grow fuel (src x) field (ids_of (src x) (R \<union> N)) (ids_of (src x) N) = ids_of (src x) R" by (cases fuel) simp_all
      then show ?thesis using step reach True by simp
    next
      case nonempty: False
      have "d_universe (data x) - (R \<union> N) \<subset> d_universe (data x) - R" using nonempty N by (auto simp: N_def)
      then have "card (d_universe (data x) - (R \<union> N)) < card (d_universe (data x) - R)" using wfD(2) [OF g] by (intro psubset_card_mono) auto
      then have "card (d_universe (data x) - (R \<union> N)) + 2 \<le> fuel" using Suc(5) by simp
      moreover have "E `` (R \<union> N - N) \<subseteq> R \<union> N" using Suc(4) by (auto simp: N_def)
      ultimately have "grow fuel (src x) field (ids_of (src x) (R \<union> N)) (ids_of (src x) N) = ids_of (src x) (R \<union> N \<union> E\<^sup>+ `` N)"
        using Suc(1) N Suc(3) by simp
      then show ?thesis using step reach by simp
    qed
  qed simp
qed simp

lemma expand_subtrees_ids:
  assumes g: "good x" and t: "tree_type (data_type (data x) field)" and us: "us \<subseteq> d_universe (data x)"
  shows "expand_subtrees (src x) field (ids_of (src x) us) inclusive =
    ids_of (src x) ((if inclusive then us else {}) \<union> (child_of (forest (data x) field))\<^sup>+ `` us)"
proof -
  have i: "ids_of (src x) us \<inter> s_universe (src x) = ids_of (src x) us" unfolding universe [OF g] using ids_sub [OF us] by blast
  from descendants [OF g us, of field] show ?thesis
  proof
    assume none: "s_descendants (src x) field (ids_of (src x) us) = None"
    have c: "card (d_universe (data x) - R) + 2 \<le> Suc (Suc (card (s_universe (src x))))" for R
      using card_mono [OF wfD(2) [OF g], of "d_universe (data x) - R"] by (simp add: card_universe [OF g])
    have "grow (Suc (Suc (card (s_universe (src x))))) (src x) field (ids_of (src x) R) (ids_of (src x) us) =
        ids_of (src x) (R \<union> (child_of (forest (data x) field))\<^sup>+ `` us)" if "R = us \<or> R = {}" for R
      using that us by (intro grow_reach [OF g t us _ _ c]) auto
    from this [of "if inclusive then us else {}"] show ?thesis
      using none i by (cases inclusive) (simp_all add: expand_subtrees_def Let_def del: grow.simps)
  qed (use i in \<open>simp add: expand_subtrees_def Let_def ids_Un\<close>)
qed

end

end
