(* ===== verification/Derived.thy ===== *)
theory Derived
  imports Index_Laws
begin

text \<open>
  The derived key spaces of the store (\<open>crates/daemon/src/kvstore/derived.rs\<close>): the tables the query
  source reads, and what each write changes in them. A set of dense ids, cut in chunks in the store,
  is a set of numbers here; the key of a partition entry is its field, its partition and the bytes
  the code builds of the value's key and the id. The trigram table is a function. \<open>xxh3_64\<close>, of the
  xxhash crate, and the lower-casing of texts are arguments.
\<close>

section \<open>Keys\<close>

definition esc :: "bytes \<Rightarrow> bytes" where
  "esc b = name_escape b @ [char_of (0::nat), char_of (0::nat)]"

definition TEXT_MAX :: nat where
  "TEXT_MAX = 256"

text \<open>The loop of \<open>text_key\<close> over the bytes, with the escaped prefix built so far.\<close>

fun cut_escaped :: "bytes \<Rightarrow> bytes \<Rightarrow> bytes" where
  "cut_escaped out [] = out"
| "cut_escaped out (b # bs) =
     (let width = (if byte_val b = 0 then 2 else 1)
      in if length out + width > TEXT_MAX then out
         else cut_escaped (out @ b # (if byte_val b = 0 then [char_of (255::nat)] else [])) bs)"

definition text_key :: "(bytes \<Rightarrow> u64) \<Rightarrow> bytes \<Rightarrow> bytes" where
  "text_key H b =
     (if length (esc b) \<le> TEXT_MAX + 2 then esc b
      else cut_escaped [] b @ [char_of (0::nat), char_of (1::nat)] @ be_bytes 8 (unat (H b)))"

fun long_prefix :: "bytes \<Rightarrow> bytes option" where
  "long_prefix (a # b # k) =
     (if byte_val a = 0 \<and> byte_val b = 0 then None
      else if byte_val a = 0 \<and> byte_val b = 1 then Some [a, b]
      else if byte_val a = 0 then map_option (\<lambda>p. a # b # p) (long_prefix k)
      else map_option (\<lambda>p. a # p) (long_prefix (b # k)))"
| "long_prefix _ = None"

fun unesc :: "bytes \<Rightarrow> (bytes \<times> bytes) option" where
  "unesc [] = None"
| "unesc [b] = None"
| "unesc (a # b # k) =
     (if byte_val a = 0 \<and> byte_val b = 0 then Some ([], k)
      else if byte_val a = 0 \<and> byte_val b = 255 then map_option (\<lambda>(s, rest). (a # s, rest)) (unesc k)
      else map_option (\<lambda>(s, rest). (a # s, rest)) (unesc (b # k)))"

definition uuid_or_zero :: "uuid option \<Rightarrow> uuid" where
  "uuid_or_zero parent = (case parent of None \<Rightarrow> ZERO_UUID | Some p \<Rightarrow> p)"

fun value_key :: "(bytes \<Rightarrow> u64) \<Rightarrow> value \<Rightarrow> bytes option" where
  "value_key H Nothing = None"
| "value_key H (VBool b) = Some [char_of (0::nat), char_of (if b then 1 else 0 :: nat)]"
| "value_key H (VInt n) = Some (char_of (1::nat) # be_bytes 8 (unat (num_key (i64_as_f64 n))))"
| "value_key H (VFloat f) = Some (char_of (1::nat) # be_bytes 8 (unat (num_key f)))"
| "value_key H (VString s) = Some (char_of (2::nat) # text_key H s)"
| "value_key H (VDateTime ms) = Some (char_of (3::nat) # be_bytes 8 (unat (dt_key ms)))"
| "value_key H (VRef u) = Some (char_of (4::nat) # uuid_to_bytes u)"
| "value_key H (VRefBase u) = Some (char_of (5::nat) # uuid_to_bytes u)"
| "value_key H (VExternalRef repo m) = Some (char_of (6::nat) # uuid_to_bytes m @ uuid_to_bytes repo)"
| "value_key H (VTreeRef parent name) =
     Some (char_of (7::nat) # uuid_to_bytes (uuid_or_zero parent) @ text_key H name)"
| "value_key H (VHierarchyRef parent name) =
     Some (char_of (8::nat) # uuid_to_bytes (uuid_or_zero parent) @ text_key H name)"

definition type_tag :: "string \<Rightarrow> nat option" where
  "type_tag t =
     (if t = ''bool'' then Some 0
      else if t = ''int'' \<or> t = ''float'' then Some 1
      else if t = ''string'' then Some 2
      else if t = ''datetime'' then Some 3
      else if t = ''ref'' then Some 4
      else if t = ''refbase'' then Some 5
      else if t = ''externalref'' then Some 6
      else if t = ''tree_ref'' then Some 7
      else if t = ''hierarchy_ref'' then Some 8
      else None)"

definition name_part_key :: "(bytes \<Rightarrow> u64) \<Rightarrow> value \<Rightarrow> bytes option" where
  "name_part_key H v = map_option (\<lambda>(_, name). text_key H (display name)) (position v)"

definition TRIGRAM_MAX :: nat where
  "TRIGRAM_MAX = 512"

fun windows3 :: "bytes \<Rightarrow> bytes list" where
  "windows3 (a # b # c # s) = [a, b, c] # windows3 (b # c # s)"
| "windows3 _ = []"

definition trigrams :: "string \<Rightarrow> bytes set" where
  "trigrams lowered = set (windows3 lowered)"

definition search_text :: "(string \<Rightarrow> string) \<Rightarrow> value \<Rightarrow> string option" where
  "search_text low v =
     (case v of
        VString s \<Rightarrow> Some (low s)
      | _ \<Rightarrow> map_option (\<lambda>(_, name). low (display name)) (position v))"

definition id_bytes :: "nat \<Rightarrow> bytes" where
  "id_bytes i = be_bytes 4 i"

definition dense :: "bytes \<Rightarrow> nat" where
  "dense b = be_val (take 4 b)"

section \<open>Tables\<close>

datatype SetKey =
    UNIVERSE
  | PRESENT string
  | ABSENT string
  | PARENTS string
  | LONG_TEXTS string
  | REFERRERS string uuid
  | DESCENDANTS string uuid
  | POSTINGS string bytes
  | MULTI string

definition VALUE :: nat where "VALUE = 0"
definition NAME :: nat where "NAME = 1"
definition TARGET :: nat where "TARGET = 2"

record derived =
  next_id :: int
  dv_ids :: "(uuid, nat) table"
  dv_uuids :: "(nat, uuid) table"
  dv_sets :: "SetKey \<Rightarrow> ids"
  dv_parts :: "(string \<times> nat \<times> bytes, int) table"
  dv_kids :: "(uuid \<times> string \<times> nat, int) table"
  dv_grams :: "string \<Rightarrow> bytes \<Rightarrow> ids"

definition empty_derived :: derived where
  "empty_derived = \<lparr>next_id = 1, dv_ids = [], dv_uuids = [], dv_sets = (\<lambda>_. {}), dv_parts = [], dv_kids = [],
     dv_grams = (\<lambda>_ _. {})\<rparr>"

datatype derive_error = DenseIdsExhausted | NoDenseId uuid | TreeDeeperThan string | KidWithoutUuid

section \<open>Maintenance\<close>

definition POSTING_MIN :: nat where
  "POSTING_MIN = 64"

definition member :: "bool \<Rightarrow> nat \<Rightarrow> ids \<Rightarrow> ids" where
  "member b i s = (if b then insert i s else s - {i})"

definition set_member :: "SetKey \<Rightarrow> nat \<Rightarrow> bool \<Rightarrow> derived \<Rightarrow> derived" where
  "set_member k i b D = D\<lparr>dv_sets := (dv_sets D)(k := member b i (dv_sets D k))\<rparr>"

definition chunk_apply :: "SetKey \<Rightarrow> ids \<Rightarrow> bool \<Rightarrow> derived \<Rightarrow> derived" where
  "chunk_apply k is add D = D\<lparr>dv_sets := (dv_sets D)(k := (if add then dv_sets D k \<union> is else dv_sets D k - is))\<rparr>"

definition gram_member :: "string \<Rightarrow> bytes \<Rightarrow> nat \<Rightarrow> bool \<Rightarrow> derived \<Rightarrow> derived" where
  "gram_member field g i b D =
     D\<lparr>dv_grams := (dv_grams D)(field := (dv_grams D field)(g := member b i (dv_grams D field g)))\<rparr>"

definition bump :: "'k::linorder \<Rightarrow> int \<Rightarrow> ('k, int) table \<Rightarrow> ('k, int) table" where
  "bump k delta t =
     (let n = (case tget t k of None \<Rightarrow> 0 | Some c \<Rightarrow> c) + delta
      in if n \<le> 0 then tdel k t else tput k n t)"

definition bump_part :: "string \<Rightarrow> nat \<Rightarrow> bytes \<Rightarrow> nat \<Rightarrow> int \<Rightarrow> derived \<Rightarrow> derived" where
  "bump_part field part key i delta D = D\<lparr>dv_parts := bump (field, part, key @ id_bytes i) delta (dv_parts D)\<rparr>"

definition part_tails :: "derived \<Rightarrow> string \<Rightarrow> nat \<Rightarrow> bytes list" where
  "part_tails D field part = map (\<lambda>((_, _, t), _). t) (tscan (\<lambda>(f, p, _). f = field \<and> p = part) (dv_parts D))"

text \<open>The holders of a value key, \<open>limit\<close> at most.\<close>

definition value_holders :: "derived \<Rightarrow> string \<Rightarrow> bytes \<Rightarrow> nat option \<Rightarrow> ids" where
  "value_holders D field key limit =
     (let found = map (\<lambda>t. dense (drop (length key) t)) (filter (prefix key) (part_tails D field VALUE))
      in set (case limit of None \<Rightarrow> found | Some n \<Rightarrow> take n found))"

definition derive_posting :: "string \<Rightarrow> bytes \<Rightarrow> nat \<Rightarrow> derived \<Rightarrow> derived" where
  "derive_posting field key i D =
     (let held = tget (dv_parts D) (field, VALUE, key @ id_bytes i) \<noteq> None
      in if dv_sets D (POSTINGS field key) \<noteq> {} then set_member (POSTINGS field key) i held D
         else if held \<and> POSTING_MIN \<le> card (value_holders D field key (Some POSTING_MIN))
         then chunk_apply (POSTINGS field key) (value_holders D field key None) True D
         else D)"

definition has_kids :: "derived \<Rightarrow> uuid \<Rightarrow> string \<Rightarrow> bool" where
  "has_kids D parent field \<longleftrightarrow> tscan (\<lambda>(p, f, _). p = parent \<and> f = field) (dv_kids D) \<noteq> []"

definition parent_fields :: "derived \<Rightarrow> uuid \<Rightarrow> string list" where
  "parent_fields D u = sort (remdups (map (\<lambda>((_, f, _), _). f) (tscan (\<lambda>(p, _). p = u) (dv_kids D))))"

definition derive_created :: "uuid \<Rightarrow> derived \<Rightarrow> derive_error + derived" where
  "derive_created u D =
     bindE (checkE (0 \<le> next_id D \<and> next_id D < 2 ^ 32) DenseIdsExhausted) (\<lambda>_.
       let i = nat (next_id D);
           D = D\<lparr>next_id := next_id D + 1, dv_ids := tput u i (dv_ids D), dv_uuids := tput i u (dv_uuids D)\<rparr>;
           D = set_member UNIVERSE i True D
       in Inr (fold (\<lambda>f. set_member (PARENTS f) i True) (parent_fields D u) D))"

definition derive_removed :: "uuid \<Rightarrow> derived \<Rightarrow> derived" where
  "derive_removed u D =
     (case tget (dv_ids D) u of
        None \<Rightarrow> D
      | Some i \<Rightarrow>
          let D = D\<lparr>dv_ids := tdel u (dv_ids D), dv_uuids := tdel i (dv_uuids D)\<rparr>;
              D = set_member UNIVERSE i False D
          in fold (\<lambda>f. set_member (PARENTS f) i False) (parent_fields D u) D)"

definition children_of :: "derived \<Rightarrow> string \<Rightarrow> uuid \<Rightarrow> derive_error + (uuid \<times> nat) list" where
  "children_of D field parent =
     mapE (\<lambda>((_, _, i), _). bindE (optE (tget (dv_uuids D) i) KidWithoutUuid) (\<lambda>u. Inr (u, i)))
       (tscan (\<lambda>(p, f, _). p = parent \<and> f = field) (dv_kids D))"

text \<open>The walk up a hierarchy, each node once: the nodes seen and the stack, its top first.\<close>

definition hierarchy_parents :: "rowstore \<Rightarrow> string \<Rightarrow> uuid \<Rightarrow> uuid list" where
  "hierarchy_parents s field n =
     List.map_filter (\<lambda>r. case row_value r of VHierarchyRef parent _ \<Rightarrow> parent | _ \<Rightarrow> None) (kv_rows_named s n field)"

lemma push_new_grows:
  "push_new cs (out, fr) = (out', fr') \<Longrightarrow> out \<subseteq> out' \<and> (out' = out \<longrightarrow> fr' = fr)"
  using push_new_out [of cs out fr] push_new_same [of cs out fr] by (cases "set cs \<subseteq> out") auto

lemma seen_smaller: "out \<subset> (out' :: uuid set) \<Longrightarrow> card (UNIV - out') < card (UNIV - out)"
  by (rule psubset_card_mono) auto

function ancestors_loop :: "rowstore \<Rightarrow> string \<Rightarrow> uuid set \<Rightarrow> uuid list \<Rightarrow> uuid set" where
  "ancestors_loop s field seen [] = seen"
| "ancestors_loop s field seen (n # todo) =
     (let st = push_new (hierarchy_parents s field n) (seen, todo) in ancestors_loop s field (fst st) (snd st))"
  by pat_completeness auto
termination
proof (relation "inv_image (less_than <*lex*> less_than) (\<lambda>(s, field, seen, todo). (card (UNIV - seen), length todo))", goal_cases)
  case (2 s field seen n todo st)
  obtain seen' todo' where st: "st = (seen', todo')" by (cases st)
  then have "seen \<subseteq> seen'" "seen' = seen \<Longrightarrow> todo' = todo" using push_new_grows 2 by metis+
  then show ?case using seen_smaller [of seen seen'] by (cases "seen' = seen") (auto simp: st)
qed auto

definition hierarchy_ancestors :: "rowstore \<Rightarrow> string \<Rightarrow> uuid \<Rightarrow> uuid set" where
  "hierarchy_ancestors s field node = ancestors_loop s field {node} [node]"

text \<open>The walk down from a node, into the nodes \<open>walked\<close> only.\<close>

fun take_child :: "derived \<Rightarrow> string \<Rightarrow> uuid set \<Rightarrow> uuid \<times> nat \<Rightarrow> ids \<times> uuid set \<times> uuid list \<Rightarrow> ids \<times> uuid set \<times> uuid list" where
  "take_child D field walked (child, i) (out, seen, todo) =
     (if child \<in> seen then (insert i out, seen, todo)
      else if child \<in> walked then (insert i out, insert child seen, child # todo)
      else (insert i out \<union> dv_sets D (DESCENDANTS field child), insert child seen, todo))"

lemma take_children_grow:
  "fold (take_child D field walked) kids (out, seen, todo) = (out', seen', todo') \<Longrightarrow>
    seen \<subseteq> seen' \<and> (seen' = seen \<longrightarrow> todo' = todo)"
proof (induction kids arbitrary: out seen todo)
  case (Cons k kids)
  obtain c i where k: "k = (c, i)" by (cases k)
  obtain out1 seen1 todo1 where st: "take_child D field walked k (out, seen, todo) = (out1, seen1, todo1)" by (metis surj_pair)
  have "seen \<subseteq> seen1 \<and> (seen1 = seen \<longrightarrow> todo1 = todo)" using st by (auto simp: k split: if_splits)
  moreover have "seen1 \<subseteq> seen' \<and> (seen' = seen1 \<longrightarrow> todo' = todo1)" using Cons.IH [of out1 seen1 todo1] Cons.prems st by simp
  ultimately show ?case by blast
qed simp

function reach_loop :: "derived \<Rightarrow> string \<Rightarrow> uuid set \<Rightarrow> ids \<Rightarrow> uuid set \<Rightarrow> uuid list \<Rightarrow> derive_error + ids" where
  "reach_loop D field walked out seen [] = Inr out"
| "reach_loop D field walked out seen (n # todo) =
     bindE (children_of D field n) (\<lambda>kids.
       let st = fold (take_child D field walked) kids (out, seen, todo)
       in reach_loop D field walked (fst st) (fst (snd st)) (snd (snd st)))"
  by pat_completeness auto
termination
proof (relation "inv_image (less_than <*lex*> less_than) (\<lambda>(D, field, walked, out, seen, todo). (card (UNIV - seen), length todo))", goal_cases)
  case (2 D field walked out seen n todo kids st)
  obtain out' seen' todo' where st: "st = (out', seen', todo')" by (metis surj_pair)
  then have "seen \<subseteq> seen'" "seen' = seen \<Longrightarrow> todo' = todo" using take_children_grow 2(2) by metis+
  then show ?case using seen_smaller [of seen seen'] by (cases "seen' = seen") (auto simp: st)
qed auto

definition reachable_below :: "derived \<Rightarrow> string \<Rightarrow> uuid \<Rightarrow> uuid set \<Rightarrow> derive_error + ids" where
  "reachable_below D field node walked = reach_loop D field walked {} {node} [node]"

definition derive_hierarchy :: "rowstore \<Rightarrow> uuid \<Rightarrow> nat \<Rightarrow> string \<Rightarrow> uuid \<Rightarrow> bool \<Rightarrow> derived \<Rightarrow> derive_error + derived" where
  "derive_hierarchy s u i field parent add D =
     (let ancestors = sorted_list_of_set (hierarchy_ancestors s field parent)
      in if add then
           (let moving = insert i (dv_sets D (DESCENDANTS field u))
            in Inr (fold (\<lambda>a. chunk_apply (DESCENDANTS field a) moving True) ancestors D))
         else
           bindE (mapE (\<lambda>a. bindE (reachable_below D field a (set ancestors)) (\<lambda>now. Inr (a, now))) ancestors) (\<lambda>recomputed.
             Inr (fold (\<lambda>(a, now) D.
                          let before = dv_sets D (DESCENDANTS field a)
                          in chunk_apply (DESCENDANTS field a) (now - before) True
                               (chunk_apply (DESCENDANTS field a) (before - now) False D))
                    recomputed D)))"

definition tree_parent :: "rowstore \<Rightarrow> string \<Rightarrow> uuid \<Rightarrow> uuid option" where
  "tree_parent s field n =
     (case List.map_filter (\<lambda>r. case row_value r of VTreeRef parent _ \<Rightarrow> parent | _ \<Rightarrow> None) (kv_rows_named s n field) of
        [] \<Rightarrow> None
      | p # _ \<Rightarrow> Some p)"

text \<open>\<open>fuel\<close> is what is left of the \<open>MAX_TREE_DEPTH\<close> turns.\<close>

fun climb :: "nat \<Rightarrow> rowstore \<Rightarrow> string \<Rightarrow> ids \<Rightarrow> bool \<Rightarrow> uuid option \<Rightarrow> derived \<Rightarrow> derive_error + derived" where
  "climb 0 s field moving add up D = Inl (TreeDeeperThan field)"
| "climb (Suc fuel) s field moving add up D =
     (case up of
        None \<Rightarrow> Inr D
      | Some a \<Rightarrow> climb fuel s field moving add (tree_parent s field a) (chunk_apply (DESCENDANTS field a) moving add D))"

definition derive_descendants :: "rowstore \<Rightarrow> uuid \<Rightarrow> nat \<Rightarrow> string \<Rightarrow> uuid \<Rightarrow> bool \<Rightarrow> derived \<Rightarrow> derive_error + derived" where
  "derive_descendants s u i field parent add D =
     climb MAX_TREE_DEPTH s field (insert i (dv_sets D (DESCENDANTS field u))) add (Some parent) D"

text \<open>What a row that came (\<open>delta\<close> 1) or went (-1) changes, its metarecord's rows being those left.\<close>

definition derive_values :: "(bytes \<Rightarrow> u64) \<Rightarrow> string \<Rightarrow> value \<Rightarrow> nat \<Rightarrow> int \<Rightarrow> derived \<Rightarrow> derived" where
  "derive_values H field v i delta D =
     (let D = (case value_key H v of None \<Rightarrow> D | Some k \<Rightarrow> derive_posting field k i (bump_part field VALUE k i delta D));
          D = (case name_part_key H v of None \<Rightarrow> D | Some k \<Rightarrow> bump_part field NAME k i delta D)
      in case target_of v of None \<Rightarrow> D | Some t \<Rightarrow> bump_part field TARGET (uuid_to_bytes t) i delta D)"

definition derive_kids :: "string \<Rightarrow> value \<Rightarrow> nat \<Rightarrow> int \<Rightarrow> derived \<Rightarrow> derived" where
  "derive_kids field v i delta D =
     (if position v = None then D
      else (case target_of v of
              None \<Rightarrow> D
            | Some parent \<Rightarrow>
                let D = D\<lparr>dv_kids := bump (parent, field, i) delta (dv_kids D)\<rparr>
                in case tget (dv_ids D) parent of
                     None \<Rightarrow> D
                   | Some pid \<Rightarrow> set_member (PARENTS field) pid (0 < delta \<or> has_kids D parent field) D))"

definition derive_presence :: "string \<Rightarrow> value list \<Rightarrow> nat \<Rightarrow> derived \<Rightarrow> derived" where
  "derive_presence field vs i D =
     set_member (MULTI field) i (1 < length (filter (\<lambda>v. v \<noteq> Nothing) vs))
       (set_member (ABSENT field) i (list_ex (\<lambda>v. v = Nothing) vs)
         (set_member (PRESENT field) i (list_ex (\<lambda>v. v \<noteq> Nothing) vs) D))"

definition derive_texts :: "(string \<Rightarrow> string) \<Rightarrow> string \<Rightarrow> value \<Rightarrow> value list \<Rightarrow> nat \<Rightarrow> derived \<Rightarrow> derived" where
  "derive_texts low field v vs i D =
     (case search_text low v of
        None \<Rightarrow> D
      | Some text \<Rightarrow>
          let texts = List.map_filter (search_text low) vs;
              held = concat (map windows3 (filter (\<lambda>t. length t \<le> TRIGRAM_MAX) texts));
              D = (if length text \<le> TRIGRAM_MAX
                   then fold (\<lambda>g. gram_member field g i (g \<in> set held)) (windows3 text) D else D)
          in set_member (LONG_TEXTS field) i (list_ex (\<lambda>t. TRIGRAM_MAX < length t) texts) D)"

definition derive_referrers :: "string \<Rightarrow> value \<Rightarrow> value list \<Rightarrow> nat \<Rightarrow> derived \<Rightarrow> derived" where
  "derive_referrers field v vs i D =
     (case target_of v of
        None \<Rightarrow> D
      | Some t \<Rightarrow> set_member (REFERRERS field t) i (list_ex (\<lambda>w. target_of w = Some t) vs) D)"

definition derive_row ::
    "(bytes \<Rightarrow> u64) \<Rightarrow> (string \<Rightarrow> string) \<Rightarrow> rowstore \<Rightarrow> uuid \<Rightarrow> string \<Rightarrow> value \<Rightarrow> int \<Rightarrow> derived \<Rightarrow> derive_error + derived" where
  "derive_row H low s u field v delta D =
     bindE (optE (tget (dv_ids D) u) (NoDenseId u)) (\<lambda>i.
       let vs = map row_value (kv_rows_named s u field);
           D = derive_kids field v i delta (derive_values H field v i delta D);
           D = derive_referrers field v vs i (derive_texts low field v vs i (derive_presence field vs i D))
       in case v of
            VTreeRef (Some parent) _ \<Rightarrow> derive_descendants s u i field parent (0 < delta) D
          | VHierarchyRef (Some parent) _ \<Rightarrow> derive_hierarchy s u i field parent (0 < delta) D
          | _ \<Rightarrow> Inr D)"

section \<open>Writes\<close>

text \<open>The writes of the transaction on both: the rows, then what they derive.\<close>

type_synonym kv = "rowstore \<times> derived"

definition kv_create :: "uuid \<Rightarrow> u64 \<Rightarrow> kv \<Rightarrow> (store_error + derive_error) + kv" where
  "kv_create u version st =
     (case create_metarecord_row u version (fst st) of
        Inl e \<Rightarrow> Inl (Inl e)
      | Inr s \<Rightarrow> (case derive_created u (snd st) of Inl e \<Rightarrow> Inl (Inr e) | Inr D \<Rightarrow> Inr (s, D)))"

definition kv_insert ::
    "(bytes \<Rightarrow> u64) \<Rightarrow> (string \<Rightarrow> string) \<Rightarrow> uuid \<Rightarrow> string \<Rightarrow> value \<Rightarrow> int option \<Rightarrow> kv \<Rightarrow> (store_error + derive_error) + int \<times> kv" where
  "kv_insert H low u field v rid st =
     (case insert_row H u field v rid (fst st) of
        Inl e \<Rightarrow> Inl (Inl e)
      | Inr (i, s) \<Rightarrow>
          (case derive_row H low s u field v 1 (snd st) of Inl e \<Rightarrow> Inl (Inr e) | Inr D \<Rightarrow> Inr (i, s, D)))"

definition kv_delete :: "(bytes \<Rightarrow> u64) \<Rightarrow> (string \<Rightarrow> string) \<Rightarrow> int \<Rightarrow> kv \<Rightarrow> derive_error + kv" where
  "kv_delete H low i st =
     (case kv_row (fst st) i of
        None \<Rightarrow> Inr st
      | Some (u, row) \<Rightarrow>
          let s = delete_row H i (fst st)
          in bindE (derive_row H low s u (row_name row) (row_value row) (-1) (snd st)) (\<lambda>D. Inr (s, D)))"

definition kv_delete_rows :: "(bytes \<Rightarrow> u64) \<Rightarrow> (string \<Rightarrow> string) \<Rightarrow> uuid \<Rightarrow> string option \<Rightarrow> kv \<Rightarrow> derive_error + kv" where
  "kv_delete_rows H low u name st =
     foldE (\<lambda>row st. if (case name of None \<Rightarrow> True | Some n \<Rightarrow> n = row_name row)
                     then kv_delete H low (row_id row) st else Inr st)
       (kv_rows (fst st) u) st"

definition kv_remove :: "(bytes \<Rightarrow> u64) \<Rightarrow> (string \<Rightarrow> string) \<Rightarrow> uuid \<Rightarrow> kv \<Rightarrow> derive_error + kv" where
  "kv_remove H low u st =
     bindE (kv_delete_rows H low u None st) (\<lambda>(s, D).
       Inr (s\<lparr>metarecords := tdel u (metarecords s)\<rparr>, derive_removed u D))"

text \<open>\<open>reindex\<close>: everything derived again, ids in the order of the first rows, then the metarecords
  without rows.\<close>

definition discovery_order :: "rowstore \<Rightarrow> uuid list" where
  "discovery_order s = dedup_by (=) [] (map (fst \<circ> snd) (row_owner s) @ map fst (metarecords s))"

definition reindex :: "(bytes \<Rightarrow> u64) \<Rightarrow> (string \<Rightarrow> string) \<Rightarrow> rowstore \<Rightarrow> derive_error + derived" where
  "reindex H low s =
     (let order = discovery_order s
      in bindE (foldE derive_created order empty_derived)
           (foldE (\<lambda>u. foldE (\<lambda>r. derive_row H low s u (row_name r) (row_value r) 1) (kv_rows s u)) order))"

end
