(* ===== verification/Kv_Source.thy ===== *)
theory Kv_Source
  imports Derived
begin

text \<open>
  The store as a query source (\<open>crates/daemon/src/kvstore/source.rs\<close>): each question of the evaluator
  answered from the derived key spaces, and from the rows where a key does not hold the whole value.
  Read errors, interruption and the counting of reads are left out. The walk of the values in order
  (pages sorted by a field) is not modelled.
\<close>

section \<open>Reading the partitions\<close>

datatype Kind = Categorical | Numeric | Datetime | Reference bool

datatype bound = Included bytes | Excluded bytes | Unbounded

definition ID_MAX :: bytes where
  "ID_MAX = replicate 5 (char_of (255::nat))"

fun from_ok :: "bound \<Rightarrow> bytes \<Rightarrow> bool" where
  "from_ok (Included k) t \<longleftrightarrow> k \<le> t"
| "from_ok (Excluded k) t \<longleftrightarrow> k < t"
| "from_ok Unbounded t \<longleftrightarrow> True"

fun to_ok :: "bound \<Rightarrow> bytes \<Rightarrow> bool" where
  "to_ok (Included k) t \<longleftrightarrow> t \<le> k"
| "to_ok (Excluded k) t \<longleftrightarrow> t < k"
| "to_ok Unbounded t \<longleftrightarrow> True"

definition entry_key :: "bytes \<Rightarrow> bytes" where
  "entry_key t = take (length t - 4) t"

definition entry_id :: "bytes \<Rightarrow> nat" where
  "entry_id t = dense (drop (length t - 4) t)"

definition posting :: "derived \<Rightarrow> string \<Rightarrow> bytes \<Rightarrow> ids option" where
  "posting D field key = (let p = dv_sets D (POSTINGS field key) in if p = {} then None else Some p)"

text \<open>The loop of \<open>scan_part\<close> over the entries in range: a value with a posting is taken whole, and the
  range resumes past its run.\<close>

function scan_entries :: "(bytes \<Rightarrow> ids option) \<Rightarrow> (bytes \<Rightarrow> bool) \<Rightarrow> bytes list \<Rightarrow> ids" where
  "scan_entries posted keep [] = {}"
| "scan_entries posted keep (t # ts) =
     (let key = entry_key t
      in case posted key of
           Some p \<Rightarrow> (if keep key then p else {}) \<union> scan_entries posted keep (filter (\<lambda>e. key @ ID_MAX < e) ts)
         | None \<Rightarrow> (if keep key then {entry_id t} else {}) \<union> scan_entries posted keep ts)"
  by pat_completeness auto
termination by (relation "measure (\<lambda>(_, _, ts). length ts)") (auto simp: less_Suc_eq_le)

definition scan_part :: "derived \<Rightarrow> string \<Rightarrow> nat \<Rightarrow> bound \<Rightarrow> bound \<Rightarrow> (bytes \<Rightarrow> bool) \<Rightarrow> (bytes \<Rightarrow> ids option) \<Rightarrow> ids" where
  "scan_part D field part from to keep posted =
     scan_entries posted keep (filter (\<lambda>t. from_ok from t \<and> to_ok to t) (part_tails D field part))"

definition part_ids :: "derived \<Rightarrow> string \<Rightarrow> nat \<Rightarrow> bound \<Rightarrow> bound \<Rightarrow> (bytes \<Rightarrow> bool) \<Rightarrow> ids" where
  "part_ids D field part from to keep =
     scan_part D field part from to keep (if part = VALUE then posting D field else (\<lambda>_. None))"

definition bucket :: "derived \<Rightarrow> string \<Rightarrow> nat \<Rightarrow> bytes \<Rightarrow> ids" where
  "bucket D field part key =
     (case (if part = VALUE then posting D field key else None) of
        Some is \<Rightarrow> is
      | None \<Rightarrow> scan_part D field part (Included key) (Excluded (key @ ID_MAX)) (\<lambda>k. k = key) (\<lambda>_. None))"

definition all_but :: "derived \<Rightarrow> string \<Rightarrow> nat \<Rightarrow> bytes option \<Rightarrow> ids" where
  "all_but D field part key = part_ids D field part Unbounded Unbounded (\<lambda>k. Some k \<noteq> key)"

definition region_end :: "bytes \<Rightarrow> bytes" where
  "region_end region = (if region = [] then [] else butlast region @ [char_of (Suc (byte_val (last region)))])"

definition ordered_ids :: "derived \<Rightarrow> string \<Rightarrow> nat \<Rightarrow> bytes \<Rightarrow> IndexOp \<Rightarrow> bytes \<Rightarrow> bytes option \<Rightarrow> ids" where
  "ordered_ids D field part region op key exclude =
     (let after = key @ ID_MAX;
          from = (case op of
                    IGt \<Rightarrow> Excluded after
                  | IGte \<Rightarrow> Included key
                  | _ \<Rightarrow> Included region);
          to = (case op of
                  ILt \<Rightarrow> Excluded key
                | ILte \<Rightarrow> Excluded after
                | _ \<Rightarrow> if region = [] then Unbounded else Excluded (region_end region))
      in part_ids D field part from to
           (\<lambda>k. prefix region k \<and> (case exclude of None \<Rightarrow> True | Some e \<Rightarrow> \<not> prefix e k)))"

section \<open>Reading the rows\<close>

definition kv_values :: "kv \<Rightarrow> nat \<Rightarrow> string \<Rightarrow> value list" where
  "kv_values st i field =
     (case tget (dv_uuids (snd st)) i of
        None \<Rightarrow> []
      | Some u \<Rightarrow> map row_value (kv_rows_named (fst st) u field))"

definition having :: "kv \<Rightarrow> ids \<Rightarrow> string \<Rightarrow> (value \<Rightarrow> bool) \<Rightarrow> ids" where
  "having st is field holds = {i \<in> is. list_ex holds (kv_values st i field)}"

text \<open>The long texts sharing the operand's first bytes are decided on their values.\<close>

definition ordered_exact :: "kv \<Rightarrow> string \<Rightarrow> nat \<Rightarrow> bytes \<Rightarrow> IndexOp \<Rightarrow> bytes \<Rightarrow> (value \<Rightarrow> bool) \<Rightarrow> ids" where
  "ordered_exact st field part region op key holds =
     (let is_text = (part = NAME \<or> (key \<noteq> [] \<and> byte_val (hd key) = 2))
      in case (if is_text then long_prefix (drop (length region) key) else None) of
           None \<Rightarrow> ordered_ids (snd st) field part region op key None
         | Some rest \<Rightarrow>
             (let ambiguous = region @ rest;
                  undecided = part_ids (snd st) field part (Included ambiguous) (Excluded (region_end ambiguous)) (\<lambda>_. True)
              in ordered_ids (snd st) field part region op key (Some ambiguous) \<union> having st undecided field holds))"

definition is_hashed :: "bytes \<Rightarrow> bool" where
  "is_hashed key \<longleftrightarrow>
     (case key of
        [] \<Rightarrow> False
      | c # _ \<Rightarrow> if byte_val c = 2 then long_prefix (drop 1 key) \<noteq> None
                else if byte_val c = 7 then long_prefix (drop 17 key) \<noteq> None
                else False)"

definition equal_ids :: "kv \<Rightarrow> string \<Rightarrow> bytes \<Rightarrow> value \<Rightarrow> ids" where
  "equal_ids st field key v =
     (let is = bucket (snd st) field VALUE key
      in if is_hashed key then having st is field (\<lambda>w. value_eq w v) else is)"

definition name_of :: "value \<Rightarrow> string option" where
  "name_of v = map_option (\<lambda>(_, name). display name) (position v)"

definition TYPES :: "string list" where
  "TYPES = [''string'', ''int'', ''float'', ''bool'', ''datetime'', ''ref'', ''tree_ref'', ''hierarchy_ref'', ''refbase'', ''externalref'']"

definition kv_value_type :: "kv \<Rightarrow> string \<Rightarrow> string option" where
  "kv_value_type st field = List.find (\<lambda>t. t \<in> set TYPES) (kv_value_types (fst st) field)"

definition kind :: "kv \<Rightarrow> string \<Rightarrow> Kind option" where
  "kind st field =
     map_option (\<lambda>t. if t = ''bool'' \<or> t = ''string'' then Categorical
                     else if t = ''int'' \<or> t = ''float'' then Numeric
                     else if t = ''datetime'' then Datetime
                     else if t = ''tree_ref'' \<or> t = ''hierarchy_ref'' then Reference True
                     else Reference False)
       (kv_value_type st field)"

section \<open>Searching texts\<close>

definition text_candidates :: "kv \<Rightarrow> string \<Rightarrow> string list \<Rightarrow> ids option \<Rightarrow> ids option" where
  "text_candidates st field literals r =
     (let grams = remdups (concat (map windows3 literals))
      in if grams = [] then None
         else Some ((case fold (\<lambda>g acc. Some (case acc of None \<Rightarrow> dv_grams (snd st) field g | Some c \<Rightarrow> c \<inter> dv_grams (snd st) field g)) grams r of
                       None \<Rightarrow> {} | Some c \<Rightarrow> c)
                    \<union> restricted r (dv_sets (snd st) (LONG_TEXTS field))))"

text \<open>Every distinct key of the partition tested once, the keys cut and hashed set aside for their values.\<close>

definition scan_keys :: "kv \<Rightarrow> string \<Rightarrow> nat \<Rightarrow> (value \<Rightarrow> bool) \<Rightarrow> (string \<Rightarrow> bool) \<Rightarrow> ids option \<Rightarrow> ids" where
  "scan_keys st field part matches keep r =
     (let region = (if part = VALUE then [char_of (2::nat)] else []);
          hash = (\<lambda>k. long_prefix (drop (length region) k) \<noteq> None);
          test = (\<lambda>k. \<not> hash k \<and> (case unesc (drop (length region) k) of None \<Rightarrow> False | Some (t, _) \<Rightarrow> keep t));
          to = (if region = [] then Unbounded else Excluded (region_end region));
          out = part_ids (snd st) field part (Included region) to test;
          long = restricted r (part_ids (snd st) field part (Included region) to hash)
      in restricted r (out \<union> having st long field matches))"

definition kv_scan :: "kv \<Rightarrow> string \<Rightarrow> nat \<Rightarrow> (value \<Rightarrow> string option) \<Rightarrow> (string \<Rightarrow> bool) \<Rightarrow> string list \<Rightarrow> ids option \<Rightarrow> ids" where
  "kv_scan st field part text_in keep literals r =
     (let matches = (\<lambda>v. case text_in v of None \<Rightarrow> False | Some t \<Rightarrow> keep t)
      in case text_candidates st field literals r of
           Some c \<Rightarrow> having st c field matches
         | None \<Rightarrow>
             (case r of
                None \<Rightarrow> scan_keys st field part matches keep r
              | Some c \<Rightarrow>
                  if probes (card c) (card (dv_sets (snd st) (PRESENT field))) then having st c field matches
                  else scan_keys st field part matches keep r))"

section \<open>The questions of the evaluator\<close>

definition names_compare :: "(bytes \<Rightarrow> u64) \<Rightarrow> kv \<Rightarrow> string \<Rightarrow> IndexOp \<Rightarrow> string \<Rightarrow> ids" where
  "names_compare H st field op s =
     (let key = text_key H s;
          hashed = (long_prefix key \<noteq> None);
          named = (\<lambda>want v. case name_of v of None \<Rightarrow> False | Some n \<Rightarrow> (n = s) = want)
      in case op of
           IEq \<Rightarrow> (if hashed then having st (bucket (snd st) field NAME key) field (named True)
                   else bucket (snd st) field NAME key)
         | INeq \<Rightarrow> all_but (snd st) field NAME (Some key) \<union>
                   (if hashed then having st (bucket (snd st) field NAME key) field (named False) else {})
         | _ \<Rightarrow> ordered_exact st field NAME [] op key
                   (\<lambda>v. case name_of v of None \<Rightarrow> False | Some n \<Rightarrow> matches_ordering op (cmp n s)))"

definition differs_ids :: "(bytes \<Rightarrow> u64) \<Rightarrow> kv \<Rightarrow> string \<Rightarrow> value \<Rightarrow> ids option \<Rightarrow> ids" where
  "differs_ids H st field v probe =
     (let key = value_key H v
      in case probe of
           Some r \<Rightarrow> having st r field (\<lambda>w. case value_key H w of
                        None \<Rightarrow> False
                      | Some k \<Rightarrow> if Some k = key then is_hashed k \<and> \<not> value_eq w v else True)
         | None \<Rightarrow> all_but (snd st) field VALUE key \<union>
             (case key of
                Some k \<Rightarrow> if is_hashed k then having st (bucket (snd st) field VALUE k) field (\<lambda>w. w \<noteq> Nothing \<and> \<not> value_eq w v) else {}
              | None \<Rightarrow> {}))"

definition usable :: "Kind \<Rightarrow> value \<Rightarrow> index_error + bool" where
  "usable k v =
     (case (k, v) of
        (Categorical, VBool _) \<Rightarrow> Inl OrderedBool
      | (Reference _, VRef _) \<Rightarrow> Inl OrderedReference
      | (Reference _, VRefBase _) \<Rightarrow> Inl OrderedReference
      | (Reference _, VTreeRef _ _) \<Rightarrow> Inl OrderedReference
      | (Reference _, VHierarchyRef _ _) \<Rightarrow> Inl OrderedReference
      | (Reference _, VExternalRef _ _) \<Rightarrow> Inl OrderedReference
      | (Categorical, VString _) \<Rightarrow> Inr True
      | (Numeric, VInt _) \<Rightarrow> Inr True
      | (Numeric, VFloat _) \<Rightarrow> Inr True
      | (Datetime, VDateTime _) \<Rightarrow> Inr True
      | _ \<Rightarrow> Inr False)"

definition text_holds :: "IndexOp \<Rightarrow> value \<Rightarrow> value \<Rightarrow> bool" where
  "text_holds op v w = (case (w, v) of (VString x, VString y) \<Rightarrow> matches_ordering op (cmp x y) | _ \<Rightarrow> False)"

text \<open>A row decided by its key, the texts cut where the operand is by their values.\<close>

definition row_by_key :: "(bytes \<Rightarrow> u64) \<Rightarrow> IndexOp \<Rightarrow> value \<Rightarrow> bytes \<Rightarrow> value \<Rightarrow> bool" where
  "row_by_key H op v k w =
     (let region = take 1 k;
          ambiguous = (if region = [char_of (2::nat)] then map_option (\<lambda>rest. region @ rest) (long_prefix (drop 1 k)) else None)
      in case value_key H w of
           None \<Rightarrow> False
         | Some rk \<Rightarrow> if (case ambiguous of None \<Rightarrow> False | Some a \<Rightarrow> prefix a rk) then text_holds op v w
                     else prefix region rk \<and> matches_ordering op (cmp rk k))"

definition kv_compare :: "(bytes \<Rightarrow> u64) \<Rightarrow> kv \<Rightarrow> string \<Rightarrow> IndexOp \<Rightarrow> value \<Rightarrow> ids option \<Rightarrow> index_error + ids" where
  "kv_compare H st field op v r =
     (case kind st field of
        None \<Rightarrow> Inr {}
      | Some k \<Rightarrow>
          if k = Reference True \<and> (case v of VString _ \<Rightarrow> True | _ \<Rightarrow> False)
          then Inr (names_compare H st field op (case v of VString s \<Rightarrow> s | _ \<Rightarrow> []))
          else (let probe = (case r of
                               None \<Rightarrow> None
                             | Some c \<Rightarrow> if op \<noteq> IEq \<and> probes (card c) (card (dv_sets (snd st) (PRESENT field))) then Some c else None)
                in case op of
                     IEq \<Rightarrow> Inr (case value_key H v of None \<Rightarrow> {} | Some key \<Rightarrow> equal_ids st field key v)
                   | INeq \<Rightarrow> Inr (differs_ids H st field v probe)
                   | _ \<Rightarrow> bindE (usable k v) (\<lambda>use.
                       Inr (case value_key H v of
                              None \<Rightarrow> {}
                            | Some key \<Rightarrow>
                                if \<not> use then {}
                                else (case probe of
                                        Some c \<Rightarrow> having st c field (row_by_key H op v key)
                                      | None \<Rightarrow> ordered_exact st field VALUE (take 1 key) op key (text_holds op v))))))"

definition kv_same_as :: "(bytes \<Rightarrow> u64) \<Rightarrow> kv \<Rightarrow> string \<Rightarrow> ids \<Rightarrow> ids" where
  "kv_same_as H st field seed =
     (let vs = concat (map (\<lambda>i. kv_values st i field) (sorted_list_of_set seed));
          wanted = List.map_filter (\<lambda>v. map_option (\<lambda>k. (k, v)) (value_key H v)) vs
      in \<Union> (set (map (\<lambda>k. let is = bucket (snd st) field VALUE k
                            in if is_hashed k
                               then having st is field (\<lambda>v. list_ex (\<lambda>(k', w). k' = k \<and> value_eq w v) wanted)
                               else is)
                    (map fst wanted))))"

definition kv_scan_names :: "kv \<Rightarrow> string \<Rightarrow> (string \<Rightarrow> bool) \<Rightarrow> string list \<Rightarrow> ids option \<Rightarrow> ids" where
  "kv_scan_names st field keep literals r =
     (if kind st field \<noteq> Some (Reference True) then {} else kv_scan st field NAME name_of keep literals r)"

definition kv_scan_text :: "kv \<Rightarrow> string \<Rightarrow> (string \<Rightarrow> bool) \<Rightarrow> string list \<Rightarrow> ids option \<Rightarrow> ids" where
  "kv_scan_text st field keep literals r =
     (case kind st field of
        Some Categorical \<Rightarrow> kv_scan st field VALUE (\<lambda>v. case v of VString s \<Rightarrow> Some s | _ \<Rightarrow> None) keep literals r
      | Some (Reference True) \<Rightarrow> kv_scan_names st field keep literals r
      | _ \<Rightarrow> {})"

definition kv_follow :: "kv \<Rightarrow> string \<Rightarrow> Follow option" where
  "kv_follow st field =
     map_option (\<lambda>t. if t = ''tree_ref'' \<or> t = ''hierarchy_ref'' then FollowTree
                     else if t = ''ref'' then FollowDirect else FollowNone)
       (kv_value_type st field)"

definition kv_referrers :: "kv \<Rightarrow> string \<Rightarrow> uuid \<Rightarrow> ids option" where
  "kv_referrers st field t = (let is = dv_sets (snd st) (REFERRERS field t) in if is = {} then None else Some is)"

definition kv_descendants :: "kv \<Rightarrow> string \<Rightarrow> ids \<Rightarrow> ids" where
  "kv_descendants st field seed =
     (let sifted = (if 1 < card seed then seed \<inter> dv_sets (snd st) (PARENTS field) else seed)
      in \<Union>i\<in>sifted. case tget (dv_uuids (snd st)) i of
                         None \<Rightarrow> {}
                       | Some u \<Rightarrow> dv_sets (snd st) (DESCENDANTS field u))"

definition kv_source :: "(bytes \<Rightarrow> u64) \<Rightarrow> kv \<Rightarrow> source" where
  "kv_source H st =
     \<lparr>s_universe = dv_sets (snd st) UNIVERSE,
      s_present = (\<lambda>f. dv_sets (snd st) (PRESENT f)),
      s_absent = (\<lambda>f. dv_sets (snd st) (ABSENT f)),
      s_value_type = kv_value_type st,
      s_id = tget (dv_ids (snd st)),
      s_uuid = tget (dv_uuids (snd st)),
      s_compare = kv_compare H st,
      s_same_as = kv_same_as H st,
      s_scan_text = kv_scan_text st,
      s_scan_names = kv_scan_names st,
      s_follow = kv_follow st,
      s_referrers = kv_referrers st,
      s_tree_roots = (\<lambda>f. dv_sets (snd st) (REFERRERS f ZERO_UUID)),
      s_tree_parents_except = (\<lambda>f t. all_but (snd st) f TARGET (map_option uuid_to_bytes t)),
      s_parents = (\<lambda>f. dv_sets (snd st) (PARENTS f)),
      s_descendants = (\<lambda>f is. Some (kv_descendants st f is))\<rparr>"

section \<open>The questions of the schema check\<close>

definition kv_field_holders :: "kv \<Rightarrow> string \<Rightarrow> ids" where
  "kv_field_holders st field = dv_sets (snd st) (PRESENT field) \<union> dv_sets (snd st) (ABSENT field)"

definition maybe_several :: "kv \<Rightarrow> string \<Rightarrow> ids" where
  "maybe_several st field = dv_sets (snd st) (MULTI field) \<union> dv_sets (snd st) (ABSENT field)"

text \<open>A \<open>limit\<close> below zero is none at all.\<close>

definition uuids_of :: "kv \<Rightarrow> nat list \<Rightarrow> int \<Rightarrow> uuid list" where
  "uuids_of st is limit = take (nat limit) (List.map_filter (tget (dv_uuids (snd st))) is)"

definition wrong_type :: "kv \<Rightarrow> string \<Rightarrow> string \<Rightarrow> int \<Rightarrow> uuid list" where
  "wrong_type st field allowed limit =
     (case kv_value_types (fst st) field of
        [only] \<Rightarrow> uuids_of st (sorted_list_of_set (if only = allowed then {} else dv_sets (snd st) (PRESENT field))) limit
      | types \<Rightarrow>
          uuids_of st (sorted_list_of_set (\<Union>t\<in>set types.
            if t = allowed then {}
            else (case type_tag t of
                    None \<Rightarrow> {}
                  | Some tag \<Rightarrow>
                      (let run = part_ids (snd st) field VALUE (Included [char_of tag]) (Excluded [char_of (Suc tag)]) (\<lambda>_. True)
                       in if type_tag allowed = Some tag
                          then having st run field (\<lambda>v. value_type (encode_value v) = t) else run)))) limit)"

definition count_over :: "kv \<Rightarrow> string \<Rightarrow> int \<Rightarrow> int \<Rightarrow> uuid list" where
  "count_over st field most limit =
     uuids_of st (sorted_list_of_set
       (if most < 1 then kv_field_holders st field
        else {i \<in> maybe_several st field. most < int (length (kv_values st i field))})) limit"

definition count_under :: "kv \<Rightarrow> string \<Rightarrow> int \<Rightarrow> int \<Rightarrow> uuid list" where
  "count_under st field least limit =
     (if least \<le> 1 then uuids_of st [] limit
      else (let holding = kv_field_holders st field;
                several = holding \<inter> maybe_several st field;
                single = holding - several
            in uuids_of st (sorted_list_of_set single @
                 filter (\<lambda>i. int (length (kv_values st i field)) < least) (sorted_list_of_set several)) limit))"

definition missing :: "kv \<Rightarrow> string \<Rightarrow> int \<Rightarrow> uuid list" where
  "missing st field limit = uuids_of st (sorted_list_of_set (dv_sets (snd st) UNIVERSE - kv_field_holders st field)) limit"

definition typed_missing :: "(bytes \<Rightarrow> u64) \<Rightarrow> kv \<Rightarrow> string list \<Rightarrow> string \<Rightarrow> int \<Rightarrow> uuid list" where
  "typed_missing H st types field limit =
     (let declared = (\<Union>t\<in>set types. case value_key H (VString t) of None \<Rightarrow> {} | Some key \<Rightarrow> equal_ids st ''mf_schema'' key (VString t))
      in uuids_of st (sorted_list_of_set (declared - kv_field_holders st field)) limit)"

definition field_catalog :: "kv \<Rightarrow> string option \<Rightarrow> (string \<times> string) list" where
  "field_catalog st wanted =
     sort (map fst (filter (\<lambda>((_, t), _). case wanted of None \<Rightarrow> True | Some w \<Rightarrow> w = t) (field_types (fst st))))"

definition in_uuid_order :: "kv \<Rightarrow> uuid option \<Rightarrow> (uuid \<times> nat) list" where
  "in_uuid_order st after = tscan (\<lambda>u. case after of None \<Rightarrow> True | Some a \<Rightarrow> a < u) (dv_ids (snd st))"

end
