(* ===== verification/Derived_Keys.thy ===== *)
theory Derived_Keys
  imports Derived
begin

text \<open>
  What the keys of the derived tables keep of the values: no key is the start of another, texts come
  in their order but for long texts of one beginning, numbers and dates in theirs.
\<close>

section \<open>Escaped texts\<close>

lemma esc_name_key: "esc b = name_key b"
  by (simp add: esc_def name_key_def)

lemma name_escape_simps:
  "name_escape (b # bs) = (if b = char_of (0::nat) then b # char_of (255::nat) # name_escape bs else b # name_escape bs)"
  using zero_char [of b] by simp

declare name_escape.simps(2) [simp del]
declare name_escape_simps [simp]

text \<open>A marker, 00 or 01 after a zero byte, ends an escaped text.\<close>

lemma marked_less:
  assumes "m < 255" "n < (255::nat)"
  shows "name_escape p @ char_of (0::nat) # char_of m # x < name_escape q @ char_of (0::nat) # char_of n # y \<longleftrightarrow>
    p < q \<or> p = q \<and> (m < n \<or> m = n \<and> x < y)"
proof (induction p arbitrary: q)
  case Nil
  have mn: "(char_of m :: char) < char_of n \<longleftrightarrow> m < n" "(char_of m :: char) = char_of n \<longleftrightarrow> m = n" "(char_of m :: char) < char_of (255::nat)"
    using assms by (auto simp: char_less_byte_val simp flip: byte_val_inject)
  show ?case
  proof (cases q)
    case (Cons d q')
    then show ?thesis using mn(3) zero_char [of d]
      by (cases "d = char_of (0::nat)") (auto simp: char_less_byte_val)
  qed (use mn in simp)
next
  case (Cons c p)
  have nb: "\<not> (char_of (255::nat) :: char) < char_of n" "(char_of (255::nat) :: char) \<noteq> char_of n"
    using assms by (auto simp: char_less_byte_val simp flip: byte_val_inject)
  show ?case
  proof (cases q)
    case Nil
    then show ?thesis using nb zero_char [of c] by (cases "c = char_of (0::nat)") (auto simp: char_less_byte_val)
  next
    case (Cons d q')
    then show ?thesis using Cons.IH [of q'] zero_char [of c] zero_char [of d]
      by (cases "c = char_of (0::nat)"; cases "d = char_of (0::nat)") (auto simp: char_less_byte_val)
  qed
qed

lemma marked_eq:
  assumes "m < 255" "n < (255::nat)"
  shows "name_escape p @ char_of (0::nat) # char_of m # x = name_escape q @ char_of (0::nat) # char_of n # y \<longleftrightarrow> p = q \<and> m = n \<and> x = y"
  using marked_less [OF assms, of p x q y] marked_less [OF assms(2,1), of q y p x]
  by (metis linorder_neqE order_less_irrefl)

lemma long_prefix_marked:
  assumes "m < (2::nat)"
  shows "long_prefix (name_escape p @ char_of (0::nat) # char_of m # x) =
    (if m = 0 then None else Some (name_escape p @ [char_of (0::nat), char_of (1::nat)]))"
proof (induction p)
  case Nil
  then show ?case using assms by (cases "m = 0") (auto simp: less_Suc_eq numeral_2_eq_2)
next
  case (Cons c p)
  have "\<exists>d k. name_escape p @ char_of (0::nat) # char_of m # x = d # k" by (cases "name_escape p") auto
  then obtain d k where k: "name_escape p @ char_of (0::nat) # char_of m # x = d # k" by blast
  then show ?case using Cons zero_char [of c] by (cases "c = char_of (0::nat)") (auto split: if_splits)
qed

lemma unesc_marked: "unesc (name_escape p @ char_of (0::nat) # char_of (0::nat) # x) = Some (p, x)"
proof (induction p)
  case (Cons c p)
  obtain d k where k: "name_escape p @ char_of (0::nat) # char_of (0::nat) # x = d # k" by (cases "name_escape p") auto
  then show ?case using Cons zero_char [of c] by (cases "c = char_of (0::nat)") auto
qed simp

section \<open>Text keys\<close>

definition width :: "char \<Rightarrow> nat" where
  "width b = (if b = char_of (0::nat) then 2 else 1)"

fun cut_of :: "nat \<Rightarrow> bytes \<Rightarrow> bytes" where
  "cut_of n [] = []"
| "cut_of n (b # bs) = (if n + width b > TEXT_MAX then [] else b # cut_of (n + width b) bs)"

definition cut_text :: "bytes \<Rightarrow> bytes" where
  "cut_text b = cut_of 0 b"

definition hashed :: "bytes \<Rightarrow> bool" where
  "hashed b \<longleftrightarrow> TEXT_MAX < length (name_escape b)"

lemma cut_escaped_of: "cut_escaped out b = out @ name_escape (cut_of (length out) b)"
  by (induction out b rule: cut_escaped.induct) (simp_all add: Let_def width_def zero_char)

lemma cut_of_whole: "n + length (name_escape b) \<le> TEXT_MAX \<Longrightarrow> cut_of n b = b"
  by (induction b arbitrary: n) (auto simp: width_def)

lemma cut_whole: "\<not> hashed b \<Longrightarrow> cut_text b = b"
  by (simp add: cut_text_def hashed_def cut_of_whole)

lemma cut_of_short: "n \<le> TEXT_MAX \<Longrightarrow> n + length (name_escape (cut_of n b)) \<le> TEXT_MAX"
proof (induction n b rule: cut_of.induct)
  case (2 n b bs)
  then show ?case by (auto simp: width_def)
qed simp

lemma cut_of_less: "cut_of n a < cut_of n b \<Longrightarrow> a < b"
proof (induction a arbitrary: n b)
  case Nil
  then show ?case by (cases b) auto
next
  case (Cons c a)
  obtain d b' where b: "b = d # b'" using Cons.prems by (cases b) auto
  show ?case
  proof (cases "n + width c > TEXT_MAX")
    case True
    then have "\<not> n + width d > TEXT_MAX" using Cons.prems by (auto simp: b)
    then have "c = char_of (0::nat)" "d \<noteq> char_of (0::nat)" using True by (auto simp: width_def split: if_splits)
    then show ?thesis using zero_char [of d] by (simp add: b char_less_byte_val)
  next
    case False
    then show ?thesis using Cons.prems Cons.IH [of "n + width c" b'] by (auto simp: b split: if_splits)
  qed
qed

lemma cut_less: "cut_text a < cut_text b \<Longrightarrow> a < b"
  unfolding cut_text_def by (rule cut_of_less)

lemma cut_prefix: "prefix (cut_text b) b"
proof -
  have "prefix (cut_of n b) b" for n by (induction b arbitrary: n) auto
  then show ?thesis by (simp add: cut_text_def)
qed

lemma cut_hashed: "hashed b \<Longrightarrow> cut_text b < b"
proof -
  assume h: "hashed b"
  obtain r where r: "b = cut_text b @ r" using cut_prefix [of b] by (auto simp: prefix_def)
  have "length (name_escape (cut_text b)) \<le> TEXT_MAX" using cut_of_short [of 0 b] by (simp add: cut_text_def)
  then have "r \<noteq> []" using h r by (auto simp: hashed_def)
  moreover have "xs < xs @ r" if "r \<noteq> []" for xs using that by (induction xs) (auto simp: neq_Nil_conv)
  ultimately have "cut_text b < cut_text b @ r" by blast
  then show ?thesis using r by simp
qed

text \<open>The parts of a text's key.\<close>

definition mark :: "bytes \<Rightarrow> nat" where
  "mark b = (if hashed b then 1 else 0)"

definition hash_part :: "(bytes \<Rightarrow> u64) \<Rightarrow> bytes \<Rightarrow> bytes" where
  "hash_part H b = (if hashed b then be_bytes 8 (unat (H b)) else [])"

lemma mark_less [simp]: "mark b < 2" "mark b < 255"
  by (simp_all add: mark_def)

lemma text_key_parts: "text_key H b = name_escape (cut_text b) @ char_of (0::nat) # char_of (mark b) # hash_part H b"
proof -
  have "length (esc b) \<le> TEXT_MAX + 2 \<longleftrightarrow> \<not> hashed b" by (auto simp: esc_def hashed_def)
  then show ?thesis
    using cut_whole [of b] by (simp add: text_key_def mark_def hash_part_def esc_def cut_escaped_of cut_text_def)
qed

lemma text_key_less:
  assumes "\<not> (hashed a \<and> hashed b \<and> cut_text a = cut_text b)"
  shows "text_key H a @ x < text_key H b @ y \<longleftrightarrow> a < b \<or> a = b \<and> x < y"
proof -
  have e: "text_key H a @ x < text_key H b @ y \<longleftrightarrow> cut_text a < cut_text b \<or> cut_text a = cut_text b \<and>
      (mark a < mark b \<or> mark a = mark b \<and> hash_part H a @ x < hash_part H b @ y)"
    by (simp add: text_key_parts marked_less)
  show ?thesis
  proof (cases "cut_text a = cut_text b")
    case False
    then consider "cut_text a < cut_text b" | "cut_text b < cut_text a" by (metis linorder_neqE)
    then show ?thesis
    proof cases
      case 1 then show ?thesis using e cut_less [OF 1] by simp
    next
      case 2 then show ?thesis using e cut_less [OF 2] by (auto dest: order.strict_trans)
    qed
  next
    case True
    show ?thesis
    proof (cases "hashed a")
      case h: True
      then have b: "\<not> hashed b" using assms True by blast
      then have "b < a" using cut_hashed [OF h] cut_whole [OF b] True by simp
      then show ?thesis using e True h b by (auto simp: mark_def dest: order.strict_trans)
    next
      case n: False
      show ?thesis
      proof (cases "hashed b")
        case h: True
        then have "a < b" using cut_hashed [OF h] cut_whole [OF n] True by simp
        then show ?thesis using e True h n by (simp add: mark_def)
      next
        case False
        then show ?thesis using e True n cut_whole [OF n] cut_whole [OF False] by (simp add: mark_def hash_part_def)
      qed
    qed
  qed
qed

lemma text_key_eq: "text_key H a @ x = text_key H b @ y \<longleftrightarrow> text_key H a = text_key H b \<and> x = y"
proof -
  have "hash_part H a @ x = hash_part H b @ y \<longleftrightarrow> hash_part H a = hash_part H b \<and> x = y" if "mark a = mark b"
    using that by (auto simp: mark_def hash_part_def split: if_splits)
  then show ?thesis by (auto simp: text_key_parts marked_eq)
qed

lemma text_key_whole: "\<not> hashed a \<Longrightarrow> text_key H a = text_key H b \<longleftrightarrow> a = b"
  using cut_whole [of a] cut_whole [of b] by (auto simp: text_key_parts marked_eq mark_def hash_part_def split: if_splits)

lemma text_key_same: "text_key H a = text_key H b \<Longrightarrow> hashed a = hashed b \<and> cut_text a = cut_text b"
  by (auto simp: text_key_parts marked_eq mark_def split: if_splits)

lemma long_prefix_text: "long_prefix (text_key H b @ x) = (if hashed b then Some (name_escape (cut_text b) @ [char_of (0::nat), char_of (1::nat)]) else None)"
  using long_prefix_marked [OF mark_less(1), of "cut_text b" b "hash_part H b @ x"] by (simp add: text_key_parts mark_def)

lemma long_prefix_text' [simp]: "long_prefix (text_key H b) = (if hashed b then Some (name_escape (cut_text b) @ [char_of (0::nat), char_of (1::nat)]) else None)"
  using long_prefix_text [of H b "[]"] by simp

lemma text_key_run: "prefix (name_escape (cut_text a) @ [char_of (0::nat), char_of (1::nat)]) (text_key H b @ x) \<longleftrightarrow> hashed b \<and> cut_text a = cut_text b"
proof -
  have "prefix (name_escape (cut_text a) @ [char_of (0::nat), char_of (1::nat)]) (text_key H b @ x) \<longleftrightarrow>
      (\<exists>z. name_escape (cut_text b) @ char_of (0::nat) # char_of (mark b) # hash_part H b @ x = name_escape (cut_text a) @ char_of (0::nat) # char_of (1::nat) # z)"
    by (simp add: prefix_def text_key_parts)
  also have "\<dots> \<longleftrightarrow> (\<exists>z. cut_text b = cut_text a \<and> mark b = 1 \<and> hash_part H b @ x = z)"
    using marked_eq [of "mark b" 1 "cut_text b" "hash_part H b @ x" "cut_text a"] by simp
  finally show ?thesis by (auto simp: mark_def)
qed

lemma unesc_text: "\<not> hashed b \<Longrightarrow> unesc (text_key H b @ x) = Some (b, x)"
  using cut_whole [of b] unesc_marked [of b x] by (simp add: text_key_parts mark_def hash_part_def)

section \<open>Keys that no key starts with\<close>

lemma be_bytes_append: "be_bytes n a @ x = be_bytes n b @ y \<longleftrightarrow> be_bytes n a = be_bytes n b \<and> x = y"
  by simp

lemma uuid_append: "uuid_to_bytes u @ x = uuid_to_bytes w @ y \<longleftrightarrow> u = w \<and> x = y"
  by (rule uuid_bytes_eq)

lemma uuid_bytes_inject [simp]: "uuid_to_bytes u = uuid_to_bytes w \<longleftrightarrow> u = w"
  using uuid_append [of u "[]" w "[]"] by simp

lemma word_bytes_inject [simp]: "be_bytes 8 (unat (a::64 word)) = be_bytes 8 (unat b) \<longleftrightarrow> a = b"
proof
  assume "be_bytes 8 (unat a) = be_bytes 8 (unat b)"
  then have "be_val (be_bytes 8 (unat a)) = be_val (be_bytes 8 (unat b))" by (rule arg_cong)
  moreover have "unat a < 256 ^ 8" "unat b < 256 ^ 8" using unsigned_less [of a] unsigned_less [of b] by simp_all
  ultimately show "a = b" by (simp add: be_val_bytes word_unat_eq_iff)
qed simp

lemma tag_inject [simp]: "m < 256 \<Longrightarrow> n < 256 \<Longrightarrow> (char_of (m::nat) :: char) = char_of n \<longleftrightarrow> m = n"
  by (metis byte_val_char_of mod_less)

text \<open>A partition's keys.\<close>

definition part_key :: "(bytes \<Rightarrow> u64) \<Rightarrow> nat \<Rightarrow> bytes \<Rightarrow> bool" where
  "part_key H p k \<longleftrightarrow>
     p = VALUE \<and> (\<exists>v. value_key H v = Some k) \<or> p = NAME \<and> (\<exists>s. k = text_key H s) \<or> p = TARGET \<and> length k = 16"

lemma text_key_nonempty [simp]: "text_key H s \<noteq> []"
  by (simp add: text_key_parts)

lemma value_key_nonempty: "value_key H v \<noteq> Some []"
  by (cases v) auto

lemma part_key_nonempty: "part_key H p k \<Longrightarrow> k \<noteq> []"
  using value_key_nonempty text_key_nonempty unfolding part_key_def by (metis list.size(3) zero_neq_numeral)

lemma value_key_free:
  assumes "value_key H v = Some k" "value_key H w = Some l" "k @ x = l @ y"
  shows "k = l"
proof -
  have h: "char_of m # a = char_of n # b \<Longrightarrow> m < 256 \<Longrightarrow> n < 256 \<Longrightarrow> m = n \<and> a = b" for m n :: nat and a b :: bytes by simp
  show ?thesis
    using assms by (cases v; cases w) (auto simp: be_bytes_append uuid_append text_key_eq dest!: h split: if_splits)
qed

lemma part_key_free:
  assumes "part_key H p k" "part_key H p l" "prefix k l"
  shows "k = l"
  using assms value_key_free [of H _ k _ l _ "[]"] text_key_eq [of H _ _ _ "[]"]
  by (auto simp: part_key_def prefix_def VALUE_def NAME_def TARGET_def)

section \<open>Order of byte strings\<close>

lemma less_append: "\<not> prefix b a \<Longrightarrow> a < b \<Longrightarrow> \<not> prefix a b \<Longrightarrow> a @ x < b @ (y :: bytes)"
proof (induction a arbitrary: b)
  case (Cons c a)
  then show ?case by (cases b) auto
qed simp

text \<open>A key followed by an id, against a bound the key is not the start of.\<close>

lemma bound_less: "\<not> strict_prefix k b \<Longrightarrow> k @ x < b \<longleftrightarrow> k < (b :: bytes)"
proof (induction k arbitrary: b)
  case Nil
  then show ?case by (cases b) auto
next
  case (Cons c k)
  then show ?case by (cases b) auto
qed

lemma bound_le: "\<not> strict_prefix k b \<Longrightarrow> b \<le> k @ x \<longleftrightarrow> (b :: bytes) \<le> k"
  using bound_less [of k b x] by (simp add: linorder_not_less [symmetric])

lemma diverge_less: "\<not> prefix k b \<Longrightarrow> \<not> prefix b k \<Longrightarrow> k @ x < b @ y \<longleftrightarrow> k < (b :: bytes)"
proof (induction k arbitrary: b)
  case (Cons c k)
  then show ?case by (cases b) auto
qed simp

lemma same_start_less [simp]: "b @ x < b @ y \<longleftrightarrow> x < (y :: bytes)"
  by (induction b) auto

lemma below_all_ones: "length x < n \<Longrightarrow> x < replicate n (char_of (255::nat) :: char)"
proof (induction x arbitrary: n)
  case (Cons c x)
  have "c \<le> char_of (255::nat)" using byte_val_less [of c] by (simp add: less_eq_char_def flip: byte_val_def)
  then show ?case using Cons by (cases n) (auto simp: order_le_less)
next
  case Nil
  then have "0 < n" by simp
  then show ?case by (cases n) simp_all
qed

lemma range_all:
  "a \<noteq> [] \<Longrightarrow> last a \<noteq> char_of (255::nat) \<Longrightarrow> a \<le> t \<and> t < butlast a @ [char_of (Suc (byte_val (last a)))] \<longleftrightarrow> prefix a t"
proof (induction a arbitrary: t)
  case (Cons c a)
  show ?case
  proof (cases t)
    case (Cons d u)
    show ?thesis
    proof (cases "a = []")
      case True
      have "byte_val c \<noteq> 255" using Cons.prems(2) True by (metis byte_val_eq last_ConsL)
      then have "Suc (byte_val c) < 256" using byte_val_less [of c] by simp
      then have "byte_val (char_of (Suc (byte_val c))) = Suc (byte_val c)" by simp
      then have "t < [char_of (Suc (byte_val c))] \<longleftrightarrow> byte_val d < Suc (byte_val c)"
        by (auto simp: Cons char_less_byte_val simp flip: byte_val_inject)
      moreover have "[c] \<le> t \<longleftrightarrow> byte_val c \<le> byte_val d"
        by (cases u) (auto simp: Cons char_less_byte_val order_le_less simp flip: byte_val_inject)
      ultimately show ?thesis using True by (auto simp: Cons simp flip: byte_val_inject)
    next
      case False
      then show ?thesis using Cons.IH [of u] Cons.prems Cons by auto
    qed
  qed (use Cons.prems in auto)
qed simp

end
