(* ===== verification/Index_Agree.thy ===== *)
theory Index_Agree
  imports Index_Laws
begin

text \<open>
  The evaluator of the daemon against the oracle, over any source that keeps its promises: the leaves,
  the combinators, and the whole query.
\<close>

section \<open>The queries compared\<close>

text \<open>
  Operands the source compares as the rows do, and no terms on the path of an \<open>osm\<close> (the daemon
  answers one term through the names, and others elsewhere).
\<close>

fun fitting :: "(string \<Rightarrow> value \<Rightarrow> bool) \<Rightarrow> Query \<Rightarrow> bool" where
  "fitting ok (QAnd qs) \<longleftrightarrow> (\<forall>q\<in>set qs. fitting ok q)"
| "fitting ok (QOr qs) \<longleftrightarrow> (\<forall>q\<in>set qs. fitting ok q)"
| "fitting ok (QNot q) \<longleftrightarrow> fitting ok q"
| "fitting ok (QSameAs _ q) \<longleftrightarrow> fitting ok q"
| "fitting ok (QFollows _ (FCondition q)) \<longleftrightarrow> fitting ok q"
| "fitting ok (QFollowsTransitive _ (FCondition q) _) \<longleftrightarrow> fitting ok q"
| "fitting ok (QEq f v _) \<longleftrightarrow> ok f v"
| "fitting ok (QNeq f v _) \<longleftrightarrow> ok f v"
| "fitting ok (QLt f v _) \<longleftrightarrow> ok f v"
| "fitting ok (QLte f v _) \<longleftrightarrow> ok f v"
| "fitting ok (QGt f v _) \<longleftrightarrow> ok f v"
| "fitting ok (QGte f v _) \<longleftrightarrow> ok f v"
| "fitting ok (QIn f vs _) \<longleftrightarrow> (\<forall>v\<in>set vs. ok f v)"
| "fitting ok (QOsm _ ts PathMode) \<longleftrightarrow> ts = []"
| "fitting ok _ \<longleftrightarrow> True"

text \<open>What the caller resolved is what the forests say of the paths collected.\<close>

definition resolved_paths :: "Data \<Rightarrow> QueryRoots \<Rightarrow> (string \<times> string) list \<Rightarrow> bool" where
  "resolved_paths d roots ps \<longleftrightarrow> (\<forall>(f, p)\<in>set ps. r_path roots (f, p) = resolve (forest d f) p)"

definition resolved_nodes :: "Data \<Rightarrow> QueryRoots \<Rightarrow> (string \<times> string) list \<Rightarrow> bool" where
  "resolved_nodes d roots ps \<longleftrightarrow> (\<forall>(f, p)\<in>set ps. r_node roots (f, p) = Some (resolve (forest d f) p))"

lemma resolved_paths_simps [simp]:
  "resolved_paths d roots []"
  "resolved_paths d roots (x # ps) \<longleftrightarrow> r_path roots x = resolve (forest d (fst x)) (snd x) \<and> resolved_paths d roots ps"
  "resolved_paths d roots (concat (map f qs)) \<longleftrightarrow> (\<forall>q\<in>set qs. resolved_paths d roots (f q))"
  by (auto simp: resolved_paths_def)

lemma resolved_nodes_simps [simp]:
  "resolved_nodes d roots []"
  "resolved_nodes d roots (x # ps) \<longleftrightarrow> r_node roots x = Some (resolve (forest d (fst x)) (snd x)) \<and> resolved_nodes d roots ps"
  "resolved_nodes d roots (concat (map f qs)) \<longleftrightarrow> (\<forall>q\<in>set qs. resolved_nodes d roots (f q))"
  by (auto simp: resolved_nodes_def)

definition oracle_compare :: "Data \<Rightarrow> string \<Rightarrow> IndexOp \<Rightarrow> value \<Rightarrow> Aspect \<Rightarrow> query_error + uuid set" where
  "oracle_compare d field op v aspect =
     (if op = INeq then differs d field v aspect else comparison d field v (oracle_op op) aspect)"

lemma oracle_compare_rows:
  "aspect \<noteq> APath \<Longrightarrow> oracle_compare d field op v aspect =
     bindE (row_predicate d field v (oracle_op op) aspect) (\<lambda>pred. Inr (holders d field (row_test op pred)))"
  by (cases "op = INeq") (simp_all add: oracle_compare_def differs_def comparison_def row_test_def [abs_def])

lemma restricted_simps [simp]:
  "restricted None s = s"
  "restricted (Some c) s = s \<inter> c"
  "restricted r (restricted r s) = restricted r s"
  "restricted r {} = {}"
  by (auto simp: restricted_def split: option.splits)

lemma restricted_Un: "restricted r (a \<union> b) = restricted r a \<union> restricted r b"
  by (cases r) auto

lemma narrowed_Inr: "narrowed r m = Inr b \<longleftrightarrow> (\<exists>c. m = Inr c \<and> b = restricted r c)"
  by (auto simp: narrowed_def bindE_eq_Inr)

text \<open>The values of a list of queries, read off its results.\<close>

definition answer :: "text_lib \<Rightarrow> Data \<Rightarrow> Query \<Rightarrow> uuid set" where
  "answer lib d q = (case eval lib d q of Inr s \<Rightarrow> s | Inl _ \<Rightarrow> {})"

lemma mapE_answers: "mapE (eval lib d) qs = Inr ss \<Longrightarrow> ss = map (answer lib d) qs \<and> (\<forall>q\<in>set qs. eval lib d q = Inr (answer lib d q))"
  by (induction qs arbitrary: ss) (auto simp: bindE_eq_Inr answer_def)

lemma combine_Int: "xs \<noteq> [] \<Longrightarrow> combine (\<inter>) xs = \<Inter> (set xs)"
proof -
  have "fold (\<lambda>s acc. acc \<inter> s) rest a = a \<inter> \<Inter> (set rest)" for rest and a :: "uuid set"
    by (induction rest arbitrary: a) auto
  then show "xs \<noteq> [] \<Longrightarrow> combine (\<inter>) xs = \<Inter> (set xs)" by (cases xs) (simp_all add: combine_def)
qed

lemma combine_Un: "xs \<noteq> [] \<Longrightarrow> combine (\<union>) xs = \<Union> (set xs)"
proof -
  have "fold (\<lambda>s acc. acc \<union> s) rest a = a \<union> \<Union> (set rest)" for rest and a :: "uuid set"
    by (induction rest arbitrary: a) auto
  then show "xs \<noteq> [] \<Longrightarrow> combine (\<union>) xs = \<Union> (set xs)" by (cases xs) (simp_all add: combine_def)
qed

text \<open>The running intersection ends with the operands' answers intersected, wherever it stopped.\<close>

lemma and_loop_agrees:
  assumes "\<And>q acc b. q \<in> set qs \<Longrightarrow> f q acc = Inr b \<Longrightarrow> restricted acc b = restricted acc (V q)"
    and "and_loop f qs acc = Inr acc'"
  shows "acc' = (if qs = [] then acc else Some (restricted acc (\<Inter> (V ` set qs))))"
  using assms
proof (induction qs arbitrary: acc)
  case (Cons q qs)
  show ?case
  proof (cases "acc = Some {}")
    case False
    then obtain b where b: "f q acc = Inr b" "and_loop f qs (Some (restricted acc b)) = Inr acc'"
      using Cons(3) by (auto simp: bindE_eq_Inr)
    have "restricted acc b = restricted acc (V q)" using Cons(2) b(1) by simp
    moreover have "acc' = (if qs = [] then Some (restricted acc b) else Some (restricted (Some (restricted acc b)) (\<Inter> (V ` set qs))))"
      using Cons(1) [OF Cons(2) b(2)] by simp
    ultimately show ?thesis by (cases acc) (auto simp: Int_assoc)
  next
    case True
    then have "acc' = Some {}" using Cons(3) by simp
    then show ?thesis using True by simp
  qed
qed simp

lemma or_fold_agrees:
  assumes "\<And>q b. q \<in> set qs \<Longrightarrow> f q = Inr b \<Longrightarrow> restricted r b = restricted r (V q)"
    and "foldE (\<lambda>q acc. bindE (f q) (\<lambda>b. Inr (acc \<union> b))) qs acc = Inr acc'"
  shows "restricted r acc' = restricted r (acc \<union> \<Union> (V ` set qs))"
  using assms
proof (induction qs arbitrary: acc)
  case (Cons q qs)
  then obtain b where b: "f q = Inr b" "foldE (\<lambda>q acc. bindE (f q) (\<lambda>b. Inr (acc \<union> b))) qs (acc \<union> b) = Inr acc'"
    by (auto simp: bindE_eq_Inr)
  have "restricted r acc' = restricted r (acc \<union> b \<union> \<Union> (V ` set qs))" using Cons(1) [OF Cons(2) b(2)] by simp
  moreover have "restricted r b = restricted r (V q)" using Cons(2) b(1) by simp
  ultimately show ?case by (simp add: restricted_Un Un_assoc)
qed simp

text \<open>On rows that hold no position, the aspects agree.\<close>

lemma row_predicate_aspect: "\<forall>s. v \<noteq> VString s \<Longrightarrow> row_predicate d field v op a = row_predicate d field v op b"
  by (cases v) (simp_all add: row_predicate_def)

lemma row_predicate_ordered: "op \<noteq> CEq \<Longrightarrow> row_predicate d field v op Raw = row_predicate d field v op AValue"
  by (cases v) (simp_all add: row_predicate_def string_pred_def)

lemma raw_string_rows:
  assumes "position w = None"
  shows "string_pred d field s CEq Raw u w = string_pred d field s CEq AValue u w"
  using assms by (cases w) (simp_all add: string_pred_def text_of_def cmp_holds_def cmp_def Let_def)

lemma raw_value_rows:
  assumes "row_predicate d field v op Raw = Inr p"
  shows "\<exists>q. row_predicate d field v op AValue = Inr q \<and> (\<forall>u w. position w = None \<longrightarrow> p u w = q u w)"
proof (cases "op = CEq \<and> (\<exists>s. v = VString s)")
  case True
  then show ?thesis using assms raw_string_rows by (auto simp: row_predicate_def)
next
  case False
  then have "row_predicate d field v op Raw = row_predicate d field v op AValue"
    using row_predicate_aspect row_predicate_ordered by metis
  then have "row_predicate d field v op AValue = Inr p" using assms by simp
  then show ?thesis by blast
qed

section \<open>Leaves\<close>

context data_source
begin

lemma no_position:
  assumes "good x" "\<not> tree_type (data_type (data x) field)" "(u, r) \<in> set (d_rows (data x) field)"
  shows "position (row_value r) = None"
proof (cases "row_value r = Nothing")
  case False
  then obtain t where t: "data_type (data x) field = Some t" using data_type_none [OF _ assms(3)] by (cases "data_type (data x) field") auto
  then show ?thesis using tree_rows [OF wf [OF assms(1)] t assms(3) False] assms(2) by (simp add: tree_type_def)
qed simp

lemma follow_tree: "good x \<Longrightarrow> s_follow (src x) field = Some FollowTree \<longleftrightarrow> tree_type (data_type (data x) field)"
  by (auto simp: follow follow_of_def tree_type_def split: option.splits if_splits)

lemma follow_none: "good x \<Longrightarrow> s_follow (src x) field = None \<longleftrightarrow> data_type (data x) field = None"
  by (simp add: follow)

lemma no_values: "data_type (data x) field = None \<Longrightarrow> \<forall>u. \<not> p u Nothing \<Longrightarrow> holders (data x) field p = {}"
  by (fastforce simp: holders_iff dest: data_type_none)

lemma presence_agrees:
  assumes g: "good x" and b: "presence_at (src x) field aspect p = Inr b"
  shows "b = ids_of (src x) (presence (data x) field aspect p)"
proof (cases "aspect = AParent")
  case True
  then consider "s_follow (src x) field = None" "b = {}" | "tree_type (data_type (data x) field)"
      "b = (if p then s_tree_parents_except (src x) field (Some ZERO_UUID) else s_tree_roots (src x) field)"
    using b follow_tree [OF g] by (auto simp: presence_at_def parent_presence_def split: option.splits Follow.splits)
  then show ?thesis
  proof cases
    case 1
    have "presence (data x) field aspect p = {}" unfolding presence_def using True 1(1) follow_none [OF g] by (simp add: no_values)
    then show ?thesis using 1 by simp
  next
    case 2
    then obtain t where t: "data_type (data x) field = Some t" "is_position_type t" by (auto simp: tree_type_def split: option.splits)
    have "holders (data x) field (\<lambda>_ v. target_of v \<noteq> None \<and> target_of v \<noteq> Some ZERO_UUID) = presence (data x) field AParent True"
      "holders (data x) field (\<lambda>_ v. target_of v = Some ZERO_UUID) = presence (data x) field AParent False"
      unfolding presence_def by (auto intro!: holders_cong simp: targets(1) [OF g _ t] dest: targets(3) [OF g _ t] split: option.splits)
    then show ?thesis using 2 True tree_roots [OF g] tree_parents_except [OF g] by simp
  qed
next
  case False
  have "b = (if p then s_present (src x) field else s_absent (src x) field)"
    using b False by (auto simp: presence_at_def path_presence_def index_servable_aspect_def split: Aspect.splits if_splits)
  then show ?thesis using False present [OF g] absent [OF g] by (simp add: presence_def)
qed

lemma parent_agrees:
  assumes g: "good x" and b: "parent_compare (src x) (Some roots) field op v = Inr b"
    and n: "resolved_nodes (data x) roots (node_path field v AParent)"
    and p: "row_predicate (data x) field v (oracle_op op) AParent = Inr pred"
  shows "b = ids_of (src x) (holders (data x) field (row_test op pred))"
proof -
  obtain s where v: "v = VString s" and op: "op = IEq \<or> op = INeq"
    using b by (auto simp: parent_compare_def split: if_splits "value.splits")
  have node: "r_node roots (field, s) = Some (resolve (forest (data x) field) s)" using n by (simp add: v node_path_def)
  have pred: "pred = (\<lambda>_ w. case (position w, resolve (forest (data x) field) s) of (Some (Some p, _), Some n) \<Rightarrow> p = n | _ \<Rightarrow> False)"
    using p by (auto simp: v row_predicate_def string_pred_def Let_def)
  show ?thesis
  proof (cases "s_follow (src x) field")
    case None
    then have "holders (data x) field (row_test op pred) = {}" using follow_none [OF g] by (intro no_values) (auto simp: row_test_def pred)
    then show ?thesis using b v op None by (auto simp: parent_compare_def)
  next
    case (Some f)
    then have f: "f = FollowTree" using b v op by (auto simp: parent_compare_def split: Follow.splits)
    then obtain t where t: "data_type (data x) field = Some t" "is_position_type t"
      using Some follow_tree [OF g] by (auto simp: tree_type_def split: option.splits)
    have z: "resolve (forest (data x) field) s \<noteq> Some ZERO_UUID"
      using resolve_node nodes_within [OF wfD(1) [OF g]] wfD(3) [OF g] by blast
    note tt = targets [OF g _ t]
    have neq: "holders (data x) field (\<lambda>_ v. target_of v \<noteq> None \<and> target_of v \<noteq> resolve (forest (data x) field) s) =
        holders (data x) field (row_test INeq pred)"
    proof (rule holders_cong)
      fix u r assume r: "(u, r) \<in> set (d_rows (data x) field)"
      show "(target_of (row_value r) \<noteq> None \<and> target_of (row_value r) \<noteq> resolve (forest (data x) field) s) = row_test INeq pred u (row_value r)"
        using tt [OF r] z by (auto simp: row_test_def pred split: option.splits)
    qed
    have eq: "holders (data x) field (\<lambda>_ v. target_of v = Some m) = holders (data x) field (row_test IEq pred)"
      if m: "resolve (forest (data x) field) s = Some m" for m
    proof (rule holders_cong)
      fix u r assume r: "(u, r) \<in> set (d_rows (data x) field)"
      show "(target_of (row_value r) = Some m) = row_test IEq pred u (row_value r)"
        using tt [OF r] z m by (auto simp: row_test_def pred split: option.splits)
    qed
    have none: "holders (data x) field (row_test IEq pred) = {}" if m: "resolve (forest (data x) field) s = None"
    proof -
      have "\<not> pred u w" for u w by (cases "position w"; cases "fst (the (position w))") (auto simp: pred m split: option.splits)
      then show ?thesis by (simp add: holders_iff row_test_def set_eq_iff)
    qed
    show ?thesis
    proof (cases "op = IEq")
      case True
      then have "b = (case resolve (forest (data x) field) s of None \<Rightarrow> {} | Some m \<Rightarrow> (case s_referrers (src x) field m of Some b \<Rightarrow> b | None \<Rightarrow> {}))"
        using b v Some f node by (simp add: parent_compare_def)
      then show ?thesis using True eq none referrers [OF g]
        by (cases "resolve (forest (data x) field) s") simp_all
    next
      case False
      then have "b = s_tree_parents_except (src x) field (resolve (forest (data x) field) s)"
        using b v Some f node op by (simp add: parent_compare_def)
      then show ?thesis using False op neq tree_parents_except [OF g] by auto
    qed
  qed
qed

lemma resolved_exists: "good x \<Longrightarrow> resolve (forest (data x) field) s = Some u \<Longrightarrow> u \<in> d_universe (data x)"
  by (rule subsetD [OF nodes_within [OF wfD(1)] resolve_node])

lemma exact_agrees:
  assumes g: "good x" and t: "tree_type (data_type (data x) field)" and op: "op = IEq \<or> op = INeq"
    and p: "row_predicate (data x) field (VString s) (oracle_op op) Raw = Inr pred"
  shows "(let eq = exact_node (src x) field (resolve (forest (data x) field) s)
      in if op = IEq then eq else s_present (src x) field - eq) = ids_of (src x) (holders (data x) field (row_test op pred))"
proof -
  define node where "node = resolve (forest (data x) field) s"
  define P where "P = holders (data x) field (\<lambda>_ v. v \<noteq> Nothing)"
  obtain ty where ty: "data_type (data x) field = Some ty" "is_position_type ty" using t by (auto simp: tree_type_def split: option.splits)
  have pred: "pred u (row_value r) \<longleftrightarrow> row_value r \<noteq> Nothing \<and> Some u = node" if "(u, r) \<in> set (d_rows (data x) field)" for u r
    using targets(2) [OF g that ty] p op by (cases "row_value r") (auto simp: row_predicate_def string_pred_def node_def Let_def)
  have eq: "exact_node (src x) field node = ids_of (src x) {u \<in> P. Some u = node}"
  proof (cases node)
    case (Some u)
    then have "u \<in> d_universe (data x)" using resolved_exists [OF g] by (simp add: node_def)
    then obtain i where i: "s_id (src x) u = Some i" "ids_of (src x) {u} = {i}" using ids_one [OF g] by blast
    have "{u' \<in> P. Some u' = node} = {u} \<inter> P" using Some by auto
    then show ?thesis using Some i by (simp add: exact_node_def ids_Int [OF g] present [OF g] P_def)
  qed (simp add: exact_node_def)
  have "holders (data x) field (row_test IEq pred) = holders (data x) field (\<lambda>u v. v \<noteq> Nothing \<and> Some u = node)"
    "holders (data x) field (row_test INeq pred) = holders (data x) field (\<lambda>u v. v \<noteq> Nothing \<and> Some u \<noteq> node)"
    by (rule holders_cong, simp add: row_test_def pred, blast?)+
  then have "holders (data x) field (row_test IEq pred) = {u \<in> P. Some u = node}"
    "holders (data x) field (row_test INeq pred) = P - {u \<in> P. Some u = node}"
    unfolding P_def by (auto simp: holders_iff)
  then show ?thesis using op eq by (auto simp: Let_def node_def [symmetric] present [OF g] P_def [symmetric] ids_Diff [OF g])
qed

lemma compare_agrees:
  assumes g: "good x" and f: "fit x field v"
    and n: "op = IEq \<or> op = INeq \<Longrightarrow> resolved_nodes (data x) roots (node_path field v aspect)"
    and b: "index_compare (src x) (Some roots) field op v aspect r = Inr b"
    and u: "oracle_compare (data x) field op v aspect = Inr U"
  shows "restricted r b = restricted r (ids_of (src x) U)"
proof -
  have a: "aspect \<noteq> APath" using b by (auto simp: index_compare_def index_servable_aspect_def split: if_splits)
  then obtain pred where pred: "row_predicate (data x) field v (oracle_op op) aspect = Inr pred"
    and U: "U = holders (data x) field (row_test op pred)"
    using u by (auto simp: oracle_compare_rows bindE_eq_Inr)
  consider (parent) "aspect = AParent" "parent_compare (src x) (Some roots) field op v = Inr b"
    | (exact) s where "aspect = Raw" "op = IEq \<or> op = INeq" "tree_type (data_type (data x) field)" "v = VString s"
        "b = (let eq = exact_node (src x) field (resolve (forest (data x) field) s) in if op = IEq then eq else s_present (src x) field - eq)"
    | (keys) "aspect = Raw \<or> aspect = AValue" "s_compare (src x) field op v r = Inr b"
        "aspect = Raw \<Longrightarrow> tree_type (data_type (data x) field) \<Longrightarrow> \<forall>s. v \<noteq> VString s"
  proof (cases aspect)
    case Raw
    show ?thesis
    proof (cases "tree_type (data_type (data x) field) \<and> (\<exists>s. v = VString s)")
      case True
      then obtain s where v: "v = VString s" by blast
      have op: "op = IEq \<or> op = INeq" using b True by (auto simp: index_compare_def index_servable_aspect_def Raw value_type [OF g] split: if_splits)
      have node: "r_node roots (field, s) = Some (resolve (forest (data x) field) s)" using n [OF op] by (simp add: v node_path_def Raw)
      show ?thesis using b True that(2) [OF Raw] v node by (auto simp: index_compare_def index_servable_aspect_def Raw value_type [OF g] Let_def split: if_splits)
    next
      case False
      then have "s_compare (src x) field op v r = Inr b"
        using b by (auto simp: index_compare_def index_servable_aspect_def Raw value_type [OF g] split: if_splits "value.splits")
      then show ?thesis using that(3) False Raw by blast
    qed
  next
    case AValue
    then have "s_compare (src x) field op v r = Inr b"
      using b by (auto simp: index_compare_def index_servable_aspect_def split: if_splits "value.splits")
    then show ?thesis using that(3) AValue by blast
  qed (use b a that(1) in \<open>auto simp: index_compare_def split: if_splits\<close>)
  then show ?thesis
  proof cases
    case parent
    then have "op = IEq \<or> op = INeq" by (auto simp: parent_compare_def split: if_splits)
    then show ?thesis using parent_agrees [OF g parent(2)] n pred parent(1) by (simp add: U)
  next
    case exact
    then show ?thesis using exact_agrees [OF g exact(3,2)] pred by (simp add: U)
  next
    case keys
    have "\<exists>q. row_predicate (data x) field v (oracle_op op) AValue = Inr q \<and> holders (data x) field (row_test op q) = U"
    proof (cases "aspect = Raw \<and> \<not> tree_type (data_type (data x) field)")
      case True
      then obtain q where q: "row_predicate (data x) field v (oracle_op op) AValue = Inr q" "\<And>u w. position w = None \<Longrightarrow> pred u w = q u w"
        using pred raw_value_rows by blast
      have "holders (data x) field (row_test op q) = U" unfolding U
      proof (rule holders_cong)
        fix u r assume "(u, r) \<in> set (d_rows (data x) field)"
        then have "position (row_value r) = None" using no_position [OF g] True by blast
        from q(2) [OF this] show "row_test op q u (row_value r) = row_test op pred u (row_value r)" by (simp add: row_test_def)
      qed
      then show ?thesis using q(1) by blast
    next
      case False
      then have "aspect = AValue \<or> (\<forall>s. v \<noteq> VString s)" using keys(1,3) by blast
      then have "row_predicate (data x) field v (oracle_op op) AValue = Inr pred"
        using pred row_predicate_aspect [of v "data x" field "oracle_op op" AValue aspect] by auto
      then show ?thesis using U by blast
    qed
    then obtain q where q: "row_predicate (data x) field v (oracle_op op) AValue = Inr q" "holders (data x) field (row_test op q) = U" by blast
    show ?thesis using compares [OF g f keys(2) q(1)] by (simp add: q(2))
  qed
qed

lemma scan_agrees:
  assumes g: "good x" and b: "text_scan (src x) (lib x) field pattern r = Inr b" and re: "compile (lib x) pattern = Some re"
  shows "restricted r b = restricted r (ids_of (src x) (holders (data x) field (\<lambda>_. text_matches re)))"
proof (cases "s_follow (src x) field = None")
  case True
  have "holders (data x) field (\<lambda>_. text_matches re) = {}"
    using True follow_none [OF g] by (intro no_values) (simp_all add: text_matches_def text_of_def)
  then show ?thesis using b True by (simp add: text_scan_def)
next
  case False
  then have "b = s_scan_text (src x) field re (required_literals (lib x) pattern) r" using b re by (auto simp: text_scan_def)
  then show ?thesis using scan_text [OF g literals_required [OF g re]] by blast
qed

lemma follow_agrees:
  assumes g: "good x" and us: "us \<subseteq> d_universe (data x)"
  shows "follow_from (src x) field us =
    ids_of (src x) (holders (data x) field (\<lambda>_ v. case ref_target v of Some t \<Rightarrow> t \<in> us | None \<Rightarrow> False))"
proof (cases "s_follow (src x) field = Some FollowDirect \<or> s_follow (src x) field = Some FollowTree")
  case True
  have z: "ZERO_UUID \<notin> us" using us wfD(3) [OF g] by blast
  have "(case ref_target v of Some t \<Rightarrow> t \<in> us | None \<Rightarrow> False) \<longleftrightarrow> (\<exists>u\<in>us. target_of v = Some u)" for v
    using z by (cases v) (auto simp: ref_target_def target_of_def split: option.splits)
  then have "holders (data x) field (\<lambda>_ v. case ref_target v of Some t \<Rightarrow> t \<in> us | None \<Rightarrow> False) =
      (\<Union>u\<in>us. holders (data x) field (\<lambda>_ v. target_of v = Some u))"
    by (simp add: holders_iff set_eq_iff) blast
  then have "ids_of (src x) (holders (data x) field (\<lambda>_ v. case ref_target v of Some t \<Rightarrow> t \<in> us | None \<Rightarrow> False)) =
      (\<Union>u\<in>us. ids_of (src x) (holders (data x) field (\<lambda>_ v. target_of v = Some u)))"
    by (auto simp: ids_of_def)
  then show ?thesis using True by (simp add: follow_from_def referrers_of_def referrers [OF g])
next
  case False
  have "ref_target (row_value r) = None" if r: "(u, r) \<in> set (d_rows (data x) field)" for u r
  proof (cases "row_value r = Nothing")
    case n: False
    then obtain t where t: "data_type (data x) field = Some t" using data_type_none [OF _ r] by (cases "data_type (data x) field") auto
    then have "\<not> is_position_type t" "t \<noteq> ''ref''" using False by (auto simp: follow [OF g] follow_of_def split: if_splits)
    moreover have "type_str (row_value r) = t" by (rule data_type_rows [OF wf [OF g] t r n])
    ultimately show ?thesis using no_position [OF g _ r] t by (cases "row_value r") (auto simp: ref_target_def tree_type_def)
  qed (simp add: ref_target_def)
  then have "holders (data x) field (\<lambda>_ v. case ref_target v of Some t \<Rightarrow> t \<in> us | None \<Rightarrow> False) = {}"
    by (auto simp: holders_iff)
  then show ?thesis using False by (simp add: follow_from_def)
qed

lemma follow_path_agrees:
  assumes g: "good x" and n: "resolve (forest (data x) field) p = Some node"
  shows "follow_from (src x) field {node} =
    ids_of (src x) (holders (data x) field (\<lambda>_ v. case position v of Some (Some q, _) \<Rightarrow> q = node | _ \<Rightarrow> False))"
proof -
  have ne: "forest (data x) field \<noteq> []" using resolve_node [OF n] by (auto simp: forest_nodes_def)
  then obtain t where t: "data_type (data x) field = Some t" "is_position_type t" using forest_typed [OF wf [OF g]] by blast
  have "holders (data x) field (\<lambda>_ v. case position v of Some (Some q, _) \<Rightarrow> q = node | _ \<Rightarrow> False) =
      holders (data x) field (\<lambda>_ v. case ref_target v of Some t \<Rightarrow> t \<in> {node} | None \<Rightarrow> False)"
  proof (rule holders_cong)
    fix u r assume "(u, r) \<in> set (d_rows (data x) field)"
    from targets(2) [OF g this t]
    show "(case position (row_value r) of Some (Some q, _) \<Rightarrow> q = node | _ \<Rightarrow> False) =
        (case ref_target (row_value r) of Some t \<Rightarrow> t \<in> {node} | None \<Rightarrow> False)"
      by (cases "row_value r") (auto simp: ref_target_def split: option.splits)
  qed
  then show ?thesis using follow_agrees [OF g, of "{node}" field] resolved_exists [OF g n] by simp
qed

lemma transitive_agrees:
  assumes g: "good x" and us: "us \<subseteq> d_universe (data x)"
  shows "transitive_from (src x) field inclusive (ids_of (src x) us) = ids_of (src x) (below (data x) field inclusive us)"
proof (cases "tree_type (data_type (data x) field)")
  case True
  then obtain t where t: "data_type (data x) field = Some t" "is_position_type t" by (auto simp: tree_type_def split: option.splits)
  then have "forest (data x) field \<noteq> []" using tree_forest [OF wf [OF g] t(1)] by blast
  moreover have "(\<Union>root\<in>us. descendants (forest (data x) field) root) = (child_of (forest (data x) field))\<^sup>+ `` us"
    by (auto simp: descendants_reach)
  ultimately show ?thesis using True expand_subtrees_ids [OF g True us, of inclusive] follow_tree [OF g]
    by (simp add: transitive_from_def below_def Let_def)
next
  case False
  then have "forest (data x) field = []" using forest_typed [OF wf [OF g], of field] by (fastforce simp: tree_type_def)
  then have "descendants (forest (data x) field) u = {}" for u using descendants_within [of "[]" u] by (auto simp: forest_nodes_def)
  then show ?thesis using False follow_tree [OF g] \<open>forest (data x) field = []\<close> by (simp add: transitive_from_def below_def)
qed

lemma comparison_agrees:
  assumes "good x" "narrowed r (index_compare (src x) (Some roots) field op v aspect r) = Inr b"
    and "oracle_compare (data x) field op v aspect = Inr U" "fit x field v"
    and "op = IEq \<or> op = INeq \<Longrightarrow> resolved_nodes (data x) roots (node_path field v aspect)"
  shows "b = restricted r (ids_of (src x) U)"
proof -
  obtain c where "index_compare (src x) (Some roots) field op v aspect r = Inr c" "b = restricted r c"
    using assms(2) by (auto simp: narrowed_Inr)
  then show ?thesis using compare_agrees [OF assms(1,4,5) _ assms(3)] by simp
qed

text \<open>Sets of metarecords, in ids.\<close>

lemma ids_Inter: "good x \<Longrightarrow> I \<noteq> {} \<Longrightarrow> ids_of (src x) (\<Inter> (V ` I)) = (\<Inter>q\<in>I. ids_of (src x) (V q))"
proof
  assume g: "good x" and "I \<noteq> {}"
  then obtain p where p: "p \<in> I" by blast
  show "(\<Inter>q\<in>I. ids_of (src x) (V q)) \<subseteq> ids_of (src x) (\<Inter> (V ` I))"
  proof
    fix i assume i: "i \<in> (\<Inter>q\<in>I. ids_of (src x) (V q))"
    then obtain u where u: "s_uuid (src x) i = Some u" using p ids_iff [OF g] by blast
    have "u \<in> V q" if "q \<in> I" for q using i that u ids_iff [OF g, of i "V q"] by auto
    then show "i \<in> ids_of (src x) (\<Inter> (V ` I))" using u ids_iff [OF g] by blast
  qed
  show "ids_of (src x) (\<Inter> (V ` I)) \<subseteq> (\<Inter>q\<in>I. ids_of (src x) (V q))" by (auto intro: subsetD [OF ids_sub, rotated])
qed

lemma ids_Union: "ids_of (src x) (\<Union> (V ` I)) = (\<Union>q\<in>I. ids_of (src x) (V q))"
  by (auto simp: ids_of_def)

lemma in_agrees:
  assumes g: "good x" and f: "\<forall>v\<in>set vs. fit x field v" "\<forall>v\<in>set vs. resolved_nodes (data x) roots (node_path field v aspect)"
  shows "foldE (\<lambda>v acc. bindE (narrowed r (index_compare (src x) (Some roots) field IEq v aspect r)) (\<lambda>b. Inr (acc \<union> b))) vs acc = Inr b \<Longrightarrow>
    foldE (\<lambda>v out. bindE (comparison (data x) field v CEq aspect) (\<lambda>s. Inr (out \<union> s))) vs out = Inr U \<Longrightarrow>
    restricted r acc = restricted r (ids_of (src x) out) \<Longrightarrow> restricted r b = restricted r (ids_of (src x) U)"
  using f
proof (induction vs arbitrary: acc out)
  case (Cons v vs)
  obtain c where c: "index_compare (src x) (Some roots) field IEq v aspect r = Inr c"
    "foldE (\<lambda>v acc. bindE (narrowed r (index_compare (src x) (Some roots) field IEq v aspect r)) (\<lambda>b. Inr (acc \<union> b))) vs (acc \<union> restricted r c) = Inr b"
    using Cons(2) by (auto simp: bindE_eq_Inr narrowed_Inr)
  obtain s where s: "comparison (data x) field v CEq aspect = Inr s"
    "foldE (\<lambda>v out. bindE (comparison (data x) field v CEq aspect) (\<lambda>s. Inr (out \<union> s))) vs (out \<union> s) = Inr U"
    using Cons(3) by (auto simp: bindE_eq_Inr)
  have "restricted r c = restricted r (ids_of (src x) s)"
    using Cons(5,6) by (intro compare_agrees [OF g _ _ c(1)]) (simp_all add: oracle_compare_def s(1))
  then have "restricted r (acc \<union> restricted r c) = restricted r (ids_of (src x) (out \<union> s))"
    using Cons(4) by (simp add: ids_Un restricted_Un)
  from Cons(1) [OF c(2) s(2) this] show ?case using Cons(5,6) by simp
qed simp

lemma eval_agrees:
  assumes g: "good x"
  shows "index_eval (src x) (lib x) (Some roots) q r = Inr b \<Longrightarrow> eval (text_lib.truncate (lib x)) (data x) q = Inr U \<Longrightarrow>
    fitting (fit x) q \<Longrightarrow> resolved_paths (data x) roots (collect_path_targets q) \<Longrightarrow>
    resolved_nodes (data x) roots (collect_node_paths q) \<Longrightarrow> b = restricted r (ids_of (src x) U)"
proof (induction "src x" "lib x" "Some roots" q r arbitrary: b U rule: index_eval.induct)
  case (1 field aspect r)
  then show ?case using presence_agrees [OF g] by (auto simp: narrowed_Inr)
next
  case (2 field aspect r)
  then show ?case using presence_agrees [OF g] by (auto simp: narrowed_Inr)
next
  case (3 field r)
  have "holders (data x) field (\<lambda>_ _. True) = holders (data x) field (\<lambda>_ v. v \<noteq> Nothing) \<union> holders (data x) field (\<lambda>_ v. v = Nothing)"
    unfolding set_eq_iff Un_iff holders_iff by blast
  then have "d_universe (data x) - holders (data x) field (\<lambda>_ v. v \<noteq> Nothing) - holders (data x) field (\<lambda>_ v. v = Nothing) = U"
    using 3(2) by auto
  then have "ids_of (src x) U = s_universe (src x) - s_present (src x) field - s_absent (src x) field"
    by (simp add: universe [OF g] present [OF g] absent [OF g] flip: ids_Diff [OF g])
  then show ?case using 3(1) by (simp add: narrowed_Inr)
next
  case (4 field v aspect r)
  show ?case by (rule comparison_agrees [OF g 4(1) [unfolded index_eval.simps]]) (use 4 in \<open>simp_all add: oracle_compare_def\<close>)
next
  case (5 field v aspect r)
  show ?case by (rule comparison_agrees [OF g 5(1) [unfolded index_eval.simps]]) (use 5 in \<open>simp_all add: oracle_compare_def\<close>)
next
  case (6 field v aspect r)
  show ?case by (rule comparison_agrees [OF g 6(1) [unfolded index_eval.simps]]) (use 6 in \<open>simp_all add: oracle_compare_def\<close>)
next
  case (7 field v aspect r)
  show ?case by (rule comparison_agrees [OF g 7(1) [unfolded index_eval.simps]]) (use 7 in \<open>simp_all add: oracle_compare_def\<close>)
next
  case (8 field v aspect r)
  show ?case by (rule comparison_agrees [OF g 8(1) [unfolded index_eval.simps]]) (use 8 in \<open>simp_all add: oracle_compare_def\<close>)
next
  case (9 field v aspect r)
  show ?case by (rule comparison_agrees [OF g 9(1) [unfolded index_eval.simps]]) (use 9 in \<open>simp_all add: oracle_compare_def\<close>)
next
  case (10 field vs aspect r)
  then show ?case using in_agrees [OF g, of vs field roots aspect r "{}" _ "{}" U] by (auto simp: narrowed_Inr)
next
  case (11 qs r)
  define V where "V = answer (text_lib.truncate (lib x)) (data x)"
  obtain acc where acc: "qs \<noteq> []" "and_loop (\<lambda>q. index_eval (src x) (lib x) (Some roots) q) (and_order qs) r = Inr acc" "b = restricted r (the acc)"
    using 11(2) by (auto simp: narrowed_Inr bindE_eq_Inr split: if_splits)
  obtain ss where ss: "mapE (eval (text_lib.truncate (lib x)) (data x)) qs = Inr ss" "U = combine (\<inter>) ss"
    using 11(3) acc(1) by (auto simp: bindE_eq_Inr split: if_splits)
  have U: "U = \<Inter> (V ` set qs)" unfolding V_def using mapE_answers [OF ss(1)] combine_Int [of ss] acc(1) ss(2) by simp
  have step: "restricted r' c = restricted r' (ids_of (src x) (V q))"
    if "q \<in> set (and_order qs)" "index_eval (src x) (lib x) (Some roots) q r' = Inr c" for q r' c
    using 11(1) [OF acc(1) that, of "V q"] mapE_answers [OF ss(1)] that(1) 11(4-6) by (simp add: V_def)
  have "the acc = restricted r (\<Inter>q\<in>set qs. ids_of (src x) (V q))"
    using and_loop_agrees [where V = "\<lambda>q. ids_of (src x) (V q)", OF step acc(2)] acc(1) by simp
  then show ?case using acc(1,3) by (simp add: U ids_Inter [OF g])
next
  case (12 qs r)
  define V where "V = answer (text_lib.truncate (lib x)) (data x)"
  obtain acc where acc: "qs \<noteq> []" "foldE (\<lambda>q acc. bindE (index_eval (src x) (lib x) (Some roots) q r) (\<lambda>b. Inr (acc \<union> b))) qs {} = Inr acc" "b = restricted r acc"
    using 12(2) by (auto simp: narrowed_Inr bindE_eq_Inr split: if_splits)
  obtain ss where ss: "mapE (eval (text_lib.truncate (lib x)) (data x)) qs = Inr ss" "U = combine (\<union>) ss"
    using 12(3) acc(1) by (auto simp: bindE_eq_Inr split: if_splits)
  have U: "U = \<Union> (V ` set qs)" unfolding V_def using mapE_answers [OF ss(1)] combine_Un [of ss] acc(1) ss(2) by simp
  have "restricted r c = restricted r (ids_of (src x) (V q))" if "q \<in> set qs" "index_eval (src x) (lib x) (Some roots) q r = Inr c" for q c
    using 12(1) [OF that, of "V q"] mapE_answers [OF ss(1)] that(1) 12(4-6) by (simp add: V_def)
  from or_fold_agrees [OF this acc(2)] show ?case by (simp add: acc(3) U ids_Union)
next
  case (13 q r)
  obtain c where c: "index_eval (src x) (lib x) (Some roots) q None = Inr c" "b = restricted r (s_universe (src x) - c)"
    using 13(2) by (auto simp: narrowed_Inr bindE_eq_Inr)
  obtain V where V: "eval (text_lib.truncate (lib x)) (data x) q = Inr V" "U = d_universe (data x) - V"
    using 13(3) by (auto simp: bindE_eq_Inr)
  have "c = ids_of (src x) V" using 13(1) [OF c(1) V(1)] 13(4-6) by simp
  then show ?case by (simp add: c(2) V(2) universe [OF g] ids_Diff [OF g])
next
  case (14 field p r)
  have b: "b = restricted r (case resolve (forest (data x) field) p of None \<Rightarrow> {} | Some u \<Rightarrow> follow_from (src x) field {u})"
    using 14(1,4) by (auto simp: narrowed_Inr resolved_root_def)
  show ?case using 14(2) follow_path_agrees [OF g] by (cases "resolve (forest (data x) field) p") (simp_all add: b)
next
  case (15 field c r)
  obtain d where d: "index_eval (src x) (lib x) (Some roots) c None = Inr d" "b = restricted r (follow_from (src x) field (uuids_at (src x) d))"
    using 15(2) by (auto simp: narrowed_Inr bindE_eq_Inr)
  obtain V where V: "eval (text_lib.truncate (lib x)) (data x) c = Inr V"
    "U = holders (data x) field (\<lambda>_ v. case ref_target v of Some t \<Rightarrow> t \<in> V | None \<Rightarrow> False)"
    using 15(3) by (auto simp: bindE_eq_Inr)
  have V': "V \<subseteq> d_universe (data x)" by (rule eval_within [OF wfD(1) [OF g] V(1)])
  have "d = ids_of (src x) V" using 15(1) [OF d(1) V(1)] 15(4-6) by simp
  then show ?case using follow_agrees [OF g V'] by (simp add: d(2) V(2) uuids_at_ids [OF g V'])
next
  case (16 field q r)
  obtain d where d: "index_eval (src x) (lib x) (Some roots) q None = Inr d" "b = restricted r (if d = {} then {} else s_same_as (src x) field d)"
    using 16(2) by (auto simp: narrowed_Inr bindE_eq_Inr)
  obtain V where V: "eval (text_lib.truncate (lib x)) (data x) q = Inr V" "U = shares (data x) field V"
    using 16(3) by (auto simp: bindE_eq_Inr shares_def)
  have V': "V \<subseteq> d_universe (data x)" by (rule eval_within [OF wfD(1) [OF g] V(1)])
  have d': "d = ids_of (src x) V" using 16(1) [OF d(1) V(1)] 16(4-6) by simp
  have "shares (data x) field {} = {}" by (simp add: shares_def holders_def)
  then show ?case using same_as [OF g V'] ids_nonempty [OF g V'] by (simp add: d(2) d' V(2))
next
  case (17 field p inclusive r)
  show ?case
  proof (cases "resolve (forest (data x) field) p")
    case None
    then show ?thesis using 17(1,2,4) by (auto simp: narrowed_Inr resolved_root_def below_def)
  next
    case (Some u)
    then have u: "u \<in> d_universe (data x)" by (rule resolved_exists [OF g])
    then obtain i where i: "s_id (src x) u = Some i" "ids_of (src x) {u} = {i}" using ids_one [OF g] by blast
    then show ?thesis using 17(1,2,4) Some transitive_agrees [OF g, of "{u}" field inclusive] u
      by (simp add: narrowed_Inr resolved_root_def)
  qed
next
  case (18 field c inclusive r)
  obtain d where d: "index_eval (src x) (lib x) (Some roots) c None = Inr d" "b = restricted r (transitive_from (src x) field inclusive d)"
    using 18(2) by (auto simp: narrowed_Inr bindE_eq_Inr)
  obtain V where V: "eval (text_lib.truncate (lib x)) (data x) c = Inr V" "U = below (data x) field inclusive V"
    using 18(3) by (auto simp: bindE_eq_Inr)
  have "d = ids_of (src x) V" using 18(1) [OF d(1) V(1)] 18(4-6) by simp
  then show ?case using transitive_agrees [OF g eval_within [OF wfD(1) [OF g] V(1)]] by (simp add: d(2) V(2))
next
  case (19 field ts r)
  have b: "s_value_type (src x) field = None \<or> tree_type (s_value_type (src x) field)" "b = restricted r (s_present (src x) field)"
    using 19(1,3) by (auto simp: narrowed_Inr index_osm_path_def split: if_splits)
  have "U = holders (data x) field (\<lambda>_ v. v \<noteq> Nothing)"
  proof -
    have "position (row_value r) \<noteq> None \<longleftrightarrow> row_value r \<noteq> Nothing" if "(u, r) \<in> set (d_rows (data x) field)" for u r
    proof (cases "data_type (data x) field")
      case None
      then show ?thesis using data_type_none [OF None that] by simp
    next
      case (Some t)
      then show ?thesis using b(1) tree_rows [OF wf [OF g] Some that] by (auto simp: value_type [OF g] tree_type_def)
    qed
    then have "holders (data x) field (\<lambda>_ v. v \<noteq> Nothing) = holders (data x) field (\<lambda>_ v. position v \<noteq> None)"
      by (intro holders_cong) simp
    moreover have "u \<in> forest_nodes (forest (data x) field) \<longleftrightarrow> u \<in> holders (data x) field (\<lambda>_ v. position v \<noteq> None)" for u
    proof -
      have "u \<in> forest_nodes (forest (data x) field) \<longleftrightarrow> (\<exists>p n. (u, p, n) \<in> set (positions_of (d_rows (data x) field)))"
        by (force simp: forest_nodes_def forest_def)
      then show ?thesis by (auto simp: holders_iff positions_of_in)
    qed
    ultimately show ?thesis using 19(2,3) by (auto simp: osm_path_def)
  qed
  then show ?case by (simp add: b(2) present [OF g])
next
  case (20 us r)
  have "U = set us \<inter> d_universe (data x)" using 20(2) by auto
  moreover have "set (List.map_filter (s_id (src x)) us) = ids_of (src x) (set us)" by (force simp: List.map_filter_def ids_of_def)
  ultimately show ?case using 20(1) by (simp add: narrowed_Inr universe [OF g] ids_Int [OF g])
next
  case (21 field pattern aspect r)
  obtain re where re: "compile (lib x) pattern = Some re" "aspect \<noteq> APath \<Longrightarrow> U = holders (data x) field (\<lambda>_. text_matches re)"
    using 21(2) by (auto simp: bindE_eq_Inr regex_of_def text_lib.truncate_def)
  obtain c where "aspect \<noteq> APath" "text_scan (src x) (lib x) field pattern r = Inr c" "b = restricted r c"
    using 21(1) by (auto simp: narrowed_Inr bindE_eq_Inr index_servable_aspect_def split: Aspect.splits if_splits)
  then show ?case using scan_agrees [OF g _ re(1)] re(2) by simp
next
  case (22 field ts r)
  obtain re where re: "compile (lib x) (osm_regex (text_lib.truncate (lib x)) ts) = Some re" "U = holders (data x) field (\<lambda>_. text_matches re)"
    using 22(2) by (auto simp: bindE_eq_Inr regex_of_def text_lib.truncate_def)
  obtain c where "text_scan (src x) (lib x) field (osm_regex (text_lib.truncate (lib x)) ts) r = Inr c" "b = restricted r c"
    using 22(1) by (auto simp: narrowed_Inr)
  then show ?case using scan_agrees [OF g _ re(1)] re(2) by simp
qed

end

end
