(* ===== verification/Derived_Exact.thy ===== *)
theory Derived_Exact
  imports Kv_Source Derived_Keys Index_Agree
begin

text \<open>
  What the derived key spaces hold, said of the rows (\<open>derived_exact\<close>), and what the reads of the
  source then return: the metarecords with a row whose key is in the range.
\<close>

section \<open>What is derived\<close>

definition values_at :: "rowstore \<Rightarrow> uuid \<Rightarrow> string \<Rightarrow> value list" where
  "values_at s u field = map row_value (kv_rows_named s u field)"

definition with_value :: "rowstore \<Rightarrow> string \<Rightarrow> (value \<Rightarrow> bool) \<Rightarrow> uuid set" where
  "with_value s field p = {u. \<exists>v\<in>set (values_at s u field). p v}"

definition idset :: "derived \<Rightarrow> uuid set \<Rightarrow> ids" where
  "idset D us = {i. \<exists>u\<in>us. tget (dv_ids D) u = Some i}"

definition part_of :: "(bytes \<Rightarrow> u64) \<Rightarrow> nat \<Rightarrow> value \<Rightarrow> bytes option" where
  "part_of H p v =
     (if p = VALUE then value_key H v else if p = NAME then name_part_key H v
      else if p = TARGET then map_option uuid_to_bytes (target_of v) else None)"

definition edges :: "rowstore \<Rightarrow> string \<Rightarrow> (uuid \<times> uuid) set" where
  "edges s field = {(p, c). c \<in> with_value s field (\<lambda>v. \<exists>n. position v = Some (Some p, n))}"

definition kid_of :: "uuid \<Rightarrow> value \<Rightarrow> bool" where
  "kid_of p v \<longleftrightarrow> position v \<noteq> None \<and> target_of v = Some p"

definition short_text_with :: "(string \<Rightarrow> string) \<Rightarrow> bytes \<Rightarrow> value \<Rightarrow> bool" where
  "short_text_with low g v \<longleftrightarrow>
     (case search_text low v of None \<Rightarrow> False | Some t \<Rightarrow> length t \<le> TRIGRAM_MAX \<and> g \<in> set (windows3 t))"

definition long_text :: "(string \<Rightarrow> string) \<Rightarrow> value \<Rightarrow> bool" where
  "long_text low v \<longleftrightarrow> (case search_text low v of None \<Rightarrow> False | Some t \<Rightarrow> TRIGRAM_MAX < length t)"

fun set_spec :: "(bytes \<Rightarrow> u64) \<Rightarrow> (string \<Rightarrow> string) \<Rightarrow> rowstore \<Rightarrow> SetKey \<Rightarrow> uuid set" where
  "set_spec H low s UNIVERSE = {u. kv_version s u \<noteq> None}"
| "set_spec H low s (PRESENT f) = with_value s f (\<lambda>v. v \<noteq> Nothing)"
| "set_spec H low s (ABSENT f) = with_value s f (\<lambda>v. v = Nothing)"
| "set_spec H low s (PARENTS f) = {p. \<exists>c. c \<in> with_value s f (kid_of p)}"
| "set_spec H low s (LONG_TEXTS f) = with_value s f (long_text low)"
| "set_spec H low s (REFERRERS f t) = with_value s f (\<lambda>v. target_of v = Some t)"
| "set_spec H low s (DESCENDANTS f n) = (edges s f)\<^sup>+ `` {n}"
| "set_spec H low s (POSTINGS f k) = with_value s f (\<lambda>v. value_key H v = Some k)"
| "set_spec H low s (MULTI f) = {u. 1 < length (filter (\<lambda>v. v \<noteq> Nothing) (values_at s u f))}"

definition ids_exact :: "rowstore \<Rightarrow> derived \<Rightarrow> bool" where
  "ids_exact s D \<longleftrightarrow> ordered (dv_ids D) \<and> ordered (dv_uuids D) \<and> 0 < next_id D \<and> next_id D \<le> 2 ^ 32 \<and>
     (\<forall>u i. tget (dv_ids D) u = Some i \<longleftrightarrow> tget (dv_uuids D) i = Some u) \<and>
     (\<forall>u. tget (dv_ids D) u \<noteq> None \<longleftrightarrow> kv_version s u \<noteq> None) \<and>
     (\<forall>u i. tget (dv_ids D) u = Some i \<longrightarrow> int i < next_id D)"

definition part_exact :: "(bytes \<Rightarrow> u64) \<Rightarrow> rowstore \<Rightarrow> derived \<Rightarrow> string \<Rightarrow> nat \<Rightarrow> bool" where
  "part_exact H s D f p \<longleftrightarrow>
     (\<forall>t n. tget (dv_parts D) (f, p, t) = Some n \<longleftrightarrow>
       (\<exists>k u i. t = k @ id_bytes i \<and> tget (dv_ids D) u = Some i \<and> 0 < n \<and>
         n = int (length (filter (\<lambda>v. part_of H p v = Some k) (values_at s u f)))))"

definition parts_exact :: "(bytes \<Rightarrow> u64) \<Rightarrow> rowstore \<Rightarrow> derived \<Rightarrow> bool" where
  "parts_exact H s D \<longleftrightarrow> ordered (dv_parts D) \<and> (\<forall>f p. part_exact H s D f p)"

definition kids_exact :: "rowstore \<Rightarrow> derived \<Rightarrow> bool" where
  "kids_exact s D \<longleftrightarrow> ordered (dv_kids D) \<and>
     (\<forall>p f i n. tget (dv_kids D) (p, f, i) = Some n \<longleftrightarrow>
       (\<exists>u. tget (dv_ids D) u = Some i \<and> 0 < n \<and> n = int (length (filter (kid_of p) (values_at s u f)))))"

text \<open>A value held by \<open>POSTING_MIN\<close> metarecords has a posting; a posting there is, is exact.\<close>

definition set_exact :: "(bytes \<Rightarrow> u64) \<Rightarrow> (string \<Rightarrow> string) \<Rightarrow> rowstore \<Rightarrow> derived \<Rightarrow> SetKey \<Rightarrow> bool" where
  "set_exact H low s D k \<longleftrightarrow> dv_sets D k = idset D (set_spec H low s k) \<or>
     (\<exists>f key. k = POSTINGS f key) \<and> dv_sets D k = {} \<and> card (idset D (set_spec H low s k)) < POSTING_MIN"

definition grams_exact :: "(string \<Rightarrow> string) \<Rightarrow> rowstore \<Rightarrow> derived \<Rightarrow> bool" where
  "grams_exact low s D \<longleftrightarrow> (\<forall>f g. dv_grams D f g = idset D (with_value s f (short_text_with low g)))"

definition derived_exact :: "(bytes \<Rightarrow> u64) \<Rightarrow> (string \<Rightarrow> string) \<Rightarrow> kv \<Rightarrow> bool" where
  "derived_exact H low st \<longleftrightarrow> (case st of (s, D) \<Rightarrow>
     ids_exact s D \<and> parts_exact H s D \<and> kids_exact s D \<and> (\<forall>k. set_exact H low s D k) \<and> grams_exact low s D)"

section \<open>Ids\<close>

lemma ids_exactD:
  assumes "ids_exact s D"
  shows "tget (dv_ids D) u = Some i \<longleftrightarrow> tget (dv_uuids D) i = Some u"
    and "tget (dv_ids D) u = None \<longleftrightarrow> kv_version s u = None"
    and "tget (dv_ids D) u = Some i \<Longrightarrow> i < 2 ^ 32"
proof -
  have a: "\<forall>u i. tget (dv_ids D) u = Some i \<longleftrightarrow> tget (dv_uuids D) i = Some u"
    and b: "\<forall>u. tget (dv_ids D) u \<noteq> None \<longleftrightarrow> kv_version s u \<noteq> None"
    and c: "\<forall>u i. tget (dv_ids D) u = Some i \<longrightarrow> int i < next_id D" and n: "next_id D \<le> 2 ^ 32"
    by (rule assms [unfolded ids_exact_def, THEN conjunct2, THEN conjunct2, THEN conjunct2, THEN conjunct2, THEN conjunct1]
        assms [unfolded ids_exact_def, THEN conjunct2, THEN conjunct2, THEN conjunct2, THEN conjunct2, THEN conjunct2, THEN conjunct1]
        assms [unfolded ids_exact_def, THEN conjunct2, THEN conjunct2, THEN conjunct2, THEN conjunct2, THEN conjunct2, THEN conjunct2]
        assms [unfolded ids_exact_def, THEN conjunct2, THEN conjunct2, THEN conjunct2, THEN conjunct1])+
  show "tget (dv_ids D) u = Some i \<longleftrightarrow> tget (dv_uuids D) i = Some u" by (rule a [rule_format])
  show "tget (dv_ids D) u = None \<longleftrightarrow> kv_version s u = None" using b [rule_format, of u] by blast
  assume "tget (dv_ids D) u = Some i"
  then have "int i < next_id D" by (rule c [rule_format])
  then have "int i < 2 ^ 32" using n by (rule order_less_le_trans)
  moreover have "int (2 ^ 32) = 2 ^ 32" by (simp only: of_nat_power of_nat_numeral)
  ultimately have "int i < int (2 ^ 32)" by (simp only:)
  then show "i < 2 ^ 32" unfolding of_nat_less_iff .
qed

lemma ids_inj: "ids_exact s D \<Longrightarrow> tget (dv_ids D) u = Some i \<Longrightarrow> tget (dv_ids D) w = Some i \<Longrightarrow> u = w"
  by (metis ids_exactD(1) option.inject)

lemma idset_in: "ids_exact s D \<Longrightarrow> tget (dv_ids D) u = Some i \<Longrightarrow> i \<in> idset D us \<longleftrightarrow> u \<in> us"
  by (auto simp: idset_def dest: ids_inj)

lemma idset_Un: "idset D (a \<union> b) = idset D a \<union> idset D b"
  by (auto simp: idset_def)

lemma idset_UN: "idset D (\<Union>x\<in>A. f x) = (\<Union>x\<in>A. idset D (f x))"
  by (auto simp: idset_def)

lemma idset_Int: "ids_exact s D \<Longrightarrow> idset D (a \<inter> b) = idset D a \<inter> idset D b"
  by (auto simp: idset_def dest: ids_inj)

lemma idset_Diff: "ids_exact s D \<Longrightarrow> idset D (a - b) = idset D a - idset D b"
  by (auto simp: idset_def dest: ids_inj)

lemma idset_empty [simp]: "idset D {} = {}"
  by (simp add: idset_def)

lemma idset_finite [simp]: "finite (idset D us)"
proof -
  have "idset D us = (\<Union>u\<in>us. set_option (tget (dv_ids D) u))" by (auto simp: idset_def)
  then show ?thesis by simp
qed

lemma idset_cong: "(\<And>u i. tget (dv_ids D) u = Some i \<Longrightarrow> u \<in> a \<longleftrightarrow> u \<in> b) \<Longrightarrow> idset D a = idset D b"
  by (auto simp: idset_def)

lemma length_id_bytes [simp]: "length (id_bytes i) = 4"
  by (simp add: id_bytes_def)

lemma dense_id_bytes: "i < 2 ^ 32 \<Longrightarrow> dense (id_bytes i) = i"
  by (simp add: dense_def id_bytes_def be_val_bytes)

lemma entry_key_append [simp]: "entry_key (k @ id_bytes i) = k"
  by (simp add: entry_key_def)

lemma entry_id_append: "i < 2 ^ 32 \<Longrightarrow> entry_id (k @ id_bytes i) = i"
  by (simp add: entry_id_def dense_id_bytes)

section \<open>Entries of a partition\<close>

lemma part_of_key: "part_of H p v = Some k \<Longrightarrow> part_key H p k"
  by (auto simp: part_of_def part_key_def name_part_key_def VALUE_def NAME_def TARGET_def split: if_splits)

lemma part_tails_iff:
  assumes o: "ordered (dv_parts D)" and "part_exact H s D f p"
  shows "t \<in> set (part_tails D f p) \<longleftrightarrow>
    (\<exists>k u i. t = k @ id_bytes i \<and> tget (dv_ids D) u = Some i \<and> u \<in> with_value s f (\<lambda>v. part_of H p v = Some k))"
proof -
  have pe: "tget (dv_parts D) (f, p, t) = Some n \<longleftrightarrow>
       (\<exists>k u i. t = k @ id_bytes i \<and> tget (dv_ids D) u = Some i \<and> 0 < n \<and>
         n = int (length (filter (\<lambda>v. part_of H p v = Some k) (values_at s u f))))" for n
    using assms(2) unfolding part_exact_def by blast
  have "t \<in> set (part_tails D f p) \<longleftrightarrow> (\<exists>n. ((f, p, t), n) \<in> set (tscan (\<lambda>(f', p', _). f' = f \<and> p' = p) (dv_parts D)))"
    by (force simp: part_tails_def tscan_def)
  also have "\<dots> \<longleftrightarrow> (\<exists>n. tget (dv_parts D) (f, p, t) = Some n)" by (simp add: in_tscan [OF o])
  also have "\<dots> \<longleftrightarrow> (\<exists>k u i. t = k @ id_bytes i \<and> tget (dv_ids D) u = Some i \<and>
      0 < length (filter (\<lambda>v. part_of H p v = Some k) (values_at s u f)))"
    unfolding pe by force
  finally show ?thesis by (simp add: with_value_def filter_empty_conv length_greater_0_conv)
qed

lemma part_tails_sorted: "ordered (dv_parts D) \<Longrightarrow> sorted_wrt (<) (part_tails D f p)"
proof -
  assume "ordered (dv_parts D)"
  then have "ordered (tscan (\<lambda>(f', p', _). f' = f \<and> p' = p) (dv_parts D))" by (simp add: tscan_ordered)
  moreover have "sorted_wrt (<) (map fst es) \<Longrightarrow> \<forall>e\<in>set es. fst (fst e) = f \<and> fst (snd (fst e)) = p \<Longrightarrow>
      sorted_wrt (<) (map (\<lambda>((_, _, t), _). t) es)" for es :: "((string \<times> nat \<times> bytes) \<times> int) list"
    by (induction es) (fastforce simp: less_prod_def')+
  ultimately show "sorted_wrt (<) (part_tails D f p)"
    unfolding part_tails_def ordered_def by (auto simp: tscan_def)
qed

text \<open>The loop over a range reads every key in it, each run at once where the value has a posting.\<close>

lemma scan_entries_set:
  assumes "sorted_wrt (<) ts"
    and "\<And>t e. t \<in> set ts \<Longrightarrow> e \<in> set ts \<Longrightarrow> t < e \<Longrightarrow> \<not> entry_key t @ ID_MAX < e \<Longrightarrow> entry_key e = entry_key t"
  shows "scan_entries posted keep ts =
    (\<Union>t\<in>set ts. if keep (entry_key t) then (case posted (entry_key t) of Some p \<Rightarrow> p | None \<Rightarrow> {entry_id t}) else {})"
  using assms
proof (induction posted keep ts rule: scan_entries.induct)
  case (2 posted keep t ts)
  let ?f = "\<lambda>t. if keep (entry_key t) then (case posted (entry_key t) of Some p \<Rightarrow> p | None \<Rightarrow> {entry_id t}) else {}"
  show ?case
  proof (cases "posted (entry_key t)")
    case None
    then show ?thesis using 2(1) [OF refl None] 2(3,4) by (simp add: Let_def)
  next
    case (Some p)
    define later where "later = filter (\<lambda>e. entry_key t @ ID_MAX < e) ts"
    have IH: "scan_entries posted keep later = (\<Union>e\<in>set later. ?f e)"
      unfolding later_def
    proof (rule 2(2) [OF refl Some])
      show "sorted_wrt (<) (filter (\<lambda>e. entry_key t @ ID_MAX < e) ts)" using 2(3) by (simp add: sorted_wrt_filter)
    qed (rule 2(4), simp_all)
    define F where "F = ?f"
    have same: "F e = F t" if "e \<in> set ts" "e \<notin> set later" for e
    proof -
      have "entry_key e = entry_key t" using 2(4) [of t e] that 2(3) unfolding later_def by simp
      then show ?thesis by (simp add: F_def Some)
    qed
    have "set later \<subseteq> set ts" by (simp add: later_def)
    then have "(\<Union>e\<in>set (t # ts). F e) = F t \<union> (\<Union>e\<in>set later. F e)"
      using same by auto
    then have "(\<Union>e\<in>set (t # ts). ?f e) = ?f t \<union> (\<Union>e\<in>set later. ?f e)" unfolding F_def .
    then show ?thesis using Some IH unfolding later_def by (simp add: Let_def)
  qed
qed simp

lemma derived_exactD:
  assumes "derived_exact H low (s, D)"
  shows "ids_exact s D" "parts_exact H s D" "kids_exact s D" "\<And>k. set_exact H low s D k" "grams_exact low s D"
  using assms unfolding derived_exact_def by simp_all

definition keyed :: "(bytes \<Rightarrow> u64) \<Rightarrow> nat \<Rightarrow> (bytes \<Rightarrow> bool) \<Rightarrow> value \<Rightarrow> bool" where
  "keyed H p good v \<longleftrightarrow> (\<exists>k. part_of H p v = Some k \<and> good k)"

lemma run_order:
  assumes "part_key H p k" "part_key H p l" "k @ id_bytes i < l @ id_bytes j" "\<not> k @ ID_MAX < l @ id_bytes j"
  shows "l = k"
proof (rule ccontr)
  assume "l \<noteq> k"
  then have "\<not> prefix k l" "\<not> prefix l k" using part_key_free [OF assms(1,2)] part_key_free [OF assms(2,1)] by auto
  then show False using assms(3,4) by (simp add: diverge_less)
qed

lemma with_value_cong: "(\<And>u v. v \<in> set (values_at s u f) \<Longrightarrow> p v \<longleftrightarrow> q v) \<Longrightarrow> with_value s f p = with_value s f q"
  by (auto simp: with_value_def)

lemma posting_exact:
  assumes "derived_exact H low (s, D)" "posting D f k = Some is"
  shows "is = idset D (with_value s f (\<lambda>v. value_key H v = Some k))"
proof -
  have "is = dv_sets D (POSTINGS f k)" "is \<noteq> {}" using assms(2) by (auto simp: posting_def Let_def split: if_splits)
  then show ?thesis using derived_exactD(4) [OF assms(1), of "POSTINGS f k"] by (auto simp: set_exact_def)
qed

lemma scan_ids:
  assumes de: "derived_exact H low (s, D)"
    and closed: "\<And>k i. part_key H p k \<Longrightarrow> (from_ok from (k @ id_bytes i) \<and> to_ok to (k @ id_bytes i)) = R k"
    and posted: "posted = (\<lambda>_. None) \<or> p = VALUE \<and> posted = posting D f"
  shows "scan_part D f p from to keep posted = idset D (with_value s f (keyed H p (\<lambda>k. R k \<and> keep k)))"
proof -
  note e = derived_exactD [OF de]
  have pe: "ordered (dv_parts D)" "part_exact H s D f p" using e(2) by (simp_all add: parts_exact_def)
  define ts where "ts = filter (\<lambda>t. from_ok from t \<and> to_ok to t) (part_tails D f p)"
  have ts: "t \<in> set ts \<longleftrightarrow> (\<exists>k u i. t = k @ id_bytes i \<and> tget (dv_ids D) u = Some i \<and>
      u \<in> with_value s f (\<lambda>v. part_of H p v = Some k) \<and> R k)" for t
    unfolding ts_def using part_tails_iff [OF pe, of t] closed part_of_key by (fastforce simp: with_value_def)
  have pk: "\<exists>k i. t = k @ id_bytes i \<and> part_key H p k" if "t \<in> set ts" for t
    using that part_of_key unfolding ts by (fastforce simp: with_value_def)
  have "scan_entries posted keep ts =
      (\<Union>t\<in>set ts. if keep (entry_key t) then (case posted (entry_key t) of Some q \<Rightarrow> q | None \<Rightarrow> {entry_id t}) else {})"
  proof (rule scan_entries_set)
    show "sorted_wrt (<) ts" unfolding ts_def by (rule sorted_wrt_filter [OF part_tails_sorted [OF pe(1)]])
    fix t e assume "t \<in> set ts" "e \<in> set ts" "t < e" "\<not> entry_key t @ ID_MAX < e"
    then show "entry_key e = entry_key t" using run_order pk by (metis entry_key_append)
  qed
  also have "\<dots> = idset D (with_value s f (keyed H p (\<lambda>k. R k \<and> keep k)))" (is "(\<Union>t\<in>_. ?g t) = ?rhs")
  proof (intro equalityI subsetI)
    fix j assume "j \<in> (\<Union>t\<in>set ts. ?g t)"
    then obtain t where t: "t \<in> set ts" "j \<in> ?g t" by blast
    obtain k u i where k: "t = k @ id_bytes i" "tget (dv_ids D) u = Some i" "u \<in> with_value s f (\<lambda>v. part_of H p v = Some k)" "R k"
      using t(1) ts by blast
    have keep: "keep k" using t(2) k(1) by (auto split: if_splits)
    show "j \<in> ?rhs"
    proof (cases "posted k")
      case None
      then have "j = i" using t(2) k(1) keep entry_id_append [OF ids_exactD(3) [OF e(1) k(2)]] by simp
      then show ?thesis using k keep by (fastforce simp: idset_def with_value_def keyed_def)
    next
      case (Some q)
      then have "p = VALUE" "posting D f k = Some q" using posted by auto
      then have "j \<in> idset D (with_value s f (\<lambda>v. part_of H p v = Some k))"
        using t(2) k(1) keep Some posting_exact [OF de] by (simp add: part_of_def)
      then show ?thesis using k(4) keep by (fastforce simp: idset_def with_value_def keyed_def)
    qed
  next
    fix j assume "j \<in> ?rhs"
    then obtain u v k where u: "tget (dv_ids D) u = Some j" "v \<in> set (values_at s u f)" "part_of H p v = Some k" "R k" "keep k"
      by (auto simp: idset_def with_value_def keyed_def)
    then have t: "k @ id_bytes j \<in> set ts" unfolding ts by (fastforce simp: with_value_def)
    have "j \<in> ?g (k @ id_bytes j)"
    proof (cases "posted k")
      case None
      then show ?thesis using u(5) entry_id_append [OF ids_exactD(3) [OF e(1) u(1)]] by simp
    next
      case (Some q)
      then have "p = VALUE" "posting D f k = Some q" using posted by auto
      then show ?thesis using u Some posting_exact [OF de] by (fastforce simp: part_of_def idset_def with_value_def)
    qed
    then show "j \<in> (\<Union>t\<in>set ts. ?g t)" using t by blast
  qed
  finally show ?thesis by (simp add: scan_part_def ts_def)
qed

lemma part_ids_set:
  assumes "derived_exact H low (s, D)"
    and "\<And>k i. part_key H p k \<Longrightarrow> (from_ok from (k @ id_bytes i) \<and> to_ok to (k @ id_bytes i)) = R k"
  shows "part_ids D f p from to keep = idset D (with_value s f (keyed H p (\<lambda>k. R k \<and> keep k)))"
  unfolding part_ids_def by (rule scan_ids [OF assms]) auto

section \<open>Bounds\<close>

lemma not_start: "part_key H p k \<Longrightarrow> part_key H p b \<Longrightarrow> \<not> strict_prefix k b"
  using part_key_free by (auto simp: strict_prefix_def)

lemma after_key:
  assumes "part_key H p k" "part_key H p b"
  shows "k @ id_bytes i < b @ ID_MAX \<longleftrightarrow> k \<le> b" "b @ ID_MAX < k @ id_bytes i \<longleftrightarrow> b < k"
proof -
  have m: "id_bytes i < ID_MAX" unfolding ID_MAX_def by (rule below_all_ones) simp
  have "(k @ id_bytes i < b @ ID_MAX \<longleftrightarrow> k \<le> b) \<and> (b @ ID_MAX < k @ id_bytes i \<longleftrightarrow> b < k)"
  proof (cases "k = b")
    case True
    then show ?thesis using m by (auto dest: order.asym)
  next
    case False
    then have "\<not> prefix k b" "\<not> prefix b k" using part_key_free [OF assms] part_key_free [OF assms(2,1)] by auto
    then show ?thesis using False by (simp add: diverge_less order_le_less)
  qed
  then show "k @ id_bytes i < b @ ID_MAX \<longleftrightarrow> k \<le> b" "b @ ID_MAX < k @ id_bytes i \<longleftrightarrow> b < k" by simp_all
qed

lemma bucket_ids:
  assumes de: "derived_exact H low (s, D)" and b: "part_key H p b"
  shows "bucket D f p b = idset D (with_value s f (\<lambda>v. part_of H p v = Some b))"
proof (cases "if p = VALUE then posting D f b else None")
  case (Some q)
  then show ?thesis using posting_exact [OF de, of f b] by (auto simp: bucket_def part_of_def split: if_splits)
next
  case None
  have "scan_part D f p (Included b) (Excluded (b @ ID_MAX)) (\<lambda>k. k = b) (\<lambda>_. None) =
      idset D (with_value s f (keyed H p (\<lambda>k. (b \<le> k \<and> k \<le> b) \<and> k = b)))"
    by (rule scan_ids [OF de]) (simp_all add: bound_le not_start [OF _ b] after_key(1) [OF _ b])
  also have "keyed H p (\<lambda>k. (b \<le> k \<and> k \<le> b) \<and> k = b) = (\<lambda>v. part_of H p v = Some b)" by (auto simp: keyed_def)
  finally show ?thesis using None by (simp add: bucket_def)
qed

lemma all_but_ids:
  assumes "derived_exact H low (s, D)"
  shows "all_but D f p b = idset D (with_value s f (keyed H p (\<lambda>k. Some k \<noteq> b)))"
  using part_ids_set [OF assms, of p Unbounded Unbounded "\<lambda>_. True" f "\<lambda>k. Some k \<noteq> b"] by (simp add: all_but_def)

lemma region_ids:
  assumes de: "derived_exact H low (s, D)" and a: "a \<noteq> []" "last a \<noteq> char_of (255::nat)"
    and c: "\<And>k i. part_key H p k \<Longrightarrow> prefix a (k @ id_bytes i) = prefix a k"
  shows "part_ids D f p (Included a) (Excluded (region_end a)) keep =
    idset D (with_value s f (keyed H p (\<lambda>k. prefix a k \<and> keep k)))"
proof (rule part_ids_set [OF de])
  fix k i assume "part_key H p k"
  then show "(from_ok (Included a) (k @ id_bytes i) \<and> to_ok (Excluded (region_end a)) (k @ id_bytes i)) = prefix a k"
    using range_all [OF a, of "k @ id_bytes i"] c [of k i] a(1) by (simp add: region_end_def)
qed

lemma ordered_ids_set:
  assumes de: "derived_exact H low (s, D)" and b: "part_key H p b" "prefix region b"
    and r: "region = [] \<or> (\<exists>c. region = [c] \<and> c \<noteq> char_of (255::nat))" and op: "op \<noteq> IEq" "op \<noteq> INeq"
  shows "ordered_ids D f p region op b exclude = idset D (with_value s f (keyed H p (\<lambda>k.
    prefix region k \<and> matches_ordering op (cmp k b) \<and> (case exclude of None \<Rightarrow> True | Some e \<Rightarrow> \<not> prefix e k))))"
proof -
  let ?from = "case op of IGt \<Rightarrow> Excluded (b @ ID_MAX) | IGte \<Rightarrow> Included b | _ \<Rightarrow> Included region"
  let ?to = "case op of ILt \<Rightarrow> Excluded b | ILte \<Rightarrow> Excluded (b @ ID_MAX)
      | _ \<Rightarrow> if region = [] then Unbounded else Excluded (region_end region)"
  define R where "R k = ((region \<le> k \<or> op = IGt \<or> op = IGte) \<and> matches_ordering op (cmp k b) \<and>
      (region = [] \<or> k < region_end region \<or> op = ILt \<or> op = ILte))" for k
  have nr: "\<not> strict_prefix k region" "\<not> strict_prefix k (region_end region)" if "part_key H p k" for k
    using r part_key_nonempty [OF that] by (auto simp: region_end_def strict_prefix_def prefix_Cons)
  have "part_ids D f p ?from ?to (\<lambda>k. prefix region k \<and> (case exclude of None \<Rightarrow> True | Some e \<Rightarrow> \<not> prefix e k)) =
      idset D (with_value s f (keyed H p (\<lambda>k. R k \<and> prefix region k \<and> (case exclude of None \<Rightarrow> True | Some e \<Rightarrow> \<not> prefix e k))))"
  proof (rule part_ids_set [OF de])
    fix k i assume k: "part_key H p k"
    note m = bound_le [OF not_start [OF k b(1)]] bound_less [OF not_start [OF k b(1)]] after_key [OF k b(1)]
      bound_le [OF nr(1) [OF k]] bound_less [OF nr(2) [OF k]]
    show "(from_ok ?from (k @ id_bytes i) \<and> to_ok ?to (k @ id_bytes i)) = R k"
      using op by (cases op; cases "region = []") (auto simp: m R_def matches_ordering_def cmp_def)
  qed
  also have "keyed H p (\<lambda>k. R k \<and> prefix region k \<and> (case exclude of None \<Rightarrow> True | Some e \<Rightarrow> \<not> prefix e k)) =
      keyed H p (\<lambda>k. prefix region k \<and> matches_ordering op (cmp k b) \<and> (case exclude of None \<Rightarrow> True | Some e \<Rightarrow> \<not> prefix e k))"
  proof -
    have "region \<le> k \<and> (region = [] \<or> k < region_end region)" if "prefix region k" for k
    proof (cases "region = []")
      case False
      then have "region \<noteq> []" "last region \<noteq> char_of (255::nat)" using r by auto
      then show ?thesis using range_all [of region k] that by (simp add: region_end_def)
    qed simp
    then show ?thesis by (auto simp: keyed_def R_def fun_eq_iff)
  qed
  finally show ?thesis unfolding ordered_ids_def Let_def .
qed

end
