(* ===== verification/Derived_Reads.thy ===== *)
theory Derived_Reads
  imports Derived_Exact
begin

text \<open>
  The reads of the source that need the rows, over exact derived key spaces: texts whose keys are cut
  and hashed, ordered comparisons and scans.
\<close>

lemma having_set:
  assumes "ids_exact s D"
  shows "having (s, D) (idset D A) f p = idset D (A \<inter> with_value s f p)"
proof -
  have "i \<in> having (s, D) (idset D A) f p \<longleftrightarrow> i \<in> idset D (A \<inter> with_value s f p)" for i
    using ids_exactD(1) [OF assms] ids_inj [OF assms]
    by (auto simp: having_def idset_def with_value_def kv_values_def values_at_def list_ex_iff split: option.splits)
  then show ?thesis by blast
qed

text \<open>The two partitions of texts, and the text a value has in them.\<close>

definition text_part :: "nat \<Rightarrow> bool" where
  "text_part p \<longleftrightarrow> p = NAME \<or> p = VALUE"

definition text_in :: "nat \<Rightarrow> value \<Rightarrow> string option" where
  "text_in p v = (if p = NAME then name_of v else case v of VString s \<Rightarrow> Some s | _ \<Rightarrow> None)"

definition region_of :: "nat \<Rightarrow> bytes" where
  "region_of p = (if p = NAME then [] else [char_of (2::nat)])"

lemma text_in_key:
  assumes "text_part p"
  shows "part_of H p v = Some k \<and> prefix (region_of p) k \<longleftrightarrow> (\<exists>n. text_in p v = Some n \<and> k = region_of p @ text_key H n)"
proof (cases "p = NAME")
  case True
  then show ?thesis by (auto simp: part_of_def text_in_def region_of_def name_part_key_def name_of_def NAME_def VALUE_def)
next
  case False
  then have "p = VALUE" using assms by (simp add: text_part_def)
  then show ?thesis by (cases v) (auto simp: part_of_def text_in_def region_of_def NAME_def VALUE_def split: if_splits)
qed

lemma region_text_key: "text_part p \<Longrightarrow> part_key H p (region_of p @ text_key H n)"
  by (cases "p = NAME") (auto simp: text_part_def part_key_def region_of_def NAME_def VALUE_def intro: exI [of _ "VString n"])

lemma region_shape: "region_of p = [] \<or> (\<exists>c. region_of p = [c] \<and> c \<noteq> char_of (255::nat))"
  by (simp add: region_of_def)

lemma prefix_region [simp]: "prefix (region_of p @ a) (region_of p @ b) \<longleftrightarrow> prefix a b"
  by simp

text \<open>The texts a partition is asked for, by their keys.\<close>

lemma keyed_texts:
  assumes "text_part p"
  shows "keyed H p (\<lambda>k. prefix (region_of p) k \<and> q k) = (\<lambda>v. \<exists>n. text_in p v = Some n \<and> q (region_of p @ text_key H n))"
proof
  fix v
  have "keyed H p (\<lambda>k. prefix (region_of p) k \<and> q k) v \<longleftrightarrow> (\<exists>k. (part_of H p v = Some k \<and> prefix (region_of p) k) \<and> q k)"
    by (auto simp: keyed_def)
  also have "\<dots> \<longleftrightarrow> (\<exists>k. (\<exists>n. text_in p v = Some n \<and> k = region_of p @ text_key H n) \<and> q k)"
    by (simp only: text_in_key [OF assms])
  finally show "keyed H p (\<lambda>k. prefix (region_of p) k \<and> q k) v \<longleftrightarrow> (\<exists>n. text_in p v = Some n \<and> q (region_of p @ text_key H n))"
    by auto
qed

lemma cmp_same_start [simp]: "cmp (b @ x) (b @ y) = cmp x (y :: bytes)"
  by (simp add: cmp_def)

lemma cmp_text_key: "\<not> (hashed a \<and> hashed b \<and> cut_text a = cut_text b) \<Longrightarrow> cmp (text_key H a) (text_key H b) = cmp a b"
  using text_key_less [of a b H "[]" "[]"] text_key_less [of b a H "[]" "[]"]
  by (auto simp: cmp_def dest: order.asym)

definition run_of :: "bytes \<Rightarrow> bytes" where
  "run_of y = name_escape (cut_text y) @ [char_of (0::nat), char_of (1::nat)]"

lemma run_text_key: "prefix (run_of y) (text_key H n @ x) \<longleftrightarrow> hashed n \<and> cut_text n = cut_text y"
  using text_key_run [of y H n x] by (auto simp: run_of_def)

lemma ordered_texts:
  assumes de: "derived_exact H low (s, D)" and p: "text_part p" and op: "op \<noteq> IEq" "op \<noteq> INeq"
    and holds: "\<And>v. holds v \<longleftrightarrow> (\<exists>n. text_in p v = Some n \<and> matches_ordering op (cmp n y))"
  shows "ordered_exact (s, D) f p (region_of p) op (region_of p @ text_key H y) holds = idset D (with_value s f holds)"
proof -
  note e = derived_exactD [OF de]
  note pk = region_text_key [OF p]
  have b: "prefix (region_of p) (region_of p @ text_key H y)" by simp
  have t: "p = NAME \<or> region_of p @ text_key H y \<noteq> [] \<and> byte_val (hd (region_of p @ text_key H y)) = 2"
    using p by (auto simp: text_part_def region_of_def)
  note ord = ordered_ids_set [OF de pk b region_shape op, unfolded keyed_texts [OF p]]
  show ?thesis
  proof (cases "hashed y")
    case False
    have "with_value s f (\<lambda>v. \<exists>n. text_in p v = Some n \<and> matches_ordering op (cmp (region_of p @ text_key H n) (region_of p @ text_key H y)) \<and> True) =
        with_value s f holds"
      using False by (intro with_value_cong) (simp add: holds cmp_text_key)
    then show ?thesis using False t ord [of f None] by (simp add: ordered_exact_def)
  next
    case True
    let ?a = "region_of p @ run_of y"
    have a: "?a \<noteq> []" "last ?a \<noteq> char_of (255::nat)" by (simp_all add: run_of_def)
    have "part_ids D f p (Included ?a) (Excluded (region_end ?a)) (\<lambda>_. True) = idset D (with_value s f (keyed H p (\<lambda>k. prefix ?a k \<and> True)))"
    proof (rule region_ids [OF de a])
      fix k i assume k: "part_key H p k"
      show "prefix ?a (k @ id_bytes i) = prefix ?a k"
      proof (cases "p = NAME")
        case True
        then obtain n where "k = text_key H n" using k by (auto simp: part_key_def NAME_def VALUE_def TARGET_def)
        then show ?thesis using True run_text_key [of y H n "[]"] by (simp add: region_of_def run_text_key)
      next
        case False
        then obtain v where v: "p = VALUE" "value_key H v = Some k" using k p by (auto simp: text_part_def part_key_def NAME_def VALUE_def TARGET_def)
        show ?thesis
        proof (cases "\<exists>n. v = VString n")
          case True
          then obtain n where "k = char_of (2::nat) # text_key H n" using v by auto
          then show ?thesis using \<open>p \<noteq> NAME\<close> run_text_key [of y H n "[]"] by (simp add: region_of_def run_text_key)
        next
          case other: False
          have "k \<noteq> [] \<and> hd k \<noteq> char_of (2::nat)" using v(2) other by (cases v) auto
          then show ?thesis using \<open>p \<noteq> NAME\<close> by (cases k) (auto simp: region_of_def)
        qed
      qed
    qed
    also have "keyed H p (\<lambda>k. prefix ?a k \<and> True) = keyed H p (\<lambda>k. prefix (region_of p) k \<and> prefix ?a k)"
      by (auto simp: keyed_def fun_eq_iff dest: append_prefixD)
    finally have u: "part_ids D f p (Included ?a) (Excluded (region_end ?a)) (\<lambda>_. True) =
        idset D (with_value s f (\<lambda>v. \<exists>n. text_in p v = Some n \<and> hashed n \<and> cut_text n = cut_text y))"
      unfolding keyed_texts [OF p] using run_text_key [of y H _ "[]"] by simp
    have o: "ordered_ids D f p (region_of p) op (region_of p @ text_key H y) (Some ?a) = idset D (with_value s f
        (\<lambda>v. \<exists>n. text_in p v = Some n \<and> \<not> (hashed n \<and> cut_text n = cut_text y) \<and> matches_ordering op (cmp n y)))"
      unfolding ord using run_text_key [of y H _ "[]"] by (intro arg_cong [where f = "idset D"] with_value_cong) (auto simp: cmp_text_key)
    have "ordered_exact (s, D) f p (region_of p) op (region_of p @ text_key H y) holds =
        ordered_ids D f p (region_of p) op (region_of p @ text_key H y) (Some ?a) \<union>
        having (s, D) (part_ids D f p (Included ?a) (Excluded (region_end ?a)) (\<lambda>_. True)) f holds"
      using True t by (simp add: ordered_exact_def run_of_def Let_def)
    also have "\<dots> = idset D (with_value s f holds)"
      unfolding o u having_set [OF e(1)] idset_Un [symmetric]
      by (rule arg_cong [where f = "idset D"]) (auto simp: with_value_def holds)
    finally show ?thesis .
  qed
qed

text \<open>Equality and difference of texts in a partition.\<close>

lemma texts_in_bucket:
  assumes de: "derived_exact H low (s, D)" and p: "text_part p"
  shows "bucket D f p (region_of p @ text_key H y) = idset D (with_value s f (\<lambda>v. \<exists>n. text_in p v = Some n \<and> text_key H n = text_key H y))"
proof -
  have "bucket D f p (region_of p @ text_key H y) = idset D (with_value s f (\<lambda>v. part_of H p v = Some (region_of p @ text_key H y)))"
    by (rule bucket_ids [OF de region_text_key [OF p]])
  also have "(\<lambda>v. part_of H p v = Some (region_of p @ text_key H y)) = (\<lambda>v. \<exists>n. text_in p v = Some n \<and> text_key H n = text_key H y)"
  proof
    fix v
    show "(part_of H p v = Some (region_of p @ text_key H y)) = (\<exists>n. text_in p v = Some n \<and> text_key H n = text_key H y)"
      using text_in_key [OF p, of H v "region_of p @ text_key H y"] by auto
  qed
  finally show ?thesis .
qed

lemma scan_keys_set:
  assumes de: "derived_exact H low (s, D)" and p: "text_part p"
    and m: "\<And>v. matches v \<longleftrightarrow> (\<exists>n. text_in p v = Some n \<and> keep n)"
  shows "scan_keys (s, D) f p matches keep r = restricted r (idset D (with_value s f matches))"
proof -
  note e = derived_exactD [OF de]
  define to where "to = (if region_of p = [] then Unbounded else Excluded (region_end (region_of p)))"
  have range: "part_ids D f p (Included (region_of p)) to q = idset D (with_value s f (\<lambda>v. \<exists>n. text_in p v = Some n \<and> q (region_of p @ text_key H n)))" for q
  proof (cases "region_of p = []")
    case True
    have "part_ids D f p (Included []) Unbounded q = idset D (with_value s f (keyed H p (\<lambda>k. True \<and> q k)))"
      by (rule part_ids_set [OF de]) simp
    then show ?thesis using keyed_texts [OF p, of H q] True by (simp add: to_def)
  next
    case False
    then have r: "region_of p = [char_of (2::nat)]" by (auto simp: region_of_def split: if_splits)
    have "part_ids D f p (Included (region_of p)) (Excluded (region_end (region_of p))) q =
        idset D (with_value s f (keyed H p (\<lambda>k. prefix (region_of p) k \<and> q k)))"
    proof (rule region_ids [OF de])
      fix k i assume "part_key H p k"
      then have "k \<noteq> []" by (rule part_key_nonempty)
      then show "prefix (region_of p) (k @ id_bytes i) = prefix (region_of p) k" by (cases k) (simp_all add: r)
    qed (simp_all add: r)
    then show ?thesis using False keyed_texts [OF p, of H q] by (simp add: to_def)
  qed
  have h: "long_prefix (drop (length (region_of p)) (region_of p @ text_key H n)) \<noteq> None \<longleftrightarrow> hashed n" for n by simp
  have test: "(case unesc (drop (length (region_of p)) (region_of p @ text_key H n)) of None \<Rightarrow> False | Some (t, _) \<Rightarrow> keep t) \<longleftrightarrow> keep n"
    if "\<not> hashed n" for n using unesc_text [OF that, of H "[]"] by simp
  have t1: "(\<lambda>v. \<exists>n. text_in p v = Some n \<and> \<not> hashed n \<and>
      (case unesc (drop (length (region_of p)) (region_of p @ text_key H n)) of None \<Rightarrow> False | Some (t, _) \<Rightarrow> keep t)) =
      (\<lambda>v. \<exists>n. text_in p v = Some n \<and> \<not> hashed n \<and> keep n)"
    using test by (intro ext ex_cong1) blast
  have r': "(if p = VALUE then [char_of (2::nat)] else []) = region_of p" using p by (auto simp: text_part_def region_of_def NAME_def VALUE_def)
  have "scan_keys (s, D) f p matches keep r = restricted r (idset D (with_value s f (\<lambda>v. \<exists>n. text_in p v = Some n \<and> \<not> hashed n \<and> keep n))
      \<union> having (s, D) (restricted r (idset D (with_value s f (\<lambda>v. \<exists>n. text_in p v = Some n \<and> hashed n)))) f matches)"
    unfolding scan_keys_def Let_def r' snd_conv to_def [symmetric] range
    by (simp only: h t1)
  also have "having (s, D) (restricted r (idset D A)) f matches = restricted r (idset D (A \<inter> with_value s f matches))" for A
    using having_set [OF e(1), of A f matches] by (auto simp: having_def restricted_def split: option.splits)
  finally have "scan_keys (s, D) f p matches keep r = restricted r (idset D (with_value s f (\<lambda>v. \<exists>n. text_in p v = Some n \<and> \<not> hashed n \<and> keep n)
      \<union> with_value s f (\<lambda>v. \<exists>n. text_in p v = Some n \<and> hashed n) \<inter> with_value s f matches))"
    by (simp add: restricted_Un idset_Un)
  also have "with_value s f (\<lambda>v. \<exists>n. text_in p v = Some n \<and> \<not> hashed n \<and> keep n)
      \<union> with_value s f (\<lambda>v. \<exists>n. text_in p v = Some n \<and> hashed n) \<inter> with_value s f matches = with_value s f matches"
    by (auto simp: with_value_def m)
  finally show ?thesis .
qed

end
