(* ===== verification/Kv_Source_Laws.thy ===== *)
theory Kv_Source_Laws
  imports Derived_Reads
begin

text \<open>
  The store keeps the promises of a data source: over exact derived key spaces, every question of the
  evaluator is answered as the rows do. So a query run on the store returns what the oracle returns.
\<close>

section \<open>The data of a store\<close>

definition kv_data :: "rowstore \<Rightarrow> Data" where
  "kv_data s = read_data (map fst (metarecords s)) (map (\<lambda>((u, _, _), r). (u, r)) (cells s))"

lemma kv_rows_iff:
  assumes "rows_inv H s"
  shows "(u, r) \<in> set (d_rows (kv_data s) f) \<longleftrightarrow> r \<in> set (kv_rows_named s u f)"
proof -
  have o: "ordered (cells s)" and c: "cells_inv s" using assms by (auto simp: ordered_tables_def dest: rows_invD)
  have "(u, r) \<in> set (d_rows (kv_data s) f) \<longleftrightarrow> row_name r = f \<and> (\<exists>n i. ((u, n, i), r) \<in> set (cells s))"
    by (force simp: kv_data_def read_data_def)
  also have "\<dots> \<longleftrightarrow> row_name r = f \<and> (\<exists>n i. tget (cells s) (u, n, i) = Some r)" by (simp add: tget_Some_iff [OF o])
  also have "\<dots> \<longleftrightarrow> row_name r = f \<and> tget (cells s) (u, f, row_id r) = Some r"
    using c unfolding cells_inv_def by blast
  finally show ?thesis using in_kv_rows_named [OF assms, of r u f] by simp
qed

lemma kv_values_iff:
  assumes "rows_inv H s"
  shows "(\<exists>r. (u, r) \<in> set (d_rows (kv_data s) f) \<and> P (row_value r)) \<longleftrightarrow> (\<exists>v\<in>set (values_at s u f). P v)"
  by (auto simp: kv_rows_iff [OF assms] values_at_def)

lemma kv_holders: "rows_inv H s \<Longrightarrow> holders (kv_data s) f (\<lambda>_. p) = with_value s f p"
  using kv_values_iff [of H s] by (auto simp: holders_iff with_value_def)

lemma kv_universe:
  assumes "rows_inv H s"
  shows "u \<in> d_universe (kv_data s) \<longleftrightarrow> kv_version s u \<noteq> None"
proof -
  have o: "ordered (metarecords s)" using assms by (auto simp: ordered_tables_def dest: rows_invD)
  have "u \<in> fst ` set (metarecords s) \<longleftrightarrow> (\<exists>v. (u, v) \<in> set (metarecords s))" by force
  then show ?thesis using tget_Some_iff [OF o, of u] by (auto simp: kv_data_def read_data_def kv_version_def)
qed

lemma values_exist:
  assumes "rows_inv H s" "v \<in> set (values_at s u f)"
  shows "kv_version s u \<noteq> None"
proof -
  obtain r where "r \<in> set (kv_rows_named s u f)" using assms(2) by (auto simp: values_at_def)
  then have "tget (cells s) (u, row_name r, row_id r) = Some r" by (simp add: in_kv_rows_named [OF assms(1)])
  then show ?thesis using rows_invD(2) [OF assms(1)] unfolding cells_inv_def kv_version_def by blast
qed

lemma kv_child_of: "rows_inv H s \<Longrightarrow> child_of (forest (kv_data s) f) = edges s f"
proof -
  assume i: "rows_inv H s"
  have "(p, c) \<in> child_of (forest (kv_data s) f) \<longleftrightarrow> (p, c) \<in> edges s f" for p c
  proof -
    have "(p, c) \<in> child_of (forest (kv_data s) f) \<longleftrightarrow>
        (\<exists>r. (c, r) \<in> set (d_rows (kv_data s) f) \<and> (\<exists>n. position (row_value r) = Some (Some p, n)))"
      unfolding child_of_iff by blast
    then show ?thesis using kv_values_iff [OF i, of c f "\<lambda>v. \<exists>n. position v = Some (Some p, n)"]
      by (simp add: edges_def with_value_def)
  qed
  then show ?thesis by auto
qed

section \<open>What the writes keep of the values\<close>

text \<open>
  One type per field; no metarecord of the zero uuid and no position under it; no NaN, and integers a
  float holds exactly; and among the names of a hierarchy, no two of one key.
\<close>

definition stored_ok :: "(bytes \<Rightarrow> u64) \<Rightarrow> rowstore \<Rightarrow> bool" where
  "stored_ok H s \<longleftrightarrow> kv_version s ZERO_UUID = None \<and>
     (\<forall>f u w. \<forall>v\<in>set (values_at s u f). \<forall>v'\<in>set (values_at s w f).
        (v \<noteq> Nothing \<longrightarrow> v' \<noteq> Nothing \<longrightarrow> type_str v = type_str v') \<and>
        (\<forall>p n p' n'. v = VHierarchyRef p n \<longrightarrow> v' = VHierarchyRef p' n' \<longrightarrow> text_key H n = text_key H n' \<longrightarrow> n = n')) \<and>
     (\<forall>f u. \<forall>v\<in>set (values_at s u f).
        (\<forall>p n. position v = Some (p, n) \<longrightarrow> p \<noteq> Some ZERO_UUID) \<and>
        (\<forall>x. v = VFloat x \<longrightarrow> \<not> f64_nan x) \<and> (\<forall>n. v = VInt n \<longrightarrow> \<bar>sint n\<bar> \<le> 2 ^ 53))"

text \<open>The operands compared as the rows are: no NaN, no position under the zero uuid, and a name that
  no other stored one is displayed as, or, in a hierarchy, shares a key with.\<close>

definition kv_fit :: "(bytes \<Rightarrow> u64) \<Rightarrow> rowstore \<Rightarrow> string \<Rightarrow> value \<Rightarrow> bool" where
  "kv_fit H s f v \<longleftrightarrow> (\<forall>x. v = VFloat x \<longrightarrow> \<not> f64_nan x) \<and>
     (\<forall>p n. position v = Some (p, n) \<longrightarrow> p \<noteq> Some ZERO_UUID \<and>
        (\<forall>u. \<forall>w\<in>set (values_at s u f). \<forall>q m. position w = Some (q, m) \<longrightarrow>
           (display m = display n \<longrightarrow> m = n) \<and> ((\<exists>p. v = VHierarchyRef p n) \<longrightarrow> text_key H m = text_key H n \<longrightarrow> m = n)))"

lemma stored_pair:
  assumes "stored_ok H s" "v \<in> set (values_at s u f)" "v' \<in> set (values_at s w f)"
  shows "v \<noteq> Nothing \<Longrightarrow> v' \<noteq> Nothing \<Longrightarrow> type_str v = type_str v'"
    and "v = VHierarchyRef p n \<Longrightarrow> v' = VHierarchyRef p' n' \<Longrightarrow> text_key H n = text_key H n' \<Longrightarrow> n = n'"
proof -
  have "\<forall>f u w. \<forall>v\<in>set (values_at s u f). \<forall>v'\<in>set (values_at s w f).
        (v \<noteq> Nothing \<longrightarrow> v' \<noteq> Nothing \<longrightarrow> type_str v = type_str v') \<and>
        (\<forall>p n p' n'. v = VHierarchyRef p n \<longrightarrow> v' = VHierarchyRef p' n' \<longrightarrow> text_key H n = text_key H n' \<longrightarrow> n = n')"
    using assms(1) unfolding stored_ok_def by (elim conjE)
  note a = this [rule_format, OF assms(2,3)]
  show "v \<noteq> Nothing \<Longrightarrow> v' \<noteq> Nothing \<Longrightarrow> type_str v = type_str v'" by (rule a [THEN conjunct1, rule_format])
  show "v = VHierarchyRef p n \<Longrightarrow> v' = VHierarchyRef p' n' \<Longrightarrow> text_key H n = text_key H n' \<Longrightarrow> n = n'"
    by (rule a [THEN conjunct2, rule_format])
qed

lemmas stored_type = stored_pair(1)

lemma stored_value:
  assumes "stored_ok H s" "v \<in> set (values_at s u f)"
  shows "position v = Some (p, n) \<Longrightarrow> p \<noteq> Some ZERO_UUID" "v = VFloat x \<Longrightarrow> \<not> f64_nan x" "v = VInt m \<Longrightarrow> \<bar>sint m\<bar> \<le> 2 ^ 53"
proof -
  have "\<forall>f u. \<forall>v\<in>set (values_at s u f).
        (\<forall>p n. position v = Some (p, n) \<longrightarrow> p \<noteq> Some ZERO_UUID) \<and>
        (\<forall>x. v = VFloat x \<longrightarrow> \<not> f64_nan x) \<and> (\<forall>n. v = VInt n \<longrightarrow> \<bar>sint n\<bar> \<le> 2 ^ 53)"
    using assms(1) unfolding stored_ok_def by (elim conjE)
  note a = this [rule_format, OF assms(2)]
  show "position v = Some (p, n) \<Longrightarrow> p \<noteq> Some ZERO_UUID" by (rule a [THEN conjunct1, rule_format])
  show "v = VFloat x \<Longrightarrow> \<not> f64_nan x" by (rule a [THEN conjunct2, THEN conjunct1, rule_format])
  show "v = VInt m \<Longrightarrow> \<bar>sint m\<bar> \<le> 2 ^ 53" by (rule a [THEN conjunct2, THEN conjunct2, rule_format])
qed

lemma kv_data_wf:
  assumes i: "rows_inv H s" and ok: "stored_ok H s"
  shows "data_wf (kv_data s)"
proof -
  have vals: "row_value r \<in> set (values_at s u f)" if "(u, r) \<in> set (d_rows (kv_data s) f)" for u r f
    using that by (simp add: kv_rows_iff [OF i] values_at_def)
  have "data_ok (kv_data s)" unfolding data_ok_def
  proof (intro allI subsetI)
    fix f u assume "u \<in> fst ` set (d_rows (kv_data s) f)"
    then obtain r where "(u, r) \<in> set (d_rows (kv_data s) f)" by force
    from values_exist [OF i vals [OF this]] show "u \<in> d_universe (kv_data s)" by (simp add: kv_universe [OF i])
  qed
  moreover have "finite (d_universe (kv_data s))" by simp
  moreover have "ZERO_UUID \<notin> d_universe (kv_data s)" using ok by (simp add: kv_universe [OF i] stored_ok_def)
  moreover have "type_str (row_value r) = type_str (row_value r')"
    if "(u, r) \<in> set (d_rows (kv_data s) f)" "(u', r') \<in> set (d_rows (kv_data s) f)" "row_value r \<noteq> Nothing" "row_value r' \<noteq> Nothing" for u r u' r' f
    using stored_type [OF ok vals [OF that(1)] vals [OF that(2)] that(3,4)] .
  moreover have "p \<noteq> Some ZERO_UUID" if "(u, r) \<in> set (d_rows (kv_data s) f)" "position (row_value r) = Some (p, n)" for u r f p n
    using stored_value(1) [OF ok vals [OF that(1)] that(2)] .
  ultimately show ?thesis unfolding data_wf_def by blast
qed

section \<open>The type of a field\<close>

lemma type_in_TYPES: "v \<noteq> Nothing \<Longrightarrow> type_str v \<in> set TYPES"
  by (cases v) (simp_all add: TYPES_def)

lemma kv_value_types_iff:
  assumes "rows_inv H s"
  shows "t \<in> set (kv_value_types s f) \<longleftrightarrow> (\<exists>u. \<exists>v\<in>set (values_at s u f). v \<noteq> Nothing \<and> type_str v = t)"
proof -
  note I = rows_invD [OF assms]
  have o: "ordered (field_types s)" "ordered (cells s)" using I(1) by (simp_all add: ordered_tables_def)
  have "t \<in> set (kv_value_types s f) \<longleftrightarrow> (\<exists>n. ((f, t), n) \<in> set (tscan (\<lambda>(m, _). m = f) (field_types s)))"
    by (force simp: kv_value_types_def tscan_def)
  also have "\<dots> \<longleftrightarrow> tget (field_types s) (f, t) \<noteq> None" by (simp add: in_tscan [OF o(1)] del: not_None_eq) auto
  also have "\<dots> \<longleftrightarrow> typed_count s f t \<noteq> 0" using I(6) unfolding types_inv_def by auto
  also have "\<dots> \<longleftrightarrow> (\<exists>e\<in>set (cells s). typed f t e)"
    by (simp add: typed_count_def filter_empty_conv flip: mset_filter)
  also have "\<dots> \<longleftrightarrow> (\<exists>u n i r. tget (cells s) (u, n, i) = Some r \<and> typed f t ((u, n, i), r))"
  proof -
    have "(\<exists>e\<in>set (cells s). typed f t e) \<longleftrightarrow> (\<exists>u n i r. ((u, n, i), r) \<in> set (cells s) \<and> typed f t ((u, n, i), r))" by force
    then show ?thesis by (simp only: tget_Some_iff [OF o(2)])
  qed
  also have "\<dots> \<longleftrightarrow> (\<exists>u r. r \<in> set (kv_rows_named s u f) \<and> row_value r \<noteq> Nothing \<and> type_str (row_value r) = t)"
  proof
    assume "\<exists>u n i r. tget (cells s) (u, n, i) = Some r \<and> typed f t ((u, n, i), r)"
    then obtain u n i r where r: "tget (cells s) (u, n, i) = Some r" "typed f t ((u, n, i), r)" by blast
    then have n: "n = f" "row_value r \<noteq> Nothing" "type_str (row_value r) = t" by (simp_all add: typed_def)
    have c: "row_name r = n" "row_id r = i" using I(2) r(1) unfolding cells_inv_def by blast+
    have "r \<in> set (kv_rows_named s u f)" using r(1) n(1) c by (simp add: in_kv_rows_named [OF assms])
    then show "\<exists>u r. r \<in> set (kv_rows_named s u f) \<and> row_value r \<noteq> Nothing \<and> type_str (row_value r) = t" using n(2,3) by (intro exI conjI)
  next
    assume "\<exists>u r. r \<in> set (kv_rows_named s u f) \<and> row_value r \<noteq> Nothing \<and> type_str (row_value r) = t"
    then obtain u r where r: "r \<in> set (kv_rows_named s u f)" "row_value r \<noteq> Nothing" "type_str (row_value r) = t" by blast
    then have "row_name r = f" "tget (cells s) (u, f, row_id r) = Some r" by (simp_all add: in_kv_rows_named [OF assms])
    then show "\<exists>u n i r. tget (cells s) (u, n, i) = Some r \<and> typed f t ((u, n, i), r)"
      using r(2,3) by (intro exI conjI) (simp_all add: typed_def)
  qed
  finally show ?thesis by (auto simp: values_at_def)
qed

lemma find_only: "t \<in> set ts \<Longrightarrow> (\<And>t'. t' \<in> set ts \<Longrightarrow> t' = t) \<Longrightarrow> P t \<Longrightarrow> List.find P ts = Some t"
proof (cases ts)
  case (Cons a as)
  assume all: "\<And>t'. t' \<in> set ts \<Longrightarrow> t' = t" and "P t"
  moreover have "a = t" by (rule all) (simp add: Cons)
  ultimately show ?thesis using Cons by simp
qed simp

lemma kv_value_type_data:
  assumes i: "rows_inv H s" and ok: "stored_ok H s"
  shows "kv_value_type (s, D) f = data_type (kv_data s) f"
proof (cases "data_type (kv_data s) f")
  case None
  have n: "v = Nothing" if v: "v \<in> set (values_at s u f)" for u v
  proof -
    obtain r where "r \<in> set (kv_rows_named s u f)" "v = row_value r" using v by (auto simp: values_at_def)
    then show ?thesis using data_type_none [OF None, of u r] by (simp add: kv_rows_iff [OF i])
  qed
  have "t \<notin> set (kv_value_types s f)" for t by (auto simp: kv_value_types_iff [OF i] dest: n)
  then have "kv_value_types s f = []" using list.set_intros(1) by (cases "kv_value_types s f") force+
  then show ?thesis using None by (simp add: kv_value_type_def)
next
  case (Some t)
  then obtain u r where r: "(u, r) \<in> set (d_rows (kv_data s) f)" "row_value r \<noteq> Nothing" "type_str (row_value r) = t"
    using stored_type_in [of None "d_rows (kv_data s) f" t] by (auto simp: data_type_def)
  then have v: "row_value r \<in> set (values_at s u f)" by (simp add: kv_rows_iff [OF i] values_at_def)
  have all: "t' = t" if "t' \<in> set (kv_value_types s f)" for t'
  proof -
    obtain u' v' where "v' \<in> set (values_at s u' f)" "v' \<noteq> Nothing" "type_str v' = t'" using \<open>t' \<in> _\<close> unfolding kv_value_types_iff [OF i] by blast
    then show ?thesis using stored_type [OF ok _ v _ r(2)] r(3) by simp
  qed
  have t: "t \<in> set (kv_value_types s f)" unfolding kv_value_types_iff [OF i] using v r(2,3) by blast
  have "t \<in> set TYPES" using type_in_TYPES [OF r(2)] r(3) by simp
  then have "List.find (\<lambda>t. t \<in> set TYPES) (kv_value_types s f) = Some t"
    by (intro find_only [OF t all])
  then show ?thesis using Some by (simp add: kv_value_type_def)
qed

end
