(* ===== verification/Kv_Compare.thy ===== *)
theory Kv_Compare
  imports Kv_Source_Laws
begin

text \<open>
  Comparing by key is comparing the values: the keys of two values are equal, or in order, as the
  oracle finds the values, the texts cut and hashed being decided by the rows.
\<close>

section \<open>The oracle's tests\<close>

definition value_test :: "value \<Rightarrow> CmpOp \<Rightarrow> value \<Rightarrow> bool" where
  "value_test v op w =
     (case v of
        VInt n \<Rightarrow> number_pred op (i64_as_f64 n) w
      | VFloat x \<Rightarrow> number_pred op x w
      | VString t \<Rightarrow> (case text_of w of Some t' \<Rightarrow> cmp_holds op (Some (cmp t' t)) | None \<Rightarrow> False)
      | VDateTime ms \<Rightarrow> (case w of VDateTime x \<Rightarrow> cmp_holds op (Some (cmp (sint x) (sint ms))) | _ \<Rightarrow> False)
      | VTreeRef p n \<Rightarrow> position_pred v p n w
      | VHierarchyRef p n \<Rightarrow> position_pred v p n w
      | _ \<Rightarrow> w = v)"

lemma row_predicate_value:
  assumes "row_predicate d f v op AValue = Inr pred"
  shows "pred = (\<lambda>_. value_test v op)" "v \<noteq> Nothing"
    and "op \<noteq> CEq \<Longrightarrow> (\<exists>n. v = VInt n) \<or> (\<exists>x. v = VFloat x) \<or> (\<exists>t. v = VString t) \<or> (\<exists>ms. v = VDateTime ms)"
  using assms
  by (cases v; auto simp: row_predicate_def value_test_def equality_only_def is_ordered_def string_pred_def fun_eq_iff split: if_splits)+

lemma value_test_Nothing [simp]: "v \<noteq> Nothing \<Longrightarrow> value_test v op Nothing = False"
  by (cases v) (simp_all add: value_test_def number_pred_def number_of_def text_of_def position_pred_def)

lemma cmp_holds_op: "cmp_holds (oracle_op op) (Some x) \<longleftrightarrow> (if op = INeq then matches_ordering IEq x else matches_ordering op x)"
  by (cases op) (simp_all add: cmp_holds_def matches_ordering_def)

section \<open>Equality\<close>

lemma is_hashed_text [simp]: "is_hashed (char_of (2::nat) # text_key H s) = hashed s"
  by (simp add: is_hashed_def)

lemma is_hashed_tree [simp]: "is_hashed (char_of (7::nat) # uuid_to_bytes u @ text_key H s) = hashed s"
  by (simp add: is_hashed_def)

lemma is_hashed_other [simp]: "m < 256 \<Longrightarrow> m \<noteq> 2 \<Longrightarrow> m \<noteq> 7 \<Longrightarrow> \<not> is_hashed (char_of (m::nat) # k)"
  by (simp add: is_hashed_def)

definition by_key :: "(bytes \<Rightarrow> u64) \<Rightarrow> value \<Rightarrow> value \<Rightarrow> bool" where
  "by_key H w v \<longleftrightarrow> (\<exists>k. value_key H w = Some k \<and> value_key H v = Some k \<and> (is_hashed k \<longrightarrow> value_eq w v))"

lemma by_key_Nothing [simp]: "\<not> by_key H Nothing v" "\<not> by_key H v Nothing"
  by (simp_all add: by_key_def)

lemma uuid_or_zero_inject: "p \<noteq> Some ZERO_UUID \<Longrightarrow> q \<noteq> Some ZERO_UUID \<Longrightarrow> uuid_or_zero p = uuid_or_zero q \<longleftrightarrow> p = q"
  by (auto simp: uuid_or_zero_def split: option.splits)

lemma num_key_inject: "\<not> f64_nan x \<Longrightarrow> \<not> f64_nan y \<Longrightarrow> num_key x = num_key y \<longleftrightarrow> f64_rank x = f64_rank y"
  using num_key_cmp [of x y] by (metis cmp_Equal)

lemma dt_key_cmp: "cmp (dt_key a) (dt_key b) = cmp (sint a) (sint b)"
  unfolding cmp_uint dt_key_sint by (rule cmp_strict) simp

lemma sint_inject: "sint a = sint b \<longleftrightarrow> a = b" for a b :: i64
  by (auto intro: signed_word_eqI)

lemma dt_key_inject: "dt_key a = dt_key b \<longleftrightarrow> a = b"
  using dt_key_cmp [of a b] by (metis cmp_Equal signed_word_eqI)

lemma text_by_key: "text_key H a = text_key H b \<and> (hashed b \<longrightarrow> a = b) \<longleftrightarrow> a = b"
  using text_key_whole [of b H a] by auto


lemma fit_float: "kv_fit H s f (VFloat x) \<Longrightarrow> \<not> f64_nan x"
  by (simp add: kv_fit_def)

lemma fit_position:
  assumes "kv_fit H s f v" "position v = Some (p, n)" "w \<in> set (values_at s u f)" "position w = Some (q, m)"
  shows "p \<noteq> Some ZERO_UUID" "display m = display n \<longleftrightarrow> m = n" "v = VHierarchyRef p n \<Longrightarrow> text_key H m = text_key H n \<longleftrightarrow> m = n"
proof -
  have a: "p \<noteq> Some ZERO_UUID \<and> (\<forall>u. \<forall>w\<in>set (values_at s u f). \<forall>q m. position w = Some (q, m) \<longrightarrow>
           (display m = display n \<longrightarrow> m = n) \<and> ((\<exists>p. v = VHierarchyRef p n) \<longrightarrow> text_key H m = text_key H n \<longrightarrow> m = n))"
    using assms(1) [unfolded kv_fit_def, THEN conjunct2, rule_format, OF assms(2)] by simp
  then show "p \<noteq> Some ZERO_UUID" by (rule conjunct1)
  note b = a [THEN conjunct2, rule_format, OF assms(3,4)]
  show "display m = display n \<longleftrightarrow> m = n" using b by blast
  show "v = VHierarchyRef p n \<Longrightarrow> text_key H m = text_key H n \<longleftrightarrow> m = n" using b by blast
qed

lemma f64_eq_rank: "\<not> f64_nan x \<Longrightarrow> \<not> f64_nan y \<Longrightarrow> f64_eq x y \<longleftrightarrow> f64_rank x = f64_rank y"
proof -
  assume n: "\<not> f64_nan x" "\<not> f64_nan y"
  have "x = y" if "f64_neg x = f64_neg y" "f64_mag x = f64_mag y"
    using that f64_mag_bits [of x] f64_mag_bits [of y] by (simp add: f64_neg_bit word_uint_eq_iff split: if_splits)
  then show ?thesis using n by (auto simp: f64_eq_def f64_rank_def)
qed

definition float_ok :: "value \<Rightarrow> bool" where
  "float_ok w \<longleftrightarrow> (\<forall>y. w = VFloat y \<longrightarrow> \<not> f64_nan y)"

lemma number_ok: "float_ok w \<Longrightarrow> number_of w = Some y \<Longrightarrow> \<not> f64_nan y"
  using i64_as_f64_rank(1) by (cases w) (auto simp: number_of_def float_ok_def)

lemma number_test:
  assumes "\<not> f64_nan x" "float_ok w"
  shows "number_pred op x w \<longleftrightarrow> (\<exists>y. number_of w = Some y \<and> cmp_holds op (Some (cmp (num_key y) (num_key x))))"
  using assms number_ok [OF assms(2)]
  by (auto simp: number_pred_def f64_partial_cmp_def num_key_cmp split: option.splits)

lemma number_key: "number_of w = Some y \<Longrightarrow> value_key H w = Some (char_of (1::nat) # be_bytes 8 (unat (num_key y)))"
  by (cases w) (auto simp: number_of_def)

lemma number_tag: "value_key H w = Some (char_of (1::nat) # b) \<longleftrightarrow> (\<exists>y. number_of w = Some y \<and> b = be_bytes 8 (unat (num_key y)))"
  by (cases w) (auto simp: number_of_def)

lemma by_key_number:
  assumes "number_of v = Some x" "\<not> f64_nan x" "float_ok w"
  shows "by_key H w v \<longleftrightarrow> number_pred CEq x w"
proof -
  have "by_key H w v \<longleftrightarrow> (\<exists>y. number_of w = Some y \<and> num_key x = num_key y)"
    unfolding by_key_def number_key [OF assms(1)] by (auto simp: number_tag [simplified])
  then show ?thesis unfolding number_test [OF assms(2,3)] by (auto simp: cmp_holds_def)
qed

lemma by_key_test:
  assumes ok: "stored_ok H s" and fit: "kv_fit H s f v" and w: "w \<in> set (values_at s u f)" and v: "v \<noteq> Nothing"
    and string: "\<And>t. v = VString t \<Longrightarrow> position w = None"
  shows "by_key H w v \<longleftrightarrow> value_test v CEq w"
proof -
  have fw: "float_ok w" using stored_value(2) [OF ok w] by (simp add: float_ok_def)
  have zw: "position w = Some (q, m) \<Longrightarrow> q \<noteq> Some ZERO_UUID" for q m by (rule stored_value(1) [OF ok w])
  show ?thesis
  proof (cases v)
    case (VInt n)
    then show ?thesis using by_key_number [of v "i64_as_f64 n" w H] fw i64_as_f64_rank(1) by (simp add: number_of_def value_test_def)
  next
    case (VFloat x)
    then show ?thesis using by_key_number [of v x w H] fw fit_float [of H s f x] fit by (simp add: number_of_def value_test_def)
  next
    case (VString t)
    show ?thesis
    proof (cases "\<exists>a. w = VString a")
      case True
      then obtain a where "w = VString a" by blast
      then show ?thesis using text_by_key [of H a t] text_key_same [of H t a] by (auto simp: by_key_def value_test_def VString text_of_def cmp_holds_def)
    qed (use VString string [OF VString] in \<open>cases w; auto simp: by_key_def value_test_def text_of_def\<close>)
  next
    case (VDateTime ms)
    then show ?thesis by (cases w) (auto simp: by_key_def value_test_def cmp_holds_def dt_key_inject sint_inject)
  next
    case (VTreeRef p n)
    show ?thesis
    proof (cases "\<exists>q m. w = VTreeRef q m")
      case True
      then obtain q m where w': "w = VTreeRef q m" by blast
      have p: "position v = Some (p, n)" "position w = Some (q, m)" using VTreeRef w' by simp_all
      note z = uuid_or_zero_inject [OF zw [OF p(2)] fit_position(1) [OF fit p(1) w p(2)]]
      show ?thesis using text_by_key [of H m n] text_key_same [of H n m] z fit_position(2) [OF fit p(1) w p(2)]
        by (auto simp: by_key_def value_test_def position_pred_def uuid_append VTreeRef w')
    qed (use VTreeRef in \<open>cases w; auto simp: by_key_def value_test_def position_pred_def\<close>)
  next
    case (VHierarchyRef p n)
    show ?thesis
    proof (cases "\<exists>q m. w = VHierarchyRef q m")
      case True
      then obtain q m where w': "w = VHierarchyRef q m" by blast
      have p: "position v = Some (p, n)" "position w = Some (q, m)" using VHierarchyRef w' by simp_all
      note z = uuid_or_zero_inject [OF zw [OF p(2)] fit_position(1) [OF fit p(1) w p(2)]]
      show ?thesis using z fit_position(2,3) [OF fit p(1) w p(2)]
        by (auto simp: by_key_def value_test_def position_pred_def uuid_append VHierarchyRef w')
    qed (use VHierarchyRef in \<open>cases w; auto simp: by_key_def value_test_def position_pred_def\<close>)
  qed (use v in \<open>cases w; auto simp: by_key_def value_test_def uuid_append\<close>)+
qed

lemma int_key:
  assumes "\<bar>sint m\<bar> \<le> 2 ^ 53" "\<bar>sint n\<bar> \<le> 2 ^ 53"
  shows "num_key (i64_as_f64 m) = num_key (i64_as_f64 n) \<longleftrightarrow> m = n"
proof -
  have "num_key (i64_as_f64 m) = num_key (i64_as_f64 n) \<longleftrightarrow> cmp_f64 (i64_as_f64 m) (i64_as_f64 n) = Equal"
    by (simp add: num_key_inject i64_as_f64_rank(1) cmp_f64_def f64_partial_cmp_def)
  then show ?thesis unfolding i64_as_f64_cmp [OF assms] by (auto simp: intro: signed_word_eqI)
qed

lemma by_key_same:
  assumes ok: "stored_ok H s" and w: "w \<in> set (values_at s u f)" and v: "v \<in> set (values_at s u' f)"
  shows "by_key H w v \<longleftrightarrow> w \<noteq> Nothing \<and> v \<noteq> Nothing \<and> value_eq w v"
proof -
  note sw = stored_value [OF ok w] and sv = stored_value [OF ok v]
  show ?thesis
  proof (cases "w \<noteq> Nothing \<and> v \<noteq> Nothing")
    case False
    then show ?thesis by auto
  next
    case True
    then have t: "type_str w = type_str v" using stored_type [OF ok w v] by simp
    show ?thesis
    proof (cases w)
      case (VInt n)
      then obtain m where m: "v = VInt m" using t True by (cases v) auto
      then show ?thesis using VInt int_key [OF sw(3) [OF VInt] sv(3) [OF m]] by (auto simp: by_key_def)
    next
      case (VFloat x)
      then obtain y where "v = VFloat y" using t True by (cases v) auto
      then show ?thesis using VFloat sw(2) sv(2) by (auto simp: by_key_def num_key_inject f64_eq_rank)
    next
      case (VString a)
      then obtain b where "v = VString b" using t True by (cases v) auto
      then show ?thesis using VString text_by_key [of H a b] text_key_same [of H b a] by (auto simp: by_key_def)
    next
      case (VDateTime ms)
      then show ?thesis using t True by (cases v) (auto simp: by_key_def dt_key_inject)
    next
      case (VTreeRef p n)
      then obtain q m where "v = VTreeRef q m" using t True by (cases v) auto
      then show ?thesis using VTreeRef sw(1) sv(1) text_by_key [of H n m] text_key_same [of H m n]
        by (auto simp: by_key_def uuid_append uuid_or_zero_inject)
    next
      case (VHierarchyRef p n)
      then obtain q m where m: "v = VHierarchyRef q m" using t True by (cases v) auto
      then show ?thesis using VHierarchyRef sw(1) sv(1) stored_pair(2) [OF ok w v VHierarchyRef m]
        by (auto simp: by_key_def uuid_append uuid_or_zero_inject)
    qed (use t True in \<open>cases v; auto simp: by_key_def uuid_append\<close>)+
  qed
qed

section \<open>Order\<close>

definition in_order :: "(bytes \<Rightarrow> u64) \<Rightarrow> IndexOp \<Rightarrow> bytes \<Rightarrow> value \<Rightarrow> bool" where
  "in_order H op key w \<longleftrightarrow> (\<exists>k. value_key H w = Some k \<and> prefix (take 1 key) k \<and> matches_ordering op (cmp k key))"

lemma cmp_Cons [simp]: "cmp (c # a) (c # b) = cmp a (b :: bytes)"
  by (simp add: cmp_def)

lemma cmp_word_bytes [simp]: "cmp (be_bytes 8 (unat a)) (be_bytes 8 (unat b)) = cmp a (b :: 64 word)"
proof -
  have "unat x < 256 ^ 8" for x :: "64 word" using unsigned_less [of x, where ?'a = nat] by simp
  then have "be_bytes 8 (unat x) < be_bytes 8 (unat y) \<longleftrightarrow> x < y" for x y :: "64 word"
    using be_bytes_less [of "unat x" 8 "unat y" "[]" "[]"] by (simp add: word_less_nat_alt)
  then show ?thesis by (simp add: cmp_def)
qed

lemma in_order_number:
  assumes "number_of v = Some x" "\<not> f64_nan x" "float_ok w" "value_key H v = Some key" "op \<noteq> INeq"
  shows "in_order H op key w \<longleftrightarrow> number_pred (oracle_op op) x w"
proof -
  have k: "key = char_of (1::nat) # be_bytes 8 (unat (num_key x))" using number_key [OF assms(1), of H] assms(4) by simp
  have "in_order H op key w \<longleftrightarrow> (\<exists>b. value_key H w = Some (char_of (1::nat) # b) \<and> matches_ordering op (cmp (char_of (1::nat) # b) key))"
    by (auto simp: in_order_def k prefix_def)
  also have "\<dots> \<longleftrightarrow> (\<exists>y. number_of w = Some y \<and> matches_ordering op (cmp (num_key y) (num_key x)))"
    unfolding number_tag k by auto
  finally show ?thesis unfolding number_test [OF assms(2,3)] using assms(5) by (simp add: cmp_holds_op)
qed

lemma date_tag: "value_key H w = Some (char_of (3::nat) # b) \<longleftrightarrow> (\<exists>ms. w = VDateTime ms \<and> b = be_bytes 8 (unat (dt_key ms)))"
  by (cases w) auto

lemma in_order_date:
  assumes "value_key H (VDateTime ms) = Some key" "op \<noteq> INeq"
  shows "in_order H op key w \<longleftrightarrow> value_test (VDateTime ms) (oracle_op op) w"
proof -
  have k: "key = char_of (3::nat) # be_bytes 8 (unat (dt_key ms))" using assms(1) by simp
  have "in_order H op key w \<longleftrightarrow> (\<exists>b. value_key H w = Some (char_of (3::nat) # b) \<and> matches_ordering op (cmp (char_of (3::nat) # b) key))"
    by (auto simp: in_order_def k prefix_def)
  also have "\<dots> \<longleftrightarrow> (\<exists>x. w = VDateTime x \<and> matches_ordering op (cmp (sint x) (sint ms)))"
    unfolding date_tag k by (auto simp: dt_key_cmp)
  finally show ?thesis using assms(2) by (cases w) (auto simp: value_test_def cmp_holds_op)
qed

lemma text_tag: "value_key H w = Some (char_of (2::nat) # b) \<longleftrightarrow> (\<exists>t. w = VString t \<and> b = text_key H t)"
  by (cases w) auto

lemma text_holds_test: "position w = None \<Longrightarrow> op \<noteq> INeq \<Longrightarrow> text_holds op (VString t) w = value_test (VString t) (oracle_op op) w"
  by (cases w) (auto simp: text_holds_def value_test_def text_of_def cmp_holds_op)

lemma text_tag_prefix: "prefix (char_of (2::nat) # a) k \<Longrightarrow> value_key H w = Some k \<Longrightarrow> \<exists>t. w = VString t \<and> k = char_of (2::nat) # text_key H t"
  by (cases w) auto

lemma row_by_text:
  assumes "value_key H (VString y) = Some key" "op \<noteq> INeq" "op \<noteq> IEq"
  shows "row_by_key H op (VString y) key w \<longleftrightarrow> text_holds op (VString y) w"
proof (cases "\<exists>x. w = VString x")
  case True
  then obtain x where w: "w = VString x" by blast
  have k: "key = char_of (2::nat) # text_key H y" using assms(1) by simp
  have a: "prefix (char_of (2::nat) # run_of y) (char_of (2::nat) # text_key H x) \<longleftrightarrow> hashed x \<and> cut_text x = cut_text y"
    using run_text_key [of y H x "[]"] by simp
  show ?thesis
  proof (cases "hashed y")
    case True
    then have "row_by_key H op (VString y) key w \<longleftrightarrow>
        (if hashed x \<and> cut_text x = cut_text y then text_holds op (VString y) w else matches_ordering op (cmp (text_key H x) (text_key H y)))"
      using a by (simp add: row_by_key_def k w run_of_def Let_def)
    then show ?thesis using cmp_text_key [of x y H] by (simp add: text_holds_def w)
  next
    case False
    then show ?thesis using cmp_text_key [of x y H] by (simp add: row_by_key_def k w Let_def text_holds_def)
  qed
next
  case False
  have k: "key = char_of (2::nat) # text_key H y" using assms(1) by simp
  have n: "\<not> prefix (char_of (2::nat) # z) rk" if "value_key H w = Some rk" for z rk
    using text_tag_prefix [OF _ that, of z] False by blast
  have "\<not> text_holds op (VString y) w" using False by (cases w) (auto simp: text_holds_def)
  then show ?thesis using n n [where z = "[]"] by (auto simp: row_by_key_def k Let_def split: option.splits)
qed

lemma row_by_other:
  assumes "take 1 key \<noteq> [char_of (2::nat)]"
  shows "row_by_key H op v key w \<longleftrightarrow> in_order H op key w"
  using assms by (auto simp: row_by_key_def in_order_def Let_def split: option.splits)

end
