(* ===== verification/Kv_Laws.thy ===== *)
theory Kv_Laws
  imports Kv_Compare
begin

text \<open>
  The store is a data source: the promises of \<open>data_source\<close> proved of the questions of \<open>kv_source\<close>, over
  exact derived key spaces, and what a query then returns.
\<close>

section \<open>Reads of the sets and of the rows\<close>

lemma ids_of_kv [simp]: "ids_of (kv_source H (s, D)) us = idset D us"
  by (simp add: ids_of_def idset_def kv_source_def)

lemma set_ids:
  assumes "derived_exact H low (s, D)" "\<And>f k. key \<noteq> POSTINGS f k"
  shows "dv_sets D key = idset D (set_spec H low s key)"
  using derived_exactD(4) [OF assms(1), of key] assms(2) by (auto simp: set_exact_def)

lemma having_any:
  assumes "ids_exact s D"
  shows "having (s, D) c f p = c \<inter> idset D (with_value s f p)"
proof -
  have "i \<in> having (s, D) c f p \<longleftrightarrow> i \<in> c \<inter> idset D (with_value s f p)" for i
    using ids_exactD(1) [OF assms] ids_inj [OF assms]
    by (auto simp: having_def idset_def with_value_def kv_values_def values_at_def list_ex_iff split: option.splits)
  then show ?thesis by blast
qed

lemma bucket_having:
  assumes de: "derived_exact H low (s, D)" and b: "part_key H p b"
  shows "having (s, D) (bucket D f p b) f q = idset D (with_value s f (\<lambda>v. part_of H p v = Some b) \<inter> with_value s f q)"
  unfolding bucket_ids [OF de b] having_set [OF derived_exactD(1) [OF de]] ..

text \<open>Two values of one key under one metarecord may share a bucket: the test on the values is asked of each.\<close>

section \<open>Comparisons\<close>

definition kv_good :: "(bytes \<Rightarrow> u64) \<Rightarrow> (string \<Rightarrow> string) \<Rightarrow> kv \<Rightarrow> bool" where
  "kv_good H low st \<longleftrightarrow> rows_inv H (fst st) \<and> derived_exact H low st \<and> stored_ok H (fst st)"

lemma kv_goodD:
  assumes "kv_good H low (s, D)"
  shows "rows_inv H s" "derived_exact H low (s, D)" "stored_ok H s" "ids_exact s D"
  using assms derived_exactD(1) by (auto simp: kv_good_def)

definition kind_of :: "string \<Rightarrow> Kind" where
  "kind_of t =
     (if t = ''bool'' \<or> t = ''string'' then Categorical
      else if t = ''int'' \<or> t = ''float'' then Numeric
      else if t = ''datetime'' then Datetime
      else if t = ''tree_ref'' \<or> t = ''hierarchy_ref'' then Reference True
      else Reference False)"

lemma kind_value:
  assumes g: "kv_good H low (s, D)" and w: "w \<in> set (values_at s u f)" "w \<noteq> Nothing"
  shows "kind (s, D) f = Some (kind_of (type_str w))"
proof -
  note k = kv_goodD [OF g]
  obtain r where r: "r \<in> set (kv_rows_named s u f)" "w = row_value r" using w by (auto simp: values_at_def)
  then have i: "(u, r) \<in> set (d_rows (kv_data s) f)" by (simp add: kv_rows_iff [OF k(1)])
  obtain t where t: "data_type (kv_data s) f = Some t" using data_type_none [OF _ i] r(2) w(2) by (cases "data_type (kv_data s) f") auto
  have "type_str w = t" using data_type_rows [OF kv_data_wf [OF k(1,3)] t i] r(2) w(2) by simp
  then show ?thesis using t by (simp add: kind_def kv_value_type_data [OF k(1,3)] kind_of_def)
qed

lemma kind_position: "v \<noteq> Nothing \<Longrightarrow> kind_of (type_str v) = Reference True \<longleftrightarrow> position v \<noteq> None"
  by (cases v) (auto simp: kind_of_def)

lemma with_value_empty: "(\<And>u v. v \<in> set (values_at s u f) \<Longrightarrow> \<not> p v) \<Longrightarrow> with_value s f p = {}"
  by (auto simp: with_value_def)

lemma names_compare_ids:
  assumes g: "kv_good H low (s, D)" and k: "kind (s, D) f = Some (Reference True)"
  shows "names_compare H (s, D) f op t =
    idset D (with_value s f (\<lambda>v. \<exists>n. name_of v = Some n \<and> matches_ordering op (cmp n t)))"
proof -
  note de = kv_goodD(2) [OF g] and ie = kv_goodD(4) [OF g]
  have p: "text_part NAME" by (simp add: text_part_def)
  have rn: "region_of NAME = []" by (simp add: region_of_def)
  have tn: "text_in NAME v = name_of v" for v by (simp add: text_in_def)
  note b = texts_in_bucket [OF de p, of f t, unfolded rn append_Nil tn]
  show ?thesis
  proof (cases "op = IEq")
    case True
    have "having (s, D) (bucket D f NAME (text_key H t)) f (\<lambda>v. case name_of v of None \<Rightarrow> False | Some n \<Rightarrow> (n = t) = True) =
        idset D (with_value s f (\<lambda>v. name_of v = Some t))"
      unfolding b having_set [OF ie] by (rule arg_cong [where f = "idset D"]) (auto simp: with_value_def split: option.splits)
    moreover have "bucket D f NAME (text_key H t) = idset D (with_value s f (\<lambda>v. name_of v = Some t))" if "\<not> hashed t"
      unfolding b using text_key_whole [OF that] by (metis (no_types, lifting))
    ultimately show ?thesis using True by (simp add: names_compare_def Let_def matches_ordering_def)
  next
    case ne: False
    show ?thesis
    proof (cases "op = INeq")
      case True
      have a: "all_but D f NAME (Some (text_key H t)) = idset D (with_value s f (\<lambda>v. \<exists>n. name_of v = Some n \<and> text_key H n \<noteq> text_key H t))"
      proof -
        have "keyed H NAME (\<lambda>k. Some k \<noteq> Some (text_key H t)) = keyed H NAME (\<lambda>k. prefix (region_of NAME) k \<and> k \<noteq> text_key H t)"
          by (simp add: rn)
        then show ?thesis unfolding all_but_ids [OF de] keyed_texts [OF p] by (simp add: rn tn)
      qed
      have h: "having (s, D) (bucket D f NAME (text_key H t)) f (\<lambda>v. case name_of v of None \<Rightarrow> False | Some n \<Rightarrow> (n = t) = False) \<union>
          all_but D f NAME (Some (text_key H t)) = idset D (with_value s f (\<lambda>v. \<exists>n. name_of v = Some n \<and> n \<noteq> t))"
        unfolding a b having_set [OF ie] idset_Un [symmetric]
        by (rule arg_cong [where f = "idset D"]) (auto simp: with_value_def split: option.splits)
      have "all_but D f NAME (Some (text_key H t)) = idset D (with_value s f (\<lambda>v. \<exists>n. name_of v = Some n \<and> n \<noteq> t))" if "\<not> hashed t"
        unfolding a using text_key_whole [OF that] by (metis (no_types, lifting))
      then show ?thesis using True h by (simp add: names_compare_def Let_def matches_ordering_def Un_commute)
    next
      case False
      have "names_compare H (s, D) f op t = ordered_exact (s, D) f NAME (region_of NAME) op (region_of NAME @ text_key H t)
          (\<lambda>v. case name_of v of None \<Rightarrow> False | Some n \<Rightarrow> matches_ordering op (cmp n t))"
        using ne False by (cases op) (simp_all add: names_compare_def Let_def rn cong: option.case_cong)
      also have "\<dots> = idset D (with_value s f (\<lambda>v. case name_of v of None \<Rightarrow> False | Some n \<Rightarrow> matches_ordering op (cmp n t)))"
        by (rule ordered_texts [OF de p ne False]) (auto simp: tn split: option.splits)
      also have "(\<lambda>v. case name_of v of None \<Rightarrow> False | Some n \<Rightarrow> matches_ordering op (cmp n t)) =
          (\<lambda>v. \<exists>n. name_of v = Some n \<and> matches_ordering op (cmp n t))" by (auto split: option.splits)
      finally show ?thesis .
    qed
  qed
qed

lemma value_part_key: "value_key H v = Some k \<Longrightarrow> part_key H VALUE k"
  by (auto simp: part_key_def)

lemma hashed_eq: "value_key H v = Some k \<Longrightarrow> is_hashed k \<Longrightarrow> value_eq w v \<longleftrightarrow> w = v"
  by (cases v; cases w) auto

lemma equal_set:
  assumes g: "kv_good H low (s, D)" and k: "value_key H v = Some k"
  shows "equal_ids (s, D) f k v = idset D (with_value s f (\<lambda>w. by_key H w v))"
proof -
  note b = bucket_ids [OF kv_goodD(2) [OF g] value_part_key [OF k], of f]
  have p: "part_of H VALUE w = value_key H w" for w by (simp add: part_of_def)
  show ?thesis
  proof (cases "is_hashed k")
    case True
    have "having (s, D) (bucket D f VALUE k) f (\<lambda>w. value_eq w v) = idset D (with_value s f (\<lambda>w. by_key H w v))"
      unfolding b having_set [OF kv_goodD(4) [OF g]] p hashed_eq [OF k True]
      by (rule arg_cong [where f = "idset D"]) (use True k in \<open>auto simp: with_value_def by_key_def hashed_eq [OF k True]\<close>)
    then show ?thesis using True by (simp add: equal_ids_def)
  next
    case False
    then show ?thesis by (auto simp: equal_ids_def b p by_key_def k)
  qed
qed

lemma differs_set:
  assumes g: "kv_good H low (s, D)" and k: "value_key H v = Some k"
  shows "restricted r (differs_ids H (s, D) f v probe) =
    restricted r (if probe = None then idset D (with_value s f (\<lambda>w. w \<noteq> Nothing \<and> \<not> by_key H w v))
      else the probe \<inter> idset D (with_value s f (\<lambda>w. w \<noteq> Nothing \<and> \<not> by_key H w v)))"
proof -
  note de = kv_goodD(2) [OF g] and ie = kv_goodD(4) [OF g]
  have p: "part_of H VALUE w = value_key H w" for w by (simp add: part_of_def)
  have none: "value_key H w = None \<longleftrightarrow> w = Nothing" for w by (cases w) auto
  have eq: "w \<noteq> Nothing \<and> \<not> by_key H w v \<longleftrightarrow> (\<exists>l. value_key H w = Some l \<and> (l \<noteq> k \<or> is_hashed k \<and> w \<noteq> v))" for w
  proof -
    have "by_key H w v \<longleftrightarrow> value_key H w = Some k \<and> (is_hashed k \<longrightarrow> w = v)" using hashed_eq [OF k] by (auto simp: by_key_def k)
    then show ?thesis using none [of w] by (cases "value_key H w") auto
  qed
  show ?thesis
  proof (cases probe)
    case None
    have a: "all_but D f VALUE (Some k) = idset D (with_value s f (\<lambda>w. \<exists>l. value_key H w = Some l \<and> l \<noteq> k))"
      unfolding all_but_ids [OF de] by (simp add: keyed_def [abs_def] p)
    have some: "w \<noteq> Nothing \<longleftrightarrow> (\<exists>l. value_key H w = Some l)" for w using none [of w] by auto
    have "with_value s f (\<lambda>w. \<exists>l. value_key H w = Some l \<and> l \<noteq> k) \<union>
        (if is_hashed k then with_value s f (\<lambda>w. value_key H w = Some k) \<inter> with_value s f (\<lambda>w. w \<noteq> Nothing \<and> w \<noteq> v) else {}) =
        with_value s f (\<lambda>w. w \<noteq> Nothing \<and> \<not> by_key H w v)"
      unfolding eq unfolding some by (cases "is_hashed k") (auto simp: with_value_def)
    then have "all_but D f VALUE (Some k) \<union> (if is_hashed k then having (s, D) (bucket D f VALUE k) f (\<lambda>w. w \<noteq> Nothing \<and> \<not> value_eq w v) else {}) =
        idset D (with_value s f (\<lambda>w. w \<noteq> Nothing \<and> \<not> by_key H w v))"
      unfolding a bucket_ids [OF de value_part_key [OF k]] having_set [OF ie] p
      using hashed_eq [OF k] by (cases "is_hashed k") (simp_all add: idset_Un [symmetric])
    then show ?thesis using None by (cases "is_hashed k") (simp_all add: differs_ids_def k Let_def)
  next
    case (Some c)
    have "(case value_key H w of None \<Rightarrow> False | Some l \<Rightarrow> if Some l = value_key H v then is_hashed l \<and> \<not> value_eq w v else True) \<longleftrightarrow>
        w \<noteq> Nothing \<and> \<not> by_key H w v" for w
      unfolding eq using hashed_eq [OF k] by (auto simp: k split: option.splits)
    then show ?thesis using Some by (simp add: differs_ids_def Let_def having_any [OF ie])
  qed
qed

text \<open>An ordered comparison: the keys in order, and what the rows say of the values.\<close>

lemma in_order_set:
  assumes de: "derived_exact H low (s, D)" and key: "value_key H v = Some key" "take 1 key \<noteq> [char_of (2::nat)]"
    and op: "op \<noteq> IEq" "op \<noteq> INeq"
  shows "ordered_exact (s, D) f VALUE (take 1 key) op key holds = idset D (with_value s f (in_order H op key))"
proof -
  obtain c k where k: "key = c # k" "c \<noteq> char_of (255::nat)" using key(1) by (cases v) auto
  have r: "take 1 key = [] \<or> (\<exists>c. take 1 key = [c] \<and> c \<noteq> char_of (255::nat))" using k by simp
  have "byte_val (hd key) \<noteq> 2" using key k by (cases v) auto
  then have "ordered_exact (s, D) f VALUE (take 1 key) op key holds = ordered_ids D f VALUE (take 1 key) op key None"
    by (simp add: ordered_exact_def Let_def VALUE_def NAME_def)
  also have "\<dots> = idset D (with_value s f (keyed H VALUE (\<lambda>l. prefix (take 1 key) l \<and> matches_ordering op (cmp l key) \<and> True)))"
    using ordered_ids_set [OF de value_part_key [OF key(1)] take_is_prefix r op, of f None] by simp
  also have "keyed H VALUE (\<lambda>l. prefix (take 1 key) l \<and> matches_ordering op (cmp l key) \<and> True) = in_order H op key"
    by (simp add: keyed_def [abs_def] in_order_def [abs_def] part_of_def)
  finally show ?thesis .
qed

text \<open>The operands that can be ordered, and the values they are ordered against.\<close>

lemma ordered_test:
  assumes g: "kv_good H low (s, D)" and fit: "kv_fit H s f v" and key: "value_key H v = Some key"
    and v: "(\<exists>n. v = VInt n) \<or> (\<exists>x. v = VFloat x) \<or> (\<exists>t. v = VString t) \<or> (\<exists>ms. v = VDateTime ms)"
    and op: "op \<noteq> IEq" "op \<noteq> INeq" and string: "kind (s, D) f \<noteq> Some (Reference True) \<or> (\<forall>t. v \<noteq> VString t)"
  shows "ordered_exact (s, D) f VALUE (take 1 key) op key (text_holds op v) = idset D (with_value s f (value_test v (oracle_op op)))"
    and "having (s, D) c f (row_by_key H op v key) = c \<inter> idset D (with_value s f (value_test v (oracle_op op)))"
proof -
  note de = kv_goodD(2) [OF g] and ie = kv_goodD(4) [OF g] and ok = kv_goodD(3) [OF g]
  have both: "ordered_exact (s, D) f VALUE (take 1 key) op key (text_holds op v) = idset D (with_value s f (value_test v (oracle_op op))) \<and>
      with_value s f (row_by_key H op v key) = with_value s f (value_test v (oracle_op op))"
  proof (cases "\<exists>t. v = VString t")
    case True
    then obtain t where t: "v = VString t" by blast
    have none: "position w = None" if "w \<in> set (values_at s u f)" for u w
      using kind_value [OF g that] kind_position [of w] string t by (cases "w = Nothing") auto
    have p: "text_part VALUE" "region_of VALUE = [char_of (2::nat)]" "text_in VALUE w = (case w of VString x \<Rightarrow> Some x | _ \<Rightarrow> None)" for w
      by (simp_all add: text_part_def region_of_def text_in_def VALUE_def NAME_def)
    have k: "key = region_of VALUE @ text_key H t" using key t p(2) by simp
    have "take 1 key = region_of VALUE" using k p(2) by simp
    moreover have "ordered_exact (s, D) f VALUE (region_of VALUE) op (region_of VALUE @ text_key H t) (text_holds op v) =
        idset D (with_value s f (text_holds op v))"
      by (rule ordered_texts [OF de p(1) op]) (auto simp: text_holds_def t p(3) split: "value.splits")
    ultimately have "ordered_exact (s, D) f VALUE (take 1 key) op key (text_holds op v) = idset D (with_value s f (text_holds op v))"
      using k by simp
    moreover have "with_value s f (text_holds op v) = with_value s f (value_test v (oracle_op op))"
      using none text_holds_test op t by (intro with_value_cong) blast
    moreover have "with_value s f (row_by_key H op v key) = with_value s f (text_holds op v)"
      using row_by_text [of H t key op] key t op by (intro with_value_cong) blast
    ultimately show ?thesis by simp
  next
    case False
    have r: "take 1 key \<noteq> [char_of (2::nat)]" using key False by (cases v) auto
    have "in_order H op key w \<longleftrightarrow> value_test v (oracle_op op) w" if w: "w \<in> set (values_at s u f)" for u w
    proof -
      have fw: "float_ok w" using stored_value(2) [OF ok w] by (simp add: float_ok_def)
      show ?thesis
      proof (cases v)
        case (VInt n)
        then show ?thesis using in_order_number [of v "i64_as_f64 n" w H key op] i64_as_f64_rank(1) fw key op by (simp add: number_of_def value_test_def)
      next
        case (VFloat x)
        then show ?thesis using in_order_number [of v x w H key op] fit_float fit fw key op by (simp add: number_of_def value_test_def)
      next
        case (VDateTime ms)
        then show ?thesis using in_order_date key op by simp
      qed (use v False in auto)
    qed
    then have o: "with_value s f (in_order H op key) = with_value s f (value_test v (oracle_op op))" by (rule with_value_cong)
    moreover have "with_value s f (row_by_key H op v key) = with_value s f (in_order H op key)"
      by (intro with_value_cong row_by_other [OF r])
    ultimately show ?thesis using in_order_set [OF de key r op] by simp
  qed
  then show "ordered_exact (s, D) f VALUE (take 1 key) op key (text_holds op v) = idset D (with_value s f (value_test v (oracle_op op)))" by simp
  show "having (s, D) c f (row_by_key H op v key) = c \<inter> idset D (with_value s f (value_test v (oracle_op op)))"
    using both by (simp add: having_any [OF ie])
qed

definition tested :: "IndexOp \<Rightarrow> value \<Rightarrow> value \<Rightarrow> bool" where
  "tested op v w \<longleftrightarrow> (if op = INeq then w \<noteq> Nothing \<and> \<not> value_test v CEq w else value_test v (oracle_op op) w)"

lemma row_test_value: "row_test op (\<lambda>_. value_test v (oracle_op op)) = (\<lambda>_. tested op v)"
  by (auto simp: row_test_def tested_def fun_eq_iff)

lemma tested_values: "v \<noteq> Nothing \<Longrightarrow> tested op v w \<Longrightarrow> w \<noteq> Nothing"
  by (auto simp: tested_def split: if_splits)

lemma op_cases:
  obtains (eq) "op = IEq" | (neq) "op = INeq" | (ord) "op \<noteq> IEq" "op \<noteq> INeq"
  by blast

lemma usable_kind:
  assumes "usable k v = Inr use" "\<not> use" "w \<noteq> Nothing" "k = kind_of (type_str w)" "k \<noteq> Reference True \<or> (\<forall>t. v \<noteq> VString t)"
    and v: "(\<exists>n. v = VInt n) \<or> (\<exists>x. v = VFloat x) \<or> (\<exists>t. v = VString t) \<or> (\<exists>ms. v = VDateTime ms)"
  shows "\<not> value_test v op w"
  using assms by (cases w) (auto simp: usable_def kind_of_def value_test_def number_pred_def number_of_def text_of_def split: option.splits)

lemma kv_compares:
  assumes g: "kv_good H low (s, D)" and fit: "kv_fit H s f v" and c: "kv_compare H (s, D) f op v r = Inr b"
    and pred: "row_predicate (kv_data s) f v (oracle_op op) AValue = Inr pred"
  shows "restricted r b = restricted r (idset D (with_value s f (tested op v)))"
proof (cases "kind (s, D) f")
  case None
  then have "with_value s f (tested op v) = {}"
    using kind_value [OF g] tested_values [OF row_predicate_value(2) [OF pred]] by (intro with_value_empty) auto
  then show ?thesis using c None by (auto simp: kv_compare_def restricted_def split: option.splits)
next
  case (Some k)
  have v: "v \<noteq> Nothing" by (rule row_predicate_value(2) [OF pred])
  have kw: "k = kind_of (type_str w)" if "w \<in> set (values_at s u f)" "w \<noteq> Nothing" for u w
    using kind_value [OF g that] Some by simp
  show ?thesis
  proof (cases "k = Reference True \<and> (\<exists>t. v = VString t)")
    case True
    then obtain t where t: "v = VString t" by blast
    have "(\<exists>n. name_of w = Some n \<and> matches_ordering op (cmp n t)) \<longleftrightarrow> tested op v w" if w: "w \<in> set (values_at s u f)" for u w
    proof (cases "w = Nothing")
      case True
      then show ?thesis using tested_values [OF v] by (auto simp: name_of_def)
    next
      case False
      then obtain p n where "position w = Some (p, n)" using kw [OF w] kind_position [OF False] True by auto
      then have "name_of w = Some (display n)" "text_of w = Some (display n)" by (cases w; auto simp: name_of_def text_of_def)+
      then show ?thesis using False by (cases op) (auto simp: tested_def t value_test_def matches_ordering_def cmp_holds_def)
    qed
    then have "with_value s f (\<lambda>w. \<exists>n. name_of w = Some n \<and> matches_ordering op (cmp n t)) = with_value s f (tested op v)"
      by (rule with_value_cong)
    moreover have "b = names_compare H (s, D) f op t" using c Some True t by (simp add: kv_compare_def)
    ultimately show ?thesis using names_compare_ids [OF g, of f op t] Some True by simp
  next
    case False
    obtain key where key: "value_key H v = Some key" using v by (cases v) auto
    have none: "position w = None" if "w \<in> set (values_at s u f)" "v = VString t" for u w t
      using kw [OF that(1)] kind_position [of w] False that(2) by (cases "w = Nothing") auto
    have by_key: "by_key H w v \<longleftrightarrow> value_test v CEq w" if "w \<in> set (values_at s u f)" for u w
      by (rule by_key_test [OF kv_goodD(3) [OF g] fit that v none [OF that]])
    define probe where "probe = (case r of None \<Rightarrow> None
      | Some c \<Rightarrow> if op \<noteq> IEq \<and> probes (card c) (card (dv_sets D (PRESENT f))) then Some c else None)"
    have probe: "probe = None \<or> probe = r" by (auto simp: probe_def split: option.splits)
    have c': "(case op of IEq \<Rightarrow> Inr (case value_key H v of None \<Rightarrow> {} | Some key \<Rightarrow> equal_ids (s, D) f key v)
        | INeq \<Rightarrow> Inr (differs_ids H (s, D) f v probe)
        | _ \<Rightarrow> bindE (usable k v) (\<lambda>use. Inr (case value_key H v of None \<Rightarrow> {}
            | Some key \<Rightarrow> if \<not> use then {} else (case probe of Some c \<Rightarrow> having (s, D) c f (row_by_key H op v key)
                | None \<Rightarrow> ordered_exact (s, D) f VALUE (take 1 key) op key (text_holds op v))))) = Inr b"
    proof -
      have "(case v of VString _ \<Rightarrow> True | _ \<Rightarrow> False) \<longleftrightarrow> (\<exists>t. v = VString t)" by (cases v) simp_all
      then have "(k = Reference True \<and> (case v of VString _ \<Rightarrow> True | _ \<Rightarrow> False)) = False" using False by simp
      from c [unfolded kv_compare_def Some option.case this if_False Let_def snd_conv, folded probe_def] show ?thesis .
    qed
    show ?thesis
    proof (cases op rule: op_cases)
      case eq
      have "with_value s f (\<lambda>w. by_key H w v) = with_value s f (tested op v)"
        using by_key eq by (intro with_value_cong) (simp add: tested_def)
      then show ?thesis using c' eq key equal_set [OF g key] by simp
    next
      case neq
      have "with_value s f (\<lambda>w. w \<noteq> Nothing \<and> \<not> by_key H w v) = with_value s f (tested op v)"
        using by_key neq by (intro with_value_cong) (auto simp: tested_def)
      moreover have "b = differs_ids H (s, D) f v probe" using c' neq by simp
      ultimately show ?thesis using differs_set [OF g key, of r f probe] probe by (auto simp: restricted_def split: option.splits if_splits)
    next
      case ord
      obtain use where use: "usable k v = Inr use" and b: "b = (if \<not> use then {} else (case probe of Some c \<Rightarrow> having (s, D) c f (row_by_key H op v key)
                | None \<Rightarrow> ordered_exact (s, D) f VALUE (take 1 key) op key (text_holds op v)))"
        using c' ord key by (cases op) (auto simp: bindE_eq_Inr)
      have vs: "(\<exists>n. v = VInt n) \<or> (\<exists>x. v = VFloat x) \<or> (\<exists>t. v = VString t) \<or> (\<exists>ms. v = VDateTime ms)"
        by (rule row_predicate_value(3) [OF pred]) (use ord in \<open>cases op; simp\<close>)
      have t: "tested op v = value_test v (oracle_op op)" using ord by (simp add: tested_def [abs_def])
      show ?thesis
      proof (cases use)
        case True
        have str: "kind (s, D) f \<noteq> Some (Reference True) \<or> (\<forall>t. v \<noteq> VString t)" using False Some by auto
        note o = ordered_test [OF g fit key vs ord str]
        show ?thesis
        proof (cases probe)
          case None
          then show ?thesis using b True o(1) t by simp
        next
          case (Some c)
          then show ?thesis using b True o(2) [of c] t probe by (auto simp: restricted_def)
        qed
      next
        case no: False
        have "with_value s f (tested op v) = {}"
        proof (rule with_value_empty)
          fix u w assume w: "w \<in> set (values_at s u f)"
          show "\<not> tested op v w"
          proof (cases "w = Nothing")
            case True
            then show ?thesis using tested_values [OF v] by blast
          next
            case ne: False
            then show ?thesis unfolding t using usable_kind [OF use no ne kw [OF w ne] _ vs] False by blast
          qed
        qed
        then show ?thesis using b no by (simp add: restricted_def)
      qed
    qed
  qed
qed

end
