(* ===== verification/Kv_Queries.thy ===== *)
theory Kv_Queries
  imports Kv_Laws
begin

text \<open>
  The other questions of the source, the interpretation of \<open>data_source\<close> on the store, and the queries
  it then answers.
\<close>

section \<open>Same values\<close>

lemma kv_values_id:
  assumes "ids_exact s D" "tget (dv_ids D) u = Some i"
  shows "kv_values (s, D) i f = values_at s u f"
  using assms(2) ids_exactD(1) [OF assms(1)] by (simp add: kv_values_def values_at_def)

lemma kv_shares:
  assumes i: "rows_inv H s"
  shows "shares (kv_data s) f us = with_value s f (\<lambda>v. v \<noteq> Nothing \<and> (\<exists>w\<in>us. \<exists>v'\<in>set (values_at s w f). v' \<noteq> Nothing \<and> value_eq v v'))"
proof -
  have "list_ex (same_value v) (map (\<lambda>(_, r). row_value r) (filter (\<lambda>(u, r). u \<in> us \<and> row_value r \<noteq> Nothing) (d_rows (kv_data s) f))) \<longleftrightarrow>
      (\<exists>w r. (w, r) \<in> set (d_rows (kv_data s) f) \<and> w \<in> us \<and> row_value r \<noteq> Nothing \<and> value_eq v (row_value r))" for v
    by (force simp: list_ex_iff same_value_def)
  also have "\<dots> v \<longleftrightarrow> (\<exists>w\<in>us. \<exists>v'\<in>set (values_at s w f). v' \<noteq> Nothing \<and> value_eq v v')" for v
    by (auto simp: kv_rows_iff [OF i] values_at_def)
  finally show ?thesis unfolding shares_def Let_def kv_holders [OF i] by simp
qed

lemma kv_same_set:
  assumes g: "kv_good H low (s, D)"
  shows "kv_same_as H (s, D) f (idset D us) =
    idset D (with_value s f (\<lambda>v. v \<noteq> Nothing \<and> (\<exists>w\<in>us. \<exists>v'\<in>set (values_at s w f). v' \<noteq> Nothing \<and> value_eq v v')))"
proof -
  note de = kv_goodD(2) [OF g] and ok = kv_goodD(3) [OF g] and ie = kv_goodD(4) [OF g]
  define vs where "vs = concat (map (\<lambda>i. kv_values (s, D) i f) (sorted_list_of_set (idset D us)))"
  define wanted where "wanted = List.map_filter (\<lambda>v. map_option (\<lambda>k. (k, v)) (value_key H v)) vs"
  define live where "live = {w\<in>us. tget (dv_ids D) w \<noteq> None}"
  have vs: "v \<in> set vs \<longleftrightarrow> (\<exists>w\<in>live. v \<in> set (values_at s w f))" for v
  proof -
    have "v \<in> set vs \<longleftrightarrow> (\<exists>i. i \<in> idset D us \<and> v \<in> set (kv_values (s, D) i f))" by (auto simp: vs_def)
    also have "\<dots> \<longleftrightarrow> (\<exists>w\<in>us. \<exists>i. tget (dv_ids D) w = Some i \<and> v \<in> set (kv_values (s, D) i f))" by (auto simp: idset_def)
    also have "\<dots> \<longleftrightarrow> (\<exists>w\<in>live. v \<in> set (values_at s w f))"
    proof -
      have "(\<exists>i. tget (dv_ids D) w = Some i \<and> v \<in> set (kv_values (s, D) i f)) \<longleftrightarrow> tget (dv_ids D) w \<noteq> None \<and> v \<in> set (values_at s w f)" for w
        by (cases "tget (dv_ids D) w") (auto simp: kv_values_id [OF ie])
      then show ?thesis by (auto simp: live_def)
    qed
    finally show ?thesis .
  qed
  have wanted: "(k, v) \<in> set wanted \<longleftrightarrow> v \<in> set vs \<and> value_key H v = Some k" for k v
    by (force simp: wanted_def List.map_filter_def)
  have part: "part_of H VALUE w = value_key H w" for w by (simp add: part_of_def)
  have each: "(let is = bucket D f VALUE k in if is_hashed k then having (s, D) is f (\<lambda>v. list_ex (\<lambda>(k', w). k' = k \<and> value_eq w v) wanted) else is) =
      idset D (with_value s f (\<lambda>w. \<exists>v\<in>set vs. value_key H v = Some k \<and> by_key H w v))" if k: "(k, v0) \<in> set wanted" for k v0
  proof -
    have k0: "value_key H v0 = Some k" "v0 \<in> set vs" using k wanted by auto
    note b = bucket_ids [OF de value_part_key [OF k0(1)], of f, unfolded part]
    have h: "list_ex (\<lambda>(k', w). k' = k \<and> value_eq w v) wanted \<longleftrightarrow> v \<in> set vs \<and> value_key H v = Some k" if "is_hashed k" for v
    proof -
      have "value_eq w v \<longleftrightarrow> w = v" if "value_key H w = Some k" for w
        using hashed_eq [OF that \<open>is_hashed k\<close>, of v] that \<open>is_hashed k\<close> by (cases w; cases v) auto
      then show ?thesis using wanted by (auto simp: list_ex_iff)
    qed
    show ?thesis
    proof (cases "is_hashed k")
      case True
      have "(\<exists>v\<in>set vs. value_key H v = Some k \<and> by_key H w v) \<longleftrightarrow> w \<in> set vs \<and> value_key H w = Some k" for w
      proof -
        have "value_eq w v \<longleftrightarrow> w = v" if "value_key H v = Some k" for v by (rule hashed_eq [OF that True])
        then show ?thesis by (auto simp: by_key_def True)
      qed
      then show ?thesis unfolding b having_set [OF ie] Let_def h [OF True] using True
        by (auto simp: with_value_def intro!: arg_cong [where f = "idset D"])
    next
      case False
      then show ?thesis unfolding b Let_def using k0 by (auto simp: with_value_def by_key_def intro!: arg_cong [where f = "idset D"])
    qed
  qed
  have "kv_same_as H (s, D) f (idset D us) = (\<Union>k\<in>fst ` set wanted. let is = bucket D f VALUE k
      in if is_hashed k then having (s, D) is f (\<lambda>v. list_ex (\<lambda>(k', w). k' = k \<and> value_eq w v) wanted) else is)"
    by (simp only: kv_same_as_def vs_def [symmetric] wanted_def [symmetric] Let_def set_map snd_conv)
  also have "\<dots> = (\<Union>k\<in>fst ` set wanted. idset D (with_value s f (\<lambda>w. \<exists>v\<in>set vs. value_key H v = Some k \<and> by_key H w v)))"
  proof (rule SUP_cong [OF refl])
    fix k assume "k \<in> fst ` set wanted"
    then obtain v0 where "(k, v0) \<in> set wanted" by force
    then show "(let is = bucket D f VALUE k in if is_hashed k then having (s, D) is f (\<lambda>v. list_ex (\<lambda>(k', w). k' = k \<and> value_eq w v) wanted) else is) =
        idset D (with_value s f (\<lambda>w. \<exists>v\<in>set vs. value_key H v = Some k \<and> by_key H w v))" by (rule each)
  qed
  also have "\<dots> = idset D (with_value s f (\<lambda>w. \<exists>v\<in>set vs. by_key H w v))"
  proof -
    have "(\<Union>k\<in>fst ` set wanted. with_value s f (\<lambda>w. \<exists>v\<in>set vs. value_key H v = Some k \<and> by_key H w v)) = with_value s f (\<lambda>w. \<exists>v\<in>set vs. by_key H w v)"
    proof -
      have K: "k \<in> fst ` set wanted \<longleftrightarrow> (\<exists>v\<in>set vs. value_key H v = Some k)" for k
      proof -
        have "k \<in> fst ` set wanted \<longleftrightarrow> (\<exists>v. (k, v) \<in> set wanted)" by force
        then show ?thesis unfolding wanted by auto
      qed
      have B: "\<exists>k. value_key H v = Some k" if "by_key H w v" for w v using that by (auto simp: by_key_def)
      show ?thesis
      proof (intro equalityI subsetI)
        fix u assume "u \<in> with_value s f (\<lambda>w. \<exists>v\<in>set vs. by_key H w v)"
        then obtain w v where w: "w \<in> set (values_at s u f)" "v \<in> set vs" "by_key H w v" unfolding with_value_def by blast
        obtain k where k: "value_key H v = Some k" using B [OF w(3)] by blast
        show "u \<in> (\<Union>k\<in>fst ` set wanted. with_value s f (\<lambda>w. \<exists>v\<in>set vs. value_key H v = Some k \<and> by_key H w v))"
        proof (rule UN_I)
          show "k \<in> fst ` set wanted" unfolding K using w(2) k by blast
          show "u \<in> with_value s f (\<lambda>w. \<exists>v\<in>set vs. value_key H v = Some k \<and> by_key H w v)" unfolding with_value_def using w k by blast
        qed
      qed (unfold with_value_def, blast)
    qed
    then show ?thesis unfolding idset_UN [symmetric] by simp
  qed
  also have "with_value s f (\<lambda>w. \<exists>v\<in>set vs. by_key H w v) =
      with_value s f (\<lambda>v. v \<noteq> Nothing \<and> (\<exists>w\<in>live. \<exists>v'\<in>set (values_at s w f). v' \<noteq> Nothing \<and> value_eq v v'))"
  proof (rule with_value_cong)
    fix u w assume w: "w \<in> set (values_at s u f)"
    have "(\<exists>v\<in>set vs. by_key H w v) \<longleftrightarrow> (\<exists>x\<in>live. \<exists>v\<in>set (values_at s x f). by_key H w v)" using vs by blast
    also have "\<dots> \<longleftrightarrow> (\<exists>x\<in>live. \<exists>v\<in>set (values_at s x f). w \<noteq> Nothing \<and> v \<noteq> Nothing \<and> value_eq w v)"
      by (simp add: by_key_same [OF ok w])
    finally show "(\<exists>v\<in>set vs. by_key H w v) \<longleftrightarrow> w \<noteq> Nothing \<and> (\<exists>x\<in>live. \<exists>v'\<in>set (values_at s x f). v' \<noteq> Nothing \<and> value_eq w v')"
      by blast
  qed
  also have "\<dots> = with_value s f (\<lambda>v. v \<noteq> Nothing \<and> (\<exists>w\<in>us. \<exists>v'\<in>set (values_at s w f). v' \<noteq> Nothing \<and> value_eq v v'))"
  proof -
    have "w \<in> live" if "w \<in> us" "v' \<in> set (values_at s w f)" for w v'
      using values_exist [OF kv_goodD(1) [OF g] that(2)] ids_exactD(2) [OF ie] that(1) by (auto simp: live_def)
    then have "(\<exists>w\<in>live. \<exists>v'\<in>set (values_at s w f). v' \<noteq> Nothing \<and> value_eq v v') \<longleftrightarrow> (\<exists>w\<in>us. \<exists>v'\<in>set (values_at s w f). v' \<noteq> Nothing \<and> value_eq v v')" for v
      by (auto simp: live_def)
    then show ?thesis by simp
  qed
  finally show ?thesis .
qed

section \<open>Searching texts\<close>

lemma windows_start: "set (windows3 l) \<subseteq> set (windows3 (l @ b))"
  by (induction l rule: windows3.induct) auto

lemma windows_end: "set (windows3 l) \<subseteq> set (windows3 (a @ l))"
proof (induction a)
  case (Cons c a)
  have "set (windows3 t) \<subseteq> set (windows3 (c # t))" for t
    by (cases t rule: windows3.cases) auto
  then show ?case using Cons by auto
qed simp

lemma windows_sub: "find_sub l t \<noteq> None \<Longrightarrow> set (windows3 l) \<subseteq> set (windows3 t)"
proof -
  assume "find_sub l t \<noteq> None"
  then obtain a b where "t = a @ l @ b" using find_sub_Some by fastforce
  then show ?thesis using windows_start [of l b] windows_end [of "l @ b" a] by simp
qed

lemma fold_grams:
  "fold (\<lambda>g acc. Some (case acc of None \<Rightarrow> G g | Some c \<Rightarrow> c \<inter> G g)) gs r =
     (if gs = [] then r else Some (restricted r (\<Inter>g\<in>set gs. G g)))"
proof (induction gs arbitrary: r)
  case (Cons g gs)
  then show ?case by (cases r; cases "gs = []") (auto simp: restricted_def)
qed simp

lemma candidates_hold:
  assumes de: "derived_exact H low (s, D)" and keep: "\<And>t. keep t \<Longrightarrow> contains_all ls (low t)" and c: "text_candidates (s, D) f ls r = Some c"
    and t: "\<And>v t. tx v = Some t \<Longrightarrow> search_text low v = Some (low t)"
  shows "tget (dv_ids D) u = Some i \<Longrightarrow> v \<in> set (values_at s u f) \<Longrightarrow> tx v = Some x \<Longrightarrow> keep x \<Longrightarrow> i \<in> restricted r UNIV \<Longrightarrow> i \<in> c"
proof -
  assume i: "tget (dv_ids D) u = Some i" and v: "v \<in> set (values_at s u f)" "tx v = Some x" "keep x" and r: "i \<in> restricted r UNIV"
  note e = derived_exactD [OF de]
  define gs where "gs = remdups (concat (map windows3 ls))"
  have c': "gs \<noteq> []" "c = restricted r (\<Inter>g\<in>set gs. dv_grams D f g) \<union> restricted r (dv_sets D (LONG_TEXTS f))"
    using c by (auto simp: text_candidates_def gs_def [symmetric] Let_def fold_grams split: if_splits)
  have st: "search_text low v = Some (low x)" by (rule t [OF v(2)])
  show "i \<in> c"
  proof (cases "length (low x) \<le> TRIGRAM_MAX")
    case True
    have "g \<in> set (windows3 (low x))" if "g \<in> set gs" for g
      using keep [OF v(3)] windows_sub that unfolding contains_all_def gs_def by fastforce
    then have "short_text_with low g v" if "g \<in> set gs" for g using that True st by (simp add: short_text_with_def)
    then have "i \<in> dv_grams D f g" if "g \<in> set gs" for g
      using e(5) i v(1) that unfolding grams_exact_def by (auto simp: idset_def with_value_def)
    then show ?thesis using c'(2) r by (auto simp: restricted_def split: option.splits)
  next
    case False
    then have "long_text low v" using st by (simp add: long_text_def)
    then have "i \<in> dv_sets D (LONG_TEXTS f)" using i v(1) set_ids [OF de, of "LONG_TEXTS f"] by (auto simp: idset_def with_value_def)
    then show ?thesis using c'(2) r by (auto simp: restricted_def split: option.splits)
  qed
qed

lemma search_text_in:
  assumes "text_in p v = Some t"
  shows "search_text low v = Some (low t)"
proof (cases "p = NAME")
  case True
  then obtain q m where "position v = Some (q, m)" "t = display m" using assms by (auto simp: text_in_def name_of_def)
  then show ?thesis by (cases v) (auto simp: search_text_def)
next
  case False
  then show ?thesis using assms by (cases v) (auto simp: text_in_def search_text_def)
qed

lemma scan_set:
  assumes de: "derived_exact H low (s, D)" and p: "text_part p" and keep: "\<And>t. keep t \<Longrightarrow> contains_all ls (low t)"
  shows "restricted r (kv_scan (s, D) f p (text_in p) keep ls r) =
    restricted r (idset D (with_value s f (\<lambda>v. case text_in p v of None \<Rightarrow> False | Some t \<Rightarrow> keep t)))"
proof -
  note ie = derived_exactD(1) [OF de]
  define matches where "matches v = (case text_in p v of None \<Rightarrow> False | Some t \<Rightarrow> keep t)" for v
  have m: "matches v \<longleftrightarrow> (\<exists>n. text_in p v = Some n \<and> keep n)" for v by (auto simp: matches_def split: option.splits)
  have probe: "restricted r (having (s, D) c f matches) = restricted r (idset D (with_value s f matches))"
    if "\<And>i. i \<in> restricted r (idset D (with_value s f matches)) \<Longrightarrow> i \<in> c" for c
    using that unfolding having_any [OF ie] by (auto simp: restricted_def split: option.splits)
  have keys: "restricted r (scan_keys (s, D) f p matches keep r) = restricted r (idset D (with_value s f matches))"
    unfolding scan_keys_set [OF de p m] by (cases r) (auto simp: restricted_def)
  have scan: "kv_scan (s, D) f p (text_in p) keep ls r = (case text_candidates (s, D) f ls r of
      Some c \<Rightarrow> having (s, D) c f matches
    | None \<Rightarrow> (case r of None \<Rightarrow> scan_keys (s, D) f p matches keep r
        | Some c \<Rightarrow> if probes (card c) (card (dv_sets D (PRESENT f))) then having (s, D) c f matches else scan_keys (s, D) f p matches keep r))"
    by (simp only: kv_scan_def matches_def [abs_def, symmetric] Let_def snd_conv)
  show ?thesis
  proof (cases "text_candidates (s, D) f ls r")
    case (Some c)
    have "i \<in> c" if "i \<in> restricted r (idset D (with_value s f matches))" for i
    proof -
      have i: "i \<in> idset D (with_value s f matches)" "i \<in> restricted r UNIV" using that by (auto simp: restricted_def split: option.splits)
      then obtain u v where u: "tget (dv_ids D) u = Some i" "v \<in> set (values_at s u f)" "matches v" by (auto simp: idset_def with_value_def)
      obtain x where x: "text_in p v = Some x" "keep x" using u(3) m by blast
      show ?thesis by (rule candidates_hold [where tx = "text_in p" and low = low and keep = keep and ls = ls, OF de keep Some search_text_in u(1,2) x i(2)])
    qed
    then show ?thesis using scan Some probe [of c] by (simp add: matches_def [abs_def])
  next
    case None
    show ?thesis
    proof (cases r)
      case None': None
      then show ?thesis using scan None keys by (simp add: matches_def [abs_def])
    next
      case (Some c)
      have "restricted r (having (s, D) c f matches) = restricted r (idset D (with_value s f matches))"
        by (rule probe) (simp add: Some restricted_def)
      then show ?thesis using scan None keys Some by (simp add: matches_def [abs_def])
    qed
  qed
qed

lemma kv_scan_text_set:
  assumes g: "kv_good H low (s, D)" and keep: "\<And>t. keep t \<Longrightarrow> contains_all ls (low t)"
  shows "restricted r (kv_scan_text (s, D) f keep ls r) = restricted r (idset D (with_value s f (text_matches keep)))"
proof -
  note de = kv_goodD(2) [OF g]
  have p: "text_part VALUE" "text_part NAME" by (simp_all add: text_part_def)
  have tv: "text_in VALUE = (\<lambda>v. case v of VString s \<Rightarrow> Some s | _ \<Rightarrow> None)" and tn: "text_in NAME = name_of"
    by (simp_all add: text_in_def [abs_def] VALUE_def NAME_def)
  have k: "w = Nothing \<or> kind (s, D) f = Some (kind_of (type_str w))" if "w \<in> set (values_at s u f)" for u w
    using kind_value [OF g that] by blast
  consider "kind (s, D) f = Some Categorical" | "kind (s, D) f = Some (Reference True)"
    | "kind (s, D) f \<noteq> Some Categorical" "kind (s, D) f \<noteq> Some (Reference True)" by blast
  then show ?thesis
  proof cases
    case 1
    have "with_value s f (\<lambda>v. case text_in VALUE v of None \<Rightarrow> False | Some t \<Rightarrow> keep t) = with_value s f (text_matches keep)"
    proof (rule with_value_cong)
      fix u w assume "w \<in> set (values_at s u f)"
      from k [OF this] show "(case text_in VALUE w of None \<Rightarrow> False | Some t \<Rightarrow> keep t) = text_matches keep w"
        using 1 by (cases w) (auto simp: tv text_matches_def text_of_def kind_of_def)
    qed
    then show ?thesis using 1 scan_set [OF de p(1) keep, where r = r and f = f] by (simp add: kv_scan_text_def tv)
  next
    case 2
    have "with_value s f (\<lambda>v. case text_in NAME v of None \<Rightarrow> False | Some t \<Rightarrow> keep t) = with_value s f (text_matches keep)"
    proof (rule with_value_cong)
      fix u w assume "w \<in> set (values_at s u f)"
      from k [OF this] show "(case text_in NAME w of None \<Rightarrow> False | Some t \<Rightarrow> keep t) = text_matches keep w"
        using 2 by (cases w) (auto simp: tn name_of_def text_matches_def text_of_def kind_of_def)
    qed
    then show ?thesis using 2 scan_set [OF de p(2) keep, where r = r and f = f] by (simp add: kv_scan_text_def kv_scan_names_def tn)
  next
    case 3
    have "with_value s f (text_matches keep) = {}"
    proof (rule with_value_empty)
      fix u w assume "w \<in> set (values_at s u f)"
      from k [OF this] show "\<not> text_matches keep w" using 3 by (cases w) (auto simp: text_matches_def text_of_def kind_of_def)
    qed
    moreover have "kv_scan_text (s, D) f keep ls r = {}" using 3 by (auto simp: kv_scan_text_def split: option.splits Kind.splits)
    ultimately show ?thesis by (simp add: restricted_def)
  qed
qed

section \<open>Forests\<close>

lemma kid_position: "position v = Some (Some u, n) \<Longrightarrow> kid_of u v"
  by (cases v) (auto simp: kid_of_def target_of_def)

lemma kv_descendants_set:
  assumes g: "kv_good H low (s, D)" and us: "us \<subseteq> {u. kv_version s u \<noteq> None}"
  shows "kv_descendants (s, D) f (idset D us) = idset D ((edges s f)\<^sup>+ `` us)"
proof -
  note de = kv_goodD(2) [OF g] and ie = kv_goodD(4) [OF g]
  have z: "ZERO_UUID \<notin> us" using us kv_goodD(3) [OF g] by (auto simp: stored_ok_def)
  have d: "dv_sets D (DESCENDANTS f u) = idset D ((edges s f)\<^sup>+ `` {u})" for u using set_ids [OF de, of "DESCENDANTS f u"] by simp
  define sifted where "sifted = (if 1 < card (idset D us) then idset D us \<inter> dv_sets D (PARENTS f) else idset D us)"
  have "kv_descendants (s, D) f (idset D us) = (\<Union>i\<in>sifted. case tget (dv_uuids D) i of None \<Rightarrow> {} | Some u \<Rightarrow> idset D ((edges s f)\<^sup>+ `` {u}))"
    by (simp only: kv_descendants_def sifted_def d Let_def snd_conv)
  also have "\<dots> = (\<Union>u\<in>us. idset D ((edges s f)\<^sup>+ `` {u}))"
  proof (intro equalityI subsetI)
    fix i assume "i \<in> (\<Union>i\<in>sifted. case tget (dv_uuids D) i of None \<Rightarrow> {} | Some u \<Rightarrow> idset D ((edges s f)\<^sup>+ `` {u}))"
    then obtain j u where j: "j \<in> sifted" "tget (dv_uuids D) j = Some u" "i \<in> idset D ((edges s f)\<^sup>+ `` {u})" by (auto split: option.splits)
    then have "j \<in> idset D us" by (auto simp: sifted_def split: if_splits)
    then have "u \<in> us" using idset_in [OF ie, of u j] j(2) ids_exactD(1) [OF ie] by auto
    then show "i \<in> (\<Union>u\<in>us. idset D ((edges s f)\<^sup>+ `` {u}))" using j(3) by blast
  next
    fix i assume "i \<in> (\<Union>u\<in>us. idset D ((edges s f)\<^sup>+ `` {u}))"
    then obtain u where u: "u \<in> us" "i \<in> idset D ((edges s f)\<^sup>+ `` {u})" by blast
    obtain j where j: "tget (dv_ids D) u = Some j" using ids_exactD(2) [OF ie, of u] us u(1) by auto
    have "j \<in> idset D us" using j u(1) by (auto simp: idset_def)
    moreover have "j \<in> dv_sets D (PARENTS f)"
    proof -
      have "(edges s f)\<^sup>+ `` {u} \<noteq> {}" using u(2) by auto
      then obtain c where "(u, c) \<in> edges s f" by (metis Image_singleton_iff all_not_in_conv converse_tranclE)
      then have "c \<in> with_value s f (kid_of u)" using kid_position by (fastforce simp: edges_def with_value_def)
      then have "u \<in> set_spec H low s (PARENTS f)" by auto
      then show ?thesis using j set_ids [OF de, of "PARENTS f"] by (auto simp: idset_def)
    qed
    ultimately have "j \<in> sifted" by (simp add: sifted_def)
    moreover have "tget (dv_uuids D) j = Some u" using j ids_exactD(1) [OF ie] by simp
    ultimately show "i \<in> (\<Union>i\<in>sifted. case tget (dv_uuids D) i of None \<Rightarrow> {} | Some u \<Rightarrow> idset D ((edges s f)\<^sup>+ `` {u}))"
      using u(2) by force
  qed
  also have "\<dots> = idset D ((edges s f)\<^sup>+ `` us)" unfolding idset_UN [symmetric] by (rule arg_cong [where f = "idset D"]) blast
  finally show ?thesis .
qed

lemma kv_parents_set:
  assumes g: "kv_good H low (s, D)"
  shows "dv_sets D (PARENTS f) = idset D {p. kv_version s p \<noteq> None \<and> (\<exists>c. (p, c) \<in> edges s f)}"
proof -
  note de = kv_goodD(2) [OF g] and ie = kv_goodD(4) [OF g]
  have "dv_sets D (PARENTS f) = idset D {p. \<exists>c. c \<in> with_value s f (kid_of p)}" using set_ids [OF de, of "PARENTS f"] by simp
  also have "\<dots> = idset D {p. kv_version s p \<noteq> None \<and> (\<exists>c. (p, c) \<in> edges s f)}"
  proof (rule idset_cong)
    fix u i assume "tget (dv_ids D) u = Some i"
    then have live: "kv_version s u \<noteq> None" using ids_exactD(2) [OF ie, of u] by simp
    then have "u \<noteq> ZERO_UUID" using kv_goodD(3) [OF g] by (auto simp: stored_ok_def)
    then have "kid_of u v \<longleftrightarrow> (\<exists>n. position v = Some (Some u, n))" for v
      by (cases v) (auto simp: kid_of_def target_of_def split: option.splits)
    then show "u \<in> {p. \<exists>c. c \<in> with_value s f (kid_of p)} \<longleftrightarrow> u \<in> {p. kv_version s p \<noteq> None \<and> (\<exists>c. (p, c) \<in> edges s f)}"
      using live by (simp add: edges_def with_value_def)
  qed
  finally show ?thesis .
qed

section \<open>The store is a data source\<close>

type_synonym kv_state = "(bytes \<Rightarrow> u64) \<times> index_lib \<times> kv"

definition state_good :: "kv_state \<Rightarrow> bool" where
  "state_good = (\<lambda>(H, lib, st). kv_good H (lower lib) st \<and>
     (\<forall>pattern re t. compile lib pattern = Some re \<longrightarrow> re t \<longrightarrow> contains_all (required_literals lib pattern) (lower lib t)))"

definition state_source :: "kv_state \<Rightarrow> source" where
  "state_source = (\<lambda>(H, lib, st). kv_source H st)"

definition state_data :: "kv_state \<Rightarrow> Data" where
  "state_data = (\<lambda>(H, lib, st). kv_data (fst st))"

definition state_fit :: "kv_state \<Rightarrow> string \<Rightarrow> value \<Rightarrow> bool" where
  "state_fit = (\<lambda>(H, lib, st). kv_fit H (fst st))"

definition state_lib :: "kv_state \<Rightarrow> index_lib" where
  "state_lib = (\<lambda>(H, lib, st). lib)"

lemmas state_defs = state_good_def state_source_def state_data_def state_fit_def state_lib_def

lemma state_goodE:
  assumes "state_good x"
  obtains H lib s D where "x = (H, lib, s, D)" "kv_good H (lower lib) (s, D)"
  using assms by (cases x) (auto simp: state_defs)

lemma kv_positions: "rows_inv H s \<Longrightarrow> {p \<in> d_universe (kv_data s). \<exists>c. (p, c) \<in> child_of (forest (kv_data s) f)} = {p. kv_version s p \<noteq> None \<and> (\<exists>c. (p, c) \<in> edges s f)}"
  by (auto simp: kv_universe kv_child_of)

lemma universe_versions: "rows_inv H s \<Longrightarrow> d_universe (kv_data s) = {u. kv_version s u \<noteq> None}"
  using kv_universe [of H s] by blast

interpretation kv: data_source state_source state_data state_lib state_fit state_good
proof (unfold_locales, goal_cases)
  case (1 x)
  then show ?case using kv_data_wf by (auto simp: state_defs kv_good_def)
next
  case (2 x u i)
  then show ?case using ids_exactD(1) kv_goodD(4) by (fastforce simp: state_defs kv_source_def)
next
  case (3 x u)
  then obtain H lib s D where x: "x = (H, lib, s, D)" "kv_good H (lower lib) (s, D)" by (blast elim: state_goodE)
  then show ?case using ids_exactD(2) [OF kv_goodD(4) [OF x(2)], of u] universe_versions [OF kv_goodD(1) [OF x(2)]]
    by (simp add: state_defs kv_source_def)
next
  case (4 x)
  then obtain H lib s D where x: "x = (H, lib, s, D)" "kv_good H (lower lib) (s, D)" by (blast elim: state_goodE)
  then show ?case using set_ids [OF kv_goodD(2) [OF x(2)], of UNIVERSE] universe_versions [OF kv_goodD(1) [OF x(2)]]
    by (simp add: state_defs) (simp add: kv_source_def)
next
  case (5 x f)
  then obtain H lib s D where x: "x = (H, lib, s, D)" "kv_good H (lower lib) (s, D)" by (blast elim: state_goodE)
  then show ?case using set_ids [OF kv_goodD(2) [OF x(2)], of "PRESENT f"]
    by (simp add: state_defs kv_holders [OF kv_goodD(1) [OF x(2)]]) (simp add: kv_source_def)
next
  case (6 x f)
  then obtain H lib s D where x: "x = (H, lib, s, D)" "kv_good H (lower lib) (s, D)" by (blast elim: state_goodE)
  then show ?case using set_ids [OF kv_goodD(2) [OF x(2)], of "ABSENT f"]
    by (simp add: state_defs kv_holders [OF kv_goodD(1) [OF x(2)]]) (simp add: kv_source_def)
next
  case (7 x f)
  then obtain H lib s D where x: "x = (H, lib, s, D)" "kv_good H (lower lib) (s, D)" by (blast elim: state_goodE)
  then show ?case using kv_value_type_data [OF kv_goodD(1,3) [OF x(2)], of D f] by (simp add: state_defs kv_source_def)
next
  case (8 x f)
  then obtain H lib s D where x: "x = (H, lib, s, D)" "kv_good H (lower lib) (s, D)" by (blast elim: state_goodE)
  then show ?case using kv_value_type_data [OF kv_goodD(1,3) [OF x(2)], of D f]
    by (simp add: state_defs kv_source_def kv_follow_def follow_of_def [abs_def] is_position_type_def)
next
  case (9 x f v op r b pred)
  then obtain H lib s D where x: "x = (H, lib, s, D)" "kv_good H (lower lib) (s, D)" by (blast elim: state_goodE)
  have h: "holders (kv_data s) f (row_test op pred) = with_value s f (tested op v)"
    using row_predicate_value(1) [OF 9(4)] row_test_value [where v = v and op = op] kv_holders [OF kv_goodD(1) [OF x(2)], of f "tested op v"] by simp
  have "kv_fit H s f v" "kv_compare H (s, D) f op v r = Inr b" "row_predicate (kv_data s) f v (oracle_op op) AValue = Inr pred"
    using 9(2-4) x(1) by (simp_all add: state_defs) (simp_all add: kv_source_def)
  from kv_compares [OF x(2) this] show ?case using h x(1) by (simp add: state_defs)
next
  case (10 x us f)
  then obtain H lib s D where x: "x = (H, lib, s, D)" "kv_good H (lower lib) (s, D)" by (blast elim: state_goodE)
  then show ?case using kv_same_set [OF x(2), of f us] kv_shares [OF kv_goodD(1) [OF x(2)], of f us]
    by (simp add: state_defs) (simp add: kv_source_def)
next
  case (11 x keep ls r f)
  then obtain H lib s D where x: "x = (H, lib, s, D)" "kv_good H (lower lib) (s, D)" by (blast elim: state_goodE)
  have "restricted r (kv_scan_text (s, D) f keep ls r) = restricted r (idset D (with_value s f (text_matches keep)))"
    by (rule kv_scan_text_set [OF x(2)]) (use 11(2) x(1) in \<open>simp add: state_defs\<close>)
  then show ?case using x(1) kv_holders [OF kv_goodD(1) [OF x(2)]] by (simp add: state_defs) (simp add: kv_source_def)
next
  case (12 x f t)
  then obtain H lib s D where x: "x = (H, lib, s, D)" "kv_good H (lower lib) (s, D)" by (blast elim: state_goodE)
  then show ?case using set_ids [OF kv_goodD(2) [OF x(2)], of "REFERRERS f t"]
    by (simp add: state_defs kv_holders [OF kv_goodD(1) [OF x(2)]]) (simp add: kv_source_def kv_referrers_def Let_def)
next
  case (13 x f)
  then obtain H lib s D where x: "x = (H, lib, s, D)" "kv_good H (lower lib) (s, D)" by (blast elim: state_goodE)
  then show ?case using set_ids [OF kv_goodD(2) [OF x(2)], of "REFERRERS f ZERO_UUID"]
    by (simp add: state_defs kv_holders [OF kv_goodD(1) [OF x(2)]]) (simp add: kv_source_def)
next
  case (14 x f but)
  then obtain H lib s D where x: "x = (H, lib, s, D)" "kv_good H (lower lib) (s, D)" by (blast elim: state_goodE)
  have "keyed H TARGET (\<lambda>k. Some k \<noteq> map_option uuid_to_bytes but) = (\<lambda>v. target_of v \<noteq> None \<and> target_of v \<noteq> but)"
    by (cases but) (auto simp: keyed_def fun_eq_iff part_of_def TARGET_def VALUE_def NAME_def)
  then show ?case using x all_but_ids [OF kv_goodD(2) [OF x(2)], of f TARGET "map_option uuid_to_bytes but"]
    by (simp add: state_defs kv_holders [OF kv_goodD(1) [OF x(2)]]) (simp add: kv_source_def)
next
  case (15 x f)
  then obtain H lib s D where x: "x = (H, lib, s, D)" "kv_good H (lower lib) (s, D)" by (blast elim: state_goodE)
  then show ?case using kv_parents_set [OF x(2), of f] kv_positions [OF kv_goodD(1) [OF x(2)], of f]
    by (simp add: state_defs) (simp add: kv_source_def)
next
  case (16 x us f)
  then obtain H lib s D where x: "x = (H, lib, s, D)" "kv_good H (lower lib) (s, D)" by (blast elim: state_goodE)
  have "us \<subseteq> {u. kv_version s u \<noteq> None}" using 16(2) x(1) universe_versions [OF kv_goodD(1) [OF x(2)]] by (simp add: state_defs)
  from kv_descendants_set [OF x(2) this, of f] show ?case using x(1)
    by (simp add: state_defs kv_child_of [OF kv_goodD(1) [OF x(2)]]) (simp add: kv_source_def)
next
  case (17 x pattern re t)
  then show ?case by (auto simp: state_defs)
qed

end
