(* ===== verification/Derived_Parts.thy ===== *)
theory Derived_Parts
  imports Derived_Exact
begin

text \<open>
  The writes keep the derived key spaces exact: what \<open>derive_row\<close> changes, part by part, is what the row
  that came or went changes in the specification of each.
\<close>

section \<open>The values before and after\<close>

lemma mset_values_at:
  assumes "rows_inv H s"
  shows "mset (values_at s u f) = image_mset snd (filter_mset (\<lambda>(m, _). m = f) (content s u))"
proof -
  have "mset (values_at s u f) = image_mset snd (bag (kv_rows_named s u f))"
    by (simp add: values_at_def bag_def multiset.map_comp comp_def)
  then show ?thesis by (simp add: bag_rows_named [OF assms])
qed

text \<open>\<open>t\<close> holds what \<open>s\<close> holds and the value \<open>v\<close> of \<open>u\<close> besides.\<close>

definition more :: "rowstore \<Rightarrow> rowstore \<Rightarrow> uuid \<Rightarrow> string \<Rightarrow> value \<Rightarrow> bool" where
  "more s t u f v \<longleftrightarrow> (\<forall>w. kv_version s w = None \<longleftrightarrow> kv_version t w = None) \<and>
     (\<forall>w g. mset (values_at t w g) = (if w = u \<and> g = f then add_mset v (mset (values_at s w g)) else mset (values_at s w g)))"

lemma more_insert:
  assumes "insert_row H u f v rid s = Inr (i, t)" "rows_inv H s" "\<forall>j. rid = Some j \<longrightarrow> 0 < j"
  shows "more s t u f v"
  using insert_row_ok(1,2,6) [OF assms] mset_values_at assms(2)
  by (simp add: more_def kv_version_def mset_values_at [OF insert_row_ok(1) [OF assms]] mset_values_at [OF assms(2)])

lemma more_delete:
  assumes "kv_row s i = Some (u, r)" "rows_inv H s"
  shows "more (delete_row H i s) s u (row_name r) (row_value r)"
proof -
  note d = delete_row_ok [OF assms]
  show ?thesis unfolding more_def mset_values_at [OF assms(2)] mset_values_at [OF d(1)] d(5)
    using d(2) by (simp add: kv_version_def)
qed

text \<open>One write: the stores before and after it.\<close>

definition step :: "rowstore \<Rightarrow> rowstore \<Rightarrow> uuid \<Rightarrow> string \<Rightarrow> value \<Rightarrow> int \<Rightarrow> bool" where
  "step s t u f v delta \<longleftrightarrow> delta = 1 \<and> more s t u f v \<or> delta = -1 \<and> more t s u f v"

lemma more_mset: "more s t u f v \<Longrightarrow> mset (values_at t w g) = (if w = u \<and> g = f then add_mset v (mset (values_at s w g)) else mset (values_at s w g))"
  unfolding more_def by blast

lemma more_at: "more s t u f v \<Longrightarrow> set (values_at t u f) = insert v (set (values_at s u f))"
  using arg_cong [OF more_mset [of s t u f v u f], of set_mset] by simp

lemma more_same: "more s t u f v \<Longrightarrow> w \<noteq> u \<or> g \<noteq> f \<Longrightarrow> set (values_at t w g) = set (values_at s w g)"
  using arg_cong [OF more_mset [of s t u f v w g], of set_mset] by (cases "w = u \<and> g = f") (simp_all only: set_mset_mset if_False, blast)

lemma step_version: "step s t u f v delta \<Longrightarrow> kv_version s w = None \<longleftrightarrow> kv_version t w = None"
  by (auto simp: step_def more_def)

lemma step_frame:
  assumes "step s t u f v delta" "w \<noteq> u \<or> g \<noteq> f"
  shows "set (values_at s w g) = set (values_at t w g)"
proof -
  consider "more s t u f v" | "more t s u f v" using assms(1) by (auto simp: step_def)
  then show ?thesis
  proof cases
    case 1 then show ?thesis using more_same assms(2) by (intro more_same [symmetric])
  next
    case 2 then show ?thesis using assms(2) by (intro more_same)
  qed
qed

lemma step_at: "step s t u f v delta \<Longrightarrow> insert v (set (values_at s u f)) = insert v (set (values_at t u f))"
  using more_at [of s t u f v] more_at [of t s u f v] by (auto simp: step_def)

lemma step_member:
  assumes "step s t u f v delta"
  shows "w \<in> with_value t f p \<longleftrightarrow> (if w = u then list_ex p (values_at t u f) else w \<in> with_value s f p)"
  using step_frame [OF assms, of w f] by (auto simp: with_value_def list_ex_iff)

lemma step_other:
  assumes "step s t u f v delta" "g \<noteq> f \<or> \<not> p v"
  shows "with_value t g p = with_value s g p"
proof -
  have "(\<exists>x\<in>set (values_at t w g). p x) \<longleftrightarrow> (\<exists>x\<in>set (values_at s w g). p x)" for w
  proof (cases "w = u \<and> g = f")
    case True
    then show ?thesis using assms(2) step_at [OF assms(1)] by (auto 0 4)
  qed (use step_frame [OF assms(1), of w g] in auto)
  then show ?thesis by (simp add: with_value_def)
qed

lemma step_count:
  assumes "step s t u f v delta"
  shows "int (length (filter p (values_at t w g))) = int (length (filter p (values_at s w g))) + (if w = u \<and> g = f \<and> p v then delta else 0)"
proof -
  have l: "length (filter p xs) = size (filter_mset p (mset xs))" for xs :: "value list"
    by (metis mset_filter size_mset)
  show ?thesis using assms unfolding l step_def more_def by auto
qed

lemma idset_step:
  assumes "step s t u f v delta" "ids_exact s D" "tget (dv_ids D) u = Some i"
  shows "idset D (with_value t f p) = member (list_ex p (values_at t u f)) i (idset D (with_value s f p))"
proof -
  have "j \<in> idset D (with_value t f p) \<longleftrightarrow> j \<in> member (list_ex p (values_at t u f)) i (idset D (with_value s f p))" for j
  proof (cases "\<exists>w. tget (dv_ids D) w = Some j")
    case True
    then obtain w where w: "tget (dv_ids D) w = Some j" by blast
    have "j = i \<longleftrightarrow> w = u" using w assms(3) ids_inj [OF assms(2)] by auto
    then show ?thesis using step_member [OF assms(1), of w p] w idset_in [OF assms(2) w] by (auto simp: member_def)
  next
    case False
    then show ?thesis using assms(3) by (auto simp: idset_def member_def)
  qed
  then show ?thesis by blast
qed

lemma ids_exact_step: "step s t u f v delta \<Longrightarrow> ids_exact s D \<Longrightarrow> ids_exact t D"
proof -
  assume a: "step s t u f v delta" and i: "ids_exact s D"
  have "(kv_version t w \<noteq> None) = (kv_version s w \<noteq> None)" for w using step_version [OF a, of w] by auto
  then show "ids_exact t D" using i unfolding ids_exact_def by presburger
qed

section \<open>Partitions\<close>

lemma tget_bump:
  "tget (bump k delta t) j = (if j = k then (let n = (case tget t k of None \<Rightarrow> 0 | Some c \<Rightarrow> c) + delta in if n \<le> 0 then None else Some n) else tget t j)"
  by (simp add: bump_def Let_def)

lemma ordered_bump [simp]: "ordered t \<Longrightarrow> ordered (bump k delta t)"
  by (simp add: bump_def Let_def)

lemma entry_inject: "i < 2 ^ 32 \<Longrightarrow> j < 2 ^ 32 \<Longrightarrow> k @ id_bytes i = l @ id_bytes j \<longleftrightarrow> k = l \<and> i = j"
  by (metis append_eq_append_conv dense_id_bytes length_id_bytes)

definition holding :: "(bytes \<Rightarrow> u64) \<Rightarrow> rowstore \<Rightarrow> string \<Rightarrow> nat \<Rightarrow> uuid \<Rightarrow> bytes \<Rightarrow> int" where
  "holding H s f p u k = int (length (filter (\<lambda>v. part_of H p v = Some k) (values_at s u f)))"

lemma part_exact_iff:
  "part_exact H s D f p \<longleftrightarrow> (\<forall>t n. tget (dv_parts D) (f, p, t) = Some n \<longleftrightarrow>
     (\<exists>k u i. t = k @ id_bytes i \<and> tget (dv_ids D) u = Some i \<and> 0 < n \<and> n = holding H s f p u k))"
  by (simp add: part_exact_def holding_def)

lemma part_exact_at:
  assumes "part_exact H s D f p" "ids_exact s' D" "tget (dv_ids D) u = Some i"
  shows "tget (dv_parts D) (f, p, k @ id_bytes i) = Some n \<longleftrightarrow> 0 < n \<and> n = holding H s f p u k"
proof -
  have "(\<exists>k' u' i'. k @ id_bytes i = k' @ id_bytes i' \<and> tget (dv_ids D) u' = Some i' \<and> 0 < n \<and> n = holding H s f p u' k') \<longleftrightarrow> 0 < n \<and> n = holding H s f p u k"
  proof
    assume "\<exists>k' u' i'. k @ id_bytes i = k' @ id_bytes i' \<and> tget (dv_ids D) u' = Some i' \<and> 0 < n \<and> n = holding H s f p u' k'"
    then obtain k' u' i' where a: "k @ id_bytes i = k' @ id_bytes i'" "tget (dv_ids D) u' = Some i'" "0 < n" "n = holding H s f p u' k'" by blast
    have "k = k' \<and> i = i'" using a(1) entry_inject [OF ids_exactD(3) [OF assms(2,3)] ids_exactD(3) [OF assms(2) a(2)]] by simp
    moreover from this have "u' = u" using ids_inj [OF assms(2) a(2)] assms(3) by simp
    ultimately show "0 < n \<and> n = holding H s f p u k" using a by simp
  qed (use assms(3) in blast)
  then show ?thesis using assms(1) unfolding part_exact_iff by blast
qed

lemma part_old:
  assumes "part_exact H s D f p" "ids_exact s' D" "tget (dv_ids D) u = Some i"
  shows "(case tget (dv_parts D) (f, p, k @ id_bytes i) of None \<Rightarrow> 0 | Some c \<Rightarrow> c) = holding H s f p u k"
proof (cases "tget (dv_parts D) (f, p, k @ id_bytes i)")
  case None
  then have "\<not> 0 < holding H s f p u k" using part_exact_at [OF assms, of k "holding H s f p u k"] by simp
  then show ?thesis using None by (simp add: holding_def)
next
  case (Some c)
  then show ?thesis using part_exact_at [OF assms, of k c] by simp
qed

lemma holding_step:
  "step s t u f v delta \<Longrightarrow> holding H t g p w k = holding H s g p w k + (if w = u \<and> g = f \<and> part_of H p v = Some k then delta else 0)"
  unfolding holding_def by (rule step_count)

lemma part_same:
  assumes "step s t u f v delta" "g \<noteq> f \<or> part_of H p v = None" "part_exact H s D g p"
    and "\<And>x. tget (dv_parts D') (g, p, x) = tget (dv_parts D) (g, p, x)" "dv_ids D' = dv_ids D"
  shows "part_exact H t D' g p"
proof -
  have "holding H t g p w k = holding H s g p w k" for w k using holding_step [OF assms(1), of H g p w k] assms(2) by auto
  then show ?thesis using assms(3) unfolding part_exact_iff assms(4,5) by simp
qed

lemma part_bump:
  assumes st: "step s t u f v delta" and i: "ids_exact s D" "tget (dv_ids D) u = Some i" and k: "part_of H p v = Some k"
    and pe: "part_exact H s D f p" and o: "ordered (dv_parts D)"
    and D': "\<And>x. tget (dv_parts D') (f, p, x) = tget (bump (f, p, k @ id_bytes i) delta (dv_parts D)) (f, p, x)" "dv_ids D' = dv_ids D"
  shows "part_exact H t D' f p"
proof -
  have "tget (dv_parts D') (f, p, x) = Some n \<longleftrightarrow>
      (\<exists>l w j. x = l @ id_bytes j \<and> tget (dv_ids D) w = Some j \<and> 0 < n \<and> n = holding H t f p w l)" for x n
  proof (cases "x = k @ id_bytes i")
    case True
    have "(\<exists>l w j. x = l @ id_bytes j \<and> tget (dv_ids D) w = Some j \<and> 0 < n \<and> n = holding H t f p w l) \<longleftrightarrow> 0 < n \<and> n = holding H t f p u k"
    proof
      assume "\<exists>l w j. x = l @ id_bytes j \<and> tget (dv_ids D) w = Some j \<and> 0 < n \<and> n = holding H t f p w l"
      then obtain l w j where a: "x = l @ id_bytes j" "tget (dv_ids D) w = Some j" "0 < n \<and> n = holding H t f p w l" by blast
      have "k = l \<and> i = j" using a(1) True entry_inject [OF ids_exactD(3) [OF i] ids_exactD(3) [OF i(1) a(2)], of k l] by simp
      moreover from this have "w = u" using ids_inj [OF i(1) a(2)] i(2) by simp
      ultimately show "0 < n \<and> n = holding H t f p u k" using a(3) by simp
    next
      assume "0 < n \<and> n = holding H t f p u k"
      then show "\<exists>l w j. x = l @ id_bytes j \<and> tget (dv_ids D) w = Some j \<and> 0 < n \<and> n = holding H t f p w l" using True i(2) by blast
    qed
    moreover have "holding H t f p u k = holding H s f p u k + delta" using holding_step [OF st, of H f p u k] k by simp
    moreover have "tget (dv_parts D') (f, p, x) = (let n = holding H s f p u k + delta in if n \<le> 0 then None else Some n)"
      unfolding D'(1) tget_bump True part_old [OF pe i] by simp
    ultimately show ?thesis by (auto simp: Let_def)
  next
    case False
    have h: "holding H t f p w l = holding H s f p w l" if "x = l @ id_bytes j" "tget (dv_ids D) w = Some j" for l w j
    proof -
      have "\<not> (w = u \<and> l = k)" using False that i(2) by auto
      then show ?thesis using holding_step [OF st, of H f p w l] k by auto
    qed
    then have "(\<exists>l w j. x = l @ id_bytes j \<and> tget (dv_ids D) w = Some j \<and> 0 < n \<and> n = holding H t f p w l) \<longleftrightarrow>
        (\<exists>l w j. x = l @ id_bytes j \<and> tget (dv_ids D) w = Some j \<and> 0 < n \<and> n = holding H s f p w l)" by (metis h)
    moreover have "tget (dv_parts D') (f, p, x) = tget (dv_parts D) (f, p, x)" using False unfolding D'(1) tget_bump by simp
    ultimately show ?thesis using pe unfolding part_exact_iff by simp
  qed
  then show ?thesis unfolding part_exact_iff D'(2) by blast
qed

section \<open>Postings\<close>

text \<open>The entries of one value key, in the partition of the values.\<close>

lemma key_entries:
  assumes pe: "part_exact H t D f VALUE" "ordered (dv_parts D)" and k: "value_key H v = Some k"
  shows "x \<in> set (filter (prefix k) (part_tails D f VALUE)) \<longleftrightarrow>
    (\<exists>w j. x = k @ id_bytes j \<and> tget (dv_ids D) w = Some j \<and> w \<in> with_value t f (\<lambda>v. value_key H v = Some k))"
proof -
  have p: "part_of H VALUE w = value_key H w" for w by (simp add: part_of_def)
  have one: "l = k" if pr: "prefix k (l @ id_bytes j)" and w: "w \<in> with_value t f (\<lambda>v. value_key H v = Some l)" for l j w
  proof -
    from pr obtain z where "l @ id_bytes j = k @ z" unfolding prefix_def by blast
    moreover obtain y where "value_key H y = Some l" using w unfolding with_value_def by blast
    ultimately show ?thesis using value_key_free [of H y l v k "id_bytes j" z] k by simp
  qed
  show ?thesis
  proof
    assume "x \<in> set (filter (prefix k) (part_tails D f VALUE))"
    then obtain l w j where a: "prefix k x" "x = l @ id_bytes j" "tget (dv_ids D) w = Some j" "w \<in> with_value t f (\<lambda>v. value_key H v = Some l)"
      unfolding set_filter mem_Collect_eq part_tails_iff [OF pe(2,1)] p by blast
    then have "l = k" using one by blast
    then show "\<exists>w j. x = k @ id_bytes j \<and> tget (dv_ids D) w = Some j \<and> w \<in> with_value t f (\<lambda>v. value_key H v = Some k)" using a by blast
  next
    assume "\<exists>w j. x = k @ id_bytes j \<and> tget (dv_ids D) w = Some j \<and> w \<in> with_value t f (\<lambda>v. value_key H v = Some k)"
    then show "x \<in> set (filter (prefix k) (part_tails D f VALUE))"
      unfolding set_filter mem_Collect_eq part_tails_iff [OF pe(2,1)] p by auto
  qed
qed

lemma value_holders_all:
  assumes "part_exact H t D f VALUE" "ordered (dv_parts D)" "value_key H v = Some k" "ids_exact s D"
  shows "value_holders D f k None = idset D (with_value t f (\<lambda>v. value_key H v = Some k))"
proof -
  have "value_holders D f k None = (\<lambda>x. dense (drop (length k) x)) ` set (filter (prefix k) (part_tails D f VALUE))"
    by (simp add: value_holders_def)
  also have "\<dots> = {j. \<exists>w. tget (dv_ids D) w = Some j \<and> w \<in> with_value t f (\<lambda>v. value_key H v = Some k)}"
    using ids_exactD(3) [OF assms(4)] dense_id_bytes by (auto simp only: image_iff key_entries [OF assms(1-3)] Bex_def) force+
  finally show ?thesis by (auto simp: idset_def)
qed

lemma value_holders_card:
  assumes "part_exact H t D f VALUE" "ordered (dv_parts D)" "value_key H v = Some k" "ids_exact s D"
  shows "card (value_holders D f k (Some n)) = min n (card (value_holders D f k None))"
proof -
  define ts where "ts = filter (prefix k) (part_tails D f VALUE)"
  have inj: "inj_on (\<lambda>x. dense (drop (length k) x)) (set ts)"
  proof (rule inj_onI)
    fix x y assume "x \<in> set ts" "y \<in> set ts" and e: "dense (drop (length k) x) = dense (drop (length k) y)"
    then obtain i j w w' where "x = k @ id_bytes i" "y = k @ id_bytes j" "tget (dv_ids D) w = Some i" "tget (dv_ids D) w' = Some j"
      unfolding ts_def key_entries [OF assms(1-3)] by blast
    then show "x = y" using e ids_exactD(3) [OF assms(4)] dense_id_bytes by simp
  qed
  have "distinct ts" unfolding ts_def using part_tails_sorted [OF assms(2)] by (simp add: strict_sorted_iff)
  then have d: "distinct (map (\<lambda>x. dense (drop (length k) x)) ts)" using inj by (simp add: distinct_map)
  have "value_holders D f k None = set (map (\<lambda>x. dense (drop (length k) x)) ts)"
    "value_holders D f k (Some n) = set (take n (map (\<lambda>x. dense (drop (length k) x)) ts))"
    by (simp_all add: value_holders_def ts_def Let_def)
  then show ?thesis using distinct_card [OF d] distinct_card [OF distinct_take [OF d, of n]] by (simp add: min.commute)
qed

lemma posting_step:
  assumes st: "step s t u f v delta" and i: "ids_exact s D" "tget (dv_ids D) u = Some i" and k: "value_key H v = Some k"
    and pe: "part_exact H t D f VALUE" "ordered (dv_parts D)" and old: "set_exact H low s D (POSTINGS f k)"
  shows "set_exact H low t (derive_posting f k i D) (POSTINGS f k)"
    and "key \<noteq> POSTINGS f k \<Longrightarrow> dv_sets (derive_posting f k i D) key = dv_sets D key"
    and "dv_ids (derive_posting f k i D) = dv_ids D" "dv_uuids (derive_posting f k i D) = dv_uuids D" "next_id (derive_posting f k i D) = next_id D"
      "dv_parts (derive_posting f k i D) = dv_parts D" "dv_kids (derive_posting f k i D) = dv_kids D" "dv_grams (derive_posting f k i D) = dv_grams D"
proof -
  define S where "S x = idset D (with_value x f (\<lambda>v. value_key H v = Some k))" for x
  define held where "held \<longleftrightarrow> tget (dv_parts D) (f, VALUE, k @ id_bytes i) \<noteq> None"
  have h: "held \<longleftrightarrow> list_ex (\<lambda>v. value_key H v = Some k) (values_at t u f)"
  proof -
    have p: "part_of H VALUE w = value_key H w" for w by (simp add: part_of_def)
    have "held \<longleftrightarrow> 0 < holding H t f VALUE u k" unfolding held_def using part_exact_at [OF pe(1) i, of k] by auto
    then show ?thesis by (auto simp: holding_def p list_ex_iff filter_empty_conv)
  qed
  have m: "S t = member held i (S s)" unfolding S_def h by (rule idset_step [OF st i])
  note all = value_holders_all [OF pe k i(1), folded S_def]
  have some: "card (value_holders D f k (Some POSTING_MIN)) = min POSTING_MIN (card (S t))"
    unfolding value_holders_card [OF pe k i(1)] all ..
  have fin: "finite (S s)" by (simp add: S_def)
  have old': "dv_sets D (POSTINGS f k) = S s \<or> dv_sets D (POSTINGS f k) = {} \<and> card (S s) < POSTING_MIN"
    using old by (auto simp: set_exact_def S_def)
  have def: "derive_posting f k i D = (if dv_sets D (POSTINGS f k) \<noteq> {} then set_member (POSTINGS f k) i held D
         else if held \<and> POSTING_MIN \<le> card (S t) then chunk_apply (POSTINGS f k) (S t) True D else D)"
    unfolding derive_posting_def Let_def held_def [symmetric] some all by simp
  have new: "dv_sets (derive_posting f k i D) (POSTINGS f k) = S t \<or>
      dv_sets (derive_posting f k i D) (POSTINGS f k) = {} \<and> card (S t) < POSTING_MIN"
  proof (cases "dv_sets D (POSTINGS f k) = {}")
    case True
    show ?thesis
    proof (cases "held \<and> POSTING_MIN \<le> card (S t)")
      case False
      have "card (S t) < POSTING_MIN"
      proof (cases held)
        case no: False
        have "card (S t) \<le> card (S s)" unfolding m using no fin by (intro card_mono) (auto simp: member_def)
        moreover have "card (S s) < POSTING_MIN" using old' True by (auto simp: POSTING_MIN_def)
        ultimately show ?thesis by simp
      qed (use False in auto)
      then show ?thesis using True False def by simp
    qed (use True def in \<open>simp add: chunk_apply_def\<close>)
  next
    case False
    then show ?thesis using old' def m by (auto simp: set_member_def)
  qed
  have ids: "dv_ids (derive_posting f k i D) = dv_ids D" by (simp add: def set_member_def chunk_apply_def)
  then show "set_exact H low t (derive_posting f k i D) (POSTINGS f k)" using new by (auto simp: set_exact_def S_def idset_def)
  show "dv_ids (derive_posting f k i D) = dv_ids D" by (rule ids)
  show "key \<noteq> POSTINGS f k \<Longrightarrow> dv_sets (derive_posting f k i D) key = dv_sets D key"
    "dv_uuids (derive_posting f k i D) = dv_uuids D" "next_id (derive_posting f k i D) = next_id D"
    "dv_parts (derive_posting f k i D) = dv_parts D" "dv_kids (derive_posting f k i D) = dv_kids D" "dv_grams (derive_posting f k i D) = dv_grams D"
    by (simp_all add: def set_member_def chunk_apply_def)
qed

definition same_but :: "derived \<Rightarrow> derived \<Rightarrow> bool" where
  "same_but D E \<longleftrightarrow> dv_ids E = dv_ids D \<and> dv_uuids E = dv_uuids D \<and> next_id E = next_id D"

lemma bump_part_simps [simp]:
  "dv_ids (bump_part f p k i delta D) = dv_ids D" "dv_uuids (bump_part f p k i delta D) = dv_uuids D"
  "next_id (bump_part f p k i delta D) = next_id D" "dv_sets (bump_part f p k i delta D) = dv_sets D"
  "dv_kids (bump_part f p k i delta D) = dv_kids D" "dv_grams (bump_part f p k i delta D) = dv_grams D"
  "dv_parts (bump_part f p k i delta D) = bump (f, p, k @ id_bytes i) delta (dv_parts D)"
  by (simp_all add: bump_part_def)

lemma set_exact_ids: "dv_ids E = dv_ids D \<Longrightarrow> dv_sets E key = dv_sets D key \<Longrightarrow> set_spec H low s key = set_spec H low t key \<Longrightarrow>
    set_exact H low s D key \<Longrightarrow> set_exact H low t E key"
  by (simp add: set_exact_def idset_def)

lemma ids_exact_cong: "dv_ids E = dv_ids D \<Longrightarrow> dv_uuids E = dv_uuids D \<Longrightarrow> next_id E = next_id D \<Longrightarrow> ids_exact s E = ids_exact s D"
  by (simp add: ids_exact_def)

definition opt_bump :: "string \<Rightarrow> nat \<Rightarrow> bytes option \<Rightarrow> nat \<Rightarrow> int \<Rightarrow> derived \<Rightarrow> derived" where
  "opt_bump f p key i delta D = (case key of None \<Rightarrow> D | Some k \<Rightarrow> bump_part f p k i delta D)"

lemma opt_bump_simps [simp]:
  "dv_ids (opt_bump f p key i delta D) = dv_ids D" "dv_uuids (opt_bump f p key i delta D) = dv_uuids D"
  "next_id (opt_bump f p key i delta D) = next_id D" "dv_sets (opt_bump f p key i delta D) = dv_sets D"
  "dv_kids (opt_bump f p key i delta D) = dv_kids D" "dv_grams (opt_bump f p key i delta D) = dv_grams D"
  "ordered (dv_parts D) \<Longrightarrow> ordered (dv_parts (opt_bump f p key i delta D))"
  by (simp_all add: opt_bump_def split: option.split)

lemma opt_bump_other: "(g, q) \<noteq> (f, p) \<Longrightarrow> tget (dv_parts (opt_bump f p key i delta D)) (g, q, x) = tget (dv_parts D) (g, q, x)"
  by (auto simp: opt_bump_def tget_bump split: option.split)

lemma opt_bump_exact:
  assumes st: "step s t u f v delta" and i: "ids_exact s D" "tget (dv_ids D) u = Some i"
    and pe: "part_exact H s D f p" and o: "ordered (dv_parts D)"
  shows "part_exact H t (opt_bump f p (part_of H p v) i delta D) f p"
proof (cases "part_of H p v")
  case None
  then show ?thesis by (intro part_same [OF st _ pe]) (simp_all add: opt_bump_def)
next
  case (Some k)
  then show ?thesis by (intro part_bump [OF st i Some pe o]) (simp_all add: opt_bump_def)
qed

lemma derive_values_parts:
  assumes st: "step s t u f v delta" and i: "ids_exact s D" "tget (dv_ids D) u = Some i"
    and pe: "parts_exact H s D" and old: "\<And>key. set_exact H low s D key"
  defines "E \<equiv> derive_values H f v i delta D"
  shows "parts_exact H t E" "set_exact H low t E (POSTINGS g k)" "(\<And>g k. key \<noteq> POSTINGS g k) \<Longrightarrow> dv_sets E key = dv_sets D key"
    and "dv_ids E = dv_ids D" "dv_uuids E = dv_uuids D" "next_id E = next_id D" "dv_kids E = dv_kids D" "dv_grams E = dv_grams D"
proof -
  note o = pe [unfolded parts_exact_def, THEN conjunct1] and pe = pe [unfolded parts_exact_def, THEN conjunct2, rule_format]
  define D1 where "D1 = opt_bump f VALUE (part_of H VALUE v) i delta D"
  define D2 where "D2 = (case value_key H v of None \<Rightarrow> D1 | Some k \<Rightarrow> derive_posting f k i D1)"
  define D3 where "D3 = opt_bump f NAME (part_of H NAME v) i delta D2"
  have p: "part_of H VALUE v = value_key H v" "part_of H NAME v = name_part_key H v" "part_of H TARGET v = map_option uuid_to_bytes (target_of v)"
    by (simp_all add: part_of_def VALUE_def NAME_def TARGET_def)
  have E: "E = opt_bump f TARGET (part_of H TARGET v) i delta D3"
    by (auto simp: E_def derive_values_def D3_def D2_def D1_def opt_bump_def p Let_def split: option.split)
  have v1: "part_exact H t D1 f VALUE" unfolding D1_def by (rule opt_bump_exact [OF st i pe o])
  have o1: "ordered (dv_parts D1)" by (simp add: D1_def o)
  have i1: "ids_exact s D1" "tget (dv_ids D1) u = Some i" using i ids_exact_cong [of D1 D s] by (simp_all add: D1_def)
  have old1: "set_exact H low s D1 key" for key
    by (rule set_exact_ids [OF _ _ _ old]) (simp_all add: D1_def)
  have rest2: "dv_ids D2 = dv_ids D" "dv_uuids D2 = dv_uuids D" "next_id D2 = next_id D" "dv_parts D2 = dv_parts D1"
      "dv_kids D2 = dv_kids D" "dv_grams D2 = dv_grams D"
    using posting_step(3-8) [OF st i1 _ v1 o1 old1] by (auto simp: D2_def D1_def split: option.split)
  have sets2: "dv_sets D2 key = dv_sets D key" if "\<And>k. value_key H v = Some k \<Longrightarrow> key \<noteq> POSTINGS f k" for key
    using posting_step(2) [OF st i1 _ v1 o1 old1] that by (auto simp: D2_def D1_def split: option.split)
  have rest: "dv_ids E = dv_ids D" "dv_uuids E = dv_uuids D" "next_id E = next_id D" "dv_kids E = dv_kids D" "dv_grams E = dv_grams D" "dv_sets E = dv_sets D2"
    by (simp_all add: E D3_def rest2)
  then show "dv_ids E = dv_ids D" "dv_uuids E = dv_uuids D" "next_id E = next_id D" "dv_kids E = dv_kids D" "dv_grams E = dv_grams D" by simp_all
  show "(\<And>g k. key \<noteq> POSTINGS g k) \<Longrightarrow> dv_sets E key = dv_sets D key" using sets2 rest(6) by simp
  show "set_exact H low t E (POSTINGS g k)"
  proof (cases "g = f \<and> value_key H v = Some k")
    case True
    then have "set_exact H low t (derive_posting f k i D1) (POSTINGS f k)" using posting_step(1) [OF st i1 _ v1 o1 old1] by simp
    then show ?thesis using True rest rest2 by (simp add: set_exact_def idset_def D2_def)
  next
    case False
    then have "set_spec H low s (POSTINGS g k) = set_spec H low t (POSTINGS g k)"
      using step_other [OF st, of g "\<lambda>v. value_key H v = Some k"] by auto
    then show ?thesis using sets2 [of "POSTINGS g k"] False rest by (intro set_exact_ids [OF _ _ _ old]) auto
  qed
  have E_parts: "tget (dv_parts E) (g, q, x) = tget (dv_parts D) (g, q, x)" if "g \<noteq> f \<or> q \<noteq> VALUE \<and> q \<noteq> NAME \<and> q \<noteq> TARGET" for g q x
    using that by (auto simp: E D3_def D1_def rest2 opt_bump_other)
  have "part_exact H t E g q" for g q
  proof (cases "g = f \<and> (q = VALUE \<or> q = NAME \<or> q = TARGET)")
    case False
    have "g \<noteq> f \<or> part_of H q v = None" using False by (auto simp: part_of_def)
    then show ?thesis using False by (intro part_same [OF st _ pe]) (auto simp: E_parts rest)
  next
    case True
    have n: "NAME \<noteq> VALUE" "TARGET \<noteq> VALUE" "TARGET \<noteq> NAME" by (simp_all add: VALUE_def NAME_def TARGET_def)
    have part: "part_exact H t E' f q" if "part_exact H t D' f q" "dv_ids E' = dv_ids D'" "\<And>x. tget (dv_parts E') (f, q, x) = tget (dv_parts D') (f, q, x)" for D' E'
      using that by (simp add: part_exact_def)
    from True consider "q = VALUE" | "q = NAME" | "q = TARGET" by blast
    then show ?thesis
    proof cases
      case 1
      have "dv_ids E = dv_ids D1" "tget (dv_parts E) (f, q, x) = tget (dv_parts D1) (f, q, x)" for x
        using 1 n by (simp_all add: rest D1_def) (simp add: E D3_def rest2 D1_def opt_bump_other)
      then show ?thesis using part [of D1 E] v1 True 1 by simp
    next
      case 2
      have "part_exact H s D2 f NAME" using pe [of f NAME] n by (simp add: part_exact_def rest2 D1_def opt_bump_other)
      then have "part_exact H t D3 f NAME" unfolding D3_def using i rest2 o1 ids_exact_cong [of D2 D s]
        by (intro opt_bump_exact [OF st]) simp_all
      moreover have "dv_ids E = dv_ids D3" "tget (dv_parts E) (f, q, x) = tget (dv_parts D3) (f, q, x)" for x
        using 2 n by (simp_all add: rest D3_def rest2) (simp add: E D3_def opt_bump_other)
      ultimately show ?thesis using part [of D3 E] True 2 by simp
    next
      case 3
      have "part_exact H s D3 f TARGET" using pe [of f TARGET] n by (simp add: part_exact_def D3_def rest2 D1_def opt_bump_other)
      moreover have "dv_ids D3 = dv_ids D" "ids_exact s D3" "ordered (dv_parts D3)"
        using i(1) o1 ids_exact_cong [of D3 D s] by (simp_all add: D3_def rest2)
      ultimately show ?thesis using True 3 i(2) opt_bump_exact [OF st, of D3 i H TARGET] unfolding E by simp
    qed
  qed
  then show "parts_exact H t E" using o1 by (simp add: parts_exact_def E D3_def rest2)
qed

end
