(* ===== verification/Derived_Sets.thy ===== *)
theory Derived_Sets
  imports Derived_Parts
begin

text \<open>
  The writes keep the derived key spaces exact, continued: the children under a parent, the sets of a
  field and its trigrams.
\<close>

section \<open>Children\<close>

definition kids_at :: "rowstore \<Rightarrow> uuid \<Rightarrow> string \<Rightarrow> uuid \<Rightarrow> int" where
  "kids_at s p f u = int (length (filter (kid_of p) (values_at s u f)))"

lemma kids_exact_iff:
  "kids_exact s D \<longleftrightarrow> ordered (dv_kids D) \<and> (\<forall>p f i n. tget (dv_kids D) (p, f, i) = Some n \<longleftrightarrow>
     (\<exists>u. tget (dv_ids D) u = Some i \<and> 0 < n \<and> n = kids_at s p f u))"
  by (simp add: kids_exact_def kids_at_def)

lemma kids_at_step:
  "step s t u f v delta \<Longrightarrow> kids_at t p g w = kids_at s p g w + (if w = u \<and> g = f \<and> kid_of p v then delta else 0)"
  unfolding kids_at_def by (rule step_count)

lemma kids_exact_get:
  assumes "kids_exact s D" "ids_exact s' D" "tget (dv_ids D) u = Some i"
  shows "tget (dv_kids D) (p, f, i) = Some n \<longleftrightarrow> 0 < n \<and> n = kids_at s p f u"
proof -
  have "tget (dv_kids D) (p, f, i) = Some n \<longleftrightarrow> (\<exists>u. tget (dv_ids D) u = Some i \<and> 0 < n \<and> n = kids_at s p f u)"
    using assms(1) unfolding kids_exact_iff by blast
  moreover have "w = u" if "tget (dv_ids D) w = Some i" for w by (rule ids_inj [OF assms(2) that assms(3)])
  ultimately show ?thesis using assms(3) by blast
qed

lemma kids_old:
  assumes "kids_exact s D" "ids_exact s' D" "tget (dv_ids D) u = Some i"
  shows "(case tget (dv_kids D) (p, f, i) of None \<Rightarrow> 0 | Some c \<Rightarrow> c) = kids_at s p f u"
proof (cases "tget (dv_kids D) (p, f, i)")
  case None
  then have "\<not> 0 < kids_at s p f u" using kids_exact_get [OF assms, of p f "kids_at s p f u"] by simp
  then show ?thesis using None by (simp add: kids_at_def)
next
  case (Some c)
  then show ?thesis using kids_exact_get [OF assms, of p f c] by simp
qed

lemma kids_same:
  assumes "step s t u f v delta" "position v = None" "kids_exact s D"
  shows "kids_exact t D"
proof -
  have "\<not> kid_of p v" for p using assms(2) by (simp add: kid_of_def)
  then have "kids_at t p g w = kids_at s p g w" for p g w using kids_at_step [OF assms(1)] by simp
  then show ?thesis using assms(3) by (simp add: kids_exact_iff)
qed

lemma kids_bump:
  assumes st: "step s t u f v delta" and i: "ids_exact s D" "tget (dv_ids D) u = Some i" and k: "kid_of p v"
    and ke: "kids_exact s D"
  shows "kids_exact t (D\<lparr>dv_kids := bump (p, f, i) delta (dv_kids D)\<rparr>)"
proof -
  have one: "kid_of q v \<longleftrightarrow> q = p" for q using k by (auto simp: kid_of_def)
  have "tget (bump (p, f, i) delta (dv_kids D)) (q, g, j) = Some n \<longleftrightarrow> (\<exists>w. tget (dv_ids D) w = Some j \<and> 0 < n \<and> n = kids_at t q g w)" for q g j n
  proof (cases "(q, g, j) = (p, f, i)")
    case True
    have w: "w = u" if "tget (dv_ids D) w = Some i" for w by (rule ids_inj [OF i(1) that i(2)])
    have "(\<exists>w. tget (dv_ids D) w = Some j \<and> 0 < n \<and> n = kids_at t q g w) \<longleftrightarrow> 0 < n \<and> n = kids_at t p f u" using True i(2) w by blast
    moreover have "kids_at t p f u = kids_at s p f u + delta" using kids_at_step [OF st, of p f u] k by simp
    moreover have "tget (bump (p, f, i) delta (dv_kids D)) (q, g, j) = (let n = kids_at s p f u + delta in if n \<le> 0 then None else Some n)"
      using True by (simp add: tget_bump kids_old [OF ke i])
    ultimately show ?thesis by (auto simp: Let_def)
  next
    case False
    have h: "kids_at t q g w = kids_at s q g w" if "tget (dv_ids D) w = Some j" for w
    proof -
      have "\<not> (w = u \<and> g = f \<and> q = p)" using False that i(2) by auto
      then show ?thesis using kids_at_step [OF st, of q g w] one by auto
    qed
    have "tget (dv_kids D) (q, g, j) = Some n \<longleftrightarrow> (\<exists>w. tget (dv_ids D) w = Some j \<and> 0 < n \<and> n = kids_at s q g w)"
      using ke unfolding kids_exact_iff by blast
    also have "\<dots> \<longleftrightarrow> (\<exists>w. tget (dv_ids D) w = Some j \<and> 0 < n \<and> n = kids_at t q g w)" by (metis h)
    finally show ?thesis using False unfolding tget_bump by (simp only: if_False)
  qed
  then show ?thesis using ke by (simp add: kids_exact_iff)
qed

lemma has_kids_iff:
  assumes "kids_exact t D"
  shows "has_kids D p f \<longleftrightarrow> (\<exists>c i. tget (dv_ids D) c = Some i \<and> c \<in> with_value t f (kid_of p))"
proof -
  have o: "ordered (dv_kids D)" using assms by (simp add: kids_exact_iff)
  have "has_kids D p f \<longleftrightarrow> (\<exists>i n. tget (dv_kids D) (p, f, i) = Some n)"
  proof -
    have "has_kids D p f \<longleftrightarrow> (\<exists>e. e \<in> set (tscan (\<lambda>(q, g, _). q = p \<and> g = f) (dv_kids D)))"
      unfolding has_kids_def by (cases "tscan (\<lambda>(q, g, _). q = p \<and> g = f) (dv_kids D)") auto
    also have "\<dots> \<longleftrightarrow> (\<exists>q g i n. ((q, g, i), n) \<in> set (tscan (\<lambda>(q, g, _). q = p \<and> g = f) (dv_kids D)))" by force
    finally show ?thesis by (auto simp: in_tscan [OF o])
  qed
  also have "\<dots> \<longleftrightarrow> (\<exists>i n c. tget (dv_ids D) c = Some i \<and> 0 < n \<and> n = kids_at t p f c)" using assms unfolding kids_exact_iff by blast
  also have "\<dots> \<longleftrightarrow> (\<exists>i c. tget (dv_ids D) c = Some i \<and> 0 < kids_at t p f c)" by blast
  finally show ?thesis by (auto simp: kids_at_def with_value_def filter_empty_conv)
qed

lemma derive_kids_step:
  assumes st: "step s t u f v delta" and i: "ids_exact s D" "tget (dv_ids D) u = Some i" and ke: "kids_exact s D"
    and old: "\<And>g. set_exact H low s D (PARENTS g)" and live: "\<forall>w. \<forall>x\<in>set (values_at t w f). tget (dv_ids D) w \<noteq> None"
  defines "E \<equiv> derive_kids f v i delta D"
  shows "kids_exact t E" "set_exact H low t E (PARENTS g)" "(\<And>g. key \<noteq> PARENTS g) \<Longrightarrow> dv_sets E key = dv_sets D key"
    and "dv_ids E = dv_ids D" "dv_uuids E = dv_uuids D" "next_id E = next_id D" "dv_parts E = dv_parts D" "dv_grams E = dv_grams D"
proof -
  define parents where "parents x g = {p. \<exists>c. c \<in> with_value x g (kid_of p)}" for x g
  have P: "dv_sets D (PARENTS g) = idset D (parents s g)" for g using old [of g] by (auto simp: set_exact_def parents_def)
  have "kids_exact t E \<and> dv_sets E (PARENTS g) = idset D (parents t g) \<and> ((\<forall>g. key \<noteq> PARENTS g) \<longrightarrow> dv_sets E key = dv_sets D key) \<and>
      dv_ids E = dv_ids D \<and> dv_uuids E = dv_uuids D \<and> next_id E = next_id D \<and> dv_parts E = dv_parts D \<and> dv_grams E = dv_grams D" for g key
  proof (cases "position v = None")
    case True
    then have "parents t g = parents s g" for g
      using step_other [OF st, of g "kid_of _"] by (auto simp: parents_def kid_of_def)
    then show ?thesis using True kids_same [OF st True ke] P by (simp add: E_def derive_kids_def)
  next
    case False
    then obtain p where p: "target_of v = Some p" by (cases v) (auto simp: target_of_def)
    have k: "kid_of q v \<longleftrightarrow> q = p" for q using False p by (auto simp: kid_of_def)
    define D1 where "D1 = D\<lparr>dv_kids := bump (p, f, i) delta (dv_kids D)\<rparr>"
    have kt: "kids_exact t D1" unfolding D1_def by (rule kids_bump [OF st i _ ke]) (simp add: k)
    have E: "E = (case tget (dv_ids D) p of None \<Rightarrow> D1 | Some pid \<Rightarrow> set_member (PARENTS f) pid (0 < delta \<or> has_kids D1 p f) D1)"
      using False p unfolding D1_def by (simp add: E_def derive_kids_def Let_def del: not_None_eq)
    have others: "q \<in> parents t g \<longleftrightarrow> q \<in> parents s g" if "q \<noteq> p \<or> g \<noteq> f" for q g
      using step_other [OF st, of g "kid_of q"] k that by (auto simp: parents_def)
    have has: "0 < delta \<or> has_kids D1 p f \<longleftrightarrow> p \<in> parents t f"
    proof -
      have "has_kids D1 p f \<longleftrightarrow> p \<in> parents t f"
        using has_kids_iff [OF kt] live by (fastforce simp: parents_def D1_def with_value_def)
      moreover have "p \<in> parents t f" if "0 < delta"
      proof -
        have "more s t u f v" using st that by (auto simp: step_def)
        then have "v \<in> set (values_at t u f)" using more_at by blast
        then show ?thesis using k by (auto simp: parents_def with_value_def)
      qed
      ultimately show ?thesis by blast
    qed
    show ?thesis
    proof (cases "tget (dv_ids D) p")
      case None
      have "idset D (parents t g) = idset D (parents s g)"
      proof (rule idset_cong)
        fix w j assume "tget (dv_ids D) w = Some j"
        then have "w \<noteq> p" using None by auto
        then show "w \<in> parents t g \<longleftrightarrow> w \<in> parents s g" by (intro others) simp
      qed
      then show ?thesis using None E P kt by (simp add: D1_def)
    next
      case (Some pid)
      have "idset D (parents t f) = member (p \<in> parents t f) pid (idset D (parents s f))"
      proof -
        have "j \<in> idset D (parents t f) \<longleftrightarrow> j \<in> member (p \<in> parents t f) pid (idset D (parents s f))" for j
        proof (cases "\<exists>w. tget (dv_ids D) w = Some j")
          case True
          then obtain w where w: "tget (dv_ids D) w = Some j" by blast
          have "j = pid \<longleftrightarrow> w = p" using w Some ids_inj [OF i(1)] by auto
          then show ?thesis using others [of w f] w idset_in [OF i(1) w] by (auto simp: member_def)
        qed (use Some in \<open>auto simp: idset_def member_def\<close>)
        then show ?thesis by blast
      qed
      moreover have "parents t g = parents s g" if "g \<noteq> f" using others that by blast
      moreover have "dv_sets E = (dv_sets D)(PARENTS f := member (p \<in> parents t f) pid (idset D (parents s f)))"
        using Some E has P by (simp add: D1_def set_member_def)
      ultimately have "dv_sets E (PARENTS g) = idset D (parents t g)" "(\<forall>g. key \<noteq> PARENTS g) \<longrightarrow> dv_sets E key = dv_sets D key"
        using P by (cases "g = f"; simp)+
      moreover have "kids_exact t E" using kt E Some by (simp add: kids_exact_def set_member_def)
      ultimately show ?thesis using E Some by (simp add: D1_def set_member_def)
    qed
  qed
  note a = this
  show "kids_exact t E" "(\<And>g. key \<noteq> PARENTS g) \<Longrightarrow> dv_sets E key = dv_sets D key" "dv_ids E = dv_ids D" "dv_uuids E = dv_uuids D" "next_id E = next_id D" "dv_parts E = dv_parts D" "dv_grams E = dv_grams D"
    using a by blast+
  show "set_exact H low t E (PARENTS g)" using a by (simp add: set_exact_def parents_def idset_def)
qed

section \<open>The sets of a field\<close>

lemma idset_member:
  assumes "ids_exact s D" "tget (dv_ids D) u = Some i" "\<And>w. w \<noteq> u \<Longrightarrow> w \<in> A \<longleftrightarrow> w \<in> B"
  shows "idset D A = member (u \<in> A) i (idset D B)"
proof -
  have "j \<in> idset D A \<longleftrightarrow> j \<in> member (u \<in> A) i (idset D B)" for j
  proof (cases "\<exists>w. tget (dv_ids D) w = Some j")
    case True
    then obtain w where w: "tget (dv_ids D) w = Some j" by blast
    have "j = i \<longleftrightarrow> w = u" using w assms(2) ids_inj [OF assms(1)] by auto
    then show ?thesis using assms(3) [of w] w idset_in [OF assms(1) w] by (auto simp: member_def)
  qed (use assms(2) in \<open>auto simp: idset_def member_def\<close>)
  then show ?thesis by blast
qed

lemma multi_step:
  assumes "step s t u f v delta" "ids_exact s D" "tget (dv_ids D) u = Some i"
  shows "idset D (set_spec H low t (MULTI f)) = member (1 < length (filter (\<lambda>v. v \<noteq> Nothing) (values_at t u f))) i (idset D (set_spec H low s (MULTI f)))"
    and "g \<noteq> f \<Longrightarrow> set_spec H low t (MULTI g) = set_spec H low s (MULTI g)"
proof -
  have c: "length (filter (\<lambda>v. v \<noteq> Nothing) (values_at t w g)) = length (filter (\<lambda>v. v \<noteq> Nothing) (values_at s w g))" if "w \<noteq> u \<or> g \<noteq> f" for w g
    using step_count [OF assms(1), of "\<lambda>v. v \<noteq> Nothing" w g] that by auto
  show "idset D (set_spec H low t (MULTI f)) = member (1 < length (filter (\<lambda>v. v \<noteq> Nothing) (values_at t u f))) i (idset D (set_spec H low s (MULTI f)))"
    using idset_member [OF assms(2,3), of "set_spec H low t (MULTI f)" "set_spec H low s (MULTI f)"] c by simp
  show "g \<noteq> f \<Longrightarrow> set_spec H low t (MULTI g) = set_spec H low s (MULTI g)" using c by simp
qed

lemma set_exact_plain: "(\<And>g k. key \<noteq> POSTINGS g k) \<Longrightarrow> set_exact H low s D key \<longleftrightarrow> dv_sets D key = idset D (set_spec H low s key)"
  by (auto simp: set_exact_def)

lemma presence_step:
  assumes st: "step s t u f v delta" and i: "ids_exact s D" "tget (dv_ids D) u = Some i"
  defines "E \<equiv> derive_presence f (values_at t u f) i D"
  shows "set_exact H low s D key \<Longrightarrow> key = PRESENT g \<or> key = ABSENT g \<or> key = MULTI g \<Longrightarrow> set_exact H low t E key"
    and "(\<And>g. key \<noteq> PRESENT g \<and> key \<noteq> ABSENT g \<and> key \<noteq> MULTI g) \<Longrightarrow> dv_sets E key = dv_sets D key"
    and "dv_ids E = dv_ids D" "dv_uuids E = dv_uuids D" "next_id E = next_id D" "dv_parts E = dv_parts D" "dv_kids E = dv_kids D" "dv_grams E = dv_grams D"
proof -
  show ids: "dv_ids E = dv_ids D" and "dv_uuids E = dv_uuids D" "next_id E = next_id D" "dv_parts E = dv_parts D" "dv_kids E = dv_kids D" "dv_grams E = dv_grams D"
    and "(\<And>g. key \<noteq> PRESENT g \<and> key \<noteq> ABSENT g \<and> key \<noteq> MULTI g) \<Longrightarrow> dv_sets E key = dv_sets D key"
    by (simp_all add: E_def derive_presence_def set_member_def)
  assume old: "set_exact H low s D key" and key: "key = PRESENT g \<or> key = ABSENT g \<or> key = MULTI g"
  have D: "dv_sets D key = idset D (set_spec H low s key)" using old key by (subst (asm) set_exact_plain) auto
  have "dv_sets E key = idset D (set_spec H low t key)"
  proof (cases "g = f")
    case True
    then show ?thesis using key D idset_step [OF st i] multi_step(1) [OF st i]
      by (auto simp: E_def derive_presence_def set_member_def simp del: set_spec.simps(9))
  next
    case False
    then have "dv_sets E key = dv_sets D key" using key by (auto simp: E_def derive_presence_def set_member_def)
    moreover have "set_spec H low t key = set_spec H low s key"
      using key False step_other [OF st, of g] multi_step(2) [OF st i, of g] by (auto simp del: set_spec.simps(9))
    ultimately show ?thesis using D by simp
  qed
  moreover have "idset E = idset D" by (simp add: idset_def ids fun_eq_iff)
  ultimately show "set_exact H low t E key" using key by (subst set_exact_plain) auto
qed

lemma referrers_step:
  assumes st: "step s t u f v delta" and i: "ids_exact s D" "tget (dv_ids D) u = Some i"
  defines "E \<equiv> derive_referrers f v (values_at t u f) i D"
  shows "set_exact H low s D (REFERRERS g x) \<Longrightarrow> set_exact H low t E (REFERRERS g x)"
    and "(\<And>g x. key \<noteq> REFERRERS g x) \<Longrightarrow> dv_sets E key = dv_sets D key"
    and "dv_ids E = dv_ids D" "dv_uuids E = dv_uuids D" "next_id E = next_id D" "dv_parts E = dv_parts D" "dv_kids E = dv_kids D" "dv_grams E = dv_grams D"
proof -
  show ids: "dv_ids E = dv_ids D" and "dv_uuids E = dv_uuids D" "next_id E = next_id D" "dv_parts E = dv_parts D" "dv_kids E = dv_kids D" "dv_grams E = dv_grams D"
    and "(\<And>g x. key \<noteq> REFERRERS g x) \<Longrightarrow> dv_sets E key = dv_sets D key"
    by (simp_all add: E_def derive_referrers_def set_member_def split: option.split)
  assume "set_exact H low s D (REFERRERS g x)"
  then have D: "dv_sets D (REFERRERS g x) = idset D (with_value s g (\<lambda>v. target_of v = Some x))" by (simp add: set_exact_plain)
  have "dv_sets E (REFERRERS g x) = idset D (with_value t g (\<lambda>v. target_of v = Some x))"
  proof (cases "g = f \<and> target_of v = Some x")
    case True
    then show ?thesis using D idset_step [OF st i, of "\<lambda>v. target_of v = Some x"] by (simp add: E_def derive_referrers_def set_member_def)
  next
    case False
    then have "dv_sets E (REFERRERS g x) = dv_sets D (REFERRERS g x)" by (auto simp: E_def derive_referrers_def set_member_def split: option.split)
    then show ?thesis using D False step_other [OF st, of g "\<lambda>v. target_of v = Some x"] by auto
  qed
  then show "set_exact H low t E (REFERRERS g x)" by (simp add: set_exact_plain idset_def ids)
qed

lemma fold_grams_member:
  "dv_grams (fold (\<lambda>g. gram_member f g i (g \<in> h)) gs D) = (\<lambda>f' g. if f' = f \<and> g \<in> set gs then member (g \<in> h) i (dv_grams D f' g) else dv_grams D f' g)"
proof (induction gs arbitrary: D)
  case (Cons a gs)
  show ?case unfolding fold_simps comp_def Cons by (auto simp: fun_eq_iff gram_member_def member_def)
qed simp

lemma fold_grams_rest [simp]:
  "dv_ids (fold (\<lambda>g. gram_member f g i (b g)) gs D) = dv_ids D" "dv_uuids (fold (\<lambda>g. gram_member f g i (b g)) gs D) = dv_uuids D"
  "next_id (fold (\<lambda>g. gram_member f g i (b g)) gs D) = next_id D" "dv_parts (fold (\<lambda>g. gram_member f g i (b g)) gs D) = dv_parts D"
  "dv_kids (fold (\<lambda>g. gram_member f g i (b g)) gs D) = dv_kids D" "dv_sets (fold (\<lambda>g. gram_member f g i (b g)) gs D) = dv_sets D"
  by (induction gs arbitrary: D) (simp_all add: gram_member_def)

lemma texts_step:
  assumes st: "step s t u f v delta" and i: "ids_exact s D" "tget (dv_ids D) u = Some i" and grams: "grams_exact low s D"
  defines "E \<equiv> derive_texts low f v (values_at t u f) i D"
  shows "set_exact H low s D (LONG_TEXTS g) \<Longrightarrow> set_exact H low t E (LONG_TEXTS g)" "grams_exact low t E"
    and "(\<And>g. key \<noteq> LONG_TEXTS g) \<Longrightarrow> dv_sets E key = dv_sets D key"
    and "dv_ids E = dv_ids D" "dv_uuids E = dv_uuids D" "next_id E = next_id D" "dv_parts E = dv_parts D" "dv_kids E = dv_kids D"
proof -
  show ids: "dv_ids E = dv_ids D" and "dv_uuids E = dv_uuids D" "next_id E = next_id D" "dv_parts E = dv_parts D" "dv_kids E = dv_kids D"
    and rest: "(\<And>g. key \<noteq> LONG_TEXTS g) \<Longrightarrow> dv_sets E key = dv_sets D key" for key
    by (simp_all add: E_def derive_texts_def set_member_def Let_def split: option.split)
  define texts where "texts = List.map_filter (search_text low) (values_at t u f)"
  have tx: "x \<in> set texts \<longleftrightarrow> (\<exists>w\<in>set (values_at t u f). search_text low w = Some x)" for x
    by (force simp: texts_def List.map_filter_def)
  have long: "list_ex (\<lambda>x. TRIGRAM_MAX < length x) texts \<longleftrightarrow> list_ex (long_text low) (values_at t u f)"
  proof -
    have "long_text low w \<longleftrightarrow> (\<exists>x. search_text low w = Some x \<and> TRIGRAM_MAX < length x)" for w
      by (cases "search_text low w") (simp_all add: long_text_def)
    then show ?thesis unfolding list_ex_iff using tx by blast
  qed
  have short: "g \<in> set (concat (map windows3 (filter (\<lambda>x. length x \<le> TRIGRAM_MAX) texts))) \<longleftrightarrow> list_ex (short_text_with low g) (values_at t u f)" for g
  proof -
    have "short_text_with low g w \<longleftrightarrow> (\<exists>x. search_text low w = Some x \<and> length x \<le> TRIGRAM_MAX \<and> g \<in> set (windows3 x))" for w
      by (cases "search_text low w") (simp_all add: short_text_with_def)
    moreover have "g \<in> set (concat (map windows3 (filter (\<lambda>x. length x \<le> TRIGRAM_MAX) texts))) \<longleftrightarrow>
        (\<exists>x\<in>set texts. length x \<le> TRIGRAM_MAX \<and> g \<in> set (windows3 x))" by auto
    ultimately show ?thesis unfolding list_ex_iff using tx by blast
  qed
  show "set_exact H low t E (LONG_TEXTS g)" if "set_exact H low s D (LONG_TEXTS g)"
  proof -
    have D: "dv_sets D (LONG_TEXTS g) = idset D (with_value s g (long_text low))" using that by (simp add: set_exact_plain)
    have "dv_sets E (LONG_TEXTS g) = idset D (with_value t g (long_text low))"
    proof (cases "g = f \<and> search_text low v \<noteq> None")
      case True
      then obtain x where x: "search_text low v = Some x" by blast
      have "dv_sets E (LONG_TEXTS f) = member (list_ex (long_text low) (values_at t u f)) i (dv_sets D (LONG_TEXTS f))"
        unfolding long [symmetric] by (simp add: E_def derive_texts_def x Let_def set_member_def texts_def)
      then show ?thesis using True D idset_step [OF st i, of "long_text low"] by simp
    next
      case False
      then have "dv_sets E (LONG_TEXTS g) = dv_sets D (LONG_TEXTS g)" by (auto simp: E_def derive_texts_def Let_def set_member_def split: option.split)
      moreover have "g \<noteq> f \<or> \<not> long_text low v" using False by (auto simp: long_text_def)
      ultimately show ?thesis using D step_other [OF st, of g "long_text low"] by simp
    qed
    then show ?thesis by (simp add: set_exact_plain idset_def ids)
  qed
  have "dv_grams E g a = idset D (with_value t g (short_text_with low a))" for g a
  proof -
    have D: "dv_grams D g a = idset D (with_value s g (short_text_with low a))" using grams by (simp add: grams_exact_def)
    show ?thesis
    proof (cases "g = f \<and> short_text_with low a v")
      case True
      then obtain x where x: "search_text low v = Some x" "length x \<le> TRIGRAM_MAX" "a \<in> set (windows3 x)"
        by (auto simp: short_text_with_def split: option.splits)
      have "dv_grams E f a = member (list_ex (short_text_with low a) (values_at t u f)) i (dv_grams D f a)"
        unfolding short [symmetric] using x
        by (simp add: E_def derive_texts_def Let_def set_member_def texts_def fold_grams_member del: set_concat set_map)
      then show ?thesis using True D idset_step [OF st i, of "short_text_with low a"] by simp
    next
      case False
      then have "dv_grams E g a = dv_grams D g a"
        by (auto simp: E_def derive_texts_def Let_def set_member_def fold_grams_member short_text_with_def simp del: set_concat set_map split: option.split)
      moreover have "g \<noteq> f \<or> \<not> short_text_with low a v" using False by blast
      ultimately show ?thesis using D step_other [OF st, of g "short_text_with low a"] by simp
    qed
  qed
  then show "grams_exact low t E" by (simp add: grams_exact_def idset_def ids)
qed

end
