(* ===== verification/Derived_Forest.thy ===== *)
theory Derived_Forest
  imports Derived_Sets
begin

text \<open>
  The writes keep the derived key spaces exact, continued: the nodes below each node, of a tree and of
  a hierarchy.
\<close>

section \<open>Forests\<close>

text \<open>
  What the writers of positions keep (\<open>check_tree_ref\<close>, \<open>check_hierarchy_ref\<close>): positions of one kind in a
  field, none under the zero uuid, and for a tree one position a metarecord and no cycle.
\<close>

definition placed :: "rowstore \<Rightarrow> bool" where
  "placed s \<longleftrightarrow> (\<forall>f u. \<forall>v\<in>set (values_at s u f).
     (\<forall>p n. position v = Some (p, n) \<longrightarrow> p \<noteq> Some ZERO_UUID \<and>
        (\<forall>w. \<forall>v'\<in>set (values_at s w f). position v' \<noteq> None \<longrightarrow> type_str v' = type_str v)) \<and>
     (type_str v = ''tree_ref'' \<longrightarrow> length (filter (\<lambda>v. position v \<noteq> None) (values_at s u f)) \<le> 1 \<and> acyclic (edges s f)))"

definition tree_field :: "rowstore \<Rightarrow> string \<Rightarrow> bool" where
  "tree_field s f \<longleftrightarrow> (\<forall>u. \<forall>v\<in>set (values_at s u f). position v \<noteq> None \<longrightarrow>
     (\<exists>p n. v = VTreeRef p n) \<and> length (filter (\<lambda>v. position v \<noteq> None) (values_at s u f)) \<le> 1)"

definition hierarchy_field :: "rowstore \<Rightarrow> string \<Rightarrow> bool" where
  "hierarchy_field s f \<longleftrightarrow> (\<forall>u. \<forall>v\<in>set (values_at s u f). position v \<noteq> None \<longrightarrow> (\<exists>p n. v = VHierarchyRef p n))"

lemma placedD:
  assumes "placed s" "v \<in> set (values_at s u f)"
  shows "position v = Some (p, n) \<Longrightarrow> p \<noteq> Some ZERO_UUID"
    and "position v \<noteq> None \<Longrightarrow> v' \<in> set (values_at s w f) \<Longrightarrow> position v' \<noteq> None \<Longrightarrow> type_str v' = type_str v"
    and "v = VTreeRef q m \<Longrightarrow> length (filter (\<lambda>v. position v \<noteq> None) (values_at s u f)) \<le> 1 \<and> acyclic (edges s f)"
proof -
  note a = assms(1) [unfolded placed_def, rule_format, OF assms(2)]
  show "position v = Some (p, n) \<Longrightarrow> p \<noteq> Some ZERO_UUID" using a by blast
  show "position v \<noteq> None \<Longrightarrow> v' \<in> set (values_at s w f) \<Longrightarrow> position v' \<noteq> None \<Longrightarrow> type_str v' = type_str v" using a by (metis surj_pair option.exhaust)
  show "v = VTreeRef q m \<Longrightarrow> length (filter (\<lambda>v. position v \<noteq> None) (values_at s u f)) \<le> 1 \<and> acyclic (edges s f)" using a by simp
qed

lemma placed_tree:
  assumes "placed s" "VTreeRef q m \<in> set (values_at s u f)"
  shows "tree_field s f" "acyclic (edges s f)"
proof -
  show "acyclic (edges s f)" using placedD(3) [OF assms] by simp
  show "tree_field s f" unfolding tree_field_def
  proof (intro allI ballI impI)
    fix w v assume v: "v \<in> set (values_at s w f)" "position v \<noteq> None"
    have "type_str v = ''tree_ref''" using placedD(2) [OF assms _ v] by simp
    then have t: "\<exists>p n. v = VTreeRef p n" by (cases v) auto
    then show "(\<exists>p n. v = VTreeRef p n) \<and> length (filter (\<lambda>v. position v \<noteq> None) (values_at s w f)) \<le> 1" using placedD(3) [OF assms(1) v(1)] by blast
  qed
qed

lemma placed_hierarchy:
  assumes "placed s" "VHierarchyRef q m \<in> set (values_at s u f)"
  shows "hierarchy_field s f" unfolding hierarchy_field_def
proof (intro allI ballI impI)
  fix w v assume v: "v \<in> set (values_at s w f)" "position v \<noteq> None"
  have "type_str v = ''hierarchy_ref''" using placedD(2) [OF assms _ v] by simp
  then show "\<exists>p n. v = VHierarchyRef p n" by (cases v) auto
qed

lemma edges_iff: "(p, c) \<in> edges s f \<longleftrightarrow> (\<exists>v\<in>set (values_at s c f). \<exists>n. position v = Some (Some p, n))"
  by (simp add: edges_def with_value_def)

lemma edges_more:
  assumes "more s t u f v"
  shows "edges t g = (if g = f then edges s g \<union> {(p, c). c = u \<and> (\<exists>n. position v = Some (Some p, n))} else edges s g)"
proof -
  have "(p, c) \<in> edges t g \<longleftrightarrow> (p, c) \<in> edges s g \<or> g = f \<and> c = u \<and> (\<exists>n. position v = Some (Some p, n))" for p c
  proof (cases "c = u \<and> g = f")
    case True
    then show ?thesis using more_at [OF assms] by (auto simp: edges_iff)
  next
    case False
    then show ?thesis using more_same [OF assms, of c g] by (auto simp: edges_iff)
  qed
  then show ?thesis by auto
qed

lemma placed_less:
  assumes m: "more s t u f v" and p: "placed t"
  shows "placed s"
proof -
  have sub: "x \<in> set (values_at t w g)" if "x \<in> set (values_at s w g)" for x w g
    using more_at [OF m] more_same [OF m, of w g] that by (cases "w = u \<and> g = f") auto
  have len: "length (filter q (values_at s w g)) \<le> length (filter q (values_at t w g))" for q w g
  proof -
    have l: "length (filter q xs) = size (filter_mset q (mset xs))" for xs :: "value list" by (metis mset_filter size_mset)
    show ?thesis unfolding l more_mset [OF m] by simp
  qed
  have "edges s g \<subseteq> edges t g" for g using edges_more [OF m, of g] by auto
  then have "acyclic (edges t g) \<Longrightarrow> acyclic (edges s g)" for g by (rule acyclic_subset [rotated])
  then show ?thesis using p sub len unfolding placed_def by (meson le_trans)
qed

section \<open>Paths\<close>

lemma star_below: "E\<^sup>* `` {u} = insert u (E\<^sup>+ `` {u})"
  by (auto simp: rtrancl_eq_or_trancl)

lemma below_insert: "(insert (p, u) E)\<^sup>+ `` {a} = E\<^sup>+ `` {a} \<union> (if (a, p) \<in> E\<^sup>* then insert u (E\<^sup>+ `` {u}) else {})"
  unfolding trancl_insert star_below [symmetric] by auto

lemma above_insert: "(a, p) \<in> (insert (p, u) E)\<^sup>* \<longleftrightarrow> (a, p) \<in> E\<^sup>*"
  unfolding rtrancl_insert by auto

lemma below_removed:
  assumes E: "E = insert (p, u) E'" and ac: "acyclic E" and one: "\<And>q q' c. (q, c) \<in> E' \<Longrightarrow> (q', c) \<in> E' \<Longrightarrow> q = q'" and root: "\<And>q. (q, u) \<notin> E'"
  shows "E'\<^sup>+ `` {a} = (if (a, p) \<in> E'\<^sup>* then E\<^sup>+ `` {a} - insert u (E\<^sup>+ `` {u}) else E\<^sup>+ `` {a})"
proof (cases "(a, p) \<in> E'\<^sup>*")
  case True
  have up: "(u, p) \<notin> E'\<^sup>*"
  proof
    assume "(u, p) \<in> E'\<^sup>*"
    then have "(u, u) \<in> E\<^sup>+" using rtrancl_mono [of E' E] E by (meson insertI1 rtrancl_into_trancl1 subset_insertI subset_iff)
    then show False using ac by (simp add: acyclic_def)
  qed
  have u: "E\<^sup>+ `` {u} = E'\<^sup>+ `` {u}" unfolding E below_insert using up by simp
  have "x \<notin> insert u (E'\<^sup>+ `` {u})" if x: "(a, x) \<in> E'\<^sup>+" for x
  proof
    assume "x \<in> insert u (E'\<^sup>+ `` {u})"
    then have ux: "(u, x) \<in> E'\<^sup>*" by (auto simp: rtrancl_eq_or_trancl)
    have "single_valued (E'\<inverse>)" using one by (auto simp: single_valued_def)
    then have "(a, u) \<in> E'\<^sup>* \<or> (u, a) \<in> E'\<^sup>*"
      using single_valued_confluent [of "E'\<inverse>" x a u] ux x by (auto simp: rtrancl_converse dest: trancl_into_rtrancl)
    moreover have "(a, u) \<in> E'\<^sup>* \<Longrightarrow> a = u" using root by (metis rtranclE)
    moreover have "(u, a) \<in> E'\<^sup>* \<Longrightarrow> (u, p) \<in> E'\<^sup>*" using True by (rule rtrancl_trans [rotated])
    ultimately have "(u, p) \<in> E'\<^sup>*" using True by blast
    then show False using up by simp
  qed
  then have "E'\<^sup>+ `` {a} \<inter> insert u (E\<^sup>+ `` {u}) = {}" unfolding u by blast
  moreover have "E\<^sup>+ `` {a} = E'\<^sup>+ `` {a} \<union> insert u (E\<^sup>+ `` {u})" unfolding u unfolding E below_insert using True by simp
  ultimately show ?thesis using True by auto
next
  case False
  then show ?thesis unfolding E below_insert by simp
qed

section \<open>Applying a set to the nodes above\<close>

lemma chunk_apply_simps [simp]:
  "dv_ids (chunk_apply k is add D) = dv_ids D" "dv_uuids (chunk_apply k is add D) = dv_uuids D" "next_id (chunk_apply k is add D) = next_id D"
  "dv_parts (chunk_apply k is add D) = dv_parts D" "dv_kids (chunk_apply k is add D) = dv_kids D" "dv_grams (chunk_apply k is add D) = dv_grams D"
  "dv_sets (chunk_apply k is add D) = (dv_sets D)(k := (if add then dv_sets D k \<union> is else dv_sets D k - is))"
  by (simp_all add: chunk_apply_def)

definition same_rest :: "derived \<Rightarrow> derived \<Rightarrow> bool" where
  "same_rest D E \<longleftrightarrow> dv_ids E = dv_ids D \<and> dv_uuids E = dv_uuids D \<and> next_id E = next_id D \<and> dv_parts E = dv_parts D \<and>
     dv_kids E = dv_kids D \<and> dv_grams E = dv_grams D \<and> (\<forall>k. (\<forall>f n. k \<noteq> DESCENDANTS f n) \<longrightarrow> dv_sets E k = dv_sets D k)"

lemma same_rest_refl [simp]: "same_rest D D"
  by (simp add: same_rest_def)

lemma same_rest_chunk: "same_rest D E \<Longrightarrow> same_rest D (chunk_apply (DESCENDANTS f a) is add E)"
  by (simp add: same_rest_def)

definition apply_to :: "ids \<Rightarrow> bool \<Rightarrow> ids \<Rightarrow> ids" where
  "apply_to moving add is = (if add then is \<union> moving else is - moving)"

lemma apply_to_twice [simp]: "apply_to m add (apply_to m add is) = apply_to m add is"
  by (auto simp: apply_to_def)

lemma tree_parent_edge:
  assumes "tree_field s f"
  shows "tree_parent s f a = Some q \<longleftrightarrow> (q, a) \<in> edges s f"
proof -
  define up where "up v = (case v of VTreeRef parent n \<Rightarrow> parent | _ \<Rightarrow> None)" for v
  have map: "List.map_filter (\<lambda>r. case row_value r of VTreeRef parent _ \<Rightarrow> parent | _ \<Rightarrow> None) (kv_rows_named s a f) =
      List.map_filter up (values_at s a f)"
    by (simp add: values_at_def up_def List.map_filter_def filter_map comp_def)
  have e: "(q, a) \<in> edges s f \<longleftrightarrow> q \<in> set (List.map_filter up (values_at s a f))" for q
  proof -
    have "(\<exists>n. position v = Some (Some q, n)) \<longleftrightarrow> up v = Some q" if "v \<in> set (values_at s a f)" for v
    proof -
      have "position v = None \<or> (\<exists>p n. v = VTreeRef p n)" using assms that unfolding tree_field_def by blast
      then show ?thesis by (cases v) (auto simp: up_def)
    qed
    then show ?thesis by (auto simp: edges_iff List.map_filter_def image_iff)
  qed
  have one: "length (List.map_filter up (values_at s a f)) \<le> 1"
  proof (cases "\<exists>v\<in>set (values_at s a f). position v \<noteq> None")
    case True
    then have l: "length (filter (\<lambda>v. position v \<noteq> None) (values_at s a f)) \<le> 1" using assms unfolding tree_field_def by blast
    have "length (filter (\<lambda>v. up v \<noteq> None) xs) \<le> length (filter (\<lambda>v. position v \<noteq> None) xs)" for xs
      by (induction xs) (auto simp: up_def split: "value.splits")
    then show ?thesis using l by (simp add: List.map_filter_def) (meson le_trans)
  next
    case False
    then have "List.map_filter up (values_at s a f) = []" by (auto simp: List.map_filter_def filter_empty_conv up_def split: "value.splits")
    then show ?thesis by simp
  qed
  show ?thesis unfolding tree_parent_def map e using one by (cases "List.map_filter up (values_at s a f)") auto
qed

lemma climb_sets:
  assumes "\<And>a q. tree_parent s f a = Some q \<longleftrightarrow> (q, a) \<in> E"
  shows "climb fuel s f moving add up D = Inr D' \<Longrightarrow> same_rest D D' \<and>
    (\<forall>g a. dv_sets D' (DESCENDANTS g a) = (if g = f \<and> (\<exists>p. up = Some p \<and> (a, p) \<in> E\<^sup>*) then apply_to moving add (dv_sets D (DESCENDANTS g a)) else dv_sets D (DESCENDANTS g a)))"
proof (induction fuel arbitrary: up D)
  case (Suc fuel)
  show ?case
  proof (cases up)
    case None
    then show ?thesis using Suc(2) by simp
  next
    case (Some b)
    define D1 where "D1 = chunk_apply (DESCENDANTS f b) moving add D"
    have "climb fuel s f moving add (tree_parent s f b) D1 = Inr D'" using Suc(2) Some by (simp add: D1_def)
    note ih = Suc(1) [OF this]
    have step: "(a, b) \<in> E\<^sup>* \<longleftrightarrow> a = b \<or> (\<exists>p. tree_parent s f b = Some p \<and> (a, p) \<in> E\<^sup>*)" for a
      unfolding assms by (auto elim: rtranclE intro: rtrancl_into_rtrancl)
    have "same_rest D D'" using ih by (simp add: same_rest_def D1_def)
    moreover have "dv_sets D' (DESCENDANTS g a) = (if g = f \<and> (\<exists>p. up = Some p \<and> (a, p) \<in> E\<^sup>*) then apply_to moving add (dv_sets D (DESCENDANTS g a)) else dv_sets D (DESCENDANTS g a))" for g a
    proof -
      have d: "dv_sets D1 (DESCENDANTS g a) = (if g = f \<and> a = b then apply_to moving add (dv_sets D (DESCENDANTS g a)) else dv_sets D (DESCENDANTS g a))"
        by (simp add: D1_def apply_to_def)
      show ?thesis using ih [THEN conjunct2, rule_format, of g a] step [of a] unfolding d Some by auto
    qed
    ultimately show ?thesis by blast
  qed
qed simp

lemma fold_chunks:
  "same_rest D (fold (\<lambda>a. chunk_apply (DESCENDANTS f a) moving add) as D) \<and>
    dv_sets (fold (\<lambda>a. chunk_apply (DESCENDANTS f a) moving add) as D) (DESCENDANTS g b) =
      (if g = f \<and> b \<in> set as then apply_to moving add (dv_sets D (DESCENDANTS g b)) else dv_sets D (DESCENDANTS g b))"
proof (induction as arbitrary: D)
  case (Cons a as)
  show ?case using Cons [of "chunk_apply (DESCENDANTS f a) moving add D"] by (auto simp: same_rest_def apply_to_def)
qed simp

section \<open>The nodes above\<close>

lemma hierarchy_parents_edge:
  assumes "hierarchy_field s f"
  shows "q \<in> set (hierarchy_parents s f a) \<longleftrightarrow> (q, a) \<in> edges s f"
proof -
  define up where "up v = (case v of VHierarchyRef parent n \<Rightarrow> parent | _ \<Rightarrow> None)" for v
  have map: "hierarchy_parents s f a = List.map_filter up (values_at s a f)"
    by (simp add: hierarchy_parents_def values_at_def up_def List.map_filter_def filter_map comp_def)
  have "(\<exists>n. position v = Some (Some q, n)) \<longleftrightarrow> up v = Some q" if "v \<in> set (values_at s a f)" for v
  proof -
    have "position v = None \<or> (\<exists>p n. v = VHierarchyRef p n)" using assms that unfolding hierarchy_field_def by blast
    then show ?thesis by (cases v) (auto simp: up_def)
  qed
  then show ?thesis by (auto simp: map edges_iff List.map_filter_def image_iff)
qed

lemma ancestors_loop_closed:
  assumes E: "\<And>q a. q \<in> set (hierarchy_parents s f a) \<longleftrightarrow> (q, a) \<in> E"
  shows "set todo \<subseteq> seen \<Longrightarrow> (\<And>x q. x \<in> seen - set todo \<Longrightarrow> (q, x) \<in> E \<Longrightarrow> q \<in> seen) \<Longrightarrow>
    seen \<subseteq> ancestors_loop s f seen todo \<and> (\<forall>x\<in>ancestors_loop s f seen todo. \<forall>q. (q, x) \<in> E \<longrightarrow> q \<in> ancestors_loop s f seen todo) \<and>
    (\<forall>y\<in>ancestors_loop s f seen todo. \<exists>x\<in>seen. (y, x) \<in> E\<^sup>*)"
  using assms
proof (induction s f seen todo rule: ancestors_loop.induct)
  case (1 s field seen)
  then show ?case by auto
next
  case (2 s f seen n todo)
  obtain seen' todo' where st: "push_new (hierarchy_parents s f n) (seen, todo) = (seen', todo')" by (cases "push_new (hierarchy_parents s f n) (seen, todo)")
  have seen': "seen' = seen \<union> set (hierarchy_parents s f n)" using push_new_out [of "hierarchy_parents s f n" seen todo] st by simp
  have todo': "set todo' = set todo \<union> (set (hierarchy_parents s f n) - seen)" using push_new_frontier [of "hierarchy_parents s f n" seen todo] st by simp
  have loop: "ancestors_loop s f seen (n # todo) = ancestors_loop s f seen' todo'" by (simp add: st)
  have e: "q \<in> set (hierarchy_parents s f a) \<longleftrightarrow> (q, a) \<in> E" for q a by (rule 2(4))
  have n: "n \<in> seen" using 2(2) by simp
  have "set todo' \<subseteq> seen'" using 2(2) seen' todo' by auto
  moreover have "q \<in> seen'" if x: "x \<in> seen' - set todo'" "(q, x) \<in> E" for x q
  proof (cases "x = n")
    case True
    then show ?thesis using x(2) e seen' by blast
  next
    case False
    then have "x \<in> seen - set (n # todo)" using x(1) seen' todo' by auto
    then show ?thesis using 2(3) [of x q] x(2) seen' by blast
  qed
  ultimately have ih: "seen' \<subseteq> ancestors_loop s f seen' todo' \<and> (\<forall>x\<in>ancestors_loop s f seen' todo'. \<forall>q. (q, x) \<in> E \<longrightarrow> q \<in> ancestors_loop s f seen' todo') \<and>
      (\<forall>y\<in>ancestors_loop s f seen' todo'. \<exists>x\<in>seen'. (y, x) \<in> E\<^sup>*)"
    using 2(1) [of "(seen', todo')"] e st by simp
  have "\<exists>x\<in>seen. (y, x) \<in> E\<^sup>*" if "y \<in> ancestors_loop s f seen' todo'" for y
  proof -
    obtain x where x: "x \<in> seen'" "(y, x) \<in> E\<^sup>*" using ih \<open>y \<in> _\<close> by blast
    show ?thesis
    proof (cases "x \<in> seen")
      case False
      then have "(x, n) \<in> E" using x(1) seen' e by blast
      then show ?thesis using x(2) n by (blast intro: rtrancl_into_rtrancl)
    qed (use x in blast)
  qed
  then show ?case unfolding loop using ih seen' by blast
qed

lemma hierarchy_ancestors_above:
  assumes "hierarchy_field s f"
  shows "hierarchy_ancestors s f p = {a. (a, p) \<in> (edges s f)\<^sup>*}"
proof -
  note a = ancestors_loop_closed [OF hierarchy_parents_edge [OF assms], of "[p]" "{p}"]
  have up: "a \<in> hierarchy_ancestors s f p" if "(a, p) \<in> (edges s f)\<^sup>*" for a
    using that
  proof (induction rule: converse_rtrancl_induct)
    case base
    then show ?case using a by (simp add: hierarchy_ancestors_def)
  next
    case (step x y)
    then show ?case using a by (simp add: hierarchy_ancestors_def)
  qed
  have "(a, p) \<in> (edges s f)\<^sup>*" if "a \<in> hierarchy_ancestors s f p" for a using a that by (simp add: hierarchy_ancestors_def)
  then show ?thesis using up by blast
qed

section \<open>The nodes below\<close>

lemma children_of_kids:
  assumes ke: "kids_exact t D" and ie: "ids_exact s D"
  shows "\<exists>ks. children_of D f n = Inr ks \<and> (\<forall>c i. (c, i) \<in> set ks \<longleftrightarrow> tget (dv_ids D) c = Some i \<and> c \<in> with_value t f (kid_of n))"
proof -
  define es where "es = tscan (\<lambda>(p, g, _). p = n \<and> g = f) (dv_kids D)"
  have o: "ordered (dv_kids D)" using ke by (simp add: kids_exact_iff)
  have es: "((p, g, i), m) \<in> set es \<longleftrightarrow> p = n \<and> g = f \<and> (\<exists>c. tget (dv_ids D) c = Some i \<and> 0 < m \<and> m = kids_at t n f c)" for p g i m
    using ke unfolding es_def in_tscan [OF o] kids_exact_iff by auto
  define owner where "owner e = the (tget (dv_uuids D) (snd (snd (fst e))))" for e :: "(uuid \<times> string \<times> nat) \<times> int"
  have "mapE (\<lambda>((_, _, i), _). bindE (optE (tget (dv_uuids D) i) KidWithoutUuid) (\<lambda>u. Inr (u, i))) es = Inr (map (\<lambda>e. (owner e, snd (snd (fst e)))) es)"
  proof -
    have "tget (dv_uuids D) (snd (snd (fst e))) \<noteq> None" if "e \<in> set es" for e
    proof -
      obtain p g i m where "e = ((p, g, i), m)" by (metis prod.exhaust)
      then show ?thesis using es that ids_exactD(1) [OF ie] by auto
    qed
    then show ?thesis
    proof (induction es)
      case (Cons e es)
      obtain p g i m where e: "e = ((p, g, i), m)" by (metis prod.exhaust)
      obtain c where "tget (dv_uuids D) i = Some c" using Cons(2) [of e] e by auto
      then show ?case using Cons e by (simp add: owner_def bindE_def optE_def)
    qed simp
  qed
  moreover have "(c, i) \<in> set (map (\<lambda>e. (owner e, snd (snd (fst e)))) es) \<longleftrightarrow> tget (dv_ids D) c = Some i \<and> c \<in> with_value t f (kid_of n)" for c i
  proof -
    have "(c, i) \<in> set (map (\<lambda>e. (owner e, snd (snd (fst e)))) es) \<longleftrightarrow> (\<exists>p g m. ((p, g, i), m) \<in> set es \<and> c = owner ((p, g, i), m))"
      by force
    also have "\<dots> \<longleftrightarrow> (\<exists>d m. tget (dv_ids D) d = Some i \<and> 0 < m \<and> m = kids_at t n f d \<and> c = the (tget (dv_uuids D) i))"
      unfolding es owner_def by auto
    also have "\<dots> \<longleftrightarrow> tget (dv_ids D) c = Some i \<and> 0 < kids_at t n f c"
      using ids_exactD(1) [OF ie] ids_inj [OF ie] by auto
    finally show ?thesis by (auto simp: kids_at_def with_value_def filter_empty_conv)
  qed
  ultimately show ?thesis unfolding children_of_def es_def [symmetric] by blast
qed

lemma take_children_sets:
  "fold (take_child D f walked) ks (out, seen, todo) = (out', seen', todo') \<Longrightarrow>
    seen' = seen \<union> fst ` set ks \<and> set todo' = set todo \<union> (fst ` set ks \<inter> walked - seen) \<and>
    out' = out \<union> snd ` set ks \<union> (\<Union>c\<in>fst ` set ks - seen - walked. dv_sets D (DESCENDANTS f c))"
proof (induction ks arbitrary: out seen todo)
  case (Cons k ks)
  obtain c i where k: "k = (c, i)" by (cases k)
  consider "c \<in> seen" | "c \<notin> seen" "c \<in> walked" | "c \<notin> seen" "c \<notin> walked" by blast
  then show ?case
  proof cases
    case 1
    then show ?thesis using Cons(1) [of "insert i out" seen todo] Cons(2) by (auto simp: k)
  next
    case 2
    then show ?thesis using Cons(1) [of "insert i out" "insert c seen" "c # todo"] Cons(2) by (auto simp: k)
  next
    case 3
    then show ?thesis using Cons(1) [of "insert i out \<union> dv_sets D (DESCENDANTS f c)" "insert c seen" todo] Cons(2) by (auto simp: k)
  qed
qed simp

text \<open>What the walk has found so far: the children of the nodes it left, and all below those it took whole.\<close>

definition walk_inv :: "derived \<Rightarrow> string \<Rightarrow> (uuid \<times> uuid) set \<Rightarrow> uuid set \<Rightarrow> uuid \<Rightarrow> ids \<Rightarrow> uuid set \<Rightarrow> uuid list \<Rightarrow> bool" where
  "walk_inv D f E walked a out seen todo \<longleftrightarrow> a \<in> seen \<and> a \<in> walked \<and> set todo \<subseteq> seen \<inter> walked \<and> seen \<subseteq> E\<^sup>* `` {a} \<and> out \<subseteq> idset D (E\<^sup>+ `` {a}) \<and>
     (\<forall>x\<in>seen \<inter> walked - set todo. E `` {x} \<subseteq> seen \<and> idset D (E `` {x}) \<subseteq> out) \<and>
     (\<forall>x\<in>seen - walked. idset D (E\<^sup>+ `` {x}) \<subseteq> out)"

lemma walk_done:
  assumes "walk_inv D f E walked a out seen []"
  shows "out = idset D (E\<^sup>+ `` {a})"
proof
  show "out \<subseteq> idset D (E\<^sup>+ `` {a})" using assms by (simp add: walk_inv_def)
  have w: "E `` {x} \<subseteq> seen \<and> idset D (E `` {x}) \<subseteq> out" if "x \<in> seen" "x \<in> walked" for x using assms that by (simp add: walk_inv_def)
  have r: "idset D (E\<^sup>+ `` {x}) \<subseteq> out" if "x \<in> seen" "x \<notin> walked" for x using assms that by (simp add: walk_inv_def)
  have a: "a \<in> seen" "a \<in> walked" using assms by (simp_all add: walk_inv_def)
  have reach: "idset D {y} \<subseteq> out \<and> (y \<in> seen \<or> (\<exists>z\<in>seen - walked. (z, y) \<in> E\<^sup>+))" if "(x, y) \<in> E" "x \<in> seen \<or> (\<exists>z\<in>seen - walked. (z, x) \<in> E\<^sup>+)" for x y
  proof -
    have one: "idset D {y} \<subseteq> idset D A" if "y \<in> A" for A using that by (auto simp: idset_def)
    have "(x \<in> seen \<and> x \<in> walked) \<or> (\<exists>z\<in>seen - walked. (z, y) \<in> E\<^sup>+)"
      using that(2)
    proof
      assume "x \<in> seen"
      then show ?thesis using r_into_trancl [OF that(1)] by blast
    next
      assume "\<exists>z\<in>seen - walked. (z, x) \<in> E\<^sup>+"
      then show ?thesis using trancl_into_trancl [OF _ that(1)] by blast
    qed
    then consider "x \<in> seen" "x \<in> walked" | z where "z \<in> seen - walked" "(z, y) \<in> E\<^sup>+" by blast
    then show ?thesis
    proof cases
      case 1
      then show ?thesis using w [OF 1] one [of "E `` {x}"] that(1) by blast
    next
      case 2
      then show ?thesis using r [of z] one [of "E\<^sup>+ `` {z}"] by blast
    qed
  qed
  have "idset D {y} \<subseteq> out \<and> (y \<in> seen \<or> (\<exists>z\<in>seen - walked. (z, y) \<in> E\<^sup>+))" if "(a, y) \<in> E\<^sup>+" for y
    using that
  proof (induction rule: trancl_induct)
    case (base y) then show ?case using reach a by blast
  next
    case (step y z) then show ?case using reach by blast
  qed
  then show "idset D (E\<^sup>+ `` {a}) \<subseteq> out" by (fastforce simp: idset_def)
qed

lemma walk_step:
  assumes inv: "walk_inv D f E walked a out seen (n # todo)"
    and ks: "\<And>c i. (c, i) \<in> set ks \<longleftrightarrow> tget (dv_ids D) c = Some i \<and> (n, c) \<in> E"
    and live: "\<And>p c. (p, c) \<in> E \<Longrightarrow> tget (dv_ids D) c \<noteq> None"
    and stored: "\<And>c. c \<notin> walked \<Longrightarrow> dv_sets D (DESCENDANTS f c) = idset D (E\<^sup>+ `` {c})"
    and fold: "fold (take_child D f walked) ks (out, seen, todo) = (out', seen', todo')"
  shows "walk_inv D f E walked a out' seen' todo'"
proof -
  note t = take_children_sets [OF fold]
  have kids: "fst ` set ks = E `` {n}"
  proof -
    have "c \<in> fst ` set ks \<longleftrightarrow> (\<exists>i. (c, i) \<in> set ks)" for c by force
    then show ?thesis using ks live by auto
  qed
  have ids: "snd ` set ks = idset D (E `` {n})"
  proof -
    have "i \<in> snd ` set ks \<longleftrightarrow> (\<exists>c. (c, i) \<in> set ks)" for i by force
    then show ?thesis using ks by (auto simp: idset_def)
  qed
  have seen': "seen' = seen \<union> E `` {n}" and todo': "set todo' = set todo \<union> (E `` {n} \<inter> walked - seen)"
    and out': "out' = out \<union> idset D (E `` {n}) \<union> (\<Union>c\<in>E `` {n} - seen - walked. idset D (E\<^sup>+ `` {c}))"
    using t stored by (auto simp: kids ids)
  have n: "n \<in> seen" "n \<in> walked" "(a, n) \<in> E\<^sup>*" using inv by (auto simp: walk_inv_def)
  have below: "idset D A \<subseteq> idset D B" if "A \<subseteq> B" for A B using that by (auto simp: idset_def)
  have nb: "E `` {n} \<subseteq> E\<^sup>+ `` {a}" using n(3) by (auto intro: rtrancl_into_trancl1)
  show ?thesis unfolding walk_inv_def
  proof (intro conjI ballI)
    show "a \<in> seen'" "a \<in> walked" "set todo' \<subseteq> seen' \<inter> walked" using inv by (auto simp: walk_inv_def seen' todo')
    show "seen' \<subseteq> E\<^sup>* `` {a}" using inv nb by (auto simp: walk_inv_def seen')
    have "idset D (E\<^sup>+ `` {c}) \<subseteq> idset D (E\<^sup>+ `` {a})" if "c \<in> E `` {n}" for c
      using nb that by (intro below) (auto intro: trancl_trans)
    then show "out' \<subseteq> idset D (E\<^sup>+ `` {a})" using inv below [OF nb] by (auto simp: walk_inv_def out')
  next
    fix x assume x: "x \<in> seen' \<inter> walked - set todo'"
    show "E `` {x} \<subseteq> seen'"
    proof (cases "x = n")
      case False
      then have "x \<in> seen \<inter> walked - set (n # todo)" using x by (auto simp: seen' todo')
      then show ?thesis using inv by (auto simp: walk_inv_def seen')
    qed (simp add: seen')
    show "idset D (E `` {x}) \<subseteq> out'"
    proof (cases "x = n")
      case False
      then have "x \<in> seen \<inter> walked - set (n # todo)" using x by (auto simp: seen' todo')
      then have "idset D (E `` {x}) \<subseteq> out" using inv unfolding walk_inv_def by blast
      then show ?thesis by (auto simp: out')
    qed (auto simp: out')
  next
    fix x assume "x \<in> seen' - walked"
    then consider "x \<in> seen - walked" | "x \<in> E `` {n} - seen - walked" by (auto simp: seen')
    then show "idset D (E\<^sup>+ `` {x}) \<subseteq> out'"
    proof cases
      case 1
      then have "idset D (E\<^sup>+ `` {x}) \<subseteq> out" using inv unfolding walk_inv_def by blast
      then show ?thesis by (auto simp: out')
    next
      case 2
      then show ?thesis by (auto simp: out')
    qed
  qed
qed

lemma reach_loop_below:
  assumes ks: "\<And>n. n \<in> walked \<Longrightarrow> \<exists>ks. children_of D f n = Inr ks \<and> (\<forall>c i. (c, i) \<in> set ks \<longleftrightarrow> tget (dv_ids D) c = Some i \<and> (n, c) \<in> E)"
    and live: "\<And>p c. (p, c) \<in> E \<Longrightarrow> tget (dv_ids D) c \<noteq> None"
    and stored: "\<And>c. c \<notin> walked \<Longrightarrow> dv_sets D (DESCENDANTS f c) = idset D (E\<^sup>+ `` {c})"
  shows "walk_inv D f E walked a out seen todo \<Longrightarrow> reach_loop D f walked out seen todo = Inr (idset D (E\<^sup>+ `` {a}))"
  using assms
proof (induction D f walked out seen todo rule: reach_loop.induct)
  case (1 D f walked out seen)
  then show ?case using walk_done by simp
next
  case (2 D f walked out seen n todo)
  have "n \<in> walked" using 2(2) by (simp add: walk_inv_def)
  then obtain ks where k: "children_of D f n = Inr ks" "\<And>c i. (c, i) \<in> set ks \<longleftrightarrow> tget (dv_ids D) c = Some i \<and> (n, c) \<in> E" using 2(3) by blast
  obtain out' seen' todo' where f: "fold (take_child D f walked) ks (out, seen, todo) = (out', seen', todo')" by (metis surj_pair)
  have "walk_inv D f E walked a out' seen' todo'" by (rule walk_step [OF 2(2) k(2) 2(4,5) f])
  then show ?case using 2(1) [of ks "(out', seen', todo')"] 2(3-5) k(1) f by simp
qed

section \<open>The nodes below, after a write\<close>

lemma more_sub: "more s t u f v \<Longrightarrow> set (values_at s w g) \<subseteq> set (values_at t w g)"
  using more_at [of s t u f v] more_same [of s t u f v w g] by (cases "w = u \<and> g = f") auto

lemma more_edges:
  assumes "more s t u f v" "position v = Some (Some p, n)"
  shows "edges t f = insert (p, u) (edges s f)" "g \<noteq> f \<Longrightarrow> edges t g = edges s g"
  using edges_more [OF assms(1)] assms(2) by auto

lemma more_tree_field:
  assumes m: "more s t u f v" and p: "placed t" and v: "v = VTreeRef q n"
  shows "tree_field t f" "tree_field s f" "acyclic (edges t f)" "\<And>q. (q, u) \<notin> edges s f"
proof -
  have vt: "VTreeRef q n \<in> set (values_at t u f)" using more_at [OF m] v by simp
  show t: "tree_field t f" and "acyclic (edges t f)" by (rule placed_tree [OF p vt])+
  have l: "length (filter P xs) = size (filter_mset P (mset xs))" for P and xs :: "value list" by (metis mset_filter size_mset)
  have len: "length (filter P (values_at s w f)) \<le> length (filter P (values_at t w f))" for P w unfolding l more_mset [OF m] by simp
  show "tree_field s f" unfolding tree_field_def
  proof (intro allI ballI impI)
    fix w x assume x: "x \<in> set (values_at s w f)" "position x \<noteq> None"
    then have "x \<in> set (values_at t w f)" using more_sub [OF m] by blast
    then have "(\<exists>p n. x = VTreeRef p n) \<and> length (filter (\<lambda>v. position v \<noteq> None) (values_at t w f)) \<le> 1" using t x(2) unfolding tree_field_def by blast
    then show "(\<exists>p n. x = VTreeRef p n) \<and> length (filter (\<lambda>v. position v \<noteq> None) (values_at s w f)) \<le> 1"
      using len [of "\<lambda>v. position v \<noteq> None" w] le_trans by blast
  qed
  have "length (filter (\<lambda>v. position v \<noteq> None) (values_at t u f)) = Suc (length (filter (\<lambda>v. position v \<noteq> None) (values_at s u f)))"
    unfolding l more_mset [OF m] using v by simp
  moreover have "length (filter (\<lambda>v. position v \<noteq> None) (values_at t u f)) \<le> 1" using placedD(3) [OF p vt] by simp
  ultimately have "filter (\<lambda>v. position v \<noteq> None) (values_at s u f) = []" by simp
  then show "(q, u) \<notin> edges s f" for q unfolding edges_iff filter_empty_conv by fastforce
qed

lemma more_hierarchy_field:
  assumes m: "more s t u f v" and p: "placed t" and v: "v = VHierarchyRef q n"
  shows "hierarchy_field t f" "hierarchy_field s f"
proof -
  have vt: "VHierarchyRef q n \<in> set (values_at t u f)" using more_at [OF m] v by simp
  show t: "hierarchy_field t f" by (rule placed_hierarchy [OF p vt])
  then show "hierarchy_field s f" using more_sub [OF m, of _ f] unfolding hierarchy_field_def by blast
qed

lemma mapE_all: "(\<And>x. x \<in> set xs \<Longrightarrow> h x = Inr (g x)) \<Longrightarrow> mapE h xs = Inr (map g xs)"
  by (induction xs) (simp_all add: bindE_def)

lemma fold_replace:
  "same_rest D (fold (\<lambda>(a, now) D. let before = dv_sets D (DESCENDANTS f a)
      in chunk_apply (DESCENDANTS f a) (now - before) True (chunk_apply (DESCENDANTS f a) (before - now) False D)) (map (\<lambda>a. (a, N a)) as) D) \<and>
    dv_sets (fold (\<lambda>(a, now) D. let before = dv_sets D (DESCENDANTS f a)
      in chunk_apply (DESCENDANTS f a) (now - before) True (chunk_apply (DESCENDANTS f a) (before - now) False D)) (map (\<lambda>a. (a, N a)) as) D) (DESCENDANTS g b) =
      (if g = f \<and> b \<in> set as then N b else dv_sets D (DESCENDANTS g b))"
proof (induction as arbitrary: D)
  case (Cons a as)
  show ?case
    unfolding list.map fold_simps comp_def prod.case Let_def
    using Cons [of "chunk_apply (DESCENDANTS f a) (N a - dv_sets D (DESCENDANTS f a)) True (chunk_apply (DESCENDANTS f a) (dv_sets D (DESCENDANTS f a) - N a) False D)"]
    unfolding Let_def by (auto simp: same_rest_def)
qed simp

definition derive_below :: "rowstore \<Rightarrow> uuid \<Rightarrow> nat \<Rightarrow> string \<Rightarrow> value \<Rightarrow> bool \<Rightarrow> derived \<Rightarrow> derive_error + derived" where
  "derive_below t u i f v add D = (case v of
      VTreeRef (Some p) _ \<Rightarrow> derive_descendants t u i f p add D
    | VHierarchyRef (Some p) _ \<Rightarrow> derive_hierarchy t u i f p add D
    | _ \<Rightarrow> Inr D)"

definition below_exact :: "rowstore \<Rightarrow> derived \<Rightarrow> bool" where
  "below_exact s D \<longleftrightarrow> (\<forall>g a. dv_sets D (DESCENDANTS g a) = idset D ((edges s g)\<^sup>+ `` {a}))"

lemma moving_ids: "tget (dv_ids D) u = Some i \<Longrightarrow> insert i (idset D A) = idset D (insert u A)"
  by (auto simp: idset_def)

text \<open>A new edge: the nodes above its parent take what is below its child, and the child.\<close>

lemma below_added:
  assumes m: "more s t u f v" and p: "position v = Some (Some p, n)" and b: "below_exact s D" and i: "tget (dv_ids D) u = Some i"
    and r: "same_rest D D'"
    and d: "\<And>g a. dv_sets D' (DESCENDANTS g a) = (if g = f \<and> (a, p) \<in> (edges t f)\<^sup>* then apply_to (insert i (dv_sets D (DESCENDANTS f u))) True (dv_sets D (DESCENDANTS g a)) else dv_sets D (DESCENDANTS g a))"
  shows "below_exact t D'"
proof -
  have ids: "idset D' = idset D" using r by (simp add: same_rest_def idset_def fun_eq_iff)
  have "dv_sets D' (DESCENDANTS g a) = idset D ((edges t g)\<^sup>+ `` {a})" for g a
  proof (cases "g = f")
    case True
    have "dv_sets D (DESCENDANTS f x) = idset D ((edges s f)\<^sup>+ `` {x})" for x using b by (simp add: below_exact_def)
    then show ?thesis unfolding d True unfolding more_edges(1) [OF m p] above_insert below_insert
      by (auto simp: apply_to_def moving_ids [OF i] idset_Un)
  next
    case False
    then show ?thesis using b more_edges(2) [OF m p] by (simp add: below_exact_def d)
  qed
  then show ?thesis by (simp add: below_exact_def ids)
qed

lemma below_climbed:
  assumes st: "step s t u f v delta" and v: "v = VTreeRef (Some p) n" and pl: "placed (if delta = 1 then t else s)"
    and b: "below_exact s D" and ie: "ids_exact s D" and i: "tget (dv_ids D) u = Some i"
    and res: "derive_descendants t u i f p (0 < delta) D = Inr D'"
  shows "same_rest D D' \<and> below_exact t D'"
proof -
  have tf: "tree_field t f"
    using st pl more_tree_field(1,2) v by (auto simp: step_def split: if_splits)
  note c = climb_sets [OF tree_parent_edge [OF tf] res [unfolded derive_descendants_def]]
  then have rest: "same_rest D D'" and
    d: "dv_sets D' (DESCENDANTS g a) = (if g = f \<and> (a, p) \<in> (edges t f)\<^sup>* then apply_to (insert i (dv_sets D (DESCENDANTS f u))) (0 < delta) (dv_sets D (DESCENDANTS g a)) else dv_sets D (DESCENDANTS g a))" for g a
    by simp_all
  have pos: "position v = Some (Some p, n)" using v by simp
  from st consider "delta = 1" "more s t u f v" | "delta = -1" "more t s u f v" by (auto simp: step_def)
  then have "below_exact t D'"
  proof cases
    case 1
    then show ?thesis using d by (intro below_added [OF 1(2) pos b i rest]) simp
  next
    case 2
    have pl: "placed s" using pl 2(1) by simp
    note tr = more_tree_field [OF 2(2) pl v]
    have E: "edges s f = insert (p, u) (edges t f)" by (rule more_edges(1) [OF 2(2) pos])
    have below: "(edges t f)\<^sup>+ `` {a} = (if (a, p) \<in> (edges t f)\<^sup>* then (edges s f)\<^sup>+ `` {a} - insert u ((edges s f)\<^sup>+ `` {u}) else (edges s f)\<^sup>+ `` {a})" for a
    proof (rule below_removed [OF E tr(3) _ tr(4)])
      fix q q' c assume "(q, c) \<in> edges t f" "(q', c) \<in> edges t f"
      then show "q = q'" using tree_parent_edge [OF tf, of c] by (metis option.inject)
    qed
    have ids: "idset D' = idset D" using rest by (simp add: same_rest_def idset_def fun_eq_iff)
    have "dv_sets D' (DESCENDANTS g a) = idset D ((edges t g)\<^sup>+ `` {a})" for g a
    proof (cases "g = f")
      case True
      have "dv_sets D (DESCENDANTS f x) = idset D ((edges s f)\<^sup>+ `` {x})" for x using b by (simp add: below_exact_def)
      then show ?thesis unfolding d True below using 2(1)
        by (simp add: apply_to_def moving_ids [OF i] idset_Diff [OF ie])
    next
      case False
      then show ?thesis using b more_edges(2) [OF 2(2) pos] by (simp add: below_exact_def d)
    qed
    then show ?thesis by (simp add: below_exact_def ids)
  qed
  then show ?thesis using rest by blast
qed

lemma kids_edges:
  assumes "n \<noteq> ZERO_UUID"
  shows "c \<in> with_value t f (kid_of n) \<longleftrightarrow> (n, c) \<in> edges t f"
proof -
  have "kid_of n w \<longleftrightarrow> (\<exists>m. position w = Some (Some n, m))" for w
    using assms by (cases w) (auto simp: kid_of_def target_of_def split: option.splits)
  then show ?thesis by (simp add: edges_def with_value_def)
qed

lemma below_recomputed:
  assumes st: "step s t u f v delta" and v: "v = VHierarchyRef (Some p) n" and pl: "placed (if delta = 1 then t else s)"
    and b: "below_exact s D" and ie: "ids_exact s D" and i: "tget (dv_ids D) u = Some i" and ke: "kids_exact t D"
    and live: "\<And>w x. x \<in> set (values_at t w f) \<Longrightarrow> tget (dv_ids D) w \<noteq> None" and zero: "tget (dv_ids D) ZERO_UUID = None"
    and res: "derive_hierarchy t u i f p (0 < delta) D = Inr D'"
  shows "same_rest D D' \<and> below_exact t D'"
proof -
  have hf: "hierarchy_field t f"
    using st pl more_hierarchy_field v by (auto simp: step_def split: if_splits)
  define A where "A = {a. (a, p) \<in> (edges t f)\<^sup>*}"
  have anc: "set (sorted_list_of_set (hierarchy_ancestors t f p)) = A"
    unfolding A_def hierarchy_ancestors_above [OF hf] by simp
  have pos: "position v = Some (Some p, n)" using v by simp
  from st consider "delta = 1" "more s t u f v" | "delta = -1" "more t s u f v" by (auto simp: step_def)
  then show ?thesis
  proof cases
    case 1
    have D': "D' = fold (\<lambda>a. chunk_apply (DESCENDANTS f a) (insert i (dv_sets D (DESCENDANTS f u))) True) (sorted_list_of_set (hierarchy_ancestors t f p)) D"
      using res 1(1) by (simp add: derive_hierarchy_def Let_def)
    have rest: "same_rest D D'" unfolding D' by (rule fold_chunks [THEN conjunct1])
    have d: "dv_sets D' (DESCENDANTS g a) = (if g = f \<and> (a, p) \<in> (edges t f)\<^sup>* then apply_to (insert i (dv_sets D (DESCENDANTS f u))) True (dv_sets D (DESCENDANTS g a)) else dv_sets D (DESCENDANTS g a))" for g a
      unfolding D' fold_chunks [THEN conjunct2] anc by (simp add: A_def)
    show ?thesis using rest below_added [OF 1(2) pos b i rest d] by simp
  next
    case 2
    have pl: "placed s" using pl 2(1) by simp
    have pt: "placed t" by (rule placed_less [OF 2(2) pl])
    have E: "edges s f = insert (p, u) (edges t f)" by (rule more_edges(1) [OF 2(2) pos])
    have vs: "v \<in> set (values_at s u f)" using more_at [OF 2(2)] by simp
    have nz: "a \<noteq> ZERO_UUID" if "a \<in> A" for a
    proof
      assume z: "a = ZERO_UUID"
      have "(a, p) \<in> (edges t f)\<^sup>*" using that by (simp add: A_def)
      then consider "a = p" | c where "(a, c) \<in> edges t f" by (metis converse_rtranclE)
      then show False
      proof cases
        case 1
        then show ?thesis using placedD(1) [OF pl vs pos] z by simp
      next
        case 2
        then obtain w m where "w \<in> set (values_at t c f)" "position w = Some (Some a, m)" by (auto simp: edges_iff)
        then show ?thesis using placedD(1) [OF pt] z by blast
      qed
    qed
    have ks: "\<exists>ks. children_of D f m = Inr ks \<and> (\<forall>c i. (c, i) \<in> set ks \<longleftrightarrow> tget (dv_ids D) c = Some i \<and> (m, c) \<in> edges t f)" if "m \<in> A" for m
      using children_of_kids [OF ke ie, of f m] kids_edges [OF nz [OF that]] by auto
    have lv: "tget (dv_ids D) c \<noteq> None" if "(q, c) \<in> edges t f" for q c
      using that live unfolding edges_iff by blast
    have stored: "dv_sets D (DESCENDANTS f c) = idset D ((edges t f)\<^sup>+ `` {c})" if "c \<notin> A" for c
    proof -
      have "dv_sets D (DESCENDANTS f c) = idset D ((edges s f)\<^sup>+ `` {c})" using b by (simp add: below_exact_def)
      then show ?thesis unfolding E below_insert using that by (simp add: A_def)
    qed
    have now: "reachable_below D f a A = Inr (idset D ((edges t f)\<^sup>+ `` {a}))" if "a \<in> A" for a
      unfolding reachable_below_def
      by (rule reach_loop_below [OF ks lv stored]) (use that in \<open>auto simp: walk_inv_def\<close>)
    define as where "as = sorted_list_of_set (hierarchy_ancestors t f p)"
    define N where "N a = idset D ((edges t f)\<^sup>+ `` {a})" for a
    have as: "set as = A" unfolding as_def by (rule anc)
    have "mapE (\<lambda>a. bindE (reachable_below D f a (set as)) (\<lambda>now. Inr (a, now))) as = Inr (map (\<lambda>a. (a, N a)) as)"
      by (rule mapE_all) (use now as in \<open>simp add: bindE_def N_def\<close>)
    then have D': "D' = fold (\<lambda>(a, now) D. let before = dv_sets D (DESCENDANTS f a)
        in chunk_apply (DESCENDANTS f a) (now - before) True (chunk_apply (DESCENDANTS f a) (before - now) False D)) (map (\<lambda>a. (a, N a)) as) D"
      using res 2(1) by (simp add: derive_hierarchy_def Let_def as_def bindE_def)
    have rest: "same_rest D D'" unfolding D' by (rule fold_replace [THEN conjunct1])
    have ids: "idset D' = idset D" using rest by (simp add: same_rest_def idset_def fun_eq_iff)
    have "dv_sets D' (DESCENDANTS g a) = idset D ((edges t g)\<^sup>+ `` {a})" for g a
    proof (cases "g = f")
      case True
      then show ?thesis unfolding D' fold_replace [THEN conjunct2] as using stored [of a] by (simp add: N_def)
    next
      case False
      then show ?thesis unfolding D' fold_replace [THEN conjunct2] using b more_edges(2) [OF 2(2) pos] by (simp add: below_exact_def)
    qed
    then show ?thesis using rest by (simp add: below_exact_def ids)
  qed
qed

end
