(* ===== verification/Derived_Laws.thy ===== *)
theory Derived_Laws
  imports Derived_Forest Kv_Source_Laws
begin

text \<open>
  Every write of the store keeps the derived key spaces exact.
\<close>

section \<open>A row\<close>

lemma more_no_edge: "more s t u f v \<Longrightarrow> (\<And>p n. position v \<noteq> Some (Some p, n)) \<Longrightarrow> edges t g = edges s g"
  using edges_more [of s t u f v g] by auto

lemma below_step:
  assumes st: "step s t u f v delta" and pl: "placed (if delta = 1 then t else s)"
    and b: "below_exact s D" and ie: "ids_exact s D" and i: "tget (dv_ids D) u = Some i" and ke: "kids_exact t D"
    and live: "\<And>w x. x \<in> set (values_at t w f) \<Longrightarrow> tget (dv_ids D) w \<noteq> None" and zero: "tget (dv_ids D) ZERO_UUID = None"
    and res: "derive_below t u i f v (0 < delta) D = Inr D'"
  shows "same_rest D D' \<and> below_exact t D'"
proof -
  consider p n where "v = VTreeRef (Some p) n" | p n where "v = VHierarchyRef (Some p) n" | "\<And>p n. position v \<noteq> Some (Some p, n)"
  proof (cases v)
    case (VTreeRef p n) then show ?thesis using that by (cases p) auto
  next
    case (VHierarchyRef p n) then show ?thesis using that by (cases p) auto
  qed (use that in auto)
  then show ?thesis
  proof cases
    case 1
    then show ?thesis using res below_climbed [OF st 1 pl b ie i] by (simp add: derive_below_def)
  next
    case 2
    then show ?thesis using res below_recomputed [OF st 2 pl b ie i ke live zero] by (simp add: derive_below_def)
  next
    case 3
    have "edges t g = edges s g" for g using st more_no_edge [OF _ 3] by (auto simp: step_def)
    moreover have "D' = D" using res 3 by (cases v) (auto simp: derive_below_def split: option.splits)
    ultimately show ?thesis using b by (simp add: below_exact_def)
  qed
qed

lemma set_exact_carry:
  assumes "step s t u f v delta" "set_exact H low s D UNIVERSE" "dv_ids E = dv_ids D" "dv_sets E UNIVERSE = dv_sets D UNIVERSE"
  shows "set_exact H low t E UNIVERSE"
proof -
  have "set_spec H low s UNIVERSE = set_spec H low t UNIVERSE" using step_version [OF assms(1)] by auto
  then show ?thesis using assms(2-4) by (simp add: set_exact_plain idset_def)
qed

lemma derive_row_exact:
  assumes st: "step s t u f v delta" and pl: "placed (if delta = 1 then t else s)"
    and de: "derived_exact H low (s, D)" and live: "\<And>w x. x \<in> set (values_at t w f) \<Longrightarrow> tget (dv_ids D) w \<noteq> None"
    and zero: "tget (dv_ids D) ZERO_UUID = None" and res: "derive_row H low t u f v delta D = Inr D'"
  shows "derived_exact H low (t, D')"
proof -
  note e = derived_exactD [OF de]
  obtain i where i: "tget (dv_ids D) u = Some i" using res by (auto simp: derive_row_def bindE_eq_Inr optE_def split: option.splits)
  define vs where "vs = values_at t u f"
  define D1 where "D1 = derive_values H f v i delta D"
  define D2 where "D2 = derive_kids f v i delta D1"
  define D3 where "D3 = derive_presence f vs i D2"
  define D4 where "D4 = derive_texts low f v vs i D3"
  define D5 where "D5 = derive_referrers f v vs i D4"
  have last: "derive_below t u i f v (0 < delta) D5 = Inr D'"
    using res by (simp add: derive_row_def i optE_def bindE_def Let_def derive_below_def D5_def D4_def D3_def D2_def D1_def vs_def values_at_def)
  note s1 = derive_values_parts [OF st e(1) i e(2,4), folded D1_def]
  have i1: "ids_exact s D1" "tget (dv_ids D1) u = Some i" using ids_exact_cong [OF s1(4-6)] e(1) i s1(4) by auto
  have idset1: "idset D1 = idset D" by (simp add: idset_def s1(4) fun_eq_iff)
  have old1: "set_exact H low s D1 key" if "\<And>g k. key \<noteq> POSTINGS g k" for key
    using e(4) [of key] s1(3) [OF that] that by (simp add: set_exact_plain idset1)
  have ke1: "kids_exact s D1" using e(3) by (simp add: kids_exact_def s1(4,7))
  have live1: "\<forall>w. \<forall>x\<in>set (values_at t w f). tget (dv_ids D1) w \<noteq> None" using live unfolding s1(4) by blast
  have oldP: "set_exact H low s D1 (PARENTS g)" for g by (rule old1) simp
  note s2 = derive_kids_step [OF st i1 ke1 oldP live1, folded D2_def]
  have ids2: "dv_ids D2 = dv_ids D" using s2 s1 by simp
  have i2: "ids_exact s D2" "tget (dv_ids D2) u = Some i" using ids_exact_cong [OF s2(4-6)] i1 s2(4) by auto
  have old2: "set_exact H low s D2 key" if "\<And>g k. key \<noteq> POSTINGS g k" "\<And>g. key \<noteq> PARENTS g" for key
    using old1 [OF that(1)] s2(3) [OF that(2)] that by (simp add: set_exact_plain idset_def s2(4))
  note s3 = presence_step [OF st i2, folded vs_def, folded D3_def]
  have i3: "ids_exact s D3" "tget (dv_ids D3) u = Some i" using ids_exact_cong [OF s3(3-5)] i2 s3(3) by auto
  have g3: "grams_exact low s D3" using e(5) by (simp add: grams_exact_def idset_def s3 s2 s1)
  note s4 = texts_step [OF st i3 g3, folded vs_def, folded D4_def]
  have i4: "ids_exact s D4" "tget (dv_ids D4) u = Some i" using ids_exact_cong [OF s4(4-6)] i3 s4(4) by auto
  note s5 = referrers_step [OF st i4, folded vs_def, folded D5_def]
  have i5: "ids_exact s D5" "tget (dv_ids D5) u = Some i" using ids_exact_cong [OF s5(3-5)] i4 s5(3) by auto
  have ids5: "dv_ids D5 = dv_ids D" using s5 s4 s3 ids2 by simp
  have b5: "below_exact s D5"
    unfolding below_exact_def
  proof (intro allI)
    fix g a
    have "dv_sets D (DESCENDANTS g a) = idset D ((edges s g)\<^sup>+ `` {a})" using e(4) [of "DESCENDANTS g a"] by (simp add: set_exact_plain)
    then show "dv_sets D5 (DESCENDANTS g a) = idset D5 ((edges s g)\<^sup>+ `` {a})"
      using s5(2) [of "DESCENDANTS g a"] s4(3) [of "DESCENDANTS g a"] s3(2) [of "DESCENDANTS g a"] s2(3) [of "DESCENDANTS g a"] s1(3) [of "DESCENDANTS g a"]
      by (simp add: idset_def ids5)
  qed
  have k5: "kids_exact t D5" using s2(1) by (simp add: kids_exact_def s5 s4 s3)
  have last': "same_rest D5 D' \<and> below_exact t D'"
    by (rule below_step [OF st pl b5 i5 k5 _ _ last]) (use live zero in \<open>simp_all add: ids5\<close>)
  then have r: "dv_ids D' = dv_ids D5" "dv_uuids D' = dv_uuids D5" "next_id D' = next_id D5" "dv_parts D' = dv_parts D5" "dv_kids D' = dv_kids D5" "dv_grams D' = dv_grams D5"
    "\<And>k. (\<And>f n. k \<noteq> DESCENDANTS f n) \<Longrightarrow> dv_sets D' k = dv_sets D5 k" by (auto simp: same_rest_def)
  have t1: "ids_exact t D'" using ids_exact_step [OF st i5(1)] ids_exact_cong [OF r(1-3), of t] by simp
  have t2: "parts_exact H t D'" using s1(1) by (simp add: parts_exact_def part_exact_def r s5 s4 s3 s2)
  have t3: "kids_exact t D'" using k5 by (simp add: kids_exact_def r)
  have t5: "grams_exact low t D'" using s4(2) by (simp add: grams_exact_def idset_def r s5)
  have t4: "set_exact H low t D' key" for key
  proof -
    have same: "set_exact H low t D' key" if "set_exact H low t E key" "dv_ids E = dv_ids D'" "dv_sets E key = dv_sets D' key" for E
      using that by (simp add: set_exact_def idset_def)
    show ?thesis
    proof (cases key)
      case UNIVERSE
      then show ?thesis using set_exact_carry [OF st e(4) _, of D'] by (simp add: r ids5 s5 s4 s3 s2 s1)
    next
      case (PRESENT g)
      then show ?thesis using s3(1) [where H = H and low = low and key = key and g = g] old2 [of key] by (intro same [of D3]) (simp_all add: r s5 s4)
    next
      case (ABSENT g)
      then show ?thesis using s3(1) [where H = H and low = low and key = key and g = g] old2 [of key] by (intro same [of D3]) (simp_all add: r s5 s4)
    next
      case (MULTI g)
      then show ?thesis using s3(1) [where H = H and low = low and key = key and g = g] old2 [of key] by (intro same [of D3]) (simp_all add: r s5 s4)
    next
      case (PARENTS g)
      then show ?thesis using s2(2) [where g = g] by (intro same [of D2]) (simp_all add: r s5 s4 s3)
    next
      case (LONG_TEXTS g)
      have "set_exact H low s D3 (LONG_TEXTS g)" using old2 [of "LONG_TEXTS g"] s3(2) [of "LONG_TEXTS g"] by (simp add: set_exact_plain idset_def s3(3))
      then show ?thesis using s4(1) [where H = H and g = g] LONG_TEXTS by (intro same [of D4]) (simp_all add: r s5)
    next
      case (REFERRERS g x)
      have "set_exact H low s D4 (REFERRERS g x)" using old2 [of "REFERRERS g x"] s3(2) [of "REFERRERS g x"] s4(3) [of "REFERRERS g x"]
        by (simp add: set_exact_plain idset_def s3(3) s4(4))
      then show ?thesis using s5(1) [where H = H and low = low and g = g and x = x] REFERRERS by (intro same [of D5]) (simp_all add: r)
    next
      case (DESCENDANTS g a)
      then show ?thesis using last' by (simp add: below_exact_def set_exact_plain)
    next
      case (POSTINGS g k)
      then show ?thesis using s1(2) [where g = g and k = k] by (intro same [of D1]) (simp_all add: r s5 s4 s3 s2)
    qed
  qed
  have "\<forall>key. set_exact H low t D' key" using t4 by blast
  then show ?thesis using t1 t2 t3 t5 by (simp add: derived_exact_def)
qed

section \<open>The writes\<close>

lemma live_ids:
  assumes "rows_inv H t" "ids_exact s D" "\<And>w. kv_version s w = None \<longleftrightarrow> kv_version t w = None" "x \<in> set (values_at t w f)"
  shows "tget (dv_ids D) w \<noteq> None"
  using values_exist [OF assms(1,4)] ids_exactD(2) [OF assms(2), of w] assms(3) by simp

lemma kv_insert_ok:
  assumes "kv_insert H low u f v rid (s, D) = Inr (j, t, D')"
  shows "insert_row H u f v rid s = Inr (j, t)" "derive_row H low t u f v 1 D = Inr D'"
  using assms by (auto simp: kv_insert_def split: sum.splits)

lemma kv_insert_exact:
  assumes "kv_insert H low u f v rid (s, D) = Inr (j, t, D')" "rows_inv H s" "\<forall>j. rid = Some j \<longrightarrow> 0 < j"
    and de: "derived_exact H low (s, D)" and "placed t" "kv_version s ZERO_UUID = None"
  shows "derived_exact H low (t, D')"
proof -
  note k = kv_insert_ok [OF assms(1)]
  have st: "step s t u f v 1" using more_insert [OF k(1) assms(2,3)] by (simp add: step_def)
  have z: "tget (dv_ids D) ZERO_UUID = None" using ids_exactD(2) [OF derived_exactD(1) [OF de]] assms(6) by simp
  show ?thesis
    by (rule derive_row_exact [OF st _ de live_ids [OF insert_row_ok(1) [OF k(1) assms(2,3)] derived_exactD(1) [OF de] step_version [OF st]] z k(2)])
      (simp_all add: assms(5))
qed

lemma kv_delete_ok:
  assumes "kv_delete H low j (s, D) = Inr (t, D')"
  shows "t = delete_row H j s"
  using assms by (auto simp: kv_delete_def bindE_eq_Inr delete_row_None Let_def split: option.splits)

lemma kv_delete_exact:
  assumes d: "kv_delete H low j (s, D) = Inr (t, D')" and i: "rows_inv H s" and de: "derived_exact H low (s, D)"
    and p: "placed s" and "kv_version s ZERO_UUID = None"
  shows "derived_exact H low (t, D')" "placed t"
proof -
  have "derived_exact H low (t, D') \<and> placed t"
  proof (cases "kv_row s j")
    case None
    then show ?thesis using d de p by (simp add: kv_delete_def)
  next
    case (Some e)
    obtain u r where r: "kv_row s j = Some (u, r)" using Some by (cases e) auto
    have t: "t = delete_row H j s" by (rule kv_delete_ok [OF d])
    have m: "more t s u (row_name r) (row_value r)" unfolding t by (rule more_delete [OF r i])
    have st: "step s t u (row_name r) (row_value r) (-1)" using m by (simp add: step_def)
    have z: "tget (dv_ids D) ZERO_UUID = None" using ids_exactD(2) [OF derived_exactD(1) [OF de]] assms(5) by simp
    have res: "derive_row H low t u (row_name r) (row_value r) (-1) D = Inr D'" using d r by (simp add: kv_delete_def t bindE_eq_Inr Let_def)
    have "rows_inv H t" unfolding t by (rule delete_row_inv [OF i])
    then have "derived_exact H low (t, D')"
      by (intro derive_row_exact [OF st _ de live_ids [OF _ derived_exactD(1) [OF de] step_version [OF st]] z res]) (simp_all add: p)
    then show ?thesis using placed_less [OF m p] by simp
  qed
  then show "derived_exact H low (t, D')" "placed t" by simp_all
qed

text \<open>A new metarecord: an id of its own, in the universe and among the parents its dangling children name.\<close>

lemma fold_parents:
  "dv_ids (fold (\<lambda>f. set_member (PARENTS f) i b) fs D) = dv_ids D \<and> dv_uuids (fold (\<lambda>f. set_member (PARENTS f) i b) fs D) = dv_uuids D \<and>
    next_id (fold (\<lambda>f. set_member (PARENTS f) i b) fs D) = next_id D \<and> dv_parts (fold (\<lambda>f. set_member (PARENTS f) i b) fs D) = dv_parts D \<and>
    dv_kids (fold (\<lambda>f. set_member (PARENTS f) i b) fs D) = dv_kids D \<and> dv_grams (fold (\<lambda>f. set_member (PARENTS f) i b) fs D) = dv_grams D \<and>
    dv_sets (fold (\<lambda>f. set_member (PARENTS f) i b) fs D) key = (if \<exists>f\<in>set fs. key = PARENTS f then member b i (dv_sets D key) else dv_sets D key)"
proof (induction fs arbitrary: D)
  case (Cons f fs)
  show ?case using Cons [of "set_member (PARENTS f) i b D"] by (auto simp: set_member_def member_def)
qed simp

lemma parent_fields_iff:
  assumes "kids_exact t D"
  shows "f \<in> set (parent_fields D p) \<longleftrightarrow> has_kids D p f"
proof -
  have o: "ordered (dv_kids D)" using assms by (simp add: kids_exact_iff)
  have "f \<in> set (parent_fields D p) \<longleftrightarrow> (\<exists>q i n. ((q, f, i), n) \<in> set (tscan (\<lambda>(q, _). q = p) (dv_kids D)))"
    by (force simp: parent_fields_def)
  also have "\<dots> \<longleftrightarrow> (\<exists>i n. tget (dv_kids D) (p, f, i) = Some n)" by (auto simp: in_tscan [OF o])
  also have "\<dots> \<longleftrightarrow> (\<exists>e. e \<in> set (tscan (\<lambda>(q, g, _). q = p \<and> g = f) (dv_kids D)))"
  proof -
    have "(\<exists>e. e \<in> set (tscan (\<lambda>(q, g, _). q = p \<and> g = f) (dv_kids D))) \<longleftrightarrow> (\<exists>q g i n. ((q, g, i), n) \<in> set (tscan (\<lambda>(q, g, _). q = p \<and> g = f) (dv_kids D)))" by force
    then show ?thesis by (auto simp: in_tscan [OF o])
  qed
  finally show ?thesis unfolding has_kids_def by (cases "tscan (\<lambda>(q, g, _). q = p \<and> g = f) (dv_kids D)") auto
qed

text \<open>\<open>E\<close> is \<open>D\<close> with an id for \<open>u\<close>, which holds no value.\<close>

definition joined :: "rowstore \<Rightarrow> derived \<Rightarrow> derived \<Rightarrow> uuid \<Rightarrow> nat \<Rightarrow> bool" where
  "joined s D E u i \<longleftrightarrow> tget (dv_ids E) = (tget (dv_ids D))(u \<mapsto> i) \<and> tget (dv_ids D) u = None \<and> (\<forall>w. tget (dv_ids D) w \<noteq> Some i) \<and>
     dv_parts E = dv_parts D \<and> dv_kids E = dv_kids D \<and> dv_grams E = dv_grams D \<and> (\<forall>f. values_at s u f = [])"

lemma joined_idset: "joined s D E u i \<Longrightarrow> idset E A = (if u \<in> A then insert i (idset D A) else idset D A)"
proof -
  assume j: "joined s D E u i"
  have "tget (dv_ids E) w = Some x \<longleftrightarrow> w = u \<and> x = i \<or> tget (dv_ids D) w = Some x" for w x
    using j by (cases "w = u") (auto simp: joined_def)
  then show ?thesis by (auto simp: idset_def)
qed

lemma joined_fresh: "joined s D E u i \<Longrightarrow> i \<notin> idset D A"
  by (auto simp: joined_def idset_def)

lemma joined_without: "joined s D E u i \<Longrightarrow> u \<notin> with_value s f p"
  by (simp add: joined_def with_value_def)

lemma joined_parts: "joined s D E u i \<Longrightarrow> parts_exact H s E \<longleftrightarrow> parts_exact H s D"
proof -
  assume j: "joined s D E u i"
  have "(\<exists>k w i'. t = k @ id_bytes i' \<and> tget (dv_ids E) w = Some i' \<and> 0 < n \<and> n = int (length (filter (\<lambda>v. part_of H p v = Some k) (values_at s w f)))) \<longleftrightarrow>
      (\<exists>k w i'. t = k @ id_bytes i' \<and> tget (dv_ids D) w = Some i' \<and> 0 < n \<and> n = int (length (filter (\<lambda>v. part_of H p v = Some k) (values_at s w f))))" for t n f p
  proof -
    have "tget (dv_ids E) w = Some i' \<and> 0 < n \<and> n = int (length (filter q (values_at s w f))) \<longleftrightarrow>
        tget (dv_ids D) w = Some i' \<and> 0 < n \<and> n = int (length (filter q (values_at s w f)))" for w i' q
      using j by (cases "w = u") (auto simp: joined_def)
    then show ?thesis by simp
  qed
  moreover have "dv_parts E = dv_parts D" using j by (simp add: joined_def)
  ultimately show ?thesis by (simp add: parts_exact_def part_exact_def)
qed

lemma joined_kids: "joined s D E u i \<Longrightarrow> kids_exact s E \<longleftrightarrow> kids_exact s D"
proof -
  assume j: "joined s D E u i"
  have "tget (dv_ids E) w = Some i' \<and> 0 < n \<and> n = kids_at s p f w \<longleftrightarrow> tget (dv_ids D) w = Some i' \<and> 0 < n \<and> n = kids_at s p f w" for w i' n p f
    using j by (cases "w = u") (auto simp: joined_def kids_at_def)
  moreover have "dv_kids E = dv_kids D" using j by (simp add: joined_def)
  ultimately show ?thesis by (simp add: kids_exact_iff)
qed

lemma joined_grams: "joined s D E u i \<Longrightarrow> grams_exact low s E \<longleftrightarrow> grams_exact low s D"
  using joined_idset [of s D E u i] joined_without [of s D E u i] by (simp add: grams_exact_def joined_def)

lemma joined_spec:
  assumes "joined s D E u i" "key \<noteq> UNIVERSE" "\<And>f. key \<noteq> PARENTS f"
  shows "idset E (set_spec H low s key) = idset D (set_spec H low s key)"
proof -
  have "(x, u) \<notin> (edges s f)\<^sup>+" for x f
  proof
    assume "(x, u) \<in> (edges s f)\<^sup>+"
    then obtain y where "(y, u) \<in> edges s f" by (meson tranclE)
    then show False using joined_without [OF assms(1)] by (auto simp: edges_def)
  qed
  then have "u \<notin> set_spec H low s key"
    using assms(2,3) joined_without [OF assms(1)] assms(1) by (cases key) (auto simp: joined_def)
  then show ?thesis using joined_idset [OF assms(1)] by simp
qed

lemma values_at_cells: "cells t = cells s \<Longrightarrow> values_at t u f = values_at s u f"
  by (simp add: values_at_def kv_rows_named_def)

lemma set_spec_cells:
  assumes "cells t = cells s" "key \<noteq> UNIVERSE"
  shows "set_spec H low t key = set_spec H low s key"
proof -
  have "values_at t u f = values_at s u f" for u f by (rule values_at_cells [OF assms(1)])
  then show ?thesis using assms(2) by (cases key) (simp_all add: with_value_def edges_def)
qed

lemma derived_cells:
  assumes "cells t = cells s"
  shows "parts_exact H t D = parts_exact H s D" "kids_exact t D = kids_exact s D" "grams_exact low t D = grams_exact low s D"
proof -
  have "values_at t u f = values_at s u f" for u f by (rule values_at_cells [OF assms])
  then show "parts_exact H t D = parts_exact H s D" "kids_exact t D = kids_exact s D" "grams_exact low t D = grams_exact low s D"
    by (simp_all add: parts_exact_def part_exact_def kids_exact_def grams_exact_def with_value_def)
qed

lemma parents_of_new:
  assumes "kids_exact s D" "\<And>w f x. x \<in> set (values_at s w f) \<Longrightarrow> tget (dv_ids D) w \<noteq> None"
  shows "f \<in> set (parent_fields D u) \<longleftrightarrow> u \<in> set_spec H low s (PARENTS f)"
  unfolding parent_fields_iff [OF assms(1)] has_kids_iff [OF assms(1)] using assms(2) by (fastforce simp: with_value_def)

lemma kv_create_exact:
  assumes c: "kv_create u n (s, D) = Inr (t, D')" and inv: "rows_inv H s" and de: "derived_exact H low (s, D)"
  shows "derived_exact H low (t, D')"
proof -
  have k: "create_metarecord_row u n s = Inr t" "derive_created u D = Inr D'" using c by (auto simp: kv_create_def split: sum.splits)
  note r = create_metarecord_row_ok [OF k(1) inv] and e = derived_exactD [OF de]
  note cells = r(3)
  define i where "i = nat (next_id D)"
  define E where "E = set_member UNIVERSE i True (D\<lparr>next_id := next_id D + 1, dv_ids := tput u i (dv_ids D), dv_uuids := tput i u (dv_uuids D)\<rparr>)"
  have "0 \<le> next_id D \<and> next_id D < 2 ^ 32" and D': "D' = fold (\<lambda>f. set_member (PARENTS f) i True) (parent_fields E u) E"
    using k(2) by (auto simp: derive_created_def bindE_eq_Inr checkE_def Let_def i_def E_def parent_fields_def set_member_def split: if_splits)
  then have ni: "int i = next_id D" "next_id D < 2 ^ 32" by (simp_all add: i_def)
  have nu: "tget (dv_ids D) u = None" using ids_exactD(2) [OF e(1)] r(2) by simp
  have below: "\<forall>w j. tget (dv_ids D) w = Some j \<longrightarrow> int j < next_id D" using e(1) unfolding ids_exact_def by blast
  have fresh: "tget (dv_ids D) w \<noteq> Some i" for w using below ni(1) by force
  have novals: "values_at s u f = []" for f
  proof -
    have "x \<notin> set (values_at s u f)" for x using values_exist [OF inv, of x u f] r(2) by blast
    then show ?thesis by (cases "values_at s u f") force+
  qed
  note f = fold_parents [of i True "parent_fields E u" E, folded D']
  have D'_simps: "dv_ids D' = tput u i (dv_ids D)" "dv_uuids D' = tput i u (dv_uuids D)" "next_id D' = next_id D + 1"
    "dv_parts D' = dv_parts D" "dv_kids D' = dv_kids D" "dv_grams D' = dv_grams D"
    using f by (simp_all add: E_def set_member_def)
  have j: "joined s D D' u i" using nu fresh novals by (simp add: joined_def D'_simps)
  have sets: "dv_sets D' key = (if key = UNIVERSE then insert i (dv_sets D UNIVERSE)
      else if \<exists>f\<in>set (parent_fields E u). key = PARENTS f then insert i (dv_sets D key) else dv_sets D key)" for key
    using f [of key] by (auto simp: E_def set_member_def member_def)
  have ids: "ids_exact t D'"
  proof -
    have "tget (dv_uuids D) i = None" using fresh ids_exactD(1) [OF e(1)] by (metis option.exhaust)
    have old: "ordered (dv_ids D)" "ordered (dv_uuids D)" "0 < next_id D"
      "\<And>w j. tget (dv_ids D) w = Some j \<longleftrightarrow> tget (dv_uuids D) j = Some w"
      "\<And>w. tget (dv_ids D) w \<noteq> None \<longleftrightarrow> kv_version s w \<noteq> None"
      using e(1) unfolding ids_exact_def by blast+
    show ?thesis unfolding ids_exact_def D'_simps
    proof (intro conjI allI)
      fix w j
      show "tget (tput u i (dv_ids D)) w = Some j \<longleftrightarrow> tget (tput i u (dv_uuids D)) j = Some w"
      proof -
        have "tget (dv_uuids D) j \<noteq> Some u" using old(4) [of u j] nu by simp
        moreover have "tget (dv_ids D) w \<noteq> Some i" by (rule fresh)
        ultimately show ?thesis using old(4) [of w j] by (cases "w = u"; cases "j = i") auto
      qed
      show "tget (tput u i (dv_ids D)) w \<noteq> None \<longleftrightarrow> kv_version t w \<noteq> None" using old(5) [of w] r(5) [of w] by auto
      show "tget (tput u i (dv_ids D)) w = Some j \<longrightarrow> int j < next_id D + 1" using below [rule_format, of w j] ni by (cases "w = u") auto
    qed (use old ni in simp_all)
  qed
  have kE: "parent_fields E u = parent_fields D u" by (simp add: E_def parent_fields_def set_member_def)
  have live: "x \<in> set (values_at s w f) \<Longrightarrow> tget (dv_ids D) w \<noteq> None" for w f x
    using live_ids [OF inv e(1)] by blast
  have "set_exact H low t D' key" for key
  proof (cases "key = UNIVERSE")
    case True
    have "set_spec H low t UNIVERSE = insert u (set_spec H low s UNIVERSE)" using r(5) by auto
    moreover have "dv_sets D UNIVERSE = idset D (set_spec H low s UNIVERSE)" using e(4) [of UNIVERSE] by (simp add: set_exact_plain)
    ultimately have "dv_sets D' UNIVERSE = idset D' (set_spec H low t UNIVERSE)"
      using sets [of UNIVERSE] joined_idset [OF j, of "insert u (set_spec H low s UNIVERSE)"] nu by (auto simp: idset_def)
    then show ?thesis using True by (simp add: set_exact_def)
  next
    case False
    note spec = set_spec_cells [OF cells False, of H low]
    show ?thesis
    proof (cases "\<exists>f. key = PARENTS f")
      case True
      then obtain g where g: "key = PARENTS g" by blast
      have "dv_sets D key = idset D (set_spec H low s key)" using e(4) [of key] g by (simp add: set_exact_plain)
      moreover have "(\<exists>f\<in>set (parent_fields E u). key = PARENTS f) \<longleftrightarrow> u \<in> set_spec H low s key"
        using parents_of_new [OF e(3) live, where f = g and u = u and H = H and low = low] kE g by auto
      ultimately have "dv_sets D' key = idset D' (set_spec H low s key)" using sets [of key] False joined_idset [OF j, of "set_spec H low s key"] by simp
      then show ?thesis by (simp add: set_exact_def spec)
    next
      case np: False
      have "dv_sets D' key = dv_sets D key" using sets [of key] False np by auto
      then show ?thesis using e(4) [of key] joined_spec [OF j False, of H low] np by (auto simp: set_exact_def spec)
    qed
  qed
  then have "\<forall>key. set_exact H low t D' key" by blast
  moreover have "parts_exact H t D'" using e(2) joined_parts [OF j] derived_cells [OF cells] by simp
  moreover have "kids_exact t D'" using e(3) joined_kids [OF j] derived_cells [OF cells] by simp
  moreover have "grams_exact low t D'" using e(5) joined_grams [OF j] derived_cells [OF cells] by simp
  ultimately show ?thesis using ids by (simp add: derived_exact_def)
qed

text \<open>A metarecord goes: its rows first, then its id.\<close>

lemma derive_removed_exact:
  assumes de: "derived_exact H low (s, D)" and inv: "rows_inv H s" and empty: "\<And>f. values_at s u f = []"
  shows "derived_exact H low (s\<lparr>metarecords := tdel u (metarecords s)\<rparr>, derive_removed u D)"
proof -
  note e = derived_exactD [OF de]
  define t where "t = s\<lparr>metarecords := tdel u (metarecords s)\<rparr>"
  have cells: "cells t = cells s" by (simp add: t_def)
  have ver: "kv_version t w = (if w = u then None else kv_version s w)" for w by (simp add: t_def kv_version_def)
  show ?thesis
  proof (cases "tget (dv_ids D) u")
    case None
    have "kv_version s u = None" using None ids_exactD(2) [OF e(1)] by simp
    then have same: "kv_version t w = kv_version s w" for w using ver by simp
    have "set_spec H low t key = set_spec H low s key" for key using set_spec_cells [OF cells] same by (cases "key = UNIVERSE") auto
    then have "set_exact H low t D key" for key using e(4) [of key] by (simp add: set_exact_def)
    then have "\<forall>key. set_exact H low t D key" by blast
    moreover have "ids_exact t D" using e(1) unfolding ids_exact_def same .
    ultimately show ?thesis using None e(2,3,5) derived_cells [OF cells]
      by (simp add: derived_exact_def derive_removed_def t_def [symmetric])
  next
    case (Some i)
    define E where "E = set_member UNIVERSE i False (D\<lparr>dv_ids := tdel u (dv_ids D), dv_uuids := tdel i (dv_uuids D)\<rparr>)"
    define D' where "D' = derive_removed u D"
    have D': "D' = fold (\<lambda>f. set_member (PARENTS f) i False) (parent_fields E u) E"
      by (simp add: D'_def derive_removed_def Some E_def Let_def)
    note f = fold_parents [of i False "parent_fields E u" E, folded D']
    have D'_simps: "dv_ids D' = tdel u (dv_ids D)" "dv_uuids D' = tdel i (dv_uuids D)" "next_id D' = next_id D"
      "dv_parts D' = dv_parts D" "dv_kids D' = dv_kids D" "dv_grams D' = dv_grams D"
      using f by (simp_all add: E_def set_member_def)
    have other: "tget (tdel u (dv_ids D)) w \<noteq> Some i" for w
    proof (cases "w = u")
      case False
      then have "tget (dv_ids D) w \<noteq> Some i" using ids_inj [OF e(1) _ Some] by blast
      then show ?thesis using False by simp
    qed simp
    have "tget (dv_ids D) = (tget (tdel u (dv_ids D)))(u \<mapsto> i)" using Some by (simp add: fun_upd_idem)
    then have j: "joined s D' D u i" using other empty by (simp add: joined_def D'_simps)
    have sets: "dv_sets D' key = (if key = UNIVERSE then dv_sets D UNIVERSE - {i}
        else if \<exists>f\<in>set (parent_fields E u). key = PARENTS f then dv_sets D key - {i} else dv_sets D key)" for key
      using f [of key] by (auto simp: E_def set_member_def member_def)
    have ids: "ids_exact t D'"
    proof -
      have old: "ordered (dv_ids D)" "ordered (dv_uuids D)" "0 < next_id D" "next_id D \<le> 2 ^ 32"
        "\<And>w j. tget (dv_ids D) w = Some j \<longleftrightarrow> tget (dv_uuids D) j = Some w"
        "\<And>w. tget (dv_ids D) w \<noteq> None \<longleftrightarrow> kv_version s w \<noteq> None" "\<And>w j. tget (dv_ids D) w = Some j \<longrightarrow> int j < next_id D"
        using e(1) unfolding ids_exact_def by blast+
      show ?thesis unfolding ids_exact_def D'_simps
      proof (intro conjI allI)
        fix w j
        show "tget (tdel u (dv_ids D)) w = Some j \<longleftrightarrow> tget (tdel i (dv_uuids D)) j = Some w"
        proof (cases "w = u")
          case True
          then show ?thesis using old(5) [of u j] Some by auto
        next
          case False
          have "tget (dv_ids D) w \<noteq> Some i" using ids_inj [OF e(1) _ Some] False by blast
          then show ?thesis using False old(5) [of w j] by auto
        qed
        show "tget (tdel u (dv_ids D)) w \<noteq> None \<longleftrightarrow> kv_version t w \<noteq> None" using old(6) [of w] ver [of w] by auto
        show "tget (tdel u (dv_ids D)) w = Some j \<longrightarrow> int j < next_id D" using old(7) [of w j] by (cases "w = u") auto
      qed (use old in simp_all)
    qed
    have kE: "parent_fields E u = parent_fields D u" by (simp add: E_def parent_fields_def set_member_def)
    have live: "x \<in> set (values_at s w f) \<Longrightarrow> tget (dv_ids D) w \<noteq> None" for w f x using live_ids [OF inv e(1)] by blast
    have "set_exact H low t D' key" for key
    proof (cases "key = UNIVERSE")
      case True
      have "set_spec H low s UNIVERSE = insert u (set_spec H low t UNIVERSE)" using ver ids_exactD(2) [OF e(1), of u] Some by auto
      moreover have "u \<notin> set_spec H low t UNIVERSE" by (simp add: ver)
      moreover have "dv_sets D UNIVERSE = idset D (set_spec H low s UNIVERSE)" using e(4) [of UNIVERSE] by (simp add: set_exact_plain)
      ultimately have "dv_sets D' UNIVERSE = idset D' (set_spec H low t UNIVERSE)"
      proof -
        have "idset D' (insert u A) = idset D' A" for A by (auto simp: idset_def D'_simps)
        then have "idset D (insert u (set_spec H low t UNIVERSE)) = insert i (idset D' (set_spec H low t UNIVERSE))"
          using joined_idset [OF j, of "insert u (set_spec H low t UNIVERSE)"] by simp
        moreover have "dv_sets D' UNIVERSE = dv_sets D UNIVERSE - {i}" using sets [of UNIVERSE] by simp
        ultimately show ?thesis using joined_fresh [OF j] \<open>dv_sets D UNIVERSE = _\<close> \<open>set_spec H low s UNIVERSE = _\<close> by (simp only: insert_Diff1 Diff_insert_absorb insertI1 not_False_eq_True) simp
      qed
      then show ?thesis using True by (simp add: set_exact_def)
    next
      case False
      note spec = set_spec_cells [OF cells False, of H low]
      show ?thesis
      proof (cases "\<exists>f. key = PARENTS f")
        case True
        then obtain g where g: "key = PARENTS g" by blast
        have "dv_sets D key = idset D (set_spec H low s key)" using e(4) [of key] g by (simp add: set_exact_plain)
        moreover have "(\<exists>f\<in>set (parent_fields E u). key = PARENTS f) \<longleftrightarrow> u \<in> set_spec H low s key"
          using parents_of_new [OF e(3) live, where f = g and u = u and H = H and low = low] kE g by auto
        ultimately have "dv_sets D' key = idset D' (set_spec H low s key)"
          using sets [of key] False joined_idset [OF j, of "set_spec H low s key"] joined_fresh [OF j, of "set_spec H low s key"] by simp
        then show ?thesis by (simp add: set_exact_def spec)
      next
        case np: False
        have "dv_sets D' key = dv_sets D key" using sets [of key] False np by auto
        then show ?thesis using e(4) [of key] joined_spec [OF j False, of H low] np by (auto simp: set_exact_def spec)
      qed
    qed
    then have "\<forall>key. set_exact H low t D' key" by blast
    moreover have "parts_exact H t D'" using e(2) joined_parts [OF j] derived_cells [OF cells] by simp
    moreover have "kids_exact t D'" using e(3) joined_kids [OF j] derived_cells [OF cells] by simp
    moreover have "grams_exact low t D'" using e(5) joined_grams [OF j] derived_cells [OF cells] by simp
    ultimately show ?thesis using ids by (simp add: derived_exact_def t_def [symmetric] D'_def [symmetric])
  qed
qed

lemma kv_delete_rows_exact:
  assumes "kv_delete_rows H low u name (s, D) = Inr (t, D')" "rows_inv H s" "derived_exact H low (s, D)" "placed s" "kv_version s ZERO_UUID = None"
  shows "derived_exact H low (t, D')" "t = delete_rows H u name s" "placed t"
proof -
  have "derived_exact H low (t, D') \<and> t = foldl (\<lambda>s r. if p r then delete_row H (row_id r) s else s) s rs \<and> placed t"
    if "foldE (\<lambda>row st. if p row then kv_delete H low (row_id row) st else Inr st) rs (s, D) = Inr (t, D')"
      "rows_inv H s" "derived_exact H low (s, D)" "placed s" "kv_version s ZERO_UUID = None" for rs s D p
    using that
  proof (induction rs arbitrary: s D)
    case (Cons r rs)
    show ?case
    proof (cases "p r")
      case True
      then obtain s' E where x: "kv_delete H low (row_id r) (s, D) = Inr (s', E)"
        "foldE (\<lambda>row st. if p row then kv_delete H low (row_id row) st else Inr st) rs (s', E) = Inr (t, D')"
        using Cons(2) by (auto simp: bindE_eq_Inr)
      note d = kv_delete_exact [OF x(1) Cons(3-6)] and s' = kv_delete_ok [OF x(1)]
      have "kv_version s' ZERO_UUID = None" using Cons(6) by (simp add: s' kv_version_def)
      then show ?thesis using Cons(1) [OF x(2) _ d] delete_row_inv [OF Cons(3)] True s' by auto
    next
      case False
      then show ?thesis using Cons by (simp add: bindE_def)
    qed
  qed simp
  note all = this [of "\<lambda>row. case name of None \<Rightarrow> True | Some n \<Rightarrow> n = row_name row" "kv_rows s u" s D]
  have "derived_exact H low (t, D') \<and> t = delete_rows H u name s \<and> placed t"
    unfolding delete_rows_def by (rule all [OF _ assms(2-5)]) (use assms(1) in \<open>simp add: kv_delete_rows_def\<close>)
  then show "derived_exact H low (t, D')" "t = delete_rows H u name s" "placed t" by blast+
qed

lemma kv_remove_exact:
  assumes "kv_remove H low u (s, D) = Inr (t, D')" "rows_inv H s" "derived_exact H low (s, D)" "placed s" "kv_version s ZERO_UUID = None"
  shows "derived_exact H low (t, D')"
proof -
  obtain s1 D1 where x: "kv_delete_rows H low u None (s, D) = Inr (s1, D1)" "t = s1\<lparr>metarecords := tdel u (metarecords s1)\<rparr>" "D' = derive_removed u D1"
    using assms(1) by (auto simp: kv_remove_def bindE_eq_Inr)
  note d = kv_delete_rows_exact [OF x(1) assms(2-5)]
  have inv: "rows_inv H s1" unfolding d(2) by (rule delete_rows_inv [OF assms(2)])
  have "tget (cells s1) (u, n, i) = None" for n i unfolding d(2) delete_rows_cells [OF assms(2)] by (simp add: named_def)
  then have "values_at s1 u f = []" for f using kv_rows_named_Nil [OF inv, of u f] by (simp add: values_at_def)
  then show ?thesis unfolding x(2,3) by (rule derive_removed_exact [OF d(1) inv])
qed

end
