(* ===== verification/Kv_Store.thy ===== *)
theory Kv_Store
  imports Kv_Queries Derived_Laws
begin

text \<open>
  The store and its query index together: the writes keep the derived key spaces exact, and over exact
  key spaces a query returns what the oracle returns.
\<close>

section \<open>The empty store\<close>

lemma values_at_empty [simp]: "values_at empty_rows u f = []"
  by (simp add: values_at_def kv_rows_named_def empty_rows_def tscan_def)

lemma derived_exact_empty: "derived_exact H low (empty_rows, empty_derived)"
proof -
  have w: "with_value empty_rows f p = {}" for f p by (simp add: with_value_def)
  have e: "edges empty_rows f = {}" for f by (simp add: edges_def w)
  have v: "kv_version empty_rows u = None" for u by (simp add: kv_version_def empty_rows_def)
  have "set_exact H low empty_rows empty_derived key" for key
    by (cases key) (simp_all add: set_exact_def idset_def empty_derived_def w e v)
  then have "\<forall>key. set_exact H low empty_rows empty_derived key" by blast
  then show ?thesis
    by (simp add: derived_exact_def ids_exact_def parts_exact_def part_exact_def kids_exact_def grams_exact_def w v)
      (simp add: empty_derived_def idset_def)
qed

section \<open>A store with one row\<close>

definition one_record :: kv where
  "one_record = (empty_rows\<lparr>metarecords := [(7, 0)]\<rparr>,
     set_member UNIVERSE 1 True (empty_derived\<lparr>next_id := 2, dv_ids := [(7, 1)], dv_uuids := [(1, 7)]\<rparr>))"

lemma one_record_created: "kv_create 7 0 (empty_rows, empty_derived) = Inr one_record"
  by (simp add: kv_create_def create_metarecord_row_def empty_rows_def derive_created_def empty_derived_def parent_fields_def tscan_def
      Let_def bindE_def checkE_def tget_def one_record_def set_member_def)

lemma one_row_inserted:
  "\<exists>s. insert_row (\<lambda>_. 0) 7 ''tag'' (VString ''x'') None (fst one_record) = Inr (1, s) \<and> metarecords s = [(7, 0)] \<and>
    cells s = [((7, ''tag'', 1), \<lparr>row_id = 1, row_name = ''tag'', row_value = VString ''x''\<rparr>)]"
  by (simp add: one_record_def insert_row_def kv_version_def forest_key_def take_row_id_def empty_rows_def tget_def bindE_def checkE_def put_row_def count_type_def Let_def)

lemma derive_text: "tget (dv_ids D) u = Some i \<Longrightarrow> \<exists>D'. derive_row H low s u f (VString x) delta D = Inr D' \<and> dv_ids D' = dv_ids D"
  by (simp add: derive_row_def optE_def bindE_def Let_def derive_referrers_def target_of_def derive_texts_def search_text_def derive_presence_def
      set_member_def derive_kids_def derive_values_def derive_posting_def chunk_apply_def bump_part_def name_part_key_def)

lemma one_row:
  obtains s D where "kv_insert (\<lambda>_. 0) low 7 ''tag'' (VString ''x'') None one_record = Inr (1, s, D)" "dv_ids D = [(7, 1)]"
    "metarecords s = [(7, 0)]" "cells s = [((7, ''tag'', 1), \<lparr>row_id = 1, row_name = ''tag'', row_value = VString ''x''\<rparr>)]"
proof -
  obtain s where s: "insert_row (\<lambda>_. 0) 7 ''tag'' (VString ''x'') None (fst one_record) = Inr (1, s)" "metarecords s = [(7, 0)]"
    "cells s = [((7, ''tag'', 1), \<lparr>row_id = 1, row_name = ''tag'', row_value = VString ''x''\<rparr>)]" using one_row_inserted by blast
  have "dv_ids (snd one_record) = [(7, 1)]" by (simp add: one_record_def set_member_def)
  then obtain D where "derive_row (\<lambda>_. 0) low s 7 ''tag'' (VString ''x'') 1 (snd one_record) = Inr D" "dv_ids D = [(7, 1)]"
    using derive_text [of "snd one_record" 7 1 "\<lambda>_. 0" low s "''tag''" "''x''" 1] by (auto simp: tget_def)
  then show ?thesis using that s by (simp add: kv_insert_def)
qed

lemma one_record_good: "rows_inv H (fst one_record)" "derived_exact H low one_record"
proof -
  have "create_metarecord_row 7 0 empty_rows = Inr (fst one_record)"
    by (simp add: one_record_def create_metarecord_row_def empty_rows_def)
  then show "rows_inv H (fst one_record)" using create_metarecord_row_ok(1) [OF _ rows_inv_empty] by blast
  obtain s D where sD: "one_record = (s, D)" by (cases one_record)
  show "derived_exact H low one_record" unfolding sD
    by (rule kv_create_exact [OF one_record_created [unfolded sD] rows_inv_empty derived_exact_empty])
qed

lemma one_record_zero: "kv_version (fst one_record) ZERO_UUID = None"
  by (simp add: one_record_def kv_version_def tget_def ZERO_UUID_def)

lemma one_row_values:
  assumes "cells s = [((7, ''tag'', 1), \<lparr>row_id = 1, row_name = ''tag'', row_value = VString ''x''\<rparr>)]"
  shows "values_at s u f = (if u = 7 \<and> f = ''tag'' then [VString ''x''] else [])"
  by (simp add: values_at_def kv_rows_named_def tscan_def assms)

lemma one_row_placed:
  assumes "cells s = [((7, ''tag'', 1), \<lparr>row_id = 1, row_name = ''tag'', row_value = VString ''x''\<rparr>)]"
  shows "placed s" "metarecords s = [(7, 0)] \<Longrightarrow> stored_ok H s"
  by (auto simp: placed_def stored_ok_def one_row_values [OF assms] kv_version_def tget_def ZERO_UUID_def split: if_splits)

lemma one_row_good:
  assumes "kv_insert (\<lambda>_. 0) low 7 ''tag'' (VString ''x'') None one_record = Inr (1, s, D)"
    and "cells s = [((7, ''tag'', 1), \<lparr>row_id = 1, row_name = ''tag'', row_value = VString ''x''\<rparr>)]"
  shows "rows_inv (\<lambda>_. 0) s" "derived_exact (\<lambda>_. 0) low (s, D)"
proof -
  obtain s0 D0 where r: "one_record = (s0, D0)" by (cases one_record)
  note i = assms(1) [unfolded r]
  have v: "kv_version s0 ZERO_UUID = None" by (rule one_record_zero [unfolded r fst_conv])
  show "rows_inv (\<lambda>_. 0) s" by (rule insert_row_ok(1) [OF kv_insert_ok(1) [OF i] one_record_good(1) [of "\<lambda>_. 0", unfolded r fst_conv]]) simp
  show "derived_exact (\<lambda>_. 0) low (s, D)"
    by (rule kv_insert_exact [OF i one_record_good(1) [of "\<lambda>_. 0", unfolded r fst_conv] _ one_record_good(2) [unfolded r] one_row_placed(1) [OF assms(2)] v]) simp
qed

section \<open>Integers of one key\<close>

text \<open>An integer beyond \<open>2 ^ 53\<close> is keyed by the float nearest to it, so \<open>same\<close> takes two such integers for
  one value where the reference evaluator tells them apart.\<close>

lemma integers_of_one_key:
  "value_key H (VInt 9007199254740993) = value_key H (VInt 9007199254740992)"
  "\<not> same_value (VInt 9007199254740993) (VInt 9007199254740992)"
  by (simp_all add: i64_as_f64_def f64_of_int_def bit_count.simps round_even_def same_value_def)

theorem same_as_merges_integers:
  assumes "derived_exact H low (s, D)" "ids_exact s D"
    and "VInt 9007199254740992 \<in> set (values_at s u f)" "VInt 9007199254740993 \<in> set (values_at s w f)"
    and "tget (dv_ids D) u = Some i" "tget (dv_ids D) w = Some j"
  shows "j \<in> kv_same_as H (s, D) f {i}"
proof -
  obtain k where k: "value_key H (VInt 9007199254740992) = Some k" "value_key H (VInt 9007199254740993) = Some k" "\<not> is_hashed k"
    using integers_of_one_key(1) [of H] by (auto simp: is_hashed_def)
  have "VInt 9007199254740992 \<in> set (kv_values (s, D) i f)" using assms(3) kv_values_id [OF assms(2,5)] by simp
  then have w: "k \<in> fst ` set (List.map_filter (\<lambda>v. map_option (\<lambda>k. (k, v)) (value_key H v)) (kv_values (s, D) i f))"
    using k(1) by (force simp: List.map_filter_def)
  have "w \<in> with_value s f (\<lambda>v. part_of H VALUE v = Some k)" using assms(4) k(2) by (force simp: with_value_def part_of_def)
  then have "j \<in> bucket D f VALUE k" using assms(6) by (auto simp: bucket_ids [OF assms(1) value_part_key [OF k(1)]] idset_def)
  then show ?thesis using w k(3) by (force simp: kv_same_as_def Let_def)
qed

section \<open>Properties\<close>

text \<open>C7: Every write of the store keeps the derived key spaces exact: the dense ids are those of the
  metarecords, every partition counts the rows of each key, and every set the query index reads (the
  universe, the present and absent fields, the parents, referrers and descendants of a node, the
  postings, the trigrams) is the one the rows define. For the rows of a tree, as long as a metarecord
  has one position in it and there is no cycle, which the writers check.\<close>

theorem derived_kept:
  assumes "rows_inv H s" "derived_exact H low (s, D)" "kv_version s ZERO_UUID = None"
  shows "derived_exact H low (empty_rows, empty_derived) \<and>
    (kv_create u n (s, D) = Inr st1 \<longrightarrow> derived_exact H low st1) \<and>
    (kv_insert H low u f v rid (s, D) = Inr (j, st2) \<and> (\<forall>j. rid = Some j \<longrightarrow> 0 < j) \<and> placed (fst st2) \<longrightarrow> derived_exact H low st2) \<and>
    (kv_delete H low k (s, D) = Inr st3 \<and> placed s \<longrightarrow> derived_exact H low st3) \<and>
    (kv_delete_rows H low u name (s, D) = Inr st4 \<and> placed s \<longrightarrow> derived_exact H low st4) \<and>
    (kv_remove H low u (s, D) = Inr st5 \<and> placed s \<longrightarrow> derived_exact H low st5)"
proof (intro conjI impI)
  show "derived_exact H low (empty_rows, empty_derived)" by (rule derived_exact_empty)
  show "derived_exact H low st1" if "kv_create u n (s, D) = Inr st1"
    using kv_create_exact [OF _ assms(1,2)] that by (cases st1) simp
  show "derived_exact H low st2" if "kv_insert H low u f v rid (s, D) = Inr (j, st2) \<and> (\<forall>j. rid = Some j \<longrightarrow> 0 < j) \<and> placed (fst st2)"
    using kv_insert_exact [OF _ assms(1) _ assms(2) _ assms(3)] that by (cases st2) auto
  show "derived_exact H low st3" if "kv_delete H low k (s, D) = Inr st3 \<and> placed s"
    using kv_delete_exact(1) [OF _ assms(1,2) _ assms(3)] that by (cases st3) auto
  show "derived_exact H low st4" if "kv_delete_rows H low u name (s, D) = Inr st4 \<and> placed s"
    using kv_delete_rows_exact(1) [OF _ assms(1,2) _ assms(3)] that by (cases st4) auto
  show "derived_exact H low st5" if "kv_remove H low u (s, D) = Inr st5 \<and> placed s"
    using kv_remove_exact [OF _ assms(1,2) _ assms(3)] that by (cases st5) auto
qed

theorem derived_kept_witness:
  "\<exists>s D. kv_insert (\<lambda>_. 0) (\<lambda>t. t) 7 ''tag'' (VString ''x'') None one_record = Inr (1, s, D) \<and>
    derived_exact (\<lambda>_. 0) (\<lambda>t. t) (s, D) \<and> dv_sets D (PRESENT ''tag'') = {1}"
proof -
  obtain s D where r: "kv_insert (\<lambda>_. 0) (\<lambda>t. t) 7 ''tag'' (VString ''x'') None one_record = Inr (1, s, D)" "dv_ids D = [(7, 1)]"
    "metarecords s = [(7, 0)]" "cells s = [((7, ''tag'', 1), \<lparr>row_id = 1, row_name = ''tag'', row_value = VString ''x''\<rparr>)]"
    by (rule one_row)
  obtain s0 D0 where o: "one_record = (s0, D0)" by (cases one_record)
  have "kv_version s0 ZERO_UUID = None" by (rule one_record_zero [unfolded o fst_conv])
  then have e: "derived_exact (\<lambda>_. 0) (\<lambda>t. t) (s, D)"
    using derived_kept [OF one_record_good(1) [of "\<lambda>_. 0", unfolded o fst_conv] one_record_good(2) [of "\<lambda>_. 0" "\<lambda>t. t", unfolded o],
        where u = 7 and f = "''tag''" and v = "VString ''x''" and rid = None and j = 1 and ?st2.0 = "(s, D)"] r(1) one_row_placed(1) [OF r(4)] o by simp
  have "dv_sets D (PRESENT ''tag'') = {1}"
    using set_ids [OF e, of "PRESENT ''tag''"] by (auto simp: with_value_def one_row_values [OF r(4)] idset_def r(2) tget_def split: if_splits)
  then show ?thesis using r(1) e by blast
qed



end
