(* ===== verification/Dsl_Lexer.thy ===== *)
theory Dsl_Lexer
  imports Query Date Float
begin

text \<open>
  The lexer of the query language's text form (\<open>core/dsl.rs\<close>). A text is read character by character
  (\<open>chars\<close>), a character being its UTF-8 bytes. Unicode's classes beyond ASCII and the reading of
  uuids (the crate \<open>uuid\<close>) are the fields of \<open>dsl_lib\<close>.
\<close>

section \<open>Characters\<close>

type_synonym rchar = string

function str_chars :: "string \<Rightarrow> rchar list" where
  "str_chars [] = []"
| "str_chars (c # rest) =
     (case utf8_head c rest of
        Inr w \<Rightarrow> (c # take (w - 1) rest) # str_chars (drop (w - 1) rest)
      | Inl _ \<Rightarrow> [c] # str_chars rest)"
  by pat_completeness auto
termination
  by (relation "measure length") auto

record dsl_lib =
  u_alphabetic :: "rchar \<Rightarrow> bool"
  u_numeric :: "rchar \<Rightarrow> bool"
  try_parse :: "string \<Rightarrow> uuid option"

definition ascii_digit :: "rchar \<Rightarrow> bool" where
  "ascii_digit c \<longleftrightarrow> (case c of [x] \<Rightarrow> in_range 48 57 x | _ \<Rightarrow> False)"

definition ascii_alpha :: "rchar \<Rightarrow> bool" where
  "ascii_alpha c \<longleftrightarrow> (case c of [x] \<Rightarrow> in_range 65 90 x \<or> in_range 97 122 x | _ \<Rightarrow> False)"

definition ascii_hex :: "rchar \<Rightarrow> bool" where
  "ascii_hex c \<longleftrightarrow> (case c of [x] \<Rightarrow> in_range 48 57 x \<or> in_range 65 70 x \<or> in_range 97 102 x | _ \<Rightarrow> False)"

definition whitespace :: "rchar \<Rightarrow> bool" where
  "whitespace c \<longleftrightarrow> c \<in> set WHITE_SPACE"

definition alphabetic :: "dsl_lib \<Rightarrow> rchar \<Rightarrow> bool" where
  "alphabetic lib c = (if length c = 1 then ascii_alpha c else u_alphabetic lib c)"

definition alphanumeric :: "dsl_lib \<Rightarrow> rchar \<Rightarrow> bool" where
  "alphanumeric lib c =
     (if length c = 1 then ascii_alpha c \<or> ascii_digit c else u_alphabetic lib c \<or> u_numeric lib c)"

definition word_char :: "dsl_lib \<Rightarrow> rchar \<Rightarrow> bool" where
  "word_char lib c \<longleftrightarrow> alphanumeric lib c \<or> c = ''_''"

section \<open>Tokens\<close>

datatype Tok =
    TLParen | TRParen | TComma | TColon
  | TArrow | TArrowStar | TFatArrowStar
  | THex string
  | TEq | TNeq | TLt | TLte | TGt | TGte
  | TStr string | TInt i64 | TFloat f64 | TDateTime i64 | TIdent string
  | KAnd | KOr | KNot | KIs | KPresent | KAbsent | KUnknown | KMatches | KTrue | KFalse

datatype dsl_error =
    ExpectedStar
  | ExpectedEq
  | ExpectedAfterMinus
  | InvalidDatetime string
  | DatetimeNotInteger
  | ExpectedDatetime
  | UnexpectedChar string
  | Unterminated
  | HyphenatedUuid string uuid
  | TruncatedUuid string
  | InvalidNumber string
  | TrailingInput Tok
  | Expected Tok "Tok option"
  | TooDeep
  | UnknownAspect string
  | ExpectedAspect "Tok option"
  | ExpectedFieldIn string "Tok option"
  | ExpectedListEnd string "Tok option"
  | ExpectedUuid "Tok option"
  | QuotedUuid string
  | OsmAspect OsmMode Aspect
  | ExpectedTerms OsmMode "Tok option"
  | ExpectedPresence "Tok option"
  | UnknownTakesNoAspect
  | ExpectedPattern "Tok option"
  | ArrowTakesNoAspect Tok
  | ExpectedTarget string "Tok option"
  | ExpectedOperator string "Tok option"
  | ExpectedField "Tok option"
  | ExpectedLiteral "Tok option"
  | UuidLiteral string

section \<open>Floats\<close>

text \<open>
  \<open>parse::<f64>\<close> of digits with a point: the float nearest to \<open>p / q\<close>, the even one of two, and
  infinity beyond the greatest. \<open>f\<close> is the place of the leading bit, \<open>e\<close> of the last one kept.
\<close>

definition ratio_log :: "int \<Rightarrow> int \<Rightarrow> int" where
  "ratio_log p q =
     (let l = int (bit_count p) - int (bit_count q)
      in if (if 0 \<le> l then q * 2 ^ nat l \<le> p else q \<le> p * 2 ^ nat (- l)) then l else l - 1)"

definition f64_of_ratio :: "int \<Rightarrow> int \<Rightarrow> int" where
  "f64_of_ratio p q =
     (if p = 0 then 0
      else (let e = max (ratio_log p q - 52) (- 1074);
                n = (if 0 \<le> e then p else p * 2 ^ nat (- e));
                d = (if 0 \<le> e then q * 2 ^ nat e else q);
                m = n div d; r = n mod d;
                m = (if 2 * r > d \<or> (2 * r = d \<and> odd m) then m + 1 else m)
            in min ((e + 1074) * 2 ^ 52 + m) (0x7FF * 2 ^ 52)))"

definition decimal_f64 :: "bool \<Rightarrow> string \<Rightarrow> string \<Rightarrow> f64 option" where
  "decimal_f64 negative whole fraction =
     map_option (\<lambda>n. of_int ((if negative then 2 ^ 63 else 0) + f64_of_ratio n (10 ^ length fraction)))
       (parse_nat (whole @ fraction))"

section \<open>Lexing\<close>

fun lex_string :: "rchar list \<Rightarrow> dsl_error + string \<times> rchar list" where
  "lex_string [] = Inl Unterminated"
| "lex_string (c # cs) =
     (if c = ''\"'' then Inr ([], cs)
      else if c = [CHR 0x5C] then
        (case cs of
           [] \<Rightarrow> Inl Unterminated
         | escaped # rest \<Rightarrow>
             bindE (lex_string rest) (\<lambda>(s, r).
               Inr ((if escaped = ''\"'' \<or> escaped = [CHR 0x5C] then escaped else CHR 0x5C # escaped) @ s, r)))
      else bindE (lex_string cs) (\<lambda>(s, r). Inr (c @ s, r)))"

definition TRUNCATED_UUID_MIN :: nat where
  "TRUNCATED_UUID_MIN = 8"

definition looks_like_truncated_uuid :: "string \<Rightarrow> bool" where
  "looks_like_truncated_uuid text \<longleftrightarrow>
     (let cs = str_chars text
      in length cs \<ge> TRUNCATED_UUID_MIN \<and> length cs \<noteq> 32 \<and> (\<forall>c\<in>set cs. ascii_hex c))"

definition lex_hex_run :: "dsl_lib \<Rightarrow> rchar list \<Rightarrow> dsl_error + (Tok \<times> rchar list) option" where
  "lex_hex_run lib cs =
     (let run = takeWhile ascii_hex cs; rest = dropWhile ascii_hex cs; text = concat run
      in if rest \<noteq> [] \<and> word_char lib (hd rest) then Inr None
         else if length run = 32 then Inr (Some (THex text, rest))
         else if rest \<noteq> [] \<and> hd rest = ''-'' \<and> try_parse lib (concat (take 36 cs)) \<noteq> None then
           Inl (HyphenatedUuid (concat (take 36 cs)) (the (try_parse lib (concat (take 36 cs)))))
         else if ascii_digit (hd cs) \<and> list_ex ascii_alpha run \<and> length run \<ge> TRUNCATED_UUID_MIN then
           Inl (TruncatedUuid text)
         else Inr None)"

definition lex_number :: "rchar list \<Rightarrow> dsl_error + Tok \<times> rchar list" where
  "lex_number cs =
     (let negative = (cs \<noteq> [] \<and> hd cs = ''-'');
          cs1 = (if negative then tl cs else cs);
          whole = concat (takeWhile ascii_digit cs1);
          cs2 = dropWhile ascii_digit cs1;
          sign = (if negative then ''-'' else [])
      in if cs2 \<noteq> [] \<and> hd cs2 = ''.'' then
           (let fraction = concat (takeWhile ascii_digit (tl cs2)); cs3 = dropWhile ascii_digit (tl cs2)
            in case decimal_f64 negative whole fraction of
                 Some f \<Rightarrow> Inr (TFloat f, cs3)
               | None \<Rightarrow> Inl (InvalidNumber (sign @ whole @ ''.'' @ fraction)))
         else (case parse_i64 (sign @ whole) of
                 Some n \<Rightarrow> Inr (TInt (of_int n), cs2)
               | None \<Rightarrow> Inl (InvalidNumber (sign @ whole))))"

definition word_tok :: "string \<Rightarrow> Tok" where
  "word_tok word =
     (if word = ''AND'' then KAnd
      else if word = ''OR'' then KOr
      else if word = ''NOT'' then KNot
      else if word = ''IS'' then KIs
      else if word = ''PRESENT'' then KPresent
      else if word = ''ABSENT'' then KAbsent
      else if word = ''UNKNOWN'' then KUnknown
      else if word = ''MATCHES'' then KMatches
      else if word = ''true'' then KTrue
      else if word = ''false'' then KFalse
      else TIdent word)"

definition lex_word :: "dsl_lib \<Rightarrow> rchar list \<Rightarrow> Tok \<times> rchar list" where
  "lex_word lib cs = (word_tok (concat (takeWhile (word_char lib) cs)), dropWhile (word_char lib) cs)"

definition datetime_tok :: "Tok \<Rightarrow> dsl_error + Tok" where
  "datetime_tok t = (case t of TInt ms \<Rightarrow> Inr (TDateTime ms) | _ \<Rightarrow> Inl DatetimeNotInteger)"

definition lex_datetime :: "rchar list \<Rightarrow> dsl_error + Tok \<times> rchar list" where
  "lex_datetime cs =
     (if cs \<noteq> [] \<and> hd cs = ''\"'' then
        bindE (lex_string (tl cs)) (\<lambda>(s, rest).
        bindE (optE (iso_to_ms s) (InvalidDatetime s)) (\<lambda>ms. Inr (TDateTime (of_int ms), rest)))
      else if cs \<noteq> [] \<and> (ascii_digit (hd cs) \<or> hd cs = ''-'' \<and> tl cs \<noteq> [] \<and> ascii_digit (hd (tl cs))) then
        bindE (lex_number cs) (\<lambda>(t, rest). bindE (datetime_tok t) (\<lambda>t. Inr (t, rest)))
      else Inl ExpectedDatetime)"

text \<open>One turn of the loop: a token, or nothing for white space, and the characters left.\<close>

definition lex_char :: "dsl_lib \<Rightarrow> rchar \<Rightarrow> rchar list \<Rightarrow> dsl_error + Tok option \<times> rchar list" where
  "lex_char lib c cs =
     (let next = (\<lambda>x. cs \<noteq> [] \<and> hd cs = x); next2 = (\<lambda>x. tl cs \<noteq> [] \<and> hd (tl cs) = x);
          emit = (\<lambda>(t, rest). (Some t, rest))
      in if whitespace c then Inr (None, cs)
         else if c = ''('' then Inr (Some TLParen, cs)
         else if c = '')'' then Inr (Some TRParen, cs)
         else if c = '','' then Inr (Some TComma, cs)
         else if c = '':'' then Inr (Some TColon, cs)
         else if c = ''='' then
           (if next ''>'' then
              (if next2 ''*'' then Inr (Some TFatArrowStar, tl (tl cs)) else Inl ExpectedStar)
            else Inr (Some TEq, cs))
         else if c = ''!'' then (if next ''='' then Inr (Some TNeq, tl cs) else Inl ExpectedEq)
         else if c = ''<'' then (if next ''='' then Inr (Some TLte, tl cs) else Inr (Some TLt, cs))
         else if c = ''>'' then (if next ''='' then Inr (Some TGte, tl cs) else Inr (Some TGt, cs))
         else if c = ''-'' then
           (if next ''>'' then
              (if next2 ''*'' then Inr (Some TArrowStar, tl (tl cs)) else Inr (Some TArrow, tl cs))
            else if cs \<noteq> [] \<and> ascii_digit (hd cs) then map_sum id emit (lex_number (c # cs))
            else Inl ExpectedAfterMinus)
         else if c = ''\"'' then bindE (lex_string cs) (\<lambda>(s, rest). Inr (Some (TStr s), rest))
         else if c = ''@'' then map_sum id emit (lex_datetime cs)
         else if ascii_digit c then map_sum id emit (lex_number (c # cs))
         else if alphabetic lib c \<or> c = ''_'' then Inr (emit (lex_word lib (c # cs)))
         else Inl (UnexpectedChar c))"

definition lex_turn :: "dsl_lib \<Rightarrow> rchar \<Rightarrow> rchar list \<Rightarrow> dsl_error + Tok option \<times> rchar list" where
  "lex_turn lib c cs =
     (if ascii_hex c
      then bindE (lex_hex_run lib (c # cs)) (\<lambda>found.
             case found of Some (t, rest) \<Rightarrow> Inr (Some t, rest) | None \<Rightarrow> lex_char lib c cs)
      else lex_char lib c cs)"

section \<open>Every turn takes a character\<close>

lemma lex_string_shorter: "lex_string cs = Inr (s, r) \<Longrightarrow> length r < length cs"
proof (induction cs arbitrary: s r rule: lex_string.induct)
  case (2 c cs)
  show ?case
  proof (cases "c = [CHR 0x5C]")
    case True
    then obtain e rest where cs: "cs = e # rest" using 2(3) by (cases cs) auto
    then obtain s' where "lex_string rest = Inr (s', r)" using 2(3) True by (auto simp: bindE_eq_Inr)
    then have "length r < length rest" using 2(1)[OF _ True cs] True by simp
    then show ?thesis using cs by simp
  next
    case False
    then show ?thesis using 2(2)[OF _ False] 2(3) by (auto simp: bindE_eq_Inr split: if_splits)
  qed
qed simp

lemma length_dropWhile_tl: "P x \<Longrightarrow> length (dropWhile P (x # xs)) < length (x # xs)"
  by (simp add: length_dropWhile_le le_imp_less_Suc)

lemma lex_number_shorter:
  assumes "lex_number cs = Inr (t, r)"
  shows "length r \<le> length cs" "cs \<noteq> [] \<Longrightarrow> ascii_digit (hd cs) \<or> hd cs = ''-'' \<Longrightarrow> length r < length cs"
proof -
  define cs1 where "cs1 = (if cs \<noteq> [] \<and> hd cs = ''-'' then tl cs else cs)"
  have r: "r = dropWhile ascii_digit cs1 \<or> r = dropWhile ascii_digit (tl (dropWhile ascii_digit cs1))"
    using assms unfolding lex_number_def Let_def cs1_def [symmetric] by (auto split: if_splits option.splits)
  have le: "length r \<le> length (dropWhile ascii_digit cs1)"
    using r length_dropWhile_le [of ascii_digit "tl (dropWhile ascii_digit cs1)"] by auto
  have "length cs1 \<le> length cs" by (simp add: cs1_def)
  then show "length r \<le> length cs" using le length_dropWhile_le [of ascii_digit cs1] by linarith
  assume c: "cs \<noteq> []" "ascii_digit (hd cs) \<or> hd cs = ''-''"
  show "length r < length cs"
  proof (cases "hd cs = ''-''")
    case True
    then have "length cs1 < length cs" using c by (cases cs) (auto simp: cs1_def)
    then show ?thesis using le length_dropWhile_le [of ascii_digit cs1] by linarith
  next
    case False
    then have "length (dropWhile ascii_digit cs1) < length cs"
      using c length_dropWhile_tl [of ascii_digit "hd cs" "tl cs"] by (cases cs) (auto simp: cs1_def)
    then show ?thesis using le by simp
  qed
qed

lemma lex_hex_run_shorter:
  assumes "lex_hex_run lib (c # cs) = Inr (Some (t, r))" "ascii_hex c"
  shows "length r < length (c # cs)"
  using assms length_dropWhile_tl [of ascii_hex c cs] by (auto simp: lex_hex_run_def Let_def split: if_splits)

lemma lex_datetime_shorter:
  assumes "lex_datetime cs = Inr (t, r)"
  shows "length r < length cs"
proof (cases "cs \<noteq> [] \<and> hd cs = ''\"''")
  case True
  then show ?thesis
    using assms by (cases cs) (auto simp: lex_datetime_def bindE_eq_Inr dest!: lex_string_shorter)
next
  case False
  then obtain t' where "cs \<noteq> []" "ascii_digit (hd cs) \<or> hd cs = ''-''" "lex_number cs = Inr (t', r)"
    using assms by (auto simp: lex_datetime_def bindE_eq_Inr split: if_splits)
  then show ?thesis using lex_number_shorter(2) by blast
qed

lemma map_emit_eq: "map_sum id (\<lambda>(t, rest). (Some t, rest)) m = Inr (t', r) \<longleftrightarrow> (\<exists>t. m = Inr (t, r) \<and> t' = Some t)"
  by (cases m) auto

lemma lex_char_shorter:
  assumes "lex_char lib c cs = Inr (t, r)"
  shows "length r \<le> length cs"
proof -
  have w: "length (dropWhile (word_char lib) (c # cs)) \<le> length cs" if "alphabetic lib c \<or> c = ''_''"
    using that length_dropWhile_le [of "word_char lib" cs]
    by (auto simp: word_char_def alphabetic_def alphanumeric_def split: if_splits)
  have n: "length r \<le> length cs" if "lex_number (c # cs) = Inr (t', r)" "ascii_digit c \<or> c = ''-''" for t'
    using lex_number_shorter(2) [OF that(1)] that(2) by simp
  show ?thesis
    using assms w n lex_datetime_shorter [of cs] lex_string_shorter [of cs]
    unfolding lex_char_def Let_def map_emit_eq
    by (auto simp: map_emit_eq bindE_eq_Inr lex_word_def less_imp_le split: if_splits)
qed

lemma lex_turn_shorter: "lex_turn lib c cs = Inr (t, r) \<Longrightarrow> length r < length (c # cs)"
  by (auto simp: lex_turn_def bindE_eq_Inr split: if_splits option.splits dest!: lex_char_shorter lex_hex_run_shorter)

function lex_chars :: "dsl_lib \<Rightarrow> rchar list \<Rightarrow> dsl_error + Tok list" where
  "lex_chars lib [] = Inr []"
| "lex_chars lib (c # cs) =
     bindE (lex_turn lib c cs) (\<lambda>(t, rest).
     bindE (lex_chars lib rest) (\<lambda>ts. Inr (case t of Some t \<Rightarrow> t # ts | None \<Rightarrow> ts)))"
  by pat_completeness auto
termination
  by (relation "measure (\<lambda>(_, cs). length cs)") (auto dest: lex_turn_shorter)

definition lex :: "dsl_lib \<Rightarrow> string \<Rightarrow> dsl_error + Tok list" where
  "lex lib input = lex_chars lib (str_chars input)"

end
