(* ===== verification/Simp_Lexer.thy ===== *)
theory Simp_Lexer
  imports Dsl_Lexer
begin

text \<open>
  The tokenizer of the simplified query language (\<open>core/simplified/lexer.rs\<close>). A text is a list of
  characters, as in \<open>Dsl_Lexer\<close>; the loop carries the character before the one it looks at, which is what
  \<open>uuid_run_end\<close> asks of the characters already read.
\<close>

section \<open>Tokens\<close>

datatype TokKind = KWord | KNumber | KStr | KSymbol | KUuid | KLParen | KRParen

record stok =
  tk_kind :: TokKind
  tk_text :: string

definition stok :: "TokKind \<Rightarrow> string \<Rightarrow> stok" where
  "stok k t = \<lparr>tk_kind = k, tk_text = t\<rparr>"

text \<open>What the simplified language refuses, in every module of it.\<close>

datatype simp_error =
    UnterminatedLiteral
  | NoNameAfterDollar
  | UnterminatedBlock
  | UnknownCapture string
  | ListInterpolated string
  | DivisionByZero
  | ModuloByZero
  | UnknownOperator char
  | Arity string nat nat
  | NumOfText string
  | NumOfList
  | StrOfList
  | JoinSeparator
  | JoinOfText
  | UnknownFunction string
  | NumberFromText
  | NumberFromList
  | ListBlock
  | BadNumber string
  | UnterminatedString
  | DanglingEscape
  | UnexpectedIn string
  | TrailingIn
  | NotACall string
  | ExpectedParen
  | UnexpectedTok
  | AlternativeBeforeProduction string
  | NoAlternatives string
  | EmptyAlternative
  | TrailingPattern
  | RecursionLimit string
  | UnknownProduction string
  | TrailingText string
  | NoMatch
  | NoQuery
  | UnknownRule string string
  | LiteralEmpty string string
  | LiteralPieces string string "string list"
  | LiteralNotLexable string string
  | InProduction string simp_error
  | LeftRecursion string
  | NoFuel

section \<open>Lexing\<close>

text \<open>A quoted literal after its opening quote: the characters up to its end, with it, and the rest.\<close>

fun quoted :: "rchar list \<Rightarrow> (rchar list \<times> rchar list) option" where
  "quoted [] = None"
| "quoted (c # cs) =
     (if c = [CHR 0x5C] then
        (case cs of [] \<Rightarrow> None | e # rest \<Rightarrow> map_option (\<lambda>(used, r). (c # e # used, r)) (quoted rest))
      else if c = ''\"'' then Some ([c], cs)
      else map_option (\<lambda>(used, r). (c # used, r)) (quoted cs))"

definition symbol_char :: "dsl_lib \<Rightarrow> rchar \<Rightarrow> bool" where
  "symbol_char lib c \<longleftrightarrow> \<not> whitespace c \<and> \<not> word_char lib c \<and> c \<noteq> ''\"'' \<and> c \<noteq> ''('' \<and> c \<noteq> '')''"

definition uuid_run :: "dsl_lib \<Rightarrow> rchar option \<Rightarrow> rchar list \<Rightarrow> (rchar list \<times> rchar list) option" where
  "uuid_run lib prev cs =
     (let run = takeWhile ascii_hex cs; rest = dropWhile ascii_hex cs
      in if (case prev of None \<Rightarrow> False | Some p \<Rightarrow> ascii_hex p) then None
         else if length run \<noteq> 32 then None
         else if rest \<noteq> [] \<and> word_char lib (hd rest) then None
         else Some (run, rest))"

text \<open>A number: digits, and a fraction where a digit follows the point.\<close>

definition number_run :: "rchar list \<Rightarrow> rchar list \<times> rchar list" where
  "number_run cs =
     (let whole = takeWhile ascii_digit cs; rest = dropWhile ascii_digit cs
      in if rest \<noteq> [] \<and> hd rest = ''.'' \<and> tl rest \<noteq> [] \<and> ascii_digit (hd (tl rest))
         then (whole @ hd rest # takeWhile ascii_digit (tl rest), dropWhile ascii_digit (tl rest))
         else (whole, rest))"

text \<open>One turn of the loop: the token, or none for white space, the characters it takes, and the rest.\<close>

definition simp_turn :: "dsl_lib \<Rightarrow> rchar option \<Rightarrow> rchar \<Rightarrow> rchar list \<Rightarrow> simp_error + stok option \<times> rchar list \<times> rchar list" where
  "simp_turn lib prev c cs =
     (let emit = (\<lambda>k (used, rest). (Some (stok k (concat used)), used, rest))
      in if whitespace c then Inr (None, [c], cs)
         else if c = ''('' then Inr (emit KLParen ([c], cs))
         else if c = '')'' then Inr (emit KRParen ([c], cs))
         else if c = ''\"'' then
           (case quoted cs of None \<Rightarrow> Inl UnterminatedLiteral | Some (used, rest) \<Rightarrow> Inr (emit KStr (c # used, rest)))
         else (case uuid_run lib prev (c # cs) of
             Some run \<Rightarrow> Inr (emit KUuid run)
           | None \<Rightarrow>
               if ascii_digit c then Inr (emit KNumber (number_run (c # cs)))
               else if word_char lib c
               then Inr (emit KWord (takeWhile (word_char lib) (c # cs), dropWhile (word_char lib) (c # cs)))
               else Inr (emit KSymbol (takeWhile (symbol_char lib) (c # cs), dropWhile (symbol_char lib) (c # cs)))))"

lemma quoted_all: "quoted cs = Some (used, rest) \<Longrightarrow> cs = used @ rest"
  by (induction cs arbitrary: used rest rule: quoted.induct) (auto split: if_splits list.splits)

lemma number_run_all: "number_run cs = (used, rest) \<Longrightarrow> cs = used @ rest"
  using takeWhile_dropWhile_id [of ascii_digit cs] takeWhile_dropWhile_id [of ascii_digit "tl (dropWhile ascii_digit cs)"]
  by (cases "dropWhile ascii_digit cs") (auto simp: number_run_def Let_def split: if_splits)

lemma simp_turn_cases:
  assumes "simp_turn lib prev c cs = Inr (t, used, rest)"
  shows "used = [c] \<and> rest = cs \<or> (\<exists>u. quoted cs = Some (u, rest) \<and> used = c # u) \<or>
    uuid_run lib prev (c # cs) = Some (used, rest) \<or> ascii_digit c \<and> number_run (c # cs) = (used, rest) \<or>
    (\<exists>P. P c \<and> used = takeWhile P (c # cs) \<and> rest = dropWhile P (c # cs))"
proof -
  consider "whitespace c \<or> c = ''('' \<or> c = '')''" | "c = ''\"''" "\<not> whitespace c"
    | "\<not> (whitespace c \<or> c = ''('' \<or> c = '')'' \<or> c = ''\"'')" by blast
  then show ?thesis
  proof cases
    case 3
    note t = assms [unfolded simp_turn_def Let_def] and n = 3
    show ?thesis
    proof (cases "uuid_run lib prev (c # cs)")
      case None
      consider "ascii_digit c" | "\<not> ascii_digit c" "word_char lib c" | "\<not> ascii_digit c" "\<not> word_char lib c" by blast
      then show ?thesis
      proof cases
        case 1
        then show ?thesis using t n None by (cases "number_run (c # cs)") simp
      next
        case 2
        then have "word_char lib c \<and> used = takeWhile (word_char lib) (c # cs) \<and> rest = dropWhile (word_char lib) (c # cs)"
          using t n None by simp
        then show ?thesis by blast
      next
        case 3
        then have "symbol_char lib c \<and> used = takeWhile (symbol_char lib) (c # cs) \<and> rest = dropWhile (symbol_char lib) (c # cs)"
          using t n None by (simp add: symbol_char_def)
        then show ?thesis by blast
      qed
    next
      case (Some run)
      then show ?thesis using t n by (cases run) simp
    qed
  next
    case 1
    then have "used = [c] \<and> rest = cs"
      using assms unfolding simp_turn_def Let_def by (cases "whitespace c"; cases "c = ''(''"; cases "c = '')''"; simp)
    then show ?thesis by blast
  next
    case 2
    then have "\<exists>u. quoted cs = Some (u, rest) \<and> used = c # u"
      using assms unfolding simp_turn_def Let_def by (cases "quoted cs") auto
    then show ?thesis by blast
  qed
qed

lemma simp_turn_all:
  assumes "simp_turn lib prev c cs = Inr (t, used, rest)"
  shows "c # cs = used @ rest" "used \<noteq> []"
proof -
  have h: "c # cs = u @ r \<and> u \<noteq> []" if "uuid_run lib prev (c # cs) = Some (u, r)" for u r
    using that takeWhile_dropWhile_id [of ascii_hex "c # cs"] unfolding uuid_run_def Let_def by (auto split: if_splits)
  have n: "c # cs = u @ r \<and> u \<noteq> []" if "ascii_digit c" "number_run (c # cs) = (u, r)" for u r
    using number_run_all [OF that(2)] that by (auto simp: number_run_def Let_def split: if_splits)
  have w: "c # cs = takeWhile P (c # cs) @ dropWhile P (c # cs) \<and> takeWhile P (c # cs) \<noteq> []" if "P c" for P
    using that by simp
  have "c # cs = used @ rest \<and> used \<noteq> []"
    using simp_turn_cases [OF assms]
  proof (elim disjE exE conjE)
    fix P assume p: "P c" "used = takeWhile P (c # cs)" "rest = dropWhile P (c # cs)"
    show ?thesis using w [of P, OF p(1)] unfolding p(2,3) .
  next
    fix u assume "quoted cs = Some (u, rest)" "used = c # u"
    then show ?thesis using quoted_all [of cs u rest] by simp
  qed (auto dest: h n)
  then show "c # cs = used @ rest" "used \<noteq> []" by auto
qed

lemma simp_turn_shorter: "simp_turn lib prev c cs = Inr (t, used, rest) \<Longrightarrow> length rest < length (c # cs)"
  using simp_turn_all [of lib prev c cs t used rest] by (metis length_append length_greater_0_conv less_add_same_cancel2)

function simp_chars :: "dsl_lib \<Rightarrow> rchar option \<Rightarrow> rchar list \<Rightarrow> simp_error + stok list" where
  "simp_chars lib prev [] = Inr []"
| "simp_chars lib prev (c # cs) =
     bindE (simp_turn lib prev c cs) (\<lambda>(t, used, rest).
     bindE (simp_chars lib (Some (last used)) rest) (\<lambda>ts. Inr (case t of Some t \<Rightarrow> t # ts | None \<Rightarrow> ts)))"
  by pat_completeness auto
termination
  by (relation "measure (\<lambda>(_, _, cs). length cs)") (auto dest: simp_turn_shorter)

definition simp_lex :: "dsl_lib \<Rightarrow> string \<Rightarrow> simp_error + stok list" where
  "simp_lex lib input = simp_chars lib None (str_chars input)"

end
