(* ===== verification/Float_Text.thy ===== *)
theory Float_Text
  imports Dsl_Lexer
begin

text \<open>
  The \<open>f64\<close> operations of Rust's standard library the sources call besides comparisons: arithmetic,
  the conversion to an integer, the reading of a text and its printing. A finite float is a fraction;
  a result is the float nearest to the exact one (\<open>f64_of_ratio\<close>).
\<close>

section \<open>Floats as fractions\<close>

definition f64_finite :: "f64 \<Rightarrow> bool" where
  "f64_finite x \<longleftrightarrow> f64_mag x < 2047 * 2 ^ 52"

definition f64_inf :: "f64 \<Rightarrow> bool" where
  "f64_inf x \<longleftrightarrow> f64_mag x = 2047 * 2 ^ 52"

definition f64_signed :: "bool \<Rightarrow> int \<Rightarrow> f64" where
  "f64_signed negative bits = of_int ((if negative then 2 ^ 63 else 0) + bits)"

definition NAN :: f64 where "NAN = f64_signed False (0x7FF8 * 2 ^ 48)"
definition INFINITY :: int where "INFINITY = 2047 * 2 ^ 52"

text \<open>The magnitude of a finite float as a fraction \<open>(p, q)\<close>.\<close>

definition f64_ratio :: "f64 \<Rightarrow> int \<times> int" where
  "f64_ratio x =
     (let e = int (f64_mag x div 2 ^ 52); m = int (f64_mag x mod 2 ^ 52);
          sig = (if e = 0 then m else m + 2 ^ 52);
          ex = (if e = 0 then - 1074 else e - 1075)
      in if 0 \<le> ex then (sig * 2 ^ nat ex, 1) else (sig, 2 ^ nat (- ex)))"

definition signed_ratio :: "f64 \<Rightarrow> int \<times> int" where
  "signed_ratio x = (case f64_ratio x of (p, q) \<Rightarrow> (if f64_neg x then - p else p, q))"

definition f64_of_signed :: "int \<Rightarrow> int \<Rightarrow> f64" where
  "f64_of_signed p q = f64_signed (p < 0) (f64_of_ratio \<bar>p\<bar> q)"

section \<open>Arithmetic\<close>

definition f64_minus :: "f64 \<Rightarrow> f64" where
  "f64_minus x = f64_signed (\<not> f64_neg x) (int (f64_mag x))"

definition f64_add :: "f64 \<Rightarrow> f64 \<Rightarrow> f64" where
  "f64_add x y =
     (if f64_nan x \<or> f64_nan y then NAN
      else if f64_inf x then (if f64_inf y \<and> f64_neg x \<noteq> f64_neg y then NAN else x)
      else if f64_inf y then y
      else (case (signed_ratio x, signed_ratio y) of ((p, q), (p', q')) \<Rightarrow>
              if p * q' + p' * q = 0 then f64_signed (f64_neg x \<and> f64_neg y) 0
              else f64_of_signed (p * q' + p' * q) (q * q')))"

definition f64_sub :: "f64 \<Rightarrow> f64 \<Rightarrow> f64" where
  "f64_sub x y = f64_add x (f64_minus y)"

definition f64_mul :: "f64 \<Rightarrow> f64 \<Rightarrow> f64" where
  "f64_mul x y =
     (let negative = (f64_neg x \<noteq> f64_neg y)
      in if f64_nan x \<or> f64_nan y then NAN
         else if f64_inf x \<or> f64_inf y then (if f64_mag x = 0 \<or> f64_mag y = 0 then NAN else f64_signed negative INFINITY)
         else (case (f64_ratio x, f64_ratio y) of ((p, q), (p', q')) \<Rightarrow> f64_signed negative (f64_of_ratio (p * p') (q * q'))))"

definition f64_div :: "f64 \<Rightarrow> f64 \<Rightarrow> f64" where
  "f64_div x y =
     (let negative = (f64_neg x \<noteq> f64_neg y)
      in if f64_nan x \<or> f64_nan y \<or> f64_inf x \<and> f64_inf y \<or> f64_mag x = 0 \<and> f64_mag y = 0 then NAN
         else if f64_inf x \<or> f64_mag y = 0 then f64_signed negative INFINITY
         else if f64_inf y then f64_signed negative 0
         else (case (f64_ratio x, f64_ratio y) of ((p, q), (p', q')) \<Rightarrow> f64_signed negative (f64_of_ratio (p * q') (q * p'))))"

text \<open>The remainder of the truncated quotient, exact, with the sign of the dividend.\<close>

definition f64_rem :: "f64 \<Rightarrow> f64 \<Rightarrow> f64" where
  "f64_rem x y =
     (if f64_nan x \<or> f64_nan y \<or> f64_inf x \<or> f64_mag y = 0 then NAN
      else if f64_inf y then x
      else (case (f64_ratio x, f64_ratio y) of ((p, q), (p', q')) \<Rightarrow>
              f64_signed (f64_neg x) (f64_of_ratio ((p * q') mod (p' * q)) (q * q'))))"

text \<open>\<open>as i64\<close>: toward zero, the nearest bound out of range, 0 for a NaN.\<close>

definition f64_as_i64 :: "f64 \<Rightarrow> i64" where
  "f64_as_i64 x =
     (if f64_nan x then 0
      else if f64_inf x then (if f64_neg x then of_int (- (2 ^ 63)) else of_int (2 ^ 63 - 1))
      else (case f64_ratio x of (p, q) \<Rightarrow>
              if f64_neg x then of_int (max (- (2 ^ 63)) (- (p div q))) else of_int (min (2 ^ 63 - 1) (p div q))))"

section \<open>Reading\<close>

definition ascii_lower :: "char \<Rightarrow> char" where
  "ascii_lower c = (if in_range 65 90 c then char_of (of_char c + 32 :: nat) else c)"

definition ascii_digits :: "string \<Rightarrow> string \<times> string" where
  "ascii_digits s = (takeWhile (\<lambda>c. digit_value c \<noteq> None) s, dropWhile (\<lambda>c. digit_value c \<noteq> None) s)"

text \<open>The exponent that may follow the digits.\<close>

definition read_exponent :: "string \<Rightarrow> int option" where
  "read_exponent s =
     (case s of
        [] \<Rightarrow> Some 0
      | c # t \<Rightarrow>
          if ascii_lower c = CHR ''e'' then
            (case t of
               CHR ''-'' # t \<Rightarrow> map_option uminus (parse_nat t)
             | CHR ''+'' # t \<Rightarrow> parse_nat t
             | _ \<Rightarrow> parse_nat t)
          else None)"

definition scaled_f64 :: "bool \<Rightarrow> int \<Rightarrow> int \<Rightarrow> f64" where
  "scaled_f64 negative n e = f64_signed negative (if 0 \<le> e then f64_of_ratio (n * 10 ^ nat e) 1 else f64_of_ratio n (10 ^ nat (- e)))"

definition parse_f64 :: "string \<Rightarrow> f64 option" where
  "parse_f64 s =
     (let negative = (s \<noteq> [] \<and> hd s = CHR ''-'');
          t = (if s \<noteq> [] \<and> (hd s = CHR ''-'' \<or> hd s = CHR ''+'') then tl s else s);
          word = map ascii_lower t
      in if word = ''inf'' \<or> word = ''infinity'' then Some (f64_signed negative INFINITY)
         else if word = ''nan'' then Some (f64_signed negative (0x7FF8 * 2 ^ 48))
         else
           (let (whole, rest) = ascii_digits t;
                (fraction, rest) = (if rest \<noteq> [] \<and> hd rest = CHR ''.'' then ascii_digits (tl rest) else ([], rest))
            in if whole = [] \<and> fraction = [] then None
               else Option.bind (read_exponent rest) (\<lambda>e.
                    map_option (\<lambda>n. scaled_f64 negative n (e - int (length fraction))) (parse_nat (whole @ fraction)))))"

section \<open>Printing\<close>

text \<open>The place of the leading decimal digit of a fraction.\<close>

function below_one :: "int \<Rightarrow> int \<Rightarrow> nat" where
  "below_one p q = (if p \<le> 0 \<or> q \<le> p then 0 else Suc (below_one (10 * p) q))"
  by auto
termination by (relation "measure (\<lambda>(p, q). nat (q - p))") auto

declare below_one.simps [simp del]

definition decimal_log :: "int \<Rightarrow> int \<Rightarrow> int" where
  "decimal_log p q = (if q \<le> p then int (length (decimal (p div q))) - 1 else - int (below_one p q))"

text \<open>The two numbers of \<open>n\<close> digits around a fraction, the nearer one first, and upward if neither is.\<close>

definition around :: "int \<Rightarrow> int \<Rightarrow> int \<Rightarrow> int list" where
  "around p q k =
     (let (a, b) = (if 0 \<le> k then (p, q * 10 ^ nat k) else (p * 10 ^ nat (- k), q))
      in if b \<le> 2 * (a mod b) then [a div b + 1, a div b] else [a div b, a div b + 1])"

definition same_float :: "int \<Rightarrow> int \<Rightarrow> int \<Rightarrow> bool" where
  "same_float bits k m \<longleftrightarrow> (if 0 \<le> k then f64_of_ratio (m * 10 ^ nat k) 1 else f64_of_ratio m (10 ^ nat (- k))) = bits"

text \<open>The shortest digits that read back as the float, among enough of them to write any float exactly.\<close>

fun shortest :: "nat list \<Rightarrow> int \<Rightarrow> int \<Rightarrow> int \<Rightarrow> int \<times> int" where
  "shortest [] bits p q = (0, 0)"
| "shortest (n # ns) bits p q =
     (let k = decimal_log p q - int n + 1
      in case filter (same_float bits k) (around p q k) of
           m # _ \<Rightarrow> (if m mod 10 = 0 then (m div 10, k + 1) else (m, k))
         | [] \<Rightarrow> shortest ns bits p q)"

definition place_point :: "int \<Rightarrow> int \<Rightarrow> string" where
  "place_point m k =
     (let s = decimal m; d = nat (- k)
      in if 0 \<le> k then s @ replicate (nat k) CHR ''0''
         else if d < length s then take (length s - d) s @ ''.'' @ drop (length s - d) s
         else ''0.'' @ replicate (d - length s) CHR ''0'' @ s)"

definition f64_to_string :: "f64 \<Rightarrow> string" where
  "f64_to_string x =
     (if f64_nan x then ''NaN''
      else (if f64_neg x then ''-'' else []) @
        (if f64_inf x then ''inf''
         else if f64_mag x = 0 then ''0''
         else (case f64_ratio x of (p, q) \<Rightarrow> case shortest [1..<1400] (int (f64_mag x)) p q of (m, k) \<Rightarrow> place_point m k)))"

text \<open>\<open>to_string\<close> of an \<open>i64\<close>.\<close>

definition i64_to_string :: "i64 \<Rightarrow> string" where
  "i64_to_string n = (if sint n < 0 then ''-'' @ decimal (- sint n) else decimal (sint n))"

end
