(* ===== verification/Simp_Template.thy ===== *)
theory Simp_Template
  imports Simp_Lexer Float_Text
begin

text \<open>
  The output templates of the simplified grammar (\<open>core/simplified/template.rs\<close>): literal text, captures
  and evaluated blocks, their parser and their rendering. The parser of a block counts its calls down;
  its fuel is shown enough in \<open>Simp_Blocks\<close>.
\<close>

section \<open>Templates\<close>

datatype Capture = CText string | CList "string list"

type_synonym captures = "string \<rightharpoonup> Capture"

datatype TExpr =
    XVar string
  | XNum f64
  | XStr string
  | XBin TExpr char TExpr
  | XCall string "TExpr list"

datatype TplPart = PText string | PVar string | PEval TExpr

datatype ETok = EVar string | ENum f64 | EStr string | EIdent string | ELParen | ERParen | EComma | EOp char

section \<open>The expression of a block\<close>

definition name_char :: "rchar \<Rightarrow> bool" where
  "name_char c \<longleftrightarrow> ascii_alpha c \<or> ascii_digit c \<or> c = ''_''"

text \<open>A string of a block after its opening quote.\<close>

fun block_string :: "rchar list \<Rightarrow> simp_error + string \<times> rchar list" where
  "block_string [] = Inl UnterminatedString"
| "block_string (c # cs) =
     (if c = [CHR 0x5C] then
        (case cs of
           [] \<Rightarrow> Inl DanglingEscape
         | e # rest \<Rightarrow>
             bindE (block_string rest) (\<lambda>(s, r).
               Inr ((if e = ''n'' then [char_of (10::nat)] else if e = ''t'' then [char_of (9::nat)] else e) @ s, r)))
      else if c = ''\"'' then Inr ([], cs)
      else bindE (block_string cs) (\<lambda>(s, r). Inr (c @ s, r)))"

definition block_symbol :: "rchar \<Rightarrow> simp_error + ETok" where
  "block_symbol c =
     (if c = ''('' then Inr ELParen
      else if c = '')'' then Inr ERParen
      else if c = '','' then Inr EComma
      else if c = ''+'' \<or> c = ''-'' \<or> c = ''*'' \<or> c = ''/'' \<or> c = ''%'' then Inr (EOp (hd c))
      else Inl (UnexpectedIn c))"

definition block_turn :: "rchar \<Rightarrow> rchar list \<Rightarrow> simp_error + ETok option \<times> rchar list" where
  "block_turn c cs =
     (if whitespace c then Inr (None, cs)
      else if c = ''$'' then
        (if takeWhile name_char cs = [] then Inl NoNameAfterDollar
         else Inr (Some (EVar (concat (takeWhile name_char cs))), dropWhile name_char cs))
      else if ascii_digit c then
        (case number_run (c # cs) of (used, rest) \<Rightarrow>
           (case parse_f64 (concat used) of
              None \<Rightarrow> Inl (BadNumber (concat used))
            | Some n \<Rightarrow> Inr (Some (ENum n), rest)))
      else if c = ''\"'' then bindE (block_string cs) (\<lambda>(s, rest). Inr (Some (EStr s), rest))
      else if ascii_alpha c \<or> c = ''_'' then
        Inr (Some (EIdent (concat (takeWhile name_char (c # cs)))), dropWhile name_char (c # cs))
      else bindE (block_symbol c) (\<lambda>t. Inr (Some t, cs)))"

lemma block_string_shorter: "block_string cs = Inr (s, r) \<Longrightarrow> length r < length cs"
proof (induction cs arbitrary: s r rule: block_string.induct)
  case (2 c cs)
  show ?case
  proof (cases "c = [CHR 0x5C]")
    case True
    then obtain e rest where cs: "cs = e # rest" using 2(3) by (cases cs) auto
    then obtain s' where "block_string rest = Inr (s', r)" using 2(3) True by (auto simp: bindE_eq_Inr)
    then have "length r < length rest" using 2(1) [OF True cs] by simp
    then show ?thesis using cs by simp
  next
    case False
    then show ?thesis using 2(2) [OF False] 2(3) by (auto simp: bindE_eq_Inr split: if_splits)
  qed
qed simp

lemma number_run_shorter:
  assumes "number_run (c # cs) = (u, r)" "ascii_digit c"
  shows "length r \<le> length cs"
proof -
  have "u \<noteq> []" using assms by (auto simp: number_run_def Let_def split: if_splits)
  then show ?thesis using number_run_all [OF assms(1)] by (cases u) auto
qed

lemma block_turn_shorter:
  assumes "block_turn c cs = Inr (t, r)"
  shows "length r \<le> length cs"
proof -
  have d: "length (dropWhile P cs) \<le> length cs" for P by (rule length_dropWhile_le)
  then have w: "length (dropWhile name_char (c # cs)) \<le> length cs" if "ascii_alpha c \<or> c = ''_''"
    using that by (auto simp: name_char_def)
  show ?thesis
    using assms d w number_run_shorter [of c cs] block_string_shorter [of cs]
    unfolding block_turn_def
    by (auto simp: bindE_eq_Inr less_imp_le split: if_splits prod.splits option.splits)
qed

function lex_texpr :: "rchar list \<Rightarrow> simp_error + ETok list" where
  "lex_texpr [] = Inr []"
| "lex_texpr (c # cs) =
     bindE (block_turn c cs) (\<lambda>(t, rest).
     bindE (lex_texpr rest) (\<lambda>ts. Inr (case t of Some t \<Rightarrow> t # ts | None \<Rightarrow> ts)))"
  by pat_completeness auto
termination
  by (relation "measure length") (auto dest: block_turn_shorter)

type_synonym 'a block_parse = "ETok list \<Rightarrow> simp_error + 'a \<times> ETok list"

text \<open>A left-associative loop over operators. Every turn takes a token, so a turn for each one left and
  one more are enough; and a parenthesis takes one before the next level.\<close>

fun op_loop :: "nat \<Rightarrow> string \<Rightarrow> TExpr block_parse \<Rightarrow> TExpr \<Rightarrow> TExpr block_parse" where
  "op_loop 0 ops operand e ts = Inl NoFuel"
| "op_loop (Suc n) ops operand e ts =
     (case ts of
        EOp c # rest \<Rightarrow>
          if c \<in> set ops
          then bindE (operand rest) (\<lambda>(rhs, rest). op_loop n ops operand (XBin e c rhs) rest)
          else Inr (e, ts)
      | _ \<Rightarrow> Inr (e, ts))"

fun arg_loop :: "nat \<Rightarrow> TExpr block_parse \<Rightarrow> TExpr list \<Rightarrow> TExpr list block_parse" where
  "arg_loop 0 operand args ts = Inl NoFuel"
| "arg_loop (Suc n) operand args ts =
     (case ts of
        EComma # rest \<Rightarrow> bindE (operand rest) (\<lambda>(a, rest). arg_loop n operand (args @ [a]) rest)
      | _ \<Rightarrow> Inr (args, ts))"

definition call_args :: "TExpr block_parse \<Rightarrow> TExpr list block_parse" where
  "call_args add ts =
     (if ts \<noteq> [] \<and> hd ts = ERParen then Inr ([], ts)
      else bindE (add ts) (\<lambda>(a, rest). arg_loop (Suc (length rest)) add [a] rest))"

definition close_paren :: "'a \<Rightarrow> 'a block_parse" where
  "close_paren x ts = (case ts of ERParen # rest \<Rightarrow> Inr (x, rest) | _ \<Rightarrow> Inl ExpectedParen)"

definition x_primary :: "TExpr block_parse \<Rightarrow> TExpr block_parse" where
  "x_primary add ts =
     (case ts of
        ENum x # rest \<Rightarrow> Inr (XNum x, rest)
      | EStr s # rest \<Rightarrow> Inr (XStr s, rest)
      | EVar x # rest \<Rightarrow> Inr (XVar x, rest)
      | EIdent name # rest \<Rightarrow>
          (case rest of
             ELParen # rest \<Rightarrow> bindE (call_args add rest) (\<lambda>(args, rest). close_paren (XCall name args) rest)
           | _ \<Rightarrow> Inl (NotACall name))
      | ELParen # rest \<Rightarrow> bindE (add rest) (\<lambda>(e, rest). close_paren e rest)
      | _ \<Rightarrow> Inl UnexpectedTok)"

definition x_multiplicative :: "TExpr block_parse \<Rightarrow> TExpr block_parse" where
  "x_multiplicative add ts =
     bindE (x_primary add ts) (\<lambda>(e, rest). op_loop (Suc (length rest)) ''*/%'' (x_primary add) e rest)"

fun x_additive :: "nat \<Rightarrow> TExpr block_parse" where
  "x_additive 0 ts = Inl NoFuel"
| "x_additive (Suc n) ts =
     bindE (x_multiplicative (x_additive n) ts) (\<lambda>(e, rest).
       op_loop (Suc (length rest)) ''+-'' (x_multiplicative (x_additive n)) e rest)"

definition parse_texpr :: "rchar list \<Rightarrow> simp_error + TExpr" where
  "parse_texpr cs =
     bindE (lex_texpr cs) (\<lambda>ts.
     bindE (x_additive (Suc (length ts)) ts) (\<lambda>(e, rest).
     if rest = [] then Inr e else Inl TrailingIn))"

section \<open>Parsing a template\<close>

text \<open>The characters of a block up to its closing brace, and what follows it.\<close>

fun block_end :: "nat \<Rightarrow> bool \<Rightarrow> bool \<Rightarrow> rchar list \<Rightarrow> (rchar list \<times> rchar list) option" where
  "block_end depth in_str escaped [] = None"
| "block_end depth in_str escaped (c # cs) =
     (let more = map_option (\<lambda>(inner, rest). (c # inner, rest))
      in if in_str then
           (if escaped then more (block_end depth True False cs)
            else if c = [CHR 0x5C] then more (block_end depth True True cs)
            else more (block_end depth (c \<noteq> ''\"'') False cs))
         else if c = ''\"'' then more (block_end depth True escaped cs)
         else if c = ''{'' then more (block_end (depth + 1) False escaped cs)
         else if c = ''}'' then
           (if depth = 1 then Some ([], cs) else more (block_end (depth - 1) False escaped cs))
         else more (block_end depth False escaped cs))"

definition flush :: "string \<Rightarrow> TplPart list" where
  "flush text = (if text = [] then [] else [PText text])"

lemma block_end_shorter: "block_end depth in_str escaped cs = Some (inner, rest) \<Longrightarrow> length rest < length cs"
  by (induction depth in_str escaped cs arbitrary: inner rest rule: block_end.induct)
    (force simp: Let_def less_Suc_eq split: if_splits)+

function template_parts :: "string \<Rightarrow> rchar list \<Rightarrow> simp_error + TplPart list" where
  "template_parts text [] = Inr (flush text)"
| "template_parts text (c # cs) =
     (if c = ''$'' then
        (if takeWhile name_char cs = [] then Inl NoNameAfterDollar
         else bindE (template_parts [] (dropWhile name_char cs)) (\<lambda>ps.
                Inr (flush text @ PVar (concat (takeWhile name_char cs)) # ps)))
      else if c = ''{'' then
        (case block_end 1 False False cs of
           None \<Rightarrow> Inl UnterminatedBlock
         | Some (inner, rest) \<Rightarrow>
             bindE (parse_texpr inner) (\<lambda>e.
             bindE (template_parts [] rest) (\<lambda>ps. Inr (flush text @ PEval e # ps))))
      else template_parts (text @ c) cs)"
  by pat_completeness auto
termination
  by (relation "measure (\<lambda>(_, cs). length cs)")
    (auto dest!: block_end_shorter simp: less_Suc_eq_le length_dropWhile_le intro: less_imp_le)

definition parse_template :: "string \<Rightarrow> simp_error + TplPart list" where
  "parse_template src = template_parts [] (str_chars src)"

section \<open>Evaluation\<close>

datatype TValue = TText string | TNum f64 | TList "string list"

definition lookup_capture :: "captures \<Rightarrow> string \<Rightarrow> simp_error + Capture" where
  "lookup_capture caps name = optE (caps name) (UnknownCapture name)"

definition as_num :: "TValue \<Rightarrow> simp_error + f64" where
  "as_num v = (case v of TNum n \<Rightarrow> Inr n | TText _ \<Rightarrow> Inl NumberFromText | TList _ \<Rightarrow> Inl NumberFromList)"

text \<open>An integer when integral, otherwise the float form.\<close>

definition fmt_num :: "f64 \<Rightarrow> string" where
  "fmt_num v =
     (case f64_ratio v of (p, q) \<Rightarrow>
        if f64_finite v \<and> p mod q = 0 \<and> p < 9 * 10 ^ 15 * q then i64_to_string (f64_as_i64 v) else f64_to_string v)"

definition render_value :: "TValue \<Rightarrow> simp_error + string" where
  "render_value v = (case v of TText s \<Rightarrow> Inr s | TNum n \<Rightarrow> Inr (fmt_num n) | TList _ \<Rightarrow> Inl ListBlock)"

definition quote_dsl :: "string \<Rightarrow> string" where
  "quote_dsl s =
     (if 2 \<le> length s \<and> hd s = CHR ''\"'' \<and> last s = CHR ''\"'' then s
      else CHR ''\"'' # concat (map (\<lambda>c. if c = CHR ''\"'' \<or> c = CHR 0x5C then [CHR 0x5C, c] else [c]) s) @ ''\"'')"

fun join_texts :: "string \<Rightarrow> string list \<Rightarrow> string" where
  "join_texts sep [] = []"
| "join_texts sep [x] = x"
| "join_texts sep (x # xs) = x @ sep @ join_texts sep xs"

definition binary :: "char \<Rightarrow> f64 \<Rightarrow> f64 \<Rightarrow> simp_error + f64" where
  "binary op x y =
     (if op = CHR ''+'' then Inr (f64_add x y)
      else if op = CHR ''-'' then Inr (f64_sub x y)
      else if op = CHR ''*'' then Inr (f64_mul x y)
      else if op = CHR ''/'' then (if f64_mag y = 0 then Inl DivisionByZero else Inr (f64_div x y))
      else if op = CHR ''%'' then (if f64_mag y = 0 then Inl ModuloByZero else Inr (f64_rem x y))
      else Inl (UnknownOperator op))"

text \<open>A call, its arguments evaluated where the code evaluates them.\<close>

definition eval_call :: "string \<Rightarrow> (simp_error + TValue) list \<Rightarrow> i64 \<Rightarrow> simp_error + TValue" where
  "eval_call name args now =
     (let arity = (\<lambda>n. checkE (length args = n) (Arity name n (length args)))
      in if name = ''now'' then bindE (arity 0) (\<lambda>_. Inr (TNum (i64_as_f64 now)))
         else if name = ''num'' then
           bindE (arity 1) (\<lambda>_. bindE (args ! 0) (\<lambda>v.
             case v of
               TNum n \<Rightarrow> Inr (TNum n)
             | TText s \<Rightarrow> bindE (optE (parse_f64 (trim_str s)) (NumOfText s)) (\<lambda>n. Inr (TNum n))
             | TList _ \<Rightarrow> Inl NumOfList))
         else if name = ''str'' then
           bindE (arity 1) (\<lambda>_. bindE (args ! 0) (\<lambda>v.
             case v of
               TText s \<Rightarrow> Inr (TText (quote_dsl s))
             | TNum n \<Rightarrow> Inr (TText (quote_dsl (fmt_num n)))
             | TList _ \<Rightarrow> Inl StrOfList))
         else if name = ''join'' then
           bindE (arity 2) (\<lambda>_.
           bindE (bindE (args ! 0) (\<lambda>v. case v of TText s \<Rightarrow> Inr s | _ \<Rightarrow> Inl JoinSeparator)) (\<lambda>sep.
           bindE (bindE (args ! 1) (\<lambda>v. case v of TList items \<Rightarrow> Inr items | _ \<Rightarrow> Inl JoinOfText)) (\<lambda>items.
             Inr (TText (join_texts sep items)))))
         else Inl (UnknownFunction name))"

fun t_eval :: "captures \<Rightarrow> i64 \<Rightarrow> TExpr \<Rightarrow> simp_error + TValue" where
  "t_eval caps now (XVar name) =
     bindE (lookup_capture caps name) (\<lambda>c. Inr (case c of CText s \<Rightarrow> TText s | CList items \<Rightarrow> TList items))"
| "t_eval caps now (XNum n) = Inr (TNum n)"
| "t_eval caps now (XStr s) = Inr (TText s)"
| "t_eval caps now (XBin a op b) =
     bindE (bindE (t_eval caps now a) as_num) (\<lambda>x.
     bindE (bindE (t_eval caps now b) as_num) (\<lambda>y.
     bindE (binary op x y) (\<lambda>r. Inr (TNum r))))"
| "t_eval caps now (XCall name args) = eval_call name (map (t_eval caps now) args) now"

definition render_part :: "captures \<Rightarrow> i64 \<Rightarrow> TplPart \<Rightarrow> simp_error + string" where
  "render_part caps now p =
     (case p of
        PText s \<Rightarrow> Inr s
      | PVar name \<Rightarrow>
          bindE (lookup_capture caps name) (\<lambda>c.
            case c of CText s \<Rightarrow> Inr s | CList _ \<Rightarrow> Inl (ListInterpolated name))
      | PEval e \<Rightarrow> bindE (t_eval caps now e) render_value)"

definition render :: "TplPart list \<Rightarrow> captures \<Rightarrow> i64 \<Rightarrow> simp_error + string" where
  "render parts caps now = foldE (\<lambda>p out. bindE (render_part caps now p) (\<lambda>s. Inr (out @ s))) parts []"

end
