(* ===== verification/Simp_Grammar.thy ===== *)
theory Simp_Grammar
  imports Simp_Template
begin

text \<open>
  The grammar file of the simplified language and its parser (\<open>core/simplified/grammar.rs\<close>): a list of
  productions, each alternative a sequence of items with an optional template. The bytes the code looks
  for are ASCII, so the cutting of the file into alternatives works on bytes.
\<close>

section \<open>Grammars\<close>

datatype RepeatKind = RStar | RPlus | ROpt

datatype Expr =
    GLit string
  | GClass TokKind
  | GRule string
  | GGroup "Item list list"
  | GRepeat Expr RepeatKind "Expr option"
and Item = Item "string option" Expr

record Alt =
  alt_seq :: "Item list"
  alt_template :: "string option"

record Production =
  pr_name :: string
  pr_alts :: "Alt list"

type_synonym Grammar = "Production list"

section \<open>Cutting the file\<close>

text \<open>\<open>str::lines\<close>.\<close>

definition str_lines :: "string \<Rightarrow> string list" where
  "str_lines s =
     (let ls = split_on (char_of (10::nat)) s;
          cut = (\<lambda>l. case strip_suffix [char_of (13::nat)] l of Some t \<Rightarrow> t | None \<Rightarrow> l)
      in map cut (butlast ls) @ (if last ls = [] then [] else [last ls]))"

text \<open>Where a byte leaves the state of a string literal: inside one, and after a backslash.\<close>

definition in_string :: "bool \<times> bool \<Rightarrow> char \<Rightarrow> bool \<times> bool" where
  "in_string st c =
     (case st of (in_str, escaped) \<Rightarrow>
        if in_str then
          (if escaped then (True, False) else if c = CHR 0x5C then (True, True) else (c \<noteq> CHR ''\"'', False))
        else (c = CHR ''\"'', escaped))"

fun strip_comment_from :: "bool \<times> bool \<Rightarrow> string \<Rightarrow> string" where
  "strip_comment_from st [] = []"
| "strip_comment_from st (c # cs) =
     (if \<not> fst st \<and> c = CHR ''#'' then [] else c # strip_comment_from (in_string st c) cs)"

definition strip_comment :: "string \<Rightarrow> string" where
  "strip_comment line = strip_comment_from (False, False) line"

definition ident_start :: "char \<Rightarrow> bool" where
  "ident_start c \<longleftrightarrow> ascii_alpha [c] \<or> c = CHR ''_''"

definition ident_char :: "char \<Rightarrow> bool" where
  "ident_char c \<longleftrightarrow> ascii_alpha [c] \<or> ascii_digit [c] \<or> c = CHR ''_''"

text \<open>The header of a production, \<open>name =\<close> and not \<open>=>\<close>: the name and what follows.\<close>

definition header_split :: "string \<Rightarrow> (string \<times> string) option" where
  "header_split line =
     (let trimmed = trim_start line
      in if trimmed = [] \<or> \<not> ident_start (hd trimmed) then None
         else (let after = trim_start (dropWhile ident_char trimmed)
               in case after of
                    [] \<Rightarrow> None
                  | c # rest \<Rightarrow>
                      if c \<noteq> CHR ''='' \<or> rest \<noteq> [] \<and> hd rest = CHR ''>'' then None
                      else Some (takeWhile ident_char trimmed, rest)))"

fun split_top :: "char \<Rightarrow> int \<Rightarrow> int \<Rightarrow> bool \<times> bool \<Rightarrow> string \<Rightarrow> string \<Rightarrow> string list" where
  "split_top sep paren brace st cur [] = [cur]"
| "split_top sep paren brace st cur (c # cs) =
     (if fst st then split_top sep paren brace (in_string st c) (cur @ [c]) cs
      else if c = CHR ''\"'' then split_top sep paren brace (in_string st c) (cur @ [c]) cs
      else if c = CHR ''('' then split_top sep (paren + 1) brace st (cur @ [c]) cs
      else if c = CHR '')'' then split_top sep (paren - 1) brace st (cur @ [c]) cs
      else if c = CHR ''{'' then split_top sep paren (brace + 1) st (cur @ [c]) cs
      else if c = CHR ''}'' then split_top sep paren (brace - 1) st (cur @ [c]) cs
      else if c = sep \<and> paren = 0 \<and> brace = 0 then cur # split_top sep paren brace st [] cs
      else split_top sep paren brace st (cur @ [c]) cs)"

definition split_top_level :: "string \<Rightarrow> char \<Rightarrow> string list" where
  "split_top_level s sep = split_top sep 0 0 (False, False) [] s"

text \<open>What stands before and after the first \<open>=>\<close> outside a string literal.\<close>

fun arrow_from :: "bool \<times> bool \<Rightarrow> string \<Rightarrow> (string \<times> string) option" where
  "arrow_from st [] = None"
| "arrow_from st (c # cs) =
     (if \<not> fst st \<and> c = CHR ''='' \<and> cs \<noteq> [] \<and> hd cs = CHR ''>'' then Some ([], tl cs)
      else map_option (\<lambda>(a, b). (c # a, b)) (arrow_from (in_string st c) cs))"

definition find_arrow :: "string \<Rightarrow> (string \<times> string) option" where
  "find_arrow s = arrow_from (False, False) s"

section \<open>Patterns\<close>

datatype PTok =
    PIdent string | PStr string | PLParen | PRParen | PPipe | PColon | PStar | PPlus | POpt | PStarStar | PPlusPlus

text \<open>A string of a pattern after its opening quote: only the quote and the backslash are escaped.\<close>

fun pattern_string :: "rchar list \<Rightarrow> simp_error + string \<times> rchar list" where
  "pattern_string [] = Inl UnterminatedString"
| "pattern_string (c # cs) =
     (if c = [CHR 0x5C] then
        (case cs of
           [] \<Rightarrow> Inl DanglingEscape
         | e # rest \<Rightarrow>
             bindE (pattern_string rest) (\<lambda>(s, r).
               Inr ((if e = ''\"'' \<or> e = [CHR 0x5C] then e else CHR 0x5C # e) @ s, r)))
      else if c = ''\"'' then Inr ([], cs)
      else bindE (pattern_string cs) (\<lambda>(s, r). Inr (c @ s, r)))"

definition pattern_symbol :: "rchar \<Rightarrow> rchar list \<Rightarrow> simp_error + PTok \<times> rchar list" where
  "pattern_symbol c cs =
     (if c = ''('' then Inr (PLParen, cs)
      else if c = '')'' then Inr (PRParen, cs)
      else if c = ''|'' then Inr (PPipe, cs)
      else if c = '':'' then Inr (PColon, cs)
      else if c = ''?'' then Inr (POpt, cs)
      else if c = ''*'' then (if cs \<noteq> [] \<and> hd cs = ''*'' then Inr (PStarStar, tl cs) else Inr (PStar, cs))
      else if c = ''+'' then (if cs \<noteq> [] \<and> hd cs = ''+'' then Inr (PPlusPlus, tl cs) else Inr (PPlus, cs))
      else Inl (UnexpectedIn c))"

definition pattern_turn :: "rchar \<Rightarrow> rchar list \<Rightarrow> simp_error + PTok option \<times> rchar list" where
  "pattern_turn c cs =
     (if whitespace c then Inr (None, cs)
      else if c = ''\"'' then bindE (pattern_string cs) (\<lambda>(s, rest). Inr (Some (PStr s), rest))
      else if ascii_alpha c \<or> c = ''_'' then
        Inr (Some (PIdent (concat (takeWhile name_char (c # cs)))), dropWhile name_char (c # cs))
      else bindE (pattern_symbol c cs) (\<lambda>(t, rest). Inr (Some t, rest)))"

lemma pattern_string_shorter: "pattern_string cs = Inr (s, r) \<Longrightarrow> length r < length cs"
proof (induction cs arbitrary: s r rule: pattern_string.induct)
  case (2 c cs)
  show ?case
  proof (cases "c = [CHR 0x5C]")
    case True
    then obtain e rest where cs: "cs = e # rest" using 2(3) by (cases cs) auto
    then obtain s' where "pattern_string rest = Inr (s', r)" using 2(3) True by (auto simp: bindE_eq_Inr)
    then have "length r < length rest" using 2(1) [OF True cs] by simp
    then show ?thesis using cs by simp
  next
    case False
    then show ?thesis using 2(2) [OF False] 2(3) by (auto simp: bindE_eq_Inr split: if_splits)
  qed
qed simp

lemma pattern_turn_shorter:
  assumes "pattern_turn c cs = Inr (t, r)"
  shows "length r \<le> length cs"
proof -
  have "length (dropWhile name_char (c # cs)) \<le> length cs" if "ascii_alpha c \<or> c = ''_''"
    using that length_dropWhile_le [of name_char cs] by (auto simp: name_char_def)
  moreover have "length r' \<le> length cs" if "pattern_symbol c cs = Inr (t', r')" for t' r'
    using that unfolding pattern_symbol_def by (auto split: if_splits)
  ultimately show ?thesis
    using assms pattern_string_shorter [of cs] unfolding pattern_turn_def
    by (auto simp: bindE_eq_Inr less_imp_le split: if_splits)
qed

function lex_pattern :: "rchar list \<Rightarrow> simp_error + PTok list" where
  "lex_pattern [] = Inr []"
| "lex_pattern (c # cs) =
     bindE (pattern_turn c cs) (\<lambda>(t, rest).
     bindE (lex_pattern rest) (\<lambda>ts. Inr (case t of Some t \<Rightarrow> t # ts | None \<Rightarrow> ts)))"
  by pat_completeness auto
termination
  by (relation "measure length") (auto dest: pattern_turn_shorter)

type_synonym 'a pattern_parse = "PTok list \<Rightarrow> simp_error + 'a \<times> PTok list"

definition ident_expr :: "string \<Rightarrow> Expr" where
  "ident_expr name =
     (if name = ''WORD'' then GClass KWord
      else if name = ''NUMBER'' then GClass KNumber
      else if name = ''STRING'' then GClass KStr
      else if name = ''UUID'' then GClass KUuid
      else GRule name)"

text \<open>The loops take a token a turn, and a parenthesis one before the next level.\<close>

fun pipe_loop :: "nat \<Rightarrow> Item list pattern_parse \<Rightarrow> Item list list \<Rightarrow> Item list list pattern_parse" where
  "pipe_loop 0 sequence seqs ts = Inl NoFuel"
| "pipe_loop (Suc n) sequence seqs ts =
     (case ts of
        PPipe # rest \<Rightarrow> bindE (sequence rest) (\<lambda>(s, rest). pipe_loop n sequence (seqs @ [s]) rest)
      | _ \<Rightarrow> Inr (seqs, ts))"

definition p_primary :: "Item list pattern_parse \<Rightarrow> Expr pattern_parse" where
  "p_primary sequence ts =
     (case ts of
        PStr s # rest \<Rightarrow> Inr (GLit s, rest)
      | PIdent name # rest \<Rightarrow> Inr (ident_expr name, rest)
      | PLParen # rest \<Rightarrow>
          bindE (sequence rest) (\<lambda>(s, rest).
          bindE (pipe_loop (Suc (length rest)) sequence [s] rest) (\<lambda>(seqs, rest).
            case rest of PRParen # rest \<Rightarrow> Inr (GGroup seqs, rest) | _ \<Rightarrow> Inl ExpectedParen))
      | _ \<Rightarrow> Inl UnexpectedTok)"

definition repeat_mark :: "PTok \<Rightarrow> (RepeatKind \<times> bool) option" where
  "repeat_mark t =
     (case t of
        PStar \<Rightarrow> Some (RStar, False)
      | PPlus \<Rightarrow> Some (RPlus, False)
      | POpt \<Rightarrow> Some (ROpt, False)
      | PStarStar \<Rightarrow> Some (RStar, True)
      | PPlusPlus \<Rightarrow> Some (RPlus, True)
      | _ \<Rightarrow> None)"

fun repeat_marks :: "nat \<Rightarrow> Item list pattern_parse \<Rightarrow> Expr \<Rightarrow> Expr pattern_parse" where
  "repeat_marks 0 sequence e ts = Inl NoFuel"
| "repeat_marks (Suc n) sequence e ts =
     (case (case ts of [] \<Rightarrow> None | t # _ \<Rightarrow> repeat_mark t) of
        None \<Rightarrow> Inr (e, ts)
      | Some (kind, separated) \<Rightarrow>
          if separated
          then bindE (p_primary sequence (tl ts)) (\<lambda>(sep, rest). repeat_marks n sequence (GRepeat e kind (Some sep)) rest)
          else repeat_marks n sequence (GRepeat e kind None) (tl ts))"

definition p_postfix :: "Item list pattern_parse \<Rightarrow> Expr pattern_parse" where
  "p_postfix sequence ts =
     bindE (p_primary sequence ts) (\<lambda>(e, rest). repeat_marks (Suc (length rest)) sequence e rest)"

definition p_item :: "Item list pattern_parse \<Rightarrow> Item pattern_parse" where
  "p_item sequence ts =
     (case ts of
        PIdent name # PColon # rest \<Rightarrow>
          bindE (p_postfix sequence rest) (\<lambda>(e, rest). Inr (Item (Some name) e, rest))
      | _ \<Rightarrow> bindE (p_postfix sequence ts) (\<lambda>(e, rest). Inr (Item None e, rest)))"

fun item_loop :: "nat \<Rightarrow> Item pattern_parse \<Rightarrow> Item list \<Rightarrow> Item list pattern_parse" where
  "item_loop 0 item items ts = Inl NoFuel"
| "item_loop (Suc n) item items ts =
     (if ts = [] \<or> hd ts = PRParen \<or> hd ts = PPipe then Inr (items, ts)
      else bindE (item ts) (\<lambda>(i, rest). item_loop n item (items @ [i]) rest))"

fun p_sequence :: "nat \<Rightarrow> Item list pattern_parse" where
  "p_sequence 0 ts = Inl NoFuel"
| "p_sequence (Suc n) ts = item_loop (Suc (length ts)) (p_item (p_sequence n)) [] ts"

definition parse_pattern :: "string \<Rightarrow> simp_error + Item list" where
  "parse_pattern src =
     bindE (lex_pattern (str_chars src)) (\<lambda>toks.
     bindE (p_sequence (Suc (length toks)) toks) (\<lambda>(items, rest).
       if rest \<noteq> [] then Inl TrailingPattern else if items = [] then Inl EmptyAlternative else Inr items))"

section \<open>The file\<close>

definition parse_alternative :: "string \<Rightarrow> simp_error + Alt" where
  "parse_alternative s =
     (let (pattern, template) = (case find_arrow s of
            Some (before, after) \<Rightarrow> (before, Some (trim_str after))
          | None \<Rightarrow> (s, None))
      in bindE (parse_pattern pattern) (\<lambda>items. Inr \<lparr>alt_seq = items, alt_template = template\<rparr>))"

text \<open>A line joins the production before it, or opens one.\<close>

definition grammar_line :: "string \<Rightarrow> (string \<times> string) list \<Rightarrow> simp_error + (string \<times> string) list" where
  "grammar_line raw prods =
     (let line = strip_comment raw
      in if trim_str line = [] then Inr prods
         else (case header_split line of
             Some (name, rest) \<Rightarrow> Inr (prods @ [(name, rest)])
           | None \<Rightarrow>
               if prods = [] then Inl (AlternativeBeforeProduction (trim_str line))
               else Inr (butlast prods @ [(fst (last prods), snd (last prods) @ char_of (10::nat) # line)])))"

definition parse_alternatives :: "string \<Rightarrow> simp_error + Alt list" where
  "parse_alternatives body =
     foldE (\<lambda>src alts. if trim_str src = [] then Inr alts
                       else bindE (parse_alternative (trim_str src)) (\<lambda>a. Inr (alts @ [a])))
       (split_top_level body CHR ''|'') []"

definition parse_grammar :: "string \<Rightarrow> simp_error + Grammar" where
  "parse_grammar src =
     bindE (foldE grammar_line (str_lines src) []) (\<lambda>prods.
       foldE (\<lambda>(name, body) g.
                bindE (parse_alternatives body) (\<lambda>alts.
                  if alts = [] then Inl (NoAlternatives name)
                  else Inr (g @ [\<lparr>pr_name = name, pr_alts = alts\<rparr>])))
         prods [])"

end
