(* ===== verification/Simp_Engine.thy ===== *)
theory Simp_Engine
  imports Simp_Grammar
begin

text \<open>
  The interpreter of the simplified grammar (\<open>core/simplified/engine.rs\<close>): ordered choice over the
  tokens of the input, each production rendered by its template, and the checks made when a grammar is
  loaded. The loop of a repetition has a turn for each token and one more; \<open>Simp_Peg\<close> shows it enough.
\<close>

section \<open>Matching\<close>

definition EXPAND_MAX_DEPTH :: nat where
  "EXPAND_MAX_DEPTH = 256"

record engine =
  e_grammar :: Grammar
  e_tokens :: "stok list"
  e_now :: i64

type_synonym MatchProd = "simp_error + (string \<times> nat) option"
type_synonym MatchSeq = "simp_error + (captures \<times> nat) option"
type_synonym MatchExpr = "simp_error + (Capture \<times> captures \<times> nat) option"

definition raw_text :: "engine \<Rightarrow> nat \<Rightarrow> nat \<Rightarrow> string" where
  "raw_text E pos next = join_texts '' '' (map tk_text (take (next - pos) (drop pos (e_tokens E))))"

fun push_value :: "string list \<Rightarrow> Capture \<Rightarrow> string list" where
  "push_value list (CText s) = list @ [s]"
| "push_value list (CList items) = list @ items"

definition label_capture :: "string option \<Rightarrow> Capture \<Rightarrow> captures \<Rightarrow> captures" where
  "label_capture label v caps = (case label of None \<Rightarrow> caps | Some l \<Rightarrow> caps(l \<mapsto> v))"

text \<open>The first alternative that matches.\<close>

fun first_match :: "('a \<Rightarrow> simp_error + 'b option) \<Rightarrow> 'a list \<Rightarrow> simp_error + 'b option" where
  "first_match f [] = Inr None"
| "first_match f (x # xs) =
     bindE (f x) (\<lambda>r. case r of Some y \<Rightarrow> Inr (Some y) | None \<Rightarrow> first_match f xs)"

lemma first_match_cong [fundef_cong]:
  "xs = ys \<Longrightarrow> (\<And>x. x \<in> set ys \<Longrightarrow> f x = g x) \<Longrightarrow> first_match f xs = first_match g ys"
  by (induction ys arbitrary: xs) (auto intro!: bindE_cong split: option.split)

definition token_match :: "engine \<Rightarrow> (stok \<Rightarrow> bool) \<Rightarrow> nat \<Rightarrow> MatchExpr" where
  "token_match E p pos =
     (if pos < length (e_tokens E) \<and> p (e_tokens E ! pos)
      then Inr (Some (CText (tk_text (e_tokens E ! pos)), Map.empty, pos + 1)) else Inr None)"

text \<open>The elements after the first, each after a separator where there is one; a separator that no
  element follows is given back.\<close>

fun repeat_loop :: "nat \<Rightarrow> (nat \<Rightarrow> MatchExpr) \<Rightarrow> bool \<Rightarrow> (nat \<Rightarrow> MatchExpr) \<Rightarrow> string list \<Rightarrow> captures \<Rightarrow> nat \<Rightarrow> simp_error + string list \<times> captures \<times> nat" where
  "repeat_loop 0 inner separated sep list caps p = Inl NoFuel"
| "repeat_loop (Suc n) inner separated sep list caps p =
     bindE (if separated then bindE (sep p) (\<lambda>r. Inr (map_option (\<lambda>(_, _, np). np) r)) else Inr (Some p)) (\<lambda>start.
     case start of
       None \<Rightarrow> Inr (list, caps, p)
     | Some q \<Rightarrow>
         bindE (inner q) (\<lambda>r.
         case r of
           None \<Rightarrow> Inr (list, caps, p)
         | Some (v, sub, next) \<Rightarrow>
             if q < next then repeat_loop n inner separated sep (push_value list v) (caps ++ sub) next
             else Inr (list, caps, p)))"

lemma repeat_loop_cong [fundef_cong]:
  assumes "n = m" "separated = separated'" "list = list'" "caps = caps'" "p = q" "\<And>x. f x = f' x" "\<And>x. separated' \<Longrightarrow> g x = g' x"
  shows "repeat_loop n f separated g list caps p = repeat_loop m f' separated' g' list' caps' q"
proof -
  have "repeat_loop m f separated' g list' caps' q = repeat_loop m f' separated' g' list' caps' q"
    using assms(6,7)
    by (induction m arbitrary: list' caps' q) (auto intro!: bindE_cong split: option.split)
  then show ?thesis using assms(1-5) by simp
qed

definition alt_text :: "engine \<Rightarrow> Alt \<Rightarrow> captures \<Rightarrow> nat \<Rightarrow> nat \<Rightarrow> simp_error + string" where
  "alt_text E alt caps pos next =
     (case alt_template alt of
        None \<Rightarrow> Inr (raw_text E pos next)
      | Some src \<Rightarrow> bindE (parse_template src) (\<lambda>t. render t caps (e_now E)))"

definition find_production :: "Grammar \<Rightarrow> string \<Rightarrow> Production option" where
  "find_production g name = List.find (\<lambda>p. pr_name p = name) g"

lemma size_seq_in [termination_simp]: "seq \<in> set seqs \<Longrightarrow> size_list size seq < Suc (size_list (size_list size) seqs)" for seq :: "Item list"
  by (induction seqs) auto

function match_prod :: "engine \<Rightarrow> string \<Rightarrow> nat \<Rightarrow> nat \<Rightarrow> MatchProd"
  and match_seq :: "engine \<Rightarrow> Item list \<Rightarrow> nat \<Rightarrow> nat \<Rightarrow> captures \<Rightarrow> MatchSeq"
  and match_expr :: "engine \<Rightarrow> Expr \<Rightarrow> nat \<Rightarrow> nat \<Rightarrow> MatchExpr" where
  "match_prod E name pos depth =
     (if EXPAND_MAX_DEPTH < depth then Inl (RecursionLimit name)
      else (case find_production (e_grammar E) name of
              None \<Rightarrow> Inl (UnknownProduction name)
            | Some production \<Rightarrow>
                first_match (\<lambda>alt.
                  bindE (match_seq E (alt_seq alt) pos (Suc depth) Map.empty) (\<lambda>r.
                  case r of
                    None \<Rightarrow> Inr None
                  | Some (caps, next) \<Rightarrow> bindE (alt_text E alt caps pos next) (\<lambda>out. Inr (Some (out, next)))))
                  (pr_alts production)))"
| "match_seq E [] p depth caps = Inr (Some (caps, p))"
| "match_seq E (Item label expr # items) p depth caps =
     bindE (match_expr E expr p depth) (\<lambda>r.
     case r of
       None \<Rightarrow> Inr None
     | Some (v, sub, next) \<Rightarrow> match_seq E items next depth (label_capture label v (caps ++ sub)))"
| "match_expr E (GLit s) pos depth = token_match E (\<lambda>t. tk_text t = s) pos"
| "match_expr E (GClass k) pos depth = token_match E (\<lambda>t. tk_kind t = k) pos"
| "match_expr E (GRule name) pos depth =
     bindE (match_prod E name pos depth) (\<lambda>r. Inr (map_option (\<lambda>(out, next). (CText out, Map.empty, next)) r))"
| "match_expr E (GGroup seqs) pos depth =
     first_match (\<lambda>seq.
       bindE (match_seq E seq pos depth Map.empty) (\<lambda>r.
         Inr (map_option (\<lambda>(caps, next). (CText (raw_text E pos next), caps, next)) r))) seqs"
| "match_expr E (GRepeat inner kind sep) pos depth =
     bindE (match_expr E inner pos depth) (\<lambda>r.
     case r of
       None \<Rightarrow> Inr (if kind = RPlus then None else Some (CList [], Map.empty, pos))
     | Some (v, sub, next) \<Rightarrow>
         if kind = ROpt then Inr (Some (CList (push_value [] v), sub, next))
         else bindE (repeat_loop (Suc (length (e_tokens E))) (\<lambda>p. match_expr E inner p depth)
                (sep \<noteq> None) (\<lambda>p. case sep of None \<Rightarrow> Inr None | Some s \<Rightarrow> match_expr E s p depth)
                (push_value [] v) sub next) (\<lambda>(list, caps, p). Inr (Some (CList list, caps, p))))"
  by pat_completeness auto
termination
  by (relation "measures
        [\<lambda>x. case x of Inl (E, name, pos, depth) \<Rightarrow> Suc EXPAND_MAX_DEPTH - depth
             | Inr (Inl (E, seq, pos, depth, caps)) \<Rightarrow> Suc EXPAND_MAX_DEPTH - depth
             | Inr (Inr (E, e, pos, depth)) \<Rightarrow> Suc EXPAND_MAX_DEPTH - depth,
         \<lambda>x. case x of Inl (E, name, pos, depth) \<Rightarrow> 0
             | Inr (Inl (E, seq, pos, depth, caps)) \<Rightarrow> Suc (size_list size seq)
             | Inr (Inr (E, e, pos, depth)) \<Rightarrow> Suc (size e)]") (auto simp: termination_simp)

definition expand_at :: "dsl_lib \<Rightarrow> Grammar \<Rightarrow> string \<Rightarrow> i64 \<Rightarrow> simp_error + string" where
  "expand_at lib g input now =
     bindE (simp_lex lib input) (\<lambda>tokens.
     bindE (match_prod \<lparr>e_grammar = g, e_tokens = tokens, e_now = now\<rparr> ''query'' 0 0) (\<lambda>r.
     case r of
       None \<Rightarrow> Inl NoMatch
     | Some (out, next) \<Rightarrow> if next = length tokens then Inr out else Inl (TrailingText (tk_text (tokens ! next)))))"

section \<open>Checks of a grammar\<close>

definition check_literal :: "dsl_lib \<Rightarrow> string \<Rightarrow> string \<Rightarrow> simp_error + unit" where
  "check_literal lib owner lit =
     (case simp_lex lib lit of
        Inr toks \<Rightarrow>
          if length toks = 1 then Inr ()
          else if toks = [] then Inl (LiteralEmpty owner lit)
          else Inl (LiteralPieces owner lit (map tk_text toks))
      | Inl e \<Rightarrow> Inl (LiteralNotLexable owner lit))"

fun check_refs :: "dsl_lib \<Rightarrow> string \<Rightarrow> string set \<Rightarrow> Item list \<Rightarrow> simp_error + unit"
  and check_refs_expr :: "dsl_lib \<Rightarrow> string \<Rightarrow> string set \<Rightarrow> Expr \<Rightarrow> simp_error + unit"
  and check_refs_seqs :: "dsl_lib \<Rightarrow> string \<Rightarrow> string set \<Rightarrow> Item list list \<Rightarrow> simp_error + unit" where
  "check_refs lib owner names [] = Inr ()"
| "check_refs lib owner names (Item label e # items) =
     bindE (check_refs_expr lib owner names e) (\<lambda>_. check_refs lib owner names items)"
| "check_refs_expr lib owner names (GRule n) = checkE (n \<in> names) (UnknownRule owner n)"
| "check_refs_expr lib owner names (GLit lit) = check_literal lib owner lit"
| "check_refs_expr lib owner names (GClass k) = Inr ()"
| "check_refs_expr lib owner names (GGroup seqs) = check_refs_seqs lib owner names seqs"
| "check_refs_expr lib owner names (GRepeat inner kind sep) =
     bindE (check_refs_expr lib owner names inner) (\<lambda>_.
       case sep of None \<Rightarrow> Inr () | Some s \<Rightarrow> check_refs_expr lib owner names s)"
| "check_refs_seqs lib owner names [] = Inr ()"
| "check_refs_seqs lib owner names (s # seqs) =
     bindE (check_refs lib owner names s) (\<lambda>_. check_refs_seqs lib owner names seqs)"

text \<open>The rules that may come first in a sequence, and whether an expression may be skipped.\<close>

fun left_rules :: "Item list \<Rightarrow> string list"
  and expr_left :: "Expr \<Rightarrow> string list \<times> bool"
  and group_left :: "Item list list \<Rightarrow> string list" where
  "left_rules [] = []"
| "left_rules (Item label e # items) =
     (case expr_left e of (rules, skippable) \<Rightarrow> rules @ (if skippable then left_rules items else []))"
| "expr_left (GLit s) = ([], False)"
| "expr_left (GClass k) = ([], False)"
| "expr_left (GRule n) = ([n], False)"
| "expr_left (GGroup seqs) = (group_left seqs, False)"
| "expr_left (GRepeat inner kind sep) = (fst (expr_left inner), kind = RStar \<or> kind = ROpt)"
| "group_left [] = []"
| "group_left (s # seqs) = left_rules s @ group_left seqs"

type_synonym edges = "(string \<times> string list) list"

text \<open>The left corners of each production: the last of one name stands.\<close>

definition left_edges :: "Grammar \<Rightarrow> edges" where
  "left_edges g = map (\<lambda>p. (pr_name p, concat (map (\<lambda>a. left_rules (alt_seq a)) (pr_alts p)))) g"

definition corner :: "edges \<Rightarrow> string \<Rightarrow> string list option" where
  "corner es name = map_of (rev es) name"

text \<open>The grey nodes are those on the way: each call that returns gives them back as it took them, so
  they are passed down.\<close>

function dfs :: "edges \<Rightarrow> string set \<Rightarrow> string \<Rightarrow> string set \<Rightarrow> simp_error + string set"
  and dfs_all :: "edges \<Rightarrow> string set \<Rightarrow> string list \<Rightarrow> string set \<Rightarrow> simp_error + string set" where
  "dfs es gray node fin =
     (if node \<in> fin then Inr fin
      else if node \<in> gray then Inl (LeftRecursion node)
      else bindE (case corner es node of None \<Rightarrow> Inr fin | Some succ \<Rightarrow> dfs_all es (insert node gray) succ fin) (\<lambda>fin.
             Inr (insert node fin)))"
| "dfs_all es gray [] fin = Inr fin"
| "dfs_all es gray (s # ss) fin =
     bindE (if corner es s = None then Inr fin else dfs es gray s fin) (\<lambda>fin. dfs_all es gray ss fin)"
  by pat_completeness auto
termination
proof (relation "measures
    [\<lambda>x. case x of Inl (es, gray, node, fin) \<Rightarrow> card (fst ` set es - gray) | Inr (es, gray, ss, fin) \<Rightarrow> card (fst ` set es - gray),
     \<lambda>x. case x of Inl (es, gray, node, fin) \<Rightarrow> 0 | Inr (es, gray, ss, fin) \<Rightarrow> Suc (length ss)]", goal_cases)
  case (2 es gray node fin succ)
  have "node \<in> fst ` set es" using 2(3) by (force simp: corner_def dest: map_of_SomeD)
  then have "card (fst ` set es - insert node gray) < card (fst ` set es - gray)"
    using 2(2) by (intro psubset_card_mono) auto
  then show ?case by simp
qed auto

definition detect_left_recursion :: "Grammar \<Rightarrow> simp_error + unit" where
  "detect_left_recursion g =
     bindE (foldE (\<lambda>p fin. dfs (left_edges g) {} (pr_name p) fin) g {}) (\<lambda>_. Inr ())"

definition check_alt :: "dsl_lib \<Rightarrow> string set \<Rightarrow> string \<Rightarrow> Alt \<Rightarrow> simp_error + unit" where
  "check_alt lib names owner alt =
     bindE (check_refs lib owner names (alt_seq alt)) (\<lambda>_.
       case alt_template alt of
         None \<Rightarrow> Inr ()
       | Some src \<Rightarrow> (case parse_template src of Inl e \<Rightarrow> Inl (InProduction owner e) | Inr _ \<Rightarrow> Inr ()))"

definition validate_grammar :: "dsl_lib \<Rightarrow> Grammar \<Rightarrow> simp_error + unit" where
  "validate_grammar lib g =
     bindE (checkE (list_ex (\<lambda>p. pr_name p = ''query'') g) NoQuery) (\<lambda>_.
     bindE (foldE (\<lambda>p _. foldE (\<lambda>a _. check_alt lib (set (map pr_name g)) (pr_name p) a) (pr_alts p) ()) g ()) (\<lambda>_.
       detect_left_recursion g))"

end
