(* ===== verification/Simp_Blocks.thy ===== *)
theory Simp_Blocks
  imports Simp_Engine
begin

text \<open>
  The parser and the evaluator of a template: the fuel of the parser of a block is enough, whatever the
  text, and rendering fails on its own account only, never as the engine does.
\<close>

section \<open>The parser of a block ends\<close>

definition sane :: "'a block_parse \<Rightarrow> ETok list \<Rightarrow> bool" where
  "sane p ts \<longleftrightarrow> p ts \<noteq> Inl NoFuel \<and> (\<forall>x r. p ts = Inr (x, r) \<longrightarrow> length r < length ts)"

lemma op_loop_sane:
  assumes "length ts < n" "\<And>us. length us < length ts \<Longrightarrow> sane operand us"
  shows "op_loop n ops operand e ts \<noteq> Inl NoFuel \<and> (\<forall>x r. op_loop n ops operand e ts = Inr (x, r) \<longrightarrow> length r \<le> length ts)"
  using assms
proof (induction n arbitrary: e ts)
  case (Suc n)
  show ?case
  proof (cases "\<exists>c rest. ts = EOp c # rest \<and> c \<in> set ops")
    case True
    then obtain c rest where ts: "ts = EOp c # rest" "c \<in> set ops" by blast
    have s: "sane operand rest" using Suc.prems(2) ts by simp
    show ?thesis
    proof (cases "operand rest")
      case (Inl e')
      then show ?thesis using ts s by (auto simp: sane_def)
    next
      case (Inr xr)
      obtain rhs r where xr: "xr = (rhs, r)" by (cases xr)
      then have r: "length r < length rest" using s Inr by (auto simp: sane_def)
      have "op_loop n ops operand (XBin e c rhs) r \<noteq> Inl NoFuel \<and>
          (\<forall>x r'. op_loop n ops operand (XBin e c rhs) r = Inr (x, r') \<longrightarrow> length r' \<le> length r)"
        by (rule Suc.IH) (use Suc.prems ts r in auto)
      then show ?thesis using ts Inr xr r by fastforce
    qed
  next
    case False
    then have "op_loop (Suc n) ops operand e ts = Inr (e, ts)" by (auto split: list.split ETok.split)
    then show ?thesis by simp
  qed
qed simp

lemma arg_loop_sane:
  assumes "length ts < n" "\<And>us. length us < length ts \<Longrightarrow> sane operand us"
  shows "arg_loop n operand args ts \<noteq> Inl NoFuel \<and> (\<forall>x r. arg_loop n operand args ts = Inr (x, r) \<longrightarrow> length r \<le> length ts)"
  using assms
proof (induction n arbitrary: args ts)
  case (Suc n)
  show ?case
  proof (cases "\<exists>rest. ts = EComma # rest")
    case True
    then obtain rest where ts: "ts = EComma # rest" by blast
    have s: "sane operand rest" using Suc.prems(2) ts by simp
    show ?thesis
    proof (cases "operand rest")
      case (Inl e')
      then show ?thesis using ts s by (auto simp: sane_def)
    next
      case (Inr xr)
      obtain a r where xr: "xr = (a, r)" by (cases xr)
      then have r: "length r < length rest" using s Inr by (auto simp: sane_def)
      have "arg_loop n operand (args @ [a]) r \<noteq> Inl NoFuel \<and>
          (\<forall>x r'. arg_loop n operand (args @ [a]) r = Inr (x, r') \<longrightarrow> length r' \<le> length r)"
        by (rule Suc.IH) (use Suc.prems ts r in auto)
      then show ?thesis using ts Inr xr r by fastforce
    qed
  next
    case False
    then have "arg_loop (Suc n) operand args ts = Inr (args, ts)" by (auto split: list.split ETok.split)
    then show ?thesis by simp
  qed
qed simp

lemma close_paren_sane: "close_paren x ts \<noteq> Inl NoFuel" "close_paren x ts = Inr (y, r) \<Longrightarrow> length r < length ts"
  by (auto simp: close_paren_def split: list.splits ETok.splits)

lemma call_args_sane:
  assumes "\<And>us. length us \<le> length ts \<Longrightarrow> sane add us"
  shows "call_args add ts \<noteq> Inl NoFuel" "call_args add ts = Inr (args, r) \<Longrightarrow> length r \<le> length ts"
proof -
  have a: "arg_loop (Suc (length us)) add [x] us \<noteq> Inl NoFuel \<and>
      (\<forall>y r. arg_loop (Suc (length us)) add [x] us = Inr (y, r) \<longrightarrow> length r \<le> length us)"
    if "length us < length ts" for x us
    by (rule arg_loop_sane) (use that assms in auto)
  have s: "sane add ts" using assms by simp
  show "call_args add ts \<noteq> Inl NoFuel" "call_args add ts = Inr (args, r) \<Longrightarrow> length r \<le> length ts"
    using s a unfolding call_args_def sane_def
    by (cases "add ts"; fastforce simp: bindE_eq_Inr split: if_splits)+
qed

lemma x_primary_sane:
  assumes "\<And>us. length us < length ts \<Longrightarrow> sane add us"
  shows "sane (x_primary add) ts"
proof (cases ts)
  case (Cons t rest)
  have nested: "sane add rest" using assms Cons by simp
  have call: "call_args add us \<noteq> Inl NoFuel" "call_args add us = Inr (args, r) \<Longrightarrow> length r \<le> length us"
    if "rest = ELParen # us" for us args r
    using call_args_sane(1) [of us add] call_args_sane(2) [of us add args r] assms Cons that by auto
  show ?thesis
  proof (cases t)
    case (EIdent name)
    show ?thesis
    proof (cases "\<exists>us. rest = ELParen # us")
      case True
      then obtain us where us: "rest = ELParen # us" by blast
      show ?thesis
      proof (cases "call_args add us")
        case (Inl e)
        then show ?thesis using call(1) [OF us] us Cons EIdent by (auto simp: sane_def x_primary_def)
      next
        case (Inr ar)
        obtain args r where ar: "ar = (args, r)" by (cases ar)
        then have "length r \<le> length us" using call(2) [OF us] Inr by simp
        then show ?thesis using Inr ar us Cons EIdent close_paren_sane [of "XCall name args" r]
          by (fastforce simp: sane_def x_primary_def)
      qed
    next
      case False
      then show ?thesis using Cons EIdent by (auto simp: sane_def x_primary_def split: list.split ETok.split)
    qed
  next
    case ELParen
    show ?thesis
    proof (cases "add rest")
      case (Inl e)
      then show ?thesis using nested Cons ELParen by (auto simp: sane_def x_primary_def)
    next
      case (Inr er)
      obtain e r where er: "er = (e, r)" by (cases er)
      then have "length r < length rest" using nested Inr by (auto simp: sane_def)
      then show ?thesis using Inr er Cons ELParen close_paren_sane [of e r] by (fastforce simp: sane_def x_primary_def)
    qed
  qed (use Cons in \<open>simp_all add: sane_def x_primary_def\<close>)
qed (simp add: sane_def x_primary_def)

lemma then_loop_sane:
  assumes "sane p ts" "\<And>us. length us < length ts \<Longrightarrow> sane p us"
  shows "sane (\<lambda>ts. bindE (p ts) (\<lambda>(e, rest). op_loop (Suc (length rest)) ops p e rest)) ts"
proof (cases "p ts")
  case (Inl e)
  then show ?thesis using assms(1) by (auto simp: sane_def)
next
  case (Inr xr)
  obtain e r where xr: "xr = (e, r)" by (cases xr)
  then have r: "length r < length ts" using assms(1) Inr by (auto simp: sane_def)
  have "op_loop (Suc (length r)) ops p e r \<noteq> Inl NoFuel \<and>
      (\<forall>x r'. op_loop (Suc (length r)) ops p e r = Inr (x, r') \<longrightarrow> length r' \<le> length r)"
    by (rule op_loop_sane) (use assms(2) r in auto)
  then show ?thesis using Inr xr r by (fastforce simp: sane_def)
qed

lemma x_multiplicative_sane:
  assumes "\<And>us. length us < length ts \<Longrightarrow> sane add us"
  shows "sane (x_multiplicative add) ts"
  unfolding x_multiplicative_def [abs_def] by (rule then_loop_sane) (use assms in \<open>auto intro: x_primary_sane\<close>)

lemma x_additive_sane: "length ts < n \<Longrightarrow> sane (x_additive n) ts"
proof (induction n arbitrary: ts)
  case (Suc n)
  have m: "sane (x_multiplicative (x_additive n)) us" if "length us \<le> length ts" for us
    by (rule x_multiplicative_sane) (use Suc that in auto)
  have "sane (\<lambda>ts. bindE (x_multiplicative (x_additive n) ts) (\<lambda>(e, rest).
      op_loop (Suc (length rest)) ''+-'' (x_multiplicative (x_additive n)) e rest)) ts"
    by (rule then_loop_sane) (use m in auto)
  then show ?case by (simp add: sane_def)
qed simp

lemma bindE_neq: "m \<noteq> Inl e \<Longrightarrow> bindE m (\<lambda>(x, r). Inr (f x r)) \<noteq> Inl e" "m' \<noteq> Inl e \<Longrightarrow> bindE m' (\<lambda>t. Inr (g t)) \<noteq> Inl e"
  by (cases m; auto) (cases m'; auto)

lemma if_neq: "x \<noteq> e \<Longrightarrow> y \<noteq> e \<Longrightarrow> (if b then x else y) \<noteq> e"
  by simp

lemma lex_texpr_fuel: "lex_texpr cs \<noteq> Inl NoFuel"
proof (induction cs rule: lex_texpr.induct)
  case (2 c cs)
  have s: "block_string ds \<noteq> Inl NoFuel" for ds
  proof (induction ds rule: block_string.induct)
    case (2 d ds)
    show ?case
    proof (cases "d = [CHR 0x5C]")
      case True
      then show ?thesis using 2(1) [OF True] by (cases ds) (simp_all add: bindE_neq(1))
    next
      case False
      then show ?thesis using 2(2) [OF False] by (simp add: bindE_neq(1))
    qed
  qed simp
  have y: "block_symbol c \<noteq> Inl NoFuel" unfolding block_symbol_def by simp
  have n: "(case number_run (c # cs) of (used, rest) \<Rightarrow> case parse_f64 (concat used) of
      None \<Rightarrow> Inl (BadNumber (concat used)) | Some n \<Rightarrow> Inr (Some (ENum n), rest)) \<noteq> Inl NoFuel"
    by (cases "number_run (c # cs)") (simp split: option.split)
  have "block_turn c cs \<noteq> Inl NoFuel"
    unfolding block_turn_def
    by (intro if_neq n bindE_neq(1) [OF s] bindE_neq(2) [OF y]) simp_all
  moreover have "lex_texpr r \<noteq> Inl NoFuel" if "block_turn c cs = Inr (t, r)" for t r
    using 2 [OF that refl] by simp
  ultimately show ?case by (cases "block_turn c cs") (auto simp: bindE_neq(2))
qed simp

lemma parse_texpr_fuel: "parse_texpr cs \<noteq> Inl NoFuel"
proof (cases "lex_texpr cs")
  case (Inr ts)
  have "sane (x_additive (Suc (length ts))) ts" by (rule x_additive_sane) simp
  then show ?thesis using Inr by (cases "x_additive (Suc (length ts)) ts") (auto simp: parse_texpr_def sane_def simp del: x_additive.simps split: if_splits)
qed (use lex_texpr_fuel [of cs] in \<open>auto simp: parse_texpr_def\<close>)

section \<open>The parser of a pattern ends\<close>

definition mild :: "'a pattern_parse \<Rightarrow> PTok list \<Rightarrow> bool" where
  "mild p ts \<longleftrightarrow> p ts \<noteq> Inl NoFuel \<and> (\<forall>x r. p ts = Inr (x, r) \<longrightarrow> length r \<le> length ts)"

definition eager :: "'a pattern_parse \<Rightarrow> PTok list \<Rightarrow> bool" where
  "eager p ts \<longleftrightarrow> p ts \<noteq> Inl NoFuel \<and> (\<forall>x r. p ts = Inr (x, r) \<longrightarrow> length r < length ts)"

lemma eager_mild: "eager p ts \<Longrightarrow> mild p ts"
  by (auto simp: eager_def mild_def less_imp_le)

lemma mildE:
  assumes "mild p ts"
  obtains e where "p ts = Inl e" "e \<noteq> NoFuel" | x r where "p ts = Inr (x, r)" "length r \<le> length ts"
  using assms by (cases "p ts") (auto simp: mild_def)

lemma eagerE:
  assumes "eager p ts"
  obtains e where "p ts = Inl e" "e \<noteq> NoFuel" | x r where "p ts = Inr (x, r)" "length r < length ts"
  using assms by (cases "p ts") (auto simp: eager_def)

lemma pipe_loop_mild:
  "length ts < n \<Longrightarrow> (\<And>us. length us < length ts \<Longrightarrow> mild sequence us) \<Longrightarrow> mild (pipe_loop n sequence seqs) ts"
proof (induction n arbitrary: seqs ts)
  case (Suc n)
  show ?case
  proof (cases "\<exists>rest. ts = PPipe # rest")
    case True
    then obtain rest where ts: "ts = PPipe # rest" by blast
    have "mild sequence rest" using Suc.prems(2) ts by simp
    then show ?thesis
    proof (cases rule: mildE)
      case (2 x r)
      have "mild (pipe_loop n sequence (seqs @ [x])) r" by (rule Suc.IH) (use Suc.prems ts 2 in auto)
      then show ?thesis using ts 2 by (fastforce simp: mild_def)
    qed (simp add: ts mild_def)
  next
    case False
    then have "pipe_loop (Suc n) sequence seqs ts = Inr (seqs, ts)" by (auto split: list.split PTok.split)
    then show ?thesis by (simp add: mild_def)
  qed
qed simp

lemma p_primary_eager:
  assumes "\<And>us. length us < length ts \<Longrightarrow> mild sequence us"
  shows "eager (p_primary sequence) ts"
proof (cases "\<exists>rest. ts = PLParen # rest")
  case True
  then obtain rest where ts: "ts = PLParen # rest" by blast
  have "mild sequence rest" using assms ts by simp
  then show ?thesis
  proof (cases rule: mildE)
    case (2 x r)
    have "mild (pipe_loop (Suc (length r)) sequence [x]) r" by (rule pipe_loop_mild) (use assms ts 2 in auto)
    then show ?thesis
    proof (cases rule: mildE)
      case (2 y r')
      then show ?thesis using ts \<open>sequence rest = _\<close> \<open>length r \<le> _\<close>
        by (auto simp: eager_def p_primary_def split: list.splits PTok.splits)
    qed (use ts 2 in \<open>simp add: eager_def p_primary_def\<close>)
  qed (simp add: ts eager_def p_primary_def)
next
  case False
  then show ?thesis by (auto simp: eager_def p_primary_def split: list.split PTok.split)
qed

lemma repeat_marks_mild:
  "length ts < n \<Longrightarrow> (\<And>us. length us < length ts \<Longrightarrow> mild sequence us) \<Longrightarrow> mild (repeat_marks n sequence e) ts"
proof (induction n arbitrary: e ts)
  case (Suc n)
  show ?case
  proof (cases "case ts of [] \<Rightarrow> None | t # _ \<Rightarrow> repeat_mark t")
    case None
    then show ?thesis by (simp add: mild_def)
  next
    case (Some ks)
    obtain kind separated where ks: "ks = (kind, separated)" by (cases ks)
    obtain t rest where ts: "ts = t # rest" using Some by (cases ts) auto
    show ?thesis
    proof (cases separated)
      case True
      have "eager (p_primary sequence) rest" by (rule p_primary_eager) (use Suc.prems ts in auto)
      then show ?thesis
      proof (cases rule: eagerE)
        case (2 x r)
        have "mild (repeat_marks n sequence (GRepeat e kind (Some x))) r" by (rule Suc.IH) (use Suc.prems ts 2 in auto)
        then show ?thesis using Some ks ts True 2 by (fastforce simp: mild_def)
      qed (use Some ks ts True in \<open>simp add: mild_def\<close>)
    next
      case False
      have "mild (repeat_marks n sequence (GRepeat e kind None)) rest" by (rule Suc.IH) (use Suc.prems ts in auto)
      then show ?thesis using Some ks ts False by (fastforce simp: mild_def)
    qed
  qed
qed simp

lemma p_postfix_eager:
  assumes "\<And>us. length us < length ts \<Longrightarrow> mild sequence us"
  shows "eager (p_postfix sequence) ts"
proof -
  have "eager (p_primary sequence) ts" by (rule p_primary_eager) (rule assms)
  then show ?thesis
  proof (cases rule: eagerE)
    case (2 x r)
    have "mild (repeat_marks (Suc (length r)) sequence x) r" by (rule repeat_marks_mild) (use assms 2 in auto)
    then show ?thesis using 2 by (fastforce simp: mild_def eager_def p_postfix_def simp del: repeat_marks.simps)
  qed (simp add: eager_def p_postfix_def)
qed

lemma p_item_eager:
  assumes "\<And>us. length us < length ts \<Longrightarrow> mild sequence us"
  shows "eager (p_item sequence) ts"
proof (cases "\<exists>name rest. ts = PIdent name # PColon # rest")
  case True
  then obtain name rest where ts: "ts = PIdent name # PColon # rest" by blast
  have "eager (p_postfix sequence) rest" by (rule p_postfix_eager) (use assms ts in auto)
  then show ?thesis using ts by (cases rule: eagerE) (auto simp: eager_def p_item_def)
next
  case False
  have "eager (p_postfix sequence) ts" by (rule p_postfix_eager) (rule assms)
  moreover have "p_item sequence ts = bindE (p_postfix sequence ts) (\<lambda>(e, rest). Inr (Item None e, rest))"
    using False by (auto simp: p_item_def split: list.split PTok.split)
  ultimately show ?thesis by (cases rule: eagerE) (auto simp: eager_def)
qed

lemma item_loop_mild:
  "length ts < n \<Longrightarrow> (\<And>us. length us \<le> length ts \<Longrightarrow> eager item us) \<Longrightarrow> mild (item_loop n item items) ts"
proof (induction n arbitrary: items ts)
  case (Suc n)
  show ?case
  proof (cases "ts = [] \<or> hd ts = PRParen \<or> hd ts = PPipe")
    case True
    then show ?thesis by (auto simp: mild_def)
  next
    case False
    have "eager item ts" using Suc.prems(2) by simp
    then show ?thesis
    proof (cases rule: eagerE)
      case (2 x r)
      have "mild (item_loop n item (items @ [x])) r" by (rule Suc.IH) (use Suc.prems 2 in auto)
      moreover have "item_loop (Suc n) item items ts = item_loop n item (items @ [x]) r" using False 2 by simp
      ultimately show ?thesis using 2 unfolding mild_def by auto
    qed (use False in \<open>auto simp: mild_def\<close>)
  qed
qed simp

lemma p_sequence_mild: "length ts < n \<Longrightarrow> mild (p_sequence n) ts"
proof (induction n arbitrary: ts)
  case (Suc n)
  have "eager (p_item (p_sequence n)) us" if "length us \<le> length ts" for us
    by (rule p_item_eager) (use Suc that in auto)
  then have "mild (item_loop (Suc (length ts)) (p_item (p_sequence n)) []) ts" by (intro item_loop_mild) simp_all
  then show ?case by (simp add: mild_def del: item_loop.simps)
qed simp

section \<open>Rendering fails on its own account only\<close>

definition harmless :: "simp_error \<Rightarrow> bool" where
  "harmless e \<longleftrightarrow> (\<forall>n. e \<noteq> RecursionLimit n \<and> e \<noteq> UnknownProduction n) \<and> e \<noteq> NoFuel"

definition only :: "(simp_error \<Rightarrow> bool) \<Rightarrow> simp_error + 'a \<Rightarrow> bool" where
  "only H m \<longleftrightarrow> (\<forall>e. m = Inl e \<longrightarrow> H e)"

abbreviation calm :: "simp_error + 'a \<Rightarrow> bool" where
  "calm \<equiv> only harmless"

lemma calm_Inr [simp]: "only H (Inr x)"
  by (simp add: only_def)

lemma calm_Inl [simp]: "only H (Inl e) \<longleftrightarrow> H e"
  by (simp add: only_def)

lemma harmless_simps [simp]:
  "harmless (UnknownCapture n)" "harmless (ListInterpolated n)" "harmless DivisionByZero" "harmless ModuloByZero" "harmless (UnknownOperator c)"
  "harmless (Arity n i j)" "harmless (NumOfText n)" "harmless NumOfList" "harmless StrOfList" "harmless JoinSeparator" "harmless JoinOfText"
  "harmless (UnknownFunction n)" "harmless NumberFromText" "harmless NumberFromList" "harmless ListBlock" "harmless NoMatch" "harmless (TrailingText n)"
  by (simp_all add: harmless_def)

lemma calm_bind: "only H m \<Longrightarrow> (\<And>x. m = Inr x \<Longrightarrow> only H (f x)) \<Longrightarrow> only H (bindE m f)"
  by (cases m) auto

lemma calm_checkE [simp]: "only H (checkE b e) \<longleftrightarrow> b \<or> H e"
  by (simp add: checkE_def)

lemma calm_optE [simp]: "only H (optE m e) \<longleftrightarrow> m \<noteq> None \<or> H e"
  by (cases m) (simp_all add: optE_def)

lemma calm_binary: "calm (binary op x y)"
  by (simp add: binary_def)

lemma calm_if: "only H x \<Longrightarrow> only H y \<Longrightarrow> only H (if b then x else y)"
  by simp

lemma calm_value: "(\<And>s. only H (f s)) \<Longrightarrow> (\<And>n. only H (g n)) \<Longrightarrow> (\<And>xs. only H (h xs)) \<Longrightarrow> only H (case_TValue f g h v)"
  by (cases v) simp_all

lemma calm_eval_call:
  assumes "\<forall>a\<in>set args. calm a"
  shows "calm (eval_call name args now)"
proof -
  have n: "calm (bindE (checkE (length args = n) (Arity name n (length args))) f)"
    if "length args = n \<Longrightarrow> calm (f ())" for n f
    using that by (cases "length args = n") (simp_all add: checkE_def)
  have a: "calm (args ! i)" if "length args = n" "i < n" for i n using assms that by simp
  show ?thesis
    unfolding eval_call_def Let_def
    by (intro calm_if n calm_bind calm_value) (simp_all add: a)
qed

lemma calm_t_eval: "calm (t_eval caps now e)"
proof (induction e)
  case (XVar x)
  then show ?case by (auto simp: lookup_capture_def intro!: calm_bind)
next
  case (XBin a op b)
  have n: "calm (as_num v)" for v by (cases v) (simp_all add: as_num_def)
  show ?case using XBin n by (auto intro!: calm_bind calm_binary)
next
  case (XCall name args)
  then show ?case by (auto intro!: calm_eval_call)
qed simp_all

lemma calm_foldE: "(\<And>x s. x \<in> set xs \<Longrightarrow> only H (f x s)) \<Longrightarrow> only H (foldE f xs s)"
  by (induction xs arbitrary: s) (auto intro!: calm_bind)

lemma calm_render: "calm (render parts caps now)"
proof -
  have v: "calm (render_value v)" for v by (cases v) (simp_all add: render_value_def)
  have "calm (render_part caps now p)" for p
    by (cases p) (auto simp: render_part_def lookup_capture_def split: Capture.split intro!: calm_bind calm_t_eval v)
  then show ?thesis unfolding render_def by (auto intro!: calm_foldE calm_bind)
qed

lemma calm_first_match: "(\<And>x. x \<in> set xs \<Longrightarrow> only H (f x)) \<Longrightarrow> only H (first_match f xs)"
  by (induction xs) (auto intro!: calm_bind split: option.split)

section \<open>Loading a grammar ends\<close>

abbreviation fueled :: "simp_error + 'a \<Rightarrow> bool" where
  "fueled \<equiv> only (\<lambda>e. e \<noteq> NoFuel)"

lemma lex_pattern_fuel: "fueled (lex_pattern cs)"
proof (induction cs rule: lex_pattern.induct)
  case (2 c cs)
  have s: "fueled (pattern_string ds)" for ds
  proof (induction ds rule: pattern_string.induct)
    case (2 d ds)
    show ?case
    proof (cases "d = [CHR 0x5C]")
      case True
      then show ?thesis using 2(1) [OF True] by (cases ds) (auto intro!: calm_bind)
    next
      case False
      then show ?thesis using 2(2) [OF False] by (auto intro!: calm_bind)
    qed
  qed simp
  have y: "fueled (pattern_symbol c cs)" unfolding pattern_symbol_def by simp
  have "fueled (pattern_turn c cs)" unfolding pattern_turn_def
    by (intro calm_if calm_bind [OF s] calm_bind [OF y]) (simp_all split: prod.split)
  moreover have "fueled (lex_pattern r)" if "pattern_turn c cs = Inr (t, r)" for t r
    using 2 [OF that refl] .
  ultimately show ?case by (auto intro!: calm_bind)
qed simp

lemma parse_pattern_fuel: "fueled (parse_pattern src)"
proof -
  have "mild (p_sequence (Suc (length ts))) ts" for ts by (rule p_sequence_mild) simp
  then have "fueled (p_sequence (Suc (length ts)) ts)" for ts unfolding mild_def only_def by blast
  then show ?thesis unfolding parse_pattern_def
    by (intro calm_bind [OF lex_pattern_fuel] calm_bind) (auto split: prod.split)
qed

lemma parse_grammar_fuel: "fueled (parse_grammar src)"
proof -
  have l: "fueled (grammar_line raw prods)" for raw prods
    by (auto simp: grammar_line_def Let_def split: option.split)
  have "fueled (parse_alternative a)" for a
    unfolding parse_alternative_def Let_def
    by (cases "find_arrow a") (auto intro!: calm_bind parse_pattern_fuel)
  then have a: "fueled (parse_alternatives body)" for body
    unfolding parse_alternatives_def by (auto intro!: calm_foldE calm_bind)
  show ?thesis unfolding parse_grammar_def
    by (intro calm_bind calm_foldE l) (auto intro!: calm_foldE calm_bind a split: prod.split)
qed

end
