(* ===== verification/Dsl.thy ===== *)
theory Dsl
  imports Dsl_Lexer
begin

text \<open>
  The parser of the query language's text form (\<open>core/dsl.rs\<close>), on the tokens of
  \<open>Dsl_Lexer\<close>. A parser takes the tokens left and returns what it read and what it left, or an error.
  The depth a sub-query is at is counted down: \<open>or_expr lib n\<close> parses with \<open>n\<close> levels to go.
\<close>

type_synonym 'a parse = "Tok list \<Rightarrow> dsl_error + 'a \<times> Tok list"

section \<open>Tokens read one by one\<close>

definition ident_of :: "Tok \<Rightarrow> string option" where
  "ident_of t = (case t of TIdent name \<Rightarrow> Some name | _ \<Rightarrow> None)"

definition str_of :: "Tok \<Rightarrow> string option" where
  "str_of t = (case t of TStr s \<Rightarrow> Some s | _ \<Rightarrow> None)"

definition name_of :: "Tok \<Rightarrow> string option" where
  "name_of t = (case t of TIdent name \<Rightarrow> Some name | THex text \<Rightarrow> Some text | _ \<Rightarrow> None)"

definition is_operator :: "Tok \<Rightarrow> bool" where
  "is_operator t \<longleftrightarrow> t \<in> {KIs, TEq, TNeq, TLt, TLte, TGt, TGte, KMatches, TArrow, TArrowStar, TFatArrowStar}"

definition follows_a_field :: "Tok \<Rightarrow> bool" where
  "follows_a_field t \<longleftrightarrow> is_operator t \<or> t = TColon"

definition aspect_from_name :: "string \<Rightarrow> Aspect option" where
  "aspect_from_name name =
     (if name = ''raw'' then Some Raw
      else if name = ''value'' then Some AValue
      else if name = ''parent'' then Some AParent
      else if name = ''path'' then Some APath
      else None)"

definition peek_is :: "Tok \<Rightarrow> Tok list \<Rightarrow> bool" where
  "peek_is t ts \<longleftrightarrow> ts \<noteq> [] \<and> hd ts = t"

definition expect_tok :: "Tok \<Rightarrow> Tok list \<Rightarrow> dsl_error + Tok list" where
  "expect_tok expected ts =
     (case ts of
        [] \<Rightarrow> Inl (Expected expected None)
      | t # r \<Rightarrow> if t = expected then Inr r else Inl (Expected expected (Some t)))"

definition field_in :: "string \<Rightarrow> string parse" where
  "field_in kw ts =
     (case ts of
        [] \<Rightarrow> Inl (ExpectedFieldIn kw None)
      | t # r \<Rightarrow> (case name_of t of Some name \<Rightarrow> Inr (name, r) | None \<Rightarrow> Inl (ExpectedFieldIn kw (Some t))))"

definition aspect_opt :: "Aspect parse" where
  "aspect_opt ts =
     (if \<not> peek_is TColon ts then Inr (Raw, ts)
      else (case tl ts of
              [] \<Rightarrow> Inl (ExpectedAspect None)
            | t # r \<Rightarrow> (case ident_of t of
                          Some name \<Rightarrow> bindE (optE (aspect_from_name name) (UnknownAspect name)) (\<lambda>a. Inr (a, r))
                        | None \<Rightarrow> Inl (ExpectedAspect (Some t)))))"

definition literal_of :: "Tok \<Rightarrow> dsl_error + value" where
  "literal_of t =
     (case t of
        TInt n \<Rightarrow> Inr (VInt n)
      | TFloat f \<Rightarrow> Inr (VFloat f)
      | TDateTime ms \<Rightarrow> Inr (VDateTime ms)
      | TStr s \<Rightarrow> Inr (VString s)
      | KTrue \<Rightarrow> Inr (VBool True)
      | KFalse \<Rightarrow> Inr (VBool False)
      | THex text \<Rightarrow> Inl (UuidLiteral text)
      | _ \<Rightarrow> Inl (ExpectedLiteral (Some t)))"

definition literal :: "value parse" where
  "literal ts = (case ts of [] \<Rightarrow> Inl (ExpectedLiteral None) | t # r \<Rightarrow> bindE (literal_of t) (\<lambda>v. Inr (v, r)))"

section \<open>Calls\<close>

definition is_call :: "string \<Rightarrow> Tok list \<Rightarrow> bool" where
  "is_call kw ts \<longleftrightarrow> ts \<noteq> [] \<and> ident_of (hd ts) = Some kw \<and> peek_is TLParen (tl ts)"

definition peek_uuid_atom :: "dsl_lib \<Rightarrow> Tok list \<Rightarrow> uuid option" where
  "peek_uuid_atom lib ts =
     (case ts of
        [] \<Rightarrow> None
      | t # r \<Rightarrow> (case t of
                    THex text \<Rightarrow> if r \<noteq> [] \<and> follows_a_field (hd r) then None else try_parse lib text
                  | _ \<Rightarrow> None))"

fun in_values :: "value list parse" where
  "in_values [] = Inl (ExpectedListEnd ''in'' None)"
| "in_values (t # ts) =
     (if t = TRParen then Inr ([], ts)
      else if t = TComma then
        (case ts of
           [] \<Rightarrow> Inl (ExpectedLiteral None)
         | x # r \<Rightarrow>
             if x = TRParen then Inr ([], r)
             else bindE (literal_of x) (\<lambda>v. bindE (in_values r) (\<lambda>(vs, r). Inr (v # vs, r))))
      else Inl (ExpectedListEnd ''in'' (Some t)))"

definition in_call :: "Query parse" where
  "in_call ts =
     bindE (expect_tok TLParen (tl ts)) (\<lambda>ts.
     bindE (field_in ''in'' ts) (\<lambda>(field, ts).
     bindE (aspect_opt ts) (\<lambda>(aspect, ts).
     bindE (in_values ts) (\<lambda>(vs, ts). Inr (QIn field vs aspect, ts)))))"

definition uuid_in_element :: "dsl_lib \<Rightarrow> Tok \<Rightarrow> dsl_error + uuid" where
  "uuid_in_element lib t =
     (case t of
        THex text \<Rightarrow> optE (try_parse lib text) (TruncatedUuid text)
      | TIdent name \<Rightarrow> Inl (if looks_like_truncated_uuid name then TruncatedUuid name else ExpectedUuid (Some t))
      | TStr s \<Rightarrow> Inl (if try_parse lib s \<noteq> None then QuotedUuid s else ExpectedUuid (Some t))
      | _ \<Rightarrow> Inl (ExpectedUuid (Some t)))"

fun uuid_list :: "dsl_lib \<Rightarrow> uuid list parse" where
  "uuid_list lib [] = Inl (ExpectedUuid None)"
| "uuid_list lib (t # ts) =
     (if t = TRParen then Inr ([], ts)
      else bindE (uuid_in_element lib t) (\<lambda>u.
             case ts of
               [] \<Rightarrow> Inl (ExpectedListEnd ''uuid_in'' None)
             | x # r \<Rightarrow>
                 if x = TComma then bindE (uuid_list lib r) (\<lambda>(us, r). Inr (u # us, r))
                 else if x = TRParen then Inr ([u], r)
                 else Inl (ExpectedListEnd ''uuid_in'' (Some x))))"

definition uuid_in_call :: "dsl_lib \<Rightarrow> Query parse" where
  "uuid_in_call lib ts =
     bindE (expect_tok TLParen (tl ts)) (\<lambda>ts. bindE (uuid_list lib ts) (\<lambda>(us, ts). Inr (QUuidIn us, ts)))"

definition same_call :: "Query parse \<Rightarrow> Query parse" where
  "same_call sub ts =
     bindE (expect_tok TLParen (tl ts)) (\<lambda>ts.
     bindE (field_in ''same'' ts) (\<lambda>(field, ts).
     bindE (expect_tok TComma ts) (\<lambda>ts.
     bindE (sub ts) (\<lambda>(target, ts).
     bindE (expect_tok TRParen ts) (\<lambda>ts. Inr (QSameAs field target, ts))))))"

definition osm_keyword :: "OsmMode \<Rightarrow> string" where
  "osm_keyword mode = (if mode = PathMode then ''osm'' else ''osmd'')"

definition osm_terms :: "OsmMode \<Rightarrow> string list parse" where
  "osm_terms mode ts =
     (case ts of
        [] \<Rightarrow> Inl (ExpectedTerms mode None)
      | t # r \<Rightarrow> (case str_of t of Some s \<Rightarrow> Inr (split_terms s, r) | None \<Rightarrow> Inl (ExpectedTerms mode (Some t))))"

definition osm_call :: "OsmMode \<Rightarrow> Query parse" where
  "osm_call mode ts =
     bindE (expect_tok TLParen (tl ts)) (\<lambda>ts.
     bindE (field_in (osm_keyword mode) ts) (\<lambda>(field, ts).
     bindE (aspect_opt ts) (\<lambda>(given, ts).
     bindE (checkE (given = Raw \<or> given = (if mode = PathMode then APath else AValue)) (OsmAspect mode given)) (\<lambda>_.
     bindE (expect_tok TComma ts) (\<lambda>ts.
     bindE (osm_terms mode ts) (\<lambda>(terms, ts).
     bindE (expect_tok TRParen ts) (\<lambda>ts. Inr (QOsm field terms mode, ts))))))))"

section \<open>Predicates\<close>

definition comparison_of :: "Tok \<Rightarrow> (string \<Rightarrow> value \<Rightarrow> Aspect \<Rightarrow> Query) option" where
  "comparison_of t =
     (case t of
        TEq \<Rightarrow> Some QEq | TNeq \<Rightarrow> Some QNeq | TLt \<Rightarrow> Some QLt
      | TLte \<Rightarrow> Some QLte | TGt \<Rightarrow> Some QGt | TGte \<Rightarrow> Some QGte | _ \<Rightarrow> None)"

definition presence_of :: "string \<Rightarrow> Aspect \<Rightarrow> Query parse" where
  "presence_of field aspect ts =
     (case ts of
        [] \<Rightarrow> Inl (ExpectedPresence None)
      | t # r \<Rightarrow>
          if t = KPresent then Inr (QIsPresent field aspect, r)
          else if t = KAbsent then Inr (QIsAbsent field aspect, r)
          else if t = KUnknown then (if aspect \<noteq> Raw then Inl UnknownTakesNoAspect else Inr (QIsUnknown field, r))
          else Inl (ExpectedPresence (Some t)))"

definition pattern_of :: "string \<Rightarrow> Aspect \<Rightarrow> Query parse" where
  "pattern_of field aspect ts =
     (case ts of
        [] \<Rightarrow> Inl (ExpectedPattern None)
      | t # r \<Rightarrow> (case str_of t of
                    Some pattern \<Rightarrow> Inr (QMatches field pattern aspect, r)
                  | None \<Rightarrow> Inl (ExpectedPattern (Some t))))"

definition follow_target :: "Query parse \<Rightarrow> string \<Rightarrow> FollowTarget parse" where
  "follow_target sub arrow ts =
     (case ts of
        [] \<Rightarrow> Inl (ExpectedTarget arrow None)
      | t # r \<Rightarrow>
          (case str_of t of
             Some path \<Rightarrow> Inr (FPath path, r)
           | None \<Rightarrow>
               if t = TLParen then
                 bindE (sub r) (\<lambda>(q, r). bindE (expect_tok TRParen r) (\<lambda>r. Inr (FCondition q, r)))
               else Inl (ExpectedTarget arrow (Some t))))"

definition predicate_op :: "Query parse \<Rightarrow> string \<Rightarrow> Aspect \<Rightarrow> Query parse" where
  "predicate_op sub field aspect ts =
     (case ts of
        [] \<Rightarrow> Inl (ExpectedOperator field None)
      | t # r \<Rightarrow>
          if t = KIs then presence_of field aspect r
          else (case comparison_of t of
             Some node \<Rightarrow> bindE (literal r) (\<lambda>(v, r). Inr (node field v aspect, r))
           | None \<Rightarrow>
               if t = KMatches then pattern_of field aspect r
               else if t \<in> {TArrow, TArrowStar, TFatArrowStar} \<and> aspect \<noteq> Raw then Inl (ArrowTakesNoAspect t)
               else if t = TArrow then bindE (follow_target sub ''->'' r) (\<lambda>(g, r). Inr (QFollows field g, r))
               else if t = TArrowStar then
                 bindE (follow_target sub ''->*'' r) (\<lambda>(g, r). Inr (QFollowsTransitive field g False, r))
               else if t = TFatArrowStar then
                 bindE (follow_target sub ''=>*'' r) (\<lambda>(g, r). Inr (QFollowsTransitive field g True, r))
               else Inl (ExpectedOperator field (Some t))))"

definition predicate_field :: "dsl_lib \<Rightarrow> string parse" where
  "predicate_field lib ts =
     (case ts of
        [] \<Rightarrow> Inl (ExpectedField None)
      | t # r \<Rightarrow>
          (case t of
             TIdent name \<Rightarrow>
               if looks_like_truncated_uuid name \<and> \<not> (r \<noteq> [] \<and> follows_a_field (hd r)) then Inl (TruncatedUuid name)
               else Inr (name, r)
           | THex text \<Rightarrow> Inr (text, r)
           | TStr s \<Rightarrow> Inl (if try_parse lib s \<noteq> None then QuotedUuid s else ExpectedField (Some t))
           | _ \<Rightarrow> Inl (ExpectedField (Some t))))"

definition predicate :: "dsl_lib \<Rightarrow> Query parse \<Rightarrow> Query parse" where
  "predicate lib sub ts =
     bindE (predicate_field lib ts) (\<lambda>(field, ts).
     bindE (aspect_opt ts) (\<lambda>(aspect, ts). predicate_op sub field aspect ts))"

section \<open>Expressions\<close>

definition atom :: "dsl_lib \<Rightarrow> Query parse \<Rightarrow> Query parse" where
  "atom lib sub ts =
     (if peek_is TLParen ts then
        bindE (sub (tl ts)) (\<lambda>(q, r). bindE (expect_tok TRParen r) (\<lambda>r. Inr (q, r)))
      else if is_call ''osm'' ts then osm_call PathMode ts
      else if is_call ''osmd'' ts then osm_call Direct ts
      else if is_call ''same'' ts then same_call sub ts
      else if is_call ''uuid_in'' ts then uuid_in_call lib ts
      else if is_call ''in'' ts then in_call ts
      else (case peek_uuid_atom lib ts of
              Some u \<Rightarrow> Inr (QUuidIn [u], tl ts)
            | None \<Rightarrow> predicate lib sub ts))"

definition unary :: "dsl_lib \<Rightarrow> Query parse \<Rightarrow> Query parse \<Rightarrow> Query parse" where
  "unary lib sub nested ts =
     (if peek_is KNot ts then bindE (nested (tl ts)) (\<lambda>(q, r). Inr (QNot q, r))
      else atom lib sub ts)"

text \<open>The loop over the operands: it takes a token a turn, so the length of the tokens is enough.\<close>

fun more_operands :: "nat \<Rightarrow> Tok \<Rightarrow> Query parse \<Rightarrow> Query list parse" where
  "more_operands 0 sep p ts = Inr ([], ts)"
| "more_operands (Suc n) sep p ts =
     (if peek_is sep ts then
        bindE (p (tl ts)) (\<lambda>(q, r). bindE (more_operands n sep p r) (\<lambda>(qs, r). Inr (q # qs, r)))
      else Inr ([], ts))"

definition operands :: "Tok \<Rightarrow> Query parse \<Rightarrow> Query list parse" where
  "operands sep p ts =
     bindE (p ts) (\<lambda>(q, r). bindE (more_operands (length r) sep p r) (\<lambda>(qs, r). Inr (q # qs, r)))"

definition and_node :: "Query list \<Rightarrow> Query" where
  "and_node qs = (case qs of [q] \<Rightarrow> q | _ \<Rightarrow> QAnd qs)"

definition uuids_of :: "Query \<Rightarrow> uuid list option" where
  "uuids_of q = (case q of QUuidIn us \<Rightarrow> Some us | _ \<Rightarrow> None)"

definition or_node :: "Query list \<Rightarrow> Query" where
  "or_node qs =
     (case qs of
        [q] \<Rightarrow> q
      | _ \<Rightarrow> if list_all (\<lambda>q. uuids_of q \<noteq> None) qs then QUuidIn (concat (List.map_filter uuids_of qs)) else QOr qs)"

definition and_expr :: "dsl_lib \<Rightarrow> Query parse \<Rightarrow> Query parse \<Rightarrow> Query parse" where
  "and_expr lib sub nested ts = bindE (operands KAnd (unary lib sub nested) ts) (\<lambda>(qs, r). Inr (and_node qs, r))"

definition or_expr_inner :: "dsl_lib \<Rightarrow> Query parse \<Rightarrow> Query parse \<Rightarrow> Query parse" where
  "or_expr_inner lib sub nested ts =
     bindE (operands KOr (and_expr lib sub nested) ts) (\<lambda>(qs, r). Inr (or_node qs, r))"

fun or_expr :: "dsl_lib \<Rightarrow> nat \<Rightarrow> Query parse"
  and nested_unary :: "dsl_lib \<Rightarrow> nat \<Rightarrow> Query parse" where
  "or_expr lib 0 ts = Inl TooDeep"
| "or_expr lib (Suc n) ts = or_expr_inner lib (\<lambda>ts. or_expr lib n ts) (\<lambda>ts. nested_unary lib n ts) ts"
| "nested_unary lib 0 ts = Inl TooDeep"
| "nested_unary lib (Suc n) ts = unary lib (\<lambda>ts. or_expr lib n ts) (\<lambda>ts. nested_unary lib n ts) ts"

definition MAX_DEPTH :: nat where
  "MAX_DEPTH = 128"

definition parse_tokens :: "dsl_lib \<Rightarrow> Tok list \<Rightarrow> dsl_error + Query" where
  "parse_tokens lib ts =
     bindE (or_expr lib MAX_DEPTH ts) (\<lambda>(q, r). case r of [] \<Rightarrow> Inr q | t # _ \<Rightarrow> Inl (TrailingInput t))"

definition parse_query :: "dsl_lib \<Rightarrow> string \<Rightarrow> dsl_error + Query" where
  "parse_query lib input = bindE (lex lib input) (parse_tokens lib)"

end
