(* ===== verification/Dsl_Laws.thy ===== *)
theory Dsl_Laws
  imports Dsl Rows
begin

text \<open>
  Which queries the text form can say: the parser reads back every query that has the shape of a text,
  down to the depth it allows, and returns no other.
\<close>

section \<open>Tokens\<close>

lemma ident_of_Some [simp]: "ident_of t = Some name \<longleftrightarrow> t = TIdent name"
  by (cases t) (auto simp: ident_of_def)

lemma str_of_Some [simp]: "str_of t = Some s \<longleftrightarrow> t = TStr s"
  by (cases t) (auto simp: str_of_def)

lemma name_of_Some [simp]: "name_of t = Some name \<longleftrightarrow> t = TIdent name \<or> t = THex name"
  by (cases t) (auto simp: name_of_def)

lemma tok_parts [simp]:
  "ident_of (TIdent name) = Some name" "str_of (TStr s) = Some s" "name_of (TIdent name) = Some name" "name_of (THex text) = Some text"
  "str_of TLParen = None" "ident_of TLParen = None" "ident_of (THex text) = None" "ident_of KNot = None"
  by (simp_all add: ident_of_def str_of_def name_of_def)

lemma peek_is_simps [simp]: "\<not> peek_is t []" "peek_is t (x # xs) \<longleftrightarrow> x = t"
  by (simp_all add: peek_is_def)

lemma expect_tok_eq [simp]: "expect_tok t (x # r) = (if x = t then Inr r else Inl (Expected t (Some x)))"
  by (simp add: expect_tok_def)

lemma expect_tok_Inr: "expect_tok t ts = Inr r \<longleftrightarrow> ts = t # r"
  by (cases ts) (auto simp: expect_tok_def)

lemma field_in_Inr: "field_in kw ts = Inr (name, r) \<longleftrightarrow> ts = TIdent name # r \<or> ts = THex name # r"
  by (cases ts) (auto simp: field_in_def split: option.splits)

definition aspect_toks :: "Aspect \<Rightarrow> Tok list" where
  "aspect_toks a =
     (case a of Raw \<Rightarrow> [] | AValue \<Rightarrow> [TColon, TIdent ''value''] | AParent \<Rightarrow> [TColon, TIdent ''parent'']
      | APath \<Rightarrow> [TColon, TIdent ''path''])"

lemma aspect_opt_toks: "\<not> peek_is TColon r \<Longrightarrow> aspect_opt (aspect_toks a @ r) = Inr (a, r)"
  by (cases a) (simp_all add: aspect_opt_def aspect_toks_def aspect_from_name_def)

section \<open>What a text can say\<close>

fun literal_tok :: "value \<Rightarrow> Tok option" where
  "literal_tok (VInt n) = Some (TInt n)"
| "literal_tok (VFloat f) = Some (TFloat f)"
| "literal_tok (VDateTime ms) = Some (TDateTime ms)"
| "literal_tok (VString s) = Some (TStr s)"
| "literal_tok (VBool b) = Some (if b then KTrue else KFalse)"
| "literal_tok _ = None"

lemma literal_of_Inr: "literal_of t = Inr v \<longleftrightarrow> literal_tok v = Some t"
  by (cases t; cases v) (auto simp: literal_of_def)

definition is_or :: "Query \<Rightarrow> bool" where
  "is_or q \<longleftrightarrow> (case q of QOr _ \<Rightarrow> True | _ \<Rightarrow> False)"

definition is_and :: "Query \<Rightarrow> bool" where
  "is_and q \<longleftrightarrow> (case q of QAnd _ \<Rightarrow> True | _ \<Rightarrow> False)"

lemma is_or_simps [simp]: "is_or (QOr qs)" "\<not> is_or (QAnd qs)" "\<not> is_and (QOr qs)" "is_and (QAnd qs)"
  by (simp_all add: is_or_def is_and_def)

text \<open>The shape of a query that a text means.\<close>

fun sayable :: "Query \<Rightarrow> bool" and sayable_target :: "FollowTarget \<Rightarrow> bool" where
  "sayable (QAnd qs) \<longleftrightarrow> 2 \<le> length qs \<and> (\<forall>q\<in>set qs. sayable q)"
| "sayable (QOr qs) \<longleftrightarrow> 2 \<le> length qs \<and> \<not> (\<forall>q\<in>set qs. uuids_of q \<noteq> None) \<and> (\<forall>q\<in>set qs. sayable q)"
| "sayable (QNot q) \<longleftrightarrow> sayable q"
| "sayable (QIsPresent _ _) \<longleftrightarrow> True"
| "sayable (QIsAbsent _ _) \<longleftrightarrow> True"
| "sayable (QIsUnknown _) \<longleftrightarrow> True"
| "sayable (QEq _ v _) \<longleftrightarrow> literal_tok v \<noteq> None"
| "sayable (QNeq _ v _) \<longleftrightarrow> literal_tok v \<noteq> None"
| "sayable (QLt _ v _) \<longleftrightarrow> literal_tok v \<noteq> None"
| "sayable (QLte _ v _) \<longleftrightarrow> literal_tok v \<noteq> None"
| "sayable (QGt _ v _) \<longleftrightarrow> literal_tok v \<noteq> None"
| "sayable (QGte _ v _) \<longleftrightarrow> literal_tok v \<noteq> None"
| "sayable (QIn _ vs _) \<longleftrightarrow> (\<forall>v\<in>set vs. literal_tok v \<noteq> None)"
| "sayable (QFollows _ g) \<longleftrightarrow> sayable_target g"
| "sayable (QFollowsTransitive _ g _) \<longleftrightarrow> sayable_target g"
| "sayable (QMatches _ _ _) \<longleftrightarrow> True"
| "sayable (QOsm _ terms _) \<longleftrightarrow> split_terms (concat (map (\<lambda>t. t @ '' '') terms)) = terms"
| "sayable (QSameAs _ q) \<longleftrightarrow> sayable q"
| "sayable (QUuidIn _) \<longleftrightarrow> True"
| "sayable_target (FPath _) \<longleftrightarrow> True"
| "sayable_target (FCondition q) \<longleftrightarrow> sayable q"

text \<open>The levels of nesting a text needs for it: a parenthesis, a negation and a sub-query cost one.\<close>

fun nesting :: "Query \<Rightarrow> nat" and nesting_target :: "FollowTarget \<Rightarrow> nat" where
  "nesting (QAnd qs) = Max (insert 0 (set (map (\<lambda>q. (if is_or q \<or> is_and q then 1 else 0) + nesting q) qs)))"
| "nesting (QOr qs) = Max (insert 0 (set (map (\<lambda>q. (if is_or q then 1 else 0) + nesting q) qs)))"
| "nesting (QNot q) = Suc ((if is_or q \<or> is_and q then 1 else 0) + nesting q)"
| "nesting (QFollows _ g) = nesting_target g"
| "nesting (QFollowsTransitive _ g _) = nesting_target g"
| "nesting (QSameAs _ q) = Suc (nesting q)"
| "nesting (QIsPresent _ _) = 0"
| "nesting (QIsAbsent _ _) = 0"
| "nesting (QIsUnknown _) = 0"
| "nesting (QEq _ _ _) = 0"
| "nesting (QNeq _ _ _) = 0"
| "nesting (QLt _ _ _) = 0"
| "nesting (QLte _ _ _) = 0"
| "nesting (QGt _ _ _) = 0"
| "nesting (QGte _ _ _) = 0"
| "nesting (QIn _ _ _) = 0"
| "nesting (QMatches _ _ _) = 0"
| "nesting (QOsm _ _ _) = 0"
| "nesting (QUuidIn _) = 0"
| "nesting_target (FPath _) = 0"
| "nesting_target (FCondition q) = Suc (nesting q)"

text \<open>The tokens of a query, with the parentheses it needs.\<close>

definition paren :: "bool \<Rightarrow> Tok list \<Rightarrow> Tok list" where
  "paren b ts = (if b then TLParen # ts @ [TRParen] else ts)"

fun join_toks :: "Tok \<Rightarrow> Tok list list \<Rightarrow> Tok list" where
  "join_toks sep [] = []"
| "join_toks sep (ts # tss) = ts @ concat (map (\<lambda>us. sep # us) tss)"

definition hex_text :: "uuid \<Rightarrow> string" where
  "hex_text u = hex_encode (uuid_to_bytes u)"

definition compare_toks :: "string \<Rightarrow> Tok \<Rightarrow> value \<Rightarrow> Aspect \<Rightarrow> Tok list" where
  "compare_toks f t v a = TIdent f # aspect_toks a @ [t] @ (case literal_tok v of Some l \<Rightarrow> [l] | None \<Rightarrow> [])"

fun query_toks :: "Query \<Rightarrow> Tok list" and target_toks :: "FollowTarget \<Rightarrow> Tok list" where
  "query_toks (QAnd qs) = join_toks KAnd (map (\<lambda>q. paren (is_or q \<or> is_and q) (query_toks q)) qs)"
| "query_toks (QOr qs) = join_toks KOr (map (\<lambda>q. paren (is_or q) (query_toks q)) qs)"
| "query_toks (QNot q) = KNot # paren (is_or q \<or> is_and q) (query_toks q)"
| "query_toks (QIsPresent f a) = TIdent f # aspect_toks a @ [KIs, KPresent]"
| "query_toks (QIsAbsent f a) = TIdent f # aspect_toks a @ [KIs, KAbsent]"
| "query_toks (QIsUnknown f) = [TIdent f, KIs, KUnknown]"
| "query_toks (QEq f v a) = compare_toks f TEq v a"
| "query_toks (QNeq f v a) = compare_toks f TNeq v a"
| "query_toks (QLt f v a) = compare_toks f TLt v a"
| "query_toks (QLte f v a) = compare_toks f TLte v a"
| "query_toks (QGt f v a) = compare_toks f TGt v a"
| "query_toks (QGte f v a) = compare_toks f TGte v a"
| "query_toks (QIn f vs a) =
     TIdent ''in'' # TLParen # TIdent f # aspect_toks a @ concat (map (\<lambda>v. [TComma, the (literal_tok v)]) vs) @ [TRParen]"
| "query_toks (QFollows f g) = TIdent f # TArrow # target_toks g"
| "query_toks (QFollowsTransitive f g inclusive) = TIdent f # (if inclusive then TFatArrowStar else TArrowStar) # target_toks g"
| "query_toks (QMatches f p a) = TIdent f # aspect_toks a @ [KMatches, TStr p]"
| "query_toks (QOsm f terms mode) =
     [TIdent (osm_keyword mode), TLParen, TIdent f, TComma, TStr (concat (map (\<lambda>t. t @ '' '') terms)), TRParen]"
| "query_toks (QSameAs f q) = [TIdent ''same'', TLParen, TIdent f, TComma] @ query_toks q @ [TRParen]"
| "query_toks (QUuidIn us) = TIdent ''uuid_in'' # TLParen # concat (map (\<lambda>u. [THex (hex_text u), TComma]) us) @ [TRParen]"
| "target_toks (FPath p) = [TStr p]"
| "target_toks (FCondition q) = TLParen # query_toks q @ [TRParen]"

section \<open>The parser reads it back\<close>

abbreviation unary_at :: "dsl_lib \<Rightarrow> nat \<Rightarrow> Query parse" where
  "unary_at lib n \<equiv> unary lib (or_expr lib n) (nested_unary lib n)"

abbreviation and_at :: "dsl_lib \<Rightarrow> nat \<Rightarrow> Query parse" where
  "and_at lib n \<equiv> and_expr lib (or_expr lib n) (nested_unary lib n)"

abbreviation or_at :: "dsl_lib \<Rightarrow> nat \<Rightarrow> Query parse" where
  "or_at lib n \<equiv> or_expr_inner lib (or_expr lib n) (nested_unary lib n)"

lemma or_expr_Suc: "or_expr lib (Suc n) = or_at lib n"
  by (rule ext) simp

lemma nested_unary_Suc: "nested_unary lib (Suc n) = unary_at lib n"
  by (rule ext) simp

lemma more_operands_join:
  assumes "\<And>q r. q \<in> set qs \<Longrightarrow> ok r \<Longrightarrow> p (tk q @ r) = Inr (q, r)"
    and "\<And>xs. ok (sep # xs)" and "ok rest" "\<not> peek_is sep rest" "length qs \<le> n"
  shows "more_operands n sep p (concat (map (\<lambda>us. sep # us) (map tk qs)) @ rest) = Inr (qs, rest)"
  using assms(1,5)
proof (induction qs arbitrary: n)
  case Nil
  then show ?case using assms(4) by (cases n) simp_all
next
  case (Cons q qs)
  then obtain m where n: "n = Suc m" by (cases n) auto
  define r where "r = concat (map (\<lambda>us. sep # us) (map tk qs)) @ rest"
  have "ok r" using assms(2,3) by (cases qs) (auto simp: r_def)
  then have "p (tk q @ r) = Inr (q, r)" using Cons by simp
  moreover have "more_operands m sep p r = Inr (qs, rest)" unfolding r_def using Cons n by simp
  ultimately show ?case by (simp add: n r_def)
qed

lemma operands_join:
  assumes "\<And>q r. q \<in> set qs \<Longrightarrow> ok r \<Longrightarrow> p (tk q @ r) = Inr (q, r)"
    and "\<And>xs. ok (sep # xs)" and "ok rest" "\<not> peek_is sep rest" "qs \<noteq> []"
  shows "operands sep p (join_toks sep (map tk qs) @ rest) = Inr (qs, rest)"
proof -
  obtain q qs' where qs: "qs = q # qs'" using assms(5) by (cases qs) auto
  define r where "r = concat (map (\<lambda>us. sep # us) (map tk qs')) @ rest"
  have l: "length qs' \<le> length r" unfolding r_def by (induction qs') auto
  have "ok r" using assms(2,3) by (cases qs') (auto simp: r_def)
  then have "p (tk q @ r) = Inr (q, r)" using assms(1) qs by simp
  moreover have "more_operands (length r) sep p r = Inr (qs', rest)"
    unfolding r_def by (rule more_operands_join [where ok = ok]) (use assms qs l r_def in simp_all)
  ultimately show ?thesis by (simp add: operands_def qs r_def)
qed

lemma operands_one: "p ts = Inr (q, r) \<Longrightarrow> \<not> peek_is sep r \<Longrightarrow> operands sep p ts = Inr ([q], r)"
  by (cases "length r") (simp_all add: operands_def)

lemma and_of_unary: "unary lib s u ts = Inr (q, r) \<Longrightarrow> \<not> peek_is KAnd r \<Longrightarrow> and_expr lib s u ts = Inr (q, r)"
  by (simp add: and_expr_def operands_one and_node_def)

lemma or_of_and: "and_expr lib s u ts = Inr (q, r) \<Longrightarrow> \<not> peek_is KOr r \<Longrightarrow> or_expr_inner lib s u ts = Inr (q, r)"
  by (simp add: or_expr_inner_def operands_one or_node_def)

definition reads :: "dsl_lib \<Rightarrow> Query \<Rightarrow> bool" where
  "reads lib q \<longleftrightarrow> (\<forall>n rest. nesting q \<le> n \<longrightarrow>
     (\<not> peek_is KAnd rest \<longrightarrow> \<not> peek_is KOr rest \<longrightarrow> or_at lib n (query_toks q @ rest) = Inr (q, rest)) \<and>
     (\<not> is_or q \<longrightarrow> \<not> peek_is KAnd rest \<longrightarrow> and_at lib n (query_toks q @ rest) = Inr (q, rest)) \<and>
     (\<not> is_or q \<longrightarrow> \<not> is_and q \<longrightarrow> unary_at lib n (query_toks q @ rest) = Inr (q, rest)))"

lemma reads_unary:
  assumes "\<not> is_or q" "\<not> is_and q" "\<And>n rest. nesting q \<le> n \<Longrightarrow> unary_at lib n (query_toks q @ rest) = Inr (q, rest)"
  shows "reads lib q"
  using assms and_of_unary or_of_and unfolding reads_def by blast

lemma reads_sub:
  assumes "reads lib q" "Suc (nesting q) \<le> n"
  shows "or_expr lib n (query_toks q @ TRParen # rest) = Inr (q, TRParen # rest)"
proof -
  obtain m where n: "n = Suc m" using assms(2) by (cases n) auto
  then show ?thesis using assms unfolding n or_expr_Suc reads_def by simp
qed

lemma unary_paren:
  assumes "reads lib q" "(if b then 1 else 0) + nesting q \<le> n" "\<not> b \<Longrightarrow> \<not> is_or q \<and> \<not> is_and q"
  shows "unary_at lib n (paren b (query_toks q) @ rest) = Inr (q, rest)"
proof (cases b)
  case True
  then show ?thesis using reads_sub [OF assms(1), of n rest] assms(2) by (simp add: paren_def unary_def atom_def)
next
  case False
  then show ?thesis using assms by (simp add: paren_def reads_def)
qed

lemma and_paren:
  assumes "reads lib q" "(if is_or q then 1 else 0) + nesting q \<le> n" "\<not> peek_is KAnd rest"
  shows "and_at lib n (paren (is_or q) (query_toks q) @ rest) = Inr (q, rest)"
proof (cases "is_or q")
  case True
  have "unary_at lib n (paren (is_or q) (query_toks q) @ rest) = Inr (q, rest)"
    by (rule unary_paren [OF assms(1,2)]) (use True in simp)
  then show ?thesis using and_of_unary assms(3) by blast
next
  case False
  then show ?thesis using assms by (simp add: paren_def reads_def)
qed

lemma reads_not:
  assumes "reads lib q"
  shows "reads lib (QNot q)"
proof (rule reads_unary)
  fix n rest
  assume "nesting (QNot q) \<le> n"
  then obtain m where m: "n = Suc m" "(if is_or q \<or> is_and q then 1 else 0) + nesting q \<le> m" by (cases n) auto
  from unary_paren [OF assms m(2), of rest] show "unary_at lib n (query_toks (QNot q) @ rest) = Inr (QNot q, rest)"
    by (simp add: unary_def [of lib "or_expr lib (Suc m)"] m(1) nested_unary_Suc)
qed (simp_all add: is_or_def is_and_def)

lemma two_elements: "2 \<le> length qs \<Longrightarrow> \<exists>a b cs. qs = a # b # cs"
  by (cases qs; cases "tl qs") auto

lemma reads_and:
  assumes "\<And>q. q \<in> set qs \<Longrightarrow> reads lib q" "2 \<le> length qs"
  shows "reads lib (QAnd qs)"
proof -
  have "and_at lib n (query_toks (QAnd qs) @ rest) = Inr (QAnd qs, rest)" if n: "nesting (QAnd qs) \<le> n" and r: "\<not> peek_is KAnd rest" for n rest
  proof -
    have "operands KAnd (unary_at lib n) (join_toks KAnd (map (\<lambda>q. paren (is_or q \<or> is_and q) (query_toks q)) qs) @ rest) = Inr (qs, rest)"
    proof (rule operands_join [where ok = "\<lambda>_. True"])
      fix q r assume q: "q \<in> set qs"
      then have "(if is_or q \<or> is_and q then 1 else 0) + nesting q \<le> n" using n by (auto simp: Max_le_iff)
      then show "unary_at lib n (paren (is_or q \<or> is_and q) (query_toks q) @ r) = Inr (q, r)"
        by (rule unary_paren [OF assms(1) [OF q]]) simp
    qed (use r assms(2) in auto)
    moreover have "and_node qs = QAnd qs" using two_elements [OF assms(2)] by (auto simp: and_node_def)
    ultimately show ?thesis by (simp add: and_expr_def)
  qed
  then show ?thesis using or_of_and by (simp add: reads_def del: nesting.simps query_toks.simps)
qed

lemma reads_or:
  assumes "\<And>q. q \<in> set qs \<Longrightarrow> reads lib q" "2 \<le> length qs" "\<not> (\<forall>q\<in>set qs. uuids_of q \<noteq> None)"
  shows "reads lib (QOr qs)"
proof -
  have "or_at lib n (query_toks (QOr qs) @ rest) = Inr (QOr qs, rest)"
    if n: "nesting (QOr qs) \<le> n" and r: "\<not> peek_is KAnd rest" "\<not> peek_is KOr rest" for n rest
  proof -
    have "operands KOr (and_at lib n) (join_toks KOr (map (\<lambda>q. paren (is_or q) (query_toks q)) qs) @ rest) = Inr (qs, rest)"
    proof (rule operands_join [where ok = "\<lambda>r. \<not> peek_is KAnd r"])
      fix q r assume q: "q \<in> set qs" and r: "\<not> peek_is KAnd r"
      then have "(if is_or q then 1 else 0) + nesting q \<le> n" using n by (auto simp: Max_le_iff)
      then show "and_at lib n (paren (is_or q) (query_toks q) @ r) = Inr (q, r)"
        by (rule and_paren [OF assms(1) [OF q] _ r])
    qed (use r assms(2) in auto)
    moreover have "or_node qs = QOr qs"
      using two_elements [OF assms(2)] assms(3) by (auto simp: or_node_def list_all_iff)
    ultimately show ?thesis by (simp add: or_expr_inner_def)
  qed
  then show ?thesis by (simp add: reads_def del: nesting.simps query_toks.simps)
qed

lemma hd_aspect_toks: "aspect_toks a @ t # r = x # xs \<Longrightarrow> x = t \<or> x = TColon"
  by (cases a) (auto simp: aspect_toks_def)

lemma unary_predicate:
  assumes "is_operator t"
  shows "unary lib s u (TIdent f # aspect_toks a @ t # r) = predicate_op s f a (t # r)"
proof -
  obtain x xs where x: "aspect_toks a @ t # r = x # xs" by (cases "aspect_toks a @ t # r") auto
  then have fo: "follows_a_field x" using hd_aspect_toks [OF x] assms by (auto simp: follows_a_field_def)
  then have "x \<noteq> TLParen" by (auto simp: follows_a_field_def is_operator_def)
  then have "unary lib s u (TIdent f # x # xs) = predicate lib s (TIdent f # x # xs)"
    by (simp add: unary_def atom_def is_call_def peek_uuid_atom_def)
  moreover have "predicate_field lib (TIdent f # x # xs) = Inr (f, x # xs)"
    using fo by (simp add: predicate_field_def)
  moreover have "aspect_opt (x # xs) = Inr (a, t # r)"
    unfolding x [symmetric] by (rule aspect_opt_toks) (use assms in \<open>auto simp: is_operator_def\<close>)
  ultimately show ?thesis by (simp add: x predicate_def)
qed

lemma unary_predicate_raw: "is_operator t \<Longrightarrow> unary lib s u (TIdent f # t # r) = predicate_op s f Raw (t # r)"
  using unary_predicate [of t lib s u f Raw r] by (simp add: aspect_toks_def)

lemma reads_leaf:
  assumes "\<not> is_or q" "\<not> is_and q" "\<And>s u rest. unary lib s u (query_toks q @ rest) = Inr (q, rest)"
  shows "reads lib q"
  using assms by (intro reads_unary) auto

lemma reads_compare:
  assumes "literal_tok v \<noteq> None" "comparison_of t = Some node" "is_operator t" "t \<noteq> KIs"
    and "query_toks (node f v a) = compare_toks f t v a" "\<not> is_or (node f v a)" "\<not> is_and (node f v a)"
  shows "reads lib (node f v a)"
proof (rule reads_leaf)
  fix s u rest
  obtain l where l: "literal_tok v = Some l" using assms(1) by auto
  then have "literal_of l = Inr v" by (simp add: literal_of_Inr)
  then show "unary lib s u (query_toks (node f v a) @ rest) = Inr (node f v a, rest)"
    using assms(2-4) by (simp add: assms(5) compare_toks_def l unary_predicate predicate_op_def literal_def)
qed (use assms in simp_all)

lemma reads_comparisons:
  assumes "literal_tok v \<noteq> None"
  shows "reads lib (QEq f v a)" "reads lib (QNeq f v a)" "reads lib (QLt f v a)"
    "reads lib (QLte f v a)" "reads lib (QGt f v a)" "reads lib (QGte f v a)"
  using reads_compare [OF assms, of TEq QEq] reads_compare [OF assms, of TNeq QNeq] reads_compare [OF assms, of TLt QLt]
    reads_compare [OF assms, of TLte QLte] reads_compare [OF assms, of TGt QGt] reads_compare [OF assms, of TGte QGte]
  by (simp_all add: comparison_of_def is_operator_def is_or_def is_and_def)

lemma in_values_toks:
  assumes "\<forall>v\<in>set vs. literal_tok v \<noteq> None"
  shows "in_values (concat (map (\<lambda>v. [TComma, the (literal_tok v)]) vs) @ TRParen # rest) = Inr (vs, rest)"
  using assms
proof (induction vs)
  case (Cons v vs)
  then obtain l where l: "literal_tok v = Some l" by auto
  then have "literal_of l = Inr v" by (simp add: literal_of_Inr)
  moreover from l have "l \<noteq> TRParen" by (cases v) (auto split: if_splits)
  ultimately show ?case using Cons l by simp
qed simp

lemma reads_in:
  assumes "\<forall>v\<in>set vs. literal_tok v \<noteq> None"
  shows "reads lib (QIn f vs a)"
proof (rule reads_leaf)
  fix s u rest
  define body where "body = concat (map (\<lambda>v. [TComma, the (literal_tok v)]) vs) @ TRParen # rest"
  have "\<not> peek_is TColon body" by (cases vs) (simp_all add: body_def)
  then have "aspect_opt (aspect_toks a @ body) = Inr (a, body)" by (rule aspect_opt_toks)
  then show "unary lib s u (query_toks (QIn f vs a) @ rest) = Inr (QIn f vs a, rest)"
    using in_values_toks [OF assms, of rest]
    by (simp add: unary_def atom_def is_call_def in_call_def field_in_def body_def [symmetric])
qed (simp_all add: is_or_def is_and_def)

lemma uuid_list_toks:
  assumes "\<And>u. try_parse lib (hex_text u) = Some u"
  shows "uuid_list lib (concat (map (\<lambda>u. [THex (hex_text u), TComma]) us) @ TRParen # rest) = Inr (us, rest)"
  using assms by (induction us) (simp_all add: uuid_in_element_def)

lemma reads_uuid_in:
  assumes "\<And>u. try_parse lib (hex_text u) = Some u"
  shows "reads lib (QUuidIn us)"
  by (rule reads_leaf)
    (use uuid_list_toks [OF assms] in \<open>simp_all add: unary_def atom_def is_call_def uuid_in_call_def is_or_def is_and_def\<close>)

lemma reads_osm:
  assumes "split_terms (concat (map (\<lambda>t. t @ '' '') terms)) = terms"
  shows "reads lib (QOsm f terms mode)"
  by (rule reads_leaf)
    (use assms in \<open>cases mode; simp add: unary_def atom_def is_call_def osm_keyword_def osm_call_def field_in_def
      aspect_opt_def osm_terms_def is_or_def is_and_def\<close>)+

lemma reads_same:
  assumes "reads lib q"
  shows "reads lib (QSameAs f q)"
  by (rule reads_unary)
    (use reads_sub [OF assms] in \<open>simp_all add: unary_def atom_def is_call_def same_call_def field_in_def is_or_def is_and_def\<close>)

definition reads_target :: "dsl_lib \<Rightarrow> FollowTarget \<Rightarrow> bool" where
  "reads_target lib g \<longleftrightarrow> (\<forall>n rest arrow. nesting_target g \<le> n \<longrightarrow>
     follow_target (or_expr lib n) arrow (target_toks g @ rest) = Inr (g, rest))"

lemma reads_target_path: "reads_target lib (FPath p)"
  by (simp add: reads_target_def follow_target_def)

lemma reads_target_condition: "reads lib q \<Longrightarrow> reads_target lib (FCondition q)"
  by (simp add: reads_target_def follow_target_def reads_sub)

lemma reads_follows: "reads_target lib g \<Longrightarrow> reads lib (QFollows f g)"
  by (rule reads_unary)
    (simp_all add: is_operator_def unary_predicate_raw predicate_op_def comparison_of_def reads_target_def is_or_def is_and_def)

lemma reads_follows_transitive: "reads_target lib g \<Longrightarrow> reads lib (QFollowsTransitive f g inclusive)"
  by (rule reads_unary)
    (simp_all add: is_operator_def unary_predicate_raw predicate_op_def comparison_of_def reads_target_def is_or_def is_and_def)

lemma reads_back_all:
  assumes "\<And>u. try_parse lib (hex_text u) = Some u"
  shows "sayable q \<Longrightarrow> reads lib q" "sayable_target g \<Longrightarrow> reads_target lib g"
proof (induction q and g rule: sayable_sayable_target.induct)
  case (4 f a)
  show ?case by (rule reads_leaf) (simp_all add: unary_predicate is_operator_def predicate_op_def presence_of_def is_or_def is_and_def)
next
  case (5 f a)
  show ?case by (rule reads_leaf) (simp_all add: unary_predicate is_operator_def predicate_op_def presence_of_def is_or_def is_and_def)
next
  case (6 f)
  show ?case by (rule reads_leaf) (simp_all add: unary_predicate_raw is_operator_def predicate_op_def presence_of_def is_or_def is_and_def)
next
  case (16 f p a)
  show ?case
    by (rule reads_leaf) (simp_all add: unary_predicate is_operator_def predicate_op_def comparison_of_def pattern_of_def is_or_def is_and_def)
next
  case (1 qs) then show ?case by (intro reads_and) auto
next
  case (2 qs) then show ?case by (intro reads_or) auto
qed (auto intro: reads_not reads_in reads_osm reads_same reads_follows reads_follows_transitive reads_target_path
  reads_target_condition reads_uuid_in [OF assms] reads_comparisons)

section \<open>Splitting terms again\<close>

lemma strip_any_None: "strip_any ps s = None \<longleftrightarrow> (\<forall>p\<in>set ps. take (length p) s \<noteq> p)"
  by (induction ps) (auto simp: strip_prefix_def)

lemma white_with_space: "\<forall>p\<in>set WHITE_SPACE. CHR '' '' \<in> set p \<longrightarrow> length p = 1"
  by code_simp

lemma strip_any_Some: "strip_any ps s = Some t \<Longrightarrow> \<exists>p\<in>set ps. take (length p) s = p \<and> t = drop (length p) s"
  by (induction ps) (auto simp: strip_prefix_def split: if_splits option.splits)

lemma space_is_white: "[CHR '' ''] \<in> set WHITE_SPACE"
proof -
  have "CHR '' '' = char_of (32 :: nat)" by code_simp
  then show ?thesis by (simp add: WHITE_SPACE_def)
qed

lemma strip_space: "strip_any WHITE_SPACE (CHR '' '' # rest) = Some rest"
proof -
  have "strip_any WHITE_SPACE (CHR '' '' # rest) \<noteq> None"
    unfolding strip_any_None using space_is_white by (intro notI) (drule bspec, assumption, simp)
  then obtain t where t: "strip_any WHITE_SPACE (CHR '' '' # rest) = Some t" by auto
  then obtain p where p: "p \<in> set WHITE_SPACE" "take (length p) (CHR '' '' # rest) = p" "t = drop (length p) (CHR '' '' # rest)"
    using strip_any_Some by blast
  then have "p \<noteq> []" using white_nonempty by blast
  then obtain r where r: "p = CHR '' '' # r" using p(2) by (metis append_take_drop_id list.exhaust list.inject append_Cons)
  then have "length p = 1" using white_with_space p(1) by fastforce
  then have "p = [CHR '' '']" using r by simp
  then show ?thesis using t p(3) by simp
qed

text \<open>No white space starts in \<open>x\<close>, whatever follows it: a space is never inside a longer one.\<close>

lemma no_white_before_space:
  assumes "strip_any WHITE_SPACE (x @ y) = None" "x \<noteq> []"
  shows "strip_any WHITE_SPACE (x @ CHR '' '' # z) = None"
  unfolding strip_any_None
proof (intro ballI notI)
  fix p assume p: "p \<in> set WHITE_SPACE" and e: "take (length p) (x @ CHR '' '' # z) = p"
  show False
  proof (cases "length p \<le> length x")
    case True
    then have "take (length p) (x @ y) = p" using e by simp
    then show False using assms(1) p by (auto simp: strip_any_None)
  next
    case False
    then have "p = x @ CHR '' '' # take (length p - Suc (length x)) z"
      using e by (cases "length p - length x") (auto simp: Suc_diff_le)
    then have "CHR '' '' \<in> set p" "length p = length x + Suc (length (take (length p - Suc (length x)) z))"
      by (metis in_set_conv_decomp, metis length_Cons length_append)
    then have "CHR '' '' \<in> set p" "length p \<noteq> 1" using assms(2) by auto
    then show False using white_with_space p by blast
  qed
qed

definition clean_word :: "string \<Rightarrow> bool" where
  "clean_word w \<longleftrightarrow> w \<noteq> [] \<and> (\<forall>i<length w. strip_any WHITE_SPACE (drop i w @ '' '') = None)"

lemma split_words_clean:
  assumes "\<forall>i<length word. strip_any WHITE_SPACE (drop i word @ s) = None"
  shows "\<forall>w\<in>set (split_whitespace word s). clean_word w"
  using assms
proof (induction word s rule: split_whitespace.induct)
  case (1 word s)
  have c: "clean_word word" if "word \<noteq> []"
    using that 1(3) no_white_before_space [of "drop i word" s "[]" for i] by (auto simp: clean_word_def)
  show ?case
  proof (cases "strip_any WHITE_SPACE s")
    case (Some t)
    then show ?thesis using 1(2) [OF Some] c by (simp add: split_whitespace.simps [of word s])
  next
    case None
    show ?thesis
    proof (cases s)
      case Nil
      then show ?thesis using None c by (simp add: split_whitespace.simps [of word "[]"])
    next
      case (Cons a cs)
      have "\<forall>i<length (word @ [a]). strip_any WHITE_SPACE (drop i (word @ [a]) @ cs) = None"
        using 1(3) None Cons by (auto simp: less_Suc_eq)
      then show ?thesis using 1(1) [OF None Cons] None Cons by (simp add: split_whitespace.simps [of word "a # cs"])
    qed
  qed
qed

lemma split_clean_word:
  assumes "\<forall>i<length w. strip_any WHITE_SPACE (drop i w @ '' '') = None"
  shows "split_whitespace acc (w @ CHR '' '' # rest) = (if acc @ w = [] then [] else [acc @ w]) @ split_whitespace [] rest"
  using assms
proof (induction w arbitrary: acc)
  case Nil
  then show ?case by (simp add: split_whitespace.simps [of acc] strip_space)
next
  case (Cons c w)
  have "strip_any WHITE_SPACE ((c # w) @ '' '') = None" using Cons(2) by (force dest: spec [where x = 0])
  then have "strip_any WHITE_SPACE ((c # w) @ CHR '' '' # rest) = None" by (rule no_white_before_space) simp
  then have "split_whitespace acc ((c # w) @ CHR '' '' # rest) = split_whitespace (acc @ [c]) (w @ CHR '' '' # rest)"
    by (simp add: split_whitespace.simps [of acc])
  also have "\<dots> = [acc @ c # w] @ split_whitespace [] rest"
    using Cons(1) [of "acc @ [c]"] Cons(2) by fastforce
  finally show ?case by simp
qed

lemma split_joined: "\<forall>w\<in>set ws. clean_word w \<Longrightarrow> split_terms (concat (map (\<lambda>t. t @ '' '') ws)) = ws"
proof (induction ws)
  case Nil
  show ?case by (simp add: split_terms_def split_whitespace.simps [of "[]"] WHITE_SPACE_def strip_prefix_def)
next
  case (Cons w ws)
  then show ?case using split_clean_word [of w "[]"] by (simp add: split_terms_def clean_word_def)
qed

lemma split_terms_again: "split_terms (concat (map (\<lambda>t. t @ '' '') (split_terms s))) = split_terms s"
  by (rule split_joined) (use split_words_clean [of "[]" s] in \<open>simp add: split_terms_def\<close>)

section \<open>The parser returns nothing else\<close>

definition cost :: "Query \<Rightarrow> nat" where
  "cost q = (if is_or q \<or> is_and q then 1 else 0) + nesting q"

definition said :: "nat \<Rightarrow> Query \<Rightarrow> bool" where
  "said n q \<longleftrightarrow> sayable q \<and> cost q \<le> n"

text \<open>A parser of sub-queries that keeps to the depth left and always takes a token.\<close>

definition sound_sub :: "nat \<Rightarrow> Query parse \<Rightarrow> bool" where
  "sound_sub n p \<longleftrightarrow> (\<forall>ts q r. p ts = Inr (q, r) \<longrightarrow> sayable q \<and> Suc (nesting q) \<le> n \<and> length r < length ts)"

definition sound_nested :: "nat \<Rightarrow> Query parse \<Rightarrow> bool" where
  "sound_nested n p \<longleftrightarrow> (\<forall>ts q r. p ts = Inr (q, r) \<longrightarrow> sayable q \<and> Suc (cost q) \<le> n \<and> length r < length ts)"

definition sound_unary :: "nat \<Rightarrow> Query parse \<Rightarrow> bool" where
  "sound_unary n p \<longleftrightarrow> (\<forall>ts q r. p ts = Inr (q, r) \<longrightarrow> said n q \<and> length r < length ts)"

lemma said_leaf: "sayable q \<Longrightarrow> nesting q \<le> n \<Longrightarrow> \<not> is_or q \<Longrightarrow> \<not> is_and q \<Longrightarrow> said n q"
  by (simp add: said_def cost_def)

lemma aspect_opt_length: "aspect_opt ts = Inr (a, r) \<Longrightarrow> length r \<le> length ts"
  by (auto simp: aspect_opt_def bindE_eq_Inr split: if_splits list.splits option.splits) (cases ts; simp)

lemma literal_length: "literal ts = Inr (v, r) \<Longrightarrow> literal_tok v \<noteq> None \<and> length r < length ts"
  by (auto simp: literal_def bindE_eq_Inr literal_of_Inr split: list.splits)

lemma in_values_length: "in_values ts = Inr (vs, r) \<Longrightarrow> (\<forall>v\<in>set vs. literal_tok v \<noteq> None) \<and> length r < length ts"
proof (induction ts arbitrary: vs r rule: in_values.induct)
  case (2 t ts)
  show ?case
  proof (cases "t = TComma")
    case True
    show ?thesis
    proof (cases ts)
      case (Cons x rest)
      show ?thesis
      proof (cases "x = TRParen")
        case False
        then obtain v vs' where "literal_of x = Inr v" "in_values rest = Inr (vs', r)" "vs = v # vs'"
          using 2(2) True Cons by (auto simp: bindE_eq_Inr)
        moreover have "(\<forall>v\<in>set vs'. literal_tok v \<noteq> None) \<and> length r < length rest"
          by (rule 2(1) [OF _ True Cons False \<open>literal_of x = Inr v\<close>]) (use True calculation in simp_all)
        ultimately show ?thesis using Cons by (auto simp: literal_of_Inr)
      qed (use 2(2) True Cons in auto)
    qed (use 2(2) True in auto)
  qed (use 2(2) in \<open>auto split: if_splits\<close>)
qed simp

lemma uuid_list_length: "uuid_list lib ts = Inr (us, r) \<Longrightarrow> length r < length ts"
proof (induction lib ts arbitrary: us r rule: uuid_list.induct)
  case (2 lib t ts)
  show ?case
  proof (cases "t = TRParen")
    case False
    then obtain u x rest where u: "uuid_in_element lib t = Inr u" and ts: "ts = x # rest"
      using 2(2) by (cases ts) (auto simp: bindE_eq_Inr)
    show ?thesis
    proof (cases "x = TComma")
      case True
      then obtain us' where "uuid_list lib rest = Inr (us', r)" using 2(2) False u ts by (auto simp: bindE_eq_Inr)
      from 2(1) [OF False u ts True this] show ?thesis using ts by simp
    qed (use 2(2) False u ts in \<open>auto split: if_splits\<close>)
  qed (use 2(2) in auto)
qed simp

lemma follow_target_sound:
  "sound_sub n sub \<Longrightarrow> follow_target sub arrow ts = Inr (g, r) \<Longrightarrow>
    sayable_target g \<and> nesting_target g \<le> n \<and> length r < length ts"
  by (fastforce simp: follow_target_def bindE_eq_Inr expect_tok_Inr sound_sub_def split: list.splits option.splits if_splits)

lemma comparison_of_node: "comparison_of t = Some node \<Longrightarrow> node \<in> {QEq, QNeq, QLt, QLte, QGt, QGte}"
  by (auto simp: comparison_of_def split: Tok.splits)

lemma predicate_op_sound:
  assumes "sound_sub n sub" "predicate_op sub f a ts = Inr (q, r)"
  shows "said n q \<and> length r < length ts"
proof -
  obtain t rest where ts: "ts = t # rest" using assms(2) by (cases ts) (auto simp: predicate_op_def)
  note step = assms(2) [unfolded predicate_op_def ts list.case]
  show ?thesis
  proof (cases "comparison_of t")
    case (Some node)
    then have "t \<noteq> KIs" by (auto simp: comparison_of_def)
    then obtain v where "literal rest = Inr (v, r)" "q = node f v a" using step Some by (auto simp: bindE_eq_Inr)
    then show ?thesis
      using comparison_of_node [OF Some] literal_length [of rest v r] by (auto simp: ts is_or_def is_and_def intro!: said_leaf)
  next
    case None
    have leaf: "presence_of f a rest = Inr (q, r) \<or> pattern_of f a rest = Inr (q, r) \<Longrightarrow> ?thesis"
      by (auto simp: ts presence_of_def pattern_of_def is_or_def is_and_def split: list.splits if_splits option.splits intro!: said_leaf)
    have follow: "?thesis" if "follow_target sub arrow rest = Inr (g, r)" "q = QFollows f g \<or> q = QFollowsTransitive f g b" for arrow g b
      using follow_target_sound [OF assms(1) that(1)] that(2) by (auto simp: ts is_or_def is_and_def intro!: said_leaf)
    show ?thesis
      using step None leaf follow by (auto simp: bindE_eq_Inr split: if_splits)
  qed
qed

lemma predicate_sound:
  assumes "sound_sub n sub" "predicate lib sub ts = Inr (q, r)"
  shows "said n q \<and> length r < length ts"
proof -
  obtain f ts1 a ts2 where p: "predicate_field lib ts = Inr (f, ts1)" "aspect_opt ts1 = Inr (a, ts2)" "predicate_op sub f a ts2 = Inr (q, r)"
    using assms(2) by (auto simp: predicate_def bindE_eq_Inr)
  have "length ts1 < length ts" using p(1) by (auto simp: predicate_field_def split: list.splits Tok.splits if_splits)
  then show ?thesis using aspect_opt_length [OF p(2)] predicate_op_sound [OF assms(1) p(3)] by simp
qed

lemma is_call_cons: "is_call kw ts \<Longrightarrow> \<exists>rest. ts = TIdent kw # TLParen # rest"
  by (cases ts; cases "tl ts") (auto simp: is_call_def)

lemma osm_terms_Inr: "osm_terms mode ts = Inr (terms, r) \<longleftrightarrow> (\<exists>s. ts = TStr s # r \<and> terms = split_terms s)"
  by (cases ts) (auto simp: osm_terms_def split: option.splits)

lemma osm_call_sound: "osm_call mode ts = Inr (q, r) \<Longrightarrow> said n q \<and> length r < length ts"
  by (cases ts)
    (auto simp: osm_call_def bindE_eq_Inr expect_tok_Inr field_in_Inr osm_terms_Inr split_terms_again is_or_def is_and_def
      intro!: said_leaf dest!: aspect_opt_length)

lemma same_call_sound: "sound_sub n sub \<Longrightarrow> same_call sub ts = Inr (q, r) \<Longrightarrow> said n q \<and> length r < length ts"
  by (cases ts)
    (fastforce simp: same_call_def bindE_eq_Inr expect_tok_Inr field_in_Inr sound_sub_def is_or_def is_and_def intro!: said_leaf)+

lemma in_call_sound: "in_call ts = Inr (q, r) \<Longrightarrow> said n q \<and> length r < length ts"
  by (cases ts)
    (auto simp: in_call_def bindE_eq_Inr expect_tok_Inr field_in_Inr is_or_def is_and_def
      intro!: said_leaf dest!: aspect_opt_length in_values_length)

lemma uuid_in_call_sound: "uuid_in_call lib ts = Inr (q, r) \<Longrightarrow> said n q \<and> length r < length ts"
  by (cases ts)
    (auto simp: uuid_in_call_def bindE_eq_Inr expect_tok_Inr is_or_def is_and_def intro!: said_leaf dest!: uuid_list_length)

lemma atom_sound:
  assumes "sound_sub n sub"
  shows "sound_unary n (atom lib sub)"
  unfolding sound_unary_def
proof (intro allI impI)
  fix ts q r assume a: "atom lib sub ts = Inr (q, r)"
  show "said n q \<and> length r < length ts"
  proof (cases "peek_is TLParen ts")
    case True
    then obtain rest where ts: "ts = TLParen # rest" by (cases ts) auto
    then have "sub rest = Inr (q, TRParen # r)" using a by (auto simp: atom_def bindE_eq_Inr expect_tok_Inr)
    then have "sayable q \<and> Suc (nesting q) \<le> n \<and> Suc (length r) < length rest"
      using assms unfolding sound_sub_def by fastforce
    then show ?thesis by (simp add: said_def cost_def ts)
  next
    case False
    have u: "peek_uuid_atom lib ts = Some u \<Longrightarrow> said n (QUuidIn [u]) \<and> length (tl ts) < length ts" for u
      by (cases ts) (auto simp: peek_uuid_atom_def is_or_def is_and_def intro!: said_leaf)
    show ?thesis
      using a False u osm_call_sound same_call_sound [OF assms] in_call_sound uuid_in_call_sound predicate_sound [OF assms]
      by (auto simp: atom_def split: if_splits option.splits)
  qed
qed

lemma unary_sound:
  assumes "sound_sub n sub" "sound_nested n nested"
  shows "sound_unary n (unary lib sub nested)"
  unfolding sound_unary_def
proof (intro allI impI)
  fix ts q r assume a: "unary lib sub nested ts = Inr (q, r)"
  show "said n q \<and> length r < length ts"
  proof (cases "peek_is KNot ts")
    case True
    then obtain rest where ts: "ts = KNot # rest" by (cases ts) auto
    then obtain q' where q: "q = QNot q'" and s: "nested rest = Inr (q', r)" using a by (auto simp: unary_def bindE_eq_Inr)
    from s have "sayable q' \<and> Suc (cost q') \<le> n \<and> length r < length rest"
      using assms(2) unfolding sound_nested_def by blast
    then show ?thesis by (simp add: q ts said_def cost_def is_or_def [of "QNot q'"] is_and_def [of "QNot q'"])
  next
    case False
    then show ?thesis using a atom_sound [OF assms(1)] by (simp add: unary_def sound_unary_def)
  qed
qed

text \<open>The loop never stops for want of fuel: what it leaves does not start with the separator.\<close>

lemma more_operands_sound:
  assumes "\<And>ts q r. p ts = Inr (q, r) \<Longrightarrow> P q \<and> length r < length ts"
  shows "more_operands k sep p ts = Inr (qs, r) \<Longrightarrow> length ts \<le> k \<Longrightarrow>
    (\<forall>q\<in>set qs. P q) \<and> length r \<le> length ts \<and> \<not> peek_is sep r"
proof (induction k arbitrary: ts qs)
  case (Suc k)
  show ?case
  proof (cases "peek_is sep ts")
    case True
    then obtain rest where ts: "ts = sep # rest" by (cases ts) auto
    then obtain q r' qs' where q: "p rest = Inr (q, r')" "more_operands k sep p r' = Inr (qs', r)" "qs = q # qs'"
      using Suc(2) True by (auto simp: bindE_eq_Inr)
    have "P q" "length r' < length rest" using assms [OF q(1)] by simp_all
    then show ?thesis using Suc(1) [OF q(2)] Suc(3) q(3) ts by auto
  qed (use Suc(2) in auto)
qed (auto simp: peek_is_def)

lemma operands_sound:
  assumes "\<And>ts q r. p ts = Inr (q, r) \<Longrightarrow> P q \<and> length r < length ts" "operands sep p ts = Inr (qs, r)"
  shows "qs \<noteq> [] \<and> (\<forall>q\<in>set qs. P q) \<and> length r < length ts \<and> \<not> peek_is sep r"
proof -
  obtain q r' qs' where q: "p ts = Inr (q, r')" "more_operands (length r') sep p r' = Inr (qs', r)" "qs = q # qs'"
    using assms(2) by (auto simp: operands_def bindE_eq_Inr)
  show ?thesis using assms(1) [OF q(1)] more_operands_sound [of p P, OF assms(1) q(2)] q(3) by auto
qed

text \<open>An operand of an \<open>OR\<close> may be an \<open>AND\<close> without a parenthesis.\<close>

definition said_and :: "nat \<Rightarrow> Query \<Rightarrow> bool" where
  "said_and n q \<longleftrightarrow> sayable q \<and> (if is_or q then 1 else 0) + nesting q \<le> n"

lemma and_node_said: "qs \<noteq> [] \<Longrightarrow> \<forall>q\<in>set qs. said n q \<Longrightarrow> said_and n (and_node qs)"
  by (cases qs; cases "tl qs") (auto simp: and_node_def said_and_def said_def cost_def)

lemma or_node_said: "qs \<noteq> [] \<Longrightarrow> \<forall>q\<in>set qs. said_and n q \<Longrightarrow> sayable (or_node qs) \<and> nesting (or_node qs) \<le> n"
proof -
  assume a: "qs \<noteq> []" "\<forall>q\<in>set qs. said_and n q"
  show ?thesis
  proof (cases "tl qs")
    case Nil
    then obtain q where "qs = [q]" using a by (cases qs) auto
    then show ?thesis using a by (simp add: or_node_def said_and_def)
  next
    case (Cons q' rest)
    then obtain q where "qs = q # q' # rest" using a by (cases qs) auto
    then have "or_node qs = (if list_all (\<lambda>q. uuids_of q \<noteq> None) qs then QUuidIn (concat (List.map_filter uuids_of qs)) else QOr qs)"
      "2 \<le> length qs" by (simp_all add: or_node_def)
    then show ?thesis using a by (auto simp: list_all_iff said_and_def)
  qed
qed

lemma and_expr_sound:
  assumes "sound_sub n sub" "sound_nested n nested" "and_expr lib sub nested ts = Inr (q, r)"
  shows "said_and n q \<and> length r < length ts"
proof -
  obtain qs where qs: "operands KAnd (unary lib sub nested) ts = Inr (qs, r)" "q = and_node qs"
    using assms(3) by (auto simp: and_expr_def bindE_eq_Inr)
  have "said n q \<and> length r < length ts" if "unary lib sub nested ts = Inr (q, r)" for ts q r
    using unary_sound [OF assms(1,2)] that unfolding sound_unary_def by blast
  from operands_sound [of "unary lib sub nested" "said n", OF this qs(1)] show ?thesis
    using and_node_said qs(2) by blast
qed

lemma or_expr_inner_sound:
  assumes "sound_sub n sub" "sound_nested n nested" "or_expr_inner lib sub nested ts = Inr (q, r)"
  shows "sayable q \<and> nesting q \<le> n \<and> length r < length ts \<and> \<not> peek_is KOr r"
proof -
  obtain qs where qs: "operands KOr (and_expr lib sub nested) ts = Inr (qs, r)" "q = or_node qs"
    using assms(3) by (auto simp: or_expr_inner_def bindE_eq_Inr)
  have "said_and n q \<and> length r < length ts" if "and_expr lib sub nested ts = Inr (q, r)" for ts q r
    using and_expr_sound [OF assms(1,2) that] .
  from operands_sound [of "and_expr lib sub nested" "said_and n", OF this qs(1)] show ?thesis
    using or_node_said [of qs n] qs(2) by blast
qed

lemma levels_sound: "sound_sub n (or_expr lib n) \<and> sound_nested n (nested_unary lib n)"
proof (induction n)
  case (Suc n)
  have "sayable q \<and> Suc (nesting q) \<le> Suc n \<and> length r < length ts" if "or_expr lib (Suc n) ts = Inr (q, r)" for ts q r
    using or_expr_inner_sound [of n "or_expr lib n" "nested_unary lib n" lib ts q r] Suc that unfolding or_expr_Suc by simp
  moreover have "sayable q \<and> Suc (cost q) \<le> Suc n \<and> length r < length ts" if "nested_unary lib (Suc n) ts = Inr (q, r)" for ts q r
    using unary_sound [of n "or_expr lib n" "nested_unary lib n" lib] Suc that unfolding nested_unary_Suc sound_unary_def said_def by simp
  ultimately show ?case unfolding sound_sub_def sound_nested_def by blast
qed (simp add: sound_sub_def sound_nested_def)

lemma sayable_back:
  assumes "\<And>u. try_parse lib (hex_text u) = Some u" "sayable q" "nesting q < MAX_DEPTH"
  shows "parse_tokens lib (query_toks q) = Inr q"
proof -
  obtain n where n: "MAX_DEPTH = Suc n" by (cases MAX_DEPTH) (auto simp: MAX_DEPTH_def)
  have "reads lib q" "nesting q \<le> n" using reads_back_all(1) [of lib, OF assms(1,2)] assms(3) n by simp_all
  then have "\<not> peek_is KAnd [] \<longrightarrow> \<not> peek_is KOr [] \<longrightarrow> or_at lib n (query_toks q @ []) = Inr (q, [])"
    unfolding reads_def by blast
  then have "or_at lib n (query_toks q) = Inr (q, [])" by simp
  then show ?thesis by (simp add: parse_tokens_def n or_expr_Suc del: or_expr.simps)
qed

text \<open>C32: What the parser of queries accepts: there are tokens it reads as a query exactly when the query
  has the shape of a text and nests less than 128 deep, counting the parentheses, negations and
  sub-queries it needs; its tokens then are one way to say it. The shape leaves out only a
  combinator of fewer than two operands, an \<open>OR\<close> of sets of uuids (which is read as one set), a
  value that has no literal, and terms that white space would split.\<close>

theorem sayable_exactly:
  assumes "\<And>u. try_parse lib (hex_text u) = Some u"
  shows "((\<exists>ts. parse_tokens lib ts = Inr q) \<longleftrightarrow> sayable q \<and> nesting q < MAX_DEPTH) \<and>
    (sayable q \<and> nesting q < MAX_DEPTH \<longrightarrow> parse_tokens lib (query_toks q) = Inr q)"
proof -
  have "parse_tokens lib (query_toks q) = Inr q" if "sayable q" "nesting q < MAX_DEPTH"
    using sayable_back [OF assms that] .
  moreover have "sayable q \<and> nesting q < MAX_DEPTH" if p: "parse_tokens lib ts = Inr q" for ts
  proof -
    obtain r where "or_expr lib MAX_DEPTH ts = Inr (q, r)"
      using p by (auto simp: parse_tokens_def bindE_eq_Inr neq_Nil_conv split: list.splits)
    then show ?thesis using levels_sound [of MAX_DEPTH lib] unfolding sound_sub_def by fastforce
  qed
  ultimately show ?thesis by blast
qed

definition simple_uuid :: "string \<Rightarrow> uuid option" where
  "simple_uuid s = Option.bind (hex_decode s) (\<lambda>bs. case bytes_to_uuid bs of Inr u \<Rightarrow> Some u | Inl _ \<Rightarrow> None)"

definition ascii_lib :: dsl_lib where
  "ascii_lib = \<lparr>u_alphabetic = (\<lambda>_. False), u_numeric = (\<lambda>_. False), try_parse = simple_uuid\<rparr>"

lemma ascii_lib_uuid: "try_parse ascii_lib (hex_text u) = Some u"
  by (simp add: ascii_lib_def simple_uuid_def hex_text_def hex_decode_def length_hex_encode hex_pairs_encode)

definition sample_query :: Query where
  "sample_query = QAnd [QGt ''rating'' (VInt 3) Raw, QNot (QOr [QUuidIn [7], QFollows ''album'' (FCondition (QIsUnknown ''year''))])]"

theorem sayable_exactly_witness:
  "parse_tokens ascii_lib (query_toks sample_query) = Inr sample_query \<and>
   (\<forall>ts. parse_tokens ascii_lib ts \<noteq> Inr (QOr [QUuidIn [7], QUuidIn [8]]))"
proof -
  have "sayable sample_query" "nesting sample_query < MAX_DEPTH" "\<not> sayable (QOr [QUuidIn [7], QUuidIn [8]])"
    by (simp_all add: sample_query_def MAX_DEPTH_def uuids_of_def is_or_def is_and_def)
  then show ?thesis
    using sayable_exactly [of ascii_lib sample_query, OF ascii_lib_uuid]
      sayable_exactly [of ascii_lib "QOr [QUuidIn [7], QUuidIn [8]]", OF ascii_lib_uuid] by blast
qed

end
