(* ===== verification/Simp_Peg.thy ===== *)
theory Simp_Peg
  imports Simp_Blocks Dsl_Laws
begin

text \<open>
  What a grammar means, as a relation: an expression grammar with ordered choice, without the depth
  the engine counts. The engine refines it: what it returns is related, and where the relation gives a
  result the engine returns it or stops at its depth.
\<close>

section \<open>The meaning of a grammar\<close>

inductive peg_prod :: "engine \<Rightarrow> string \<Rightarrow> nat \<Rightarrow> (string \<times> nat) option \<Rightarrow> bool"
  and peg_alts :: "engine \<Rightarrow> Alt list \<Rightarrow> nat \<Rightarrow> (string \<times> nat) option \<Rightarrow> bool"
  and peg_seq :: "engine \<Rightarrow> Item list \<Rightarrow> nat \<Rightarrow> captures \<Rightarrow> (captures \<times> nat) option \<Rightarrow> bool"
  and peg_expr :: "engine \<Rightarrow> Expr \<Rightarrow> nat \<Rightarrow> (Capture \<times> captures \<times> nat) option \<Rightarrow> bool"
  and peg_group :: "engine \<Rightarrow> Item list list \<Rightarrow> nat \<Rightarrow> (captures \<times> nat) option \<Rightarrow> bool"
  and peg_reps :: "engine \<Rightarrow> Expr \<Rightarrow> Expr option \<Rightarrow> string list \<Rightarrow> captures \<Rightarrow> nat \<Rightarrow> string list \<times> captures \<times> nat \<Rightarrow> bool"
  and peg_start :: "engine \<Rightarrow> Expr option \<Rightarrow> nat \<Rightarrow> nat option \<Rightarrow> bool"
  for E :: engine where
  prod: "find_production (e_grammar E) name = Some p \<Longrightarrow> peg_alts E (pr_alts p) pos r \<Longrightarrow> peg_prod E name pos r"
| alts_none: "peg_alts E [] pos None"
| alts_match: "peg_seq E (alt_seq a) pos Map.empty (Some (caps, next)) \<Longrightarrow> alt_text E a caps pos next = Inr out \<Longrightarrow>
    peg_alts E (a # as) pos (Some (out, next))"
| alts_later: "peg_seq E (alt_seq a) pos Map.empty None \<Longrightarrow> peg_alts E as pos r \<Longrightarrow> peg_alts E (a # as) pos r"
| seq_end: "peg_seq E [] pos caps (Some (caps, pos))"
| seq_fails: "peg_expr E e pos None \<Longrightarrow> peg_seq E (Item label e # items) pos caps None"
| seq_item: "peg_expr E e pos (Some (v, sub, next)) \<Longrightarrow> peg_seq E items next (label_capture label v (caps ++ sub)) r \<Longrightarrow>
    peg_seq E (Item label e # items) pos caps r"
| lit: "token_match E (\<lambda>t. tk_text t = s) pos = Inr r \<Longrightarrow> peg_expr E (GLit s) pos r"
| token_class: "token_match E (\<lambda>t. tk_kind t = k) pos = Inr r \<Longrightarrow> peg_expr E (GClass k) pos r"
| rule_ref: "peg_prod E name pos r \<Longrightarrow>
    peg_expr E (GRule name) pos (map_option (\<lambda>(out, next). (CText out, Map.empty, next)) r)"
| grouped: "peg_group E seqs pos r \<Longrightarrow>
    peg_expr E (GGroup seqs) pos (map_option (\<lambda>(caps, next). (CText (raw_text E pos next), caps, next)) r)"
| repeat_none: "peg_expr E e pos None \<Longrightarrow>
    peg_expr E (GRepeat e kind sep) pos (if kind = RPlus then None else Some (CList [], Map.empty, pos))"
| repeat_opt: "peg_expr E e pos (Some (v, sub, next)) \<Longrightarrow>
    peg_expr E (GRepeat e ROpt sep) pos (Some (CList (push_value [] v), sub, next))"
| repeat_more: "peg_expr E e pos (Some (v, sub, next)) \<Longrightarrow> kind \<noteq> ROpt \<Longrightarrow>
    peg_reps E e sep (push_value [] v) sub next (list, caps, p) \<Longrightarrow>
    peg_expr E (GRepeat e kind sep) pos (Some (CList list, caps, p))"
| group_none: "peg_group E [] pos None"
| group_match: "peg_seq E s pos Map.empty (Some r) \<Longrightarrow> peg_group E (s # ss) pos (Some r)"
| group_later: "peg_seq E s pos Map.empty None \<Longrightarrow> peg_group E ss pos r \<Longrightarrow> peg_group E (s # ss) pos r"
| start_here: "peg_start E None pos (Some pos)"
| start_sep: "peg_expr E s pos r \<Longrightarrow> peg_start E (Some s) pos (map_option (\<lambda>(v, sub, next). next) r)"
| reps_no_start: "peg_start E sep p None \<Longrightarrow> peg_reps E e sep list caps p (list, caps, p)"
| reps_no_element: "peg_start E sep p (Some q) \<Longrightarrow> peg_expr E e q None \<Longrightarrow> peg_reps E e sep list caps p (list, caps, p)"
| reps_empty: "peg_start E sep p (Some q) \<Longrightarrow> peg_expr E e q (Some (v, sub, next)) \<Longrightarrow> next \<le> q \<Longrightarrow>
    peg_reps E e sep list caps p (list, caps, p)"
| reps_more: "peg_start E sep p (Some q) \<Longrightarrow> peg_expr E e q (Some (v, sub, next)) \<Longrightarrow> q < next \<Longrightarrow>
    peg_reps E e sep (push_value list v) (caps ++ sub) next r \<Longrightarrow> peg_reps E e sep list caps p r"

lemmas peg_intros = peg_prod_peg_alts_peg_seq_peg_expr_peg_group_peg_reps_peg_start.intros

section \<open>What the engine returns is related\<close>

definition seps_rel :: "engine \<Rightarrow> Expr option \<Rightarrow> (nat \<Rightarrow> MatchExpr) \<Rightarrow> bool" where
  "seps_rel E sep g \<longleftrightarrow> (\<forall>s p r. sep = Some s \<longrightarrow> g p = Inr r \<longrightarrow> peg_expr E s p r)"

lemma repeat_loop_sound:
  assumes "\<And>p r. f p = Inr r \<Longrightarrow> peg_expr E e p r" "seps_rel E sep g"
    and "b \<longleftrightarrow> sep \<noteq> None" "repeat_loop n f b g list caps p = Inr res"
  shows "peg_reps E e sep list caps p res"
  using assms(4)
proof (induction n arbitrary: list caps p)
  case (Suc n)
  obtain start where st: "(if b then bindE (g p) (\<lambda>r. Inr (map_option (\<lambda>(_, _, np). np) r)) else Inr (Some p)) = Inr start"
    "(case start of None \<Rightarrow> Inr (list, caps, p) | Some q \<Rightarrow> bindE (f q) (\<lambda>r. case r of
          None \<Rightarrow> Inr (list, caps, p)
        | Some (v, sub, next) \<Rightarrow> if q < next then repeat_loop n f b g (push_value list v) (caps ++ sub) next
             else Inr (list, caps, p))) = Inr res"
    using Suc.prems unfolding repeat_loop.simps bindE_eq_Inr by blast
  have s: "peg_start E sep p start"
  proof (cases sep)
    case None
    then show ?thesis using st(1) assms(3) by (auto intro: start_here)
  next
    case (Some s)
    then obtain r where "g p = Inr r" "start = map_option (\<lambda>(_, _, np). np) r" using st(1) assms(3) by (auto simp: bindE_eq_Inr)
    then show ?thesis using assms(2) Some start_sep [of E s p r] by (auto simp: seps_rel_def)
  qed
  show ?case
  proof (cases start)
    case None
    then show ?thesis using st(2) s reps_no_start by auto
  next
    case (Some q)
    then obtain r where r: "f q = Inr r" "(case r of None \<Rightarrow> Inr (list, caps, p)
        | Some (v, sub, next) \<Rightarrow> if q < next then repeat_loop n f b g (push_value list v) (caps ++ sub) next
             else Inr (list, caps, p)) = Inr res"
      using st(2) by (auto simp: bindE_eq_Inr)
    have e: "peg_expr E e q r" by (rule assms(1) [OF r(1)])
    show ?thesis
    proof (cases r)
      case None
      then show ?thesis using r(2) s e Some reps_no_element by auto
    next
      case (Some v)
      obtain v' sub nxt where v: "v = (v', sub, nxt)" by (cases v)
      note se = s [unfolded \<open>start = Some q\<close>] and ee = e [unfolded Some v]
      show ?thesis
      proof (cases "q < nxt")
        case True
        then have "repeat_loop n f b g (push_value list v') (caps ++ sub) nxt = Inr res" using r(2) Some v by simp
        then show ?thesis using reps_more [OF se ee True] Suc.IH by blast
      next
        case False
        then have "res = (list, caps, p)" "nxt \<le> q" using r(2) Some v by auto
        then show ?thesis using reps_empty [OF se ee] by blast
      qed
    qed
  qed
qed simp

lemma first_alt_sound:
  assumes "first_match (\<lambda>alt. bindE (m alt) (\<lambda>r. case r of
      None \<Rightarrow> Inr None
    | Some (caps, next) \<Rightarrow> bindE (alt_text E alt caps pos next) (\<lambda>out. Inr (Some (out, next))))) as = Inr r"
    and "\<And>a r. a \<in> set as \<Longrightarrow> m a = Inr r \<Longrightarrow> peg_seq E (alt_seq a) pos Map.empty r"
  shows "peg_alts E as pos r"
  using assms
proof (induction as)
  case (Cons a as)
  obtain r0 where r0: "m a = Inr r0" using Cons.prems(1) by (auto simp: bindE_eq_Inr)
  have s: "peg_seq E (alt_seq a) pos Map.empty r0" using Cons.prems(2) r0 by simp
  show ?case
  proof (cases r0)
    case None
    then have "peg_alts E as pos r" using Cons r0 by simp
    then show ?thesis using alts_later s None by blast
  next
    case (Some v)
    then show ?thesis using Cons.prems(1) r0 s by (cases v) (auto simp: bindE_eq_Inr intro: alts_match)
  qed
qed (auto intro: alts_none)

lemma first_group_sound:
  assumes "first_match (\<lambda>seq. bindE (m seq) (\<lambda>r. Inr (map_option h r))) ss = Inr r"
    and "\<And>s r. s \<in> set ss \<Longrightarrow> m s = Inr r \<Longrightarrow> peg_seq E s pos Map.empty r"
  shows "\<exists>r'. r = map_option h r' \<and> peg_group E ss pos r'"
  using assms
proof (induction ss)
  case (Cons s ss)
  obtain r0 where r0: "m s = Inr r0" using Cons.prems(1) by (auto simp: bindE_eq_Inr)
  have s: "peg_seq E s pos Map.empty r0" using Cons.prems(2) r0 by simp
  show ?case
  proof (cases r0)
    case None
    then obtain r' where "r = map_option h r'" "peg_group E ss pos r'" using Cons r0 by auto
    then show ?thesis using group_later s None by blast
  next
    case (Some v)
    then have "r = map_option h (Some v)" "peg_group E (s # ss) pos (Some v)" using Cons.prems(1) r0 s group_match by auto
    then show ?thesis by blast
  qed
qed (auto intro: group_none)

lemma engine_sound:
  "match_prod E name pos depth = Inr r1 \<Longrightarrow> peg_prod E name pos r1"
  "match_seq E items pos depth caps = Inr r2 \<Longrightarrow> peg_seq E items pos caps r2"
  "match_expr E e pos depth = Inr r3 \<Longrightarrow> peg_expr E e pos r3"
proof (induction E name pos depth and E items pos depth caps and E e pos depth arbitrary: r1 and r2 and r3
    rule: match_prod_match_seq_match_expr.induct)
  case (1 E name pos depth)
  from 1(2) obtain p where p: "find_production (e_grammar E) name = Some p" "\<not> EXPAND_MAX_DEPTH < depth"
    by (auto split: if_splits option.splits)
  have "peg_alts E (pr_alts p) pos r1"
  proof (rule first_alt_sound)
    show "first_match (\<lambda>alt. bindE (match_seq E (alt_seq alt) pos (Suc depth) Map.empty) (\<lambda>r. case r of
        None \<Rightarrow> Inr None
      | Some (caps, next) \<Rightarrow> bindE (alt_text E alt caps pos next) (\<lambda>out. Inr (Some (out, next))))) (pr_alts p) = Inr r1"
      using 1(2) p by simp
    show "peg_seq E (alt_seq a) pos Map.empty r"
      if "a \<in> set (pr_alts p)" "match_seq E (alt_seq a) pos (Suc depth) Map.empty = Inr r" for a r
      using 1(1) [OF p(2,1) that] .
  qed
  then show ?case using p prod by blast
next
  case (2 E p depth caps)
  then show ?case by (auto intro: seq_end)
next
  case (3 E label expr items p depth caps)
  obtain r where r: "match_expr E expr p depth = Inr r" using 3(3) by (auto simp: bindE_eq_Inr)
  have e: "peg_expr E expr p r" by (rule 3(1) [OF r])
  show ?case
  proof (cases r)
    case None
    then show ?thesis using 3(3) r e seq_fails by auto
  next
    case (Some x)
    obtain v sub nxt where x: "x = (v, sub, nxt)" by (cases x)
    have "match_seq E items nxt depth (label_capture label v (caps ++ sub)) = Inr r2" using 3(3) r Some x by simp
    then have "peg_seq E items nxt (label_capture label v (caps ++ sub)) r2" using 3(2) [OF r Some] x by blast
    then show ?thesis using seq_item e Some x by blast
  qed
next
  case (4 E s pos depth)
  then show ?case by (auto intro: lit)
next
  case (5 E k pos depth)
  then show ?case by (auto intro: token_class)
next
  case (6 E name pos depth)
  then show ?case by (auto simp: bindE_eq_Inr intro: rule_ref)
next
  case (7 E seqs pos depth)
  have "\<exists>r'. r3 = map_option (\<lambda>(caps, next). (CText (raw_text E pos next), caps, next)) r' \<and> peg_group E seqs pos r'"
    by (rule first_group_sound [OF 7(2) [unfolded match_expr.simps]]) (rule 7(1))
  then show ?case using grouped by blast
next
  case (8 E inner kind sep pos depth)
  obtain r where r: "match_expr E inner pos depth = Inr r" using 8(4) by (auto simp: bindE_eq_Inr)
  have e: "peg_expr E inner pos r" by (rule 8(1) [OF r])
  show ?case
  proof (cases r)
    case None
    then show ?thesis using 8(4) r e repeat_none [of E inner pos kind sep] by simp
  next
    case (Some x)
    obtain v sub nxt where x: "x = (v, sub, nxt)" by (cases x)
    show ?thesis
    proof (cases "kind = ROpt")
      case True
      then show ?thesis using 8(4) r e Some x repeat_opt [of E inner pos v sub nxt sep] by simp
    next
      case False
      let ?g = "\<lambda>p. case sep of None \<Rightarrow> Inr None | Some s \<Rightarrow> match_expr E s p depth"
      obtain list caps p where l: "repeat_loop (Suc (length (e_tokens E))) (\<lambda>p. match_expr E inner p depth) (sep \<noteq> None) ?g
          (push_value [] v) sub nxt = Inr (list, caps, p)" "r3 = Some (CList list, caps, p)"
        using 8(4) r Some x False by (auto simp: bindE_eq_Inr)
      have "peg_reps E inner sep (push_value [] v) sub nxt (list, caps, p)"
      proof (rule repeat_loop_sound [OF _ _ refl l(1)])
        show "seps_rel E sep ?g" using 8(3) [OF r Some] x False unfolding seps_rel_def by (simp split: option.splits)
        show "peg_expr E inner p r" if "match_expr E inner p depth = Inr r" for p r
          using 8(2) [OF r Some] x False that by blast
      qed
      then show ?thesis using repeat_more [OF e [unfolded Some x] False] l(2) by blast
    qed
  qed
qed

section \<open>The engine finds what is related\<close>

lemma token_match_advances: "token_match E p pos = Inr (Some (v, caps, nxt)) \<Longrightarrow> nxt = Suc pos \<and> pos < length (e_tokens E)"
  by (auto simp: token_match_def split: if_splits)

definition within :: "engine \<Rightarrow> nat \<Rightarrow> nat \<Rightarrow> bool" where
  "within E p n \<longleftrightarrow> p \<le> n \<and> n \<le> max p (length (e_tokens E))"

lemma within_refl [simp]: "within E p p"
  by (simp add: within_def)

lemma within_trans: "within E p q \<Longrightarrow> within E q r \<Longrightarrow> within E p r"
  by (auto simp: within_def)

lemma peg_advances:
  "peg_prod E name pos r1 \<Longrightarrow> \<forall>out n. r1 = Some (out, n) \<longrightarrow> within E pos n"
  "peg_alts E as pos r2 \<Longrightarrow> \<forall>out n. r2 = Some (out, n) \<longrightarrow> within E pos n"
  "peg_seq E items pos caps r3 \<Longrightarrow> \<forall>c n. r3 = Some (c, n) \<longrightarrow> within E pos n"
  "peg_expr E e pos r4 \<Longrightarrow> \<forall>v c n. r4 = Some (v, c, n) \<longrightarrow> within E pos n"
  "peg_group E seqs pos r5 \<Longrightarrow> \<forall>c n. r5 = Some (c, n) \<longrightarrow> within E pos n"
  "peg_reps E e sep list cs p res \<Longrightarrow> within E p (snd (snd res))"
  "peg_start E sep p r6 \<Longrightarrow> \<forall>q. r6 = Some q \<longrightarrow> within E p q"
proof (induction rule: peg_prod_peg_alts_peg_seq_peg_expr_peg_group_peg_reps_peg_start.inducts)
  case (seq_item e pos v sub nxt items label caps r)
  have "within E pos nxt" using seq_item.IH(2) by simp
  then show ?case using seq_item.IH(4) within_trans by blast
next
  case (repeat_more e pos v sub nxt kind sep list caps p)
  have "within E pos nxt" "within E nxt p" using repeat_more.IH by simp_all
  then show ?case using within_trans by auto
next
  case (reps_more sep p q e v sub nxt list caps r)
  have "within E p q" "within E q nxt" "within E nxt (snd (snd r))" using reps_more.IH by simp_all
  then show ?case using within_trans by blast
next
  case (lit s pos r)
  then show ?case by (auto simp: within_def dest: token_match_advances)
next
  case (token_class k pos r)
  then show ?case by (auto simp: within_def dest: token_match_advances)
qed auto

definition limited :: "simp_error + 'a \<Rightarrow> 'a \<Rightarrow> bool" where
  "limited m r \<longleftrightarrow> m = Inr r \<or> (\<exists>n. m = Inl (RecursionLimit n))"

lemma limited_Inr [simp]: "limited (Inr x) y \<longleftrightarrow> x = y"
  by (auto simp: limited_def)

lemma limited_Limit [simp]: "limited (Inl (RecursionLimit n)) y"
  by (simp add: limited_def)

lemma limited_bind: "limited m x \<Longrightarrow> limited (f x) y \<Longrightarrow> limited (bindE m f) y"
  by (auto simp: limited_def)

definition alt_match :: "engine \<Rightarrow> nat \<Rightarrow> nat \<Rightarrow> Alt \<Rightarrow> MatchProd" where
  "alt_match E pos depth alt =
     bindE (match_seq E (alt_seq alt) pos (Suc depth) Map.empty) (\<lambda>r. case r of
       None \<Rightarrow> Inr None
     | Some (caps, next) \<Rightarrow> bindE (alt_text E alt caps pos next) (\<lambda>out. Inr (Some (out, next))))"

definition sep_match :: "engine \<Rightarrow> Expr option \<Rightarrow> nat \<Rightarrow> nat \<Rightarrow> MatchExpr" where
  "sep_match E sep depth p = (case sep of None \<Rightarrow> Inr None | Some s \<Rightarrow> match_expr E s p depth)"

definition start_match :: "engine \<Rightarrow> Expr option \<Rightarrow> nat \<Rightarrow> nat \<Rightarrow> simp_error + nat option" where
  "start_match E sep depth p =
     (if sep \<noteq> None then bindE (sep_match E sep depth p) (\<lambda>r. Inr (map_option (\<lambda>(_, _, np). np) r)) else Inr (Some p))"

lemma match_prod_alts:
  "match_prod E name pos depth =
     (if EXPAND_MAX_DEPTH < depth then Inl (RecursionLimit name)
      else case find_production (e_grammar E) name of
             None \<Rightarrow> Inl (UnknownProduction name)
           | Some p \<Rightarrow> first_match (alt_match E pos depth) (pr_alts p))"
  by (simp add: alt_match_def [abs_def] del: split_paired_All cong: option.case_cong)

declare match_prod.simps [simp del]

lemma repeat_loop_turn:
  "repeat_loop (Suc n) f (sep \<noteq> None) (sep_match E sep depth) list caps p =
     bindE (start_match E sep depth p) (\<lambda>start.
     case start of
       None \<Rightarrow> Inr (list, caps, p)
     | Some q \<Rightarrow>
         bindE (f q) (\<lambda>r.
         case r of
           None \<Rightarrow> Inr (list, caps, p)
         | Some (v, sub, next) \<Rightarrow>
             if q < next then repeat_loop n f (sep \<noteq> None) (sep_match E sep depth) (push_value list v) (caps ++ sub) next
             else Inr (list, caps, p)))"
  unfolding start_match_def by (rule repeat_loop.simps(2))

declare repeat_loop.simps(2) [simp del]

lemma match_repeat:
  "match_expr E (GRepeat inner kind sep) pos depth =
     bindE (match_expr E inner pos depth) (\<lambda>r.
     case r of
       None \<Rightarrow> Inr (if kind = RPlus then None else Some (CList [], Map.empty, pos))
     | Some (v, sub, next) \<Rightarrow>
         if kind = ROpt then Inr (Some (CList (push_value [] v), sub, next))
         else bindE (repeat_loop (Suc (length (e_tokens E))) (\<lambda>p. match_expr E inner p depth)
                (sep \<noteq> None) (sep_match E sep depth) (push_value [] v) sub next) (\<lambda>(list, caps, p). Inr (Some (CList list, caps, p))))"
  unfolding sep_match_def [abs_def] by (rule match_expr.simps(5))

lemma engine_complete:
  "peg_prod E name pos r1 \<Longrightarrow> limited (match_prod E name pos depth) r1"
  "peg_alts E as pos r2 \<Longrightarrow> limited (first_match (alt_match E pos depth) as) r2"
  "peg_seq E items pos caps r3 \<Longrightarrow> limited (match_seq E items pos depth caps) r3"
  "peg_expr E e pos r4 \<Longrightarrow> limited (match_expr E e pos depth) r4"
  "peg_group E seqs pos r5 \<Longrightarrow> limited (match_expr E (GGroup seqs) pos depth)
    (map_option (\<lambda>(caps, next). (CText (raw_text E pos next), caps, next)) r5)"
  "peg_reps E e sep list cs p res \<Longrightarrow> 0 < n \<Longrightarrow> length (e_tokens E) < n + p \<Longrightarrow>
    limited (repeat_loop n (\<lambda>p. match_expr E e p depth) (sep \<noteq> None) (sep_match E sep depth) list cs p) res"
  "peg_start E sep p r6 \<Longrightarrow> limited (start_match E sep depth p) r6"
proof (induction arbitrary: depth and depth and depth and depth and depth and depth n and depth
    rule: peg_prod_peg_alts_peg_seq_peg_expr_peg_group_peg_reps_peg_start.inducts)
  case (prod name p pos r)
  then show ?case by (simp add: match_prod_alts)
next
  case (alts_match a pos caps nxt out as)
  have "limited (alt_match E pos depth a) (Some (out, nxt))"
    unfolding alt_match_def by (rule limited_bind [OF alts_match.IH(2)]) (simp add: alts_match)
  then show ?case unfolding first_match.simps by (rule limited_bind) simp
next
  case (alts_later a pos as r)
  have "limited (alt_match E pos depth a) None" unfolding alt_match_def by (rule limited_bind [OF alts_later.IH(2)]) simp
  then show ?case unfolding first_match.simps by (rule limited_bind) (simp add: alts_later.IH(4))
next
  case (seq_fails e pos label items caps)
  show ?case unfolding match_seq.simps by (rule limited_bind [OF seq_fails.IH(2)]) simp
next
  case (seq_item e pos v sub nxt items label caps r)
  show ?case unfolding match_seq.simps by (rule limited_bind [OF seq_item.IH(2)]) (simp add: seq_item.IH(4))
next
  case (rule_ref name pos r)
  show ?case unfolding match_expr.simps by (rule limited_bind [OF rule_ref.IH(2)]) simp
next
  case (grouped seqs pos r)
  show ?case by (rule grouped.IH(2))
next
  case (repeat_none e pos kind sep)
  show ?case unfolding match_repeat by (rule limited_bind [OF repeat_none.IH(2)]) simp
next
  case (repeat_opt e pos v sub nxt sep)
  show ?case unfolding match_repeat by (rule limited_bind [OF repeat_opt.IH(2)]) simp
next
  case (repeat_more e pos v sub nxt kind sep list caps p)
  have "limited (repeat_loop (Suc (length (e_tokens E))) (\<lambda>p. match_expr E e p depth) (sep \<noteq> None) (sep_match E sep depth) (push_value [] v) sub nxt) (list, caps, p)"
    by (rule repeat_more.IH(4)) simp_all
  then show ?case unfolding match_repeat
    by (intro limited_bind [OF repeat_more.IH(2)]) (simp add: repeat_more limited_bind)
next
  case (group_match s pos r ss)
  show ?case by (simp, rule limited_bind [OF limited_bind [OF group_match.IH(2)]]) auto
next
  case (group_later s pos ss r)
  have l: "limited (match_expr E (GGroup ss) pos depth) (map_option (\<lambda>(caps, next). (CText (raw_text E pos next), caps, next)) r)"
    by (rule group_later.IH(4))
  show ?case unfolding match_expr.simps first_match.simps
    by (rule limited_bind [OF limited_bind [OF group_later.IH(2), where y = None]]) (use l in \<open>simp_all\<close>)
next
  case (start_sep s pos r)
  have "(case x of (v, sub, nxt) \<Rightarrow> nxt) = snd (snd x)" for x :: "Capture \<times> captures \<times> nat" by (cases x) simp
  then show ?case unfolding start_match_def sep_match_def
    by (simp, intro limited_bind [OF start_sep.IH(2)]) (simp add: case_prod_beta')
next
  case (reps_no_start sep p e list caps)
  show ?case
  proof (cases n)
    case (Suc m)
    show ?thesis unfolding Suc repeat_loop_turn by (rule limited_bind [OF reps_no_start.IH(2)]) simp
  qed (use reps_no_start.prems in simp)
next
  case (reps_no_element sep p q e list caps)
  show ?case
  proof (cases n)
    case (Suc m)
    show ?thesis unfolding Suc repeat_loop_turn
      by (rule limited_bind [OF reps_no_element.IH(2)]) (simp, rule limited_bind [OF reps_no_element.IH(4)], simp)
  qed (use reps_no_element.prems in simp)
next
  case (reps_empty sep p q e v sub nxt list caps)
  show ?case
  proof (cases n)
    case (Suc m)
    show ?thesis unfolding Suc repeat_loop_turn
      by (rule limited_bind [OF reps_empty.IH(2)]) (simp, rule limited_bind [OF reps_empty.IH(4)], use \<open>nxt \<le> q\<close> in \<open>simp add: leD\<close>)
  qed (use reps_empty.prems in simp)
next
  case (reps_more sep p q e v sub nxt list caps r)
  obtain m where m: "n = Suc m" using reps_more.prems by (cases n) auto
  have w: "within E p q" "within E q nxt" using peg_advances(7) [OF reps_more.IH(1)] peg_advances(4) [OF reps_more.IH(3)] by simp_all
  then have "nxt \<le> length (e_tokens E)" "p < nxt" using \<open>q < nxt\<close> by (auto simp: within_def)
  then have "0 < m" "length (e_tokens E) < m + nxt" using reps_more.prems m by auto
  then have "limited (repeat_loop m (\<lambda>p. match_expr E e p depth) (sep \<noteq> None) (sep_match E sep depth) (push_value list v) (caps ++ sub) nxt) r"
    by (rule reps_more.IH(6))
  then show ?case using \<open>q < nxt\<close> unfolding m repeat_loop_turn
    by (intro limited_bind [OF reps_more.IH(2)]) (simp, rule limited_bind [OF reps_more.IH(4)], simp)
qed (auto simp: limited_def start_match_def)

section \<open>No loop runs out\<close>

lemma expr_moves:
  assumes "match_expr E e pos depth = Inr (Some (v, c, n))" "pos \<le> length (e_tokens E)"
  shows "pos \<le> n \<and> n \<le> length (e_tokens E)"
  using peg_advances(4) [OF engine_sound(3) [OF assms(1)]] assms(2) by (auto simp: within_def)

lemma sep_moves:
  "sep_match E sep depth pos = Inr (Some (v, c, n)) \<Longrightarrow> pos \<le> length (e_tokens E) \<Longrightarrow> pos \<le> n \<and> n \<le> length (e_tokens E)"
  by (cases sep) (auto simp: sep_match_def dest: expr_moves)

lemma calm_option: "(m = None \<Longrightarrow> only H x) \<Longrightarrow> (\<And>v. m = Some v \<Longrightarrow> only H (f v)) \<Longrightarrow> only H (case_option x f m)"
  by (cases m) simp_all

lemma repeat_loop_calm:
  assumes "\<And>q. p \<le> q \<Longrightarrow> q \<le> L \<Longrightarrow> only H (f q)" "\<And>q. b \<Longrightarrow> p \<le> q \<Longrightarrow> q \<le> L \<Longrightarrow> only H (g q)"
    and "\<And>q v c n. q \<le> L \<Longrightarrow> f q = Inr (Some (v, c, n)) \<Longrightarrow> n \<le> L"
    and "\<And>q v c n. b \<Longrightarrow> q \<le> L \<Longrightarrow> g q = Inr (Some (v, c, n)) \<Longrightarrow> q \<le> n \<and> n \<le> L"
    and "L < k + p" "p \<le> L"
  shows "only H (repeat_loop k f b g list caps p)"
  using assms(1,2,5,6)
proof (induction k arbitrary: list caps p)
  case (Suc k)
  let ?start = "if b then bindE (g p) (\<lambda>r. Inr (map_option (\<lambda>(_, _, np). np) r)) else Inr (Some p)"
  have calm_start: "only H ?start" using Suc.prems(2) [OF _ order_refl Suc.prems(4)] by (cases b) (auto intro!: calm_bind)
  have at: "p \<le> q \<and> q \<le> L" if st: "?start = Inr (Some q)" for q
  proof (cases b)
    case True
    then obtain r where r: "g p = Inr r" "map_option (\<lambda>(_, _, np). np) r = Some q" using st by (auto simp: bindE_eq_Inr)
    then obtain v c where "r = Some (v, c, q)" by auto
    then show ?thesis using assms(4) [OF True Suc.prems(4)] r(1) by blast
  qed (use st Suc.prems(4) in simp)
  have body: "only H (case r of None \<Rightarrow> Inr (list, caps, p)
      | Some (v, sub, nxt) \<Rightarrow> if q < nxt then repeat_loop k f b g (push_value list v) (caps ++ sub) nxt else Inr (list, caps, p))"
    if r: "f q = Inr r" and q: "p \<le> q" "q \<le> L" for q r
  proof (cases r)
    case (Some x)
    obtain v sub nxt where x: "x = (v, sub, nxt)" by (cases x)
    have n: "nxt \<le> L" using assms(3) [OF q(2)] r Some x by blast
    have "only H (repeat_loop k f b g (push_value list v) (caps ++ sub) nxt)" if "q < nxt"
      by (rule Suc.IH) (use Suc.prems that q n in auto)
    then show ?thesis using Some x by simp
  qed simp
  show ?case unfolding repeat_loop.simps(2)
  proof (rule calm_bind [OF calm_start], rule calm_option)
    fix start q assume "?start = Inr start" "start = Some q"
    then have q: "p \<le> q" "q \<le> L" using at by auto
    show "only H (bindE (f q) (\<lambda>r. case r of None \<Rightarrow> Inr (list, caps, p)
      | Some (v, sub, nxt) \<Rightarrow> if q < nxt then repeat_loop k f b g (push_value list v) (caps ++ sub) nxt else Inr (list, caps, p)))"
      by (rule calm_bind [OF Suc.prems(1) [OF q]]) (rule body [OF _ q])
  qed simp
qed simp

lemma template_fuel: "fueled (template_parts t cs)"
proof (induction t cs rule: template_parts.induct)
  case (2 t c cs)
  have e: "fueled (parse_texpr inner)" for inner using parse_texpr_fuel [of inner] by (auto simp: only_def)
  show ?case
  proof (cases "c = ''$''")
    case True
    then show ?thesis using 2(1) by (auto intro!: calm_bind)
  next
    case d: False
    show ?thesis
    proof (cases "c = ''{''")
      case True
      show ?thesis
      proof (cases "block_end 1 False False cs")
        case None
        then show ?thesis using True by simp
      next
        case (Some ir)
        obtain inner rest where ir: "ir = (inner, rest)" by (cases ir)
        have "fueled (bindE (parse_texpr inner) (\<lambda>e. bindE (template_parts [] rest) (\<lambda>ps. Inr (flush t @ PEval e # ps))))"
          by (intro calm_bind e 2(2) [OF d True Some ir [symmetric]]) simp_all
        then show ?thesis using Some ir True by simp
      qed
    next
      case False
      then show ?thesis using 2(3) [OF d] d by simp
    qed
  qed
qed simp

lemma alt_text_fuel: "fueled (alt_text E a caps pos n)"
proof (cases "alt_template a")
  case (Some src)
  have "fueled (render t caps (e_now E))" for t
    using calm_render [of t caps "e_now E"] by (auto simp: only_def harmless_def)
  then show ?thesis using Some by (auto simp: alt_text_def parse_template_def intro!: calm_bind template_fuel)
qed (simp add: alt_text_def)

lemma engine_ends:
  "pos \<le> length (e_tokens E) \<Longrightarrow> fueled (match_prod E name pos depth)"
  "p \<le> length (e_tokens E) \<Longrightarrow> fueled (match_seq E items p depth caps)"
  "pos \<le> length (e_tokens E) \<Longrightarrow> fueled (match_expr E e pos depth)"
proof (induction E name pos depth and E items p depth caps and E e pos depth rule: match_prod_match_seq_match_expr.induct)
  case (1 E name pos depth)
  show ?case
  proof (cases "EXPAND_MAX_DEPTH < depth \<or> find_production (e_grammar E) name = None")
    case True
    then show ?thesis by (auto simp: match_prod_alts)
  next
    case False
    then obtain p where p: "\<not> EXPAND_MAX_DEPTH < depth" "find_production (e_grammar E) name = Some p" by blast
    have "fueled (alt_match E pos depth a)" if "a \<in> set (pr_alts p)" for a
      unfolding alt_match_def
      by (rule calm_bind [OF 1(1) [OF p that 1(2)]]) (auto intro!: calm_bind alt_text_fuel split: option.split)
    then show ?thesis using p by (simp add: match_prod_alts calm_first_match)
  qed
next
  case (3 E label e items p depth caps)
  have "fueled (match_seq E items nxt depth (label_capture label v (caps ++ sub)))"
    if m: "match_expr E e p depth = Inr (Some (v, sub, nxt))" for v sub nxt
    using 3(2) [OF m refl refl refl] expr_moves [OF m 3(3)] by blast
  then show ?case unfolding match_seq.simps using 3(1,3) by (auto intro!: calm_bind split: option.split)
next
  case (8 E inner kind sep pos depth)
  let ?L = "length (e_tokens E)"
  have "fueled (repeat_loop (Suc ?L) (\<lambda>p. match_expr E inner p depth) (sep \<noteq> None) (sep_match E sep depth) (push_value [] v) sub nxt)"
    if m: "match_expr E inner pos depth = Inr (Some (v, sub, nxt))" and k: "kind \<noteq> ROpt" for v sub nxt
  proof (rule repeat_loop_calm [where L = ?L])
    show "nxt \<le> ?L" "?L < Suc ?L + nxt" using expr_moves [OF m 8(4)] by auto
    show "fueled (match_expr E inner q depth)" if "q \<le> ?L" for q by (rule 8(2) [OF m refl refl refl k that])
    show "fueled (sep_match E sep depth q)" if "sep \<noteq> None" "q \<le> ?L" for q
      using 8(3) [OF m refl refl refl k that(1)] that by (auto simp: sep_match_def split: option.split)
    show "n \<le> ?L" if "q \<le> ?L" "match_expr E inner q depth = Inr (Some (v, c, n))" for q v c n
      using expr_moves [OF that(2,1)] by simp
    show "q \<le> n \<and> n \<le> ?L" if "q \<le> ?L" "sep_match E sep depth q = Inr (Some (v, c, n))" for q v c n
      by (rule sep_moves [OF that(2,1)])
  qed
  then show ?case unfolding match_repeat using 8(1,4) by (auto intro!: calm_bind split: option.split prod.split)
qed (auto simp: token_match_def intro!: calm_bind calm_first_match)

section \<open>Expansion\<close>

definition simp_engine :: "Grammar \<Rightarrow> stok list \<Rightarrow> i64 \<Rightarrow> engine" where
  "simp_engine g tokens now = \<lparr>e_grammar = g, e_tokens = tokens, e_now = now\<rparr>"

lemma expand_at_tokens:
  assumes "simp_lex lib input = Inr tokens"
  shows "expand_at lib g input now =
    bindE (match_prod (simp_engine g tokens now) ''query'' 0 0) (\<lambda>r. case r of
      None \<Rightarrow> Inl NoMatch
    | Some (out, next) \<Rightarrow> if next = length tokens then Inr out else Inl (TrailingText (tk_text (tokens ! next))))"
  by (simp add: expand_at_def assms simp_engine_def)

lemma engine_refinement:
  assumes "simp_lex lib input = Inr tokens"
  shows "(expand_at lib g input now = Inr out \<longrightarrow> peg_prod (simp_engine g tokens now) ''query'' 0 (Some (out, length tokens))) \<and>
    (peg_prod (simp_engine g tokens now) ''query'' 0 (Some (out, length tokens)) \<longrightarrow>
      expand_at lib g input now = Inr out \<or> (\<exists>n. expand_at lib g input now = Inl (RecursionLimit n))) \<and>
    (peg_prod (simp_engine g tokens now) ''query'' 0 None \<longrightarrow>
      expand_at lib g input now = Inl NoMatch \<or> (\<exists>n. expand_at lib g input now = Inl (RecursionLimit n))) \<and>
    expand_at lib g input now \<noteq> Inl NoFuel"
proof -
  let ?E = "simp_engine g tokens now"
  have s: "peg_prod ?E ''query'' 0 (Some (out, length tokens))" if x: "expand_at lib g input now = Inr out"
  proof -
    obtain r where "match_prod ?E ''query'' 0 0 = Inr r" "r = Some (out, length tokens)"
      using x unfolding expand_at_tokens [OF assms] by (auto simp: bindE_eq_Inr split: option.splits if_splits)
    then show ?thesis using engine_sound(1) by blast
  qed
  have c: "limited (match_prod ?E ''query'' 0 0) r" if "peg_prod ?E ''query'' 0 r" for r
    by (rule engine_complete(1) [OF that])
  have "fueled (expand_at lib g input now)" unfolding expand_at_tokens [OF assms]
    by (auto intro!: calm_bind engine_ends(1) split: option.split)
  then show ?thesis using s c [of "Some (out, length tokens)"] c [of None]
    unfolding expand_at_tokens [OF assms] by (auto simp: limited_def only_def)
qed

text \<open>C28: The engine refines the meaning of the grammar as an expression grammar with ordered choice, which
  knows no depth: a text it expands to is the one the grammar gives for the whole input, and where the
  grammar gives one, or no match, the engine returns it or stops at its depth. Whatever the
  grammar, its repetitions, which the code does not bound, come to an end.\<close>

theorem engine_refines_grammar:
  assumes "simp_lex lib input = Inr tokens"
  shows "(expand_at lib g input now = Inr out \<longrightarrow> peg_prod (simp_engine g tokens now) ''query'' 0 (Some (out, length tokens))) \<and>
    (peg_prod (simp_engine g tokens now) ''query'' 0 (Some (out, length tokens)) \<longrightarrow>
      expand_at lib g input now = Inr out \<or> (\<exists>n. expand_at lib g input now = Inl (RecursionLimit n))) \<and>
    (peg_prod (simp_engine g tokens now) ''query'' 0 None \<longrightarrow>
      expand_at lib g input now = Inl NoMatch \<or> (\<exists>n. expand_at lib g input now = Inl (RecursionLimit n))) \<and>
    expand_at lib g input now \<noteq> Inl NoFuel"
  by (rule engine_refinement [OF assms])

text \<open>A small grammar, and a text it expands. The evaluation leaves the continuations folded.\<close>

definition sample_grammar :: Grammar where
  "sample_grammar =
     [\<lparr>pr_name = ''query'', pr_alts =
         [\<lparr>alt_seq = [Item (Some ''l'') (GRule ''unary''), Item None (GLit ''or''), Item (Some ''r'') (GRule ''query'')],
           alt_template = Some ''$l OR $r''\<rparr>,
          \<lparr>alt_seq = [Item (Some ''u'') (GRule ''unary'')], alt_template = Some ''$u''\<rparr>]\<rparr>,
      \<lparr>pr_name = ''unary'', pr_alts =
         [\<lparr>alt_seq = [Item None (GLit ''no''), Item (Some ''u'') (GRule ''unary'')], alt_template = Some ''NOT $u''\<rparr>,
          \<lparr>alt_seq = [Item None (GRepeat (GClass KWord) RPlus (Some (GClass KSymbol)))], alt_template = None\<rparr>]\<rparr>]"

definition sample_tokens :: "stok list" where
  "sample_tokens = [stok KWord ''no'', stok KWord ''a'', stok KWord ''or'', stok KWord ''b'']"

lemma sample_lexed: "simp_lex ascii_lib ''no a or b'' = Inr sample_tokens"
proof -
  have "str_chars ''no a or b'' = [''n'', ''o'', '' '', ''a'', '' '', ''o'', ''r'', '' '', ''b'']" by code_simp
  moreover have "simp_turn ascii_lib None ''n'' [''o'', '' '', ''a'', '' '', ''o'', ''r'', '' '', ''b''] =
      Inr (Some (stok KWord ''no''), [''n'', ''o''], ['' '', ''a'', '' '', ''o'', ''r'', '' '', ''b''])" by code_simp
  moreover have "simp_turn ascii_lib (Some ''o'') '' '' [''a'', '' '', ''o'', ''r'', '' '', ''b''] =
      Inr (None, ['' ''], [''a'', '' '', ''o'', ''r'', '' '', ''b''])" by code_simp
  moreover have "simp_turn ascii_lib (Some '' '') ''a'' ['' '', ''o'', ''r'', '' '', ''b''] =
      Inr (Some (stok KWord ''a''), [''a''], ['' '', ''o'', ''r'', '' '', ''b''])" by code_simp
  moreover have "simp_turn ascii_lib (Some ''a'') '' '' [''o'', ''r'', '' '', ''b''] = Inr (None, ['' ''], [''o'', ''r'', '' '', ''b''])" by code_simp
  moreover have "simp_turn ascii_lib (Some '' '') ''o'' [''r'', '' '', ''b''] = Inr (Some (stok KWord ''or''), [''o'', ''r''], ['' '', ''b''])" by code_simp
  moreover have "simp_turn ascii_lib (Some ''r'') '' '' [''b''] = Inr (None, ['' ''], [''b''])" by code_simp
  moreover have "simp_turn ascii_lib (Some '' '') ''b'' [] = Inr (Some (stok KWord ''b''), [''b''], [])" by code_simp
  ultimately show ?thesis by (simp add: simp_lex_def sample_tokens_def)
qed
lemma sample_templates:
  "parse_template ''$l OR $r'' = Inr [PVar ''l'', PText '' OR '', PVar ''r'']"
  "parse_template ''$u'' = Inr [PVar ''u'']" "parse_template ''NOT $u'' = Inr [PText ''NOT '', PVar ''u'']"
  by code_simp+

lemma bindE_weak: "m = m' \<Longrightarrow> bindE m f = bindE m' f"
  by simp

lemma repeat_weak: "list = list' \<Longrightarrow> p = p' \<Longrightarrow> repeat_loop n f b g list caps p = repeat_loop n f b g list' caps p'"
  by simp

lemma sample_matched:
  "match_prod (simp_engine sample_grammar sample_tokens 0) ''query'' 0 0 = Inr (Some (''NOT a OR b'', 4))"
  by (simp add: match_prod.simps find_production_def sample_grammar_def sample_tokens_def EXPAND_MAX_DEPTH_def token_match_def
      stok_def alt_text_def sample_templates label_capture_def render_def render_part_def lookup_capture_def repeat_loop.simps(2)
      optE_def simp_engine_def raw_text_def cong: bindE_weak repeat_weak)

lemma sample_expands: "expand_at ascii_lib sample_grammar ''no a or b'' 0 = Inr ''NOT a OR b''"
  unfolding expand_at_tokens [OF sample_lexed] sample_matched by (simp add: sample_tokens_def)

theorem engine_refines_grammar_witness:
  "peg_prod (simp_engine sample_grammar sample_tokens 0) ''query'' 0 (Some (''NOT a OR b'', length sample_tokens))"
  using engine_refines_grammar [OF sample_lexed, of sample_grammar 0 "''NOT a OR b''"] sample_expands by simp

end
