(* ===== verification/Simp_Left.thy ===== *)
theory Simp_Left
  imports Simp_Engine
begin

text \<open>
  The search for left recursion is exact: it refuses a grammar just when the left corners of its
  productions have a cycle.
\<close>

definition corners :: "edges \<Rightarrow> (string \<times> string) set" where
  "corners es = {(a, b). \<exists>succ. corner es a = Some succ \<and> b \<in> set succ \<and> corner es b \<noteq> None}"

text \<open>What the search has finished: closed under the corners, and on no cycle.\<close>

definition settled_nodes :: "edges \<Rightarrow> string set \<Rightarrow> bool" where
  "settled_nodes es F \<longleftrightarrow> (\<forall>a\<in>F. (a, a) \<notin> (corners es)\<^sup>+ \<and> (\<forall>b. (a, b) \<in> corners es \<longrightarrow> b \<in> F))"

lemma settled_reach:
  assumes "settled_nodes es F" "(a, b) \<in> (corners es)\<^sup>+" "a \<in> F"
  shows "b \<in> F"
  using assms(2,3) by (induction rule: trancl_induct) (use assms(1) in \<open>auto simp: settled_nodes_def\<close>)

declare dfs.simps [simp del]

lemma dfs_exact:
  "\<forall>g\<in>gray. (g, node) \<in> (corners es)\<^sup>+ \<Longrightarrow> settled_nodes es fin \<Longrightarrow>
    (case dfs es gray node fin of
       Inl e \<Rightarrow> \<exists>n. e = LeftRecursion n \<and> (n, n) \<in> (corners es)\<^sup>+
     | Inr F \<Rightarrow> settled_nodes es F \<and> insert node fin \<subseteq> F \<and> F \<inter> gray \<subseteq> fin)"
  "\<forall>g\<in>gray. \<forall>s\<in>set ss. corner es s \<noteq> None \<longrightarrow> (g, s) \<in> (corners es)\<^sup>+ \<Longrightarrow> settled_nodes es fin \<Longrightarrow>
    (case dfs_all es gray ss fin of
       Inl e \<Rightarrow> \<exists>n. e = LeftRecursion n \<and> (n, n) \<in> (corners es)\<^sup>+
     | Inr F \<Rightarrow> settled_nodes es F \<and> fin \<union> {s\<in>set ss. corner es s \<noteq> None} \<subseteq> F \<and> F \<inter> gray \<subseteq> fin)"
proof (induction es gray node fin and es gray ss fin rule: dfs_dfs_all.induct)
  case (1 es gray node fin)
  show ?case
  proof (cases "node \<in> fin \<or> node \<in> gray")
    case True
    then show ?thesis using 1(2,3) by (auto simp: dfs.simps)
  next
    case False
    show ?thesis
    proof (cases "corner es node")
      case None
      then have "(node, b) \<notin> corners es" for b by (simp add: corners_def)
      moreover from this have "(node, node) \<notin> (corners es)\<^sup>+" by (meson tranclD)
      ultimately have "settled_nodes es (insert node fin)" using 1(3) by (auto simp: settled_nodes_def)
      then show ?thesis using None False by (auto simp: dfs.simps)
    next
      case (Some succ)
      have g: "\<forall>g\<in>insert node gray. \<forall>s\<in>set succ. corner es s \<noteq> None \<longrightarrow> (g, s) \<in> (corners es)\<^sup>+"
      proof (intro ballI impI)
        fix g s assume gs: "g \<in> insert node gray" "s \<in> set succ" "corner es s \<noteq> None"
        then have "(node, s) \<in> corners es" using Some by (auto simp: corners_def)
        then show "(g, s) \<in> (corners es)\<^sup>+" using gs 1(2) by (auto intro: trancl_into_trancl)
      qed
      note ih = 1(1) [OF _ _ Some g 1(3)]
      show ?thesis
      proof (cases "dfs_all es (insert node gray) succ fin")
        case (Inl e)
        then show ?thesis using ih False Some by (simp add: dfs.simps)
      next
        case (Inr F)
        then have F: "settled_nodes es F" "fin \<subseteq> F" "\<forall>s\<in>set succ. corner es s \<noteq> None \<longrightarrow> s \<in> F" "F \<inter> insert node gray \<subseteq> fin"
          using ih False by auto
        have n: "node \<notin> F" using F(4) False by blast
        have next_in: "b \<in> F" if "(node, b) \<in> corners es" for b using that F(3) Some by (auto simp: corners_def)
        have "(node, node) \<notin> (corners es)\<^sup>+"
        proof
          assume "(node, node) \<in> (corners es)\<^sup>+"
          then obtain b where b: "(node, b) \<in> corners es" "(b, node) \<in> (corners es)\<^sup>*" by (meson tranclD)
          have "b \<in> F" by (rule next_in [OF b(1)])
          then show False using b(2) n settled_reach [OF F(1), of b node] by (auto simp: rtrancl_eq_or_trancl)
        qed
        then have "settled_nodes es (insert node F)" using F(1) next_in by (auto simp: settled_nodes_def)
        then show ?thesis using Inr False Some F by (auto simp: dfs.simps)
      qed
    qed
  qed
next
  case (2 es gray fin)
  then show ?case by simp
next
  case (3 es gray s ss fin)
  show ?case
  proof (cases "corner es s = None")
    case True
    then show ?thesis using 3(2) [of fin] 3(3,4) by (auto split: sum.splits)
  next
    case False
    then obtain ys where ys: "corner es s = Some ys" by blast
    have h: "case dfs es gray s fin of Inl e \<Rightarrow> \<exists>n. e = LeftRecursion n \<and> (n, n) \<in> (corners es)\<^sup>+
      | Inr F \<Rightarrow> settled_nodes es F \<and> insert s fin \<subseteq> F \<and> F \<inter> gray \<subseteq> fin"
      by (rule 3(1) [OF False _ 3(4)]) (use 3(3) False in auto)
    show ?thesis
    proof (cases "dfs es gray s fin")
      case (Inl e)
      then show ?thesis using h ys by simp
    next
      case (Inr F)
      then have F: "settled_nodes es F" "insert s fin \<subseteq> F" "F \<inter> gray \<subseteq> fin" using h by auto
      have "case dfs_all es gray ss F of Inl e \<Rightarrow> \<exists>n. e = LeftRecursion n \<and> (n, n) \<in> (corners es)\<^sup>+
        | Inr F' \<Rightarrow> settled_nodes es F' \<and> F \<union> {s\<in>set ss. corner es s \<noteq> None} \<subseteq> F' \<and> F' \<inter> gray \<subseteq> F"
        by (rule 3(2) [OF _ _ F(1)]) (use 3(3) Inr ys in auto)
      then show ?thesis using Inr ys F by (auto split: sum.splits)
    qed
  qed
qed

lemma dfs_productions:
  assumes "settled_nodes es fin"
  shows "case foldE (\<lambda>p fin. dfs es {} (pr_name p) fin) g fin of
      Inl e \<Rightarrow> \<exists>n. e = LeftRecursion n \<and> (n, n) \<in> (corners es)\<^sup>+
    | Inr F \<Rightarrow> settled_nodes es F \<and> fin \<union> pr_name ` set g \<subseteq> F"
  using assms
proof (induction g arbitrary: fin)
  case (Cons p g)
  have h: "case dfs es {} (pr_name p) fin of Inl e \<Rightarrow> \<exists>n. e = LeftRecursion n \<and> (n, n) \<in> (corners es)\<^sup>+
      | Inr F \<Rightarrow> settled_nodes es F \<and> insert (pr_name p) fin \<subseteq> F \<and> F \<inter> {} \<subseteq> fin"
    by (rule dfs_exact(1) [OF _ Cons.prems]) simp
  show ?case
  proof (cases "dfs es {} (pr_name p) fin")
    case (Inl e)
    then show ?thesis using h by simp
  next
    case (Inr F)
    then have F: "settled_nodes es F" "insert (pr_name p) fin \<subseteq> F" using h by auto
    then show ?thesis using Inr Cons.IH [OF F(1)] by (auto split: sum.splits)
  qed
qed simp

lemma left_recursion_search:
  "(detect_left_recursion g = Inr () \<longleftrightarrow> acyclic (corners (left_edges g))) \<and>
    (detect_left_recursion g \<noteq> Inr () \<longrightarrow>
      (\<exists>n. detect_left_recursion g = Inl (LeftRecursion n) \<and> (n, n) \<in> (corners (left_edges g))\<^sup>+))"
proof -
  let ?es = "left_edges g"
  have h: "case foldE (\<lambda>p fin. dfs ?es {} (pr_name p) fin) g {} of
      Inl e \<Rightarrow> \<exists>n. e = LeftRecursion n \<and> (n, n) \<in> (corners ?es)\<^sup>+
    | Inr F \<Rightarrow> settled_nodes ?es F \<and> {} \<union> pr_name ` set g \<subseteq> F"
    by (rule dfs_productions) (simp add: settled_nodes_def)
  have names: "a \<in> pr_name ` set g" if "(a, b) \<in> corners ?es" for a b
    using that by (force simp: corners_def corner_def left_edges_def dest: map_of_SomeD)
  show ?thesis
  proof (cases "foldE (\<lambda>p fin. dfs ?es {} (pr_name p) fin) g {}")
    case (Inl e)
    then show ?thesis using h by (auto simp: detect_left_recursion_def acyclic_def)
  next
    case (Inr F)
    then have F: "settled_nodes ?es F" "pr_name ` set g \<subseteq> F" using h by auto
    have "(n, n) \<notin> (corners ?es)\<^sup>+" for n
    proof
      assume "(n, n) \<in> (corners ?es)\<^sup>+"
      then have "n \<in> F" using names F(2) by (meson tranclD subsetD)
      then show False using F(1) \<open>(n, n) \<in> (corners ?es)\<^sup>+\<close> by (auto simp: settled_nodes_def)
    qed
    then show ?thesis using Inr by (simp add: detect_left_recursion_def acyclic_def)
  qed
qed

corollary left_recursion_passes: "detect_left_recursion g = Inr () \<longleftrightarrow> acyclic (corners (left_edges g))"
  using left_recursion_search by blast


end
