(* ===== verification/Simp_Depth.thy ===== *)
theory Simp_Depth
  imports Simp_Peg Simp_Left Simp_Blocks
begin

text \<open>
  How deep an expansion goes. In a grammar the checks accept, where no expression but a skippable one
  matches nothing, a production comes back to itself only past a token: the engine needs a level for
  each token and production.
\<close>

declare match_prod.simps [simp del] repeat_loop.simps(2) [simp del] dfs.simps [simp del]

section \<open>Grammars that take tokens\<close>

text \<open>Whether an expression takes a token whenever it matches, a production being one that does.\<close>

fun seq_takes :: "Item list \<Rightarrow> bool"
  and expr_takes :: "Expr \<Rightarrow> bool"
  and seqs_take :: "Item list list \<Rightarrow> bool" where
  "seq_takes [] = False"
| "seq_takes (Item label e # items) = (expr_takes e \<or> seq_takes items)"
| "expr_takes (GLit s) = True"
| "expr_takes (GClass k) = True"
| "expr_takes (GRule n) = True"
| "expr_takes (GGroup seqs) = seqs_take seqs"
| "expr_takes (GRepeat inner kind sep) = (kind = RPlus \<and> expr_takes inner)"
| "seqs_take [] = True"
| "seqs_take (s # seqs) = (seq_takes s \<and> seqs_take seqs)"

text \<open>A sequence whose groups, and whose repeated expressions, all take a token.\<close>

fun seq_solid :: "Item list \<Rightarrow> bool"
  and expr_solid :: "Expr \<Rightarrow> bool"
  and seqs_solid :: "Item list list \<Rightarrow> bool" where
  "seq_solid [] = True"
| "seq_solid (Item label e # items) = (expr_solid e \<and> seq_solid items)"
| "expr_solid (GLit s) = True"
| "expr_solid (GClass k) = True"
| "expr_solid (GRule n) = True"
| "expr_solid (GGroup seqs) = seqs_solid seqs"
| "expr_solid (GRepeat inner kind sep) =
     (expr_takes inner \<and> expr_solid inner \<and> (case sep of None \<Rightarrow> True | Some s \<Rightarrow> expr_solid s))"
| "seqs_solid [] = True"
| "seqs_solid (s # seqs) = (seq_takes s \<and> seq_solid s \<and> seqs_solid seqs)"

definition solid_grammar :: "Grammar \<Rightarrow> bool" where
  "solid_grammar g \<longleftrightarrow> (\<forall>p\<in>set g. \<forall>a\<in>set (pr_alts p). seq_takes (alt_seq a) \<and> seq_solid (alt_seq a))"

lemma seqs_solid_iff: "seqs_solid seqs \<longleftrightarrow> (\<forall>s\<in>set seqs. seq_takes s \<and> seq_solid s)"
  by (induction seqs) auto

lemma seqs_take_iff: "seqs_take seqs \<longleftrightarrow> (\<forall>s\<in>set seqs. seq_takes s)"
  by (induction seqs) auto

lemma solid_skippable: "expr_solid e \<Longrightarrow> \<not> expr_takes e \<Longrightarrow> snd (expr_left e)"
proof (cases e)
  case (GRepeat inner kind sep)
  assume "expr_solid e" "\<not> expr_takes e"
  then show ?thesis using GRepeat by (cases kind) auto
qed (auto simp: seqs_solid_iff seqs_take_iff)

lemma find_production_in: "find_production g name = Some p \<Longrightarrow> p \<in> set g \<and> pr_name p = name"
  by (auto simp: find_production_def find_Some_iff)

lemma peg_takes:
  "peg_prod E name pos r1 \<Longrightarrow> solid_grammar (e_grammar E) \<Longrightarrow> \<forall>out n. r1 = Some (out, n) \<longrightarrow> pos < n"
  "peg_alts E as pos r2 \<Longrightarrow> solid_grammar (e_grammar E) \<Longrightarrow> \<forall>a\<in>set as. seq_takes (alt_seq a) \<Longrightarrow> \<forall>out n. r2 = Some (out, n) \<longrightarrow> pos < n"
  "peg_seq E items pos caps r3 \<Longrightarrow> solid_grammar (e_grammar E) \<Longrightarrow> seq_takes items \<Longrightarrow> \<forall>c n. r3 = Some (c, n) \<longrightarrow> pos < n"
  "peg_expr E e pos r4 \<Longrightarrow> solid_grammar (e_grammar E) \<Longrightarrow> expr_takes e \<Longrightarrow> \<forall>v c n. r4 = Some (v, c, n) \<longrightarrow> pos < n"
  "peg_group E seqs pos r5 \<Longrightarrow> solid_grammar (e_grammar E) \<Longrightarrow> seqs_take seqs \<Longrightarrow> \<forall>c n. r5 = Some (c, n) \<longrightarrow> pos < n"
  "peg_reps E e sep list cs p res \<Longrightarrow> True"
  "peg_start E sep p r6 \<Longrightarrow> True"
proof (induction rule: peg_prod_peg_alts_peg_seq_peg_expr_peg_group_peg_reps_peg_start.inducts)
  case (prod name p pos r)
  have "\<forall>a\<in>set (pr_alts p). seq_takes (alt_seq a)"
    using find_production_in [OF prod(1)] prod(4) by (auto simp: solid_grammar_def)
  then show ?case using prod(3,4) by blast
next
  case (seq_item e pos v sub nxt items label caps r)
  have w: "within E pos nxt" "\<forall>c n. r = Some (c, n) \<longrightarrow> within E nxt n"
    using peg_advances(4) [OF seq_item.IH(1)] peg_advances(3) [OF seq_item.IH(3)] by auto
  show ?case
  proof (cases "expr_takes e")
    case True
    then have "pos < nxt" using seq_item.IH(2) seq_item.prems by blast
    then show ?thesis using w by (auto simp: within_def)
  next
    case False
    then have "\<forall>c n. r = Some (c, n) \<longrightarrow> nxt < n" using seq_item.IH(4) seq_item.prems by auto
    then show ?thesis using w by (auto simp: within_def)
  qed
next
  case (repeat_more e pos v sub nxt kind sep list caps p)
  have "pos < nxt" using repeat_more.IH(2) repeat_more.prems by auto
  moreover have "within E nxt p" using peg_advances(6) [OF repeat_more.IH(3)] by simp
  ultimately show ?case by (auto simp: within_def)
next
  case (lit s pos r)
  then show ?case by (auto dest: token_match_advances)
next
  case (token_class k pos r)
  then show ?case by (auto dest: token_match_advances)
qed auto

section \<open>What the checks give\<close>

definition production_names :: "Grammar \<Rightarrow> string set" where
  "production_names g = set (map pr_name g)"

lemma foldE_unit: "foldE (\<lambda>x _. f x) xs () = Inr () \<Longrightarrow> \<forall>x\<in>set xs. f x = Inr ()"
  by (induction xs) (auto simp: bindE_eq_Inr)

lemma validated:
  assumes "validate_grammar lib g = Inr ()"
  shows "acyclic (corners (left_edges g))" "''query'' \<in> production_names g"
    and "\<forall>p\<in>set g. \<forall>a\<in>set (pr_alts p). check_alt lib (production_names g) (pr_name p) a = Inr ()"
proof -
  have d: "detect_left_recursion g = Inr ()" and q: "list_ex (\<lambda>p. pr_name p = ''query'') g"
    and a: "foldE (\<lambda>p _. foldE (\<lambda>a _. check_alt lib (set (map pr_name g)) (pr_name p) a) (pr_alts p) ()) g () = Inr ()"
    using assms by (auto simp: validate_grammar_def bindE_eq_Inr checkE_def split: if_splits)
  show "acyclic (corners (left_edges g))" using d left_recursion_passes by blast
  show "''query'' \<in> production_names g" using q by (force simp: production_names_def list_ex_iff)
  show "\<forall>p\<in>set g. \<forall>a\<in>set (pr_alts p). check_alt lib (production_names g) (pr_name p) a = Inr ()"
    using foldE_unit [OF a] foldE_unit unfolding production_names_def by blast
qed

lemma checked_seqs: "check_refs_seqs lib owner names seqs = Inr () \<Longrightarrow> \<forall>s\<in>set seqs. check_refs lib owner names s = Inr ()"
  by (induction seqs) (auto simp: bindE_eq_Inr)

lemma left_in_names:
  "check_refs lib owner names items = Inr () \<Longrightarrow> set (left_rules items) \<subseteq> names"
  "check_refs_expr lib owner names e = Inr () \<Longrightarrow> set (fst (expr_left e)) \<subseteq> names"
  "check_refs_seqs lib owner names seqs = Inr () \<Longrightarrow> set (group_left seqs) \<subseteq> names"
proof (induction lib owner names items and lib owner names e and lib owner names seqs
    rule: check_refs_check_refs_expr_check_refs_seqs.induct)
  case (2 lib owner names label e items)
  then show ?case by (cases "expr_left e") (auto simp: bindE_eq_Inr)
qed (auto simp: bindE_eq_Inr checkE_def split: if_splits)

lemma left_of_group: "s \<in> set seqs \<Longrightarrow> set (left_rules s) \<subseteq> set (group_left seqs)"
  by (induction seqs) auto

section \<open>The rank of a production\<close>

text \<open>How many productions it can come to through first items.\<close>

definition rank :: "Grammar \<Rightarrow> string \<Rightarrow> nat" where
  "rank g name = card {m. (name, m) \<in> (corners (left_edges g))\<^sup>+}"

lemma corners_names: "(a, b) \<in> corners (left_edges g) \<Longrightarrow> a \<in> production_names g \<and> b \<in> production_names g"
  by (force simp: corners_def corner_def left_edges_def production_names_def dest: map_of_SomeD)

lemma reach_names: "(a, b) \<in> (corners (left_edges g))\<^sup>+ \<Longrightarrow> b \<in> production_names g"
  by (induction rule: trancl_induct) (auto dest: corners_names)

lemma finite_reach: "finite {m. (a, m) \<in> (corners (left_edges g))\<^sup>+}"
  by (rule finite_subset [of _ "production_names g"]) (auto dest: reach_names simp: production_names_def)

lemma rank_below:
  assumes "acyclic (corners (left_edges g))" "a \<in> production_names g"
  shows "rank g a < length g"
proof -
  have "{m. (a, m) \<in> (corners (left_edges g))\<^sup>+} \<subset> production_names g"
    using assms by (auto simp: acyclic_def dest: reach_names)
  then have "rank g a < card (production_names g)" unfolding rank_def by (intro psubset_card_mono) (simp_all add: production_names_def)
  also have "\<dots> \<le> length g" unfolding production_names_def by (metis card_length length_map)
  finally show ?thesis .
qed

lemma rank_less:
  assumes "acyclic (corners (left_edges g))" "(a, b) \<in> corners (left_edges g)"
  shows "rank g b < rank g a"
proof -
  have "{m. (b, m) \<in> (corners (left_edges g))\<^sup>+} \<subset> {m. (a, m) \<in> (corners (left_edges g))\<^sup>+}"
    using assms by (auto simp: acyclic_def intro: trancl_into_trancl2)
  then show ?thesis unfolding rank_def by (intro psubset_card_mono finite_reach)
qed

lemma corner_of_production:
  assumes "distinct (map pr_name g)" "find_production g name = Some p" "a \<in> set (pr_alts p)"
    and "n \<in> set (left_rules (alt_seq a))" "n \<in> production_names g"
  shows "(name, n) \<in> corners (left_edges g)"
proof -
  have d: "distinct (map fst (rev (left_edges g)))"
    using assms(1) by (simp add: left_edges_def rev_map [symmetric] comp_def)
  have at: "corner (left_edges g) (pr_name q) = Some (concat (map (\<lambda>a. left_rules (alt_seq a)) (pr_alts q)))" if "q \<in> set g" for q
    unfolding corner_def by (rule map_of_is_SomeI [OF d]) (use that in \<open>auto simp: left_edges_def\<close>)
  have p: "p \<in> set g" "pr_name p = name" using find_production_in [OF assms(2)] by auto
  obtain q where "q \<in> set g" "pr_name q = n" using assms(5) by (auto simp: production_names_def)
  then have "corner (left_edges g) n \<noteq> None" using at by auto
  then show ?thesis using at [OF p(1)] p(2) assms(3,4) by (auto simp: corners_def)
qed

section \<open>No expansion is too deep\<close>

text \<open>The levels left at a position suffice for the productions a sequence may start with, and for any
  one past the next token.\<close>

definition fits :: "engine \<Rightarrow> nat \<Rightarrow> nat \<Rightarrow> string list \<Rightarrow> bool" where
  "fits E depth pos rules \<longleftrightarrow>
     pos \<le> length (e_tokens E) \<and>
     depth + (length (e_tokens E) - pos) * length (e_grammar E) \<le> Suc EXPAND_MAX_DEPTH \<and>
     (\<forall>n\<in>set rules. depth + (length (e_tokens E) - pos) * length (e_grammar E) + rank (e_grammar E) n \<le> EXPAND_MAX_DEPTH)"

definition ready :: "dsl_lib \<Rightarrow> Grammar \<Rightarrow> bool" where
  "ready lib g \<longleftrightarrow> validate_grammar lib g = Inr () \<and> distinct (map pr_name g) \<and> solid_grammar g"

lemma fits_past:
  assumes "ready lib (e_grammar E)" "fits E depth pos rules" "pos < p" "p \<le> length (e_tokens E)"
    and "set rules' \<subseteq> production_names (e_grammar E)"
  shows "fits E depth p rules'"
proof -
  let ?L = "length (e_tokens E)" and ?K = "length (e_grammar E)"
  have "Suc (?L - p) * ?K \<le> (?L - pos) * ?K" by (rule mult_le_mono1) (use assms(3,4) in simp)
  then have b: "depth + (?L - p) * ?K + ?K \<le> Suc EXPAND_MAX_DEPTH" using assms(2) by (simp add: fits_def)
  moreover have "rank (e_grammar E) n < ?K" if "n \<in> set rules'" for n
    by (rule rank_below) (use that assms(1,5) validated(1) in \<open>auto simp: ready_def\<close>)
  ultimately show ?thesis using assms(4) by (fastforce simp: fits_def)
qed

lemma fits_subset: "fits E depth pos rules \<Longrightarrow> set rules' \<subseteq> set rules \<Longrightarrow> fits E depth pos rules'"
  by (auto simp: fits_def)

lemma expr_takes_token:
  assumes "match_expr E e pos depth = Inr (Some (v, c, n))" "ready lib (e_grammar E)" "expr_takes e"
  shows "pos < n"
  using peg_takes(4) [OF engine_sound(3) [OF assms(1)]] assms(2,3) by (auto simp: ready_def)

lemma alternative_checked:
  assumes "ready lib (e_grammar E)" "find_production (e_grammar E) name = Some p" "a \<in> set (pr_alts p)"
  shows "seq_solid (alt_seq a)" "check_refs lib name (production_names (e_grammar E)) (alt_seq a) = Inr ()"
    and "calm (alt_text E a caps pos n)"
proof -
  have p: "p \<in> set (e_grammar E)" "pr_name p = name" using find_production_in [OF assms(2)] by auto
  show "seq_solid (alt_seq a)" using assms(1,3) p by (auto simp: ready_def solid_grammar_def)
  have c: "check_alt lib (production_names (e_grammar E)) name a = Inr ()"
    using validated(3) [of lib "e_grammar E"] assms(1,3) p by (auto simp: ready_def)
  then show "check_refs lib name (production_names (e_grammar E)) (alt_seq a) = Inr ()"
    by (auto simp: check_alt_def bindE_eq_Inr)
  show "calm (alt_text E a caps pos n)"
  proof (cases "alt_template a")
    case (Some src)
    then obtain t where "parse_template src = Inr t"
      using c by (auto simp: check_alt_def bindE_eq_Inr split: sum.splits)
    then show ?thesis using Some by (simp add: alt_text_def calm_render)
  qed (simp add: alt_text_def)
qed

lemma fits_alternative:
  assumes "ready lib (e_grammar E)" "find_production (e_grammar E) name = Some p" "a \<in> set (pr_alts p)" "fits E depth pos [name]"
  shows "fits E (Suc depth) pos (left_rules (alt_seq a))"
proof -
  have "rank (e_grammar E) n < rank (e_grammar E) name" if "n \<in> set (left_rules (alt_seq a))" for n
  proof (rule rank_less)
    show "acyclic (corners (left_edges (e_grammar E)))" using assms(1) validated(1) by (auto simp: ready_def)
    have "n \<in> production_names (e_grammar E)"
      using left_in_names(1) [OF alternative_checked(2) [OF assms(1-3)]] that by blast
    then show "(name, n) \<in> corners (left_edges (e_grammar E))"
      using corner_of_production [OF _ assms(2,3) that] assms(1) by (auto simp: ready_def)
  qed
  then show ?thesis using assms(4) by (fastforce simp: fits_def)
qed

lemma expansion_calm:
  "ready lib (e_grammar E) \<Longrightarrow> name \<in> production_names (e_grammar E) \<Longrightarrow> fits E depth pos [name] \<Longrightarrow> calm (match_prod E name pos depth)"
  "ready lib (e_grammar E) \<Longrightarrow> seq_solid items \<Longrightarrow> check_refs lib owner (production_names (e_grammar E)) items = Inr () \<Longrightarrow>
     fits E depth p (left_rules items) \<Longrightarrow> calm (match_seq E items p depth caps)"
  "ready lib (e_grammar E) \<Longrightarrow> expr_solid e \<Longrightarrow> check_refs_expr lib owner (production_names (e_grammar E)) e = Inr () \<Longrightarrow>
     fits E depth pos (fst (expr_left e)) \<Longrightarrow> calm (match_expr E e pos depth)"
proof (induction E name pos depth and E items p depth caps and E e pos depth arbitrary: and owner and owner
    rule: match_prod_match_seq_match_expr.induct)
  case (1 E name pos depth)
  have d: "\<not> EXPAND_MAX_DEPTH < depth" using 1(4) by (auto simp: fits_def)
  obtain p where p: "find_production (e_grammar E) name = Some p"
    using 1(3) by (cases "find_production (e_grammar E) name") (auto simp: find_production_def find_None_iff production_names_def)
  have "calm (alt_match E pos depth a)" if a: "a \<in> set (pr_alts p)" for a
  proof -
    note ca = alternative_checked [OF 1(2) p a]
    have "calm (match_seq E (alt_seq a) pos (Suc depth) Map.empty)"
      by (rule 1(1) [OF d p a 1(2) ca(1,2) fits_alternative [OF 1(2) p a 1(4)]])
    then show ?thesis unfolding alt_match_def by (auto intro!: calm_bind ca(3) split: option.split)
  qed
  then show ?case using d p by (simp add: match_prod_alts calm_first_match)
next
  case (3 E label e items p depth caps)
  have l: "p \<le> length (e_tokens E)" using 3(6) by (simp add: fits_def)
  have c: "check_refs_expr lib owner (production_names (e_grammar E)) e = Inr ()"
    "check_refs lib owner (production_names (e_grammar E)) items = Inr ()" using 3(5) by (auto simp: bindE_eq_Inr)
  have s: "expr_solid e" "seq_solid items" using 3(4) by simp_all
  have "fits E depth p (fst (expr_left e))" by (rule fits_subset [OF 3(6)]) (cases "expr_left e", simp)
  then have "calm (match_expr E e p depth)" by (rule 3(1) [OF 3(3) s(1) c(1)])
  moreover have "calm (match_seq E items nxt depth (label_capture label v (caps ++ sub)))"
    if m: "match_expr E e p depth = Inr (Some (v, sub, nxt))" for v sub nxt
  proof -
    have "fits E depth nxt (left_rules items)"
    proof (cases "p < nxt")
      case True
      then show ?thesis
        by (rule fits_past [OF 3(3) 3(6) _ conjunct2 [OF expr_moves [OF m l]] left_in_names(1) [OF c(2)]])
    next
      case False
      then have n: "nxt = p" using expr_moves [OF m l] by simp
      then have "\<not> expr_takes e" using expr_takes_token [OF m 3(3)] by blast
      then have "snd (expr_left e)" by (rule solid_skippable [OF s(1)])
      then show ?thesis unfolding n by (intro fits_subset [OF 3(6)]) (cases "expr_left e", simp)
    qed
    then show ?thesis by (rule 3(2) [OF m refl refl refl 3(3) s(2) c(2)])
  qed
  ultimately show ?case unfolding match_seq.simps by (auto intro!: calm_bind split: option.split)
next
  case (6 E name pos depth)
  have "name \<in> production_names (e_grammar E)" using 6(4) by (simp add: checkE_def split: if_splits)
  then show ?case using 6 by (auto intro!: calm_bind)
next
  case (7 E seqs pos depth)
  have "calm (match_seq E s pos depth Map.empty)" if s: "s \<in> set seqs" for s
  proof -
    have "fits E depth pos (left_rules s)" by (rule fits_subset [OF 7(5)]) (use left_of_group [OF s] in simp)
    moreover have "seq_solid s" using 7(3) s by (simp add: seqs_solid_iff)
    moreover have "check_refs lib owner (production_names (e_grammar E)) s = Inr ()" using checked_seqs 7(4) s by auto
    ultimately show ?thesis by (intro 7(1) [OF s 7(2)])
  qed
  then show ?case by (auto intro!: calm_first_match calm_bind)
next
  case (8 E inner kind sep pos depth)
  let ?N = "production_names (e_grammar E)" and ?L = "length (e_tokens E)"
  have l: "pos \<le> ?L" using 8(7) by (simp add: fits_def)
  have s: "expr_takes inner" "expr_solid inner" "\<And>x. sep = Some x \<Longrightarrow> expr_solid x" using 8(5) by auto
  have c: "check_refs_expr lib owner ?N inner = Inr ()" "\<And>x. sep = Some x \<Longrightarrow> check_refs_expr lib owner ?N x = Inr ()"
    using 8(6) by (auto simp: bindE_eq_Inr split: option.splits)
  have f: "fits E depth pos (fst (expr_left inner))" using 8(7) by simp
  have "calm (match_expr E inner pos depth)" by (rule 8(1) [OF 8(4) s(2) c(1) f])
  moreover have "calm (repeat_loop (Suc ?L) (\<lambda>p. match_expr E inner p depth) (sep \<noteq> None) (sep_match E sep depth) (push_value [] v) sub nxt)"
    if m: "match_expr E inner pos depth = Inr (Some (v, sub, nxt))" and k: "kind \<noteq> ROpt" for v sub nxt
  proof (rule repeat_loop_calm [where L = ?L])
    have n: "pos < nxt" "nxt \<le> ?L" using expr_takes_token [OF m 8(4) s(1)] expr_moves [OF m l] by auto
    show "nxt \<le> ?L" "?L < Suc ?L + nxt" using n by auto
    show "calm (match_expr E inner q depth)" if q: "nxt \<le> q" "q \<le> ?L" for q
    proof -
      have "fits E depth q (fst (expr_left inner))"
        by (rule fits_past [OF 8(4) f _ q(2) left_in_names(2) [OF c(1)]]) (use n q in simp)
      then show ?thesis by (rule 8(2) [OF m refl refl refl k 8(4) s(2) c(1)])
    qed
    show "calm (sep_match E sep depth q)" if b: "sep \<noteq> None" and q: "nxt \<le> q" "q \<le> ?L" for q
    proof -
      obtain x where x: "sep = Some x" using b by blast
      have "fits E depth q (fst (expr_left x))"
        by (rule fits_past [OF 8(4) f _ q(2) left_in_names(2) [OF c(2) [OF x]]]) (use n q in simp)
      then have "calm (match_expr E x q depth)" by (rule 8(3) [OF m refl refl refl k b x 8(4) s(3) [OF x] c(2) [OF x]])
      then show ?thesis using x by (simp add: sep_match_def)
    qed
    show "n \<le> ?L" if "q \<le> ?L" "match_expr E inner q depth = Inr (Some (v, c, n))" for q v c n
      using expr_moves [OF that(2,1)] by simp
    show "q \<le> n \<and> n \<le> ?L" if b: "sep \<noteq> None" "q \<le> ?L" "sep_match E sep depth q = Inr (Some (v, c, n))" for q v c n
      using that expr_moves by (auto simp: sep_match_def split: option.splits)
  qed
  ultimately show ?case unfolding match_repeat by (auto intro!: calm_bind split: option.split prod.split)
qed (simp_all add: token_match_def)

lemma simp_engine_simps [simp]: "e_grammar (simp_engine g tokens now) = g" "e_tokens (simp_engine g tokens now) = tokens"
  by (simp_all add: simp_engine_def)

lemma expansion_harmless:
  assumes "ready lib g" "simp_lex lib input = Inr tokens" "Suc (length tokens) * length g \<le> Suc EXPAND_MAX_DEPTH"
  shows "calm (expand_at lib g input now)"
proof -
  have q: "''query'' \<in> production_names g" and a: "acyclic (corners (left_edges g))"
    using assms(1) validated by (auto simp: ready_def)
  have "fits (simp_engine g tokens now) 0 0 [''query'']"
    using rank_below [OF a q] assms(3) by (auto simp: fits_def)
  then have "calm (match_prod (simp_engine g tokens now) ''query'' 0 0)"
    by (intro expansion_calm(1) [where lib = lib]) (use q assms(1) in simp_all)
  then show ?thesis unfolding expand_at_tokens [OF assms(2)]
    by (auto intro!: calm_bind split: option.split)
qed

text \<open>C29: A grammar the checks accept, whose production names differ and whose productions, groups and repeated
  expressions take a token whenever they match, expands every text short enough for the depth to the
  text the grammar means, where it means one, and never fails for the depth, for a production it does
  not find, or for a loop that does not end.\<close>

theorem expansion_bounded:
  assumes "ready lib g" "simp_lex lib input = Inr tokens" "Suc (length tokens) * length g \<le> Suc EXPAND_MAX_DEPTH"
  shows "(expand_at lib g input now = Inr out \<longleftrightarrow> peg_prod (simp_engine g tokens now) ''query'' 0 (Some (out, length tokens))) \<and>
    (\<forall>n. expand_at lib g input now \<noteq> Inl (RecursionLimit n) \<and> expand_at lib g input now \<noteq> Inl (UnknownProduction n)) \<and>
    expand_at lib g input now \<noteq> Inl NoFuel"
proof -
  have "calm (expand_at lib g input now)" by (rule expansion_harmless [OF assms])
  then show ?thesis using engine_refinement [OF assms(2), of g now out] by (auto simp: only_def harmless_def)
qed

lemma sample_ready: "ready ascii_lib sample_grammar"
proof -
  have "distinct (map pr_name sample_grammar)" "solid_grammar sample_grammar" "detect_left_recursion sample_grammar = Inr ()" by code_simp+
  moreover have "check_literal ascii_lib ''query'' ''or'' = Inr ()" "check_literal ascii_lib ''unary'' ''no'' = Inr ()" by code_simp+
  ultimately show ?thesis by (simp add: sample_templates ready_def validate_grammar_def check_alt_def sample_grammar_def)
qed

theorem expansion_bounded_witness:
  "peg_prod (simp_engine sample_grammar sample_tokens 0) ''query'' 0 (Some (''NOT a OR b'', length sample_tokens)) \<and>
   expand_at ascii_lib sample_grammar ''no a or b'' 0 \<noteq> Inl NoFuel"
proof -
  have "Suc (length sample_tokens) * length sample_grammar \<le> Suc EXPAND_MAX_DEPTH"
    by (simp add: sample_tokens_def sample_grammar_def EXPAND_MAX_DEPTH_def)
  then show ?thesis using expansion_bounded [OF sample_ready sample_lexed, of 0 "''NOT a OR b''"] sample_expands by blast
qed

section \<open>Left recursion the search does not see\<close>

text \<open>A production that may match nothing stands before the one that recurses: the search takes a
  reference for something that takes a token, so the grammar is accepted and every expansion that reads
  past the sign runs into the depth.\<close>

definition hidden_grammar :: Grammar where
  "hidden_grammar =
     [\<lparr>pr_name = ''query'', pr_alts =
         [\<lparr>alt_seq = [Item None (GRule ''sign''), Item None (GRule ''query'')], alt_template = None\<rparr>,
          \<lparr>alt_seq = [Item None (GClass KWord)], alt_template = None\<rparr>]\<rparr>,
      \<lparr>pr_name = ''sign'', pr_alts =
         [\<lparr>alt_seq = [Item None (GRepeat (GLit ''minus'') ROpt None)], alt_template = None\<rparr>]\<rparr>]"

lemma hidden_accepted: "validate_grammar ascii_lib hidden_grammar = Inr ()"
proof -
  have "detect_left_recursion hidden_grammar = Inr ()" "check_literal ascii_lib ''sign'' ''minus'' = Inr ()" by code_simp+
  then show ?thesis by (simp add: validate_grammar_def check_alt_def hidden_grammar_def)
qed

lemma hidden_sign:
  "\<not> EXPAND_MAX_DEPTH < depth \<Longrightarrow> match_prod (simp_engine hidden_grammar [stok KWord ''a''] now) ''sign'' 0 depth = Inr (Some ([], 0))"
  by (simp add: match_prod.simps find_production_def hidden_grammar_def token_match_def stok_def alt_text_def
      label_capture_def raw_text_def simp_engine_def cong: bindE_weak)

lemma hidden_query:
  "\<exists>n. match_prod (simp_engine hidden_grammar [stok KWord ''a''] now) ''query'' 0 depth = Inl (RecursionLimit n)"
proof (induction "Suc EXPAND_MAX_DEPTH - depth" arbitrary: depth rule: less_induct)
  case less
  let ?E = "simp_engine hidden_grammar [stok KWord ''a''] now"
  have q: "find_production hidden_grammar ''query'' = Some (hd hidden_grammar)" by (simp add: find_production_def hidden_grammar_def)
  show ?case
  proof (cases "EXPAND_MAX_DEPTH < depth")
    case True
    then show ?thesis by (simp add: match_prod_alts)
  next
    case d: False
    obtain n where n: "match_prod ?E ''query'' 0 (Suc depth) = Inl (RecursionLimit n)"
      using less [of "Suc depth"] d by (meson diff_less_mono2 lessI not_less_eq)
    show ?thesis
    proof (cases "EXPAND_MAX_DEPTH < Suc depth")
      case True
      then have "match_prod ?E ''sign'' 0 (Suc depth) = Inl (RecursionLimit ''sign'')" by (simp add: match_prod_alts)
      then show ?thesis using d q by (simp add: match_prod_alts alt_match_def hidden_grammar_def)
    next
      case False
      then show ?thesis using d q n hidden_sign [OF False] by (simp add: match_prod_alts alt_match_def hidden_grammar_def)
    qed
  qed
qed

theorem hidden_left_recursion:
  "validate_grammar ascii_lib hidden_grammar = Inr () \<and> (\<exists>n. expand_at ascii_lib hidden_grammar ''a'' now = Inl (RecursionLimit n))"
proof -
  have l: "simp_lex ascii_lib ''a'' = Inr [stok KWord ''a'']" by code_simp
  obtain n where "match_prod (simp_engine hidden_grammar [stok KWord ''a''] now) ''query'' 0 0 = Inl (RecursionLimit n)"
    using hidden_query by blast
  then show ?thesis using hidden_accepted unfolding expand_at_tokens [OF l] by simp
qed

end
