(* ===== verification/Dsl_Text.thy ===== *)
theory Dsl_Text
  imports Dsl_Laws
begin

text \<open>
  The round trip of the text form: a query written out, one space after each token, is lexed and
  parsed back to itself.
\<close>

section \<open>Characters\<close>

lemma wide_tail_append: "utf8_tail k ps rest = Inr w \<Longrightarrow> utf8_tail k ps (rest @ t) = Inr w"
  by (induction k ps rest rule: utf8_tail.induct) (auto split: if_splits)

lemma utf8_head_append: "utf8_head c rest = Inr w \<Longrightarrow> utf8_head c (rest @ t) = Inr w"
  by (auto simp: utf8_head_def wide_tail_append split: option.splits)

lemma wide_head_fits: "utf8_head c rest = Inr w \<Longrightarrow> w - 1 \<le> length rest"
  by (auto simp: utf8_head_def dest!: utf8_tail_Inr split: option.splits)

lemma str_chars_append:
  assumes "from_utf8_err k s = None"
  shows "str_chars (s @ t) = str_chars s @ str_chars t"
  using assms
proof (induction k s rule: from_utf8_err.induct)
  case (2 k c rest)
  then obtain w where w: "utf8_head c rest = Inr w" by (cases "utf8_head c rest") auto
  then have "from_utf8_err (k + w) (drop (w - 1) rest) = None" using 2(2) by simp
  from 2(1) [OF w this] show ?case
    using utf8_head_append [OF w, of t] w wide_head_fits [OF w] by simp
qed simp

definition ascii :: "char \<Rightarrow> bool" where
  "ascii c \<longleftrightarrow> byte_val c < 128"

abbreviation singles :: "string \<Rightarrow> rchar list" where
  "singles s \<equiv> map (\<lambda>c. [c]) s"

lemma str_chars_ascii: "ascii c \<Longrightarrow> str_chars (c # t) = [c] # str_chars t"
  by (simp add: utf8_head_def utf8_ranges_def ascii_def Let_def)

lemma str_chars_singles: "\<forall>c\<in>set s. ascii c \<Longrightarrow> str_chars (s @ t) = singles s @ str_chars t"
  by (induction s) (simp_all add: str_chars_ascii del: str_chars.simps(2))

lemma concat_singles [simp]: "concat (singles s) = s"
  by (induction s) simp_all

lemma takeWhile_singles:
  "\<forall>c\<in>set s. P [c] \<Longrightarrow> \<not> P x \<Longrightarrow> takeWhile P (singles s @ x # cs) = singles s \<and> dropWhile P (singles s @ x # cs) = x # cs"
  by (induction s) auto

section \<open>Classes of ASCII characters\<close>

definition letter :: "char \<Rightarrow> bool" where
  "letter c \<longleftrightarrow> in_range 65 90 c \<or> in_range 97 122 c \<or> c = CHR ''_''"

definition digit :: "char \<Rightarrow> bool" where
  "digit c \<longleftrightarrow> in_range 48 57 c"

definition opener :: "char \<Rightarrow> bool" where
  "opener c \<longleftrightarrow> whitespace [c] \<or> c \<in> {CHR ''('', CHR '')'', CHR '','', CHR '':'', CHR ''='', CHR ''!'', CHR ''<'', CHR ''>'',
     CHR ''-'', CHR ''\"'', CHR ''@''}"

lemma whitespace_single: "whitespace [c] \<Longrightarrow> byte_val c \<in> {9, 10, 11, 12, 13, 32}"
  by (auto simp: whitespace_def WHITE_SPACE_def byte_val_def)

lemma opener_bytes: "opener c \<Longrightarrow> byte_val c \<in> {9, 10, 11, 12, 13, 32, 40, 41, 44, 58, 61, 33, 60, 62, 45, 34, 64}"
  unfolding opener_def by (auto dest!: whitespace_single) (simp_all add: byte_val_def)

lemma letter_bytes: "letter c \<longleftrightarrow> (65 \<le> byte_val c \<and> byte_val c \<le> 90) \<or> (97 \<le> byte_val c \<and> byte_val c \<le> 122) \<or> byte_val c = 95"
proof -
  have "c = CHR ''_'' \<longleftrightarrow> byte_val c = byte_val CHR ''_''" by (metis byte_val_eq)
  moreover have "byte_val CHR ''_'' = 95" by (simp add: byte_val_def)
  ultimately show ?thesis by (auto simp: letter_def in_range_def)
qed

lemma letter_facts: "letter c \<Longrightarrow> \<not> opener c \<and> \<not> digit c \<and> ascii c"
  unfolding letter_bytes using opener_bytes [of c] by (auto simp: digit_def in_range_def ascii_def)

lemma digit_facts: "digit c \<Longrightarrow> \<not> opener c \<and> \<not> ascii_alpha [c] \<and> ascii_hex [c] \<and> ascii c"
  using opener_bytes [of c] by (auto simp: digit_def in_range_def ascii_def ascii_alpha_def ascii_hex_def)

lemma space_facts: "whitespace '' ''" "\<not> ascii_hex '' ''" "\<not> ascii_digit '' ''" "\<not> word_char lib '' ''"
proof -
  show "whitespace '' ''" using space_is_white by (simp add: whitespace_def)
  show "\<not> ascii_hex '' ''" "\<not> ascii_digit '' ''" by code_simp+
  then show "\<not> word_char lib '' ''" by (simp add: word_char_def alphanumeric_def ascii_alpha_def in_range_def byte_val_def)
qed

lemma ascii_digit_single [simp]: "ascii_digit [c] = digit c"
  by (simp add: ascii_digit_def digit_def)

lemma word_char_single: "word_char lib [c] \<longleftrightarrow> letter c \<or> digit c"
  by (auto simp: word_char_def alphanumeric_def ascii_alpha_def letter_def)

lemma alphabetic_single: "alphabetic lib [c] \<or> [c] = ''_'' \<longleftrightarrow> letter c"
  by (auto simp: alphabetic_def ascii_alpha_def letter_def)

section \<open>Lexing one token\<close>

lemma opener_simps:
  assumes "\<not> opener c"
  shows "\<not> whitespace [c]" "c \<noteq> CHR ''(''" "c \<noteq> CHR '')''" "c \<noteq> CHR '',''" "c \<noteq> CHR '':''" "c \<noteq> CHR ''=''"
    "c \<noteq> CHR ''!''" "c \<noteq> CHR ''<''" "c \<noteq> CHR ''>''" "c \<noteq> CHR ''-''" "c \<noteq> CHR ''\"''" "c \<noteq> CHR ''@''"
  using assms by (simp_all add: opener_def)

lemma lex_char_letter:
  assumes "letter c"
  shows "lex_char lib [c] cs = Inr (Some (fst (lex_word lib ([c] # cs))), snd (lex_word lib ([c] # cs)))"
  using letter_facts [OF assms] opener_simps [of c] alphabetic_single [of lib c] assms
  by (simp add: lex_char_def Let_def split_beta)

lemma lex_char_digit:
  assumes "digit c"
  shows "lex_char lib [c] cs = map_sum id (\<lambda>(t, rest). (Some t, rest)) (lex_number ([c] # cs))"
  using digit_facts [OF assms] opener_simps [of c] assms by (simp add: lex_char_def Let_def)

lemma hex_run_none:
  assumes w: "\<forall>c\<in>set w. letter c \<or> digit c" "w \<noteq> []" and d: "digit (hd w) \<Longrightarrow> \<forall>c\<in>set w. digit c"
    and n: "\<not> (length w = 32 \<and> (\<forall>c\<in>set w. ascii_hex [c]))"
  shows "lex_hex_run lib (singles w @ '' '' # cs) = Inr None"
proof (cases "\<forall>c\<in>set w. ascii_hex [c]")
  case True
  then have r: "takeWhile ascii_hex (singles w @ '' '' # cs) = singles w" "dropWhile ascii_hex (singles w @ '' '' # cs) = '' '' # cs"
    using takeWhile_singles [of w ascii_hex "'' ''" cs] space_facts(2) by blast+
  have "ascii_digit (hd (singles w @ '' '' # cs)) \<Longrightarrow> \<not> list_ex ascii_alpha (singles w)"
    using d w(2) digit_facts by (cases w) (auto simp: list_ex_iff)
  then show ?thesis using n True by (auto simp: lex_hex_run_def Let_def r space_facts(4))
next
  case False
  then obtain a y b where a: "w = a @ y # b" "\<not> ascii_hex [y]" "\<forall>c\<in>set a. ascii_hex [c]"
    using split_list_first_prop [of w "\<lambda>c. \<not> ascii_hex [c]"] by auto
  from a have "dropWhile ascii_hex (singles w @ '' '' # cs) = [y] # singles b @ '' '' # cs"
    using takeWhile_singles [of a ascii_hex "[y]" "singles b @ '' '' # cs"] by simp
  moreover have "word_char lib [y]" using w(1) a(1) by (simp add: word_char_single)
  ultimately show ?thesis by (simp add: lex_hex_run_def Let_def)
qed

definition gap :: "rchar list \<Rightarrow> rchar list" where
  "gap cs = '' '' # cs"

text \<open>A text that one turn makes a token of, when a space follows.\<close>

definition lexes :: "dsl_lib \<Rightarrow> rchar list \<Rightarrow> Tok \<Rightarrow> bool" where
  "lexes lib xs t \<longleftrightarrow> xs \<noteq> [] \<and> (\<forall>cs. lex_turn lib (hd xs) (tl xs @ gap cs) = Inr (Some t, gap cs))"

lemma lex_gap: "lex_chars lib (gap cs) = lex_chars lib cs"
proof -
  have "lex_turn lib '' '' cs = Inr (None, cs)" using space_facts(1,2) by (simp add: lex_turn_def lex_char_def)
  then show ?thesis by (cases "lex_chars lib cs") (simp_all add: gap_def)
qed

lemma lexes_chars:
  assumes "lexes lib xs t"
  shows "lex_chars lib (xs @ gap cs) = bindE (lex_chars lib cs) (\<lambda>ts. Inr (t # ts))"
proof -
  obtain c ys where t: "xs = c # ys" using assms by (cases xs) (auto simp: lexes_def)
  then have "lex_turn lib c (ys @ gap cs) = Inr (Some t, gap cs)" using assms by (simp add: lexes_def)
  then show ?thesis by (simp add: t lex_gap)
qed

lemma lexes_word:
  assumes "\<forall>c\<in>set w. letter c \<or> digit c" "w \<noteq> []" "letter (hd w)" "\<not> (length w = 32 \<and> (\<forall>c\<in>set w. ascii_hex [c]))"
  shows "lexes lib (singles w) (word_tok w)"
  unfolding lexes_def
proof (intro conjI allI)
  fix cs
  have "lex_word lib (singles w @ '' '' # cs) = (word_tok w, '' '' # cs)"
    using takeWhile_singles [of w "word_char lib" "'' ''" cs] assms(1) space_facts(4) by (simp add: lex_word_def word_char_single)
  moreover have "digit (hd w) \<Longrightarrow> \<forall>c\<in>set w. digit c" using assms(3) letter_facts by blast
  moreover obtain c w' where w: "w = c # w'" using assms(2) by (cases w) auto
  ultimately show "lex_turn lib (hd (singles w)) (tl (singles w) @ gap cs) = Inr (Some (word_tok w), gap cs)"
  proof -
    have l: "lex_char lib [c] (singles w' @ '' '' # cs) = Inr (Some (word_tok w), '' '' # cs)"
      using lex_char_letter [of c lib "singles w' @ '' '' # cs"] assms(3) \<open>lex_word lib _ = _\<close> w by simp
    have "lex_hex_run lib (singles w @ '' '' # cs) = Inr None"
      by (rule hex_run_none) (use assms \<open>digit (hd w) \<Longrightarrow> _\<close> in auto)
    then have "lex_hex_run lib ([c] # singles w' @ '' '' # cs) = Inr None" unfolding w by simp
    then show ?thesis using l by (simp add: lex_turn_def gap_def w)
  qed
qed (use assms in simp)

lemma lexes_hex:
  assumes "length w = 32" "\<forall>c\<in>set w. ascii_hex [c]"
  shows "lexes lib (singles w) (THex w)"
  unfolding lexes_def
proof (intro conjI allI)
  fix cs
  obtain c w' where w: "w = c # w'" using assms(1) by (cases w) auto
  have r: "takeWhile ascii_hex (singles w @ '' '' # cs) = singles w" "dropWhile ascii_hex (singles w @ '' '' # cs) = '' '' # cs"
    using takeWhile_singles [of w ascii_hex "'' ''" cs] assms(2) space_facts(2) by blast+
  have "lex_hex_run lib (singles w @ '' '' # cs) = Inr (Some (THex w, '' '' # cs))"
    unfolding lex_hex_run_def Let_def r using assms(1) by (simp add: space_facts(4))
  then show "lex_turn lib (hd (singles w)) (tl (singles w) @ gap cs) = Inr (Some (THex w), gap cs)"
    using assms(2) by (simp add: lex_turn_def gap_def w)
qed (use assms in auto)

section \<open>Numbers\<close>

definition int_text :: "int \<Rightarrow> string" where
  "int_text n = (if n < 0 then CHR ''-'' # decimal (- n) else decimal n)"

lemma all_digits_digit: "all_digits s \<longleftrightarrow> (\<forall>c\<in>set s. digit c)"
  by (auto simp: all_digits_def digit_def in_range_def byte_val_def digit_value_def split: if_splits)

lemma decimal_length: "0 \<le> n \<Longrightarrow> n < 10 ^ Suc k \<Longrightarrow> length (decimal n) \<le> Suc k"
proof (induction k arbitrary: n)
  case 0
  then show ?case by (simp add: decimal.simps)
next
  case (Suc k)
  show ?case
  proof (cases "n < 10")
    case False
    then have "n div 10 < 10 ^ Suc k" "0 \<le> n div 10" using Suc(3) by auto
    then have "length (decimal (n div 10)) \<le> Suc k" by (intro Suc(1))
    then show ?thesis using False by (simp add: decimal.simps [of n])
  qed (simp add: decimal.simps)
qed

lemma parse_int_text: "i64_range n \<Longrightarrow> parse_i64 (int_text n) = Some n"
proof -
  assume r: "i64_range n"
  show ?thesis
  proof (cases "n < 0")
    case True
    then show ?thesis using r by (simp add: parse_i64_def int_text_def parse_nat_def digits_value_decimal)
  next
    case False
    then have d: "\<forall>c\<in>set (decimal n). digit c" using decimal_digits [of n] all_digits_digit by simp
    obtain c cs where c: "decimal n = c # cs" by (cases "decimal n") auto
    then have "digit c" using d by simp
    then have "c \<noteq> CHR ''-''" "c \<noteq> CHR ''+''" by (auto simp: digit_def in_range_def byte_val_def)
    then have "parse_i64 (decimal n) = Option.bind (parse_nat (decimal n)) (\<lambda>n. if i64_range n then Some n else None)"
      by (simp add: parse_i64_def c)
    then show ?thesis using r False by (simp add: int_text_def parse_nat_def digits_value_decimal)
  qed
qed

lemma lex_int:
  assumes "i64_range n"
  shows "lex_number (singles (int_text n) @ gap cs) = Inr (TInt (of_int n), gap cs)"
proof -
  define ds where "ds = decimal \<bar>n\<bar>"
  have d: "\<forall>c\<in>set ds. digit c" "ds \<noteq> []" using decimal_digits [of "\<bar>n\<bar>"] all_digits_digit by (simp_all add: ds_def)
  have r: "takeWhile ascii_digit (singles ds @ gap cs) = singles ds" "dropWhile ascii_digit (singles ds @ gap cs) = gap cs"
    using takeWhile_singles [of ds ascii_digit "'' ''" cs] d(1) space_facts(3) by (simp_all add: gap_def)
  have h: "hd (singles ds @ gap cs) \<noteq> ''-''" using d by (cases ds) (auto simp: digit_def in_range_def byte_val_def)
  have t: "int_text n = (if n < 0 then CHR ''-'' # ds else ds)" by (simp add: int_text_def ds_def)
  show ?thesis
    using parse_int_text [OF assms] r h d(2) by (cases "n < 0") (simp_all add: t lex_number_def Let_def gap_def)
qed

lemma int_text_start:
  obtains "n < 0" "int_text n = CHR ''-'' # decimal (- n)" "digit (hd (decimal (- n)))"
  | "0 \<le> n" "\<forall>c\<in>set (int_text n). digit c" "int_text n \<noteq> []"
proof (cases "n < 0")
  case True
  then have "\<forall>c\<in>set (decimal (- n)). digit c" using decimal_digits [of "- n"] all_digits_digit by simp
  then have "digit (hd (decimal (- n)))" by (simp add: hd_in_set)
  with True that(1) show thesis by (simp add: int_text_def)
next
  case False
  then have "\<forall>c\<in>set (decimal n). digit c" using decimal_digits [of n] all_digits_digit by simp
  with False that(2) show thesis by (simp add: int_text_def)
qed

lemma symbol_facts:
  assumes "c \<in> set ''(),:=!<>-@\"''"
  shows "\<not> whitespace [c] \<and> \<not> ascii_hex [c]"
  using assms whitespace_single [of c] by (auto simp: ascii_hex_def in_range_def byte_val_def)

lemma minus_facts: "\<not> whitespace ''-''" "\<not> ascii_hex ''-''" "\<not> whitespace ''@''" "\<not> ascii_hex ''@''" "\<not> whitespace ''\"''" "\<not> ascii_hex ''\"''"
  using symbol_facts by simp_all

lemma lexes_int:
  assumes "i64_range n"
  shows "lexes lib (singles (int_text n)) (TInt (of_int n))"
  unfolding lexes_def
proof (intro conjI allI)
  fix cs
  note num = lex_int [OF assms, of cs]
  show "lex_turn lib (hd (singles (int_text n))) (tl (singles (int_text n)) @ gap cs) = Inr (Some (TInt (of_int n)), gap cs)"
  proof (cases n rule: int_text_start)
    case 1
    obtain d ds where d: "decimal (- n) = d # ds" by (cases "decimal (- n)") auto
    then have "d \<noteq> CHR ''>''" "digit d" using 1(3) by (auto simp: digit_def in_range_def byte_val_def)
    then show ?thesis using num minus_facts(1,2) by (simp add: 1(2) d lex_turn_def lex_char_def)
  next
    case 2
    then obtain d ds where d: "int_text n = d # ds" by (cases "int_text n") auto
    then have dd: "digit d" "\<forall>c\<in>set (int_text n). digit c" using 2(2) by simp_all
    have "n < 10 ^ Suc 18" using assms by (simp add: i64_range_def)
    then have "length (int_text n) \<le> 19" using decimal_length [OF 2(1), of 18] 2(1) by (simp add: int_text_def)
    then have "lex_hex_run lib (singles (int_text n) @ '' '' # cs) = Inr None"
      using 2(2,3) by (intro hex_run_none) auto
    then show ?thesis using num digit_facts [OF dd(1)] lex_char_digit [OF dd(1), of lib "singles ds @ gap cs"]
      by (simp add: d lex_turn_def gap_def)
  qed
next
  show "singles (int_text n) \<noteq> []" by (cases n rule: int_text_start) simp_all
qed

lemma lexes_datetime:
  assumes "i64_range n"
  shows "lexes lib (singles (CHR ''@'' # int_text n)) (TDateTime (of_int n))"
  unfolding lexes_def
proof (intro conjI allI)
  fix cs
  note num = lex_int [OF assms, of cs]
  have "lex_datetime (singles (int_text n) @ gap cs) = Inr (TDateTime (of_int n), gap cs)"
  proof (cases n rule: int_text_start)
    case 1
    obtain d ds where d: "decimal (- n) = d # ds" by (cases "decimal (- n)") auto
    then show ?thesis using num 1(3) by (simp add: 1(2) lex_datetime_def datetime_tok_def)
  next
    case 2
    then obtain d ds where d: "int_text n = d # ds" by (cases "int_text n") auto
    then have "digit d" "d \<noteq> CHR ''\"''" using 2(2) by (auto simp: digit_def in_range_def byte_val_def)
    then show ?thesis using num by (simp add: d lex_datetime_def datetime_tok_def)
  qed
  then show "lex_turn lib (hd (singles (CHR ''@'' # int_text n))) (tl (singles (CHR ''@'' # int_text n)) @ gap cs) =
      Inr (Some (TDateTime (of_int n)), gap cs)"
    using minus_facts(3,4) by (simp add: lex_turn_def lex_char_def)
qed simp

section \<open>Strings\<close>

definition needs_escape :: "char \<Rightarrow> bool" where
  "needs_escape c \<longleftrightarrow> c = CHR ''\"'' \<or> c = CHR 0x5C"

definition escape :: "string \<Rightarrow> string" where
  "escape s = concat (map (\<lambda>c. if needs_escape c then [CHR 0x5C, c] else [c]) s)"

definition escape_chars :: "rchar list \<Rightarrow> rchar list" where
  "escape_chars cs = concat (map (\<lambda>c. if c = ''\"'' \<or> c = [CHR 0x5C] then [[CHR 0x5C], c] else [c]) cs)"

lemma utf8_tail_wide:
  assumes "utf8_tail k ps rest = Inr w" "\<forall>p\<in>set ps. \<forall>b. p b \<longrightarrow> 128 \<le> byte_val b"
  shows "\<forall>b\<in>set (take (length ps) rest). 128 \<le> byte_val b"
    and "utf8_tail k ps (take (length ps) rest @ t) = Inr w"
  using assms by (induction k ps rest rule: utf8_tail.induct) (auto split: if_splits)

lemma utf8_ranges_wide: "utf8_ranges c = Some ps \<Longrightarrow> \<forall>p\<in>set ps. \<forall>b. p b \<longrightarrow> 128 \<le> byte_val b"
  by (auto simp: utf8_ranges_def Let_def cont_def in_range_def split: if_splits)

lemma utf8_head_wide:
  assumes "utf8_head c rest = Inr w"
  shows "\<forall>b\<in>set (take (w - 1) rest). 128 \<le> byte_val b" "utf8_head c (take (w - 1) rest @ t) = Inr w"
    "byte_val c < 128 \<Longrightarrow> w = 1"
proof -
  obtain ps where ps: "utf8_ranges c = Some ps" "utf8_tail 1 ps rest = Inr w"
    using assms by (auto simp: utf8_head_def split: option.splits)
  have w: "w - 1 = length ps" using utf8_tail_Inr [OF ps(2)] by simp
  show "\<forall>b\<in>set (take (w - 1) rest). 128 \<le> byte_val b" "utf8_head c (take (w - 1) rest @ t) = Inr w"
    using utf8_tail_wide [OF ps(2) utf8_ranges_wide [OF ps(1)]] w ps(1) by (simp_all add: utf8_head_def)
  show "byte_val c < 128 \<Longrightarrow> w = 1" using ps by (simp add: utf8_ranges_def)
qed

lemma escape_append: "escape (s @ t) = escape s @ escape t"
  by (simp add: escape_def)

lemma escape_wide: "\<forall>b\<in>set s. 128 \<le> byte_val b \<Longrightarrow> escape s = s"
proof (induction s)
  case (Cons b s)
  then have "\<not> needs_escape b" by (auto simp: needs_escape_def byte_val_def)
  then show ?case using Cons by (simp add: escape_def)
qed (simp add: escape_def)

lemma str_chars_escape:
  assumes "from_utf8_err k s = None"
  shows "str_chars (escape s @ t) = escape_chars (str_chars s) @ str_chars t"
  using assms
proof (induction k s rule: from_utf8_err.induct)
  case (1 k)
  then show ?case by (simp add: escape_def escape_chars_def)
next
  case (2 k c rest)
  then obtain w where w: "utf8_head c rest = Inr w" by (cases "utf8_head c rest") auto
  then have "from_utf8_err (k + w) (drop (w - 1) rest) = None" using 2(2) by simp
  define a b where "a = take (w - 1) rest" and "b = drop (w - 1) rest"
  have ih: "str_chars (escape b @ t) = escape_chars (str_chars b) @ str_chars t"
    unfolding b_def by (rule 2(1) [OF w \<open>from_utf8_err (k + w) _ = None\<close>])
  have ab: "rest = a @ b" "escape a = a" "length a = w - 1"
    using utf8_head_wide(1) [OF w] escape_wide wide_head_fits [OF w] by (simp_all add: a_def b_def)
  have chars: "str_chars (c # rest) = (c # a) # str_chars b" using w by (simp add: a_def b_def)
  have h: "utf8_head c (a @ escape b @ t) = Inr w" using utf8_head_wide(2) [OF w] by (simp add: a_def)
  then have read: "str_chars (c # a @ escape b @ t) = (c # a) # str_chars (escape b @ t)" using ab(3) by simp
  show ?case
  proof (cases "needs_escape c")
    case True
    then have "byte_val c < 128" by (auto simp: needs_escape_def byte_val_def)
    then have "a = []" using utf8_head_wide(3) [OF w] by (simp add: a_def)
    have "ascii (CHR 0x5C)" by (simp add: ascii_def byte_val_def)
    then have "str_chars (escape (c # rest) @ t) = [CHR 0x5C] # str_chars (c # escape b @ t)"
      using True \<open>a = []\<close> ab by (simp add: escape_def str_chars_ascii del: str_chars.simps(2))
    then show ?thesis using read ih True chars \<open>a = []\<close>
      by (simp add: escape_chars_def needs_escape_def del: str_chars.simps(2))
  next
    case False
    then have "escape (c # rest) = c # a @ escape b" using ab escape_append [of a b] by (simp add: escape_def)
    then show ?thesis using read ih False chars
      by (simp add: escape_chars_def needs_escape_def del: str_chars.simps(2))
  qed
qed

lemma lex_string_escape: "lex_string (escape_chars cs @ ''\"'' # r) = Inr (concat cs, r)"
  by (induction cs) (simp_all add: escape_chars_def)

lemma concat_str_chars [simp]: "concat (str_chars s) = s"
  by (induction s rule: str_chars.induct) (auto split: sum.splits)

lemma lexes_string: "lexes lib (''\"'' # escape_chars (str_chars s) @ [''\"'']) (TStr s)"
  using minus_facts(5,6) lex_string_escape [of "str_chars s"]
  by (simp add: lexes_def lex_turn_def lex_char_def)

section \<open>A query written out\<close>

text \<open>The text of a token; a float has none here, its text being what \<open>decimal_f64\<close> reads.\<close>

definition tok_text :: "Tok \<Rightarrow> string" where
  "tok_text t =
     (case t of
        TLParen \<Rightarrow> ''('' | TRParen \<Rightarrow> '')'' | TComma \<Rightarrow> '','' | TColon \<Rightarrow> '':''
      | TArrow \<Rightarrow> ''->'' | TArrowStar \<Rightarrow> ''->*'' | TFatArrowStar \<Rightarrow> ''=>*''
      | THex s \<Rightarrow> s | TIdent name \<Rightarrow> name
      | TEq \<Rightarrow> ''='' | TNeq \<Rightarrow> ''!='' | TLt \<Rightarrow> ''<'' | TLte \<Rightarrow> ''<='' | TGt \<Rightarrow> ''>'' | TGte \<Rightarrow> ''>=''
      | TStr s \<Rightarrow> ''\"'' @ escape s @ ''\"''
      | TInt n \<Rightarrow> int_text (sint n) | TDateTime ms \<Rightarrow> ''@'' @ int_text (sint ms) | TFloat f \<Rightarrow> []
      | KAnd \<Rightarrow> ''AND'' | KOr \<Rightarrow> ''OR'' | KNot \<Rightarrow> ''NOT'' | KIs \<Rightarrow> ''IS'' | KPresent \<Rightarrow> ''PRESENT''
      | KAbsent \<Rightarrow> ''ABSENT'' | KUnknown \<Rightarrow> ''UNKNOWN'' | KMatches \<Rightarrow> ''MATCHES'' | KTrue \<Rightarrow> ''true'' | KFalse \<Rightarrow> ''false'')"

definition hex32 :: "string \<Rightarrow> bool" where
  "hex32 w \<longleftrightarrow> length w = 32 \<and> (\<forall>c\<in>set w. ascii_hex [c])"

fun printable :: "Tok \<Rightarrow> bool" where
  "printable (THex w) \<longleftrightarrow> hex32 w"
| "printable (TIdent w) \<longleftrightarrow> w \<noteq> [] \<and> (\<forall>c\<in>set w. letter c \<or> digit c) \<and> letter (hd w) \<and> \<not> hex32 w \<and> word_tok w = TIdent w"
| "printable (TStr s) \<longleftrightarrow> utf8_valid s"
| "printable (TFloat _) \<longleftrightarrow> False"
| "printable _ \<longleftrightarrow> True"

definition print_toks :: "Tok list \<Rightarrow> string" where
  "print_toks ts = concat (map (\<lambda>t. tok_text t @ '' '') ts)"

definition print_query :: "Query \<Rightarrow> string" where
  "print_query q = print_toks (query_toks q)"

definition prints :: "dsl_lib \<Rightarrow> Tok \<Rightarrow> bool" where
  "prints lib t \<longleftrightarrow> (\<exists>cs. lexes lib cs t \<and> (\<forall>r. str_chars (tok_text t @ r) = cs @ str_chars r))"

lemma prints_ascii: "lexes lib (singles s) t \<Longrightarrow> tok_text t = s \<Longrightarrow> \<forall>c\<in>set s. ascii c \<Longrightarrow> prints lib t"
  unfolding prints_def using str_chars_singles by blast

lemma int_text_ascii: "\<forall>c\<in>set (int_text n). ascii c"
proof (cases n rule: int_text_start)
  case 1
  then have "\<forall>c\<in>set (decimal (- n)). ascii c" using decimal_digits [of "- n"] all_digits_digit digit_facts by simp
  then show ?thesis by (simp add: 1(2) ascii_def byte_val_def)
qed (use digit_facts in auto)

lemma i64_range_sint: "i64_range (sint n)" for n :: i64
  using sint_range_size [of n] by (simp add: i64_range_def word_size)

lemma prints_word:
  assumes "tok_text t = w" "w \<noteq> []" "\<forall>c\<in>set w. letter c \<or> digit c" "letter (hd w)" "\<not> hex32 w" "word_tok w = t"
  shows "prints lib t"
  by (rule prints_ascii [where s = w]) (use lexes_word [of w lib] assms letter_facts digit_facts in \<open>auto simp: hex32_def\<close>)

lemma prints_symbol:
  assumes "t \<in> {TLParen, TRParen, TComma, TColon, TArrow, TArrowStar, TFatArrowStar, TEq, TNeq, TLt, TLte, TGt, TGte}"
  shows "prints lib t"
proof (rule prints_ascii [OF _ refl])
  show "lexes lib (singles (tok_text t)) t"
    using assms by (elim insertE emptyE)
      (simp_all add: tok_text_def lexes_def lex_turn_def lex_char_def gap_def symbol_facts)
  show "\<forall>c\<in>set (tok_text t). ascii c"
    using assms by (elim insertE emptyE) (simp_all add: tok_text_def ascii_def byte_val_def)
qed

lemma prints_keyword:
  assumes "t \<in> {KAnd, KOr, KNot, KIs, KPresent, KAbsent, KUnknown, KMatches, KTrue, KFalse}"
  shows "prints lib t"
proof (rule prints_word [OF refl])
  show "word_tok (tok_text t) = t" "tok_text t \<noteq> []" "\<not> hex32 (tok_text t)"
    using assms by (elim insertE emptyE; simp add: tok_text_def word_tok_def hex32_def)+
  have "\<forall>c\<in>set (tok_text t). letter c"
    using assms by (elim insertE emptyE) (simp_all add: tok_text_def letter_bytes byte_val_def)
  then show "\<forall>c\<in>set (tok_text t). letter c \<or> digit c" "letter (hd (tok_text t))"
    using \<open>tok_text t \<noteq> []\<close> by (simp_all add: hd_in_set)
qed

lemma hex_ascii: "ascii_hex [c] \<Longrightarrow> ascii c"
  by (auto simp: ascii_hex_def in_range_def ascii_def)

lemma printable_prints:
  assumes "printable t"
  shows "prints lib t"
proof (cases t)
  case (THex w)
  then show ?thesis
    using assms lexes_hex [of w lib] hex_ascii by (intro prints_ascii [where s = w]) (auto simp: tok_text_def hex32_def)
next
  case (TIdent w)
  then show ?thesis using assms by (intro prints_word [where w = w]) (auto simp: tok_text_def)
next
  case (TInt n)
  then show ?thesis
    using lexes_int [OF i64_range_sint, of lib n] int_text_ascii
    by (intro prints_ascii [where s = "int_text (sint n)"]) (auto simp: tok_text_def)
next
  case (TDateTime n)
  then show ?thesis
    using lexes_datetime [OF i64_range_sint, of lib n] int_text_ascii
    by (intro prints_ascii [where s = "''@'' @ int_text (sint n)"]) (auto simp: tok_text_def ascii_def byte_val_def)
next
  case (TStr s)
  have q: "str_chars (CHR ''\"'' # r) = ''\"'' # str_chars r" for r
    by (rule str_chars_ascii) (simp add: ascii_def byte_val_def)
  have "str_chars (tok_text t @ r) = (''\"'' # escape_chars (str_chars s) @ [''\"'']) @ str_chars r" for r
    using str_chars_escape [of 0 s "CHR ''\"'' # r"] assms TStr by (simp add: tok_text_def q del: str_chars.simps(2))
  then show ?thesis unfolding prints_def TStr using lexes_string TStr by blast
qed (use assms prints_symbol prints_keyword in auto)

lemma lex_print_toks:
  assumes "\<forall>t\<in>set ts. printable t"
  shows "lex lib (print_toks ts) = Inr ts"
proof -
  have sp: "str_chars (CHR '' '' # r) = gap (str_chars r)" for r
    using str_chars_ascii [of "CHR '' ''" r] by (simp add: gap_def ascii_def byte_val_def del: str_chars.simps(2))
  have "lex_chars lib (str_chars (print_toks ts)) = Inr ts"
    using assms
  proof (induction ts)
    case (Cons t ts)
    then obtain cs where cs: "lexes lib cs t" "\<And>r. str_chars (tok_text t @ r) = cs @ str_chars r"
      using printable_prints [of t lib] unfolding prints_def by auto
    have "str_chars (print_toks (t # ts)) = cs @ gap (str_chars (print_toks ts))"
      by (simp add: print_toks_def cs(2) sp del: str_chars.simps(2))
    then show ?case using lexes_chars [OF cs(1)] Cons by simp
  qed (simp add: print_toks_def)
  then show ?thesis by (simp add: lex_def)
qed

text \<open>C33: The text form can say a query: written out, tokens apart by a space, a query that has the shape of
  a text and nests less than 128 deep is read back exactly, whatever its strings hold and however
  it nests, as long as its fields are ASCII words that are no keyword and it holds no float.\<close>

theorem text_roundtrip:
  assumes "sayable q" "nesting q < MAX_DEPTH" "\<forall>t\<in>set (query_toks q). printable t"
    and "\<And>u. try_parse lib (hex_text u) = Some u"
  shows "parse_query lib (print_query q) = Inr q"
  using lex_print_toks [OF assms(3)] sayable_back [of lib q, OF assms(4,1,2)]
  by (simp add: parse_query_def print_query_def)

definition sample_text_query :: Query where
  "sample_text_query = QAnd [QEq ''title'' (VString ''a \"b\"'') AValue, QNot (QFollowsTransitive ''album'' (FPath ''/x'') True)]"

theorem text_roundtrip_witness:
  "parse_query ascii_lib (print_query sample_text_query) = Inr sample_text_query"
proof (rule text_roundtrip)
  show "sayable sample_text_query" "nesting sample_text_query < MAX_DEPTH"
    by (simp_all add: sample_text_query_def MAX_DEPTH_def is_or_def is_and_def)
  have "utf8_valid ''a \"b\"''" "utf8_valid ''/x''" by code_simp+
  then show "\<forall>t\<in>set (query_toks sample_text_query). printable t"
    by (simp add: sample_text_query_def compare_toks_def aspect_toks_def paren_def is_or_def is_and_def letter_bytes byte_val_def
      hex32_def word_tok_def)
qed (rule ascii_lib_uuid)

end
