(* ===== verification/Simp_Quote.thy ===== *)
theory Simp_Quote
  imports Simp_Template Dsl_Text
begin

text \<open>
  What \<open>str()\<close> makes of a text, read by the lexer of the query language: one string, the text itself, or
  what a string literal of the simplified language, which is kept as it is, holds.
\<close>

section \<open>Characters cut out of a text\<close>

text \<open>A character is read whole wherever it stands.\<close>

definition whole_char :: "rchar \<Rightarrow> bool" where
  "whole_char c \<longleftrightarrow> (\<forall>t. str_chars (c @ t) = c # str_chars t)"

lemma str_chars_whole:
  assumes "from_utf8_err k s = None"
  shows "\<forall>c\<in>set (str_chars s). whole_char c"
  using assms
proof (induction k s rule: from_utf8_err.induct)
  case (2 k c rest)
  then obtain w where w: "utf8_head c rest = Inr w" by (cases "utf8_head c rest") auto
  then have n: "from_utf8_err (k + w) (drop (w - 1) rest) = None" using 2(2) by simp
  have "length (take (w - 1) rest) = w - 1" using wide_head_fits [OF w] by simp
  then have "whole_char (c # take (w - 1) rest)"
    using utf8_head_wide(2) [OF w] by (simp add: whole_char_def)
  then show ?case using 2(1) [OF w n] w by simp
qed simp

lemma whole_chars: "\<forall>c\<in>set cs. whole_char c \<Longrightarrow> str_chars (concat cs @ t) = cs @ str_chars t"
  by (induction cs) (auto simp: whole_char_def)

section \<open>Literals of the simplified language\<close>

lemma quoted_reads: "quoted cs = Some (used, rest) \<Longrightarrow> \<exists>v. \<forall>r. lex_string (used @ r) = Inr (v, r)"
proof (induction cs arbitrary: used rest rule: quoted.induct)
  case (2 c cs)
  show ?case
  proof (cases "c = [CHR 0x5C]")
    case True
    then obtain e more where cs: "cs = e # more" using 2(3) by (cases cs) auto
    then obtain u where u: "quoted more = Some (u, rest)" "used = c # e # u" using 2(3) True by auto
    obtain v where "\<forall>r. lex_string (u @ r) = Inr (v, r)" using 2(1) [OF True cs u(1)] by blast
    then show ?thesis using u(2) True by auto
  next
    case b: False
    show ?thesis
    proof (cases "c = ''\"''")
      case True
      then show ?thesis using 2(3) by auto
    next
      case False
      then obtain u where u: "quoted cs = Some (u, rest)" "used = c # u" using 2(3) b by auto
      obtain v where "\<forall>r. lex_string (u @ r) = Inr (v, r)" using 2(2) [OF b False u(1)] by blast
      then show ?thesis using u(2) False b by auto
    qed
  qed
qed simp

lemma quoted_ends: "quoted cs = Some (used, rest) \<Longrightarrow> used \<noteq> [] \<and> last used = ''\"''"
proof (induction cs arbitrary: used rest rule: quoted.induct)
  case (2 c cs)
  show ?case
  proof (cases "c = [CHR 0x5C]")
    case True
    then obtain e more where cs: "cs = e # more" using 2(3) by (cases cs) auto
    then obtain u where u: "quoted more = Some (u, rest)" "used = c # e # u" using 2(3) True by auto
    then show ?thesis using 2(1) [OF True cs u(1)] by simp
  next
    case b: False
    show ?thesis
    proof (cases "c = ''\"''")
      case False
      then obtain u where u: "quoted cs = Some (u, rest)" "used = c # u" using 2(3) b by auto
      then show ?thesis using 2(2) [OF b False u(1)] by simp
    qed (use 2(3) in auto)
  qed
qed simp

lemma string_token:
  assumes "simp_turn lib prev c cs = Inr (Some t, used, rest)" "tk_kind t = KStr"
  shows "c = ''\"'' \<and> (\<exists>u. quoted cs = Some (u, rest) \<and> used = c # u \<and> tk_text t = ''\"'' @ concat u)"
proof (cases "c = ''\"''")
  case True
  then have "\<not> whitespace c" "c \<noteq> ''(''" "c \<noteq> '')''" using minus_facts(5) by auto
  then show ?thesis using assms True by (cases "quoted cs") (auto simp: simp_turn_def stok_def)
next
  case False
  have "tk_kind t \<noteq> KStr"
    using assms(1) False unfolding simp_turn_def Let_def stok_def
    by (cases "number_run (c # cs)") (auto split: if_splits option.splits prod.splits)
  then show ?thesis using assms(2) by blast
qed

lemma string_tokens:
  assumes "simp_chars lib prev cs = Inr ts" "\<forall>c\<in>set cs. whole_char c" "t \<in> set ts" "tk_kind t = KStr"
  shows "\<exists>v us. tk_text t = concat us \<and> (\<forall>c\<in>set us. whole_char c) \<and> lexes lib us (TStr v) \<and> hd us = ''\"'' \<and> last us = ''\"'' \<and> 2 \<le> length us"
  using assms
proof (induction lib prev cs arbitrary: ts rule: simp_chars.induct)
  case (2 lib prev c cs)
  obtain t0 used rest ts' where turn: "simp_turn lib prev c cs = Inr (t0, used, rest)"
    and more: "simp_chars lib (Some (last used)) rest = Inr ts'" and ts: "ts = (case t0 of Some t \<Rightarrow> t # ts' | None \<Rightarrow> ts')"
    using 2(2) by (auto simp: bindE_eq_Inr)
  have all: "c # cs = used @ rest" by (rule simp_turn_all [OF turn])
  show ?case
  proof (cases "t \<in> set ts'")
    case True
    have "\<forall>c\<in>set rest. whole_char c" using 2(3) all by (metis UnCI set_append)
    then show ?thesis using 2(1) [OF turn refl refl more _ True 2(5)] by blast
  next
    case False
    then have "t0 = Some t" using ts 2(4) by (cases t0) auto
    then obtain u where u: "c = ''\"''" "quoted cs = Some (u, rest)" "used = c # u" "tk_text t = ''\"'' @ concat u"
      using string_token turn 2(5) by blast
    obtain v where "\<forall>r. lex_string (u @ r) = Inr (v, r)" using quoted_reads [OF u(2)] by blast
    then have "lexes lib (''\"'' # u) (TStr v)" using minus_facts(5,6) by (simp add: lexes_def lex_turn_def lex_char_def)
    moreover have "\<forall>c\<in>set (''\"'' # u). whole_char c" using 2(3) all u(1,3) by (metis UnCI set_append)
    ultimately show ?thesis using u quoted_ends [OF u(2)]
      by (intro exI [of _ v] exI [of _ "''\"'' # u"]) (cases u; simp)
  qed
qed simp

section \<open>What \<open>str()\<close> makes\<close>

definition already_quoted :: "string \<Rightarrow> bool" where
  "already_quoted s \<longleftrightarrow> 2 \<le> length s \<and> hd s = CHR ''\"'' \<and> last s = CHR ''\"''"

lemma quote_dsl_escapes: "quote_dsl s = (if already_quoted s then s else tok_text (TStr s))"
  by (simp add: quote_dsl_def already_quoted_def tok_text_def escape_def needs_escape_def cong: if_cong)

text \<open>A text that is one token of the query language, followed by a space.\<close>

definition reads_as :: "dsl_lib \<Rightarrow> string \<Rightarrow> Tok \<Rightarrow> bool" where
  "reads_as lib s t \<longleftrightarrow> (\<forall>r. lex lib (s @ '' '' @ r) = bindE (lex lib r) (\<lambda>ts. Inr (t # ts)))"

lemma reads_as_chars:
  assumes "lexes lib cs t" "\<And>r. str_chars (s @ r) = cs @ str_chars r"
  shows "reads_as lib s t"
proof -
  have sp: "str_chars (CHR '' '' # r) = gap (str_chars r)" for r
    using str_chars_ascii [of "CHR '' ''" r] by (simp add: gap_def ascii_def byte_val_def del: str_chars.simps(2))
  show ?thesis using lexes_chars [OF assms(1)] by (simp add: reads_as_def lex_def assms(2) sp del: str_chars.simps(2))
qed

text \<open>C31: What \<open>str()\<close> makes of a text, written into a query, is read by the query language as one
  string: the text itself, whatever quotes and backslashes it holds, unless it stands between quotes,
  and one string too for every string literal the simplified language reads, which is kept as it is.\<close>

theorem quoted_reads_back:
  assumes "utf8_valid s"
  shows "(\<not> already_quoted s \<longrightarrow> reads_as lib (quote_dsl s) (TStr s)) \<and>
    (\<forall>ts. simp_lex lib s = Inr ts \<longrightarrow> (\<forall>t\<in>set ts. tk_kind t = KStr \<longrightarrow> (\<exists>v. reads_as lib (quote_dsl (tk_text t)) (TStr v))))"
proof -
  have v: "from_utf8_err 0 s = None" using assms by simp
  have "reads_as lib (quote_dsl s) (TStr s)" if "\<not> already_quoted s"
  proof -
    obtain cs where "lexes lib cs (TStr s)" "\<And>r. str_chars (tok_text (TStr s) @ r) = cs @ str_chars r"
      using printable_prints [of "TStr s" lib] assms unfolding prints_def by auto
    then show ?thesis using that reads_as_chars by (simp add: quote_dsl_escapes)
  qed
  moreover have "\<exists>v. reads_as lib (quote_dsl (tk_text t)) (TStr v)"
    if ts: "simp_lex lib s = Inr ts" and t: "t \<in> set ts" "tk_kind t = KStr" for ts t
  proof -
    obtain v us where us: "tk_text t = concat us" "\<forall>c\<in>set us. whole_char c" "lexes lib us (TStr v)"
      "hd us = ''\"''" "last us = ''\"''" "2 \<le> length us"
      using string_tokens [OF ts [unfolded simp_lex_def] str_chars_whole [OF v] t] by blast
    obtain ms where ms: "us = ''\"'' # ms @ [''\"'']"
      using us(4-6) by (cases us; cases "tl us" rule: rev_cases) auto
    have "already_quoted (tk_text t)" by (simp add: us(1) ms already_quoted_def)
    then show ?thesis using reads_as_chars [OF us(3)] whole_chars [OF us(2)] us(1) by (auto simp: quote_dsl_escapes)
  qed
  ultimately show ?thesis by blast
qed

theorem quoted_reads_back_witness:
  "reads_as ascii_lib (quote_dsl ''a\"b'') (TStr ''a\"b'')"
proof -
  have "utf8_valid ''a\"b''" "\<not> already_quoted ''a\"b''" by code_simp+
  then show ?thesis using quoted_reads_back [of "''a\"b''" ascii_lib] by blast
qed

end
