(* ===== verification/Spec2Isabelle.thy ===== *)
theory Spec2Isabelle
  imports Inverse Undo Date Sync_Model Kv_Store Simp_Depth Simp_Quote
begin

text \<open>
  A verification development of metafolder, a daemon that keeps metarecords (sets of named values) for
  the files of a repository, logs every write, undoes it on demand, and answers queries. The sources
  are the Rust crates under \<open>src/crates\<close>; below, \<open>core/\<close> and \<open>daemon/\<close> stand for
  \<open>crates/core/src/\<close> and \<open>crates/daemon/src/\<close>.

  \<^bold>\<open>The program and its parts.\<close> A client's write goes through a \<open>Writer\<close> (\<open>daemon/log.rs\<close>): one transaction
  that checks each request, changes the rows of the key-value store (\<open>daemon/kvstore/mod.rs\<close>), has the
  store bring the query index up to date (\<open>daemon/kvstore/derived.rs\<close>), moves the versions of the
  metarecords (\<open>daemon/version.rs\<close>), and appends operations with their snapshots to the event log. A
  revert (\<open>daemon/revert.rs\<close>) reads that log and writes through a writer of its own; what an undo or a
  redo takes is chosen by \<open>core/undo.rs\<close>. A query is written in a text form (\<open>core/dsl.rs\<close>), by hand or by
  expanding a simplified language with a grammar of the user's (\<open>core/simplified\<close>), becomes a
  tree (\<open>core/query.rs\<close>), is checked (\<open>daemon/query_validate.rs\<close>), and is evaluated
  (\<open>daemon/index/mod.rs\<close>) against the index, read as a source (\<open>daemon/kvstore/source.rs\<close>). The repository
  keeps a reference evaluator (\<open>crates/query-oracle\<close>) that its tests compare the index with.

  \<^bold>\<open>The theories.\<close>

  Shared: \<open>Prelude\<close> (byte strings, identifiers, words, results and their folds), \<open>Text\<close> (the string
  functions of Rust's standard library), \<open>Float\<close> and \<open>Float_Laws\<close> (\<open>f64\<close> by its bits, and \<open>i64 as f64\<close>),
  \<open>Comparators\<close> (the order contract of Rust's sorts).

  Data: \<open>Hex\<close> (\<open>core/hex.rs\<close>), \<open>Metarecord\<close> (\<open>core/metarecord.rs\<close>: values, names, paths), \<open>Date\<close>
  (\<open>core/date.rs\<close>), \<open>Rows\<close> (\<open>daemon/rows.rs\<close>), \<open>Encoding\<close> (keys, values and rows as bytes), \<open>Version\<close>.

  Store: \<open>Table\<close> is the interface \<open>table_ops\<close> of an LMDB table, interpreted on lists in key order;
  \<open>Rowstore\<close> models the metarecords, the rows and the tables kept beside them; \<open>Oplog\<close> the operations,
  snapshots, labels and their indexes.

  Writes: \<open>Writer\<close> models the methods of a writer, its buffer of operations, its checks and its commit.
  \<open>Writer_Laws\<close> proves what each method keeps, \<open>Session\<close> composes them from \<open>begin\<close> to \<open>commit\<close>, \<open>Forest\<close>
  shows the forests of positions acyclic, \<open>Label_Tree\<close> follows the labels.

  Undoing: \<open>Revert\<close> and \<open>Revert_Laws\<close> (plans, what still stands), \<open>Inverse\<close> (a revert is the inverse of a
  write), \<open>Undo\<close> (what undo and redo offer).

  Sync: \<open>Sync_Model\<close> (\<open>core/sync/model.rs\<close>), the decision per field, the snapshot of a link and its wire form.

  Queries: \<open>Query\<close>, \<open>Query_Validate\<close>, \<open>Oracle\<close>, \<open>Oracle_Laws\<close> and \<open>Oracle_Sort\<close> (the reference evaluator, sorting,
  cursors and pages, with \<open>daemon/pagination.rs\<close>), \<open>Dsl_Lexer\<close>, \<open>Dsl\<close>, \<open>Dsl_Laws\<close> and \<open>Dsl_Text\<close> (the text form).

  Simplified language: \<open>Float_Text\<close> (the arithmetic, reading and printing of \<open>f64\<close> in Rust's standard
  library), \<open>Simp_Lexer\<close>, \<open>Simp_Template\<close>, \<open>Simp_Grammar\<close> and \<open>Simp_Engine\<close> model \<open>lexer.rs\<close>, \<open>template.rs\<close>,
  \<open>grammar.rs\<close> and \<open>engine.rs\<close>. \<open>Simp_Blocks\<close> shows that its parsers end and that rendering fails on its
  own account only; \<open>Simp_Peg\<close> gives a grammar its meaning as a relation, which the engine refines;
  \<open>Simp_Left\<close> is about the search for left recursion, \<open>Simp_Depth\<close> about the depth of an expansion,
  \<open>Simp_Quote\<close> about the strings \<open>str()\<close> writes.

  Query index: \<open>Index_Keys\<close> (\<open>daemon/index/keys.rs\<close>); \<open>Index_Eval\<close> models the evaluator and the planner over
  a record of the source's operations; \<open>Index_Laws\<close> states what a source promises as the locale
  \<open>data_source\<close>, inside which \<open>Index_Agree\<close> proves the evaluator equal to the reference one. \<open>Derived\<close>
  models the derived key spaces and what each write changes in them, \<open>Kv_Source\<close> the source that reads
  them. \<open>Derived_Keys\<close>, \<open>Derived_Exact\<close>, \<open>Derived_Reads\<close> say what the key spaces hold and what reading them
  gives; \<open>Derived_Parts\<close>, \<open>Derived_Sets\<close>, \<open>Derived_Forest\<close>, \<open>Derived_Laws\<close> that the writes keep it so;
  \<open>Kv_Source_Laws\<close>, \<open>Kv_Compare\<close>, \<open>Kv_Laws\<close>, \<open>Kv_Queries\<close> that the store is a \<open>data_source\<close> (the
  interpretation \<open>kv\<close>), and \<open>Kv_Store\<close> puts the two together.

  \<^bold>\<open>What is shown.\<close> The tables of a store stay exact under every write, and so do the indexes of the log; a
  committed write keeps the versions, the absence of duplicates, one type per field, and acyclic
  forests, and its operations account for exactly what it changed; reverting them restores every
  metarecord. The choice of an undo is the newest standing change, and undo and redo offer each other's
  change. The derived key spaces are exact after every write, and over exact key spaces a query answered
  from the index is the answer of the reference evaluator. A validated query is answered, its pages
  give the whole answer once, in order. Texts of queries, dates, rows, operations and snapshots of
  links are read back as they were written. The engine of the simplified language gives the text its
  grammar means, the search for left recursion finds just the cycles, and a grammar that passes the
  checks and takes tokens does not run into the depth on a short text. Walks and loops end, with the result they should have.

  \<^bold>\<open>Bounds and fuel.\<close> Where the code has a bound (\<open>MAX_TREE_DEPTH\<close> in the walks up a forest and down a path,
  \<open>MAX_DEPTH\<close> of the parser) the model counts it down and fails as the code does. Where the code has none,
  the fuel is shown enough: \<open>standing_fuel\<close> has a turn for each operation of the log and one more, since
  a revert is younger than what it reverts; the walks of the labels have one for each label, since a
  label is younger than its parent; the lists of operands have one for each token left; the levels
  of a subtree (\<open>grow\<close>) have one for each id of the universe and two more. The walks of a hierarchy
  (\<open>ancestors_loop\<close>, \<open>reach_loop\<close>) and of a forest (\<open>descend\<close>) have no fuel: each turn meets a new
  node or shortens the stack. The parsers of the simplified language have a turn for each token and
  one more, and a repetition of its engine a turn for each token of the input and one more
  (\<open>parse_grammar_fuel\<close>, \<open>parse_texpr_fuel\<close>, \<open>engine_ends\<close>); the depth of the engine, 256, is the code's.

  \<^bold>\<open>Parameters.\<close> The hash \<open>xxh3\<close> is a function argument (\<open>H\<close>); the regex crate, its literals and the
  lower-casing of texts are the records \<open>text_lib\<close> and \<open>index_lib\<close>; the base64 and JSON of a cursor,
  the text of a uuid and the hash of a request are the record \<open>paging\<close>; the character classes beyond
  ASCII and the reading of uuids are \<open>dsl_lib\<close>. LMDB is the locale \<open>table_ops\<close>. A roaring bitmap is a set.

  \<^bold>\<open>Not modelled.\<close> Serde's derived forms, \<open>convert_to\<close> and \<open>retype_field\<close> of the writer, whose parsers read
  free text; the pages of the index in the order of a field (\<open>walk_values\<close>) and \<open>check_derived\<close>, which
  compares the key spaces with the rows and changes nothing; opening, growing and migrating the store,
  which is LMDB and files; the resolution of paths over the cached forest, and of the operands of
  \<open>daemon/executor.rs\<close>, which the evaluator receives as \<open>QueryRoots\<close>; the plan and the run of a sync,
  which go through a remote daemon; the schema, the loading of the grammar file, tags, ordering and the
  trash; reconciliation and the watchers, which read the file system and the kernel's events; the HTTP
  routes, the configuration files, the command line and the graphical client, which turn requests into
  the calls modelled here.
\<close>

end
